(* ===== verification/VC_Prelude.thy ===== *)
theory VC_Prelude
  imports Main "HOL-Library.Word" "HOL-Library.AList"
begin

text \<open>
  Shared vocabulary of the development.

  \<^item> Machine integers and byte strings: \<open>u8\<close> .. \<open>u64\<close> are words, \<open>bytes\<close> is a list of \<open>u8\<close>.
    A Rust array \<open>[u8; N]\<close> is a \<open>bytes\<close> value whose length is stated where it matters.
    \<open>usize\<close> is \<open>nat\<close> (a 64-bit target: lengths and offsets of in-memory buffers never
    overflow \<open>usize\<close>).
  \<^item> Fallible code: \<open>'e + 'a\<close> with \<open>Inl\<close> the error; \<open>rbind\<close> is the \<open>?\<close> operator, \<open>ok_or\<close> and
    \<open>map_err\<close> are \<open>Option::ok_or\<close> and \<open>Result::map_err\<close>. A method on \<open>&mut self\<close> returns
    its result and the state it leaves behind, also when it fails; \<open>sbind\<close> sequences those.
  \<^item> Readers: a cursor \<open>(data, i)\<close> of the source is represented by the unread suffix
    \<open>data[i..]\<close>; \<open>take_n\<close> is the \<open>take\<close> closure every decoder of the source defines.
    \<open>take_at\<close> is the cursor form and \<open>take_at_suffix\<close> relates the two.
  \<^item> \<open>HashMap\<close>: an association list with distinct keys. Rust leaves the iteration order
    open; the model iterates in insertion order and no property depends on it.
\<close>

named_theorems rd_simps \<open>equations and success characterisations of readers and results\<close>
named_theorems len_simps \<open>lengths of encodings\<close>

unbundle bit_operations_syntax

type_synonym u8 = "8 word"
type_synonym u16 = "16 word"
type_synonym u32 = "32 word"
type_synonym u64 = "64 word"
type_synonym bytes = "u8 list"

subsection \<open>Results\<close>

definition rbind :: "'e + 'a \<Rightarrow> ('a \<Rightarrow> 'e + 'b) \<Rightarrow> 'e + 'b" where
  "rbind m f = (case m of Inl e \<Rightarrow> Inl e | Inr a \<Rightarrow> f a)"

definition ok_or :: "'e \<Rightarrow> 'a option \<Rightarrow> 'e + 'a" where
  "ok_or e x = (case x of None \<Rightarrow> Inl e | Some a \<Rightarrow> Inr a)"

definition map_err :: "('e \<Rightarrow> 'f) \<Rightarrow> 'e + 'a \<Rightarrow> 'f + 'a" where
  "map_err g m = (case m of Inl e \<Rightarrow> Inl (g e) | Inr a \<Rightarrow> Inr a)"

definition guard_r :: "bool \<Rightarrow> 'e \<Rightarrow> 'e + unit" where
  "guard_r b e = (if b then Inr () else Inl e)"

definition sbind :: "('e + 'a) \<times> 's \<Rightarrow> ('a \<Rightarrow> 's \<Rightarrow> ('e + 'b) \<times> 's) \<Rightarrow> ('e + 'b) \<times> 's" where
  "sbind m f = (case m of (Inl e, s) \<Rightarrow> (Inl e, s) | (Inr a, s) \<Rightarrow> f a s)"

lemma rbind_simps [simp]: "rbind (Inl e) f = Inl e" "rbind (Inr a) f = f a"
  by (simp_all add: rbind_def)

lemma rbind_Inr_iff [rd_simps]: "rbind m f = Inr b \<longleftrightarrow> (\<exists>a. m = Inr a \<and> f a = Inr b)"
  by (cases m) auto

lemma rbind_Inl_iff: "rbind m f = Inl e \<longleftrightarrow> m = Inl e \<or> (\<exists>a. m = Inr a \<and> f a = Inl e)"
  by (cases m) auto

lemma ok_or_simps [simp]: "ok_or e None = Inl e" "ok_or e (Some a) = Inr a"
  by (simp_all add: ok_or_def)

lemma ok_or_Inr_iff [simp]: "ok_or e x = Inr a \<longleftrightarrow> x = Some a"
  by (cases x) auto

lemma ok_or_Inl_iff [simp]: "ok_or e x = Inl e' \<longleftrightarrow> x = None \<and> e' = e"
  by (cases x) auto

lemma map_err_simps [simp]: "map_err g (Inl e) = Inl (g e)" "map_err g (Inr a) = Inr a"
  by (simp_all add: map_err_def)

lemma map_err_Inr_iff [simp]: "map_err g m = Inr a \<longleftrightarrow> m = Inr a"
  by (cases m) auto

lemma guard_r_Inr_iff [simp]: "guard_r b e = Inr u \<longleftrightarrow> b"
  by (simp add: guard_r_def)

lemma guard_r_simps [simp]: "guard_r True e = Inr ()" "guard_r False e = Inl e"
  by (simp_all add: guard_r_def)

lemma sbind_simps [simp]: "sbind (Inl e, s) f = (Inl e, s)" "sbind (Inr a, s) f = f a s"
  by (simp_all add: sbind_def)

lemma sbind_Inr_iff [rd_simps]:
  "sbind m f = (Inr b, t) \<longleftrightarrow> (\<exists>a s. m = (Inr a, s) \<and> f a s = (Inr b, t))"
  by (cases m; cases "fst m") auto

lemma sbind_Inl_iff:
  "sbind m f = (Inl e, t) \<longleftrightarrow> m = (Inl e, t) \<or> (\<exists>a s. m = (Inr a, s) \<and> f a s = (Inl e, t))"
  by (cases m; cases "fst m") auto

text \<open>What a sequence of \<open>&mut self\<close> steps keeps, on every exit.\<close>

lemma sbind_keeps:
  assumes "P (snd m)" and "\<And>a s. m = (Inr a, s) \<Longrightarrow> P s \<Longrightarrow> P (snd (f a s))"
  shows "P (snd (sbind m f))"
  using assms by (cases m; cases "fst m") auto

lemma sbind_assoc: "sbind (sbind m f) g = sbind m (\<lambda>a s. sbind (f a s) g)"
  by (cases m; cases "fst m") auto

text \<open>The same for code that may panic or not return, which is the value \<open>None\<close>.\<close>

definition pbind :: "(('e + 'a) \<times> 's) option \<Rightarrow> ('a \<Rightarrow> 's \<Rightarrow> (('e + 'b) \<times> 's) option) \<Rightarrow> (('e + 'b) \<times> 's) option" where
  "pbind m f = (case m of None \<Rightarrow> None | Some (Inl e, s) \<Rightarrow> Some (Inl e, s) | Some (Inr a, s) \<Rightarrow> f a s)"

lemma pbind_simps [simp]:
  "pbind None f = None" "pbind (Some (Inl e, s)) f = Some (Inl e, s)" "pbind (Some (Inr a, s)) f = f a s"
  by (simp_all add: pbind_def)

lemma pbind_Inr_iff [rd_simps]:
  "pbind m f = Some (Inr b, t) \<longleftrightarrow> (\<exists>a s. m = Some (Inr a, s) \<and> f a s = Some (Inr b, t))"
  by (auto simp: pbind_def split: option.splits sum.splits)

text \<open>What such a sequence keeps on every exit.\<close>

lemma pbind_keeps:
  assumes "pbind m f = Some (r, t)" "\<And>a s. m = Some (a, s) \<Longrightarrow> P s"
    and "\<And>a s. m = Some (Inr a, s) \<Longrightarrow> P s \<Longrightarrow> f a s = Some (r, t) \<Longrightarrow> P t"
  shows "P t"
  using assms by (auto simp: pbind_def split: option.splits sum.splits)

subsection \<open>Little- and big-endian encodings\<close>

definition le_bytes :: "nat \<Rightarrow> 'a::len word \<Rightarrow> bytes" where
  "le_bytes k w = map (\<lambda>i. ucast (drop_bit (8 * i) w)) [0..<k]"

fun from_le :: "bytes \<Rightarrow> 'a::len word" where
  "from_le [] = 0"
| "from_le (b # bs) = ucast b OR push_bit 8 (from_le bs)"

definition be_bytes :: "nat \<Rightarrow> 'a::len word \<Rightarrow> bytes" where
  "be_bytes k w = rev (le_bytes k w)"

definition from_be :: "bytes \<Rightarrow> 'a::len word" where
  "from_be bs = from_le (rev bs)"

lemma length_le_bytes [simp]: "length (le_bytes k w) = k"
  by (simp add: le_bytes_def)

lemma length_be_bytes [simp]: "length (be_bytes k w) = k"
  by (simp add: be_bytes_def)

lemma nth_le_bytes: "i < k \<Longrightarrow> le_bytes k w ! i = ucast (drop_bit (8 * i) w)"
  by (simp add: le_bytes_def)

lemma bit_from_le:
  "bit (from_le bs :: 'a::len word) n \<longleftrightarrow>
     n < LENGTH('a) \<and> n < 8 * length bs \<and> bit (bs ! (n div 8)) (n mod 8)"
proof (induction bs arbitrary: n)
  case Nil
  then show ?case by simp
next
  case (Cons b bs)
  show ?case
  proof (cases "n < 8")
    case True
    then show ?thesis by (auto simp: bit_simps)
  next
    case False
    then have "n div 8 = Suc ((n - 8) div 8)" and "(n - 8) mod 8 = n mod 8"
      by (simp_all add: le_div_geq le_mod_geq)
    with False Cons.IH [of "n - 8"] show ?thesis
      by (auto simp: bit_simps dest: bit_imp_le_length)
  qed
qed

lemma from_le_le_bytes: "8 * k = LENGTH('a) \<Longrightarrow> from_le (le_bytes k w) = (w :: 'a::len word)"
  by (rule bit_word_eqI)
     (auto simp: bit_from_le nth_le_bytes bit_simps less_mult_imp_div_less mult.commute)

lemma le_bytes_from_le:
  assumes "length bs = k" and "8 * k = LENGTH('a)"
  shows "le_bytes k (from_le bs :: 'a::len word) = bs"
proof (rule nth_equalityI)
  show "length (le_bytes k (from_le bs :: 'a word)) = length bs" by (simp add: assms)
next
  fix i assume "i < length (le_bytes k (from_le bs :: 'a word))"
  then have i: "i < k" by simp
  show "le_bytes k (from_le bs :: 'a word) ! i = bs ! i"
  proof (rule bit_word_eqI)
    fix n assume n: "n < LENGTH(8)"
    then have "(8 * i + n) div 8 = i" and "(8 * i + n) mod 8 = n" by auto
    then show "bit (le_bytes k (from_le bs :: 'a word) ! i) n = bit (bs ! i) n"
      using i n assms by (auto simp: nth_le_bytes bit_simps bit_from_le)
  qed
qed

lemma from_le_bytes_simps [simp]:
  "from_le (le_bytes 2 (w16 :: u16)) = w16"
  "from_le (le_bytes 4 (w32 :: u32)) = w32"
  "from_le (le_bytes 8 (w64 :: u64)) = w64"
  by (simp_all add: from_le_le_bytes)

lemma from_be_bytes_simps [simp]:
  "from_be (be_bytes 2 (w16 :: u16)) = w16"
  "from_be (be_bytes 8 (w64 :: u64)) = w64"
  by (simp_all add: from_be_def be_bytes_def)

lemma le_bytes_from_simps [simp]:
  "length bs = 2 \<Longrightarrow> le_bytes 2 (from_le bs :: u16) = bs"
  "length bs = 4 \<Longrightarrow> le_bytes 4 (from_le bs :: u32) = bs"
  "length bs = 8 \<Longrightarrow> le_bytes 8 (from_le bs :: u64) = bs"
  by (simp_all add: le_bytes_from_le)

lemma be_bytes_from_simps [simp]:
  "length bs = 2 \<Longrightarrow> be_bytes 2 (from_be bs :: u16) = bs"
  "length bs = 8 \<Longrightarrow> be_bytes 8 (from_be bs :: u64) = bs"
  by (simp_all add: from_be_def be_bytes_def)

lemma le_bytes_inj [simp]:
  "le_bytes 2 (a :: u16) = le_bytes 2 b \<longleftrightarrow> a = b"
  "le_bytes 4 (c :: u32) = le_bytes 4 d \<longleftrightarrow> c = d"
  "le_bytes 8 (e :: u64) = le_bytes 8 f \<longleftrightarrow> e = f"
  by (metis from_le_bytes_simps)+

text \<open>\<open>as u16\<close>, \<open>as u32\<close>, \<open>as u64\<close> of a length keep the low bits only.\<close>

lemma unat_of_nat_u16 [simp]: "n < 65536 \<Longrightarrow> unat (of_nat n :: u16) = n"
  by (simp add: unat_of_nat)

lemma unat_of_nat_u32 [simp]: "n < 4294967296 \<Longrightarrow> unat (of_nat n :: u32) = n"
  by (simp add: unat_of_nat)

lemma unat_of_nat_u64 [simp]: "n < 18446744073709551616 \<Longrightarrow> unat (of_nat n :: u64) = n"
  by (simp add: unat_of_nat)

lemma unat_u16_bound: "unat (w :: u16) < 65536"
  using unsigned_less [of w] by simp

lemma unat_u32_bound: "unat (w :: u32) < 4294967296"
  using unsigned_less [of w] by simp

lemma le_unat_u32: "n \<le> unat (w :: u32) \<Longrightarrow> n < 4294967296"
  using unat_u32_bound [of w] by linarith

lemma unat_of_nat_le: "n \<le> unat (w :: u32) \<Longrightarrow> unat (of_nat n :: u32) = n"
  by (simp add: le_unat_u32)

lemma of_nat_unat_u16 [simp]: "(of_nat (unat (w :: u16)) :: u16) = w"
  by simp

subsection \<open>Byte-string literals\<close>

definition bstr :: "string \<Rightarrow> bytes" where
  "bstr s = map of_char s"

lemma length_bstr [simp]: "length (bstr s) = length s"
  by (simp add: bstr_def)

subsection \<open>Readers\<close>

definition take_n :: "'e \<Rightarrow> nat \<Rightarrow> bytes \<Rightarrow> 'e + bytes \<times> bytes" where
  "take_n e n d = (if n \<le> length d then Inr (take n d, drop n d) else Inl e)"

definition take_u8 :: "'e \<Rightarrow> bytes \<Rightarrow> 'e + u8 \<times> bytes" where
  "take_u8 e d = rbind (take_n e 1 d) (\<lambda>(x, r). Inr (hd x, r))"

definition take_u16 :: "'e \<Rightarrow> bytes \<Rightarrow> 'e + u16 \<times> bytes" where
  "take_u16 e d = rbind (take_n e 2 d) (\<lambda>(x, r). Inr (from_le x, r))"

definition take_u32 :: "'e \<Rightarrow> bytes \<Rightarrow> 'e + u32 \<times> bytes" where
  "take_u32 e d = rbind (take_n e 4 d) (\<lambda>(x, r). Inr (from_le x, r))"

definition take_u64 :: "'e \<Rightarrow> bytes \<Rightarrow> 'e + u64 \<times> bytes" where
  "take_u64 e d = rbind (take_n e 8 d) (\<lambda>(x, r). Inr (from_le x, r))"

text \<open>The loop \<open>for _ in 0..n\<close> of the decoders: \<open>n\<close> records, each read by \<open>rd\<close>.\<close>

fun take_list :: "(bytes \<Rightarrow> 'e + 'a \<times> bytes) \<Rightarrow> nat \<Rightarrow> bytes \<Rightarrow> 'e + 'a list \<times> bytes" where
  "take_list rd 0 d = Inr ([], d)"
| "take_list rd (Suc n) d =
     rbind (rd d) (\<lambda>(x, d1). rbind (take_list rd n d1) (\<lambda>(xs, d2). Inr (x # xs, d2)))"

lemma take_n_iff [rd_simps]: "take_n e n d = Inr (x, r) \<longleftrightarrow> d = x @ r \<and> length x = n"
  by (auto simp: take_n_def)

lemma take_n_app [simp]: "length x = n \<Longrightarrow> take_n e n (x @ r) = Inr (x, r)"
  by (simp add: rd_simps)

lemma take_n_all [simp]: "length x = n \<Longrightarrow> take_n e n x = Inr (x, [])"
  by (simp add: rd_simps)

lemma take_n_0 [simp]: "take_n e 0 d = Inr ([], d)"
  by (simp add: take_n_def)

lemma take_n_err [simp]: "length d < n \<Longrightarrow> take_n e n d = Inl e"
  by (simp add: take_n_def)

lemma take_u8_iff [rd_simps]: "take_u8 e d = Inr (b, r) \<longleftrightarrow> d = b # r"
  by (auto simp: take_u8_def rd_simps length_Suc_conv)

lemma take_u8_Cons [simp]: "take_u8 e (b # r) = Inr (b, r)"
  by (simp add: rd_simps)

lemma take_u8_Nil [simp]: "take_u8 e [] = Inl e"
  by (simp add: take_u8_def)

lemma take_u16_iff [rd_simps]: "take_u16 e d = Inr (w, r) \<longleftrightarrow> d = le_bytes 2 w @ r"
  by (auto simp: take_u16_def rd_simps)

lemma take_u32_iff [rd_simps]: "take_u32 e d = Inr (w, r) \<longleftrightarrow> d = le_bytes 4 w @ r"
  by (auto simp: take_u32_def rd_simps)

lemma take_u64_iff [rd_simps]: "take_u64 e d = Inr (w, r) \<longleftrightarrow> d = le_bytes 8 w @ r"
  by (auto simp: take_u64_def rd_simps)

lemma take_uN_app [simp]:
  "take_u16 e (le_bytes 2 w16 @ r) = Inr (w16, r)"
  "take_u32 e (le_bytes 4 w32 @ r) = Inr (w32, r)"
  "take_u64 e (le_bytes 8 w64 @ r) = Inr (w64, r)"
  by (simp_all add: rd_simps)

lemma take_list_app:
  assumes "\<And>x r. x \<in> set xs \<Longrightarrow> rd (enc x @ r) = Inr (x, r)"
  shows "take_list rd (length xs) (concat (map enc xs) @ r) = Inr (xs, r)"
  using assms by (induction xs) auto

lemma take_list_inv:
  assumes "\<And>d x r. rd d = Inr (x, r) \<Longrightarrow> d = enc x @ r \<and> P x"
    and "take_list rd n d = Inr (xs, r)"
  shows "d = concat (map enc xs) @ r \<and> length xs = n \<and> (\<forall>x\<in>set xs. P x)"
  using assms(2)
proof (induction n arbitrary: d xs)
  case 0
  then show ?case by simp
next
  case (Suc n)
  then obtain x d1 ys where "rd d = Inr (x, d1)" "take_list rd n d1 = Inr (ys, r)" "xs = x # ys"
    by (auto simp: rd_simps)
  with Suc.IH assms(1) show ?case by fastforce
qed

text \<open>The cursor form used by the source, and its representation by the suffix.\<close>

definition take_at :: "'e \<Rightarrow> bytes \<Rightarrow> nat \<Rightarrow> nat \<Rightarrow> 'e + bytes \<times> nat" where
  "take_at e data i n =
     (if i + n > length data then Inl e else Inr (take n (drop i data), i + n))"

lemma take_at_suffix:
  assumes "i \<le> length data"
  shows "take_at e data i n =
    (case take_n e n (drop i data) of Inl e' \<Rightarrow> Inl e' | Inr (x, _) \<Rightarrow> Inr (x, i + n))"
    and "take_at e data i n = Inr (x, j) \<Longrightarrow> take_n e n (drop i data) = Inr (x, drop j data)"
  using assms by (auto simp: take_at_def take_n_def add.commute split: if_splits)

subsection \<open>Hash maps as association lists\<close>

type_synonym ('k, 'v) hmap = "('k \<times> 'v) list"

definition hm_get :: "('k, 'v) hmap \<Rightarrow> 'k \<Rightarrow> 'v option" where
  "hm_get m k = map_of m k"

definition hm_insert :: "('k, 'v) hmap \<Rightarrow> 'k \<Rightarrow> 'v \<Rightarrow> ('k, 'v) hmap" where
  "hm_insert m k v = AList.update k v m"

definition hm_remove :: "('k, 'v) hmap \<Rightarrow> 'k \<Rightarrow> ('k, 'v) hmap" where
  "hm_remove m k = AList.delete k m"

definition hm_ok :: "('k, 'v) hmap \<Rightarrow> bool" where
  "hm_ok m = distinct (map fst m)"

lemma hm_get_Nil [simp]: "hm_get [] k = None"
  by (simp add: hm_get_def)

lemma hm_get_Cons: "hm_get ((k', v) # m) k = (if k = k' then Some v else hm_get m k)"
  by (simp add: hm_get_def)

lemma hm_ok_Cons: "hm_ok ((k, v) # m) \<longleftrightarrow> hm_get m k = None \<and> hm_ok m"
  by (auto simp: hm_ok_def hm_get_def map_of_eq_None_iff)

lemma hm_get_insert [simp]: "hm_get (hm_insert m k v) k' = (if k' = k then Some v else hm_get m k')"
  by (simp add: hm_get_def hm_insert_def update_conv')

lemma hm_get_remove [simp]: "hm_get (hm_remove m k) k' = (if k' = k then None else hm_get m k')"
  by (simp add: hm_get_def hm_remove_def delete_conv')

lemma hm_ok_Nil [simp]: "hm_ok []"
  by (simp add: hm_ok_def)

lemma hm_ok_insert [simp]: "hm_ok m \<Longrightarrow> hm_ok (hm_insert m k v)"
  by (simp add: hm_ok_def hm_insert_def distinct_update)

lemma hm_ok_remove [simp]: "hm_ok m \<Longrightarrow> hm_ok (hm_remove m k)"
  by (simp add: hm_ok_def hm_remove_def distinct_delete)

lemma hm_insert_fresh: "hm_get m k = None \<Longrightarrow> hm_insert m k v = m @ [(k, v)]"
  by (induction m) (auto simp: hm_get_def hm_insert_def split: if_splits)

lemma length_hm_insert:
  "length (hm_insert m k v) = (if hm_get m k = None then Suc (length m) else length m)"
  by (induction m) (auto simp: hm_get_def hm_insert_def)

lemma length_hm_remove_le [simp]: "length (hm_remove m k) \<le> length m"
  by (simp add: hm_remove_def length_delete_le)

lemma hm_remove_id: "hm_get m k = None \<Longrightarrow> hm_remove m k = m"
  by (simp add: hm_get_def hm_remove_def delete_id map_of_eq_None_iff)

lemma length_hm_remove:
  "hm_ok m \<Longrightarrow> hm_get m k = Some v \<Longrightarrow> Suc (length (hm_remove m k)) = length m"
proof (induction m)
  case (Cons p m)
  show ?case
  proof (cases "fst p = k")
    case True
    with Cons.prems have "hm_get m k = None"
      by (auto simp: hm_ok_def hm_get_def map_of_eq_None_iff)
    then have "hm_remove m k = m" by (rule hm_remove_id)
    with True show ?thesis by (cases p) (simp add: hm_remove_def)
  next
    case False
    with Cons show ?thesis
      by (cases p) (simp add: hm_remove_def hm_ok_def hm_get_def)
  qed
qed simp

lemma hm_get_in_set: "hm_get m k = Some v \<Longrightarrow> (k, v) \<in> set m"
  by (simp add: hm_get_def map_of_SomeD)

lemma hm_get_iff_in_set: "hm_ok m \<Longrightarrow> hm_get m k = Some v \<longleftrightarrow> (k, v) \<in> set m"
  by (simp add: hm_get_def hm_ok_def)

lemma set_hm_insert: "set (hm_insert m k v) \<subseteq> insert (k, v) (set m)"
  by (induction m) (auto simp: hm_insert_def)

lemma set_hm_remove: "set (hm_remove m k) \<subseteq> set m"
  by (induction m) (auto simp: hm_remove_def)

text \<open>Reading the entries of a map back one by one rebuilds the map.\<close>

definition hm_of_list :: "('k \<times> 'v) list \<Rightarrow> ('k, 'v) hmap" where
  "hm_of_list xs = foldl (\<lambda>m (k, v). hm_insert m k v) [] xs"

lemma hm_of_list_aux:
  "distinct (map fst (acc @ xs)) \<Longrightarrow> foldl (\<lambda>m (k, v). hm_insert m k v) acc xs = acc @ xs"
proof (induction xs arbitrary: acc)
  case (Cons p xs)
  obtain k v where p: "p = (k, v)" by (cases p)
  from Cons.prems p have "hm_get acc k = None"
    by (auto simp: hm_get_def map_of_eq_None_iff)
  then have "hm_insert acc k v = acc @ [(k, v)]" by (rule hm_insert_fresh)
  with Cons.IH [of "acc @ [p]"] Cons.prems p show ?case by simp
qed simp

lemma hm_of_list_id [simp]: "hm_ok m \<Longrightarrow> hm_of_list m = m"
  using hm_of_list_aux [of "[]" m] by (simp add: hm_of_list_def hm_ok_def)

lemma hm_ok_of_list_aux: "hm_ok acc \<Longrightarrow> hm_ok (foldl (\<lambda>m (k, v). hm_insert m k v) acc xs)"
  by (induction xs arbitrary: acc) auto

lemma hm_ok_of_list [simp]: "hm_ok (hm_of_list xs)"
  by (simp add: hm_of_list_def hm_ok_of_list_aux)

lemma length_hm_of_list_aux:
  "length (foldl (\<lambda>m (k, v). hm_insert m k v) acc xs) \<le> length acc + length xs"
proof (induction xs arbitrary: acc)
  case (Cons p xs)
  obtain k v where p: "p = (k, v)" by (cases p)
  have "length (hm_insert acc k v) \<le> Suc (length acc)" by (simp add: length_hm_insert)
  with Cons.IH [of "hm_insert acc k v"] show ?case by (simp add: p)
qed simp

lemma length_hm_of_list: "length (hm_of_list xs) \<le> length xs"
  using length_hm_of_list_aux [of "[]" xs] by (simp add: hm_of_list_def)

subsection \<open>Checked and saturating arithmetic\<close>

definition checked_add :: "'a::len word \<Rightarrow> 'a word \<Rightarrow> 'a word option" where
  "checked_add a b = (if unat a + unat b < 2 ^ LENGTH('a) then Some (a + b) else None)"

definition saturating_sub :: "'a::len word \<Rightarrow> 'a word \<Rightarrow> 'a word" where
  "saturating_sub a b = (if b \<le> a then a - b else 0)"

definition saturating_add :: "'a::len word \<Rightarrow> 'a word \<Rightarrow> 'a word" where
  "saturating_add a b = (if unat a + unat b < 2 ^ LENGTH('a) then a + b else - 1)"

lemma checked_add_Some_iff:
  "checked_add a b = Some c \<longleftrightarrow> unat a + unat b < 2 ^ LENGTH('a) \<and> c = a + (b :: 'a::len word)"
  by (auto simp: checked_add_def)

lemma checked_add_unat: "checked_add a b = Some c \<Longrightarrow> unat c = unat a + unat b"
  by (auto simp: checked_add_def unat_word_ariths split: if_splits)

subsection \<open>Length-prefixed byte strings\<close>

text \<open>The helpers \<open>put_vec\<close>/\<open>take_vec\<close> that several modules define for themselves: a
  little-endian length of 32 bits, then the bytes.\<close>

definition put_vec :: "bytes \<Rightarrow> bytes" where
  "put_vec b = le_bytes 4 (of_nat (length b) :: u32) @ b"

definition take_vec :: "'e \<Rightarrow> bytes \<Rightarrow> 'e + bytes \<times> bytes" where
  "take_vec e d = rbind (take_u32 e d) (\<lambda>(n, d). take_n e (unat n) d)"

definition fits32 :: "bytes \<Rightarrow> bool" where
  "fits32 b \<longleftrightarrow> length b < 2 ^ 32"

lemma take_vec_put [simp]: "fits32 b \<Longrightarrow> take_vec e (put_vec b @ r) = Inr (b, r)"
  by (simp add: take_vec_def put_vec_def fits32_def)

lemma take_vec_iff [rd_simps]: "take_vec e d = Inr (b, r) \<longleftrightarrow> d = put_vec b @ r \<and> fits32 b"
proof
  assume "take_vec e d = Inr (b, r)"
  then obtain n where "d = le_bytes 4 n @ b @ r" "length b = unat (n :: u32)"
    by (auto simp: take_vec_def rd_simps)
  then show "d = put_vec b @ r \<and> fits32 b"
    using unat_u32_bound [of n] by (simp add: put_vec_def fits32_def)
qed simp

lemma length_put_vec [len_simps]: "length (put_vec b) = 4 + length b"
  by (simp add: put_vec_def)

subsection \<open>The codec interface\<close>

text \<open>\<open>wf\<close> is the domain on which the encoder is lossless (array lengths, lengths that fit their
  prefix).\<close>

locale codec =
  fixes enc :: "'a \<Rightarrow> bytes" and dec :: "bytes \<Rightarrow> 'e + 'a" and wf :: "'a \<Rightarrow> bool"
  assumes roundtrip: "wf x \<Longrightarrow> dec (enc x) = Inr x"
begin

lemma enc_inj: "wf x \<Longrightarrow> wf y \<Longrightarrow> enc x = enc y \<Longrightarrow> x = y"
  by (metis roundtrip sum.inject(2))

end

text \<open>A canonical codec also accepts nothing but encodings: parsing is not malleable.\<close>

locale canonical_codec = codec enc dec wf
  for enc :: "'a \<Rightarrow> bytes" and dec :: "bytes \<Rightarrow> 'e + 'a" and wf :: "'a \<Rightarrow> bool" +
  assumes canonical: "dec d = Inr x \<Longrightarrow> wf x \<and> enc x = d"
begin

lemma dec_iff: "dec d = Inr x \<longleftrightarrow> wf x \<and> d = enc x"
  using roundtrip canonical by blast

lemma dec_inj: "dec d1 = Inr x \<Longrightarrow> dec d2 = Inr x \<Longrightarrow> d1 = d2"
  using canonical by blast

end

text \<open>An encoder that validates: it writes exactly what the decoder accepts.\<close>

locale checked_codec =
  fixes enc :: "'a \<Rightarrow> 'e + bytes" and dec :: "bytes \<Rightarrow> 'e + 'a"
  assumes dec_enc_iff: "dec d = Inr x \<longleftrightarrow> enc x = Inr d"
begin

lemma enc_inj: "enc x = Inr d \<Longrightarrow> enc y = Inr d \<Longrightarrow> x = y"
  using dec_enc_iff by (metis sum.inject(2))

lemma dec_inj: "dec d1 = Inr x \<Longrightarrow> dec d2 = Inr x \<Longrightarrow> d1 = d2"
  using dec_enc_iff by (metis sum.inject(2))

end

end
