(* ===== verification/VC_Primitives.thy ===== *)
theory VC_Primitives
  imports VC_Prelude
begin

text \<open>
  The primitive layer (\<^verbatim>\<open>src/primitives\<close>): errors, randomness, X25519, ML-KEM-768, HKDF/HMAC,
  AES-256-GCM and the PQXDH encodings.

  The cryptographic crates themselves (\<^verbatim>\<open>x25519-dalek\<close>, \<^verbatim>\<open>ml-kem\<close>, \<^verbatim>\<open>hkdf\<close>, \<^verbatim>\<open>hmac\<close>, \<^verbatim>\<open>sha2\<close>,
  \<^verbatim>\<open>aes-gcm\<close>, \<^verbatim>\<open>curve25519-dalek\<close>) are not part of the repository. They are the fields of the
  record \<open>crypto\<close>, an argument of every definition that reaches them; what is relied upon about
  them is stated by the predicates \<open>lens_ok\<close>, \<open>dh_commutes\<close>, \<open>xpub_ok\<close>, \<open>aead_correct\<close>,
  \<open>kem_correct\<close>. The operating system's random generator is a tape of bytes
  (\<open>rng\<close>), an argument of every call that draws from it; the statements hold for every tape.
\<close>

subsection \<open>Errors\<close>

datatype prim_error =
    InvalidPublicKey | InvalidSecretKey | InvalidKemCiphertext | AeadDecryptionFailed
  | AeadAuthFailed | InvalidNonce | InvalidLength | HkdfLength | SignatureInvalid | Rng
  | Internal | LimitExceeded

subsection \<open>The external cryptography\<close>

type_synonym scalar = int
type_synonym edpoint = int

record crypto =
  hmac_fn :: "bytes \<Rightarrow> bytes \<Rightarrow> bytes"
  sha256_fn :: "bytes \<Rightarrow> bytes"
  sha512_fn :: "bytes \<Rightarrow> bytes"
  hkdf_fn :: "bytes option \<Rightarrow> bytes \<Rightarrow> bytes \<Rightarrow> nat \<Rightarrow> bytes option"
  static_secret :: "bytes \<Rightarrow> bytes"
  xpub :: "bytes \<Rightarrow> bytes"
  xdh :: "bytes \<Rightarrow> bytes \<Rightarrow> bytes"
  gcm_encrypt :: "bytes \<Rightarrow> bytes \<Rightarrow> bytes \<Rightarrow> bytes \<Rightarrow> bytes option"
  gcm_decrypt :: "bytes \<Rightarrow> bytes \<Rightarrow> bytes \<Rightarrow> bytes \<Rightarrow> bytes option"
  kem_ek :: "bytes \<Rightarrow> bytes"
  kem_ek_valid :: "bytes \<Rightarrow> bool"
  kem_encaps :: "bytes \<Rightarrow> bytes \<Rightarrow> bytes \<times> bytes"
  kem_decaps :: "bytes \<Rightarrow> bytes \<Rightarrow> bytes"
  ed_mul_base :: "scalar \<Rightarrow> edpoint"
  ed_compress :: "edpoint \<Rightarrow> bytes"
  ed_decompress :: "bytes \<Rightarrow> edpoint option"
  ed_to_edwards :: "bytes \<Rightarrow> edpoint option"
  ed_sub :: "edpoint \<Rightarrow> edpoint \<Rightarrow> edpoint"
  ed_smul :: "scalar \<Rightarrow> edpoint \<Rightarrow> edpoint"
  sc_reduce :: "bytes \<Rightarrow> scalar"
  sc_reduce_wide :: "bytes \<Rightarrow> scalar"
  sc_bytes :: "scalar \<Rightarrow> bytes"
  sc_add :: "scalar \<Rightarrow> scalar \<Rightarrow> scalar"
  sc_mul :: "scalar \<Rightarrow> scalar \<Rightarrow> scalar"
  sc_neg :: "scalar \<Rightarrow> scalar"
  sha3_256_fn :: "bytes \<Rightarrow> bytes"
  sha3_512_fn :: "bytes \<Rightarrow> bytes"
  shake128_fn :: "bytes \<Rightarrow> nat \<Rightarrow> u8"
  shake256_fn :: "bytes \<Rightarrow> nat \<Rightarrow> u8"

text \<open>Output lengths: the crates return fixed-size arrays.\<close>

definition lens_ok :: "crypto \<Rightarrow> bool" where
  "lens_ok C \<longleftrightarrow>
     (\<forall>k d. length (hmac_fn C k d) = 32) \<and>
     (\<forall>d. length (sha256_fn C d) = 32) \<and> (\<forall>d. length (sha512_fn C d) = 64) \<and>
     (\<forall>s i f n. n \<le> 255 * 32 \<longrightarrow> (\<exists>okm. hkdf_fn C s i f n = Some okm \<and> length okm = n)) \<and>
     (\<forall>b. length b = 32 \<longrightarrow> length (static_secret C b) = 32) \<and>
     (\<forall>s. length (xpub C s) = 32) \<and> (\<forall>s p. length (xdh C s p) = 32)"

text \<open>\<open>StaticSecret::from\<close> then \<open>to_bytes\<close> is stable under repetition (clamping, or the identity).\<close>

definition secret_stable :: "crypto \<Rightarrow> bool" where
  "secret_stable C \<longleftrightarrow> (\<forall>b. static_secret C (static_secret C b) = static_secret C b)"

text \<open>Diffie-Hellman (RFC 7748): both sides compute the same shared secret.\<close>

definition dh_commutes :: "crypto \<Rightarrow> bool" where
  "dh_commutes C \<longleftrightarrow> (\<forall>a b. xdh C a (xpub C b) = xdh C b (xpub C a))"

text \<open>A public key derived from a secret key is never the all-zero string.\<close>

definition xpub_ok :: "crypto \<Rightarrow> bool" where
  "xpub_ok C \<longleftrightarrow> (\<forall>s. xpub C s \<noteq> replicate 32 0)"

text \<open>AES-256-GCM: sealing never fails, appends a 16-byte tag, and opens with the same inputs.\<close>

definition aead_correct :: "crypto \<Rightarrow> bool" where
  "aead_correct C \<longleftrightarrow> (\<forall>k n pt ad. \<exists>ct. gcm_encrypt C k n pt ad = Some ct \<and>
     length ct = length pt + 16 \<and> gcm_decrypt C k n ct ad = Some pt)"

text \<open>ML-KEM-768: key generation yields a valid 1184-byte key and decapsulation inverts
  encapsulation to it.\<close>

definition kem_correct :: "crypto \<Rightarrow> bool" where
  "kem_correct C \<longleftrightarrow> (\<forall>seed m. length (kem_ek C seed) = 1184 \<and> kem_ek_valid C (kem_ek C seed) \<and>
     length (fst (kem_encaps C (kem_ek C seed) m)) = 1088 \<and>
     kem_decaps C seed (fst (kem_encaps C (kem_ek C seed) m)) = snd (kem_encaps C (kem_ek C seed) m))"

subsection \<open>Randomness\<close>

type_synonym rng = "nat \<Rightarrow> u8"

definition fill_random :: "nat \<Rightarrow> rng \<Rightarrow> bytes \<times> rng" where
  "fill_random n r = (map r [0..<n], \<lambda>i. r (n + i))"

lemma length_fill_random [simp]: "length (fst (fill_random n r)) = n"
  by (simp add: fill_random_def)

lemma fill_random_len: "fill_random n r = (b, r') \<Longrightarrow> length b = n"
  by (auto simp: fill_random_def)

subsection \<open>X25519\<close>

definition zeros32 :: bytes where
  "zeros32 = replicate 32 0"

lemma length_zeros32 [simp]: "length zeros32 = 32"
  by (simp add: zeros32_def)

definition secret_generate :: "crypto \<Rightarrow> rng \<Rightarrow> bytes \<times> rng" where
  "secret_generate C r = (let (b, r') = fill_random 32 r in (static_secret C b, r'))"

definition secret_from_bytes :: "crypto \<Rightarrow> bytes \<Rightarrow> bytes" where
  "secret_from_bytes C b = static_secret C b"

definition public_key :: "crypto \<Rightarrow> bytes \<Rightarrow> bytes" where
  "public_key C s = xpub C s"

definition diffie_hellman :: "crypto \<Rightarrow> bytes \<Rightarrow> bytes \<Rightarrow> bytes" where
  "diffie_hellman C s p = xdh C s p"

definition public_from_bytes :: "bytes \<Rightarrow> prim_error + bytes" where
  "public_from_bytes b = (if b = zeros32 then Inl InvalidPublicKey else Inr b)"

lemma public_from_bytes_iff [rd_simps]: "public_from_bytes b = Inr p \<longleftrightarrow> p = b \<and> b \<noteq> zeros32"
  by (auto simp: public_from_bytes_def)

lemma public_from_bytes_ok [simp]: "b \<noteq> zeros32 \<Longrightarrow> public_from_bytes b = Inr b"
  by (simp add: public_from_bytes_def)

lemma secret_generate_len:
  "lens_ok C \<Longrightarrow> secret_generate C r = (s, r') \<Longrightarrow> length s = 32"
  by (auto simp: secret_generate_def lens_ok_def fill_random_def)

lemma secret_generate_stable:
  "secret_stable C \<Longrightarrow> secret_generate C r = (s, r') \<Longrightarrow> static_secret C s = s"
  by (auto simp: secret_generate_def secret_stable_def fill_random_def)

lemma public_key_len: "lens_ok C \<Longrightarrow> length (public_key C s) = 32"
  by (simp add: lens_ok_def public_key_def)

lemma public_key_nonzero: "xpub_ok C \<Longrightarrow> public_key C s \<noteq> zeros32"
  by (simp add: xpub_ok_def public_key_def zeros32_def)

lemma dh_agree: "dh_commutes C \<Longrightarrow>
  diffie_hellman C a (public_key C b) = diffie_hellman C b (public_key C a)"
  by (simp add: dh_commutes_def diffie_hellman_def public_key_def)

subsection \<open>Key derivation\<close>

definition PQXDH_KDF_INFO :: bytes where
  "PQXDH_KDF_INFO = bstr ''VoiceChat_CURVE25519_SHA-256_ML-KEM-768''"
definition DR_ROOT :: bytes where "DR_ROOT = bstr ''VoiceChat/DR/v1/Root''"
definition DR_CHAIN :: bytes where "DR_CHAIN = bstr ''VoiceChat/DR/v1/Chain''"
definition DR_MESSAGE :: bytes where "DR_MESSAGE = bstr ''VoiceChat/DR/v1/Message''"
definition DR_HEADER :: bytes where "DR_HEADER = bstr ''VoiceChat/DR/v1/Header''"
definition SPQR_EPOCH :: bytes where "SPQR_EPOCH = bstr ''VoiceChat/SPQR/v1/Epoch''"
definition TRIPLE_HYBRID :: bytes where "TRIPLE_HYBRID = bstr ''VoiceChat/Triple/v1/Hybrid''"
definition FINGERPRINT_LABEL :: bytes where "FINGERPRINT_LABEL = bstr ''VoiceChat/Fingerprint/v1''"

definition hkdf_extract_expand ::
  "crypto \<Rightarrow> bytes option \<Rightarrow> bytes \<Rightarrow> bytes \<Rightarrow> nat \<Rightarrow> prim_error + bytes" where
  "hkdf_extract_expand C salt ikm info n =
     (if n = 0 \<or> n > 255 * 32 then Inl HkdfLength
      else ok_or HkdfLength (hkdf_fn C salt ikm info n))"

definition hmac_sha256 :: "crypto \<Rightarrow> bytes \<Rightarrow> bytes \<Rightarrow> bytes" where
  "hmac_sha256 C key data = hmac_fn C key data"

definition pqxdh_kdf :: "crypto \<Rightarrow> bytes \<Rightarrow> prim_error + bytes" where
  "pqxdh_kdf C km =
     hkdf_extract_expand C (Some (replicate 32 0)) (replicate 32 255 @ km) PQXDH_KDF_INFO 32"

lemma lens_hkdf:
  "lens_ok C \<Longrightarrow> n \<le> 8160 \<Longrightarrow> \<exists>okm. hkdf_fn C salt ikm info n = Some okm \<and> length okm = n"
  by (simp add: lens_ok_def)

lemma hkdf_ok:
  assumes "lens_ok C" and "0 < n" and "n \<le> 8160"
  obtains okm where "hkdf_extract_expand C salt ikm info n = Inr okm" "length okm = n"
proof -
  obtain okm where "hkdf_fn C salt ikm info n = Some okm" "length okm = n"
    using lens_hkdf [OF assms(1,3)] by blast
  then show thesis using assms that [of okm] by (simp add: hkdf_extract_expand_def)
qed

lemma hkdf_len:
  assumes "lens_ok C" and "hkdf_extract_expand C salt ikm info n = Inr okm"
  shows "length okm = n"
proof -
  from assms(2) have "n \<le> 8160" and okm: "hkdf_fn C salt ikm info n = Some okm"
    by (auto simp: hkdf_extract_expand_def split: if_splits)
  from lens_hkdf [OF assms(1) this(1), of salt ikm info] okm show ?thesis by auto
qed

lemma hkdf_too_long: "n > 8160 \<Longrightarrow> hkdf_extract_expand C salt ikm info n = Inl HkdfLength"
  by (simp add: hkdf_extract_expand_def)

lemma hmac_len: "lens_ok C \<Longrightarrow> length (hmac_sha256 C k d) = 32"
  by (simp add: lens_ok_def hmac_sha256_def)

subsection \<open>AEAD\<close>

definition aead_seal :: "crypto \<Rightarrow> bytes \<Rightarrow> bytes \<Rightarrow> bytes \<Rightarrow> bytes \<Rightarrow> prim_error + bytes" where
  "aead_seal C key nonce plaintext ad =
     (if length key \<noteq> 32 then Inl InvalidSecretKey
      else ok_or Internal (gcm_encrypt C key nonce plaintext ad))"

definition aead_open :: "crypto \<Rightarrow> bytes \<Rightarrow> bytes \<Rightarrow> bytes \<Rightarrow> bytes \<Rightarrow> prim_error + bytes" where
  "aead_open C key nonce ciphertext ad =
     (if length ciphertext < 16 then Inl AeadDecryptionFailed
      else if length key \<noteq> 32 then Inl InvalidSecretKey
      else ok_or AeadDecryptionFailed (gcm_decrypt C key nonce ciphertext ad))"

lemma aead_roundtrip:
  assumes "aead_correct C" and "length key = 32"
  obtains ct where "aead_seal C key nonce pt ad = Inr ct" "length ct = length pt + 16"
    "aead_open C key nonce ct ad = Inr pt"
proof -
  from assms(1) obtain ct where ct: "gcm_encrypt C key nonce pt ad = Some ct"
    "length ct = length pt + 16" "gcm_decrypt C key nonce ct ad = Some pt"
    unfolding aead_correct_def by blast
  show thesis
    by (rule that [of ct]) (use ct assms(2) in \<open>simp_all add: aead_seal_def aead_open_def\<close>)
qed

lemma aead_seal_len: "aead_correct C \<Longrightarrow> aead_seal C key nonce pt ad = Inr ct \<Longrightarrow> length ct = length pt + 16"
  by (cases "length key = 32") (metis aead_roundtrip sum.inject(2), simp add: aead_seal_def)

lemma aead_seal_total: "aead_correct C \<Longrightarrow> length key = 32 \<Longrightarrow> \<exists>ct. aead_seal C key nonce pt ad = Inr ct"
  by (meson aead_roundtrip)

lemma aead_open_seal:
  "aead_correct C \<Longrightarrow> length key = 32 \<Longrightarrow> aead_seal C key nonce pt ad = Inr ct \<Longrightarrow>
    aead_open C key nonce ct ad = Inr pt"
  using aead_roundtrip [of C key nonce pt ad] by (metis sum.inject(2))

lemma aead_open_short: "length ct < 16 \<Longrightarrow> aead_open C k n ct ad = Inl AeadDecryptionFailed"
  by (simp add: aead_open_def)

subsection \<open>ML-KEM-768\<close>

definition encode_public :: "bytes \<Rightarrow> prim_error + bytes" where
  "encode_public b = (if length b \<noteq> 1184 then Inl InvalidPublicKey else Inr b)"

definition kem_public_key :: "crypto \<Rightarrow> bytes \<Rightarrow> prim_error + bytes" where
  "kem_public_key C seed = encode_public (kem_ek C seed)"

definition kem_generate :: "crypto \<Rightarrow> rng \<Rightarrow> (prim_error + (bytes \<times> bytes)) \<times> rng" where
  "kem_generate C r =
     (let (seed, r1) = fill_random 64 r
      in (rbind (encode_public (kem_ek C seed)) (\<lambda>pk. Inr (seed, pk)), r1))"

definition kem_decapsulate :: "crypto \<Rightarrow> bytes \<Rightarrow> bytes \<Rightarrow> prim_error + bytes" where
  "kem_decapsulate C seed ct =
     (if length ct \<noteq> 1088 then Inl InvalidKemCiphertext else Inr (kem_decaps C seed ct))"

definition kem_encapsulate :: "crypto \<Rightarrow> bytes \<Rightarrow> rng \<Rightarrow> (prim_error + (bytes \<times> bytes)) \<times> rng" where
  "kem_encapsulate C pk r =
     (if length pk \<noteq> 1184 \<or> \<not> kem_ek_valid C pk then (Inl InvalidPublicKey, r)
      else (let (m, r1) = fill_random 32 r; (ct, ss) = kem_encaps C pk m in (Inr (ss, ct), r1)))"

definition kem_public_from_bytes :: "crypto \<Rightarrow> bytes \<Rightarrow> prim_error + bytes" where
  "kem_public_from_bytes C b =
     (if length b \<noteq> 1184 then Inl InvalidPublicKey
      else if \<not> kem_ek_valid C b then Inl InvalidPublicKey else Inr b)"

definition kem_ct_from_bytes :: "bytes \<Rightarrow> prim_error + bytes" where
  "kem_ct_from_bytes b = (if length b \<noteq> 1088 then Inl InvalidKemCiphertext else Inr b)"

lemma kem_public_key_ok: "kem_correct C \<Longrightarrow> kem_public_key C seed = Inr (kem_ek C seed)"
  by (simp add: kem_correct_def kem_public_key_def encode_public_def)

lemma kem_public_from_bytes_ek [simp]:
  "kem_correct C \<Longrightarrow> kem_public_from_bytes C (kem_ek C seed) = Inr (kem_ek C seed)"
  by (simp add: kem_correct_def kem_public_from_bytes_def)

lemma kem_public_from_bytes_iff [rd_simps]:
  "kem_public_from_bytes C b = Inr p \<longleftrightarrow> p = b \<and> length b = 1184 \<and> kem_ek_valid C b"
  by (auto simp: kem_public_from_bytes_def)

lemma kem_ct_from_bytes_iff [rd_simps]: "kem_ct_from_bytes b = Inr c \<longleftrightarrow> c = b \<and> length b = 1088"
  by (auto simp: kem_ct_from_bytes_def)

text \<open>Encapsulating to a generated key and decapsulating with its seed agree.\<close>

lemma kem_roundtrip:
  assumes "kem_correct C" and "kem_encapsulate C (kem_ek C seed) r = (Inr (ss, ct), r')"
  shows "length ct = 1088" and "kem_decapsulate C seed ct = Inr ss"
proof -
  obtain m r1 where m: "fill_random 32 r = (m, r1)" by (cases "fill_random 32 r")
  from assms(1) have "length (kem_ek C seed) = 1184" "kem_ek_valid C (kem_ek C seed)"
    by (auto simp: kem_correct_def)
  with assms(2) m have e: "kem_encaps C (kem_ek C seed) m = (ct, ss)"
    by (auto simp: kem_encapsulate_def split: prod.splits)
  with assms(1) show "length ct = 1088" by (metis kem_correct_def fst_conv)
  moreover from e assms(1) have "kem_decaps C seed ct = ss"
    by (metis kem_correct_def fst_conv snd_conv)
  ultimately show "kem_decapsulate C seed ct = Inr ss" by (simp add: kem_decapsulate_def)
qed

lemma kem_encapsulate_ok:
  assumes "kem_correct C"
  obtains ss ct r' where "kem_encapsulate C (kem_ek C seed) r = (Inr (ss, ct), r')"
proof -
  obtain m r1 where m: "fill_random 32 r = (m, r1)" by (cases "fill_random 32 r")
  obtain ct ss where e: "kem_encaps C (kem_ek C seed) m = (ct, ss)"
    by (cases "kem_encaps C (kem_ek C seed) m")
  from assms have "length (kem_ek C seed) = 1184" "kem_ek_valid C (kem_ek C seed)"
    by (auto simp: kem_correct_def)
  with m e that [of ss ct r1] show thesis by (simp add: kem_encapsulate_def)
qed

subsection \<open>PQXDH encodings\<close>

definition CURVE_ID_X25519 :: u8 where "CURVE_ID_X25519 = 1"
definition KEM_ID_MLKEM768 :: u8 where "KEM_ID_MLKEM768 = 0x81"

definition encode_ec :: "bytes \<Rightarrow> bytes" where
  "encode_ec pk = CURVE_ID_X25519 # pk"

definition decode_ec :: "bytes \<Rightarrow> prim_error + bytes" where
  "decode_ec b =
     (if length b \<noteq> 33 \<or> hd b \<noteq> CURVE_ID_X25519 then Inl InvalidPublicKey
      else public_from_bytes (tl b))"

definition encode_kem :: "bytes \<Rightarrow> bytes" where
  "encode_kem pk = KEM_ID_MLKEM768 # pk"

definition decode_kem :: "crypto \<Rightarrow> bytes \<Rightarrow> prim_error + bytes" where
  "decode_kem C b =
     (if length b \<noteq> 1185 \<or> hd b \<noteq> KEM_ID_MLKEM768 then Inl InvalidPublicKey
      else kem_public_from_bytes C (tl b))"

lemma decode_ec_iff: "decode_ec b = Inr pk \<longleftrightarrow> b = encode_ec pk \<and> length pk = 32 \<and> pk \<noteq> zeros32"
  by (cases b) (auto simp: decode_ec_def encode_ec_def rd_simps)

lemma decode_kem_iff:
  "decode_kem C b = Inr pk \<longleftrightarrow> b = encode_kem pk \<and> length pk = 1184 \<and> kem_ek_valid C pk"
  by (cases b) (auto simp: decode_kem_def encode_kem_def rd_simps)

text \<open>The ranges of the two encodings are disjoint: a curve key never reads as a KEM key.\<close>

lemma encode_ec_kem_disjoint: "encode_ec a \<noteq> encode_kem b"
  by (simp add: encode_ec_def encode_kem_def CURVE_ID_X25519_def KEM_ID_MLKEM768_def)

subsection \<open>Constant-time comparison\<close>

definition ct_eq :: "bytes \<Rightarrow> bytes \<Rightarrow> bool" where
  "ct_eq a b = (length a = length b \<and> list_all2 (=) a b)"

lemma ct_eq_iff [simp]: "ct_eq a b \<longleftrightarrow> a = b"
  by (auto simp: ct_eq_def list.rel_eq)

end
