(* ===== verification/VC_Instance.thy ===== *)
theory VC_Instance
  imports VC_Primitives
begin

text \<open>
  A concrete value of the record \<open>crypto\<close> that meets every assumption made about the external
  crates, so that theorems with such hypotheses can be applied to concrete inputs. It offers no
  security whatsoever: the AEAD appends a tag copied from the key, the KDFs pad and truncate.
\<close>

definition fit :: "nat \<Rightarrow> bytes \<Rightarrow> bytes" where
  "fit n b = take n (b @ replicate n 0)"

lemma length_fit [simp]: "length (fit n b) = n"
  by (simp add: fit_def)

lemma fit_alt: "fit n b = take n b @ replicate (n - length b) 0"
  by (simp add: fit_def)

lemma fit_fit: "m \<le> n \<Longrightarrow> fit m (fit n b) = fit m b"
  by (auto simp: fit_def take_append min_def)

definition plain_crypto :: crypto where
  "plain_crypto = \<lparr>
     hmac_fn = (\<lambda>k d. fit 32 (d @ k)),
     sha256_fn = fit 32,
     sha512_fn = fit 64,
     hkdf_fn = (\<lambda>salt ikm info n. Some (fit n ikm)),
     static_secret = (\<lambda>b. b),
     xpub = (\<lambda>s. fit 32 (1 # take 30 s)),
     xdh = (\<lambda>s p. replicate 32 0),
     gcm_encrypt = (\<lambda>k n pt ad. Some (pt @ fit 16 k)),
     gcm_decrypt = (\<lambda>k n ct ad.
        if 16 \<le> length ct \<and> drop (length ct - 16) ct = fit 16 k
        then Some (take (length ct - 16) ct) else None),
     kem_ek = fit 1184,
     kem_ek_valid = (\<lambda>b. length b = 1184),
     kem_encaps = (\<lambda>ek m. (fit 1088 m, fit 32 m)),
     kem_decaps = (\<lambda>seed ct. fit 32 ct),
     ed_mul_base = (\<lambda>k. 0),
     ed_compress = (\<lambda>p. replicate 32 1),
     ed_decompress = (\<lambda>b. Some 0),
     ed_to_edwards = (\<lambda>b. Some 0),
     ed_sub = (\<lambda>p q. p - q),
     ed_smul = (\<lambda>k p. k * p),
     sc_reduce = (\<lambda>b. 0),
     sc_reduce_wide = (\<lambda>b. 0),
     sc_bytes = (\<lambda>k. replicate 32 0),
     sc_add = (+),
     sc_mul = (*),
     sc_neg = uminus,
     sha3_256_fn = fit 32,
     sha3_512_fn = (\<lambda>_. replicate 64 0),
     shake128_fn = (\<lambda>_ _. 0),
     shake256_fn = (\<lambda>_ _. 0)\<rparr>"

lemma plain_simps:
  "static_secret plain_crypto b = b" "xpub plain_crypto s = fit 32 (1 # take 30 s)"
  "xdh plain_crypto s p = replicate 32 0" "kem_ek plain_crypto seed = fit 1184 seed"
  "sha512_fn plain_crypto d = fit 64 d" "sha256_fn plain_crypto d = fit 32 d"
  "hmac_fn plain_crypto k d = fit 32 (d @ k)" "hkdf_fn plain_crypto salt ikm info n = Some (fit n ikm)"
  "ed_mul_base plain_crypto sc = 0" "ed_compress plain_crypto pt = replicate 32 1"
  "ed_decompress plain_crypto b = Some 0" "ed_to_edwards plain_crypto b = Some 0"
  "ed_sub plain_crypto pt q = pt - q" "ed_smul plain_crypto sc pt = sc * pt"
  "sc_bytes plain_crypto sc = replicate 32 0" "sc_reduce plain_crypto b = 0"
  by (simp_all add: plain_crypto_def)

lemma plain_lens: "lens_ok plain_crypto"
  by (simp add: lens_ok_def plain_crypto_def)

lemma plain_stable: "secret_stable plain_crypto"
  by (simp add: secret_stable_def plain_crypto_def)

lemma plain_dh: "dh_commutes plain_crypto"
  by (simp add: dh_commutes_def plain_crypto_def)

lemma plain_xpub: "xpub_ok plain_crypto"
  by (simp add: xpub_ok_def plain_crypto_def fit_def Cons_replicate_eq)

lemma plain_aead: "aead_correct plain_crypto"
  by (simp add: aead_correct_def plain_crypto_def)

lemma plain_kem: "kem_correct plain_crypto"
  by (simp add: kem_correct_def plain_crypto_def fit_fit)

lemmas plain_laws = plain_lens plain_stable plain_dh plain_xpub plain_aead plain_kem

end
