(* ===== verification/VC_Fingerprint.thy ===== *)
theory VC_Fingerprint
  imports VC_Primitives VC_Instance
begin

text \<open>
  Safety numbers, identity-change tracking and the persisted trust store
  (\<^verbatim>\<open>src/fingerprint/mod.rs\<close>). Byte strings are compared lexicographically, as Rust compares slices.
\<close>

subsection \<open>Safety fingerprint\<close>

definition NUMERIC_DIGIT_COUNT :: nat where "NUMERIC_DIGIT_COUNT = 60"
definition NUMERIC_GROUP_SIZE :: nat where "NUMERIC_GROUP_SIZE = 5"
definition FINGERPRINT_ITERATIONS :: nat where "FINGERPRINT_ITERATIONS = 5200"

record identity_material =
  im_key :: bytes
  im_device :: "bytes option"

record safety_fingerprint =
  fp_binary :: bytes
  fp_numeric :: string

definition device_or_empty :: "identity_material \<Rightarrow> bytes" where
  "device_or_empty m = (case im_device m of Some d \<Rightarrow> d | None \<Rightarrow> [])"

definition canonical_order ::
  "identity_material \<Rightarrow> identity_material \<Rightarrow> identity_material \<times> identity_material" where
  "canonical_order a b =
     (if ord_class.lexordp (im_key a) (im_key b) then (a, b)
      else if ord_class.lexordp (im_key b) (im_key a) then (b, a)
      else if ord_class.lexordp_eq (device_or_empty a) (device_or_empty b) then (a, b) else (b, a))"

definition material_bytes :: "identity_material \<Rightarrow> bytes" where
  "material_bytes m = im_key m @
     (case im_device m of
        Some d \<Rightarrow> le_bytes 2 (of_nat (length d) :: u16) @ d
      | None \<Rightarrow> le_bytes 2 (0 :: u16))"

definition fingerprint_material :: "identity_material \<Rightarrow> identity_material \<Rightarrow> bytes" where
  "fingerprint_material a b =
     (let (x, y) = canonical_order a b in FINGERPRINT_LABEL @ material_bytes x @ material_bytes y)"

text \<open>\<open>chunks(n)\<close> of a slice: pieces of \<open>n\<close> elements, the last one possibly shorter.\<close>

function chunks :: "nat \<Rightarrow> 'a list \<Rightarrow> 'a list list" where
  "chunks n xs = (if xs = [] \<or> n = 0 then [] else take n xs # chunks n (drop n xs))"
  by pat_completeness auto
termination by (relation "measure (length \<circ> snd)") auto

declare chunks.simps [simp del]

definition digits5 :: "nat \<Rightarrow> string" where
  "digits5 n = map (\<lambda>k. char_of (48 + (n div 10 ^ k) mod 10)) [4, 3, 2, 1, 0]"

definition group_digits :: "bytes \<Rightarrow> string" where
  "group_digits chunk =
     digits5 (unat (from_le (chunk @ replicate (8 - length chunk) 0) mod 100000 :: u64))"

definition binary_to_numeric :: "bytes \<Rightarrow> string" where
  "binary_to_numeric b =
     (let digits = take NUMERIC_DIGIT_COUNT (concat (map group_digits (take 12 (chunks 5 b))))
      in digits @ replicate (NUMERIC_DIGIT_COUNT - length digits) (CHR ''0''))"

definition compute_fingerprint ::
  "crypto \<Rightarrow> identity_material \<Rightarrow> identity_material \<Rightarrow> safety_fingerprint" where
  "compute_fingerprint C a b =
     (let hash = (sha512_fn C ^^ (FINGERPRINT_ITERATIONS - 1)) (sha512_fn C (fingerprint_material a b));
          bin = take 32 hash
      in \<lparr>fp_binary = bin, fp_numeric = binary_to_numeric bin\<rparr>)"

fun join_space :: "string list \<Rightarrow> string" where
  "join_space [] = []"
| "join_space [x] = x"
| "join_space (x # y # zs) = x @ CHR '' '' # join_space (y # zs)"

definition numeric_display :: "safety_fingerprint \<Rightarrow> string" where
  "numeric_display f = join_space (chunks NUMERIC_GROUP_SIZE (fp_numeric f))"

text \<open>Two identities the encoding cannot tell apart: an absent device id and an empty one.\<close>

definition same_material :: "identity_material \<Rightarrow> identity_material \<Rightarrow> bool" where
  "same_material a b \<longleftrightarrow> im_key a = im_key b \<and> device_or_empty a = device_or_empty b"

lemma material_bytes_eq:
  "material_bytes m = im_key m @ le_bytes 2 (of_nat (length (device_or_empty m)) :: u16) @ device_or_empty m"
  by (simp add: material_bytes_def device_or_empty_def split: option.split)

lemma material_bytes_prefix_inj:
  assumes "material_bytes a @ x = material_bytes b @ y" "length (im_key a) = 32" "length (im_key b) = 32"
    "length (device_or_empty a) < 65536" "length (device_or_empty b) < 65536"
  shows "same_material a b \<and> x = y"
proof -
  from assms(1-3) have k: "im_key a = im_key b"
    and r: "le_bytes 2 (of_nat (length (device_or_empty a)) :: u16) @ device_or_empty a @ x =
      le_bytes 2 (of_nat (length (device_or_empty b)) :: u16) @ device_or_empty b @ y"
    by (simp_all add: material_bytes_eq)
  then have "(of_nat (length (device_or_empty a)) :: u16) = of_nat (length (device_or_empty b))" by simp
  then have "length (device_or_empty a) = length (device_or_empty b)"
    using assms(4,5) by (metis unat_of_nat_u16)
  with k r show ?thesis by (simp add: same_material_def)
qed

lemma canonical_order_cases: "canonical_order a b = (a, b) \<or> canonical_order a b = (b, a)"
  by (simp add: canonical_order_def)

lemma fingerprint_material_sym: "fingerprint_material a b = fingerprint_material b a"
proof (cases "im_key a = im_key b")
  case False
  then have "ord_class.lexordp (im_key a) (im_key b) \<or> ord_class.lexordp (im_key b) (im_key a)"
    using lexordp_linear by blast
  moreover have "\<not> (ord_class.lexordp (im_key a) (im_key b) \<and> ord_class.lexordp (im_key b) (im_key a))"
    using lexordp_antisym False lexordp_into_lexordp_eq by blast
  ultimately show ?thesis by (auto simp: fingerprint_material_def canonical_order_def)
next
  case True
  then have irr: "\<not> ord_class.lexordp (im_key a) (im_key b)" "\<not> ord_class.lexordp (im_key b) (im_key a)"
    using lexordp_irreflexive' by auto
  show ?thesis
  proof (cases "device_or_empty a = device_or_empty b")
    case same: True
    with True have "material_bytes a = material_bytes b" by (simp add: material_bytes_eq)
    with irr show ?thesis by (auto simp: fingerprint_material_def canonical_order_def)
  next
    case False
    then have "ord_class.lexordp_eq (device_or_empty a) (device_or_empty b) \<noteq>
        ord_class.lexordp_eq (device_or_empty b) (device_or_empty a)"
      using lexordp_eq_linear lexordp_eq_antisym by blast
    with irr show ?thesis by (auto simp: fingerprint_material_def canonical_order_def)
  qed
qed

text \<open>The safety number does not depend on who computes it: both parties, entering the two
  identities in opposite order, get the same binary value and the same digits.\<close>

theorem fingerprint_symmetric: "compute_fingerprint C a b = compute_fingerprint C b a"
  by (simp add: compute_fingerprint_def fingerprint_material_sym)

text \<open>The hashed material identifies the pair of identities. If two pairs produce the same
  hash input then they are the same pair up to order (and up to a missing versus an empty
  device id), so any undetected substitution is a collision of the hash itself.\<close>

theorem fingerprint_material_binds:
  assumes "fingerprint_material a b = fingerprint_material a' b'"
    and "\<forall>m \<in> {a, b, a', b'}. length (im_key m) = 32 \<and> length (device_or_empty m) < 65536"
  shows "same_material a a' \<and> same_material b b' \<or> same_material a b' \<and> same_material b a'"
proof -
  obtain x y where xy: "canonical_order a b = (x, y)" "(x, y) = (a, b) \<or> (x, y) = (b, a)"
    using canonical_order_cases by metis
  obtain x' y' where xy': "canonical_order a' b' = (x', y')" "(x', y') = (a', b') \<or> (x', y') = (b', a')"
    using canonical_order_cases by metis
  have "material_bytes x @ material_bytes y = material_bytes x' @ material_bytes y'"
    using assms(1) xy(1) xy'(1) by (simp add: fingerprint_material_def)
  then have "same_material x x'" "material_bytes y @ [] = material_bytes y' @ []"
    using material_bytes_prefix_inj [of x "material_bytes y" x' "material_bytes y'"] xy(2) xy'(2) assms(2) by auto
  moreover from this(2) have "same_material y y'"
    using material_bytes_prefix_inj [of y "[]" y' "[]"] xy(2) xy'(2) assms(2) by auto
  ultimately show ?thesis using xy(2) xy'(2) by auto
qed

theorem fingerprint_material_binds_witness:
  "same_material \<lparr>im_key = replicate 32 1, im_device = None\<rparr> \<lparr>im_key = replicate 32 1, im_device = Some []\<rparr> \<and>
     fingerprint_material \<lparr>im_key = replicate 32 1, im_device = None\<rparr> \<lparr>im_key = replicate 32 2, im_device = None\<rparr> =
     fingerprint_material \<lparr>im_key = replicate 32 2, im_device = None\<rparr> \<lparr>im_key = replicate 32 1, im_device = Some []\<rparr>"
proof -
  let ?a = "\<lparr>im_key = replicate 32 1, im_device = None\<rparr>" and ?b = "\<lparr>im_key = replicate 32 2, im_device = None\<rparr>"
  let ?a' = "\<lparr>im_key = replicate 32 1, im_device = Some []\<rparr>"
  have eq: "fingerprint_material ?a ?b = fingerprint_material ?b ?a'"
    by (simp add: fingerprint_material_def canonical_order_def material_bytes_def numeral_eq_Suc)
  have "same_material ?a ?b \<and> same_material ?b ?a' \<or> same_material ?a ?a' \<and> same_material ?b ?b"
    by (rule fingerprint_material_binds [OF eq]) (simp add: device_or_empty_def)
  moreover have "\<not> same_material ?a ?b" by (simp add: same_material_def)
  ultimately show ?thesis using eq by blast
qed

lemma length_digits5 [simp]: "length (digits5 n) = 5"
  by (simp add: digits5_def)

lemma chunks_unroll: "0 < n \<Longrightarrow> chunks n xs = (if xs = [] then [] else take n xs # chunks n (drop n xs))"
  by (subst chunks.simps) simp

lemma length_chunks: "0 < n \<Longrightarrow> length (chunks n xs) = (length xs + n - 1) div n"
proof (induction n xs rule: chunks.induct)
  case (1 n xs)
  show ?case
  proof (cases "xs = []")
    case True
    with 1(2) show ?thesis by (simp add: chunks_unroll)
  next
    case False
    have "(length xs + n - 1) div n = Suc ((length (drop n xs) + n - 1) div n)"
    proof (cases "length xs \<le> n")
      case True
      have e: "length xs + n - 1 = n + (length xs - 1)" using False by (cases xs) auto
      have "(length xs + n - 1) div n = Suc ((length xs - 1) div n)" unfolding e using 1(2) div_add_self1 [of n] by simp
      moreover have "(length xs - 1) div n = 0" "(n - 1) div n = 0"
        using True False 1(2) by (auto intro!: div_less simp: Suc_le_eq length_greater_0_conv)
      ultimately show ?thesis using True by simp
    next
      case F: False
      then have e: "length xs + n - 1 = n + (length (drop n xs) + n - 1)" using 1(2) by simp
      show ?thesis unfolding e by (subst div_add_self1) (use 1(2) in simp_all)
    qed
    with 1 False show ?thesis by (simp add: chunks_unroll)
  qed
qed

lemma digit_ascii: "c \<in> set (digits5 n) \<Longrightarrow> (of_char c :: nat) \<in> {48..57}"
  by (auto simp: digits5_def)

text \<open>Shape of the numeric safety number: exactly 60 decimal digits. Only the first 35 carry
  information: a 32-byte value has seven five-byte groups, and the remaining 25 digits are
  zeros for every pair of identities.\<close>

theorem numeric_safety_number_shape:
  assumes "length b = 32"
  shows "length (binary_to_numeric b) = 60 \<and>
    (\<forall>c \<in> set (binary_to_numeric b). (of_char c :: nat) \<in> {48..57}) \<and>
    drop 35 (binary_to_numeric b) = replicate 25 (CHR ''0'')"
proof (intro conjI impI)
  let ?gs = "take 12 (chunks 5 b)"
  have "length (chunks 5 b) = 7" using assms by (simp add: length_chunks)
  then have gs: "?gs = chunks 5 b" "length ?gs = 7" by simp_all
  have "length (concat (map group_digits xs)) = 5 * length xs" for xs
    by (induction xs) (simp_all add: group_digits_def)
  then have len: "length (concat (map group_digits ?gs)) = 35" using gs by simp
  then have eq: "binary_to_numeric b = concat (map group_digits ?gs) @ replicate 25 (CHR ''0'')"
    by (simp add: binary_to_numeric_def NUMERIC_DIGIT_COUNT_def Let_def)
  show "length (binary_to_numeric b) = 60" "drop 35 (binary_to_numeric b) = replicate 25 (CHR ''0'')"
    using len by (simp_all add: eq)
  have "\<forall>c \<in> set (concat (map group_digits ?gs)). (of_char c :: nat) \<in> {48..57}"
    by (auto simp: group_digits_def dest: digit_ascii)
  then show "\<forall>c \<in> set (binary_to_numeric b). (of_char c :: nat) \<in> {48..57}" by (auto simp: eq)
qed

theorem numeric_safety_number_shape_witness:
  "length (binary_to_numeric (replicate 32 7)) = 60 \<and>
   drop 35 (binary_to_numeric (replicate 32 7)) = replicate 25 (CHR ''0'')"
  using numeric_safety_number_shape [of "replicate 32 7"] by simp

subsection \<open>Identity-change tracking\<close>

datatype identity_change_reason = IdentityKeyChanged | DeviceIdChanged | BothChanged

datatype identity_state =
    Unknown
  | Verified
  | IdentityChanged identity_material identity_material identity_change_reason

record identity_tracker =
  it_acknowledged :: "identity_material option"

definition tracker_new :: identity_tracker where
  "tracker_new = \<lparr>it_acknowledged = None\<rparr>"

definition with_acknowledged :: "identity_material \<Rightarrow> identity_tracker" where
  "with_acknowledged m = \<lparr>it_acknowledged = Some m\<rparr>"

definition tracker_observe :: "identity_tracker \<Rightarrow> identity_material \<Rightarrow> identity_state" where
  "tracker_observe t current =
     (case it_acknowledged t of
        None \<Rightarrow> Unknown
      | Some prev \<Rightarrow>
          let key_changed = im_key prev \<noteq> im_key current;
              device_changed = im_device prev \<noteq> im_device current
          in if \<not> key_changed \<and> \<not> device_changed then Verified
             else IdentityChanged prev current
                    (if key_changed \<and> device_changed then BothChanged
                     else if key_changed then IdentityKeyChanged else DeviceIdChanged))"

definition tracker_acknowledge :: "identity_tracker \<Rightarrow> identity_material \<Rightarrow> identity_tracker" where
  "tracker_acknowledge t current = t\<lparr>it_acknowledged := Some current\<rparr>"

lemma tracker_observe_verified: "tracker_observe t m = Verified \<longleftrightarrow> it_acknowledged t = Some m"
  by (auto simp: tracker_observe_def Let_def split: option.splits if_splits)

lemma tracker_observe_changed:
  "tracker_observe t m = IdentityChanged prev cur why \<longleftrightarrow>
     it_acknowledged t = Some prev \<and> cur = m \<and> prev \<noteq> m \<and>
     why = (if im_key prev = im_key m then DeviceIdChanged
            else if im_device prev = im_device m then IdentityKeyChanged else BothChanged)"
  by (auto simp: tracker_observe_def Let_def split: option.splits if_splits)

lemma tracker_observe_unknown: "tracker_observe t m = Unknown \<longleftrightarrow> it_acknowledged t = None"
  by (auto simp: tracker_observe_def Let_def split: option.splits if_splits)

text \<open>A changed identity is never silently trusted. A tracker reports \<open>Verified\<close> exactly for
  the acknowledged identity, \<open>Unknown\<close> exactly when nothing was acknowledged, and otherwise
  a change that names the old identity, the new one and which part differs; acknowledging is
  what makes an identity verified.\<close>

theorem tracker_never_silently_trusts:
  "(tracker_observe t m = Verified \<longleftrightarrow> it_acknowledged t = Some m) \<and>
    (tracker_observe t m = Unknown \<longleftrightarrow> it_acknowledged t = None) \<and>
    (tracker_observe t m = IdentityChanged prev cur why \<longleftrightarrow>
     it_acknowledged t = Some prev \<and> cur = m \<and> prev \<noteq> m \<and>
     why = (if im_key prev = im_key m then DeviceIdChanged
            else if im_device prev = im_device m then IdentityKeyChanged else BothChanged)) \<and>
    (tracker_observe (tracker_acknowledge t m) m' = Verified \<longleftrightarrow> m' = m)"
  by (simp only: tracker_observe_verified tracker_observe_unknown tracker_observe_changed)
     (auto simp: tracker_acknowledge_def)

subsection \<open>Trust store\<close>

datatype verification_method = VerNone | VerSafetyNumber

record trust_record =
  tr_identity :: identity_material
  tr_acknowledged :: bool
  tr_unix :: u64
  tr_method :: verification_method

type_synonym trust_store = "(bytes, trust_record) hmap"

definition trust_get :: "trust_store \<Rightarrow> bytes \<Rightarrow> trust_record option" where
  "trust_get s k = hm_get s k"

definition record_seen :: "trust_store \<Rightarrow> identity_material \<Rightarrow> trust_store" where
  "record_seen s m =
     (let k = im_key m
      in case hm_get s k of
           Some _ \<Rightarrow> s
         | None \<Rightarrow> hm_insert s k \<lparr>tr_identity = m, tr_acknowledged = False, tr_unix = 0, tr_method = VerNone\<rparr>)"

definition trust_acknowledge ::
  "trust_store \<Rightarrow> identity_material \<Rightarrow> u64 \<Rightarrow> verification_method \<Rightarrow> trust_store" where
  "trust_acknowledge s m now method =
     hm_insert s (im_key m) \<lparr>tr_identity = m, tr_acknowledged = True, tr_unix = now, tr_method = method\<rparr>"

definition tracker_for :: "trust_store \<Rightarrow> bytes \<Rightarrow> identity_tracker" where
  "tracker_for s k =
     (case hm_get s k of
        Some r \<Rightarrow> if tr_acknowledged r then with_acknowledged (tr_identity r) else tracker_new
      | None \<Rightarrow> tracker_new)"

fun method_as_u8 :: "verification_method \<Rightarrow> u8" where
  "method_as_u8 VerNone = 0"
| "method_as_u8 VerSafetyNumber = 1"

definition put_trust_record :: "trust_record \<Rightarrow> bytes" where
  "put_trust_record r =
     (let dev = device_or_empty (tr_identity r)
      in im_key (tr_identity r) @ le_bytes 2 (of_nat (length dev) :: u16) @ dev @
         [if tr_acknowledged r then 1 else 0] @ le_bytes 8 (tr_unix r) @ [method_as_u8 (tr_method r)])"

definition trust_serialize :: "trust_store \<Rightarrow> bytes" where
  "trust_serialize s =
     bstr ''VCTRUST1'' @ le_bytes 4 (of_nat (length s) :: u32) @ concat (map (put_trust_record \<circ> snd) s)"

definition take_trust_record :: "bytes \<Rightarrow> prim_error + (bytes \<times> trust_record) \<times> bytes" where
  "take_trust_record d =
     rbind (take_n InvalidLength 32 d) (\<lambda>(ikb, d).
     rbind (take_u16 InvalidLength d) (\<lambda>(dlen, d).
     rbind (take_n InvalidLength (unat dlen) d) (\<lambda>(dev, d).
     rbind (take_u8 InvalidLength d) (\<lambda>(ackb, d).
     rbind (take_u64 InvalidLength d) (\<lambda>(unix, d).
     rbind (take_u8 InvalidLength d) (\<lambda>(mb, d).
     rbind (if mb = 0 then Inr VerNone else if mb = 1 then Inr VerSafetyNumber else Inl InvalidLength) (\<lambda>method.
     rbind (public_from_bytes ikb) (\<lambda>ik.
       Inr ((ikb, \<lparr>tr_identity = \<lparr>im_key = ik, im_device = (if unat dlen = 0 then None else Some dev)\<rparr>,
                   tr_acknowledged = (ackb \<noteq> 0), tr_unix = unix, tr_method = method\<rparr>), d)))))))))"

definition trust_deserialize :: "bytes \<Rightarrow> prim_error + trust_store" where
  "trust_deserialize data =
     (if length data < 12 \<or> take 8 data \<noteq> bstr ''VCTRUST1'' then Inl InvalidLength
      else
        let n = unat (from_le (take 4 (drop 8 data)) :: u32)
        in rbind (take_list take_trust_record n (drop 12 data)) (\<lambda>(rs, rest).
             if rest \<noteq> [] then Inl InvalidLength else Inr (hm_of_list rs)))"

text \<open>Every record is filed under its own identity key.\<close>

definition trust_ok :: "trust_store \<Rightarrow> bool" where
  "trust_ok s \<longleftrightarrow> hm_ok s \<and> (\<forall>(k, r) \<in> set s. im_key (tr_identity r) = k)"

lemma trust_ok_get: "trust_ok s \<Longrightarrow> hm_get s k = Some r \<Longrightarrow> im_key (tr_identity r) = k"
  using hm_get_in_set by (fastforce simp: trust_ok_def)

lemma trust_ok_insert: "trust_ok s \<Longrightarrow> im_key (tr_identity r) = k \<Longrightarrow> trust_ok (hm_insert s k r)"
  using set_hm_insert [of s k r] by (fastforce simp: trust_ok_def)

lemma trust_ok_Nil [simp]: "trust_ok []"
  by (simp add: trust_ok_def)

datatype trust_op = Seen identity_material | Ack identity_material u64 verification_method

fun trust_apply :: "trust_op \<Rightarrow> trust_store \<Rightarrow> trust_store" where
  "trust_apply (Seen m) s = record_seen s m"
| "trust_apply (Ack m now how) s = trust_acknowledge s m now how"

fun trust_last_ack :: "trust_op list \<Rightarrow> bytes \<Rightarrow> identity_material option" where
  "trust_last_ack [] k = None"
| "trust_last_ack (op # ops) k =
     (case trust_last_ack ops k of
        Some m \<Rightarrow> Some m
      | None \<Rightarrow> (case op of Ack m now how \<Rightarrow> if im_key m = k then Some m else None | Seen m \<Rightarrow> None))"

lemma trust_apply_ok: "trust_ok s \<Longrightarrow> trust_ok (trust_apply op s)"
  by (cases op) (auto simp: record_seen_def trust_acknowledge_def Let_def trust_ok_insert split: option.split)

lemma tracker_for_apply:
  "it_acknowledged (tracker_for (trust_apply op s) k) =
     (case op of Ack m now how \<Rightarrow> if im_key m = k then Some m else it_acknowledged (tracker_for s k)
      | Seen m \<Rightarrow> it_acknowledged (tracker_for s k))"
  by (cases op) (auto simp: tracker_for_def record_seen_def trust_acknowledge_def Let_def
      with_acknowledged_def tracker_new_def split: option.split)

lemma tracker_for_run:
  "it_acknowledged (tracker_for (fold trust_apply ops s) k) =
     (case trust_last_ack ops k of Some m \<Rightarrow> Some m | None \<Rightarrow> it_acknowledged (tracker_for s k))"
  by (induction ops arbitrary: s)
     (auto simp: tracker_for_apply split: option.splits trust_op.splits)

lemma tracker_cong: "it_acknowledged t = it_acknowledged t' \<Longrightarrow> t = (t' :: identity_tracker)"
  by (cases t; cases t') simp

lemma trust_last_ack_key: "trust_last_ack ops k = Some prev \<Longrightarrow> im_key prev = k"
  by (induction ops) (auto split: option.splits trust_op.splits if_splits)

lemma trust_last_ack_None:
  "trust_last_ack ops k = None \<longleftrightarrow> (\<forall>p now how. Ack p now how \<in> set ops \<longrightarrow> im_key p \<noteq> k)"
  by (induction ops) (auto split: option.splits trust_op.splits)

lemma acknowledged_run: "it_acknowledged (tracker_for (fold trust_apply ops []) k) = trust_last_ack ops k"
  unfolding tracker_for_run by (simp add: tracker_for_def tracker_new_def split: option.split)

text \<open>C39: the store is indexed by the identity key, so it cannot notice a changed identity key.
  After any sequence of sightings and acknowledgements on a fresh store, an identity is
  \<open>Unknown\<close> exactly when no acknowledgement was made under its key, however many identities were
  acknowledged under other keys; otherwise it is \<open>Verified\<close> if it is the identity acknowledged last
  under its key, and \<open>IdentityChanged\<close> if that one differs, always with the reason \<open>DeviceIdChanged\<close>.
  So acknowledging a contact never affects what is reported when the contact comes back with a new
  key, and the reasons \<open>IdentityKeyChanged\<close> and \<open>BothChanged\<close> are never reported.\<close>

theorem trust_store_misses_key_change:
  "tracker_observe (tracker_for (fold trust_apply ops []) (im_key m)) m =
     (case trust_last_ack ops (im_key m) of
        None \<Rightarrow> Unknown
      | Some prev \<Rightarrow> if prev = m then Verified else IdentityChanged prev m DeviceIdChanged) \<and>
   (trust_last_ack ops (im_key m) = None \<longleftrightarrow>
     (\<forall>p now how. Ack p now how \<in> set ops \<longrightarrow> im_key p \<noteq> im_key m)) \<and>
   (im_key p \<noteq> im_key m \<longrightarrow>
     tracker_observe (tracker_for (trust_acknowledge (fold trust_apply ops []) p now how) (im_key m)) m =
     tracker_observe (tracker_for (fold trust_apply ops []) (im_key m)) m)"
proof (intro conjI impI)
  show "tracker_observe (tracker_for (fold trust_apply ops []) (im_key m)) m =
     (case trust_last_ack ops (im_key m) of None \<Rightarrow> Unknown
      | Some prev \<Rightarrow> if prev = m then Verified else IdentityChanged prev m DeviceIdChanged)"
    by (cases "trust_last_ack ops (im_key m)")
       (simp_all add: tracker_observe_verified tracker_observe_unknown tracker_observe_changed acknowledged_run
         trust_last_ack_key)
  assume "im_key p \<noteq> im_key m"
  then show "tracker_observe (tracker_for (trust_acknowledge (fold trust_apply ops []) p now how) (im_key m)) m =
     tracker_observe (tracker_for (fold trust_apply ops []) (im_key m)) m"
    by (simp add: trust_acknowledge_def tracker_for_def)
qed (rule trust_last_ack_None)

definition demo_identity :: "u8 \<Rightarrow> identity_material" where
  "demo_identity d = \<lparr>im_key = replicate 32 1, im_device = Some [d]\<rparr>"

lemma demo_identity_key [simp]: "im_key (demo_identity d) = replicate 32 1" "im_device (demo_identity d) = Some [d]"
  by (simp_all add: demo_identity_def)

lemma demo_identity_inj [simp]: "demo_identity d = demo_identity e \<longleftrightarrow> d = e"
  by (simp add: demo_identity_def)

text \<open>After one acknowledgement of device 1 under the key of ones: device 2 under the same key is a
  changed device, the same device under a key of twos is unknown.\<close>

theorem trust_store_misses_key_change_witness:
  "tracker_observe (tracker_for (fold trust_apply [Ack (demo_identity 1) 5 VerSafetyNumber] [])
      (im_key (demo_identity 2))) (demo_identity 2) =
     IdentityChanged (demo_identity 1) (demo_identity 2) DeviceIdChanged \<and>
   tracker_observe (tracker_for (trust_acknowledge (fold trust_apply [] []) (demo_identity 1) 5 VerSafetyNumber)
      (replicate 32 2)) \<lparr>im_key = replicate 32 2, im_device = Some [1]\<rparr> = Unknown"
  using trust_store_misses_key_change [THEN conjunct1, of "[Ack (demo_identity 1) 5 VerSafetyNumber]" "demo_identity 2"]
    trust_store_misses_key_change [THEN conjunct2, THEN conjunct2, of "demo_identity 1"
      "\<lparr>im_key = replicate 32 2, im_device = Some [1]\<rparr>" "[]" 5 VerSafetyNumber]
    trust_store_misses_key_change [THEN conjunct1, of "[]" "\<lparr>im_key = replicate 32 2, im_device = Some [1]\<rparr>"]
  by simp

definition trust_fits :: "trust_store \<Rightarrow> bool" where
  "trust_fits s \<longleftrightarrow> trust_ok s \<and> length s < 2 ^ 32 \<and>
     (\<forall>(k, r) \<in> set s. length k = 32 \<and> k \<noteq> zeros32 \<and> im_device (tr_identity r) \<noteq> Some [] \<and>
        length (device_or_empty (tr_identity r)) < 65536)"

lemma take_trust_record_put:
  assumes "im_key (tr_identity r) = k" "length k = 32" "k \<noteq> zeros32" "im_device (tr_identity r) \<noteq> Some []"
    "length (device_or_empty (tr_identity r)) < 65536"
  shows "take_trust_record (put_trust_record r @ rest) = Inr ((k, r), rest)"
proof -
  let ?dev = "device_or_empty (tr_identity r)"
  have m: "(if method_as_u8 (tr_method r) = 0 then Inr VerNone
      else if method_as_u8 (tr_method r) = 1 then Inr VerSafetyNumber else Inl InvalidLength) = Inr (tr_method r)"
    by (cases "tr_method r") simp_all
  have "(if length ?dev = 0 then None else Some ?dev) = im_device (tr_identity r)"
    using assms(4) by (auto simp: device_or_empty_def split: option.split)
  then have i: "\<lparr>im_key = k, im_device = if ?dev = [] then None else Some ?dev\<rparr> = tr_identity r"
    using assms(1) by (cases "tr_identity r") simp
  then have "\<lparr>tr_identity = \<lparr>im_key = k, im_device = if ?dev = [] then None else Some ?dev\<rparr>,
      tr_acknowledged = tr_acknowledged r, tr_unix = tr_unix r, tr_method = tr_method r\<rparr> = r"
    by (cases r) simp
  with assms m show ?thesis
    by (cases "tr_acknowledged r"; cases "?dev = []")
       (simp_all add: take_trust_record_def put_trust_record_def Let_def)
qed

interpretation trust: codec trust_serialize trust_deserialize trust_fits
proof
  fix s assume s: "trust_fits s"
  then have "take_list take_trust_record (length s) (concat (map (put_trust_record \<circ> snd) s) @ []) = Inr (s, [])"
    by (intro take_list_app) (fastforce simp: trust_fits_def trust_ok_def take_trust_record_put)
  moreover have "hm_ok s" "length s < 2 ^ 32" using s by (simp_all add: trust_fits_def trust_ok_def)
  ultimately show "trust_deserialize (trust_serialize s) = Inr s"
    by (simp add: trust_deserialize_def trust_serialize_def Let_def)
qed

text \<open>Trust survives a restart: a store that is written and reloaded is the same store, so no
  identity gains or loses its verified status (stores whose device ids are non-empty and
  shorter than 64 KiB).\<close>

theorem trust_survives_reload:
  assumes "trust_fits s"
  shows "\<exists>s'. trust_deserialize (trust_serialize s) = Inr s' \<and>
    (\<forall>m. tracker_observe (tracker_for s' (im_key m)) m = tracker_observe (tracker_for s (im_key m)) m)"
  using trust.roundtrip [OF assms] by simp

theorem trust_survives_reload_witness:
  "\<exists>s'. trust_deserialize (trust_serialize (fold trust_apply [Ack (demo_identity 1) 5 VerSafetyNumber] [])) = Inr s' \<and>
     tracker_observe (tracker_for s' (im_key (demo_identity 1))) (demo_identity 1) = Verified"
proof -
  let ?s = "fold trust_apply [Ack (demo_identity 1) 5 VerSafetyNumber] []"
  have "?s = [(im_key (demo_identity 1), \<lparr>tr_identity = demo_identity 1, tr_acknowledged = True,
      tr_unix = 5, tr_method = VerSafetyNumber\<rparr>)]"
    by (simp add: trust_acknowledge_def hm_insert_def)
  moreover have "length (im_key (demo_identity 1)) = 32" "im_key (demo_identity 1) \<noteq> zeros32"
    by (simp_all add: demo_identity_def zeros32_def)
  ultimately have "trust_fits ?s"
    by (simp add: trust_fits_def trust_ok_def hm_ok_def device_or_empty_def)
  from trust_survives_reload [OF this] obtain s' where s': "trust_deserialize (trust_serialize ?s) = Inr s'"
    "tracker_observe (tracker_for s' (im_key (demo_identity 1))) (demo_identity 1) =
     tracker_observe (tracker_for ?s (im_key (demo_identity 1))) (demo_identity 1)" by blast
  moreover have "tracker_observe (tracker_for ?s (im_key (demo_identity 1))) (demo_identity 1) = Verified"
    by (simp add: tracker_observe_verified trust_acknowledge_def tracker_for_def with_acknowledged_def)
  ultimately show ?thesis by (intro exI [of _ s'] conjI) simp_all
qed

end
