(* ===== verification/VC_Ratchet.thy ===== *)
theory VC_Ratchet
  imports VC_Primitives
begin

text \<open>
  The classical Double Ratchet (\<^verbatim>\<open>src/ratchet/mod.rs\<close>): header codec, state, the KDF helpers,
  and every operation on the state. A method on \<open>&mut self\<close> returns its result together with the
  state it leaves, also on an error, so that "a failed decryption leaves the state unchanged" is
  a statement about the model and not an artefact of it. \<open>SkippedKeys\<close> is the \<open>HashMap\<close> it wraps;
  zeroization on drop has no functional effect and is not modelled.
\<close>

subsection \<open>Header\<close>

record header =
  h_dh :: bytes
  h_pn :: u32
  h_n :: u32

definition header_encode :: "header \<Rightarrow> bytes" where
  "header_encode h = h_dh h @ le_bytes 4 (h_pn h) @ le_bytes 4 (h_n h)"

definition header_decode :: "bytes \<Rightarrow> prim_error + header" where
  "header_decode data =
     (if length data \<noteq> 40 then Inl InvalidLength
      else rbind (public_from_bytes (take 32 data)) (\<lambda>dh.
        Inr \<lparr>h_dh = dh, h_pn = from_le (take 4 (drop 32 data)), h_n = from_le (take 4 (drop 36 data))\<rparr>))"

definition header_wf :: "header \<Rightarrow> bool" where
  "header_wf h \<longleftrightarrow> length (h_dh h) = 32 \<and> h_dh h \<noteq> zeros32"

lemma length_header_encode [simp]: "header_wf h \<Longrightarrow> length (header_encode h) = 40"
  by (simp add: header_wf_def header_encode_def)

lemma header_decode_encode: "header_wf h \<Longrightarrow> header_decode (header_encode h) = Inr h"
  by (simp add: header_decode_def header_encode_def header_wf_def)

lemma header_decode_sound:
  assumes "header_decode data = Inr h"
  shows "header_wf h \<and> header_encode h = data"
proof -
  from assms have len: "length data = 40" and nz: "take 32 data \<noteq> zeros32"
    and h: "h = \<lparr>h_dh = take 32 data, h_pn = from_le (take 4 (drop 32 data)),
                 h_n = from_le (take 4 (drop 36 data))\<rparr>"
    by (auto simp: header_decode_def rd_simps split: if_splits)
  have "take 32 data @ take 4 (drop 32 data) @ take 4 (drop 36 data) = data"
    using len append_take_drop_id [of 32 data] append_take_drop_id [of 4 "drop 32 data"]
    by simp
  with len nz h show ?thesis by (simp add: header_wf_def header_encode_def)
qed

subsection \<open>State\<close>

type_synonym skip_key = "bytes \<times> u32"

record dr_state =
  dhs :: "bytes option"
  dhr :: "bytes option"
  rk :: bytes
  cks :: "bytes option"
  ckr :: "bytes option"
  ns :: u32
  nr :: u32
  pn :: u32
  mkskipped :: "(skip_key, bytes) hmap"
  max_skip :: u32

definition DEFAULT_MAX_SKIP :: u32 where
  "DEFAULT_MAX_SKIP = 1000"

definition checked_inc :: "u32 \<Rightarrow> prim_error + u32" where
  "checked_inc n = ok_or LimitExceeded (checked_add n 1)"

lemma checked_inc_iff: "checked_inc n = Inr m \<longleftrightarrow> unat n + 1 < 2 ^ 32 \<and> m = n + 1"
  by (auto simp: checked_inc_def checked_add_Some_iff)

lemma checked_inc_unat: "checked_inc n = Inr m \<Longrightarrow> unat m = Suc (unat n)"
  by (auto simp: checked_inc_def dest: checked_add_unat)

lemma checked_inc_ok: "unat n < 2 ^ 32 - 1 \<Longrightarrow> checked_inc n = Inr (n + 1)"
  by (simp add: checked_inc_iff)

lemma checked_inc_max: "checked_inc n = Inl e \<longleftrightarrow> n = - 1 \<and> e = LimitExceeded"
proof -
  have "unat n + 1 < 2 ^ 32 \<longleftrightarrow> n \<noteq> - 1"
  proof -
    have "n = - 1 \<longleftrightarrow> unat n = unat (- 1 :: u32)" by (metis unsigned_word_eqI)
    moreover have "unat (- 1 :: u32) = 4294967295"
      by (simp add: unsigned_minus_1_eq_mask mask_eq_exp_minus_1)
    moreover have "unat n \<noteq> 4294967295 \<Longrightarrow> unat n < 4294967295"
      using unat_u32_bound [of n] by arith
    ultimately show ?thesis by auto
  qed
  then show ?thesis by (auto simp: checked_inc_def checked_add_def)
qed

subsection \<open>KDF helpers\<close>

definition kdf_rk :: "crypto \<Rightarrow> bytes \<Rightarrow> bytes \<Rightarrow> prim_error + (bytes \<times> bytes)" where
  "kdf_rk C rk0 dh_out =
     rbind (hkdf_extract_expand C (Some rk0) dh_out DR_ROOT 64) (\<lambda>okm.
       Inr (take 32 okm, take 32 (drop 32 okm)))"

definition kdf_ck :: "crypto \<Rightarrow> bytes \<Rightarrow> prim_error + (bytes \<times> bytes)" where
  "kdf_ck C ck =
     (let mk = hmac_sha256 C ck [1]; new_ck = hmac_sha256 C ck [2] in Inr (new_ck, mk))"

definition aead_from_mk :: "crypto \<Rightarrow> bytes \<Rightarrow> prim_error + (bytes \<times> bytes)" where
  "aead_from_mk C mk =
     rbind (hkdf_extract_expand C (Some (replicate 32 0)) mk DR_MESSAGE 44) (\<lambda>okm.
       Inr (take 32 okm, take 12 (drop 32 okm)))"

definition concat_ad :: "bytes \<Rightarrow> header \<Rightarrow> bytes" where
  "concat_ad ad h = le_bytes 8 (of_nat (length ad) :: u64) @ ad @ header_encode h"

subsection \<open>Initialisation\<close>

definition init_alice :: "crypto \<Rightarrow> rng \<Rightarrow> bytes \<Rightarrow> bytes \<Rightarrow> u32 \<Rightarrow> (prim_error + dr_state) \<times> rng" where
  "init_alice C r sk bob_dh_public ms =
     (let (s, r1) = secret_generate C r
      in (rbind (kdf_rk C sk (diffie_hellman C s bob_dh_public)) (\<lambda>(rk0, ck).
            Inr \<lparr>dhs = Some s, dhr = Some bob_dh_public, rk = rk0, cks = Some ck, ckr = None,
                 ns = 0, nr = 0, pn = 0, mkskipped = [], max_skip = ms\<rparr>), r1))"

definition init_bob :: "bytes \<Rightarrow> bytes \<Rightarrow> u32 \<Rightarrow> dr_state" where
  "init_bob sk bob_dh_keypair ms =
     \<lparr>dhs = Some bob_dh_keypair, dhr = None, rk = sk, cks = None, ckr = None,
      ns = 0, nr = 0, pn = 0, mkskipped = [], max_skip = ms\<rparr>"

subsection \<open>Sending\<close>

definition ratchet_send_key :: "crypto \<Rightarrow> dr_state \<Rightarrow> (prim_error + (u32 \<times> bytes)) \<times> dr_state" where
  "ratchet_send_key C s =
     sbind (ok_or Internal (cks s), s) (\<lambda>ck s.
     sbind (kdf_ck C ck, s) (\<lambda>(new_cks, mk) s.
       let s1 = s\<lparr>cks := Some new_cks\<rparr>; n = ns s1
       in sbind (checked_inc (ns s1), s1) (\<lambda>n' s. (Inr (n, mk), s\<lparr>ns := n'\<rparr>))))"

definition send_message_key :: "crypto \<Rightarrow> dr_state \<Rightarrow> (prim_error + (header \<times> bytes)) \<times> dr_state" where
  "send_message_key C s =
     sbind (ratchet_send_key C s) (\<lambda>(n, mk) s.
     sbind (ok_or Internal (dhs s), s) (\<lambda>sec s.
       (Inr (\<lparr>h_dh = public_key C sec, h_pn = pn s, h_n = n\<rparr>, mk), s)))"

definition dr_encrypt ::
  "crypto \<Rightarrow> dr_state \<Rightarrow> bytes \<Rightarrow> bytes \<Rightarrow> (prim_error + (header \<times> bytes)) \<times> dr_state" where
  "dr_encrypt C s plaintext ad =
     sbind (ratchet_send_key C s) (\<lambda>(n, mk) s.
     sbind (ok_or Internal (dhs s), s) (\<lambda>sec s.
       let h = \<lparr>h_dh = public_key C sec, h_pn = pn s, h_n = n\<rparr>;
           associated = concat_ad ad h
       in sbind (aead_from_mk C mk, s) (\<lambda>(key, nonce) s.
          sbind (aead_seal C key nonce plaintext associated, s) (\<lambda>ct s. (Inr (h, ct), s)))))"

subsection \<open>Receiving\<close>

definition try_skipped_message_keys :: "header \<Rightarrow> dr_state \<Rightarrow> bytes option \<times> dr_state" where
  "try_skipped_message_keys h s =
     (let key = (h_dh h, h_n h)
      in (hm_get (mkskipped s) key, s\<lparr>mkskipped := hm_remove (mkskipped s) key\<rparr>))"

text \<open>
  The \<open>while self.nr < until\<close> loop of \<open>skip_message_keys\<close>. The local \<open>ckr\<close> travels beside the
  state; the recursion is over the distance \<open>until - nr\<close>, which each turn lowers by one.
\<close>

function skip_loop :: "crypto \<Rightarrow> u32 \<Rightarrow> bytes \<Rightarrow> dr_state \<Rightarrow> (prim_error + bytes) \<times> dr_state" where
  "skip_loop C until ck s =
     (if nr s < until then
        if of_nat (length (mkskipped s)) \<ge> max_skip s then (Inl LimitExceeded, s)
        else case kdf_ck C ck of
               Inl e \<Rightarrow> (Inl e, s)
             | Inr (new_ckr, mk) \<Rightarrow>
                 (case dhr s of
                    None \<Rightarrow> (Inl Internal, s)
                  | Some d \<Rightarrow>
                      let s1 = s\<lparr>mkskipped := hm_insert (mkskipped s) (d, nr s) mk\<rparr>
                      in case checked_inc (nr s1) of
                           Inl e \<Rightarrow> (Inl e, s1)
                         | Inr n' \<Rightarrow> skip_loop C until new_ckr (s1\<lparr>nr := n'\<rparr>))
      else (Inr ck, s))"
  by pat_completeness auto
termination
  by (relation "measure (\<lambda>(C, until, ck, s). unat until - unat (nr s))")
     (auto simp: word_less_nat_alt dest!: checked_inc_unat)

declare skip_loop.simps [simp del]

definition skip_message_keys :: "crypto \<Rightarrow> u32 \<Rightarrow> dr_state \<Rightarrow> (prim_error + unit) \<times> dr_state" where
  "skip_message_keys C until s =
     sbind (ok_or LimitExceeded (checked_add (nr s) (max_skip s)), s) (\<lambda>limit s.
       if limit < until then (Inl LimitExceeded, s)
       else case ckr s of
              None \<Rightarrow> (Inr (), s)
            | Some ck \<Rightarrow> sbind (skip_loop C until ck s) (\<lambda>ck' s. (Inr (), s\<lparr>ckr := Some ck'\<rparr>)))"

definition dh_ratchet :: "crypto \<Rightarrow> rng \<Rightarrow> header \<Rightarrow> dr_state \<Rightarrow> (prim_error + unit) \<times> dr_state" where
  "dh_ratchet C r h s =
     (let s1 = s\<lparr>pn := ns s, ns := 0, nr := 0, dhr := Some (h_dh h)\<rparr>
      in sbind (ok_or Internal (dhs s1), s1) (\<lambda>sec s.
         sbind (kdf_rk C (rk s) (diffie_hellman C sec (h_dh h)), s) (\<lambda>(rk1, ck1) s.
           let s2 = s\<lparr>rk := rk1, ckr := Some ck1\<rparr>;
               new_dhs = fst (secret_generate C r)
           in sbind (kdf_rk C (rk s2) (diffie_hellman C new_dhs (h_dh h)), s2) (\<lambda>(rk2, ck2) s.
                (Inr (), s\<lparr>rk := rk2, cks := Some ck2, dhs := Some new_dhs\<rparr>)))))"

definition ratchet_receive_key ::
  "crypto \<Rightarrow> rng \<Rightarrow> header \<Rightarrow> dr_state \<Rightarrow> (prim_error + bytes) \<times> dr_state" where
  "ratchet_receive_key C r h s =
     (case try_skipped_message_keys h s of
        (Some mk, s1) \<Rightarrow> (Inr mk, s1)
      | (None, s1) \<Rightarrow>
          sbind (if dhr s1 \<noteq> Some (h_dh h)
                 then sbind (skip_message_keys C (h_pn h) s1) (\<lambda>_ s. dh_ratchet C r h s)
                 else (Inr (), s1)) (\<lambda>_ s.
          sbind (skip_message_keys C (h_n h) s) (\<lambda>_ s.
          sbind (ok_or Internal (ckr s), s) (\<lambda>ck s.
          sbind (kdf_ck C ck, s) (\<lambda>(new_ckr, mk) s.
            let s2 = s\<lparr>ckr := Some new_ckr\<rparr>
            in sbind (checked_inc (nr s2), s2) (\<lambda>n' s. (Inr mk, s\<lparr>nr := n'\<rparr>)))))))"

definition receive_message_key ::
  "crypto \<Rightarrow> rng \<Rightarrow> header \<Rightarrow> dr_state \<Rightarrow> (prim_error + bytes) \<times> dr_state" where
  "receive_message_key C r h s = ratchet_receive_key C r h s"

definition clone_for_trial :: "crypto \<Rightarrow> dr_state \<Rightarrow> dr_state" where
  "clone_for_trial C s =
     \<lparr>dhs = map_option (secret_from_bytes C) (dhs s), dhr = dhr s, rk = rk s, cks = cks s,
      ckr = ckr s, ns = ns s, nr = nr s, pn = pn s, mkskipped = mkskipped s, max_skip = max_skip s\<rparr>"

text \<open>All work happens on the trial copy; \<open>*self = trial\<close> is the last step.\<close>

definition dr_decrypt ::
  "crypto \<Rightarrow> rng \<Rightarrow> dr_state \<Rightarrow> header \<Rightarrow> bytes \<Rightarrow> bytes \<Rightarrow> (prim_error + bytes) \<times> dr_state" where
  "dr_decrypt C r s h ciphertext ad =
     (case ratchet_receive_key C r h (clone_for_trial C s) of
        (Inl e, _) \<Rightarrow> (Inl e, s)
      | (Inr mk, trial) \<Rightarrow>
          (case rbind (aead_from_mk C mk) (\<lambda>(key, nonce).
                  aead_open C key nonce ciphertext (concat_ad ad h)) of
             Inl e \<Rightarrow> (Inl e, s)
           | Inr plaintext \<Rightarrow> (Inr plaintext, trial)))"

definition skipped_count :: "dr_state \<Rightarrow> nat" where
  "skipped_count s = length (mkskipped s)"

end
