(* ===== verification/VC_Ratchet_Props.thy ===== *)
theory VC_Ratchet_Props
  imports VC_Ratchet
begin

text \<open>
  Behaviour of the Double Ratchet operations: the well-formedness invariant \<open>dr_wf\<close> (array
  lengths, distinct and bounded skipped keys) and its preservation on every exit of every
  operation, the closed form of the skip loop, and the exact effect of sending.
\<close>

subsection \<open>Message-key chain\<close>

fun chain_key :: "crypto \<Rightarrow> bytes \<Rightarrow> nat \<Rightarrow> bytes" where
  "chain_key C ck 0 = ck"
| "chain_key C ck (Suc n) = hmac_sha256 C (chain_key C ck n) [2]"

definition msg_key :: "crypto \<Rightarrow> bytes \<Rightarrow> nat \<Rightarrow> bytes" where
  "msg_key C ck n = hmac_sha256 C (chain_key C ck n) [1]"

lemma kdf_ck_eq [simp]: "kdf_ck C ck = Inr (chain_key C ck 1, msg_key C ck 0)"
  by (simp add: kdf_ck_def msg_key_def)

lemma chain_key_shift: "chain_key C (chain_key C ck m) n = chain_key C ck (m + n)"
  by (induction n) simp_all

lemma msg_key_shift: "msg_key C (chain_key C ck m) n = msg_key C ck (m + n)"
  by (simp add: msg_key_def chain_key_shift)

lemma chain_key_len: "lens_ok C \<Longrightarrow> length ck = 32 \<Longrightarrow> length (chain_key C ck n) = 32"
  by (cases n) (simp_all add: hmac_len)

lemma msg_key_len: "lens_ok C \<Longrightarrow> length (msg_key C ck n) = 32"
  by (simp add: msg_key_def hmac_len)

lemma kdf_rk_ok:
  assumes "lens_ok C"
  obtains rk' ck where "kdf_rk C rk0 d = Inr (rk', ck)" "length rk' = 32" "length ck = 32"
proof -
  obtain okm where "hkdf_extract_expand C (Some rk0) d DR_ROOT 64 = Inr okm" "length okm = 64"
    using hkdf_ok [OF assms, of 64 "Some rk0" d DR_ROOT] by auto
  then show thesis using that by (simp add: kdf_rk_def)
qed

lemma kdf_rk_len: "lens_ok C \<Longrightarrow> kdf_rk C rk0 d = Inr (a, b) \<Longrightarrow> length a = 32 \<and> length b = 32"
  by (auto simp: kdf_rk_def rd_simps dest: hkdf_len)

lemma aead_from_mk_ok:
  assumes "lens_ok C"
  obtains key nonce where "aead_from_mk C mk = Inr (key, nonce)" "length key = 32" "length nonce = 12"
proof -
  obtain okm where "hkdf_extract_expand C (Some (replicate 32 0)) mk DR_MESSAGE 44 = Inr okm"
    "length okm = 44"
    using hkdf_ok [OF assms, of 44 "Some (replicate 32 0)" mk DR_MESSAGE] by auto
  then show thesis using that by (simp add: aead_from_mk_def)
qed

lemma aead_from_mk_total:
  "lens_ok C \<Longrightarrow> \<exists>key nonce. aead_from_mk C mk = Inr (key, nonce) \<and> length key = 32"
  by (meson aead_from_mk_ok)

subsection \<open>Well-formed states\<close>

definition skipped_wf :: "u32 \<Rightarrow> (skip_key, bytes) hmap \<Rightarrow> bool" where
  "skipped_wf ms m \<longleftrightarrow> hm_ok m \<and> length m \<le> unat ms \<and>
     (\<forall>((p, n), mk) \<in> set m. length p = 32 \<and> length mk = 32)"

definition dr_wf :: "crypto \<Rightarrow> dr_state \<Rightarrow> bool" where
  "dr_wf C s \<longleftrightarrow>
     (\<forall>x. dhs s = Some x \<longrightarrow> length x = 32 \<and> static_secret C x = x) \<and>
     (\<forall>p. dhr s = Some p \<longrightarrow> length p = 32 \<and> p \<noteq> zeros32) \<and>
     length (rk s) = 32 \<and>
     (\<forall>c. cks s = Some c \<longrightarrow> length c = 32) \<and> (\<forall>c. ckr s = Some c \<longrightarrow> length c = 32) \<and>
     skipped_wf (max_skip s) (mkskipped s)"

lemma skipped_wf_Nil [simp]: "skipped_wf ms []"
  by (simp add: skipped_wf_def)

lemma skipped_wf_insert:
  assumes "skipped_wf ms m" "length m < unat ms" "length p = 32" "length mk = 32"
  shows "skipped_wf ms (hm_insert m (p, n) mk)"
  using assms set_hm_insert [of m "(p, n)" mk]
  by (fastforce simp: skipped_wf_def length_hm_insert)

lemma skipped_wf_remove: "skipped_wf ms m \<Longrightarrow> skipped_wf ms (hm_remove m k)"
  using set_hm_remove [of m k] length_hm_remove_le [of m k]
  unfolding skipped_wf_def by (meson hm_ok_remove order_trans subsetD)

text \<open>The comparison \<open>self.mkskipped.len() as u32 >= self.max_skip\<close> is exact on well-formed maps.\<close>

lemma skip_limit_test:
  assumes "skipped_wf ms m"
  shows "of_nat (length m) \<ge> ms \<longleftrightarrow> length m \<ge> unat ms"
  using assms unat_of_nat_le [of "length m" ms] by (simp add: skipped_wf_def word_le_nat_alt)

lemma dr_wf_clone [simp]: "dr_wf C s \<Longrightarrow> clone_for_trial C s = s"
  by (cases s; cases "dhs s") (auto simp: clone_for_trial_def dr_wf_def secret_from_bytes_def)

lemma init_alice_wf:
  assumes "lens_ok C" "secret_stable C" "length bp = 32" "bp \<noteq> zeros32"
    and "fst (init_alice C r sk bp ms) = Inr s"
  shows "dr_wf C s"
proof -
  obtain x r1 where x: "secret_generate C r = (x, r1)" by (cases "secret_generate C r")
  from assms(5) x obtain rk0 ck where k: "kdf_rk C sk (diffie_hellman C x bp) = Inr (rk0, ck)"
    and s: "s = \<lparr>dhs = Some x, dhr = Some bp, rk = rk0, cks = Some ck, ckr = None,
                 ns = 0, nr = 0, pn = 0, mkskipped = [], max_skip = ms\<rparr>"
    by (auto simp: init_alice_def rd_simps)
  show ?thesis
    using kdf_rk_len [OF assms(1) k] secret_generate_len [OF assms(1) x]
      secret_generate_stable [OF assms(2) x] assms(3,4) s by (simp add: dr_wf_def)
qed

lemma init_alice_total:
  assumes "lens_ok C"
  obtains rk0 ck where "fst (init_alice C r sk bp ms) = Inr \<lparr>dhs = Some (fst (secret_generate C r)),
    dhr = Some bp, rk = rk0, cks = Some ck, ckr = None, ns = 0, nr = 0, pn = 0, mkskipped = [], max_skip = ms\<rparr>"
proof -
  obtain rk0 ck where "kdf_rk C sk (diffie_hellman C (fst (secret_generate C r)) bp) = Inr (rk0, ck)"
    using kdf_rk_ok [OF assms] by metis
  then show thesis
    using that [of rk0 ck] by (cases "secret_generate C r") (simp add: init_alice_def)
qed

lemma init_bob_wf:
  "length sk = 32 \<Longrightarrow> length x = 32 \<Longrightarrow> static_secret C x = x \<Longrightarrow> dr_wf C (init_bob sk x ms)"
  by (simp add: dr_wf_def init_bob_def)

subsection \<open>Sending\<close>

lemma ratchet_send_key_eq:
  "ratchet_send_key C s =
     (case cks s of None \<Rightarrow> (Inl Internal, s)
      | Some ck \<Rightarrow>
          (case checked_inc (ns s) of
             Inl e \<Rightarrow> (Inl e, s\<lparr>cks := Some (chain_key C ck 1)\<rparr>)
           | Inr n' \<Rightarrow> (Inr (ns s, msg_key C ck 0), s\<lparr>cks := Some (chain_key C ck 1), ns := n'\<rparr>)))"
  by (cases "cks s"; cases "checked_inc (ns s)") (simp_all add: ratchet_send_key_def Let_def)

lemma ratchet_send_key_wf: "lens_ok C \<Longrightarrow> dr_wf C s \<Longrightarrow> dr_wf C (snd (ratchet_send_key C s))"
  by (auto simp: ratchet_send_key_eq dr_wf_def hmac_len split: option.split sum.split)

lemma dr_encrypt_state: "snd (dr_encrypt C s pt ad) = snd (ratchet_send_key C s)"
  by (auto simp: dr_encrypt_def sbind_def Let_def split: sum.splits prod.splits)

lemma send_message_key_state: "snd (send_message_key C s) = snd (ratchet_send_key C s)"
  by (auto simp: send_message_key_def sbind_def Let_def split: sum.splits prod.splits)

lemma dr_encrypt_wf: "lens_ok C \<Longrightarrow> dr_wf C s \<Longrightarrow> dr_wf C (snd (dr_encrypt C s pt ad))"
  by (simp add: dr_encrypt_state ratchet_send_key_wf)

text \<open>A successful encryption, in full.\<close>

lemma dr_encrypt_cases:
  assumes "dr_encrypt C s pt ad = (Inr (h, ct), s')"
  obtains ck x key nonce where "cks s = Some ck" "dhs s = Some x"
    "h = \<lparr>h_dh = public_key C x, h_pn = pn s, h_n = ns s\<rparr>"
    "aead_from_mk C (msg_key C ck 0) = Inr (key, nonce)"
    "aead_seal C key nonce pt (concat_ad ad h) = Inr ct"
    "unat (ns s) + 1 < 2 ^ 32"
    "s' = s\<lparr>cks := Some (chain_key C ck 1), ns := ns s + 1\<rparr>"
  using assms
  by (auto simp: dr_encrypt_def ratchet_send_key_eq rd_simps Let_def checked_inc_iff
      split: option.splits sum.splits)

text \<open>Sending works whenever there is a sending chain and the counter is not exhausted.\<close>

lemma dr_encrypt_total:
  assumes "lens_ok C" "aead_correct C" "cks s = Some ck" "dhs s = Some x" "unat (ns s) + 1 < 2 ^ 32"
  shows "\<exists>h ct s'. dr_encrypt C s pt ad = (Inr (h, ct), s') \<and> h_pn h = pn s \<and> h_n h = ns s"
proof -
  obtain key nonce where k: "aead_from_mk C (msg_key C ck 0) = Inr (key, nonce)" "length key = 32"
    using aead_from_mk_total [OF assms(1)] by blast
  have "checked_inc (ns s) = Inr (ns s + 1)" using assms(5) by (simp add: checked_inc_iff)
  moreover obtain ct where "aead_seal C key nonce pt
      (concat_ad ad \<lparr>h_dh = public_key C x, h_pn = pn s, h_n = ns s\<rparr>) = Inr ct"
    using aead_seal_total [OF assms(2) k(2)] by blast
  ultimately show ?thesis
    using assms(3,4) k(1) by (simp add: dr_encrypt_def ratchet_send_key_eq Let_def)
qed

subsection \<open>The skip loop\<close>

fun skip_store :: "crypto \<Rightarrow> bytes \<Rightarrow> bytes \<Rightarrow> u32 \<Rightarrow> nat \<Rightarrow> (skip_key, bytes) hmap \<Rightarrow> (skip_key, bytes) hmap" where
  "skip_store C d ck n 0 m = m"
| "skip_store C d ck n (Suc k) m =
     skip_store C d (chain_key C ck 1) (n + 1) k (hm_insert m (d, n) (msg_key C ck 0))"

lemma length_skip_store: "length (skip_store C d ck n k m) \<le> length m + k"
proof (induction k arbitrary: ck n m)
  case (Suc k)
  from Suc.IH [of "chain_key C ck 1" "n + 1" "hm_insert m (d, n) (msg_key C ck 0)"]
  show ?case by (simp add: length_hm_insert split: if_splits)
qed simp

lemma unat_plus1: "unat n + 1 < 2 ^ 32 \<Longrightarrow> unat (n + 1 :: u32) = unat n + 1"
  by (simp add: unat_word_ariths)

text \<open>Every skipped position gets exactly the key the sender used there.\<close>

lemma hm_get_skip_store:
  assumes "unat n + k < 2 ^ 32"
  shows "hm_get (skip_store C d ck n k m) (p, j) =
    (if p = d \<and> unat n \<le> unat j \<and> unat j < unat n + k then Some (msg_key C ck (unat j - unat n))
     else hm_get m (p, j))"
  using assms
proof (induction k arbitrary: ck n m)
  case (Suc k)
  have n1: "unat (n + 1) = Suc (unat n)" using Suc.prems unat_plus1 [of n] by simp
  have IH: "hm_get (skip_store C d ck n (Suc k) m) (p, j) =
    (if p = d \<and> Suc (unat n) \<le> unat j \<and> unat j < Suc (unat n) + k
     then Some (msg_key C ck (Suc (unat j - Suc (unat n))))
     else hm_get (hm_insert m (d, n) (msg_key C ck 0)) (p, j))"
    using Suc.IH [of "n + 1" "chain_key C ck 1" "hm_insert m (d, n) (msg_key C ck 0)"] Suc.prems
      msg_key_shift [of C ck 1] by (simp add: n1)
  show ?case
  proof (cases "unat j = unat n")
    case True
    then have "j = n" by (metis unsigned_word_eqI)
    with IH show ?thesis by simp
  next
    case False
    then have "j \<noteq> n" by auto
    with False IH show ?thesis by (auto simp: Suc_diff_Suc Suc_le_eq)
  qed
qed auto

lemma skip_store_wf:
  assumes "lens_ok C" "length d = 32" "skipped_wf ms m" "length m + k \<le> unat ms"
  shows "skipped_wf ms (skip_store C d ck n k m)"
  using assms(3,4)
proof (induction k arbitrary: ck n m)
  case (Suc k)
  then have "skipped_wf ms (hm_insert m (d, n) (msg_key C ck 0))"
    by (simp add: skipped_wf_insert assms msg_key_len)
  moreover have "length (hm_insert m (d, n) (msg_key C ck 0)) + k \<le> unat ms"
    using Suc.prems by (simp add: length_hm_insert)
  ultimately show ?case using Suc.IH by simp
qed simp

text \<open>The counter cannot overflow inside the loop: \<open>nr < until\<close> leaves room for one more.\<close>

lemma skip_loop_unroll:
  "skip_loop C until ck s =
     (if nr s < until then
        if of_nat (length (mkskipped s)) \<ge> max_skip s then (Inl LimitExceeded, s)
        else case dhr s of None \<Rightarrow> (Inl Internal, s)
             | Some d \<Rightarrow> skip_loop C until (chain_key C ck 1)
                 (s\<lparr>mkskipped := hm_insert (mkskipped s) (d, nr s) (msg_key C ck 0), nr := nr s + 1\<rparr>)
      else (Inr ck, s))"
proof -
  have "nr s < until \<Longrightarrow> checked_inc (nr s) = Inr (nr s + 1)"
    using unat_u32_bound [of until] by (simp add: checked_inc_iff word_less_nat_alt)
  then show ?thesis by (subst skip_loop.simps) (simp split: option.split)
qed

lemma skip_loop_induct [case_names stop step]:
  assumes "\<And>ck s res. (\<forall>ck'. res = Inr ck' \<longrightarrow> ck' = ck) \<Longrightarrow> P ck s (res, s)"
    and "\<And>ck s d res. nr s < until \<Longrightarrow> \<not> of_nat (length (mkskipped s)) \<ge> max_skip s \<Longrightarrow>
      dhr s = Some d \<Longrightarrow> unat (nr s + 1) = Suc (unat (nr s)) \<Longrightarrow>
      P (chain_key C ck 1)
        (s\<lparr>mkskipped := hm_insert (mkskipped s) (d, nr s) (msg_key C ck 0), nr := nr s + 1\<rparr>) res \<Longrightarrow>
      P ck s res"
  shows "P ck s (skip_loop C until ck s)"
proof (induction "unat until - unat (nr s)" arbitrary: ck s rule: less_induct)
  case less
  show ?case
  proof (cases "nr s < until \<and> \<not> of_nat (length (mkskipped s)) \<ge> max_skip s \<and> dhr s \<noteq> None")
    case False
    then show ?thesis using assms(1) by (subst skip_loop_unroll) auto
  next
    case True
    then obtain d where d: "dhr s = Some d" by auto
    have n1: "unat (nr s + 1) = Suc (unat (nr s))"
      using True unat_u32_bound [of until] unat_plus1 [of "nr s"] by (simp add: word_less_nat_alt)
    let ?s = "s\<lparr>mkskipped := hm_insert (mkskipped s) (d, nr s) (msg_key C ck 0), nr := nr s + 1\<rparr>"
    have "P (chain_key C ck 1) ?s (skip_loop C until (chain_key C ck 1) ?s)"
      by (rule less) (use True n1 in \<open>auto simp: word_less_nat_alt\<close>)
    then have "P ck s (skip_loop C until (chain_key C ck 1) ?s)"
      using assms(2) True d n1 by blast
    with True d show ?thesis by (subst skip_loop_unroll) simp
  qed
qed

text \<open>With room for the skipped keys the loop runs to the end.\<close>

lemma skip_loop_eq:
  assumes "dhr s = Some d" "unat (nr s) + k = unat until" "length (mkskipped s) + k \<le> unat (max_skip s)"
  shows "skip_loop C until ck s =
    (Inr (chain_key C ck k), s\<lparr>mkskipped := skip_store C d ck (nr s) k (mkskipped s), nr := until\<rparr>)"
  using assms
proof (induction k arbitrary: ck s)
  case 0
  then have "nr s = until" by (metis add.right_neutral unsigned_word_eqI)
  then show ?case by (subst skip_loop.simps) simp
next
  case (Suc k)
  have lt: "nr s < until" using Suc.prems(2) by (simp add: word_less_nat_alt)
  have "length (mkskipped s) < unat (max_skip s)" using Suc.prems(3) by simp
  then have room: "\<not> of_nat (length (mkskipped s)) \<ge> max_skip s"
    using unat_of_nat_le [of "length (mkskipped s)" "max_skip s"] by (simp add: word_le_nat_alt)
  have n1: "unat (nr s + 1) = Suc (unat (nr s))"
    using Suc.prems(2) unat_u32_bound [of until] unat_plus1 [of "nr s"] by simp
  let ?s = "s\<lparr>mkskipped := hm_insert (mkskipped s) (d, nr s) (msg_key C ck 0), nr := nr s + 1\<rparr>"
  have "skip_loop C until ck s = skip_loop C until (chain_key C ck 1) ?s"
    using lt room Suc.prems(1) by (subst skip_loop_unroll) simp
  also have "\<dots> = (Inr (chain_key C (chain_key C ck 1) k),
      ?s\<lparr>mkskipped := skip_store C d (chain_key C ck 1) (nr ?s) k (mkskipped ?s), nr := until\<rparr>)"
    by (rule Suc.IH) (use Suc.prems n1 in \<open>simp_all add: length_hm_insert\<close>)
  finally show ?case using chain_key_shift [of C ck 1 k] by simp
qed

text \<open>On every exit, limit errors included, the loop keeps the state well formed and touches
  nothing but the skipped keys and the receive counter.\<close>

lemma skip_loop_wf:
  assumes "lens_ok C" "dr_wf C s" "length ck = 32" "skip_loop C until ck s = (res, s')"
  shows "dr_wf C s' \<and> (\<forall>ck'. res = Inr ck' \<longrightarrow> length ck' = 32)"
proof -
  have "dr_wf C s \<longrightarrow> length ck = 32 \<longrightarrow>
    (\<lambda>(res, s'). dr_wf C s' \<and> (\<forall>ck'. res = Inr ck' \<longrightarrow> length ck' = 32)) (skip_loop C until ck s)"
  proof (induction rule: skip_loop_induct)
    case (stop ck s res)
    then show ?case by auto
  next
    case (step ck s d res)
    show ?case
    proof (intro impI)
      assume w: "dr_wf C s" and l: "length ck = 32"
      have "skipped_wf (max_skip s) (mkskipped s)" "length d = 32"
        using w step(3) by (simp_all add: dr_wf_def)
      moreover then have "length (mkskipped s) < unat (max_skip s)"
        using step(2) by (simp add: skip_limit_test)
      ultimately have "skipped_wf (max_skip s) (hm_insert (mkskipped s) (d, nr s) (msg_key C ck 0))"
        by (simp add: skipped_wf_insert msg_key_len [OF assms(1)])
      with w step(5) chain_key_len [OF assms(1) l, of 1]
      show "(\<lambda>(res, s'). dr_wf C s' \<and> (\<forall>ck'. res = Inr ck' \<longrightarrow> length ck' = 32)) res"
        by (simp add: dr_wf_def)
    qed
  qed
  with assms show ?thesis by simp
qed

definition skip_frame :: "dr_state \<Rightarrow> dr_state \<Rightarrow> bool" where
  "skip_frame s s' \<longleftrightarrow>
     dhs s' = dhs s \<and> dhr s' = dhr s \<and> rk s' = rk s \<and> cks s' = cks s \<and>
     ns s' = ns s \<and> pn s' = pn s \<and> max_skip s' = max_skip s \<and> unat (nr s) \<le> unat (nr s')"

lemma skip_loop_frame:
  assumes "skip_loop C until ck s = (res, s')"
  shows "skip_frame s s' \<and> (nr s \<le> until \<longrightarrow> nr s' \<le> until)"
proof -
  have "(\<lambda>(res, s'). skip_frame s s' \<and> (nr s \<le> until \<longrightarrow> nr s' \<le> until)) (skip_loop C until ck s)"
  proof (induction rule: skip_loop_induct)
    case (stop ck s res)
    then show ?case by (simp add: skip_frame_def)
  next
    case (step ck s d res)
    have "nr s + 1 \<le> until" using step(1,4) by (simp add: word_le_nat_alt word_less_nat_alt)
    with step(4,5) show ?case by (cases res) (simp add: skip_frame_def)
  qed
  with assms show ?thesis by simp
qed

subsection \<open>Skipping message keys\<close>

text \<open>The shape of a call: refused at the limit, idle, or one run of the loop.\<close>

lemma skip_message_keys_cases:
  obtains (refused) "skip_message_keys C until s = (Inl LimitExceeded, s)"
  | (idle) "ckr s = None" "skip_message_keys C until s = (Inr (), s)"
  | (fail) ck e s' where "ckr s = Some ck" "skip_loop C until ck s = (Inl e, s')"
      "unat until \<le> unat (nr s) + unat (max_skip s)" "skip_message_keys C until s = (Inl e, s')"
  | (run) ck ck' s' where "ckr s = Some ck" "skip_loop C until ck s = (Inr ck', s')"
      "unat until \<le> unat (nr s) + unat (max_skip s)"
      "skip_message_keys C until s = (Inr (), s'\<lparr>ckr := Some ck'\<rparr>)"
proof (cases "checked_add (nr s) (max_skip s)")
  case None
  then show thesis by (intro refused) (simp add: skip_message_keys_def)
next
  case (Some l)
  then have l: "unat l = unat (nr s) + unat (max_skip s)" by (rule checked_add_unat)
  show thesis
  proof (cases "l < until")
    case True
    with Some show thesis by (intro refused) (simp add: skip_message_keys_def)
  next
    case False
    with l have le: "unat until \<le> unat (nr s) + unat (max_skip s)" by (simp add: word_less_nat_alt)
    show thesis
    proof (cases "ckr s")
      case None
      with Some False show thesis by (intro idle) (simp_all add: skip_message_keys_def)
    next
      case ck: (Some ck)
      obtain res s' where lp: "skip_loop C until ck s = (res, s')" by (cases "skip_loop C until ck s")
      with Some False ck have "skip_message_keys C until s =
          (case res of Inl e \<Rightarrow> (Inl e, s') | Inr ck' \<Rightarrow> (Inr (), s'\<lparr>ckr := Some ck'\<rparr>))"
        by (cases res) (simp_all add: skip_message_keys_def)
      with fail [OF ck] run [OF ck] lp le show thesis by (cases res) auto
    qed
  qed
qed

lemma skip_message_keys_wf:
  assumes "lens_ok C" "dr_wf C s"
  shows "dr_wf C (snd (skip_message_keys C until s))"
proof -
  have ck: "\<And>ck. ckr s = Some ck \<Longrightarrow> length ck = 32" using assms(2) by (simp add: dr_wf_def)
  show ?thesis
  proof (cases rule: skip_message_keys_cases [of C until s])
    case (fail k e s')
    with skip_loop_wf [OF assms ck [OF fail(1)] fail(2)] show ?thesis by simp
  next
    case (run k k' s')
    with skip_loop_wf [OF assms ck [OF run(1)] run(2)] show ?thesis by (simp add: dr_wf_def)
  qed (simp_all add: assms)
qed

lemma skip_message_keys_frame:
  assumes "skip_message_keys C until s = (res, s')"
  shows "skip_frame s s'" and "unat (nr s') \<le> unat (nr s) + unat (max_skip s)"
proof -
  have loop: "skip_frame s t \<and> unat (nr t) \<le> unat (nr s) + unat (max_skip s)"
    if "skip_loop C until ck s = (r, t)" "unat until \<le> unat (nr s) + unat (max_skip s)" for ck r t
  proof (cases "nr s \<le> until")
    case True
    with that skip_loop_frame [OF that(1)] show ?thesis by (simp add: word_le_nat_alt)
  next
    case False
    then have "skip_loop C until ck s = (Inr ck, s)" by (subst skip_loop_unroll) auto
    with that show ?thesis by (simp add: skip_frame_def)
  qed
  have "skip_frame s s' \<and> unat (nr s') \<le> unat (nr s) + unat (max_skip s)"
  proof (cases rule: skip_message_keys_cases [of C until s])
    case (fail k e t)
    with loop [OF fail(2,3)] assms show ?thesis by simp
  next
    case (run k k' t)
    with loop [OF run(2,3)] assms show ?thesis by (auto simp: skip_frame_def)
  qed (use assms in \<open>simp_all add: skip_frame_def\<close>)
  then show "skip_frame s s'" and "unat (nr s') \<le> unat (nr s) + unat (max_skip s)" by simp_all
qed

text \<open>Closed form when the receiving chain exists and the limits allow the skip.\<close>

lemma skip_message_keys_eq:
  assumes "ckr s = Some ck" "dhr s = Some d" "unat (nr s) + k = unat until"
    "length (mkskipped s) + k \<le> unat (max_skip s)"
    "unat (nr s) + unat (max_skip s) < 2 ^ 32"
  shows "skip_message_keys C until s = (Inr (),
    s\<lparr>mkskipped := skip_store C d ck (nr s) k (mkskipped s), nr := until, ckr := Some (chain_key C ck k)\<rparr>)"
proof -
  obtain l where l: "checked_add (nr s) (max_skip s) = Some l"
    using assms(5) by (simp add: checked_add_def)
  then have "unat l = unat (nr s) + unat (max_skip s)" by (rule checked_add_unat)
  then have "\<not> l < until" using assms(3,4) by (simp add: word_less_nat_alt)
  with l show ?thesis
    by (simp add: skip_message_keys_def assms(1) skip_loop_eq [OF assms(2,3,4)])
qed

text \<open>Nothing happens when the target is behind the counter, or there is no receiving chain.\<close>

lemma skip_message_keys_past:
  assumes "unat until \<le> unat (nr s)" "unat (nr s) + unat (max_skip s) < 2 ^ 32"
  shows "skip_message_keys C until s = (Inr (), s)"
proof -
  obtain l where l: "checked_add (nr s) (max_skip s) = Some l"
    using assms(2) by (simp add: checked_add_def)
  then have "unat l = unat (nr s) + unat (max_skip s)" by (rule checked_add_unat)
  then have "\<not> l < until" "\<not> nr s < until" using assms(1) by (simp_all add: word_less_nat_alt)
  with l show ?thesis
    by (cases "ckr s") (simp_all add: skip_message_keys_def skip_loop.simps)
qed

lemma skip_message_keys_no_chain:
  assumes "ckr s = None" "unat until \<le> unat (nr s) + unat (max_skip s)"
    "unat (nr s) + unat (max_skip s) < 2 ^ 32"
  shows "skip_message_keys C until s = (Inr (), s)"
proof -
  obtain l where l: "checked_add (nr s) (max_skip s) = Some l"
    using assms(3) by (simp add: checked_add_def)
  then have "unat l = unat (nr s) + unat (max_skip s)" by (rule checked_add_unat)
  then have "\<not> l < until" using assms(2) by (simp add: word_less_nat_alt)
  with l assms(1) show ?thesis by (simp add: skip_message_keys_def)
qed

subsection \<open>DH ratchet and receiving\<close>

lemma kdf_rk_total: "lens_ok C \<Longrightarrow> \<exists>a b. kdf_rk C k d = Inr (a, b)"
  by (rule kdf_rk_ok [of C k d]) auto

lemma dh_ratchet_eq:
  assumes "dhs s = Some x" "kdf_rk C (rk s) (diffie_hellman C x (h_dh h)) = Inr (rk1, ck1)"
    "secret_generate C r = (y, r')" "kdf_rk C rk1 (diffie_hellman C y (h_dh h)) = Inr (rk2, ck2)"
  shows "dh_ratchet C r h s = (Inr (), s\<lparr>pn := ns s, ns := 0, nr := 0, dhr := Some (h_dh h),
    rk := rk2, ckr := Some ck1, cks := Some ck2, dhs := Some y\<rparr>)"
  by (simp add: dh_ratchet_def Let_def assms)

lemma dh_ratchet_wf:
  assumes "lens_ok C" "secret_stable C" "header_wf h" "dr_wf C s"
  shows "dr_wf C (snd (dh_ratchet C r h s))"
proof (cases "dhs s")
  case None
  with assms(3,4) show ?thesis by (simp add: dh_ratchet_def dr_wf_def header_wf_def)
next
  case (Some x)
  obtain y r1 where y: "secret_generate C r = (y, r1)" by (cases "secret_generate C r")
  obtain rk1 ck1 where k1: "kdf_rk C (rk s) (diffie_hellman C x (h_dh h)) = Inr (rk1, ck1)"
    using kdf_rk_total [OF assms(1)] by blast
  obtain rk2 ck2 where k2: "kdf_rk C rk1 (diffie_hellman C y (h_dh h)) = Inr (rk2, ck2)"
    using kdf_rk_total [OF assms(1)] by blast
  note lens = kdf_rk_len [OF assms(1) k1] kdf_rk_len [OF assms(1) k2]
    secret_generate_len [OF assms(1) y] secret_generate_stable [OF assms(2) y]
  show ?thesis
    using assms(3,4) lens by (simp add: dh_ratchet_eq [OF Some k1 y k2] dr_wf_def header_wf_def)
qed

text \<open>The last three steps of \<open>ratchet_receive_key\<close>: take the next key off the receiving chain.\<close>

definition advance_recv :: "crypto \<Rightarrow> dr_state \<Rightarrow> (prim_error + bytes) \<times> dr_state" where
  "advance_recv C s =
     (case ckr s of None \<Rightarrow> (Inl Internal, s)
      | Some ck \<Rightarrow>
          (case checked_inc (nr s) of
             Inl e \<Rightarrow> (Inl e, s\<lparr>ckr := Some (chain_key C ck 1)\<rparr>)
           | Inr n' \<Rightarrow> (Inr (msg_key C ck 0), s\<lparr>ckr := Some (chain_key C ck 1), nr := n'\<rparr>)))"

lemma ratchet_receive_key_eq:
  "ratchet_receive_key C r h s =
     (let s1 = s\<lparr>mkskipped := hm_remove (mkskipped s) (h_dh h, h_n h)\<rparr>
      in case hm_get (mkskipped s) (h_dh h, h_n h) of
           Some mk \<Rightarrow> (Inr mk, s1)
         | None \<Rightarrow>
             sbind (if dhr s1 \<noteq> Some (h_dh h)
                    then sbind (skip_message_keys C (h_pn h) s1) (\<lambda>_ s. dh_ratchet C r h s)
                    else (Inr (), s1)) (\<lambda>_ s.
             sbind (skip_message_keys C (h_n h) s) (\<lambda>_ s. advance_recv C s)))"
proof -
  have adv: "sbind (ok_or Internal (ckr s), s) (\<lambda>ck s.
      sbind (kdf_ck C ck, s) (\<lambda>(new_ckr, mk) s.
        let s2 = s\<lparr>ckr := Some new_ckr\<rparr>
        in sbind (checked_inc (nr s2), s2) (\<lambda>n' s. (Inr mk, s\<lparr>nr := n'\<rparr>)))) = advance_recv C s" for s
    by (cases "ckr s"; cases "checked_inc (nr s)") (simp_all add: advance_recv_def)
  show ?thesis
    unfolding ratchet_receive_key_def try_skipped_message_keys_def Let_def adv [unfolded Let_def]
    by (cases "hm_get (mkskipped s) (h_dh h, h_n h)") simp_all
qed

lemma advance_recv_wf: "lens_ok C \<Longrightarrow> dr_wf C s \<Longrightarrow> dr_wf C (snd (advance_recv C s))"
  by (auto simp: advance_recv_def dr_wf_def hmac_len split: option.split sum.split)

lemma ratchet_receive_key_wf:
  assumes "lens_ok C" "secret_stable C" "header_wf h" "dr_wf C s"
  shows "dr_wf C (snd (ratchet_receive_key C r h s))"
proof -
  let ?s1 = "s\<lparr>mkskipped := hm_remove (mkskipped s) (h_dh h, h_n h)\<rparr>"
  have w1: "dr_wf C ?s1" using assms(4) by (auto simp: dr_wf_def skipped_wf_remove)
  have w2: "dr_wf C (snd (if dhr ?s1 \<noteq> Some (h_dh h)
    then sbind (skip_message_keys C (h_pn h) ?s1) (\<lambda>_ s. dh_ratchet C r h s) else (Inr (), ?s1)))"
  proof -
    have "dr_wf C (snd (sbind (skip_message_keys C (h_pn h) ?s1) (\<lambda>_ s. dh_ratchet C r h s)))"
      by (intro sbind_keeps [where P = "dr_wf C"] skip_message_keys_wf dh_ratchet_wf assms(1-3) w1)
    with w1 show ?thesis by (simp split: if_split)
  qed
  have "dr_wf C (snd (sbind (if dhr ?s1 \<noteq> Some (h_dh h)
    then sbind (skip_message_keys C (h_pn h) ?s1) (\<lambda>_ s. dh_ratchet C r h s) else (Inr (), ?s1))
    (\<lambda>_ s. sbind (skip_message_keys C (h_n h) s) (\<lambda>_ s. advance_recv C s))))"
    using w2 assms(1) by (intro sbind_keeps [where P = "dr_wf C"] skip_message_keys_wf advance_recv_wf)
  with w1 show ?thesis
    by (simp add: ratchet_receive_key_eq Let_def split: option.split if_splits)
qed

lemma dr_decrypt_wf:
  assumes "lens_ok C" "secret_stable C" "header_wf h" "dr_wf C s"
  shows "dr_wf C (snd (dr_decrypt C r s h ct ad))"
  using ratchet_receive_key_wf [OF assms, of r] assms(4)
  by (auto simp: dr_decrypt_def split: prod.split sum.split)

end
