(* ===== verification/VC_Session.thy ===== *)
theory VC_Session
  imports VC_Fingerprint VC_Ratchet_Props
begin

text \<open>
  The multi-device session manager (\<^verbatim>\<open>src/session/mod.rs\<close>): users, devices, their sessions and the
  limits on each. Every operation returns the manager it leaves, also when it fails.
\<close>

definition MAX_DEVICES_PER_USER :: nat where "MAX_DEVICES_PER_USER = 10"
definition MAX_SESSIONS_PER_DEVICE :: nat where "MAX_SESSIONS_PER_DEVICE = 8"
definition MAX_USERS :: nat where "MAX_USERS = 10000"
definition MAX_RESEND_ATTEMPTS :: u32 where "MAX_RESEND_ATTEMPTS = 5"
definition MAX_LATENCY_SECS :: u64 where "MAX_LATENCY_SECS = 86400"
definition MAX_INITIATING_SESSIONS :: nat where "MAX_INITIATING_SESSIONS = 64"

datatype session_status = Initiating | Active | Inactive | Failed

record session_record =
  sr_id :: bytes
  sr_status :: session_status
  sr_ratchet :: dr_state
  sr_timestamp :: u64

record device_record =
  dv_id :: bytes
  dv_identity :: "identity_material option"
  dv_active :: "session_record option"
  dv_inactive :: "session_record list"
  dv_stale :: bool
  dv_stale_timestamp :: "u64 option"

record user_record =
  ur_id :: bytes
  ur_devices :: "(bytes, device_record) hmap"
  ur_tracker :: identity_tracker
  ur_stale :: bool
  ur_stale_timestamp :: "u64 option"

record session_manager =
  sm_local_user :: bytes
  sm_local_device :: bytes
  sm_local_identity :: identity_material
  sm_users :: "(bytes, user_record) hmap"
  sm_initiating :: nat

subsection \<open>Device records\<close>

definition session_count :: "device_record \<Rightarrow> nat" where
  "session_count d = length (dv_inactive d) + (if dv_active d \<noteq> None then 1 else 0)"

fun position :: "('a \<Rightarrow> bool) \<Rightarrow> 'a list \<Rightarrow> nat option" where
  "position P [] = None"
| "position P (x # xs) = (if P x then Some 0 else map_option Suc (position P xs))"

definition activate :: "device_record \<Rightarrow> bytes \<Rightarrow> (prim_error + unit) \<times> device_record" where
  "activate d sid =
     (if (case dv_active d of Some a \<Rightarrow> sr_id a = sid | None \<Rightarrow> False) then (Inr (), d)
      else case position (\<lambda>s. sr_id s = sid) (dv_inactive d) of
             None \<Rightarrow> (Inl Internal, d)
           | Some pos \<Rightarrow>
               let new_active = (dv_inactive d ! pos)\<lparr>sr_status := Active\<rparr>;
                   rest = take pos (dv_inactive d) @ drop (Suc pos) (dv_inactive d);
                   demoted = (case dv_active d of
                                Some old \<Rightarrow> old\<lparr>sr_status := Inactive\<rparr> # rest
                              | None \<Rightarrow> rest)
               in (Inr (), d\<lparr>dv_inactive := take (MAX_SESSIONS_PER_DEVICE - 1) demoted,
                             dv_active := Some new_active\<rparr>))"

subsection \<open>Manager operations\<close>

definition manager_new :: "bytes \<Rightarrow> bytes \<Rightarrow> identity_material \<Rightarrow> session_manager" where
  "manager_new u d i =
     \<lparr>sm_local_user = u, sm_local_device = d, sm_local_identity = i, sm_users = [], sm_initiating = 0\<rparr>"

definition user_count :: "session_manager \<Rightarrow> nat" where
  "user_count m = length (sm_users m)"

definition dev_get :: "session_manager \<Rightarrow> bytes \<Rightarrow> bytes \<Rightarrow> device_record option" where
  "dev_get m u d = (case hm_get (sm_users m) u of None \<Rightarrow> None | Some ur \<Rightarrow> hm_get (ur_devices ur) d)"

text \<open>Write through the reference that \<open>get_mut\<close> returned.\<close>

definition dev_set :: "session_manager \<Rightarrow> bytes \<Rightarrow> bytes \<Rightarrow> device_record \<Rightarrow> session_manager" where
  "dev_set m u d dv =
     (case hm_get (sm_users m) u of
        None \<Rightarrow> m
      | Some ur \<Rightarrow> m\<lparr>sm_users := hm_insert (sm_users m) u (ur\<lparr>ur_devices := hm_insert (ur_devices ur) d dv\<rparr>)\<rparr>)"

definition new_session_id :: "rng \<Rightarrow> bytes" where
  "new_session_id r = fst (fill_random 16 r)"

definition empty_user :: "bytes \<Rightarrow> user_record" where
  "empty_user u = \<lparr>ur_id = u, ur_devices = [], ur_tracker = tracker_new, ur_stale = False,
                   ur_stale_timestamp = None\<rparr>"

definition empty_device :: "bytes \<Rightarrow> identity_material \<Rightarrow> device_record" where
  "empty_device d i = \<lparr>dv_id = d, dv_identity = Some i, dv_active = None, dv_inactive = [],
                       dv_stale = False, dv_stale_timestamp = None\<rparr>"

definition ensure_user_device ::
  "session_manager \<Rightarrow> bytes \<Rightarrow> bytes \<Rightarrow> identity_material \<Rightarrow> (prim_error + unit) \<times> session_manager" where
  "ensure_user_device m u d i =
     sbind (if hm_get (sm_users m) u = None then
              if length (sm_users m) \<ge> MAX_USERS then (Inl InvalidLength, m)
              else (Inr (), m\<lparr>sm_users := hm_insert (sm_users m) u (empty_user u)\<rparr>)
            else (Inr (), m)) (\<lambda>_ m.
       case hm_get (sm_users m) u of
         None \<Rightarrow> (Inl Internal, m)
       | Some ur \<Rightarrow>
           if hm_get (ur_devices ur) d = None then
             if length (ur_devices ur) \<ge> MAX_DEVICES_PER_USER then (Inl InvalidLength, m)
             else (Inr (), dev_set m u d (empty_device d i))
           else (Inr (), m))"

text \<open>The gate on identity changes shared by both ways of opening a session.\<close>

definition identity_gate :: "session_manager \<Rightarrow> bytes \<Rightarrow> bytes \<Rightarrow> identity_material \<Rightarrow> prim_error + device_record" where
  "identity_gate m u d i =
     rbind (ok_or Internal (hm_get (sm_users m) u)) (\<lambda>ur.
       case tracker_observe (ur_tracker ur) i of
         IdentityChanged _ _ _ \<Rightarrow> Inl Internal
       | _ \<Rightarrow> ok_or Internal (hm_get (ur_devices ur) d))"

text \<open>The second half of \<open>prepare_outbound\<close>: create an initiating session on the device.\<close>

definition open_outbound ::
  "crypto \<Rightarrow> rng \<Rightarrow> session_manager \<Rightarrow> bytes \<Rightarrow> bytes \<Rightarrow> device_record \<Rightarrow> bytes \<Rightarrow> bytes \<Rightarrow> u64 \<Rightarrow>
     (prim_error + bytes) \<times> session_manager" where
  "open_outbound C r m u d dv sk remote_dh now =
     (if sm_initiating m \<ge> MAX_INITIATING_SESSIONS then (Inl InvalidLength, m)
      else
        let dv1 = (if session_count dv \<ge> MAX_SESSIONS_PER_DEVICE
                   then dv\<lparr>dv_inactive := butlast (dv_inactive dv)\<rparr> else dv);
            m1 = dev_set m u d dv1
        in case init_alice C r sk remote_dh DEFAULT_MAX_SKIP of
             (Inl e, _) \<Rightarrow> (Inl e, m1)
           | (Inr ratchet, r1) \<Rightarrow>
               let sid = new_session_id r1;
                   rec = \<lparr>sr_id = sid, sr_status = Initiating, sr_ratchet = ratchet, sr_timestamp = now\<rparr>
               in (Inr sid, (dev_set m1 u d (dv1\<lparr>dv_active := Some rec\<rparr>))\<lparr>sm_initiating := sm_initiating m1 + 1\<rparr>))"

definition prepare_outbound ::
  "crypto \<Rightarrow> rng \<Rightarrow> session_manager \<Rightarrow> bytes \<Rightarrow> bytes \<Rightarrow> identity_material \<Rightarrow> bytes \<Rightarrow> bytes \<Rightarrow> u64 \<Rightarrow>
     (prim_error + bytes) \<times> session_manager" where
  "prepare_outbound C r m u d i sk remote_dh now =
     sbind (ensure_user_device m u d i) (\<lambda>_ m.
     sbind (identity_gate m u d i, m) (\<lambda>dv m.
       case dv_active dv of
         Some a \<Rightarrow>
           if sr_status a = Active \<or> sr_status a = Initiating then (Inr (sr_id a), m)
           else open_outbound C r m u d dv sk remote_dh now
       | None \<Rightarrow> open_outbound C r m u d dv sk remote_dh now))"

definition confirm_session ::
  "session_manager \<Rightarrow> bytes \<Rightarrow> bytes \<Rightarrow> bytes \<Rightarrow> (prim_error + unit) \<times> session_manager" where
  "confirm_session m u d sid =
     sbind (ok_or Internal (dev_get m u d), m) (\<lambda>dv m.
       case dv_active dv of
         Some a \<Rightarrow>
           if sr_id a = sid \<and> sr_status a = Initiating
           then (Inr (), (dev_set m u d (dv\<lparr>dv_active := Some (a\<lparr>sr_status := Active\<rparr>)\<rparr>))
                           \<lparr>sm_initiating := sm_initiating m - 1\<rparr>)
           else (Inr (), m)
       | None \<Rightarrow> (Inr (), m))"

definition prepare_inbound ::
  "rng \<Rightarrow> session_manager \<Rightarrow> bytes \<Rightarrow> bytes \<Rightarrow> identity_material \<Rightarrow> bytes \<Rightarrow> bytes \<Rightarrow> u64 \<Rightarrow>
     (prim_error + bytes) \<times> session_manager" where
  "prepare_inbound r m u d i sk local_dh now =
     sbind (ensure_user_device m u d i) (\<lambda>_ m.
     sbind (identity_gate m u d i, m) (\<lambda>dv m.
       case dv_active dv of
         Some a \<Rightarrow> (Inr (sr_id a), m)
       | None \<Rightarrow>
           let sid = new_session_id r
           in (Inr sid, dev_set m u d (dv\<lparr>dv_active :=
                 Some \<lparr>sr_id = sid, sr_status = Active, sr_ratchet = init_bob sk local_dh DEFAULT_MAX_SKIP,
                       sr_timestamp = now\<rparr>\<rparr>))))"

definition keep_device :: "u64 \<Rightarrow> device_record \<Rightarrow> bool" where
  "keep_device now dv =
     (if dv_stale dv then
        (case dv_stale_timestamp dv of Some ts \<Rightarrow> saturating_sub now ts \<le> MAX_LATENCY_SECS | None \<Rightarrow> True)
      else True)"

definition sweep_user :: "u64 \<Rightarrow> user_record \<Rightarrow> user_record option" where
  "sweep_user now ur =
     (if ur_stale ur \<and>
         (case ur_stale_timestamp ur of Some ts \<Rightarrow> saturating_sub now ts > MAX_LATENCY_SECS | None \<Rightarrow> False)
      then None
      else
        let devs = filter (\<lambda>(_, dv). keep_device now dv) (ur_devices ur)
        in if devs = [] then None else Some (ur\<lparr>ur_devices := devs\<rparr>))"

fun retain_users :: "u64 \<Rightarrow> (bytes, user_record) hmap \<Rightarrow> (bytes, user_record) hmap" where
  "retain_users now [] = []"
| "retain_users now ((u, ur) # us) =
     (case sweep_user now ur of None \<Rightarrow> retain_users now us | Some ur' \<Rightarrow> (u, ur') # retain_users now us)"

definition sweep_stale :: "session_manager \<Rightarrow> u64 \<Rightarrow> session_manager" where
  "sweep_stale m now = m\<lparr>sm_users := retain_users now (sm_users m)\<rparr>"

definition mark_device_stale ::
  "session_manager \<Rightarrow> bytes \<Rightarrow> bytes \<Rightarrow> u64 \<Rightarrow> (prim_error + unit) \<times> session_manager" where
  "mark_device_stale m u d now =
     sbind (ok_or Internal (dev_get m u d), m) (\<lambda>dv m.
       (Inr (), dev_set m u d (dv\<lparr>dv_stale := True, dv_stale_timestamp := Some now\<rparr>)))"

definition receive_on_session ::
  "session_manager \<Rightarrow> bytes \<Rightarrow> bytes \<Rightarrow> bytes \<Rightarrow> (prim_error + unit) \<times> session_manager" where
  "receive_on_session m u d sid =
     sbind (ok_or Internal (dev_get m u d), m) (\<lambda>dv m.
       if list_ex (\<lambda>s. sr_id s = sid) (dv_inactive dv) then
         (case activate dv sid of (res, dv') \<Rightarrow> (res, dev_set m u d dv'))
       else (Inr (), m))"

fun fail_first :: "bytes \<Rightarrow> session_record list \<Rightarrow> session_record list option" where
  "fail_first sid [] = None"
| "fail_first sid (s # ss) =
     (if sr_id s = sid then Some (s\<lparr>sr_status := Failed\<rparr> # ss) else map_option (Cons s) (fail_first sid ss))"

definition mark_failed ::
  "session_manager \<Rightarrow> bytes \<Rightarrow> bytes \<Rightarrow> bytes \<Rightarrow> (prim_error + unit) \<times> session_manager" where
  "mark_failed m u d sid =
     sbind (ok_or Internal (dev_get m u d), m) (\<lambda>dv m.
       if (case dv_active dv of Some a \<Rightarrow> sr_id a = sid | None \<Rightarrow> False) then
         (Inr (), dev_set m u d (dv\<lparr>dv_active := map_option (\<lambda>a. a\<lparr>sr_status := Failed\<rparr>) (dv_active dv)\<rparr>))
       else case fail_first sid (dv_inactive dv) of
              Some ss \<Rightarrow> (Inr (), dev_set m u d (dv\<lparr>dv_inactive := ss\<rparr>))
            | None \<Rightarrow> (Inl Internal, m))"

definition acknowledge_identity ::
  "session_manager \<Rightarrow> bytes \<Rightarrow> identity_material \<Rightarrow> (prim_error + unit) \<times> session_manager" where
  "acknowledge_identity m u i =
     sbind (ok_or Internal (hm_get (sm_users m) u), m) (\<lambda>ur m.
       (Inr (), m\<lparr>sm_users := hm_insert (sm_users m) u (ur\<lparr>ur_tracker := tracker_acknowledge (ur_tracker ur) i\<rparr>)\<rparr>))"

definition manager_identity_state ::
  "session_manager \<Rightarrow> bytes \<Rightarrow> identity_material \<Rightarrow> prim_error + identity_state" where
  "manager_identity_state m u i =
     rbind (ok_or Internal (hm_get (sm_users m) u)) (\<lambda>ur. Inr (tracker_observe (ur_tracker ur) i))"

subsection \<open>Invariant\<close>

text \<open>Limits hold everywhere, and a device without an active session has no inactive ones.\<close>

definition device_ok :: "device_record \<Rightarrow> bool" where
  "device_ok dv \<longleftrightarrow> session_count dv \<le> MAX_SESSIONS_PER_DEVICE \<and> (dv_active dv = None \<longrightarrow> dv_inactive dv = [])"

definition user_ok :: "user_record \<Rightarrow> bool" where
  "user_ok ur \<longleftrightarrow> hm_ok (ur_devices ur) \<and> length (ur_devices ur) \<le> MAX_DEVICES_PER_USER \<and>
     (\<forall>p \<in> set (ur_devices ur). device_ok (snd p))"

definition manager_ok :: "session_manager \<Rightarrow> bool" where
  "manager_ok m \<longleftrightarrow> hm_ok (sm_users m) \<and> length (sm_users m) \<le> MAX_USERS \<and>
     (\<forall>p \<in> set (sm_users m). user_ok (snd p))"

lemma manager_ok_user: "manager_ok m \<Longrightarrow> hm_get (sm_users m) u = Some ur \<Longrightarrow> user_ok ur"
  using hm_get_in_set by (fastforce simp: manager_ok_def)

lemma manager_ok_dev: "manager_ok m \<Longrightarrow> dev_get m u d = Some dv \<Longrightarrow> device_ok dv"
  using manager_ok_user [of m u] hm_get_in_set
  by (fastforce simp: dev_get_def user_ok_def split: option.splits)

lemma user_ok_set:
  assumes "user_ok ur" "device_ok dv" "hm_get (ur_devices ur) d \<noteq> None \<or> length (ur_devices ur) < MAX_DEVICES_PER_USER"
  shows "user_ok (ur\<lparr>ur_devices := hm_insert (ur_devices ur) d dv\<rparr>)"
  using assms set_hm_insert [of "ur_devices ur" d dv] by (fastforce simp: user_ok_def length_hm_insert)

lemma manager_ok_set_user:
  assumes "manager_ok m" "user_ok ur" "hm_get (sm_users m) u \<noteq> None \<or> length (sm_users m) < MAX_USERS"
  shows "manager_ok (m\<lparr>sm_users := hm_insert (sm_users m) u ur\<rparr>)"
  using assms set_hm_insert [of "sm_users m" u ur] by (fastforce simp: manager_ok_def length_hm_insert)

lemma manager_ok_dev_set:
  assumes "manager_ok m" "dev_get m u d \<noteq> None" "device_ok dv"
  shows "manager_ok (dev_set m u d dv)"
proof -
  obtain ur where ur: "hm_get (sm_users m) u = Some ur" "hm_get (ur_devices ur) d \<noteq> None"
    using assms(2) by (auto simp: dev_get_def split: option.splits)
  have "user_ok (ur\<lparr>ur_devices := hm_insert (ur_devices ur) d dv\<rparr>)"
    using user_ok_set [OF manager_ok_user [OF assms(1) ur(1)] assms(3)] ur(2) by simp
  with manager_ok_set_user [OF assms(1) this] ur show ?thesis by (simp add: dev_set_def)
qed

lemma manager_ok_count [simp]: "manager_ok (m\<lparr>sm_initiating := n\<rparr>) = manager_ok m"
  by (simp add: manager_ok_def)

lemma dev_get_set:
  "dev_get m u d \<noteq> None \<Longrightarrow> dev_get (dev_set m u d dv) u' d' =
     (if u' = u \<and> d' = d then Some dv else dev_get m u' d')"
  by (auto simp: dev_get_def dev_set_def split: option.splits)

lemma dev_get_count [simp]: "dev_get (m\<lparr>sm_initiating := n\<rparr>) u d = dev_get m u d"
  by (simp add: dev_get_def)

lemma ensure_user_device_ok:
  assumes "manager_ok m"
  shows "manager_ok (snd (ensure_user_device m u d i))"
proof -
  have e: "user_ok (empty_user u)" "device_ok (empty_device d i)"
    by (simp_all add: user_ok_def empty_user_def device_ok_def empty_device_def session_count_def)
  have step: "manager_ok (snd (case hm_get (sm_users m) u of None \<Rightarrow> (Inl Internal, m)
       | Some ur \<Rightarrow> if hm_get (ur_devices ur) d = None then
             if length (ur_devices ur) \<ge> MAX_DEVICES_PER_USER then (Inl InvalidLength, m)
             else (Inr (), dev_set m u d (empty_device d i)) else (Inr (), m)))" if ok: "manager_ok m" for m
  proof (cases "hm_get (sm_users m) u")
    case (Some ur)
    have "manager_ok (dev_set m u d (empty_device d i))" if "length (ur_devices ur) < MAX_DEVICES_PER_USER"
      using manager_ok_set_user [OF ok user_ok_set [OF manager_ok_user [OF ok Some] e(2)]] that Some
      by (simp add: dev_set_def)
    with ok Some show ?thesis by simp
  qed (simp add: ok)
  show ?thesis
    unfolding ensure_user_device_def
    by (rule sbind_keeps [where P = manager_ok])
       (use assms step manager_ok_set_user [OF assms e(1)] in \<open>auto simp: not_le\<close>)
qed

subsection \<open>Runs of the manager\<close>

datatype sm_op =
    SOutbound rng bytes bytes identity_material bytes bytes u64
  | SConfirm bytes bytes bytes
  | SInbound rng bytes bytes identity_material bytes bytes u64
  | SSweep u64
  | SMarkStale bytes bytes u64
  | SReceive bytes bytes bytes
  | SMarkFailed bytes bytes bytes
  | SAcknowledge bytes identity_material

fun sm_apply :: "crypto \<Rightarrow> sm_op \<Rightarrow> session_manager \<Rightarrow> session_manager" where
  "sm_apply C (SOutbound r u d i sk dh now) m = snd (prepare_outbound C r m u d i sk dh now)"
| "sm_apply C (SConfirm u d sid) m = snd (confirm_session m u d sid)"
| "sm_apply C (SInbound r u d i sk dh now) m = snd (prepare_inbound r m u d i sk dh now)"
| "sm_apply C (SSweep now) m = sweep_stale m now"
| "sm_apply C (SMarkStale u d now) m = snd (mark_device_stale m u d now)"
| "sm_apply C (SReceive u d sid) m = snd (receive_on_session m u d sid)"
| "sm_apply C (SMarkFailed u d sid) m = snd (mark_failed m u d sid)"
| "sm_apply C (SAcknowledge u i) m = snd (acknowledge_identity m u i)"

definition all_devices :: "(device_record \<Rightarrow> bool) \<Rightarrow> session_manager \<Rightarrow> bool" where
  "all_devices P m \<longleftrightarrow> (\<forall>p \<in> set (sm_users m). \<forall>q \<in> set (ur_devices (snd p)). P (snd q))"

text \<open>
  What a property of single devices must satisfy for the whole manager to keep it: the changes
  the operations make to one device record.
\<close>

locale device_property =
  fixes P :: "device_record \<Rightarrow> bool"
  assumes P_empty: "P (empty_device d i)"
    and P_stale: "P dv \<Longrightarrow> P (dv\<lparr>dv_stale := True, dv_stale_timestamp := Some now\<rparr>)"
    and P_accept: "P dv \<Longrightarrow> sr_status rec \<noteq> Initiating \<Longrightarrow> P (dv\<lparr>dv_active := Some rec\<rparr>)"
    and P_fail: "P dv \<Longrightarrow> fail_first sid (dv_inactive dv) = Some ss \<Longrightarrow> P (dv\<lparr>dv_inactive := ss\<rparr>)"
    and P_activate: "P dv \<Longrightarrow> P (snd (activate dv sid))"
begin

lemma all_dev_get: "all_devices P m \<Longrightarrow> dev_get m u d = Some dv \<Longrightarrow> P dv"
proof -
  assume a: "all_devices P m" and "dev_get m u d = Some dv"
  then obtain ur where "hm_get (sm_users m) u = Some ur" "hm_get (ur_devices ur) d = Some dv"
    by (auto simp: dev_get_def split: option.splits)
  then have "(u, ur) \<in> set (sm_users m)" "(d, dv) \<in> set (ur_devices ur)" by (auto dest: hm_get_in_set)
  with a show ?thesis by (fastforce simp: all_devices_def)
qed

lemma all_dev_set: "all_devices P m \<Longrightarrow> P dv \<Longrightarrow> all_devices P (dev_set m u d dv)"
proof (cases "hm_get (sm_users m) u")
  case (Some ur)
  assume a: "all_devices P m" "P dv"
  then have "\<forall>q \<in> set (hm_insert (ur_devices ur) d dv). P (snd q)"
    using set_hm_insert [of "ur_devices ur" d dv] hm_get_in_set [OF Some] by (fastforce simp: all_devices_def)
  with a Some show ?thesis
    using set_hm_insert [of "sm_users m" u "ur\<lparr>ur_devices := hm_insert (ur_devices ur) d dv\<rparr>"]
    by (fastforce simp: all_devices_def dev_set_def)
qed (simp add: dev_set_def)

lemma all_count [simp]: "all_devices P (m\<lparr>sm_initiating := n\<rparr>) = all_devices P m"
  by (simp add: all_devices_def)

lemma ensure_all: "all_devices P m \<Longrightarrow> all_devices P (snd (ensure_user_device m u d i))"
  unfolding ensure_user_device_def
proof (rule sbind_keeps [where P = "all_devices P"])
  assume a: "all_devices P m"
  have "all_devices P (m\<lparr>sm_users := hm_insert (sm_users m) u (empty_user u)\<rparr>)"
    using a set_hm_insert [of "sm_users m" u "empty_user u"]
    by (fastforce simp: all_devices_def empty_user_def)
  with a show "all_devices P (snd (if hm_get (sm_users m) u = None then
              if length (sm_users m) \<ge> MAX_USERS then (Inl InvalidLength, m)
              else (Inr (), m\<lparr>sm_users := hm_insert (sm_users m) u (empty_user u)\<rparr>) else (Inr (), m)))"
    by simp
qed (auto simp: all_dev_set P_empty split: option.split)

lemma gate_dev: "identity_gate m u d i = Inr dv \<Longrightarrow> dev_get m u d = Some dv"
  by (cases "hm_get (sm_users m) u") (auto simp: identity_gate_def dev_get_def split: identity_state.splits)

lemma gate_all:
  assumes "all_devices P m" "\<And>dv. P dv \<Longrightarrow> all_devices P (snd (f dv m))"
  shows "all_devices P (snd (sbind (identity_gate m u d i, m) f))"
proof (cases "identity_gate m u d i")
  case (Inr dv)
  with assms(2) [OF all_dev_get [OF assms(1) gate_dev [OF Inr]]] show ?thesis by simp
qed (simp add: assms(1))

lemma inbound_all: "all_devices P m \<Longrightarrow> all_devices P (snd (prepare_inbound r m u d i sk dh now))"
  unfolding prepare_inbound_def
  by (rule sbind_keeps [where P = "all_devices P"], erule ensure_all, rule gate_all, assumption)
     (simp add: all_dev_set P_accept Let_def split: option.split)

lemma sweep_all: "all_devices P m \<Longrightarrow> all_devices P (sweep_stale m now)"
proof -
  assume a: "all_devices P m"
  have "\<forall>p \<in> set us. \<forall>q \<in> set (ur_devices (snd p)). P (snd q) \<Longrightarrow>
    \<forall>p \<in> set (retain_users now us). \<forall>q \<in> set (ur_devices (snd p)). P (snd q)" for us
    by (induction now us rule: retain_users.induct)
       (auto simp: sweep_user_def Let_def split: option.splits if_splits)
  with a show ?thesis by (simp add: all_devices_def sweep_stale_def)
qed

lemma apply_rest: "all_devices P m \<Longrightarrow> (\<And>r u d i sk dh now. op \<noteq> SOutbound r u d i sk dh now) \<Longrightarrow> all_devices P (sm_apply C op m)"
proof (cases op)
  case (SOutbound r u d i sk dh now)
  moreover assume "\<And>r u d i sk dh now. op \<noteq> SOutbound r u d i sk dh now"
  ultimately show ?thesis by blast
next
  case (SConfirm u d sid)
  moreover assume "all_devices P m"
  ultimately show ?thesis
    by (cases "dev_get m u d")
       (auto simp: confirm_session_def intro!: all_dev_set P_accept dest: all_dev_get split: option.split)
next
  case (SMarkStale u d now)
  moreover assume "all_devices P m"
  ultimately show ?thesis
    by (cases "dev_get m u d") (auto simp: mark_device_stale_def intro!: all_dev_set P_stale dest: all_dev_get)
next
  case (SReceive u d sid)
  moreover assume "all_devices P m"
  moreover have "P (snd (activate dv sid))" if "dev_get m u d = Some dv" for dv
    using P_activate all_dev_get [OF \<open>all_devices P m\<close> that] by blast
  ultimately show ?thesis
    by (cases "dev_get m u d") (simp_all add: receive_on_session_def all_dev_set split_beta)
next
  case (SMarkFailed u d sid)
  moreover assume "all_devices P m"
  ultimately show ?thesis
    by (cases "dev_get m u d")
       (auto simp: mark_failed_def intro!: all_dev_set P_accept P_fail dest: all_dev_get split: option.split)
next
  case (SAcknowledge u i)
  moreover assume a: "all_devices P m"
  moreover have "all_devices P (m\<lparr>sm_users := hm_insert (sm_users m) u (ur\<lparr>ur_tracker := t\<rparr>)\<rparr>)"
    if "hm_get (sm_users m) u = Some ur" for ur t
    using a hm_get_in_set [OF that] set_hm_insert [of "sm_users m" u "ur\<lparr>ur_tracker := t\<rparr>"]
    by (fastforce simp: all_devices_def)
  ultimately show ?thesis
    by (cases "hm_get (sm_users m) u") (simp_all add: acknowledge_identity_def)
qed (simp_all add: inbound_all sweep_all)

end

text \<open>Properties that survive the opening of an initiating session as well.\<close>

locale device_invariant = device_property +
  assumes P_open: "P dv \<Longrightarrow> P (dv\<lparr>dv_active := Some rec\<rparr>)"
    and P_evict: "P dv \<Longrightarrow> dv_active dv \<noteq> None \<or> dv_inactive dv \<noteq> [] \<Longrightarrow>
      P (dv\<lparr>dv_inactive := butlast (dv_inactive dv)\<rparr>)"
begin

lemma open_all:
  assumes "all_devices P m" "P dv"
  shows "all_devices P (snd (open_outbound C r m u d dv sk dh now))"
proof -
  let ?dv = "if session_count dv \<ge> MAX_SESSIONS_PER_DEVICE then dv\<lparr>dv_inactive := butlast (dv_inactive dv)\<rparr> else dv"
  have "P ?dv"
    using assms(2) P_evict [of dv]
    by (cases "dv_inactive dv = []") (auto simp: session_count_def MAX_SESSIONS_PER_DEVICE_def)
  then show ?thesis
    using assms by (auto simp: open_outbound_def Let_def all_dev_set P_open split: prod.split sum.split)
qed

lemma outbound_all: "all_devices P m \<Longrightarrow> all_devices P (snd (prepare_outbound C r m u d i sk dh now))"
  unfolding prepare_outbound_def
  by (rule sbind_keeps [where P = "all_devices P"], erule ensure_all, rule gate_all, assumption)
     (simp add: open_all split: option.split)

lemma apply_all: "all_devices P m \<Longrightarrow> all_devices P (sm_apply C op m)"
  using apply_rest [of m op C] by (cases op) (simp_all add: outbound_all)

lemma run_all: "all_devices P m \<Longrightarrow> all_devices P (fold (sm_apply C) ops m)"
  by (induction ops arbitrary: m) (simp_all add: apply_all)

end

lemma length_fail_first: "fail_first sid xs = Some ys \<Longrightarrow> length ys = length xs"
  by (induction xs arbitrary: ys) (auto split: if_splits)

lemma position_bound: "position P xs = Some i \<Longrightarrow> i < length xs \<and> P (xs ! i)"
  by (induction xs arbitrary: i) (auto split: if_splits)

lemma device_ok_activate: "device_ok dv \<Longrightarrow> device_ok (snd (activate dv sid))"
  by (auto simp: activate_def device_ok_def session_count_def MAX_SESSIONS_PER_DEVICE_def Let_def split: option.split)

interpretation dev_limits: device_invariant device_ok
proof
  fix dv sid ss
  show "device_ok dv \<Longrightarrow> fail_first sid (dv_inactive dv) = Some ss \<Longrightarrow> device_ok (dv\<lparr>dv_inactive := ss\<rparr>)"
    using length_fail_first [of sid "dv_inactive dv" ss] by (auto simp: device_ok_def session_count_def)
  show "device_ok dv \<Longrightarrow> dv_active dv \<noteq> None \<or> dv_inactive dv \<noteq> [] \<Longrightarrow>
      device_ok (dv\<lparr>dv_inactive := butlast (dv_inactive dv)\<rparr>)"
    by (auto simp: device_ok_def session_count_def)
  show "device_ok dv \<Longrightarrow> device_ok (snd (activate dv sid))" by (rule device_ok_activate)
qed (auto simp: device_ok_def session_count_def empty_device_def MAX_SESSIONS_PER_DEVICE_def)

text \<open>The second instance: no operation ever files a session as inactive.\<close>

interpretation dev_no_inactive: device_invariant "\<lambda>dv. dv_inactive dv = []"
  by unfold_locales (simp_all add: empty_device_def activate_def split: option.split)

text \<open>Table sizes.\<close>

definition tables_ok :: "session_manager \<Rightarrow> bool" where
  "tables_ok m \<longleftrightarrow> hm_ok (sm_users m) \<and> length (sm_users m) \<le> MAX_USERS \<and>
     (\<forall>p \<in> set (sm_users m). hm_ok (ur_devices (snd p)) \<and> length (ur_devices (snd p)) \<le> MAX_DEVICES_PER_USER)"

lemma manager_ok_split: "manager_ok m \<longleftrightarrow> tables_ok m \<and> all_devices device_ok m"
  by (auto simp: manager_ok_def user_ok_def tables_ok_def all_devices_def)

lemma tables_dev_set: "tables_ok m \<Longrightarrow> dev_get m u d \<noteq> None \<Longrightarrow> tables_ok (dev_set m u d dv)"
proof -
  assume t: "tables_ok m" and "dev_get m u d \<noteq> None"
  then obtain ur where ur: "hm_get (sm_users m) u = Some ur" "hm_get (ur_devices ur) d \<noteq> None"
    by (auto simp: dev_get_def split: option.splits)
  have "hm_ok (ur_devices ur) \<and> length (ur_devices ur) \<le> MAX_DEVICES_PER_USER"
    using t hm_get_in_set [OF ur(1)] by (fastforce simp: tables_ok_def)
  with t ur show ?thesis
    using set_hm_insert [of "sm_users m" u "ur\<lparr>ur_devices := hm_insert (ur_devices ur) d dv\<rparr>"]
    by (fastforce simp: tables_ok_def dev_set_def length_hm_insert)
qed

lemma tables_count [simp]: "tables_ok (m\<lparr>sm_initiating := n\<rparr>) = tables_ok m"
  by (simp add: tables_ok_def)

lemma dev_get_dev_set_ne: "dev_get m u d \<noteq> None \<Longrightarrow> dev_get (dev_set m u d dv) u d \<noteq> None"
  by (simp add: dev_get_set)

lemma tables_ensure: "tables_ok m \<Longrightarrow> tables_ok (snd (ensure_user_device m u d i))"
proof -
  assume t: "tables_ok m"
  have e: "tables_ok (m\<lparr>sm_users := hm_insert (sm_users m) u (empty_user u)\<rparr>)" if "length (sm_users m) < MAX_USERS"
    using t that set_hm_insert [of "sm_users m" u "empty_user u"]
    by (fastforce simp: tables_ok_def length_hm_insert empty_user_def)
  have step: "tables_ok (dev_set m u d dv)"
    if "tables_ok m" "hm_get (sm_users m) u = Some ur" "length (ur_devices ur) < MAX_DEVICES_PER_USER" for m ur dv
    using that hm_get_in_set [OF that(2)]
      set_hm_insert [of "sm_users m" u "ur\<lparr>ur_devices := hm_insert (ur_devices ur) d dv\<rparr>"]
    by (fastforce simp: tables_ok_def dev_set_def length_hm_insert)
  show ?thesis
    unfolding ensure_user_device_def
    by (rule sbind_keeps [where P = tables_ok])
       (use t e step in \<open>auto simp: not_le split: option.split\<close>)
qed

lemma gate_dev_get: "identity_gate m u d i = Inr dv \<Longrightarrow> dev_get m u d = Some dv"
  by (rule dev_limits.gate_dev)

lemma tables_open: "tables_ok m \<Longrightarrow> dev_get m u d \<noteq> None \<Longrightarrow> tables_ok (snd (open_outbound C r m u d dv sk dh now))"
  by (simp add: open_outbound_def Let_def tables_dev_set dev_get_dev_set_ne split: prod.split sum.split)

lemma set_retain_users:
  "set (retain_users now us) = {(u, ur'). \<exists>ur. (u, ur) \<in> set us \<and> sweep_user now ur = Some ur'}"
  by (induction now us rule: retain_users.induct) (auto split: option.splits)

lemma sweep_user_tables:
  "sweep_user now ur = Some ur' \<Longrightarrow> hm_ok (ur_devices ur) \<Longrightarrow>
   hm_ok (ur_devices ur') \<and> length (ur_devices ur') \<le> length (ur_devices ur)"
  by (auto simp: sweep_user_def Let_def hm_ok_def distinct_map_filter split: if_splits)

lemma retain_users_tables:
  "hm_ok us \<Longrightarrow> hm_ok (retain_users now us) \<and> length (retain_users now us) \<le> length us"
proof (induction now us rule: retain_users.induct)
  case (2 now u ur us)
  have "u \<notin> fst ` set (retain_users now us)" using 2(3) by (force simp: hm_ok_def set_retain_users)
  with 2 show ?case by (auto simp: hm_ok_def split: option.split)
qed simp

lemma tables_sweep: "tables_ok m \<Longrightarrow> tables_ok (sweep_stale m now)"
proof -
  assume t: "tables_ok m"
  then have "hm_ok (ur_devices ur') \<and> length (ur_devices ur') \<le> MAX_DEVICES_PER_USER"
    if "(u, ur) \<in> set (sm_users m)" "sweep_user now ur = Some ur'" for u ur ur'
    using sweep_user_tables [OF that(2)] that(1) by (fastforce simp: tables_ok_def)
  with t retain_users_tables [of "sm_users m" now] show ?thesis
    by (auto simp: tables_ok_def sweep_stale_def set_retain_users)
qed

lemma tables_gate:
  assumes "tables_ok m" "\<And>dv. dev_get m u d = Some dv \<Longrightarrow> tables_ok (snd (f dv m))"
  shows "tables_ok (snd (sbind (identity_gate m u d i, m) f))"
  using assms gate_dev_get [of m u d i] by (cases "identity_gate m u d i") auto

lemma tables_apply: "tables_ok m \<Longrightarrow> tables_ok (sm_apply C op m)"
proof (cases op)
  case (SOutbound r u d i sk dh now)
  moreover assume "tables_ok m"
  then have "tables_ok (snd (prepare_outbound C r m u d i sk dh now))"
    unfolding prepare_outbound_def
    by (intro sbind_keeps [where P = tables_ok] tables_ensure tables_gate) (auto simp: tables_open split: option.split)
  ultimately show ?thesis by simp
next
  case (SInbound r u d i sk dh now)
  moreover assume "tables_ok m"
  then have "tables_ok (snd (prepare_inbound r m u d i sk dh now))"
    unfolding prepare_inbound_def
    by (intro sbind_keeps [where P = tables_ok] tables_ensure tables_gate)
       (auto simp: tables_dev_set Let_def split: option.split)
  ultimately show ?thesis by simp
next
  case (SConfirm u d sid)
  moreover assume "tables_ok m"
  ultimately show ?thesis
    by (cases "dev_get m u d") (auto simp: confirm_session_def tables_dev_set split: option.split)
next
  case (SMarkStale u d now)
  moreover assume "tables_ok m"
  ultimately show ?thesis by (cases "dev_get m u d") (auto simp: mark_device_stale_def tables_dev_set)
next
  case (SReceive u d sid)
  moreover assume "tables_ok m"
  ultimately show ?thesis
    by (cases "dev_get m u d") (auto simp: receive_on_session_def tables_dev_set split_beta)
next
  case (SMarkFailed u d sid)
  moreover assume "tables_ok m"
  ultimately show ?thesis
    by (cases "dev_get m u d") (auto simp: mark_failed_def tables_dev_set split: option.split)
next
  case (SAcknowledge u i)
  moreover assume t: "tables_ok m"
  moreover have "tables_ok (m\<lparr>sm_users := hm_insert (sm_users m) u (ur\<lparr>ur_tracker := tr\<rparr>)\<rparr>)"
    if "hm_get (sm_users m) u = Some ur" for ur tr
    using t hm_get_in_set [OF that] that set_hm_insert [of "sm_users m" u "ur\<lparr>ur_tracker := tr\<rparr>"]
    by (fastforce simp: tables_ok_def length_hm_insert)
  ultimately show ?thesis
    by (cases "hm_get (sm_users m) u") (simp_all add: acknowledge_identity_def)
qed (simp_all add: tables_sweep)

lemma manager_run_ok: "manager_ok m \<Longrightarrow> manager_ok (fold (sm_apply C) ops m)"
  by (induction ops arbitrary: m) (simp_all add: manager_ok_split tables_apply dev_limits.apply_all)

subsection \<open>Properties\<close>

text \<open>C34: the anti-DoS limits are invariants. From a fresh manager, after any sequence of
  operations with any arguments and outcomes, at most 10000 users are tracked, each with at
  most 10 devices, each with at most 8 sessions.\<close>

theorem session_limits_hold:
  assumes "m = fold (sm_apply C) ops (manager_new lu ld li)"
  shows "user_count m \<le> MAX_USERS \<and>
    (hm_get (sm_users m) u = Some ur \<longrightarrow> length (ur_devices ur) \<le> MAX_DEVICES_PER_USER) \<and>
    (dev_get m u d = Some dv \<longrightarrow> session_count dv \<le> MAX_SESSIONS_PER_DEVICE)"
proof (intro conjI impI)
  have "manager_ok (manager_new lu ld li)" by (simp add: manager_ok_def manager_new_def)
  then have ok: "manager_ok m" unfolding assms by (rule manager_run_ok)
  then show "user_count m \<le> MAX_USERS" by (simp add: manager_ok_def user_count_def)
  show "length (ur_devices ur) \<le> MAX_DEVICES_PER_USER" if "hm_get (sm_users m) u = Some ur"
    using that manager_ok_user [OF ok] by (simp add: user_ok_def)
  show "session_count dv \<le> MAX_SESSIONS_PER_DEVICE" if "dev_get m u d = Some dv"
    using that manager_ok_dev [OF ok] by (simp add: device_ok_def)
qed

definition demo_manager :: session_manager where
  "demo_manager = manager_new [1] [2] \<lparr>im_key = replicate 32 1, im_device = None\<rparr>"

theorem session_limits_hold_witness:
  "user_count (fold (sm_apply plain_crypto) [SInbound (\<lambda>_. 0) [3] [4]
      \<lparr>im_key = replicate 32 2, im_device = None\<rparr> [] [] 0] demo_manager) \<le> MAX_USERS"
  unfolding demo_manager_def by (rule session_limits_hold [OF refl, THEN conjunct1])

text \<open>The sessions of a device; a device that is not in the table has none.\<close>

definition device_sessions :: "session_manager \<Rightarrow> bytes \<Rightarrow> bytes \<Rightarrow> session_record option \<times> session_record list" where
  "device_sessions m u d = (case dev_get m u d of None \<Rightarrow> (None, []) | Some dv \<Rightarrow> (dv_active dv, dv_inactive dv))"

definition identities :: "session_manager \<Rightarrow> bytes \<Rightarrow> identity_tracker option" where
  "identities m u = map_option ur_tracker (hm_get (sm_users m) u)"

lemma ensure_existing:
  assumes "hm_get (sm_users m) u = Some ur"
  obtains m' where "ensure_user_device m u d i = (Inl InvalidLength, m) \<and> m' = m \<or> ensure_user_device m u d i = (Inr (), m')"
    "m' = m \<or> dev_get m u d = None \<and> m' = dev_set m u d (empty_device d i)"
    "\<exists>ur'. hm_get (sm_users m') u = Some ur' \<and> ur_tracker ur' = ur_tracker ur"
proof (cases "hm_get (ur_devices ur) d = None \<and> length (ur_devices ur) < MAX_DEVICES_PER_USER")
  case True
  with assms show thesis
    by (intro that [of "dev_set m u d (empty_device d i)"]) (simp_all add: ensure_user_device_def dev_set_def dev_get_def)
next
  case False
  with assms show thesis by (intro that [of m]) (auto simp: ensure_user_device_def)
qed

lemma new_device_blank:
  assumes "dev_get m u d = None" "hm_get (sm_users m) u = Some ur"
  shows "device_sessions (dev_set m u d (empty_device d i)) u' d' = device_sessions m u' d'"
    "identities (dev_set m u d (empty_device d i)) u' = identities m u'"
    "sm_initiating (dev_set m u d (empty_device d i)) = sm_initiating m"
  using assms by (auto simp: device_sessions_def identities_def dev_get_def dev_set_def empty_device_def split: option.splits)

text \<open>C35: a session is never opened to a changed identity. If the user record acknowledges another
  identity, both \<open>prepare_outbound\<close> and \<open>prepare_inbound\<close> fail; at most a blank record of the named
  device is left behind, and no device of any user, known before the call or not, has other
  sessions than before, no acknowledged identity and no quota changes.\<close>

theorem identity_change_blocks_sessions:
  assumes "hm_get (sm_users m) u = Some ur" "it_acknowledged (ur_tracker ur) = Some prev" "prev \<noteq> i"
    and "f = prepare_outbound C r m u d i sk dh now \<or> f = prepare_inbound r m u d i sk dh now"
  shows "\<exists>e m'. f = (Inl e, m') \<and> (m' = m \<or> dev_get m u d = None \<and> m' = dev_set m u d (empty_device d i)) \<and>
    (\<forall>u' d'. device_sessions m' u' d' = device_sessions m u' d') \<and>
    (\<forall>u'. identities m' u' = identities m u') \<and> sm_initiating m' = sm_initiating m"
proof -
  obtain m' where m': "ensure_user_device m u d i = (Inl InvalidLength, m) \<and> m' = m \<or> ensure_user_device m u d i = (Inr (), m')"
    "m' = m \<or> dev_get m u d = None \<and> m' = dev_set m u d (empty_device d i)"
    "\<exists>ur'. hm_get (sm_users m') u = Some ur' \<and> ur_tracker ur' = ur_tracker ur"
    by (rule ensure_existing [OF assms(1), of d i])
  obtain why where "tracker_observe (ur_tracker ur) i = IdentityChanged prev i why"
    using assms(2,3) by (auto simp: tracker_observe_changed)
  then have "identity_gate m' u d i = Inl Internal" using m'(3) by (auto simp: identity_gate_def)
  then have "\<exists>e. f = (Inl e, m')"
    using m'(1) assms(4) by (auto simp: prepare_outbound_def prepare_inbound_def)
  moreover have "\<forall>u' d'. device_sessions m' u' d' = device_sessions m u' d'"
    "\<forall>u'. identities m' u' = identities m u'" "sm_initiating m' = sm_initiating m"
    using m'(2) new_device_blank [OF _ assms(1)] by auto
  ultimately show ?thesis using m'(2) by blast
qed

definition demo_changed :: session_manager where
  "demo_changed = fold (sm_apply plain_crypto) [SInbound (\<lambda>_. 0) [3] [4] \<lparr>im_key = replicate 32 2, im_device = None\<rparr> [] [] 0,
     SAcknowledge [3] \<lparr>im_key = replicate 32 2, im_device = None\<rparr>] demo_manager"

text \<open>A manager with a session to one device acknowledges that identity; a second device that shows up
  with another key is refused and gets no session, and the first keeps its own.\<close>

theorem identity_change_blocks_sessions_witness:
  "\<exists>e m'. prepare_inbound (\<lambda>_. 0) demo_changed [3] [5] \<lparr>im_key = replicate 32 7, im_device = None\<rparr> [] [] 0 = (Inl e, m') \<and>
     device_sessions m' [3] [5] = (None, []) \<and> fst (device_sessions m' [3] [4]) \<noteq> None"
proof -
  let ?i = "\<lparr>im_key = replicate 32 2, im_device = None\<rparr> :: identity_material"
  have "\<exists>ur. hm_get (sm_users demo_changed) [3] = Some ur \<and> it_acknowledged (ur_tracker ur) = Some ?i"
    "device_sessions demo_changed [3] [5] = (None, [])" "fst (device_sessions demo_changed [3] [4]) \<noteq> None"
    by (simp_all add: demo_changed_def demo_manager_def manager_new_def prepare_inbound_def ensure_user_device_def
        identity_gate_def acknowledge_identity_def dev_get_def dev_set_def device_sessions_def empty_user_def empty_device_def
        tracker_acknowledge_def tracker_observe_def tracker_new_def MAX_USERS_def MAX_DEVICES_PER_USER_def Let_def)
  moreover have "?i \<noteq> \<lparr>im_key = replicate 32 7, im_device = None\<rparr>" by simp
  ultimately show ?thesis
    using identity_change_blocks_sessions [OF _ _ _ disjI2 [OF refl], of demo_changed "[3]" _ ?i
      "\<lparr>im_key = replicate 32 7, im_device = None\<rparr>" "\<lambda>_. 0" "[5]" "[]" "[]" 0] by metis
qed

text \<open>No session is ever kept as inactive. The only code that fills the list of inactive sessions
  promotes one that is already in it, so from a fresh manager the list stays empty on every
  device: replaced sessions are dropped, not retained for delayed messages.\<close>

theorem inactive_sessions_never_kept:
  assumes "dev_get (fold (sm_apply C) ops (manager_new lu ld li)) u d = Some dv"
  shows "dv_inactive dv = []"
proof (rule dev_no_inactive.all_dev_get [OF dev_no_inactive.run_all assms])
  show "all_devices (\<lambda>dv. dv_inactive dv = []) (manager_new lu ld li)"
    by (simp add: all_devices_def manager_new_def)
qed

subsection \<open>The quota of initiating sessions\<close>

text \<open>Opening a session and marking it failed leaves the count one higher.\<close>

definition spent :: "bytes \<Rightarrow> bytes \<Rightarrow> nat \<Rightarrow> session_manager \<Rightarrow> bool" where
  "spent u d k m \<longleftrightarrow> sm_initiating m = k \<and>
     (sm_users m = [] \<or> (\<exists>ur dv a. sm_users m = [(u, ur)] \<and> ur_tracker ur = tracker_new \<and>
        ur_devices ur = [(d, dv)] \<and> dv_inactive dv = [] \<and> dv_active dv = Some a \<and> sr_status a = Failed))"

definition spend_round :: "crypto \<Rightarrow> rng \<Rightarrow> bytes \<Rightarrow> bytes \<Rightarrow> identity_material \<Rightarrow> bytes \<Rightarrow> bytes \<Rightarrow> sm_op list" where
  "spend_round C r u d i sk dh =
     [SOutbound r u d i sk dh 0,
      SMarkFailed u d (new_session_id (snd (init_alice C r sk dh DEFAULT_MAX_SKIP)))]"

lemma tracker_new_unknown [simp]: "tracker_observe tracker_new i = Unknown"
  by (simp add: tracker_observe_unknown tracker_new_def)

lemma spend_one:
  assumes "lens_ok C" "spent u d k m" "k < MAX_INITIATING_SESSIONS"
  shows "spent u d (Suc k) (fold (sm_apply C) (spend_round C r u d i sk dh) m)"
proof -
  obtain a where a: "fst (init_alice C r sk dh DEFAULT_MAX_SKIP) = Inr a"
    using init_alice_total [OF assms(1)] by metis
  then obtain r1 where ia: "init_alice C r sk dh DEFAULT_MAX_SKIP = (Inr a, r1)"
    by (cases "init_alice C r sk dh DEFAULT_MAX_SKIP") simp
  have ku: "sm_initiating m = k" using assms(2) by (simp add: spent_def)
  note defs = prepare_outbound_def ensure_user_device_def identity_gate_def open_outbound_def mark_failed_def
    dev_get_def dev_set_def hm_get_Cons hm_insert_def session_count_def Let_def
  show ?thesis
  proof (cases "sm_users m = []")
    case True
    then show ?thesis
      using assms(3) ku by (simp add: spend_round_def ia defs empty_user_def empty_device_def spent_def
          MAX_USERS_def MAX_DEVICES_PER_USER_def MAX_SESSIONS_PER_DEVICE_def)
  next
    case False
    then obtain ur dv b where "sm_users m = [(u, ur)]" "ur_tracker ur = tracker_new"
      "ur_devices ur = [(d, dv)]" "dv_inactive dv = []" "dv_active dv = Some b" "sr_status b = Failed"
      using assms(2) by (auto simp: spent_def)
    then show ?thesis
      using assms(3) ku by (simp add: spend_round_def ia defs spent_def MAX_SESSIONS_PER_DEVICE_def)
  qed
qed

lemma spend_many:
  "lens_ok C \<Longrightarrow> n \<le> MAX_INITIATING_SESSIONS \<Longrightarrow>
   spent u d n (fold (sm_apply C) (concat (replicate n (spend_round C r u d i sk dh))) (manager_new lu ld li))"
proof (induction n)
  case 0
  then show ?case by (simp add: spent_def manager_new_def)
next
  case (Suc n)
  have "concat (replicate (Suc n) (spend_round C r u d i sk dh)) =
      concat (replicate n (spend_round C r u d i sk dh)) @ spend_round C r u d i sk dh"
    by (induction n) simp_all
  with spend_one [OF Suc.prems(1) Suc.IH [OF Suc.prems(1)]] Suc.prems(2) show ?case by simp
qed

text \<open>Which operation can lower the count.\<close>

lemma initiating_dev_set [simp]: "sm_initiating (dev_set m u d dv) = sm_initiating m"
  by (simp add: dev_set_def split: option.split)

lemma initiating_ensure [simp]: "sm_initiating (snd (ensure_user_device m u d i)) = sm_initiating m"
  unfolding ensure_user_device_def
  by (rule sbind_keeps [where P = "\<lambda>m'. sm_initiating m' = sm_initiating m"]) (auto split: option.split)

lemma initiating_gate:
  assumes "\<And>dv. R (sm_initiating m) (sm_initiating (snd (f dv m)))" "R (sm_initiating m) (sm_initiating m)"
  shows "R (sm_initiating m) (sm_initiating (snd (sbind (identity_gate m u d i, m) f)))"
  using assms by (cases "identity_gate m u d i") simp_all

lemma initiating_prepared:
  assumes "\<And>m dv. R (sm_initiating m) (sm_initiating (snd (f dv m)))" "\<And>n. R n n"
  shows "R (sm_initiating m) (sm_initiating (snd (sbind (ensure_user_device m u d i)
    (\<lambda>_ m. sbind (identity_gate m u d i, m) f))))"
proof (cases "ensure_user_device m u d i")
  case (Pair res m1)
  then have "sm_initiating m1 = sm_initiating m" using initiating_ensure [of m u d i] by simp
  moreover have "R (sm_initiating m1) (sm_initiating (snd (sbind (identity_gate m1 u d i, m1) f)))"
    by (rule initiating_gate [where R = R]) (rule assms)+
  ultimately show ?thesis using Pair assms(2) by (cases res) simp_all
qed

lemma initiating_outbound: "sm_initiating m \<le> sm_initiating (snd (prepare_outbound C r m u d i sk dh now))"
  unfolding prepare_outbound_def
  by (rule initiating_prepared [where R = "(\<le>)"])
     (auto simp: open_outbound_def Let_def split: option.split prod.split sum.split)

lemma initiating_inbound: "sm_initiating (snd (prepare_inbound r m u d i sk dh now)) = sm_initiating m"
  unfolding prepare_inbound_def
  by (rule initiating_prepared [where R = "\<lambda>x y. y = x"]) (auto simp: Let_def split: option.split)

text \<open>Operations other than \<open>prepare_outbound\<close> and \<open>confirm_session\<close> leave the count alone.\<close>

lemma initiating_others:
  "sm_initiating (snd (mark_device_stale m u d now)) = sm_initiating m"
  "sm_initiating (snd (receive_on_session m u d sid)) = sm_initiating m"
  "sm_initiating (snd (mark_failed m u d sid)) = sm_initiating m"
  "sm_initiating (snd (acknowledge_identity m u i)) = sm_initiating m"
  "sm_initiating (sweep_stale m now) = sm_initiating m"
proof -
  show "sm_initiating (snd (mark_device_stale m u d now)) = sm_initiating m"
    "sm_initiating (snd (receive_on_session m u d sid)) = sm_initiating m"
    "sm_initiating (snd (mark_failed m u d sid)) = sm_initiating m"
    by (cases "dev_get m u d"; simp add: mark_device_stale_def receive_on_session_def mark_failed_def split: prod.split option.split)+
  show "sm_initiating (snd (acknowledge_identity m u i)) = sm_initiating m"
    by (cases "hm_get (sm_users m) u") (simp_all add: acknowledge_identity_def)
qed (simp add: sweep_stale_def)

lemma initiating_confirm:
  "sm_initiating (snd (confirm_session m u d sid)) =
     (case dev_get m u d of
        Some dv \<Rightarrow> (case dv_active dv of
           Some a \<Rightarrow> if sr_id a = sid \<and> sr_status a = Initiating then sm_initiating m - 1 else sm_initiating m
         | None \<Rightarrow> sm_initiating m)
      | None \<Rightarrow> sm_initiating m)"
  by (cases "dev_get m u d") (simp_all add: confirm_session_def split: option.split)

lemma initiating_lowered:
  assumes "sm_initiating (sm_apply C op m) < sm_initiating m"
  shows "\<exists>u d sid dv a. op = SConfirm u d sid \<and> dev_get m u d = Some dv \<and> dv_active dv = Some a \<and>
    sr_id a = sid \<and> sr_status a = Initiating"
  using assms
  by (cases op)
     (auto simp: initiating_inbound initiating_others initiating_confirm not_less [symmetric] initiating_outbound [unfolded not_less [symmetric]]
        split: option.splits if_splits)

text \<open>A manager that has spent its quota on sessions that no longer exist.\<close>

definition settled :: "device_record \<Rightarrow> bool" where
  "settled dv \<longleftrightarrow> (case dv_active dv of Some a \<Rightarrow> sr_status a \<noteq> Initiating | None \<Rightarrow> True)"

interpretation dev_settled: device_property settled
  by unfold_locales
     (auto simp: settled_def empty_device_def activate_def Let_def split: option.splits)

definition locked_out :: "session_manager \<Rightarrow> bool" where
  "locked_out m \<longleftrightarrow> sm_initiating m = MAX_INITIATING_SESSIONS \<and> all_devices settled m"

lemma locked_out_outbound:
  assumes "locked_out m"
  shows "locked_out (snd (prepare_outbound C r m u d i sk dh now))"
  unfolding prepare_outbound_def
proof (rule sbind_keeps [where P = locked_out])
  show "locked_out (snd (ensure_user_device m u d i))"
    using assms by (simp add: locked_out_def dev_settled.ensure_all)
  fix x m1
  assume "locked_out m1"
  then show "locked_out (snd (sbind (identity_gate m1 u d i, m1) (\<lambda>dv m. case dv_active dv of
         Some a \<Rightarrow> if sr_status a = Active \<or> sr_status a = Initiating then (Inr (sr_id a), m)
           else open_outbound C r m u d dv sk dh now
       | None \<Rightarrow> open_outbound C r m u d dv sk dh now)))"
    by (cases "identity_gate m1 u d i") (simp_all add: open_outbound_def locked_out_def split: option.split)
qed

lemma locked_out_apply:
  assumes "locked_out m"
  shows "locked_out (sm_apply C op m)"
proof (cases "\<exists>r u d i sk dh now. op = SOutbound r u d i sk dh now")
  case True
  with locked_out_outbound [OF assms] show ?thesis by auto
next
  case False
  have set: "all_devices settled m" using assms by (simp add: locked_out_def)
  with False have "all_devices settled (sm_apply C op m)" by (intro dev_settled.apply_rest) auto
  moreover have "sr_status a \<noteq> Initiating" if "dev_get m u d = Some dv" "dv_active dv = Some a" for u d dv a
    using dev_settled.all_dev_get [OF set that(1)] that(2) by (simp add: settled_def)
  then have "sm_initiating (sm_apply C op m) = sm_initiating m"
    using False
    by (cases op) (auto simp: initiating_inbound initiating_others initiating_confirm split: option.split)
  ultimately show ?thesis using assms by (simp add: locked_out_def)
qed

lemma locked_out_run: "locked_out m \<Longrightarrow> locked_out (fold (sm_apply C) ops m)"
  by (induction ops arbitrary: m) (simp_all add: locked_out_apply)

lemma locked_out_refuses:
  assumes "locked_out m" "hm_get (sm_users m) u = None"
  shows "fst (prepare_outbound C r m u d i sk dh now) = Inl InvalidLength"
  using assms
  by (simp add: locked_out_def prepare_outbound_def ensure_user_device_def identity_gate_def open_outbound_def dev_set_def
      empty_user_def empty_device_def MAX_DEVICES_PER_USER_def)

lemma spent_locked_out:
  assumes "spent u d 64 m"
  shows "locked_out m"
  using assms by (auto simp: spent_def locked_out_def all_devices_def settled_def MAX_INITIATING_SESSIONS_def)

text \<open>C40: the quota of initiating sessions leaks. Only confirming an initiating session lowers the
  count, so a session that fails while initiating is never given back: after 64 attempts to reach one
  device, each marked failed, there is not a single initiating session left and the node is locked
  out for good. Whatever operations follow, the count stays at 64, no initiating session ever
  appears, and every attempt to open a session with a new user is refused.\<close>

theorem initiating_quota_leaks:
  assumes "lens_ok C"
    and "m = fold (sm_apply C) (concat (replicate 64 (spend_round C r u d i sk dh))) (manager_new lu ld li)"
    and "m' = fold (sm_apply C) ops m"
  shows "(\<forall>op m0. sm_initiating (sm_apply C op m0) < sm_initiating m0 \<longrightarrow>
      (\<exists>u d sid dv a. op = SConfirm u d sid \<and> dev_get m0 u d = Some dv \<and> dv_active dv = Some a \<and>
         sr_id a = sid \<and> sr_status a = Initiating)) \<and>
    sm_initiating m' = MAX_INITIATING_SESSIONS \<and>
    (\<forall>u' d' dv s. dev_get m' u' d' = Some dv \<and> dv_active dv = Some s \<longrightarrow> sr_status s \<noteq> Initiating) \<and>
    (hm_get (sm_users m') u2 = None \<longrightarrow>
      fst (prepare_outbound C r2 m' u2 d2 i2 sk2 dh2 now) = Inl InvalidLength)"
proof -
  have "spent u d 64 m" unfolding assms(2) by (rule spend_many [OF assms(1)]) (simp add: MAX_INITIATING_SESSIONS_def)
  then have l: "locked_out m'" unfolding assms(3) by (intro locked_out_run spent_locked_out)
  then have "all_devices settled m'" by (simp add: locked_out_def)
  then have "sr_status s \<noteq> Initiating" if "dev_get m' u' d' = Some dv" "dv_active dv = Some s" for u' d' dv s
    using dev_settled.all_dev_get [OF _ that(1)] that(2) by (auto simp: settled_def)
  with l show ?thesis
    using initiating_lowered [of C] locked_out_refuses [OF l] by (intro conjI) (blast | simp add: locked_out_def)+
qed

definition demo_peer :: identity_material where
  "demo_peer = \<lparr>im_key = replicate 32 2, im_device = None\<rparr>"

text \<open>After the 64 rounds, a sweep of stale devices does not free the quota.\<close>

theorem initiating_quota_leaks_witness:
  "fst (prepare_outbound plain_crypto (\<lambda>_. 9)
     (fold (sm_apply plain_crypto) [SSweep 7]
       (fold (sm_apply plain_crypto) (concat (replicate 64 (spend_round plain_crypto (\<lambda>_. 0) [3] [4] demo_peer [] [])))
        demo_manager)) [5] [6] demo_peer [] [] 0) = Inl InvalidLength"
proof -
  let ?m = "fold (sm_apply plain_crypto) (concat (replicate 64 (spend_round plain_crypto (\<lambda>_. 0) [3] [4] demo_peer [] []))) demo_manager"
  have "spent [3] [4] 64 ?m"
    unfolding demo_manager_def by (rule spend_many [OF plain_lens]) (simp add: MAX_INITIATING_SESSIONS_def)
  then have "hm_get (sm_users (fold (sm_apply plain_crypto) [SSweep 7] ?m)) [5] = None"
    by (auto simp: spent_def hm_get_Cons sweep_stale_def split: option.split)
  then show ?thesis
    unfolding demo_manager_def
    by (intro initiating_quota_leaks [OF plain_lens refl refl, THEN conjunct2, THEN conjunct2, THEN conjunct2, THEN mp])
qed

theorem inactive_sessions_never_kept_witness:
  "\<exists>dv. dev_get (fold (sm_apply plain_crypto) [SInbound (\<lambda>_. 0) [3] [4] demo_peer [] [] 0] demo_manager) [3] [4] = Some dv \<and>
     dv_inactive dv = []"
proof -
  have "\<exists>dv. dev_get (fold (sm_apply plain_crypto) [SInbound (\<lambda>_. 0) [3] [4] demo_peer [] [] 0] demo_manager) [3] [4] = Some dv"
    by (simp add: prepare_inbound_def ensure_user_device_def identity_gate_def demo_manager_def manager_new_def
        dev_get_def dev_set_def empty_user_def empty_device_def MAX_USERS_def MAX_DEVICES_PER_USER_def Let_def)
  then show ?thesis
    unfolding demo_manager_def using inactive_sessions_never_kept by blast
qed

end
