(* ===== verification/VC_Rs.thy ===== *)
theory VC_Rs
  imports VC_Primitives
begin

text \<open>
  The erasure code of the Braid messages (\<^verbatim>\<open>src/ratchet/braid/rs.rs\<close>): arithmetic of
  GF(2^16) on \<open>u16\<close>, Lagrange evaluation, the encoder, the decoder and their persistence. A
  \<open>BTreeMap\<close> is an association list in ascending key order. Indexing past the end of the symbol
  vector panics in the source; \<open>symbol_row\<close> and \<open>next_chunk\<close> return \<open>None\<close> in that case.
\<close>

definition CHUNK_DATA :: nat where "CHUNK_DATA = 32"
definition CHUNK_WIRE :: nat where "CHUNK_WIRE = 2 + CHUNK_DATA"
definition SYMS :: nat where "SYMS = CHUNK_DATA div 2"
definition PRIM :: u32 where "PRIM = 0x1100B"

subsection \<open>Field arithmetic\<close>

text \<open>The loop \<open>while b != 0\<close>.\<close>

function gf_mul_loop :: "u32 \<Rightarrow> u32 \<Rightarrow> u16 \<Rightarrow> u32" where
  "gf_mul_loop r aa b =
     (if b \<noteq> 0 then
        let r = (if b AND 1 \<noteq> 0 then r XOR aa else r);
            hi = aa AND 0x8000;
            aa = push_bit 1 aa;
            aa = (if hi \<noteq> 0 then aa XOR PRIM else aa)
        in gf_mul_loop r aa (drop_bit 1 b)
      else r)"
  by pat_completeness auto
termination
proof (relation "measure (\<lambda>(r, aa, b). unat b)", goal_cases)
  case (2 r aa b)
  then show ?case by (simp add: drop_bit_eq_div unat_div unat_gt_0)
qed simp

declare gf_mul_loop.simps [simp del]

definition gf_mul :: "u16 \<Rightarrow> u16 \<Rightarrow> u16" where
  "gf_mul a b = ucast (gf_mul_loop 0 (ucast a) b AND 0xFFFF)"

text \<open>The loop \<open>while exp > 0\<close>.\<close>

function gf_inv_loop :: "u32 \<Rightarrow> u16 \<Rightarrow> u16 \<Rightarrow> u16" where
  "gf_inv_loop ex base acc =
     (if ex > 0 then
        let acc = (if ex AND 1 = 1 then gf_mul acc base else acc);
            base = gf_mul base base
        in gf_inv_loop (drop_bit 1 ex) base acc
      else acc)"
  by pat_completeness auto
termination
proof (relation "measure (\<lambda>(ex, base, acc). unat ex)", goal_cases)
  case (2 ex base acc)
  then show ?case by (simp add: drop_bit_eq_div unat_div word_less_nat_alt)
qed simp

declare gf_inv_loop.simps [simp del]

definition gf_inv :: "u16 \<Rightarrow> u16" where
  "gf_inv a = gf_inv_loop 0xFFFE a 1"

definition eval_point :: "u16 \<Rightarrow> u16" where
  "eval_point idx = idx + 1"

subsection \<open>Lagrange evaluation\<close>

text \<open>The inner loop over \<open>j\<close>; \<open>None\<close> is the early \<open>return 0\<close>.\<close>

fun lag_basis :: "(nat \<Rightarrow> u16) \<Rightarrow> u16 \<Rightarrow> nat \<Rightarrow> nat list \<Rightarrow> u16 \<Rightarrow> u16 option" where
  "lag_basis x_at x i [] li = Some li"
| "lag_basis x_at x i (j # js) li =
     (if i = j then lag_basis x_at x i js li
      else
        let xj = x_at j; num = x XOR xj; den = x_at i XOR xj
        in if den = 0 then None
           else lag_basis x_at x i js (gf_mul li (gf_mul num (gf_inv den))))"

text \<open>The outer loop over \<open>i\<close>; \<open>None\<close> is a panic of the closure \<open>y_at\<close>.\<close>

fun lag_sum :: "nat \<Rightarrow> (nat \<Rightarrow> u16) \<Rightarrow> (nat \<Rightarrow> u16 option) \<Rightarrow> u16 \<Rightarrow> nat list \<Rightarrow> u16 \<Rightarrow> u16 option" where
  "lag_sum k x_at y_at x [] acc = Some acc"
| "lag_sum k x_at y_at x (i # is) acc =
     (case lag_basis x_at x i [0..<k] 1 of
        None \<Rightarrow> Some 0
      | Some li \<Rightarrow>
          (case y_at i of
             None \<Rightarrow> None
           | Some y \<Rightarrow> lag_sum k x_at y_at x is (acc XOR gf_mul y li)))"

definition lagrange_eval :: "nat \<Rightarrow> (nat \<Rightarrow> u16) \<Rightarrow> (nat \<Rightarrow> u16 option) \<Rightarrow> u16 \<Rightarrow> u16 option" where
  "lagrange_eval k x_at y_at x = lag_sum k x_at y_at x [0..<k] 0"

subsection \<open>Encoder\<close>

record encoder =
  en_data :: "u16 list"
  en_k :: nat
  en_next :: u16

definition div_ceil :: "nat \<Rightarrow> nat \<Rightarrow> nat" where
  "div_ceil a b = (a + (b - 1)) div b"

text \<open>\<open>slice::chunks\<close>.\<close>

function chunks :: "nat \<Rightarrow> 'a list \<Rightarrow> 'a list list" where
  "chunks n xs = (if xs = [] \<or> n = 0 then [] else take n xs # chunks n (drop n xs))"
  by pat_completeness auto
termination by (relation "measure (length \<circ> snd)") auto

declare chunks.simps [simp del]

definition pair_sym :: "bytes \<Rightarrow> u16" where
  "pair_sym p = from_be [p ! 0, if length p > 1 then p ! 1 else 0]"

definition encoder_new :: "bytes \<Rightarrow> encoder" where
  "encoder_new message =
     (let k = max (div_ceil (length message) CHUNK_DATA) 1;
          data = foldl (\<lambda>data (i, chunk).
                   foldl (\<lambda>data (j, pair). data[i * SYMS + j := pair_sym pair]) data (enumerate 0 (chunks 2 chunk)))
                 (replicate (k * SYMS) 0) (enumerate 0 (chunks CHUNK_DATA message))
      in \<lparr>en_data = data, en_k = k, en_next = 0\<rparr>)"

text \<open>A vector of optional values is complete, or something in it panicked.\<close>

fun all_some :: "'a option list \<Rightarrow> 'a list option" where
  "all_some [] = Some []"
| "all_some (x # xs) = (case x of None \<Rightarrow> None | Some a \<Rightarrow> map_option (Cons a) (all_some xs))"

definition data_at :: "encoder \<Rightarrow> nat \<Rightarrow> u16 option" where
  "data_at e i = (if i < length (en_data e) then Some (en_data e ! i) else None)"

definition symbol_row :: "encoder \<Rightarrow> u16 \<Rightarrow> bytes option" where
  "symbol_row e idx =
     (if unat idx < en_k e then
        map_option (\<lambda>ys. concat (map (be_bytes 2) ys))
          (all_some (map (\<lambda>j. data_at e (unat idx * SYMS + j)) [0..<SYMS]))
      else
        map_option (\<lambda>ys. concat (map (be_bytes 2) ys))
          (all_some (map (\<lambda>col. lagrange_eval (en_k e) (\<lambda>i. eval_point (of_nat i))
             (\<lambda>i. data_at e (i * SYMS + col)) (eval_point idx)) [0..<SYMS])))"

definition next_chunk :: "encoder \<Rightarrow> (bytes \<times> encoder) option" where
  "next_chunk e =
     (let idx = en_next e; e1 = e\<lparr>en_next := en_next e + 1\<rparr>
      in map_option (\<lambda>payload. (be_bytes 2 idx @ payload, e1)) (symbol_row e1 idx))"

definition encoder_encode :: "encoder \<Rightarrow> bytes" where
  "encoder_encode e =
     le_bytes 4 (of_nat (en_k e) :: u32) @ le_bytes 2 (en_next e) @
     le_bytes 4 (of_nat (length (en_data e)) :: u32) @ concat (map (le_bytes 2) (en_data e))"

definition encoder_decode :: "bytes \<Rightarrow> prim_error + encoder" where
  "encoder_decode d =
     (if length d < 10 then Inl InvalidLength else
     rbind (take_u32 InvalidLength d) (\<lambda>(k, d).
     rbind (take_u16 InvalidLength d) (\<lambda>(nx, d).
     rbind (take_u32 InvalidLength d) (\<lambda>(n, d).
       if length d \<noteq> unat n * 2 then Inl InvalidLength
       else rbind (take_list (take_u16 InvalidLength) (unat n) d) (\<lambda>(syms, _).
              Inr \<lparr>en_data = syms, en_k = unat k, en_next = nx\<rparr>)))))"

subsection \<open>Decoder\<close>

fun bt_insert :: "('k::linorder, 'v) hmap \<Rightarrow> 'k \<Rightarrow> 'v \<Rightarrow> ('k, 'v) hmap" where
  "bt_insert [] k v = [(k, v)]"
| "bt_insert ((k', v') # m) k v =
     (if k < k' then (k, v) # (k', v') # m
      else if k = k' then (k, v) # m else (k', v') # bt_insert m k v)"

record decoder =
  de_len :: nat
  de_k :: nat
  de_got :: "(u16, bytes) hmap"
  de_decoded :: "bytes option"

definition decoder_new :: "nat \<Rightarrow> decoder" where
  "decoder_new n = \<lparr>de_len = n, de_k = max (div_ceil n CHUNK_DATA) 1, de_got = [], de_decoded = None\<rparr>"

text \<open>The systematic pass: \<open>None\<close> when a chunk is missing.\<close>

definition systematic :: "decoder \<Rightarrow> bytes option" where
  "systematic d = map_option concat (all_some (map (\<lambda>i. hm_get (de_got d) (of_nat i)) [0..<de_k d]))"

definition row_bytes :: "decoder \<Rightarrow> nat \<Rightarrow> bytes option" where
  "row_bytes d i =
     (let pts = take (de_k d) (de_got d)
      in map_option (\<lambda>ys. concat (map (be_bytes 2) ys))
           (all_some (map (\<lambda>col. lagrange_eval (de_k d) (\<lambda>t. eval_point (fst (pts ! t)))
              (\<lambda>t. Some (from_be [snd (pts ! t) ! (2 * col), snd (pts ! t) ! (2 * col + 1)]))
              (eval_point (of_nat i))) [0..<SYMS])))"

definition try_decode :: "decoder \<Rightarrow> decoder" where
  "try_decode d =
     (case systematic d of
        Some m \<Rightarrow> d\<lparr>de_decoded := Some (take (de_len d) m)\<rparr>
      | None \<Rightarrow>
          if length (de_got d) < de_k d then d
          else (case all_some (map (row_bytes d) [0..<de_k d]) of
                  None \<Rightarrow> d
                | Some rows \<Rightarrow> d\<lparr>de_decoded := Some (take (de_len d) (concat rows))\<rparr>))"

definition add_chunk :: "decoder \<Rightarrow> bytes \<Rightarrow> (prim_error + unit) \<times> decoder" where
  "add_chunk d chunk =
     (if length chunk \<noteq> CHUNK_WIRE then (Inl InvalidLength, d)
      else
        let idx = from_be (take 2 chunk); payload = drop 2 chunk;
            d1 = d\<lparr>de_got := bt_insert (de_got d) idx payload\<rparr>
        in (Inr (), if length (de_got d1) \<ge> de_k d1 \<and> de_decoded d1 = None then try_decode d1 else d1))"

definition has_message :: "decoder \<Rightarrow> bool" where
  "has_message d = (de_decoded d \<noteq> None)"

definition put_got :: "u16 \<times> bytes \<Rightarrow> bytes" where
  "put_got x = le_bytes 2 (fst x) @ snd x"

definition take_got :: "bytes \<Rightarrow> prim_error + (u16 \<times> bytes) \<times> bytes" where
  "take_got d =
     rbind (take_u16 InvalidLength d) (\<lambda>(idx, d).
     rbind (take_n InvalidLength CHUNK_DATA d) (\<lambda>(payload, d). Inr ((idx, payload), d)))"

definition decoder_encode :: "decoder \<Rightarrow> bytes" where
  "decoder_encode d =
     le_bytes 4 (of_nat (de_len d) :: u32) @ le_bytes 4 (of_nat (de_k d) :: u32) @
     le_bytes 4 (of_nat (length (de_got d)) :: u32) @ concat (map put_got (de_got d)) @
     (case de_decoded d of None \<Rightarrow> [0] | Some m \<Rightarrow> 1 # put_vec m)"

definition decoder_decode :: "bytes \<Rightarrow> prim_error + decoder" where
  "decoder_decode d =
     (if length d < 13 then Inl InvalidLength else
     rbind (take_u32 InvalidLength d) (\<lambda>(ml, d).
     rbind (take_u32 InvalidLength d) (\<lambda>(k, d).
     rbind (take_u32 InvalidLength d) (\<lambda>(n, d).
     rbind (take_list take_got (unat n) d) (\<lambda>(es, d).
     rbind (take_u8 InvalidLength d) (\<lambda>(tag, d).
     rbind (if tag = 0 then Inr None
            else if tag = 1 then
              rbind (take_u32 InvalidLength d) (\<lambda>(ln, d).
                if length d \<noteq> unat ln then Inl InvalidLength else Inr (Some d))
            else Inl InvalidLength) (\<lambda>decoded.
       Inr \<lparr>de_len = unat ml, de_k = unat k,
            de_got = foldl (\<lambda>m (idx, payload). bt_insert m idx payload) [] es,
            de_decoded = decoded\<rparr>)))))))"

subsection \<open>Shared facts on blocks\<close>

lemma div_ceil_less: "0 < n \<Longrightarrow> i < div_ceil l n \<longleftrightarrow> n * i < l"
  using less_eq_div_iff_mult_less_eq [of n "Suc i" "l + (n - 1)"]
  by (auto simp: div_ceil_def Suc_le_eq mult.commute)

lemma all_some_Some [simp]: "all_some (map (\<lambda>i. Some (f i)) xs) = Some (map f xs)"
  by (induction xs) simp_all

lemma all_some_map: "(\<And>i. i \<in> set xs \<Longrightarrow> g i = Some (f i)) \<Longrightarrow> all_some (map g xs) = Some (map f xs)"
  by (induction xs) simp_all

lemma all_some_None: "all_some xs = None \<longleftrightarrow> None \<in> set xs"
  by (induction xs) (auto split: option.splits)

lemma block_index: "i < k \<Longrightarrow> c < w \<Longrightarrow> i * w + c < k * (w :: nat)"
  by (metis add.commute mult.commute mult_Suc_right less_le_trans nat_add_left_cancel_less Suc_leI mult_le_mono2)

lemma length_concat_uniform: "(\<And>x. x \<in> set xs \<Longrightarrow> length x = n) \<Longrightarrow> length (concat xs) = n * length xs"
  by (induction xs) simp_all

lemma block_of_concat:
  "(\<And>x. x \<in> set xs \<Longrightarrow> length x = n) \<Longrightarrow> c < length xs \<Longrightarrow> take n (drop (n * c) (concat xs)) = xs ! c"
proof (induction xs arbitrary: c)
  case (Cons x xs)
  then show ?case by (cases c) simp_all
qed simp

end
