(* ===== verification/VC_Mlkem_Inc.thy ===== *)
theory VC_Mlkem_Inc
  imports VC_Rs
begin

text \<open>
  Incremental ML-KEM-768 encapsulation (\<^verbatim>\<open>src/primitives/mlkem_inc.rs\<close>): arithmetic modulo
  3329 on \<open>u16\<close>, the number-theoretic transform as the in-place loops of the source, sampling,
  compression, bit packing and the two halves of encapsulation. SHA3 and SHAKE (crate
  \<^verbatim>\<open>sha3\<close>) are fields of the record \<open>crypto\<close>; an extendable output is the stream of its bytes.
  Rejection sampling reads that stream until 256 coefficients are accepted and has no bound: it
  is a partial function, and \<open>None\<close> means that it does not return. The operands of the modular
  additions and subtractions are always reduced (below 3329), so their intermediate sums cannot overflow.
\<close>

definition EK_VECTOR_LEN :: nat where "EK_VECTOR_LEN = 1152"
definition CT1_LEN :: nat where "CT1_LEN = 960"
definition CT2_LEN :: nat where "CT2_LEN = 128"
definition MQ :: u32 where "MQ = 3329"
definition MN :: nat where "MN = 256"
definition MK :: nat where "MK = 3"
definition DU :: nat where "DU = 10"
definition DV :: nat where "DV = 4"

record encaps_secret =
  es_m :: bytes
  es_coins :: bytes
  es_k :: bytes
  es_rho :: bytes
  es_hek :: bytes

definition secret_encode :: "encaps_secret \<Rightarrow> bytes" where
  "secret_encode s = es_m s @ es_coins s @ es_k s @ es_rho s @ es_hek s"

definition secret_decode :: "bytes \<Rightarrow> encaps_secret" where
  "secret_decode b = \<lparr>es_m = take 32 b, es_coins = take 32 (drop 32 b), es_k = take 32 (drop 64 b),
     es_rho = take 32 (drop 96 b), es_hek = drop 128 b\<rparr>"

definition sha3_256 :: "crypto \<Rightarrow> bytes \<Rightarrow> bytes" where
  "sha3_256 C x = sha3_256_fn C x"

definition g_hash :: "crypto \<Rightarrow> bytes \<Rightarrow> bytes \<Rightarrow> bytes \<times> bytes" where
  "g_hash C m hek = (let out = sha3_512_fn C (m @ hek) in (take 32 out, drop 32 out))"

definition header_from_ek :: "crypto \<Rightarrow> bytes \<Rightarrow> bytes \<times> bytes" where
  "header_from_ek C ek =
     (let t = take EK_VECTOR_LEN ek; rho = drop EK_VECTOR_LEN ek; hek = sha3_256 C ek
      in (rho @ hek, t))"

definition parse_header :: "bytes \<Rightarrow> prim_error + (bytes \<times> bytes)" where
  "parse_header header = (if length header \<noteq> 64 then Inl InvalidLength else Inr (take 32 header, drop 32 header))"

definition join_ct :: "bytes \<Rightarrow> bytes \<Rightarrow> bytes" where
  "join_ct ct1 ct2 = ct1 @ ct2"

subsection \<open>Arithmetic modulo q\<close>

definition barrett :: "u32 \<Rightarrow> u16" where
  "barrett x = ucast (x mod MQ)"

definition fq_add :: "u16 \<Rightarrow> u16 \<Rightarrow> u16" where
  "fq_add a b = (let s = ucast a + ucast b :: u32 in if s \<ge> MQ then ucast (s - MQ) else ucast s)"

definition fq_sub :: "u16 \<Rightarrow> u16 \<Rightarrow> u16" where
  "fq_sub a b = (if a \<ge> b then a - b else ucast (ucast a + MQ - ucast b :: u32))"

definition fq_mul :: "u16 \<Rightarrow> u16 \<Rightarrow> u16" where
  "fq_mul a b = barrett (ucast a * ucast b)"

definition bitrev7 :: "nat \<Rightarrow> nat" where
  "bitrev7 x =
     (drop_bit 6 x AND 1) OR push_bit 1 (drop_bit 5 x AND 1) OR push_bit 2 (drop_bit 4 x AND 1) OR
     push_bit 3 (drop_bit 3 x AND 1) OR push_bit 4 (drop_bit 2 x AND 1) OR
     push_bit 5 (drop_bit 1 x AND 1) OR push_bit 6 (x AND 1)"

text \<open>The loop that fills a table with the powers of 17.\<close>

fun zeta_powers :: "nat \<Rightarrow> u32 \<Rightarrow> u16 list" where
  "zeta_powers 0 cur = []"
| "zeta_powers (Suc n) cur = ucast cur # zeta_powers n ((cur * 17) mod MQ)"

definition zeta_pow_bitrev :: "u16 list" where
  "zeta_pow_bitrev = (let pow = zeta_powers 128 1 in map (\<lambda>i. pow ! bitrev7 i) [0..<128])"

definition gamma_table :: "u16 list" where
  "gamma_table = (let zpow = zeta_powers 256 1 in map (\<lambda>i. zpow ! (2 * bitrev7 i + 1)) [0..<128])"

subsection \<open>The transform\<close>

text \<open>One butterfly \<open>j\<close>, then the loop over \<open>j\<close>.\<close>

definition butterfly :: "u16 \<Rightarrow> nat \<Rightarrow> u16 list \<Rightarrow> nat \<Rightarrow> u16 list" where
  "butterfly zeta len f j =
     (let t = fq_mul zeta (f ! (j + len));
          f = f[j + len := fq_sub (f ! j) t]
      in f[j := fq_add (f ! j) t])"

text \<open>The loop \<open>while start < N\<close>; \<open>len\<close> is at least 2 in every call.\<close>

function ntt_blocks :: "u16 list \<Rightarrow> nat \<Rightarrow> nat \<Rightarrow> nat \<Rightarrow> u16 list \<Rightarrow> nat \<times> u16 list" where
  "ntt_blocks z len start k f =
     (if start < MN \<and> 0 < len then
        ntt_blocks z len (start + 2 * len) (k + 1) (foldl (butterfly (z ! k) len) f [start..<start + len])
      else (k, f))"
  by pat_completeness auto
termination by (relation "measure (\<lambda>(z, len, start, k, f). MN - start)") auto

declare ntt_blocks.simps [simp del]

function ntt_layers :: "u16 list \<Rightarrow> nat \<Rightarrow> nat \<Rightarrow> u16 list \<Rightarrow> u16 list" where
  "ntt_layers z len k f =
     (if len \<ge> 2 then let (k, f) = ntt_blocks z len 0 k f in ntt_layers z (len div 2) k f else f)"
  by pat_completeness auto
termination by (relation "measure (\<lambda>(z, len, k, f). len)") auto

declare ntt_layers.simps [simp del]

definition ntt :: "u16 list \<Rightarrow> u16 list" where
  "ntt f = ntt_layers zeta_pow_bitrev 128 1 f"

definition butterfly_inv :: "u16 \<Rightarrow> nat \<Rightarrow> u16 list \<Rightarrow> nat \<Rightarrow> u16 list" where
  "butterfly_inv zeta len f j =
     (let t = f ! j;
          f = f[j := fq_add t (f ! (j + len))]
      in f[j + len := fq_mul zeta (fq_sub (f ! (j + len)) t)])"

function ntt_inv_blocks :: "u16 list \<Rightarrow> nat \<Rightarrow> nat \<Rightarrow> nat \<Rightarrow> u16 list \<Rightarrow> nat \<times> u16 list" where
  "ntt_inv_blocks z len start k f =
     (if start < MN \<and> 0 < len then
        ntt_inv_blocks z len (start + 2 * len) (k - 1) (foldl (butterfly_inv (z ! k) len) f [start..<start + len])
      else (k, f))"
  by pat_completeness auto
termination by (relation "measure (\<lambda>(z, len, start, k, f). MN - start)") auto

declare ntt_inv_blocks.simps [simp del]

function ntt_inv_layers :: "u16 list \<Rightarrow> nat \<Rightarrow> nat \<Rightarrow> u16 list \<Rightarrow> u16 list" where
  "ntt_inv_layers z len k f =
     (if len \<le> 128 \<and> 0 < len then let (k, f) = ntt_inv_blocks z len 0 k f in ntt_inv_layers z (len * 2) k f else f)"
  by pat_completeness auto
termination by (relation "measure (\<lambda>(z, len, k, f). 129 - len)") auto

declare ntt_inv_layers.simps [simp del]

definition ntt_inv :: "u16 list \<Rightarrow> u16 list" where
  "ntt_inv f = map (\<lambda>c. fq_mul c 3303) (ntt_inv_layers zeta_pow_bitrev 2 127 f)"

definition base_mul :: "u16 \<Rightarrow> u16 \<Rightarrow> u16 \<Rightarrow> u16 \<Rightarrow> u16 \<Rightarrow> u16 \<times> u16" where
  "base_mul a0 a1 b0 b1 gamma =
     (fq_add (fq_mul a0 b0) (fq_mul (fq_mul a1 b1) gamma), fq_add (fq_mul a0 b1) (fq_mul a1 b0))"

definition multiply_ntts :: "u16 list \<Rightarrow> u16 list \<Rightarrow> u16 list" where
  "multiply_ntts a b =
     (let g = gamma_table
      in concat (map (\<lambda>i. let (c0, c1) = base_mul (a ! (2 * i)) (a ! (2 * i + 1)) (b ! (2 * i)) (b ! (2 * i + 1)) (g ! i)
                           in [c0, c1]) [0..<128]))"

subsection \<open>Sampling\<close>

text \<open>\<open>out\<close> holds the coefficients accepted so far (\<open>n = length out\<close>), \<open>rd\<close> is the number of bytes
  the reader has delivered, \<open>buf\<close> the current 96-byte buffer.\<close>

partial_function (option) sample_loop :: "(nat \<Rightarrow> u8) \<Rightarrow> nat \<Rightarrow> bytes \<Rightarrow> nat \<Rightarrow> u16 list \<Rightarrow> u16 list option" where
  "sample_loop xof rd buf start out =
     (if length out < MN then
        let (rd, buf, start) = (if start = length buf then (rd + 96, map (\<lambda>i. xof (rd + i)) [0..<96], 0) else (rd, buf, start));
            b0 = buf ! start; b1 = buf ! (start + 1); b2 = buf ! (start + 2);
            start = start + 3;
            d1 = ucast b0 + push_bit 8 (ucast b1 AND 0xf) :: u16;
            d2 = drop_bit 4 (ucast b1) + push_bit 4 (ucast b2) :: u16;
            out1 = (if (ucast d1 :: u32) < MQ then out @ [d1] else out)
        in if (ucast d1 :: u32) < MQ \<and> length out1 = MN then Some out1
           else sample_loop xof rd buf start (if (ucast d2 :: u32) < MQ then out1 @ [d2] else out1)
      else Some out)"

definition sample_ntt :: "crypto \<Rightarrow> bytes \<Rightarrow> u8 \<Rightarrow> u8 \<Rightarrow> u16 list option" where
  "sample_ntt C rho i j =
     (let xof = shake128_fn C (rho @ [i, j]) in sample_loop xof 96 (map xof [0..<96]) 0 [])"

definition prf_eta2 :: "crypto \<Rightarrow> bytes \<Rightarrow> u8 \<Rightarrow> bytes" where
  "prf_eta2 C s b = map (shake256_fn C (s @ [b])) [0..<128]"

definition sample_cbd2 :: "bytes \<Rightarrow> u16 list" where
  "sample_cbd2 buf =
     map (\<lambda>i. let bit_off = 4 * i; byte = buf ! (bit_off div 8); shift = bit_off mod 8;
                  bits = (if shift \<le> 4 then drop_bit shift byte AND 0x0f
                          else (drop_bit shift byte OR push_bit (8 - shift) (buf ! (bit_off div 8 + 1))) AND 0x0f);
                  x = (bits AND 1) + (drop_bit 1 bits AND 1);
                  y = (drop_bit 2 bits AND 1) + (drop_bit 3 bits AND 1)
              in fq_sub (ucast x) (ucast y)) [0..<MN]"

definition sample_vec_cbd :: "crypto \<Rightarrow> bytes \<Rightarrow> u8 \<Rightarrow> u16 list list" where
  "sample_vec_cbd C coins start_n = map (\<lambda>i. sample_cbd2 (prf_eta2 C coins (start_n + of_nat i))) [0..<MK]"

subsection \<open>Compression and bit packing\<close>

definition compress :: "u16 \<Rightarrow> nat \<Rightarrow> u16" where
  "compress x d =
     (let div_mul = push_bit 34 1 div ucast MQ :: u64;
          q_half = drop_bit 1 (ucast MQ + 1) :: u64;
          y = drop_bit 34 ((push_bit d (ucast x) + q_half) * div_mul)
      in ucast y AND (push_bit d 1 - 1))"

definition decompress :: "u16 \<Rightarrow> nat \<Rightarrow> u16" where
  "decompress y d = ucast (drop_bit d (ucast y * MQ + push_bit (d - 1) 1))"

definition byte_encode_d :: "u16 list \<Rightarrow> nat \<Rightarrow> bytes" where
  "byte_encode_d coeffs d =
     foldl (\<lambda>out (i, c).
       foldl (\<lambda>out b. let bit = ucast (drop_bit b c AND 1) :: u8; pos = i * d + b
                      in out[pos div 8 := out ! (pos div 8) OR push_bit (pos mod 8) bit]) out [0..<d])
       (replicate (div_ceil (length coeffs * d) 8) 0) (enumerate 0 coeffs)"

definition byte_decode_d :: "bytes \<Rightarrow> nat \<Rightarrow> nat \<Rightarrow> u16 list" where
  "byte_decode_d data d n =
     map (\<lambda>i. foldl (\<lambda>c b. let pos = i * d + b; bit = drop_bit (pos mod 8) (data ! (pos div 8)) AND 1
                             in c OR push_bit b (ucast bit)) 0 [0..<d]) [0..<n]"

subsection \<open>Encapsulation in two steps\<close>

definition fq_add_list :: "u16 list \<Rightarrow> u16 list \<Rightarrow> u16 list" where
  "fq_add_list a b = map (\<lambda>t. fq_add (a ! t) (b ! t)) [0..<MN]"

text \<open>The row \<open>i\<close> of the product with the sampled matrix, before the inverse transform.\<close>

fun matrix_row :: "crypto \<Rightarrow> bytes \<Rightarrow> nat \<Rightarrow> (nat \<times> u16 list) list \<Rightarrow> u16 list \<Rightarrow> u16 list option" where
  "matrix_row C rho i [] acc = Some acc"
| "matrix_row C rho i ((j, r_j) # rs) acc =
     (case sample_ntt C rho (of_nat i) (of_nat j) of
        None \<Rightarrow> None
      | Some a \<Rightarrow> matrix_row C rho i rs (fq_add_list acc (multiply_ntts a r_j)))"

definition pke_encrypt_ct1 :: "crypto \<Rightarrow> bytes \<Rightarrow> bytes \<Rightarrow> bytes option" where
  "pke_encrypt_ct1 C rho coins =
     (let r = sample_vec_cbd C coins 0;
          e1 = sample_vec_cbd C coins (of_nat MK);
          r_hat = map ntt r
      in map_option (\<lambda>rows. concat (map (\<lambda>(i, acc).
             let u = fq_add_list (ntt_inv acc) (e1 ! i)
             in byte_encode_d (map (\<lambda>x. compress x DU) u) DU) (enumerate 0 rows)))
           (all_some (map (\<lambda>i. matrix_row C rho i (enumerate 0 r_hat) (replicate MN 0)) [0..<MK])))"

definition pke_encrypt_ct2 :: "crypto \<Rightarrow> bytes \<Rightarrow> bytes \<Rightarrow> bytes \<Rightarrow> bytes" where
  "pke_encrypt_ct2 C t_bytes coins m =
     (let r = sample_vec_cbd C coins 0;
          e2 = sample_cbd2 (prf_eta2 C coins (2 * of_nat MK));
          r_hat = map ntt r;
          t_hat = map (\<lambda>i. byte_decode_d (take 384 (drop (i * 384) t_bytes)) 12 MN) [0..<MK];
          acc = foldl (\<lambda>acc j. fq_add_list acc (multiply_ntts (t_hat ! j) (r_hat ! j))) (replicate MN 0) [0..<MK];
          acc = ntt_inv acc;
          mu = map (\<lambda>i. let bit = drop_bit (i mod 8) (m ! (i div 8)) AND 1 in decompress (ucast bit) 1) [0..<MN];
          v = map (\<lambda>t. compress (fq_add (fq_add (acc ! t) (e2 ! t)) (mu ! t)) DV) [0..<MN]
      in byte_encode_d v DV)"

definition encaps1_with_m :: "crypto \<Rightarrow> bytes \<Rightarrow> bytes \<Rightarrow> bytes \<Rightarrow> (encaps_secret \<times> bytes \<times> bytes) option" where
  "encaps1_with_m C rho hek m =
     (let (k, coins) = g_hash C m hek
      in map_option (\<lambda>ct1. (\<lparr>es_m = m, es_coins = coins, es_k = k, es_rho = rho, es_hek = hek\<rparr>, ct1, k))
           (pke_encrypt_ct1 C rho coins))"

definition encaps1 :: "crypto \<Rightarrow> rng \<Rightarrow> bytes \<Rightarrow> (prim_error + (encaps_secret \<times> bytes \<times> bytes)) option" where
  "encaps1 C r header =
     (case parse_header header of
        Inl e \<Rightarrow> Some (Inl e)
      | Inr (rho, hek) \<Rightarrow> map_option Inr (encaps1_with_m C rho hek (fst (fill_random 32 r))))"

definition encaps2 :: "crypto \<Rightarrow> encaps_secret \<Rightarrow> bytes \<Rightarrow> prim_error + bytes" where
  "encaps2 C secret ek_vector =
     (if length ek_vector \<noteq> EK_VECTOR_LEN then Inl InvalidLength
      else if sha3_256 C (ek_vector @ es_rho secret) \<noteq> es_hek secret then Inl InvalidPublicKey
      else Inr (pke_encrypt_ct2 C ek_vector (es_coins secret) (es_m secret)))"

end
