(* ===== verification/VC_Braid.thy ===== *)
theory VC_Braid
  imports VC_Mlkem_Inc
begin

text \<open>
  The ML-KEM Braid key agreement (\<^verbatim>\<open>src/ratchet/braid/auth.rs\<close>, \<^verbatim>\<open>src/ratchet/braid/mod.rs\<close>): the
  ratcheted authenticator, wire messages, the state machine of the two agents and its persistence.
  An operation returns \<open>None\<close> when the source panics (\<open>self.epoch + 1\<close> at the largest epoch,
  \<open>copy_from_slice\<close> on a slice of the wrong length, an index error in an encoder read from a blob)
  or does not return (rejection sampling); otherwise its result and the state it leaves behind.
  An ML-KEM secret is its 64-byte seed.
\<close>

definition BRAID_PROTOCOL_INFO :: bytes where
  "BRAID_PROTOCOL_INFO = bstr ''VoiceChat_MLKEM768_SHA-256''"
definition HEADER_SIZE :: nat where "HEADER_SIZE = 64"
definition EK_SIZE :: nat where "EK_SIZE = EK_VECTOR_LEN"
definition CT1_SIZE :: nat where "CT1_SIZE = CT1_LEN"
definition CT2_SIZE :: nat where "CT2_SIZE = CT2_LEN"
definition MAC_SIZE :: nat where "MAC_SIZE = 32"

subsection \<open>The authenticator\<close>

record authenticator =
  au_root :: bytes
  au_mac :: bytes

definition auth_update :: "crypto \<Rightarrow> u64 \<Rightarrow> bytes \<Rightarrow> authenticator \<Rightarrow> (prim_error + unit) \<times> authenticator" where
  "auth_update C epoch key a =
     (let info = BRAID_PROTOCOL_INFO @ bstr '':Authenticator Update'' @ be_bytes 8 epoch
      in sbind (hkdf_extract_expand C (Some (au_root a)) key info 64, a) (\<lambda>okm a.
           (Inr (), a\<lparr>au_root := take 32 okm, au_mac := drop 32 okm\<rparr>)))"

definition auth_init :: "crypto \<Rightarrow> u64 \<Rightarrow> bytes \<Rightarrow> prim_error + authenticator" where
  "auth_init C epoch key =
     (case auth_update C epoch key \<lparr>au_root = zeros32, au_mac = zeros32\<rparr> of
        (Inl e, _) \<Rightarrow> Inl e
      | (Inr _, a) \<Rightarrow> Inr a)"

definition mac_hdr :: "crypto \<Rightarrow> authenticator \<Rightarrow> u64 \<Rightarrow> bytes \<Rightarrow> bytes" where
  "mac_hdr C a epoch hdr =
     hmac_sha256 C (au_mac a) (BRAID_PROTOCOL_INFO @ bstr '':ekheader'' @ be_bytes 8 epoch @ hdr)"

definition mac_ct :: "crypto \<Rightarrow> authenticator \<Rightarrow> u64 \<Rightarrow> bytes \<Rightarrow> bytes" where
  "mac_ct C a epoch ct =
     hmac_sha256 C (au_mac a) (BRAID_PROTOCOL_INFO @ bstr '':ciphertext'' @ be_bytes 8 epoch @ ct)"

definition vfy_hdr :: "crypto \<Rightarrow> authenticator \<Rightarrow> u64 \<Rightarrow> bytes \<Rightarrow> bytes \<Rightarrow> prim_error + unit" where
  "vfy_hdr C a epoch hdr expected =
     (let got = mac_hdr C a epoch hdr
      in if length expected \<noteq> MAC_SIZE \<or> \<not> ct_eq got expected then Inl AeadAuthFailed else Inr ())"

definition vfy_ct :: "crypto \<Rightarrow> authenticator \<Rightarrow> u64 \<Rightarrow> bytes \<Rightarrow> bytes \<Rightarrow> prim_error + unit" where
  "vfy_ct C a epoch ct expected =
     (let got = mac_ct C a epoch ct
      in if length expected \<noteq> MAC_SIZE \<or> \<not> ct_eq got expected then Inl AeadAuthFailed else Inr ())"

definition auth_encode :: "authenticator \<Rightarrow> bytes" where
  "auth_encode a = au_root a @ au_mac a"

definition auth_decode :: "bytes \<Rightarrow> authenticator" where
  "auth_decode b = \<lparr>au_root = take 32 b, au_mac = drop 32 b\<rparr>"

definition kdf_ok :: "crypto \<Rightarrow> bytes \<Rightarrow> u64 \<Rightarrow> prim_error + bytes" where
  "kdf_ok C shared_secret epoch =
     hkdf_extract_expand C (Some zeros32) shared_secret
       (BRAID_PROTOCOL_INFO @ bstr '':SCKA Key'' @ be_bytes 8 epoch) 32"

subsection \<open>Messages\<close>

datatype braid_type = BNone | BHdr | BEk | BEkCt1Ack | BCt1Ack | BCt1 | BCt2

fun braid_type_to_u8 :: "braid_type \<Rightarrow> u8" where
  "braid_type_to_u8 BNone = 0"
| "braid_type_to_u8 BHdr = 1"
| "braid_type_to_u8 BEk = 2"
| "braid_type_to_u8 BEkCt1Ack = 3"
| "braid_type_to_u8 BCt1Ack = 4"
| "braid_type_to_u8 BCt1 = 5"
| "braid_type_to_u8 BCt2 = 6"

definition braid_type_from_u8 :: "u8 \<Rightarrow> prim_error + braid_type" where
  "braid_type_from_u8 v =
     (if v = 0 then Inr BNone else if v = 1 then Inr BHdr else if v = 2 then Inr BEk
      else if v = 3 then Inr BEkCt1Ack else if v = 4 then Inr BCt1Ack else if v = 5 then Inr BCt1
      else if v = 6 then Inr BCt2 else Inl InvalidLength)"

record braid_message =
  bm_epoch :: u64
  bm_typ :: braid_type
  bm_data :: bytes

definition bm_encode :: "braid_message \<Rightarrow> bytes" where
  "bm_encode m = be_bytes 8 (bm_epoch m) @ [braid_type_to_u8 (bm_typ m)] @ bm_data m"

definition bm_decode :: "bytes \<Rightarrow> prim_error + braid_message" where
  "bm_decode d =
     (if length d < 9 then Inl InvalidLength
      else rbind (braid_type_from_u8 (d ! 8)) (\<lambda>typ.
        let rest = drop 9 d
        in if typ \<notin> {BNone, BCt1Ack} \<and> length rest \<noteq> CHUNK_WIRE then Inl InvalidLength
           else Inr \<lparr>bm_epoch = from_be (take 8 d), bm_typ = typ, bm_data = rest\<rparr>))"

subsection \<open>Agents\<close>

datatype agent =
    KeysUnsampled
  | KeysSampled (ag_dk: bytes) (ag_ek_vector: bytes) (ag_header_enc: encoder)
  | HeaderSent (ag_dk: bytes) (ag_ek_enc: encoder) (ag_ct1_dec: decoder)
  | Ct1Received (ag_dk: bytes) (ag_ct1: bytes) (ag_ek_enc: encoder)
  | EkSentCt1Received (ag_dk: bytes) (ag_ct1: bytes) (ag_ct2_dec: decoder)
  | NoHeaderReceived (ag_header_dec: decoder)
  | HeaderReceived (ag_ek_seed: bytes) (ag_hek: bytes) (ag_ek_dec: decoder)
  | Ct1Sampled (ag_secret: encaps_secret) (ag_ct1: bytes) (ag_ct1_enc: encoder) (ag_ek_dec: decoder) (ag_ss: bytes) (ag_emitted: bool)
  | EkReceivedCt1Sampled (ag_secret: encaps_secret) (ag_ct1: bytes) (ag_ek_vector: bytes) (ag_ct1_enc: encoder) (ag_ss: bytes) (ag_emitted: bool)
  | Ct1Acknowledged (ag_secret: encaps_secret) (ag_ct1: bytes) (ag_ek_dec: decoder) (ag_ss: bytes) (ag_emitted: bool)
  | Ct2Sampled (ag_ct2_enc: encoder) (ag_ss: bytes) (ag_emitted: bool)

record braid =
  br_epoch :: u64
  br_auth :: authenticator
  br_agent :: agent

record scka_output =
  so_epoch :: u64
  so_key :: bytes

definition braid_init_alice :: "crypto \<Rightarrow> bytes \<Rightarrow> prim_error + braid" where
  "braid_init_alice C shared =
     rbind (auth_init C 1 shared) (\<lambda>a. Inr \<lparr>br_epoch = 1, br_auth = a, br_agent = KeysUnsampled\<rparr>)"

definition braid_init_bob :: "crypto \<Rightarrow> bytes \<Rightarrow> prim_error + braid" where
  "braid_init_bob C shared =
     rbind (auth_init C 1 shared) (\<lambda>a. Inr \<lparr>br_epoch = 1, br_auth = a,
       br_agent = NoHeaderReceived (decoder_new (HEADER_SIZE + MAC_SIZE))\<rparr>)"

definition br_msg :: "braid \<Rightarrow> braid_type \<Rightarrow> bytes \<Rightarrow> braid_message" where
  "br_msg s typ data = \<lparr>bm_epoch = br_epoch s, bm_typ = typ, bm_data = data\<rparr>"

text \<open>\<open>encaps1_if_needed\<close>: the first encapsulation step, when a header is complete.\<close>

definition encaps1_if_needed :: "crypto \<Rightarrow> rng \<Rightarrow> braid \<Rightarrow> ((prim_error + unit) \<times> braid) option" where
  "encaps1_if_needed C r s =
     (case br_agent s of
        HeaderReceived ek_seed hek ek_dec \<Rightarrow>
          (case encaps1 C r (ek_seed @ hek) of
             None \<Rightarrow> None
           | Some (Inl e) \<Rightarrow> Some (Inl e, s)
           | Some (Inr (secret, ct1, ss_raw)) \<Rightarrow>
               (case kdf_ok C ss_raw (br_epoch s) of
                  Inl e \<Rightarrow> Some (Inl e, s)
                | Inr ss \<Rightarrow>
                    let (res, a) = auth_update C (br_epoch s) ss (br_auth s); s1 = s\<lparr>br_auth := a\<rparr>
                    in case res of
                         Inl e \<Rightarrow> Some (Inl e, s1)
                       | Inr _ \<Rightarrow> Some (Inr (), s1\<lparr>br_agent := Ct1Sampled secret ct1 (encoder_new ct1) ek_dec ss False\<rparr>)))
      | _ \<Rightarrow> Some (Inr (), s))"

text \<open>Emitting the next chunk of an encoder held by the agent.\<close>

definition send_chunk :: "braid \<Rightarrow> braid_type \<Rightarrow> encoder \<Rightarrow> (encoder \<Rightarrow> agent) \<Rightarrow>
    ((prim_error + (braid_message \<times> u64 \<times> scka_output option)) \<times> braid) option" where
  "send_chunk s typ enc agent_of =
     (case next_chunk enc of
        None \<Rightarrow> None
      | Some (chunk, enc') \<Rightarrow>
          let s1 = s\<lparr>br_agent := agent_of enc'\<rparr>
          in Some (Inr (br_msg s1 typ chunk, saturating_sub (br_epoch s) 1, None), s1))"

definition braid_send_main :: "crypto \<Rightarrow> rng \<Rightarrow> braid \<Rightarrow>
    ((prim_error + (braid_message \<times> u64 \<times> scka_output option)) \<times> braid) option" where
  "braid_send_main C r s =
     (case br_agent s of
        KeysUnsampled \<Rightarrow>
          (case fst (kem_generate C r) of
             Inl e \<Rightarrow> Some (Inl e, s)
           | Inr (dk, pk) \<Rightarrow>
               let (header_bytes, t) = header_from_ek C pk;
                   mac = mac_hdr C (br_auth s) (br_epoch s) header_bytes
               in send_chunk s BHdr (encoder_new (header_bytes @ mac)) (\<lambda>enc. KeysSampled dk t enc))
      | KeysSampled dk t header_enc \<Rightarrow> send_chunk s BHdr header_enc (\<lambda>enc. KeysSampled dk t enc)
      | HeaderSent dk ek_enc ct1_dec \<Rightarrow> send_chunk s BEk ek_enc (\<lambda>enc. HeaderSent dk enc ct1_dec)
      | Ct1Received dk ct1 ek_enc \<Rightarrow> send_chunk s BEkCt1Ack ek_enc (\<lambda>enc. Ct1Received dk ct1 enc)
      | Ct1Sampled secret ct1 ct1_enc ek_dec ss em \<Rightarrow>
          send_chunk s BCt1 ct1_enc (\<lambda>enc. Ct1Sampled secret ct1 enc ek_dec ss em)
      | EkReceivedCt1Sampled secret ct1 t ct1_enc ss em \<Rightarrow>
          send_chunk s BCt1 ct1_enc (\<lambda>enc. EkReceivedCt1Sampled secret ct1 t enc ss em)
      | Ct2Sampled ct2_enc ss em \<Rightarrow> send_chunk s BCt2 ct2_enc (\<lambda>enc. Ct2Sampled enc ss em)
      | _ \<Rightarrow> Some (Inr (br_msg s BNone [], saturating_sub (br_epoch s) 1, None), s))"

definition braid_send :: "crypto \<Rightarrow> rng \<Rightarrow> braid \<Rightarrow>
    ((prim_error + (braid_message \<times> u64 \<times> scka_output option)) \<times> braid) option" where
  "braid_send C r s = pbind (encaps1_if_needed C r s) (\<lambda>_ s. braid_send_main C r s)"

subsection \<open>Receiving\<close>

text \<open>The second encapsulation step, shared by the three places of the source that perform it.\<close>

definition encaps2_agent :: "crypto \<Rightarrow> braid \<Rightarrow> encaps_secret \<Rightarrow> bytes \<Rightarrow> bytes \<Rightarrow> bytes \<Rightarrow> bool \<Rightarrow>
    (prim_error + unit) \<times> braid" where
  "encaps2_agent C s secret ct1 t ss em =
     sbind (encaps2 C secret t, s) (\<lambda>ct2 s.
       let mac = mac_ct C (br_auth s) (br_epoch s) (ct1 @ ct2)
       in (Inr (), s\<lparr>br_agent := Ct2Sampled (encoder_new (ct2 @ mac)) ss em\<rparr>))"

definition finish_encaps2 :: "crypto \<Rightarrow> braid \<Rightarrow> (prim_error + unit) \<times> braid" where
  "finish_encaps2 C s =
     (case br_agent s of
        EkReceivedCt1Sampled secret ct1 t ct1_enc ss em \<Rightarrow> encaps2_agent C s secret ct1 t ss em
      | _ \<Rightarrow> (Inr (), s))"

definition complete_encapsulator :: "braid \<Rightarrow> u64 \<Rightarrow> u64 \<Rightarrow> (prim_error + (u64 \<times> scka_output option)) \<times> braid" where
  "complete_encapsulator s receiving new_epoch =
     (case br_agent s of
        Ct2Sampled enc ss em \<Rightarrow>
          (Inr (receiving, Some \<lparr>so_epoch = br_epoch s, so_key = ss\<rparr>), s\<lparr>br_epoch := new_epoch, br_agent := KeysUnsampled\<rparr>)
      | EkReceivedCt1Sampled secret ct1 t enc ss em \<Rightarrow>
          (Inr (receiving, Some \<lparr>so_epoch = br_epoch s, so_key = ss\<rparr>), s\<lparr>br_epoch := new_epoch, br_agent := KeysUnsampled\<rparr>)
      | _ \<Rightarrow> (Inl Internal, s))"

definition recv_ek_or_ack :: "crypto \<Rightarrow> braid \<Rightarrow> braid_message \<Rightarrow> u64 \<Rightarrow> (prim_error + (u64 \<times> scka_output option)) \<times> braid" where
  "recv_ek_or_ack C s msg receiving =
     (if bm_epoch msg \<noteq> br_epoch s then (Inr (receiving, None), s)
      else if bm_typ msg = BEk \<or> bm_typ msg = BEkCt1Ack then
        (case br_agent s of
           Ct1Sampled secret ct1 ct1_enc ek_dec ss em \<Rightarrow>
             sbind (let (res, dec) = add_chunk ek_dec (bm_data msg)
                    in (res, s\<lparr>br_agent := Ct1Sampled secret ct1 ct1_enc dec ss em\<rparr>)) (\<lambda>_ s.
             let ek_dec = ag_ek_dec (br_agent s); ack = (bm_typ msg = BEkCt1Ack)
             in case de_decoded ek_dec of
                  Some t \<Rightarrow>
                    if ack then sbind (encaps2_agent C s secret ct1 t ss em) (\<lambda>_ s. (Inr (receiving, None), s))
                    else (Inr (receiving, None), s\<lparr>br_agent := EkReceivedCt1Sampled secret ct1 t ct1_enc ss em\<rparr>)
                | None \<Rightarrow>
                    if ack then (Inr (receiving, None), s\<lparr>br_agent := Ct1Acknowledged secret ct1 ek_dec ss em\<rparr>)
                    else (Inr (receiving, None), s))
         | _ \<Rightarrow> (Inr (receiving, None), s))
      else (Inr (receiving, None), s))"

text \<open>Decapsulation: the ciphertext is complete. The two arrays are filled with
  \<open>copy_from_slice\<close>, which panics unless the first part has its size.\<close>

definition decapsulate_ct :: "crypto \<Rightarrow> braid \<Rightarrow> bytes \<Rightarrow> bytes \<Rightarrow> bytes \<Rightarrow> u64 \<Rightarrow>
    ((prim_error + (u64 \<times> scka_output option)) \<times> braid) option" where
  "decapsulate_ct C s dk ct1 blob receiving =
     (if length blob < CT2_SIZE + MAC_SIZE then Some (Inl InvalidLength, s)
      else if length ct1 \<noteq> CT1_LEN then None
      else
        let ct2 = take CT2_SIZE blob; mac = take MAC_SIZE (drop CT2_SIZE blob); joined = join_ct ct1 ct2
        in Some (
          sbind (kem_ct_from_bytes joined, s) (\<lambda>cto s.
          sbind (kem_decapsulate C dk cto, s) (\<lambda>ss_raw s.
          sbind (kdf_ok C ss_raw (br_epoch s), s) (\<lambda>ss s.
          sbind (let (res, a) = auth_update C (br_epoch s) ss (br_auth s) in (res, s\<lparr>br_auth := a\<rparr>)) (\<lambda>_ s.
          sbind (vfy_ct C (br_auth s) (br_epoch s) joined mac, s) (\<lambda>_ s.
          let out = \<lparr>so_epoch = br_epoch s, so_key = ss\<rparr>
          in sbind (ok_or LimitExceeded (checked_add (br_epoch s) 1), s) (\<lambda>e' s.
             (Inr (receiving, Some out),
              s\<lparr>br_epoch := e', br_agent := NoHeaderReceived (decoder_new (HEADER_SIZE + MAC_SIZE))\<rparr>)))))))))"

text \<open>The branch of each agent.\<close>

definition recv_agent :: "crypto \<Rightarrow> braid \<Rightarrow> braid_message \<Rightarrow> u64 \<Rightarrow>
    ((prim_error + (u64 \<times> scka_output option)) \<times> braid) option" where
  "recv_agent C s msg receiving =
     (let here = (bm_epoch msg = br_epoch s); idle = Some (Inr (receiving, None), s)
      in case br_agent s of
        KeysUnsampled \<Rightarrow> idle
      | KeysSampled dk t header_enc \<Rightarrow>
          if here \<and> bm_typ msg = BCt1 then
            (case add_chunk (decoder_new CT1_SIZE) (bm_data msg) of
               (Inl e, _) \<Rightarrow> Some (Inl e, s)
             | (Inr _, dec) \<Rightarrow> Some (Inr (receiving, None), s\<lparr>br_agent := HeaderSent dk (encoder_new t) dec\<rparr>))
          else idle
      | HeaderSent dk ek_enc ct1_dec \<Rightarrow>
          if here \<and> bm_typ msg = BCt1 then
            (case add_chunk ct1_dec (bm_data msg) of
               (Inl e, dec) \<Rightarrow> Some (Inl e, s\<lparr>br_agent := HeaderSent dk ek_enc dec\<rparr>)
             | (Inr _, dec) \<Rightarrow>
                 Some (Inr (receiving, None), s\<lparr>br_agent :=
                   (case de_decoded dec of Some ct1 \<Rightarrow> Ct1Received dk ct1 ek_enc | None \<Rightarrow> HeaderSent dk ek_enc dec)\<rparr>))
          else idle
      | Ct1Received dk ct1 ek_enc \<Rightarrow>
          if here \<and> bm_typ msg = BCt2 then
            (case add_chunk (decoder_new (CT2_SIZE + MAC_SIZE)) (bm_data msg) of
               (Inl e, _) \<Rightarrow> Some (Inl e, s\<lparr>br_agent := KeysUnsampled\<rparr>)
             | (Inr _, dec) \<Rightarrow> Some (Inr (receiving, None), s\<lparr>br_agent := EkSentCt1Received dk ct1 dec\<rparr>))
          else idle
      | EkSentCt1Received dk ct1 ct2_dec \<Rightarrow>
          if here \<and> bm_typ msg = BCt2 then
            (case add_chunk ct2_dec (bm_data msg) of
               (Inl e, dec) \<Rightarrow> Some (Inl e, s\<lparr>br_agent := EkSentCt1Received dk ct1 dec\<rparr>)
             | (Inr _, dec) \<Rightarrow>
                 let s1 = s\<lparr>br_agent := EkSentCt1Received dk ct1 dec\<rparr>
                 in case de_decoded dec of
                      Some blob \<Rightarrow> decapsulate_ct C s1 dk ct1 blob receiving
                    | None \<Rightarrow> Some (Inr (receiving, None), s1))
          else idle
      | NoHeaderReceived header_dec \<Rightarrow>
          if here \<and> bm_typ msg = BHdr then
            (case add_chunk header_dec (bm_data msg) of
               (Inl e, dec) \<Rightarrow> Some (Inl e, s\<lparr>br_agent := NoHeaderReceived dec\<rparr>)
             | (Inr _, dec) \<Rightarrow>
                 let s1 = s\<lparr>br_agent := NoHeaderReceived dec\<rparr>
                 in case de_decoded dec of
                      None \<Rightarrow> Some (Inr (receiving, None), s1)
                    | Some blob \<Rightarrow>
                        if length blob < HEADER_SIZE + MAC_SIZE then Some (Inl InvalidLength, s1)
                        else
                          let header = take HEADER_SIZE blob; mac = take MAC_SIZE (drop HEADER_SIZE blob)
                          in case vfy_hdr C (br_auth s1) (br_epoch s1) header mac of
                               Inl e \<Rightarrow> Some (Inl e, s1)
                             | Inr _ \<Rightarrow> Some (Inr (receiving, None), s1\<lparr>br_agent :=
                                 HeaderReceived (take 32 header) (take 32 (drop 32 header)) (decoder_new EK_SIZE)\<rparr>))
          else idle
      | HeaderReceived ek_seed hek ek_dec \<Rightarrow> idle
      | Ct1Sampled secret ct1 ct1_enc ek_dec ss em \<Rightarrow> Some (recv_ek_or_ack C s msg receiving)
      | EkReceivedCt1Sampled secret ct1 t ct1_enc ss em \<Rightarrow>
          Some (sbind (if here \<and> (bm_typ msg = BEkCt1Ack \<or> bm_typ msg = BCt1Ack) then finish_encaps2 C s else (Inr (), s)) (\<lambda>_ s.
            if bm_epoch msg = br_epoch s + 1 then complete_encapsulator s receiving (bm_epoch msg)
            else (Inr (receiving, None), s)))
      | Ct1Acknowledged secret ct1 ek_dec ss em \<Rightarrow>
          if here \<and> (bm_typ msg = BEk \<or> bm_typ msg = BEkCt1Ack) then
            (case add_chunk ek_dec (bm_data msg) of
               (Inl e, dec) \<Rightarrow> Some (Inl e, s\<lparr>br_agent := Ct1Acknowledged secret ct1 dec ss em\<rparr>)
             | (Inr _, dec) \<Rightarrow>
                 let s1 = s\<lparr>br_agent := Ct1Acknowledged secret ct1 dec ss em\<rparr>
                 in case de_decoded dec of
                      None \<Rightarrow> Some (Inr (receiving, None), s1)
                    | Some t \<Rightarrow> Some (sbind (encaps2_agent C s1 secret ct1 t ss em) (\<lambda>_ s. (Inr (receiving, None), s))))
          else idle
      | Ct2Sampled ct2_enc ss em \<Rightarrow>
          if bm_epoch msg = br_epoch s + 1 then Some (complete_encapsulator s receiving (bm_epoch msg)) else idle)"

definition braid_receive :: "crypto \<Rightarrow> braid \<Rightarrow> braid_message \<Rightarrow>
    ((prim_error + (u64 \<times> scka_output option)) \<times> braid) option" where
  "braid_receive C s msg =
     (let receiving = saturating_sub (br_epoch s) 1
      in case checked_add (br_epoch s) 1 of
           None \<Rightarrow> None
         | Some e1 \<Rightarrow> if bm_epoch msg > e1 then Some (Inl InvalidLength, s) else recv_agent C s msg receiving)"

text \<open>\<open>drive_until_key\<close>: \<open>rs i\<close> is what the random generator delivers to the \<open>i\<close>-th call of \<open>send\<close>. The
  loop counts down; \<open>ka\<close> and \<open>kb\<close> are the keys seen so far.\<close>

fun drive_loop :: "crypto \<Rightarrow> (nat \<Rightarrow> rng) \<Rightarrow> nat \<Rightarrow> bytes option \<Rightarrow> bytes option \<Rightarrow> braid \<Rightarrow> braid \<Rightarrow>
    ((prim_error + (bytes \<times> bytes)) \<times> braid \<times> braid) option" where
  "drive_loop C rs 0 ka kb a b = Some (Inl LimitExceeded, a, b)"
| "drive_loop C rs (Suc n) ka kb a b =
     pbind (map_option (\<lambda>(res, a). (res, a, b)) (braid_send C (rs 0) a)) (\<lambda>(ma, _, oa) (a, b).
       let ka = (case oa of Some out \<Rightarrow> Some (so_key out) | None \<Rightarrow> ka)
       in pbind (map_option (\<lambda>(res, b). (res, a, b)) (braid_receive C b ma)) (\<lambda>(_, ob) (a, b).
       let kb = (case ob of Some out \<Rightarrow> Some (so_key out) | None \<Rightarrow> kb)
       in pbind (map_option (\<lambda>(res, b). (res, a, b)) (braid_send C (rs 1) b)) (\<lambda>(mb, _, ob2) (a, b).
       let kb = (case ob2 of Some out \<Rightarrow> Some (so_key out) | None \<Rightarrow> kb)
       in pbind (map_option (\<lambda>(res, a). (res, a, b)) (braid_receive C a mb)) (\<lambda>(_, oa2) (a, b).
       let ka = (case oa2 of Some out \<Rightarrow> Some (so_key out) | None \<Rightarrow> ka)
       in case (ka, kb) of
            (Some x, Some y) \<Rightarrow> Some (Inr (x, y), a, b)
          | _ \<Rightarrow> drive_loop C (\<lambda>i. rs (i + 2)) n ka kb a b))))"

definition drive_until_key :: "crypto \<Rightarrow> (nat \<Rightarrow> rng) \<Rightarrow> braid \<Rightarrow> braid \<Rightarrow> nat \<Rightarrow>
    ((prim_error + (bytes \<times> bytes)) \<times> braid \<times> braid) option" where
  "drive_until_key C rs a b max_rounds = drive_loop C rs max_rounds None None a b"

subsection \<open>Persistence\<close>

definition take_bool :: "bytes \<Rightarrow> prim_error + bool \<times> bytes" where
  "take_bool d = rbind (take_u8 InvalidLength d) (\<lambda>(b, d). Inr (b \<noteq> 0, d))"

definition take_enc :: "bytes \<Rightarrow> prim_error + encoder \<times> bytes" where
  "take_enc d = rbind (take_vec InvalidLength d) (\<lambda>(b, d). rbind (encoder_decode b) (\<lambda>x. Inr (x, d)))"

definition take_dec :: "bytes \<Rightarrow> prim_error + decoder \<times> bytes" where
  "take_dec d = rbind (take_vec InvalidLength d) (\<lambda>(b, d). rbind (decoder_decode b) (\<lambda>x. Inr (x, d)))"

definition take_dk :: "bytes \<Rightarrow> prim_error + bytes \<times> bytes" where
  "take_dk d = take_n InvalidLength 64 d"

definition take_secret :: "bytes \<Rightarrow> prim_error + encaps_secret \<times> bytes" where
  "take_secret d = rbind (take_n InvalidLength 160 d) (\<lambda>(b, d). Inr (secret_decode b, d))"

definition bool_byte :: "bool \<Rightarrow> bytes" where
  "bool_byte b = [if b then 1 else 0]"

fun agent_write :: "agent \<Rightarrow> bytes" where
  "agent_write KeysUnsampled = [0]"
| "agent_write (KeysSampled dk t enc) = [1] @ dk @ put_vec t @ put_vec (encoder_encode enc)"
| "agent_write (HeaderSent dk enc dec) = [2] @ dk @ put_vec (encoder_encode enc) @ put_vec (decoder_encode dec)"
| "agent_write (Ct1Received dk ct1 enc) = [3] @ dk @ put_vec ct1 @ put_vec (encoder_encode enc)"
| "agent_write (EkSentCt1Received dk ct1 dec) = [4] @ dk @ put_vec ct1 @ put_vec (decoder_encode dec)"
| "agent_write (NoHeaderReceived dec) = [5] @ put_vec (decoder_encode dec)"
| "agent_write (HeaderReceived ek_seed hek dec) = [6] @ ek_seed @ hek @ put_vec (decoder_encode dec)"
| "agent_write (Ct1Sampled secret ct1 enc dec ss em) =
     [7] @ secret_encode secret @ ct1 @ put_vec (encoder_encode enc) @ put_vec (decoder_encode dec) @ ss @ bool_byte em"
| "agent_write (EkReceivedCt1Sampled secret ct1 t enc ss em) =
     [8] @ secret_encode secret @ ct1 @ put_vec t @ put_vec (encoder_encode enc) @ ss @ bool_byte em"
| "agent_write (Ct1Acknowledged secret ct1 dec ss em) =
     [9] @ secret_encode secret @ ct1 @ put_vec (decoder_encode dec) @ ss @ bool_byte em"
| "agent_write (Ct2Sampled enc ss em) = [10] @ put_vec (encoder_encode enc) @ ss @ bool_byte em"

definition agent_read :: "bytes \<Rightarrow> prim_error + agent \<times> bytes" where
  "agent_read d =
     rbind (take_u8 InvalidLength d) (\<lambda>(tag, d).
       if tag = 0 then Inr (KeysUnsampled, d)
       else if tag = 1 then
         rbind (take_dk d) (\<lambda>(dk, d). rbind (take_vec InvalidLength d) (\<lambda>(t, d). rbind (take_enc d) (\<lambda>(enc, d).
           Inr (KeysSampled dk t enc, d))))
       else if tag = 2 then
         rbind (take_dk d) (\<lambda>(dk, d). rbind (take_enc d) (\<lambda>(enc, d). rbind (take_dec d) (\<lambda>(dec, d).
           Inr (HeaderSent dk enc dec, d))))
       else if tag = 3 then
         rbind (take_dk d) (\<lambda>(dk, d). rbind (take_vec InvalidLength d) (\<lambda>(ct1, d). rbind (take_enc d) (\<lambda>(enc, d).
           Inr (Ct1Received dk ct1 enc, d))))
       else if tag = 4 then
         rbind (take_dk d) (\<lambda>(dk, d). rbind (take_vec InvalidLength d) (\<lambda>(ct1, d). rbind (take_dec d) (\<lambda>(dec, d).
           Inr (EkSentCt1Received dk ct1 dec, d))))
       else if tag = 5 then
         rbind (take_dec d) (\<lambda>(dec, d). Inr (NoHeaderReceived dec, d))
       else if tag = 6 then
         rbind (take_n InvalidLength 32 d) (\<lambda>(seed, d). rbind (take_n InvalidLength 32 d) (\<lambda>(hek, d). rbind (take_dec d) (\<lambda>(dec, d).
           Inr (HeaderReceived seed hek dec, d))))
       else if tag = 7 then
         rbind (take_secret d) (\<lambda>(secret, d). rbind (take_n InvalidLength CT1_LEN d) (\<lambda>(ct1, d).
         rbind (take_enc d) (\<lambda>(enc, d). rbind (take_dec d) (\<lambda>(dec, d).
         rbind (take_n InvalidLength 32 d) (\<lambda>(ss, d). rbind (take_bool d) (\<lambda>(em, d).
           Inr (Ct1Sampled secret ct1 enc dec ss em, d)))))))
       else if tag = 8 then
         rbind (take_secret d) (\<lambda>(secret, d). rbind (take_n InvalidLength CT1_LEN d) (\<lambda>(ct1, d).
         rbind (take_vec InvalidLength d) (\<lambda>(t, d). rbind (take_enc d) (\<lambda>(enc, d).
         rbind (take_n InvalidLength 32 d) (\<lambda>(ss, d). rbind (take_bool d) (\<lambda>(em, d).
           Inr (EkReceivedCt1Sampled secret ct1 t enc ss em, d)))))))
       else if tag = 9 then
         rbind (take_secret d) (\<lambda>(secret, d). rbind (take_n InvalidLength CT1_LEN d) (\<lambda>(ct1, d).
         rbind (take_dec d) (\<lambda>(dec, d). rbind (take_n InvalidLength 32 d) (\<lambda>(ss, d). rbind (take_bool d) (\<lambda>(em, d).
           Inr (Ct1Acknowledged secret ct1 dec ss em, d))))))
       else if tag = 10 then
         rbind (take_enc d) (\<lambda>(enc, d). rbind (take_n InvalidLength 32 d) (\<lambda>(ss, d). rbind (take_bool d) (\<lambda>(em, d).
           Inr (Ct2Sampled enc ss em, d))))
       else Inl InvalidLength)"

definition braid_serialize :: "braid \<Rightarrow> bytes" where
  "braid_serialize s = bstr ''VCBRAID3'' @ le_bytes 8 (br_epoch s) @ auth_encode (br_auth s) @ agent_write (br_agent s)"

definition deserialize_v3 :: "bytes \<Rightarrow> prim_error + braid" where
  "deserialize_v3 d =
     rbind (take_u64 InvalidLength (drop 8 d)) (\<lambda>(epoch, d).
     rbind (take_n InvalidLength 64 d) (\<lambda>(a, d).
     rbind (agent_read d) (\<lambda>(agent, d).
       if d \<noteq> [] then Inl InvalidLength
       else Inr \<lparr>br_epoch = epoch, br_auth = auth_decode a, br_agent = agent\<rparr>)))"

definition deserialize_compact :: "bytes \<Rightarrow> prim_error + braid" where
  "deserialize_compact d =
     (if length d < 8 + 8 + 64 + 1 then Inl InvalidLength
      else
        let epoch = from_le (take 8 (drop 8 d)); a = auth_decode (take 64 (drop 16 d)); bob_like = (d ! 80 \<noteq> 0)
        in Inr \<lparr>br_epoch = epoch, br_auth = a,
             br_agent = (if bob_like then NoHeaderReceived (decoder_new (HEADER_SIZE + MAC_SIZE)) else KeysUnsampled)\<rparr>)"

definition braid_deserialize :: "bytes \<Rightarrow> prim_error + braid" where
  "braid_deserialize d =
     (if length d < 8 then Inl InvalidLength
      else if take 8 d = bstr ''VCBRAID3'' then deserialize_v3 d
      else if take 8 d = bstr ''VCBRAID2'' \<or> take 8 d = bstr ''VCBRAID1'' then deserialize_compact d
      else Inl InvalidLength)"

end
