(* ===== verification/VC_Ratchet_Codec.thy ===== *)
theory VC_Ratchet_Codec
  imports VC_Ratchet_Props
begin

text \<open>
  Persistence of the Double Ratchet state: \<open>serialize\<close> and \<open>deserialize\<close> of
  \<^verbatim>\<open>src/ratchet/mod.rs\<close>, as a codec, and what arbitrary runs of
  operations (reloads included) keep of the state.
\<close>

interpretation hdr: canonical_codec header_encode header_decode header_wf
  by unfold_locales (auto simp: header_decode_encode dest: header_decode_sound)

subsection \<open>State serialization\<close>

definition put_opt :: "bytes option \<Rightarrow> bytes" where
  "put_opt x = (case x of Some b \<Rightarrow> 1 # b | None \<Rightarrow> [0])"

definition put_skipped :: "skip_key \<times> bytes \<Rightarrow> bytes" where
  "put_skipped e = (case e of ((pk, n), mk) \<Rightarrow> pk @ le_bytes 4 n @ mk)"

definition dr_serialize :: "dr_state \<Rightarrow> bytes" where
  "dr_serialize s =
     put_opt (dhs s) @ put_opt (dhr s) @ rk s @ put_opt (cks s) @ put_opt (ckr s) @
     le_bytes 4 (ns s) @ le_bytes 4 (nr s) @ le_bytes 4 (pn s) @ le_bytes 4 (max_skip s) @
     le_bytes 4 (of_nat (length (mkskipped s)) :: u32) @ concat (map put_skipped (mkskipped s))"

definition dr_take_opt :: "bytes \<Rightarrow> prim_error + bytes option \<times> bytes" where
  "dr_take_opt d =
     rbind (take_u8 InvalidLength d) (\<lambda>(tag, d).
       if tag = 1 then rbind (take_n InvalidLength 32 d) (\<lambda>(b, d). Inr (Some b, d))
       else Inr (None, d))"

definition take_skipped :: "bytes \<Rightarrow> prim_error + (skip_key \<times> bytes) \<times> bytes" where
  "take_skipped d =
     rbind (take_n InvalidLength 32 d) (\<lambda>(pk, d).
     rbind (take_u32 InvalidLength d) (\<lambda>(n, d).
     rbind (take_n InvalidLength 32 d) (\<lambda>(mk, d). Inr (((pk, n), mk), d))))"

definition dr_deserialize :: "crypto \<Rightarrow> bytes \<Rightarrow> u32 \<Rightarrow> prim_error + dr_state" where
  "dr_deserialize C data ms =
     rbind (dr_take_opt data) (\<lambda>(s0, d).
     rbind (dr_take_opt d) (\<lambda>(p0, d).
     rbind (case p0 of None \<Rightarrow> Inr None | Some b \<Rightarrow> rbind (public_from_bytes b) (\<lambda>p. Inr (Some p))) (\<lambda>p1.
     rbind (take_n InvalidLength 32 d) (\<lambda>(k0, d).
     rbind (dr_take_opt d) (\<lambda>(cs, d).
     rbind (dr_take_opt d) (\<lambda>(cr, d).
     rbind (take_u32 InvalidLength d) (\<lambda>(n1, d).
     rbind (take_u32 InvalidLength d) (\<lambda>(n2, d).
     rbind (take_u32 InvalidLength d) (\<lambda>(n3, d).
     rbind (take_u32 InvalidLength d) (\<lambda>(_, d).
     rbind (take_u32 InvalidLength d) (\<lambda>(count, d).
     rbind (take_list take_skipped (unat count) d) (\<lambda>(es, _).
       Inr \<lparr>dhs = map_option (secret_from_bytes C) s0, dhr = p1, rk = k0, cks = cs, ckr = cr,
            ns = n1, nr = n2, pn = n3, mkskipped = hm_of_list es, max_skip = ms\<rparr>))))))))))))"

lemma dr_take_opt_put [simp]:
  "(\<And>b. x = Some b \<Longrightarrow> length b = 32) \<Longrightarrow> dr_take_opt (put_opt x @ r) = Inr (x, r)"
  by (cases x) (simp_all add: dr_take_opt_def put_opt_def)

lemma take_skipped_put:
  "length p = 32 \<Longrightarrow> length mk = 32 \<Longrightarrow> take_skipped (put_skipped ((p, n), mk) @ r) = Inr (((p, n), mk), r)"
  by (simp add: take_skipped_def put_skipped_def)

lemma take_skipped_list:
  assumes "skipped_wf ms m"
  shows "take_list take_skipped (length m) (concat (map put_skipped m) @ r) = Inr (m, r)"
  using assms by (intro take_list_app) (auto simp: skipped_wf_def take_skipped_put)

text \<open>Appending anything to a serialized state does not disturb reading it: the decoder stops
  after the last skipped key and never looks at what follows.\<close>

lemma dr_deserialize_serialize:
  assumes "dr_wf C s"
  shows "dr_deserialize C (dr_serialize s @ r) ms = Inr (s\<lparr>max_skip := ms\<rparr>)"
proof -
  have sw: "skipped_wf (max_skip s) (mkskipped s)"
    and o: "\<And>b. dhs s = Some b \<Longrightarrow> length b = 32 \<and> static_secret C b = b"
      "\<And>b. dhr s = Some b \<Longrightarrow> length b = 32 \<and> b \<noteq> zeros32"
      "\<And>b. cks s = Some b \<Longrightarrow> length b = 32" "\<And>b. ckr s = Some b \<Longrightarrow> length b = 32"
      "length (rk s) = 32"
    using assms by (auto simp: dr_wf_def)
  then have cnt: "unat (of_nat (length (mkskipped s)) :: u32) = length (mkskipped s)"
    and ok: "hm_ok (mkskipped s)"
    by (auto simp: skipped_wf_def intro: unat_of_nat_le)
  have sec: "map_option (secret_from_bytes C) (dhs s) = dhs s"
    using o(1) by (cases "dhs s") (auto simp: secret_from_bytes_def)
  have pub: "(case dhr s of None \<Rightarrow> Inr None
      | Some b \<Rightarrow> rbind (public_from_bytes b) (\<lambda>p. Inr (Some p))) = Inr (dhr s)"
    using o(2) by (cases "dhr s") auto
  show ?thesis
    using o by (simp add: dr_deserialize_def dr_serialize_def cnt sec pub take_skipped_list [OF sw] ok)
qed

interpretation drc: codec dr_serialize "\<lambda>d. dr_deserialize C d ms" "\<lambda>s. dr_wf C s \<and> max_skip s = ms"
  for C ms
proof unfold_locales
  fix s assume "dr_wf C s \<and> max_skip s = ms"
  then show "dr_deserialize C (dr_serialize s) ms = Inr s"
    using dr_deserialize_serialize [of C s "[]" ms] by auto
qed

subsection \<open>Runs of operations\<close>

datatype dr_op =
    OpEncrypt bytes bytes
  | OpDecrypt rng header bytes bytes
  | OpSendKey
  | OpRecvKey rng header
  | OpReload

text \<open>One call on a live state; the result is dropped, the state kept whatever the outcome.
  \<open>OpReload\<close> is a serialization followed by a reload under the same limit.\<close>

fun dr_apply :: "crypto \<Rightarrow> dr_op \<Rightarrow> dr_state \<Rightarrow> dr_state" where
  "dr_apply C (OpEncrypt pt ad) s = snd (dr_encrypt C s pt ad)"
| "dr_apply C (OpDecrypt r h ct ad) s = snd (dr_decrypt C r s h ct ad)"
| "dr_apply C OpSendKey s = snd (send_message_key C s)"
| "dr_apply C (OpRecvKey r h) s = snd (receive_message_key C r h s)"
| "dr_apply C OpReload s =
     (case dr_deserialize C (dr_serialize s) (max_skip s) of Inl _ \<Rightarrow> s | Inr s' \<Rightarrow> s')"

fun dr_op_wf :: "dr_op \<Rightarrow> bool" where
  "dr_op_wf (OpDecrypt r h ct ad) = header_wf h"
| "dr_op_wf (OpRecvKey r h) = header_wf h"
| "dr_op_wf _ = True"

lemma dr_apply_wf:
  assumes "lens_ok C" "secret_stable C" "dr_op_wf op" "dr_wf C s"
  shows "dr_wf C (dr_apply C op s)"
proof (cases op)
  case OpReload
  with assms(4) drc.roundtrip [of C s "max_skip s"] show ?thesis by simp
qed (use assms in \<open>simp_all add: dr_encrypt_wf dr_decrypt_wf send_message_key_state
      ratchet_send_key_wf receive_message_key_def ratchet_receive_key_wf\<close>)

lemma dr_run_wf:
  assumes "lens_ok C" "secret_stable C" "list_all dr_op_wf ops" "dr_wf C s"
  shows "dr_wf C (fold (dr_apply C) ops s)"
  using assms(3,4) by (induction ops arbitrary: s) (simp_all add: dr_apply_wf assms(1,2))

lemma ratchet_receive_key_max_skip: "max_skip (snd (ratchet_receive_key C r h s)) = max_skip s"
proof -
  have skip: "max_skip (snd (skip_message_keys C u s)) = max_skip s" for u s
    using skip_message_keys_frame(1) [of C u s] by (metis prod.collapse skip_frame_def)
  have dh: "max_skip (snd (dh_ratchet C r h s)) = max_skip s" for s
    by (auto simp: dh_ratchet_def Let_def sbind_def split: sum.split prod.split)
  have adv: "max_skip (snd (advance_recv C s)) = max_skip s" for s
    by (simp add: advance_recv_def split: option.split sum.split)
  show ?thesis
    unfolding ratchet_receive_key_eq Let_def
    by (auto split: option.split intro!: sbind_keeps [where P = "\<lambda>t. max_skip t = max_skip s"]
        simp: skip dh adv)
qed

lemma dr_apply_max_skip: "dr_wf C s \<Longrightarrow> max_skip (dr_apply C op s) = max_skip s"
proof (cases op)
  case (OpDecrypt r h ct ad)
  moreover assume "dr_wf C s"
  ultimately show ?thesis
    using ratchet_receive_key_max_skip [of C r h s]
    by (auto simp: dr_decrypt_def split: prod.split sum.split)
next
  case OpReload
  moreover assume "dr_wf C s"
  ultimately show ?thesis using drc.roundtrip [of C s "max_skip s"] by simp
qed (simp_all add: dr_encrypt_state send_message_key_state ratchet_send_key_eq receive_message_key_def
      ratchet_receive_key_max_skip split: option.split sum.split)

end
