(* ===== verification/VC_Spqr.thy ===== *)
theory VC_Spqr
  imports VC_Ratchet_Codec VC_Instance
begin

text \<open>
  The sparse post-quantum ratchet (\<^verbatim>\<open>src/ratchet/spqr/mod.rs\<close>): a root key that is mixed with every
  epoch secret, one symmetric chain per epoch and direction, and the keys skipped in recent
  epochs. The source computes \<open>e + self.max_skip_epochs\<close> with overflow checks on, so opening an
  epoch can panic: \<open>q_advance_epoch\<close> returns \<open>None\<close> in exactly that case.
\<close>

definition SPQR_MAX_SKIP_EPOCHS :: u32 where
  "SPQR_MAX_SKIP_EPOCHS = 32"

record epoch_chain =
  c_epoch :: u32
  c_key :: bytes
  c_n :: u32

record spqr_state =
  q_sending :: "epoch_chain option"
  q_receiving :: "epoch_chain option"
  q_root :: bytes
  q_next :: u32
  q_skipped :: "(u32 \<times> u32, bytes) hmap"
  q_max :: u32

definition q_init :: "bytes \<Rightarrow> u32 \<Rightarrow> spqr_state" where
  "q_init sk_pq ms = \<lparr>q_sending = None, q_receiving = None, q_root = sk_pq, q_next = 1, q_skipped = [], q_max = ms\<rparr>"

definition kdf_ck_spqr :: "crypto \<Rightarrow> bytes \<Rightarrow> prim_error + (bytes \<times> bytes)" where
  "kdf_ck_spqr C ck =
     rbind (hkdf_extract_expand C None ck DR_CHAIN 64) (\<lambda>okm. Inr (take 32 okm, take 32 (drop 32 okm)))"

text \<open>\<open>retain\<close> evaluates \<open>e + max_skip_epochs\<close> for every entry.\<close>

definition q_retain_panics :: "spqr_state \<Rightarrow> bool" where
  "q_retain_panics s \<longleftrightarrow> (\<exists>((e, n), mk) \<in> set (q_skipped s). unat e + unat (q_max s) \<ge> 2 ^ 32)"

definition q_advance_epoch :: "crypto \<Rightarrow> spqr_state \<Rightarrow> bytes \<Rightarrow> ((prim_error + u32) \<times> spqr_state) option" where
  "q_advance_epoch C s secret =
     (let epoch = q_next s
      in case checked_inc (q_next s) of
           Inl e \<Rightarrow> Some (Inl e, s)
         | Inr n' \<Rightarrow>
             let s1 = s\<lparr>q_next := n'\<rparr>
             in case hkdf_extract_expand C (Some (q_root s1)) secret SPQR_EPOCH 64 of
                  Inl e \<Rightarrow> Some (Inl e, s1)
                | Inr okm \<Rightarrow>
                    let ch = \<lparr>c_epoch = epoch, c_key = take 32 (drop 32 okm), c_n = 0\<rparr>;
                        s2 = s1\<lparr>q_root := take 32 okm, q_sending := Some ch, q_receiving := Some ch\<rparr>
                    in if q_retain_panics s2 then None
                       else Some (Inr epoch,
                              s2\<lparr>q_skipped := filter (\<lambda>((e, n), mk). e + q_max s2 \<ge> epoch) (q_skipped s2)\<rparr>))"

definition receiving_epoch :: "spqr_state \<Rightarrow> u32 option" where
  "receiving_epoch s = map_option c_epoch (q_receiving s)"

definition q_send_key :: "crypto \<Rightarrow> spqr_state \<Rightarrow> (prim_error + (u32 \<times> u32 \<times> bytes)) \<times> spqr_state" where
  "q_send_key C s =
     sbind (ok_or Internal (q_sending s), s) (\<lambda>ch s.
     sbind (kdf_ck_spqr C (c_key ch), s) (\<lambda>(new_ck, mk) s.
       let ch1 = ch\<lparr>c_key := new_ck\<rparr>; s1 = s\<lparr>q_sending := Some ch1\<rparr>
       in sbind (checked_inc (c_n ch1), s1) (\<lambda>n' s.
            (Inr (c_epoch ch1, c_n ch, mk), s\<lparr>q_sending := Some (ch1\<lparr>c_n := n'\<rparr>)\<rparr>))))"

definition saturating_mul :: "'a::len word \<Rightarrow> 'a word \<Rightarrow> 'a word" where
  "saturating_mul a b = (if unat a * unat b < 2 ^ LENGTH('a) then a * b else - 1)"

text \<open>The loop \<open>while chain.n < n\<close>; the state is the receiving chain and the skipped keys.\<close>

function q_skip_loop :: "crypto \<Rightarrow> u32 \<Rightarrow> u32 \<Rightarrow> epoch_chain \<Rightarrow> (u32 \<times> u32, bytes) hmap \<Rightarrow>
    (prim_error + unit) \<times> epoch_chain \<times> (u32 \<times> u32, bytes) hmap" where
  "q_skip_loop C epoch n ch sk =
     (if c_n ch < n then
        case kdf_ck_spqr C (c_key ch) of
          Inl e \<Rightarrow> (Inl e, ch, sk)
        | Inr (new_ck, mk) \<Rightarrow>
            let ch1 = ch\<lparr>c_key := new_ck\<rparr>; sk1 = hm_insert sk (epoch, c_n ch1) mk
            in case checked_inc (c_n ch1) of
                 Inl e \<Rightarrow> (Inl e, ch1, sk1)
               | Inr n' \<Rightarrow>
                   let ch2 = ch1\<lparr>c_n := n'\<rparr>
                   in if length sk1 > 256 then (Inl InvalidLength, ch2, sk1)
                      else q_skip_loop C epoch n ch2 sk1
      else (Inr (), ch, sk))"
  by pat_completeness auto
termination
  by (relation "measure (\<lambda>(C, epoch, n, ch, sk). unat n - unat (c_n ch))")
     (auto simp: word_less_nat_alt dest!: checked_inc_unat)

declare q_skip_loop.simps [simp del]

definition q_receive_key :: "crypto \<Rightarrow> spqr_state \<Rightarrow> u32 \<Rightarrow> u32 \<Rightarrow> (prim_error + bytes) \<times> spqr_state" where
  "q_receive_key C s epoch n =
     (case hm_get (q_skipped s) (epoch, n) of
        Some mk \<Rightarrow> (Inr mk, s\<lparr>q_skipped := hm_remove (q_skipped s) (epoch, n)\<rparr>)
      | None \<Rightarrow>
          (case q_receiving s of
             None \<Rightarrow> (Inl Internal, s)
           | Some ch \<Rightarrow>
               if c_epoch ch \<noteq> epoch then (Inl InvalidLength, s)
               else if n < c_n ch then (Inl InvalidLength, s)
               else if saturating_sub n (c_n ch) > saturating_mul (q_max s) 64 then (Inl InvalidLength, s)
               else
                 case q_skip_loop C epoch n ch (q_skipped s) of
                   (Inl e, ch1, sk1) \<Rightarrow> (Inl e, s\<lparr>q_receiving := Some ch1, q_skipped := sk1\<rparr>)
                 | (Inr _, ch1, sk1) \<Rightarrow>
                     let s1 = s\<lparr>q_receiving := Some ch1, q_skipped := sk1\<rparr>
                     in case kdf_ck_spqr C (c_key ch1) of
                          Inl e \<Rightarrow> (Inl e, s1)
                        | Inr (new_ck, mk) \<Rightarrow>
                            let ch2 = ch1\<lparr>c_key := new_ck\<rparr>; s2 = s1\<lparr>q_receiving := Some ch2\<rparr>
                            in case checked_inc (c_n ch2) of
                                 Inl e \<Rightarrow> (Inl e, s2)
                               | Inr n' \<Rightarrow> (Inr mk, s2\<lparr>q_receiving := Some (ch2\<lparr>c_n := n'\<rparr>)\<rparr>)))"

definition q_clone_for_trial :: "spqr_state \<Rightarrow> spqr_state" where
  "q_clone_for_trial s = \<lparr>q_sending = q_sending s, q_receiving = q_receiving s, q_root = q_root s,
     q_next = q_next s, q_skipped = q_skipped s, q_max = q_max s\<rparr>"

definition simulate_scka_step :: "crypto \<Rightarrow> rng \<Rightarrow> spqr_state \<Rightarrow> ((prim_error + bytes) \<times> spqr_state) option" where
  "simulate_scka_step C r s =
     (let ss = fst (fill_random 32 r)
      in map_option (\<lambda>(res, s1). (rbind res (\<lambda>_. Inr ss), s1)) (q_advance_epoch C s ss))"

subsection \<open>Persistence\<close>

definition write_chain :: "epoch_chain option \<Rightarrow> bytes" where
  "write_chain ch = (case ch of None \<Rightarrow> [0]
     | Some c \<Rightarrow> 1 # le_bytes 4 (c_epoch c) @ c_key c @ le_bytes 4 (c_n c))"

definition read_chain :: "bytes \<Rightarrow> prim_error + epoch_chain option \<times> bytes" where
  "read_chain d =
     rbind (take_u8 InvalidLength d) (\<lambda>(tag, d).
       if tag = 0 then Inr (None, d)
       else if tag \<noteq> 1 then Inl InvalidLength
       else rbind (take_u32 InvalidLength d) (\<lambda>(e, d).
            rbind (take_n InvalidLength 32 d) (\<lambda>(k, d).
            rbind (take_u32 InvalidLength d) (\<lambda>(n, d).
              Inr (Some \<lparr>c_epoch = e, c_key = k, c_n = n\<rparr>, d)))))"

definition put_q_skipped :: "(u32 \<times> u32) \<times> bytes \<Rightarrow> bytes" where
  "put_q_skipped x = (case x of ((e, n), mk) \<Rightarrow> le_bytes 4 e @ le_bytes 4 n @ mk)"

definition take_q_skipped :: "bytes \<Rightarrow> prim_error + ((u32 \<times> u32) \<times> bytes) \<times> bytes" where
  "take_q_skipped d =
     rbind (take_u32 InvalidLength d) (\<lambda>(e, d).
     rbind (take_u32 InvalidLength d) (\<lambda>(n, d).
     rbind (take_n InvalidLength 32 d) (\<lambda>(mk, d). Inr (((e, n), mk), d))))"

definition q_serialize :: "spqr_state \<Rightarrow> bytes" where
  "q_serialize s =
     q_root s @ le_bytes 4 (q_next s) @ le_bytes 4 (q_max s) @ write_chain (q_sending s) @
     write_chain (q_receiving s) @ le_bytes 4 (of_nat (length (q_skipped s)) :: u32) @
     concat (map put_q_skipped (q_skipped s))"

definition q_deserialize :: "bytes \<Rightarrow> prim_error + spqr_state" where
  "q_deserialize data =
     (if length data < 40 then Inl InvalidLength else
     rbind (take_n InvalidLength 32 data) (\<lambda>(root, d).
     rbind (take_u32 InvalidLength d) (\<lambda>(nx, d).
     rbind (take_u32 InvalidLength d) (\<lambda>(ms, d).
     rbind (read_chain d) (\<lambda>(snd1, d).
     rbind (read_chain d) (\<lambda>(rcv, d).
     rbind (take_u32 InvalidLength d) (\<lambda>(count, d).
     rbind (take_list take_q_skipped (unat count) d) (\<lambda>(es, d).
       if d \<noteq> [] then Inl InvalidLength
       else Inr \<lparr>q_sending = snd1, q_receiving = rcv, q_root = root, q_next = nx,
                 q_skipped = hm_of_list es, q_max = ms\<rparr>))))))))"

subsection \<open>The key stream of an epoch\<close>

fun q_chain :: "crypto \<Rightarrow> bytes \<Rightarrow> nat \<Rightarrow> bytes" where
  "q_chain C ck 0 = ck"
| "q_chain C ck (Suc i) = (case kdf_ck_spqr C (q_chain C ck i) of Inr (ck', _) \<Rightarrow> ck' | Inl _ \<Rightarrow> [])"

definition q_key :: "crypto \<Rightarrow> bytes \<Rightarrow> nat \<Rightarrow> bytes" where
  "q_key C ck i = (case kdf_ck_spqr C (q_chain C ck i) of Inr (_, mk) \<Rightarrow> mk | Inl _ \<Rightarrow> [])"

lemma kdf_ck_spqr_ok:
  assumes "lens_ok C"
  obtains ck' mk where "kdf_ck_spqr C ck = Inr (ck', mk)" "length ck' = 32" "length mk = 32"
proof -
  obtain okm where "hkdf_extract_expand C None ck DR_CHAIN 64 = Inr okm" "length okm = 64"
    using hkdf_ok [OF assms, of 64 None ck DR_CHAIN] by auto
  then show thesis using that by (simp add: kdf_ck_spqr_def)
qed

lemma kdf_q_chain:
  assumes "lens_ok C"
  shows "kdf_ck_spqr C (q_chain C ck i) = Inr (q_chain C ck (Suc i), q_key C ck i)"
  by (rule kdf_ck_spqr_ok [OF assms, of "q_chain C ck i"]) (simp add: q_key_def)

lemma q_key_len: "lens_ok C \<Longrightarrow> length (q_key C ck i) = 32"
  by (rule kdf_ck_spqr_ok [of C "q_chain C ck i"]) (simp_all add: q_key_def)

lemma q_chain_len: "lens_ok C \<Longrightarrow> length ck = 32 \<Longrightarrow> length (q_chain C ck i) = 32"
proof (cases i)
  case (Suc j)
  assume "lens_ok C"
  then show ?thesis unfolding Suc by (rule kdf_ck_spqr_ok [of C "q_chain C ck j"]) simp
qed simp

text \<open>The receiver in epoch \<open>ep\<close> with base key \<open>ck\<close> has passed position \<open>i\<close>, and of the positions
  before it exactly those not in \<open>used\<close> are still stored.\<close>

definition q_recv_at :: "crypto \<Rightarrow> u32 \<Rightarrow> bytes \<Rightarrow> nat \<Rightarrow> u32 set \<Rightarrow> spqr_state \<Rightarrow> bool" where
  "q_recv_at C ep ck i used s \<longleftrightarrow>
     (\<exists>n. unat n = i \<and> q_receiving s = Some \<lparr>c_epoch = ep, c_key = q_chain C ck i, c_n = n\<rparr> \<and>
        (\<forall>u \<in> used. u < n) \<and>
        (\<forall>j. hm_get (q_skipped s) (ep, j) = (if j < n \<and> j \<notin> used then Some (q_key C ck (unat j)) else None)))"

lemma q_skip_loop_run:
  assumes "lens_ok C" "unat n0 \<le> unat n" "length sk + (unat n - unat n0) \<le> 256"
    and "\<forall>j. n0 \<le> j \<longrightarrow> hm_get sk (ep, j) = None"
  shows "\<exists>sk'. q_skip_loop C ep n \<lparr>c_epoch = ep, c_key = q_chain C ck (unat n0), c_n = n0\<rparr> sk =
      (Inr (), \<lparr>c_epoch = ep, c_key = q_chain C ck (unat n), c_n = n\<rparr>, sk') \<and>
    length sk' = length sk + (unat n - unat n0) \<and> (hm_ok sk \<longrightarrow> hm_ok sk') \<and>
    (\<forall>e j. hm_get sk' (e, j) = (if e = ep \<and> n0 \<le> j \<and> j < n then Some (q_key C ck (unat j)) else hm_get sk (e, j)))"
  using assms(2-)
proof (induction "unat n - unat n0" arbitrary: n0 sk)
  case 0
  then have "n0 = n" by (simp add: word_unat_eq_iff)
  then show ?case by (auto simp: q_skip_loop.simps)
next
  case (Suc d)
  then have lt: "n0 < n" by (simp add: word_less_nat_alt)
  have u1: "unat (n0 + 1) = Suc (unat n0)"
    using Suc(2) unat_u32_bound [of n] by (simp add: unat_word_ariths)
  then have inc: "checked_inc n0 = Inr (n0 + 1)" using unat_u32_bound [of "n0 + 1"] by (simp add: checked_inc_iff)
  let ?sk = "hm_insert sk (ep, n0) (q_key C ck (unat n0))"
  have room: "length sk \<le> 255" using Suc(2,4) by linarith
  have len: "length ?sk = Suc (length sk)" using Suc(5) by (simp add: length_hm_insert)
  have le1: "n0 + 1 \<le> j \<longleftrightarrow> n0 \<le> j \<and> j \<noteq> n0" for j
    by (auto simp: word_le_nat_alt u1 word_unat_eq_iff)
  have "\<exists>sk'. q_skip_loop C ep n \<lparr>c_epoch = ep, c_key = q_chain C ck (unat (n0 + 1)), c_n = n0 + 1\<rparr> ?sk =
      (Inr (), \<lparr>c_epoch = ep, c_key = q_chain C ck (unat n), c_n = n\<rparr>, sk') \<and>
    length sk' = length ?sk + (unat n - unat (n0 + 1)) \<and> (hm_ok ?sk \<longrightarrow> hm_ok sk') \<and>
    (\<forall>e j. hm_get sk' (e, j) = (if e = ep \<and> n0 + 1 \<le> j \<and> j < n then Some (q_key C ck (unat j)) else hm_get ?sk (e, j)))"
    using Suc(2-5) u1 len by (intro Suc(1)) (auto simp: le1)
  then obtain sk' where sk': "q_skip_loop C ep n \<lparr>c_epoch = ep, c_key = q_chain C ck (Suc (unat n0)), c_n = n0 + 1\<rparr> ?sk =
      (Inr (), \<lparr>c_epoch = ep, c_key = q_chain C ck (unat n), c_n = n\<rparr>, sk')"
    "length sk' = length ?sk + (unat n - unat (n0 + 1))" "hm_ok ?sk \<longrightarrow> hm_ok sk'"
    "\<forall>e j. hm_get sk' (e, j) = (if e = ep \<and> n0 + 1 \<le> j \<and> j < n then Some (q_key C ck (unat j)) else hm_get ?sk (e, j))"
    unfolding u1 by blast
  have "q_skip_loop C ep n \<lparr>c_epoch = ep, c_key = q_chain C ck (unat n0), c_n = n0\<rparr> sk =
      q_skip_loop C ep n \<lparr>c_epoch = ep, c_key = q_chain C ck (Suc (unat n0)), c_n = n0 + 1\<rparr> ?sk"
    using lt len room
    by (subst q_skip_loop.simps) (simp add: kdf_q_chain [OF assms(1)] inc Let_def del: q_chain.simps)
  with sk' u1 len Suc(2) lt show ?case
    by (intro exI [of _ sk']) (auto simp: le1)
qed

lemma q_receive_fresh:
  assumes "lens_ok C" "q_recv_at C ep ck i used s" "i \<le> unat n" "unat n + 1 < 2 ^ 32"
    and "saturating_sub n (of_nat i) \<le> saturating_mul (q_max s) 64"
    and "length (q_skipped s) + (unat n - i) \<le> 256"
  shows "\<exists>s'. q_receive_key C s ep n = (Inr (q_key C ck (unat n)), s') \<and>
    q_recv_at C ep ck (Suc (unat n)) (insert n used) s' \<and> q_max s' = q_max s \<and>
    length (q_skipped s') = length (q_skipped s) + (unat n - i)"
proof -
  from assms(2) obtain n0 where n0: "unat n0 = i" and rc: "q_receiving s = Some \<lparr>c_epoch = ep, c_key = q_chain C ck i, c_n = n0\<rparr>"
    and us: "\<forall>u \<in> used. u < n0"
    and sk: "\<And>j. hm_get (q_skipped s) (ep, j) = (if j < n0 \<and> j \<notin> used then Some (q_key C ck (unat j)) else None)"
    by (auto simp: q_recv_at_def)
  have on: "of_nat i = n0" using n0 by auto
  have none: "\<forall>j. n0 \<le> j \<longrightarrow> hm_get (q_skipped s) (ep, j) = None" by (auto simp: sk)
  have le: "n0 \<le> n" using assms(3) n0 by (simp add: word_le_nat_alt)
  obtain sk' where lp: "q_skip_loop C ep n \<lparr>c_epoch = ep, c_key = q_chain C ck i, c_n = n0\<rparr> (q_skipped s) =
      (Inr (), \<lparr>c_epoch = ep, c_key = q_chain C ck (unat n), c_n = n\<rparr>, sk')"
    and l: "length sk' = length (q_skipped s) + (unat n - i)"
    and g: "\<And>e j. hm_get sk' (e, j) = (if e = ep \<and> n0 \<le> j \<and> j < n then Some (q_key C ck (unat j)) else hm_get (q_skipped s) (e, j))"
    using q_skip_loop_run [OF assms(1), of n0 n "q_skipped s" ep ck, unfolded n0, OF assms(3,6)] none by blast
  have inc: "checked_inc n = Inr (n + 1)" "unat (n + 1) = Suc (unat n)"
    using assms(4) by (simp_all add: checked_inc_iff unat_word_ariths)
  let ?s' = "s\<lparr>q_receiving := Some \<lparr>c_epoch = ep, c_key = q_chain C ck (Suc (unat n)), c_n = n + 1\<rparr>, q_skipped := sk'\<rparr>"
  have lt1: "j < n + 1 \<longleftrightarrow> j < n \<or> j = n" for j
    by (auto simp: word_less_nat_alt inc(2) less_Suc_eq word_unat_eq_iff)
  have "q_receive_key C s ep n = (Inr (q_key C ck (unat n)), ?s')"
    using assms(5) le none
    by (simp add: q_receive_key_def rc lp on inc kdf_q_chain [OF assms(1)] Let_def not_less del: q_chain.simps)
  moreover have "q_recv_at C ep ck (Suc (unat n)) (insert n used) ?s'"
    unfolding q_recv_at_def using us le
    by (intro exI [of _ "n + 1"]) (auto simp: inc(2) lt1 g sk simp del: q_chain.simps)
  ultimately show ?thesis using l by auto
qed

lemma q_receive_stored:
  assumes "q_recv_at C ep ck i used s" "unat n < i" "n \<notin> used"
  shows "q_receive_key C s ep n = (Inr (q_key C ck (unat n)), s\<lparr>q_skipped := hm_remove (q_skipped s) (ep, n)\<rparr>)"
    and "q_recv_at C ep ck i (insert n used) (s\<lparr>q_skipped := hm_remove (q_skipped s) (ep, n)\<rparr>)"
  using assms by (auto simp: q_recv_at_def q_receive_key_def word_less_nat_alt)

lemma q_receive_used:
  assumes "q_recv_at C ep ck i used s" "n \<in> used"
  shows "q_receive_key C s ep n = (Inl InvalidLength, s)"
  using assms by (auto simp: q_recv_at_def q_receive_key_def)

text \<open>The loop on any exit: it stops at some position \<open>m\<close>, with all keys up to \<open>m\<close> stored.\<close>

lemma q_skip_loop_any:
  assumes "lens_ok C" "n0 \<le> n" "\<forall>j. n0 \<le> j \<longrightarrow> hm_get sk (ep, j) = None"
  shows "\<exists>res m sk'. q_skip_loop C ep n \<lparr>c_epoch = ep, c_key = q_chain C ck (unat n0), c_n = n0\<rparr> sk =
      (res, \<lparr>c_epoch = ep, c_key = q_chain C ck (unat m), c_n = m\<rparr>, sk') \<and> n0 \<le> m \<and>
    (res = Inr () \<longrightarrow> m = n) \<and>
    (\<forall>j. hm_get sk' (ep, j) = (if n0 \<le> j \<and> j < m then Some (q_key C ck (unat j)) else hm_get sk (ep, j)))"
  using assms(2-)
proof (induction "unat n - unat n0" arbitrary: n0 sk)
  case 0
  then have "n0 = n" by (simp add: word_unat_eq_iff word_le_nat_alt)
  then show ?case by (auto simp: q_skip_loop.simps)
next
  case (Suc d)
  then have lt: "n0 < n" by (simp add: word_less_nat_alt)
  have u1: "unat (n0 + 1) = Suc (unat n0)"
    using Suc(2) unat_u32_bound [of n] by (simp add: unat_word_ariths)
  then have inc: "checked_inc n0 = Inr (n0 + 1)" using unat_u32_bound [of "n0 + 1"] by (simp add: checked_inc_iff)
  have le1: "n0 + 1 \<le> j \<longleftrightarrow> n0 \<le> j \<and> j \<noteq> n0" and lt1: "j < n0 + 1 \<longleftrightarrow> j < n0 \<or> j = n0" for j
    by (auto simp: word_le_nat_alt word_less_nat_alt u1 word_unat_eq_iff)
  let ?ch = "\<lparr>c_epoch = ep, c_key = q_chain C ck (unat (n0 + 1)), c_n = n0 + 1\<rparr>"
  let ?sk = "hm_insert sk (ep, n0) (q_key C ck (unat n0))"
  have step: "q_skip_loop C ep n \<lparr>c_epoch = ep, c_key = q_chain C ck (unat n0), c_n = n0\<rparr> sk =
      (if length ?sk > 256 then (Inl InvalidLength, ?ch, ?sk) else q_skip_loop C ep n ?ch ?sk)"
    using lt by (subst q_skip_loop.simps) (simp add: kdf_q_chain [OF assms(1)] inc u1 Let_def del: q_chain.simps)
  have g: "hm_get ?sk (ep, j) = (if n0 \<le> j \<and> j < n0 + 1 then Some (q_key C ck (unat j)) else hm_get sk (ep, j))" for j
    by (auto simp: lt1)
  have "\<exists>res m sk'. q_skip_loop C ep n ?ch ?sk = (res, \<lparr>c_epoch = ep, c_key = q_chain C ck (unat m), c_n = m\<rparr>, sk') \<and>
      n0 + 1 \<le> m \<and> (res = Inr () \<longrightarrow> m = n) \<and>
      (\<forall>j. hm_get sk' (ep, j) = (if n0 + 1 \<le> j \<and> j < m then Some (q_key C ck (unat j)) else hm_get ?sk (ep, j)))"
    using Suc(2-4) lt by (intro Suc(1)) (auto simp: u1 le1 word_le_nat_alt word_less_nat_alt)
  then obtain res m sk' where m: "q_skip_loop C ep n ?ch ?sk = (res, \<lparr>c_epoch = ep, c_key = q_chain C ck (unat m), c_n = m\<rparr>, sk')"
      "n0 + 1 \<le> m" "res = Inr () \<longrightarrow> m = n"
      "\<forall>j. hm_get sk' (ep, j) = (if n0 + 1 \<le> j \<and> j < m then Some (q_key C ck (unat j)) else hm_get ?sk (ep, j))"
    by blast
  show ?case
  proof (cases "length ?sk > 256")
    case True
    moreover have "n0 \<le> n0 + 1" by (simp add: word_le_nat_alt u1)
    ultimately show ?thesis unfolding step using g
      by (intro exI [of _ "Inl InvalidLength"] exI [of _ "n0 + 1"] exI [of _ ?sk]) (simp add: le1 del: q_chain.simps hm_get_insert)
  next
    case False
    then show ?thesis unfolding step using m(1-3)
      by (intro exI [of _ res] exI [of _ m] exI [of _ sk'])
         (use m(4) in \<open>auto simp: le1 lt1 not_less simp del: q_chain.simps\<close>)
  qed
qed

lemma q_receive_any:
  assumes "lens_ok C" "q_recv_at C ep ck i used s" "unat n + 1 < 2 ^ 32" "q_receive_key C s ep n = (res, s')"
  shows "\<exists>i'. q_recv_at C ep ck i' (case res of Inr _ \<Rightarrow> insert n used | Inl _ \<Rightarrow> used) s' \<and>
    (\<forall>k. res = Inr k \<longrightarrow> k = q_key C ck (unat n) \<and> n \<notin> used)"
proof (cases "unat n < i")
  case True
  show ?thesis
  proof (cases "n \<in> used")
    case True
    with q_receive_used [OF assms(2)] assms(2,4) show ?thesis by auto
  next
    case False
    with q_receive_stored [OF assms(2) True False] assms(4) show ?thesis by auto
  qed
next
  case False
  from assms(2) obtain n0 where n0: "unat n0 = i" and rc: "q_receiving s = Some \<lparr>c_epoch = ep, c_key = q_chain C ck i, c_n = n0\<rparr>"
    and us: "\<forall>u \<in> used. u < n0"
    and sk: "\<And>j. hm_get (q_skipped s) (ep, j) = (if j < n0 \<and> j \<notin> used then Some (q_key C ck (unat j)) else None)"
    by (auto simp: q_recv_at_def)
  have le: "n0 \<le> n" using False n0 by (simp add: word_le_nat_alt)
  have none: "\<forall>j. n0 \<le> j \<longrightarrow> hm_get (q_skipped s) (ep, j) = None" by (auto simp: sk)
  have nlt: "\<not> n < n0" using le by simp
  have nu: "n \<notin> used" using us le by force
  obtain lres m sk' where lp: "q_skip_loop C ep n \<lparr>c_epoch = ep, c_key = q_chain C ck i, c_n = n0\<rparr> (q_skipped s) =
      (lres, \<lparr>c_epoch = ep, c_key = q_chain C ck (unat m), c_n = m\<rparr>, sk')" "n0 \<le> m" "lres = Inr () \<Longrightarrow> m = n"
    and g: "\<And>j. hm_get sk' (ep, j) = (if n0 \<le> j \<and> j < m then Some (q_key C ck (unat j)) else hm_get (q_skipped s) (ep, j))"
    using q_skip_loop_any [OF assms(1) le none] unfolding n0 by blast
  have inc: "checked_inc n = Inr (n + 1)" "unat (n + 1) = Suc (unat n)"
    using assms(3) by (simp_all add: checked_inc_iff unat_word_ariths)
  have lt1: "j < n + 1 \<longleftrightarrow> j < n \<or> j = n" for j
    by (auto simp: word_less_nat_alt inc(2) less_Suc_eq word_unat_eq_iff)
  show ?thesis
  proof (cases "saturating_sub n n0 > saturating_mul (q_max s) 64")
    case True
    then have "(res, s') = (Inl InvalidLength, s)"
      using assms(4) le none nlt by (simp add: q_receive_key_def rc)
    then show ?thesis using assms(2) by auto
  next
    case near: False
    show ?thesis
    proof (cases lres)
      case (Inl e)
      then have "(res, s') = (Inl e, s\<lparr>q_receiving := Some \<lparr>c_epoch = ep, c_key = q_chain C ck (unat m), c_n = m\<rparr>, q_skipped := sk'\<rparr>)"
        using assms(4) le none near lp nlt by (simp add: q_receive_key_def rc)
      moreover have "q_recv_at C ep ck (unat m) used (s\<lparr>q_receiving := Some \<lparr>c_epoch = ep, c_key = q_chain C ck (unat m), c_n = m\<rparr>, q_skipped := sk'\<rparr>)"
        unfolding q_recv_at_def using us lp(2) by (intro exI [of _ m]) (auto simp: g sk)
      ultimately show ?thesis by auto
    next
      case (Inr u)
      then have m: "m = n" using lp(3) by simp
      let ?s' = "s\<lparr>q_receiving := Some \<lparr>c_epoch = ep, c_key = q_chain C ck (Suc (unat n)), c_n = n + 1\<rparr>, q_skipped := sk'\<rparr>"
      have "(res, s') = (Inr (q_key C ck (unat n)), ?s')"
        using assms(4) le none near lp(1) Inr nlt
        by (auto simp: q_receive_key_def rc m inc kdf_q_chain [OF assms(1)] Let_def simp del: q_chain.simps)
      moreover have "q_recv_at C ep ck (Suc (unat n)) (insert n used) ?s'"
        unfolding q_recv_at_def using us le m
        by (intro exI [of _ "n + 1"]) (auto simp: inc(2) lt1 g sk simp del: q_chain.simps)
      ultimately show ?thesis using nu by auto
    qed
  qed
qed

subsection \<open>Streams of sends and requests\<close>

fun q_sends :: "crypto \<Rightarrow> nat \<Rightarrow> spqr_state \<Rightarrow> (prim_error + (u32 \<times> u32 \<times> bytes)) list" where
  "q_sends C 0 s = []"
| "q_sends C (Suc k) s = (case q_send_key C s of (res, s') \<Rightarrow> res # q_sends C k s')"

fun q_requests :: "crypto \<Rightarrow> u32 \<Rightarrow> u32 list \<Rightarrow> spqr_state \<Rightarrow> (prim_error + bytes) list" where
  "q_requests C ep [] s = []"
| "q_requests C ep (n # js) s = (case q_receive_key C s ep n of (res, s') \<Rightarrow> res # q_requests C ep js s')"

lemma length_q_requests [simp]: "length (q_requests C ep js s) = length js"
  by (induction js arbitrary: s) (simp_all split: prod.split)

lemma q_sends_nth:
  assumes "lens_ok C" "q_sending s = Some \<lparr>c_epoch = ep, c_key = q_chain C ck (unat n0), c_n = n0\<rparr>"
    and "unat n0 + k < 2 ^ 32" "i < k"
  shows "q_sends C k s ! i = Inr (ep, n0 + of_nat i, q_key C ck (unat n0 + i))"
  using assms(2-)
proof (induction k arbitrary: s n0 i)
  case (Suc k)
  have inc: "checked_inc n0 = Inr (n0 + 1)" "unat (n0 + 1) = Suc (unat n0)"
    using Suc(3) by (simp_all add: checked_inc_iff unat_word_ariths)
  let ?s' = "s\<lparr>q_sending := Some \<lparr>c_epoch = ep, c_key = q_chain C ck (unat (n0 + 1)), c_n = n0 + 1\<rparr>\<rparr>"
  have st: "q_send_key C s = (Inr (ep, n0, q_key C ck (unat n0)), ?s')"
    using Suc(2) by (simp add: q_send_key_def kdf_q_chain [OF assms(1)] inc Let_def del: q_chain.simps)
  show ?case
  proof (cases i)
    case (Suc j)
    have "q_sends C k ?s' ! j = Inr (ep, n0 + 1 + of_nat j, q_key C ck (unat (n0 + 1) + j))"
      by (rule Suc.IH) (use Suc Suc.prems inc in simp_all)
    then show ?thesis by (simp add: Suc st inc(2) add.assoc add.commute [of "of_nat j"] del: q_chain.simps)
  qed (simp add: st)
qed simp

lemma q_requests_sound:
  assumes "lens_ok C" "q_recv_at C ep ck i used s" "\<forall>n \<in> set js. unat n + 1 < 2 ^ 32"
  shows "\<forall>(n, res) \<in> set (zip js (q_requests C ep js s)). \<forall>k. res = Inr k \<longrightarrow> k = q_key C ck (unat n) \<and> n \<notin> used"
    and "distinct (map fst (filter (\<lambda>x. \<not> isl (snd x)) (zip js (q_requests C ep js s))))"
proof -
  have "(\<forall>(n, res) \<in> set (zip js (q_requests C ep js s)). \<forall>k. res = Inr k \<longrightarrow> k = q_key C ck (unat n) \<and> n \<notin> used) \<and>
    distinct (map fst (filter (\<lambda>x. \<not> isl (snd x)) (zip js (q_requests C ep js s))))"
    using assms(2,3)
  proof (induction js arbitrary: i used s)
    case (Cons n js)
    obtain res s' where q: "q_receive_key C s ep n = (res, s')" by (cases "q_receive_key C s ep n")
    obtain i' where i': "q_recv_at C ep ck i' (case res of Inr _ \<Rightarrow> insert n used | Inl _ \<Rightarrow> used) s'"
      and k: "\<And>k. res = Inr k \<Longrightarrow> k = q_key C ck (unat n) \<and> n \<notin> used"
      using q_receive_any [OF assms(1) Cons(2) _ q] Cons(3) by auto
    have IH: "(\<forall>(n', r') \<in> set (zip js (q_requests C ep js s')). \<forall>k. r' = Inr k \<longrightarrow>
        k = q_key C ck (unat n') \<and> n' \<notin> (case res of Inr _ \<Rightarrow> insert n used | Inl _ \<Rightarrow> used))"
      and d: "distinct (map fst (filter (\<lambda>x. \<not> isl (snd x)) (zip js (q_requests C ep js s'))))"
      using Cons.IH [OF i'] Cons(3) by auto
    show ?case
    proof (cases res)
      case (Inl e)
      then show ?thesis using IH d k by (simp add: q)
    next
      case (Inr key)
      have "n \<notin> fst ` set (filter (\<lambda>x. \<not> isl (snd x)) (zip js (q_requests C ep js s')))"
      proof
        assume "n \<in> fst ` set (filter (\<lambda>x. \<not> isl (snd x)) (zip js (q_requests C ep js s')))"
        then obtain r' where "(n, r') \<in> set (zip js (q_requests C ep js s'))" "\<not> isl r'" by auto
        with IH Inr show False by (cases r') auto
      qed
      with Inr IH d k show ?thesis by (auto simp: q)
    qed
  qed simp
  then show "\<forall>(n, res) \<in> set (zip js (q_requests C ep js s)). \<forall>k. res = Inr k \<longrightarrow> k = q_key C ck (unat n) \<and> n \<notin> used"
    "distinct (map fst (filter (\<lambda>x. \<not> isl (snd x)) (zip js (q_requests C ep js s))))" by blast+
qed

lemma q_requests_live:
  assumes "lens_ok C" "q_recv_at C ep ck i used s" "q_max s = SPQR_MAX_SKIP_EPOCHS"
    and "length (q_skipped s) \<le> L + i" "\<forall>n \<in> set js. L + unat n \<le> 256" "distinct js" "set js \<inter> used = {}"
  shows "list_all (\<lambda>r. \<not> isl r) (q_requests C ep js s)"
  using assms(2-)
proof (induction js arbitrary: i used s)
  case (Cons n js)
  have n: "unat n \<le> 256" "n \<notin> used" using Cons(5,7) by auto
  show ?case
  proof (cases "unat n < i")
    case True
    note st = q_receive_stored [OF Cons(2) True n(2)]
    have "length (hm_remove (q_skipped s) (ep, n)) \<le> L + i"
      using length_hm_remove_le [of "q_skipped s" "(ep, n)"] Cons(4) by linarith
    with st Cons show ?thesis by (auto intro!: Cons.IH [OF st(2)])
  next
    case False
    have sub: "saturating_sub n (of_nat i) \<le> saturating_mul (q_max s) 64"
    proof -
      have "unat (saturating_sub n (of_nat i)) \<le> unat n"
        by (simp add: saturating_sub_def unat_sub_if_size word_le_nat_alt)
      moreover have "saturating_mul (q_max s) 64 = (2048 :: u32)"
        by (simp add: Cons(3) SPQR_MAX_SKIP_EPOCHS_def saturating_mul_def)
      ultimately show ?thesis using n(1) by (simp add: word_le_nat_alt)
    qed
    obtain s' where s': "q_receive_key C s ep n = (Inr (q_key C ck (unat n)), s')"
      "q_recv_at C ep ck (Suc (unat n)) (insert n used) s'" "q_max s' = q_max s"
      "length (q_skipped s') = length (q_skipped s) + (unat n - i)"
      using q_receive_fresh [OF assms(1) Cons(2) _ _ sub] False n(1) Cons(4,5) by fastforce
    then show ?thesis using Cons(3-) False by (auto intro!: Cons.IH [OF s'(2)])
  qed
qed simp

definition q_fresh :: "spqr_state \<Rightarrow> bool" where
  "q_fresh s \<longleftrightarrow> (\<forall>((e, n), mk) \<in> set (q_skipped s). e < q_next s)"

lemma q_advance_cases:
  assumes "q_advance_epoch C s secret = Some (Inr ep, s')"
  obtains okm where "ep = q_next s" "hkdf_extract_expand C (Some (q_root s)) secret SPQR_EPOCH 64 = Inr okm"
    "q_sending s' = Some \<lparr>c_epoch = ep, c_key = take 32 (drop 32 okm), c_n = 0\<rparr>"
    "q_receiving s' = Some \<lparr>c_epoch = ep, c_key = take 32 (drop 32 okm), c_n = 0\<rparr>"
    "q_root s' = take 32 okm" "q_next s' = ep + 1" "q_max s' = q_max s"
    "unat ep + 1 < 2 ^ 32" "set (q_skipped s') \<subseteq> set (q_skipped s)" "length (q_skipped s') \<le> length (q_skipped s)"
  using assms that
  by (auto simp: q_advance_epoch_def Let_def checked_inc_iff split: sum.splits if_splits)

lemma q_advance_total:
  assumes "lens_ok C" "unat (q_next s) + 1 < 2 ^ 32" "unat (q_next s) + unat (q_max s) \<le> 2 ^ 32" "q_fresh s"
  shows "\<exists>s'. q_advance_epoch C s secret = Some (Inr (q_next s), s')"
proof -
  obtain okm where "hkdf_extract_expand C (Some (q_root s)) secret SPQR_EPOCH 64 = Inr okm"
    using hkdf_ok [OF assms(1), of 64 "Some (q_root s)" secret SPQR_EPOCH] by auto
  moreover have "checked_inc (q_next s) = Inr (q_next s + 1)" using assms(2) by (simp add: checked_inc_iff)
  moreover have "\<not> q_retain_panics (s\<lparr>q_next := a, q_root := b, q_sending := c, q_receiving := d\<rparr>)" for a b c d
    using assms(3,4) by (fastforce simp: q_retain_panics_def q_fresh_def word_less_nat_alt)
  ultimately show ?thesis by (simp add: q_advance_epoch_def Let_def)
qed

subsection \<open>Properties\<close>

text \<open>Both ends of the post-quantum ratchet derive the same keys. When two states with the same
  root open an epoch with the same shared secret, the sender's successive keys are numbered from
  zero, and the receiver, asked for keys in any order and with any repetition, answers a request
  for number \<open>n\<close> with the sender's key \<open>n\<close> or an error, gives each key at most once, and gives
  every key that is asked for once and lies close enough to the start of the epoch.\<close>

theorem spqr_parties_agree:
  assumes "lens_ok C" "q_root A = q_root B" "q_next A = q_next B" "q_fresh B"
    and "q_advance_epoch C A ss = Some (Inr ep, A')" "q_advance_epoch C B ss = Some (Inr ep', B')"
    and "\<forall>n \<in> set js. unat n < k" "k < 2 ^ 32 - 1"
  shows "ep' = ep \<and>
    (\<forall>(n, res) \<in> set (zip js (q_requests C ep js B')). \<forall>key. res = Inr key \<longrightarrow>
       q_sends C k A' ! unat n = Inr (ep, n, key)) \<and>
    distinct (map fst (filter (\<lambda>x. \<not> isl (snd x)) (zip js (q_requests C ep js B')))) \<and>
    (distinct js \<and> q_max B = SPQR_MAX_SKIP_EPOCHS \<and> (\<forall>n \<in> set js. length (q_skipped B) + unat n \<le> 256) \<longrightarrow>
       list_all (\<lambda>r. \<not> isl r) (q_requests C ep js B'))"
proof -
  obtain okm where A: "ep = q_next A" "hkdf_extract_expand C (Some (q_root A)) ss SPQR_EPOCH 64 = Inr okm"
    "q_sending A' = Some \<lparr>c_epoch = ep, c_key = take 32 (drop 32 okm), c_n = 0\<rparr>"
    using assms(5) by (rule q_advance_cases)
  define ck where "ck = take 32 (drop 32 okm)"
  obtain okm' where B: "ep' = q_next B" "hkdf_extract_expand C (Some (q_root B)) ss SPQR_EPOCH 64 = Inr okm'"
    "q_receiving B' = Some \<lparr>c_epoch = ep', c_key = take 32 (drop 32 okm'), c_n = 0\<rparr>" "q_max B' = q_max B"
    "set (q_skipped B') \<subseteq> set (q_skipped B)" "length (q_skipped B') \<le> length (q_skipped B)"
    using assms(6) by (rule q_advance_cases)
  have eq: "ep' = ep" "okm' = okm" using A B assms(2,3) by auto
  have "hm_get (q_skipped B') (ep, j) = None" for j
    using assms(4) B(1,5) eq(1) hm_get_in_set [of "q_skipped B'" "(ep, j)"]
    by (cases "hm_get (q_skipped B') (ep, j)") (auto simp: q_fresh_def)
  then have at: "q_recv_at C ep ck 0 {} B'"
    using B(3) unfolding q_recv_at_def by (intro exI [of _ 0]) (simp add: eq ck_def)
  have snd: "q_sends C k A' ! unat n = Inr (ep, n, q_key C ck (unat n))" if "n \<in> set js" for n
    using q_sends_nth [OF assms(1), of A' ep ck 0 k "unat n"] A(3) assms(7,8) that by (simp add: ck_def)
  have "\<forall>n \<in> set js. unat n + 1 < 2 ^ 32" using assms(7,8) by auto
  note sound = q_requests_sound [OF assms(1) at this]
  have "list_all (\<lambda>r. \<not> isl r) (q_requests C ep js B')"
    if "distinct js \<and> q_max B = SPQR_MAX_SKIP_EPOCHS \<and> (\<forall>n \<in> set js. length (q_skipped B) + unat n \<le> 256)"
    by (rule q_requests_live [OF assms(1) at, of "length (q_skipped B)"]) (use that B(4,6) in auto)
  with eq snd sound show ?thesis by (fastforce dest: set_zip_leftD)
qed

theorem spqr_parties_agree_witness:
  "\<exists>ep A B. q_advance_epoch plain_crypto (q_init (replicate 32 3) 32) [1] = Some (Inr ep, A) \<and>
     q_advance_epoch plain_crypto (q_init (replicate 32 3) 32) [1] = Some (Inr ep, B) \<and>
     list_all (\<lambda>r. \<not> isl r) (q_requests plain_crypto ep [2, 0, 1] B) \<and>
     distinct (map fst (filter (\<lambda>x. \<not> isl (snd x)) (zip [2, 0, 1 :: u32] (q_requests plain_crypto ep [2, 0, 1] B))))"
proof -
  let ?A = "q_init (replicate 32 3) 32"
  obtain ep A where a: "q_advance_epoch plain_crypto ?A [1] = Some (Inr ep, A)"
    using q_advance_total [OF plain_lens, of ?A "[1]"] by (auto simp: q_init_def q_fresh_def)
  have "q_fresh ?A" by (simp add: q_fresh_def q_init_def)
  from spqr_parties_agree [OF plain_lens refl refl this a a, of "[2, 0, 1]" 5] a show ?thesis
    by (simp add: q_init_def SPQR_MAX_SKIP_EPOCHS_def)
qed

subsection \<open>Persistence of well-formed states\<close>

definition chain_wf :: "epoch_chain option \<Rightarrow> bool" where
  "chain_wf ch \<longleftrightarrow> (\<forall>c. ch = Some c \<longrightarrow> length (c_key c) = 32)"

definition q_wf :: "spqr_state \<Rightarrow> bool" where
  "q_wf s \<longleftrightarrow> length (q_root s) = 32 \<and> chain_wf (q_sending s) \<and> chain_wf (q_receiving s) \<and>
     hm_ok (q_skipped s) \<and> length (q_skipped s) < 2 ^ 32 \<and> (\<forall>(k, mk) \<in> set (q_skipped s). length mk = 32)"

lemma read_chain_write [simp]: "chain_wf ch \<Longrightarrow> read_chain (write_chain ch @ r) = Inr (ch, r)"
  by (cases ch) (auto simp: read_chain_def write_chain_def chain_wf_def)

lemma length_write_chain: "length (write_chain ch) \<ge> 1"
  by (simp add: write_chain_def split: option.split)

lemma take_q_list:
  "\<forall>(k, mk) \<in> set m. length mk = 32 \<Longrightarrow> take_list take_q_skipped (length m) (concat (map put_q_skipped m) @ r) = Inr (m, r)"
  by (rule take_list_app) (auto simp: take_q_skipped_def put_q_skipped_def)

interpretation qc: codec q_serialize q_deserialize q_wf
proof unfold_locales
  fix s assume wf: "q_wf s"
  then show "q_deserialize (q_serialize s) = Inr s"
    using take_q_list [of "q_skipped s" "[]"]
    by (simp add: q_deserialize_def q_serialize_def q_wf_def)
qed

lemma q_advance_wf:
  assumes "lens_ok C" "q_wf s" "q_advance_epoch C s secret = Some (res, s')"
  shows "q_wf s'"
proof -
  have "length okm = 64" if "hkdf_extract_expand C (Some (q_root s)) secret SPQR_EPOCH 64 = Inr okm" for okm
    using hkdf_len [OF assms(1) that] .
  moreover have "hm_ok (filter P (q_skipped s))" "length (filter P (q_skipped s)) < 2 ^ 32" for P
    using assms(2) le_less_trans [OF length_filter_le]
    by (auto simp: q_wf_def hm_ok_def distinct_map_filter)
  ultimately show ?thesis using assms(2,3)
    by (auto simp: q_advance_epoch_def q_wf_def chain_wf_def Let_def split: sum.splits if_splits)
qed

lemma q_send_wf: "lens_ok C \<Longrightarrow> q_wf s \<Longrightarrow> q_wf (snd (q_send_key C s))"
proof (cases "q_sending s")
  case (Some ch)
  assume "lens_ok C" "q_wf s"
  then show ?thesis
    by (rule_tac kdf_ck_spqr_ok [of C "c_key ch"])
       (auto simp: Some q_send_key_def q_wf_def chain_wf_def Let_def sbind_def split: sum.split)
qed (simp add: q_send_key_def)

lemma q_skip_loop_wf:
  assumes "lens_ok C" "hm_ok sk" "\<forall>(k, mk) \<in> set sk. length mk = 32" "length (c_key ch) = 32" "length sk \<le> 256"
    and "q_skip_loop C ep n ch sk = (res, ch', sk')"
  shows "hm_ok sk' \<and> (\<forall>(k, mk) \<in> set sk'. length mk = 32) \<and> length (c_key ch') = 32 \<and>
    length sk' \<le> 257 \<and> (res = Inr () \<longrightarrow> length sk' \<le> 256)"
  using assms
proof (induction C ep n ch sk rule: q_skip_loop.induct)
  case (1 C ep n ch sk)
  obtain ck' mk where k: "kdf_ck_spqr C (c_key ch) = Inr (ck', mk)" "length ck' = 32" "length mk = 32"
    using kdf_ck_spqr_ok [OF 1(2)] by metis
  let ?sk1 = "hm_insert sk (ep, c_n ch) mk"
  have w: "hm_ok ?sk1" "\<forall>(k, mk) \<in> set ?sk1. length mk = 32" "length ?sk1 \<le> 257"
    using 1(3,4,6) k(3) set_hm_insert [of sk "(ep, c_n ch)" mk] by (auto simp: length_hm_insert)
  show ?case
  proof (cases "c_n ch < n")
    case True
    show ?thesis
    proof (cases "checked_inc (c_n ch)")
      case (Inl e)
      then show ?thesis using 1(7) True k w by (subst (asm) q_skip_loop.simps) (auto simp: Let_def)
    next
      case (Inr n')
      show ?thesis
      proof (cases "length ?sk1 > 256")
        case long: True
        then show ?thesis using 1(7) True k w Inr by (subst (asm) q_skip_loop.simps) (auto simp: Let_def)
      next
        case False
        then have "q_skip_loop C ep n (ch\<lparr>c_key := ck', c_n := n'\<rparr>) ?sk1 = (res, ch', sk')"
          using 1(7) True k Inr by (subst (asm) q_skip_loop.simps) (simp add: Let_def)
        then show ?thesis using 1(1) [OF True k(1) refl refl refl, of n'] False 1(2) w k(2) Inr by simp
      qed
    qed
  next
    case False
    then show ?thesis using 1(3-7) by (subst (asm) q_skip_loop.simps) auto
  qed
qed

text \<open>A successful request keeps the state well-formed and within the limit of 256 stored keys.\<close>

lemma q_receive_wf:
  assumes "lens_ok C" "q_wf s" "length (q_skipped s) \<le> 256" "q_receive_key C s ep n = (Inr k, s')"
  shows "q_wf s' \<and> length (q_skipped s') \<le> 256 \<and> length k = 32"
proof (cases "hm_get (q_skipped s) (ep, n)")
  case (Some mk)
  have "length (hm_remove (q_skipped s) (ep, n)) \<le> 256" by (rule order_trans [OF length_hm_remove_le assms(3)])
  with Some show ?thesis
    using assms(2-) hm_get_in_set [OF Some] set_hm_remove [of "q_skipped s" "(ep, n)"]
    by (auto simp: q_receive_key_def q_wf_def)
next
  case None
  then obtain ch res ch1 sk1 where ch: "q_receiving s = Some ch" "q_skip_loop C ep n ch (q_skipped s) = (res, ch1, sk1)"
    using assms(4) by (cases "q_receiving s"; cases "q_skip_loop C ep n (the (q_receiving s)) (q_skipped s)")
      (auto simp: q_receive_key_def)
  obtain ck' mk where kd: "kdf_ck_spqr C (c_key ch1) = Inr (ck', mk)" "length ck' = 32" "length mk = 32"
    using kdf_ck_spqr_ok [OF assms(1)] by metis
  have lp: "hm_ok sk1 \<and> (\<forall>(k, mk) \<in> set sk1. length mk = 32) \<and> (res = Inr () \<longrightarrow> length sk1 \<le> 256)"
    using q_skip_loop_wf [OF assms(1) _ _ _ assms(3) ch(2)] assms(2) ch(1) by (auto simp: q_wf_def chain_wf_def)
  from assms(4) None ch kd lp assms(2) show ?thesis
    by (auto simp: q_receive_key_def q_wf_def chain_wf_def Let_def split: if_splits sum.splits)
qed

end
