(* ===== verification/VC_Triple.thy ===== *)
theory VC_Triple
  imports VC_Braid VC_Spqr VC_Ratchet_Codec
begin

text \<open>
  The Triple Ratchet (\<^verbatim>\<open>src/ratchet/triple/mod.rs\<close>): the classical Double Ratchet and the sparse
  post-quantum ratchet in parallel, their message keys combined by \<open>kdf_hybrid\<close>, with the Braid
  messages in the header. As in the Braid, \<open>None\<close> is a panic (or sampling that does not return).
\<close>

record triple_header =
  th_classical :: header
  th_pq_epoch :: u32
  th_pq_n :: u32
  th_scka :: "braid_message option"

definition th_encode :: "triple_header \<Rightarrow> bytes" where
  "th_encode h =
     header_encode (th_classical h) @ le_bytes 4 (th_pq_epoch h) @ le_bytes 4 (th_pq_n h) @
     (case th_scka h of
        None \<Rightarrow> [0]
      | Some m \<Rightarrow> let blob = bm_encode m in [1] @ le_bytes 2 (of_nat (length blob) :: u16) @ blob)"

definition th_decode :: "bytes \<Rightarrow> prim_error + triple_header" where
  "th_decode data =
     (if length data < 48 then Inl InvalidLength
      else rbind (header_decode (take 40 data)) (\<lambda>classical.
        let pq_epoch = from_le (take 4 (drop 40 data)); pq_n = from_le (take 4 (drop 44 data))
        in rbind (if length data = 48 then Inr None
                  else if length data \<ge> 49 \<and> data ! 48 = 0 then
                    if length data \<noteq> 49 then Inl InvalidLength else Inr None
                  else if length data \<ge> 51 \<and> data ! 48 = 1 then
                    let n = unat (from_le (take 2 (drop 49 data)) :: u16)
                    in if length data \<noteq> 51 + n then Inl InvalidLength
                       else rbind (bm_decode (drop 51 data)) (\<lambda>m. Inr (Some m))
                  else Inl InvalidLength) (\<lambda>scka.
           Inr \<lparr>th_classical = classical, th_pq_epoch = pq_epoch, th_pq_n = pq_n, th_scka = scka\<rparr>)))"

record triple =
  t_classical :: dr_state
  t_spqr :: spqr_state
  t_braid :: braid

definition split_sk :: "crypto \<Rightarrow> bytes \<Rightarrow> prim_error + (bytes \<times> bytes)" where
  "split_sk C sk =
     rbind (hkdf_extract_expand C None sk TRIPLE_HYBRID 64) (\<lambda>okm. Inr (take 32 okm, drop 32 okm))"

definition triple_init_alice :: "crypto \<Rightarrow> rng \<Rightarrow> bytes \<Rightarrow> bytes \<Rightarrow> (prim_error + triple) option" where
  "triple_init_alice C r sk bob_dh_public =
     (case split_sk C sk of
        Inl e \<Rightarrow> Some (Inl e)
      | Inr (sk_ec, sk_pq) \<Rightarrow>
          (case fst (init_alice C r sk_ec bob_dh_public DEFAULT_MAX_SKIP) of
             Inl e \<Rightarrow> Some (Inl e)
           | Inr classical \<Rightarrow>
               (case q_advance_epoch C (q_init sk_pq SPQR_MAX_SKIP_EPOCHS) sk_pq of
                  None \<Rightarrow> None
                | Some (Inl e, _) \<Rightarrow> Some (Inl e)
                | Some (Inr _, spqr) \<Rightarrow>
                    Some (rbind (braid_init_alice C sk_pq) (\<lambda>b.
                      Inr \<lparr>t_classical = classical, t_spqr = spqr, t_braid = b\<rparr>)))))"

definition triple_init_bob :: "crypto \<Rightarrow> bytes \<Rightarrow> bytes \<Rightarrow> (prim_error + triple) option" where
  "triple_init_bob C sk bob_dh_keypair =
     (case split_sk C sk of
        Inl e \<Rightarrow> Some (Inl e)
      | Inr (sk_ec, sk_pq) \<Rightarrow>
          let classical = init_bob sk_ec bob_dh_keypair DEFAULT_MAX_SKIP
          in case q_advance_epoch C (q_init sk_pq SPQR_MAX_SKIP_EPOCHS) sk_pq of
               None \<Rightarrow> None
             | Some (Inl e, _) \<Rightarrow> Some (Inl e)
             | Some (Inr _, spqr) \<Rightarrow>
                 Some (rbind (braid_init_bob C sk_pq) (\<lambda>b.
                   Inr \<lparr>t_classical = classical, t_spqr = spqr, t_braid = b\<rparr>)))"

definition kdf_hybrid :: "crypto \<Rightarrow> bytes \<Rightarrow> bytes \<Rightarrow> prim_error + bytes" where
  "kdf_hybrid C classical_mk pq_mk = hkdf_extract_expand C (Some pq_mk) classical_mk TRIPLE_HYBRID 32"

definition aead_from_hybrid :: "crypto \<Rightarrow> bytes \<Rightarrow> prim_error + (bytes \<times> bytes)" where
  "aead_from_hybrid C mk =
     rbind (hkdf_extract_expand C (Some zeros32) mk DR_MESSAGE 44) (\<lambda>okm. Inr (take 32 okm, drop 32 okm))"

definition concat_triple_ad :: "bytes \<Rightarrow> triple_header \<Rightarrow> bytes" where
  "concat_triple_ad ad h = le_bytes 8 (of_nat (length ad) :: u64) @ ad @ th_encode h"

text \<open>The calls on the three parts, each with the state it leaves in the whole.\<close>

definition on_spqr :: "triple \<Rightarrow> (('e + 'a) \<times> spqr_state) option \<Rightarrow> (('e + 'a) \<times> triple) option" where
  "on_spqr t m = map_option (\<lambda>(res, q). (res, t\<lparr>t_spqr := q\<rparr>)) m"

definition on_braid :: "triple \<Rightarrow> (('e + 'a) \<times> braid) option \<Rightarrow> (('e + 'a) \<times> triple) option" where
  "on_braid t m = map_option (\<lambda>(res, b). (res, t\<lparr>t_braid := b\<rparr>)) m"

definition on_classical :: "triple \<Rightarrow> ('e + 'a) \<times> dr_state \<Rightarrow> (('e + 'a) \<times> triple) option" where
  "on_classical t m = (case m of (res, c) \<Rightarrow> Some (res, t\<lparr>t_classical := c\<rparr>))"

definition triple_encrypt :: "crypto \<Rightarrow> rng \<Rightarrow> triple \<Rightarrow> bytes \<Rightarrow> bytes \<Rightarrow>
    ((prim_error + (triple_header \<times> bytes)) \<times> triple) option" where
  "triple_encrypt C r t plaintext ad =
     pbind (on_braid t (braid_send C r (t_braid t))) (\<lambda>(scka_msg, _, new_ss) t.
     pbind (case new_ss of
              Some out \<Rightarrow> pbind (on_spqr t (q_advance_epoch C (t_spqr t) (so_key out))) (\<lambda>_ t. Some (Inr (), t))
            | None \<Rightarrow> Some (Inr (), t)) (\<lambda>_ t.
     pbind (on_classical t (send_message_key C (t_classical t))) (\<lambda>(classical_header, ec_mk) t.
     pbind (on_spqr t (Some (q_send_key C (t_spqr t)))) (\<lambda>(pq_epoch, pq_n, pq_mk) t.
     pbind (Some (kdf_hybrid C ec_mk pq_mk, t)) (\<lambda>hybrid_mk t.
       let header = \<lparr>th_classical = classical_header, th_pq_epoch = pq_epoch, th_pq_n = pq_n, th_scka = Some scka_msg\<rparr>;
           associated = concat_triple_ad ad header
       in pbind (Some (aead_from_hybrid C hybrid_mk, t)) (\<lambda>(key, nonce) t.
          pbind (Some (aead_seal C key nonce plaintext associated, t)) (\<lambda>ct t.
            Some (Inr (header, ct), t))))))))"

text \<open>The trial copies; the pending secret is returned with the key.\<close>

definition trial_clone :: "crypto \<Rightarrow> triple \<Rightarrow> triple" where
  "trial_clone C t = \<lparr>t_classical = clone_for_trial C (t_classical t), t_spqr = q_clone_for_trial (t_spqr t), t_braid = t_braid t\<rparr>"

definition trial_scka :: "crypto \<Rightarrow> triple \<Rightarrow> triple_header \<Rightarrow> ((prim_error + bytes option) \<times> triple) option" where
  "trial_scka C t h =
     (case th_scka h of
        None \<Rightarrow> Some (Inr None, t)
      | Some msg \<Rightarrow>
          pbind (on_braid t (braid_receive C (t_braid t) msg)) (\<lambda>(_, out) t.
            case out of
              None \<Rightarrow> Some (Inr None, t)
            | Some x \<Rightarrow>
                if receiving_epoch (t_spqr t) \<noteq> Some (th_pq_epoch h)
                then pbind (on_spqr t (q_advance_epoch C (t_spqr t) (so_key x))) (\<lambda>_ t. Some (Inr None, t))
                else Some (Inr (Some (so_key x)), t)))"

definition trial_decrypt :: "crypto \<Rightarrow> rng \<Rightarrow> triple \<Rightarrow> triple_header \<Rightarrow> bytes \<Rightarrow> bytes \<Rightarrow> ((prim_error + bytes) \<times> triple) option" where
  "trial_decrypt C r t h ciphertext ad =
     pbind (trial_scka C t h) (\<lambda>pending t.
     pbind (on_classical t (receive_message_key C r (th_classical h) (t_classical t))) (\<lambda>ec_mk t.
     pbind (on_spqr t (Some (q_receive_key C (t_spqr t) (th_pq_epoch h) (th_pq_n h)))) (\<lambda>pq_mk t.
     pbind (Some (kdf_hybrid C ec_mk pq_mk, t)) (\<lambda>hybrid_mk t.
     pbind (Some (aead_from_hybrid C hybrid_mk, t)) (\<lambda>(key, nonce) t.
     pbind (Some (aead_open C key nonce ciphertext (concat_triple_ad ad h), t)) (\<lambda>plaintext t.
     pbind (case pending of
              Some k \<Rightarrow> pbind (on_spqr t (q_advance_epoch C (t_spqr t) k)) (\<lambda>_ t. Some (Inr (), t))
            | None \<Rightarrow> Some (Inr (), t)) (\<lambda>_ t.
       Some (Inr plaintext, t))))))))"

definition triple_decrypt :: "crypto \<Rightarrow> rng \<Rightarrow> triple \<Rightarrow> triple_header \<Rightarrow> bytes \<Rightarrow> bytes \<Rightarrow> ((prim_error + bytes) \<times> triple) option" where
  "triple_decrypt C r t h ciphertext ad =
     (case trial_decrypt C r (trial_clone C t) h ciphertext ad of
        None \<Rightarrow> None
      | Some (Inl e, _) \<Rightarrow> Some (Inl e, t)
      | Some (Inr plaintext, trial) \<Rightarrow> Some (Inr plaintext, trial))"

definition last_header_len :: "triple_header \<Rightarrow> nat" where
  "last_header_len h = length (th_encode h)"

definition triple_clone_for_trial :: "crypto \<Rightarrow> triple \<Rightarrow> triple" where
  "triple_clone_for_trial C t = trial_clone C t"

definition triple_serialize :: "triple \<Rightarrow> bytes" where
  "triple_serialize t =
     put_vec (dr_serialize (t_classical t)) @ put_vec (q_serialize (t_spqr t)) @ put_vec (braid_serialize (t_braid t))"

definition triple_deserialize :: "crypto \<Rightarrow> bytes \<Rightarrow> u32 \<Rightarrow> prim_error + triple" where
  "triple_deserialize C data ms =
     rbind (take_vec InvalidLength data) (\<lambda>(cb, d).
     rbind (dr_deserialize C cb ms) (\<lambda>classical.
     rbind (take_vec InvalidLength d) (\<lambda>(sb, d).
     rbind (q_deserialize sb) (\<lambda>spqr.
     rbind (take_vec InvalidLength d) (\<lambda>(kb, d).
     rbind (braid_deserialize kb) (\<lambda>b.
       if d \<noteq> [] then Inl InvalidLength
       else Inr \<lparr>t_classical = classical, t_spqr = spqr, t_braid = b\<rparr>))))))"

end
