(* ===== verification/VC_GF.thy ===== *)
theory VC_GF
  imports VC_Rs
begin

text \<open>
  The arithmetic of \<^verbatim>\<open>src/ratchet/braid/rs.rs\<close> is a field. \<open>xt\<close> is multiplication by the
  polynomial \<open>x\<close>, every element is a sum of powers of \<open>x\<close> (\<open>gsum_one\<close>), which reduces the ring
  laws to linearity; \<open>x\<close> has order 65535 (checked at the maximal proper divisors), so its powers
  are all non-zero elements and \<open>a ^ 65534\<close> inverts \<open>a\<close>. The type \<open>gf\<close> carries the
  library's class of fields for the interpolation argument of the erasure code.
\<close>

subsection \<open>Multiplication as a sum of shifts\<close>

definition xt :: "u16 \<Rightarrow> u16" where
  "xt a = push_bit 1 a XOR (if bit a 15 then 0x100B else 0)"

fun gsum :: "nat \<Rightarrow> u16 \<Rightarrow> u16 \<Rightarrow> u16" where
  "gsum 0 a b = 0"
| "gsum (Suc n) a b = gsum n a b XOR (if bit b n then (xt ^^ n) a else 0)"

lemma xor_if: "(if P then a else 0) XOR (if P then b else 0) = (if P then a XOR b else (0 :: 'a::len word))"
  by simp

lemma xor_swap: "(a XOR b) XOR (c XOR d) = (a XOR c) XOR (b XOR (d :: 'a::len word))"
  by (simp add: xor.assoc xor.left_commute)

lemma xt_0 [simp]: "xt 0 = 0"
  by (simp add: xt_def)

lemma xt_xor: "xt (a XOR b) = xt a XOR xt b"
  by (auto simp: xt_def push_bit_xor bit_xor_iff xor.assoc xor.left_commute xor.commute)

lemma xt_pow_xor: "(xt ^^ n) (a XOR b) = (xt ^^ n) a XOR (xt ^^ n) b"
  by (induction n) (simp_all add: xt_xor)

lemma xt_pow_0 [simp]: "(xt ^^ n) 0 = 0"
  by (induction n) simp_all

lemma gsum_xor_left: "gsum n (a XOR a') b = gsum n a b XOR gsum n a' b"
  by (induction n) (simp_all add: xt_pow_xor xor.assoc xor.left_commute)

lemma gsum_xor_right: "gsum n a (b XOR b') = gsum n a b XOR gsum n a b'"
  by (induction n) (auto simp: bit_xor_iff xor.assoc xor.left_commute)

lemma gsum_0 [simp]: "gsum n 0 b = 0" "gsum n a 0 = 0"
  by (induction n) auto

lemma gsum_xt_left: "gsum n (xt a) b = xt (gsum n a b)"
  by (induction n) (auto simp: xt_xor funpow_swap1)

lemma xt_pow_one: "n < 16 \<Longrightarrow> (xt ^^ n) 1 = 2 ^ n"
proof (induction n)
  case (Suc n)
  then have "\<not> bit (2 ^ n :: u16) 15" by (simp add: bit_2_iff bit_exp_iff)
  with Suc show ?case by (simp add: xt_def)
qed simp

lemma gsum_one_take: "n \<le> 16 \<Longrightarrow> gsum n 1 b = take_bit n b"
proof (induction n)
  case (Suc n)
  have "take_bit (Suc n) b = take_bit n b XOR (if bit b n then 2 ^ n else 0)"
    by (rule bit_word_eqI) (auto simp: bit_simps less_Suc_eq)
  with Suc show ?case by (simp add: xt_pow_one)
qed simp

lemma gsum_one: "gsum 16 1 b = b"
  by (simp add: gsum_one_take take_bit_word_eq_self)

text \<open>A property that linear combinations keep holds everywhere once it holds for the powers of \<open>x\<close>.\<close>

lemma gf_basis_induct:
  assumes "P 0" and "\<And>a b. P a \<Longrightarrow> P b \<Longrightarrow> P (a XOR b)" and "\<And>i. P ((xt ^^ i) 1)"
  shows "P a"
proof -
  have "P (gsum n 1 a)" for n
    by (induction n) (use assms in auto)
  then show ?thesis by (metis gsum_one)
qed

lemma gsum_head: "gsum (Suc n) a b = (if bit b 0 then a else 0) XOR gsum n (xt a) (drop_bit 1 b)"
  by (induction n) (auto simp: bit_drop_bit_eq funpow_swap1 xor.assoc xor.left_commute)

lemma ucast_xt: "(if bit a 15 then push_bit 1 (ucast a) XOR PRIM else push_bit 1 (ucast a)) = (ucast (xt a) :: u32)"
proof -
  define c :: u16 and k l :: nat where "c = 0x100B" and k: "k = 1" and l: "l = 16"
  have prim: "PRIM = push_bit l 1 XOR ucast c" and xt: "xt a = push_bit k a XOR (if bit a 15 then c else 0)"
    by (simp_all add: PRIM_def xt_def c_def k l)
  have hi: "\<not> n < 16 \<Longrightarrow> \<not> bit a n" "\<not> n < 16 \<Longrightarrow> \<not> bit c n" for n
    using bit_imp_le_length [of a n] bit_imp_le_length [of c n] by auto
  have last: "bit a (n - k) \<Longrightarrow> \<not> n < 16 \<Longrightarrow> n = 16 \<and> bit a 15" for n
    using bit_imp_le_length [of a "n - k"] by (cases "n = 16") (auto simp: k)
  have "bit (if bit a 15 then push_bit k (ucast a) XOR PRIM else push_bit k (ucast a) :: u32) n =
      bit (ucast (xt a) :: u32) n" if "n < LENGTH(32)" for n
    using that hi [of n] last [of n] unfolding prim xt
    by (simp add: bit_simps) (auto simp: k l)
  then show ?thesis unfolding k by (rule bit_word_eqI)
qed

lemma gf_mul_loop_eq: "(\<And>i. bit b i \<Longrightarrow> i < n) \<Longrightarrow> gf_mul_loop r (ucast a) b = r XOR ucast (gsum n a b)"
proof (induction n arbitrary: r a b)
  case 0
  then have "b = 0" by (intro bit_word_eqI) auto
  then show ?case by (simp add: gf_mul_loop.simps)
next
  case (Suc n)
  show ?case
  proof (cases "b = 0")
    case True
    then show ?thesis by (simp add: gf_mul_loop.simps)
  next
    case False
    have hi: "ucast a AND 0x8000 \<noteq> (0 :: u32) \<longleftrightarrow> bit a 15"
      using and_exp_eq_0_iff_not_bit [of "ucast a :: u32" 15] by (simp add: bit_simps)
    have lo: "b AND 1 \<noteq> 0 \<longleftrightarrow> bit b 0" by (simp add: and_one_eq bit_0 odd_iff_mod_2_eq_one)
    have "bit (drop_bit 1 b) i \<Longrightarrow> i < n" for i using Suc.prems [of "Suc i"] by (simp add: bit_drop_bit_eq)
    note IH = Suc.IH [OF this]
    have "gf_mul_loop r (ucast a) b = gf_mul_loop (if bit b 0 then r XOR ucast a else r) (ucast (xt a)) (drop_bit 1 b)"
      using False by (subst gf_mul_loop.simps) (simp add: Let_def hi lo flip: ucast_xt)
    then show ?thesis by (simp add: IH gsum_head xor.assoc unsigned_xor_eq del: gsum.simps)
  qed
qed

lemma gf_mul_eq: "gf_mul a b = gsum 16 a b"
proof -
  have "gf_mul_loop 0 (ucast a) b = ucast (gsum 16 a b)"
    using gf_mul_loop_eq [of b 16 0 a] bit_imp_le_length [of b] by simp
  moreover have "ucast (ucast w AND (0xFFFF :: u32)) = w" for w :: u16
  proof -
    have "ucast w AND (0xFFFF :: u32) = take_bit 16 (ucast w)" by (simp add: take_bit_eq_mask mask_eq_exp_minus_1)
    also have "\<dots> = ucast w" by (simp flip: unsigned_take_bit_eq add: take_bit_word_eq_self)
    finally show ?thesis by (auto intro!: bit_word_eqI simp: bit_simps)
  qed
  ultimately show ?thesis by (simp add: gf_mul_def)
qed

subsection \<open>Ring laws\<close>

lemma gf_mul_xor_left: "gf_mul (a XOR a') b = gf_mul a b XOR gf_mul a' b"
  and gf_mul_xor_right: "gf_mul a (b XOR b') = gf_mul a b XOR gf_mul a b'"
  and gf_mul_0 [simp]: "gf_mul 0 b = 0" "gf_mul a 0 = 0"
  and gf_mul_1_left [simp]: "gf_mul 1 b = b"
  and gf_mul_xt_left: "gf_mul (xt a) b = xt (gf_mul a b)"
  by (simp_all add: gf_mul_eq gsum_xor_left gsum_xor_right gsum_one gsum_xt_left)

lemma xt_pow_16: "(xt ^^ 16) a = gf_mul a 0x100B"
proof (induction a rule: gf_basis_induct)
  case (3 i)
  have "(xt ^^ 16) 1 = (0x100B :: u16)"
  proof -
    have "(xt ^^ Suc 15) 1 = xt ((xt ^^ 15) 1)" by (simp only: funpow.simps comp_apply)
    also have "\<dots> = xt 0x8000" using xt_pow_one [of 15] by simp
    also have "\<dots> = 0x100B" by (simp add: xt_def)
    finally show ?thesis by simp
  qed
  then have "(xt ^^ 16) ((xt ^^ i) 1) = (xt ^^ i) 0x100B"
    by (metis (no_types, lifting) add.commute comp_apply funpow_add)
  moreover have "gf_mul ((xt ^^ i) 1) b = (xt ^^ i) b" for b
    by (induction i) (simp_all add: gf_mul_xt_left)
  ultimately show ?case by simp
qed (simp_all add: xt_pow_xor gf_mul_xor_left)

lemma gsum_shift: "n < 16 \<Longrightarrow> gsum (Suc n) a (push_bit 1 b) = xt (gsum n a b)"
proof (induction n)
  case 0
  then show ?case by (simp add: bit_push_bit_iff del: push_bit_Suc)
next
  case (Suc n)
  have "bit (push_bit 1 b) (Suc n) = bit b n"
    using Suc.prems by (simp add: bit_push_bit_iff del: push_bit_Suc)
  with Suc show ?case by (subst gsum.simps) (auto simp: xt_xor simp del: push_bit_Suc)
qed

lemma gf_mul_xt_right: "gf_mul a (xt b) = xt (gf_mul a b)"
proof -
  have "gf_mul a (push_bit 1 b) = xt (gsum 15 a b)"
    using gsum_shift [of 15 a b] by (simp add: gf_mul_eq eval_nat_numeral del: gsum.simps push_bit_Suc)
  moreover have "gf_mul a b = gsum 15 a b XOR (if bit b 15 then (xt ^^ 15) a else 0)"
    using gsum.simps(2) [of 15 a b] by (simp add: gf_mul_eq eval_nat_numeral del: gsum.simps)
  moreover have "xt ((xt ^^ 15) a) = gf_mul a 0x100B"
    by (simp add: xt_pow_16 [symmetric] eval_nat_numeral)
  ultimately show ?thesis by (auto simp: xt_def [of b] gf_mul_xor_right xt_xor)
qed

lemma gf_mul_pow_left: "gf_mul ((xt ^^ i) a) b = (xt ^^ i) (gf_mul a b)"
  and gf_mul_pow_right: "gf_mul a ((xt ^^ i) b) = (xt ^^ i) (gf_mul a b)"
  by (induction i) (simp_all add: gf_mul_xt_left gf_mul_xt_right)

lemma gf_mul_1_right [simp]: "gf_mul a 1 = a"
  by (induction a rule: gf_basis_induct) (simp_all add: gf_mul_xor_left gf_mul_pow_left)

lemma gf_mul_commute: "gf_mul a b = gf_mul b a"
  by (induction a rule: gf_basis_induct)
     (simp_all add: gf_mul_xor_left gf_mul_xor_right gf_mul_pow_left gf_mul_pow_right)

lemma gf_mul_assoc: "gf_mul (gf_mul a b) c = gf_mul a (gf_mul b c)"
  by (induction a rule: gf_basis_induct)
     (simp_all add: gf_mul_xor_left gf_mul_pow_left)

subsection \<open>The ring as a type\<close>

typedef gf = "UNIV :: u16 set" ..

setup_lifting type_definition_gf

instantiation gf :: comm_ring_1
begin

lift_definition zero_gf :: gf is 0 .
lift_definition one_gf :: gf is 1 .
lift_definition plus_gf :: "gf \<Rightarrow> gf \<Rightarrow> gf" is "(XOR)" .
lift_definition minus_gf :: "gf \<Rightarrow> gf \<Rightarrow> gf" is "(XOR)" .
lift_definition uminus_gf :: "gf \<Rightarrow> gf" is "\<lambda>a. a" .
lift_definition times_gf :: "gf \<Rightarrow> gf \<Rightarrow> gf" is gf_mul .

instance
proof
  fix a b c :: gf
  show "a * b * c = a * (b * c)" by transfer (rule gf_mul_assoc)
  show "a * b = b * a" by transfer (rule gf_mul_commute)
  show "1 * a = a" by transfer simp
  show "a + b + c = a + (b + c)" by transfer (rule xor.assoc)
  show "a + b = b + a" by transfer (rule xor.commute)
  show "0 + a = a" by transfer simp
  show "- a + a = 0" by transfer simp
  show "a - b = a + - b" by transfer simp
  show "(a + b) * c = a * c + b * c" by transfer (rule gf_mul_xor_left)
  show "0 \<noteq> (1 :: gf)" by transfer simp
qed

end

lemma Rep_gf_simps [simp]:
  "Rep_gf 0 = 0" "Rep_gf 1 = 1" "Rep_gf (a + b) = Rep_gf a XOR Rep_gf b"
  "Rep_gf (a - b) = Rep_gf a XOR Rep_gf b" "Rep_gf (a * b) = gf_mul (Rep_gf a) (Rep_gf b)"
  by (transfer; simp)+

lemma Abs_gf_inverse' [simp]: "Rep_gf (Abs_gf a) = a"
  by (simp add: Abs_gf_inverse)

lemma Rep_gf_eq_iff: "Rep_gf a = Rep_gf b \<longleftrightarrow> a = b"
  by (rule Rep_gf_inject)

lemma Abs_gf_eq_iff [simp]: "Abs_gf a = Abs_gf b \<longleftrightarrow> a = b"
  by (simp add: Abs_gf_inject)

lemma Abs_gf_ops:
  "Abs_gf 0 = 0" "Abs_gf 1 = 1" "Abs_gf a * Abs_gf b = Abs_gf (gf_mul a b)"
  "Abs_gf a + Abs_gf b = Abs_gf (a XOR b)" "Abs_gf a - Abs_gf b = Abs_gf (a XOR b)"
  by (simp_all flip: Rep_gf_eq_iff)

lemma gf_add_self [simp]: "a + a = (0 :: gf)"
  by transfer simp

lemma gf_minus_eq_plus: "a - b = a + (b :: gf)"
  by (simp flip: Rep_gf_eq_iff)

lemma UNIV_gf: "UNIV = range Abs_gf"
  by (metis Rep_gf_inverse surj_def)

lemma finite_gf: "finite (UNIV :: gf set)" and card_gf: "card (UNIV :: gf set) = 65536"
proof -
  have "inj Abs_gf" by (simp add: inj_on_def)
  then show "card (UNIV :: gf set) = 65536" by (simp add: UNIV_gf card_image card_word)
  show "finite (UNIV :: gf set)" by (simp add: UNIV_gf)
qed

subsection \<open>The order of \<open>x\<close>\<close>

definition X :: gf where
  "X = Abs_gf 2"

lemma xt_Rep: "xt (Rep_gf a) = Rep_gf (X * a)"
proof -
  have "gf_mul 2 b = xt b" for b
    using gf_mul_xt_left [of 1 b] xt_pow_one [of 1] by simp
  then show ?thesis by (simp add: X_def)
qed

lemma p_small: "n < 16 \<Longrightarrow> X ^ n = Abs_gf (2 ^ n)"
proof -
  have "Rep_gf (X ^ n) = (xt ^^ n) 1"
    by (induction n) (simp_all add: xt_Rep [symmetric] del: Rep_gf_simps(5))
  then show "n < 16 \<Longrightarrow> X ^ n = Abs_gf (2 ^ n)"
    by (simp add: xt_pow_one flip: Rep_gf_eq_iff)
qed

lemma p3: "X ^ 3 = Abs_gf 0x8" and p5: "X ^ 5 = Abs_gf 0x20" and p10: "X ^ 10 = Abs_gf 0x400"
  and p12: "X ^ 12 = Abs_gf 0x1000" and p15: "X ^ 15 = Abs_gf 0x8000"
  by (simp_all add: p_small)

lemma gpow_step: "X ^ a = Abs_gf u \<Longrightarrow> X ^ b = Abs_gf v \<Longrightarrow> n = a + b \<Longrightarrow> gf_mul u v = w \<Longrightarrow> X ^ n = Abs_gf w"
  by (simp add: power_add Abs_gf_ops)

lemma p24: "X ^ 24 = Abs_gf 0x1bbb"
  by (rule gpow_step [OF p12 p12]) (simp, code_simp)

lemma p48: "X ^ 48 = Abs_gf 0x4c35"
  by (rule gpow_step [OF p24 p24]) (simp, code_simp)

lemma p96: "X ^ 96 = Abs_gf 0xfcfd"
  by (rule gpow_step [OF p48 p48]) (simp, code_simp)

lemma p192: "X ^ 192 = Abs_gf 0x5710"
  by (rule gpow_step [OF p96 p96]) (simp, code_simp)

lemma p384: "X ^ 384 = Abs_gf 0xf19c"
  by (rule gpow_step [OF p192 p192]) (simp, code_simp)

lemma p768: "X ^ 768 = Abs_gf 0x14d"
  by (rule gpow_step [OF p384 p384]) (simp, code_simp)

lemma p771: "X ^ 771 = Abs_gf 0xa68"
  by (rule gpow_step [OF p768 p3]) (simp, code_simp)

lemma p1542: "X ^ 1542 = Abs_gf 0x1680"
  by (rule gpow_step [OF p771 p771]) (simp, code_simp)

lemma p3084: "X ^ 3084 = Abs_gf 0xb2c"
  by (rule gpow_step [OF p1542 p1542]) (simp, code_simp)

lemma p3855: "X ^ 3855 = Abs_gf 0x4d78"
  by (rule gpow_step [OF p3084 p771]) (simp, code_simp)

lemma p6168: "X ^ 6168 = Abs_gf 0x169b"
  by (rule gpow_step [OF p3084 p3084]) (simp, code_simp)

lemma p12336: "X ^ 12336 = Abs_gf 0xa69"
  by (rule gpow_step [OF p6168 p6168]) (simp, code_simp)

lemma p13107: "X ^ 13107 = Abs_gf 0x1ce8"
  by (rule gpow_step [OF p12336 p771]) (simp, code_simp)

lemma p26214: "X ^ 26214 = Abs_gf 0x1dac"
  by (rule gpow_step [OF p13107 p13107]) (simp, code_simp)

lemma p52428: "X ^ 52428 = Abs_gf 0x1db7"
  by (rule gpow_step [OF p26214 p26214]) (simp, code_simp)

lemma p65535: "X ^ 65535 = Abs_gf 0x1"
  by (rule gpow_step [OF p52428 p13107]) (simp, code_simp)

lemma p20: "X ^ 20 = Abs_gf 0x10bb"
  by (rule gpow_step [OF p10 p10]) (simp, code_simp)

lemma p40: "X ^ 40 = Abs_gf 0x5efe"
  by (rule gpow_step [OF p20 p20]) (simp, code_simp)

lemma p80: "X ^ 80 = Abs_gf 0xf72f"
  by (rule gpow_step [OF p40 p40]) (simp, code_simp)

lemma p160: "X ^ 160 = Abs_gf 0x14df"
  by (rule gpow_step [OF p80 p80]) (simp, code_simp)

lemma p320: "X ^ 320 = Abs_gf 0x5a55"
  by (rule gpow_step [OF p160 p160]) (simp, code_simp)

lemma p640: "X ^ 640 = Abs_gf 0xa3d1"
  by (rule gpow_step [OF p320 p320]) (simp, code_simp)

lemma p1280: "X ^ 1280 = Abs_gf 0xe130"
  by (rule gpow_step [OF p640 p640]) (simp, code_simp)

lemma p1285: "X ^ 1285 = Abs_gf 0xf6cf"
  by (rule gpow_step [OF p1280 p5]) (simp, code_simp)

lemma p2570: "X ^ 2570 = Abs_gf 0x50d4"
  by (rule gpow_step [OF p1285 p1285]) (simp, code_simp)

lemma p5140: "X ^ 5140 = Abs_gf 0xe110"
  by (rule gpow_step [OF p2570 p2570]) (simp, code_simp)

lemma p10280: "X ^ 10280 = Abs_gf 0x5aa6"
  by (rule gpow_step [OF p5140 p5140]) (simp, code_simp)

lemma p20560: "X ^ 20560 = Abs_gf 0xf6d4"
  by (rule gpow_step [OF p10280 p10280]) (simp, code_simp)

lemma p21845: "X ^ 21845 = Abs_gf 0x15e"
  by (rule gpow_step [OF p20560 p1285]) (simp, code_simp)

lemma p30: "X ^ 30 = Abs_gf 0x8efa"
  by (rule gpow_step [OF p15 p15]) (simp, code_simp)

lemma p60: "X ^ 60 = Abs_gf 0xc9c5"
  by (rule gpow_step [OF p30 p30]) (simp, code_simp)

lemma p120: "X ^ 120 = Abs_gf 0x27b7"
  by (rule gpow_step [OF p60 p60]) (simp, code_simp)

lemma p240: "X ^ 240 = Abs_gf 0x6b65"
  by (rule gpow_step [OF p120 p120]) (simp, code_simp)

lemma p255: "X ^ 255 = Abs_gf 0x8d92"
  by (rule gpow_step [OF p240 p15]) (simp, code_simp)

lemma small_divisors: "\<forall>p \<in> {3, 5, 17, 257}. \<forall>d \<in> set [0..<17]. d dvd p \<longrightarrow> d = 1 \<or> d = (p :: nat)"
  by code_simp

lemma small_prime_dvd:
  assumes "d dvd p" "p \<in> {3, 5, 17, 257 :: nat}"
  shows "d = 1 \<or> d = p"
proof -
  obtain k where k: "p = d * k" using assms(1) by blast
  have dec: "c = 1 \<or> c = p" if "c dvd p" "c < 17" for c
    using small_divisors assms(2) that by (metis atLeastLessThan_iff atLeastLessThan_upt zero_le)
  have p: "0 < p" "p < 17 * 17" using assms(2) by auto
  show ?thesis
  proof (cases "d < 17")
    case True
    then show ?thesis using dec assms(1) by blast
  next
    case False
    then have "k < 17" using p(2) mult_le_mono [of 17 d 17 k] unfolding k by linarith
    then have "k = 1 \<or> k = p" using dec [of k] k by simp
    then show ?thesis using k p(1) by auto
  qed
qed

lemma proper_divisor:
  assumes "d dvd 65535" "d \<noteq> (65535 :: nat)"
  shows "\<exists>p \<in> {3, 5, 17, 257}. d dvd 65535 div p"
proof -
  obtain e where e: "65535 = d * e" using assms(1) by blast
  have "\<exists>p \<in> {3, 5, 17, 257}. p dvd e"
  proof (rule ccontr)
    assume no: "\<not> ?thesis"
    have cop: "coprime p e" if "p \<in> {3, 5, 17, 257}" for p
      using small_prime_dvd [OF gcd_dvd1 that, of e] no that by (metis coprime_iff_gcd_eq_1 gcd_dvd2)
    then have "coprime (3 * 5 * 17 * 257) e" by (auto simp only: coprime_mult_left_iff insert_iff)
    then have "coprime 65535 e" by simp
    moreover have "e dvd 65535" unfolding e by simp
    ultimately have "e = 1" using coprime_absorb_right nat_dvd_1_iff_1 by blast
    with e assms(2) show False by simp
  qed
  then obtain p j where p: "p \<in> {3, 5, 17, 257}" "e = p * j" by blast
  then have "65535 div p = d * j" using e by (auto simp: mult.left_commute)
  then have "d dvd 65535 div p" by simp
  with p(1) show ?thesis by blast
qed

lemma X_pow_65535: "X ^ 65535 = 1"
  using p65535 by (simp add: Abs_gf_ops)

lemma div_nat_consts:
  "65535 div 3 = (21845 :: nat)" "65535 div 5 = (13107 :: nat)" "65535 div 17 = (3855 :: nat)" "65535 div 257 = (255 :: nat)"
  by simp_all

lemma X_order:
  assumes "0 < n" "n < 65535"
  shows "X ^ n \<noteq> 1"
proof
  assume one: "X ^ n = 1"
  obtain i j where ij: "n * i = 65535 * j + gcd n 65535"
    using bezout_nat [of n 65535] assms(1) by auto
  have "X ^ (n * i) = 1" "X ^ (65535 * j) = 1" by (simp_all only: power_mult one X_pow_65535 power_one)
  then have g: "X ^ gcd n 65535 = 1" unfolding ij by (simp add: power_add)
  have "gcd n 65535 \<noteq> 65535" using assms gcd_le1_nat [of n 65535] by linarith
  then obtain p where p: "p \<in> {3, 5, 17, 257}" "gcd n 65535 dvd 65535 div p"
    using proper_divisor [OF gcd_dvd2] by blast
  then have "X ^ (65535 div p) = 1" by (metis dvdE g power_mult power_one)
  moreover have "X ^ 21845 \<noteq> 1" "X ^ 13107 \<noteq> 1" "X ^ 3855 \<noteq> 1" "X ^ 255 \<noteq> 1"
    unfolding p21845 p13107 p3855 p255 Abs_gf_ops(2) [symmetric] Abs_gf_eq_iff by simp_all
  ultimately show False using p(1) by (elim insertE; simp only: div_nat_consts; blast)
qed

lemma X_pow_inj: "inj_on (\<lambda>i. X ^ i) {..<65535}"
proof (rule linorder_inj_onI)
  fix i j :: nat assume ij: "i < j" "j \<in> {..<65535}"
  show "X ^ i \<noteq> X ^ j"
  proof
    assume eq: "X ^ i = X ^ j"
    have "1 = X ^ (65535 - i) * X ^ i" using ij X_pow_65535 by (simp flip: power_add)
    also have "\<dots> = X ^ 65535 * X ^ (j - i)" using ij eq by (simp flip: power_add)
    finally have "X ^ (j - i) = 1" by (simp add: X_pow_65535)
    moreover have "0 < j - i" "j - i < 65535" using ij by auto
    ultimately show False using X_order by blast
  qed
qed auto

lemma nonzero_is_power:
  assumes "a \<noteq> 0"
  obtains i where "a = X ^ i"
proof -
  have ne: "X ^ i \<noteq> 0" for i
  proof
    assume "X ^ i = 0"
    then have "(X ^ i) ^ 65535 = 0" by (simp only: power_0_left) simp
    moreover have "(X ^ i) ^ 65535 = 1" by (metis X_pow_65535 mult.commute power_mult power_one)
    ultimately show False by simp
  qed
  have "(\<lambda>i. X ^ i) ` {..<65535} = UNIV - {0}"
  proof (rule card_subset_eq)
    show "finite (UNIV - {0 :: gf})" using finite_gf by simp
    show "card ((\<lambda>i. X ^ i) ` {..<65535}) = card (UNIV - {0 :: gf})"
      using card_gf finite_gf by (simp add: card_image [OF X_pow_inj] card_Diff_singleton)
  qed (use ne in auto)
  then show thesis using assms that by (metis Diff_iff UNIV_I empty_iff image_iff insert_iff)
qed

lemma gf_fermat: "a \<noteq> 0 \<Longrightarrow> a ^ 65535 = (1 :: gf)"
  by (metis nonzero_is_power X_pow_65535 mult.commute power_mult power_one)

subsection \<open>Inversion\<close>

lemma gf_inv_loop_eq: "gf_inv_loop ex (Rep_gf b) (Rep_gf a) = Rep_gf (a * b ^ unat ex)"
proof (induction "unat ex" arbitrary: ex a b rule: less_induct)
  case less
  show ?case
  proof (cases "ex = 0")
    case False
    have half: "unat (drop_bit 1 ex) = unat ex div 2" by (simp add: drop_bit_eq_div unat_div)
    have pos: "unat ex > 0" using False by (simp add: unat_gt_0)
    let ?a = "if ex AND 1 = 1 then a * b else a"
    have odd: "ex AND 1 = 1 \<longleftrightarrow> odd (unat ex)"
      by (simp add: and_one_eq odd_iff_mod_2_eq_one word_unat_eq_iff unat_mod)
    have "gf_inv_loop ex (Rep_gf b) (Rep_gf a) = gf_inv_loop (drop_bit 1 ex) (Rep_gf (b * b)) (Rep_gf ?a)"
      using False by (subst gf_inv_loop.simps) (auto simp: Let_def word_gt_0)
    also have "\<dots> = Rep_gf (?a * (b * b) ^ (unat ex div 2))"
      using less [of "drop_bit 1 ex"] pos by (simp only: half)
    also have "?a * (b * b) ^ (unat ex div 2) = a * b ^ unat ex"
    proof -
      have "(b * b) ^ (unat ex div 2) = b ^ (2 * (unat ex div 2))" by (simp add: power_mult power2_eq_square)
      then show ?thesis
        using odd by (auto simp: mult.assoc elim!: oddE evenE simp flip: power_Suc)
    qed
    finally show ?thesis .
  qed (simp add: gf_inv_loop.simps)
qed

lemma gf_inv_eq: "gf_inv (Rep_gf a) = Rep_gf (a ^ 65534)"
  using gf_inv_loop_eq [of "0xFFFE" a 1] by (simp add: gf_inv_def)

instantiation gf :: field
begin

lift_definition inverse_gf :: "gf \<Rightarrow> gf" is gf_inv .
definition divide_gf :: "gf \<Rightarrow> gf \<Rightarrow> gf" where "divide_gf a b = a * inverse b"

instance
proof
  have inv: "inverse a = a ^ 65534" for a :: gf
    by (simp add: inverse_gf.rep_eq gf_inv_eq flip: Rep_gf_eq_iff)
  fix a b :: gf
  show "a \<noteq> 0 \<Longrightarrow> inverse a * a = 1"
    using gf_fermat [of a] by (simp add: inv power_Suc2 [symmetric])
  show "a div b = a * inverse b" by (rule divide_gf_def)
  show "inverse (0 :: gf) = 0" by (simp add: inv)
qed

end

text \<open>C25: the \<open>u16\<close> arithmetic of the erasure code is a field with exclusive-or as addition:
  multiplication is associative, commutative, distributes and has the neutral element 1, and the
  square-and-multiply loop of \<open>gf_inv\<close> computes the multiplicative inverse of every non-zero element
  (65535 of them), so division by a difference of distinct evaluation points never fails.\<close>

theorem gf_arithmetic_field:
  "gf_mul (gf_mul a b) c = gf_mul a (gf_mul b c) \<and> gf_mul a b = gf_mul b a \<and>
   gf_mul a (b XOR c) = gf_mul a b XOR gf_mul a c \<and> gf_mul 1 a = a \<and>
   (a \<noteq> 0 \<longrightarrow> gf_mul a (gf_inv a) = 1) \<and> (gf_mul a b = 0 \<longrightarrow> a = 0 \<or> b = 0)"
proof (intro conjI impI)
  have rep: "gf_mul x y = Rep_gf (Abs_gf x * Abs_gf y)" for x y by simp
  show "gf_mul a (gf_inv a) = 1" if "a \<noteq> 0"
  proof -
    have "Abs_gf a \<noteq> 0" using that by (simp flip: Abs_gf_ops)
    then have "Abs_gf a * inverse (Abs_gf a) = 1" by (rule right_inverse)
    then have "Rep_gf (Abs_gf a * inverse (Abs_gf a)) = Rep_gf 1" by (rule arg_cong)
    then show ?thesis by (simp add: inverse_gf.rep_eq)
  qed
  show "a = 0 \<or> b = 0" if "gf_mul a b = 0"
  proof -
    have "Abs_gf a * Abs_gf b = 0" using that by (simp add: Abs_gf_ops)
    then show ?thesis by (metis Abs_gf_eq_iff Abs_gf_ops(1) mult_eq_0_iff)
  qed
  show "gf_mul a b = gf_mul b a" by (rule gf_mul_commute)
qed (simp_all add: gf_mul_assoc gf_mul_xor_right)

theorem gf_arithmetic_field_witness: "gf_mul 0x1234 (gf_inv 0x1234) = 1 \<and> gf_mul 2 3 \<noteq> 0"
proof -
  have "(0x1234 :: u16) \<noteq> 0" "(2 :: u16) \<noteq> 0" "(3 :: u16) \<noteq> 0" by simp_all
  then show ?thesis using gf_arithmetic_field [where a = "0x1234"] gf_arithmetic_field [where a = 2 and b = 3] by blast
qed

end
