(* ===== verification/VC_Rs_Props.thy ===== *)
theory VC_Rs_Props
  imports VC_GF
begin

text \<open>
  Correctness of the erasure code: polynomial functions of bounded degree, Lagrange
  interpolation, what the encoder emits at every index, and recovery of the message from any
  sufficiently large set of distinct chunks in any order. Persistence of encoder and decoder.
\<close>

subsection \<open>Polynomial functions of bounded degree\<close>

inductive polyfn :: "nat \<Rightarrow> ('a::field \<Rightarrow> 'a) \<Rightarrow> bool" where
  zero: "polyfn 0 (\<lambda>_. 0)"
| horner: "polyfn n f \<Longrightarrow> polyfn (Suc n) (\<lambda>x. c + x * f x)"

inductive_cases polyfn_0E: "polyfn 0 f"
inductive_cases polyfn_SucE: "polyfn (Suc n) f"

lemma polyfn_Suc: "polyfn n f \<Longrightarrow> polyfn (Suc n) f"
proof (induction rule: polyfn.induct)
  case zero
  show ?case using horner [OF polyfn.zero, of 0] by simp
next
  case (horner n f c)
  show ?case by (rule polyfn.horner [OF horner.IH])
qed

lemma polyfn_0: "polyfn n (\<lambda>_. 0)"
  by (induction n) (auto intro: polyfn.zero polyfn_Suc)

lemma polyfn_add: "polyfn n f \<Longrightarrow> polyfn n g \<Longrightarrow> polyfn n (\<lambda>x. f x + g x)"
proof (induction n arbitrary: f g)
  case 0
  then show ?case by (auto elim!: polyfn_0E intro: polyfn.zero)
next
  case (Suc n)
  then obtain c d f' g' where "polyfn n f'" "polyfn n g'" "f = (\<lambda>x. c + x * f' x)" "g = (\<lambda>x. d + x * g' x)"
    by (auto elim!: polyfn_SucE)
  then show ?case
    using polyfn.horner [OF Suc.IH, of f' g' "c + d"] by (simp add: algebra_simps)
qed

lemma polyfn_cmul: "polyfn n f \<Longrightarrow> polyfn n (\<lambda>x. a * f x)"
proof (induction rule: polyfn.induct)
  case (horner n f c)
  show ?case using polyfn.horner [OF horner.IH, of "a * c"] by (simp add: algebra_simps)
qed (simp add: polyfn.zero)

lemma polyfn_linear: "polyfn n f \<Longrightarrow> polyfn (Suc n) (\<lambda>x. (x - a) * f x)"
  using polyfn_add [OF polyfn.horner [of n f 0] polyfn_Suc [OF polyfn_cmul [of n f "- a"]]]
  by (simp add: algebra_simps)

lemma polyfn_sum: "finite S \<Longrightarrow> (\<And>i. i \<in> S \<Longrightarrow> polyfn n (f i)) \<Longrightarrow> polyfn n (\<lambda>x. \<Sum>i\<in>S. f i x)"
  by (induction S rule: finite_induct) (auto intro: polyfn_0 polyfn_add)

lemma polyfn_prod: "finite S \<Longrightarrow> polyfn (Suc (card S)) (\<lambda>x. \<Prod>j\<in>S. (x - a j))"
proof (induction S rule: finite_induct)
  case empty
  show ?case using polyfn.horner [OF polyfn.zero, of 1] by simp
next
  case (insert j S)
  then show ?case using polyfn_linear [OF insert.IH, of "a j"] by simp
qed

lemma polyfn_factor: "polyfn (Suc n) f \<Longrightarrow> \<exists>h. polyfn n h \<and> (\<forall>x. f x = f r + (x - r) * h x)"
proof (induction n arbitrary: f)
  case 0
  then show ?case by (auto elim!: polyfn_SucE polyfn_0E intro: polyfn.zero)
next
  case (Suc n)
  from Suc.prems obtain c g where g: "polyfn (Suc n) g" and f: "f = (\<lambda>x. c + x * g x)" by (auto elim: polyfn_SucE)
  from Suc.IH [OF g] obtain h where h: "polyfn n h" "\<And>x. g x = g r + (x - r) * h x" by blast
  have "f x = f r + (x - r) * (g r + x * h x)" for x
    unfolding f h(2) [of x] by (simp add: algebra_simps)
  with polyfn.horner [OF h(1), of "g r"] show ?case by blast
qed

lemma polyfn_roots:
  assumes "polyfn n f" "card S = n" "finite S" "\<And>r. r \<in> S \<Longrightarrow> f r = 0"
  shows "f x = 0"
  using assms
proof (induction n arbitrary: f S x)
  case 0
  then show ?case by (auto elim: polyfn_0E)
next
  case (Suc n)
  then obtain r T where S: "S = insert r T" "r \<notin> T" "card T = n" by (metis card_Suc_eq)
  obtain h where h: "polyfn n h" "\<And>x. f x = f r + (x - r) * h x" using polyfn_factor [OF Suc.prems(1)] by blast
  have r: "f r = 0" using Suc.prems(4) S by blast
  have "h t = 0" if "t \<in> T" for t
  proof -
    have "(t - r) * h t = 0" using h(2) [of t] Suc.prems(4) [of t] that r S by simp
    then show ?thesis using that S(2) by auto
  qed
  moreover have "finite T" using Suc.prems(3) S(1) by simp
  ultimately have "h x = 0" using Suc.IH [OF h(1) S(3)] by metis
  then show ?case using h(2) [of x] r by simp
qed

text \<open>The Lagrange form.\<close>

definition lbasis :: "nat \<Rightarrow> (nat \<Rightarrow> 'a::field) \<Rightarrow> nat \<Rightarrow> 'a \<Rightarrow> 'a" where
  "lbasis k xs i x = (\<Prod>j\<in>{..<k} - {i}. (x - xs j) * inverse (xs i - xs j))"

definition lform :: "nat \<Rightarrow> (nat \<Rightarrow> 'a::field) \<Rightarrow> (nat \<Rightarrow> 'a) \<Rightarrow> 'a \<Rightarrow> 'a" where
  "lform k xs ys x = (\<Sum>i<k. ys i * lbasis k xs i x)"

lemma polyfn_lform: "polyfn k (lform k xs ys)"
proof (cases k)
  case 0
  then show ?thesis by (simp add: lform_def [abs_def] polyfn.zero)
next
  case (Suc m)
  have "polyfn k (\<lambda>x. ys i * lbasis k xs i x)" if "i < k" for i
  proof -
    have "card ({..<k} - {i}) = m" using that Suc by simp
    then have "polyfn k (\<lambda>x. \<Prod>j\<in>{..<k} - {i}. (x - xs j))"
      using polyfn_prod [of "{..<k} - {i}" xs] Suc by simp
    from polyfn_cmul [OF this, of "ys i * (\<Prod>j\<in>{..<k} - {i}. inverse (xs i - xs j))"]
    show ?thesis by (simp add: lbasis_def prod.distrib mult_ac)
  qed
  then show ?thesis unfolding lform_def [abs_def] by (intro polyfn_sum) auto
qed

lemma lform_at:
  assumes "inj_on xs {..<k}" "i < k"
  shows "lform k xs ys (xs i) = ys i"
proof -
  have "lbasis k xs j (xs i) = (if j = i then 1 else 0)" if "j < k" for j
  proof (cases "j = i")
    case True
    have "(xs i - xs t) * inverse (xs i - xs t) = 1" if "t \<in> {..<k} - {i}" for t
      using that assms by (intro right_inverse) (auto simp: inj_on_def)
    then show ?thesis using True by (simp add: lbasis_def)
  next
    case False
    then show ?thesis using assms(2) by (auto simp: lbasis_def intro!: bexI [of _ i])
  qed
  then have "lform k xs ys (xs i) = (\<Sum>j<k. if j = i then ys j else 0)"
    unfolding lform_def by (intro sum.cong) auto
  then show ?thesis using assms(2) by simp
qed

lemma lform_interpolates:
  assumes "inj_on xs {..<k}" "polyfn k f"
  shows "lform k xs (\<lambda>i. f (xs i)) x = f x"
proof -
  let ?d = "\<lambda>x. lform k xs (\<lambda>i. f (xs i)) x + (- 1) * f x"
  have d: "polyfn k ?d" by (rule polyfn_add [OF polyfn_lform polyfn_cmul [OF assms(2)]])
  have c: "card (xs ` {..<k}) = k" using assms(1) by (simp add: card_image)
  have "?d r = 0" if "r \<in> xs ` {..<k}" for r
    using that lform_at [OF assms(1), of _ "\<lambda>i. f (xs i)"] by auto
  then have "?d x = 0" by (rule polyfn_roots [OF d c finite_imageI [OF finite_lessThan]])
  then show ?thesis by simp
qed

subsection \<open>The evaluation loop computes the Lagrange form\<close>

lemma lag_basis_eq:
  assumes "\<And>j. j \<in> set js \<Longrightarrow> j \<noteq> i \<Longrightarrow> x_at j \<noteq> x_at i" "distinct js"
  shows "lag_basis x_at x i js li =
    Some (Rep_gf (Abs_gf li * (\<Prod>j\<in>set js - {i}. (Abs_gf x - Abs_gf (x_at j)) * inverse (Abs_gf (x_at i) - Abs_gf (x_at j)))))"
  using assms
proof (induction js arbitrary: li)
  case (Cons j js)
  let ?t = "(Abs_gf x - Abs_gf (x_at j)) * inverse (Abs_gf (x_at i) - Abs_gf (x_at j))"
  show ?case
  proof (cases "i = j")
    case True
    with Cons show ?thesis by simp
  next
    case False
    have den: "x_at i XOR x_at j \<noteq> 0"
      using Cons.prems(1) [of j] False by (metis list.set_intros(1) xor.right_neutral xor_self_eq xor.assoc)
    have "gf_mul li (gf_mul (x XOR x_at j) (gf_inv (x_at i XOR x_at j))) = Rep_gf (Abs_gf li * ?t)"
      by (simp add: inverse_gf.rep_eq)
    with False den Cons show ?thesis
      by (simp add: Let_def insert_Diff_if gf_mul_assoc)
  qed
qed simp

lemma lag_sum_eq:
  assumes "inj_on x_at {..<k}" "set is \<subseteq> {..<k}" "distinct is"
  shows "lag_sum k x_at (\<lambda>i. Some (ys i)) x is acc =
    Some (Rep_gf (Abs_gf acc + (\<Sum>i\<in>set is. Abs_gf (ys i) * lbasis k (Abs_gf \<circ> x_at) i (Abs_gf x))))"
  using assms(2,3)
proof (induction "is" arbitrary: acc)
  case (Cons i js)
  have "lag_basis x_at x i [0..<k] 1 = Some (Rep_gf (lbasis k (Abs_gf \<circ> x_at) i (Abs_gf x)))"
  proof -
    have "x_at j \<noteq> x_at i" if "j \<in> set [0..<k]" "j \<noteq> i" for j
      using that Cons.prems(1) assms(1) by (auto dest: inj_onD)
    then have "lag_basis x_at x i [0..<k] 1 = Some (Rep_gf (Abs_gf 1 * (\<Prod>j\<in>set [0..<k] - {i}.
        (Abs_gf x - Abs_gf (x_at j)) * inverse (Abs_gf (x_at i) - Abs_gf (x_at j)))))"
      by (intro lag_basis_eq) auto
    then show ?thesis by (simp add: lbasis_def Abs_gf_ops atLeast0LessThan)
  qed
  with Cons show ?case
    by (simp add: xor.assoc comp_def)
qed simp

lemma lagrange_eval_eq:
  assumes "inj_on x_at {..<k}"
  shows "lagrange_eval k x_at (\<lambda>i. Some (ys i)) x = Some (Rep_gf (lform k (Abs_gf \<circ> x_at) (Abs_gf \<circ> ys) (Abs_gf x)))"
  using lag_sum_eq [OF assms, of "[0..<k]" ys x 0]
  by (simp add: lagrange_eval_def lform_def Abs_gf_ops atLeast0LessThan)

lemma lag_sum_cong: "(\<And>i. i \<in> set is \<Longrightarrow> y_at i = y_at' i) \<Longrightarrow> lag_sum k x_at y_at x is acc = lag_sum k x_at y_at' x is acc"
  by (induction "is" arbitrary: acc) (auto split: option.splits)

lemma lagrange_eval_cong: "(\<And>i. i < k \<Longrightarrow> y_at i = y_at' i) \<Longrightarrow> lagrange_eval k x_at y_at x = lagrange_eval k x_at y_at' x"
  unfolding lagrange_eval_def by (rule lag_sum_cong) simp

subsection \<open>Splitting into chunks\<close>

lemma length_rs_chunks: "0 < n \<Longrightarrow> length (chunks n xs) = div_ceil (length xs) n"
proof (induction n xs rule: chunks.induct)
  case (1 n xs)
  show ?case
  proof (cases "xs = []")
    case True
    with 1 show ?thesis by (simp add: chunks.simps div_ceil_def)
  next
    case False
    then have pos: "0 < length xs" by simp
    have "div_ceil (length xs) n = Suc (div_ceil (length xs - n) n)"
    proof (cases "n \<le> length xs")
      case True
      then have "length xs + (n - 1) = (length xs - n + (n - 1)) + n" using 1(2) by simp
      then show ?thesis using 1(2) unfolding div_ceil_def by (metis div_add_self2 Suc_eq_plus1 less_numeral_extra(3))
    next
      case False
      then have "(length xs + (n - 1)) div n = 1" using pos 1(2) by (intro div_nat_eqI) (auto simp: Suc_le_eq [symmetric] simp del: Suc_le_eq)
      moreover have "(length xs - n + (n - 1)) div n = 0" using False 1(2) by (intro div_less) simp
      ultimately show ?thesis by (simp add: div_ceil_def)
    qed
    with 1 False show ?thesis by (subst chunks.simps) simp
  qed
qed

lemma nth_chunks: "0 < n \<Longrightarrow> i < length (chunks n xs) \<Longrightarrow> chunks n xs ! i = take n (drop (n * i) xs)"
proof (induction n xs arbitrary: i rule: chunks.induct)
  case (1 n xs)
  show ?case
  proof (cases "xs = []")
    case True
    with 1 show ?thesis by (simp add: chunks.simps)
  next
    case False
    have c: "chunks n xs = take n xs # chunks n (drop n xs)" using False 1(2) by (subst chunks.simps) simp
    show ?thesis
    proof (cases i)
      case (Suc j)
      with 1(3) c have "j < length (chunks n (drop n xs))" by simp
      with 1(1) [of j] False 1(2) have "chunks n (drop n xs) ! j = take n (drop (n * j) (drop n xs))" by simp
      then show ?thesis using c Suc by (simp add: add.commute)
    qed (simp add: c)
  qed
qed

text \<open>Writing a block of values at an offset.\<close>

lemma length_foldl_write [simp]: "length (foldl (\<lambda>d (j, p). d[b + j := g p]) d (enumerate n ps)) = length d"
  by (induction ps arbitrary: d n) simp_all

lemma nth_foldl_write:
  "t < length d \<Longrightarrow> foldl (\<lambda>d (j, p). d[b + j := g p]) d (enumerate n ps) ! t =
     (if b + n \<le> t \<and> t < b + n + length ps then g (ps ! (t - (b + n))) else d ! t)"
proof (induction ps arbitrary: d n)
  case (Cons p ps)
  show ?case using Cons.IH [of "d[b + n := g p]" "Suc n"] Cons.prems
    by (auto simp: nth_list_update nth_Cons' Suc_diff_Suc less_diff_conv)
qed auto

lemma nth_foldl_blocks:
  assumes "\<And>c. c \<in> set cs \<Longrightarrow> length (h c) \<le> w" "0 < w" "t < length d"
  shows "foldl (\<lambda>d (i, c). foldl (\<lambda>d (j, p). d[i * w + j := g p]) d (enumerate 0 (h c))) d (enumerate n cs) ! t =
    (if n \<le> t div w \<and> t div w < n + length cs \<and> t mod w < length (h (cs ! (t div w - n)))
     then g (h (cs ! (t div w - n)) ! (t mod w)) else d ! t)"
  using assms(1,3)
proof (induction cs arbitrary: d n)
  case (Cons c cs)
  let ?d = "foldl (\<lambda>d (j, p). d[n * w + j := g p]) d (enumerate 0 (h c))"
  have inner: "?d ! t = (if t div w = n \<and> t mod w < length (h c) then g (h c ! (t mod w)) else d ! t)"
  proof -
    have "n * w \<le> t \<and> t < n * w + length (h c) \<longleftrightarrow> t div w = n \<and> t mod w < length (h c)"
    proof
      assume a: "n * w \<le> t \<and> t < n * w + length (h c)"
      then have "t div w = n" using Cons.prems(1) [of c] assms(2) by (intro div_nat_eqI) (auto simp: mult.commute)
      then show "t div w = n \<and> t mod w < length (h c)" using a by (metis less_diff_conv2 minus_div_mult_eq_mod add.commute)
    next
      assume a: "t div w = n \<and> t mod w < length (h c)"
      then show "n * w \<le> t \<and> t < n * w + length (h c)" by (metis add_less_cancel_left div_mult_mod_eq le_add1)
    qed
    moreover have "t - n * w = t mod w" if "t div w = n" using that by (metis minus_div_mult_eq_mod)
    ultimately show ?thesis using nth_foldl_write [of t d "n * w" g 0 "h c"] Cons.prems(2) by auto
  qed
  have "t < length ?d" using Cons.prems(2) by simp
  from Cons.IH [OF _ this, of "Suc n"] Cons.prems(1) inner show ?case
    by (auto simp: nth_Cons' less_Suc_eq_le Suc_diff_Suc)
qed auto

lemma length_foldl_blocks [simp]:
  "length (foldl (\<lambda>d (i, c). foldl (\<lambda>d (j, p). d[i * w + j := g p]) d (enumerate 0 (h c))) d (enumerate n cs)) = length d"
  by (induction cs arbitrary: d n) simp_all

text \<open>The symbols of a fresh encoder: the message, padded with zeros to whole chunks, read in
  big-endian pairs.\<close>

definition byte_or_0 :: "bytes \<Rightarrow> nat \<Rightarrow> u8" where
  "byte_or_0 m i = (if i < length m then m ! i else 0)"

definition msg_k :: "bytes \<Rightarrow> nat" where
  "msg_k m = max (div_ceil (length m) CHUNK_DATA) 1"

lemma encoder_new_simps [simp]:
  "en_k (encoder_new m) = msg_k m" "en_next (encoder_new m) = 0" "length (en_data (encoder_new m)) = msg_k m * SYMS"
  by (simp_all add: encoder_new_def Let_def msg_k_def)

lemma from_be_00: "from_be [0, 0] = (0 :: u16)"
  by (simp add: from_be_def)

lemma encoder_data:
  assumes "t < msg_k m * SYMS"
  shows "en_data (encoder_new m) ! t = from_be [byte_or_0 m (2 * t), byte_or_0 m (2 * t + 1)]"
proof -
  let ?cs = "chunks CHUNK_DATA m"
  have c: "c \<in> set ?cs \<Longrightarrow> length (chunks 2 c) \<le> SYMS" for c
    by (auto simp: in_set_conv_nth nth_chunks length_rs_chunks CHUNK_DATA_def SYMS_def div_ceil_def)
  have nth: "?cs ! i = take 32 (drop (32 * i) m)" if "i < length ?cs" for i
    using nth_chunks [of CHUNK_DATA i m] that by (simp add: CHUNK_DATA_def)
  have len: "i < length ?cs \<longleftrightarrow> 32 * i < length m" for i
    by (simp add: length_rs_chunks CHUNK_DATA_def div_ceil_less)
  define i j where ij: "i = t div 16" "j = t mod 16"
  have t: "t = 16 * i + j" "j < 16" by (simp_all add: ij)
  have inner: "32 * i < length m \<Longrightarrow> j < length (chunks 2 (take 32 (drop (32 * i) m))) \<longleftrightarrow> 2 * t < length m"
    by (auto simp: length_rs_chunks div_ceil_less t)
  have sym: "pair_sym (chunks 2 (take 32 (drop (32 * i) m)) ! j) = from_be [byte_or_0 m (2 * t), byte_or_0 m (2 * t + 1)]"
    if "2 * t < length m"
  proof -
    have "32 * i < length m" using that t by simp
    with inner that have j: "j < length (chunks 2 (take 32 (drop (32 * i) m)))" by simp
    have "chunks 2 (take 32 (drop (32 * i) m)) ! j = take 2 (drop (2 * j) (take 32 (drop (32 * i) m)))"
      by (rule nth_chunks [OF _ j]) simp
    also have "\<dots> = take 2 (drop (2 * t) m)" using t by (simp add: drop_take take_take min_def algebra_simps)
    finally show ?thesis using that by (auto simp: pair_sym_def byte_or_0_def)
  qed
  have "en_data (encoder_new m) ! t =
      (if t div SYMS < length ?cs \<and> t mod SYMS < length (chunks 2 (?cs ! (t div SYMS)))
       then pair_sym (chunks 2 (?cs ! (t div SYMS)) ! (t mod SYMS)) else replicate (msg_k m * SYMS) 0 ! t)"
    unfolding encoder_new_def Let_def encoder.simps
    using nth_foldl_blocks [of ?cs "chunks 2" SYMS t "replicate (msg_k m * SYMS) 0" pair_sym 0] c assms
    by (simp add: msg_k_def SYMS_def CHUNK_DATA_def)
  also have "\<dots> = (if 32 * i < length m \<and> j < length (chunks 2 (take 32 (drop (32 * i) m)))
       then pair_sym (chunks 2 (take 32 (drop (32 * i) m)) ! j) else 0)"
  proof -
    have "t div SYMS = i" "t mod SYMS = j" by (simp_all add: SYMS_def CHUNK_DATA_def ij)
    then show ?thesis using assms nth [of i] len [of i] by (cases "i < length ?cs") simp_all
  qed
  finally have "en_data (encoder_new m) ! t = \<dots>" .
  then show ?thesis
    using inner sym t by (auto simp: byte_or_0_def from_be_00)
qed

subsection \<open>What the encoder emits\<close>

lemma eval_point_inj: "k \<le> 65536 \<Longrightarrow> inj_on (\<lambda>i. eval_point (of_nat i)) {..<k}"
proof (rule inj_onI)
  fix x y :: nat assume k: "k \<le> 65536" "x \<in> {..<k}" "y \<in> {..<k}" "eval_point (of_nat x) = eval_point (of_nat y)"
  then have "unat (of_nat x :: u16) = unat (of_nat y :: u16)" by (simp add: eval_point_def)
  with k show "x = y" by simp
qed

text \<open>Column \<open>col\<close> of the message as a polynomial function through its systematic symbols.\<close>

definition msg_poly :: "bytes \<Rightarrow> nat \<Rightarrow> gf \<Rightarrow> gf" where
  "msg_poly m col = lform (msg_k m) (Abs_gf \<circ> (\<lambda>i. eval_point (of_nat i)))
     (Abs_gf \<circ> (\<lambda>i. en_data (encoder_new m) ! (i * SYMS + col)))"

definition row :: "bytes \<Rightarrow> u16 \<Rightarrow> bytes" where
  "row m idx = concat (map (\<lambda>col. be_bytes 2 (Rep_gf (msg_poly m col (Abs_gf (eval_point idx))))) [0..<SYMS])"

lemma inj_Abs_gf: "inj_on (Abs_gf \<circ> f) S \<longleftrightarrow> inj_on f S"
  by (auto simp: inj_on_def)

lemma msg_poly_systematic:
  assumes "msg_k m \<le> 65536" "i < msg_k m"
  shows "msg_poly m col (Abs_gf (eval_point (of_nat i))) = Abs_gf (en_data (encoder_new m) ! (i * SYMS + col))"
  using lform_at [of "Abs_gf \<circ> (\<lambda>i. eval_point (of_nat i))" "msg_k m" i] eval_point_inj [OF assms(1)] assms(2)
  by (simp add: msg_poly_def inj_Abs_gf)

lemma SYMS_16: "SYMS = 16" and CHUNK_DATA_32: "CHUNK_DATA = 32"
  by (simp_all add: SYMS_def CHUNK_DATA_def)

lemma symbol_row_eq:
  assumes "msg_k m \<le> 65536" "en_data e = en_data (encoder_new m)" "en_k e = msg_k m"
  shows "symbol_row e idx = Some (row m idx)"
proof -
  have at: "data_at e (i * SYMS + c) = Some (en_data (encoder_new m) ! (i * SYMS + c))" if "i < msg_k m" "c < SYMS" for i c
    using block_index [OF that] assms(2) by (simp add: data_at_def)
  show ?thesis
  proof (cases "unat idx < msg_k m")
    case True
    have "all_some (map (\<lambda>j. data_at e (unat idx * SYMS + j)) [0..<SYMS]) =
        Some (map (\<lambda>j. en_data (encoder_new m) ! (unat idx * SYMS + j)) [0..<SYMS])"
      by (rule all_some_map) (simp add: at True)
    with True show ?thesis
      using msg_poly_systematic [OF assms(1) True] by (simp add: symbol_row_def assms(3) row_def comp_def)
  next
    case False
    have "lagrange_eval (msg_k m) (\<lambda>i. eval_point (of_nat i)) (\<lambda>i. data_at e (i * SYMS + col)) (eval_point idx) =
        Some (Rep_gf (msg_poly m col (Abs_gf (eval_point idx))))" if "col < SYMS" for col
    proof -
      have "lagrange_eval (msg_k m) (\<lambda>i. eval_point (of_nat i)) (\<lambda>i. data_at e (i * SYMS + col)) (eval_point idx) =
          lagrange_eval (msg_k m) (\<lambda>i. eval_point (of_nat i)) (\<lambda>i. Some (en_data (encoder_new m) ! (i * SYMS + col))) (eval_point idx)"
        by (rule lagrange_eval_cong) (simp add: at that)
      then show ?thesis by (simp add: lagrange_eval_eq [OF eval_point_inj [OF assms(1)]] msg_poly_def)
    qed
    then have "all_some (map (\<lambda>col. lagrange_eval (msg_k m) (\<lambda>i. eval_point (of_nat i)) (\<lambda>i. data_at e (i * SYMS + col))
        (eval_point idx)) [0..<SYMS]) = Some (map (\<lambda>col. Rep_gf (msg_poly m col (Abs_gf (eval_point idx)))) [0..<SYMS])"
      by (intro all_some_map) simp
    with False show ?thesis by (simp add: symbol_row_def assms(3) row_def comp_def)
  qed
qed

lemma length_row [simp]: "length (row m idx) = 32"
  unfolding row_def by (subst length_concat_uniform [of _ 2]) (auto simp: SYMS_16)

lemma pair_of: "2 * c + 1 < length r \<Longrightarrow> [r ! (2 * c), r ! (2 * c + 1)] = take 2 (drop (2 * c) r)"
  by (simp add: numeral_2_eq_2 take_Suc_conv_app_nth)

lemma row_sym:
  assumes "col < SYMS"
  shows "from_be [row m idx ! (2 * col), row m idx ! (2 * col + 1)] = Rep_gf (msg_poly m col (Abs_gf (eval_point idx)))"
proof -
  let ?w = "Rep_gf (msg_poly m col (Abs_gf (eval_point idx)))"
  have "[row m idx ! (2 * col), row m idx ! (2 * col + 1)] = take 2 (drop (2 * col) (row m idx))"
    using assms by (intro pair_of) (simp add: SYMS_16)
  also have "\<dots> = be_bytes 2 ?w"
    using assms unfolding row_def by (subst block_of_concat) auto
  finally show ?thesis by simp
qed

text \<open>The systematic rows, put together, are the padded message.\<close>

definition padded :: "bytes \<Rightarrow> bytes" where
  "padded m = m @ replicate (32 * msg_k m - length m) 0"

lemma length_padded: "length (padded m) = 32 * msg_k m"
proof -
  have "length m \<le> 32 * div_ceil (length m) 32"
    using div_ceil_less [of 32 "div_ceil (length m) 32" "length m"] by simp
  then show ?thesis by (auto simp: padded_def msg_k_def CHUNK_DATA_32 max_def)
qed

lemma nth_padded: "i < 32 * msg_k m \<Longrightarrow> padded m ! i = byte_or_0 m i"
  using length_padded [of m] by (auto simp: padded_def nth_append byte_or_0_def)

lemma row_systematic:
  assumes "msg_k m \<le> 65536" "i < msg_k m"
  shows "row m (of_nat i) = take 32 (drop (32 * i) (padded m))"
proof (rule nth_equalityI)
  have l: "32 * i + 32 \<le> 32 * msg_k m" using assms(2) by simp
  then show len: "length (row m (of_nat i)) = length (take 32 (drop (32 * i) (padded m)))"
    by (simp add: length_padded)
  fix b assume "b < length (row m (of_nat i))"
  then have b: "b < 32" by simp
  define c where "c = b div 2"
  have c: "c < SYMS" using b by (auto simp: c_def SYMS_16)
  have "i * SYMS + c < msg_k m * SYMS" by (rule block_index [OF assms(2) c])
  from encoder_data [OF this]
  have sym: "en_data (encoder_new m) ! (i * SYMS + c) = from_be [padded m ! (32 * i + 2 * c), padded m ! (32 * i + 2 * c + 1)]"
    using l c by (simp add: nth_padded SYMS_16 algebra_simps)
  have "take 2 (drop (2 * c) (row m (of_nat i))) = be_bytes 2 (Rep_gf (msg_poly m c (Abs_gf (eval_point (of_nat i)))))"
    using c unfolding row_def by (subst block_of_concat) auto
  also have "\<dots> = [padded m ! (32 * i + 2 * c), padded m ! (32 * i + 2 * c + 1)]"
    by (simp add: msg_poly_systematic [OF assms] sym)
  finally have two: "take 2 (drop (2 * c) (row m (of_nat i))) = [padded m ! (32 * i + 2 * c), padded m ! (32 * i + 2 * c + 1)]" .
  have "row m (of_nat i) ! b = take 2 (drop (2 * c) (row m (of_nat i))) ! (b mod 2)"
    using b c by (simp add: c_def SYMS_16)
  also have "\<dots> = padded m ! (32 * i + b)"
  proof (cases "even b")
    case True
    then have "b = 2 * c" "b mod 2 = 0" by (auto simp: c_def)
    then show ?thesis by (simp only: two) simp
  next
    case False
    then have "b = 2 * c + 1" "b mod 2 = 1" by (auto simp: c_def odd_iff_mod_2_eq_one)
    then show ?thesis by (simp only: two) simp
  qed
  finally show "row m (of_nat i) ! b = take 32 (drop (32 * i) (padded m)) ! b"
    using b l by (simp add: length_padded)
qed

lemma concat_blocks: "length xs = n * k \<Longrightarrow> concat (map (\<lambda>i. take n (drop (n * i) xs)) [0..<k]) = xs"
proof (induction k arbitrary: xs)
  case (Suc k)
  have "concat (map (\<lambda>i. take n (drop (n * i) (take (n * k) xs))) [0..<k]) = take (n * k) xs"
    using Suc by (intro Suc.IH) simp
  moreover have "take n (drop (n * i) (take (n * k) xs)) = take n (drop (n * i) xs)" if "i < k" for i
  proof -
    have "n * i + n \<le> n * k" using that by (metis Suc_leI mult_Suc_right mult_le_mono2 add.commute)
    then show ?thesis by (simp add: drop_take)
  qed
  moreover from this have "map (\<lambda>i. take n (drop (n * i) (take (n * k) xs))) [0..<k] = map (\<lambda>i. take n (drop (n * i) xs)) [0..<k]"
    by (intro map_cong) auto
  ultimately have "concat (map (\<lambda>i. take n (drop (n * i) xs)) [0..<k]) = take (n * k) xs" by argo
  then show ?case using Suc.prems by (simp add: append_take_drop_id)
qed simp

lemma rows_message:
  assumes "msg_k m \<le> 65536"
  shows "take (length m) (concat (map (\<lambda>i. row m (of_nat i)) [0..<msg_k m])) = m"
proof -
  have "map (\<lambda>i. row m (of_nat i)) [0..<msg_k m] = map (\<lambda>i. take 32 (drop (32 * i) (padded m))) [0..<msg_k m]"
    by (rule map_cong) (auto simp: row_systematic [OF assms])
  then have "concat (map (\<lambda>i. row m (of_nat i)) [0..<msg_k m]) = padded m"
    by (simp only: concat_blocks length_padded)
  then show ?thesis by (simp add: padded_def)
qed

subsection \<open>What the decoder recovers\<close>

lemma bt_insert_get: "hm_get (bt_insert m k v) k' = (if k' = k then Some v else hm_get m k')"
  by (induction m k v rule: bt_insert.induct) (auto simp: hm_get_Cons)

lemma bt_insert_set: "set (map fst (bt_insert m k v)) = insert k (set (map fst m))"
  by (induction m k v rule: bt_insert.induct) auto

lemma bt_insert_sorted: "sorted_wrt (<) (map fst m) \<Longrightarrow> sorted_wrt (<) (map fst (bt_insert m k v))"
proof (induction m k v rule: bt_insert.induct)
  case (2 k' v' m k v)
  then show ?case using bt_insert_set [of m k v] by auto
qed simp

lemma bt_ok: "sorted_wrt (<) (map fst m) \<Longrightarrow> hm_ok (m :: ('k::linorder, 'v) hmap)"
  by (simp add: hm_ok_def strict_sorted_iff)

lemma bt_length: "sorted_wrt (<) (map fst m) \<Longrightarrow> length m = card (set (map fst (m :: ('k::linorder, 'v) hmap)))"
  by (metis distinct_card length_map strict_sorted_iff)

lemma bt_insert_elems: "x \<in> set (bt_insert m k v) \<Longrightarrow> x = (k, v) \<or> x \<in> set m"
  by (induction m k v rule: bt_insert.induct) (auto split: if_splits)

text \<open>A decoder for \<open>m\<close> that has received the genuine chunks with indices \<open>S\<close>.\<close>

definition decoder_for :: "bytes \<Rightarrow> u16 set \<Rightarrow> decoder \<Rightarrow> bool" where
  "decoder_for m S d \<longleftrightarrow> de_len d = length m \<and> de_k d = msg_k m \<and>
     sorted_wrt (<) (map fst (de_got d)) \<and> set (map fst (de_got d)) = S \<and>
     (\<forall>(i, p) \<in> set (de_got d). p = row m i) \<and>
     de_decoded d = (if msg_k m \<le> card S then Some m else None)"

lemma row_bytes_eq:
  assumes k: "msg_k m \<le> 65536" and "de_k d = msg_k m" "sorted_wrt (<) (map fst (de_got d))"
    and got: "\<forall>(i, p) \<in> set (de_got d). p = row m i" and "msg_k m \<le> length (de_got d)"
  shows "row_bytes d i = Some (row m (of_nat i))"
proof -
  let ?pts = "take (msg_k m) (de_got d)"
  let ?xs = "\<lambda>t. eval_point (fst (?pts ! t))"
  have pt: "snd (?pts ! t) = row m (fst (?pts ! t))" if "t < msg_k m" for t
    using got that assms(5) by (metis (mono_tags, lifting) case_prod_beta nth_mem nth_take order_less_le_trans)
  have "distinct (map fst (de_got d))" using assms(3) by (simp add: strict_sorted_iff)
  then have "inj_on (\<lambda>t. fst (?pts ! t)) {..<msg_k m}"
    using assms(5) by (auto simp: inj_on_def distinct_conv_nth) (metis order_less_le_trans nth_map)
  then have inj: "inj_on ?xs {..<msg_k m}" by (auto simp: inj_on_def eval_point_def)
  have "lagrange_eval (msg_k m) ?xs (\<lambda>t. Some (from_be [snd (?pts ! t) ! (2 * col), snd (?pts ! t) ! (2 * col + 1)]))
      (eval_point (of_nat i)) = Some (Rep_gf (msg_poly m col (Abs_gf (eval_point (of_nat i)))))" if "col < SYMS" for col
  proof -
    have "lagrange_eval (msg_k m) ?xs (\<lambda>t. Some (from_be [snd (?pts ! t) ! (2 * col), snd (?pts ! t) ! (2 * col + 1)])) (eval_point (of_nat i)) =
        lagrange_eval (msg_k m) ?xs (\<lambda>t. Some (Rep_gf (msg_poly m col (Abs_gf (?xs t))))) (eval_point (of_nat i))"
      by (rule lagrange_eval_cong) (simp only: pt row_sym [OF that])
    also have "\<dots> = Some (Rep_gf (lform (msg_k m) (Abs_gf \<circ> ?xs) (\<lambda>t. msg_poly m col ((Abs_gf \<circ> ?xs) t)) (Abs_gf (eval_point (of_nat i)))))"
      by (simp add: lagrange_eval_eq [OF inj] comp_def Rep_gf_inverse)
    also have "lform (msg_k m) (Abs_gf \<circ> ?xs) (\<lambda>t. msg_poly m col ((Abs_gf \<circ> ?xs) t)) (Abs_gf (eval_point (of_nat i))) =
        msg_poly m col (Abs_gf (eval_point (of_nat i)))"
      by (rule lform_interpolates) (simp_all only: inj_Abs_gf inj msg_poly_def polyfn_lform)
    finally show ?thesis .
  qed
  then have "all_some (map (\<lambda>col. lagrange_eval (msg_k m) ?xs
      (\<lambda>t. Some (from_be [snd (?pts ! t) ! (2 * col), snd (?pts ! t) ! (2 * col + 1)])) (eval_point (of_nat i))) [0..<SYMS]) =
      Some (map (\<lambda>col. Rep_gf (msg_poly m col (Abs_gf (eval_point (of_nat i))))) [0..<SYMS])"
    by (intro all_some_map) simp
  then show ?thesis by (simp add: row_bytes_def assms(2) row_def comp_def Let_def)
qed

lemma try_decode_eq:
  assumes "msg_k m \<le> 65536" "de_len d = length m" "de_k d = msg_k m" "sorted_wrt (<) (map fst (de_got d))"
    and "\<forall>(i, p) \<in> set (de_got d). p = row m i" "msg_k m \<le> length (de_got d)"
  shows "try_decode d = d\<lparr>de_decoded := Some m\<rparr>"
proof (cases "systematic d")
  case None
  then show ?thesis
    using assms(2,3,6) rows_message [OF assms(1)]
      all_some_map [OF row_bytes_eq [OF assms(1,3-6)], where xs = "[0..<msg_k m]"]
    by (simp add: try_decode_def)
next
  case (Some s)
  then obtain ps where ps: "all_some (map (\<lambda>i. hm_get (de_got d) (of_nat i)) [0..<msg_k m]) = Some ps" "s = concat ps"
    by (auto simp: systematic_def assms(3))
  have "hm_get (de_got d) (of_nat i) = Some (row m (of_nat i))" if "i < msg_k m" for i
  proof -
    have "hm_get (de_got d) (of_nat i) \<noteq> None"
      using ps(1) that all_some_None [of "map (\<lambda>i. hm_get (de_got d) (of_nat i)) [0..<msg_k m]"] by force
    then show ?thesis using assms(5) hm_get_in_set by fastforce
  qed
  then have "ps = map (\<lambda>i. row m (of_nat i)) [0..<msg_k m]"
    using ps(1) all_some_map [of "[0..<msg_k m]" "\<lambda>i. hm_get (de_got d) (of_nat i)" "\<lambda>i. row m (of_nat i)"] by simp
  then show ?thesis
    using Some ps(2) rows_message [OF assms(1)] by (simp add: try_decode_def assms(2))
qed

lemma add_chunk_eq:
  assumes "msg_k m \<le> 65536" "decoder_for m S d"
  shows "fst (add_chunk d (be_bytes 2 i @ row m i)) = Inr ()"
    and "decoder_for m (insert i S) (snd (add_chunk d (be_bytes 2 i @ row m i)))"
proof -
  let ?d = "d\<lparr>de_got := bt_insert (de_got d) i (row m i)\<rparr>"
  have w: "length (be_bytes 2 i @ row m i) = CHUNK_WIRE" by (simp add: CHUNK_WIRE_def CHUNK_DATA_32)
  then show "fst (add_chunk d (be_bytes 2 i @ row m i)) = Inr ()" by (simp add: add_chunk_def Let_def)
  have d: "de_len ?d = length m" "de_k ?d = msg_k m" "sorted_wrt (<) (map fst (de_got ?d))"
    "set (map fst (de_got ?d)) = insert i S" "\<forall>(j, p) \<in> set (de_got ?d). p = row m j"
    using assms(2) bt_insert_set [of "de_got d" i "row m i"] bt_insert_sorted [of "de_got d" i "row m i"]
    by (auto simp: decoder_for_def dest!: bt_insert_elems)
  have len: "length (de_got ?d) = card (insert i S)" using bt_length [OF d(3)] d(4) by simp
  have fin: "finite S" using assms(2) by (auto simp: decoder_for_def)
  have res: "snd (add_chunk d (be_bytes 2 i @ row m i)) =
      (if length (de_got ?d) \<ge> msg_k m \<and> de_decoded d = None then try_decode ?d else ?d)"
    using w d(2) by (simp add: add_chunk_def Let_def)
  show "decoder_for m (insert i S) (snd (add_chunk d (be_bytes 2 i @ row m i)))"
  proof (cases "msg_k m \<le> card (insert i S) \<and> de_decoded d = None")
    case True
    then have "snd (add_chunk d (be_bytes 2 i @ row m i)) = ?d\<lparr>de_decoded := Some m\<rparr>"
      using try_decode_eq [OF assms(1) d(1-3,5)] len unfolding res by simp
    then show ?thesis using d True unfolding decoder_for_def by simp
  next
    case False
    then have "snd (add_chunk d (be_bytes 2 i @ row m i)) = ?d" using len unfolding res by presburger
    moreover have "de_decoded d = (if msg_k m \<le> card (insert i S) then Some m else None)"
      using False assms(2) fin card_insert_le [of S i] by (auto simp: decoder_for_def split: if_splits)
    ultimately show ?thesis using d unfolding decoder_for_def by simp
  qed
qed

text \<open>The chunks an encoder emits one after the other, and a decoder fed with a list of chunks.\<close>

fun emit :: "nat \<Rightarrow> encoder \<Rightarrow> bytes list option" where
  "emit 0 e = Some []"
| "emit (Suc n) e = (case next_chunk e of None \<Rightarrow> None | Some (c, e') \<Rightarrow> map_option (Cons c) (emit n e'))"

fun feed :: "decoder \<Rightarrow> bytes list \<Rightarrow> (prim_error + unit) \<times> decoder" where
  "feed d [] = (Inr (), d)"
| "feed d (c # cs) = sbind (add_chunk d c) (\<lambda>_ d. feed d cs)"

lemma emit_eq:
  assumes "msg_k m \<le> 65536" "en_data e = en_data (encoder_new m)" "en_k e = msg_k m"
  shows "emit n e = Some (map (\<lambda>i. be_bytes 2 (en_next e + of_nat i) @ row m (en_next e + of_nat i)) [0..<n])"
  using assms(2,3)
proof (induction n arbitrary: e)
  case (Suc n)
  let ?e = "e\<lparr>en_next := en_next e + 1\<rparr>"
  have "next_chunk e = Some (be_bytes 2 (en_next e) @ row m (en_next e), ?e)"
    using symbol_row_eq [OF assms(1), of ?e "en_next e"] Suc.prems by (simp add: next_chunk_def Let_def)
  moreover have "map (\<lambda>i. be_bytes 2 (en_next e + of_nat i) @ row m (en_next e + of_nat i)) [0..<Suc n] =
      (be_bytes 2 (en_next e) @ row m (en_next e)) #
      map (\<lambda>i. be_bytes 2 (en_next ?e + of_nat i) @ row m (en_next ?e + of_nat i)) [0..<n]"
    by (subst upt_conv_Cons) (simp_all add: map_Suc_upt [symmetric] comp_def add.assoc del: upt_Suc map_Suc_upt)
  ultimately show ?case using Suc.IH [of ?e] Suc.prems by simp
qed simp

lemma feed_eq:
  assumes "msg_k m \<le> 65536" "decoder_for m S d"
  shows "fst (feed d (map (\<lambda>i. be_bytes 2 (f i) @ row m (f i)) js)) = Inr () \<and>
    decoder_for m (S \<union> f ` set js) (snd (feed d (map (\<lambda>i. be_bytes 2 (f i) @ row m (f i)) js)))"
  using assms(2)
proof (induction js arbitrary: S d)
  case (Cons j js)
  obtain d' where d': "add_chunk d (be_bytes 2 (f j) @ row m (f j)) = (Inr (), d')" "decoder_for m (insert (f j) S) d'"
    using add_chunk_eq [OF assms(1) Cons.prems, of "f j"] by (metis prod.collapse)
  then show ?case using Cons.IH [OF d'(2)] by simp
qed simp

lemma decoder_for_new: "decoder_for m {} (decoder_new (length m))"
  by (auto simp: decoder_for_def decoder_new_def msg_k_def)

lemma take_all_from: "map (\<lambda>i. map g [0..<n] ! i) js = map g js" if "\<forall>i \<in> set js. i < n"
  using that by auto

text \<open>C21: the erasure code corrects every loss pattern. Take the first \<open>n\<close> chunks an encoder emits for
  a message and deliver any selection of them, in any order and with repetitions: no chunk is
  refused, and the decoder reports the message, and reports it exactly, as soon as the selection
  has as many distinct chunks as the message has blocks of 32 bytes; before that it reports
  nothing.\<close>

theorem rs_recovers_from_any_chunks:
  assumes "length message \<le> 32 * 65536" "n \<le> 65536" "\<forall>i \<in> set sel. i < n"
  shows "\<exists>cs. emit n (encoder_new message) = Some cs \<and>
    fst (feed (decoder_new (length message)) (map (\<lambda>i. cs ! i) sel)) = Inr () \<and>
    de_decoded (snd (feed (decoder_new (length message)) (map (\<lambda>i. cs ! i) sel))) =
      (if card (set sel) \<ge> en_k (encoder_new message) then Some message else None)"
proof -
  have k: "msg_k message \<le> 65536"
    using div_ceil_less [of 32 65536 "length message"] assms(1) by (simp add: msg_k_def CHUNK_DATA_32 not_less)
  let ?g = "\<lambda>i. be_bytes 2 (of_nat i :: u16) @ row message (of_nat i)"
  have cs: "emit n (encoder_new message) = Some (map ?g [0..<n])"
    using emit_eq [OF k, of "encoder_new message" n] by simp
  have "inj_on (of_nat :: nat \<Rightarrow> u16) (set sel)"
  proof (rule inj_onI)
    fix x y assume "x \<in> set sel" "y \<in> set sel" "of_nat x = (of_nat y :: u16)"
    then have "unat (of_nat x :: u16) = unat (of_nat y :: u16)" "x < 65536" "y < 65536" using assms by auto
    then show "x = y" by simp
  qed
  then have "card (of_nat ` set sel :: u16 set) = card (set sel)" by (rule card_image)
  moreover have "map (\<lambda>i. map ?g [0..<n] ! i) sel = map ?g sel" by (rule take_all_from [OF assms(3)])
  ultimately show ?thesis
    using feed_eq [OF k decoder_for_new, of of_nat sel]
    by (intro exI [of _ "map ?g [0..<n]"]) (simp only: cs decoder_for_def encoder_new_simps Un_empty_left simp_thms)
qed

theorem rs_recovers_from_any_chunks_witness:
  "\<exists>cs. emit 5 (encoder_new (replicate 80 7)) = Some cs \<and>
    fst (feed (decoder_new 80) [cs ! 4, cs ! 1, cs ! 4, cs ! 3]) = Inr () \<and>
    de_decoded (snd (feed (decoder_new 80) [cs ! 4, cs ! 1, cs ! 4, cs ! 3])) = Some (replicate 80 7)"
proof -
  have "en_k (encoder_new (replicate 80 7)) = 3"
    by (simp add: msg_k_def div_ceil_def CHUNK_DATA_def)
  then show ?thesis
    using rs_recovers_from_any_chunks [of "replicate 80 7" 5 "[4, 1, 4, 3]"] by (simp add: insert_commute)
qed

subsection \<open>Persistence\<close>

definition encoder_wf :: "encoder \<Rightarrow> bool" where
  "encoder_wf e \<longleftrightarrow> en_k e < 2 ^ 32 \<and> length (en_data e) < 2 ^ 32"

lemma concat_le2_length: "length (concat (map (le_bytes 2) xs)) = 2 * length xs"
  by (induction xs) simp_all

interpretation rse: canonical_codec encoder_encode encoder_decode encoder_wf
proof unfold_locales
  fix e assume "encoder_wf e"
  then show "encoder_decode (encoder_encode e) = Inr e"
    using take_list_app [of "en_data e" "take_u16 InvalidLength" "le_bytes 2" "[]"]
    by (simp add: encoder_decode_def encoder_encode_def encoder_wf_def concat_le2_length)
next
  fix d e assume "encoder_decode d = Inr e"
  then obtain k nx n rest syms r where d: "d = le_bytes 4 (k :: u32) @ le_bytes 2 (nx :: u16) @ le_bytes 4 (n :: u32) @ rest"
    "length rest = unat n * 2" "take_list (take_u16 InvalidLength) (unat n) rest = Inr (syms, r)"
    "e = \<lparr>en_data = syms, en_k = unat k, en_next = nx\<rparr>"
    by (auto simp: encoder_decode_def rd_simps split: if_splits)
  have "rest = concat (map (le_bytes 2) syms) @ r \<and> length syms = unat n"
    using take_list_inv [OF _ d(3), of "le_bytes 2" "\<lambda>_. True"] by (auto simp: rd_simps)
  then have "r = []" "rest = concat (map (le_bytes 2) syms)" "length syms = unat n"
    using d(2) by (auto simp: concat_le2_length)
  then show "encoder_wf e \<and> encoder_encode e = d"
    using d unat_u32_bound [of k] unat_u32_bound [of n] by (simp add: encoder_wf_def encoder_encode_def)
qed

definition decoder_wf :: "decoder \<Rightarrow> bool" where
  "decoder_wf d \<longleftrightarrow> de_len d < 2 ^ 32 \<and> de_k d < 2 ^ 32 \<and> length (de_got d) < 2 ^ 32 \<and>
     sorted_wrt (<) (map fst (de_got d)) \<and> (\<forall>(i, p) \<in> set (de_got d). length p = CHUNK_DATA) \<and>
     (\<forall>m. de_decoded d = Some m \<longrightarrow> fits32 m)"

lemma bt_rebuild:
  "sorted_wrt (<) (map fst (acc @ m)) \<Longrightarrow> foldl (\<lambda>m (i, p). bt_insert m i p) acc m = acc @ (m :: ('k::linorder, 'v) hmap)"
proof (induction m arbitrary: acc)
  case (Cons x m)
  obtain i p where x: "x = (i, p)" by (cases x)
  have "\<forall>y \<in> set acc. fst y < i" using Cons.prems x by (auto simp: sorted_wrt_append)
  then have "bt_insert acc i p = acc @ [(i, p)]" by (induction acc) auto
  then show ?case using Cons.IH [of "acc @ [x]"] Cons.prems x by simp
qed simp

interpretation rsd: codec decoder_encode decoder_decode decoder_wf
proof unfold_locales
  fix d assume wf: "decoder_wf d"
  have got: "take_list take_got (length (de_got d)) (concat (map put_got (de_got d)) @ r) = Inr (de_got d, r)" for r
    using wf by (intro take_list_app) (auto simp: take_got_def put_got_def decoder_wf_def)
  have re: "foldl (\<lambda>m (i, p). bt_insert m i p) [] (de_got d) = de_got d"
    using bt_rebuild [of "[]" "de_got d"] wf by (simp add: decoder_wf_def)
  show "decoder_decode (decoder_encode d) = Inr d"
    using wf got re by (cases "de_decoded d")
      (simp_all add: decoder_decode_def decoder_encode_def decoder_wf_def put_vec_def fits32_def)
qed

end
