(* ===== verification/VC_Braid_Codec.thy ===== *)
theory VC_Braid_Codec
  imports VC_Braid VC_Rs_Props
begin

text \<open>
  Wire format of Braid messages and persistence of Braid states: both are codecs, the message format
  a canonical one.
\<close>

subsection \<open>Messages\<close>

lemma braid_type_from_to [simp]: "braid_type_from_u8 (braid_type_to_u8 t) = Inr t"
  by (cases t) (simp_all add: braid_type_from_u8_def)

lemma braid_type_to_from: "braid_type_from_u8 v = Inr t \<Longrightarrow> v = braid_type_to_u8 t"
  by (auto simp: braid_type_from_u8_def split: if_splits)

definition bm_wf :: "braid_message \<Rightarrow> bool" where
  "bm_wf m \<longleftrightarrow> bm_typ m \<in> {BNone, BCt1Ack} \<or> length (bm_data m) = CHUNK_WIRE"

interpretation bmc: canonical_codec bm_encode bm_decode bm_wf
proof unfold_locales
  fix m assume "bm_wf m"
  then show "bm_decode (bm_encode m) = Inr m"
    by (cases m) (auto simp: bm_decode_def bm_encode_def bm_wf_def nth_append Let_def)
next
  fix d m assume "bm_decode d = Inr m"
  then obtain t where l: "9 \<le> length d" and t: "braid_type_from_u8 (d ! 8) = Inr t"
    and m: "m = \<lparr>bm_epoch = from_be (take 8 d), bm_typ = t, bm_data = drop 9 d\<rparr>"
    and w: "t \<in> {BNone, BCt1Ack} \<or> length (drop 9 d) = CHUNK_WIRE"
    by (auto simp: bm_decode_def rd_simps Let_def split: if_splits)
  have "d = take 8 d @ [d ! 8] @ drop 9 d"
    using id_take_nth_drop [of 8 d] l by simp
  then show "bm_wf m \<and> bm_encode m = d"
    using l t m w by (simp add: bm_wf_def bm_encode_def braid_type_to_from [symmetric])
qed

subsection \<open>States\<close>

definition auth_wf :: "authenticator \<Rightarrow> bool" where
  "auth_wf a \<longleftrightarrow> length (au_root a) = 32 \<and> length (au_mac a) = 32"

definition secret_wf :: "encaps_secret \<Rightarrow> bool" where
  "secret_wf s \<longleftrightarrow> length (es_m s) = 32 \<and> length (es_coins s) = 32 \<and> length (es_k s) = 32 \<and>
     length (es_rho s) = 32 \<and> length (es_hek s) = 32"

definition enc_wf :: "encoder \<Rightarrow> bool" where
  "enc_wf e \<longleftrightarrow> encoder_wf e \<and> fits32 (encoder_encode e)"

definition dec_wf :: "decoder \<Rightarrow> bool" where
  "dec_wf d \<longleftrightarrow> decoder_wf d \<and> fits32 (decoder_encode d)"

fun agent_wf :: "agent \<Rightarrow> bool" where
  "agent_wf KeysUnsampled \<longleftrightarrow> True"
| "agent_wf (KeysSampled dk t enc) \<longleftrightarrow> length dk = 64 \<and> fits32 t \<and> enc_wf enc"
| "agent_wf (HeaderSent dk enc dec) \<longleftrightarrow> length dk = 64 \<and> enc_wf enc \<and> dec_wf dec"
| "agent_wf (Ct1Received dk ct1 enc) \<longleftrightarrow> length dk = 64 \<and> fits32 ct1 \<and> enc_wf enc"
| "agent_wf (EkSentCt1Received dk ct1 dec) \<longleftrightarrow> length dk = 64 \<and> fits32 ct1 \<and> dec_wf dec"
| "agent_wf (NoHeaderReceived dec) \<longleftrightarrow> dec_wf dec"
| "agent_wf (HeaderReceived ek_seed hek dec) \<longleftrightarrow> length ek_seed = 32 \<and> length hek = 32 \<and> dec_wf dec"
| "agent_wf (Ct1Sampled secret ct1 enc dec ss em) \<longleftrightarrow>
     secret_wf secret \<and> length ct1 = CT1_LEN \<and> enc_wf enc \<and> dec_wf dec \<and> length ss = 32"
| "agent_wf (EkReceivedCt1Sampled secret ct1 t enc ss em) \<longleftrightarrow>
     secret_wf secret \<and> length ct1 = CT1_LEN \<and> fits32 t \<and> enc_wf enc \<and> length ss = 32"
| "agent_wf (Ct1Acknowledged secret ct1 dec ss em) \<longleftrightarrow>
     secret_wf secret \<and> length ct1 = CT1_LEN \<and> dec_wf dec \<and> length ss = 32"
| "agent_wf (Ct2Sampled enc ss em) \<longleftrightarrow> enc_wf enc \<and> length ss = 32"

definition braid_wf :: "braid \<Rightarrow> bool" where
  "braid_wf s \<longleftrightarrow> auth_wf (br_auth s) \<and> agent_wf (br_agent s)"

lemma take_secret_put [simp]: "secret_wf s \<Longrightarrow> take_secret (secret_encode s @ r) = Inr (s, r)"
proof -
  assume "secret_wf s"
  then have "length (secret_encode s) = 160" "secret_decode (secret_encode s) = s"
    by (simp_all add: secret_wf_def secret_encode_def secret_decode_def)
  then show ?thesis by (simp add: take_secret_def)
qed

lemma take_enc_put [simp]: "enc_wf e \<Longrightarrow> take_enc (put_vec (encoder_encode e) @ r) = Inr (e, r)"
  by (simp add: take_enc_def enc_wf_def rse.roundtrip)

lemma take_dec_put [simp]: "dec_wf d \<Longrightarrow> take_dec (put_vec (decoder_encode d) @ r) = Inr (d, r)"
  by (simp add: take_dec_def dec_wf_def rsd.roundtrip)

lemma take_bool_put [simp]: "take_bool (bool_byte b @ r) = Inr (b, r)" "take_bool (bool_byte b) = Inr (b, [])"
  by (simp_all add: take_bool_def bool_byte_def)

lemma take_enc_put_last [simp]: "enc_wf e \<Longrightarrow> take_enc (put_vec (encoder_encode e)) = Inr (e, [])"
  using take_enc_put [of e "[]"] by simp

lemma take_dec_put_last [simp]: "dec_wf d \<Longrightarrow> take_dec (put_vec (decoder_encode d)) = Inr (d, [])"
  using take_dec_put [of d "[]"] by simp

lemma agent_read_write: "agent_wf g \<Longrightarrow> agent_read (agent_write g) = Inr (g, [])"
  by (cases g) (simp_all add: agent_read_def take_dk_def)

lemma auth_decode_encode: "auth_wf a \<Longrightarrow> length (auth_encode a) = 64 \<and> auth_decode (auth_encode a) = a"
  by (simp add: auth_wf_def auth_encode_def auth_decode_def)

interpretation brc: codec braid_serialize braid_deserialize braid_wf
proof unfold_locales
  fix s assume "braid_wf s"
  then show "braid_deserialize (braid_serialize s) = Inr s"
    using auth_decode_encode [of "br_auth s"] agent_read_write [of "br_agent s"]
    by (simp add: braid_deserialize_def braid_serialize_def deserialize_v3_def braid_wf_def)
qed

end
