(* ===== verification/VC_Ntt.thy ===== *)
theory VC_Ntt
  imports VC_Mlkem_Inc "HOL-Library.Numeral_Type"
begin

text \<open>
  The number-theoretic transform of \<^verbatim>\<open>src/primitives/mlkem_inc.rs\<close>. The modular operations are
  arithmetic modulo 3329; the nested in-place loops are one pointwise map per layer
  (\<open>nth_ntt_blocks\<close>, \<open>nth_ntt_inv_blocks\<close>); the inverse undoes the transform; and the transform
  turns multiplication of polynomials modulo \<open>X^256 + 1\<close> into the pairwise products of
  \<open>multiply_ntts\<close>.
\<close>

subsection \<open>Arithmetic modulo q\<close>

abbreviation (input) iv :: "u16 \<Rightarrow> int" where
  "iv x \<equiv> uint x"

definition reduced :: "u16 \<Rightarrow> bool" where
  "reduced x \<longleftrightarrow> iv x < 3329"

lemma reduced_mod: "reduced x \<Longrightarrow> iv x mod 3329 = iv x"
  by (simp add: reduced_def)

lemma uint_small_16: "0 \<le> x \<Longrightarrow> x < 65536 \<Longrightarrow> uint (word_of_int x :: u16) = x"
  by (simp add: uint_word_of_int)

lemma ucast_32_16: "uint w < 65536 \<Longrightarrow> uint (ucast (w :: u32) :: u16) = uint w"
  by (simp add: unsigned_ucast_eq take_bit_eq_mod)

lemma uint_16_bounds: "0 \<le> uint (x :: u16)" "uint (x :: u16) < 65536"
  using uint_lt2p [of x] by simp_all

lemma ucast_16_32: "uint (ucast (x :: u16) :: u32) = uint x"
  using uint_16_bounds [of x] by (simp add: unsigned_ucast_eq take_bit_eq_mod)

lemma uint_MQ: "uint MQ = 3329"
  by (simp add: MQ_def)

lemma barrett_val: "iv (barrett x) = uint x mod 3329"
proof -
  have "uint (x mod MQ) = uint x mod 3329" by (simp add: uint_mod uint_MQ)
  moreover have "uint x mod 3329 < 65536" using pos_mod_bound [of 3329 "uint x"] by linarith
  ultimately show ?thesis by (simp add: barrett_def ucast_32_16)
qed

lemma fq_mul_val: "iv (fq_mul a b) = (iv a * iv b) mod 3329"
proof -
  have "iv a * iv b \<le> 65535 * 65535" using uint_16_bounds [of a] uint_16_bounds [of b] by (intro mult_mono) auto
  then have "uint (ucast a * ucast b :: u32) = iv a * iv b"
    using uint_16_bounds(1) [of a] uint_16_bounds(1) [of b]
    by (simp add: uint_word_ariths ucast_16_32 mod_pos_pos_trivial)
  then show ?thesis by (simp add: fq_mul_def barrett_val)
qed

lemma fq_add_val:
  assumes "reduced a" "reduced b"
  shows "iv (fq_add a b) = (iv a + iv b) mod 3329"
proof -
  have s: "uint (ucast a + ucast b :: u32) = iv a + iv b"
    using uint_16_bounds [of a] uint_16_bounds [of b] by (simp add: uint_word_ariths ucast_16_32 mod_pos_pos_trivial)
  have b: "0 \<le> iv a" "0 \<le> iv b" "iv a < 3329" "iv b < 3329" using assms by (simp_all add: reduced_def)
  show ?thesis
  proof (cases "iv a + iv b < 3329")
    case True
    then show ?thesis using b by (simp add: fq_add_def Let_def word_le_def s uint_MQ ucast_32_16)
  next
    case False
    then have "uint (ucast a + ucast b - MQ :: u32) = iv a + iv b - 3329"
      using b by (simp add: uint_word_ariths s uint_MQ ucast_16_32 mod_pos_pos_trivial)
    moreover have "(iv a + iv b) mod 3329 = iv a + iv b - 3329"
      using False b by (intro int_mod_pos_eq [of _ _ 1]) auto
    ultimately show ?thesis using False b by (simp add: fq_add_def Let_def word_le_def s uint_MQ ucast_32_16)
  qed
qed

lemma fq_sub_val:
  assumes "reduced a" "reduced b"
  shows "iv (fq_sub a b) = (iv a - iv b) mod 3329"
proof -
  have b: "0 \<le> iv a" "0 \<le> iv b" "iv a < 3329" "iv b < 3329" using assms by (simp_all add: reduced_def)
  show ?thesis
  proof (cases "b \<le> a")
    case True
    then have "iv b \<le> iv a" "iv (a - b) = iv a - iv b" by (simp_all add: word_le_def uint_sub_if')
    moreover from this have "(iv a - iv b) mod 3329 = iv a - iv b" using b by (intro mod_pos_pos_trivial) linarith+
    ultimately show ?thesis using True by (simp add: fq_sub_def)
  next
    case False
    then have lt: "iv a < iv b" by (simp add: word_le_def)
    have "(iv a + 3329 - iv b) mod 4294967296 = iv a + 3329 - iv b"
      using b lt by (intro mod_pos_pos_trivial) linarith+
    then have "uint (ucast a + MQ - ucast b :: u32) = iv a + 3329 - iv b"
      by (simp add: uint_word_ariths uint_MQ ucast_16_32 mod_diff_left_eq)
    moreover have "(iv a - iv b) mod 3329 = iv a - iv b + 3329"
      using lt b by (intro int_mod_pos_eq [of _ _ "-1"]) linarith+
    ultimately show ?thesis using False b lt by (simp add: fq_sub_def ucast_32_16)
  qed
qed

lemma reduced_ops [simp]:
  "reduced (fq_mul a b)" "reduced a \<Longrightarrow> reduced b \<Longrightarrow> reduced (fq_add a b)"
  "reduced a \<Longrightarrow> reduced b \<Longrightarrow> reduced (fq_sub a b)" "reduced 0"
  by (simp_all add: reduced_def [of "fq_mul a b"] reduced_def [of "fq_add a b"] reduced_def [of "fq_sub a b"]
      reduced_def [of 0] fq_mul_val fq_add_val fq_sub_val)

subsection \<open>One layer as a pointwise map\<close>

definition fwd_at :: "u16 \<Rightarrow> nat \<Rightarrow> u16 list \<Rightarrow> nat \<Rightarrow> u16" where
  "fwd_at zeta len f i =
     (if i mod (2 * len) < len then fq_add (f ! i) (fq_mul zeta (f ! (i + len)))
      else fq_sub (f ! (i - len)) (fq_mul zeta (f ! i)))"

definition inv_at :: "u16 \<Rightarrow> nat \<Rightarrow> u16 list \<Rightarrow> nat \<Rightarrow> u16" where
  "inv_at zeta len f i =
     (if i mod (2 * len) < len then fq_add (f ! i) (f ! (i + len))
      else fq_mul zeta (fq_sub (f ! i) (f ! (i - len))))"

lemma length_foldl_butterfly [simp]:
  "length (foldl (butterfly z len) f js) = length f" "length (foldl (butterfly_inv z len) f js) = length f"
  by (induction js arbitrary: f) (simp_all add: butterfly_def butterfly_inv_def Let_def)

lemma nth_butterfly:
  assumes "j + len < length g" "0 < len" "i < length g"
  shows "butterfly z len g j ! i =
      (if i = j then fq_add (g ! j) (fq_mul z (g ! (j + len)))
       else if i = j + len then fq_sub (g ! j) (fq_mul z (g ! (j + len))) else g ! i)"
    and "butterfly_inv z len g j ! i =
      (if i = j then fq_add (g ! j) (g ! (j + len))
       else if i = j + len then fq_mul z (fq_sub (g ! (j + len)) (g ! j)) else g ! i)"
  using assms by (auto simp: butterfly_def butterfly_inv_def Let_def nth_list_update)

text \<open>The inner loop, after \<open>m\<close> of its \<open>len\<close> steps in the block at \<open>s\<close>.\<close>

lemma nth_butterflies:
  assumes "m \<le> len" "s + 2 * len \<le> length f" "i < length f"
  shows "foldl (butterfly z len) f [s..<s + m] ! i =
     (if s \<le> i \<and> i < s + m then fq_add (f ! i) (fq_mul z (f ! (i + len)))
      else if s + len \<le> i \<and> i < s + len + m then fq_sub (f ! (i - len)) (fq_mul z (f ! i)) else f ! i)"
  using assms
proof (induction m arbitrary: i)
  case (Suc m)
  let ?g = "foldl (butterfly z len) f [s..<s + m]"
  let ?a = "fq_add (f ! (s + m)) (fq_mul z (f ! (s + m + len)))"
  let ?b = "fq_sub (f ! (s + m)) (fq_mul z (f ! (s + m + len)))"
  have at: "?g ! (s + m) = f ! (s + m)" "?g ! (s + m + len) = f ! (s + m + len)"
    using Suc.prems by (subst Suc.IH; auto)+
  have "foldl (butterfly z len) f [s..<s + Suc m] ! i = butterfly z len ?g (s + m) ! i" by simp
  also have "\<dots> = (if i = s + m then ?a else if i = s + m + len then ?b else ?g ! i)"
    using Suc.prems by (subst nth_butterfly) (auto simp: at)
  finally show ?case using Suc.IH [of i] Suc.prems by (auto split: if_splits)
qed auto

lemma nth_butterflies_inv:
  assumes "m \<le> len" "s + 2 * len \<le> length f" "i < length f"
  shows "foldl (butterfly_inv z len) f [s..<s + m] ! i =
     (if s \<le> i \<and> i < s + m then fq_add (f ! i) (f ! (i + len))
      else if s + len \<le> i \<and> i < s + len + m then fq_mul z (fq_sub (f ! i) (f ! (i - len))) else f ! i)"
  using assms
proof (induction m arbitrary: i)
  case (Suc m)
  let ?g = "foldl (butterfly_inv z len) f [s..<s + m]"
  let ?a = "fq_add (f ! (s + m)) (f ! (s + m + len))"
  let ?b = "fq_mul z (fq_sub (f ! (s + m + len)) (f ! (s + m)))"
  have at: "?g ! (s + m) = f ! (s + m)" "?g ! (s + m + len) = f ! (s + m + len)"
    using Suc.prems by (subst Suc.IH; auto)+
  have "foldl (butterfly_inv z len) f [s..<s + Suc m] ! i = butterfly_inv z len ?g (s + m) ! i" by simp
  also have "\<dots> = (if i = s + m then ?a else if i = s + m + len then ?b else ?g ! i)"
    using Suc.prems by (subst nth_butterfly) (auto simp: at)
  finally show ?case using Suc.IH [of i] Suc.prems by (auto split: if_splits)
qed auto

text \<open>Position \<open>i\<close> against the block \<open>m\<close> of width \<open>2 * len\<close>.\<close>

lemma in_block:
  assumes "0 < len"
  shows "2 * len * m \<le> i \<and> i < 2 * len * m + len \<longleftrightarrow> i div (2 * len) = m \<and> i mod (2 * len) < len"
    and "2 * len * m + len \<le> i \<and> i < 2 * len * m + len + len \<longleftrightarrow> i div (2 * len) = m \<and> \<not> i mod (2 * len) < (len :: nat)"
proof -
  have r: "i mod (2 * len) < 2 * len" using assms by simp
  have e: "i div (2 * len) = m \<Longrightarrow> i = 2 * len * m + i mod (2 * len)" by (metis mult_div_mod_eq)
  have d: "2 * len * m \<le> i \<Longrightarrow> i < 2 * len * m + 2 * len \<Longrightarrow> i div (2 * len) = m"
    by (rule div_nat_eqI) auto
  show "2 * len * m \<le> i \<and> i < 2 * len * m + len \<longleftrightarrow> i div (2 * len) = m \<and> i mod (2 * len) < len"
  proof
    assume a: "2 * len * m \<le> i \<and> i < 2 * len * m + len"
    then have "i div (2 * len) = m" using d by linarith
    then show "i div (2 * len) = m \<and> i mod (2 * len) < len" using e a by linarith
  qed (use e in linarith)
  show "2 * len * m + len \<le> i \<and> i < 2 * len * m + len + len \<longleftrightarrow> i div (2 * len) = m \<and> \<not> i mod (2 * len) < len"
  proof
    assume a: "2 * len * m + len \<le> i \<and> i < 2 * len * m + len + len"
    then have "i div (2 * len) = m" using d by linarith
    then show "i div (2 * len) = m \<and> \<not> i mod (2 * len) < len" using e a by linarith
  qed (use e r in linarith)
qed

lemma nth_block:
  assumes "0 < len" "2 * len * m + 2 * len \<le> length f" "i < length f"
  shows "foldl (butterfly z len) f [2 * len * m..<2 * len * m + len] ! i =
      (if i div (2 * len) = m then fwd_at z len f i else f ! i)"
    and "foldl (butterfly_inv z len) f [2 * len * m..<2 * len * m + len] ! i =
      (if i div (2 * len) = m then inv_at z len f i else f ! i)"
  using nth_butterflies [of len len "2 * len * m" f i z] nth_butterflies_inv [of len len "2 * len * m" f i z]
    in_block [OF assms(1), of m i] assms
  by (auto simp: fwd_at_def inv_at_def)

lemma block_mates:
  assumes "0 < len"
  shows "i mod (2 * len) < len \<Longrightarrow> (i + len) div (2 * len) = i div (2 * len) \<and> \<not> (i + len) mod (2 * len) < len"
    and "\<not> i mod (2 * len) < len \<Longrightarrow> (i - len) div (2 * len) = i div (2 * len) \<and> (i - len) mod (2 * len) < (len :: nat) \<and> len \<le> i"
proof -
  have a: "i mod (2 * len) < len \<Longrightarrow> 2 * len * (i div (2 * len)) + len \<le> i + len \<and> i + len < 2 * len * (i div (2 * len)) + len + len"
    using in_block(1) [OF assms, of "i div (2 * len)" i] by auto
  then show "i mod (2 * len) < len \<Longrightarrow> (i + len) div (2 * len) = i div (2 * len) \<and> \<not> (i + len) mod (2 * len) < len"
    using in_block(2) [OF assms, of "i div (2 * len)" "i + len"] by blast
  assume h: "\<not> i mod (2 * len) < len"
  then have b: "2 * len * (i div (2 * len)) + len \<le> i \<and> i < 2 * len * (i div (2 * len)) + len + len"
    using in_block(2) [OF assms, of "i div (2 * len)" i] by auto
  then have "2 * len * (i div (2 * len)) \<le> i - len \<and> i - len < 2 * len * (i div (2 * len)) + len" "len \<le> i" by linarith+
  then show "(i - len) div (2 * len) = i div (2 * len) \<and> (i - len) mod (2 * len) < len \<and> len \<le> i"
    using in_block(1) [OF assms, of "i div (2 * len)" "i - len"] by blast
qed

lemma at_cong:
  assumes "0 < len" "\<And>j. j div (2 * len) = i div (2 * len) \<Longrightarrow> f ! j = g ! j"
  shows "fwd_at z len f i = fwd_at z len g i" and "inv_at z len f i = inv_at z len g i"
  using assms(2) [of i] assms(2) [of "i + len"] assms(2) [of "i - len"] block_mates [OF assms(1), of i]
  by (auto simp: fwd_at_def inv_at_def)

text \<open>A whole layer: every position takes the zeta of its block.\<close>

lemma block_less: "i < 2 * len * nb \<Longrightarrow> i div (2 * len) < (nb :: nat)"
  by (simp add: less_mult_imp_div_less mult.commute)

lemma same_block_less: "0 < len \<Longrightarrow> 2 * len * nb = MN \<Longrightarrow> i < MN \<Longrightarrow> j div (2 * len) = i div (2 * len) \<Longrightarrow> j < MN"
  using block_less [of i len nb]
  by (metis div_less_iff_less_mult mult.commute nat_0_less_mult_iff zero_less_numeral)

text \<open>Doing block \<open>m\<close> first and the blocks after it next is doing the blocks from \<open>m\<close> on.\<close>

lemma layer_step:
  assumes "0 < len" "2 * len * nb = MN" "A = fwd_at \<or> A = inv_at"
    and g: "\<And>j. j < MN \<Longrightarrow> g ! j = (if j div (2 * len) = m then A (zf m) len f j else f ! j)"
  shows "map (\<lambda>i. if Suc m \<le> i div (2 * len) then A (zf (i div (2 * len))) len g i else g ! i) [0..<MN] =
    map (\<lambda>i. if m \<le> i div (2 * len) then A (zf (i div (2 * len))) len f i else f ! i) [0..<MN]"
proof (rule map_cong)
  fix i assume "i \<in> set [0..<MN]"
  then have i: "i < MN" by simp
  show "(if Suc m \<le> i div (2 * len) then A (zf (i div (2 * len))) len g i else g ! i) =
      (if m \<le> i div (2 * len) then A (zf (i div (2 * len))) len f i else f ! i)"
  proof (cases "Suc m \<le> i div (2 * len)")
    case True
    have "g ! j = f ! j" if "j div (2 * len) = i div (2 * len)" for j
      using g [OF same_block_less [OF assms(1,2) i that]] that True by simp
    then have "A zz len g i = A zz len f i" for zz
      using at_cong [OF assms(1), of i g f zz] assms(3) by auto
    then show ?thesis using True by simp
  next
    case False
    then show ?thesis using g [OF i] by (auto simp: not_less_eq_eq le_antisym)
  qed
qed simp

lemma layer_done:
  assumes "2 * len * nb = MN" "length f = MN"
  shows "map (\<lambda>i. if nb \<le> i div (2 * len) then h i else f ! i) [0..<MN] = f"
proof -
  have "map (\<lambda>i. if nb \<le> i div (2 * len) then h i else f ! i) [0..<MN] = map ((!) f) [0..<MN]"
    by (rule map_cong) (auto dest: block_less [of _ len nb, unfolded assms(1)])
  then show ?thesis using assms(2) by (metis map_nth)
qed

lemma block_fits: "m < nb \<Longrightarrow> 2 * len * nb = MN \<Longrightarrow> 2 * len * m + 2 * len \<le> MN"
  by (metis Suc_leI add.commute mult_Suc_right mult_le_mono2)

lemma ntt_blocks_run:
  assumes "0 < len" "2 * len * nb = MN" "m \<le> nb" "length f = MN"
  shows "ntt_blocks z len (2 * len * m) k f = (k + (nb - m),
    map (\<lambda>i. if m \<le> i div (2 * len) then fwd_at (z ! (k + (i div (2 * len) - m))) len f i else f ! i) [0..<MN])"
  using assms(3,4)
proof (induction "nb - m" arbitrary: m k f)
  case 0
  then have m: "m = nb" by simp
  show ?case unfolding m using 0(3) by (subst ntt_blocks.simps) (simp add: layer_done [OF assms(2)] assms(2))
next
  case (Suc d)
  then have m: "m < nb" by simp
  note le = block_fits [OF m assms(2)]
  let ?g = "foldl (butterfly (z ! k) len) f [2 * len * m..<2 * len * m + len]"
  have step: "map (\<lambda>i. if Suc m \<le> i div (2 * len) then fwd_at (z ! (k + (i div (2 * len) - m))) len ?g i else ?g ! i) [0..<MN] =
      map (\<lambda>i. if m \<le> i div (2 * len) then fwd_at (z ! (k + (i div (2 * len) - m))) len f i else f ! i) [0..<MN]"
    by (rule layer_step [OF assms(1,2), where zf = "\<lambda>b. z ! (k + (b - m))"])
       (use nth_block(1) [OF assms(1), of m f] le Suc.prems in auto)
  have "ntt_blocks z len (2 * len * m) k f = ntt_blocks z len (2 * len * Suc m) (k + 1) ?g"
    using le assms(1) by (subst ntt_blocks.simps) (simp add: add.commute)
  also have "\<dots> = (k + (nb - m), map (\<lambda>i. if Suc m \<le> i div (2 * len) then fwd_at (z ! (k + (i div (2 * len) - m))) len ?g i
      else ?g ! i) [0..<MN])"
    using Suc.hyps(1) [of "Suc m" ?g "k + 1"] Suc.hyps(2) Suc.prems m
    by (simp add: Suc_diff_Suc cong: if_cong)
  finally show ?case using step by simp
qed

lemma ntt_inv_blocks_run:
  assumes "0 < len" "2 * len * nb = MN" "m \<le> nb" "length f = MN"
  shows "ntt_inv_blocks z len (2 * len * m) k f = (k - (nb - m),
    map (\<lambda>i. if m \<le> i div (2 * len) then inv_at (z ! (k - (i div (2 * len) - m))) len f i else f ! i) [0..<MN])"
  using assms(3,4)
proof (induction "nb - m" arbitrary: m k f)
  case 0
  then have m: "m = nb" by simp
  show ?case unfolding m using 0(3) by (subst ntt_inv_blocks.simps) (simp add: layer_done [OF assms(2)] assms(2))
next
  case (Suc d)
  then have m: "m < nb" by simp
  note le = block_fits [OF m assms(2)]
  let ?g = "foldl (butterfly_inv (z ! k) len) f [2 * len * m..<2 * len * m + len]"
  have step: "map (\<lambda>i. if Suc m \<le> i div (2 * len) then inv_at (z ! (k - (i div (2 * len) - m))) len ?g i else ?g ! i) [0..<MN] =
      map (\<lambda>i. if m \<le> i div (2 * len) then inv_at (z ! (k - (i div (2 * len) - m))) len f i else f ! i) [0..<MN]"
    by (rule layer_step [OF assms(1,2), where zf = "\<lambda>b. z ! (k - (b - m))"])
       (use nth_block(2) [OF assms(1), of m f] le Suc.prems in auto)
  have "ntt_inv_blocks z len (2 * len * m) k f = ntt_inv_blocks z len (2 * len * Suc m) (k - 1) ?g"
    using le assms(1) by (subst ntt_inv_blocks.simps) (simp add: add.commute)
  also have "\<dots> = (k - (nb - m), map (\<lambda>i. if Suc m \<le> i div (2 * len) then inv_at (z ! (k - (i div (2 * len) - m))) len ?g i
      else ?g ! i) [0..<MN])"
    using Suc.hyps(1) [of "Suc m" ?g "k - 1"] Suc.hyps(2) Suc.prems m
    by (simp add: Suc_diff_Suc diff_diff_eq2 cong: if_cong)
  finally show ?case using step by simp
qed

definition fwd_layer :: "nat \<Rightarrow> nat \<Rightarrow> u16 list \<Rightarrow> u16 list" where
  "fwd_layer len k f = map (\<lambda>i. fwd_at (zeta_pow_bitrev ! (k + i div (2 * len))) len f i) [0..<MN]"

definition inv_layer :: "nat \<Rightarrow> nat \<Rightarrow> u16 list \<Rightarrow> u16 list" where
  "inv_layer len k f = map (\<lambda>i. inv_at (zeta_pow_bitrev ! (k - i div (2 * len))) len f i) [0..<MN]"

lemma length_layer [simp]: "length (fwd_layer len k f) = MN" "length (inv_layer len k f) = MN"
  by (simp_all add: fwd_layer_def inv_layer_def)

lemma ntt_blocks_layer:
  assumes "length f = MN" "2 * len * nb = MN" "0 < len"
  shows "ntt_blocks zeta_pow_bitrev len 0 k f = (k + nb, fwd_layer len k f)"
    and "ntt_inv_blocks zeta_pow_bitrev len 0 k f = (k - nb, inv_layer len k f)"
  using ntt_blocks_run [OF assms(3,2) _ assms(1), of 0] ntt_inv_blocks_run [OF assms(3,2) _ assms(1), of 0]
  by (simp_all add: fwd_layer_def inv_layer_def)

lemma ntt_layers_step:
  "2 \<le> len \<Longrightarrow> length f = MN \<Longrightarrow> 2 * len * nb = MN \<Longrightarrow>
    ntt_layers zeta_pow_bitrev len k f = ntt_layers zeta_pow_bitrev (len div 2) (k + nb) (fwd_layer len k f)"
  "len \<le> 128 \<Longrightarrow> 0 < len \<Longrightarrow> length f = MN \<Longrightarrow> 2 * len * nb = MN \<Longrightarrow>
    ntt_inv_layers zeta_pow_bitrev len k f = ntt_inv_layers zeta_pow_bitrev (len * 2) (k - nb) (inv_layer len k f)"
  by (subst ntt_layers.simps ntt_inv_layers.simps; simp add: ntt_blocks_layer [of f len nb])+

lemma ntt_as_layers:
  assumes "length f = MN"
  shows "ntt f = fwd_layer 2 64 (fwd_layer 4 32 (fwd_layer 8 16 (fwd_layer 16 8 (fwd_layer 32 4 (fwd_layer 64 2 (fwd_layer 128 1 f))))))"
proof -
  have "ntt f = ntt_layers zeta_pow_bitrev 64 2 (fwd_layer 128 1 f)"
    using ntt_layers_step(1) [of 128 f 1 1] assms by (simp add: ntt_def MN_def flip: numeral_2_eq_2)
  also have "\<dots> = ntt_layers zeta_pow_bitrev 1 128 (fwd_layer 2 64 (fwd_layer 4 32 (fwd_layer 8 16 (fwd_layer 16 8
      (fwd_layer 32 4 (fwd_layer 64 2 (fwd_layer 128 1 f)))))))"
    by (simp add: MN_def ntt_layers_step(1) [of 64 _ 2] ntt_layers_step(1) [of 32 _ 4] ntt_layers_step(1) [of 16 _ 8]
        ntt_layers_step(1) [of 8 _ 16] ntt_layers_step(1) [of 4 _ 32] ntt_layers_step(1) [of 2 _ 64])
  finally show ?thesis by (simp add: ntt_layers.simps [of _ 1] ntt_layers.simps [of _ "Suc 0"])
qed

lemma ntt_inv_as_layers:
  assumes "length f = MN"
  shows "ntt_inv f = map (\<lambda>c. fq_mul c 3303) (inv_layer 128 1 (inv_layer 64 3 (inv_layer 32 7 (inv_layer 16 15
    (inv_layer 8 31 (inv_layer 4 63 (inv_layer 2 127 f)))))))"
  using assms
  by (simp add: ntt_inv_def MN_def ntt_layers_step(2) [of 64 _ 2] ntt_layers_step(2) [of 32 _ 4] ntt_layers_step(2) [of 16 _ 8]
      ntt_layers_step(2) [of 8 _ 16] ntt_layers_step(2) [of 4 _ 32] ntt_layers_step(2) [of 2 _ 64]
      ntt_layers_step(2) [of 128 _ 1] ntt_inv_layers.simps [of _ 256])

subsection \<open>The tables\<close>

lemma length_zeta_powers [simp]: "length (zeta_powers n c) = n"
  by (induction n arbitrary: c) simp_all

lemma nth_zeta_powers:
  "i < n \<Longrightarrow> uint c < 3329 \<Longrightarrow> iv (zeta_powers n c ! i) = (uint c * 17 ^ i) mod 3329"
proof (induction n arbitrary: c i)
  case (Suc n)
  show ?case
  proof (cases i)
    case 0
    then show ?thesis using Suc.prems by (simp add: ucast_32_16)
  next
    case (Suc j)
    have "uint (c * 17 mod MQ) = (uint c * 17) mod 3329"
      using Suc.prems(2) by (simp add: uint_mod uint_MQ uint_word_ariths mod_pos_pos_trivial)
    with Suc Suc.prems Suc.IH [of j "c * 17 mod MQ"] show ?thesis
      by (simp add: mod_mult_left_eq mult.assoc)
  qed
qed simp

definition zeta_at :: "nat \<Rightarrow> int" where
  "zeta_at e = 17 ^ e mod 3329"

lemma fold_two: "Suc (Suc 0) = 2"
  by simp

lemma bitrev7_less: "\<forall>i \<in> set [0..<128]. bitrev7 i < 128"
  by (simp add: bitrev7_def upt_rec fold_two)

definition pair_ok :: "nat \<Rightarrow> bool" where
  "pair_ok nb \<longleftrightarrow> (\<forall>b \<in> set [0..<nb]. bitrev7 (nb + b) + bitrev7 (2 * nb - 1 - b) = 128)"

lemma pair_oks: "pair_ok 1" "pair_ok 2" "pair_ok 4" "pair_ok 8" "pair_ok 16" "pair_ok 32" "pair_ok 64"
  by (simp_all add: pair_ok_def bitrev7_def upt_rec fold_two)

lemma bitrev7_child: "\<forall>k \<in> set [1..<64]. 2 * bitrev7 (2 * k) = bitrev7 k \<and> 2 * bitrev7 (2 * k + 1) = bitrev7 k + 128"
  by (simp add: bitrev7_def upt_rec fold_two)

lemma bitrev7_leaf: "\<forall>b \<in> set [0..<64]. bitrev7 (64 + b) = 2 * bitrev7 (2 * b) + 1 \<and> bitrev7 (64 + b) + 128 = 2 * bitrev7 (2 * b + 1) + 1"
  by (simp add: bitrev7_def upt_rec fold_two)

subsection \<open>Values in the ring of integers modulo 3329\<close>

type_synonym zq = "3329"

definition vq :: "u16 \<Rightarrow> zq" where
  "vq x = of_int (uint x)"

lemma of_int_zq: "(of_int x :: zq) = of_int y \<longleftrightarrow> x mod 3329 = y mod 3329"
proof -
  have "(of_int x :: zq) = of_int y \<longleftrightarrow> (of_int (x - y) :: zq) = 0" by simp
  also have "\<dots> \<longleftrightarrow> 3329 dvd (x - y)" by (subst of_int_eq_0_iff_char_dvd) simp
  finally show ?thesis by (simp add: mod_eq_dvd_iff)
qed

lemma of_int_mod_zq: "(of_int (x mod 3329) :: zq) = of_int x"
  by (simp add: of_int_zq)

lemma vq_inj: "reduced x \<Longrightarrow> reduced y \<Longrightarrow> vq x = vq y \<Longrightarrow> x = y"
  unfolding vq_def of_int_zq by (simp add: reduced_mod word_uint_eqI)

lemma vq_ops:
  "reduced a \<Longrightarrow> reduced b \<Longrightarrow> vq (fq_add a b) = vq a + vq b"
  "reduced a \<Longrightarrow> reduced b \<Longrightarrow> vq (fq_sub a b) = vq a - vq b" "vq (fq_mul a b) = vq a * vq b"
  by (simp_all only: vq_def fq_add_val fq_sub_val fq_mul_val of_int_mod_zq) simp_all

definition Z :: "nat \<Rightarrow> zq" where
  "Z k = vq (zeta_pow_bitrev ! k)"

lemma Z_pow: "k < 128 \<Longrightarrow> Z k = 17 ^ bitrev7 k"
  using bitrev7_less nth_zeta_powers [of "bitrev7 k" 128 1]
  by (simp add: Z_def vq_def zeta_pow_bitrev_def Let_def of_int_mod_zq)

lemma gamma_pow: "k < 128 \<Longrightarrow> vq (gamma_table ! k) = 17 ^ (2 * bitrev7 k + 1)"
proof -
  assume k: "k < 128"
  then have "bitrev7 k < 128" using bitrev7_less by simp
  then have "2 * bitrev7 k + 1 < 256" by simp
  with k nth_zeta_powers [of "2 * bitrev7 k + 1" 256 1] show ?thesis
    by (simp add: vq_def gamma_table_def Let_def of_int_mod_zq)
qed

lemma zeta_128: "(17 :: zq) ^ 128 = - 1"
proof -
  have "(of_int (17 ^ 128) :: zq) = of_int (- 1)" by (subst of_int_zq) simp
  then show ?thesis by simp
qed

lemma Z_pair:
  assumes "pair_ok nb" "b < nb" "2 * nb \<le> 128"
  shows "Z (nb + b) * Z (2 * nb - 1 - b) = - 1"
proof -
  have "bitrev7 (nb + b) + bitrev7 (2 * nb - 1 - b) = 128" using assms(1,2) by (simp add: pair_ok_def)
  then show ?thesis using assms(2,3) by (simp add: Z_pow zeta_128 flip: power_add)
qed

subsection \<open>The inverse transform\<close>

definition poly_ok :: "u16 list \<Rightarrow> bool" where
  "poly_ok f \<longleftrightarrow> length f = MN \<and> (\<forall>x \<in> set f. reduced x)"

lemma poly_ok_nth: "poly_ok f \<Longrightarrow> i < MN \<Longrightarrow> reduced (f ! i)"
  by (simp add: poly_ok_def)

lemma poly_eqI: "poly_ok f \<Longrightarrow> poly_ok g \<Longrightarrow> (\<And>i. i < MN \<Longrightarrow> vq (f ! i) = vq (g ! i)) \<Longrightarrow> f = g"
  by (rule nth_equalityI) (auto simp: poly_ok_def intro: vq_inj)

lemma layer_index:
  assumes "2 * len * nb = MN" "0 < len" "i < MN"
  shows "i div (2 * len) < nb" "i mod (2 * len) < len \<Longrightarrow> i + len < MN" "i - len < MN"
  using block_less [of i len nb] same_block_less [OF assms(2,1,3), of "i + len"] block_mates(1) [OF assms(2), of i] assms
  by auto

lemma poly_ok_fwd:
  assumes "poly_ok f" "2 * len * nb = MN" "0 < len"
  shows "poly_ok (fwd_layer len k f)"
proof -
  have "reduced (fwd_at z len f i)" if "i < MN" for z i
    using layer_index [OF assms(2,3) that] poly_ok_nth [OF assms(1)] that by (simp add: fwd_at_def)
  then show ?thesis by (auto simp: poly_ok_def fwd_layer_def)
qed

lemma poly_ok_inv:
  assumes "poly_ok f" "2 * len * nb = MN" "0 < len"
  shows "poly_ok (inv_layer len k f)"
proof -
  have "reduced (inv_at z len f i)" if "i < MN" for z i
    using layer_index [OF assms(2,3) that] poly_ok_nth [OF assms(1)] that by (simp add: inv_at_def)
  then show ?thesis by (auto simp: poly_ok_def inv_layer_def)
qed

lemma vq_fwd:
  assumes "poly_ok f" "2 * len * nb = MN" "0 < len" "i < MN"
  shows "vq (fwd_layer len k f ! i) =
    (if i mod (2 * len) < len then vq (f ! i) + Z (k + i div (2 * len)) * vq (f ! (i + len))
     else vq (f ! (i - len)) - Z (k + i div (2 * len)) * vq (f ! i))"
  using layer_index [OF assms(2-4)] poly_ok_nth [OF assms(1)] assms(4)
  by (simp add: fwd_layer_def fwd_at_def vq_ops Z_def)

lemma vq_inv:
  assumes "poly_ok f" "2 * len * nb = MN" "0 < len" "i < MN"
  shows "vq (inv_layer len k f ! i) =
    (if i mod (2 * len) < len then vq (f ! i) + vq (f ! (i + len))
     else Z (k - i div (2 * len)) * (vq (f ! i) - vq (f ! (i - len))))"
  using layer_index [OF assms(2-4)] poly_ok_nth [OF assms(1)] assms(4)
  by (simp add: inv_layer_def inv_at_def vq_ops Z_def)

text \<open>Undoing one layer doubles every coefficient.\<close>

definition scaled :: "zq \<Rightarrow> u16 list \<Rightarrow> u16 list \<Rightarrow> bool" where
  "scaled c f g \<longleftrightarrow> poly_ok g \<and> (\<forall>i < MN. vq (g ! i) = c * vq (f ! i))"

lemma inv_fwd_layer:
  assumes "poly_ok f" "2 * len * nb = MN" "0 < len" "pair_ok nb" "2 * nb \<le> 128" "scaled c (fwd_layer len nb f) g"
  shows "scaled (2 * c) f (inv_layer len (2 * nb - 1) g)"
  unfolding scaled_def
proof (intro conjI allI impI)
  have g: "poly_ok g" "\<And>i. i < MN \<Longrightarrow> vq (g ! i) = c * vq (fwd_layer len nb f ! i)" using assms(6) by (auto simp: scaled_def)
  show "poly_ok (inv_layer len (2 * nb - 1) g)" by (rule poly_ok_inv [OF g(1) assms(2,3)])
  fix i assume i: "i < MN"
  note b = layer_index [OF assms(2,3) i]
  note m = block_mates [OF assms(3), of i]
  note F = vq_fwd [OF assms(1-3)]
  show "vq (inv_layer len (2 * nb - 1) g ! i) = 2 * c * vq (f ! i)"
  proof (cases "i mod (2 * len) < len")
    case True
    then show ?thesis
      using b m i by (simp add: vq_inv [OF g(1) assms(2,3)] g(2) F algebra_simps)
  next
    case False
    have "Z (nb + i div (2 * len)) * Z (2 * nb - 1 - i div (2 * len)) = - 1" by (rule Z_pair [OF assms(4) b(1) assms(5)])
    then have z: "Z (2 * nb - 1 - i div (2 * len)) * (Z (nb + i div (2 * len)) * x) = - x" for x
      by (metis (no_types) mult.assoc mult.commute mult_minus1)
    have "vq (inv_layer len (2 * nb - 1) g ! i) = Z (2 * nb - 1 - i div (2 * len)) * (Z (nb + i div (2 * len)) * (- 2 * c * vq (f ! i)))"
      using False b(3) m i by (simp add: vq_inv [OF g(1) assms(2,3)] g(2) F algebra_simps)
    then show ?thesis unfolding z by simp
  qed
qed

lemma scaled_refl: "poly_ok f \<Longrightarrow> scaled 1 f f"
  by (simp add: scaled_def)

text \<open>The seven layers in order, and back.\<close>

fun fwds :: "nat \<Rightarrow> u16 list \<Rightarrow> u16 list" where
  "fwds 0 f = f"
| "fwds (Suc j) f = fwd_layer (2 ^ (7 - j)) (2 ^ j) (fwds j f)"

fun invs :: "nat \<Rightarrow> u16 list \<Rightarrow> u16 list" where
  "invs 0 g = g"
| "invs (Suc j) g = inv_layer (2 ^ Suc j) (2 ^ (7 - j) - 1) (invs j g)"

lemma ntt_fwds: "length f = MN \<Longrightarrow> ntt f = fwds 7 f"
  by (simp add: ntt_as_layers eval_nat_numeral)

lemma ntt_inv_invs: "length g = MN \<Longrightarrow> ntt_inv g = map (\<lambda>c. fq_mul c 3303) (invs 7 g)"
  by (simp add: ntt_inv_as_layers eval_nat_numeral)

lemma layer_width: "j < 7 \<Longrightarrow> 2 * 2 ^ (7 - j) * 2 ^ j = MN" "j < 7 \<Longrightarrow> 2 * 2 ^ Suc j * 2 ^ (6 - j) = MN"
proof -
  have p: "a + b = 8 \<Longrightarrow> (2 :: nat) ^ a * 2 ^ b = 256" for a b by (simp flip: power_add)
  show "j < 7 \<Longrightarrow> 2 * 2 ^ (7 - j) * 2 ^ j = MN" using p [of "Suc (7 - j)" j] by (simp add: MN_def)
  show "j < 7 \<Longrightarrow> 2 * 2 ^ Suc j * 2 ^ (6 - j) = MN" using p [of "Suc (Suc j)" "6 - j"] by (simp add: MN_def)
qed

lemma poly_ok_fwds: "poly_ok f \<Longrightarrow> j \<le> 7 \<Longrightarrow> poly_ok (fwds j f)"
  by (induction j) (simp_all add: poly_ok_fwd [OF _ layer_width(1)])

lemma poly_ok_ntt: "poly_ok f \<Longrightarrow> poly_ok (ntt f)"
  using poly_ok_fwds [of f 7] ntt_fwds [of f] by (simp add: poly_ok_def)

lemma pair_ok_pow: "s \<le> 6 \<Longrightarrow> pair_ok (2 ^ s)"
proof -
  assume "s \<le> 6"
  then have "s \<in> {0, 1, 2, 3, 4, 5, 6}" by auto
  then show ?thesis using pair_oks by auto
qed

lemma invs_fwds:
  assumes "poly_ok f" "j \<le> 7"
  shows "scaled (2 ^ j) (fwds (7 - j) f) (invs j (fwds 7 f))"
  using assms(2)
proof (induction j)
  case 0
  then show ?case using scaled_refl [OF poly_ok_fwds [OF assms(1), of 7]] by simp
next
  case (Suc j)
  then have j: "j < 7" "7 - j = Suc (6 - j)" "7 - (6 - j) = Suc j" "(2 :: nat) * 2 ^ (6 - j) = 2 ^ (7 - j)"
    by (auto simp: Suc_diff_le simp flip: power_Suc)
  have sc: "scaled (2 ^ j) (fwd_layer (2 ^ Suc j) (2 ^ (6 - j)) (fwds (6 - j) f)) (invs j (fwds 7 f))"
    using Suc j by (simp del: power_Suc)
  have le: "2 * 2 ^ (6 - j) \<le> (128 :: nat)" using power_increasing [of "6 - j" 6 "2 :: nat"] by simp
  from inv_fwd_layer [OF poly_ok_fwds [OF assms(1), of "6 - j"] layer_width(2) [OF j(1)] _ pair_ok_pow le sc]
  show ?case using j by (simp del: power_Suc add: power_Suc [of "2 :: zq"])
qed

lemma ntt_inv_ntt:
  assumes f: "poly_ok f"
  shows "ntt_inv (ntt f) = f"
proof -
  have len: "length f = MN" "length (ntt f) = MN" using f poly_ok_ntt [OF f] by (simp_all add: poly_ok_def)
  have s: "scaled 128 f (invs 7 (ntt f))" using invs_fwds [OF f, of 7] by (simp add: ntt_fwds [OF len(1)])
  have "vq 3303 * 128 = 1"
  proof -
    have "(of_int (3303 * 128) :: zq) = of_int 1" by (subst of_int_zq) simp
    then show ?thesis by (simp add: vq_def)
  qed
  then have "128 * vq (f ! i) * vq 3303 = vq (f ! i)" for i
    using mult.assoc [of "vq 3303" 128 "vq (f ! i)"] by (simp add: mult.commute)
  with s f show ?thesis
    unfolding ntt_inv_invs [OF len(2)]
    by (intro poly_eqI) (auto simp: scaled_def poly_ok_def vq_ops)
qed

subsection \<open>Multiplication of polynomials modulo a binomial\<close>

text \<open>\<open>xcoef L y n i\<close> is the coefficient of \<open>X ^ i\<close> in \<open>X ^ n\<close> reduced modulo \<open>X ^ L - y\<close>.\<close>

definition xcoef :: "nat \<Rightarrow> 'a::comm_ring_1 \<Rightarrow> nat \<Rightarrow> nat \<Rightarrow> 'a" where
  "xcoef L y n i = (if n mod L = i then y ^ (n div L) else 0)"

definition mulmod :: "nat \<Rightarrow> 'a::comm_ring_1 \<Rightarrow> (nat \<Rightarrow> 'a) \<Rightarrow> (nat \<Rightarrow> 'a) \<Rightarrow> nat \<Rightarrow> 'a" where
  "mulmod L y p q i = (\<Sum>j<L. \<Sum>k<L. p j * q k * xcoef L y (j + k) i)"

lemma mulmod_cong: "(\<And>j. j < L \<Longrightarrow> p j = p' j) \<Longrightarrow> (\<And>j. j < L \<Longrightarrow> q j = q' j) \<Longrightarrow> mulmod L y p q i = mulmod L y p' q' i"
  by (simp add: mulmod_def)

lemma sum_halves:
  fixes h :: "nat \<Rightarrow> 'a::comm_monoid_add"
  shows "(\<Sum>j<2 * L. h j) = (\<Sum>j<L. h j + h (j + L))"
proof -
  have "(\<Sum>j<a + b. h j) = (\<Sum>j<a. h j) + (\<Sum>j<b. h (a + j))" for a b :: nat
    by (induction b) (simp_all add: add.assoc)
  from this [of L L] show ?thesis by (simp add: sum.distrib add.commute mult_2)
qed

lemma xcoef_shift: "0 < L \<Longrightarrow> xcoef L y (n + L) i = y * xcoef L y n i"
  by (simp add: xcoef_def div_add_self2)

lemma xcoef_split:
  assumes "0 < L" "i < L" "y * y = g"
  shows "xcoef (2 * L) g n i + y * xcoef (2 * L) g n (i + L) = xcoef L y n i"
proof -
  define d r where dr: "d = n div (2 * L)" "r = n mod (2 * L)"
  have n: "n = 2 * L * d + r" "r < 2 * L" using assms(1) by (simp_all add: dr)
  have p: "g ^ d = y ^ (2 * d)" by (simp add: assms(3) [symmetric] power_mult power2_eq_square)
  show ?thesis
  proof (cases "r < L")
    case True
    then have "n div L = 2 * d" "n mod L = r" using n by (auto intro!: div_nat_eqI simp: mod_nat_eqI)
    then show ?thesis using True assms(2) by (auto simp: xcoef_def p simp flip: dr)
  next
    case False
    then have "n div L = 2 * d + 1" using n by (intro div_nat_eqI) auto
    moreover from this have "n mod L = r - L" using n False by (simp flip: minus_mult_div_eq_mod)
    ultimately show ?thesis using False n(2) assms(2) by (auto simp: xcoef_def p simp flip: dr)
  qed
qed

lemma mulmod_hom:
  assumes "0 < L" "i < L" "y * y = g"
  shows "mulmod (2 * L) g p q i + y * mulmod (2 * L) g p q (i + L) =
    mulmod L y (\<lambda>j. p j + y * p (j + L)) (\<lambda>j. q j + y * q (j + L)) i"
proof -
  have "mulmod (2 * L) g p q i + y * mulmod (2 * L) g p q (i + L) =
      (\<Sum>j<2 * L. \<Sum>k<2 * L. p j * q k * (xcoef (2 * L) g (j + k) i + y * xcoef (2 * L) g (j + k) (i + L)))"
    by (simp add: mulmod_def sum_distrib_left sum.distrib algebra_simps)
  also have "\<dots> = (\<Sum>j<2 * L. \<Sum>k<2 * L. p j * q k * xcoef L y (j + k) i)"
    by (simp only: xcoef_split [OF assms])
  also have "\<dots> = (\<Sum>j<L. \<Sum>k<L. (p j * q k * xcoef L y (j + k) i + p j * q (k + L) * xcoef L y (j + (k + L)) i) +
      (p (j + L) * q k * xcoef L y (j + L + k) i + p (j + L) * q (k + L) * xcoef L y (j + L + (k + L)) i))"
    by (simp only: sum_halves sum.distrib add.assoc add.left_commute)
  also have "\<dots> = mulmod L y (\<lambda>j. p j + y * p (j + L)) (\<lambda>j. q j + y * q (j + L)) i"
    unfolding mulmod_def
  proof (intro sum.cong refl)
    fix j k
    have "xcoef L y (j + (k + L)) i = y * xcoef L y (j + k) i" "xcoef L y (j + L + k) i = y * xcoef L y (j + k) i"
      "xcoef L y (j + L + (k + L)) i = y * (y * xcoef L y (j + k) i)"
      using xcoef_shift [OF assms(1), of y "j + k" i] xcoef_shift [OF assms(1), of y "j + k + L" i]
      by (simp_all add: add_ac)
    then show "(p j * q k * xcoef L y (j + k) i + p j * q (k + L) * xcoef L y (j + (k + L)) i) +
      (p (j + L) * q k * xcoef L y (j + L + k) i + p (j + L) * q (k + L) * xcoef L y (j + L + (k + L)) i) =
      (p j + y * p (j + L)) * (q k + y * q (k + L)) * xcoef L y (j + k) i"
      by (simp add: algebra_simps)
  qed
  finally show ?thesis .
qed

text \<open>All blocks of width \<open>B\<close> at once, block \<open>b\<close> modulo \<open>X ^ B - g b\<close>.\<close>

definition lmul :: "nat \<Rightarrow> (nat \<Rightarrow> zq) \<Rightarrow> (nat \<Rightarrow> zq) \<Rightarrow> (nat \<Rightarrow> zq) \<Rightarrow> nat \<Rightarrow> zq" where
  "lmul B g F G i = mulmod B (g (i div B)) (\<lambda>j. F (B * (i div B) + j)) (\<lambda>j. G (B * (i div B) + j)) (i mod B)"

text \<open>One layer on values: block \<open>b\<close> of width \<open>2 * len\<close> splits modulo \<open>X ^ len - z b\<close> and
  \<open>X ^ len + z b\<close>.\<close>

definition sgn_zeta :: "(nat \<Rightarrow> zq) \<Rightarrow> nat \<Rightarrow> zq" where
  "sgn_zeta z c = (if even c then z (c div 2) else - z (c div 2))"

definition fw :: "nat \<Rightarrow> (nat \<Rightarrow> zq) \<Rightarrow> (nat \<Rightarrow> zq) \<Rightarrow> nat \<Rightarrow> zq" where
  "fw len z F i = (let c = i div len; r = i mod len
     in F (2 * len * (c div 2) + r) + sgn_zeta z c * F (2 * len * (c div 2) + (r + len)))"

lemma fw_lmul:
  assumes "0 < len" "\<And>b. b < nb \<Longrightarrow> z b * z b = g b" "i < 2 * len * nb"
  shows "fw len z (lmul (2 * len) g F G) i = lmul len (sgn_zeta z) (fw len z F) (fw len z G) i"
proof -
  define c r b where crb: "c = i div len" "r = i mod len" "b = c div 2"
  have r: "r < len" using assms(1) by (simp add: crb)
  have "c < 2 * nb" using assms(3) by (simp add: crb less_mult_imp_div_less mult_ac)
  then have b: "b < nb" by (simp add: crb)
  have idx: "(2 * len * b + t) div (2 * len) = b" "(2 * len * b + t) mod (2 * len) = t" if "t < 2 * len" for t
    using that by (auto intro!: div_nat_eqI)
  have idx': "(len * c + t) div len = c" "(len * c + t) mod len = t" if "t < len" for t
    using that by (auto intro!: div_nat_eqI)
  let ?P = "\<lambda>j. F (2 * len * b + j)" and ?Q = "\<lambda>j. G (2 * len * b + j)"
  have "fw len z (lmul (2 * len) g F G) i =
      mulmod (2 * len) (g b) ?P ?Q r + sgn_zeta z c * mulmod (2 * len) (g b) ?P ?Q (r + len)"
    using r by (simp add: fw_def lmul_def idx crb(1,2) [symmetric] crb(3) [symmetric] Let_def)
  also have "\<dots> = mulmod len (sgn_zeta z c) (\<lambda>j. ?P j + sgn_zeta z c * ?P (j + len)) (\<lambda>j. ?Q j + sgn_zeta z c * ?Q (j + len)) r"
    using assms(2) [OF b] by (intro mulmod_hom [OF assms(1) r]) (simp add: sgn_zeta_def crb(3) [symmetric])
  also have "\<dots> = lmul len (sgn_zeta z) (fw len z F) (fw len z G) i"
    unfolding lmul_def crb(1,2) [symmetric]
    by (rule mulmod_cong) (simp_all add: fw_def idx' crb(3) [symmetric] Let_def)
  finally show ?thesis .
qed

definition G :: "nat \<Rightarrow> zq" where
  "G k = (if k = 1 then - 1 else if even k then Z (k div 2) else - Z (k div 2))"

lemma Z_square: "1 \<le> k \<Longrightarrow> k < 128 \<Longrightarrow> Z k * Z k = G k"
proof (cases "k = 1")
  case True
  have "bitrev7 1 = 64" by (simp add: bitrev7_def)
  then show ?thesis using zeta_128 by (simp add: True Z_pow G_def flip: power_add)
next
  case False
  assume k: "1 \<le> k" "k < 128"
  then have h: "1 \<le> k div 2" "k div 2 < 64" using False by auto
  have sq: "Z k * Z k = 17 ^ (2 * bitrev7 k)" using k by (simp add: Z_pow power_add [symmetric] mult_2)
  have c: "2 * bitrev7 (2 * (k div 2)) = bitrev7 (k div 2)" "2 * bitrev7 (2 * (k div 2) + 1) = bitrev7 (k div 2) + 128"
    using bitrev7_child h by auto
  show ?thesis
  proof (cases "even k")
    case True
    then have "2 * (k div 2) = k" by simp
    then show ?thesis using sq c(1) h False True by (simp add: G_def Z_pow)
  next
    case odd: False
    then have "2 * (k div 2) + 1 = k" by (simp add: odd_two_times_div_two_succ)
    then have "2 * bitrev7 k = bitrev7 (k div 2) + 128" using c(2) by simp
    then have "Z k * Z k = 17 ^ bitrev7 (k div 2) * 17 ^ 128" unfolding sq by (simp only: power_add)
    then show ?thesis unfolding zeta_128 using h False odd by (simp add: G_def Z_pow)
  qed
qed

lemma sgn_zeta_G: "even nb \<or> nb = 1 \<Longrightarrow> 1 \<le> nb \<Longrightarrow> sgn_zeta (\<lambda>b. Z (nb + b)) c = G (2 * nb + c)"
  by (auto simp: sgn_zeta_def G_def)

lemma vq_fwd_fw:
  assumes "poly_ok f" "2 * len * nb = MN" "0 < len" "i < MN"
  shows "vq (fwd_layer len k f ! i) = fw len (\<lambda>b. Z (k + b)) (\<lambda>j. vq (f ! j)) i"
proof -
  define b c r where bcr: "b = i div (2 * len)" "c = i div len" "r = i mod len"
  have c: "c div 2 = b" by (simp add: bcr div_mult2_eq mult.commute)
  have i: "i = len * c + r" "r < len" using assms(3) by (simp_all add: bcr)
  have fw: "fw len (\<lambda>b. Z (k + b)) (\<lambda>j. vq (f ! j)) i =
      vq (f ! (2 * len * b + r)) + (if even c then Z (k + b) else - Z (k + b)) * vq (f ! (2 * len * b + (r + len)))"
    unfolding fw_def Let_def sgn_zeta_def bcr(2,3) [symmetric] c ..
  show ?thesis
  proof (cases "even c")
    case True
    then have e: "2 * len * b + r = i" using i c by (auto elim!: evenE)
    then have "i mod (2 * len) = r" "2 * len * b + (r + len) = i + len" using i(2) by auto
    then show ?thesis unfolding fw vq_fwd [OF assms] bcr(1) [symmetric] using True i(2) e by (simp add: add.assoc [symmetric])
  next
    case False
    then have e: "2 * len * b + (r + len) = i" using i c by (auto elim!: oddE simp: algebra_simps)
    then have "i mod (2 * len) = r + len" "2 * len * b + r = i - len" using i(2) by auto
    then show ?thesis unfolding fw vq_fwd [OF assms] bcr(1) [symmetric] using False i(2) e by simp
  qed
qed

lemma fw_cong:
  assumes "0 < len" "2 * len * nb = MN" "i < MN" "\<And>j. j < MN \<Longrightarrow> F j = F' j"
  shows "fw len z F i = fw len z F' i"
proof -
  have "i div len < 2 * nb" using assms(2,3) by (simp add: less_mult_imp_div_less mult_ac)
  then have "i div len div 2 < nb" by simp
  then have "2 * len * (i div len div 2) + 2 * len \<le> MN" by (rule block_fits) (rule assms(2))
  moreover have "i mod len < len" using assms(1) by simp
  ultimately have "2 * len * (i div len div 2) + i mod len < MN" "2 * len * (i div len div 2) + (i mod len + len) < MN" by linarith+
  then show ?thesis using assms(4) by (simp add: fw_def Let_def)
qed

text \<open>After \<open>j\<close> layers the product of two polynomials is the blockwise product.\<close>

lemma fwds_product:
  assumes "poly_ok a" "poly_ok b" "poly_ok h" "\<And>i. i < MN \<Longrightarrow> vq (h ! i) = lmul MN (\<lambda>b. G (1 + b)) (\<lambda>j. vq (a ! j)) (\<lambda>j. vq (b ! j)) i"
    and "j \<le> 7" "i < MN"
  shows "vq (fwds j h ! i) = lmul (2 ^ (8 - j)) (\<lambda>b. G (2 ^ j + b)) (\<lambda>t. vq (fwds j a ! t)) (\<lambda>t. vq (fwds j b ! t)) i"
  using assms(5,6)
proof (induction j arbitrary: i)
  case 0
  then show ?case using assms(4) by (simp add: MN_def)
next
  case (Suc j)
  then have j: "j < 7" "j \<le> 7" "2 * 2 ^ (7 - j) = (2 :: nat) ^ (8 - j)" "8 - Suc j = 7 - j"
    by (auto simp: Suc_diff_le simp flip: power_Suc)
  let ?len = "2 ^ (7 - j) :: nat" and ?nb = "2 ^ j :: nat"
  note w = layer_width(1) [OF j(1)]
  have nb: "?nb < 128" using power_strict_increasing [OF j(1), of "2 :: nat"] by simp
  have bnd: "?nb + b < 128" if "b < ?nb" for b
    using that power_increasing [of "Suc j" 7 "2 :: nat"] j(1) by simp
  note F = vq_fwd_fw [OF _ w]
  have "vq (fwds (Suc j) h ! i) = fw ?len (\<lambda>b. Z (?nb + b)) (\<lambda>t. vq (fwds j h ! t)) i"
    using F [OF poly_ok_fwds [OF assms(3) j(2)]] Suc.prems by simp
  also have "\<dots> = fw ?len (\<lambda>b. Z (?nb + b)) (lmul (2 * ?len) (\<lambda>b. G (?nb + b)) (\<lambda>t. vq (fwds j a ! t)) (\<lambda>t. vq (fwds j b ! t))) i"
    by (rule fw_cong [OF _ w]) (use Suc.IH [OF j(2)] Suc.prems j(3) in auto)
  also have "\<dots> = lmul ?len (sgn_zeta (\<lambda>b. Z (?nb + b))) (fw ?len (\<lambda>b. Z (?nb + b)) (\<lambda>t. vq (fwds j a ! t)))
      (fw ?len (\<lambda>b. Z (?nb + b)) (\<lambda>t. vq (fwds j b ! t))) i"
    by (rule fw_lmul [where nb = ?nb]) (use bnd w Suc.prems in \<open>auto intro: Z_square\<close>)
  also have "\<dots> = lmul ?len (\<lambda>b. G (2 ^ Suc j + b)) (\<lambda>t. vq (fwds (Suc j) a ! t)) (\<lambda>t. vq (fwds (Suc j) b ! t)) i"
  proof -
    have s: "sgn_zeta (\<lambda>b. Z (?nb + b)) c = G (2 ^ Suc j + c)" for c
      using sgn_zeta_G [of ?nb c] by (cases j) auto
    have blk: "?len * (i div ?len) + t < MN" if "t < ?len" for t
    proof -
      have "i div ?len < 2 * ?nb" using w Suc.prems by (simp add: less_mult_imp_div_less mult_ac)
      then have "?len * Suc (i div ?len) \<le> ?len * (2 * ?nb)" by (intro mult_le_mono2) simp
      then show ?thesis using that w by (simp add: mult_ac)
    qed
    show ?thesis unfolding lmul_def s
      by (rule mulmod_cong) (use blk F [OF poly_ok_fwds [OF assms(1) j(2)]] F [OF poly_ok_fwds [OF assms(2) j(2)]] in auto)
  qed
  finally show ?case by (simp only: j(4))
qed

subsection \<open>The reference product\<close>

text \<open>The coefficient \<open>i\<close> of a product of two polynomials modulo \<open>X ^ 256 + 1\<close> and modulo 3329.\<close>

definition poly_mul :: "u16 list \<Rightarrow> u16 list \<Rightarrow> u16 list" where
  "poly_mul a b = map (\<lambda>i. word_of_int ((\<Sum>j<MN. if j \<le> i then uint (a ! j) * uint (b ! (i - j))
     else - (uint (a ! j) * uint (b ! (MN + i - j)))) mod 3329)) [0..<MN]"

lemma mulmod_minus_one:
  assumes "i < N"
  shows "mulmod N (- 1) p q i = (\<Sum>j<N. if j \<le> i then p j * q (i - j) else - (p j * q (N + i - j)))"
  unfolding mulmod_def
proof (rule sum.cong [OF refl])
  fix j assume "j \<in> {..<N}"
  then have j: "j < N" by simp
  define k where "k = (if j \<le> i then i - j else N + i - j)"
  have k: "k < N" using j assms by (auto simp: k_def)
  have x: "xcoef N (- 1 :: 'a) (j + t) i = (if t = k then (if j \<le> i then 1 else - 1) else 0)" if "t < N" for t
  proof (cases "j + t < N")
    case True
    then show ?thesis using assms that j by (auto simp: xcoef_def k_def)
  next
    case False
    then have "(j + t) div N = 1" using that j by (intro div_nat_eqI) auto
    moreover from this have "(j + t) mod N = j + t - N" by (simp flip: minus_mult_div_eq_mod)
    ultimately show ?thesis using assms that j False by (auto simp: xcoef_def k_def)
  qed
  have "(\<Sum>t<N. p j * q t * xcoef N (- 1) (j + t) i) = (\<Sum>t<N. if t = k then p j * q k * (if j \<le> i then 1 else - 1) else 0)"
    by (rule sum.cong) (auto simp: x)
  also have "\<dots> = p j * q k * (if j \<le> i then 1 else - 1)" using k by simp
  finally show "(\<Sum>t<N. p j * q t * xcoef N (- 1) (j + t) i) = (if j \<le> i then p j * q (i - j) else - (p j * q (N + i - j)))"
    by (simp add: k_def)
qed

lemma word_of_int_q: "iv (word_of_int (x mod 3329)) = x mod 3329"
  using pos_mod_bound [of 3329 x] by (intro uint_small_16) (simp_all add: less_trans)

lemma poly_mul_ok: "poly_ok (poly_mul a b)"
  by (auto simp: poly_ok_def poly_mul_def reduced_def word_of_int_q)

lemma poly_mul_val:
  "i < MN \<Longrightarrow> vq (poly_mul a b ! i) = lmul MN (\<lambda>b. G (1 + b)) (\<lambda>j. vq (a ! j)) (\<lambda>j. vq (b ! j)) i"
proof -
  assume i: "i < MN"
  have if_of_int: "(of_int (if c then x else y) :: zq) = (if c then of_int x else of_int y)" for c x y by simp
  have "vq (poly_mul a b ! i) = (\<Sum>j<MN. if j \<le> i then vq (a ! j) * vq (b ! (i - j)) else - (vq (a ! j) * vq (b ! (MN + i - j))))"
    using i unfolding poly_mul_def vq_def
    by (simp only: nth_map length_upt diff_zero nth_upt add_0 word_of_int_q of_int_mod_zq of_int_sum if_of_int of_int_minus of_int_mult)
  also have "\<dots> = lmul MN (\<lambda>b. G (1 + b)) (\<lambda>j. vq (a ! j)) (\<lambda>j. vq (b ! j)) i"
    using i mulmod_minus_one [OF i, of "\<lambda>j. vq (a ! j)" "\<lambda>j. vq (b ! j)"] by (simp add: lmul_def G_def)
  finally show ?thesis .
qed

lemma G_leaf: "i < 128 \<Longrightarrow> G (128 + i) = vq (gamma_table ! i)"
proof -
  assume i: "i < 128"
  define h where "h = i div 2"
  have h: "h < 64" using i by (simp add: h_def)
  have "bitrev7 (64 + h) = 2 * bitrev7 (2 * h) + 1 \<and> bitrev7 (64 + h) + 128 = 2 * bitrev7 (2 * h + 1) + 1"
    by (rule bspec [OF bitrev7_leaf]) (use h in simp)
  then have l: "bitrev7 (64 + h) = 2 * bitrev7 (2 * h) + 1" "bitrev7 (64 + h) + 128 = 2 * bitrev7 (2 * h + 1) + 1"
    by blast+
  show ?thesis
  proof (cases "even i")
    case True
    then have "i = 2 * h" by (simp add: h_def)
    then show ?thesis using h l(1) by (simp add: G_def gamma_pow Z_pow del: power_Suc)
  next
    case False
    then have "i = 2 * h + 1" by (simp add: h_def odd_two_times_div_two_succ)
    moreover have "(17 :: zq) ^ (2 * bitrev7 (2 * h + 1) + 1) = 17 ^ bitrev7 (64 + h) * 17 ^ 128"
      unfolding l(2) [symmetric] by (rule power_add)
    ultimately show ?thesis unfolding zeta_128 using h by (simp add: G_def gamma_pow Z_pow add.commute [of h] del: power_Suc)
  qed
qed

lemma length_concat2: "length (concat (map (\<lambda>i. [f i, g i]) [0..<n])) = 2 * n"
  by (induction n) simp_all

lemma nth_concat2:
  "i < n \<Longrightarrow> concat (map (\<lambda>i. [f i, g i]) [0..<n]) ! (2 * i) = f i \<and> concat (map (\<lambda>i. [f i, g i]) [0..<n]) ! (2 * i + 1) = g i"
proof (induction n)
  case (Suc n)
  then show ?case by (cases "i < n") (auto simp: nth_append length_concat2 less_Suc_eq)
qed simp

lemma multiply_ntts_alt: "multiply_ntts a b =
    concat (map (\<lambda>i. [fst (base_mul (a ! (2 * i)) (a ! (2 * i + 1)) (b ! (2 * i)) (b ! (2 * i + 1)) (gamma_table ! i)),
      snd (base_mul (a ! (2 * i)) (a ! (2 * i + 1)) (b ! (2 * i)) (b ! (2 * i + 1)) (gamma_table ! i))]) [0..<128])"
  by (simp add: multiply_ntts_def Let_def split_beta)

lemma nth_multiply_ntts:
  assumes "i < 128"
  shows "multiply_ntts a b ! (2 * i) = fst (base_mul (a ! (2 * i)) (a ! (2 * i + 1)) (b ! (2 * i)) (b ! (2 * i + 1)) (gamma_table ! i))"
    and "multiply_ntts a b ! (2 * i + 1) = snd (base_mul (a ! (2 * i)) (a ! (2 * i + 1)) (b ! (2 * i)) (b ! (2 * i + 1)) (gamma_table ! i))"
  unfolding multiply_ntts_alt by (rule nth_concat2 [OF assms, THEN conjunct1]) (rule nth_concat2 [OF assms, THEN conjunct2])

lemma multiply_ntts_ok: "poly_ok (multiply_ntts a b)"
  unfolding poly_ok_def multiply_ntts_alt length_concat2 by (auto simp: MN_def base_mul_def)

lemma multiply_ntts_val:
  assumes "i < MN"
  shows "vq (multiply_ntts a b ! i) = lmul 2 (\<lambda>c. G (128 + c)) (\<lambda>t. vq (a ! t)) (\<lambda>t. vq (b ! t)) i"
proof -
  define h where "h = i div 2"
  have h: "h < 128" using assms by (simp add: h_def MN_def)
  have s2: "(\<Sum>j<2. f j) = f 0 + f 1" for f :: "nat \<Rightarrow> zq" by (simp add: numeral_2_eq_2)
  show ?thesis
  proof (cases "even i")
    case True
    then have "i = 2 * h" by (simp add: h_def)
    then show ?thesis
      using nth_multiply_ntts(1) [OF h] h
      by (simp add: lmul_def mulmod_def s2 xcoef_def G_leaf base_mul_def vq_ops mult_ac)
  next
    case False
    then have "i = 2 * h + 1" by (simp add: h_def odd_two_times_div_two_succ)
    then show ?thesis
      using nth_multiply_ntts(2) [OF h] h mod_Suc [of "h * 2" 2]
      by (simp add: lmul_def mulmod_def s2 xcoef_def G_leaf base_mul_def vq_ops mult.commute)
  qed
qed

text \<open>C22: the transform-based multiplication is polynomial multiplication. For all polynomials with
  256 reduced coefficients, transforming both, multiplying pairwise in the transform domain and
  transforming back yields the product modulo \<open>X ^ 256 + 1\<close> and 3329 given by the schoolbook formula,
  and the inverse transform undoes the transform.\<close>

theorem ntt_multiplication_correct:
  assumes "poly_ok a" "poly_ok b"
  shows "ntt_inv (multiply_ntts (ntt a) (ntt b)) = poly_mul a b \<and> ntt_inv (ntt a) = a"
proof
  have len: "length a = MN" "length b = MN" "length (poly_mul a b) = MN"
    using assms poly_mul_ok [of a b] by (simp_all add: poly_ok_def)
  have "ntt (poly_mul a b) = multiply_ntts (ntt a) (ntt b)"
  proof (rule poly_eqI [OF poly_ok_ntt [OF poly_mul_ok] multiply_ntts_ok])
    fix i assume i: "i < MN"
    have "vq (fwds 7 (poly_mul a b) ! i) = lmul 2 (\<lambda>b. G (128 + b)) (\<lambda>t. vq (fwds 7 a ! t)) (\<lambda>t. vq (fwds 7 b ! t)) i"
      using fwds_product [OF assms poly_mul_ok poly_mul_val, of 7 i] i by simp
    then show "vq (ntt (poly_mul a b) ! i) = vq (multiply_ntts (ntt a) (ntt b) ! i)"
      by (simp add: multiply_ntts_val [OF i] ntt_fwds len)
  qed
  then show "ntt_inv (multiply_ntts (ntt a) (ntt b)) = poly_mul a b"
    using ntt_inv_ntt [OF poly_mul_ok, of a b] by simp
  show "ntt_inv (ntt a) = a" by (rule ntt_inv_ntt [OF assms(1)])
qed

theorem ntt_multiplication_correct_witness:
  "ntt_inv (multiply_ntts (ntt (replicate 256 7)) (ntt (replicate 256 3328))) = poly_mul (replicate 256 7) (replicate 256 3328)"
  by (rule ntt_multiplication_correct [THEN conjunct1]) (simp_all add: poly_ok_def MN_def reduced_def)

end
