(* ===== verification/VC_Mlkem_Props.thy ===== *)
theory VC_Mlkem_Props
  imports VC_Ntt VC_Instance
begin

text \<open>
  Compression, bit packing and rejection sampling of \<^verbatim>\<open>src/primitives/mlkem_inc.rs\<close>, and what
  the two halves of encapsulation return.
\<close>

subsection \<open>Compression\<close>

lemma reciprocal:
  fixes n :: int
  assumes "0 < n" "n \<le> 6819842"
  shows "(n * 5160669) div 17179869184 = (2 * n - 1) div 6658"
proof -
  define t s where ts: "t = (n - 1) div 3329" "s = (n - 1) mod 3329"
  have n: "n = 3329 * t + s + 1" "0 \<le> s" "s < 3329" by (simp_all add: ts)
  have t: "0 \<le> t" "t \<le> 2048" using assms n by linarith+
  have "(2 * n - 1) div 6658 = t" using n by (intro int_div_pos_eq [of _ _ _ "2 * s + 1"]) auto
  moreover have "(n * 5160669) div 17179869184 = t"
    using n t by (intro int_div_pos_eq [of _ _ _ "(s + 1) * 5160669 - t * 2083"]) auto
  ultimately show ?thesis by simp
qed

lemma uint_push_bit_64: "uint (w :: u64) * 2 ^ d < 18446744073709551616 \<Longrightarrow> uint (push_bit d w) = uint w * 2 ^ d"
  by (subst unsigned_push_bit_eq) (simp add: push_bit_eq_mult take_bit_eq_mod)

lemma ucast_64_16_mask: "d \<le> 16 \<Longrightarrow> uint (ucast (y :: u64) AND (push_bit d 1 - 1) :: u16) = uint y mod 2 ^ d"
proof -
  assume d: "d \<le> 16"
  have "push_bit d 1 - 1 = (mask d :: u16)" by (simp add: mask_eq_exp_minus_1)
  then have "ucast y AND (push_bit d 1 - 1) = take_bit d (ucast y :: u16)" by (simp add: take_bit_eq_mask)
  also have "uint \<dots> = take_bit d (uint (ucast y :: u16))" by (simp add: unsigned_take_bit_eq)
  also have "\<dots> = uint y mod 2 ^ d" using d by (simp add: unsigned_ucast_eq take_bit_take_bit min_def take_bit_eq_mod flip: take_bit_eq_mod)
  finally show ?thesis .
qed

text \<open>The division-free compression is the rounding of FIPS 203: for every reduced coefficient and
  every width up to 11 bits, the multiplication by the truncated 34-bit reciprocal and the shift give
  exactly the nearest integer to \<open>2 ^ d * x / q\<close>, modulo \<open>2 ^ d\<close>, without intermediate overflow.\<close>

theorem compress_is_rounding:
  assumes "reduced x" "d \<le> 11"
  shows "uint (compress x d) = ((2 ^ (d + 1) * uint x + 3329) div (2 * 3329)) mod 2 ^ d"
proof -
  have x: "0 \<le> uint x" "uint x < 3329" using assms(1) by (simp_all add: reduced_def)
  have p: "1 \<le> (2 :: int) ^ d" "(2 :: int) ^ d \<le> 2048" using power_increasing [OF assms(2), of "2 :: int"] by simp_all
  have xd: "uint x * 2 ^ d \<le> 3328 * 2048" using x p by (intro mult_mono) auto
  let ?n = "uint x * 2 ^ d + 1665"
  have ux: "uint (ucast x :: u64) = uint x" using uint_16_bounds [of x] by (simp add: unsigned_ucast_eq take_bit_eq_mod)
  have kk: "push_bit 34 1 div ucast MQ = (5160669 :: u64)" "drop_bit 1 (ucast MQ + 1) = (1665 :: u64)"
    by (simp_all add: MQ_def)
  have "uint (push_bit d (ucast x :: u64)) = uint x * 2 ^ d"
    using uint_push_bit_64 [of "ucast x" d] xd by (simp add: ux)
  then have "uint ((push_bit d (ucast x) + 1665) * 5160669 :: u64) = ?n * 5160669"
    using xd x p by (simp add: uint_word_ariths)
  then have y: "uint (drop_bit 34 ((push_bit d (ucast x) + 1665) * 5160669 :: u64)) = (?n * 5160669) div 17179869184"
    by (simp add: drop_bit_eq_div uint_div)
  have n: "0 < ?n" "?n \<le> 6819842" using xd x p by (simp_all add: add_nonneg_pos)
  have "uint (compress x d) = uint (drop_bit 34 ((push_bit d (ucast x) + 1665) * 5160669 :: u64)) mod 2 ^ d"
    unfolding compress_def Let_def kk by (rule ucast_64_16_mask) (use assms(2) in simp)
  also have "\<dots> = ((?n * 5160669) div 17179869184) mod 2 ^ d" by (simp only: y)
  also have "\<dots> = ((2 * ?n - 1) div 6658) mod 2 ^ d" by (simp only: reciprocal [OF n])
  finally show ?thesis by (simp add: algebra_simps)
qed

theorem compress_is_rounding_witness: "uint (compress 3328 10) = ((2 ^ 11 * 3328 + 3329) div (2 * 3329)) mod 2 ^ 10"
  using compress_is_rounding [of 3328 10] by (simp add: reduced_def)

subsection \<open>Bit packing\<close>

text \<open>Setting bits one at a time.\<close>

definition set_bit_at :: "(nat \<Rightarrow> bool) \<Rightarrow> bytes \<Rightarrow> nat \<Rightarrow> bytes" where
  "set_bit_at v out pos = out[pos div 8 := out ! (pos div 8) OR push_bit (pos mod 8) (of_bool (v pos))]"

lemma length_set_bits [simp]: "length (foldl (set_bit_at v) out ps) = length out"
  by (induction ps arbitrary: out) (simp_all add: set_bit_at_def)

lemma bit_set_bits:
  assumes "p < length out" "q < 8"
  shows "bit (foldl (set_bit_at v) out ps ! p) q \<longleftrightarrow> bit (out ! p) q \<or> (8 * p + q \<in> set ps \<and> v (8 * p + q))"
  using assms(1)
proof (induction ps arbitrary: out)
  case (Cons pos ps)
  have "bit (set_bit_at v out pos ! p) q \<longleftrightarrow> bit (out ! p) q \<or> (pos = 8 * p + q \<and> v pos)"
  proof (cases "pos div 8 = p")
    case True
    then have pos: "pos = 8 * p + pos mod 8" by auto
    then have "pos = 8 * p + q \<longleftrightarrow> q = pos mod 8" using assms(2) by auto
    then show ?thesis using True Cons.prems assms(2) by (auto simp: set_bit_at_def bit_simps)
  next
    case False
    then have "pos \<noteq> 8 * p + q" using assms(2) by auto
    then show ?thesis using False by (simp add: set_bit_at_def)
  qed
  moreover have "length (set_bit_at v out pos) = length out" by (simp add: set_bit_at_def)
  ultimately show ?case using Cons.IH [of "set_bit_at v out pos"] Cons.prems by auto
qed simp

text \<open>The nested loops of the encoder visit the positions in order.\<close>

definition coeff_bit :: "u16 list \<Rightarrow> nat \<Rightarrow> nat \<Rightarrow> bool" where
  "coeff_bit cs d pos = bit (cs ! (pos div d)) (pos mod d)"

lemma byte_encode_flat:
  assumes "0 < d"
  shows "byte_encode_d cs d = foldl (set_bit_at (coeff_bit cs d)) (replicate (div_ceil (length cs * d) 8) 0) [0..<length cs * d]"
proof -
  let ?f = "\<lambda>out (i, c). foldl (\<lambda>out b. let bit = ucast (drop_bit b c AND 1) :: u8; pos = i * d + b
      in out[pos div 8 := out ! (pos div 8) OR push_bit (pos mod 8) bit]) out [0..<d]"
  have inner: "?f out (i, cs ! i) = foldl (set_bit_at (coeff_bit cs d)) out [i * d..<Suc i * d]" for out i
  proof -
    have step: "(let bit = ucast (drop_bit b (cs ! i) AND 1) :: u8; pos = i * d + b
        in out[pos div 8 := out ! (pos div 8) OR push_bit (pos mod 8) bit]) = set_bit_at (coeff_bit cs d) out (i * d + b)"
      if "b < d" for b out
    proof -
      have "ucast (drop_bit b (cs ! i) AND 1) = (of_bool (bit (cs ! i) b) :: u8)"
        by (auto simp: and_one_eq bit_iff_odd_drop_bit odd_iff_mod_2_eq_one)
      then show ?thesis using that by (simp add: set_bit_at_def coeff_bit_def Let_def)
    qed
    have "foldl (\<lambda>out b. let bit = ucast (drop_bit b (cs ! i) AND 1) :: u8; pos = i * d + b
        in out[pos div 8 := out ! (pos div 8) OR push_bit (pos mod 8) bit]) out [0..<d] =
        foldl (\<lambda>out b. set_bit_at (coeff_bit cs d) out (i * d + b)) out [0..<d]"
      by (rule foldl_cong) (use step in auto)
    also have "\<dots> = foldl (set_bit_at (coeff_bit cs d)) out (map (\<lambda>b. i * d + b) [0..<d])"
      by (simp add: foldl_map)
    also have "map (\<lambda>b. i * d + b) [0..<d] = [i * d..<Suc i * d]"
      by (rule nth_equalityI) auto
    finally show ?thesis by simp
  qed
  have "foldl ?f out (map (\<lambda>i. (i, cs ! i)) [0..<n]) = foldl (set_bit_at (coeff_bit cs d)) out [0..<n * d]" for n out
  proof (induction n)
    case (Suc n)
    have "[0..<Suc n * d] = [0..<n * d] @ [n * d..<Suc n * d]" using upt_add_eq_append [of 0 "n * d" d] by (simp add: add.commute)
    with Suc show ?case by (simp add: inner [simplified])
  qed simp
  moreover have "enumerate 0 cs = map (\<lambda>i. (i, cs ! i)) [0..<length cs]"
    by (rule nth_equalityI) (auto simp: nth_enumerate_eq)
  ultimately show ?thesis by (simp add: byte_encode_d_def)
qed

lemma length_byte_encode: "0 < d \<Longrightarrow> length (byte_encode_d cs d) = div_ceil (length cs * d) 8"
  by (simp add: byte_encode_flat)

lemma bit_byte_encode:
  assumes "0 < d" "p < length (byte_encode_d cs d)" "q < 8"
  shows "bit (byte_encode_d cs d ! p) q \<longleftrightarrow> 8 * p + q < length cs * d \<and> coeff_bit cs d (8 * p + q)"
  using assms bit_set_bits [of p "replicate (div_ceil (length cs * d) 8) 0" q]
  by (simp add: byte_encode_flat)

lemma bit_byte_decode:
  assumes "i < n" "d \<le> 16" "b < 16"
  shows "bit (byte_decode_d data d n ! i) b \<longleftrightarrow> b < d \<and> bit (data ! ((i * d + b) div 8)) ((i * d + b) mod 8)"
proof -
  let ?g = "\<lambda>c b. let pos = i * d + b; bit = drop_bit (pos mod 8) (data ! (pos div 8)) AND 1 in c OR push_bit b (ucast bit) :: u16"
  have bitv: "ucast (drop_bit k w AND 1) = (of_bool (bit w k) :: u16)" for k and w :: u8
    by (auto simp: and_one_eq bit_iff_odd_drop_bit odd_iff_mod_2_eq_one)
  have "bit (foldl ?g c [0..<m]) b \<longleftrightarrow> bit c b \<or> (b < m \<and> bit (data ! ((i * d + b) div 8)) ((i * d + b) mod 8))" for m c
    by (induction m) (use assms(3) in \<open>auto simp: Let_def bitv bit_simps less_Suc_eq\<close>)
  from this [of 0 d] show ?thesis using assms(1) by (simp add: byte_decode_d_def)
qed

text \<open>Packing coefficients into bytes is lossless in both directions. Decoding an encoding returns
  the low \<open>d\<close> bits of every coefficient, and re-encoding what was decoded from a buffer of exactly the
  needed size returns the buffer, for every width up to 16 bits.\<close>

theorem byte_codec_roundtrip:
  assumes "0 < d" "d \<le> 16"
  shows "byte_decode_d (byte_encode_d cs d) d (length cs) = map (take_bit d) cs \<and>
    (8 * length data = n * d \<longrightarrow> byte_encode_d (byte_decode_d data d n) d = data)"
proof (intro conjI impI)
  show "byte_decode_d (byte_encode_d cs d) d (length cs) = map (take_bit d) cs"
  proof (rule nth_equalityI)
    fix i assume "i < length (byte_decode_d (byte_encode_d cs d) d (length cs))"
    then have i: "i < length cs" by (simp add: byte_decode_d_def)
    have "bit (byte_decode_d (byte_encode_d cs d) d (length cs) ! i) b = bit (take_bit d (cs ! i)) b" if b: "b < 16" for b
    proof (cases "b < d")
      case True
      have pos: "i * d + b < length cs * d" using block_index [OF i True] .
      then have p: "(i * d + b) div 8 < length (byte_encode_d cs d)"
        using assms(1) by (simp add: length_byte_encode div_ceil_less)
      show ?thesis
        using bit_byte_decode [OF i assms(2) b, of "byte_encode_d cs d"] bit_byte_encode [OF assms(1) p] pos True
        by (simp add: coeff_bit_def bit_take_bit_iff)
    next
      case False
      then show ?thesis using bit_byte_decode [OF i assms(2) b] by (simp add: bit_take_bit_iff)
    qed
    then show "byte_decode_d (byte_encode_d cs d) d (length cs) ! i = map (take_bit d) cs ! i"
      using i by (intro bit_word_eqI) simp
  qed (simp add: byte_decode_d_def)
  assume len: "8 * length data = n * d"
  show "byte_encode_d (byte_decode_d data d n) d = data"
  proof (rule nth_equalityI)
    have l: "length (byte_decode_d data d n) = n" by (simp add: byte_decode_d_def)
    show lo: "length (byte_encode_d (byte_decode_d data d n) d) = length data"
      using assms(1) by (simp add: length_byte_encode l div_ceil_def flip: len)
    fix p assume p: "p < length (byte_encode_d (byte_decode_d data d n) d)"
    have "bit (byte_encode_d (byte_decode_d data d n) d ! p) q = bit (data ! p) q" if q: "q < 8" for q
    proof -
      let ?pos = "8 * p + q"
      have pos: "?pos < n * d" using p q lo len by linarith
      then have i: "?pos div d < n" by (simp add: less_mult_imp_div_less)
      have b: "?pos mod d < d" using assms(1) by simp
      then have "?pos mod d < 16" using assms(2) by linarith
      from bit_byte_decode [OF i assms(2) this, of data] show ?thesis
        using bit_byte_encode [OF assms(1) p q] pos b q by (simp add: l coeff_bit_def)
    qed
    then show "byte_encode_d (byte_decode_d data d n) d ! p = data ! p"
      by (intro bit_word_eqI) simp
  qed
qed

theorem byte_codec_roundtrip_witness:
  "byte_decode_d (byte_encode_d [1023, 512, 7, 1000] 10) 10 (length [1023, 512, 7, 1000 :: u16]) = map (take_bit 10) [1023, 512, 7, 1000] \<and>
   byte_encode_d (byte_decode_d [1, 2, 3] 12 2) 12 = [1, 2, 3]"
  using byte_codec_roundtrip [of 10 "[1023, 512, 7, 1000]"] byte_codec_roundtrip [of 12 "[]" "[1, 2, 3]" 2] by simp

subsection \<open>Rejection sampling\<close>

text \<open>The candidates at offset \<open>p\<close> of the stream that are accepted, and those of \<open>n\<close> triples.\<close>

definition accepted_at :: "(nat \<Rightarrow> u8) \<Rightarrow> nat \<Rightarrow> u16 list" where
  "accepted_at xof p =
     (let d1 = ucast (xof p) + push_bit 8 (ucast (xof (p + 1)) AND 0xf) :: u16;
          d2 = drop_bit 4 (ucast (xof (p + 1))) + push_bit 4 (ucast (xof (p + 2))) :: u16
      in filter (\<lambda>c. (ucast c :: u32) < MQ) [d1, d2])"

definition candidates :: "(nat \<Rightarrow> u8) \<Rightarrow> nat \<Rightarrow> nat \<Rightarrow> u16 list" where
  "candidates xof p n = concat (map (\<lambda>t. accepted_at xof (p + 3 * t)) [0..<n])"

lemma candidates_Suc: "candidates xof p (Suc n) = accepted_at xof p @ candidates xof (p + 3) n"
proof -
  have "candidates xof p (Suc n) = concat (map (\<lambda>t. accepted_at xof (p + 3 * t)) (0 # map Suc [0..<n]))"
    by (simp only: candidates_def map_Suc_upt upt_conv_Cons [OF zero_less_Suc])
  then show ?thesis by (simp add: candidates_def comp_def add_ac)
qed

definition sampling :: "(nat \<Rightarrow> u8) \<Rightarrow> nat \<Rightarrow> bytes \<Rightarrow> nat \<Rightarrow> nat \<Rightarrow> bool" where
  "sampling xof rd buf start p \<longleftrightarrow> (\<exists>base. rd = base + 96 \<and> buf = map (\<lambda>i. xof (base + i)) [0..<96] \<and>
     start \<le> 96 \<and> 3 dvd start \<and> p = base + start)"

lemma sample_loop_done: "\<not> length out < MN \<Longrightarrow> sample_loop xof rd buf start out = Some out"
  by (subst sample_loop.simps) simp

lemma sample_step:
  assumes "sampling xof rd buf start p" "length out < MN"
  shows "\<exists>rd' buf' start'. sampling xof rd' buf' start' (p + 3) \<and>
    sample_loop xof rd buf start out =
      (if MN \<le> length (out @ accepted_at xof p) then Some (take MN (out @ accepted_at xof p))
       else sample_loop xof rd' buf' start' (out @ accepted_at xof p))"
proof -
  let ?r = "if start = length buf then (rd + 96, map (\<lambda>i. xof (rd + i)) [0..<96], 0) else (rd, buf, start)"
  obtain rd1 buf1 st1 where r: "?r = (rd1, buf1, st1)" by (cases ?r)
  have s1: "sampling xof rd1 buf1 st1 p" "st1 < 96"
    using assms(1) r by (auto simp: sampling_def split: if_splits)
  then have st: "st1 + 3 \<le> 96" by (auto simp: sampling_def elim!: dvdE)
  then have bytes: "buf1 ! st1 = xof p" "buf1 ! (st1 + 1) = xof (p + 1)" "buf1 ! (st1 + 2) = xof (p + 2)"
    using s1 by (auto simp: sampling_def)
  have nxt: "sampling xof rd1 buf1 (st1 + 3) (p + 3)" using s1 st by (auto simp: sampling_def)
  define d1 d2 where "d1 = (ucast (xof p) + push_bit 8 (ucast (xof (p + 1)) AND 0xf) :: u16)"
    and "d2 = (drop_bit 4 (ucast (xof (p + 1))) + push_bit 4 (ucast (xof (p + 2))) :: u16)"
  let ?out1 = "if (ucast d1 :: u32) < MQ then out @ [d1] else out"
  have last: "Suc (length out) = MN \<Longrightarrow> take (MN - length out) [d1, d2] = [d1]"
  proof -
    assume "Suc (length out) = MN"
    then have "MN - length out = 1" by linarith
    then show ?thesis by simp
  qed
  have "sample_loop xof rd buf start out =
      (if (ucast d1 :: u32) < MQ \<and> length ?out1 = MN then Some ?out1
       else sample_loop xof rd1 buf1 (st1 + 3) (if (ucast d2 :: u32) < MQ then ?out1 @ [d2] else ?out1))"
    by (subst sample_loop.simps) (simp only: assms(2) if_True r Let_def prod.case bytes d1_def d2_def)
  also have "\<dots> = (if MN \<le> length (out @ accepted_at xof p) then Some (take MN (out @ accepted_at xof p))
       else sample_loop xof rd1 buf1 (st1 + 3) (out @ accepted_at xof p))"
    using assms(2) sample_loop_done [of "out @ accepted_at xof p"]
    unfolding accepted_at_def Let_def d1_def [symmetric] d2_def [symmetric]
    by (cases "(ucast d1 :: u32) < MQ"; cases "(ucast d2 :: u32) < MQ") (auto simp: not_less last)
  finally show ?thesis using nxt by blast
qed

lemma sample_loop_returns:
  "sampling xof rd buf start p \<Longrightarrow> length out \<le> MN \<Longrightarrow> MN \<le> length (out @ candidates xof p n) \<Longrightarrow>
    sample_loop xof rd buf start out = Some (take MN (out @ candidates xof p n))"
proof (induction n arbitrary: rd buf start p out)
  case 0
  then show ?case by (subst sample_loop.simps) (simp add: candidates_def)
next
  case (Suc n)
  show ?case
  proof (cases "length out < MN")
    case True
    obtain rd' buf' start' where nxt: "sampling xof rd' buf' start' (p + 3)"
      and eq: "sample_loop xof rd buf start out =
        (if MN \<le> length (out @ accepted_at xof p) then Some (take MN (out @ accepted_at xof p))
         else sample_loop xof rd' buf' start' (out @ accepted_at xof p))"
      using sample_step [OF Suc.prems(1) True] by blast
    then show ?thesis
      using Suc.IH [OF nxt, of "out @ accepted_at xof p"] Suc.prems(3) by (simp add: candidates_Suc)
  next
    case False
    then show ?thesis using Suc.prems(2) by (subst sample_loop.simps) simp
  qed
qed

lemma sampling_start: "sampling xof 96 (map xof [0..<96]) 0 0"
  by (simp add: sampling_def)

text \<open>C24: rejection sampling terminates and is unbiased towards its stream. Whenever the first \<open>n\<close>
  triples of the output stream contain 256 acceptable candidates, for some \<open>n\<close>, sampling returns, and
  its result is the first 256 acceptable candidates of the stream, across all buffer refills.\<close>

theorem sample_ntt_terminates:
  assumes "MN \<le> length (candidates (shake128_fn C (rho @ [i, j])) 0 n)"
  shows "sample_ntt C rho i j = Some (take MN (candidates (shake128_fn C (rho @ [i, j])) 0 n))"
  using sample_loop_returns [OF sampling_start, of "[]" _ n] assms by (simp add: sample_ntt_def Let_def)

theorem sample_ntt_terminates_witness:
  "sample_ntt plain_crypto [7] 0 1 = Some (take MN (candidates (shake128_fn plain_crypto ([7] @ [0, 1])) 0 128))"
proof -
  have "accepted_at (\<lambda>_. 0) p = [0, 0]" for p by (simp add: accepted_at_def MQ_def)
  then have "length (candidates (\<lambda>_. 0) 0 n) = 2 * n" for n by (induction n) (simp_all add: candidates_def)
  then show ?thesis by (intro sample_ntt_terminates) (simp add: plain_crypto_def MN_def)
qed

lemma accepted_reduced: "c \<in> set (accepted_at xof p) \<Longrightarrow> reduced c"
  unfolding accepted_at_def Let_def set_filter reduced_def
  by (simp only: mem_Collect_eq word_less_def ucast_16_32 uint_MQ)

lemma sample_ntt_ok:
  assumes "MN \<le> length (candidates (shake128_fn C (rho @ [i, j])) 0 n)"
  obtains a where "sample_ntt C rho i j = Some a" "poly_ok a"
proof -
  let ?a = "take MN (candidates (shake128_fn C (rho @ [i, j])) 0 n)"
  have "poly_ok ?a" using assms by (auto simp: poly_ok_def candidates_def dest!: in_set_takeD accepted_reduced)
  moreover have "sample_ntt C rho i j = Some ?a"
    using sample_loop_returns [OF sampling_start, of "[]" _ n] assms by (simp add: sample_ntt_def Let_def)
  ultimately show thesis using that by blast
qed

subsection \<open>Encapsulation\<close>

text \<open>SHA3 returns arrays of its output size, and a SHAKE128 stream has enough candidates.\<close>

definition sha3_ok :: "crypto \<Rightarrow> bool" where
  "sha3_ok C \<longleftrightarrow> (\<forall>x. length (sha3_256_fn C x) = 32) \<and> (\<forall>x. length (sha3_512_fn C x) = 64) \<and>
     (\<forall>seed. \<exists>n. MN \<le> length (candidates (shake128_fn C seed) 0 n))"

lemma plain_sha3: "sha3_ok plain_crypto"
proof -
  have "accepted_at (\<lambda>_. 0) p = [0, 0]" for p by (simp add: accepted_at_def MQ_def)
  then have "length (candidates (\<lambda>_. 0) 0 n) = 2 * n" for n by (induction n) (simp_all add: candidates_def)
  then show ?thesis by (auto simp: sha3_ok_def plain_crypto_def MN_def intro!: exI [of _ 128])
qed

lemma matrix_row_total: "sha3_ok C \<Longrightarrow> \<exists>acc'. matrix_row C rho i rs acc = Some acc'"
proof (induction rs arbitrary: acc)
  case (Cons jr rs)
  obtain n where "MN \<le> length (candidates (shake128_fn C (rho @ [of_nat i, of_nat (fst jr)])) 0 n)"
    using Cons.prems unfolding sha3_ok_def by blast
  then obtain a where "sample_ntt C rho (of_nat i) (of_nat (fst jr)) = Some a" by (rule sample_ntt_ok)
  then show ?case using Cons by (cases jr) simp
qed simp

lemma pke_ct1_total:
  assumes "sha3_ok C"
  obtains ct1 where "pke_encrypt_ct1 C rho coins = Some ct1" "length ct1 = CT1_LEN"
proof -
  have "\<forall>i. \<exists>acc. matrix_row C rho i (enumerate 0 (map ntt (sample_vec_cbd C coins 0))) (replicate MN 0) = Some acc"
    by (intro allI matrix_row_total [OF assms])
  from choice [OF this] obtain g
    where g: "\<And>i. matrix_row C rho i (enumerate 0 (map ntt (sample_vec_cbd C coins 0))) (replicate MN 0) = Some (g i)"
    by blast
  let ?e = "\<lambda>(i, acc). byte_encode_d (map (\<lambda>x. compress x DU) (fq_add_list (ntt_inv acc) (sample_vec_cbd C coins (of_nat MK) ! i))) DU"
  have len: "length (byte_encode_d (map (\<lambda>x. compress x DU) (fq_add_list u v)) DU) = 320" for u v
    by (simp add: length_byte_encode DU_def fq_add_list_def MN_def div_ceil_def)
  have "length (concat (map ?e (enumerate 0 (map g [0..<MK])))) = 320 * length (enumerate 0 (map g [0..<MK]))"
    by (subst length_concat_uniform [of _ 320]) (auto simp: len)
  then show thesis
    using that by (simp add: pke_encrypt_ct1_def Let_def g CT1_LEN_def MK_def)
qed

lemma length_pke_ct2: "length (pke_encrypt_ct2 C t coins m) = CT2_LEN"
  by (simp add: pke_encrypt_ct2_def Let_def length_byte_encode DV_def MN_def div_ceil_def CT2_LEN_def)

lemma length_fill32: "length (fst (fill_random 32 r)) = 32"
  by simp

text \<open>C23: incremental encapsulation to a public key always completes with arrays of the declared sizes:
  the header has 64 bytes, the first step never fails on it and returns a 960-byte first part and a
  32-byte secret, the second step accepts the key's own vector and returns a 128-byte second part,
  and it refuses every other vector of the right size whose SHA3-256 with the seed differs.\<close>

theorem incremental_encapsulation_shapes:
  assumes "sha3_ok C" "length ek = 1184" "header_from_ek C ek = (hdr, t)"
  shows "\<exists>sec ct1 k ct2. encaps1 C r hdr = Some (Inr (sec, ct1, k)) \<and> encaps2 C sec t = Inr ct2 \<and>
    length hdr = 64 \<and> length ct1 = CT1_LEN \<and> length ct2 = CT2_LEN \<and> length (join_ct ct1 ct2) = 1088 \<and> length k = 32 \<and>
    length (secret_encode sec) = 160 \<and>
    (\<forall>t'. length t' = EK_VECTOR_LEN \<and> sha3_256 C (t' @ drop EK_VECTOR_LEN ek) \<noteq> sha3_256 C ek \<longrightarrow>
       encaps2 C sec t' = Inl InvalidPublicKey)"
proof -
  have hdr: "hdr = drop EK_VECTOR_LEN ek @ sha3_256 C ek" "t = take EK_VECTOR_LEN ek"
    using assms(3) by (simp_all add: header_from_ek_def Let_def)
  have l: "length (sha3_256 C ek) = 32" "length (drop EK_VECTOR_LEN ek) = 32" "length t = EK_VECTOR_LEN"
    using assms(1,2) by (simp_all add: sha3_ok_def sha3_256_def EK_VECTOR_LEN_def hdr)
  let ?m = "fst (fill_random 32 r)"
  obtain k coins where g: "g_hash C ?m (sha3_256 C ek) = (k, coins)" by (cases "g_hash C ?m (sha3_256 C ek)")
  then have kl: "length k = 32" "length coins = 32" using assms(1) by (auto simp: g_hash_def Let_def sha3_ok_def)
  obtain ct1 where ct1: "pke_encrypt_ct1 C (drop EK_VECTOR_LEN ek) coins = Some ct1" "length ct1 = CT1_LEN"
    using pke_ct1_total [OF assms(1)] by blast
  let ?sec = "\<lparr>es_m = ?m, es_coins = coins, es_k = k, es_rho = drop EK_VECTOR_LEN ek, es_hek = sha3_256 C ek\<rparr>"
  have "encaps1 C r hdr = Some (Inr (?sec, ct1, k))"
    using l ct1 g by (simp add: encaps1_def parse_header_def hdr encaps1_with_m_def)
  moreover have "encaps2 C ?sec t = Inr (pke_encrypt_ct2 C t coins ?m)"
    using l by (simp add: encaps2_def hdr)
  moreover have "length (secret_encode ?sec) = 160" using l kl by (simp add: secret_encode_def)
  ultimately show ?thesis
    using l kl ct1(2) length_pke_ct2 [of C t coins ?m]
    by (intro exI [of _ ?sec] exI [of _ ct1] exI [of _ k] exI [of _ "pke_encrypt_ct2 C t coins ?m"])
       (auto simp: encaps2_def hdr(1) join_ct_def CT1_LEN_def CT2_LEN_def)
qed

theorem incremental_encapsulation_shapes_witness:
  "\<exists>sec ct1 k ct2. encaps1 plain_crypto (\<lambda>_. 1) (replicate 32 3 @ replicate 32 3) = Some (Inr (sec, ct1, k)) \<and>
    encaps2 plain_crypto sec (replicate 1152 3) = Inr ct2 \<and> length (join_ct ct1 ct2) = 1088"
proof -
  have "header_from_ek plain_crypto (replicate 1184 3) = (replicate 32 3 @ replicate 32 3, replicate 1152 3)"
    by (simp add: header_from_ek_def Let_def EK_VECTOR_LEN_def sha3_256_def plain_crypto_def fit_alt)
  from incremental_encapsulation_shapes [OF plain_sha3 _ this] show ?thesis by fastforce
qed

end
