(* ===== verification/VC_Braid_Props.thy ===== *)
theory VC_Braid_Props
  imports VC_Braid_Codec VC_Mlkem_Props
begin

text \<open>
  Correctness of the Braid agreement over a network that loses, repeats and reorders messages: the
  contract of the erasure code as a locale, the values of one epoch, the invariant of the two
  agents, and agreement of the published keys.
\<close>

subsection \<open>What the agents rely on: transport of a byte string in chunks\<close>

locale chunk_transport =
  fixes nxt :: "'e \<Rightarrow> (bytes \<times> 'e) option"
    and add :: "'d \<Rightarrow> bytes \<Rightarrow> (prim_error + unit) \<times> 'd"
    and got :: "'d \<Rightarrow> bytes option"
    and enc_for :: "bytes \<Rightarrow> 'e \<Rightarrow> bool" and dec_for :: "bytes \<Rightarrow> 'd \<Rightarrow> bool"
    and chunk_of :: "bytes \<Rightarrow> bytes \<Rightarrow> bool"
  assumes nxt_total: "enc_for m e \<Longrightarrow> \<exists>c e'. nxt e = Some (c, e') \<and> chunk_of m c \<and> enc_for m e'"
    and add_total: "dec_for m d \<Longrightarrow> chunk_of m c \<Longrightarrow> \<exists>d'. add d c = (Inr (), d') \<and> dec_for m d'"
    and got_only: "dec_for m d \<Longrightarrow> got d = Some x \<Longrightarrow> x = m"
begin

lemma nxtE:
  assumes "enc_for m e"
  obtains c e' where "nxt e = Some (c, e')" "chunk_of m c" "enc_for m e'"
  using nxt_total [OF assms] by blast

lemma addE:
  assumes "dec_for m d" "chunk_of m c"
  obtains d' where "add d c = (Inr (), d')" "dec_for m d'" "got d' = None \<or> got d' = Some m"
proof -
  obtain d' where d': "add d c = (Inr (), d')" "dec_for m d'" using add_total [OF assms] by blast
  then have "got d' = None \<or> got d' = Some m" using got_only [OF d'(2)] by (cases "got d'") auto
  with d' show thesis by (rule that)
qed

end

definition chunk_at :: "bytes \<Rightarrow> u16 \<Rightarrow> bytes" where
  "chunk_at m i = be_bytes 2 i @ row m i"

definition is_chunk :: "bytes \<Rightarrow> bytes \<Rightarrow> bool" where
  "is_chunk m c \<longleftrightarrow> (\<exists>i. c = chunk_at m i)"

definition enc_for :: "bytes \<Rightarrow> encoder \<Rightarrow> bool" where
  "enc_for m e \<longleftrightarrow> msg_k m \<le> 65536 \<and> en_data e = en_data (encoder_new m) \<and> en_k e = msg_k m"

definition dec_for :: "bytes \<Rightarrow> decoder \<Rightarrow> bool" where
  "dec_for m d \<longleftrightarrow> msg_k m \<le> 65536 \<and> (\<exists>S. decoder_for m S d)"

lemma next_chunk_eq:
  assumes "enc_for m e"
  shows "next_chunk e = Some (chunk_at m (en_next e), e\<lparr>en_next := en_next e + 1\<rparr>)"
  using symbol_row_eq [of m "e\<lparr>en_next := en_next e + 1\<rparr>" "en_next e"] assms
  by (simp add: next_chunk_def Let_def enc_for_def chunk_at_def)

interpretation rst: chunk_transport next_chunk add_chunk de_decoded enc_for dec_for is_chunk
proof unfold_locales
  fix m e assume "enc_for m e"
  then show "\<exists>c e'. next_chunk e = Some (c, e') \<and> is_chunk m c \<and> enc_for m e'"
    by (auto simp: next_chunk_eq is_chunk_def) (simp add: enc_for_def)
next
  fix m d c assume "dec_for m d" "is_chunk m c"
  then obtain S i where k: "msg_k m \<le> 65536" and d: "decoder_for m S d" and c: "c = be_bytes 2 i @ row m i"
    by (auto simp: dec_for_def is_chunk_def chunk_at_def)
  obtain res d' where a: "add_chunk d c = (res, d')" by (cases "add_chunk d c")
  then have "res = Inr ()" "decoder_for m (insert i S) d'" using add_chunk_eq [OF k d, of i] c by simp_all
  then show "\<exists>d'. add_chunk d c = (Inr (), d') \<and> dec_for m d'" using a k by (auto simp: dec_for_def)
next
  fix m d x assume "dec_for m d" "de_decoded d = Some x"
  then show "x = m" by (auto simp: dec_for_def decoder_for_def split: if_splits)
qed

lemma enc_for_new: "length m \<le> 2048 \<Longrightarrow> enc_for m (encoder_new m)"
  and dec_for_new: "length m \<le> 2048 \<Longrightarrow> dec_for m (decoder_new (length m))"
proof -
  assume "length m \<le> 2048"
  then have "msg_k m \<le> 65536"
    using div_ceil_less [of 32 65536 "length m"] by (simp add: msg_k_def CHUNK_DATA_32 not_less)
  then show "enc_for m (encoder_new m)" "dec_for m (decoder_new (length m))"
    using decoder_for_new [of m] by (auto simp: enc_for_def dec_for_def)
qed

text \<open>Such encoders and decoders are persisted without loss.\<close>

lemma msg_k_len: "msg_k m \<le> 65536 \<Longrightarrow> length m \<le> 2097152"
  using div_ceil_less [of 32 65536 "length m"] by (simp add: msg_k_def CHUNK_DATA_32 not_less)

lemma enc_for_wf:
  assumes "enc_for m e"
  shows "enc_wf e"
proof -
  have "length (en_data e) \<le> 1048576" "en_k e \<le> 65536" using assms by (simp_all add: enc_for_def SYMS_16)
  then show ?thesis by (simp add: enc_wf_def encoder_wf_def fits32_def encoder_encode_def concat_le2_length)
qed

lemma concat_got_length:
  "\<forall>(i, p) \<in> set g. length p = 32 \<Longrightarrow> length (concat (map put_got g)) = 34 * length g"
  by (induction g) (auto simp: put_got_def)

lemma dec_for_wf:
  assumes "dec_for m d"
  shows "dec_wf d"
proof -
  obtain S where k: "msg_k m \<le> 65536" and d: "decoder_for m S d" using assms by (auto simp: dec_for_def)
  have "length (de_got d) = card (set (map fst (de_got d)))" using d by (intro bt_length) (simp add: decoder_for_def)
  also have "\<dots> \<le> card (UNIV :: u16 set)" by (intro card_mono) simp_all
  finally have g: "length (de_got d) \<le> 65536" by (simp add: card_word)
  have p: "\<forall>(i, p) \<in> set (de_got d). length p = 32" using d by (auto simp: decoder_for_def length_row CHUNK_DATA_32)
  have "length (decoder_encode d) \<le> 17 + 34 * 65536 + 2097152"
    using g msg_k_len [OF k] d concat_got_length [OF p]
    by (auto simp: decoder_encode_def decoder_for_def put_vec_def split: option.split if_splits)
  then show ?thesis
    using g p d k msg_k_len [OF k] unfolding dec_wf_def decoder_wf_def decoder_for_def
    by (auto simp: fits32_def CHUNK_DATA_32 split: if_splits)
qed

subsection \<open>The values of one epoch\<close>

text \<open>What the party that owns the key pair publishes in an epoch is determined by its seed, what the
  other one answers also by the 32 random bytes \<open>m\<close> it draws; \<open>a\<close> is the authenticator both start from.\<close>

definition ep_hdr :: "crypto \<Rightarrow> bytes \<Rightarrow> bytes" where
  "ep_hdr C seed = fst (header_from_ek C (kem_ek C seed))"

definition ep_t :: "crypto \<Rightarrow> bytes \<Rightarrow> bytes" where
  "ep_t C seed = snd (header_from_ek C (kem_ek C seed))"

definition ep_payload :: "crypto \<Rightarrow> u64 \<Rightarrow> authenticator \<Rightarrow> bytes \<Rightarrow> bytes" where
  "ep_payload C e a seed = ep_hdr C seed @ mac_hdr C a e (ep_hdr C seed)"

definition ep_enc :: "crypto \<Rightarrow> bytes \<Rightarrow> bytes \<Rightarrow> encaps_secret \<times> bytes \<times> bytes" where
  "ep_enc C seed m = the (encaps1_with_m C (take 32 (ep_hdr C seed)) (drop 32 (ep_hdr C seed)) m)"

definition ep_sec :: "crypto \<Rightarrow> bytes \<Rightarrow> bytes \<Rightarrow> encaps_secret" where
  "ep_sec C seed m = fst (ep_enc C seed m)"

definition ep_ct1 :: "crypto \<Rightarrow> bytes \<Rightarrow> bytes \<Rightarrow> bytes" where
  "ep_ct1 C seed m = fst (snd (ep_enc C seed m))"

definition ep_ct2 :: "crypto \<Rightarrow> bytes \<Rightarrow> bytes \<Rightarrow> bytes" where
  "ep_ct2 C seed m = projr (encaps2 C (ep_sec C seed m) (ep_t C seed))"

definition ep_ss :: "crypto \<Rightarrow> u64 \<Rightarrow> bytes \<Rightarrow> bytes \<Rightarrow> bytes" where
  "ep_ss C e seed m = projr (kdf_ok C (snd (snd (ep_enc C seed m))) e)"

definition ep_auth :: "crypto \<Rightarrow> u64 \<Rightarrow> authenticator \<Rightarrow> bytes \<Rightarrow> bytes \<Rightarrow> authenticator" where
  "ep_auth C e a seed m = snd (auth_update C e (ep_ss C e seed m) a)"

definition ep_blob :: "crypto \<Rightarrow> u64 \<Rightarrow> authenticator \<Rightarrow> bytes \<Rightarrow> bytes \<Rightarrow> bytes" where
  "ep_blob C e a seed m = ep_ct2 C seed m @
     mac_ct C (ep_auth C e a seed m) e (ep_ct1 C seed m @ ep_ct2 C seed m)"

text \<open>The crate's \<open>encapsulate_deterministic\<close> is FIPS 203 encapsulation, the function the incremental
  steps compute in two parts.\<close>

definition kem_fips203 :: "crypto \<Rightarrow> bool" where
  "kem_fips203 C \<longleftrightarrow> (\<forall>seed m sec ct1 k ct2.
     encaps1_with_m C (take 32 (ep_hdr C seed)) (drop 32 (ep_hdr C seed)) m = Some (sec, ct1, k) \<longrightarrow>
     encaps2 C sec (ep_t C seed) = Inr ct2 \<longrightarrow> kem_encaps C (kem_ek C seed) m = (ct1 @ ct2, k))"

definition braid_laws :: "crypto \<Rightarrow> bool" where
  "braid_laws C \<longleftrightarrow> lens_ok C \<and> sha3_ok C \<and> kem_correct C \<and> kem_fips203 C"

lemma ep_hdr_eq: "ep_hdr C seed = drop EK_VECTOR_LEN (kem_ek C seed) @ sha3_256 C (kem_ek C seed)"
  and ep_t_eq: "ep_t C seed = take EK_VECTOR_LEN (kem_ek C seed)"
  by (simp_all add: ep_hdr_def ep_t_def header_from_ek_def Let_def)

lemma ep_lens:
  assumes "braid_laws C"
  shows "length (ep_hdr C seed) = 64" "length (ep_t C seed) = 1152" "length (ep_payload C e a seed) = 96"
  using assms by (auto simp: braid_laws_def ep_payload_def mac_hdr_def hmac_len ep_hdr_eq ep_t_eq sha3_256_def
      sha3_ok_def kem_correct_def EK_VECTOR_LEN_def)

lemma ep_encaps:
  assumes L: "braid_laws C"
  shows "encaps1_with_m C (take 32 (ep_hdr C seed)) (drop 32 (ep_hdr C seed)) m =
      Some (ep_sec C seed m, ep_ct1 C seed m, snd (snd (ep_enc C seed m)))"
    and "encaps2 C (ep_sec C seed m) (ep_t C seed) = Inr (ep_ct2 C seed m)"
    and "length (ep_ct1 C seed m) = CT1_LEN" "length (ep_ct2 C seed m) = CT2_LEN"
proof -
  have sh: "sha3_ok C" using L by (simp add: braid_laws_def)
  have ekl: "length (kem_ek C seed) = 1184" using L by (simp add: braid_laws_def kem_correct_def)
  have tk: "take 32 (ep_hdr C seed) = drop EK_VECTOR_LEN (kem_ek C seed)"
    "drop 32 (ep_hdr C seed) = sha3_256 C (kem_ek C seed)"
    using ekl by (simp_all add: ep_hdr_eq EK_VECTOR_LEN_def)
  obtain k coins where g: "g_hash C m (sha3_256 C (kem_ek C seed)) = (k, coins)"
    by (cases "g_hash C m (sha3_256 C (kem_ek C seed))")
  obtain ct1 where ct1: "pke_encrypt_ct1 C (drop EK_VECTOR_LEN (kem_ek C seed)) coins = Some ct1" "length ct1 = CT1_LEN"
    using pke_ct1_total [OF sh] by blast
  let ?sec = "\<lparr>es_m = m, es_coins = coins, es_k = k, es_rho = drop EK_VECTOR_LEN (kem_ek C seed), es_hek = sha3_256 C (kem_ek C seed)\<rparr>"
  have e1: "encaps1_with_m C (take 32 (ep_hdr C seed)) (drop 32 (ep_hdr C seed)) m = Some (?sec, ct1, k)"
    using g ct1 by (simp add: encaps1_with_m_def tk)
  then have d: "ep_enc C seed m = (?sec, ct1, k)" by (simp add: ep_enc_def)
  then show "encaps1_with_m C (take 32 (ep_hdr C seed)) (drop 32 (ep_hdr C seed)) m =
      Some (ep_sec C seed m, ep_ct1 C seed m, snd (snd (ep_enc C seed m)))"
    using e1 by (simp add: ep_sec_def ep_ct1_def)
  show "length (ep_ct1 C seed m) = CT1_LEN" using d ct1 by (simp add: ep_ct1_def)
  have e2: "encaps2 C (ep_sec C seed m) (ep_t C seed) = Inr (pke_encrypt_ct2 C (ep_t C seed) coins m)"
    using ekl d by (simp add: encaps2_def ep_sec_def ep_t_eq EK_VECTOR_LEN_def)
  then show "encaps2 C (ep_sec C seed m) (ep_t C seed) = Inr (ep_ct2 C seed m)" by (simp add: ep_ct2_def)
  show "length (ep_ct2 C seed m) = CT2_LEN" using e2 length_pke_ct2 by (simp add: ep_ct2_def)
qed

lemma auth_update_eq:
  assumes "lens_ok C"
  shows "auth_update C e k a = (Inr (), snd (auth_update C e k a))"
proof -
  obtain okm where "hkdf_extract_expand C (Some (au_root a)) k
      (BRAID_PROTOCOL_INFO @ bstr '':Authenticator Update'' @ be_bytes 8 e) 64 = Inr okm"
    using hkdf_ok [OF assms, of 64] by (metis zero_less_numeral numeral_le_iff semiring_norm(68,71,72,73,76,78))
  then show ?thesis by (simp add: auth_update_def Let_def)
qed

lemma kdf_ok_eq:
  assumes "lens_ok C"
  shows "\<exists>ss. kdf_ok C k e = Inr ss \<and> length ss = 32"
  using hkdf_ok [OF assms, of 32 "Some zeros32" k "BRAID_PROTOCOL_INFO @ bstr '':SCKA Key'' @ be_bytes 8 e"]
  unfolding kdf_ok_def by auto

lemma ep_keys:
  assumes L: "braid_laws C"
  shows "kdf_ok C (snd (snd (ep_enc C seed m))) e = Inr (ep_ss C e seed m)"
    and "auth_update C e (ep_ss C e seed m) a = (Inr (), ep_auth C e a seed m)"
    and "length (ep_ss C e seed m) = 32"
proof -
  have "lens_ok C" using L by (simp add: braid_laws_def)
  from kdf_ok_eq [OF this, of "snd (snd (ep_enc C seed m))" e] auth_update_eq [OF this, of e "ep_ss C e seed m" a]
  show "kdf_ok C (snd (snd (ep_enc C seed m))) e = Inr (ep_ss C e seed m)"
    "auth_update C e (ep_ss C e seed m) a = (Inr (), ep_auth C e a seed m)"
    "length (ep_ss C e seed m) = 32"
    by (auto simp: ep_ss_def ep_auth_def)
qed

lemma auth_update_wf:
  assumes "lens_ok C"
  shows "auth_wf (snd (auth_update C e k a))"
proof (rule hkdf_ok [OF assms, of 64 "Some (au_root a)" k "BRAID_PROTOCOL_INFO @ bstr '':Authenticator Update'' @ be_bytes 8 e"])
  fix okm assume "hkdf_extract_expand C (Some (au_root a)) k (BRAID_PROTOCOL_INFO @ bstr '':Authenticator Update'' @ be_bytes 8 e) 64 = Inr okm"
    "length okm = 64"
  then show ?thesis by (simp add: auth_update_def Let_def auth_wf_def)
qed simp_all

lemma encaps1_secret:
  assumes "encaps1_with_m C rho hek m = Some (sec, ct1, k)"
  shows "sec = \<lparr>es_m = m, es_coins = drop 32 (sha3_512_fn C (m @ hek)), es_k = take 32 (sha3_512_fn C (m @ hek)), es_rho = rho, es_hek = hek\<rparr>"
  using assms by (auto simp: encaps1_with_m_def g_hash_def Let_def)

lemma ep_wf:
  assumes L: "braid_laws C" and "length m = 32"
  shows "secret_wf (ep_sec C seed m)"
proof -
  have "length (take 32 (ep_hdr C seed)) = 32" "length (drop 32 (ep_hdr C seed)) = 32" using ep_lens(1) [OF L] by simp_all
  then show "secret_wf (ep_sec C seed m)"
    using encaps1_secret [OF ep_encaps(1) [OF L, of seed m]] assms(2) L by (simp add: secret_wf_def braid_laws_def sha3_ok_def)
qed

lemma ep_auth_wf: "braid_laws C \<Longrightarrow> auth_wf (ep_auth C e a seed m)"
  using auth_update_wf by (simp add: ep_auth_def braid_laws_def)

lemma ep_blob_len: "braid_laws C \<Longrightarrow> length (ep_blob C e a seed m) = CT2_SIZE + MAC_SIZE"
  using ep_encaps(4) by (simp add: ep_blob_def mac_ct_def hmac_len braid_laws_def CT2_SIZE_def MAC_SIZE_def)

lemma ep_decaps:
  assumes L: "braid_laws C"
  shows "kem_decapsulate C seed (ep_ct1 C seed m @ ep_ct2 C seed m) = Inr (snd (snd (ep_enc C seed m)))"
proof -
  have "kem_encaps C (kem_ek C seed) m = (ep_ct1 C seed m @ ep_ct2 C seed m, snd (snd (ep_enc C seed m)))"
    using L ep_encaps(1,2) [OF L] by (simp add: braid_laws_def kem_fips203_def)
  then have "kem_decaps C seed (ep_ct1 C seed m @ ep_ct2 C seed m) = snd (snd (ep_enc C seed m))"
    using L by (metis braid_laws_def kem_correct_def fst_conv snd_conv)
  then show ?thesis
    using ep_encaps(3,4) [OF L] by (simp add: kem_decapsulate_def CT1_LEN_def CT2_LEN_def)
qed

lemma auth_init_ok: "lens_ok C \<Longrightarrow> \<exists>a. auth_init C e k = Inr a \<and> auth_wf a"
  using auth_update_eq [of C e k "\<lparr>au_root = zeros32, au_mac = zeros32\<rparr>"]
    auth_update_wf [of C e k "\<lparr>au_root = zeros32, au_mac = zeros32\<rparr>"]
  by (cases "auth_update C e k \<lparr>au_root = zeros32, au_mac = zeros32\<rparr>") (auto simp: auth_init_def auth_wf_def)

lemma braid_init_total:
  assumes "braid_laws C"
  obtains A B where "braid_init_alice C sk = Inr A" "braid_init_bob C sk = Inr B"
proof -
  obtain a where "auth_init C 1 sk = Inr a" using auth_init_ok assms unfolding braid_laws_def by blast
  then show thesis using that by (simp add: braid_init_alice_def braid_init_bob_def)
qed

subsection \<open>A concrete instance of the laws\<close>

text \<open>The test instance with encapsulation computed by the two incremental steps; its SHA3-512 is
  constant, so every encapsulated secret is the zero string.\<close>

definition braid_crypto :: crypto where
  "braid_crypto = plain_crypto\<lparr>
     kem_encaps := (\<lambda>ek m. case encaps1_with_m plain_crypto (drop EK_VECTOR_LEN ek) (sha3_256 plain_crypto ek) m of
        Some (sec, ct1, k) \<Rightarrow> (ct1 @ pke_encrypt_ct2 plain_crypto (take EK_VECTOR_LEN ek) (es_coins sec) m, k)
      | None \<Rightarrow> ([], [])),
     kem_decaps := (\<lambda>seed ct. zeros32)\<rparr>"

lemma braid_crypto_fields:
  "sha3_256_fn braid_crypto = sha3_256_fn plain_crypto" "sha3_512_fn braid_crypto = sha3_512_fn plain_crypto"
  "shake128_fn braid_crypto = shake128_fn plain_crypto" "shake256_fn braid_crypto = shake256_fn plain_crypto"
  "kem_ek braid_crypto = kem_ek plain_crypto" "kem_ek_valid braid_crypto = kem_ek_valid plain_crypto"
  by (simp_all add: braid_crypto_def)

lemma matrix_row_cong: "shake128_fn C = shake128_fn D \<Longrightarrow> matrix_row C rho i rs acc = matrix_row D rho i rs acc"
  by (induction rs arbitrary: acc) (auto simp: sample_ntt_def split: option.split)

lemma braid_crypto_pke:
  "encaps1_with_m braid_crypto rho hek m = encaps1_with_m plain_crypto rho hek m"
  "pke_encrypt_ct2 braid_crypto t coins m = pke_encrypt_ct2 plain_crypto t coins m"
  "sha3_256 braid_crypto x = sha3_256 plain_crypto x"
proof -
  have v: "sample_vec_cbd braid_crypto = sample_vec_cbd plain_crypto"
    by (intro ext) (simp add: sample_vec_cbd_def prf_eta2_def braid_crypto_fields)
  have "matrix_row braid_crypto rho i rs acc = matrix_row plain_crypto rho i rs acc" for i rs acc
    by (rule matrix_row_cong) (simp add: braid_crypto_fields)
  then show "encaps1_with_m braid_crypto rho hek m = encaps1_with_m plain_crypto rho hek m"
    by (simp add: encaps1_with_m_def g_hash_def pke_encrypt_ct1_def braid_crypto_fields v Let_def)
  show "pke_encrypt_ct2 braid_crypto t coins m = pke_encrypt_ct2 plain_crypto t coins m"
    by (simp add: pke_encrypt_ct2_def prf_eta2_def braid_crypto_fields v)
  show "sha3_256 braid_crypto x = sha3_256 plain_crypto x" by (simp add: sha3_256_def braid_crypto_fields)
qed

lemma braid_crypto_encaps:
  obtains sec ct1 where "encaps1_with_m plain_crypto rho hek m = Some (sec, ct1, zeros32)" "length ct1 = CT1_LEN" "es_m sec = m"
proof -
  have k: "g_hash plain_crypto m hek = (zeros32, zeros32)"
    by (simp add: g_hash_def plain_crypto_def zeros32_def)
  obtain ct1 where "pke_encrypt_ct1 plain_crypto rho zeros32 = Some ct1" "length ct1 = CT1_LEN"
    using pke_ct1_total [OF plain_sha3] by blast
  then show thesis using that k by (simp add: encaps1_with_m_def)
qed

lemma braid_crypto_laws: "braid_laws braid_crypto"
  unfolding braid_laws_def
proof (intro conjI)
  show "lens_ok braid_crypto" using plain_lens by (simp add: braid_crypto_def lens_ok_def)
  show "sha3_ok braid_crypto" using plain_sha3 by (simp add: sha3_ok_def braid_crypto_fields)
  have ek: "length (kem_ek plain_crypto seed) = 1184" "kem_ek_valid plain_crypto (kem_ek plain_crypto seed)" for seed
    using plain_kem by (simp_all add: kem_correct_def)
  have enc: "length (fst (kem_encaps braid_crypto ek m)) = 1088 \<and> snd (kem_encaps braid_crypto ek m) = zeros32" for ek m
    by (rule braid_crypto_encaps [of "drop EK_VECTOR_LEN ek" "sha3_256 plain_crypto ek" m])
       (simp add: braid_crypto_def length_pke_ct2 CT1_LEN_def CT2_LEN_def)
  show "kem_correct braid_crypto"
    unfolding kem_correct_def using enc ek by (simp add: braid_crypto_fields) (simp add: braid_crypto_def)
  show "kem_fips203 braid_crypto"
    unfolding kem_fips203_def
  proof (intro allI impI)
    fix seed m sec ct1 k ct2
    assume e1: "encaps1_with_m braid_crypto (take 32 (ep_hdr braid_crypto seed)) (drop 32 (ep_hdr braid_crypto seed)) m = Some (sec, ct1, k)"
      and e2: "encaps2 braid_crypto sec (ep_t braid_crypto seed) = Inr ct2"
    let ?ek = "kem_ek plain_crypto seed"
    have h: "take 32 (ep_hdr braid_crypto seed) = drop EK_VECTOR_LEN ?ek" "drop 32 (ep_hdr braid_crypto seed) = sha3_256 plain_crypto ?ek"
      "ep_t braid_crypto seed = take EK_VECTOR_LEN ?ek"
      using ek by (simp_all add: ep_hdr_eq ep_t_eq braid_crypto_fields braid_crypto_pke EK_VECTOR_LEN_def)
    have "es_m sec = m" using e1 by (auto simp: encaps1_with_m_def split: prod.splits)
    then have "ct2 = pke_encrypt_ct2 plain_crypto (take EK_VECTOR_LEN ?ek) (es_coins sec) m"
      using e2 h by (auto simp: encaps2_def braid_crypto_pke split: if_splits)
    then show "kem_encaps braid_crypto (kem_ek braid_crypto seed) m = (ct1 @ ct2, k)"
      using e1 h by (simp add: braid_crypto_pke braid_crypto_fields) (simp add: braid_crypto_def)
  qed
qed

end
