(* ===== verification/VC_Braid_Sync.thy ===== *)
theory VC_Braid_Sync
  imports VC_Braid_Props
begin

text \<open>
  Two Braid agents over an unreliable network. In every epoch one party owns a key pair and the
  other one encapsulates to it; the roles swap from epoch to epoch. The invariant ties the state of
  each agent to the values of the epoch, and every published key of the two parties agrees.
\<close>

abbreviation u64_max :: u64 where
  "u64_max \<equiv> 18446744073709551615"

subsection \<open>The two roles within an epoch\<close>

definition owner_ok :: "crypto \<Rightarrow> u64 \<Rightarrow> authenticator \<Rightarrow> bytes \<Rightarrow> bytes option \<Rightarrow> braid \<Rightarrow> bool" where
  "owner_ok C e a seed mo s \<longleftrightarrow> auth_wf a \<and> length seed = 64 \<and> br_epoch s = e \<and> br_auth s = a \<and>
     (case br_agent s of
        KeysSampled dk t enc \<Rightarrow> dk = seed \<and> t = ep_t C seed \<and> enc_for (ep_payload C e a seed) enc
      | HeaderSent dk enc dec \<Rightarrow> dk = seed \<and> enc_for (ep_t C seed) enc \<and>
          (\<exists>m. mo = Some m \<and> dec_for (ep_ct1 C seed m) dec)
      | Ct1Received dk ct1 enc \<Rightarrow> dk = seed \<and> enc_for (ep_t C seed) enc \<and>
          (\<exists>m. mo = Some m \<and> ct1 = ep_ct1 C seed m)
      | EkSentCt1Received dk ct1 dec \<Rightarrow> dk = seed \<and>
          (\<exists>m. mo = Some m \<and> ct1 = ep_ct1 C seed m \<and> dec_for (ep_blob C e a seed m) dec)
      | _ \<Rightarrow> False)"

definition sampled_ok :: "crypto \<Rightarrow> u64 \<Rightarrow> authenticator \<Rightarrow> bytes \<Rightarrow> bytes \<Rightarrow> braid \<Rightarrow> bool" where
  "sampled_ok C e a seed m s \<longleftrightarrow> auth_wf a \<and> length m = 32 \<and> br_epoch s = e \<and> br_auth s = ep_auth C e a seed m \<and>
     (case br_agent s of
        Ct1Sampled sec ct1 enc dec ss em \<Rightarrow> sec = ep_sec C seed m \<and> ct1 = ep_ct1 C seed m \<and>
          enc_for ct1 enc \<and> dec_for (ep_t C seed) dec \<and> ss = ep_ss C e seed m
      | EkReceivedCt1Sampled sec ct1 t enc ss em \<Rightarrow> sec = ep_sec C seed m \<and> ct1 = ep_ct1 C seed m \<and>
          t = ep_t C seed \<and> enc_for ct1 enc \<and> ss = ep_ss C e seed m
      | Ct1Acknowledged sec ct1 dec ss em \<Rightarrow> sec = ep_sec C seed m \<and> ct1 = ep_ct1 C seed m \<and>
          dec_for (ep_t C seed) dec \<and> ss = ep_ss C e seed m
      | Ct2Sampled enc ss em \<Rightarrow> enc_for (ep_blob C e a seed m) enc \<and> ss = ep_ss C e seed m
      | _ \<Rightarrow> False)"

definition waiting_ok :: "crypto \<Rightarrow> u64 \<Rightarrow> authenticator \<Rightarrow> bytes \<Rightarrow> braid \<Rightarrow> bool" where
  "waiting_ok C e a seed s \<longleftrightarrow> auth_wf a \<and> br_epoch s = e \<and> br_auth s = a \<and>
     (case br_agent s of
        NoHeaderReceived dec \<Rightarrow> dec_for (ep_payload C e a seed) dec
      | HeaderReceived rho hek dec \<Rightarrow> rho = take 32 (ep_hdr C seed) \<and> hek = drop 32 (ep_hdr C seed) \<and>
          dec_for (ep_t C seed) dec
      | _ \<Rightarrow> False)"

definition peer_ok :: "crypto \<Rightarrow> u64 \<Rightarrow> authenticator \<Rightarrow> bytes \<Rightarrow> bytes option \<Rightarrow> braid \<Rightarrow> bool" where
  "peer_ok C e a seed mo s \<longleftrightarrow>
     (case mo of None \<Rightarrow> waiting_ok C e a seed s | Some m \<Rightarrow> sampled_ok C e a seed m s)"

definition owner_msg :: "crypto \<Rightarrow> u64 \<Rightarrow> authenticator \<Rightarrow> bytes \<Rightarrow> braid_message \<Rightarrow> bool" where
  "owner_msg C e a seed msg \<longleftrightarrow> bm_epoch msg = e \<and>
     (case bm_typ msg of
        BHdr \<Rightarrow> is_chunk (ep_payload C e a seed) (bm_data msg)
      | BEk \<Rightarrow> is_chunk (ep_t C seed) (bm_data msg)
      | BEkCt1Ack \<Rightarrow> is_chunk (ep_t C seed) (bm_data msg)
      | BNone \<Rightarrow> True
      | _ \<Rightarrow> False)"

definition peer_msg :: "crypto \<Rightarrow> u64 \<Rightarrow> authenticator \<Rightarrow> bytes \<Rightarrow> bytes option \<Rightarrow> braid_message \<Rightarrow> bool" where
  "peer_msg C e a seed mo msg \<longleftrightarrow> bm_epoch msg = e \<and>
     (case bm_typ msg of
        BCt1 \<Rightarrow> (\<exists>m. mo = Some m \<and> is_chunk (ep_ct1 C seed m) (bm_data msg))
      | BCt2 \<Rightarrow> (\<exists>m. mo = Some m \<and> is_chunk (ep_blob C e a seed m) (bm_data msg))
      | BNone \<Rightarrow> True
      | _ \<Rightarrow> False)"

text \<open>The agents between two epochs.\<close>

definition idle_owner :: "u64 \<Rightarrow> authenticator \<Rightarrow> braid \<Rightarrow> bool" where
  "idle_owner e a s \<longleftrightarrow> auth_wf a \<and> s = \<lparr>br_epoch = e, br_auth = a, br_agent = KeysUnsampled\<rparr>"

definition idle_peer :: "u64 \<Rightarrow> authenticator \<Rightarrow> braid \<Rightarrow> bool" where
  "idle_peer e a s \<longleftrightarrow> auth_wf a \<and> s = \<lparr>br_epoch = e, br_auth = a, br_agent = NoHeaderReceived (decoder_new (HEADER_SIZE + MAC_SIZE))\<rparr>"

definition none_msg :: "u64 \<Rightarrow> braid_message \<Rightarrow> bool" where
  "none_msg e msg \<longleftrightarrow> bm_epoch msg = e \<and> bm_typ msg = BNone"

lemmas sizes = HEADER_SIZE_def MAC_SIZE_def CT1_SIZE_def CT2_SIZE_def EK_SIZE_def CT1_LEN_def CT2_LEN_def EK_VECTOR_LEN_def

subsection \<open>Sending\<close>

lemma send_chunk_ok:
  assumes "enc_for m enc"
  obtains c enc' where "is_chunk m c" "enc_for m enc'"
    "send_chunk s typ enc f = Some (Inr (\<lparr>bm_epoch = br_epoch s, bm_typ = typ, bm_data = c\<rparr>, saturating_sub (br_epoch s) 1, None),
       s\<lparr>br_agent := f enc'\<rparr>)"
proof -
  obtain c enc' where "next_chunk enc = Some (c, enc')" "is_chunk m c" "enc_for m enc'"
    using rst.nxtE [OF assms] .
  then show thesis using that by (simp add: send_chunk_def Let_def br_msg_def)
qed

lemma owner_send:
  assumes "owner_ok C e a seed mo s"
  shows "\<exists>msg s'. braid_send C r s = Some (Inr (msg, saturating_sub e 1, None), s') \<and>
    owner_msg C e a seed msg \<and> owner_ok C e a seed mo s'"
proof (cases "br_agent s")
  case (KeysSampled dk t enc)
  then have "enc_for (ep_payload C e a seed) enc" using assms by (simp add: owner_ok_def)
  from send_chunk_ok [OF this, of s BHdr "KeysSampled dk t"] KeysSampled assms show ?thesis
    by (fastforce simp: braid_send_def encaps1_if_needed_def braid_send_main_def owner_ok_def owner_msg_def)
next
  case (HeaderSent dk enc dec)
  then have "enc_for (ep_t C seed) enc" using assms by (simp add: owner_ok_def)
  from send_chunk_ok [OF this, of s BEk "\<lambda>enc. HeaderSent dk enc dec"] HeaderSent assms show ?thesis
    by (fastforce simp: braid_send_def encaps1_if_needed_def braid_send_main_def owner_ok_def owner_msg_def)
next
  case (Ct1Received dk ct1 enc)
  then have "enc_for (ep_t C seed) enc" using assms by (simp add: owner_ok_def)
  from send_chunk_ok [OF this, of s BEkCt1Ack "Ct1Received dk ct1"] Ct1Received assms show ?thesis
    by (fastforce simp: braid_send_def encaps1_if_needed_def braid_send_main_def owner_ok_def owner_msg_def)
qed (use assms in \<open>auto simp: braid_send_def encaps1_if_needed_def braid_send_main_def owner_ok_def owner_msg_def br_msg_def\<close>)

lemma idle_owner_send:
  assumes L: "braid_laws C" and "idle_owner e a s"
  shows "\<exists>seed msg s'. braid_send C r s = Some (Inr (msg, saturating_sub e 1, None), s') \<and>
    owner_msg C e a seed msg \<and> owner_ok C e a seed None s'"
proof -
  define seed where "seed = fst (fill_random 64 r)"
  have "length (kem_ek C seed) = 1184" using L by (simp add: braid_laws_def kem_correct_def)
  then have g: "fst (kem_generate C r) = Inr (seed, kem_ek C seed)"
    by (simp add: kem_generate_def encode_public_def seed_def split_beta Let_def)
  have "enc_for (ep_payload C e a seed) (encoder_new (ep_payload C e a seed))"
    by (rule enc_for_new) (simp add: ep_lens [OF L])
  from send_chunk_ok [OF this, of s BHdr "\<lambda>enc. KeysSampled seed (ep_t C seed) enc"]
  obtain c enc where c: "is_chunk (ep_payload C e a seed) c" "enc_for (ep_payload C e a seed) enc"
    "send_chunk s BHdr (encoder_new (ep_payload C e a seed)) (\<lambda>enc. KeysSampled seed (ep_t C seed) enc) =
      Some (Inr (\<lparr>bm_epoch = br_epoch s, bm_typ = BHdr, bm_data = c\<rparr>, saturating_sub (br_epoch s) 1, None),
       s\<lparr>br_agent := KeysSampled seed (ep_t C seed) enc\<rparr>)" by metis
  have "braid_send C r s = Some (Inr (\<lparr>bm_epoch = e, bm_typ = BHdr, bm_data = c\<rparr>, saturating_sub e 1, None),
      s\<lparr>br_agent := KeysSampled seed (ep_t C seed) enc\<rparr>)"
    using assms(2) g c(3) ep_hdr_def [of C seed] ep_t_def [of C seed] unfolding idle_owner_def
    by (simp add: braid_send_def encaps1_if_needed_def braid_send_main_def split_beta Let_def ep_payload_def)
  moreover have "length seed = 64" by (simp add: seed_def)
  ultimately show ?thesis using c(1,2) assms(2)
    by (intro exI [of _ seed]) (simp add: owner_msg_def owner_ok_def idle_owner_def)
qed

text \<open>Sending with the first encapsulation step done.\<close>

lemma sampled_send:
  assumes "sampled_ok C e a seed m s"
  shows "\<exists>msg s'. braid_send_main C r s = Some (Inr (msg, saturating_sub e 1, None), s') \<and>
    encaps1_if_needed C r s = Some (Inr (), s) \<and> peer_msg C e a seed (Some m) msg \<and> sampled_ok C e a seed m s'"
proof (cases "br_agent s")
  case (Ct1Sampled sec ct1 enc dec ss em)
  then have "enc_for (ep_ct1 C seed m) enc" using assms by (auto simp: sampled_ok_def)
  from send_chunk_ok [OF this, of s BCt1 "\<lambda>enc. Ct1Sampled sec ct1 enc dec ss em"] Ct1Sampled assms show ?thesis
    by (fastforce simp: encaps1_if_needed_def braid_send_main_def sampled_ok_def peer_msg_def)
next
  case (EkReceivedCt1Sampled sec ct1 t enc ss em)
  then have "enc_for (ep_ct1 C seed m) enc" using assms by (auto simp: sampled_ok_def)
  from send_chunk_ok [OF this, of s BCt1 "\<lambda>enc. EkReceivedCt1Sampled sec ct1 t enc ss em"] EkReceivedCt1Sampled assms show ?thesis
    by (fastforce simp: encaps1_if_needed_def braid_send_main_def sampled_ok_def peer_msg_def)
next
  case (Ct2Sampled enc ss em)
  then have "enc_for (ep_blob C e a seed m) enc" using assms by (simp add: sampled_ok_def)
  from send_chunk_ok [OF this, of s BCt2 "\<lambda>enc. Ct2Sampled enc ss em"] Ct2Sampled assms show ?thesis
    by (fastforce simp: encaps1_if_needed_def braid_send_main_def sampled_ok_def peer_msg_def)
qed (use assms in \<open>auto simp: encaps1_if_needed_def braid_send_main_def sampled_ok_def peer_msg_def br_msg_def\<close>)

lemma encaps1_sampled:
  assumes L: "braid_laws C" and s: "waiting_ok C e a seed s" "br_agent s = HeaderReceived rho hek dec"
  shows "\<exists>s'. encaps1_if_needed C r s = Some (Inr (), s') \<and> sampled_ok C e a seed (fst (fill_random 32 r)) s'"
proof -
  let ?m = "fst (fill_random 32 r)"
  have h: "rho @ hek = ep_hdr C seed" and st: "br_epoch s = e" "br_auth s = a" "dec_for (ep_t C seed) dec" "auth_wf a"
    using s by (auto simp: waiting_ok_def)
  have e1: "encaps1 C r (rho @ hek) = Some (Inr (ep_sec C seed ?m, ep_ct1 C seed ?m, snd (snd (ep_enc C seed ?m))))"
    using ep_encaps(1) [OF L, of seed ?m] ep_lens(1) [OF L] by (simp add: encaps1_def parse_header_def h)
  have "enc_for (ep_ct1 C seed ?m) (encoder_new (ep_ct1 C seed ?m))"
    by (rule enc_for_new) (simp add: ep_encaps(3) [OF L] CT1_LEN_def)
  then show ?thesis
    using e1 s(2) st ep_keys [OF L] by (simp add: encaps1_if_needed_def sampled_ok_def)
qed

lemma peer_send:
  assumes L: "braid_laws C" and "peer_ok C e a seed mo s"
  shows "\<exists>msg s' mo'. braid_send C r s = Some (Inr (msg, saturating_sub e 1, None), s') \<and>
    (mo = None \<or> mo' = mo) \<and> peer_msg C e a seed mo' msg \<and> peer_ok C e a seed mo' s'"
proof (cases mo)
  case (Some m)
  then show ?thesis using assms(2) sampled_send [of C e a seed m s r] by (auto simp: braid_send_def peer_ok_def)
next
  case None
  then have w: "waiting_ok C e a seed s" using assms(2) by (simp add: peer_ok_def)
  show ?thesis
  proof (cases "br_agent s")
    case (NoHeaderReceived dec)
    let ?msg = "\<lparr>bm_epoch = e, bm_typ = BNone, bm_data = []\<rparr>"
    have "braid_send C r s = Some (Inr (?msg, saturating_sub e 1, None), s)"
      using w NoHeaderReceived
      by (simp add: braid_send_def encaps1_if_needed_def braid_send_main_def waiting_ok_def br_msg_def)
    moreover have "peer_msg C e a seed None ?msg" by (simp add: peer_msg_def)
    ultimately show ?thesis using None assms(2) by blast
  next
    case (HeaderReceived rho hek dec)
    from encaps1_sampled [OF L w this, of r] obtain s1
      where s1: "encaps1_if_needed C r s = Some (Inr (), s1)" "sampled_ok C e a seed (fst (fill_random 32 r)) s1" by blast
    then show ?thesis using sampled_send [OF s1(2), of r] None
      by (fastforce simp: braid_send_def peer_ok_def)
  qed (use w in \<open>simp_all add: waiting_ok_def\<close>)
qed

lemma idle_peer_waiting:
  assumes "braid_laws C" "idle_peer e a s"
  shows "peer_ok C e a seed None s"
  using dec_for_new [of "ep_payload C e a seed"] ep_lens(3) [OF assms(1)] assms(2)
  by (simp add: peer_ok_def waiting_ok_def idle_peer_def sizes)

lemma idle_peer_send:
  assumes "idle_peer e a s"
  shows "braid_send C r s = Some (Inr (\<lparr>bm_epoch = e, bm_typ = BNone, bm_data = []\<rparr>, saturating_sub e 1, None), s)"
  using assms by (simp add: braid_send_def encaps1_if_needed_def braid_send_main_def idle_peer_def br_msg_def)

subsection \<open>Receiving\<close>

lemma checked_succ_u64: "e < u64_max \<Longrightarrow> checked_add e 1 = Some (e + 1)"
proof -
  assume "e < u64_max"
  then have "unat e < unat u64_max" by (simp only: word_less_nat_alt)
  then show ?thesis by (simp add: checked_add_def)
qed

lemma succ_u64: "e < u64_max \<Longrightarrow> m \<le> e \<Longrightarrow> m < e + 1"
proof -
  assume "e < u64_max" "m \<le> e"
  then have "unat e < unat u64_max" "unat m \<le> unat e" by (simp_all only: word_less_nat_alt word_le_nat_alt)
  moreover from this have "unat (e + 1) = Suc (unat e)" by (simp add: unat_word_ariths)
  ultimately show ?thesis by (simp add: word_less_nat_alt)
qed

lemma receive_stale:
  assumes "br_epoch s < u64_max" "bm_epoch msg < br_epoch s"
  shows "braid_receive C s msg = Some (Inr (saturating_sub (br_epoch s) 1, None), s)"
proof -
  have "bm_epoch msg \<noteq> br_epoch s" "bm_epoch msg < br_epoch s + 1"
    using assms succ_u64 [of "br_epoch s" "bm_epoch msg"] by auto
  moreover from this have "bm_epoch msg \<noteq> br_epoch s + 1" "\<not> br_epoch s + 1 < bm_epoch msg" by auto
  ultimately show ?thesis using assms checked_succ_u64 [of "br_epoch s"]
    by (simp add: braid_receive_def recv_agent_def recv_ek_or_ack_def Let_def split: agent.split)
qed

lemma braid_receive_current:
  assumes "br_epoch s < u64_max" "bm_epoch msg = br_epoch s"
  shows "braid_receive C s msg = recv_agent C s msg (saturating_sub (br_epoch s) 1)"
proof -
  have "\<not> br_epoch s + 1 < br_epoch s" using succ_u64 [OF assms(1), of "br_epoch s"] by auto
  then show ?thesis using assms checked_succ_u64 [of "br_epoch s"] by (simp add: braid_receive_def Let_def)
qed

lemma decapsulate_done:
  assumes L: "braid_laws C" and "e < u64_max" "br_epoch s = e" "br_auth s = a"
  shows "decapsulate_ct C s seed (ep_ct1 C seed m) (ep_blob C e a seed m) rv =
    Some (Inr (rv, Some \<lparr>so_epoch = e, so_key = ep_ss C e seed m\<rparr>),
      \<lparr>br_epoch = e + 1, br_auth = ep_auth C e a seed m, br_agent = NoHeaderReceived (decoder_new (HEADER_SIZE + MAC_SIZE))\<rparr>)"
proof -
  let ?ct = "ep_ct1 C seed m @ ep_ct2 C seed m"
  have l: "length (ep_ct1 C seed m) = CT1_LEN" "length (ep_ct2 C seed m) = CT2_SIZE" using ep_encaps(3,4) [OF L]
    by (simp_all add: CT2_SIZE_def)
  have mac: "length (mac_ct C (ep_auth C e a seed m) e ?ct) = MAC_SIZE"
    using L by (simp add: mac_ct_def hmac_len braid_laws_def MAC_SIZE_def)
  have "take CT2_SIZE (ep_blob C e a seed m) = ep_ct2 C seed m"
    "take MAC_SIZE (drop CT2_SIZE (ep_blob C e a seed m)) = mac_ct C (ep_auth C e a seed m) e ?ct"
    using l mac by (simp_all add: ep_blob_def)
  moreover have "kem_ct_from_bytes ?ct = Inr ?ct" using l by (simp add: kem_ct_from_bytes_def sizes)
  ultimately show ?thesis
    using assms(2-4) l mac ep_blob_len [OF L] ep_decaps [OF L] ep_keys [OF L] checked_succ_u64 [of e]
    by (simp add: decapsulate_ct_def Let_def join_ct_def vfy_ct_def)
qed

lemma owner_recv:
  assumes L: "braid_laws C" and "e < u64_max" "owner_ok C e a seed mo s" "peer_msg C e a seed mo msg"
  shows "\<exists>out s'. braid_receive C s msg = Some (Inr (saturating_sub e 1, out), s') \<and>
    (out = None \<and> owner_ok C e a seed mo s' \<or>
     (\<exists>m. mo = Some m \<and> out = Some \<lparr>so_epoch = e, so_key = ep_ss C e seed m\<rparr> \<and>
       idle_peer (e + 1) (ep_auth C e a seed m) s' \<and> (\<exists>dec. br_agent s = EkSentCt1Received seed (ep_ct1 C seed m) dec)))"
proof -
  have ep: "br_epoch s = e" "bm_epoch msg = e" using assms by (simp_all add: owner_ok_def peer_msg_def)
  then have rc: "braid_receive C s msg = recv_agent C s msg (saturating_sub e 1)"
    using braid_receive_current assms(2) by simp
  show ?thesis
  proof (cases "br_agent s")
    case (KeysSampled dk t enc)
    show ?thesis
    proof (cases "bm_typ msg = BCt1")
      case True
      then obtain m where m: "mo = Some m" "is_chunk (ep_ct1 C seed m) (bm_data msg)"
        using assms(4) by (auto simp: peer_msg_def)
      have "dec_for (ep_ct1 C seed m) (decoder_new CT1_SIZE)"
        using dec_for_new [of "ep_ct1 C seed m"] ep_encaps(3) [OF L] by (simp add: sizes)
      from rst.addE [OF this m(2)] obtain d' where d': "add_chunk (decoder_new CT1_SIZE) (bm_data msg) = (Inr (), d')"
        "dec_for (ep_ct1 C seed m) d'" .
      moreover have "enc_for (ep_t C seed) (encoder_new (ep_t C seed))"
        by (rule enc_for_new) (simp add: ep_lens [OF L])
      ultimately show ?thesis using assms(3) rc ep KeysSampled True m
        by (simp add: recv_agent_def Let_def owner_ok_def)
    qed (use assms(3) rc KeysSampled in \<open>simp add: recv_agent_def Let_def owner_ok_def\<close>)
  next
    case (HeaderSent dk enc dec)
    show ?thesis
    proof (cases "bm_typ msg = BCt1")
      case True
      then obtain m where m: "mo = Some m" "is_chunk (ep_ct1 C seed m) (bm_data msg)"
        using assms(4) by (auto simp: peer_msg_def)
      have "dec_for (ep_ct1 C seed m) dec" using assms(3) HeaderSent m by (simp add: owner_ok_def)
      from rst.addE [OF this m(2)] obtain d' where "add_chunk dec (bm_data msg) = (Inr (), d')"
        "dec_for (ep_ct1 C seed m) d'" "de_decoded d' = None \<or> de_decoded d' = Some (ep_ct1 C seed m)" .
      then show ?thesis using assms(3) rc ep HeaderSent True m
        by (auto simp: recv_agent_def Let_def owner_ok_def)
    qed (use assms(3) rc HeaderSent in \<open>simp add: recv_agent_def Let_def owner_ok_def\<close>)
  next
    case (Ct1Received dk ct1 enc)
    show ?thesis
    proof (cases "bm_typ msg = BCt2")
      case True
      then obtain m where m: "mo = Some m" "is_chunk (ep_blob C e a seed m) (bm_data msg)"
        using assms(4) by (auto simp: peer_msg_def)
      have "dec_for (ep_blob C e a seed m) (decoder_new (CT2_SIZE + MAC_SIZE))"
        using dec_for_new [of "ep_blob C e a seed m"] ep_blob_len [OF L] by (simp add: sizes)
      from rst.addE [OF this m(2)] obtain d' where "add_chunk (decoder_new (CT2_SIZE + MAC_SIZE)) (bm_data msg) = (Inr (), d')"
        "dec_for (ep_blob C e a seed m) d'" .
      then show ?thesis using assms(3) rc ep Ct1Received True m
        by (simp add: recv_agent_def Let_def owner_ok_def)
    qed (use assms(3) rc Ct1Received in \<open>simp add: recv_agent_def Let_def owner_ok_def\<close>)
  next
    case (EkSentCt1Received dk ct1 dec)
    show ?thesis
    proof (cases "bm_typ msg = BCt2")
      case True
      then obtain m where m: "mo = Some m" "is_chunk (ep_blob C e a seed m) (bm_data msg)"
        using assms(4) by (auto simp: peer_msg_def)
      have "dec_for (ep_blob C e a seed m) dec" using assms(3) EkSentCt1Received m by (simp add: owner_ok_def)
      from rst.addE [OF this m(2)] obtain d' where "add_chunk dec (bm_data msg) = (Inr (), d')"
        "dec_for (ep_blob C e a seed m) d'" "de_decoded d' = None \<or> de_decoded d' = Some (ep_blob C e a seed m)" .
      then show ?thesis
        using assms(3) rc ep EkSentCt1Received True m ep_auth_wf [OF L]
          decapsulate_done [OF L assms(2), of "s\<lparr>br_agent := EkSentCt1Received dk ct1 d'\<rparr>" a]
        by (auto simp: recv_agent_def Let_def owner_ok_def idle_peer_def)
    qed (use assms(3) rc EkSentCt1Received in \<open>simp add: recv_agent_def Let_def owner_ok_def\<close>)
  qed (use assms(3) in \<open>simp_all add: owner_ok_def\<close>)
qed

lemma idle_owner_recv:
  assumes "e < u64_max" "idle_owner e a s" "bm_epoch msg \<le> e"
  shows "braid_receive C s msg = Some (Inr (saturating_sub e 1, None), s)"
proof -
  have s: "br_epoch s = e" "br_agent s = KeysUnsampled" using assms(2) by (simp_all add: idle_owner_def)
  show ?thesis
  proof (cases "bm_epoch msg = e")
    case True
    then show ?thesis using braid_receive_current [of s msg C] assms(1) s by (simp add: recv_agent_def)
  next
    case False
    then show ?thesis using receive_stale [of s msg C] assms s by simp
  qed
qed

lemma encaps2_done:
  assumes L: "braid_laws C" and "br_epoch s = e" "br_auth s = ep_auth C e a seed m"
  shows "encaps2_agent C s (ep_sec C seed m) (ep_ct1 C seed m) (ep_t C seed) ss em =
    (Inr (), s\<lparr>br_agent := Ct2Sampled (encoder_new (ep_blob C e a seed m)) ss em\<rparr>)"
  using ep_encaps(2) [OF L] assms(2,3) by (simp add: encaps2_agent_def Let_def ep_blob_def)

lemma blob_enc: "braid_laws C \<Longrightarrow> enc_for (ep_blob C e a seed m) (encoder_new (ep_blob C e a seed m))"
  by (rule enc_for_new) (simp add: ep_blob_len sizes)

lemma sampled_recv:
  assumes L: "braid_laws C" and "e < u64_max" "sampled_ok C e a seed m s" "owner_msg C e a seed msg"
  shows "\<exists>s'. braid_receive C s msg = Some (Inr (saturating_sub e 1, None), s') \<and> sampled_ok C e a seed m s'"
proof -
  have ep: "br_epoch s = e" "br_auth s = ep_auth C e a seed m" "bm_epoch msg = e"
    using assms by (simp_all add: sampled_ok_def owner_msg_def)
  then have rc: "braid_receive C s msg = recv_agent C s msg (saturating_sub e 1)" and ne: "e \<noteq> e + 1"
    using braid_receive_current [of s msg C] assms(2) by simp_all
  have ekm: "is_chunk (ep_t C seed) (bm_data msg)" if "bm_typ msg = BEk \<or> bm_typ msg = BEkCt1Ack"
    using that assms(4) by (auto simp: owner_msg_def)
  show ?thesis
  proof (cases "br_agent s")
    case (Ct1Sampled sec ct1 enc dec ss em)
    note st = assms(3) [unfolded sampled_ok_def Ct1Sampled agent.case]
    show ?thesis
    proof (cases "bm_typ msg = BEk \<or> bm_typ msg = BEkCt1Ack")
      case True
      from rst.addE [of "ep_t C seed" dec, OF _ ekm [OF True]] st obtain d' where
        "add_chunk dec (bm_data msg) = (Inr (), d')" "dec_for (ep_t C seed) d'"
        "de_decoded d' = None \<or> de_decoded d' = Some (ep_t C seed)" by metis
      then show ?thesis
        using st rc ep Ct1Sampled True blob_enc [OF L]
          encaps2_done [OF L, of "s\<lparr>br_agent := Ct1Sampled sec ct1 enc d' ss em\<rparr>" e a seed m]
        by (auto simp: recv_agent_def recv_ek_or_ack_def Let_def sampled_ok_def)
    qed (use rc ep Ct1Sampled assms(3) in \<open>simp add: recv_agent_def recv_ek_or_ack_def\<close>)
  next
    case (EkReceivedCt1Sampled sec ct1 t enc ss em)
    note st = assms(3) [unfolded sampled_ok_def EkReceivedCt1Sampled agent.case]
    show ?thesis
      using st rc ep ne EkReceivedCt1Sampled blob_enc [OF L] assms(3) encaps2_done [OF L, of s e a seed m]
      by (auto simp: recv_agent_def Let_def finish_encaps2_def sampled_ok_def)
  next
    case (Ct1Acknowledged sec ct1 dec ss em)
    note st = assms(3) [unfolded sampled_ok_def Ct1Acknowledged agent.case]
    show ?thesis
    proof (cases "bm_typ msg = BEk \<or> bm_typ msg = BEkCt1Ack")
      case True
      from rst.addE [of "ep_t C seed" dec, OF _ ekm [OF True]] st obtain d' where
        "add_chunk dec (bm_data msg) = (Inr (), d')" "dec_for (ep_t C seed) d'"
        "de_decoded d' = None \<or> de_decoded d' = Some (ep_t C seed)" by metis
      then show ?thesis
        using st rc ep Ct1Acknowledged True blob_enc [OF L]
          encaps2_done [OF L, of "s\<lparr>br_agent := Ct1Acknowledged sec ct1 d' ss em\<rparr>" e a seed m]
        by (auto simp: recv_agent_def Let_def sampled_ok_def)
    qed (use rc ep Ct1Acknowledged assms(3) in \<open>simp add: recv_agent_def Let_def\<close>)
  qed (use assms(3) rc ep ne in \<open>simp_all add: sampled_ok_def recv_agent_def Let_def\<close>)
qed

lemma waiting_recv:
  assumes L: "braid_laws C" and "e < u64_max" "waiting_ok C e a seed s" "owner_msg C e a seed msg"
  shows "\<exists>s'. braid_receive C s msg = Some (Inr (saturating_sub e 1, None), s') \<and> waiting_ok C e a seed s'"
proof -
  have ep: "br_epoch s = e" "br_auth s = a" "bm_epoch msg = e" "auth_wf a"
    using assms by (simp_all add: waiting_ok_def owner_msg_def)
  then have rc: "braid_receive C s msg = recv_agent C s msg (saturating_sub e 1)"
    using braid_receive_current [of s msg C] assms(2) by simp
  show ?thesis
  proof (cases "br_agent s")
    case (NoHeaderReceived dec)
    show ?thesis
    proof (cases "bm_typ msg = BHdr")
      case True
      have "dec_for (ep_payload C e a seed) dec" "is_chunk (ep_payload C e a seed) (bm_data msg)"
        using assms(3,4) NoHeaderReceived True by (simp_all add: waiting_ok_def owner_msg_def)
      from rst.addE [OF this] obtain d' where d': "add_chunk dec (bm_data msg) = (Inr (), d')"
        "dec_for (ep_payload C e a seed) d'" "de_decoded d' = None \<or> de_decoded d' = Some (ep_payload C e a seed)" .
      have "dec_for (ep_t C seed) (decoder_new EK_SIZE)"
        using dec_for_new [of "ep_t C seed"] ep_lens(2) [OF L] by (simp add: sizes)
      moreover have "take 64 (ep_payload C e a seed) = ep_hdr C seed"
        "take 32 (drop 64 (ep_payload C e a seed)) = mac_hdr C a e (ep_hdr C seed)"
        "length (mac_hdr C a e (ep_hdr C seed)) = 32"
        using L ep_lens(1) [OF L] by (simp_all add: ep_payload_def mac_hdr_def hmac_len braid_laws_def)
      moreover have "take 32 (drop 32 (ep_hdr C seed)) = drop 32 (ep_hdr C seed)" using ep_lens(1) [OF L] by simp
      ultimately show ?thesis
        using d' rc ep NoHeaderReceived True ep_lens(3) [OF L]
        by (auto simp: recv_agent_def Let_def waiting_ok_def vfy_hdr_def HEADER_SIZE_def MAC_SIZE_def)
    qed (use rc ep NoHeaderReceived assms(3) in \<open>simp add: recv_agent_def Let_def\<close>)
  qed (use assms(3) rc ep in \<open>simp_all add: waiting_ok_def recv_agent_def Let_def\<close>)
qed

lemma peer_recv:
  assumes "braid_laws C" "e < u64_max" "peer_ok C e a seed mo s" "owner_msg C e a seed msg"
  shows "\<exists>s'. braid_receive C s msg = Some (Inr (saturating_sub e 1, None), s') \<and> peer_ok C e a seed mo s'"
  using assms sampled_recv [OF assms(1,2) _ assms(4)] waiting_recv [OF assms(1,2) _ assms(4)]
  by (cases mo) (auto simp: peer_ok_def)

lemma owner_ok_later: "owner_ok C e a seed None s \<Longrightarrow> owner_ok C e a seed mo s"
  by (auto simp: owner_ok_def split: agent.splits)

lemma peer_msg_later: "peer_msg C e a seed None msg \<Longrightarrow> peer_msg C e a seed mo msg"
  by (auto simp: peer_msg_def split: braid_type.splits)

lemma none_is_peer_msg: "none_msg e msg \<Longrightarrow> peer_msg C e a seed mo msg"
  by (simp add: none_msg_def peer_msg_def)

lemma sampled_next:
  assumes "sampled_ok C e a seed m s" "e < u64_max" "bm_epoch msg = e + 1" "bm_typ msg = BNone"
  shows "braid_receive C s msg = Some (Inr (saturating_sub e 1, None), s) \<or>
    braid_receive C s msg = Some (Inr (saturating_sub e 1, Some \<lparr>so_epoch = e, so_key = ep_ss C e seed m\<rparr>),
      \<lparr>br_epoch = e + 1, br_auth = ep_auth C e a seed m, br_agent = KeysUnsampled\<rparr>)"
  using assms checked_succ_u64 [of e]
  by (auto simp: sampled_ok_def braid_receive_def recv_agent_def recv_ek_or_ack_def complete_encapsulator_def
      Let_def split: agent.splits)

subsection \<open>The network\<close>

record braid_net =
  bn_st :: "bool \<Rightarrow> braid"
  bn_sent :: "bool \<Rightarrow> braid_message set"
  bn_outs :: "bool \<Rightarrow> scka_output list"

definition bn_put :: "braid_net \<Rightarrow> bool \<Rightarrow> braid \<Rightarrow> braid_message set \<Rightarrow> scka_output option \<Rightarrow> braid_net" where
  "bn_put N p s' ms out = \<lparr>bn_st = (bn_st N)(p := s'), bn_sent = (bn_sent N)(p := bn_sent N p \<union> ms),
     bn_outs = (bn_outs N)(p := bn_outs N p @ (case out of None \<Rightarrow> [] | Some x \<Rightarrow> [x]))\<rparr>"

text \<open>A party sends, or any message the other one ever sent is delivered to it; a failing call keeps
  the state it leaves behind. A party may also be restarted from its persisted state.\<close>

inductive braid_step :: "crypto \<Rightarrow> braid_net \<Rightarrow> braid_net \<Rightarrow> bool" for C where
  bs_send: "braid_send C r (bn_st N p) = Some (Inr (msg, n, out), s') \<Longrightarrow> braid_step C N (bn_put N p s' {msg} out)"
| bs_send_error: "braid_send C r (bn_st N p) = Some (Inl e, s') \<Longrightarrow> braid_step C N (bn_put N p s' {} None)"
| bs_deliver: "msg \<in> bn_sent N (\<not> p) \<Longrightarrow> braid_receive C (bn_st N p) msg = Some (Inr (n, out), s') \<Longrightarrow>
    braid_step C N (bn_put N p s' {} out)"
| bs_deliver_error: "msg \<in> bn_sent N (\<not> p) \<Longrightarrow> braid_receive C (bn_st N p) msg = Some (Inl e, s') \<Longrightarrow>
    braid_step C N (bn_put N p s' {} None)"
| bs_reload: "braid_deserialize (braid_serialize (bn_st N p)) = Inr s' \<Longrightarrow> braid_step C N (bn_put N p s' {} None)"

definition braid_start :: "braid \<Rightarrow> braid \<Rightarrow> braid_net" where
  "braid_start A B = \<lparr>bn_st = (\<lambda>p. if p then A else B), bn_sent = (\<lambda>p. {}), bn_outs = (\<lambda>p. [])\<rparr>"

definition outs_upto :: "u64 \<Rightarrow> scka_output list \<Rightarrow> bool" where
  "outs_upto e xs \<longleftrightarrow> unat e = Suc (length xs) \<and>
     (\<forall>i < length xs. so_epoch (xs ! i) = of_nat (Suc i) \<and> length (so_key (xs ! i)) = 32)"

text \<open>The three phases of an epoch \<open>e\<close> owned by party \<open>w\<close>.\<close>

definition phase_new :: "u64 \<Rightarrow> authenticator \<Rightarrow> bool \<Rightarrow> braid_net \<Rightarrow> bool" where
  "phase_new e a w N \<longleftrightarrow> idle_owner e a (bn_st N w) \<and> idle_peer e a (bn_st N (\<not> w)) \<and>
     (\<forall>msg \<in> bn_sent N w. bm_epoch msg < e) \<and> (\<forall>msg \<in> bn_sent N (\<not> w). bm_epoch msg < e \<or> none_msg e msg) \<and>
     bn_outs N w = bn_outs N (\<not> w) \<and> outs_upto e (bn_outs N (\<not> w))"

definition phase_run :: "crypto \<Rightarrow> u64 \<Rightarrow> authenticator \<Rightarrow> bytes \<Rightarrow> bytes option \<Rightarrow> bool \<Rightarrow> braid_net \<Rightarrow> bool" where
  "phase_run C e a seed mo w N \<longleftrightarrow> owner_ok C e a seed mo (bn_st N w) \<and> peer_ok C e a seed mo (bn_st N (\<not> w)) \<and>
     (\<forall>msg \<in> bn_sent N w. bm_epoch msg < e \<or> owner_msg C e a seed msg) \<and>
     (\<forall>msg \<in> bn_sent N (\<not> w). bm_epoch msg < e \<or> peer_msg C e a seed mo msg) \<and>
     bn_outs N w = bn_outs N (\<not> w) \<and> outs_upto e (bn_outs N (\<not> w))"

definition phase_done :: "crypto \<Rightarrow> u64 \<Rightarrow> authenticator \<Rightarrow> bytes \<Rightarrow> bytes \<Rightarrow> bool \<Rightarrow> braid_net \<Rightarrow> bool" where
  "phase_done C e a seed m w N \<longleftrightarrow> e < u64_max \<and> idle_peer (e + 1) (ep_auth C e a seed m) (bn_st N w) \<and>
     sampled_ok C e a seed m (bn_st N (\<not> w)) \<and>
     (\<forall>msg \<in> bn_sent N w. bm_epoch msg < e \<or> owner_msg C e a seed msg \<or> none_msg (e + 1) msg) \<and>
     (\<forall>msg \<in> bn_sent N (\<not> w). bm_epoch msg \<le> e) \<and>
     bn_outs N w = bn_outs N (\<not> w) @ [\<lparr>so_epoch = e, so_key = ep_ss C e seed m\<rparr>] \<and> outs_upto e (bn_outs N (\<not> w))"

definition braid_inv :: "crypto \<Rightarrow> braid_net \<Rightarrow> bool" where
  "braid_inv C N \<longleftrightarrow> (\<exists>e a w. phase_new e a w N \<or> (\<exists>seed mo. phase_run C e a seed mo w N) \<or> (\<exists>seed m. phase_done C e a seed m w N))"

text \<open>What a call of either kind gives in a phase: it succeeds, and the invariant holds again.\<close>

definition send_ok :: "crypto \<Rightarrow> braid_net \<Rightarrow> bool \<Rightarrow> bool" where
  "send_ok C N p \<longleftrightarrow> (\<forall>r. \<exists>msg n out s'. braid_send C r (bn_st N p) = Some (Inr (msg, n, out), s') \<and>
     braid_inv C (bn_put N p s' {msg} out))"

definition recv_ok :: "crypto \<Rightarrow> braid_net \<Rightarrow> bool \<Rightarrow> bool" where
  "recv_ok C N p \<longleftrightarrow> br_epoch (bn_st N p) < u64_max \<longrightarrow> (\<forall>msg \<in> bn_sent N (\<not> p). \<exists>n out s'.
     braid_receive C (bn_st N p) msg = Some (Inr (n, out), s') \<and> braid_inv C (bn_put N p s' {} out))"

lemma bn_put_simps [simp]:
  "bn_st (bn_put N p s' ms out) q = (if q = p then s' else bn_st N q)"
  "bn_sent (bn_put N p s' ms out) q = (if q = p then bn_sent N p \<union> ms else bn_sent N q)"
  "bn_outs (bn_put N p s' ms out) q = (if q = p then bn_outs N p @ (case out of None \<Rightarrow> [] | Some x \<Rightarrow> [x]) else bn_outs N q)"
  by (simp_all add: bn_put_def)

lemma phase_unchanged: "bn_put N p (bn_st N p) {} None = N"
  by (simp add: bn_put_def)

lemma inv_new: "phase_new e a w N \<Longrightarrow> braid_inv C N"
  and inv_run: "phase_run C e a seed mo w N \<Longrightarrow> braid_inv C N"
  and inv_done: "phase_done C e a seed m w N \<Longrightarrow> braid_inv C N"
  unfolding braid_inv_def by blast+

lemma send_okI:
  "(\<And>r. \<exists>msg n out s'. braid_send C r (bn_st N p) = Some (Inr (msg, n, out), s') \<and> braid_inv C (bn_put N p s' {msg} out)) \<Longrightarrow>
    send_ok C N p"
  by (simp add: send_ok_def)

lemma recv_okI:
  "(\<And>msg. br_epoch (bn_st N p) < u64_max \<Longrightarrow> msg \<in> bn_sent N (\<not> p) \<Longrightarrow>
     \<exists>n out s'. braid_receive C (bn_st N p) msg = Some (Inr (n, out), s') \<and> braid_inv C (bn_put N p s' {} out)) \<Longrightarrow>
    recv_ok C N p"
  by (simp add: recv_ok_def)

text \<open>A delivery that changes nothing.\<close>

lemma recv_idle:
  assumes "braid_inv C N" "braid_receive C (bn_st N p) msg = Some (Inr (n, None), bn_st N p)"
  shows "\<exists>n out s'. braid_receive C (bn_st N p) msg = Some (Inr (n, out), s') \<and> braid_inv C (bn_put N p s' {} out)"
  using assms by (auto simp: phase_unchanged)

lemma recv_old:
  assumes "braid_inv C N" "br_epoch (bn_st N p) < u64_max" "bm_epoch msg < br_epoch (bn_st N p)"
  shows "\<exists>n out s'. braid_receive C (bn_st N p) msg = Some (Inr (n, out), s') \<and> braid_inv C (bn_put N p s' {} out)"
  by (rule recv_idle [OF assms(1) receive_stale [OF assms(2,3)]])

lemma new_steps:
  assumes L: "braid_laws C" and N: "phase_new e a w N"
  shows "send_ok C N w" "recv_ok C N w" "send_ok C N (\<not> w)" "recv_ok C N (\<not> w)"
proof -
  note inv = inv_new [OF N, of C]
  show "send_ok C N w"
  proof (rule send_okI)
    fix r
    obtain seed msg s' where s: "braid_send C r (bn_st N w) = Some (Inr (msg, saturating_sub e 1, None), s')"
      "owner_msg C e a seed msg" "owner_ok C e a seed None s'"
      using idle_owner_send [OF L, of e a "bn_st N w" r] N by (auto simp: phase_new_def)
    have "phase_run C e a seed None w (bn_put N w s' {msg} None)"
      using N s idle_peer_waiting [OF L] none_is_peer_msg unfolding phase_new_def phase_run_def by auto
    with s(1) show "\<exists>msg n out s'. braid_send C r (bn_st N w) = Some (Inr (msg, n, out), s') \<and> braid_inv C (bn_put N w s' {msg} out)"
      using inv_run by blast
  qed
  show "recv_ok C N w"
  proof (rule recv_okI)
    fix msg assume "br_epoch (bn_st N w) < u64_max" "msg \<in> bn_sent N (\<not> w)"
    then have "braid_receive C (bn_st N w) msg = Some (Inr (saturating_sub e 1, None), bn_st N w)"
      using N by (intro idle_owner_recv) (auto simp: phase_new_def none_msg_def idle_owner_def)
    then show "\<exists>n out s'. braid_receive C (bn_st N w) msg = Some (Inr (n, out), s') \<and> braid_inv C (bn_put N w s' {} out)"
      by (rule recv_idle [OF inv])
  qed
  have "phase_new e a w (bn_put N (\<not> w) (bn_st N (\<not> w)) {\<lparr>bm_epoch = e, bm_typ = BNone, bm_data = []\<rparr>} None)"
    using N by (auto simp: phase_new_def none_msg_def)
  from inv_new [OF this] show "send_ok C N (\<not> w)"
    using N idle_peer_send [of e a "bn_st N (\<not> w)" C] by (intro send_okI) (simp add: phase_new_def)
  show "recv_ok C N (\<not> w)"
    using N by (intro recv_okI recv_old [OF inv]) (auto simp: phase_new_def idle_peer_def)
qed

lemma run_steps:
  assumes L: "braid_laws C" and N: "phase_run C e a seed mo w N"
  shows "send_ok C N w" "recv_ok C N w" "send_ok C N (\<not> w)" "recv_ok C N (\<not> w)"
proof -
  note inv = inv_run [OF N]
  have ep: "br_epoch (bn_st N w) = e" "br_epoch (bn_st N (\<not> w)) = e"
    using N by (auto simp: phase_run_def owner_ok_def peer_ok_def waiting_ok_def sampled_ok_def split: option.splits)
  show "send_ok C N w"
  proof (rule send_okI)
    fix r
    obtain msg s' where s: "braid_send C r (bn_st N w) = Some (Inr (msg, saturating_sub e 1, None), s')"
      "owner_msg C e a seed msg" "owner_ok C e a seed mo s'"
      using owner_send [of C e a seed mo "bn_st N w" r] N by (auto simp: phase_run_def)
    have "phase_run C e a seed mo w (bn_put N w s' {msg} None)" using N s unfolding phase_run_def by auto
    with s(1) show "\<exists>msg n out s'. braid_send C r (bn_st N w) = Some (Inr (msg, n, out), s') \<and> braid_inv C (bn_put N w s' {msg} out)"
      using inv_run by blast
  qed
  show "send_ok C N (\<not> w)"
  proof (rule send_okI)
    fix r
    obtain msg s' mo' where s: "braid_send C r (bn_st N (\<not> w)) = Some (Inr (msg, saturating_sub e 1, None), s')"
      "mo = None \<or> mo' = mo" "peer_msg C e a seed mo' msg" "peer_ok C e a seed mo' s'"
      using peer_send [OF L, of e a seed mo "bn_st N (\<not> w)" r] N by (auto simp: phase_run_def)
    then have "phase_run C e a seed mo' w (bn_put N (\<not> w) s' {msg} None)"
      using N owner_ok_later peer_msg_later unfolding phase_run_def by auto
    with s(1) show "\<exists>msg n out s'. braid_send C r (bn_st N (\<not> w)) = Some (Inr (msg, n, out), s') \<and> braid_inv C (bn_put N (\<not> w) s' {msg} out)"
      using inv_run by blast
  qed
  show "recv_ok C N (\<not> w)"
  proof (rule recv_okI)
    fix msg assume m: "br_epoch (bn_st N (\<not> w)) < u64_max" "msg \<in> bn_sent N (\<not> \<not> w)"
    show "\<exists>n out s'. braid_receive C (bn_st N (\<not> w)) msg = Some (Inr (n, out), s') \<and> braid_inv C (bn_put N (\<not> w) s' {} out)"
    proof (cases "bm_epoch msg < e")
      case True
      then show ?thesis using recv_old [OF inv m(1)] ep by simp
    next
      case False
      then have "owner_msg C e a seed msg" using m N by (auto simp: phase_run_def)
      then obtain s' where s: "braid_receive C (bn_st N (\<not> w)) msg = Some (Inr (saturating_sub e 1, None), s')" "peer_ok C e a seed mo s'"
        using peer_recv [OF L, of e a seed mo "bn_st N (\<not> w)" msg] m ep N by (auto simp: phase_run_def)
      then have "phase_run C e a seed mo w (bn_put N (\<not> w) s' {} None)" using N unfolding phase_run_def by auto
      with s(1) show ?thesis using inv_run by blast
    qed
  qed
  show "recv_ok C N w"
  proof (rule recv_okI)
    fix msg assume m: "br_epoch (bn_st N w) < u64_max" "msg \<in> bn_sent N (\<not> w)"
    show "\<exists>n out s'. braid_receive C (bn_st N w) msg = Some (Inr (n, out), s') \<and> braid_inv C (bn_put N w s' {} out)"
    proof (cases "bm_epoch msg < e")
      case True
      then show ?thesis using recv_old [OF inv m(1)] ep by simp
    next
      case False
      then have "peer_msg C e a seed mo msg" using m N by (auto simp: phase_run_def)
      then obtain out s' where s: "braid_receive C (bn_st N w) msg = Some (Inr (saturating_sub e 1, out), s')"
        "out = None \<and> owner_ok C e a seed mo s' \<or> (\<exists>m. mo = Some m \<and> out = Some \<lparr>so_epoch = e, so_key = ep_ss C e seed m\<rparr> \<and>
          idle_peer (e + 1) (ep_auth C e a seed m) s')"
        using owner_recv [OF L, of e a seed mo "bn_st N w" msg] m ep N
        by (auto simp: phase_run_def)
      from s(2) show ?thesis
      proof
        assume "out = None \<and> owner_ok C e a seed mo s'"
        then have "phase_run C e a seed mo w (bn_put N w s' {} out)" using N unfolding phase_run_def by auto
        with s(1) show ?thesis using inv_run by blast
      next
        assume "\<exists>m. mo = Some m \<and> out = Some \<lparr>so_epoch = e, so_key = ep_ss C e seed m\<rparr> \<and> idle_peer (e + 1) (ep_auth C e a seed m) s'"
        then obtain m where m': "mo = Some m" "out = Some \<lparr>so_epoch = e, so_key = ep_ss C e seed m\<rparr>"
          "idle_peer (e + 1) (ep_auth C e a seed m) s'" by blast
        have "\<forall>msg \<in> bn_sent N (\<not> w). bm_epoch msg \<le> e" using N by (auto simp: phase_run_def peer_msg_def)
        then have "phase_done C e a seed m w (bn_put N w s' {} out)"
          using N m m' ep unfolding phase_run_def phase_done_def peer_ok_def by auto
        with s(1) show ?thesis using inv_done by blast
      qed
    qed
  qed
qed

lemma outs_upto_Suc:
  assumes "outs_upto e xs" "e < u64_max" "length k = 32"
  shows "outs_upto (e + 1) (xs @ [\<lparr>so_epoch = e, so_key = k\<rparr>])"
proof -
  have "unat e < unat u64_max" using assms(2) by (simp only: word_less_nat_alt)
  then have "unat (e + 1) = Suc (unat e)" by (simp add: unat_word_ariths)
  moreover have "of_nat (unat e) = e" by simp
  then have "e = of_nat (Suc (length xs))" using assms(1) unfolding outs_upto_def by metis
  ultimately show ?thesis using assms(1,3) by (auto simp: outs_upto_def nth_append less_Suc_eq)
qed

lemma done_steps:
  assumes L: "braid_laws C" and N: "phase_done C e a seed m w N"
  shows "send_ok C N w" "recv_ok C N w" "send_ok C N (\<not> w)" "recv_ok C N (\<not> w)"
proof -
  note inv = inv_done [OF N]
  have ep: "br_epoch (bn_st N w) = e + 1" "br_epoch (bn_st N (\<not> w)) = e" "e < u64_max"
    using N by (auto simp: phase_done_def idle_peer_def sampled_ok_def)
  have "phase_done C e a seed m w (bn_put N w (bn_st N w) {\<lparr>bm_epoch = e + 1, bm_typ = BNone, bm_data = []\<rparr>} None)"
    using N by (auto simp: phase_done_def none_msg_def)
  from inv_done [OF this] show "send_ok C N w"
    using N idle_peer_send [of "e + 1" "ep_auth C e a seed m" "bn_st N w" C] by (intro send_okI) (simp add: phase_done_def)
  show "recv_ok C N w"
  proof (intro recv_okI recv_old [OF inv])
    fix msg assume "msg \<in> bn_sent N (\<not> w)"
    then have "bm_epoch msg \<le> e" using N by (simp add: phase_done_def)
    then show "bm_epoch msg < br_epoch (bn_st N w)" using succ_u64 [OF ep(3)] ep(1) by simp
  qed
  show "send_ok C N (\<not> w)"
  proof (rule send_okI)
    fix r
    obtain msg s' where s: "braid_send C r (bn_st N (\<not> w)) = Some (Inr (msg, saturating_sub e 1, None), s')"
      "peer_msg C e a seed (Some m) msg" "sampled_ok C e a seed m s'"
      using sampled_send [of C e a seed m "bn_st N (\<not> w)" r] N by (auto simp: phase_done_def braid_send_def)
    then have "phase_done C e a seed m w (bn_put N (\<not> w) s' {msg} None)"
      using N unfolding phase_done_def peer_msg_def by auto
    with s(1) show "\<exists>msg n out s'. braid_send C r (bn_st N (\<not> w)) = Some (Inr (msg, n, out), s') \<and> braid_inv C (bn_put N (\<not> w) s' {msg} out)"
      using inv_done by blast
  qed
  show "recv_ok C N (\<not> w)"
  proof (rule recv_okI)
    fix msg assume m: "br_epoch (bn_st N (\<not> w)) < u64_max" "msg \<in> bn_sent N (\<not> \<not> w)"
    consider "bm_epoch msg < e" | "owner_msg C e a seed msg" | "none_msg (e + 1) msg" using N m(2) by (auto simp: phase_done_def)
    then show "\<exists>n out s'. braid_receive C (bn_st N (\<not> w)) msg = Some (Inr (n, out), s') \<and> braid_inv C (bn_put N (\<not> w) s' {} out)"
    proof cases
      case 1
      then show ?thesis using recv_old [OF inv m(1)] ep by simp
    next
      case 2
      then obtain s' where s: "braid_receive C (bn_st N (\<not> w)) msg = Some (Inr (saturating_sub e 1, None), s')" "sampled_ok C e a seed m s'"
        using sampled_recv [OF L, of e a seed m "bn_st N (\<not> w)" msg] ep N by (auto simp: phase_done_def)
      then have "phase_done C e a seed m w (bn_put N (\<not> w) s' {} None)" using N unfolding phase_done_def by auto
      with s(1) show ?thesis using inv_done by blast
    next
      case 3
      let ?s' = "\<lparr>br_epoch = e + 1, br_auth = ep_auth C e a seed m, br_agent = KeysUnsampled\<rparr>"
      let ?out = "\<lparr>so_epoch = e, so_key = ep_ss C e seed m\<rparr>"
      have "bm_epoch msg < e + 1 \<or> none_msg (e + 1) msg" if "msg \<in> bn_sent N w" for msg
      proof -
        from that N have "bm_epoch msg \<le> e \<or> none_msg (e + 1) msg" by (auto simp: phase_done_def owner_msg_def)
        then show ?thesis using succ_u64 [OF ep(3)] by blast
      qed
      moreover have "bm_epoch msg < e + 1" if "msg \<in> bn_sent N (\<not> w)" for msg
        using N that succ_u64 [OF ep(3)] by (simp add: phase_done_def)
      moreover have "outs_upto (e + 1) (bn_outs N (\<not> w) @ [?out])"
        using N ep(3) ep_keys(3) [OF L] by (intro outs_upto_Suc) (auto simp: phase_done_def)
      ultimately have "phase_new (e + 1) (ep_auth C e a seed m) (\<not> w) (bn_put N (\<not> w) ?s' {} (Some ?out))"
        using N unfolding phase_done_def phase_new_def idle_owner_def idle_peer_def by simp
      then have "braid_inv C (bn_put N (\<not> w) ?s' {} (Some ?out))" by (rule inv_new)
      moreover have "braid_receive C (bn_st N (\<not> w)) msg = Some (Inr (saturating_sub e 1, None), bn_st N (\<not> w)) \<or>
          braid_receive C (bn_st N (\<not> w)) msg = Some (Inr (saturating_sub e 1, Some ?out), ?s')"
        using sampled_next [of C e a seed m "bn_st N (\<not> w)" msg] 3 N by (simp add: phase_done_def none_msg_def)
      ultimately show ?thesis using recv_idle [OF inv] by blast
    qed
  qed
qed

lemma inv_steps:
  assumes "braid_laws C" "braid_inv C N"
  shows "send_ok C N p" "recv_ok C N p"
proof -
  from assms(2) obtain w where "send_ok C N w \<and> recv_ok C N w \<and> send_ok C N (\<not> w) \<and> recv_ok C N (\<not> w)"
    using new_steps [OF assms(1)] run_steps [OF assms(1)] done_steps [OF assms(1)] unfolding braid_inv_def by meson
  then show "send_ok C N p" "recv_ok C N p" by (cases "p = w"; simp)+
qed

lemma receive_needs_room: "braid_receive C s msg = Some x \<Longrightarrow> br_epoch s < u64_max"
proof (rule ccontr)
  assume "braid_receive C s msg = Some x" "\<not> br_epoch s < u64_max"
  moreover from this(2) have "unat u64_max \<le> unat (br_epoch s)" by (simp only: not_less word_le_nat_alt)
  ultimately show False by (simp add: braid_receive_def Let_def checked_add_def)
qed

text \<open>Every state of a run is persisted without loss.\<close>

lemma owner_ok_wf:
  assumes "braid_laws C" "owner_ok C e a seed mo s"
  shows "braid_wf s"
  using assms(2) ep_lens(2) [OF assms(1), of seed] ep_encaps(3) [OF assms(1), of seed] enc_for_wf dec_for_wf
  by (auto simp: owner_ok_def braid_wf_def fits32_def CT1_LEN_def split: agent.splits)

lemma sampled_ok_wf:
  assumes "braid_laws C" "sampled_ok C e a seed m s"
  shows "braid_wf s"
  using assms(2) ep_wf [OF assms(1), of m] ep_auth_wf [OF assms(1)] ep_lens(2) [OF assms(1), of seed] ep_encaps(3) [OF assms(1), of seed] ep_keys(3) [OF assms(1)]
    enc_for_wf dec_for_wf
  by (auto simp: sampled_ok_def braid_wf_def fits32_def split: agent.splits)

lemma waiting_ok_wf:
  assumes "braid_laws C" "waiting_ok C e a seed s"
  shows "braid_wf s"
  using assms(2) ep_lens(1) [OF assms(1), of seed] dec_for_wf
  by (auto simp: waiting_ok_def braid_wf_def split: agent.splits)

lemma idle_wf: "braid_laws C \<Longrightarrow> idle_peer e a s \<Longrightarrow> braid_wf s" "idle_owner e a s \<Longrightarrow> braid_wf s"
proof -
  show "braid_laws C \<Longrightarrow> idle_peer e a s \<Longrightarrow> braid_wf s"
    using idle_peer_waiting [of C e a s "[]"] waiting_ok_wf [of C e a "[]" s] by (simp add: peer_ok_def)
  show "idle_owner e a s \<Longrightarrow> braid_wf s" by (simp add: idle_owner_def braid_wf_def)
qed

lemma inv_wf:
  assumes L: "braid_laws C" and "braid_inv C N"
  shows "braid_wf (bn_st N p)"
proof -
  have pw: "peer_ok C e a seed mo s \<Longrightarrow> braid_wf s" for e a seed mo s
    using waiting_ok_wf [OF L] sampled_ok_wf [OF L] by (auto simp: peer_ok_def split: option.splits)
  from assms(2) obtain w where "braid_wf (bn_st N w)" "braid_wf (bn_st N (\<not> w))"
    unfolding braid_inv_def phase_new_def phase_run_def phase_done_def
    using idle_wf(1) [OF L] idle_wf(2) owner_ok_wf [OF L] sampled_ok_wf [OF L] pw by metis
  then show ?thesis by (cases "p = w") auto
qed

lemma braid_inv_step:
  assumes "braid_laws C" "braid_step C N N'" "braid_inv C N"
  shows "braid_inv C N'"
  using assms(2)
proof cases
  case (bs_send r p msg n out s')
  then show ?thesis using inv_steps(1) [OF assms(1,3), of p] unfolding send_ok_def by (metis option.inject prod.inject sum.inject(2))
next
  case (bs_send_error r p e s')
  then show ?thesis using inv_steps(1) [OF assms(1,3), of p] unfolding send_ok_def by (metis option.inject prod.inject sum.distinct(1))
next
  case (bs_deliver msg p n out s')
  then show ?thesis using inv_steps(2) [OF assms(1,3), of p] receive_needs_room [OF bs_deliver(3)]
    unfolding recv_ok_def by (metis option.inject prod.inject sum.inject(2))
next
  case (bs_deliver_error msg p e s')
  then show ?thesis using inv_steps(2) [OF assms(1,3), of p] receive_needs_room [OF bs_deliver_error(3)]
    unfolding recv_ok_def by (metis option.inject prod.inject sum.distinct(1))
next
  case (bs_reload p s')
  then have "s' = bn_st N p" using brc.roundtrip [OF inv_wf [OF assms(1,3)], of p] by simp
  then show ?thesis using bs_reload(1) assms(3) by (simp add: phase_unchanged)
qed

subsection \<open>Agreement\<close>

lemma braid_inv_outs:
  assumes L: "braid_laws C" and "braid_inv C N"
  shows "\<exists>e w extra. outs_upto e (bn_outs N (\<not> w)) \<and> bn_outs N w = bn_outs N (\<not> w) @ extra \<and>
    (extra = [] \<or> (\<exists>k. extra = [\<lparr>so_epoch = e, so_key = k\<rparr>] \<and> length k = 32))"
proof -
  from assms(2) obtain e a w where
    "phase_new e a w N \<or> (\<exists>seed mo. phase_run C e a seed mo w N) \<or> (\<exists>seed m. phase_done C e a seed m w N)"
    unfolding braid_inv_def by blast
  then show ?thesis
  proof (elim disjE exE)
    fix seed m assume "phase_done C e a seed m w N"
    then show ?thesis using ep_keys(3) [OF L] unfolding phase_done_def by blast
  qed (auto simp: phase_new_def phase_run_def intro!: exI [of _ e] exI [of _ w])
qed

lemma braid_inv_start:
  assumes "braid_laws C" "braid_init_alice C sk = Inr A" "braid_init_bob C sk = Inr B"
  shows "braid_inv C (braid_start A B)"
proof -
  obtain a where "A = \<lparr>br_epoch = 1, br_auth = a, br_agent = KeysUnsampled\<rparr>"
    "B = \<lparr>br_epoch = 1, br_auth = a, br_agent = NoHeaderReceived (decoder_new (HEADER_SIZE + MAC_SIZE))\<rparr>" "auth_wf a"
    using assms auth_init_ok [of C 1 sk] by (auto simp: braid_init_alice_def braid_init_bob_def rd_simps braid_laws_def)
  then have "phase_new 1 a True (braid_start A B)"
    by (simp add: phase_new_def braid_start_def idle_owner_def idle_peer_def outs_upto_def)
  then show ?thesis by (rule inv_new)
qed

lemma braid_inv_reach:
  "(braid_step C)\<^sup>*\<^sup>* N N' \<Longrightarrow> braid_laws C \<Longrightarrow> braid_inv C N \<Longrightarrow> braid_inv C N'"
  by (induction rule: rtranclp_induct) (auto intro: braid_inv_step)

text \<open>C12: agreement of the Braid over an unreliable network. Two agents start from the same secret and
  exchange messages that the network may lose, repeat and reorder at will. At every moment the keys
  published by one party and by the other are the same epoch by epoch, epochs are published in
  order from 1 without gaps, and one party is at most one key ahead. Either party may be restarted
  from its persisted state at any moment; the persisted state is always read back unchanged. No call of either party ever
  fails: sending succeeds in every reachable state, and so does the reception of any message the
  peer ever sent, below the last epoch number.\<close>

theorem braid_keys_agree:
  assumes "braid_laws C" "braid_init_alice C sk = Inr A" "braid_init_bob C sk = Inr B"
    and "(braid_step C)\<^sup>*\<^sup>* (braid_start A B) N"
  shows "(\<forall>p i. i < length (bn_outs N p) \<longrightarrow>
      so_epoch (bn_outs N p ! i) = of_nat (Suc i) \<and> length (so_key (bn_outs N p ! i)) = 32 \<and>
      (i < length (bn_outs N (\<not> p)) \<longrightarrow> bn_outs N (\<not> p) ! i = bn_outs N p ! i)) \<and>
    (\<forall>p. length (bn_outs N p) \<le> length (bn_outs N (\<not> p)) + 1) \<and>
    (\<forall>p r. \<exists>msg n out s'. braid_send C r (bn_st N p) = Some (Inr (msg, n, out), s')) \<and>
    (\<forall>p. braid_deserialize (braid_serialize (bn_st N p)) = Inr (bn_st N p)) \<and>
    (\<forall>p. br_epoch (bn_st N p) < u64_max \<longrightarrow> (\<forall>msg \<in> bn_sent N (\<not> p). \<exists>n out s'.
      braid_receive C (bn_st N p) msg = Some (Inr (n, out), s')))"
proof -
  have inv: "braid_inv C N" using braid_inv_reach [OF assms(4,1) braid_inv_start [OF assms(1-3)]] .
  obtain e w extra where up: "outs_upto e (bn_outs N (\<not> w))" and w: "bn_outs N w = bn_outs N (\<not> w) @ extra"
    and ex: "extra = [] \<or> (\<exists>k. extra = [\<lparr>so_epoch = e, so_key = k\<rparr>] \<and> length k = 32)"
    using braid_inv_outs [OF assms(1) inv] by blast
  have "of_nat (unat e) = e" by simp
  then have e: "e = of_nat (Suc (length (bn_outs N (\<not> w))))" using up unfolding outs_upto_def by metis
  have good: "i < length (bn_outs N p) \<longrightarrow>
      so_epoch (bn_outs N p ! i) = of_nat (Suc i) \<and> length (so_key (bn_outs N p ! i)) = 32 \<and>
      (i < length (bn_outs N (\<not> p)) \<longrightarrow> bn_outs N (\<not> p) ! i = bn_outs N p ! i)" for p i
  proof (cases "p = w")
    case True
    then show ?thesis using up w ex e by (auto simp: outs_upto_def nth_append less_Suc_eq)
  next
    case False
    then have "p = (\<not> w)" by simp
    then show ?thesis using up w by (auto simp: outs_upto_def nth_append)
  qed
  have len: "length (bn_outs N p) \<le> length (bn_outs N (\<not> p)) + 1" for p
    using w ex by (cases "p = w") auto
  have "\<exists>msg n out s'. braid_send C r (bn_st N p) = Some (Inr (msg, n, out), s')" for p r
    using inv_steps(1) [OF assms(1) inv, of p] unfolding send_ok_def by blast
  moreover have "br_epoch (bn_st N p) < u64_max \<longrightarrow> (\<forall>msg \<in> bn_sent N (\<not> p). \<exists>n out s'.
      braid_receive C (bn_st N p) msg = Some (Inr (n, out), s'))" for p
    using inv_steps(2) [OF assms(1) inv, of p] unfolding recv_ok_def by blast
  moreover have "braid_deserialize (braid_serialize (bn_st N p)) = Inr (bn_st N p)" for p
    by (rule brc.roundtrip [OF inv_wf [OF assms(1) inv]])
  ultimately show ?thesis using good len by blast
qed

theorem braid_keys_agree_witness:
  "\<exists>A B msg n out A'. braid_init_alice braid_crypto (replicate 32 7) = Inr A \<and> braid_init_bob braid_crypto (replicate 32 7) = Inr B \<and>
    braid_send braid_crypto (\<lambda>i. of_nat i) A = Some (Inr (msg, n, out), A') \<and>
    (\<exists>n' out' B'. braid_receive braid_crypto B msg = Some (Inr (n', out'), B'))"
proof -
  obtain A B where AB: "braid_init_alice braid_crypto (replicate 32 7) = Inr A" "braid_init_bob braid_crypto (replicate 32 7) = Inr B"
    by (rule braid_init_total [OF braid_crypto_laws])
  note agree = braid_keys_agree [OF braid_crypto_laws AB]
  obtain msg n out A' where s: "braid_send braid_crypto (\<lambda>i. of_nat i) A = Some (Inr (msg, n, out), A')"
    using conjunct1 [OF conjunct2 [OF conjunct2 [OF agree [OF rtranclp.rtrancl_refl]]], THEN spec [of _ True], THEN spec [of _ "\<lambda>i. of_nat i"]]
    by (auto simp: braid_start_def)
  let ?N = "bn_put (braid_start A B) True A' {msg} out"
  have "braid_step braid_crypto (braid_start A B) ?N"
    by (rule bs_send [of _ "\<lambda>i. of_nat i" _ _ _ n]) (use s in \<open>simp add: braid_start_def\<close>)
  then have reach: "(braid_step braid_crypto)\<^sup>*\<^sup>* (braid_start A B) ?N" by blast
  have "br_epoch B = 1" using AB(2) by (auto simp: braid_init_bob_def rd_simps)
  with conjunct2 [OF conjunct2 [OF conjunct2 [OF conjunct2 [OF agree [OF reach]]]], rule_format, of False msg] AB s show ?thesis
    by (simp add: braid_start_def)
qed

end
