(* ===== verification/VC_Braid_Live.thy ===== *)
theory VC_Braid_Live
  imports VC_Braid_Sync
begin

text \<open>
  Liveness of the Braid: the driver that lets the two parties exchange messages in turn produces a
  shared key, in 44 rounds. The phases of an epoch are followed round by round.
\<close>

subsection \<open>Encoders and decoders in step\<close>

definition enc_at :: "bytes \<Rightarrow> nat \<Rightarrow> encoder \<Rightarrow> bool" where
  "enc_at m i e \<longleftrightarrow> enc_for m e \<and> en_next e = of_nat i"

definition dec_at :: "bytes \<Rightarrow> nat \<Rightarrow> decoder \<Rightarrow> bool" where
  "dec_at m i d \<longleftrightarrow> msg_k m \<le> 65536 \<and> decoder_for m (of_nat ` {..<i}) d"

lemma enc_at_new: "length m \<le> 2048 \<Longrightarrow> enc_at m 0 (encoder_new m)"
  using enc_for_new by (auto simp: enc_at_def)

lemma dec_at_new: "length m \<le> 2048 \<Longrightarrow> dec_at m 0 (decoder_new (length m))"
  using enc_for_new [of m] decoder_for_new [of m] by (auto simp: dec_at_def enc_for_def)

lemma enc_at_next:
  assumes "enc_at m i e"
  obtains e' where "next_chunk e = Some (chunk_at m (of_nat i), e')" "enc_at m (Suc i) e'"
proof (rule that)
  show "next_chunk e = Some (chunk_at m (of_nat i), e\<lparr>en_next := en_next e + 1\<rparr>)"
    using assms next_chunk_eq [of m e] by (simp add: enc_at_def)
  show "enc_at m (Suc i) (e\<lparr>en_next := en_next e + 1\<rparr>)"
    using assms by (simp add: enc_at_def enc_for_def add.commute)
qed

lemma card_first_u16: "i \<le> 65536 \<Longrightarrow> card ((of_nat :: nat \<Rightarrow> u16) ` {..<i}) = i"
proof -
  assume i: "i \<le> 65536"
  have "inj_on (of_nat :: nat \<Rightarrow> u16) {..<i}"
  proof (rule inj_onI)
    fix x y assume "x \<in> {..<i}" "y \<in> {..<i}" "of_nat x = (of_nat y :: u16)"
    then have "unat (of_nat x :: u16) = unat (of_nat y :: u16)" "x < 65536" "y < 65536" using i by auto
    then show "x = y" by simp
  qed
  then show ?thesis by (simp add: card_image)
qed

lemma dec_at_add:
  assumes "dec_at m i d" "i < 65536"
  obtains d' where "add_chunk d (chunk_at m (of_nat i)) = (Inr (), d')" "dec_at m (Suc i) d'"
    "de_decoded d' = (if msg_k m \<le> Suc i then Some m else None)"
proof -
  obtain res d' where a: "add_chunk d (chunk_at m (of_nat i)) = (res, d')" by (cases "add_chunk d (chunk_at m (of_nat i))")
  have "res = Inr ()" "decoder_for m (insert (of_nat i) (of_nat ` {..<i})) d'"
    using add_chunk_eq [of m "of_nat ` {..<i}" d "of_nat i"] assms(1) a by (simp_all add: dec_at_def chunk_at_def)
  moreover have "insert (of_nat i) (of_nat ` {..<i}) = (of_nat ` {..<Suc i} :: u16 set)" by (simp add: lessThan_Suc)
  ultimately have r: "res = Inr ()" "decoder_for m (of_nat ` {..<Suc i}) d'" by simp_all
  show thesis
    by (rule that) (use a r assms card_first_u16 [of "Suc i"] in \<open>auto simp: dec_at_def decoder_for_def\<close>)
qed

lemma dec_at_ne: "enc_at m i e \<Longrightarrow> enc_for m e" and dec_at_dec: "dec_at m i d \<Longrightarrow> dec_for m d"
  by (auto simp: enc_at_def dec_at_def dec_for_def)

subsection \<open>Rounds\<close>

lemma drive_round:
  assumes "braid_send C (rs 0) a = Some (Inr (ma, n1, None), a1)" "braid_receive C b ma = Some (Inr (n2, ob), b1)"
    and "braid_send C (rs 1) b1 = Some (Inr (mb, n3, None), b2)" "braid_receive C a1 mb = Some (Inr (n4, oa), a2)"
  shows "drive_loop C rs (Suc n) ka kb a b =
    (let ka = (case oa of Some out \<Rightarrow> Some (so_key out) | None \<Rightarrow> ka);
         kb = (case ob of Some out \<Rightarrow> Some (so_key out) | None \<Rightarrow> kb)
     in case (ka, kb) of
          (Some x, Some y) \<Rightarrow> Some (Inr (x, y), a2, b2)
        | _ \<Rightarrow> drive_loop C (\<lambda>i. rs (i + 2)) n ka kb a2 b2)"
  using assms by (cases oa; cases ob; cases ka; cases kb) (simp_all add: Let_def)

text \<open>From every state of \<open>P\<close>, \<open>k\<close> rounds lead to a state of \<open>Q\<close>, and no key is published on the way.\<close>

definition rounds :: "crypto \<Rightarrow> nat \<Rightarrow> (braid \<Rightarrow> braid \<Rightarrow> bool) \<Rightarrow> (braid \<Rightarrow> braid \<Rightarrow> bool) \<Rightarrow> bool" where
  "rounds C k P Q \<longleftrightarrow> (\<forall>rs n a b. P a b \<longrightarrow> (\<exists>rs' a' b'. Q a' b' \<and>
     drive_loop C rs (k + n) None None a b = drive_loop C rs' n None None a' b'))"

lemma rounds_trans: "rounds C j P Q \<Longrightarrow> rounds C k Q R \<Longrightarrow> rounds C (j + k) P R"
  unfolding rounds_def by (metis (no_types, opaque_lifting) add.assoc)

lemma rounds_refl: "rounds C 0 P P"
  unfolding rounds_def by auto

lemma rounds_iter:
  "(\<And>j. i \<le> j \<Longrightarrow> j < i + k \<Longrightarrow> rounds C 1 (P j) (P (Suc j))) \<Longrightarrow> rounds C k (P i) (P (i + k))"
proof (induction k)
  case (Suc k)
  then have "rounds C k (P i) (P (i + k))" "rounds C 1 (P (i + k)) (P (Suc (i + k)))" by simp_all
  then show ?case using rounds_trans by fastforce
qed (simp add: rounds_refl)

lemma roundsI:
  assumes "\<And>r r' a b. P a b \<Longrightarrow> \<exists>ma n1 a1 n2 b1 mb n3 b2 n4 a2. braid_send C r a = Some (Inr (ma, n1, None), a1) \<and>
      braid_receive C b ma = Some (Inr (n2, None), b1) \<and> braid_send C r' b1 = Some (Inr (mb, n3, None), b2) \<and>
      braid_receive C a1 mb = Some (Inr (n4, None), a2) \<and> Q a2 b2"
  shows "rounds C 1 P Q"
  unfolding rounds_def
proof (intro allI impI)
  fix rs :: "nat \<Rightarrow> rng" and n a b assume "P a b"
  then obtain ma n1 a1 n2 b1 mb n3 b2 n4 a2 where
    r: "braid_send C (rs 0) a = Some (Inr (ma, n1, None), a1)" "braid_receive C b ma = Some (Inr (n2, None), b1)"
    "braid_send C (rs 1) b1 = Some (Inr (mb, n3, None), b2)" "braid_receive C a1 mb = Some (Inr (n4, None), a2)"
    and q: "Q a2 b2" using assms by meson
  show "\<exists>rs' a' b'. Q a' b' \<and> drive_loop C rs (1 + n) None None a b = drive_loop C rs' n None None a' b'"
    using drive_round [OF r, of n None None] q by auto
qed

subsection \<open>The phases\<close>

abbreviation st3 :: "u64 \<Rightarrow> authenticator \<Rightarrow> agent \<Rightarrow> braid" where
  "st3 e a g \<equiv> \<lparr>br_epoch = e, br_auth = a, br_agent = g\<rparr>"

definition ph_hdr :: "crypto \<Rightarrow> u64 \<Rightarrow> authenticator \<Rightarrow> nat \<Rightarrow> braid \<Rightarrow> braid \<Rightarrow> bool" where
  "ph_hdr C e a i A B \<longleftrightarrow> (\<exists>seed enc dec. A = st3 e a (KeysSampled seed (ep_t C seed) enc) \<and>
     B = st3 e a (NoHeaderReceived dec) \<and> enc_at (ep_payload C e a seed) i enc \<and> dec_at (ep_payload C e a seed) i dec)"

definition ph_ct1 :: "crypto \<Rightarrow> u64 \<Rightarrow> authenticator \<Rightarrow> nat \<Rightarrow> braid \<Rightarrow> braid \<Rightarrow> bool" where
  "ph_ct1 C e a j A B \<longleftrightarrow> (\<exists>seed m enc dec enc' dec' em. A = st3 e a (HeaderSent seed enc dec) \<and>
     B = st3 e (ep_auth C e a seed m) (Ct1Sampled (ep_sec C seed m) (ep_ct1 C seed m) enc' dec' (ep_ss C e seed m) em) \<and>
     enc_at (ep_t C seed) j enc \<and> dec_at (ep_ct1 C seed m) (Suc j) dec \<and>
     enc_at (ep_ct1 C seed m) (Suc j) enc' \<and> dec_at (ep_t C seed) j dec')"

definition ph_rcv :: "crypto \<Rightarrow> u64 \<Rightarrow> authenticator \<Rightarrow> nat \<Rightarrow> braid \<Rightarrow> braid \<Rightarrow> bool" where
  "ph_rcv C e a j A B \<longleftrightarrow> (\<exists>seed m enc enc' dec' em. A = st3 e a (Ct1Received seed (ep_ct1 C seed m) enc) \<and>
     B = st3 e (ep_auth C e a seed m) (Ct1Sampled (ep_sec C seed m) (ep_ct1 C seed m) enc' dec' (ep_ss C e seed m) em) \<and>
     enc_at (ep_t C seed) j enc \<and> dec_at (ep_t C seed) j dec')"

definition ph_ack :: "crypto \<Rightarrow> u64 \<Rightarrow> authenticator \<Rightarrow> nat \<Rightarrow> braid \<Rightarrow> braid \<Rightarrow> bool" where
  "ph_ack C e a j A B \<longleftrightarrow> (\<exists>seed m enc dec' em. A = st3 e a (Ct1Received seed (ep_ct1 C seed m) enc) \<and>
     B = st3 e (ep_auth C e a seed m) (Ct1Acknowledged (ep_sec C seed m) (ep_ct1 C seed m) dec' (ep_ss C e seed m) em) \<and>
     enc_at (ep_t C seed) j enc \<and> dec_at (ep_t C seed) j dec')"

definition ph_ct2 :: "crypto \<Rightarrow> u64 \<Rightarrow> authenticator \<Rightarrow> nat \<Rightarrow> braid \<Rightarrow> braid \<Rightarrow> bool" where
  "ph_ct2 C e a j A B \<longleftrightarrow> (\<exists>seed m dec enc' em. A = st3 e a (EkSentCt1Received seed (ep_ct1 C seed m) dec) \<and>
     B = st3 e (ep_auth C e a seed m) (Ct2Sampled enc' (ep_ss C e seed m) em) \<and>
     dec_at (ep_blob C e a seed m) j dec \<and> enc_at (ep_blob C e a seed m) j enc')"

lemma msg_ks:
  assumes "braid_laws C"
  shows "msg_k (ep_payload C e a seed) = 3" "msg_k (ep_t C seed) = 36" "msg_k (ep_ct1 C seed m) = 30" "msg_k (ep_blob C e a seed m) = 5"
  using ep_lens [OF assms] ep_encaps(3) [OF assms] ep_blob_len [OF assms]
  by (simp_all add: msg_k_def div_ceil_def CHUNK_DATA_32 sizes)

lemmas send_unfolds = braid_send_def encaps1_if_needed_def braid_send_main_def send_chunk_def br_msg_def

lemma recv_here:
  assumes "e < u64_max"
  shows "braid_receive C (st3 e a g) \<lparr>bm_epoch = e, bm_typ = t, bm_data = d\<rparr> =
    recv_agent C (st3 e a g) \<lparr>bm_epoch = e, bm_typ = t, bm_data = d\<rparr> (saturating_sub e 1)"
  using braid_receive_current [of "st3 e a g" "\<lparr>bm_epoch = e, bm_typ = t, bm_data = d\<rparr>" C] assms by simp

lemma round_hdr:
  assumes L: "braid_laws C" and e: "e < u64_max" and i: "Suc i < 3"
  shows "rounds C 1 (ph_hdr C e a i) (ph_hdr C e a (Suc i))"
proof (rule roundsI)
  fix r r' A B assume "ph_hdr C e a i A B"
  then obtain seed enc dec where A: "A = st3 e a (KeysSampled seed (ep_t C seed) enc)" and B: "B = st3 e a (NoHeaderReceived dec)"
    and p: "enc_at (ep_payload C e a seed) i enc" "dec_at (ep_payload C e a seed) i dec" by (auto simp: ph_hdr_def)
  obtain enc1 where enc1: "next_chunk enc = Some (chunk_at (ep_payload C e a seed) (of_nat i), enc1)" "enc_at (ep_payload C e a seed) (Suc i) enc1"
    using enc_at_next [OF p(1)] .
  have "i < 65536" using i by simp
  from dec_at_add [OF p(2) this] obtain dec1 where dec1: "add_chunk dec (chunk_at (ep_payload C e a seed) (of_nat i)) = (Inr (), dec1)"
    "dec_at (ep_payload C e a seed) (Suc i) dec1" "de_decoded dec1 = None"
    using i msg_ks(1) [OF L] by (metis not_less)
  show "\<exists>ma n1 a1 n2 b1 mb n3 b2 n4 a2. braid_send C r A = Some (Inr (ma, n1, None), a1) \<and>
      braid_receive C B ma = Some (Inr (n2, None), b1) \<and> braid_send C r' b1 = Some (Inr (mb, n3, None), b2) \<and>
      braid_receive C a1 mb = Some (Inr (n4, None), a2) \<and> ph_hdr C e a (Suc i) a2 b2"
    using enc1 dec1 by (simp add: A B send_unfolds Let_def recv_here [OF e] recv_agent_def ph_hdr_def)
qed

lemma round_header_done:
  assumes L: "braid_laws C" and e: "e < u64_max"
  shows "rounds C 1 (ph_hdr C e a 2) (ph_ct1 C e a 0)"
proof (rule roundsI)
  fix r r' A B assume "ph_hdr C e a 2 A B"
  then obtain seed enc dec where A: "A = st3 e a (KeysSampled seed (ep_t C seed) enc)" and B: "B = st3 e a (NoHeaderReceived dec)"
    and p: "enc_at (ep_payload C e a seed) 2 enc" "dec_at (ep_payload C e a seed) 2 dec" by (auto simp: ph_hdr_def)
  obtain enc1 where enc1: "next_chunk enc = Some (chunk_at (ep_payload C e a seed) (of_nat 2), enc1)"
    using enc_at_next [OF p(1)] .
  obtain dec1 where dec1: "add_chunk dec (chunk_at (ep_payload C e a seed) (of_nat 2)) = (Inr (), dec1)"
    "de_decoded dec1 = Some (ep_payload C e a seed)"
    by (rule dec_at_add [OF p(2)]) (auto simp: msg_ks(1) [OF L])
  let ?m = "fst (fill_random 32 r')"
  let ?B1 = "st3 e a (HeaderReceived (take 32 (ep_hdr C seed)) (drop 32 (ep_hdr C seed)) (decoder_new EK_SIZE))"
  have sA: "braid_send C r A = Some (Inr (\<lparr>bm_epoch = e, bm_typ = BHdr, bm_data = chunk_at (ep_payload C e a seed) (of_nat 2)\<rparr>,
      saturating_sub e 1, None), st3 e a (KeysSampled seed (ep_t C seed) enc1))"
    using enc1 by (simp add: A send_unfolds Let_def)
  have "take 64 (ep_payload C e a seed) = ep_hdr C seed"
    "take 32 (drop 64 (ep_payload C e a seed)) = mac_hdr C a e (ep_hdr C seed)"
    "length (mac_hdr C a e (ep_hdr C seed)) = 32" "take 32 (drop 32 (ep_hdr C seed)) = drop 32 (ep_hdr C seed)"
    using L ep_lens(1) [OF L] by (simp_all add: ep_payload_def mac_hdr_def hmac_len braid_laws_def)
  then have rB: "braid_receive C B \<lparr>bm_epoch = e, bm_typ = BHdr, bm_data = chunk_at (ep_payload C e a seed) (of_nat 2)\<rparr> =
      Some (Inr (saturating_sub e 1, None), ?B1)"
    using dec1 ep_lens(3) [OF L]
    by (simp add: B recv_here [OF e] recv_agent_def Let_def vfy_hdr_def HEADER_SIZE_def MAC_SIZE_def)
  have e1: "encaps1 C r' (ep_hdr C seed) = Some (Inr (ep_sec C seed ?m, ep_ct1 C seed ?m, snd (snd (ep_enc C seed ?m))))"
    using ep_encaps(1) [OF L, of seed ?m] ep_lens(1) [OF L] by (simp add: encaps1_def parse_header_def)
  have c1: "length (ep_ct1 C seed ?m) = 960" using ep_encaps(3) [OF L] by (simp add: CT1_LEN_def)
  obtain enc2 where enc2: "next_chunk (encoder_new (ep_ct1 C seed ?m)) = Some (chunk_at (ep_ct1 C seed ?m) 0, enc2)"
    "enc_at (ep_ct1 C seed ?m) 1 enc2" using enc_at_next [OF enc_at_new, of "ep_ct1 C seed ?m"] c1 by auto
  have sB: "braid_send C r' ?B1 = Some (Inr (\<lparr>bm_epoch = e, bm_typ = BCt1, bm_data = chunk_at (ep_ct1 C seed ?m) 0\<rparr>,
      saturating_sub e 1, None), st3 e (ep_auth C e a seed ?m)
        (Ct1Sampled (ep_sec C seed ?m) (ep_ct1 C seed ?m) enc2 (decoder_new EK_SIZE) (ep_ss C e seed ?m) False))"
    using e1 enc2(1) ep_keys [OF L] by (simp add: send_unfolds Let_def)
  have d0: "dec_at (ep_ct1 C seed ?m) 0 (decoder_new CT1_SIZE)" "dec_at (ep_t C seed) 0 (decoder_new EK_SIZE)"
    using dec_at_new [of "ep_ct1 C seed ?m"] dec_at_new [of "ep_t C seed"] c1 ep_lens(2) [OF L] by (simp_all add: sizes)
  from dec_at_add [OF d0(1)] obtain dec2 where dec2: "add_chunk (decoder_new CT1_SIZE) (chunk_at (ep_ct1 C seed ?m) 0) = (Inr (), dec2)"
    "dec_at (ep_ct1 C seed ?m) 1 dec2" by auto
  have rA: "braid_receive C (st3 e a (KeysSampled seed (ep_t C seed) enc1)) \<lparr>bm_epoch = e, bm_typ = BCt1, bm_data = chunk_at (ep_ct1 C seed ?m) 0\<rparr> =
      Some (Inr (saturating_sub e 1, None), st3 e a (HeaderSent seed (encoder_new (ep_t C seed)) dec2))"
    using dec2(1) by (simp add: recv_here [OF e] recv_agent_def Let_def)
  have "enc_at (ep_t C seed) 0 (encoder_new (ep_t C seed))" by (rule enc_at_new) (simp add: ep_lens [OF L])
  then have "ph_ct1 C e a 0 (st3 e a (HeaderSent seed (encoder_new (ep_t C seed)) dec2)) (st3 e (ep_auth C e a seed ?m)
        (Ct1Sampled (ep_sec C seed ?m) (ep_ct1 C seed ?m) enc2 (decoder_new EK_SIZE) (ep_ss C e seed ?m) False))"
    unfolding ph_ct1_def using d0 dec2 enc2 by auto
  then show "\<exists>ma n1 a1 n2 b1 mb n3 b2 n4 a2. braid_send C r A = Some (Inr (ma, n1, None), a1) \<and>
      braid_receive C B ma = Some (Inr (n2, None), b1) \<and> braid_send C r' b1 = Some (Inr (mb, n3, None), b2) \<and>
      braid_receive C a1 mb = Some (Inr (n4, None), a2) \<and> ph_ct1 C e a 0 a2 b2"
    using sA rB sB rA by blast
qed

text \<open>A chunk of the encapsulation key reaches the peer.\<close>

lemma round_ct1:
  assumes L: "braid_laws C" and e: "e < u64_max" and j: "j < 29"
  shows "rounds C 1 (ph_ct1 C e a j) (if j = 28 then ph_rcv C e a 29 else ph_ct1 C e a (Suc j))"
proof (rule roundsI)
  fix r r' A B assume "ph_ct1 C e a j A B"
  then obtain seed m enc dec enc' dec' em where A: "A = st3 e a (HeaderSent seed enc dec)"
    and B: "B = st3 e (ep_auth C e a seed m) (Ct1Sampled (ep_sec C seed m) (ep_ct1 C seed m) enc' dec' (ep_ss C e seed m) em)"
    and p: "enc_at (ep_t C seed) j enc" "dec_at (ep_ct1 C seed m) (Suc j) dec"
      "enc_at (ep_ct1 C seed m) (Suc j) enc'" "dec_at (ep_t C seed) j dec'" by (auto simp: ph_ct1_def)
  obtain enc1 where enc1: "next_chunk enc = Some (chunk_at (ep_t C seed) (of_nat j), enc1)" "enc_at (ep_t C seed) (Suc j) enc1"
    using enc_at_next [OF p(1)] .
  obtain enc2 where enc2: "next_chunk enc' = Some (chunk_at (ep_ct1 C seed m) (of_nat (Suc j)), enc2)" "enc_at (ep_ct1 C seed m) (Suc (Suc j)) enc2"
    using enc_at_next [OF p(3)] .
  obtain dec1 where dec1: "add_chunk dec' (chunk_at (ep_t C seed) (of_nat j)) = (Inr (), dec1)" "dec_at (ep_t C seed) (Suc j) dec1"
    "de_decoded dec1 = None" using dec_at_add [OF p(4)] j msg_ks(2) [OF L] by (auto split: if_splits)
  obtain dec2 where dec2: "add_chunk dec (chunk_at (ep_ct1 C seed m) (of_nat (Suc j))) = (Inr (), dec2)" "dec_at (ep_ct1 C seed m) (Suc (Suc j)) dec2"
    "de_decoded dec2 = (if j = 28 then Some (ep_ct1 C seed m) else None)"
  proof (rule dec_at_add [OF p(2)])
    fix d assume "add_chunk dec (chunk_at (ep_ct1 C seed m) (of_nat (Suc j))) = (Inr (), d)" "dec_at (ep_ct1 C seed m) (Suc (Suc j)) d"
      "de_decoded d = (if msg_k (ep_ct1 C seed m) \<le> Suc (Suc j) then Some (ep_ct1 C seed m) else None)"
    moreover have "30 \<le> Suc (Suc j) \<longleftrightarrow> j = 28" using j by auto
    ultimately show thesis using msg_ks(3) [OF L] by (intro that) auto
  qed (use j in simp)
  let ?A2 = "st3 e a (if j = 28 then Ct1Received seed (ep_ct1 C seed m) enc1 else HeaderSent seed enc1 dec2)"
  let ?B2 = "st3 e (ep_auth C e a seed m) (Ct1Sampled (ep_sec C seed m) (ep_ct1 C seed m) enc2 dec1 (ep_ss C e seed m) em)"
  have "(if j = 28 then ph_rcv C e a 29 else ph_ct1 C e a (Suc j)) ?A2 ?B2"
    using enc1(2) enc2(2) dec1(2) dec2(2) by (auto simp: ph_rcv_def ph_ct1_def)
  then show "\<exists>ma n1 a1 n2 b1 mb n3 b2 n4 a2. braid_send C r A = Some (Inr (ma, n1, None), a1) \<and>
      braid_receive C B ma = Some (Inr (n2, None), b1) \<and> braid_send C r' b1 = Some (Inr (mb, n3, None), b2) \<and>
      braid_receive C a1 mb = Some (Inr (n4, None), a2) \<and> (if j = 28 then ph_rcv C e a 29 else ph_ct1 C e a (Suc j)) a2 b2"
    using enc1(1) enc2(1) dec1(1,3) dec2(1,3)
    by (cases "j = 28") (simp_all add: A B send_unfolds Let_def recv_here [OF e] recv_agent_def recv_ek_or_ack_def)
qed

lemma round_rcv:
  assumes L: "braid_laws C" and e: "e < u64_max"
  shows "rounds C 1 (ph_rcv C e a 29) (ph_ack C e a 30)"
proof (rule roundsI)
  fix r r' A B assume "ph_rcv C e a 29 A B"
  then obtain seed m enc enc' dec' em where A: "A = st3 e a (Ct1Received seed (ep_ct1 C seed m) enc)"
    and B: "B = st3 e (ep_auth C e a seed m) (Ct1Sampled (ep_sec C seed m) (ep_ct1 C seed m) enc' dec' (ep_ss C e seed m) em)"
    and p: "enc_at (ep_t C seed) 29 enc" "dec_at (ep_t C seed) 29 dec'" by (auto simp: ph_rcv_def)
  obtain enc1 where enc1: "next_chunk enc = Some (chunk_at (ep_t C seed) (of_nat 29), enc1)" "enc_at (ep_t C seed) (Suc 29) enc1"
    using enc_at_next [OF p(1)] .
  obtain dec1 where dec1: "add_chunk dec' (chunk_at (ep_t C seed) (of_nat 29)) = (Inr (), dec1)" "dec_at (ep_t C seed) (Suc 29) dec1"
    "de_decoded dec1 = None" using dec_at_add [OF p(2)] msg_ks(2) [OF L] by (auto split: if_splits)
  have "ph_ack C e a 30 (st3 e a (Ct1Received seed (ep_ct1 C seed m) enc1))
      (st3 e (ep_auth C e a seed m) (Ct1Acknowledged (ep_sec C seed m) (ep_ct1 C seed m) dec1 (ep_ss C e seed m) em))"
    using enc1(2) dec1(2) by (auto simp: ph_ack_def)
  then show "\<exists>ma n1 a1 n2 b1 mb n3 b2 n4 a2. braid_send C r A = Some (Inr (ma, n1, None), a1) \<and>
      braid_receive C B ma = Some (Inr (n2, None), b1) \<and> braid_send C r' b1 = Some (Inr (mb, n3, None), b2) \<and>
      braid_receive C a1 mb = Some (Inr (n4, None), a2) \<and> ph_ack C e a 30 a2 b2"
    using enc1(1) dec1(1,3)
    by (simp add: A B send_unfolds Let_def recv_here [OF e] recv_agent_def recv_ek_or_ack_def)
qed

lemma ph_ack_chunk:
  assumes "ph_ack C e a j A B" "j < 36"
  obtains seed m enc enc1 dec dec1 em where "A = st3 e a (Ct1Received seed (ep_ct1 C seed m) enc)"
    "B = st3 e (ep_auth C e a seed m) (Ct1Acknowledged (ep_sec C seed m) (ep_ct1 C seed m) dec (ep_ss C e seed m) em)"
    "next_chunk enc = Some (chunk_at (ep_t C seed) (of_nat j), enc1)" "enc_at (ep_t C seed) (Suc j) enc1"
    "add_chunk dec (chunk_at (ep_t C seed) (of_nat j)) = (Inr (), dec1)" "dec_at (ep_t C seed) (Suc j) dec1"
    "de_decoded dec1 = (if msg_k (ep_t C seed) \<le> Suc j then Some (ep_t C seed) else None)"
proof -
  from assms(1) obtain seed m enc dec em where A: "A = st3 e a (Ct1Received seed (ep_ct1 C seed m) enc)"
    "B = st3 e (ep_auth C e a seed m) (Ct1Acknowledged (ep_sec C seed m) (ep_ct1 C seed m) dec (ep_ss C e seed m) em)"
    and p: "enc_at (ep_t C seed) j enc" "dec_at (ep_t C seed) j dec" by (auto simp: ph_ack_def)
  obtain enc1 where enc1: "next_chunk enc = Some (chunk_at (ep_t C seed) (of_nat j), enc1)" "enc_at (ep_t C seed) (Suc j) enc1"
    using enc_at_next [OF p(1)] .
  have "j < 65536" using assms(2) by simp
  from dec_at_add [OF p(2) this] obtain dec1 where "add_chunk dec (chunk_at (ep_t C seed) (of_nat j)) = (Inr (), dec1)"
    "dec_at (ep_t C seed) (Suc j) dec1" "de_decoded dec1 = (if msg_k (ep_t C seed) \<le> Suc j then Some (ep_t C seed) else None)" .
  with A enc1 show thesis by (rule that)
qed

lemma round_ack:
  assumes L: "braid_laws C" and e: "e < u64_max" and j: "j < 35"
  shows "rounds C 1 (ph_ack C e a j) (ph_ack C e a (Suc j))"
proof (rule roundsI)
  fix r r' A B assume P: "ph_ack C e a j A B"
  have "j < 36" using j by simp
  from ph_ack_chunk [OF P this] obtain seed m enc enc1 dec dec1 em where
    A: "A = st3 e a (Ct1Received seed (ep_ct1 C seed m) enc)"
    and B: "B = st3 e (ep_auth C e a seed m) (Ct1Acknowledged (ep_sec C seed m) (ep_ct1 C seed m) dec (ep_ss C e seed m) em)"
    and q: "next_chunk enc = Some (chunk_at (ep_t C seed) (of_nat j), enc1)" "enc_at (ep_t C seed) (Suc j) enc1"
    "add_chunk dec (chunk_at (ep_t C seed) (of_nat j)) = (Inr (), dec1)" "dec_at (ep_t C seed) (Suc j) dec1"
    and d: "de_decoded dec1 = (if msg_k (ep_t C seed) \<le> Suc j then Some (ep_t C seed) else None)" .
  have "de_decoded dec1 = None" using d j msg_ks(2) [OF L] by simp
  moreover have "ph_ack C e a (Suc j) (st3 e a (Ct1Received seed (ep_ct1 C seed m) enc1))
      (st3 e (ep_auth C e a seed m) (Ct1Acknowledged (ep_sec C seed m) (ep_ct1 C seed m) dec1 (ep_ss C e seed m) em))"
    using q(2,4) by (auto simp: ph_ack_def)
  ultimately show "\<exists>ma n1 a1 n2 b1 mb n3 b2 n4 a2. braid_send C r A = Some (Inr (ma, n1, None), a1) \<and>
      braid_receive C B ma = Some (Inr (n2, None), b1) \<and> braid_send C r' b1 = Some (Inr (mb, n3, None), b2) \<and>
      braid_receive C a1 mb = Some (Inr (n4, None), a2) \<and> ph_ack C e a (Suc j) a2 b2"
    using q(1,3) by (simp add: A B send_unfolds Let_def recv_here [OF e] recv_agent_def)
qed

lemma round_ack_done:
  assumes L: "braid_laws C" and e: "e < u64_max"
  shows "rounds C 1 (ph_ack C e a 35) (ph_ct2 C e a 1)"
proof (rule roundsI)
  fix r r' A B assume P: "ph_ack C e a 35 A B"
  then obtain seed m enc enc1 dec dec1 em where
    A: "A = st3 e a (Ct1Received seed (ep_ct1 C seed m) enc)"
    and B: "B = st3 e (ep_auth C e a seed m) (Ct1Acknowledged (ep_sec C seed m) (ep_ct1 C seed m) dec (ep_ss C e seed m) em)"
    and q: "next_chunk enc = Some (chunk_at (ep_t C seed) (of_nat 35), enc1)"
    "add_chunk dec (chunk_at (ep_t C seed) (of_nat 35)) = (Inr (), dec1)" "de_decoded dec1 = Some (ep_t C seed)"
    by (rule ph_ack_chunk) (auto simp: msg_ks(2) [OF L])
  let ?blob = "ep_blob C e a seed m"
  have bl: "length ?blob = 160" using ep_blob_len [OF L] by (simp add: sizes)
  obtain enc2 where enc2: "next_chunk (encoder_new ?blob) = Some (chunk_at ?blob 0, enc2)" "enc_at ?blob 1 enc2"
    using enc_at_next [OF enc_at_new, of ?blob] bl by auto
  have "dec_at ?blob 0 (decoder_new (CT2_SIZE + MAC_SIZE))" using dec_at_new [of ?blob] bl by (simp add: sizes)
  from dec_at_add [OF this] obtain dec2 where dec2: "add_chunk (decoder_new (CT2_SIZE + MAC_SIZE)) (chunk_at ?blob 0) = (Inr (), dec2)"
    "dec_at ?blob 1 dec2" by auto
  have "ph_ct2 C e a 1 (st3 e a (EkSentCt1Received seed (ep_ct1 C seed m) dec2)) (st3 e (ep_auth C e a seed m) (Ct2Sampled enc2 (ep_ss C e seed m) em))"
    using dec2(2) enc2(2) by (auto simp: ph_ct2_def)
  then show "\<exists>ma n1 a1 n2 b1 mb n3 b2 n4 a2. braid_send C r A = Some (Inr (ma, n1, None), a1) \<and>
      braid_receive C B ma = Some (Inr (n2, None), b1) \<and> braid_send C r' b1 = Some (Inr (mb, n3, None), b2) \<and>
      braid_receive C a1 mb = Some (Inr (n4, None), a2) \<and> ph_ct2 C e a 1 a2 b2"
    using q dec2(1) enc2(1) encaps2_done [OF L, of _ e a seed m]
    by (simp add: A B send_unfolds Let_def recv_here [OF e] recv_agent_def)
qed

lemma ph_ct2_chunk:
  assumes "ph_ct2 C e a j A B" "j < 5"
  obtains seed m dec dec1 enc enc1 em where "A = st3 e a (EkSentCt1Received seed (ep_ct1 C seed m) dec)"
    "B = st3 e (ep_auth C e a seed m) (Ct2Sampled enc (ep_ss C e seed m) em)"
    "next_chunk enc = Some (chunk_at (ep_blob C e a seed m) (of_nat j), enc1)" "enc_at (ep_blob C e a seed m) (Suc j) enc1"
    "add_chunk dec (chunk_at (ep_blob C e a seed m) (of_nat j)) = (Inr (), dec1)" "dec_at (ep_blob C e a seed m) (Suc j) dec1"
    "de_decoded dec1 = (if msg_k (ep_blob C e a seed m) \<le> Suc j then Some (ep_blob C e a seed m) else None)"
proof -
  from assms(1) obtain seed m dec enc em where A: "A = st3 e a (EkSentCt1Received seed (ep_ct1 C seed m) dec)"
    "B = st3 e (ep_auth C e a seed m) (Ct2Sampled enc (ep_ss C e seed m) em)"
    and p: "dec_at (ep_blob C e a seed m) j dec" "enc_at (ep_blob C e a seed m) j enc" by (auto simp: ph_ct2_def)
  obtain enc1 where enc1: "next_chunk enc = Some (chunk_at (ep_blob C e a seed m) (of_nat j), enc1)" "enc_at (ep_blob C e a seed m) (Suc j) enc1"
    using enc_at_next [OF p(2)] .
  have "j < 65536" using assms(2) by simp
  from dec_at_add [OF p(1) this] obtain dec1 where "add_chunk dec (chunk_at (ep_blob C e a seed m) (of_nat j)) = (Inr (), dec1)"
    "dec_at (ep_blob C e a seed m) (Suc j) dec1"
    "de_decoded dec1 = (if msg_k (ep_blob C e a seed m) \<le> Suc j then Some (ep_blob C e a seed m) else None)" .
  with A enc1 show thesis by (rule that)
qed

lemma round_ct2:
  assumes L: "braid_laws C" and e: "e < u64_max" and j: "j < 4"
  shows "rounds C 1 (ph_ct2 C e a j) (ph_ct2 C e a (Suc j))"
proof (rule roundsI)
  fix r r' A B assume P: "ph_ct2 C e a j A B"
  have "j < 5" using j by simp
  from ph_ct2_chunk [OF P this] obtain seed m dec dec1 enc enc1 em where
    A: "A = st3 e a (EkSentCt1Received seed (ep_ct1 C seed m) dec)"
    and B: "B = st3 e (ep_auth C e a seed m) (Ct2Sampled enc (ep_ss C e seed m) em)"
    and q: "next_chunk enc = Some (chunk_at (ep_blob C e a seed m) (of_nat j), enc1)" "enc_at (ep_blob C e a seed m) (Suc j) enc1"
    "add_chunk dec (chunk_at (ep_blob C e a seed m) (of_nat j)) = (Inr (), dec1)" "dec_at (ep_blob C e a seed m) (Suc j) dec1"
    and d: "de_decoded dec1 = (if msg_k (ep_blob C e a seed m) \<le> Suc j then Some (ep_blob C e a seed m) else None)" .
  have "de_decoded dec1 = None" using d j msg_ks(4) [OF L] by simp
  moreover have "ph_ct2 C e a (Suc j) (st3 e a (EkSentCt1Received seed (ep_ct1 C seed m) dec1))
      (st3 e (ep_auth C e a seed m) (Ct2Sampled enc1 (ep_ss C e seed m) em))"
    using q(2,4) by (auto simp: ph_ct2_def)
  moreover have "e \<noteq> e + 1" by simp
  ultimately show "\<exists>ma n1 a1 n2 b1 mb n3 b2 n4 a2. braid_send C r A = Some (Inr (ma, n1, None), a1) \<and>
      braid_receive C B ma = Some (Inr (n2, None), b1) \<and> braid_send C r' b1 = Some (Inr (mb, n3, None), b2) \<and>
      braid_receive C a1 mb = Some (Inr (n4, None), a2) \<and> ph_ct2 C e a (Suc j) a2 b2"
    using q(1,3) by (simp add: A B send_unfolds Let_def recv_here [OF e] recv_agent_def)
qed

subsection \<open>The last two rounds\<close>

lemma drive_finish:
  assumes L: "braid_laws C" and e: "e < u64_max" "e + 1 < u64_max" and P: "ph_ct2 C e a 4 A B"
  shows "\<exists>ss A' B'. length ss = 32 \<and> drive_loop C rs (Suc (Suc n)) None None A B = Some (Inr (ss, ss), A', B')"
proof -
  obtain seed m dec dec1 enc enc1 em where
    A: "A = st3 e a (EkSentCt1Received seed (ep_ct1 C seed m) dec)"
    and B: "B = st3 e (ep_auth C e a seed m) (Ct2Sampled enc (ep_ss C e seed m) em)"
    and q: "next_chunk enc = Some (chunk_at (ep_blob C e a seed m) (of_nat 4), enc1)"
    "add_chunk dec (chunk_at (ep_blob C e a seed m) (of_nat 4)) = (Inr (), dec1)" "de_decoded dec1 = Some (ep_blob C e a seed m)"
    by (rule ph_ct2_chunk [OF P]) (auto simp: msg_ks(4) [OF L])
  let ?a' = "ep_auth C e a seed m" and ?ss = "ep_ss C e seed m"
  let ?A1 = "st3 (e + 1) ?a' (NoHeaderReceived (decoder_new (HEADER_SIZE + MAC_SIZE)))"
  let ?B1 = "st3 e ?a' (Ct2Sampled enc1 ?ss em)" and ?B2 = "st3 (e + 1) ?a' KeysUnsampled"
  let ?none = "\<lambda>e :: u64. \<lparr>bm_epoch = e, bm_typ = BNone, bm_data = [] :: bytes\<rparr>"
  let ?mb = "\<lparr>bm_epoch = e, bm_typ = BCt2, bm_data = chunk_at (ep_blob C e a seed m) (of_nat 4)\<rparr>"
  have r1: "braid_send C (rs 0) A = Some (Inr (?none e, saturating_sub e 1, None), A)"
    "braid_receive C B (?none e) = Some (Inr (saturating_sub e 1, None), B)"
    "braid_send C (rs 1) B = Some (Inr (?mb, saturating_sub e 1, None), ?B1)"
    using q(1) by (simp_all add: A B send_unfolds Let_def recv_here [OF e(1)] recv_agent_def)
  have r1': "braid_receive C A ?mb = Some (Inr (saturating_sub e 1, Some \<lparr>so_epoch = e, so_key = ?ss\<rparr>), ?A1)"
    using q(2,3) decapsulate_done [OF L e(1), of _ a seed m]
    by (simp add: A Let_def recv_here [OF e(1)] recv_agent_def)
  have r2: "braid_send C (rs 2) ?A1 = Some (Inr (?none (e + 1), saturating_sub (e + 1) 1, None), ?A1)"
    by (rule idle_peer_send [of _ ?a']) (simp add: idle_peer_def ep_auth_wf [OF L])
  have r2': "braid_receive C ?B1 (?none (e + 1)) = Some (Inr (saturating_sub e 1, Some \<lparr>so_epoch = e, so_key = ?ss\<rparr>), ?B2)"
    using checked_succ_u64 [OF e(1)] by (simp add: braid_receive_def recv_agent_def complete_encapsulator_def Let_def)
  obtain seed' mb' B3 where r3: "braid_send C (rs 3) ?B2 = Some (Inr (mb', saturating_sub (e + 1) 1, None), B3)"
    "owner_msg C (e + 1) ?a' seed' mb'"
    using idle_owner_send [OF L, of "e + 1" ?a' ?B2 "rs 3"] ep_auth_wf [OF L] by (auto simp: idle_owner_def)
  have "peer_ok C (e + 1) ?a' seed' None ?A1" by (rule idle_peer_waiting [OF L]) (simp add: idle_peer_def ep_auth_wf [OF L])
  from peer_recv [OF L e(2) this r3(2)] obtain A3 where
    r4: "braid_receive C ?A1 mb' = Some (Inr (saturating_sub (e + 1) 1, None), A3)" by blast
  have "drive_loop C rs (Suc (Suc n)) None None A B = drive_loop C (\<lambda>i. rs (i + 2)) (Suc n) (Some ?ss) None ?A1 ?B1"
    using drive_round [OF r1 r1', of "Suc n" None None] by (simp del: drive_loop.simps)
  also have "\<dots> = Some (Inr (?ss, ?ss), A3, B3)"
    using drive_round [of C "\<lambda>i. rs (i + 2)" ?A1 _ _ _ ?B1 _ _ ?B2 mb' _ B3 _ None A3 n "Some ?ss" None, OF _ r2' _ r4] r2 r3(1)
    by (simp add: numeral_2_eq_2 numeral_3_eq_3 del: drive_loop.simps)
  finally show ?thesis using ep_keys(3) [OF L] by blast
qed

lemma rounds_to_ct2:
  assumes L: "braid_laws C" and e: "e < u64_max"
  shows "rounds C 41 (ph_hdr C e a 1) (ph_ct2 C e a 4)"
proof -
  have h: "rounds C 1 (ph_hdr C e a 1) (ph_hdr C e a 2)" using round_hdr [OF L e, of 1 a] by (simp add: numeral_2_eq_2)
  have h2: "rounds C 1 (ph_hdr C e a 2) (ph_ct1 C e a 0)" by (rule round_header_done [OF L e])
  have c: "rounds C 28 (ph_ct1 C e a 0) (ph_ct1 C e a (0 + 28))"
  proof (rule rounds_iter)
    fix j :: nat assume "0 \<le> j" "j < 0 + 28"
    then show "rounds C 1 (ph_ct1 C e a j) (ph_ct1 C e a (Suc j))" using round_ct1 [OF L e, of j a] by simp
  qed
  have c2: "rounds C 1 (ph_ct1 C e a 28) (ph_rcv C e a 29)" using round_ct1 [OF L e, of 28 a] by simp
  have r: "rounds C 1 (ph_rcv C e a 29) (ph_ack C e a 30)" by (rule round_rcv [OF L e])
  have k: "rounds C 5 (ph_ack C e a 30) (ph_ack C e a (30 + 5))" by (rule rounds_iter, rule round_ack [OF L e], simp)
  have k2: "rounds C 1 (ph_ack C e a 35) (ph_ct2 C e a 1)" by (rule round_ack_done [OF L e])
  have d: "rounds C 3 (ph_ct2 C e a 1) (ph_ct2 C e a (1 + 3))" by (rule rounds_iter, rule round_ct2 [OF L e], simp)
  have "rounds C (1 + (1 + (28 + (1 + (1 + (5 + (1 + 3))))))) (ph_hdr C e a 1) (ph_ct2 C e a (1 + 3))"
    by (rule rounds_trans [OF h rounds_trans [OF h2 rounds_trans [OF c [simplified] rounds_trans [OF c2 rounds_trans [OF r
        rounds_trans [OF k [simplified] rounds_trans [OF k2 d]]]]]]])
  then show ?thesis by simp
qed

text \<open>The first round: the header of a fresh key.\<close>

lemma round_first:
  assumes L: "braid_laws C" and e: "e < u64_max"
  shows "rounds C 1 (\<lambda>A B. idle_owner e a A \<and> idle_peer e a B) (ph_hdr C e a 1)"
proof (rule roundsI)
  fix r r' A B assume AB: "idle_owner e a A \<and> idle_peer e a B"
  define seed where "seed = fst (fill_random 64 r)"
  let ?p = "ep_payload C e a seed"
  have pl: "length ?p = 96" by (rule ep_lens(3) [OF L])
  have "length (kem_ek C seed) = 1184" using L by (simp add: braid_laws_def kem_correct_def)
  then have g: "fst (kem_generate C r) = Inr (seed, kem_ek C seed)"
    by (simp add: kem_generate_def encode_public_def seed_def split_beta Let_def)
  obtain enc where enc: "next_chunk (encoder_new ?p) = Some (chunk_at ?p 0, enc)" "enc_at ?p 1 enc"
    using enc_at_next [OF enc_at_new, of ?p] pl by auto
  have "dec_at ?p 0 (decoder_new (HEADER_SIZE + MAC_SIZE))" using dec_at_new [of ?p] pl by (simp add: sizes)
  then obtain dec where dec: "add_chunk (decoder_new (HEADER_SIZE + MAC_SIZE)) (chunk_at ?p 0) = (Inr (), dec)"
    "dec_at ?p 1 dec" "de_decoded dec = None"
    by (rule dec_at_add) (auto simp: msg_ks(1) [OF L])
  have s: "braid_send C r A = Some (Inr (\<lparr>bm_epoch = e, bm_typ = BHdr, bm_data = chunk_at ?p 0\<rparr>, saturating_sub e 1, None),
      st3 e a (KeysSampled seed (ep_t C seed) enc))"
    using AB g enc(1) ep_hdr_def [of C seed] ep_t_def [of C seed] unfolding idle_owner_def
    by (simp add: send_unfolds split_beta Let_def ep_payload_def)
  moreover have "braid_receive C B \<lparr>bm_epoch = e, bm_typ = BHdr, bm_data = chunk_at ?p 0\<rparr> =
      Some (Inr (saturating_sub e 1, None), st3 e a (NoHeaderReceived dec))"
    using AB dec(1,3) by (simp add: idle_peer_def recv_here [OF e] recv_agent_def Let_def)
  ultimately show "\<exists>ma n1 a1 n2 b1 mb n3 b2 n4 a2. braid_send C r A = Some (Inr (ma, n1, None), a1) \<and>
      braid_receive C B ma = Some (Inr (n2, None), b1) \<and> braid_send C r' b1 = Some (Inr (mb, n3, None), b2) \<and>
      braid_receive C a1 mb = Some (Inr (n4, None), a2) \<and> ph_hdr C e a 1 a2 b2"
    using enc(2) dec(2) by (simp add: send_unfolds Let_def recv_here [OF e] recv_agent_def ph_hdr_def)
qed

lemma drive_idle:
  assumes "braid_laws C" "idle_owner 1 a A" "idle_peer 1 a B" "44 \<le> max_rounds"
  shows "\<exists>key A' B'. length key = 32 \<and> drive_until_key C rs A B max_rounds = Some (Inr (key, key), A', B')"
proof -
  define n where "n = max_rounds - 44"
  then have n: "max_rounds = (1 + 41) + Suc (Suc n)" using assms(4) by simp
  have "rounds C (1 + 41) (\<lambda>A B. idle_owner 1 a A \<and> idle_peer 1 a B) (ph_ct2 C 1 a 4)"
    by (rule rounds_trans [OF round_first [OF assms(1)] rounds_to_ct2 [OF assms(1)]]) simp_all
  then obtain rs' A' B' where p: "ph_ct2 C 1 a 4 A' B'"
    and d: "drive_loop C rs max_rounds None None A B = drive_loop C rs' (Suc (Suc n)) None None A' B'"
    using assms(2,3) unfolding rounds_def n by blast
  show ?thesis using drive_finish [OF assms(1) _ _ p, of rs' n] unfolding drive_until_key_def d by simp
qed

text \<open>C13: the Braid driver succeeds. When the two parties, set up from the same secret, exchange messages
  in turn without loss, both publish a key within 44 rounds, whatever random bytes they draw: with
  at least 44 rounds allowed, the driver returns, without error or panic, the same 32-byte key for both.\<close>

theorem drive_until_key_succeeds:
  assumes "braid_laws C" "braid_init_alice C sk = Inr A" "braid_init_bob C sk = Inr B" "44 \<le> max_rounds"
  shows "\<exists>key A' B'. length key = 32 \<and> drive_until_key C rs A B max_rounds = Some (Inr (key, key), A', B')"
proof -
  obtain a where "idle_owner 1 a A" "idle_peer 1 a B"
    using assms(1-3) auth_init_ok [of C 1 sk] by (auto simp: braid_laws_def braid_init_alice_def braid_init_bob_def rd_simps idle_owner_def idle_peer_def)
  then show ?thesis by (rule drive_idle [OF assms(1) _ _ assms(4)])
qed

theorem drive_until_key_succeeds_witness:
  "\<exists>A B key A' B'. braid_init_alice braid_crypto (replicate 32 7) = Inr A \<and> braid_init_bob braid_crypto (replicate 32 7) = Inr B \<and>
    length key = 32 \<and> drive_until_key braid_crypto (\<lambda>i j. of_nat (i + j)) A B 800 = Some (Inr (key, key), A', B')"
proof -
  obtain A B where "braid_init_alice braid_crypto (replicate 32 7) = Inr A" "braid_init_bob braid_crypto (replicate 32 7) = Inr B"
    by (rule braid_init_total [OF braid_crypto_laws])
  then show ?thesis using drive_until_key_succeeds [OF braid_crypto_laws, of "replicate 32 7" A B 800 "\<lambda>i j. of_nat (i + j)"] by auto
qed

end
