(* ===== verification/VC_Ratchet_Sync.thy ===== *)
theory VC_Ratchet_Sync
  imports VC_Ratchet_Codec VC_Instance
begin

text \<open>
  Two parties running the Double Ratchet against each other. Messages may be delayed, reordered
  or lost, unauthentic input may be injected, sends may fail, and either side may be restarted
  from its serialized state. The invariant \<open>synced\<close> describes both states by one sequence of
  ratchet chains: chain \<open>j\<close> has a secret, a root key, a chain key and a length, the party at index
  \<open>e\<close> sends on chain \<open>e\<close> and receives on chain \<open>e - 1\<close>, and the two indices differ by one.
\<close>

subsection \<open>Skipping, once more\<close>

text \<open>The state after skipping to \<open>until\<close> on the chain \<open>ck\<close> of the peer key \<open>d\<close>.\<close>

definition skip_state :: "crypto \<Rightarrow> bytes \<Rightarrow> bytes \<Rightarrow> u32 \<Rightarrow> dr_state \<Rightarrow> dr_state" where
  "skip_state C d ck until s =
     (let k = unat until - unat (nr s)
      in s\<lparr>mkskipped := skip_store C d ck (nr s) k (mkskipped s),
           nr := (if nr s < until then until else nr s), ckr := Some (chain_key C ck k)\<rparr>)"

lemma skip_loop_success:
  assumes "skip_loop C until ck s = (Inr ck', s')" "dhr s = Some d" "unat (nr s) + k = unat until"
  shows "ck' = chain_key C ck k \<and> s' = s\<lparr>mkskipped := skip_store C d ck (nr s) k (mkskipped s), nr := until\<rparr>"
  using assms
proof (induction k arbitrary: ck s)
  case 0
  then have "nr s = until" by (metis add.right_neutral unsigned_word_eqI)
  with 0 show ?case by (subst (asm) (1) skip_loop_unroll) auto
next
  case (Suc k)
  have lt: "nr s < until" using Suc.prems(3) by (simp add: word_less_nat_alt)
  have n1: "unat (nr s + 1) = Suc (unat (nr s))"
    using Suc.prems(3) unat_u32_bound [of until] unat_plus1 [of "nr s"] by simp
  let ?s = "s\<lparr>mkskipped := hm_insert (mkskipped s) (d, nr s) (msg_key C ck 0), nr := nr s + 1\<rparr>"
  have "skip_loop C until (chain_key C ck 1) ?s = (Inr ck', s')"
    using Suc.prems(1,2) lt by (subst (asm) (1) skip_loop_unroll) (auto split: if_splits)
  from Suc.IH [OF this] Suc.prems(2,3) n1
  have "ck' = chain_key C (chain_key C ck 1) k \<and>
    s' = ?s\<lparr>mkskipped := skip_store C d (chain_key C ck 1) (nr ?s) k (mkskipped ?s), nr := until\<rparr>"
    by simp
  then show ?case using chain_key_shift [of C ck 1 k] by simp
qed

lemma skip_loop_error:
  assumes "skip_loop C until ck s = (Inl e, s')" "dhr s \<noteq> None"
  shows "e = LimitExceeded"
proof -
  have "dhr s \<noteq> None \<longrightarrow> (\<forall>e. fst (skip_loop C until ck s) = Inl e \<longrightarrow> e = LimitExceeded)"
  proof (induction "unat until - unat (nr s)" arbitrary: ck s rule: less_induct)
    case less
    show ?case
    proof (cases "nr s < until")
      case True
      then have n1: "unat (nr s + 1) = Suc (unat (nr s))"
        using unat_u32_bound [of until] unat_plus1 [of "nr s"] by (simp add: word_less_nat_alt)
      have "fst (skip_loop C until (chain_key C ck 1)
          (s\<lparr>mkskipped := hm_insert (mkskipped s) (d, nr s) (msg_key C ck 0), nr := nr s + 1\<rparr>)) = Inl e
        \<Longrightarrow> e = LimitExceeded" if "dhr s = Some d" for d e
        using less [of "s\<lparr>mkskipped := hm_insert (mkskipped s) (d, nr s) (msg_key C ck 0), nr := nr s + 1\<rparr>"]
          True n1 that by (simp add: word_less_nat_alt)
      with True show ?thesis by (subst skip_loop_unroll) (auto split: option.split)
    qed (subst skip_loop_unroll, simp)
  qed
  with assms show ?thesis by auto
qed

lemma skip_message_keys_result:
  assumes "ckr s = Some ck" "dhr s = Some d"
  shows "skip_message_keys C until s = (Inr (), skip_state C d ck until s) \<or>
    fst (skip_message_keys C until s) = Inl LimitExceeded"
proof (cases rule: skip_message_keys_cases [of C until s])
  case (fail k e s')
  with skip_loop_error [OF fail(2)] assms show ?thesis by simp
next
  case (run k k' s')
  then have k: "k = ck" using assms by simp
  show ?thesis
  proof (cases "nr s < until")
    case True
    with skip_loop_success [OF run(2), of d "unat until - unat (nr s)"] run k assms show ?thesis
      by (simp add: skip_state_def Let_def word_less_nat_alt)
  next
    case False
    moreover from this run(2) have "k' = k" "s' = s" by (subst (asm) skip_loop_unroll, simp)+
    ultimately show ?thesis using run k assms by (simp add: skip_state_def Let_def word_less_nat_alt)
  qed
qed (use assms in simp_all)

lemma skip_message_keys_room:
  assumes "ckr s = Some ck" "dhr s = Some d" "unat (nr s) + unat (max_skip s) < 2 ^ 32"
    "length (mkskipped s) + (unat until - unat (nr s)) \<le> unat (max_skip s)"
  shows "skip_message_keys C until s = (Inr (), skip_state C d ck until s)"
proof (cases "nr s < until")
  case True
  with skip_message_keys_eq [OF assms(1,2), of "unat until - unat (nr s)" until C] assms(3,4)
  show ?thesis by (simp add: skip_state_def Let_def word_less_nat_alt)
next
  case False
  then have "skip_state C d ck until s = s" "unat until \<le> unat (nr s)"
    using assms(1) by (simp_all add: skip_state_def Let_def word_less_nat_alt)
  with skip_message_keys_past [OF _ assms(3)] show ?thesis by simp
qed

lemma skip_message_keys_no_chain_result:
  assumes "ckr s = None"
  shows "skip_message_keys C until s = (Inr (), s) \<or> fst (skip_message_keys C until s) = Inl LimitExceeded"
  by (cases rule: skip_message_keys_cases [of C until s]) (use assms in simp_all)

lemma skip_state_simps [simp]:
  "dhs (skip_state C d ck u s) = dhs s" "dhr (skip_state C d ck u s) = dhr s"
  "rk (skip_state C d ck u s) = rk s" "cks (skip_state C d ck u s) = cks s"
  "ns (skip_state C d ck u s) = ns s" "pn (skip_state C d ck u s) = pn s"
  "max_skip (skip_state C d ck u s) = max_skip s"
  "nr (skip_state C d ck u s) = (if nr s < u then u else nr s)"
  "ckr (skip_state C d ck u s) = Some (chain_key C ck (unat u - unat (nr s)))"
  by (simp_all add: skip_state_def Let_def)

lemma hm_get_skip_state:
  "hm_get (mkskipped (skip_state C d ck u s)) (p, j) =
    (if p = d \<and> unat (nr s) \<le> unat j \<and> unat j < unat u then Some (msg_key C ck (unat j - unat (nr s)))
     else hm_get (mkskipped s) (p, j))"
proof -
  have "unat (nr s) + (unat u - unat (nr s)) < 2 ^ 32"
    using unat_u32_bound [of u] unat_u32_bound [of "nr s"] by simp
  from hm_get_skip_store [OF this, of C d ck "mkskipped s" p j] show ?thesis
    by (auto simp: skip_state_def Let_def)
qed

lemma length_skip_state: "length (mkskipped (skip_state C d ck u s)) \<le> length (mkskipped s) + (unat u - unat (nr s))"
  by (simp add: skip_state_def Let_def length_skip_store)

subsection \<open>The sequence of chains\<close>

record chains =
  g_sec :: "nat \<Rightarrow> bytes"
  g_root :: "nat \<Rightarrow> bytes"
  g_ck :: "nat \<Rightarrow> bytes"
  g_len :: "nat \<Rightarrow> nat"

abbreviation g_pub :: "crypto \<Rightarrow> chains \<Rightarrow> nat \<Rightarrow> bytes" where
  "g_pub C G j \<equiv> public_key C (g_sec G j)"

definition g_prev :: "chains \<Rightarrow> nat \<Rightarrow> nat" where
  "g_prev G j = (if j < 2 then 0 else g_len G (j - 2))"

text \<open>Chain \<open>j + 1\<close> is derived from root \<open>j\<close> and the Diffie-Hellman output of its own secret and
  the public key before it; the public keys are pairwise different.\<close>

definition chains_ok :: "crypto \<Rightarrow> chains \<Rightarrow> nat \<Rightarrow> bool" where
  "chains_ok C G E \<longleftrightarrow>
     (\<forall>j<E. kdf_rk C (g_root G j) (diffie_hellman C (g_sec G (Suc j)) (g_pub C G j)) =
        Inr (g_root G (Suc j), g_ck G (Suc j))) \<and>
     inj_on (g_pub C G) {..E} \<and> (\<forall>j\<le>E. g_len G j < 2 ^ 32) \<and> g_len G 0 = 0"

text \<open>A party at index \<open>e\<close>. At the very end of the counter a refused send has already moved the
  chain key, which is why the sending chain key is only fixed while the counter can move.\<close>

definition party_at :: "crypto \<Rightarrow> chains \<Rightarrow> nat \<Rightarrow> dr_state \<Rightarrow> bool" where
  "party_at C G e s \<longleftrightarrow> dr_wf C s \<and>
     dhs s = Some (g_sec G e) \<and> rk s = g_root G e \<and>
     dhr s = (if e = 0 then None else Some (g_pub C G (e - 1))) \<and>
     (cks s = None \<longleftrightarrow> e = 0) \<and>
     (0 < e \<and> unat (ns s) + 1 < 2 ^ 32 \<longrightarrow> cks s = Some (chain_key C (g_ck G e) (unat (ns s)))) \<and>
     ckr s = (if e < 2 then None else Some (chain_key C (g_ck G (e - 1)) (unat (nr s)))) \<and>
     pn s = of_nat (g_prev G e) \<and> unat (ns s) = g_len G e \<and>
     (if e < 2 then nr s = 0 else unat (nr s) \<le> g_len G (e - 1))"

lemma party_at_nr: "party_at C G (Suc e) s \<Longrightarrow> unat (nr s) \<le> g_len G e"
  by (auto simp: party_at_def split: if_splits)

text \<open>A message in transit, with the plaintext and associated data it was made from.\<close>

type_synonym msg = "header \<times> bytes \<times> bytes \<times> bytes"

definition msg_id :: "msg \<Rightarrow> bytes \<times> u32" where
  "msg_id m = (case m of (h, ct, pt, ad) \<Rightarrow> (h_dh h, h_n h))"

definition genuine :: "crypto \<Rightarrow> chains \<Rightarrow> msg \<Rightarrow> nat \<Rightarrow> nat \<Rightarrow> bool" where
  "genuine C G m j n \<longleftrightarrow> (case m of (h, ct, pt, ad) \<Rightarrow>
     h = \<lparr>h_dh = g_pub C G j, h_pn = of_nat (g_prev G j), h_n = of_nat n\<rparr> \<and> n < g_len G j \<and>
     (\<exists>key nonce. aead_from_mk C (msg_key C (g_ck G j) n) = Inr (key, nonce) \<and>
        aead_seal C key nonce pt (concat_ad ad h) = Inr ct))"

definition readable :: "crypto \<Rightarrow> chains \<Rightarrow> nat \<Rightarrow> dr_state \<Rightarrow> nat \<Rightarrow> nat \<Rightarrow> bool" where
  "readable C G e s j n \<longleftrightarrow>
     j = Suc e \<or> Suc j = e \<and> unat (nr s) \<le> n \<or>
     j < e \<and> hm_get (mkskipped s) (g_pub C G j, of_nat n) = Some (msg_key C (g_ck G j) n)"

definition mail_ok :: "crypto \<Rightarrow> chains \<Rightarrow> nat \<Rightarrow> nat \<Rightarrow> dr_state \<Rightarrow> msg list \<Rightarrow> bool" where
  "mail_ok C G E e s M \<longleftrightarrow>
     (\<forall>p n mk. hm_get (mkskipped s) (p, n) = Some mk \<longrightarrow>
        (\<exists>j. p = g_pub C G j \<and> (Suc j < e \<or> Suc j = e \<and> unat n < unat (nr s)))) \<and>
     distinct (map msg_id M) \<and>
     (\<forall>m\<in>set M. \<exists>j n. j \<le> E \<and> genuine C G m j n \<and> readable C G e s j n)"

subsection \<open>Receiving, case by case\<close>

lemma sbind_err: "fst m = Inl e \<Longrightarrow> fst (sbind m f) = Inl e"
  by (cases m) simp

definition fetched :: "crypto \<Rightarrow> bytes \<Rightarrow> bytes \<Rightarrow> u32 \<Rightarrow> dr_state \<Rightarrow> dr_state" where
  "fetched C d ck n s =
     (skip_state C d ck n s)\<lparr>ckr := Some (chain_key C ck (unat n - unat (nr s) + 1)), nr := n + 1\<rparr>"

text \<open>Skipping to position \<open>n\<close> and taking the next key.\<close>

lemma fetch_result:
  fixes C :: crypto
  assumes "ckr s = Some ck" "dhr s = Some d" "unat (nr s) \<le> unat n" "unat n + 1 < 2 ^ 32"
  defines "res \<equiv> sbind (skip_message_keys C n s) (\<lambda>_ s. advance_recv C s)"
  shows "res = (Inr (msg_key C ck (unat n - unat (nr s))), fetched C d ck n s) \<or> fst res = Inl LimitExceeded"
    and "unat (nr s) + unat (max_skip s) < 2 ^ 32 \<Longrightarrow>
      length (mkskipped s) + (unat n - unat (nr s)) \<le> unat (max_skip s) \<Longrightarrow>
      res = (Inr (msg_key C ck (unat n - unat (nr s))), fetched C d ck n s)"
proof -
  have "(if nr s < n then n else nr s) = n"
    using assms(3) by (auto simp: word_less_nat_alt intro: unsigned_word_eqI)
  then have adv: "advance_recv C (skip_state C d ck n s) =
      (Inr (msg_key C ck (unat n - unat (nr s))), fetched C d ck n s)"
    using assms(4) chain_key_shift [of C ck "unat n - unat (nr s)" 1]
      msg_key_shift [of C ck "unat n - unat (nr s)" 0]
    by (simp add: advance_recv_def fetched_def checked_inc_ok)
  show "res = (Inr (msg_key C ck (unat n - unat (nr s))), fetched C d ck n s) \<or> fst res = Inl LimitExceeded"
    using skip_message_keys_result [OF assms(1,2), of C n] adv unfolding res_def
    by (auto simp: sbind_err)
  show "res = (Inr (msg_key C ck (unat n - unat (nr s))), fetched C d ck n s)"
    if "unat (nr s) + unat (max_skip s) < 2 ^ 32"
      "length (mkskipped s) + (unat n - unat (nr s)) \<le> unat (max_skip s)"
    unfolding res_def skip_message_keys_room [OF assms(1,2) that] by (simp add: adv)
qed

lemma fetched_simps [simp]:
  "dhs (fetched C d ck n s) = dhs s" "dhr (fetched C d ck n s) = dhr s"
  "rk (fetched C d ck n s) = rk s" "cks (fetched C d ck n s) = cks s"
  "ns (fetched C d ck n s) = ns s" "pn (fetched C d ck n s) = pn s"
  "max_skip (fetched C d ck n s) = max_skip s" "nr (fetched C d ck n s) = n + 1"
  "ckr (fetched C d ck n s) = Some (chain_key C ck (unat n - unat (nr s) + 1))"
  "mkskipped (fetched C d ck n s) = mkskipped (skip_state C d ck n s)"
  by (simp_all add: fetched_def)

text \<open>How many keys have to be skipped to reach a message.\<close>

definition skips_needed :: "dr_state \<Rightarrow> header \<Rightarrow> nat" where
  "skips_needed s h =
     (if dhr s = Some (h_dh h) then unat (h_n h) - unat (nr s)
      else (unat (h_pn h) - unat (nr s)) + unat (h_n h))"

definition has_room :: "dr_state \<Rightarrow> header \<Rightarrow> bool" where
  "has_room s h \<longleftrightarrow> unat (nr s) + unat (max_skip s) < 2 ^ 32 \<and>
     length (mkskipped s) + skips_needed s h \<le> unat (max_skip s)"

lemma receive_current:
  fixes C :: crypto and r :: rng
  assumes "hm_get (mkskipped s) (h_dh h, h_n h) = None" "dhr s = Some (h_dh h)" "ckr s = Some ck"
    "unat (nr s) \<le> unat (h_n h)" "unat (h_n h) + 1 < 2 ^ 32"
  defines "ok \<equiv> ratchet_receive_key C r h s =
      (Inr (msg_key C ck (unat (h_n h) - unat (nr s))), fetched C (h_dh h) ck (h_n h) s)"
  shows "ok \<or> fst (ratchet_receive_key C r h s) = Inl LimitExceeded" and "has_room s h \<Longrightarrow> ok"
proof -
  have e: "ratchet_receive_key C r h s =
      sbind (skip_message_keys C (h_n h) s) (\<lambda>_ s. advance_recv C s)"
    using assms(1,2) by (simp add: ratchet_receive_key_eq hm_remove_id Let_def)
  note f = fetch_result [OF assms(3,2,4,5), of C]
  show "ok \<or> fst (ratchet_receive_key C r h s) = Inl LimitExceeded"
    unfolding ok_def e by (rule f(1))
  show ok if "has_room s h"
    unfolding ok_def e using that assms(2) by (intro f(2)) (simp_all add: has_room_def skips_needed_def)
qed

text \<open>A message on a new chain: finish the old chain, ratchet, then fetch from the new one.\<close>

definition finish_chain :: "crypto \<Rightarrow> u32 \<Rightarrow> dr_state \<Rightarrow> dr_state" where
  "finish_chain C u s =
     (case (ckr s, dhr s) of (Some ck, Some d) \<Rightarrow> skip_state C d ck u s | _ \<Rightarrow> s)"

lemma finish_chain_result:
  assumes "ckr s \<noteq> None \<Longrightarrow> dhr s \<noteq> None" "ckr s = None \<Longrightarrow> nr s = 0 \<and> u = 0"
  shows "skip_message_keys C u s = (Inr (), finish_chain C u s) \<or>
      fst (skip_message_keys C u s) = Inl LimitExceeded"
    and "unat (nr s) + unat (max_skip s) < 2 ^ 32 \<Longrightarrow>
      length (mkskipped s) + (unat u - unat (nr s)) \<le> unat (max_skip s) \<Longrightarrow>
      skip_message_keys C u s = (Inr (), finish_chain C u s)"
proof -
  show "skip_message_keys C u s = (Inr (), finish_chain C u s) \<or>
      fst (skip_message_keys C u s) = Inl LimitExceeded"
    using skip_message_keys_result [of s _ _ C u] skip_message_keys_no_chain_result [of s C u] assms(1)
    by (cases "ckr s") (auto simp: finish_chain_def)
  show "skip_message_keys C u s = (Inr (), finish_chain C u s)"
    if "unat (nr s) + unat (max_skip s) < 2 ^ 32"
      "length (mkskipped s) + (unat u - unat (nr s)) \<le> unat (max_skip s)"
  proof (cases "ckr s")
    case None
    with assms(2) skip_message_keys_past [OF _ that(1), of u C] show ?thesis by (simp add: finish_chain_def)
  next
    case (Some ck)
    with assms(1) skip_message_keys_room [OF Some _ that(1,2)] show ?thesis
      by (auto simp: finish_chain_def)
  qed
qed

lemma finish_chain_simps [simp]:
  "dhs (finish_chain C u s) = dhs s" "dhr (finish_chain C u s) = dhr s"
  "rk (finish_chain C u s) = rk s" "cks (finish_chain C u s) = cks s"
  "ns (finish_chain C u s) = ns s" "pn (finish_chain C u s) = pn s"
  "max_skip (finish_chain C u s) = max_skip s"
  by (simp_all add: finish_chain_def split: option.split)

lemma length_finish_chain: "length (mkskipped (finish_chain C u s)) \<le> length (mkskipped s) + (unat u - unat (nr s))"
  by (auto simp: finish_chain_def length_skip_state split: option.split)

definition ratcheted :: "bytes \<Rightarrow> bytes \<Rightarrow> bytes \<Rightarrow> bytes \<Rightarrow> bytes \<Rightarrow> dr_state \<Rightarrow> dr_state" where
  "ratcheted p ck1 rk2 ck2 y s =
     s\<lparr>pn := ns s, ns := 0, nr := 0, dhr := Some p, rk := rk2, ckr := Some ck1, cks := Some ck2,
       dhs := Some y\<rparr>"

lemma receive_new_chain:
  fixes C :: crypto and r :: rng
  assumes "hm_get (mkskipped s) (h_dh h, h_n h) = None" "dhr s \<noteq> Some (h_dh h)"
    "ckr s \<noteq> None \<Longrightarrow> dhr s \<noteq> None" "ckr s = None \<Longrightarrow> nr s = 0 \<and> h_pn h = 0"
    "dhs s = Some x" "kdf_rk C (rk s) (diffie_hellman C x (h_dh h)) = Inr (rk1, ck1)"
    "secret_generate C r = (y, r')" "kdf_rk C rk1 (diffie_hellman C y (h_dh h)) = Inr (rk2, ck2)"
    "unat (h_n h) + 1 < 2 ^ 32"
  defines "ok \<equiv> ratchet_receive_key C r h s = (Inr (msg_key C ck1 (unat (h_n h))),
      fetched C (h_dh h) ck1 (h_n h) (ratcheted (h_dh h) ck1 rk2 ck2 y (finish_chain C (h_pn h) s)))"
  shows "ok \<or> fst (ratchet_receive_key C r h s) = Inl LimitExceeded" and "has_room s h \<Longrightarrow> ok"
proof -
  let ?f = "finish_chain C (h_pn h) s" and ?s2 = "ratcheted (h_dh h) ck1 rk2 ck2 y (finish_chain C (h_pn h) s)"
  have e: "ratchet_receive_key C r h s =
      sbind (sbind (skip_message_keys C (h_pn h) s) (\<lambda>_ s. dh_ratchet C r h s))
        (\<lambda>_ s. sbind (skip_message_keys C (h_n h) s) (\<lambda>_ s. advance_recv C s))"
    using assms(1,2) by (simp add: ratchet_receive_key_eq hm_remove_id Let_def)
  have d: "dh_ratchet C r h ?f = (Inr (), ?s2)"
    using dh_ratchet_eq [of ?f x C h rk1 ck1 r y r' rk2 ck2] assms(5-8) by (simp add: ratcheted_def)
  note fin = finish_chain_result [OF assms(3,4), of C]
  have s2: "ckr ?s2 = Some ck1" "dhr ?s2 = Some (h_dh h)" "nr ?s2 = 0" "max_skip ?s2 = max_skip s"
    "mkskipped ?s2 = mkskipped ?f"
    by (simp_all add: ratcheted_def)
  note f = fetch_result [OF s2(1,2), of "h_n h" C, unfolded s2(3-5), simplified]
  show "ok \<or> fst (ratchet_receive_key C r h s) = Inl LimitExceeded"
  proof (cases "skip_message_keys C (h_pn h) s = (Inr (), ?f)")
    case True
    then show ?thesis unfolding ok_def e using f(1) assms(9) d by simp
  next
    case False
    with fin(1) show ?thesis unfolding e by (simp add: sbind_err)
  qed
  assume room: "has_room s h"
  then have l: "length (mkskipped ?f) + unat (h_n h) \<le> unat (max_skip s)"
    using length_finish_chain [of C "h_pn h" s] assms(2) by (simp add: has_room_def skips_needed_def)
  have "skip_message_keys C (h_pn h) s = (Inr (), ?f)"
    using room assms(2) by (intro fin(2)) (simp_all add: has_room_def skips_needed_def)
  then show ok unfolding ok_def e using f(2) assms(9) d l unat_u32_bound [of "max_skip s"] by simp
qed

subsection \<open>What a delivery does to the invariant\<close>

lemma hm_get_skip_chain:
  "hm_get (mkskipped (skip_state C d (chain_key C K (unat (nr s))) u s)) (p, i) =
    (if p = d \<and> unat (nr s) \<le> unat i \<and> unat i < unat u then Some (msg_key C K (unat i))
     else hm_get (mkskipped s) (p, i))"
  by (simp add: hm_get_skip_state msg_key_shift)

lemma genuine_facts:
  assumes "chains_ok C G E" "j \<le> E" "genuine C G (h, ct, pt, ad) j n"
  shows "h_dh h = g_pub C G j" "h_pn h = of_nat (g_prev G j)" "h_n h = of_nat n"
    "unat (h_n h) = n" "n + 1 < 2 ^ 32" "n < g_len G j" "msg_id (h, ct, pt, ad) = (g_pub C G j, of_nat n)"
proof -
  have "g_len G j < 2 ^ 32" using assms(1,2) by (simp add: chains_ok_def)
  then show "h_dh h = g_pub C G j" "h_pn h = of_nat (g_prev G j)" "h_n h = of_nat n"
    "unat (h_n h) = n" "n + 1 < 2 ^ 32" "n < g_len G j" "msg_id (h, ct, pt, ad) = (g_pub C G j, of_nat n)"
    using assms(3) by (auto simp: genuine_def msg_id_def)
qed

lemma mail_ok_msg:
  "mail_ok C G E e s M \<Longrightarrow> m \<in> set M \<Longrightarrow>
    \<exists>j n. j \<le> E \<and> genuine C G m j n \<and> readable C G e s j n"
  by (simp add: mail_ok_def)

lemma distinct_ids_remove1: "distinct (map msg_id M) \<Longrightarrow> distinct (map msg_id (remove1 m M))"
  by (auto simp: distinct_map dest: inj_on_subset [OF _ set_remove1_subset])

lemma other_message:
  assumes "chains_ok C G E" "distinct (map msg_id M)" "m \<in> set M" "m' \<in> set (remove1 m M)"
    "genuine C G m j n" "genuine C G m' j' n'" "j \<le> E" "j' \<le> E"
  shows "m' \<in> set M" and "j' = j \<Longrightarrow> n' \<noteq> n"
    and "(g_pub C G j', of_nat n' :: u32) \<noteq> (g_pub C G j, of_nat n)"
proof -
  have "distinct M" using assms(2) by (simp add: distinct_map)
  then have "m' \<in> set M" "m' \<noteq> m" using assms(4) by auto
  then have "msg_id m' \<noteq> msg_id m" using assms(2,3) by (auto simp: distinct_map inj_on_def)
  moreover obtain h ct pt ad h' ct' pt' ad' where "m = (h, ct, pt, ad)" "m' = (h', ct', pt', ad')"
    by (cases m; cases m') auto
  ultimately show "(g_pub C G j', of_nat n' :: u32) \<noteq> (g_pub C G j, of_nat n)"
    using genuine_facts(7) [OF assms(1)] assms(5-8) by metis
  then show "j' = j \<Longrightarrow> n' \<noteq> n" by auto
  show "m' \<in> set M" by fact
qed

text \<open>A message whose key was stored.\<close>

lemma mail_after_stored:
  assumes "chains_ok C G E" "mail_ok C G E e s M" "m \<in> set M" "genuine C G m j n" "j \<le> E"
  shows "mail_ok C G E e (s\<lparr>mkskipped := hm_remove (mkskipped s) (g_pub C G j, of_nat n)\<rparr>) (remove1 m M)"
  unfolding mail_ok_def
proof (intro conjI ballI)
  have d: "distinct (map msg_id M)" using assms(2) by (simp add: mail_ok_def)
  then show "distinct (map msg_id (remove1 m M))"
    by (rule distinct_ids_remove1)
  show "\<forall>p i mk. hm_get (mkskipped (s\<lparr>mkskipped := hm_remove (mkskipped s) (g_pub C G j, of_nat n)\<rparr>)) (p, i) = Some mk \<longrightarrow>
      (\<exists>j'. p = g_pub C G j' \<and> (Suc j' < e \<or> Suc j' = e \<and>
        unat i < unat (nr (s\<lparr>mkskipped := hm_remove (mkskipped s) (g_pub C G j, of_nat n)\<rparr>))))"
    using assms(2) by (auto simp: mail_ok_def split: if_splits)
  fix m' assume m': "m' \<in> set (remove1 m M)"
  then obtain j' n' where g: "j' \<le> E" "genuine C G m' j' n'" "readable C G e s j' n'"
    using mail_ok_msg [OF assms(2) subsetD [OF set_remove1_subset m']] by blast
  with other_message(3) [OF assms(1) d assms(3) m' assms(4) g(2) assms(5) g(1)]
  show "\<exists>j' n'. j' \<le> E \<and> genuine C G m' j' n' \<and>
      readable C G e (s\<lparr>mkskipped := hm_remove (mkskipped s) (g_pub C G j, of_nat n)\<rparr>) j' n'"
    by (auto simp: readable_def)
qed

text \<open>A message further down the current receiving chain.\<close>

lemma mail_after_current:
  assumes "chains_ok C G E" "mail_ok C G E e s M" "m \<in> set M" "genuine C G m j n" "j \<le> E"
    "Suc j = e" "unat (nr s) \<le> n" "unat (of_nat n :: u32) = n" "n + 1 < 2 ^ 32"
  defines "s' \<equiv> fetched C (g_pub C G j) (chain_key C (g_ck G j) (unat (nr s))) (of_nat n) s"
  shows "mail_ok C G E e s' (remove1 m M)"
  unfolding mail_ok_def
proof (intro conjI ballI)
  have d: "distinct (map msg_id M)" using assms(2) by (simp add: mail_ok_def)
  then show "distinct (map msg_id (remove1 m M))"
    by (rule distinct_ids_remove1)
  have n1: "unat (nr s') = Suc n"
    using assms(8,9) unat_plus1 [of "of_nat n"] by (simp add: s'_def)
  have get: "hm_get (mkskipped s') (p, i) =
    (if p = g_pub C G j \<and> unat (nr s) \<le> unat i \<and> unat i < n then Some (msg_key C (g_ck G j) (unat i))
     else hm_get (mkskipped s) (p, i))" for p i
    by (simp add: s'_def hm_get_skip_chain assms(8))
  show "\<forall>p i mk. hm_get (mkskipped s') (p, i) = Some mk \<longrightarrow>
      (\<exists>j'. p = g_pub C G j' \<and> (Suc j' < e \<or> Suc j' = e \<and> unat i < unat (nr s')))"
  proof (intro allI impI)
    fix p i mk assume a: "hm_get (mkskipped s') (p, i) = Some mk"
    show "\<exists>j'. p = g_pub C G j' \<and> (Suc j' < e \<or> Suc j' = e \<and> unat i < unat (nr s'))"
    proof (cases "p = g_pub C G j \<and> unat (nr s) \<le> unat i \<and> unat i < n")
      case True
      with assms(6) n1 show ?thesis by (intro exI [of _ j]) simp
    next
      case False
      with a assms(2) obtain j' where "p = g_pub C G j'" "Suc j' < e \<or> Suc j' = e \<and> unat i < unat (nr s)"
        by (auto simp: get mail_ok_def)
      with n1 assms(7) show ?thesis by (intro exI [of _ j']) auto
    qed
  qed
  fix m' assume m': "m' \<in> set (remove1 m M)"
  then obtain j' n' where g: "j' \<le> E" "genuine C G m' j' n'" "readable C G e s j' n'"
    using mail_ok_msg [OF assms(2) subsetD [OF set_remove1_subset m']] by blast
  note other = other_message [OF assms(1) d assms(3) m' assms(4) g(2) assms(5) g(1)]
  obtain h' ct' pt' ad' where mt: "m' = (h', ct', pt', ad')" by (cases m')
  have n': "unat (of_nat n' :: u32) = n'"
    using genuine_facts(3,4) [OF assms(1) g(1) g(2) [unfolded mt]] by simp
  have "readable C G e s' j' n'"
  proof (cases "j' = j")
    case True
    with other(2) have "n' \<noteq> n" by simp
    then consider "n < n'" | "n' < n" "unat (nr s) \<le> n'" | "n' < unat (nr s)" by linarith
    then show ?thesis
      using g(3) True assms(6,7) n' by cases (auto simp: readable_def get n1)
  next
    case False
    then show ?thesis using g(3) assms(6) other(3) assms(1,5) g(1)
      by (auto simp: readable_def get chains_ok_def inj_on_def)
  qed
  with g show "\<exists>j n. j \<le> E \<and> genuine C G m' j n \<and> readable C G e s' j n" by blast
qed

text \<open>A message on the next chain: the receiver turns the ratchet and opens chain \<open>e + 2\<close>.\<close>

definition g_extend :: "chains \<Rightarrow> nat \<Rightarrow> bytes \<Rightarrow> bytes \<Rightarrow> bytes \<Rightarrow> chains" where
  "g_extend G i y rk2 ck2 =
     \<lparr>g_sec = (g_sec G)(i := y), g_root = (g_root G)(i := rk2), g_ck = (g_ck G)(i := ck2),
      g_len = (g_len G)(i := 0)\<rparr>"

lemma extend_simps [simp]:
  "g_sec (g_extend G i y rk2 ck2) = (g_sec G)(i := y)" "g_root (g_extend G i y rk2 ck2) = (g_root G)(i := rk2)"
  "g_ck (g_extend G i y rk2 ck2) = (g_ck G)(i := ck2)" "g_len (g_extend G i y rk2 ck2) = (g_len G)(i := 0)"
  by (simp_all add: g_extend_def)

lemma g_prev_extend: "j \<le> Suc E \<Longrightarrow> g_prev (g_extend G (Suc E) y rk2 ck2) j = g_prev G j"
  by (auto simp: g_prev_def)

lemma genuine_extend: "j \<le> E \<Longrightarrow> genuine C (g_extend G (Suc E) y rk2 ck2) m j n = genuine C G m j n"
  by (cases m) (auto simp: genuine_def g_prev_extend)

lemma party_at_extend: "e \<le> E \<Longrightarrow> party_at C (g_extend G (Suc E) y rk2 ck2) e s = party_at C G e s"
proof -
  assume "e \<le> E"
  then have "e \<noteq> Suc E" "e - 1 \<noteq> Suc E" "g_prev (g_extend G (Suc E) y rk2 ck2) e = g_prev G e"
    by (auto simp: g_prev_extend)
  then show ?thesis by (simp add: party_at_def)
qed

lemma mail_ok_extend:
  assumes "mail_ok C G E e s M" "e \<le> E"
  shows "mail_ok C (g_extend G (Suc E) y rk2 ck2) (Suc E) e s M"
proof -
  have "\<exists>j. p = g_pub C (g_extend G (Suc E) y rk2 ck2) j \<and> (Suc j < e \<or> Suc j = e \<and> unat n < unat (nr s))"
    if "hm_get (mkskipped s) (p, n) = Some mk" for p n mk
  proof -
    obtain j where "p = g_pub C G j" "Suc j < e \<or> Suc j = e \<and> unat n < unat (nr s)"
      using assms(1) \<open>hm_get (mkskipped s) (p, n) = Some mk\<close> unfolding mail_ok_def by blast
    with assms(2) show ?thesis by (intro exI [of _ j]) auto
  qed
  moreover have "\<exists>j n. j \<le> Suc E \<and> genuine C (g_extend G (Suc E) y rk2 ck2) m j n \<and>
      readable C (g_extend G (Suc E) y rk2 ck2) e s j n" if "m \<in> set M" for m
  proof -
    obtain j n where "j \<le> E" "genuine C G m j n" "readable C G e s j n"
      using mail_ok_msg [OF assms(1) \<open>m \<in> set M\<close>] by blast
    with assms(2) show ?thesis
      by (intro exI [of _ j] exI [of _ n]) (auto simp: genuine_extend readable_def)
  qed
  ultimately show ?thesis using assms(1) by (simp add: mail_ok_def)
qed

lemma chains_ok_extend:
  assumes "chains_ok C G E" "kdf_rk C (g_root G E) (diffie_hellman C y (g_pub C G E)) = Inr (rk2, ck2)"
    "public_key C y \<notin> g_pub C G ` {..E}"
  shows "chains_ok C (g_extend G (Suc E) y rk2 ck2) (Suc E)"
proof -
  let ?G = "g_extend G (Suc E) y rk2 ck2"
  have "inj_on (g_pub C ?G) {..E}"
    using assms(1) by (auto simp: chains_ok_def inj_on_def)
  moreover have "g_pub C ?G (Suc E) \<notin> g_pub C ?G ` {..E}" using assms(3) by auto
  ultimately have "inj_on (g_pub C ?G) {..Suc E}" by (simp add: atMost_Suc)
  with assms(1,2) show ?thesis by (auto simp: chains_ok_def less_Suc_eq le_Suc_eq)
qed

lemma hm_get_finish:
  assumes "chains_ok C G E" "E = Suc e" "party_at C G e s"
  shows "hm_get (mkskipped (finish_chain C (of_nat (g_prev G E)) s)) (p, i) =
    (if 2 \<le> e \<and> p = g_pub C G (e - 1) \<and> unat (nr s) \<le> unat i \<and> unat i < g_len G (e - 1)
     then Some (msg_key C (g_ck G (e - 1)) (unat i)) else hm_get (mkskipped s) (p, i))"
proof (cases "e < 2")
  case True
  with assms(3) show ?thesis by (simp add: finish_chain_def party_at_def)
next
  case False
  then have "g_prev G E = g_len G (e - 1)" "unat (of_nat (g_len G (e - 1)) :: u32) = g_len G (e - 1)"
    using assms(1,2) by (auto simp: g_prev_def chains_ok_def)
  with False assms(3) show ?thesis by (simp add: finish_chain_def party_at_def hm_get_skip_chain)
qed

definition turned :: "crypto \<Rightarrow> chains \<Rightarrow> nat \<Rightarrow> nat \<Rightarrow> bytes \<Rightarrow> bytes \<Rightarrow> bytes \<Rightarrow> dr_state \<Rightarrow> dr_state" where
  "turned C G E n y rk2 ck2 s = fetched C (g_pub C G E) (g_ck G E) (of_nat n)
     (ratcheted (g_pub C G E) (g_ck G E) rk2 ck2 y (finish_chain C (of_nat (g_prev G E)) s))"

lemma hm_get_turned:
  assumes "chains_ok C G E" "E = Suc e" "party_at C G e s" "unat (of_nat n :: u32) = n"
  shows "hm_get (mkskipped (turned C G E n y rk2 ck2 s)) (p, i) =
    (if p = g_pub C G E \<and> unat i < n then Some (msg_key C (g_ck G E) (unat i))
     else if 2 \<le> e \<and> p = g_pub C G (e - 1) \<and> unat (nr s) \<le> unat i \<and> unat i < g_len G (e - 1)
     then Some (msg_key C (g_ck G (e - 1)) (unat i)) else hm_get (mkskipped s) (p, i))"
  using assms(4) by (simp add: turned_def ratcheted_def hm_get_skip_state hm_get_finish [OF assms(1-3)])

lemma mail_after_new:
  fixes y rk2 ck2 :: bytes
  assumes "chains_ok C G E" "E = Suc e" "party_at C G e s" "mail_ok C G E e s M" "m \<in> set M"
    "genuine C G m E n" "unat (of_nat n :: u32) = n" "n + 1 < 2 ^ 32"
  defines "s' \<equiv> turned C G E n y rk2 ck2 s" and "G' \<equiv> g_extend G (Suc E) y rk2 ck2"
  shows "mail_ok C G' (Suc E) (Suc E) s' (remove1 m M)"
  unfolding mail_ok_def
proof (intro conjI ballI)
  have d: "distinct (map msg_id M)" using assms(4) by (simp add: mail_ok_def)
  then show "distinct (map msg_id (remove1 m M))" by (rule distinct_ids_remove1)
  have n1: "unat (nr s') = Suc n"
    using assms(7,8) unat_plus1 [of "of_nat n"] by (simp add: s'_def turned_def)
  note get = hm_get_turned [OF assms(1-3,7), of y rk2 ck2, folded s'_def]
  show "\<forall>p i mk. hm_get (mkskipped s') (p, i) = Some mk \<longrightarrow>
      (\<exists>j. p = g_pub C G' j \<and> (Suc j < Suc E \<or> Suc j = Suc E \<and> unat i < unat (nr s')))"
  proof (intro allI impI)
    fix p i mk assume "hm_get (mkskipped s') (p, i) = Some mk"
    then consider "p = g_pub C G E" "unat i < n" | "2 \<le> e" "p = g_pub C G (e - 1)"
      | "hm_get (mkskipped s) (p, i) = Some mk"
      by (auto simp: get split: if_splits)
    then have "\<exists>j. p = g_pub C G j \<and> (j < E \<or> j = E \<and> unat i < unat (nr s'))"
    proof cases
      case 1
      with n1 show ?thesis by (intro exI [of _ E]) simp
    next
      case 2
      with assms(2) show ?thesis by (intro exI [of _ "e - 1"]) auto
    next
      case 3
      then obtain j where "p = g_pub C G j" "Suc j < e \<or> Suc j = e"
        using assms(4) unfolding mail_ok_def by blast
      with assms(2) show ?thesis by (intro exI [of _ j]) auto
    qed
    then obtain j where "p = g_pub C G j" "j < E \<or> j = E \<and> unat i < unat (nr s')" by blast
    then show "\<exists>j. p = g_pub C G' j \<and> (Suc j < Suc E \<or> Suc j = Suc E \<and> unat i < unat (nr s'))"
      by (intro exI [of _ j]) (auto simp: G'_def)
  qed
  fix m' assume m': "m' \<in> set (remove1 m M)"
  then obtain j' n' where g: "j' \<le> E" "genuine C G m' j' n'" "readable C G e s j' n'"
    using mail_ok_msg [OF assms(4) subsetD [OF set_remove1_subset m']] by blast
  note other = other_message [OF assms(1) d assms(5) m' assms(6) g(2) order_refl g(1)]
  obtain h' ct' pt' ad' where mt: "m' = (h', ct', pt', ad')" by (cases m')
  have n': "unat (of_nat n' :: u32) = n'" "n' < g_len G j'"
    using genuine_facts(3,4,6) [OF assms(1) g(1) g(2) [unfolded mt]] by simp_all
  have inj: "g_pub C G a = g_pub C G b \<longleftrightarrow> a = b" if "a \<le> E" "b \<le> E" for a b
    using assms(1) that by (auto simp: chains_ok_def inj_on_def)
  have "readable C G (Suc E) s' j' n'"
  proof (cases "j' = E")
    case True
    with other(2) have "n' < n \<or> n < n'" by linarith
    with True n' show ?thesis by (auto simp: readable_def get n1)
  next
    case False
    with g(1) assms(2) have le: "j' \<le> e" by simp
    with g(3) consider "Suc j' = e" "unat (nr s) \<le> n'"
      | "hm_get (mkskipped s) (g_pub C G j', of_nat n') = Some (msg_key C (g_ck G j') n')"
      by (auto simp: readable_def)
    then show ?thesis
    proof cases
      case 1
      then have "2 \<le> e \<or> g_len G j' = 0" using assms(1) by (cases "e = 1") (auto simp: chains_ok_def)
      with 1 n' assms(2) show ?thesis by (auto simp: readable_def get inj)
    next
      case 2
      with False le assms(2) n' show ?thesis by (auto simp: readable_def get inj)
    qed
  qed
  then have "readable C G' (Suc E) s' j' n'"
    using g(1) assms(2) by (auto simp: readable_def G'_def)
  with g show "\<exists>j n. j \<le> Suc E \<and> genuine C G' m' j n \<and> readable C G' (Suc E) s' j n"
    by (intro exI [of _ j'] exI [of _ n']) (simp add: G'_def genuine_extend)
qed

text \<open>The outcome of a delivery: the receiver stays on its chain, or opens the next one.\<close>

definition delivered :: "crypto \<Rightarrow> chains \<Rightarrow> nat \<Rightarrow> nat \<Rightarrow> dr_state \<Rightarrow> msg list \<Rightarrow> rng \<Rightarrow> dr_state \<Rightarrow> bool" where
  "delivered C G E e s M r s' \<longleftrightarrow>
     dhr s' = dhr s \<and> party_at C G e s' \<and> mail_ok C G E e s' M \<or>
     dhr s' \<noteq> dhr s \<and> E = Suc e \<and> (\<exists>rk2 ck2. let y = fst (secret_generate C r) in
       kdf_rk C (g_root G E) (diffie_hellman C y (g_pub C G E)) = Inr (rk2, ck2) \<and>
       party_at C (g_extend G (Suc E) y rk2 ck2) (Suc E) s' \<and>
       mail_ok C (g_extend G (Suc E) y rk2 ck2) (Suc E) (Suc E) s' M)"

definition crypto_laws :: "crypto \<Rightarrow> bool" where
  "crypto_laws C \<longleftrightarrow> lens_ok C \<and> secret_stable C \<and> dh_commutes C \<and> xpub_ok C \<and> aead_correct C"

lemma header_wf_genuine:
  "lens_ok C \<Longrightarrow> xpub_ok C \<Longrightarrow> genuine C G (h, ct, pt, ad) j n \<Longrightarrow> header_wf h"
  by (auto simp: genuine_def header_wf_def public_key_len public_key_nonzero)

lemma not_stored:
  assumes "chains_ok C G E" "mail_ok C G E e s M" "e \<le> E" "j \<le> E" "e \<le> j \<or> Suc j = e \<and> unat (nr s) \<le> unat n"
  shows "hm_get (mkskipped s) (g_pub C G j, n) = None"
proof (rule ccontr)
  assume "hm_get (mkskipped s) (g_pub C G j, n) \<noteq> None"
  then obtain j' where j': "g_pub C G j = g_pub C G j'" "Suc j' < e \<or> Suc j' = e \<and> unat n < unat (nr s)"
    using assms(2) unfolding mail_ok_def by blast
  then have "j' = j" using assms(1,3,4) by (auto simp: chains_ok_def inj_on_def)
  with j'(2) assms(5) show False by auto
qed

lemma receive_case_current:
  assumes "crypto_laws C" "chains_ok C G E" "party_at C G e s" "mail_ok C G E e s M" "e \<le> E"
    "(h, ct, pt, ad) \<in> set M" "genuine C G (h, ct, pt, ad) j n" "Suc j = e" "unat (nr s) \<le> n"
  shows "\<exists>s'. (ratchet_receive_key C r h s = (Inr (msg_key C (g_ck G j) n), s') \<and>
      delivered C G E e s (remove1 (h, ct, pt, ad) M) r s' \<or>
      fst (ratchet_receive_key C r h s) = Inl LimitExceeded \<and> \<not> has_room s h)"
proof -
  have jE: "j \<le> E" using assms(5,8) by simp
  note h = genuine_facts [OF assms(2) jE assms(7)]
  have n: "unat (of_nat n :: u32) = n" using h(3,4) by simp
  have two: "\<not> e < 2" using h(6) assms(2,8) by (cases "e = 1") (auto simp: chains_ok_def)
  with assms(3,8) have s: "dhr s = Some (h_dh h)"
      "ckr s = Some (chain_key C (g_ck G j) (unat (nr s)))"
    by (auto simp: party_at_def h(1))
  have none: "hm_get (mkskipped s) (h_dh h, h_n h) = None"
    unfolding h(1) by (rule not_stored [OF assms(2,4,5) jE]) (use assms(8,9) h(4) in simp)
  let ?s' = "fetched C (h_dh h) (chain_key C (g_ck G j) (unat (nr s))) (h_n h) s"
  let ?res = "ratchet_receive_key C r h s"
  note rc = receive_current [OF none s, of C r, unfolded h(4)]
  have mk: "msg_key C (chain_key C (g_ck G j) (unat (nr s))) (n - unat (nr s)) = msg_key C (g_ck G j) n"
    using assms(9) by (simp add: msg_key_shift)
  show ?thesis
  proof (cases "?res = (Inr (msg_key C (g_ck G j) n), ?s')")
    case False
    then show ?thesis using rc assms(9) h(5) by (auto simp: mk)
  next
    case True
    have "dr_wf C s" using assms(3) by (simp add: party_at_def)
    then have "dr_wf C ?s'"
      using ratchet_receive_key_wf [of C h s r] True assms(1) header_wf_genuine [OF _ _ assms(7)]
      by (simp add: crypto_laws_def)
    moreover have "unat (h_n h + 1) = Suc n" using unat_plus1 [of "h_n h"] h(4,5) by simp
    ultimately have "party_at C G e ?s'"
      using assms(3,8,9) two h(4,6) chain_key_shift [of C "g_ck G j" "unat (nr s)" "Suc (n - unat (nr s))"]
      by (auto simp: party_at_def)
    moreover have "mail_ok C G E e ?s' (remove1 (h, ct, pt, ad) M)"
      using mail_after_current [OF assms(2,4,6,7) jE assms(8,9) n h(5)] by (simp add: h)
    ultimately show ?thesis using True by (auto simp: delivered_def)
  qed
qed

lemma receive_case_new:
  assumes "crypto_laws C" "chains_ok C G E" "party_at C G e s" "mail_ok C G E e s M" "E = Suc e"
    "(h, ct, pt, ad) \<in> set M" "genuine C G (h, ct, pt, ad) E n"
  shows "\<exists>s'. (ratchet_receive_key C r h s = (Inr (msg_key C (g_ck G E) n), s') \<and>
      delivered C G E e s (remove1 (h, ct, pt, ad) M) r s' \<or>
      fst (ratchet_receive_key C r h s) = Inl LimitExceeded \<and> \<not> has_room s h)"
proof -
  have laws: "lens_ok C" "secret_stable C" "dh_commutes C" "xpub_ok C"
    using assms(1) by (simp_all add: crypto_laws_def)
  note h = genuine_facts [OF assms(2) order_refl assms(7)]
  have n: "unat (of_nat n :: u32) = n" using h(3,4) by simp
  have none: "hm_get (mkskipped s) (h_dh h, h_n h) = None"
    unfolding h(1) by (rule not_stored [OF assms(2,4)]) (use assms(5) in simp_all)
  have pub: "g_pub C G (e - 1) \<noteq> g_pub C G E"
    using assms(2,5) by (auto simp: chains_ok_def dest: inj_onD)
  then have new: "dhr s \<noteq> Some (h_dh h)" using assms(3) by (simp add: party_at_def h(1))
  have c1: "ckr s \<noteq> None \<Longrightarrow> dhr s \<noteq> None" and x: "dhs s = Some (g_sec G e)" "rk s = g_root G e"
    using assms(3) by (simp_all add: party_at_def split: if_splits)
  have c2: "ckr s = None \<Longrightarrow> nr s = 0 \<and> h_pn h = 0"
  proof -
    assume "ckr s = None"
    with assms(3) have "e = 0 \<or> e = 1" by (auto simp: party_at_def split: if_splits)
    then show "nr s = 0 \<and> h_pn h = 0"
      using assms(2,3,5) by (auto simp: party_at_def h(2) g_prev_def chains_ok_def)
  qed
  have k1: "kdf_rk C (rk s) (diffie_hellman C (g_sec G e) (h_dh h)) = Inr (g_root G E, g_ck G E)"
    using assms(2,5) dh_agree [OF laws(3), of "g_sec G e" "g_sec G E"]
    by (simp add: h(1) x(2) chains_ok_def)
  obtain y r' where y: "secret_generate C r = (y, r')" by (cases "secret_generate C r")
  obtain rk2 ck2 where k2: "kdf_rk C (g_root G E) (diffie_hellman C y (h_dh h)) = Inr (rk2, ck2)"
    using kdf_rk_total [OF laws(1)] by blast
  have n32: "unat (h_n h) + 1 < 2 ^ 32" using h(4,5) by simp
  note rc = receive_new_chain [OF none new c1 c2 x(1) k1 y k2 n32, folded h(1)]
  let ?s' = "turned C G E n y rk2 ck2 s"
  have s': "fetched C (h_dh h) (g_ck G E) (h_n h) (ratcheted (h_dh h) (g_ck G E) rk2 ck2 y
      (finish_chain C (h_pn h) s)) = ?s'"
    by (simp add: turned_def h)
  show ?thesis
  proof (cases "ratchet_receive_key C r h s = (Inr (msg_key C (g_ck G E) n), ?s')")
    case False
    then show ?thesis using rc unfolding s' by (auto simp: h(4))
  next
    case True
    have "dr_wf C s" using assms(3) by (simp add: party_at_def)
    then have wf: "dr_wf C ?s'"
      using ratchet_receive_key_wf [of C h s r] True laws header_wf_genuine [OF _ _ assms(7)] by simp
    have n1: "unat (of_nat n + 1 :: u32) = Suc n" using unat_plus1 [of "h_n h"] h(3,4,5) by simp
    have "of_nat (unat (ns s)) = (of_nat (g_len G e) :: u32)" using assms(3) by (simp add: party_at_def)
    then have nse: "ns s = of_nat (g_len G e)" by simp
    have "party_at C (g_extend G (Suc E) y rk2 ck2) (Suc E) ?s'"
      using wf n1 nse n h(6) assms(5)
      by (simp add: party_at_def turned_def ratcheted_def g_prev_def)
    moreover have "mail_ok C (g_extend G (Suc E) y rk2 ck2) (Suc E) (Suc E) ?s' (remove1 (h, ct, pt, ad) M)"
      by (rule mail_after_new [OF assms(2,5,3,4,6,7) n h(5)])
    moreover have "dhr ?s' = Some (h_dh h)" by (simp add: turned_def ratcheted_def h(1))
    ultimately show ?thesis
      using True new assms(5) k2 y by (auto simp: delivered_def h(1))
  qed
qed

lemma receive_case_stored:
  assumes "crypto_laws C" "chains_ok C G E" "party_at C G e s" "mail_ok C G E e s M" "e \<le> E"
    "(h, ct, pt, ad) \<in> set M" "genuine C G (h, ct, pt, ad) j n" "j < e"
    "hm_get (mkskipped s) (g_pub C G j, of_nat n) = Some (msg_key C (g_ck G j) n)"
  shows "\<exists>s'. ratchet_receive_key C r h s = (Inr (msg_key C (g_ck G j) n), s') \<and>
      delivered C G E e s (remove1 (h, ct, pt, ad) M) r s'"
proof -
  have jE: "j \<le> E" using assms(5,8) by simp
  note h = genuine_facts [OF assms(2) jE assms(7)]
  let ?s' = "s\<lparr>mkskipped := hm_remove (mkskipped s) (g_pub C G j, of_nat n)\<rparr>"
  have eq: "ratchet_receive_key C r h s = (Inr (msg_key C (g_ck G j) n), ?s')"
    using assms(9) by (simp add: ratchet_receive_key_eq h(1,3))
  moreover have "party_at C G e ?s'"
    using assms(3) by (auto simp: party_at_def dr_wf_def skipped_wf_remove)
  moreover have "mail_ok C G E e ?s' (remove1 (h, ct, pt, ad) M)"
    by (rule mail_after_stored [OF assms(2,4,6,7) jE])
  ultimately show ?thesis by (auto simp: delivered_def)
qed

lemma genuine_opens:
  assumes "crypto_laws C" "genuine C G (h, ct, pt, ad) j n"
  shows "rbind (aead_from_mk C (msg_key C (g_ck G j) n)) (\<lambda>(key, nonce).
    aead_open C key nonce ct (concat_ad ad h)) = Inr pt"
proof -
  obtain key nonce where k: "aead_from_mk C (msg_key C (g_ck G j) n) = Inr (key, nonce)" "length key = 32"
    using aead_from_mk_total assms(1) unfolding crypto_laws_def by blast
  moreover have "aead_seal C key nonce pt (concat_ad ad h) = Inr ct"
    using assms(2) k by (auto simp: genuine_def)
  ultimately show ?thesis
    using aead_open_seal [OF _ k(2)] assms(1) by (simp add: crypto_laws_def)
qed

lemma deliver_result:
  assumes "crypto_laws C" "chains_ok C G E" "party_at C G e s" "mail_ok C G E e s M"
    "e \<le> E" "E \<le> Suc e" "(h, ct, pt, ad) \<in> set M"
  shows "(\<exists>s'. dr_decrypt C r s h ct ad = (Inr pt, s') \<and>
      delivered C G E e s (remove1 (h, ct, pt, ad) M) r s') \<or>
    dr_decrypt C r s h ct ad = (Inl LimitExceeded, s) \<and> \<not> has_room s h"
proof -
  obtain j n where g: "j \<le> E" "genuine C G (h, ct, pt, ad) j n" "readable C G e s j n"
    using mail_ok_msg [OF assms(4,7)] by blast
  have "\<exists>s'. (ratchet_receive_key C r h s = (Inr (msg_key C (g_ck G j) n), s') \<and>
      delivered C G E e s (remove1 (h, ct, pt, ad) M) r s' \<or>
      fst (ratchet_receive_key C r h s) = Inl LimitExceeded \<and> \<not> has_room s h)"
    using g(3) unfolding readable_def
  proof (elim disjE conjE)
    assume j: "j = Suc e"
    then have E: "E = Suc e" using g(1) assms(6) by simp
    then show ?thesis using receive_case_new [OF assms(1-4) E assms(7)] g(2) j by simp
  next
    assume "Suc j = e" "unat (nr s) \<le> n"
    then show ?thesis using receive_case_current [OF assms(1-5,7) g(2)] by simp
  next
    assume "j < e" "hm_get (mkskipped s) (g_pub C G j, of_nat n) = Some (msg_key C (g_ck G j) n)"
    then show ?thesis using receive_case_stored [OF assms(1-5,7) g(2), of r] by blast
  qed
  moreover have "clone_for_trial C s = s" using assms(3) by (simp add: party_at_def)
  ultimately show ?thesis
    using genuine_opens [OF assms(1) g(2)] by (fastforce simp: dr_decrypt_def split: prod.splits)
qed

subsection \<open>Sending\<close>

definition g_grow :: "chains \<Rightarrow> nat \<Rightarrow> chains" where
  "g_grow G e = G\<lparr>g_len := (g_len G)(e := Suc (g_len G e))\<rparr>"

lemma g_grow_simps [simp]:
  "g_sec (g_grow G e) = g_sec G" "g_root (g_grow G e) = g_root G" "g_ck (g_grow G e) = g_ck G"
  "g_len (g_grow G e) = (g_len G)(e := Suc (g_len G e))"
  by (simp_all add: g_grow_def)

lemma g_prev_grow: "j < e + 2 \<Longrightarrow> g_prev (g_grow G e) j = g_prev G j"
  by (auto simp: g_prev_def)

lemma genuine_grow: "j < e + 2 \<Longrightarrow> genuine C G m j n \<Longrightarrow> genuine C (g_grow G e) m j n"
  by (auto simp: genuine_def g_prev_grow split: prod.splits)

lemma party_at_grow:
  assumes "party_at C G e' s" "e' \<noteq> e" "e' < e + 2"
  shows "party_at C (g_grow G e) e' s"
  using assms g_prev_grow [of e' e G] by (auto simp: party_at_def)

lemma mail_ok_grow:
  assumes "mail_ok C G E e' s M" "E < e + 2"
  shows "mail_ok C (g_grow G e) E e' s M"
proof -
  have "\<exists>j n. j \<le> E \<and> genuine C (g_grow G e) m j n \<and> readable C (g_grow G e) e' s j n" if "m \<in> set M" for m
  proof -
    obtain j n where "j \<le> E" "genuine C G m j n" "readable C G e' s j n"
      using mail_ok_msg [OF assms(1) \<open>m \<in> set M\<close>] by blast
    with assms(2) show ?thesis
      by (intro exI [of _ j] exI [of _ n]) (simp add: genuine_grow readable_def)
  qed
  then show ?thesis using assms(1) by (simp add: mail_ok_def)
qed

lemma send_result:
  assumes "chains_ok C G E" "party_at C G e s" "e \<le> E" "dr_encrypt C s pt ad = (Inr (h, ct), s')"
    "lens_ok C"
  shows "chains_ok C (g_grow G e) E" "party_at C (g_grow G e) e s'"
    "genuine C (g_grow G e) (h, ct, pt, ad) e (g_len G e)"
proof -
  obtain ck x key nonce where e: "cks s = Some ck" "dhs s = Some x"
    "h = \<lparr>h_dh = public_key C x, h_pn = pn s, h_n = ns s\<rparr>"
    "aead_from_mk C (msg_key C ck 0) = Inr (key, nonce)"
    "aead_seal C key nonce pt (concat_ad ad h) = Inr ct" "unat (ns s) + 1 < 2 ^ 32"
    "s' = s\<lparr>cks := Some (chain_key C ck 1), ns := ns s + 1\<rparr>"
    using dr_encrypt_cases [OF assms(4)] by metis
  then have ck: "ck = chain_key C (g_ck G e) (unat (ns s))" "e \<noteq> 0" "x = g_sec G e"
    "unat (ns s) = g_len G e"
    using assms(2) by (auto simp: party_at_def)
  have n1: "unat (ns s + 1) = Suc (g_len G e)" using unat_plus1 [OF e(6)] ck(4) by simp
  show "chains_ok C (g_grow G e) E" using assms(1) e(6) ck(2,4) by (auto simp: chains_ok_def)
  have "of_nat (unat (ns s)) = (of_nat (g_len G e) :: u32)" by (simp add: ck(4))
  then have nse: "ns s = of_nat (g_len G e)" by simp
  have pn: "pn s = of_nat (g_prev G e)" using assms(2) by (simp add: party_at_def)
  have "dr_wf C s'" using dr_encrypt_wf [OF assms(5), of s pt ad] assms(2,4) by (simp add: party_at_def)
  moreover have "chain_key C ck 1 = chain_key C (g_ck G e) (Suc (g_len G e))"
    unfolding ck(1) ck(4) chain_key_shift by simp
  ultimately show "party_at C (g_grow G e) e s'"
    using assms(2) e(7) ck(2) n1 g_prev_grow [of e e G] by (auto simp: party_at_def)
  have "msg_key C ck 0 = msg_key C (g_ck G e) (g_len G e)" by (simp add: ck(1,4) msg_key_shift)
  with e(4,5) show "genuine C (g_grow G e) (h, ct, pt, ad) e (g_len G e)"
    using g_prev_grow [of e e G] by (simp add: genuine_def e(3) pn nse ck(3))
qed

text \<open>A refused send at the end of the counter moves only the sending chain key, which is dead.\<close>

lemma party_refused:
  assumes "party_at C G e s" "dr_encrypt C s pt ad = (Inl err, s')" "crypto_laws C"
  shows "party_at C G e s'"
proof -
  have s': "s' = snd (ratchet_send_key C s)" using dr_encrypt_state [of C s pt ad] assms(2) by simp
  have wf: "dr_wf C s'"
    using dr_encrypt_wf [of C s pt ad] assms by (simp add: party_at_def crypto_laws_def)
  show ?thesis
  proof (cases "cks s")
    case None
    then show ?thesis using assms(1) s' by (simp add: ratchet_send_key_eq)
  next
    case (Some ck)
    show ?thesis
    proof (cases "checked_inc (ns s)")
      case (Inl e')
      then have "\<not> unat (ns s) + 1 < 2 ^ 32"
        using checked_inc_iff [of "ns s" "ns s + 1"] by auto
      moreover have "s' = s\<lparr>cks := Some (chain_key C ck 1)\<rparr>"
        using Inl Some s' by (simp add: ratchet_send_key_eq)
      ultimately show ?thesis using assms(1) wf Some by (auto simp: party_at_def)
    next
      case (Inr n')
      obtain key nonce where k: "aead_from_mk C (msg_key C ck 0) = Inr (key, nonce)" "length key = 32"
        using aead_from_mk_total assms(3) unfolding crypto_laws_def by blast
      have "\<exists>x. dhs s = Some x" using assms(1) by (simp add: party_at_def)
      moreover have "aead_seal C key nonce pt a \<noteq> Inl err'" for a err'
        using aead_seal_total [OF _ k(2), of C nonce pt a] assms(3) by (auto simp: crypto_laws_def)
      ultimately have "\<exists>v. fst (dr_encrypt C s pt ad) = Inr v"
        using Some Inr k by (auto simp: dr_encrypt_def ratchet_send_key_eq Let_def sbind_def split: sum.split)
      with assms(2) show ?thesis by simp
    qed
  qed
qed

subsection \<open>The two-party system\<close>

record world =
  st :: "bool \<Rightarrow> dr_state"
  wire :: "bool \<Rightarrow> msg list"
  used :: "bytes set"

text \<open>
  \<open>st w p\<close> is the state of party \<open>p\<close>, \<open>wire w p\<close> what it sent and has not been delivered yet.
  The network may deliver any message of the wire at any time, or never. \<open>inject\<close> is any call of
  \<open>decrypt\<close> on any input that is not accepted. A party that turns its ratchet draws a key
  whose public half has not been used in the session before.
\<close>

inductive dr_step :: "crypto \<Rightarrow> world \<Rightarrow> world \<Rightarrow> bool" for C where
  send: "dr_encrypt C (st w p) pt ad = (Inr (h, ct), s') \<Longrightarrow>
    dr_step C w (w\<lparr>st := (st w)(p := s'), wire := (wire w)(p := wire w p @ [(h, ct, pt, ad)])\<rparr>)"
| send_refused: "dr_encrypt C (st w p) pt ad = (Inl err, s') \<Longrightarrow> dr_step C w (w\<lparr>st := (st w)(p := s')\<rparr>)"
| deliver: "(h, ct, pt, ad) \<in> set (wire w (\<not> p)) \<Longrightarrow> dr_decrypt C r (st w p) h ct ad = (Inr pt', s') \<Longrightarrow>
    y = public_key C (fst (secret_generate C r)) \<Longrightarrow> (dhr s' \<noteq> dhr (st w p) \<Longrightarrow> y \<notin> used w) \<Longrightarrow>
    dr_step C w (w\<lparr>st := (st w)(p := s'),
      wire := (wire w)(\<not> p := remove1 (h, ct, pt, ad) (wire w (\<not> p))),
      used := (if dhr s' \<noteq> dhr (st w p) then insert y (used w) else used w)\<rparr>)"
| inject: "dr_decrypt C r (st w p) h ct ad = (Inl err, s') \<Longrightarrow> dr_step C w (w\<lparr>st := (st w)(p := s')\<rparr>)"
| restart: "dr_deserialize C (dr_serialize (st w p)) (max_skip (st w p)) = Inr s' \<Longrightarrow>
    dr_step C w (w\<lparr>st := (st w)(p := s')\<rparr>)"

text \<open>Alice starts with Bob's signed prekey \<open>x\<close> (public half) and the shared secret \<open>sk\<close>.\<close>

definition dr_start :: "crypto \<Rightarrow> rng \<Rightarrow> bytes \<Rightarrow> bytes \<Rightarrow> u32 \<Rightarrow> world \<Rightarrow> bool" where
  "dr_start C r sk x ms w \<longleftrightarrow>
     length sk = 32 \<and> length x = 32 \<and> static_secret C x = x \<and>
     (\<exists>a. fst (init_alice C r sk (public_key C x) ms) = Inr a \<and>
        w = \<lparr>st = (\<lambda>p. if p then a else init_bob sk x ms), wire = (\<lambda>_. []),
             used = {public_key C x, public_key C (fst (secret_generate C r))}\<rparr>) \<and>
     public_key C (fst (secret_generate C r)) \<noteq> public_key C x"

inductive dr_reach :: "crypto \<Rightarrow> world \<Rightarrow> bool" for C where
  start: "dr_start C r sk x ms w \<Longrightarrow> dr_reach C w"
| step: "dr_reach C w \<Longrightarrow> dr_step C w w' \<Longrightarrow> dr_reach C w'"

definition synced_at :: "crypto \<Rightarrow> chains \<Rightarrow> nat \<Rightarrow> (bool \<Rightarrow> nat) \<Rightarrow> world \<Rightarrow> bool" where
  "synced_at C G E i w \<longleftrightarrow> chains_ok C G E \<and> g_pub C G ` {..E} \<subseteq> used w \<and> i True \<noteq> i False \<and>
     (\<forall>p. i p \<le> E \<and> E \<le> Suc (i p) \<and> party_at C G (i p) (st w p) \<and>
          mail_ok C G E (i p) (st w p) (wire w (\<not> p)))"

lemma all_other: "(\<forall>q. P q) \<longleftrightarrow> P p \<and> P (\<not> p)"
  by (cases p) (auto, (metis (full_types))+)

lemma synced_start:
  assumes "crypto_laws C" "dr_start C r sk x ms w"
  shows "\<exists>G E i. synced_at C G E i w"
proof -
  have laws: "lens_ok C" "secret_stable C" "xpub_ok C" using assms(1) by (simp_all add: crypto_laws_def)
  obtain y r' where y: "secret_generate C r = (y, r')" by (cases "secret_generate C r")
  from assms(2) obtain a where x: "length sk = 32" "length x = 32" "static_secret C x = x"
    "public_key C y \<noteq> public_key C x"
    and a: "fst (init_alice C r sk (public_key C x) ms) = Inr a"
    and w: "w = \<lparr>st = (\<lambda>p. if p then a else init_bob sk x ms), wire = (\<lambda>_. []),
      used = {public_key C x, public_key C y}\<rparr>"
    by (auto simp: dr_start_def y)
  from a y obtain rk0 ck where k: "kdf_rk C sk (diffie_hellman C y (public_key C x)) = Inr (rk0, ck)"
    and a': "a = \<lparr>dhs = Some y, dhr = Some (public_key C x), rk = rk0, cks = Some ck, ckr = None,
                 ns = 0, nr = 0, pn = 0, mkskipped = [], max_skip = ms\<rparr>"
    by (auto simp: init_alice_def rd_simps)
  have wf: "dr_wf C a" "dr_wf C (init_bob sk x ms)"
    using init_alice_wf [OF laws(1,2) public_key_len public_key_nonzero a] init_bob_wf x laws by blast+
  let ?G = "\<lparr>g_sec = (\<lambda>j. if j = 0 then x else y), g_root = (\<lambda>j. if j = 0 then sk else rk0),
    g_ck = (\<lambda>_. ck), g_len = (\<lambda>_. 0)\<rparr>"
  have "chains_ok C ?G 1" using k x(4) by (auto simp: chains_ok_def inj_on_def)
  moreover have "party_at C ?G 1 a" "party_at C ?G 0 (init_bob sk x ms)"
    using wf by (simp_all add: party_at_def a' init_bob_def g_prev_def)
  moreover have "mail_ok C ?G 1 e s []" if "mkskipped s = []" for e s
    using that by (simp add: mail_ok_def)
  ultimately have "synced_at C ?G 1 (\<lambda>p. if p then 1 else 0) w"
    by (auto simp: synced_at_def w a' init_bob_def)
  then show ?thesis by blast
qed

lemma synced_send:
  assumes "crypto_laws C" "synced_at C G E i w" "dr_encrypt C (st w p) pt ad = (Inr (h, ct), s')"
  shows "synced_at C (g_grow G (i p)) E i
    (w\<lparr>st := (st w)(p := s'), wire := (wire w)(p := wire w p @ [(h, ct, pt, ad)])\<rparr>)"
proof -
  let ?G = "g_grow G (i p)" and ?m = "(h, ct, pt, ad)"
  have sy: "chains_ok C G E" "g_pub C G ` {..E} \<subseteq> used w" "i True \<noteq> i False"
    "\<And>q. i q \<le> E" "\<And>q. E \<le> Suc (i q)" "\<And>q. party_at C G (i q) (st w q)"
    "\<And>q. mail_ok C G E (i q) (st w q) (wire w (\<not> q))"
    using assms(2) by (simp_all add: synced_at_def)
  have "lens_ok C" using assms(1) by (simp add: crypto_laws_def)
  note snd = send_result [OF sy(1) sy(6) sy(4) assms(3) this]
  have ne: "i (\<not> p) \<noteq> i p" using sy(3) by (cases p) auto
  have E: "E < i p + 2" using sy(5) [of p] by simp
  have "party_at C ?G (i (\<not> p)) (st w (\<not> p))"
    using party_at_grow [OF sy(6) ne] sy(4) [of "\<not> p"] E by simp
  moreover have "mail_ok C ?G E (i p) s' (wire w (\<not> p))"
  proof -
    have "mkskipped s' = mkskipped (st w p)" "nr s' = nr (st w p)"
      by (rule dr_encrypt_cases [OF assms(3)], simp)+
    with mail_ok_grow [OF sy(7) E, of p] show ?thesis by (simp add: mail_ok_def readable_def)
  qed
  moreover have "mail_ok C ?G E (i (\<not> p)) (st w (\<not> p)) (wire w p @ [?m])"
  proof -
    have old: "mail_ok C ?G E (i (\<not> p)) (st w (\<not> p)) (wire w p)"
      using mail_ok_grow [OF sy(7) E, of "\<not> p"] by simp
    have "readable C ?G (i (\<not> p)) (st w (\<not> p)) (i p) (g_len G (i p))"
    proof -
      have "i p = Suc (i (\<not> p)) \<or> Suc (i p) = i (\<not> p)"
        using ne sy(4) [of p] sy(4) [of "\<not> p"] sy(5) [of p] sy(5) [of "\<not> p"] by linarith
      moreover have "Suc (i p) = i (\<not> p) \<Longrightarrow> unat (nr (st w (\<not> p))) \<le> g_len G (i p)"
        using sy(6) [of "\<not> p"] party_at_nr by metis
      ultimately show ?thesis by (auto simp: readable_def)
    qed
    moreover have "msg_id ?m \<notin> msg_id ` set (wire w p)"
    proof
      assume "msg_id ?m \<in> msg_id ` set (wire w p)"
      then obtain m where m: "m \<in> set (wire w p)" "msg_id ?m = msg_id m" by auto
      obtain j n where g: "j \<le> E" "genuine C G m j n"
        using mail_ok_msg [OF sy(7) [of "\<not> p", simplified] m(1)] by blast
      obtain h' ct' pt' ad' where mt: "m = (h', ct', pt', ad')" by (cases m)
      note f = genuine_facts [OF sy(1) g(1) g(2) [unfolded mt]]
      note f' = genuine_facts [OF snd(1) sy(4) snd(3)]
      from m(2) have eq: "g_pub C G (i p) = g_pub C G j" "(of_nat (g_len G (i p)) :: u32) = of_nat n"
        using f(7) f'(7) mt by simp_all
      then have "j = i p" using sy(1,4) g(1) by (auto simp: chains_ok_def inj_on_def)
      moreover have "n = g_len G (i p)" using eq(2) f(3,4) f'(3,4) by simp
      ultimately show False using f(6) by simp
    qed
    ultimately show ?thesis using old snd(3) sy(4) [of p] unfolding mail_ok_def by auto
  qed
  ultimately show ?thesis
    using snd sy by (simp add: synced_at_def all_other [of _ p])
qed

text \<open>Steps that leave one party where it was.\<close>

lemma synced_same:
  assumes "synced_at C G E i w" "party_at C G (i p) s'" "mkskipped s' = mkskipped (st w p)"
    "nr s' = nr (st w p)"
  shows "synced_at C G E i (w\<lparr>st := (st w)(p := s')\<rparr>)"
  using assms by (simp add: synced_at_def all_other [of _ p]) (simp add: mail_ok_def readable_def)

lemma send_refused_keeps:
  "dr_encrypt C s pt ad = (Inl err, s') \<Longrightarrow> mkskipped s' = mkskipped s \<and> nr s' = nr s"
  using dr_encrypt_state [of C s pt ad]
  by (auto simp: ratchet_send_key_eq split: option.splits sum.splits)

lemma dr_decrypt_error_state: "dr_decrypt C r s h ct ad = (Inl err, s') \<Longrightarrow> s' = s"
  by (auto simp: dr_decrypt_def split: prod.splits sum.splits)

lemma synced_deliver:
  assumes "crypto_laws C" "synced_at C G E i w" "m \<in> set (wire w (\<not> p))"
    "delivered C G E (i p) (st w p) (remove1 m (wire w (\<not> p))) r s'"
    "y = public_key C (fst (secret_generate C r))" "dhr s' \<noteq> dhr (st w p) \<Longrightarrow> y \<notin> used w"
  shows "\<exists>G E i. synced_at C G E i (w\<lparr>st := (st w)(p := s'),
      wire := (wire w)(\<not> p := remove1 m (wire w (\<not> p))),
      used := (if dhr s' \<noteq> dhr (st w p) then insert y (used w) else used w)\<rparr>)"
proof -
  have sy: "chains_ok C G E" "g_pub C G ` {..E} \<subseteq> used w" "i True \<noteq> i False"
    "\<And>q. i q \<le> E" "\<And>q. E \<le> Suc (i q)" "\<And>q. party_at C G (i q) (st w q)"
    "\<And>q. mail_ok C G E (i q) (st w q) (wire w (\<not> q))"
    using assms(2) by (simp_all add: synced_at_def)
  have ne: "i (\<not> p) \<noteq> i p" using sy(3) by (cases p) auto
  show ?thesis
  proof (cases "dhr s' = dhr (st w p)")
    case True
    with assms(4) have "party_at C G (i p) s'" "mail_ok C G E (i p) s' (remove1 m (wire w (\<not> p)))"
      by (auto simp: delivered_def)
    then have "synced_at C G E i (w\<lparr>st := (st w)(p := s'),
        wire := (wire w)(\<not> p := remove1 m (wire w (\<not> p))), used := used w\<rparr>)"
      using sy sy(7) [of "\<not> p"] by (simp add: synced_at_def all_other [of _ p])
    with True show ?thesis by auto
  next
    case False
    let ?y = "fst (secret_generate C r)"
    from False assms(4) obtain rk2 ck2 where E: "E = Suc (i p)"
      and k: "kdf_rk C (g_root G E) (diffie_hellman C ?y (g_pub C G E)) = Inr (rk2, ck2)"
      and pt: "party_at C (g_extend G (Suc E) ?y rk2 ck2) (Suc E) s'"
        "mail_ok C (g_extend G (Suc E) ?y rk2 ck2) (Suc E) (Suc E) s' (remove1 m (wire w (\<not> p)))"
      by (auto simp: delivered_def Let_def)
    let ?G = "g_extend G (Suc E) ?y rk2 ck2" and ?i = "i(p := Suc E)"
    have i': "i (\<not> p) = E" using ne E sy(4) [of "\<not> p"] sy(5) [of "\<not> p"] by linarith
    have "y \<notin> g_pub C G ` {..E}" using assms(6) False sy(2) by blast
    then have "chains_ok C ?G (Suc E)" using chains_ok_extend [OF sy(1) k] assms(5) by simp
    moreover have "g_pub C ?G ` {..Suc E} \<subseteq> insert y (used w)"
      using sy(2) assms(5) by (auto simp: atMost_Suc)
    moreover have "party_at C ?G E (st w (\<not> p))" using party_at_extend [of E E] sy(6) [of "\<not> p"] i' by simp
    moreover have "mail_ok C ?G (Suc E) E (st w (\<not> p)) (wire w p)"
      using mail_ok_extend [OF sy(7) [of "\<not> p"]] i' by simp
    moreover have "?i True \<noteq> ?i False" using i' ne by (cases p) auto
    ultimately have "synced_at C ?G (Suc E) ?i (w\<lparr>st := (st w)(p := s'),
        wire := (wire w)(\<not> p := remove1 m (wire w (\<not> p))), used := insert y (used w)\<rparr>)"
      using pt i' unfolding synced_at_def all_other [of _ p] by simp
    with False show ?thesis by auto
  qed
qed

lemma synced_step:
  assumes "crypto_laws C" "dr_step C w w'" "\<exists>G E i. synced_at C G E i w"
  shows "\<exists>G E i. synced_at C G E i w'"
proof -
  obtain G E i where sy: "synced_at C G E i w" using assms(3) by blast
  then have pa: "chains_ok C G E" "party_at C G (i p) (st w p)" "i p \<le> E" "E \<le> Suc (i p)"
    "mail_ok C G E (i p) (st w p) (wire w (\<not> p))" for p
    by (simp_all add: synced_at_def)
  from assms(2) show ?thesis
  proof cases
    case (send p pt ad h ct s')
    with synced_send [OF assms(1) sy] show ?thesis by blast
  next
    case (send_refused p pt ad err s')
    then show ?thesis
      using synced_same [OF sy party_refused [OF pa(2) _ assms(1)]] send_refused_keeps by metis
  next
    case (deliver h ct pt ad p r pt' s' y)
    have "delivered C G E (i p) (st w p) (remove1 (h, ct, pt, ad) (wire w (\<not> p))) r s'"
      using deliver_result [OF assms(1) pa(1,2,5,3,4) deliver(2), of r] deliver(3) by auto
    from synced_deliver [OF assms(1) sy deliver(2) this deliver(4,5)] show ?thesis
      unfolding deliver(1) .
  next
    case (inject r p h ct ad err s')
    then have "s' = st w p" using dr_decrypt_error_state by blast
    with inject sy show ?thesis by auto
  next
    case (restart p s')
    have "dr_wf C (st w p)" using pa(2) by (simp add: party_at_def)
    then have "s' = st w p" using restart drc.roundtrip [of C "st w p" "max_skip (st w p)"] by simp
    with restart sy show ?thesis by auto
  qed
qed

lemma synced_reach: "dr_reach C w \<Longrightarrow> crypto_laws C \<Longrightarrow> \<exists>G E i. synced_at C G E i w"
  by (induction rule: dr_reach.induct) (blast intro: synced_start synced_step)+

text \<open>C1: end-to-end correctness of the Double Ratchet. In every reachable state of two parties that
  exchange messages over a network that may reorder, delay, drop and inject, decrypting any
  message still in transit gives exactly the plaintext that was encrypted, or, only when the limit
  on skipped keys leaves no room for it, the error \<open>LimitExceeded\<close> with the state untouched.\<close>

theorem double_ratchet_delivers:
  assumes "lens_ok C" "secret_stable C" "dh_commutes C" "xpub_ok C" "aead_correct C"
    and "dr_reach C w" and "(h, ct, pt, ad) \<in> set (wire w (\<not> p))"
  shows "(\<exists>s'. dr_decrypt C r (st w p) h ct ad = (Inr pt, s')) \<or>
      dr_decrypt C r (st w p) h ct ad = (Inl LimitExceeded, st w p) \<and> \<not> has_room (st w p) h"
proof -
  have laws: "crypto_laws C" using assms(1-5) by (simp add: crypto_laws_def)
  then obtain G E i where "synced_at C G E i w" using synced_reach [OF assms(6)] by blast
  then have "chains_ok C G E" "party_at C G (i p) (st w p)"
    "mail_ok C G E (i p) (st w p) (wire w (\<not> p))" "i p \<le> E" "E \<le> Suc (i p)"
    by (simp_all add: synced_at_def)
  from deliver_result [OF laws this assms(7), of r] show ?thesis by blast
qed

definition demo_start :: world where
  "demo_start = \<lparr>st = (\<lambda>p. if p
       then (case fst (init_alice plain_crypto (\<lambda>_. 5) (replicate 32 3)
               (public_key plain_crypto (replicate 32 9)) DEFAULT_MAX_SKIP) of
               Inr a \<Rightarrow> a | Inl _ \<Rightarrow> init_bob [] [] 0)
       else init_bob (replicate 32 3) (replicate 32 9) DEFAULT_MAX_SKIP),
     wire = (\<lambda>_. []),
     used = {public_key plain_crypto (replicate 32 9), public_key plain_crypto (replicate 32 5)}\<rparr>"

theorem double_ratchet_delivers_witness:
  "\<exists>w h ct s'. dr_reach plain_crypto w \<and> (h, ct, [1, 2, 3], [7]) \<in> set (wire w True) \<and>
     dr_decrypt plain_crypto (\<lambda>_. 6) (st w False) h ct [7] = (Inr [1, 2, 3], s')"
proof -
  let ?C = plain_crypto and ?w = demo_start
  have gen: "fst (secret_generate ?C (\<lambda>_. 5)) = replicate 32 5"
    by (simp add: secret_generate_def fill_random_def plain_simps map_replicate_const)
  have ne: "public_key ?C (replicate 32 5) \<noteq> public_key ?C (replicate 32 9)"
    by (simp add: public_key_def plain_simps fit_def)
  obtain rk0 ck where a: "fst (init_alice ?C (\<lambda>_. 5) (replicate 32 3)
      (public_key ?C (replicate 32 9)) DEFAULT_MAX_SKIP) = Inr \<lparr>dhs = Some (replicate 32 5),
    dhr = Some (public_key ?C (replicate 32 9)), rk = rk0, cks = Some ck, ckr = None, ns = 0, nr = 0,
    pn = 0, mkskipped = [], max_skip = DEFAULT_MAX_SKIP\<rparr>"
    using init_alice_total [OF plain_lens] gen by metis
  have st: "dr_start ?C (\<lambda>_. 5) (replicate 32 3) (replicate 32 9) DEFAULT_MAX_SKIP ?w"
    using a gen ne by (simp add: dr_start_def demo_start_def plain_simps fun_eq_iff)
  have "\<exists>h ct s'. dr_encrypt ?C (st ?w True) [1, 2, 3] [7] = (Inr (h, ct), s') \<and>
      h_pn h = pn (st ?w True) \<and> h_n h = ns (st ?w True)"
    by (rule dr_encrypt_total [OF plain_lens plain_aead]) (simp_all add: demo_start_def a)
  then have "\<exists>h ct s'. dr_encrypt ?C (st ?w True) [1, 2, 3] [7] = (Inr (h, ct), s') \<and> h_pn h = 0 \<and> h_n h = 0"
    by (simp add: demo_start_def a)
  then obtain h ct s' where e: "dr_encrypt ?C (st ?w True) [1, 2, 3] [7] = (Inr (h, ct), s')"
    "h_pn h = 0" "h_n h = 0" by blast
  let ?v = "?w\<lparr>st := (st ?w)(True := s'), wire := (wire ?w)(True := wire ?w True @ [(h, ct, [1, 2, 3], [7])])\<rparr>"
  have r: "dr_reach ?C ?v"
    by (rule dr_reach.step [OF dr_reach.start [OF st] dr_step.send [OF e(1)]])
  have m: "(h, ct, [1, 2, 3], [7]) \<in> set (wire ?v True)" by simp
  have "has_room (st ?v False) h"
    using e(2,3) by (simp add: has_room_def skips_needed_def demo_start_def init_bob_def DEFAULT_MAX_SKIP_def)
  then obtain s2 where "dr_decrypt ?C (\<lambda>_. 6) (st ?v False) h ct [7] = (Inr [1, 2, 3], s2)"
    using double_ratchet_delivers [OF plain_laws(1-5) r, of h ct "[1, 2, 3]" "[7]" False "\<lambda>_. 6"] m by auto
  with r m show ?thesis by blast
qed

text \<open>C16: the persisted form of a ratchet state is read back as the same state (under the limit it
  was created with), whatever bytes follow it in the buffer, and distinct states have distinct
  encodings.\<close>

theorem ratchet_state_roundtrip:
  assumes "dr_wf C s" "dr_wf C s2" "max_skip s2 = max_skip s"
  shows "dr_deserialize C (dr_serialize s @ rest) (max_skip s) = Inr s \<and>
    (dr_serialize s = dr_serialize s2 \<longrightarrow> s = s2)"
proof (intro conjI impI)
  show "dr_deserialize C (dr_serialize s @ rest) (max_skip s) = Inr s"
    using dr_deserialize_serialize [OF assms(1)] by simp
  show "s = s2" if "dr_serialize s = dr_serialize s2"
    using drc.enc_inj [of C s "max_skip s" s2] assms that by simp
qed

theorem ratchet_state_roundtrip_witness:
  "dr_deserialize plain_crypto (dr_serialize (init_bob (replicate 32 3) (replicate 32 9) 1000) @ [1, 2]) 1000 =
     Inr (init_bob (replicate 32 3) (replicate 32 9) 1000)"
proof -
  have "dr_wf plain_crypto (init_bob (replicate 32 3) (replicate 32 9) 1000)"
    by (rule init_bob_wf) (simp_all add: plain_simps)
  from ratchet_state_roundtrip [OF this this refl, of "[1, 2]"] show ?thesis
    by (simp add: init_bob_def)
qed

text \<open>The header encoding is canonical: decoding succeeds exactly on the 40-byte encodings of
  headers with a non-zero key, and every such header decodes to itself.\<close>

theorem header_codec_canonical:
  "header_decode data = Inr h \<longleftrightarrow> length (h_dh h) = 32 \<and> h_dh h \<noteq> zeros32 \<and> data = header_encode h"
  by (simp add: hdr.dec_iff header_wf_def conj_assoc)

text \<open>C15: memory for skipped keys is bounded. From a well-formed state, no sequence of calls
  (encryptions, decryptions of arbitrary input, raw key requests, restarts), whatever their
  outcome, stores more than \<open>max_skip\<close> skipped message keys or breaks the representation.\<close>

theorem skipped_keys_bounded:
  assumes "lens_ok C" "secret_stable C" "list_all dr_op_wf ops" "dr_wf C s"
  shows "skipped_count (fold (dr_apply C) ops s) \<le> unat (max_skip (fold (dr_apply C) ops s)) \<and>
    max_skip (fold (dr_apply C) ops s) = max_skip s \<and>
    dr_wf C (fold (dr_apply C) ops s)"
proof (intro conjI impI)
  show wf: "dr_wf C (fold (dr_apply C) ops s)" by (rule dr_run_wf [OF assms])
  then show "skipped_count (fold (dr_apply C) ops s) \<le> unat (max_skip (fold (dr_apply C) ops s))"
    by (simp add: dr_wf_def skipped_wf_def skipped_count_def)
  show "max_skip (fold (dr_apply C) ops s) = max_skip s"
    using assms(3,4)
    by (induction ops arbitrary: s) (simp_all add: dr_apply_wf [OF assms(1,2)] dr_apply_max_skip)
qed

theorem skipped_keys_bounded_witness:
  "skipped_count (fold (dr_apply plain_crypto) [OpEncrypt [1] [], OpReload] (init_bob (replicate 32 3) (replicate 32 9) 1000))
     \<le> unat (max_skip (fold (dr_apply plain_crypto) [OpEncrypt [1] [], OpReload] (init_bob (replicate 32 3) (replicate 32 9) 1000)))"
proof -
  have "dr_wf plain_crypto (init_bob (replicate 32 3) (replicate 32 9) 1000)"
    by (rule init_bob_wf) (simp_all add: plain_simps)
  moreover have "list_all dr_op_wf [OpEncrypt [1] [], OpReload]" by simp
  ultimately show ?thesis using skipped_keys_bounded [OF plain_lens plain_stable] by blast
qed

text \<open>The skip loop runs into the limit exactly when the keys to skip do not fit.\<close>

lemma skip_loop_full:
  assumes "dhr s = Some d" "unat (nr s) + k = unat until" "length (mkskipped s) \<le> unat (max_skip s)"
    and "unat (max_skip s) < length (mkskipped s) + k"
    and "\<forall>j. hm_get (mkskipped s) (d, j) \<noteq> None \<longrightarrow> j < nr s"
  shows "fst (skip_loop C until ck s) = Inl LimitExceeded"
  using assms
proof (induction k arbitrary: ck s)
  case (Suc k)
  have lt: "nr s < until" using Suc.prems(2) by (simp add: word_less_nat_alt)
  have n1: "unat (nr s + 1) = Suc (unat (nr s))"
    using Suc.prems(2) unat_u32_bound [of until] unat_plus1 [of "nr s"] by simp
  then have up: "nr s < nr s + 1" "j < nr s \<Longrightarrow> j < nr s + 1" for j by (simp_all add: word_less_nat_alt)
  let ?s = "s\<lparr>mkskipped := hm_insert (mkskipped s) (d, nr s) (msg_key C ck 0), nr := nr s + 1\<rparr>"
  show ?case
  proof (cases "of_nat (length (mkskipped s)) \<ge> max_skip s")
    case True
    with lt show ?thesis by (subst skip_loop_unroll) simp
  next
    case False
    then have "length (mkskipped s) < unat (max_skip s)"
      using unat_of_nat_le [of "length (mkskipped s)" "max_skip s"] Suc.prems(3) by (simp add: word_le_nat_alt)
    moreover have "hm_get (mkskipped s) (d, nr s) = None" using Suc.prems(5) by fastforce
    ultimately have "fst (skip_loop C until (chain_key C ck 1) ?s) = Inl LimitExceeded"
      using Suc.prems n1 up by (intro Suc.IH) (auto simp: length_hm_insert)
    with lt False Suc.prems(1) show ?thesis by (subst skip_loop_unroll) simp
  qed
qed simp

lemma skip_message_keys_full:
  assumes "ckr s = Some ck" "dhr s = Some d" "length (mkskipped s) \<le> unat (max_skip s)"
    and "\<forall>j. hm_get (mkskipped s) (d, j) \<noteq> None \<longrightarrow> j < nr s"
    and "2 ^ 32 \<le> unat (nr s) + unat (max_skip s) \<or>
      unat (max_skip s) < length (mkskipped s) + (unat until - unat (nr s))"
  shows "fst (skip_message_keys C until s) = Inl LimitExceeded"
proof (cases "checked_add (nr s) (max_skip s)")
  case None
  then show ?thesis by (simp add: skip_message_keys_def)
next
  case (Some l)
  then have "\<not> 2 ^ 32 \<le> unat (nr s) + unat (max_skip s)" by (simp add: checked_add_def split: if_splits)
  with assms(3,5) have k: "unat (nr s) + (unat until - unat (nr s)) = unat until"
    "unat (max_skip s) < length (mkskipped s) + (unat until - unat (nr s))" by simp_all
  note full = skip_loop_full [OF assms(2) k(1) assms(3) k(2) assms(4), of C ck]
  show ?thesis
    using Some assms(1) full by (cases "skip_loop C until ck s") (auto simp: skip_message_keys_def)
qed

text \<open>Opening a ciphertext under a message key.\<close>

definition open_with :: "crypto \<Rightarrow> bytes \<Rightarrow> header \<Rightarrow> bytes \<Rightarrow> bytes \<Rightarrow> prim_error + bytes" where
  "open_with C mk h ct ad = rbind (aead_from_mk C mk) (\<lambda>(key, nonce). aead_open C key nonce ct (concat_ad ad h))"

lemma receive_current_exact:
  assumes wf: "dr_wf C s" and "dhr s = Some (h_dh h)" "ckr s = Some ck" "hm_get (mkskipped s) (h_dh h, h_n h) = None"
    and "\<forall>j. hm_get (mkskipped s) (h_dh h, j) \<noteq> None \<longrightarrow> j < nr s"
    and k: "k = unat (h_n h) - unat (nr s)" "unat (nr s) + k + 1 < 2 ^ 32"
  shows "if 2 ^ 32 \<le> unat (nr s) + unat (max_skip s) \<or> unat (max_skip s) < length (mkskipped s) + k
    then fst (ratchet_receive_key C r h s) = Inl LimitExceeded
    else ratchet_receive_key C r h s = (Inr (msg_key C ck k),
      (skip_state C (h_dh h) ck (h_n h) s)\<lparr>ckr := Some (chain_key C ck (k + 1)), nr := nr s + of_nat (k + 1)\<rparr>)"
proof -
  have e: "ratchet_receive_key C r h s = sbind (skip_message_keys C (h_n h) s) (\<lambda>_ s. advance_recv C s)"
    using assms(2,4) by (simp add: ratchet_receive_key_eq hm_remove_id Let_def)
  have len: "length (mkskipped s) \<le> unat (max_skip s)" using wf by (simp add: dr_wf_def skipped_wf_def)
  have top: "(if nr s < h_n h then h_n h else nr s) = nr s + of_nat k"
    using k by (auto simp: word_less_nat_alt unat_word_ariths unat_of_nat intro!: unsigned_word_eqI)
  have "unat (nr s + of_nat k) + 1 < 2 ^ 32"
    using k(2) by (simp add: unat_word_ariths unat_of_nat)
  then have inc: "checked_inc (nr s + of_nat k) = Inr (nr s + of_nat k + 1)" by (simp add: checked_inc_iff)
  have adv: "advance_recv C (skip_state C (h_dh h) ck (h_n h) s) = (Inr (msg_key C ck k),
      (skip_state C (h_dh h) ck (h_n h) s)\<lparr>ckr := Some (chain_key C ck (k + 1)), nr := nr s + of_nat (k + 1)\<rparr>)"
    using chain_key_shift [of C ck k 1] msg_key_shift [of C ck k 0] inc
    by (simp add: advance_recv_def top k(1) [symmetric] add.assoc [symmetric] add.commute [of 1])
  show ?thesis
    using skip_message_keys_full [OF assms(3,2) len assms(5), of "h_n h" C]
      skip_message_keys_room [OF assms(3,2), of "h_n h" C] adv
    by (auto simp: e k(1) [symmetric] sbind_err)
qed

text \<open>C14: what a decryption does, exactly, in a well-formed state. If the key of the message was stored, the
  ciphertext is opened under it, and only on success is that key removed. On the current receiving chain, for a
  message \<open>k\<close> places ahead and nothing stored of the places from \<open>nr\<close> on: it is refused with
  \<open>LimitExceeded\<close> precisely when \<open>nr + max_skip\<close> overflows or the keys already stored and the \<open>k\<close> to
  skip are more than \<open>max_skip\<close>; otherwise it is opened under the \<open>k\<close>-th key of the chain, and on success the
  chain stands after it, with exactly the keys of the \<open>k\<close> places before it added to the store.
  Whenever a decryption fails, on this chain or on a new one, the state is the one before.\<close>

theorem decrypt_outcome:
  assumes "dr_wf C s" "k = unat (h_n h) - unat (nr s)"
  shows "(hm_get (mkskipped s) (h_dh h, h_n h) = Some mk \<longrightarrow>
      dr_decrypt C r s h ct ad = (case open_with C mk h ct ad of Inl e \<Rightarrow> (Inl e, s)
        | Inr pt \<Rightarrow> (Inr pt, s\<lparr>mkskipped := hm_remove (mkskipped s) (h_dh h, h_n h)\<rparr>))) \<and>
    (dhr s = Some (h_dh h) \<and> ckr s = Some ck \<and> unat (nr s) + k + 1 < 2 ^ 32 \<and>
      hm_get (mkskipped s) (h_dh h, h_n h) = None \<and> (\<forall>j. hm_get (mkskipped s) (h_dh h, j) \<noteq> None \<longrightarrow> j < nr s) \<longrightarrow>
      (if 2 ^ 32 \<le> unat (nr s) + unat (max_skip s) \<or> unat (max_skip s) < skipped_count s + k
       then dr_decrypt C r s h ct ad = (Inl LimitExceeded, s)
       else case open_with C (msg_key C ck k) h ct ad of
         Inl e \<Rightarrow> dr_decrypt C r s h ct ad = (Inl e, s)
       | Inr pt \<Rightarrow> \<exists>sk. dr_decrypt C r s h ct ad =
             (Inr pt, s\<lparr>mkskipped := sk, ckr := Some (chain_key C ck (k + 1)), nr := nr s + of_nat (k + 1)\<rparr>) \<and>
           (\<forall>p j. hm_get sk (p, j) = (if p = h_dh h \<and> unat (nr s) \<le> unat j \<and> unat j < unat (nr s) + k
              then Some (msg_key C ck (unat j - unat (nr s))) else hm_get (mkskipped s) (p, j))))) \<and>
    (fst (dr_decrypt C r s h ct ad) = Inl err \<longrightarrow> snd (dr_decrypt C r s h ct ad) = s)"
proof (intro conjI impI)
  assume "hm_get (mkskipped s) (h_dh h, h_n h) = Some mk"
  then show "dr_decrypt C r s h ct ad = (case open_with C mk h ct ad of Inl e \<Rightarrow> (Inl e, s)
        | Inr pt \<Rightarrow> (Inr pt, s\<lparr>mkskipped := hm_remove (mkskipped s) (h_dh h, h_n h)\<rparr>))"
    using assms(1) by (simp add: dr_decrypt_def ratchet_receive_key_eq Let_def open_with_def)
next
  assume a: "dhr s = Some (h_dh h) \<and> ckr s = Some ck \<and> unat (nr s) + k + 1 < 2 ^ 32 \<and>
      hm_get (mkskipped s) (h_dh h, h_n h) = None \<and> (\<forall>j. hm_get (mkskipped s) (h_dh h, j) \<noteq> None \<longrightarrow> j < nr s)"
  let ?sk = "mkskipped (skip_state C (h_dh h) ck (h_n h) s)"
  let ?s = "s\<lparr>mkskipped := ?sk, ckr := Some (chain_key C ck (k + 1)), nr := nr s + of_nat (k + 1)\<rparr>"
  have st: "(skip_state C (h_dh h) ck (h_n h) s)\<lparr>ckr := Some (chain_key C ck (k + 1)), nr := nr s + of_nat (k + 1)\<rparr> = ?s"
    by (simp add: skip_state_def Let_def)
  have sk: "hm_get ?sk (p, j) = (if p = h_dh h \<and> unat (nr s) \<le> unat j \<and> unat j < unat (nr s) + k
              then Some (msg_key C ck (unat j - unat (nr s))) else hm_get (mkskipped s) (p, j))" for p j
    unfolding hm_get_skip_state using assms(2) by auto
  note rk = receive_current_exact [OF assms(1) _ _ _ _ assms(2), of ck r, unfolded st]
  show "if 2 ^ 32 \<le> unat (nr s) + unat (max_skip s) \<or> unat (max_skip s) < skipped_count s + k
       then dr_decrypt C r s h ct ad = (Inl LimitExceeded, s)
       else case open_with C (msg_key C ck k) h ct ad of
         Inl e \<Rightarrow> dr_decrypt C r s h ct ad = (Inl e, s)
       | Inr pt \<Rightarrow> \<exists>sk. dr_decrypt C r s h ct ad =
             (Inr pt, s\<lparr>mkskipped := sk, ckr := Some (chain_key C ck (k + 1)), nr := nr s + of_nat (k + 1)\<rparr>) \<and>
           (\<forall>p j. hm_get sk (p, j) = (if p = h_dh h \<and> unat (nr s) \<le> unat j \<and> unat j < unat (nr s) + k
              then Some (msg_key C ck (unat j - unat (nr s))) else hm_get (mkskipped s) (p, j)))"
  proof (cases "2 ^ 32 \<le> unat (nr s) + unat (max_skip s) \<or> unat (max_skip s) < skipped_count s + k")
    case True
    then have "fst (ratchet_receive_key C r h s) = Inl LimitExceeded" using a rk by (simp add: skipped_count_def)
    with True assms(1) show ?thesis by (cases "ratchet_receive_key C r h s") (simp add: dr_decrypt_def)
  next
    case False
    then have "ratchet_receive_key C r h s = (Inr (msg_key C ck k), ?s)" using a rk by (simp add: skipped_count_def)
    with False assms(1) sk show ?thesis
      by (cases "open_with C (msg_key C ck k) h ct ad") (auto simp: dr_decrypt_def open_with_def)
  qed
next
  show "snd (dr_decrypt C r s h ct ad) = s" if "fst (dr_decrypt C r s h ct ad) = Inl err"
    using that dr_decrypt_error_state [of C r s h ct ad err] by (cases "dr_decrypt C r s h ct ad") auto
qed

text \<open>A state with one stored key, three messages read and room for ten stored keys: message 12 is read with nine
  more keys stored, message 13 would need one key too many.\<close>

definition demo_reader :: dr_state where
  "demo_reader = \<lparr>dhs = Some (replicate 32 9), dhr = Some (replicate 32 1), rk = replicate 32 3, cks = None,
     ckr = Some (replicate 32 4), ns = 0, nr = 3, pn = 0, mkskipped = [((replicate 32 1, 1), replicate 32 6)], max_skip = 10\<rparr>"

definition demo_head :: "u32 \<Rightarrow> header" where
  "demo_head n = \<lparr>h_dh = replicate 32 1, h_pn = 0, h_n = n\<rparr>"

lemma demo_reader_simps:
  "dhr demo_reader = Some (h_dh (demo_head n))" "ckr demo_reader = Some (replicate 32 4)" "nr demo_reader = 3"
  "max_skip demo_reader = 10" "skipped_count demo_reader = 1" "h_n (demo_head n) = n"
  "hm_get (mkskipped demo_reader) (h_dh (demo_head n), j) = (if j = 1 then Some (replicate 32 6) else None)"
  by (simp_all add: demo_reader_def demo_head_def skipped_count_def hm_get_Cons)

lemma demo_reader_wf: "dr_wf plain_crypto demo_reader"
proof -
  have "(replicate 32 1 :: bytes) \<noteq> zeros32" by (simp add: zeros32_def)
  moreover have "static_secret plain_crypto (replicate 32 9) = replicate 32 9" by (simp add: plain_simps)
  ultimately show ?thesis
    by (simp add: dr_wf_def demo_reader_def skipped_wf_def hm_ok_def)
qed

theorem decrypt_outcome_witness:
  "\<exists>ct sk. dr_decrypt plain_crypto (\<lambda>_. 0) demo_reader (demo_head 12) ct [] = (Inr [42], demo_reader\<lparr>mkskipped := sk,
       ckr := Some (chain_key plain_crypto (replicate 32 4) 10), nr := 13\<rparr>) \<and>
     hm_get sk (h_dh (demo_head 12), 5) = Some (msg_key plain_crypto (replicate 32 4) 2) \<and>
     dr_decrypt plain_crypto (\<lambda>_. 0) demo_reader (demo_head 13) ct [] = (Inl LimitExceeded, demo_reader)"
proof -
  let ?C = plain_crypto and ?ck = "replicate 32 4 :: bytes"
  obtain key nonce where k: "aead_from_mk ?C (msg_key ?C ?ck 9) = Inr (key, nonce)" "length key = 32"
    using aead_from_mk_total [OF plain_lens] by blast
  obtain ct where "aead_seal ?C key nonce [42] (concat_ad [] (demo_head 12)) = Inr ct"
    using aead_seal_total [OF plain_aead k(2)] by blast
  then have o: "open_with ?C (msg_key ?C ?ck 9) (demo_head 12) ct [] = Inr [42]"
    using k aead_open_seal [OF plain_aead k(2)] by (simp add: open_with_def)
  have "(9 :: nat) = unat (h_n (demo_head 12)) - unat (nr demo_reader)" "(10 :: nat) = unat (h_n (demo_head 13)) - unat (nr demo_reader)"
    by (simp_all add: demo_reader_simps)
  note d = decrypt_outcome [OF demo_reader_wf this(1), THEN conjunct2, THEN conjunct1, of ?ck "\<lambda>_. 0" ct "[]"]
    decrypt_outcome [OF demo_reader_wf this(2), THEN conjunct2, THEN conjunct1, of ?ck "\<lambda>_. 0" ct "[]"]
  have st: "\<forall>j. hm_get (mkskipped demo_reader) (h_dh (demo_head n), j) \<noteq> None \<longrightarrow> j < nr demo_reader" for n
    by (simp add: demo_reader_simps)
  have "\<exists>sk. dr_decrypt ?C (\<lambda>_. 0) demo_reader (demo_head 12) ct [] =
      (Inr [42], demo_reader\<lparr>mkskipped := sk, ckr := Some (chain_key ?C ?ck 10), nr := 13\<rparr>) \<and>
      (\<forall>p j. hm_get sk (p, j) = (if p = h_dh (demo_head 12) \<and> 3 \<le> unat j \<and> unat j < 12
        then Some (msg_key ?C ?ck (unat j - unat (nr demo_reader))) else hm_get (mkskipped demo_reader) (p, j)))"
    using d(1) st [of 12] o by (simp add: demo_reader_simps cong: if_cong)
  then obtain sk where sk: "dr_decrypt ?C (\<lambda>_. 0) demo_reader (demo_head 12) ct [] =
      (Inr [42], demo_reader\<lparr>mkskipped := sk, ckr := Some (chain_key ?C ?ck 10), nr := 13\<rparr>)"
    "\<forall>p j. hm_get sk (p, j) = (if p = h_dh (demo_head 12) \<and> 3 \<le> unat j \<and> unat j < 12
        then Some (msg_key ?C ?ck (unat j - unat (nr demo_reader))) else hm_get (mkskipped demo_reader) (p, j))" by blast
  then have "hm_get sk (h_dh (demo_head 12), 5) = Some (msg_key ?C ?ck 2)" by (simp add: demo_reader_simps(3))
  note sk(1) this
  moreover have "dr_decrypt ?C (\<lambda>_. 0) demo_reader (demo_head 13) ct [] = (Inl LimitExceeded, demo_reader)"
    using d(2) st [of 13] by (simp add: demo_reader_simps)
  ultimately show ?thesis by blast
qed

end
