(* ===== verification/VC_Triple_Props.thy ===== *)
theory VC_Triple_Props
  imports VC_Triple VC_Braid_Live VC_Ratchet_Sync
begin

text \<open>
  Correctness of the Triple Ratchet: its codecs, that a failed decryption leaves the state as it
  was, which messages are lost when the post-quantum epoch changes, and that two parties that speak
  in turn understand each other for the whole conversation, across all epochs.
\<close>

subsection \<open>Codecs\<close>

definition th_wf :: "triple_header \<Rightarrow> bool" where
  "th_wf h \<longleftrightarrow> header_wf (th_classical h) \<and>
     (case th_scka h of None \<Rightarrow> True | Some m \<Rightarrow> bm_wf m \<and> length (bm_encode m) < 2 ^ 16)"

interpretation thc: codec th_encode th_decode th_wf
proof unfold_locales
  fix h assume "th_wf h"
  then show "th_decode (th_encode h) = Inr h"
    by (cases h; cases "th_scka h")
       (simp_all add: th_wf_def th_decode_def th_encode_def Let_def nth_append header_decode_encode bmc.roundtrip)
qed

definition triple_wf :: "crypto \<Rightarrow> u32 \<Rightarrow> triple \<Rightarrow> bool" where
  "triple_wf C ms t \<longleftrightarrow> dr_wf C (t_classical t) \<and> max_skip (t_classical t) = ms \<and> q_wf (t_spqr t) \<and> braid_wf (t_braid t) \<and>
     fits32 (dr_serialize (t_classical t)) \<and> fits32 (q_serialize (t_spqr t)) \<and> fits32 (braid_serialize (t_braid t))"

interpretation tc: codec triple_serialize "\<lambda>d. triple_deserialize C d ms" "triple_wf C ms" for C ms
proof unfold_locales
  fix t assume "triple_wf C ms t"
  then show "triple_deserialize C (triple_serialize t) ms = Inr t"
    using drc.roundtrip [of C "t_classical t" ms] qc.roundtrip [of "t_spqr t"] brc.roundtrip [of "t_braid t"]
      take_vec_put [of "braid_serialize (t_braid t)" InvalidLength "[]"]
    by (cases t) (simp add: triple_wf_def triple_deserialize_def triple_serialize_def)
qed

subsection \<open>One turn of the classical part\<close>

text \<open>\<open>a\<close> is about to send the first message of a new chain and \<open>b\<close> is about to receive it.\<close>

definition dr_turn :: "crypto \<Rightarrow> bytes \<Rightarrow> bytes \<Rightarrow> dr_state \<Rightarrow> dr_state \<Rightarrow> bool" where
  "dr_turn C x y a b \<longleftrightarrow> dr_wf C a \<and> dr_wf C b \<and> dhs a = Some x \<and> dhs b = Some y \<and> ns a = 0 \<and>
     mkskipped a = [] \<and> mkskipped b = [] \<and> max_skip a = DEFAULT_MAX_SKIP \<and> max_skip b = DEFAULT_MAX_SKIP \<and>
     nr a = ns b \<and> nr b = pn a \<and> ns b \<in> {0, 1} \<and> pn a \<in> {0, 1} \<and> (ckr a = None \<longrightarrow> nr a = 0) \<and> (ckr b = None \<longrightarrow> nr b = 0) \<and>
     dhr a = Some (public_key C y) \<and> dhr b \<noteq> Some (public_key C x) \<and> (ckr b \<noteq> None \<longrightarrow> dhr b \<noteq> None) \<and>
     (\<exists>ck. cks a = Some ck \<and> kdf_rk C (rk b) (diffie_hellman C y (public_key C x)) = Inr (rk a, ck))"

lemma finish_none: "unat u \<le> unat (nr s) \<Longrightarrow> finish_chain C u s = s"
  by (cases "ckr s") (auto simp: finish_chain_def skip_state_def word_less_nat_alt split: option.split)

lemma dr_turn_step:
  assumes L: "crypto_laws C" and t: "dr_turn C x y a b" and y: "y' = fst (secret_generate C r)"
    and ne: "public_key C y' \<noteq> public_key C y"
  obtains h mk a' b' where "send_message_key C a = (Inr (h, mk), a')" "receive_message_key C r h b = (Inr mk, b')"
    "header_wf h" "dr_turn C y' x b' a'"
proof -
  have l: "lens_ok C" "secret_stable C" "dh_commutes C" "xpub_ok C" using L by (simp_all add: crypto_laws_def)
  note tt = t [unfolded dr_turn_def]
  obtain ck where ck: "cks a = Some ck" "kdf_rk C (rk b) (diffie_hellman C y (public_key C x)) = Inr (rk a, ck)"
    using tt by blast
  let ?h = "\<lparr>h_dh = public_key C x, h_pn = pn a, h_n = 0\<rparr>"
  obtain rk2 ck2 where k2: "kdf_rk C (rk a) (diffie_hellman C y' (public_key C x)) = Inr (rk2, ck2)"
    using kdf_rk_total [OF l(1)] by blast
  obtain r' where g: "secret_generate C r = (y', r')" using y by (cases "secret_generate C r") auto
  let ?a = "a\<lparr>cks := Some (chain_key C ck 1), ns := 1\<rparr>"
  have s: "send_message_key C a = (Inr (?h, msg_key C ck 0), ?a)"
    using tt ck by (simp add: send_message_key_def ratchet_send_key_eq checked_inc_ok)
  let ?b = "fetched C (h_dh ?h) ck (h_n ?h) (ratcheted (h_dh ?h) ck rk2 ck2 y' b)"
  have fin: "finish_chain C (h_pn ?h) b = b" using tt by (intro finish_none) simp
  have "has_room b ?h" using tt by (auto simp: has_room_def skips_needed_def DEFAULT_MAX_SKIP_def)
  then have rcv: "ratchet_receive_key C r ?h b = (Inr (msg_key C ck (unat (h_n ?h))), ?b)"
    using receive_new_chain(2) [of b ?h y C "rk a" ck r y' r' rk2 ck2] tt ck(2) g k2 unfolding fin by auto
  have h: "header_wf ?h" using l by (simp add: header_wf_def public_key_len public_key_nonzero)
  have wf: "dr_wf C ?a" "dr_wf C ?b"
    using ratchet_send_key_wf [OF l(1), of a] ratchet_receive_key_wf [OF l(1,2) h, of b r] s tt rcv
    by (simp_all add: send_message_key_state [symmetric])
  have "dr_turn C y' x ?b ?a"
    using wf ne k2 tt dh_agree [OF l(3), of x y'] unfolding dr_turn_def
    by (auto simp: ratcheted_def skip_state_def)
  with s rcv h show thesis using that by (simp add: receive_message_key_def)
qed

subsection \<open>One turn of the post-quantum part\<close>

definition q_pair :: "nat \<Rightarrow> spqr_state \<Rightarrow> spqr_state \<Rightarrow> bool" where
  "q_pair k a b \<longleftrightarrow> (\<exists>c1 c2. q_sending a = Some c1 \<and> q_receiving b = Some c1 \<and> q_sending b = Some c2 \<and>
     q_receiving a = Some c2 \<and> q_root a = q_root b \<and> q_next a = q_next b \<and> q_skipped a = [] \<and> q_skipped b = [] \<and>
     c_epoch c1 + 1 = q_next a \<and> c_epoch c2 = c_epoch c1 \<and> unat (c_n c1) \<le> k \<and> unat (c_n c2) \<le> k \<and> unat (q_next a) \<le> k + 2)"

lemma q_pair_sym: "q_pair k a b \<Longrightarrow> q_pair k b a"
  by (auto simp: q_pair_def)

lemma q_pair_mono: "q_pair k a b \<Longrightarrow> k \<le> j \<Longrightarrow> q_pair j a b"
  unfolding q_pair_def by (meson add_le_mono le_refl le_trans)

lemma q_turn:
  assumes l: "lens_ok C" and p: "q_pair k a b" and k: "k < 2 ^ 32 - 2"
  obtains n mk a' b' where "q_send_key C a = (Inr (q_next a - 1, n, mk), a')"
    "q_receive_key C b (q_next a - 1) n = (Inr mk, b')" "receiving_epoch b = Some (q_next a - 1)" "q_pair (Suc k) a' b'"
proof -
  obtain c1 c2 where c: "q_sending a = Some c1" "q_receiving b = Some c1" "q_sending b = Some c2" "q_receiving a = Some c2"
    "q_root a = q_root b" "q_next a = q_next b" "q_skipped a = []" "q_skipped b = []"
    "c_epoch c1 + 1 = q_next a" "c_epoch c2 = c_epoch c1" "unat (c_n c1) \<le> k" "unat (c_n c2) \<le> k" "unat (q_next a) \<le> k + 2"
    using p by (auto simp: q_pair_def)
  obtain ck' mk where kd: "kdf_ck_spqr C (c_key c1) = Inr (ck', mk)" using kdf_ck_spqr_ok [OF l] .
  let ?c = "c1\<lparr>c_key := ck', c_n := c_n c1 + 1\<rparr>"
  have inc: "checked_inc (c_n c1) = Inr (c_n c1 + 1)" "unat (c_n c1 + 1) = Suc (unat (c_n c1))"
    using c(11) k by (simp_all add: checked_inc_iff unat_word_ariths)
  have ep: "q_next a - 1 = c_epoch c1" using c(9) by (metis add_diff_cancel_right')
  have s: "q_send_key C a = (Inr (q_next a - 1, c_n c1, mk), a\<lparr>q_sending := Some ?c\<rparr>)"
    using c kd inc ep by (simp add: q_send_key_def Let_def)
  have "q_skip_loop C (c_epoch c1) (c_n c1) c1 [] = (Inr (), c1, [])" by (simp add: q_skip_loop.simps)
  then have rv: "q_receive_key C b (q_next a - 1) (c_n c1) = (Inr mk, b\<lparr>q_receiving := Some ?c\<rparr>)"
    using c kd inc ep by (cases b) (simp add: q_receive_key_def Let_def saturating_sub_def)
  have "q_pair (Suc k) (a\<lparr>q_sending := Some ?c\<rparr>) (b\<lparr>q_receiving := Some ?c\<rparr>)"
    using c inc by (auto simp: q_pair_def)
  moreover have "receiving_epoch b = Some (q_next a - 1)" unfolding ep using c(2) by (simp add: receiving_epoch_def)
  ultimately show thesis using that s rv by blast
qed

text \<open>\<open>a\<close> has opened the next epoch with \<open>ss\<close> and \<open>b\<close> has not.\<close>

definition q_ahead :: "crypto \<Rightarrow> nat \<Rightarrow> bytes \<Rightarrow> spqr_state \<Rightarrow> spqr_state \<Rightarrow> bool" where
  "q_ahead C k ss a b \<longleftrightarrow> (\<exists>a0. q_pair k a0 b \<and> q_advance_epoch C a0 ss = Some (Inr (q_next a0), a))"

lemma q_advance_eq:
  assumes l: "lens_ok C" and "unat N < 2 ^ 32 - 1"
  obtains rt ch where "c_epoch ch = N" "c_n ch = 0"
    "\<And>s. q_root s = R \<Longrightarrow> q_next s = N \<Longrightarrow> q_skipped s = [] \<Longrightarrow> q_advance_epoch C s ss =
       Some (Inr N, s\<lparr>q_next := N + 1, q_root := rt, q_sending := Some ch, q_receiving := Some ch\<rparr>)"
proof -
  obtain okm where okm: "hkdf_extract_expand C (Some R) ss SPQR_EPOCH 64 = Inr okm" using hkdf_ok [OF l, of 64 "Some R" ss SPQR_EPOCH] by auto
  let ?ch = "\<lparr>c_epoch = N, c_key = take 32 (drop 32 okm), c_n = 0\<rparr>"
  have inc: "checked_inc N = Inr (N + 1)" using assms(2) by (simp add: checked_inc_iff)
  show thesis
    by (rule that [of ?ch "take 32 okm"]) (simp_all add: q_advance_epoch_def Let_def inc okm q_retain_panics_def)
qed

lemma q_aheadI:
  assumes "lens_ok C" "q_pair k a b" "k < 2 ^ 32 - 4"
  obtains a' where "q_advance_epoch C a ss = Some (Inr (q_next a), a')" "q_ahead C k ss a' b"
proof -
  have "unat (q_next a) < 2 ^ 32 - 1" using assms(2,3) by (auto simp: q_pair_def)
  from q_advance_eq [OF assms(1) this, of "q_root a" ss] obtain a' where "q_advance_epoch C a ss = Some (Inr (q_next a), a')"
    using assms(2) by (metis q_pair_def)
  then show thesis using that assms(2) by (auto simp: q_ahead_def)
qed

lemma q_catch_up:
  assumes l: "lens_ok C" and a: "q_ahead C k ss a b" and k: "k < 2 ^ 32 - 4"
  obtains b' where "receiving_epoch b \<noteq> Some (q_next a - 1)" "q_advance_epoch C b ss = Some (Inr (q_next b), b')" "q_pair (Suc k) a b'"
proof -
  obtain a0 where a0: "q_pair k a0 b" "q_advance_epoch C a0 ss = Some (Inr (q_next a0), a)" using a by (auto simp: q_ahead_def)
  have n: "unat (q_next b) \<le> k + 2" using a0(1) by (auto simp: q_pair_def)
  then have "unat (q_next b) < 2 ^ 32 - 1" using k by simp
  from q_advance_eq [OF l this, of "q_root b" ss] obtain rt ch where ch: "c_epoch ch = q_next b" "c_n ch = 0"
    "\<And>s. q_root s = q_root b \<Longrightarrow> q_next s = q_next b \<Longrightarrow> q_skipped s = [] \<Longrightarrow> q_advance_epoch C s ss =
       Some (Inr (q_next b), s\<lparr>q_next := q_next b + 1, q_root := rt, q_sending := Some ch, q_receiving := Some ch\<rparr>)" by metis
  let ?b = "b\<lparr>q_next := q_next b + 1, q_root := rt, q_sending := Some ch, q_receiving := Some ch\<rparr>"
  have b: "q_advance_epoch C b ss = Some (Inr (q_next b), ?b)" using a0(1) by (intro ch(3)) (auto simp: q_pair_def)
  have aa: "a = a0\<lparr>q_next := q_next b + 1, q_root := rt, q_sending := Some ch, q_receiving := Some ch\<rparr>"
    using ch(3) [of a0] a0 by (auto simp: q_pair_def)
  have u: "unat (q_next b + 1) = Suc (unat (q_next b))" using n k by (simp add: unat_word_ariths)
  have "q_pair (Suc k) a ?b" using a0(1) ch(1,2) u by (auto simp: q_pair_def aa)
  moreover have "receiving_epoch b \<noteq> Some (q_next a - 1)" using a0(1) by (auto simp: q_pair_def aa receiving_epoch_def)
  ultimately show thesis using that b by blast
qed

subsection \<open>One turn of the Braid\<close>

definition in_ct2 :: "braid \<Rightarrow> bool" where
  "in_ct2 s \<longleftrightarrow> (\<exists>enc ss em. br_agent s = Ct2Sampled enc ss em)"

definition in_ek_sent :: "braid \<Rightarrow> bool" where
  "in_ek_sent s \<longleftrightarrow> (\<exists>dk ct1 dec. br_agent s = EkSentCt1Received dk ct1 dec)"

definition run_pair :: "crypto \<Rightarrow> u64 \<Rightarrow> authenticator \<Rightarrow> braid \<Rightarrow> braid \<Rightarrow> bool" where
  "run_pair C e a w v \<longleftrightarrow> (\<exists>seed mo. owner_ok C e a seed mo w \<and> peer_ok C e a seed mo v) \<and> (in_ek_sent w \<longrightarrow> in_ct2 v)"

definition b_pair :: "crypto \<Rightarrow> u64 \<Rightarrow> braid \<Rightarrow> braid \<Rightarrow> bool" where
  "b_pair C e s t \<longleftrightarrow> (\<exists>a. idle_owner e a s \<and> idle_peer e a t \<or> idle_peer e a s \<and> idle_owner e a t \<or>
     run_pair C e a s t \<or> run_pair C e a t s)"

definition b_ahead :: "crypto \<Rightarrow> u64 \<Rightarrow> bytes \<Rightarrow> braid \<Rightarrow> braid \<Rightarrow> bool" where
  "b_ahead C e ss s t \<longleftrightarrow> (\<exists>a seed m. idle_peer (e + 1) (ep_auth C e a seed m) s \<and> sampled_ok C e a seed m t \<and>
     in_ct2 t \<and> ss = ep_ss C e seed m)"

lemma send_chunk_typ: "send_chunk s typ enc f = Some (Inr (msg, n, out), s') \<Longrightarrow> bm_typ msg = typ"
  by (auto simp: send_chunk_def br_msg_def Let_def split: option.splits)

lemma send_none_data:
  assumes "braid_send C r s = Some (Inr (msg, n, out), s')" "bm_typ msg \<in> {BNone, BCt1Ack}"
  shows "bm_data msg = []"
proof -
  obtain t where "braid_send_main C r t = Some (Inr (msg, n, out), s')" using assms(1) by (auto simp: braid_send_def rd_simps)
  then show ?thesis using assms(2) unfolding braid_send_main_def
    by (cases "br_agent t") (auto simp: br_msg_def Let_def dest!: send_chunk_typ split: sum.splits prod.splits)
qed

lemma chunk_len: "is_chunk m c \<Longrightarrow> length c = CHUNK_WIRE"
  by (auto simp: is_chunk_def chunk_at_def CHUNK_WIRE_def CHUNK_DATA_def)

lemma msg_wf:
  assumes "braid_send C r s = Some (Inr (msg, n, out), s')" "owner_msg C e a seed msg \<or> peer_msg C e a seed mo msg"
  shows "bm_wf msg \<and> length (bm_data msg) \<le> CHUNK_WIRE"
  using send_none_data [OF assms(1)] assms(2) chunk_len
  by (auto simp: owner_msg_def peer_msg_def bm_wf_def split: braid_type.splits)

lemma owner_send_kind:
  assumes "owner_ok C e a seed mo s" "braid_send C r s = Some (res, s')" "in_ek_sent s'"
  shows "in_ek_sent s"
  using assms by (auto simp: owner_ok_def braid_send_def encaps1_if_needed_def braid_send_main_def send_chunk_def
      in_ek_sent_def Let_def split: agent.splits option.splits prod.splits)

lemma peer_send_kind:
  assumes "peer_ok C e a seed mo s" "braid_send C r s = Some (Inr (msg, n, out), s')" "in_ct2 s \<or> bm_typ msg = BCt2"
  shows "in_ct2 s'"
  using assms by (cases "br_agent s")
    (auto simp: peer_ok_def waiting_ok_def sampled_ok_def braid_send_def encaps1_if_needed_def braid_send_main_def
      send_chunk_def br_msg_def in_ct2_def Let_def split: option.splits prod.splits sum.splits)

lemma peer_recv_kind:
  assumes "in_ct2 s" "br_epoch s < u64_max" "bm_epoch msg = br_epoch s" "braid_receive C s msg = Some (res, s')"
  shows "in_ct2 s'"
proof -
  have "br_epoch s + 1 \<noteq> br_epoch s" by simp
  then show ?thesis using assms braid_receive_current [OF assms(2,3), of C]
    by (auto simp: in_ct2_def recv_agent_def Let_def)
qed

lemma owner_recv_kind:
  assumes "owner_ok C e a seed mo s" "e < u64_max" "bm_epoch msg = e" "braid_receive C s msg = Some (res, s')" "in_ek_sent s'"
  shows "in_ek_sent s \<or> bm_typ msg = BCt2"
proof -
  have "br_epoch s = e" using assms(1) by (simp add: owner_ok_def)
  then have rc: "recv_agent C s msg (saturating_sub e 1) = Some (res, s')"
    using assms(2-4) braid_receive_current [of s msg C] by simp
  show ?thesis
  proof (rule ccontr)
    assume no: "\<not> (in_ek_sent s \<or> bm_typ msg = BCt2)"
    then have "(\<exists>dk t enc. br_agent s = KeysSampled dk t enc) \<or> (\<exists>dk enc dec. br_agent s = HeaderSent dk enc dec) \<or>
        (\<exists>dk ct1 enc. br_agent s = Ct1Received dk ct1 enc)"
      using assms(1) by (cases "br_agent s") (auto simp: owner_ok_def in_ek_sent_def)
    then show False using rc no assms(5)
      by (elim disjE exE) (auto simp: recv_agent_def Let_def in_ek_sent_def split: sum.splits prod.splits option.splits if_splits)
  qed
qed

definition b_says :: "crypto \<Rightarrow> rng \<Rightarrow> braid \<Rightarrow> braid \<Rightarrow> braid_message \<Rightarrow> scka_output option \<Rightarrow> braid \<Rightarrow> braid \<Rightarrow> bool" where
  "b_says C r s t msg out s' t' \<longleftrightarrow> (\<exists>n n'. braid_send C r s = Some (Inr (msg, n, None), s') \<and>
     braid_receive C t msg = Some (Inr (n', out), t')) \<and> bm_wf msg \<and> length (bm_data msg) \<le> CHUNK_WIRE"

lemma owner_turn:
  assumes L: "braid_laws C" and e: "e < u64_max" and p: "run_pair C e a s t"
  shows "\<exists>msg s' t'. b_says C r s t msg None s' t' \<and> run_pair C e a s' t'"
proof -
  obtain seed mo where w: "owner_ok C e a seed mo s" "peer_ok C e a seed mo t" and k: "in_ek_sent s \<Longrightarrow> in_ct2 t"
    using p by (auto simp: run_pair_def)
  obtain msg s' where s: "braid_send C r s = Some (Inr (msg, saturating_sub e 1, None), s')" "owner_msg C e a seed msg"
    "owner_ok C e a seed mo s'" using owner_send [OF w(1)] by blast
  obtain t' where t: "braid_receive C t msg = Some (Inr (saturating_sub e 1, None), t')" "peer_ok C e a seed mo t'"
    using peer_recv [OF L e w(2) s(2)] by blast
  have "br_epoch t = e" using w(2) by (auto simp: peer_ok_def waiting_ok_def sampled_ok_def split: option.splits)
  then have "in_ct2 t'" if "in_ek_sent s'"
    using peer_recv_kind [OF k [OF owner_send_kind [OF w(1) s(1) that]], of msg C] e s(2) t(1) by (simp add: owner_msg_def)
  then show ?thesis using s t msg_wf [OF s(1)] unfolding b_says_def run_pair_def by blast
qed

lemma peer_turn:
  assumes L: "braid_laws C" and e: "e < u64_max" and p: "run_pair C e a t s"
  shows "\<exists>msg out s' t'. b_says C r s t msg out s' t' \<and>
    (out = None \<and> run_pair C e a t' s' \<or> (\<exists>x. out = Some x \<and> b_ahead C e (so_key x) t' s'))"
proof -
  obtain seed mo where w: "owner_ok C e a seed mo t" "peer_ok C e a seed mo s" and k: "in_ek_sent t \<Longrightarrow> in_ct2 s"
    using p by (auto simp: run_pair_def)
  obtain msg s' mo' where s: "braid_send C r s = Some (Inr (msg, saturating_sub e 1, None), s')" "mo = None \<or> mo' = mo"
    "peer_msg C e a seed mo' msg" "peer_ok C e a seed mo' s'" using peer_send [OF L w(2), of r] by blast
  have w': "owner_ok C e a seed mo' t" using w(1) s(2) owner_ok_later by auto
  obtain out t' where t: "braid_receive C t msg = Some (Inr (saturating_sub e 1, out), t')"
    "out = None \<and> owner_ok C e a seed mo' t' \<or>
     (\<exists>m. mo' = Some m \<and> out = Some \<lparr>so_epoch = e, so_key = ep_ss C e seed m\<rparr> \<and>
       idle_peer (e + 1) (ep_auth C e a seed m) t' \<and> (\<exists>dec. br_agent t = EkSentCt1Received seed (ep_ct1 C seed m) dec))"
    using owner_recv [OF L e w' s(3)] by blast
  have says: "b_says C r s t msg out s' t'" using s t(1) msg_wf [OF s(1)] unfolding b_says_def by blast
  from t(2) show ?thesis
  proof
    assume c: "out = None \<and> owner_ok C e a seed mo' t'"
    have "in_ct2 s'" if "in_ek_sent t'"
      using owner_recv_kind [OF w' e _ t(1) that] s(3) k peer_send_kind [OF w(2) s(1)] by (auto simp: peer_msg_def)
    then show ?thesis using c says s(4) unfolding run_pair_def by blast
  next
    assume "\<exists>m. mo' = Some m \<and> out = Some \<lparr>so_epoch = e, so_key = ep_ss C e seed m\<rparr> \<and>
       idle_peer (e + 1) (ep_auth C e a seed m) t' \<and> (\<exists>dec. br_agent t = EkSentCt1Received seed (ep_ct1 C seed m) dec)"
    then obtain m where m: "mo' = Some m" "out = Some \<lparr>so_epoch = e, so_key = ep_ss C e seed m\<rparr>"
       "idle_peer (e + 1) (ep_auth C e a seed m) t'" "in_ek_sent t" by (auto simp: in_ek_sent_def)
    have "in_ct2 s'" using k [OF m(4)] peer_send_kind [OF w(2) s(1)] by blast
    moreover have "sampled_ok C e a seed m s'" using s(4) m(1) by (simp add: peer_ok_def)
    ultimately have "b_ahead C e (ep_ss C e seed m) t' s'" using m(3) unfolding b_ahead_def by blast
    then show ?thesis using says m(2) by (metis scka_output.select_convs(2))
  qed
qed

lemma b_turn:
  assumes L: "braid_laws C" and e: "e < u64_max" and p: "b_pair C e s t"
  obtains msg out s' t' where "b_says C r s t msg out s' t'"
    "out = None \<and> b_pair C e t' s' \<or> (\<exists>x. out = Some x \<and> b_ahead C e (so_key x) t' s')"
proof -
  obtain a where "idle_owner e a s \<and> idle_peer e a t \<or> idle_peer e a s \<and> idle_owner e a t \<or> run_pair C e a s t \<or> run_pair C e a t s"
    using p by (auto simp: b_pair_def)
  then consider "idle_owner e a s" "idle_peer e a t" | "idle_peer e a s" "idle_owner e a t" | "run_pair C e a s t" | "run_pair C e a t s"
    by blast
  then show thesis
  proof cases
    case 1
    obtain seed msg s' where s: "braid_send C r s = Some (Inr (msg, saturating_sub e 1, None), s')"
      "owner_msg C e a seed msg" "owner_ok C e a seed None s'" using idle_owner_send [OF L 1(1)] by blast
    obtain t' where t: "braid_receive C t msg = Some (Inr (saturating_sub e 1, None), t')" "peer_ok C e a seed None t'"
      using peer_recv [OF L e idle_peer_waiting [OF L 1(2)] s(2)] by blast
    have "\<not> in_ek_sent s'" using s(3) by (auto simp: in_ek_sent_def owner_ok_def)
    then have "b_pair C e t' s'" using s t unfolding b_pair_def run_pair_def by blast
    moreover have "b_says C r s t msg None s' t'" using s t(1) msg_wf [OF s(1)] unfolding b_says_def by blast
    ultimately show thesis using that by blast
  next
    case 2
    let ?m = "\<lparr>bm_epoch = e, bm_typ = BNone, bm_data = []\<rparr>"
    have "braid_receive C t ?m = Some (Inr (saturating_sub e 1, None), t)" by (rule idle_owner_recv [OF e 2(2)]) simp
    then have "b_says C r s t ?m None s t" using idle_peer_send [OF 2(1)] by (simp add: b_says_def bm_wf_def)
    moreover have "b_pair C e t s" using 2 unfolding b_pair_def by blast
    ultimately show thesis using that by blast
  next
    case 3
    then show thesis using that owner_turn [OF L e, of a s t r] unfolding b_pair_def by blast
  next
    case 4
    then show thesis using that peer_turn [OF L e, of a t s r] unfolding b_pair_def by blast
  qed
qed

lemma b_catch_up:
  assumes L: "braid_laws C" and e: "e < u64_max" and p: "b_ahead C e ss s t"
  obtains msg t' where "b_says C r s t msg (Some \<lparr>so_epoch = e, so_key = ss\<rparr>) s t'" "b_pair C (e + 1) t' s"
proof -
  obtain a seed m where w: "idle_peer (e + 1) (ep_auth C e a seed m) s" "sampled_ok C e a seed m t" "in_ct2 t" "ss = ep_ss C e seed m"
    using p by (auto simp: b_ahead_def)
  let ?m = "\<lparr>bm_epoch = e + 1, bm_typ = BNone, bm_data = []\<rparr>" and ?t = "\<lparr>br_epoch = e + 1, br_auth = ep_auth C e a seed m, br_agent = KeysUnsampled\<rparr>"
  have "braid_receive C t ?m = Some (Inr (saturating_sub e 1, Some \<lparr>so_epoch = e, so_key = ss\<rparr>), ?t)"
    using w(2-) e checked_succ_u64 [OF e]
    by (auto simp: sampled_ok_def in_ct2_def braid_receive_def recv_agent_def complete_encapsulator_def Let_def)
  then have "b_says C r s t ?m (Some \<lparr>so_epoch = e, so_key = ss\<rparr>) s ?t"
    using idle_peer_send [OF w(1)] by (simp add: b_says_def bm_wf_def)
  moreover have "b_pair C (e + 1) ?t s" using w(1) ep_auth_wf [OF L] unfolding b_pair_def idle_owner_def by blast
  ultimately show thesis using that by blast
qed

subsection \<open>One turn of the conversation\<close>

lemma hybrid_keys:
  assumes "crypto_laws C"
  obtains hk key nonce where "kdf_hybrid C mk qk = Inr hk" "aead_from_hybrid C hk = Inr (key, nonce)" "length key = 32"
proof -
  have l: "lens_ok C" using assms by (simp add: crypto_laws_def)
  obtain hk where hk: "kdf_hybrid C mk qk = Inr hk"
    using hkdf_ok [OF l, of 32 "Some qk" mk TRIPLE_HYBRID] by (auto simp: kdf_hybrid_def)
  obtain okm where "hkdf_extract_expand C (Some zeros32) hk DR_MESSAGE 44 = Inr okm" "length okm = 44"
    using hkdf_ok [OF l, of 44 "Some zeros32" hk DR_MESSAGE] by auto
  then show thesis using that [OF hk, of "take 32 okm" "drop 32 okm"] by (simp add: aead_from_hybrid_def)
qed

lemma triple_encrypt_ok:
  assumes "braid_send C r (t_braid S) = Some (Inr (msg, n, None), b')"
    and "send_message_key C (t_classical S) = (Inr (hc, mk), c')" "q_send_key C (t_spqr S) = (Inr (ep, qn, qk), q')"
    and "kdf_hybrid C mk qk = Inr hk" "aead_from_hybrid C hk = Inr (key, nonce)"
  defines "h \<equiv> \<lparr>th_classical = hc, th_pq_epoch = ep, th_pq_n = qn, th_scka = Some msg\<rparr>"
  assumes "aead_seal C key nonce pt (concat_triple_ad ad h) = Inr ct"
  shows "triple_encrypt C r S pt ad = Some (Inr (h, ct), \<lparr>t_classical = c', t_spqr = q', t_braid = b'\<rparr>)"
  using assms by (cases S) (simp add: triple_encrypt_def on_braid_def on_spqr_def on_classical_def Let_def)

lemma triple_decrypt_ok:
  assumes "dr_wf C (t_classical R)" "trial_scka C R h = Some (Inr pend, R\<lparr>t_spqr := q1, t_braid := b1\<rparr>)"
    and "receive_message_key C r (th_classical h) (t_classical R) = (Inr mk, c1)"
    and "q_receive_key C q1 (th_pq_epoch h) (th_pq_n h) = (Inr qk, q2)"
    and "kdf_hybrid C mk qk = Inr hk" "aead_from_hybrid C hk = Inr (key, nonce)"
    and "aead_open C key nonce ct (concat_triple_ad ad h) = Inr pt"
    and "case pend of None \<Rightarrow> q3 = q2 | Some k \<Rightarrow> \<exists>n. q_advance_epoch C q2 k = Some (Inr n, q3)"
  shows "triple_decrypt C r R h ct ad = Some (Inr pt, \<lparr>t_classical = c1, t_spqr = q3, t_braid = b1\<rparr>)"
proof -
  have "trial_clone C R = R" using assms(1) by (cases R) (simp add: trial_clone_def q_clone_for_trial_def)
  then show ?thesis using assms
    by (cases R; cases pend) (auto simp: triple_decrypt_def trial_decrypt_def on_spqr_def on_classical_def)
qed

definition talk_inv :: "crypto \<Rightarrow> nat \<Rightarrow> bytes \<Rightarrow> bytes \<Rightarrow> triple \<Rightarrow> triple \<Rightarrow> bool" where
  "talk_inv C k x y S R \<longleftrightarrow> dr_turn C x y (t_classical S) (t_classical R) \<and> (\<exists>e. unat e \<le> k + 1 \<and>
     (b_pair C e (t_braid S) (t_braid R) \<and> q_pair k (t_spqr S) (t_spqr R) \<or>
      (\<exists>ss. b_ahead C e ss (t_braid S) (t_braid R) \<and> q_ahead C k ss (t_spqr S) (t_spqr R))))"

text \<open>The post-quantum half of a turn: what the sender's Braid and chain produce is accepted by the
  receiver, and the two are again in step, with the receiver possibly one epoch ahead.\<close>

lemma pq_turn:
  assumes L: "braid_laws C" and k: "k < 2 ^ 32 - 8" "unat e \<le> k + 1"
    and st: "b_pair C e (t_braid S) (t_braid R) \<and> q_pair k (t_spqr S) (t_spqr R) \<or>
      (\<exists>ss. b_ahead C e ss (t_braid S) (t_braid R) \<and> q_ahead C k ss (t_spqr S) (t_spqr R))"
  obtains msg n b' ep qn qk q' pend b1 q1 q2 q3 e' where
    "braid_send C r (t_braid S) = Some (Inr (msg, n, None), b')" "bm_wf msg" "length (bm_data msg) \<le> CHUNK_WIRE"
    "q_send_key C (t_spqr S) = (Inr (ep, qn, qk), q')"
    "\<forall>hc. trial_scka C R \<lparr>th_classical = hc, th_pq_epoch = ep, th_pq_n = qn, th_scka = Some msg\<rparr> =
       Some (Inr pend, R\<lparr>t_spqr := q1, t_braid := b1\<rparr>)"
    "q_receive_key C q1 ep qn = (Inr qk, q2)"
    "case pend of None \<Rightarrow> q3 = q2 | Some k \<Rightarrow> \<exists>n. q_advance_epoch C q2 k = Some (Inr n, q3)"
    "unat e' \<le> k + 3" "b_pair C e' b1 b' \<and> q_pair (k + 2) q3 q' \<or> (\<exists>ss. b_ahead C e' ss b1 b' \<and> q_ahead C (k + 2) ss q3 q')"
proof -
  have l: "lens_ok C" using L by (simp add: braid_laws_def)
  have "unat e < unat u64_max" using k by simp
  then have e: "e < u64_max" by (simp only: word_less_nat_alt)
  from st show thesis
  proof (elim disjE conjE exE)
    assume b: "b_pair C e (t_braid S) (t_braid R)" and q: "q_pair k (t_spqr S) (t_spqr R)"
    obtain msg out b' b1 where t: "b_says C r (t_braid S) (t_braid R) msg out b' b1"
      "out = None \<and> b_pair C e b1 b' \<or> (\<exists>x. out = Some x \<and> b_ahead C e (so_key x) b1 b')"
      using b_turn [OF L e b] by blast
    have k2: "k < 2 ^ 32 - 2" "k + 2 < 2 ^ 32 - 4" using k by simp_all
    from q_turn [OF l q k2(1)] obtain qn qk q' q2 where z: "q_send_key C (t_spqr S) = (Inr (q_next (t_spqr S) - 1, qn, qk), q')"
      "q_receive_key C (t_spqr R) (q_next (t_spqr S) - 1) qn = (Inr qk, q2)"
      "receiving_epoch (t_spqr R) = Some (q_next (t_spqr S) - 1)" "q_pair (Suc k) q' q2"
      by metis
    have z5: "q_pair (k + 2) q2 q'" using q_pair_mono [OF z(4)] q_pair_sym by auto
    from t(2) show thesis
    proof (elim disjE conjE exE)
      assume "out = None" "b_pair C e b1 b'"
      then show thesis
        using that [of msg _ b' _ qn qk q' None b1 "t_spqr R" q2 q2 e] t(1) z(1-3) z5 k
        by (cases R) (auto simp: b_says_def trial_scka_def on_braid_def)
    next
      fix x assume x: "out = Some x" "b_ahead C e (so_key x) b1 b'"
      obtain q3 where q3: "q_advance_epoch C q2 (so_key x) = Some (Inr (q_next q2), q3)" "q_ahead C (k + 2) (so_key x) q3 q'"
        using q_aheadI [OF l z5 k2(2)] by metis
      then have "b_pair C e b1 b' \<and> q_pair (k + 2) q3 q' \<or> (\<exists>ss. b_ahead C e ss b1 b' \<and> q_ahead C (k + 2) ss q3 q')"
        using x(2) by blast
      then show thesis
        using that [of msg _ b' _ qn qk q' "Some (so_key x)" b1 "t_spqr R" q2 q3 e] t(1) z(1-3) x(1) k q3(1)
        by (cases R) (auto simp: b_says_def trial_scka_def on_braid_def)
    qed
  next
    fix ss assume b: "b_ahead C e ss (t_braid S) (t_braid R)" and q: "q_ahead C k ss (t_spqr S) (t_spqr R)"
    have k2: "k < 2 ^ 32 - 4" "Suc k < 2 ^ 32 - 2" using k by simp_all
    obtain msg b1 where t: "b_says C r (t_braid S) (t_braid R) msg (Some \<lparr>so_epoch = e, so_key = ss\<rparr>) (t_braid S) b1"
      "b_pair C (e + 1) b1 (t_braid S)" using b_catch_up [OF L e b] by blast
    obtain q1 where q1: "receiving_epoch (t_spqr R) \<noteq> Some (q_next (t_spqr S) - 1)"
      "q_advance_epoch C (t_spqr R) ss = Some (Inr (q_next (t_spqr R)), q1)" "q_pair (Suc k) (t_spqr S) q1"
      using q_catch_up [OF l q] k2(1) by metis
    from q_turn [OF l q1(3) k2(2)] obtain qn qk q' q2 where z: "q_send_key C (t_spqr S) = (Inr (q_next (t_spqr S) - 1, qn, qk), q')"
      "q_receive_key C q1 (q_next (t_spqr S) - 1) qn = (Inr qk, q2)" "q_pair (Suc (Suc k)) q' q2" by metis
    have "q_pair (k + 2) q2 q'" using q_pair_sym [OF z(3)] by simp
    moreover have "unat (e + 1) \<le> k + 3" using k by (simp add: unat_word_ariths)
    ultimately show thesis
      using that [of msg _ "t_braid S" _ qn qk q' None b1 q1 q2 q2 "e + 1"] t z(1,2) q1
      by (cases R) (auto simp: b_says_def trial_scka_def on_braid_def on_spqr_def)
  qed
qed

lemma talk_step:
  assumes L: "braid_laws C" "crypto_laws C" and t: "talk_inv C k x y S R" and k: "k < 2 ^ 32 - 8"
    and y: "y' = fst (secret_generate C r')" "public_key C y' \<noteq> public_key C y"
  obtains h ct S' R' where "triple_encrypt C r S pt ad = Some (Inr (h, ct), S')" "th_wf h" "length ct = length pt + 16"
    "triple_decrypt C r' R h ct ad = Some (Inr pt, R')" "talk_inv C (k + 2) y' x R' S'"
proof -
  obtain e where d: "dr_turn C x y (t_classical S) (t_classical R)" and e: "unat e \<le> k + 1"
    "b_pair C e (t_braid S) (t_braid R) \<and> q_pair k (t_spqr S) (t_spqr R) \<or>
      (\<exists>ss. b_ahead C e ss (t_braid S) (t_braid R) \<and> q_ahead C k ss (t_spqr S) (t_spqr R))"
    using t by (auto simp: talk_inv_def)
  obtain hc mk c' c1 where c: "send_message_key C (t_classical S) = (Inr (hc, mk), c')"
    "receive_message_key C r' hc (t_classical R) = (Inr mk, c1)" "header_wf hc" "dr_turn C y' x c1 c'"
    using dr_turn_step [OF L(2) d y] by metis
  obtain msg n b' ep qn qk q' pend b1 q1 q2 q3 e' where
    p: "braid_send C r (t_braid S) = Some (Inr (msg, n, None), b')" "bm_wf msg" "length (bm_data msg) \<le> CHUNK_WIRE"
    "q_send_key C (t_spqr S) = (Inr (ep, qn, qk), q')"
    "\<forall>hc. trial_scka C R \<lparr>th_classical = hc, th_pq_epoch = ep, th_pq_n = qn, th_scka = Some msg\<rparr> =
       Some (Inr pend, R\<lparr>t_spqr := q1, t_braid := b1\<rparr>)"
    "q_receive_key C q1 ep qn = (Inr qk, q2)"
    "case pend of None \<Rightarrow> q3 = q2 | Some k \<Rightarrow> \<exists>n. q_advance_epoch C q2 k = Some (Inr n, q3)"
    "unat e' \<le> k + 3" "b_pair C e' b1 b' \<and> q_pair (k + 2) q3 q' \<or> (\<exists>ss. b_ahead C e' ss b1 b' \<and> q_ahead C (k + 2) ss q3 q')"
    by (rule pq_turn [OF L(1) k e, of r]) blast
  let ?h = "\<lparr>th_classical = hc, th_pq_epoch = ep, th_pq_n = qn, th_scka = Some msg\<rparr>"
  obtain hk key nonce where hk: "kdf_hybrid C mk qk = Inr hk" "aead_from_hybrid C hk = Inr (key, nonce)" "length key = 32"
    using hybrid_keys [OF L(2)] by metis
  have a: "aead_correct C" using L(2) by (simp add: crypto_laws_def)
  obtain ct where ct: "aead_seal C key nonce pt (concat_triple_ad ad ?h) = Inr ct" using aead_seal_total [OF a hk(3)] by metis
  have len: "length ct = length pt + 16" using a ct by (rule aead_seal_len)
  have "th_wf ?h" using c(3) p(2,3) by (simp add: th_wf_def bm_encode_def CHUNK_WIRE_def CHUNK_DATA_def)
  moreover have "dr_wf C (t_classical R)" using d by (simp add: dr_turn_def)
  moreover have "talk_inv C (k + 2) y' x \<lparr>t_classical = c1, t_spqr = q3, t_braid = b1\<rparr> \<lparr>t_classical = c', t_spqr = q', t_braid = b'\<rparr>"
    unfolding talk_inv_def using c(4) p(8,9) by (intro conjI exI [of _ e']) simp_all
  ultimately show thesis
    using that [OF triple_encrypt_ok [OF p(1) c(1) p(4) hk(1,2) ct] _ len
        triple_decrypt_ok [OF _ p(5) [rule_format, of hc], of r' mk c1 qk q2 hk key nonce ct ad pt q3]]
      c(2) p(6,7) hk(1,2) aead_open_seal [OF a hk(3) ct]
    by auto
qed

subsection \<open>Conversations\<close>

text \<open>\<open>S\<close> encrypts the first message of the list, the header goes over the wire as bytes, \<open>R\<close>
  decrypts, and then it is the turn of \<open>R\<close>. Each entry has what the random generators of the
  two parties deliver, the plaintext and the associated data.\<close>

fun triple_talk :: "crypto \<Rightarrow> (rng \<times> rng \<times> bytes \<times> bytes) list \<Rightarrow> triple \<Rightarrow> triple \<Rightarrow> bytes list option" where
  "triple_talk C [] S R = Some []"
| "triple_talk C ((r, r', pt, ad) # ms) S R =
     (case triple_encrypt C r S pt ad of
        Some (Inr (h, ct), S') \<Rightarrow>
          (case th_decode (th_encode h) of
             Inl _ \<Rightarrow> None
           | Inr h' \<Rightarrow>
               (case triple_decrypt C r' R h' ct ad of
                  Some (Inr p, R') \<Rightarrow> map_option (\<lambda>ps. p # ps) (triple_talk C ms R' S')
                | _ \<Rightarrow> None))
      | _ \<Rightarrow> None)"

text \<open>No party draws the same key pair twice in a row; \<open>p\<close> is the receiver's public key, \<open>q\<close> the
  sender's.\<close>

fun fresh_keys :: "crypto \<Rightarrow> bytes \<Rightarrow> bytes \<Rightarrow> (rng \<times> rng \<times> bytes \<times> bytes) list \<Rightarrow> bool" where
  "fresh_keys C p q [] = True"
| "fresh_keys C p q ((r, r', pt, ad) # ms) =
     (let y = public_key C (fst (secret_generate C r')) in y \<noteq> p \<and> fresh_keys C q y ms)"

lemma talk_run:
  assumes "braid_laws C" "crypto_laws C" "talk_inv C k x y S R" "k + 2 * length ms < 2 ^ 32 - 8"
    and "fresh_keys C (public_key C y) (public_key C x) ms"
  shows "triple_talk C ms S R = Some (map (\<lambda>(r, r', pt, ad). pt) ms)"
  using assms(3-)
proof (induction ms arbitrary: k x y S R)
  case (Cons m ms)
  obtain r r' pt ad where m: "m = (r, r', pt, ad)" by (cases m)
  have k: "k < 2 ^ 32 - 8" using Cons(3) by simp
  have f: "public_key C (fst (secret_generate C r')) \<noteq> public_key C y"
    "fresh_keys C (public_key C x) (public_key C (fst (secret_generate C r'))) ms"
    using Cons(4) m by (simp_all add: Let_def)
  from talk_step [OF assms(1,2) Cons(2) k refl f(1)] obtain h ct S' R' where
    s: "triple_encrypt C r S pt ad = Some (Inr (h, ct), S')" "th_wf h"
    "triple_decrypt C r' R h ct ad = Some (Inr pt, R')" "talk_inv C (k + 2) (fst (secret_generate C r')) x R' S'" by metis
  have "triple_talk C ms R' S' = Some (map (\<lambda>(r, r', pt, ad). pt) ms)"
    using Cons(3) by (intro Cons(1) [OF s(4) _ f(2)]) simp
  with s thc.roundtrip [OF s(2)] show ?case by (simp add: m)
qed simp

lemma dr_start:
  assumes L: "crypto_laws C" and y: "length y = 32" "static_secret C y = y" and ec: "length ec = 32"
  obtains a where "fst (init_alice C r0 ec (public_key C y) DEFAULT_MAX_SKIP) = Inr a"
    "dr_turn C (fst (secret_generate C r0)) y a (init_bob ec y DEFAULT_MAX_SKIP)"
proof -
  have l: "lens_ok C" "secret_stable C" "dh_commutes C" "xpub_ok C" using L by (simp_all add: crypto_laws_def)
  define x where "x = fst (secret_generate C r0)"
  obtain rk0 ck where k: "kdf_rk C ec (diffie_hellman C x (public_key C y)) = Inr (rk0, ck)" using kdf_rk_total [OF l(1)] by blast
  let ?a = "\<lparr>dhs = Some x, dhr = Some (public_key C y), rk = rk0, cks = Some ck, ckr = None,
      ns = 0, nr = 0, pn = 0, mkskipped = [], max_skip = DEFAULT_MAX_SKIP\<rparr>" and ?b = "init_bob ec y DEFAULT_MAX_SKIP"
  have a: "fst (init_alice C r0 ec (public_key C y) DEFAULT_MAX_SKIP) = Inr ?a"
    using k by (cases "secret_generate C r0") (simp add: init_alice_def x_def)
  have "dr_wf C ?a" using init_alice_wf [OF l(1,2) public_key_len [OF l(1)] public_key_nonzero [OF l(4)] a] .
  moreover have "dr_wf C ?b" using y ec by (intro init_bob_wf) simp_all
  ultimately have "dr_turn C x y ?a ?b" using k dh_agree [OF l(3), of x y] by (simp add: dr_turn_def init_bob_def)
  then show thesis using that a unfolding x_def by blast
qed

lemma dr_encrypt_sends:
  "dr_encrypt C s pt ad = sbind (send_message_key C s) (\<lambda>(h, mk) s.
     sbind (aead_from_mk C mk, s) (\<lambda>(key, nonce) s.
     sbind (aead_seal C key nonce pt (concat_ad ad h), s) (\<lambda>ct s. (Inr (h, ct), s))))"
  by (cases "ratchet_send_key C s"; cases "fst (ratchet_send_key C s)")
     (auto simp: dr_encrypt_def send_message_key_def Let_def ok_or_def split: option.split)

lemma dr_first_message:
  assumes L: "crypto_laws C" and y: "length y = 32" "static_secret C y = y" "length sk = 32"
    and ne: "public_key C (fst (secret_generate C r2)) \<noteq> public_key C y"
  obtains a where "fst (init_alice C r0 sk (public_key C y) DEFAULT_MAX_SKIP) = Inr a" "dr_wf C a"
    "dr_wf C (init_bob sk y DEFAULT_MAX_SKIP)"
    "\<forall>pt ad. \<exists>h ct a' b'. dr_encrypt C a pt ad = (Inr (h, ct), a') \<and>
       dr_decrypt C r2 (init_bob sk y DEFAULT_MAX_SKIP) h ct ad = (Inr pt, b') \<and> header_wf h \<and> length ct = length pt + 16"
proof -
  have l: "lens_ok C" "aead_correct C" using L by (simp_all add: crypto_laws_def)
  let ?b = "init_bob sk y DEFAULT_MAX_SKIP"
  obtain a where a: "fst (init_alice C r0 sk (public_key C y) DEFAULT_MAX_SKIP) = Inr a"
    "dr_turn C (fst (secret_generate C r0)) y a ?b" using dr_start [OF L y] by metis
  have wf: "dr_wf C a" "dr_wf C ?b" using a(2) by (simp_all add: dr_turn_def)
  obtain h mk a' b' where s: "send_message_key C a = (Inr (h, mk), a')" "receive_message_key C r2 h ?b = (Inr mk, b')" "header_wf h"
    using dr_turn_step [OF L a(2) refl ne] by metis
  obtain key nonce where k: "aead_from_mk C mk = Inr (key, nonce)" "length key = 32"
    using aead_from_mk_total [OF l(1), of mk] by metis
  have "\<exists>h ct a' b'. dr_encrypt C a pt ad = (Inr (h, ct), a') \<and> dr_decrypt C r2 ?b h ct ad = (Inr pt, b') \<and>
      header_wf h \<and> length ct = length pt + 16" for pt ad
  proof -
    obtain ct where "aead_seal C key nonce pt (concat_ad ad h) = Inr ct" "length ct = length pt + 16"
      "aead_open C key nonce ct (concat_ad ad h) = Inr pt" using aead_roundtrip [OF l(2) k(2)] by metis
    then show ?thesis
      using s k wf by (intro exI [of _ h] exI [of _ ct]) (simp add: dr_encrypt_sends dr_decrypt_def receive_message_key_def)
  qed
  then show thesis using that a(1) wf by blast
qed

lemma talk_start:
  assumes L: "braid_laws C" "crypto_laws C" and y: "length y = 32" "static_secret C y = y"
  obtains A B where "triple_init_alice C r0 sk (public_key C y) = Some (Inr A)" "triple_init_bob C sk y = Some (Inr B)"
    "talk_inv C 0 (fst (secret_generate C r0)) y A B" "q_pair 0 (t_spqr A) (t_spqr B)"
    "\<exists>a. idle_owner 1 a (t_braid A) \<and> idle_peer 1 a (t_braid B)"
proof -
  have l: "lens_ok C" using L(2) by (simp add: crypto_laws_def)
  obtain okm where okm: "hkdf_extract_expand C None sk TRIPLE_HYBRID 64 = Inr okm" "length okm = 64"
    using hkdf_ok [OF l, of 64 None sk TRIPLE_HYBRID] by auto
  define ec pq x where "ec = take 32 okm" and "pq = drop 32 okm" and "x = fst (secret_generate C r0)"
  have sp: "split_sk C sk = Inr (ec, pq)" using okm by (simp add: split_sk_def ec_def pq_def)
  have "length ec = 32" using okm by (simp add: ec_def)
  from dr_start [OF L(2) y this] obtain ca where a: "fst (init_alice C r0 ec (public_key C y) DEFAULT_MAX_SKIP) = Inr ca"
    and dr: "dr_turn C x y ca (init_bob ec y DEFAULT_MAX_SKIP)" unfolding x_def by metis
  let ?q = "q_init pq SPQR_MAX_SKIP_EPOCHS"
  have "unat (1 :: u32) < 2 ^ 32 - 1" by simp
  from q_advance_eq [OF l this, of pq pq] obtain rt ch where c0: "c_epoch ch = 1" "c_n ch = 0"
    "\<And>s. q_root s = pq \<Longrightarrow> q_next s = 1 \<Longrightarrow> q_skipped s = [] \<Longrightarrow> q_advance_epoch C s pq =
       Some (Inr 1, s\<lparr>q_next := 1 + 1, q_root := rt, q_sending := Some ch, q_receiving := Some ch\<rparr>)" by metis
  have "q_root ?q = pq" "q_next ?q = 1" "q_skipped ?q = []" by (simp_all add: q_init_def)
  note ch = c0(1,2) c0(3) [OF this]
  let ?q' = "?q\<lparr>q_next := 1 + 1, q_root := rt, q_sending := Some ch, q_receiving := Some ch\<rparr>"
  have q: "q_pair 0 ?q' ?q'" using ch(1,2) by (simp add: q_pair_def q_init_def)
  obtain u where u: "auth_init C 1 pq = Inr u" "auth_wf u" using auth_init_ok [OF l] by blast
  let ?A = "\<lparr>t_classical = ca, t_spqr = ?q', t_braid = \<lparr>br_epoch = 1, br_auth = u, br_agent = KeysUnsampled\<rparr>\<rparr>"
  let ?B = "\<lparr>t_classical = init_bob ec y DEFAULT_MAX_SKIP, t_spqr = ?q', t_braid = \<lparr>br_epoch = 1, br_auth = u,
    br_agent = NoHeaderReceived (decoder_new (HEADER_SIZE + MAC_SIZE))\<rparr>\<rparr>"
  have idle: "\<exists>a. idle_owner 1 a (t_braid ?A) \<and> idle_peer 1 a (t_braid ?B)"
    by (rule exI [of _ u]) (simp add: idle_owner_def idle_peer_def u)
  then have "b_pair C 1 (t_braid ?A) (t_braid ?B)" unfolding b_pair_def by blast
  then have "talk_inv C 0 x y ?A ?B" unfolding talk_inv_def using dr q by (intro conjI exI [of _ 1]) simp_all
  moreover have "triple_init_alice C r0 sk (public_key C y) = Some (Inr ?A)"
    using ch(3) u a by (simp add: triple_init_alice_def sp braid_init_alice_def)
  moreover have "triple_init_bob C sk y = Some (Inr ?B)"
    using ch(3) u by (simp add: triple_init_bob_def sp braid_init_bob_def)
  ultimately show thesis using that [of ?A ?B] idle q unfolding x_def by simp
qed

lemma trial_scka_classical: "trial_scka C t h = Some (res, t') \<Longrightarrow> t_classical t' = t_classical t"
  by (auto simp: trial_scka_def on_braid_def on_spqr_def pbind_def split: option.splits sum.splits if_splits)

text \<open>A message of an epoch whose chain the receiver does not have.\<close>

lemma missing_pq_key:
  assumes "receiving_epoch (t_spqr t) \<noteq> Some (th_pq_epoch h)" "hm_get (q_skipped (t_spqr t)) (th_pq_epoch h, th_pq_n h) = None"
    and s: "trial_scka C (trial_clone C t) h = Some (Inr None, trial_clone C t)"
  shows "\<exists>e. triple_decrypt C r t h ct ad = Some (Inl e, t)"
proof -
  let ?t = "trial_clone C t"
  have t: "t_spqr ?t = t_spqr t" by (simp add: trial_clone_def q_clone_for_trial_def)
  have "\<exists>e. q_receive_key C (t_spqr t) (th_pq_epoch h) (th_pq_n h) = (Inl e, t_spqr t)"
    using assms(1,2) by (auto simp: q_receive_key_def receiving_epoch_def split: option.splits)
  then obtain e where q: "q_receive_key C (t_spqr t) (th_pq_epoch h) (th_pq_n h) = (Inl e, t_spqr t)" ..
  obtain res c where c: "receive_message_key C r (th_classical h) (t_classical ?t) = (res, c)"
    by (cases "receive_message_key C r (th_classical h) (t_classical ?t)")
  have "\<exists>e' t'. trial_decrypt C r ?t h ct ad = Some (Inl e', t')"
    using s q c t by (cases res) (simp_all add: trial_decrypt_def on_classical_def on_spqr_def)
  then show ?thesis by (auto simp: triple_decrypt_def)
qed

subsection \<open>A concrete pair\<close>

lemma braid_crypto_dr: "secret_stable braid_crypto" "dh_commutes braid_crypto" "xpub_ok braid_crypto" "aead_correct braid_crypto"
  using plain_stable plain_dh plain_xpub plain_aead
  by (simp_all add: secret_stable_def dh_commutes_def xpub_ok_def aead_correct_def braid_crypto_def)

lemma braid_crypto_keys [simp]:
  "public_key braid_crypto = public_key plain_crypto" "secret_generate braid_crypto = secret_generate plain_crypto"
  "static_secret braid_crypto = static_secret plain_crypto"
  by (simp_all add: fun_eq_iff public_key_def secret_generate_def braid_crypto_def)

subsection \<open>Properties\<close>

text \<open>C11: the Triple Ratchet works end to end. After \<open>init_alice\<close> and \<open>init_bob\<close> on the same
  secret, two parties that take turns read every message of the conversation, whatever the
  random generators deliver (as long as nobody draws the same key pair twice in a row), through
  every DH step, every Braid exchange and every change of the post-quantum epoch, for up to
  2^31 - 8 messages; the headers are encoded and decoded on the way.\<close>

theorem triple_conversation:
  assumes "braid_laws C" "lens_ok C" "secret_stable C" "dh_commutes C" "xpub_ok C" "aead_correct C"
    and "length y = 32" "static_secret C y = y" "length ms < 2 ^ 31 - 8"
    and "fresh_keys C (public_key C y) (public_key C (fst (secret_generate C r0))) ms"
  shows "\<exists>A B. triple_init_alice C r0 sk (public_key C y) = Some (Inr A) \<and> triple_init_bob C sk y = Some (Inr B) \<and>
    triple_talk C ms A B = Some (map (\<lambda>(r, r', pt, ad). pt) ms)"
proof -
  have L: "crypto_laws C" using assms(2-6) by (simp add: crypto_laws_def)
  obtain A B where i: "triple_init_alice C r0 sk (public_key C y) = Some (Inr A)" "triple_init_bob C sk y = Some (Inr B)"
    "talk_inv C 0 (fst (secret_generate C r0)) y A B" using talk_start [OF assms(1) L assms(7,8)] by metis
  have "triple_talk C ms A B = Some (map (\<lambda>(r, r', pt, ad). pt) ms)"
    using assms(9) by (intro talk_run [OF assms(1) L i(3) _ assms(10)]) simp
  with i show ?thesis by blast
qed

theorem triple_conversation_witness:
  "\<exists>A B. triple_init_alice braid_crypto (\<lambda>_. 5) [7] (public_key braid_crypto (replicate 32 9)) = Some (Inr A) \<and>
     triple_init_bob braid_crypto [7] (replicate 32 9) = Some (Inr B) \<and>
     triple_talk braid_crypto [(\<lambda>_. 0, \<lambda>_. 1, [10], []), (\<lambda>_. 0, \<lambda>_. 2, [11], [3]), (\<lambda>_. 4, \<lambda>_. 3, [], [3])] A B =
       Some [[10], [11], []]"
proof -
  let ?ms = "[(\<lambda>_. 0, \<lambda>_. 1, [10], []), (\<lambda>_. 0, \<lambda>_. 2, [11], [3]), (\<lambda>_. 4, \<lambda>_. 3, [], [3])] :: (rng \<times> rng \<times> bytes \<times> bytes) list"
  have g: "fst (secret_generate plain_crypto (\<lambda>_. x)) = replicate 32 x" for x
    by (simp add: secret_generate_def fill_random_def plain_simps map_replicate_const)
  have "fresh_keys braid_crypto (public_key braid_crypto (replicate 32 9))
      (public_key braid_crypto (fst (secret_generate braid_crypto (\<lambda>_. 5)))) ?ms"
    by (simp add: g Let_def public_key_def plain_simps fit_def)
  from triple_conversation [OF braid_crypto_laws _ braid_crypto_dr _ _ _ this, of "[7]"]
  show ?thesis using braid_crypto_laws by (simp add: braid_laws_def plain_simps)
qed

lemma spqr_then:
  "pbind (on_spqr t x) (\<lambda>_ t. Some (Inr v, t)) = Some (Inr w, t1) \<longleftrightarrow> w = v \<and> (\<exists>n q. x = Some (Inr n, q) \<and> t1 = t\<lparr>t_spqr := q\<rparr>)"
  by (auto simp: pbind_Inr_iff on_spqr_def)

lemma trial_clone_parts:
  "t_classical (trial_clone C t) = clone_for_trial C (t_classical t)" "t_spqr (trial_clone C t) = t_spqr t"
  "t_braid (trial_clone C t) = t_braid t"
  by (simp_all add: trial_clone_def q_clone_for_trial_def)

text \<open>The Braid part of a header, on the trial copy: what the Braid makes of the message, and whether the key
  it yields opens the header's epoch before the message is read or the next one afterwards.\<close>

lemma trial_scka_iff:
  "trial_scka C t h = Some (Inr pend, t1) \<longleftrightarrow> (\<exists>out b q.
     (case th_scka h of None \<Rightarrow> out = None \<and> b = t_braid t
      | Some msg \<Rightarrow> \<exists>n. braid_receive C (t_braid t) msg = Some (Inr (n, out), b)) \<and>
     (case out of None \<Rightarrow> pend = None \<and> q = t_spqr t
      | Some x \<Rightarrow> if receiving_epoch (t_spqr t) \<noteq> Some (th_pq_epoch h)
          then pend = None \<and> (\<exists>n. q_advance_epoch C (t_spqr t) (so_key x) = Some (Inr n, q))
          else pend = Some (so_key x) \<and> q = t_spqr t) \<and>
     t1 = t\<lparr>t_spqr := q, t_braid := b\<rparr>)"
proof (cases "th_scka h")
  case None
  then show ?thesis by (auto simp: trial_scka_def)
next
  case (Some msg)
  show ?thesis
  proof (cases "\<exists>n out b. braid_receive C (t_braid t) msg = Some (Inr (n, out), b)")
    case True
    then obtain n out b where r: "braid_receive C (t_braid t) msg = Some (Inr (n, out), b)" by blast
    show ?thesis
    proof (cases out)
      case (Some x)
      with r \<open>th_scka h = Some msg\<close> show ?thesis by (cases t) (auto simp: trial_scka_def on_braid_def spqr_then)
    qed (use r Some in \<open>auto simp: trial_scka_def on_braid_def\<close>)
  next
    case False
    with Some show ?thesis by (auto simp: trial_scka_def on_braid_def pbind_def split: option.splits sum.splits)
  qed
qed

lemma triple_reads:
  assumes "triple_decrypt C r t h ct ad = Some (Inr pt, t')"
  shows "(\<exists>out q1 q2 ec_mk pq_mk hk key nonce.
       (case th_scka h of None \<Rightarrow> out = None \<and> t_braid t' = t_braid t
        | Some msg \<Rightarrow> \<exists>n. braid_receive C (t_braid t) msg = Some (Inr (n, out), t_braid t')) \<and>
       receive_message_key C r (th_classical h) (clone_for_trial C (t_classical t)) = (Inr ec_mk, t_classical t') \<and>
       q_receive_key C q1 (th_pq_epoch h) (th_pq_n h) = (Inr pq_mk, q2) \<and>
       (case out of None \<Rightarrow> q1 = t_spqr t \<and> t_spqr t' = q2
        | Some x \<Rightarrow> if receiving_epoch (t_spqr t) \<noteq> Some (th_pq_epoch h)
            then (\<exists>n. q_advance_epoch C (t_spqr t) (so_key x) = Some (Inr n, q1)) \<and> t_spqr t' = q2
            else q1 = t_spqr t \<and> (\<exists>n. q_advance_epoch C q2 (so_key x) = Some (Inr n, t_spqr t'))) \<and>
       kdf_hybrid C ec_mk pq_mk = Inr hk \<and> aead_from_hybrid C hk = Inr (key, nonce) \<and>
       aead_open C key nonce ct (concat_triple_ad ad h) = Inr pt)"
proof -
  have "trial_decrypt C r (trial_clone C t) h ct ad = Some (Inr pt, t')"
    using assms by (auto simp: triple_decrypt_def split: option.splits sum.splits)
  then obtain pend t1 ec_mk t2 pq_mk t3 hk kn where
    s: "trial_scka C (trial_clone C t) h = Some (Inr pend, t1)"
    and c: "on_classical t1 (receive_message_key C r (th_classical h) (t_classical t1)) = Some (Inr ec_mk, t2)"
    and q: "on_spqr t2 (Some (q_receive_key C (t_spqr t2) (th_pq_epoch h) (th_pq_n h))) = Some (Inr pq_mk, t3)"
    and k: "kdf_hybrid C ec_mk pq_mk = Inr hk" "aead_from_hybrid C hk = Inr kn"
      "aead_open C (fst kn) (snd kn) ct (concat_triple_ad ad h) = Inr pt"
    and p: "(case pend of Some k \<Rightarrow> pbind (on_spqr t3 (q_advance_epoch C (t_spqr t3) k)) (\<lambda>_ t. Some (Inr (), t))
            | None \<Rightarrow> Some (Inr (), t3)) = Some (Inr (), t')"
    unfolding trial_decrypt_def case_prod_beta pbind_Inr_iff by auto
  obtain out b q where o: "case th_scka h of None \<Rightarrow> out = None \<and> b = t_braid t
      | Some msg \<Rightarrow> \<exists>n. braid_receive C (t_braid t) msg = Some (Inr (n, out), b)"
    "case out of None \<Rightarrow> pend = None \<and> q = t_spqr t
      | Some x \<Rightarrow> if receiving_epoch (t_spqr t) \<noteq> Some (th_pq_epoch h)
        then pend = None \<and> (\<exists>n. q_advance_epoch C (t_spqr t) (so_key x) = Some (Inr n, q))
        else pend = Some (so_key x) \<and> q = t_spqr t"
    "t1 = (trial_clone C t)\<lparr>t_spqr := q, t_braid := b\<rparr>"
    using s unfolding trial_scka_iff trial_clone_parts by blast
  have t3: "receive_message_key C r (th_classical h) (clone_for_trial C (t_classical t)) = (Inr ec_mk, t_classical t3)"
    "q_receive_key C q (th_pq_epoch h) (th_pq_n h) = (Inr pq_mk, t_spqr t3)" "t_braid t3 = b"
    using c q o(3) by (auto simp: on_classical_def on_spqr_def trial_clone_parts split: prod.splits)
  have t': "t_classical t' = t_classical t3" "t_braid t' = b"
    "case pend of None \<Rightarrow> t_spqr t' = t_spqr t3 | Some k \<Rightarrow> \<exists>n. q_advance_epoch C (t_spqr t3) k = Some (Inr n, t_spqr t')"
    using p t3(3) by (cases pend; simp add: spqr_then; elim exE conjE; simp)+
  have "case out of None \<Rightarrow> q = t_spqr t \<and> t_spqr t' = t_spqr t3
      | Some x \<Rightarrow> if receiving_epoch (t_spqr t) \<noteq> Some (th_pq_epoch h)
          then (\<exists>n. q_advance_epoch C (t_spqr t) (so_key x) = Some (Inr n, q)) \<and> t_spqr t' = t_spqr t3
          else q = t_spqr t \<and> (\<exists>n. q_advance_epoch C (t_spqr t3) (so_key x) = Some (Inr n, t_spqr t'))"
    using o(2) t'(3) by (cases out) (auto split: if_splits)
  moreover have "aead_from_hybrid C hk = Inr (fst kn, snd kn)" using k(2) by simp
  moreover have "receive_message_key C r (th_classical h) (clone_for_trial C (t_classical t)) = (Inr ec_mk, t_classical t')"
    unfolding t'(1) by (rule t3(1))
  ultimately show ?thesis
    using o(1) [folded t'(2)] t3(2) k(1,3) by (intro exI conjI) assumption+
qed

lemma triple_reads_if:
  assumes b: "case th_scka h of None \<Rightarrow> out = None \<and> t_braid t' = t_braid t
      | Some msg \<Rightarrow> \<exists>n. braid_receive C (t_braid t) msg = Some (Inr (n, out), t_braid t')"
    and c: "receive_message_key C r (th_classical h) (clone_for_trial C (t_classical t)) = (Inr ec_mk, t_classical t')"
    and q: "q_receive_key C q1 (th_pq_epoch h) (th_pq_n h) = (Inr pq_mk, q2)"
    and o: "case out of None \<Rightarrow> q1 = t_spqr t \<and> t_spqr t' = q2
      | Some x \<Rightarrow> if receiving_epoch (t_spqr t) \<noteq> Some (th_pq_epoch h)
          then (\<exists>n. q_advance_epoch C (t_spqr t) (so_key x) = Some (Inr n, q1)) \<and> t_spqr t' = q2
          else q1 = t_spqr t \<and> (\<exists>n. q_advance_epoch C q2 (so_key x) = Some (Inr n, t_spqr t'))"
    and k: "kdf_hybrid C ec_mk pq_mk = Inr hk" "aead_from_hybrid C hk = Inr (key, nonce)"
      "aead_open C key nonce ct (concat_triple_ad ad h) = Inr pt"
  shows "triple_decrypt C r t h ct ad = Some (Inr pt, t')"
proof -
  define pend where "pend = (case out of None \<Rightarrow> None
    | Some x \<Rightarrow> if receiving_epoch (t_spqr t) \<noteq> Some (th_pq_epoch h) then None else Some (so_key x))"
  let ?t1 = "(trial_clone C t)\<lparr>t_spqr := q1, t_braid := t_braid t'\<rparr>"
  have "case out of None \<Rightarrow> pend = None \<and> q1 = t_spqr t
      | Some x \<Rightarrow> if receiving_epoch (t_spqr t) \<noteq> Some (th_pq_epoch h)
        then pend = None \<and> (\<exists>n. q_advance_epoch C (t_spqr t) (so_key x) = Some (Inr n, q1))
        else pend = Some (so_key x) \<and> q1 = t_spqr t"
    using o by (cases out) (auto simp: pend_def)
  then have s: "trial_scka C (trial_clone C t) h = Some (Inr pend, ?t1)"
    unfolding trial_scka_iff trial_clone_parts using b by (intro exI conjI) (assumption+, rule refl)
  have adv: "case pend of None \<Rightarrow> t_spqr t' = q2 | Some k \<Rightarrow> \<exists>n. q_advance_epoch C q2 k = Some (Inr n, t_spqr t')"
    using o by (cases out) (auto simp: pend_def)
  have c1: "on_classical ?t1 (receive_message_key C r (th_classical h) (t_classical ?t1)) =
      Some (Inr ec_mk, ?t1\<lparr>t_classical := t_classical t'\<rparr>)" using c by (simp add: on_classical_def trial_clone_parts)
  have "(case pend of Some k \<Rightarrow> pbind (on_spqr u (q_advance_epoch C (t_spqr u) k)) (\<lambda>_ t. Some (Inr (), t))
      | None \<Rightarrow> Some (Inr (), u)) = Some (Inr (), t')"
    if "u = \<lparr>t_classical = t_classical t', t_spqr = q2, t_braid = t_braid t'\<rparr>" for u
    using adv that by (cases pend; cases t') (auto simp: on_spqr_def)
  then have "trial_decrypt C r (trial_clone C t) h ct ad = Some (Inr pt, t')"
    using s c1 q k by (simp add: trial_decrypt_def on_spqr_def trial_clone_def)
  then show ?thesis by (simp add: triple_decrypt_def)
qed


subsection \<open>Two messages in a row\<close>

text \<open>The states after a conversation: the next speaker and the next listener.\<close>

fun talk_end :: "crypto \<Rightarrow> (rng \<times> rng \<times> bytes \<times> bytes) list \<Rightarrow> triple \<Rightarrow> triple \<Rightarrow> (triple \<times> triple) option" where
  "talk_end C [] S R = Some (S, R)"
| "talk_end C ((r, r', pt, ad) # ms) S R =
     (case triple_encrypt C r S pt ad of
        Some (Inr (h, ct), S') \<Rightarrow>
          (case triple_decrypt C r' R h ct ad of
             Some (Inr p, R') \<Rightarrow> talk_end C ms R' S'
           | _ \<Rightarrow> None)
      | _ \<Rightarrow> None)"

lemma talk_end_inv:
  assumes "braid_laws C" "crypto_laws C" "talk_inv C k x y S R" "k + 2 * length ms < 2 ^ 32 - 8"
    and "fresh_keys C (public_key C y) (public_key C x) (ms @ ms')"
  obtains x' y' S' R' where "talk_end C ms S R = Some (S', R')" "talk_inv C (k + 2 * length ms) x' y' S' R'"
    "fresh_keys C (public_key C y') (public_key C x') ms'"
  using assms(3-)
proof (induction ms arbitrary: k x y S R thesis)
  case Nil
  then show ?case by simp
next
  case (Cons m ms)
  obtain r r' pt ad where m: "m = (r, r', pt, ad)" by (cases m)
  have k: "k < 2 ^ 32 - 8" "(k + 2) + 2 * length ms < 2 ^ 32 - 8" using Cons.prems(3) by simp_all
  have f: "public_key C (fst (secret_generate C r')) \<noteq> public_key C y"
    "fresh_keys C (public_key C x) (public_key C (fst (secret_generate C r'))) (ms @ ms')"
    using Cons.prems(4) m by (simp_all add: Let_def)
  obtain h ct S' R' where
    s: "triple_encrypt C r S pt ad = Some (Inr (h, ct), S')" "triple_decrypt C r' R h ct ad = Some (Inr pt, R')"
      "talk_inv C (k + 2) (fst (secret_generate C r')) x R' S'"
    by (rule talk_step [OF assms(1,2) Cons.prems(2) k(1) refl f(1)])
  show ?case
    by (rule Cons.IH [OF _ s(3) k(2) f(2)], rule Cons.prems(1)) (use s m in \<open>simp_all add: algebra_simps\<close>)
qed

definition talk_even :: "crypto \<Rightarrow> nat \<Rightarrow> triple \<Rightarrow> triple \<Rightarrow> bool" where
  "talk_even C k S R \<longleftrightarrow> (\<exists>e. unat e \<le> k + 1 \<and> b_pair C e (t_braid S) (t_braid R)) \<and> q_pair k (t_spqr S) (t_spqr R)"

definition talk_ahead :: "crypto \<Rightarrow> nat \<Rightarrow> triple \<Rightarrow> triple \<Rightarrow> bool" where
  "talk_ahead C k S R \<longleftrightarrow> (\<exists>e ss. unat e \<le> k + 1 \<and> b_ahead C e ss (t_braid S) (t_braid R) \<and> q_ahead C k ss (t_spqr S) (t_spqr R))"

lemma talk_inv_cases: "talk_inv C k x y S R \<Longrightarrow> talk_even C k S R \<or> talk_ahead C k S R"
  by (auto simp: talk_inv_def talk_even_def talk_ahead_def)

text \<open>What an encryption leaves: the epoch in the header is that of the sending chain.\<close>

lemma encrypt_parts:
  assumes "triple_encrypt C r S pt ad = Some (Inr (h, ct), S')" "braid_send C r (t_braid S) = Some (Inr (msg, n, None), b')"
  shows "th_scka h = Some msg" "t_braid S' = b'"
    "\<exists>mk. send_message_key C (t_classical S) = (Inr (th_classical h, mk), t_classical S')"
    "\<exists>mk. q_send_key C (t_spqr S) = (Inr (th_pq_epoch h, th_pq_n h, mk), t_spqr S')"
  using assms
  by (auto simp: triple_encrypt_def on_braid_def on_spqr_def on_classical_def pbind_Inr_iff Let_def split: prod.splits)

lemma q_send_epoch:
  assumes "q_send_key C q = (Inr (ep, n, mk), q')"
  shows "\<exists>ch. q_sending q = Some ch \<and> c_epoch ch = ep" "\<exists>ch. q_sending q' = Some ch \<and> c_epoch ch = ep"
  using assms by (auto simp: q_send_key_def sbind_Inr_iff Let_def)

lemma send_again:
  assumes "send_message_key C s = (Inr (h, mk), s')" "unat (ns s') + 1 < 2 ^ 32"
  shows "\<exists>h2 mk2 s2. send_message_key C s' = (Inr (h2, mk2), s2)"
proof -
  have "checked_inc (ns s') = Inr (ns s' + 1)" using assms(2) by (simp add: checked_inc_iff)
  with assms(1) show ?thesis
    by (auto simp: send_message_key_def sbind_Inr_iff ratchet_send_key_eq split: option.splits sum.splits)
qed

text \<open>The listener is in the epoch of the message it read exactly when nobody is ahead.\<close>

lemma even_epoch:
  assumes "talk_even C k R S" "q_sending (t_spqr S) = Some ch"
  shows "receiving_epoch (t_spqr R) = Some (c_epoch ch)"
  using assms by (auto simp: talk_even_def q_pair_def receiving_epoch_def)

lemma ahead_epoch:
  assumes "q_ahead C k ss a b" "q_sending b = Some ch"
  shows "receiving_epoch a \<noteq> Some (c_epoch ch)" "q_skipped a = []" "unat (c_n ch) \<le> k"
proof -
  obtain a0 where a0: "q_pair k a0 b" "q_advance_epoch C a0 ss = Some (Inr (q_next a0), a)" using assms(1) by (auto simp: q_ahead_def)
  then have "q_receiving a \<noteq> None" "receiving_epoch a = Some (q_next a0)" "set (q_skipped a) \<subseteq> set (q_skipped a0)"
    by (auto elim!: q_advance_cases simp: receiving_epoch_def)
  then show "receiving_epoch a \<noteq> Some (c_epoch ch)" "q_skipped a = []" "unat (c_n ch) \<le> k"
    using a0(1) assms(2) by (auto simp: q_pair_def)
qed

text \<open>A message of an epoch that its receiver has left, with a stale exchange message.\<close>

lemma old_epoch_refused:
  assumes "receiving_epoch (t_spqr t) \<noteq> Some (th_pq_epoch h)"
    and "hm_get (q_skipped (t_spqr t)) (th_pq_epoch h, th_pq_n h) = None"
    and "th_scka h = Some msg" "bm_epoch msg < br_epoch (t_braid t)" "br_epoch (t_braid t) < u64_max"
  shows "\<exists>e. triple_decrypt C r t h ct ad = Some (Inl e, t)"
proof (rule missing_pq_key [OF assms(1,2)])
  have "t_braid (trial_clone C t) = t_braid t" by (simp add: trial_clone_def)
  then show "trial_scka C (trial_clone C t) h = Some (Inr None, trial_clone C t)"
    using receive_stale [OF assms(5,4), of C] assms(3) by (cases "trial_clone C t") (simp add: trial_scka_def on_braid_def)
qed

text \<open>When the listener is ahead, the speaker can still send, in the old epoch, and is not heard.\<close>

lemma not_heard:
  assumes L: "braid_laws C" "crypto_laws C" and t: "talk_ahead C k R S" "k < 2 ^ 32 - 8"
    and c: "send_message_key C s0 = (Inr (h0, mk0), t_classical S)" "unat (ns (t_classical S)) + 1 < 2 ^ 32"
    and q: "q_sending (t_spqr S) = Some ch"
  obtains h ct S' where "triple_encrypt C r S pt ad = Some (Inr (h, ct), S')" "th_pq_epoch h = c_epoch ch"
    "\<forall>r'. \<exists>e. triple_decrypt C r' R h ct ad = Some (Inl e, R)"
proof -
  obtain e ss where e: "unat e \<le> k + 1" and b: "b_ahead C e ss (t_braid R) (t_braid S)" and qa: "q_ahead C k ss (t_spqr R) (t_spqr S)"
    using t(1) by (auto simp: talk_ahead_def)
  obtain a seed m where w: "idle_peer (e + 1) (ep_auth C e a seed m) (t_braid R)" "sampled_ok C e a seed m (t_braid S)"
    using b by (auto simp: b_ahead_def)
  have "peer_ok C e a seed (Some m) (t_braid S)" using w(2) by (simp add: peer_ok_def)
  from peer_send [OF L(1) this, of r] obtain msg b' mo where
    s: "braid_send C r (t_braid S) = Some (Inr (msg, saturating_sub e 1, None), b')" "bm_epoch msg = e"
    by (auto simp: peer_msg_def)
  obtain hc mk c' where c2: "send_message_key C (t_classical S) = (Inr (hc, mk), c')" using send_again [OF c] by blast
  have l: "lens_ok C" "aead_correct C" using L(2) by (simp_all add: crypto_laws_def)
  obtain ck' qk where kd: "kdf_ck_spqr C (c_key ch) = Inr (ck', qk)" by (rule kdf_ck_spqr_ok [OF l(1)])
  have "unat (c_n ch) \<le> k" using ahead_epoch(3) [OF qa q] .
  then have "checked_inc (c_n ch) = Inr (c_n ch + 1)" using t(2) by (simp add: checked_inc_iff)
  then obtain q' where q2: "q_send_key C (t_spqr S) = (Inr (c_epoch ch, c_n ch, qk), q')"
    using q kd by (simp add: q_send_key_def Let_def)
  obtain hk key nonce where hk: "kdf_hybrid C mk qk = Inr hk" "aead_from_hybrid C hk = Inr (key, nonce)" "length key = 32"
    using hybrid_keys [OF L(2)] by metis
  let ?h = "\<lparr>th_classical = hc, th_pq_epoch = c_epoch ch, th_pq_n = c_n ch, th_scka = Some msg\<rparr>"
  obtain ct where ct: "aead_seal C key nonce pt (concat_triple_ad ad ?h) = Inr ct" using aead_seal_total [OF l(2) hk(3)] by metis
  have eb: "br_epoch (t_braid R) = e + 1" "unat (e + 1) = unat e + 1" "unat e + 1 < unat u64_max"
    using w(1) e t(2) by (simp_all add: idle_peer_def unat_word_ariths)
  then have "bm_epoch msg < br_epoch (t_braid R)" "br_epoch (t_braid R) < u64_max"
    using s(2) by (simp_all only: word_less_nat_alt)
  then have "\<exists>e. triple_decrypt C r' R ?h ct ad = Some (Inl e, R)" for r'
    using ahead_epoch(1,2) [OF qa q] by (intro old_epoch_refused) simp_all
  then show thesis using that [OF triple_encrypt_ok [OF s(1) c2 q2 hk(1,2) ct]] by simp
qed

lemma talk_speaks:
  assumes L: "braid_laws C" and t: "talk_inv C k x y S R" "k < 2 ^ 32 - 8"
    and e: "triple_encrypt C r S pt ad = Some (Inr (h, ct), S')"
  obtains msg n ch mk where "braid_send C r (t_braid S) = Some (Inr (msg, n, None), t_braid S')" "th_scka h = Some msg"
    "q_sending (t_spqr S') = Some ch" "c_epoch ch = th_pq_epoch h" "q_sending (t_spqr S) \<noteq> None"
    "send_message_key C (t_classical S) = (Inr (th_classical h, mk), t_classical S')"
proof -
  obtain e where ke: "unat e \<le> k + 1" "b_pair C e (t_braid S) (t_braid R) \<and> q_pair k (t_spqr S) (t_spqr R) \<or>
      (\<exists>ss. b_ahead C e ss (t_braid S) (t_braid R) \<and> q_ahead C k ss (t_spqr S) (t_spqr R))"
    using t(1) by (auto simp: talk_inv_def)
  obtain msg n b' where s: "braid_send C r (t_braid S) = Some (Inr (msg, n, None), b')"
    by (rule pq_turn [OF L t(2) ke, of r]) (erule that)
  note p = encrypt_parts [OF e s]
  obtain mk qmk where m: "send_message_key C (t_classical S) = (Inr (th_classical h, mk), t_classical S')"
    "q_send_key C (t_spqr S) = (Inr (th_pq_epoch h, th_pq_n h, qmk), t_spqr S')" using p(3,4) by blast
  obtain ch where ch: "q_sending (t_spqr S') = Some ch" "c_epoch ch = th_pq_epoch h" "q_sending (t_spqr S) \<noteq> None"
    using q_send_epoch [OF m(2)] by auto
  show thesis by (rule that [OF _ p(1) ch m(1)]) (simp add: s p(2))
qed

lemma ns_after:
  assumes "talk_inv C k x y R S"
  shows "unat (ns (t_classical S)) + 1 < 2 ^ 32"
  using assms by (auto simp: talk_inv_def dr_turn_def)

lemma talk_end_from_start:
  assumes L: "braid_laws C" "crypto_laws C" and y: "length y = 32" "static_secret C y = y" "length ms < 2 ^ 31 - 8"
    and i: "triple_init_alice C r0 sk (public_key C y) = Some (Inr A)" "triple_init_bob C sk y = Some (Inr B)"
    and f: "fresh_keys C (public_key C y) (public_key C (fst (secret_generate C r0))) (ms @ ms')"
  obtains S R x' y' where "talk_end C ms A B = Some (S, R)" "talk_inv C (2 * length ms) x' y' S R"
    "fresh_keys C (public_key C y') (public_key C x') ms'"
proof -
  have t: "talk_inv C 0 (fst (secret_generate C r0)) y A B"
    by (rule talk_start [OF L y(1,2), where sk = sk and ?r0.0 = r0]) (use i in auto)
  have k: "0 + 2 * length ms < 2 ^ 32 - 8" using y(3) by simp
  show thesis by (rule talk_end_inv [OF L t k f]) (use that in simp)
qed

text \<open>C20: the second of two messages in a row is lost when the first completed the exchange of an epoch. In a
  conversation of two parties that take turns, after any number of turns, let the listener read a message and open the next
  post-quantum epoch on it. If the speaker then sends a second message before hearing from the listener, the
  encryption succeeds, but the message is still of the old epoch: whatever the listener's random generator
  delivers, it answers with an error and its state does not change, so that delivering the message again does not help.\<close>

theorem second_message_lost:
  assumes "braid_laws C" "lens_ok C" "secret_stable C" "dh_commutes C" "xpub_ok C" "aead_correct C"
    and "length y = 32" "static_secret C y = y" "length ms < 2 ^ 31 - 8"
    and "triple_init_alice C r0 sk (public_key C y) = Some (Inr A)" "triple_init_bob C sk y = Some (Inr B)"
    and "fresh_keys C (public_key C y) (public_key C (fst (secret_generate C r0))) (ms @ [(r1, r2, pt1, ad1)])"
    and "talk_end C ms A B = Some (S, R)"
    and "triple_encrypt C r1 S pt1 ad1 = Some (Inr (h1, ct1), S1)" "triple_decrypt C r2 R h1 ct1 ad1 = Some (Inr pt1, R1)"
    and "receiving_epoch (t_spqr R1) \<noteq> Some (th_pq_epoch h1)"
  shows "\<exists>h2 ct2 S2. triple_encrypt C r3 S1 pt2 ad2 = Some (Inr (h2, ct2), S2) \<and> th_pq_epoch h2 = th_pq_epoch h1 \<and>
    (\<forall>r4. \<exists>e. triple_decrypt C r4 R1 h2 ct2 ad2 = Some (Inl e, R1))"
proof -
  have L: "crypto_laws C" using assms(2-6) by (simp add: crypto_laws_def)
  obtain x' y' where i: "talk_inv C (2 * length ms) x' y' S R" "fresh_keys C (public_key C y') (public_key C x') [(r1, r2, pt1, ad1)]"
    by (rule talk_end_from_start [OF assms(1) L assms(7-12)]) (use assms(13) in auto)
  have k: "2 * length ms < 2 ^ 32 - 8" "2 * length ms + 2 < 2 ^ 32 - 8" using assms(9) by simp_all
  have f: "public_key C (fst (secret_generate C r2)) \<noteq> public_key C y'" using i(2) by (simp add: Let_def)
  have R1: "talk_inv C (2 * length ms + 2) (fst (secret_generate C r2)) x' R1 S1"
    by (rule talk_step [OF assms(1) L i(1) k(1) refl f, where r = r1 and pt = pt1 and ad = ad1]) (use assms(14,15) in auto)
  obtain ch mk where s: "q_sending (t_spqr S1) = Some ch" "c_epoch ch = th_pq_epoch h1"
    "send_message_key C (t_classical S) = (Inr (th_classical h1, mk), t_classical S1)"
    by (rule talk_speaks [OF assms(1) i(1) k(1) assms(14)])
  have "talk_ahead C (2 * length ms + 2) R1 S1"
    using talk_inv_cases [OF R1] even_epoch [OF _ s(1)] s(2) assms(16) by auto
  from not_heard [OF assms(1) L this k(2) s(3) ns_after [OF R1] s(1), of r3 pt2 ad2] s(2) show ?thesis by metis
qed

text \<open>That this happens: as long as no turn ends with the listener ahead, the Braids of the two parties go
  through the rounds of their driver without a key, and that ends within 44 rounds.\<close>

lemma quiet_turn:
  assumes L: "braid_laws C" "crypto_laws C" and t: "talk_inv C k x y S R" "talk_even C k S R" "k < 2 ^ 32 - 8"
    and f: "public_key C (fst (secret_generate C r')) \<noteq> public_key C y"
    and e: "triple_encrypt C r S pt ad = Some (Inr (h, ct), S')" "triple_decrypt C r' R h ct ad = Some (Inr pt, R')"
    and ep: "receiving_epoch (t_spqr R') = Some (th_pq_epoch h)"
  obtains msg n n' where "braid_send C r (t_braid S) = Some (Inr (msg, n, None), t_braid S')"
    "braid_receive C (t_braid R) msg = Some (Inr (n', None), t_braid R')" "talk_even C (k + 2) R' S'"
proof -
  have t': "talk_inv C (k + 2) (fst (secret_generate C r')) x R' S'"
    by (rule talk_step [OF L t(1,3) refl f, where r = r and pt = pt and ad = ad]) (use e in auto)
  obtain msg n ch ch0 mk where s: "braid_send C r (t_braid S) = Some (Inr (msg, n, None), t_braid S')" "th_scka h = Some msg"
    "q_sending (t_spqr S') = Some ch" "c_epoch ch = th_pq_epoch h"
    by (rule talk_speaks [OF L(1) t(1,3) e(1)])
  have "\<not> talk_ahead C (k + 2) R' S'" using ahead_epoch(1) [OF _ s(3)] s(4) ep by (auto simp: talk_ahead_def)
  then have ev: "talk_even C (k + 2) R' S'" using talk_inv_cases [OF t'] by blast
  obtain qk where "q_send_key C (t_spqr S) = (Inr (th_pq_epoch h, th_pq_n h, qk), t_spqr S')"
    using encrypt_parts(4) [OF e(1) s(1)] by blast
  then obtain c0 where c0: "q_sending (t_spqr S) = Some c0" "c_epoch c0 = th_pq_epoch h" using q_send_epoch(1) by blast
  have q: "receiving_epoch (t_spqr R) = Some (th_pq_epoch h)" "q_next (t_spqr R) = th_pq_epoch h + 1"
    using t(2) c0 by (auto simp: talk_even_def q_pair_def receiving_epoch_def)
  obtain out q2 pk n' where o: "braid_receive C (t_braid R) msg = Some (Inr (n', out), t_braid R')"
    "q_receive_key C (t_spqr R) (th_pq_epoch h) (th_pq_n h) = (Inr pk, q2)"
    "out \<noteq> None \<Longrightarrow> \<exists>n. q_advance_epoch C q2 (so_key (the out)) = Some (Inr n, t_spqr R')"
    using triple_reads [OF e(2)] s(2) q(1) by (auto split: option.splits)
  have "q_next q2 = q_next (t_spqr R)"
    using o(2) by (auto simp: q_receive_key_def Let_def split: option.splits if_splits prod.splits sum.splits)
  moreover have "receiving_epoch (t_spqr R') = Some (q_next q2)" if "out \<noteq> None"
    using o(3) [OF that] by (auto elim!: q_advance_cases simp: receiving_epoch_def)
  ultimately have "out = None" using ep q(2) by (cases out) auto
  then show thesis using that s(1) o(1) ev by blast
qed

lemma talk_end_append:
  "talk_end C (ms @ ms') S R = (case talk_end C ms S R of None \<Rightarrow> None | Some (S', R') \<Rightarrow> talk_end C ms' S' R')"
  by (induction C ms S R rule: talk_end.induct) (auto split: option.splits sum.splits prod.splits)

text \<open>An endless conversation \<open>M\<close> from the start, and that its turn \<open>n\<close> ends with the listener ahead.\<close>

definition endless_talk :: "crypto \<Rightarrow> bytes \<Rightarrow> rng \<Rightarrow> bytes \<Rightarrow> triple \<Rightarrow> triple \<Rightarrow> (nat \<Rightarrow> rng \<times> rng \<times> bytes \<times> bytes) \<Rightarrow> bool" where
  "endless_talk C y r0 sk A B M \<longleftrightarrow> length y = 32 \<and> static_secret C y = y \<and>
     triple_init_alice C r0 sk (public_key C y) = Some (Inr A) \<and> triple_init_bob C sk y = Some (Inr B) \<and>
     (\<forall>n. fresh_keys C (public_key C y) (public_key C (fst (secret_generate C r0))) (map M [0..<n]))"

definition completes :: "crypto \<Rightarrow> triple \<Rightarrow> triple \<Rightarrow> (nat \<Rightarrow> rng \<times> rng \<times> bytes \<times> bytes) \<Rightarrow> nat \<Rightarrow> bool" where
  "completes C A B M n \<longleftrightarrow> (\<exists>r r' pt ad S R h ct S1 R1. M n = (r, r', pt, ad) \<and> talk_end C (map M [0..<n]) A B = Some (S, R) \<and>
     triple_encrypt C r S pt ad = Some (Inr (h, ct), S1) \<and> triple_decrypt C r' R h ct ad = Some (Inr pt, R1) \<and>
     receiving_epoch (t_spqr R1) \<noteq> Some (th_pq_epoch h))"

lemma endless_quiet:
  assumes L: "braid_laws C" "crypto_laws C" and E: "endless_talk C y r0 sk A B M" and n: "n < 2 ^ 31 - 8" "\<not> completes C A B M n"
    and S: "talk_end C (map M [0..<n]) A B = Some (S, R)" "talk_even C (2 * n) S R"
  obtains S' R' msg k k' where "talk_end C (map M [0..<Suc n]) A B = Some (R', S')" "talk_even C (2 * Suc n) R' S'"
    "braid_send C (fst (M n)) (t_braid S) = Some (Inr (msg, k, None), t_braid S')"
    "braid_receive C (t_braid R) msg = Some (Inr (k', None), t_braid R')"
proof -
  obtain r r' pt ad where M: "M n = (r, r', pt, ad)" by (cases "M n")
  have f: "fresh_keys C (public_key C y) (public_key C (fst (secret_generate C r0))) (map M [0..<n] @ [M n])"
    using E [unfolded endless_talk_def, THEN conjunct2, THEN conjunct2, THEN conjunct2, THEN conjunct2, rule_format, of "Suc n"] by simp
  obtain x' y' where t: "talk_inv C (2 * n) x' y' S R" "fresh_keys C (public_key C y') (public_key C x') [M n]"
    by (rule talk_end_from_start [OF L _ _ _ _ _ f]) (use E S(1) n(1) in \<open>auto simp: endless_talk_def\<close>)
  have k: "2 * n < 2 ^ 32 - 8" using n(1) by simp
  have f2: "public_key C (fst (secret_generate C r')) \<noteq> public_key C y'" using t(2) M by (simp add: Let_def)
  obtain h ct S' R' where e: "triple_encrypt C r S pt ad = Some (Inr (h, ct), S')" "triple_decrypt C r' R h ct ad = Some (Inr pt, R')"
    by (rule talk_step [OF L t(1) k refl f2])
  have "receiving_epoch (t_spqr R') = Some (th_pq_epoch h)"
    using n(2) M S(1) e unfolding completes_def by blast
  from quiet_turn [OF L t(1) S(2) k f2 e this] obtain msg k k' where
    q: "braid_send C r (t_braid S) = Some (Inr (msg, k, None), t_braid S')"
      "braid_receive C (t_braid R) msg = Some (Inr (k', None), t_braid R')" "talk_even C (2 * n + 2) R' S'" by blast
  have "talk_end C (map M [0..<Suc n]) A B = Some (R', S')"
    using S(1) e M by (simp add: talk_end_append)
  then show thesis using that q M by simp
qed

lemma exchange_completes:
  assumes L: "braid_laws C" "crypto_laws C" and E: "endless_talk C y r0 sk A B M"
  shows "\<exists>n < 88. completes C A B M n"
proof (rule ccontr)
  assume "\<not> ?thesis"
  then have no: "\<not> completes C A B M n" if "n < 88" for n using that by blast
  define rs where "rs i = fst (M i)" for i
  have start: "talk_even C 0 A B" "\<exists>a. idle_owner 1 a (t_braid A) \<and> idle_peer 1 a (t_braid B)"
  proof -
    have y: "length y = 32" "static_secret C y = y" using E by (simp_all add: endless_talk_def)
    have "q_pair 0 (t_spqr A) (t_spqr B) \<and> (\<exists>a. idle_owner 1 a (t_braid A) \<and> idle_peer 1 a (t_braid B))"
      by (rule talk_start [OF L y, where sk = sk and ?r0.0 = r0]) (use E in \<open>auto simp: endless_talk_def\<close>)
    then show "talk_even C 0 A B" "\<exists>a. idle_owner 1 a (t_braid A) \<and> idle_peer 1 a (t_braid B)"
      unfolding talk_even_def b_pair_def by (auto intro!: exI [of _ 1])
  qed
  have "j \<le> 44 \<Longrightarrow> \<exists>S R. talk_end C (map M [0..<2 * j]) A B = Some (S, R) \<and> talk_even C (2 * (2 * j)) S R \<and>
      drive_loop C rs 44 None None (t_braid A) (t_braid B) =
      drive_loop C (\<lambda>i. rs (i + 2 * j)) (44 - j) None None (t_braid S) (t_braid R)" for j
  proof (induction j)
    case 0
    then show ?case using start(1) by simp
  next
    case (Suc j)
    then obtain S R where S: "talk_end C (map M [0..<2 * j]) A B = Some (S, R)" "talk_even C (2 * (2 * j)) S R"
      "drive_loop C rs 44 None None (t_braid A) (t_braid B) =
      drive_loop C (\<lambda>i. rs (i + 2 * j)) (44 - j) None None (t_braid S) (t_braid R)" by auto
    have j: "2 * j < 2 ^ 31 - 8" "Suc (2 * j) < 2 ^ 31 - 8" "2 * j < 88" "Suc (2 * j) < 88" "44 - j = Suc (44 - Suc j)"
      using Suc.prems by simp_all
    obtain S1 R1 m1 k1 k1' where a: "talk_end C (map M [0..<Suc (2 * j)]) A B = Some (R1, S1)" "talk_even C (2 * Suc (2 * j)) R1 S1"
      "braid_send C (fst (M (2 * j))) (t_braid S) = Some (Inr (m1, k1, None), t_braid S1)"
      "braid_receive C (t_braid R) m1 = Some (Inr (k1', None), t_braid R1)"
      by (rule endless_quiet [OF L E j(1) no [OF j(3)] S(1,2)])
    obtain S2 R2 m2 k2 k2' where b: "talk_end C (map M [0..<Suc (Suc (2 * j))]) A B = Some (S2, R2)" "talk_even C (2 * Suc (Suc (2 * j))) S2 R2"
      "braid_send C (fst (M (Suc (2 * j)))) (t_braid R1) = Some (Inr (m2, k2, None), t_braid R2)"
      "braid_receive C (t_braid S1) m2 = Some (Inr (k2', None), t_braid S2)"
      by (rule endless_quiet [OF L E j(2) no [OF j(4)] a(1,2)])
    have "drive_loop C (\<lambda>i. rs (i + 2 * j)) (44 - j) None None (t_braid S) (t_braid R) =
        drive_loop C (\<lambda>i. rs (i + 2 + 2 * j)) (44 - Suc j) None None (t_braid S2) (t_braid R2)"
      unfolding j(5) using drive_round [where rs = "\<lambda>i. rs (i + 2 * j)", OF _ a(4) _ b(4)] a(3) b(3) by (simp add: rs_def)
    with S(3) b(1,2) show ?case by (intro exI [of _ S2] exI [of _ R2]) (simp add: algebra_simps)
  qed
  from this [of 44] have "fst (the (drive_loop C rs 44 None None (t_braid A) (t_braid B))) = Inl LimitExceeded" by auto
  moreover obtain a where "idle_owner 1 a (t_braid A)" "idle_peer 1 a (t_braid B)" using start(2) by blast
  ultimately show False using drive_idle [OF L(1), of a "t_braid A" "t_braid B" 44 rs] by (auto simp: drive_until_key_def)
qed

definition demo_turn :: "nat \<Rightarrow> rng \<times> rng \<times> bytes \<times> bytes" where
  "demo_turn i = (\<lambda>_. 0, \<lambda>_. if even (i div 2) then 1 else 2, [], [])"

lemma demo_generate: "fst (secret_generate plain_crypto (\<lambda>_. x)) = replicate 32 x"
  by (simp add: secret_generate_def fill_random_def plain_simps map_replicate_const)

definition demo_key :: "nat \<Rightarrow> bytes" where
  "demo_key i = public_key plain_crypto (replicate 32 (if even (i div 2) then 1 else 2))"

lemma demo_key_change: "demo_key i \<noteq> demo_key (Suc (Suc i))"
  by (simp add: demo_key_def public_key_def plain_simps fit_def)

lemma demo_fresh:
  "p \<noteq> demo_key i \<Longrightarrow> q \<noteq> demo_key (Suc i) \<Longrightarrow> fresh_keys braid_crypto p q (map demo_turn [i..<i + n])"
proof (induction n arbitrary: i p q)
  case (Suc n)
  have "public_key braid_crypto (fst (secret_generate braid_crypto (fst (snd (demo_turn i))))) = demo_key i"
    by (simp add: demo_turn_def demo_key_def demo_generate)
  moreover have "fresh_keys braid_crypto q (demo_key i) (map demo_turn [Suc i..<Suc i + n])"
    using Suc.prems demo_key_change by (intro Suc.IH) auto
  moreover have "map demo_turn [i..<i + Suc n] = demo_turn i # map demo_turn [Suc i..<Suc i + n]"
    by (simp add: upt_conv_Cons del: upt_Suc)
  ultimately show ?case using Suc.prems by (cases "demo_turn i") (auto simp: Let_def)
qed simp

lemma demo_endless:
  obtains A B where "endless_talk braid_crypto (replicate 32 9) (\<lambda>_. 5) [7] A B demo_turn"
proof -
  have L: "crypto_laws braid_crypto" using braid_crypto_laws braid_crypto_dr by (simp add: crypto_laws_def braid_laws_def)
  have y: "length (replicate 32 9 :: bytes) = 32" "static_secret braid_crypto (replicate 32 9) = replicate 32 9"
    by (simp_all add: plain_simps)
  obtain A B where i: "triple_init_alice braid_crypto (\<lambda>_. 5) [7] (public_key braid_crypto (replicate 32 9)) = Some (Inr A)"
    "triple_init_bob braid_crypto [7] (replicate 32 9) = Some (Inr B)"
    by (rule talk_start [OF braid_crypto_laws L y, where sk = "[7]" and ?r0.0 = "\<lambda>_. 5"]) (rule that)
  have "public_key plain_crypto (replicate 32 9) \<noteq> demo_key 0" "public_key plain_crypto (replicate 32 5) \<noteq> demo_key (Suc 0)"
    by (simp_all add: demo_key_def public_key_def plain_simps fit_def)
  then have "\<forall>n. fresh_keys braid_crypto (public_key braid_crypto (replicate 32 9))
      (public_key braid_crypto (fst (secret_generate braid_crypto (\<lambda>_. 5)))) (map demo_turn [0..<n])"
    using demo_fresh [of _ 0] by (simp add: demo_generate)
  with that i y show thesis unfolding endless_talk_def by blast
qed

text \<open>In a conversation of two parties that say nothing but take turns, some turn within the first 88 completes an
  exchange, and a second message sent right after it is lost.\<close>

theorem second_message_lost_witness:
  "\<exists>A B ms S R r r' h ct S1 R1 h2 ct2 S2 e.
     triple_init_alice braid_crypto (\<lambda>_. 5) [7] (public_key braid_crypto (replicate 32 9)) = Some (Inr A) \<and>
     triple_init_bob braid_crypto [7] (replicate 32 9) = Some (Inr B) \<and> talk_end braid_crypto ms A B = Some (S, R) \<and>
     triple_encrypt braid_crypto r S [] [] = Some (Inr (h, ct), S1) \<and> triple_decrypt braid_crypto r' R h ct [] = Some (Inr [], R1) \<and>
     triple_encrypt braid_crypto (\<lambda>_. 0) S1 [42] [] = Some (Inr (h2, ct2), S2) \<and>
     triple_decrypt braid_crypto (\<lambda>_. 3) R1 h2 ct2 [] = Some (Inl e, R1)"
proof -
  have L: "crypto_laws braid_crypto" using braid_crypto_laws braid_crypto_dr by (simp add: crypto_laws_def braid_laws_def)
  have l: "lens_ok braid_crypto" using L by (simp add: crypto_laws_def)
  obtain A B where E: "endless_talk braid_crypto (replicate 32 9) (\<lambda>_. 5) [7] A B demo_turn" by (rule demo_endless)
  obtain n where n: "n < 88" "completes braid_crypto A B demo_turn n"
    using exchange_completes [OF braid_crypto_laws L E] by blast
  then obtain r r' S R h ct S1 R1 where c: "demo_turn n = (r, r', [], [])"
    "talk_end braid_crypto (map demo_turn [0..<n]) A B = Some (S, R)"
    "triple_encrypt braid_crypto r S [] [] = Some (Inr (h, ct), S1)" "triple_decrypt braid_crypto r' R h ct [] = Some (Inr [], R1)"
    "receiving_epoch (t_spqr R1) \<noteq> Some (th_pq_epoch h)" unfolding completes_def by (auto simp: demo_turn_def)
  have e: "length (replicate 32 9 :: bytes) = 32" "static_secret braid_crypto (replicate 32 9) = replicate 32 9"
    "length (map demo_turn [0..<n]) < 2 ^ 31 - 8"
    "triple_init_alice braid_crypto (\<lambda>_. 5) [7] (public_key braid_crypto (replicate 32 9)) = Some (Inr A)"
    "triple_init_bob braid_crypto [7] (replicate 32 9) = Some (Inr B)"
    "fresh_keys braid_crypto (public_key braid_crypto (replicate 32 9))
      (public_key braid_crypto (fst (secret_generate braid_crypto (\<lambda>_. 5)))) (map demo_turn [0..<n] @ [(r, r', [], [])])"
    using E n(1) E [unfolded endless_talk_def, THEN conjunct2, THEN conjunct2, THEN conjunct2, THEN conjunct2, rule_format, of "Suc n"] c(1)
    by (simp_all add: endless_talk_def)
  from second_message_lost [OF braid_crypto_laws l braid_crypto_dr e c(2-5), of "\<lambda>_. 0" "[42]" "[]"]
  show ?thesis using e c(2-4) by blast
qed


end
