(* ===== verification/VC_Sesame.thy ===== *)
theory VC_Sesame
  imports VC_Session VC_Triple_Props
begin

text \<open>
  Sesame sending and receiving (\<^verbatim>\<open>src/session/sesame.rs\<close>, \<^verbatim>\<open>src/session/mailbox.rs\<close>): the mailbox directory and
  its in-memory implementation, the node that sends to every device of a user, decrypts its inbox,
  acknowledges deliveries and answers retry requests.

  The source is generic in the directory; here its operations are the record \<open>directory\<close>, an
  argument of the node's operations, and their contract is the locale \<open>mailbox_laws\<close>. \<open>rs i\<close> is
  the randomness of the \<open>i\<close>-th device or envelope of a call.
\<close>

subsection \<open>The directory\<close>

datatype mailbox_body =
    Encrypted bytes bytes bytes bytes bool
  | RetryRequest bytes
  | DeliveryReceipt bytes

record mailbox_envelope =
  from_user :: bytes
  from_device :: bytes
  env_body :: mailbox_body

record 'd directory =
  dir_register :: "'d \<Rightarrow> bytes \<Rightarrow> bytes \<Rightarrow> bytes \<Rightarrow> (prim_error + unit) \<times> 'd"
  dir_query :: "'d \<Rightarrow> bytes \<Rightarrow> prim_error + (bytes \<times> bytes) list"
  dir_send :: "'d \<Rightarrow> bytes \<Rightarrow> bytes \<Rightarrow> mailbox_envelope \<Rightarrow> (prim_error + unit) \<times> 'd"
  dir_fetch :: "'d \<Rightarrow> bytes \<Rightarrow> bytes \<Rightarrow> mailbox_envelope list \<times> 'd"

record memory_directory =
  md_devices :: "(bytes, (bytes \<times> bytes) list) hmap"
  md_boxes :: "(bytes \<times> bytes, mailbox_envelope list) hmap"

definition md_register :: "memory_directory \<Rightarrow> bytes \<Rightarrow> bytes \<Rightarrow> bytes \<Rightarrow> (prim_error + unit) \<times> memory_directory" where
  "md_register m u d identity_public =
     (let xs = (case hm_get (md_devices m) u of Some xs \<Rightarrow> xs | None \<Rightarrow> []);
          xs1 = (if list_ex (\<lambda>(d', _). d' = d) xs then xs else xs @ [(d, identity_public)]);
          bx = (case hm_get (md_boxes m) (u, d) of Some b \<Rightarrow> b | None \<Rightarrow> [])
      in (Inr (), \<lparr>md_devices = hm_insert (md_devices m) u xs1, md_boxes = hm_insert (md_boxes m) (u, d) bx\<rparr>))"

definition md_query :: "memory_directory \<Rightarrow> bytes \<Rightarrow> prim_error + (bytes \<times> bytes) list" where
  "md_query m u = ok_or Internal (hm_get (md_devices m) u)"

definition md_send :: "memory_directory \<Rightarrow> bytes \<Rightarrow> bytes \<Rightarrow> mailbox_envelope \<Rightarrow> (prim_error + unit) \<times> memory_directory" where
  "md_send m u d env =
     (case hm_get (md_boxes m) (u, d) of
        None \<Rightarrow> (Inl Internal, m)
      | Some b \<Rightarrow> (Inr (), m\<lparr>md_boxes := hm_insert (md_boxes m) (u, d) (b @ [env])\<rparr>))"

definition md_fetch :: "memory_directory \<Rightarrow> bytes \<Rightarrow> bytes \<Rightarrow> mailbox_envelope list \<times> memory_directory" where
  "md_fetch m u d =
     (case hm_get (md_boxes m) (u, d) of
        None \<Rightarrow> ([], m)
      | Some b \<Rightarrow> (b, m\<lparr>md_boxes := hm_insert (md_boxes m) (u, d) []\<rparr>))"

definition memory_dir :: "memory_directory directory" where
  "memory_dir = \<lparr>dir_register = md_register, dir_query = md_query, dir_send = md_send, dir_fetch = md_fetch\<rparr>"

text \<open>What a directory promises: a mailbox per registered device, to which sending appends and which
  fetching empties, and nothing else changes.\<close>

locale mailbox_laws =
  fixes D :: "'d directory" and box :: "'d \<Rightarrow> bytes \<times> bytes \<Rightarrow> mailbox_envelope list option"
  assumes send_open: "box s (u, d) = Some b \<Longrightarrow> \<exists>s'. dir_send D s u d env = (Inr (), s') \<and>
      box s' = (box s)((u, d) \<mapsto> b @ [env]) \<and> dir_query D s' = dir_query D s"
    and send_closed: "box s (u, d) = None \<Longrightarrow> dir_send D s u d env = (Inl Internal, s)"
    and fetch_open: "box s (u, d) = Some b \<Longrightarrow> \<exists>s'. dir_fetch D s u d = (b, s') \<and>
      box s' = (box s)((u, d) \<mapsto> []) \<and> dir_query D s' = dir_query D s"
    and fetch_closed: "box s (u, d) = None \<Longrightarrow> dir_fetch D s u d = ([], s)"
begin

lemma fetch_drains: "\<exists>b s'. dir_fetch D s u d = (b, s') \<and> (\<forall>env \<in> set b. box s (u, d) \<noteq> None) \<and>
    (box s' (u, d) = None \<or> box s' (u, d) = Some [])"
  using fetch_open [of s u d] fetch_closed [of s u d] by (cases "box s (u, d)") auto

lemma send_then_fetch:
  assumes "box s (u, d) = Some b"
  obtains s1 s2 where "dir_send D s u d env = (Inr (), s1)" "dir_fetch D s1 u d = (b @ [env], s2)"
    "box s2 = (box s)((u, d) \<mapsto> [])" "dir_query D s2 = dir_query D s"
proof -
  obtain s1 where s1: "dir_send D s u d env = (Inr (), s1)" "box s1 = (box s)((u, d) \<mapsto> b @ [env])" "dir_query D s1 = dir_query D s"
    using send_open [OF assms] by metis
  then have "box s1 (u, d) = Some (b @ [env])" by simp
  from fetch_open [OF this] s1 show thesis using that by (metis fun_upd_upd)
qed

end

definition md_box :: "memory_directory \<Rightarrow> bytes \<times> bytes \<Rightarrow> mailbox_envelope list option" where
  "md_box m = hm_get (md_boxes m)"

interpretation mdl: mailbox_laws memory_dir md_box
  by unfold_locales
     (auto simp: memory_dir_def md_box_def md_send_def md_fetch_def md_query_def [abs_def] fun_eq_iff)

subsection \<open>The node\<close>

record message_record =
  mr_id :: bytes
  mr_plaintext :: bytes
  mr_user :: bytes
  mr_session :: bytes
  mr_attempts :: u32

record sesame_node =
  sn_user :: bytes
  sn_device :: bytes
  sn_mgr :: session_manager
  sn_records :: "message_record list"

definition node_new :: "bytes \<Rightarrow> bytes \<Rightarrow> session_manager \<Rightarrow> sesame_node" where
  "node_new u d m = \<lparr>sn_user = u, sn_device = d, sn_mgr = m, sn_records = []\<rparr>"

definition msg_id :: "crypto \<Rightarrow> bytes \<Rightarrow> u64 \<Rightarrow> u64 \<Rightarrow> bytes" where
  "msg_id C sid now n = take 16 (sha256_fn C (sid @ le_bytes 8 now @ le_bytes 8 n))"

text \<open>A call on the manager or the directory, in the state of the node and the directory.\<close>

definition on_mgr :: "(prim_error + 'a) \<times> session_manager \<Rightarrow> sesame_node \<times> 'd \<Rightarrow> (prim_error + 'a) \<times> sesame_node \<times> 'd" where
  "on_mgr x s = (fst x, ((fst s)\<lparr>sn_mgr := snd x\<rparr>, snd s))"

definition on_dir :: "(prim_error + 'a) \<times> 'd \<Rightarrow> sesame_node \<times> 'd \<Rightarrow> (prim_error + 'a) \<times> sesame_node \<times> 'd" where
  "on_dir x s = (fst x, (fst s, snd x))"

definition envelope_from :: "sesame_node \<Rightarrow> mailbox_body \<Rightarrow> mailbox_envelope" where
  "envelope_from n b = \<lparr>from_user = sn_user n, from_device = sn_device n, env_body = b\<rparr>"

text \<open>Encrypt on the active session of a device.\<close>

definition active_encrypt :: "crypto \<Rightarrow> session_manager \<Rightarrow> bytes \<Rightarrow> bytes \<Rightarrow> bytes \<Rightarrow> (prim_error + (header \<times> bytes)) \<times> session_manager" where
  "active_encrypt C m u d plaintext =
     (case dev_get m u d of
        None \<Rightarrow> (Inl Internal, m)
      | Some dv \<Rightarrow>
          (case dv_active dv of
             None \<Rightarrow> (Inl Internal, m)
           | Some rec \<Rightarrow>
               (case dr_encrypt C (sr_ratchet rec) plaintext (bstr ''sesame'') of
                  (res, rt) \<Rightarrow> (res, dev_set m u d (dv\<lparr>dv_active := Some (rec\<lparr>sr_ratchet := rt\<rparr>)\<rparr>)))))"

definition send_to_device :: "crypto \<Rightarrow> 'd directory \<Rightarrow> rng \<Rightarrow> bytes \<Rightarrow> bytes \<Rightarrow> bytes \<Rightarrow> identity_material \<Rightarrow> bytes \<Rightarrow> bytes \<Rightarrow> u64 \<Rightarrow>
    nat \<Rightarrow> sesame_node \<times> 'd \<Rightarrow> (prim_error + bytes) \<times> sesame_node \<times> 'd" where
  "send_to_device C D r u dev plaintext remote sk remote_dh now sent s =
     sbind (on_mgr (prepare_outbound C r (sn_mgr (fst s)) u dev remote sk remote_dh now) s) (\<lambda>sid s.
     sbind (on_mgr (active_encrypt C (sn_mgr (fst s)) u dev plaintext) s) (\<lambda>(h, ct) s.
       let message_id = msg_id C sid now (of_nat sent)
       in sbind (on_dir (dir_send D (snd s) u dev
            (envelope_from (fst s) (Encrypted message_id sid (header_encode h) ct True))) s) (\<lambda>_ s.
              (Inr message_id, ((fst s)\<lparr>sn_records := sn_records (fst s) @
                 [\<lparr>mr_id = message_id, mr_plaintext = plaintext, mr_user = u, mr_session = sid, mr_attempts = 1\<rparr>]\<rparr>, snd s)))))"

fun send_devices :: "crypto \<Rightarrow> 'd directory \<Rightarrow> (nat \<Rightarrow> rng) \<Rightarrow> bytes \<Rightarrow> bytes \<Rightarrow> identity_material \<Rightarrow> bytes \<Rightarrow> bytes \<Rightarrow> u64 \<Rightarrow>
    (bytes \<times> bytes) list \<Rightarrow> nat \<Rightarrow> nat \<Rightarrow> bytes list \<Rightarrow> sesame_node \<times> 'd \<Rightarrow> (prim_error + (bytes list \<times> nat)) \<times> sesame_node \<times> 'd" where
  "send_devices C D rs u pt remote sk dh now [] sent k ids s = (Inr (ids, k), s)"
| "send_devices C D rs u pt remote sk dh now ((dev, pk) # devices) sent k ids s =
     (if u = sn_user (fst s) \<and> dev = sn_device (fst s) then send_devices C D rs u pt remote sk dh now devices sent k ids s
      else sbind (send_to_device C D (rs k) u dev pt remote sk dh now sent s) (\<lambda>message_id s.
             send_devices C D rs u pt remote sk dh now devices (Suc sent) (Suc k) (ids @ [message_id]) s))"

fun send_users :: "crypto \<Rightarrow> 'd directory \<Rightarrow> (nat \<Rightarrow> rng) \<Rightarrow> bytes \<Rightarrow> identity_material \<Rightarrow> bytes \<Rightarrow> bytes \<Rightarrow> u64 \<Rightarrow>
    bytes list \<Rightarrow> nat \<Rightarrow> bytes list \<Rightarrow> sesame_node \<times> 'd \<Rightarrow> (prim_error + bytes list) \<times> sesame_node \<times> 'd" where
  "send_users C D rs pt remote sk dh now [] k ids s = (Inr ids, s)"
| "send_users C D rs pt remote sk dh now (u # users) k ids s =
     (case dir_query D (snd s) u of
        Inl _ \<Rightarrow> send_users C D rs pt remote sk dh now users k ids s
      | Inr devices \<Rightarrow>
          sbind (send_devices C D rs u pt remote sk dh now devices 0 k ids s) (\<lambda>(ids, k) s.
            send_users C D rs pt remote sk dh now users k ids s))"

definition sesame_send :: "crypto \<Rightarrow> 'd directory \<Rightarrow> (nat \<Rightarrow> rng) \<Rightarrow> sesame_node \<times> 'd \<Rightarrow> bytes list \<Rightarrow> bytes \<Rightarrow> identity_material \<Rightarrow>
    bytes \<Rightarrow> bytes \<Rightarrow> u64 \<Rightarrow> (prim_error + bytes list) \<times> sesame_node \<times> 'd" where
  "sesame_send C D rs s recipients plaintext remote sk remote_dh now =
     send_users C D rs plaintext remote sk remote_dh now recipients 0 [] s"

definition try_one :: "crypto \<Rightarrow> rng \<Rightarrow> session_record \<Rightarrow> header \<Rightarrow> bytes \<Rightarrow> (prim_error + bytes) \<times> session_record" where
  "try_one C r rec h ct =
     (case dr_decrypt C r (sr_ratchet rec) h ct (bstr ''sesame'') of (res, rt) \<Rightarrow> (res, rec\<lparr>sr_ratchet := rt\<rparr>))"

definition try_decrypt :: "crypto \<Rightarrow> rng \<Rightarrow> session_manager \<Rightarrow> bytes \<Rightarrow> bytes \<Rightarrow> bytes \<Rightarrow> header \<Rightarrow> bytes \<Rightarrow>
    (prim_error + bytes) \<times> session_manager" where
  "try_decrypt C r m u d sid h ct =
     (case dev_get m u d of
        None \<Rightarrow> (Inl Internal, m)
      | Some dv \<Rightarrow>
          let on_active = (\<lambda>rec. case try_one C r rec h ct of
                (res, rec') \<Rightarrow> (res, dev_set m u d (dv\<lparr>dv_active := Some rec'\<rparr>)))
          in case dv_active dv of
               Some rec \<Rightarrow>
                 if sr_id rec = sid then on_active rec
                 else (case position (\<lambda>s. sr_id s = sid) (dv_inactive dv) of
                         Some i \<Rightarrow> (case try_one C r (dv_inactive dv ! i) h ct of
                            (res, rec') \<Rightarrow> (res, dev_set m u d (dv\<lparr>dv_inactive := (dv_inactive dv)[i := rec']\<rparr>)))
                       | None \<Rightarrow> on_active rec)
             | None \<Rightarrow>
                 (case position (\<lambda>s. sr_id s = sid) (dv_inactive dv) of
                    Some i \<Rightarrow> (case try_one C r (dv_inactive dv ! i) h ct of
                       (res, rec') \<Rightarrow> (res, dev_set m u d (dv\<lparr>dv_inactive := (dv_inactive dv)[i := rec']\<rparr>)))
                  | None \<Rightarrow> (Inl Internal, m)))"

definition set_record :: "sesame_node \<Rightarrow> nat \<Rightarrow> (message_record \<Rightarrow> message_record) \<Rightarrow> sesame_node" where
  "set_record n i f = n\<lparr>sn_records := (sn_records n)[i := f (sn_records n ! i)]\<rparr>"

definition handle_retry :: "crypto \<Rightarrow> 'd directory \<Rightarrow> rng \<Rightarrow> bytes \<Rightarrow> bytes \<Rightarrow> bytes \<Rightarrow> identity_material \<Rightarrow> u64 \<Rightarrow>
    sesame_node \<times> 'd \<Rightarrow> (prim_error + unit) \<times> sesame_node \<times> 'd" where
  "handle_retry C D r u d message_id remote now s =
     (case position (\<lambda>rec. mr_id rec = message_id) (sn_records (fst s)) of
        None \<Rightarrow> (Inl Internal, s)
      | Some idx \<Rightarrow>
          let rec = sn_records (fst s) ! idx
          in if mr_attempts rec \<ge> MAX_RESEND_ATTEMPTS then (Inl LimitExceeded, s)
             else if mr_user rec \<noteq> u then (Inr (), s)
             else
               let s1 = (set_record (fst s) idx (\<lambda>x. x\<lparr>mr_attempts := mr_attempts x + 1\<rparr>), snd s)
               in sbind (on_mgr (prepare_outbound C r (sn_mgr (fst s1)) u d remote (replicate 32 9) (im_key remote) now) s1) (\<lambda>sid s.
                  sbind (on_mgr (active_encrypt C (sn_mgr (fst s)) u d (mr_plaintext rec)) s) (\<lambda>(h, ct) s.
                    let new_id = msg_id C sid now (ucast (mr_attempts (sn_records (fst s) ! idx)));
                        s2 = (set_record (fst s) idx (\<lambda>x. x\<lparr>mr_id := new_id, mr_session := sid\<rparr>), snd s)
                    in on_dir (dir_send D (snd s2) u d
                         (envelope_from (fst s2) (Encrypted new_id sid (header_encode h) ct True))) s2)))"

definition receive_one :: "crypto \<Rightarrow> 'd directory \<Rightarrow> rng \<Rightarrow> identity_material \<Rightarrow> u64 \<Rightarrow> mailbox_envelope \<Rightarrow>
    sesame_node \<times> 'd \<Rightarrow> (prim_error + bytes list) \<times> sesame_node \<times> 'd" where
  "receive_one C D r remote now env s =
     (case env_body env of
        Encrypted message_id session_id hb ct _ \<Rightarrow>
          sbind (header_decode hb, s) (\<lambda>h s.
            case try_decrypt C r (sn_mgr (fst s)) (from_user env) (from_device env) session_id h ct of
              (Inr p, m) \<Rightarrow>
                let m1 = snd (receive_on_session m (from_user env) (from_device env) session_id);
                    m2 = snd (confirm_session m1 (from_user env) (from_device env) session_id);
                    s1 = ((fst s)\<lparr>sn_mgr := m2\<rparr>, snd s)
                in sbind (on_dir (dir_send D (snd s1) (from_user env) (from_device env)
                     (envelope_from (fst s1) (DeliveryReceipt message_id))) s1) (\<lambda>_ s. (Inr [p], s))
            | (Inl _, m) \<Rightarrow>
                let s1 = ((fst s)\<lparr>sn_mgr := m\<rparr>, snd s)
                in sbind (on_dir (dir_send D (snd s1) (from_user env) (from_device env)
                     (envelope_from (fst s1) (RetryRequest message_id))) s1) (\<lambda>_ s. (Inr [], s)))
      | RetryRequest message_id \<Rightarrow>
          sbind (handle_retry C D r (from_user env) (from_device env) message_id remote now s) (\<lambda>_ s. (Inr [], s))
      | DeliveryReceipt message_id \<Rightarrow>
          (Inr [], ((fst s)\<lparr>sn_records := filter (\<lambda>rec. mr_id rec \<noteq> message_id) (sn_records (fst s))\<rparr>, snd s)))"

fun receive_loop :: "crypto \<Rightarrow> 'd directory \<Rightarrow> (nat \<Rightarrow> rng) \<Rightarrow> identity_material \<Rightarrow> u64 \<Rightarrow> mailbox_envelope list \<Rightarrow> nat \<Rightarrow> bytes list \<Rightarrow>
    sesame_node \<times> 'd \<Rightarrow> (prim_error + bytes list) \<times> sesame_node \<times> 'd" where
  "receive_loop C D rs remote now [] k out s = (Inr out, s)"
| "receive_loop C D rs remote now (env # inbox) k out s =
     sbind (receive_one C D (rs k) remote now env s) (\<lambda>ps s. receive_loop C D rs remote now inbox (Suc k) (out @ ps) s)"

definition receive_all :: "crypto \<Rightarrow> 'd directory \<Rightarrow> (nat \<Rightarrow> rng) \<Rightarrow> sesame_node \<times> 'd \<Rightarrow> identity_material \<Rightarrow> u64 \<Rightarrow>
    (prim_error + bytes list) \<times> sesame_node \<times> 'd" where
  "receive_all C D rs s remote now =
     (case dir_fetch D (snd s) (sn_user (fst s)) (sn_device (fst s)) of
        (inbox, dir) \<Rightarrow> receive_loop C D rs remote now inbox 0 [] (fst s, dir))"

subsection \<open>Retransmissions\<close>

text \<open>A directory that keeps a log of the envelopes it accepted; the node cannot tell the difference.\<close>

definition logged :: "'d directory \<Rightarrow> ('d \<times> mailbox_envelope list) directory" where
  "logged D = \<lparr>dir_register = (\<lambda>s u d pk. case dir_register D (fst s) u d pk of (x, t) \<Rightarrow> (x, (t, snd s))),
     dir_query = (\<lambda>s u. dir_query D (fst s) u),
     dir_send = (\<lambda>s u d env. case dir_send D (fst s) u d env of
         (Inr x, t) \<Rightarrow> (Inr x, (t, snd s @ [env]))
       | (Inl e, t) \<Rightarrow> (Inl e, (t, snd s))),
     dir_fetch = (\<lambda>s u d. case dir_fetch D (fst s) u d of (b, t) \<Rightarrow> (b, (t, snd s)))\<rparr>"

type_synonym 'd logged_state = "sesame_node \<times> 'd \<times> mailbox_envelope list"

definition is_copy :: "mailbox_envelope \<Rightarrow> bool" where
  "is_copy env = (case env_body env of Encrypted _ _ _ _ _ \<Rightarrow> True | _ \<Rightarrow> False)"

text \<open>The number of encrypted envelopes that left the node.\<close>

definition copies :: "'d logged_state \<Rightarrow> nat" where
  "copies s = length (filter is_copy (snd (snd s)))"

lemma on_records [simp]:
  "sn_records (fst (snd (on_mgr x s))) = sn_records (fst s)" "sn_records (fst (snd (on_dir y s))) = sn_records (fst s)"
  by (simp_all add: on_mgr_def on_dir_def)

lemma copies_on_mgr [simp]: "copies (snd (on_mgr x s)) = copies s"
  by (simp add: on_mgr_def copies_def)

lemma copies_node [simp]: "copies (n, snd s) = copies s" "copies (n, d, l) = length (filter is_copy l)"
  by (simp_all add: copies_def)

lemma copies_on_send:
  "copies (snd (on_dir (dir_send (logged D) (snd s) u d env) s)) =
     copies s + (if isl (fst (dir_send (logged D) (snd s) u d env)) then 0 else if is_copy env then 1 else 0)"
  by (auto simp: on_dir_def logged_def copies_def split: prod.split sum.split)

lemma copies_on_reply:
  "\<not> is_copy env \<Longrightarrow> copies (snd (on_dir (dir_send (logged D) (snd s) u d env) (n, snd s))) = copies s"
  using copies_on_send [of D "(n, snd s)" u d env] by simp

lemma isl_on_dir [simp]: "fst (on_dir x s) = fst x" "fst (on_mgr y s) = fst y"
  by (simp_all add: on_dir_def on_mgr_def)

lemma is_copy_envelope [simp]:
  "is_copy (envelope_from n (Encrypted a b c e f))" "\<not> is_copy (envelope_from n (RetryRequest a))"
  "\<not> is_copy (envelope_from n (DeliveryReceipt a))"
  by (simp_all add: is_copy_def envelope_from_def)

lemma after_mgr: "on_mgr x s = (res, t) \<Longrightarrow> copies t = copies s \<and> sn_records (fst t) = sn_records (fst s)"
  by (auto simp: on_mgr_def copies_def)

lemma after_send:
  "on_dir (dir_send (logged D) x u d (envelope_from n (Encrypted a b c e f))) (n', x) = (res, t) \<Longrightarrow>
   copies t = length (filter is_copy (snd x)) + (if isl res then 0 else 1) \<and> sn_records (fst t) = sn_records n'"
  using copies_on_send [of D "(n', x)" u d "envelope_from n (Encrypted a b c e f)"]
  by (auto simp: on_dir_def copies_def [of "(n', x)"])

text \<open>A successful send hands over one envelope and files one record that counts it; a failing one does neither.\<close>

definition new_record :: "bytes \<Rightarrow> bytes \<Rightarrow> bytes \<Rightarrow> bytes \<Rightarrow> message_record" where
  "new_record mid pt u sid = \<lparr>mr_id = mid, mr_plaintext = pt, mr_user = u, mr_session = sid, mr_attempts = 1\<rparr>"

lemma send_to_device_sent:
  assumes "send_to_device C (logged D) r u dev pt i sk dh now n s = (Inr mid, s')"
  shows "copies s' = copies s + 1 \<and> (\<exists>sid. sn_records (fst s') = sn_records (fst s) @ [new_record mid pt u sid])"
  using assms unfolding send_to_device_def Let_def
  by (auto simp: sbind_Inr_iff new_record_def dest!: after_mgr after_send)

lemma send_to_device_failed:
  assumes "send_to_device C (logged D) r u dev pt i sk dh now n s = (Inl e, s')"
  shows "copies s' = copies s \<and> sn_records (fst s') = sn_records (fst s)"
  using assms unfolding send_to_device_def Let_def
  by (auto simp: sbind_Inl_iff dest!: after_mgr after_send)

text \<open>The state after record \<open>idx\<close> was counted: its attempts went up by one, the others are unchanged, and
  at most one envelope left.\<close>

definition counted :: "'d logged_state \<Rightarrow> nat \<Rightarrow> 'd logged_state \<Rightarrow> bool" where
  "counted s idx t \<longleftrightarrow> map mr_attempts (sn_records (fst t)) =
     (map mr_attempts (sn_records (fst s)))[idx := mr_attempts (sn_records (fst s) ! idx) + 1]"

lemma counted_on [simp]: "counted s idx (snd (on_mgr x t)) = counted s idx t" "counted s idx (snd (on_dir y t)) = counted s idx t"
  by (simp_all add: counted_def)

lemma counted_rename:
  "counted s idx t \<Longrightarrow> idx < length (sn_records (fst s)) \<Longrightarrow> counted s idx (set_record (fst t) idx (\<lambda>x. x\<lparr>mr_id := i, mr_session := j\<rparr>), e)"
  unfolding counted_def set_record_def
  by (auto simp: map_update list_eq_iff_nth_eq nth_list_update)

lemma sbind_then:
  assumes "P (snd x)" "\<And>t. P t \<Longrightarrow> Q t" "\<And>a t. P t \<Longrightarrow> Q (snd (f a t))"
  shows "Q (snd (sbind x f))"
  using assms by (cases x; cases "fst x") auto

text \<open>A retry request is refused, ignored, or answered by a counted retransmission below the limit.\<close>

lemma handle_retry_cases:
  assumes "handle_retry C (logged D) r u d mid i now s = (res, s')" "position (\<lambda>rec. mr_id rec = mid) (sn_records (fst s)) = Some idx"
  obtains "s' = s"
  | "mr_attempts (sn_records (fst s) ! idx) < MAX_RESEND_ATTEMPTS" "counted s idx s'" "copies s \<le> copies s'" "copies s' \<le> copies s + 1"
proof (cases "mr_attempts (sn_records (fst s) ! idx) \<ge> MAX_RESEND_ATTEMPTS \<or> mr_user (sn_records (fst s) ! idx) \<noteq> u")
  case True
  then show thesis using that(1) assms by (auto simp: handle_retry_def Let_def split: if_splits)
next
  case False
  have len: "idx < length (sn_records (fst s))" using position_bound [OF assms(2)] by simp
  let ?s1 = "(set_record (fst s) idx (\<lambda>x. x\<lparr>mr_attempts := mr_attempts x + 1\<rparr>), snd s)"
  define P where "P t \<longleftrightarrow> counted s idx t \<and> copies t = copies s" for t
  define Q where "Q t \<longleftrightarrow> counted s idx t \<and> copies s \<le> copies t \<and> copies t \<le> copies s + 1" for t
  have P1: "P ?s1" using len by (simp add: P_def counted_def set_record_def map_update)
  have PQ: "Q t" if "P t" for t using that by (simp add: P_def Q_def)
  have Pm: "P (snd (on_mgr x t))" if "P t" for x :: "(prim_error + 'x) \<times> session_manager" and t using that by (simp add: P_def)
  have Pr: "P (set_record (fst t) idx (\<lambda>x. x\<lparr>mr_id := i, mr_session := j\<rparr>), snd t)" if "P t" for t i j
    using that counted_rename [OF _ len, of t j i "snd t"] by (simp add: P_def)
  have Qs: "Q (snd (on_dir (dir_send (logged D) (snd t) u d env) t))" if "P t" for t env
    using that by (simp add: P_def Q_def copies_on_send)
  have "Q (snd (handle_retry C (logged D) r u d mid i now s))"
    using assms(2) False unfolding handle_retry_def Let_def case_prod_beta
    by (simp only: option.case if_False de_Morgan_disj not_not simp_thms)
       (rule sbind_then [where P = P, OF Pm [OF P1] PQ], assumption, rule sbind_then [where P = P, OF Pm PQ],
        assumption, assumption, rule Qs, rule Pr)
  then show thesis using that(2) False assms(1) by (auto simp: Q_def)
qed

lemma handle_retry_unknown:
  "position (\<lambda>rec. mr_id rec = mid) (sn_records (fst s)) = None \<Longrightarrow> handle_retry C D r u d mid i now s = (Inl Internal, s)"
  by (simp add: handle_retry_def)

lemma receive_encrypted:
  assumes "receive_one C (logged D) r i now env s = (res, s')" "env_body env = Encrypted mid sid hb ct b"
  shows "copies s' = copies s \<and> sn_records (fst s') = sn_records (fst s)"
proof -
  let ?P = "\<lambda>t. copies t = copies s \<and> sn_records (fst t) = sn_records (fst s)"
  have st: "?P t \<Longrightarrow> ?P ((fst t)\<lparr>sn_mgr := m\<rparr>, snd t)" for t m by simp
  have "?P (snd (receive_one C (logged D) r i now env s))"
    unfolding receive_one_def assms(2) mailbox_body.case
    by (rule sbind_keeps [where P = ?P], simp)
       (auto simp: Let_def copies_on_reply split: prod.split sum.split intro!: sbind_keeps [where P = ?P])
  then show ?thesis using assms(1) by simp
qed

text \<open>
  What happens to a node, one message or envelope at a time, beside a tally: for every record the number of
  encrypted envelopes sent for it, and the final numbers of the messages whose record was removed by a receipt.
\<close>

inductive node_event :: "crypto \<Rightarrow> 'd directory \<Rightarrow> 'd logged_state \<times> nat list \<times> nat list \<Rightarrow>
    'd logged_state \<times> nat list \<times> nat list \<Rightarrow> bool" for C D where
  ev_send: "send_to_device C (logged D) r u dev pt i sk dh now n s = (Inr mid, s') \<Longrightarrow>
    node_event C D (s, tally, fin) (s', tally @ [copies s' - copies s], fin)"
| ev_send_fails: "send_to_device C (logged D) r u dev pt i sk dh now n s = (Inl e, s') \<Longrightarrow>
    node_event C D (s, tally, fin) (s', tally, fin)"
| ev_retry: "handle_retry C (logged D) r u d mid i now s = (res, s') \<Longrightarrow>
    position (\<lambda>rec. mr_id rec = mid) (sn_records (fst s)) = Some idx \<Longrightarrow>
    node_event C D (s, tally, fin) (s', tally[idx := tally ! idx + (copies s' - copies s)], fin)"
| ev_retry_unknown: "handle_retry C (logged D) r u d mid i now s = (res, s') \<Longrightarrow>
    position (\<lambda>rec. mr_id rec = mid) (sn_records (fst s)) = None \<Longrightarrow>
    node_event C D (s, tally, fin) (s', tally, fin)"
| ev_receipt: "receive_one C (logged D) r i now env s = (res, s') \<Longrightarrow> env_body env = DeliveryReceipt mid \<Longrightarrow>
    ps = zip (sn_records (fst s)) tally \<Longrightarrow>
    node_event C D (s, tally, fin) (s', map snd (filter (\<lambda>(rec, _). mr_id rec \<noteq> mid) ps),
      fin @ map snd (filter (\<lambda>(rec, _). mr_id rec = mid) ps))"
| ev_message: "receive_one C (logged D) r i now env s = (res, s') \<Longrightarrow> env_body env = Encrypted mid sid hb ct b \<Longrightarrow>
    node_event C D (s, tally, fin) (s', tally, fin)"
| ev_fetch: "dir_fetch (logged D) (snd s) u d = (inbox, dir') \<Longrightarrow>
    node_event C D (s, tally, fin) ((fst s, dir'), tally, fin)"

definition within_limit :: "message_record \<Rightarrow> nat \<Rightarrow> bool" where
  "within_limit rec n \<longleftrightarrow> 1 \<le> n \<and> n \<le> unat (mr_attempts rec) \<and> mr_attempts rec \<le> MAX_RESEND_ATTEMPTS"

fun tallied :: "'d logged_state \<times> nat list \<times> nat list \<Rightarrow> bool" where
  "tallied (s, tally, fin) \<longleftrightarrow> list_all2 within_limit (sn_records (fst s)) tally \<and>
     (\<forall>n \<in> set fin. n \<le> unat MAX_RESEND_ATTEMPTS) \<and> copies s = sum_list tally + sum_list fin"

lemma within_limit_new: "within_limit (new_record mid pt u sid) 1"
  by (simp add: within_limit_def new_record_def MAX_RESEND_ATTEMPTS_def)

lemma within_limit_max: "within_limit rec n \<Longrightarrow> n \<le> unat MAX_RESEND_ATTEMPTS"
  by (auto simp: within_limit_def word_le_nat_alt)

lemma within_limit_counted:
  assumes "within_limit rec n" "mr_attempts rec < MAX_RESEND_ATTEMPTS" "mr_attempts rec' = mr_attempts rec + 1" "k \<le> 1"
  shows "within_limit rec' (n + k)"
proof -
  have "unat (mr_attempts rec) < 5" using assms(2) by (simp add: MAX_RESEND_ATTEMPTS_def word_less_nat_alt)
  then have "unat (mr_attempts rec + 1) = unat (mr_attempts rec) + 1" using unat_add_lem [of "mr_attempts rec" 1] by simp
  with assms \<open>unat (mr_attempts rec) < 5\<close> show ?thesis
    by (auto simp: within_limit_def MAX_RESEND_ATTEMPTS_def word_le_nat_alt)
qed

lemma split_tally:
  "list_all2 Q xs ns \<Longrightarrow> list_all2 Q (filter P xs) (map snd (filter (\<lambda>(x, _). P x) (zip xs ns))) \<and>
     (\<forall>n \<in> set (map snd (filter (\<lambda>(x, _). \<not> P x) (zip xs ns))). n \<in> set ns) \<and>
     sum_list ns = sum_list (map snd (filter (\<lambda>(x, _). P x) (zip xs ns))) +
       sum_list (map snd (filter (\<lambda>(x, _). \<not> P x) (zip xs ns)))" for ns :: "nat list"
  by (induction rule: list_all2_induct) auto

lemma tallied_retry:
  assumes "tallied (s, tally, fin)" "handle_retry C (logged D) r u d mid i now s = (res, s')"
    and "position (\<lambda>rec. mr_id rec = mid) (sn_records (fst s)) = Some idx"
  shows "tallied (s', tally[idx := tally ! idx + (copies s' - copies s)], fin)"
  using assms(2,3)
proof (cases rule: handle_retry_cases)
  case 1
  with assms(1) show ?thesis by (simp add: list_update_id)
next
  case 2
  have t: "list_all2 within_limit (sn_records (fst s)) tally" using assms(1) by simp
  then have len: "idx < length tally" "length tally = length (sn_records (fst s))"
    using position_bound [OF assms(3)] by (simp_all add: list_all2_lengthD)
  have l: "length (sn_records (fst s')) = length (sn_records (fst s))"
    using arg_cong [OF 2(2) [unfolded counted_def], of length] by simp
  have a: "mr_attempts (sn_records (fst s') ! j) =
      (if j = idx then mr_attempts (sn_records (fst s) ! idx) + 1 else mr_attempts (sn_records (fst s) ! j))"
    if "j < length tally" for j
    using arg_cong [OF 2(2) [unfolded counted_def], of "\<lambda>xs. xs ! j"] that len l by (simp add: nth_list_update)
  have "within_limit (sn_records (fst s') ! j) (tally[idx := tally ! idx + (copies s' - copies s)] ! j)" if "j < length tally" for j
  proof (cases "j = idx")
    case True
    then show ?thesis
      using within_limit_counted [of "sn_records (fst s) ! idx" "tally ! idx" "sn_records (fst s') ! idx" "copies s' - copies s"]
        list_all2_nthD [OF t, of idx] 2 a [of idx] len by simp
  next
    case False
    then show ?thesis using list_all2_nthD [OF t, of j] a [OF that] that len by (simp add: within_limit_def)
  qed
  then have "list_all2 within_limit (sn_records (fst s')) (tally[idx := tally ! idx + (copies s' - copies s)])"
    using l len by (simp add: list_all2_conv_all_nth)
  moreover have "tally ! idx \<le> sum_list tally" using len(1) by (simp add: elem_le_sum_list)
  ultimately show ?thesis using assms(1) 2 len(1) by (simp add: sum_list_update)
qed

lemma tallied_step: "node_event C D x y \<Longrightarrow> tallied x \<Longrightarrow> tallied y"
proof (induction rule: node_event.induct)
  case (ev_send r u dev pt i sk dh now n s mid s' tally fin)
  then show ?case using send_to_device_sent [OF ev_send(1)]
    by (auto simp: list_all2_appendI within_limit_new [simplified])
next
  case (ev_send_fails r u dev pt i sk dh now n s e s' tally fin)
  then show ?case using send_to_device_failed [OF ev_send_fails(1)] by simp
next
  case (ev_retry r u d mid i now s res s' idx tally fin)
  then show ?case by (intro tallied_retry)
next
  case (ev_retry_unknown r u d mid i now s res s' tally fin)
  then show ?case by (simp add: handle_retry_unknown)
next
  case (ev_receipt r i now env s res s' mid ps tally fin)
  have s': "sn_records (fst s') = filter (\<lambda>rec. mr_id rec \<noteq> mid) (sn_records (fst s))" "copies s' = copies s"
    using ev_receipt(1,2) by (auto simp: receive_one_def)
  have t: "list_all2 within_limit (sn_records (fst s)) tally" using ev_receipt(4) by simp
  have "n \<le> unat MAX_RESEND_ATTEMPTS" if "n \<in> set tally" for n
    using that t by (auto simp: list_all2_conv_all_nth in_set_conv_nth intro: within_limit_max)
  then show ?case
    using ev_receipt(3,4) s' split_tally [OF t, of "\<lambda>rec. mr_id rec \<noteq> mid"] by auto
next
  case (ev_message r i now env s res s' mid sid hb ct b tally fin)
  then show ?case using receive_encrypted [OF ev_message(1,2)] by simp
next
  case (ev_fetch s u d inbox dir' tally fin)
  then have "copies (fst s, dir') = copies s" by (auto simp: logged_def copies_def split: prod.splits)
  with ev_fetch show ?case by simp
qed

text \<open>The operations of a node are sequences of these events.\<close>

definition reaches :: "crypto \<Rightarrow> 'd directory \<Rightarrow> 'd logged_state \<Rightarrow> 'd logged_state \<Rightarrow> bool" where
  "reaches C D s t \<longleftrightarrow> (\<forall>tally fin. \<exists>tally' fin'. (node_event C D)\<^sup>*\<^sup>* (s, tally, fin) (t, tally', fin'))"

lemma reaches_refl [simp]: "reaches C D s s"
  unfolding reaches_def by blast

lemma reaches_trans: "reaches C D s t \<Longrightarrow> reaches C D t v \<Longrightarrow> reaches C D s v"
  unfolding reaches_def by (meson rtranclp_trans)

lemma reaches_event: "(\<And>tally fin. \<exists>tally' fin'. node_event C D (s, tally, fin) (t, tally', fin')) \<Longrightarrow> reaches C D s t"
  unfolding reaches_def by blast

lemma reaches_sbind:
  assumes "reaches C D s (snd x)" "\<And>a t. x = (Inr a, t) \<Longrightarrow> reaches C D t (snd (f a t))"
  shows "reaches C D s (snd (sbind x f))"
  using assms by (cases x; cases "fst x") (auto intro: reaches_trans)

lemma reaches_send: "reaches C D s (snd (send_to_device C (logged D) r u dev pt i sk dh now n s))"
proof -
  obtain res t where "send_to_device C (logged D) r u dev pt i sk dh now n s = (res, t)" by (metis surj_pair)
  then show ?thesis by (cases res) (auto intro!: reaches_event intro: ev_send ev_send_fails)
qed

lemma reaches_devices: "reaches C D s (snd (send_devices C (logged D) rs u pt i sk dh now ds n k ids s))"
proof (induction ds arbitrary: n k ids s u)
  case (Cons p ds)
  obtain dev pk where p: "p = (dev, pk)" by (cases p)
  show ?case unfolding p send_devices.simps
    by (cases "u = sn_user (fst s) \<and> dev = sn_device (fst s)") (simp_all add: Cons reaches_sbind reaches_send)
qed simp

lemma reaches_users: "reaches C D s (snd (send_users C (logged D) rs pt i sk dh now us k ids s))"
proof (induction us arbitrary: k ids s)
  case (Cons u us)
  then show ?case
    by (cases "dir_query (logged D) (snd s) u") (simp_all add: case_prod_beta reaches_sbind reaches_devices)
qed simp

lemma reaches_receive: "reaches C D s (snd (receive_one C (logged D) r i now env s))"
proof -
  obtain res t where Pair: "receive_one C (logged D) r i now env s = (res, t)" by (metis surj_pair)
  show ?thesis
  proof (cases "env_body env")
    case (RetryRequest mid)
    then have "t = snd (handle_retry C (logged D) r (from_user env) (from_device env) mid i now s)"
      using Pair by (cases "handle_retry C (logged D) r (from_user env) (from_device env) mid i now s"; cases "fst (handle_retry C (logged D) r (from_user env) (from_device env) mid i now s)")
        (auto simp: receive_one_def)
    then obtain res' where h: "handle_retry C (logged D) r (from_user env) (from_device env) mid i now s = (res', t)"
      by (metis prod.collapse)
    then show ?thesis using Pair
      by (cases "position (\<lambda>rec. mr_id rec = mid) (sn_records (fst s))") (auto intro!: reaches_event intro: ev_retry ev_retry_unknown)
  qed (use Pair in \<open>auto intro!: reaches_event intro: ev_message ev_receipt\<close>)
qed

lemma reaches_loop: "reaches C D s (snd (receive_loop C (logged D) rs i now envs k out s))"
  by (induction envs arbitrary: k out s) (simp_all add: reaches_sbind reaches_receive)

datatype node_op =
    NSend "nat \<Rightarrow> rng" "bytes list" bytes identity_material bytes bytes u64
  | NReceive "nat \<Rightarrow> rng" identity_material u64

fun node_apply :: "crypto \<Rightarrow> 'd directory \<Rightarrow> node_op \<Rightarrow> sesame_node \<times> 'd \<Rightarrow> sesame_node \<times> 'd" where
  "node_apply C D (NSend rs us pt i sk dh now) s = snd (sesame_send C D rs s us pt i sk dh now)"
| "node_apply C D (NReceive rs i now) s = snd (receive_all C D rs s i now)"

lemma reaches_apply: "reaches C D s (node_apply C (logged D) op s)"
proof (cases op)
  case (NReceive rs i now)
  obtain b dir where f: "dir_fetch (logged D) (snd s) (sn_user (fst s)) (sn_device (fst s)) = (b, dir)" by (metis surj_pair)
  then have "reaches C D s (fst s, dir)" by (auto intro!: reaches_event intro: ev_fetch)
  then show ?thesis using NReceive f reaches_trans reaches_loop by (simp add: receive_all_def) blast
qed (simp add: sesame_send_def reaches_users)

lemma reaches_run: "reaches C D s (fold (node_apply C (logged D)) ops s)"
  by (induction ops arbitrary: s) (simp_all, meson reaches_apply reaches_trans)

text \<open>The log is only an observer: without it the node and the directory do the same.\<close>

definition unlog :: "'r \<times> 'd logged_state \<Rightarrow> 'r \<times> sesame_node \<times> 'd" where
  "unlog x = (fst x, fst (snd x), fst (snd (snd x)))"

lemma unlog_sbind:
  assumes "unlog x = y" "\<And>a n e l. unlog (f a (n, e, l)) = g a (n, e)"
  shows "unlog (sbind x f) = sbind y g"
  using assms by (cases x; cases "fst x") (auto simp: unlog_def)

lemma unlog_on [simp]:
  "unlog (on_mgr x (n, e, l)) = on_mgr x (n, e)"
  "unlog (on_dir (dir_send (logged D) (e, l) u d env) (n, e, l)) = on_dir (dir_send D e u d env) (n, e)"
  "unlog (res, n, e, l) = (res, n, e)"
  by (auto simp: unlog_def on_mgr_def on_dir_def logged_def split: prod.split sum.split)

lemma unlog_send:
  "unlog (send_to_device C (logged D) r u dev pt i sk dh now k (n, e, l)) = send_to_device C D r u dev pt i sk dh now k (n, e)"
  unfolding send_to_device_def Let_def case_prod_beta by (intro unlog_sbind) simp_all

lemma unlog_devices:
  "unlog (send_devices C (logged D) rs u pt i sk dh now ds j k ids (n, e, l)) = send_devices C D rs u pt i sk dh now ds j k ids (n, e)"
proof (induction ds arbitrary: j k ids n e l u)
  case (Cons p ds)
  obtain dev pk where p: "p = (dev, pk)" by (cases p)
  show ?case unfolding p send_devices.simps by (auto intro!: unlog_sbind simp: unlog_send Cons)
qed simp

lemma unlog_users:
  "unlog (send_users C (logged D) rs pt i sk dh now us k ids (n, e, l)) = send_users C D rs pt i sk dh now us k ids (n, e)"
proof (induction us arbitrary: k ids n e l)
  case (Cons u us)
  have "dir_query (logged D) (e, l) u = dir_query D e u" by (simp add: logged_def)
  then show ?case
    by (cases "dir_query D e u") (auto intro!: unlog_sbind simp: unlog_devices Cons)
qed simp

lemma unlog_retry:
  "unlog (handle_retry C (logged D) r u d mid i now (n, e, l)) = handle_retry C D r u d mid i now (n, e)"
  unfolding handle_retry_def Let_def case_prod_beta
  by (auto intro!: unlog_sbind split: option.split)

lemma unlog_receive:
  "unlog (receive_one C (logged D) r i now env (n, e, l)) = receive_one C D r i now env (n, e)"
  unfolding receive_one_def Let_def
  by (auto intro!: unlog_sbind simp: unlog_retry split: mailbox_body.split prod.split sum.split)

lemma unlog_loop:
  "unlog (receive_loop C (logged D) rs i now envs k out (n, e, l)) = receive_loop C D rs i now envs k out (n, e)"
  by (induction envs arbitrary: k out n e l) (auto intro!: unlog_sbind simp: unlog_receive)

lemma unlog_apply: "snd (unlog (x, node_apply C (logged D) op (n, e, l))) = node_apply C D op (n, e)"
proof (cases op)
  case (NSend rs us pt i sk dh now)
  then show ?thesis
    using unlog_users [of C D rs pt i sk dh now us 0 "[]" n e l, THEN arg_cong, of snd] by (simp add: unlog_def sesame_send_def)
next
  case (NReceive rs i now)
  obtain b e' where f: "dir_fetch D e (sn_user n) (sn_device n) = (b, e')" by (metis surj_pair)
  then have "dir_fetch (logged D) (e, l) (sn_user n) (sn_device n) = (b, e', l)" by (simp add: logged_def)
  with NReceive f show ?thesis
    using unlog_loop [of C D rs i now b 0 "[]" n e' l, THEN arg_cong, of snd] by (simp add: unlog_def receive_all_def)
qed

lemma unlog_run: "snd (unlog (x, fold (node_apply C (logged D)) ops (n, e, l))) = fold (node_apply C D) ops (n, e)"
proof (induction ops arbitrary: n e l)
  case (Cons op ops)
  obtain n' e' l' where t: "node_apply C (logged D) op (n, e, l) = (n', e', l')" by (metis surj_pair)
  with unlog_apply [of x C D op n e l] Cons [of n' e' l'] show ?case by (simp add: unlog_def)
qed (simp add: unlog_def)

lemma tallied_events: "(node_event C D)\<^sup>*\<^sup>* x y \<Longrightarrow> tallied x \<Longrightarrow> tallied y"
  by (induction rule: rtranclp_induct) (simp_all add: tallied_step)

text \<open>C33: Retransmissions are bounded. Whatever a node sends and receives, over any directory: its run is a
  sequence of events, each of them sending one message to one device, answering one retry request, or taking
  one receipt or message from the inbox. Along them, tally for every message record how many encrypted envelopes the
  directory accepted for it, and keep the final number of a message when its receipt removes the record. Then
  no message, pending or acknowledged, was transmitted more than \<open>MAX_RESEND_ATTEMPTS\<close> times, every
  pending one was transmitted at least once and at most as often as its record says, and every encrypted
  envelope the node ever sent is in exactly one of the tallies.\<close>

theorem resends_are_bounded:
  assumes "s0 = (node_new u d m, dir, [])" "s = fold (node_apply C (logged D)) ops s0"
  shows "(fst s, fst (snd s)) = fold (node_apply C D) ops (node_new u d m, dir) \<and>
    (\<exists>tally fin. (node_event C D)\<^sup>*\<^sup>* (s0, [], []) (s, tally, fin)) \<and>
    (\<forall>tally fin. (node_event C D)\<^sup>*\<^sup>* (s0, [], []) (s, tally, fin) \<longrightarrow>
      list_all2 (\<lambda>rec n. 1 \<le> n \<and> n \<le> unat (mr_attempts rec) \<and> mr_attempts rec \<le> MAX_RESEND_ATTEMPTS) (sn_records (fst s)) tally \<and>
      (\<forall>n \<in> set (tally @ fin). n \<le> 5) \<and>
      length (filter (\<lambda>env. case env_body env of Encrypted _ _ _ _ _ \<Rightarrow> True | _ \<Rightarrow> False) (snd (snd s))) = sum_list (tally @ fin))"
proof (intro conjI allI impI)
  show "(fst s, fst (snd s)) = fold (node_apply C D) ops (node_new u d m, dir)"
    using unlog_run [of "()" C D ops "node_new u d m" dir "[]"] assms by (simp add: unlog_def)
  show "\<exists>tally fin. (node_event C D)\<^sup>*\<^sup>* (s0, [], []) (s, tally, fin)"
    using reaches_run [of C D s0 ops] unfolding assms(2) reaches_def by blast
next
  fix tally fin
  assume "(node_event C D)\<^sup>*\<^sup>* (s0, [], []) (s, tally, fin)"
  then have t: "tallied (s, tally, fin)"
    by (rule tallied_events) (simp add: assms(1) node_new_def)
  then show "list_all2 (\<lambda>rec n. 1 \<le> n \<and> n \<le> unat (mr_attempts rec) \<and> mr_attempts rec \<le> MAX_RESEND_ATTEMPTS) (sn_records (fst s)) tally"
    by (simp add: within_limit_def [abs_def])
  then have "\<forall>n \<in> set tally. n \<le> unat MAX_RESEND_ATTEMPTS"
    by (fastforce simp: list_all2_conv_all_nth in_set_conv_nth word_le_nat_alt)
  then show "\<forall>n \<in> set (tally @ fin). n \<le> 5"
    using t by (auto simp: MAX_RESEND_ATTEMPTS_def)
  show "length (filter (\<lambda>env. case env_body env of Encrypted _ _ _ _ _ \<Rightarrow> True | _ \<Rightarrow> False) (snd (snd s))) = sum_list (tally @ fin)"
    using t by (simp add: copies_def is_copy_def [abs_def])
qed

subsection \<open>Losing an inbox\<close>

text \<open>C38: One bad envelope loses the rest of an inbox. \<open>receive_all\<close> empties the mailbox before it looks at the
  envelopes and stops at the first error: if the inbox starts with a retry request for a message
  the node has no record of (anyone can send one), it returns an error, nothing is processed, and
  every envelope behind it is gone from the mailbox.\<close>

theorem unknown_retry_loses_inbox:
  assumes "md_box dir (sn_user n, sn_device n) = Some (env # envs)" "env_body env = RetryRequest mid"
    and "\<forall>rec \<in> set (sn_records n). mr_id rec \<noteq> mid"
  shows "\<exists>dir'. receive_all C memory_dir rs (n, dir) i now = (Inl Internal, (n, dir')) \<and>
    md_box dir' (sn_user n, sn_device n) = Some []"
proof -
  obtain dir' where f: "dir_fetch memory_dir dir (sn_user n) (sn_device n) = (env # envs, dir')"
    "md_box dir' = (md_box dir)((sn_user n, sn_device n) \<mapsto> [])" using mdl.fetch_open [OF assms(1)] by blast
  have "position (\<lambda>rec. mr_id rec = mid) xs = None" if "\<forall>rec \<in> set xs. mr_id rec \<noteq> mid" for xs :: "message_record list"
    using that by (induction xs) simp_all
  then have "receive_one C memory_dir (rs 0) i now env (n, dir') = (Inl Internal, (n, dir'))"
    using assms(2,3) by (simp add: receive_one_def handle_retry_def)
  with f show ?thesis by (simp add: receive_all_def)
qed

subsection \<open>Delivery\<close>

text \<open>Opening the first session with a user: one device with one session appears, nothing else changes.\<close>

definition elsewhere_same :: "bytes \<Rightarrow> bytes \<Rightarrow> session_manager \<Rightarrow> session_manager \<Rightarrow> bool" where
  "elsewhere_same u d m m' \<longleftrightarrow> (\<forall>u' d'. (u', d') \<noteq> (u, d) \<longrightarrow> dev_get m' u' d' = dev_get m u' d')"

lemma elsewhere_same_refl [simp]: "elsewhere_same u d m m"
  by (simp add: elsewhere_same_def)

lemma elsewhere_same_trans: "elsewhere_same u d m m1 \<Longrightarrow> elsewhere_same u d m1 m2 \<Longrightarrow> elsewhere_same u d m m2"
  by (simp add: elsewhere_same_def)

lemma elsewhere_same_set:
  assumes "elsewhere_same u d m m'"
  shows "elsewhere_same u d m (dev_set m' u d dv)"
proof -
  have "dev_get (dev_set m' u d dv) u' d' = dev_get m' u' d'" if "(u', d') \<noteq> (u, d)" for u' d'
    using that by (auto simp: dev_set_def dev_get_def split: option.split)
  then show ?thesis using assms by (simp add: elsewhere_same_def)
qed

lemma elsewhere_same_count [simp]: "elsewhere_same u d m (m'\<lparr>sm_initiating := n\<rparr>) = elsewhere_same u d m m'"
  by (simp add: elsewhere_same_def dev_get_def)

lemma ensure_new_user:
  assumes "hm_get (sm_users m) u = None" "user_count m < MAX_USERS"
  obtains m' where "ensure_user_device m u d i = (Inr (), m')" "dev_get m' u d = Some (empty_device d i)"
    "identity_gate m' u d i = Inr (empty_device d i)" "elsewhere_same u d m m'" "sm_initiating m' = sm_initiating m"
proof -
  let ?m = "dev_set (m\<lparr>sm_users := hm_insert (sm_users m) u (empty_user u)\<rparr>) u d (empty_device d i)"
  have "elsewhere_same u d m (m\<lparr>sm_users := hm_insert (sm_users m) u (empty_user u)\<rparr>)"
    using assms(1) by (auto simp: elsewhere_same_def dev_get_def empty_user_def)
  then have "elsewhere_same u d m ?m" by (rule elsewhere_same_set)
  then show thesis
    using assms by (intro that [of ?m])
      (simp_all add: ensure_user_device_def user_count_def identity_gate_def dev_set_def dev_get_def empty_user_def MAX_DEVICES_PER_USER_def)
qed

lemma outbound_first:
  assumes "fst (init_alice C r sk dh DEFAULT_MAX_SKIP) = Inr a"
    and "hm_get (sm_users m0) u = None" "user_count m0 < MAX_USERS" "sm_initiating m0 < MAX_INITIATING_SESSIONS"
  obtains sid m rec where "prepare_outbound C r m0 u d i sk dh now = (Inr sid, m)"
    "dev_get m u d = Some ((empty_device d i)\<lparr>dv_active := Some rec\<rparr>)" "sr_id rec = sid" "sr_ratchet rec = a"
    "elsewhere_same u d m0 m"
proof -
  obtain r1 where a: "init_alice C r sk dh DEFAULT_MAX_SKIP = (Inr a, r1)" using assms(1) by (cases "init_alice C r sk dh DEFAULT_MAX_SKIP") auto
  obtain m1 where m1: "ensure_user_device m0 u d i = (Inr (), m1)" "dev_get m1 u d = Some (empty_device d i)"
    "identity_gate m1 u d i = Inr (empty_device d i)" "elsewhere_same u d m0 m1" "sm_initiating m1 = sm_initiating m0"
    by (rule ensure_new_user [OF assms(2,3)])
  let ?x = "prepare_outbound C r m0 u d i sk dh now" and ?rec =
    "\<lparr>sr_id = new_session_id r1, sr_status = Initiating, sr_ratchet = a, sr_timestamp = now\<rparr>"
  have "?x = (Inr (new_session_id r1), (dev_set (dev_set m1 u d (empty_device d i)) u d ((empty_device d i)\<lparr>dv_active := Some ?rec\<rparr>))
      \<lparr>sm_initiating := sm_initiating m0 + 1\<rparr>)"
    using assms(4) m1 a
    by (simp add: prepare_outbound_def open_outbound_def Let_def session_count_def MAX_SESSIONS_PER_DEVICE_def empty_device_def)
  moreover have "dev_get m1 u d \<noteq> None" using m1(2) by simp
  ultimately show thesis
    using m1(4) by (intro that [of "new_session_id r1" "snd ?x" ?rec]) (simp_all add: dev_get_set elsewhere_same_set)
qed

lemma inbound_first:
  assumes "hm_get (sm_users m0) u = None" "user_count m0 < MAX_USERS"
  obtains sid m rec where "prepare_inbound r m0 u d i sk y now = (Inr sid, m)"
    "dev_get m u d = Some ((empty_device d i)\<lparr>dv_active := Some rec\<rparr>)" "sr_ratchet rec = init_bob sk y DEFAULT_MAX_SKIP"
    "elsewhere_same u d m0 m"
proof -
  obtain m1 where m1: "ensure_user_device m0 u d i = (Inr (), m1)" "dev_get m1 u d = Some (empty_device d i)"
    "identity_gate m1 u d i = Inr (empty_device d i)" "elsewhere_same u d m0 m1"
    by (rule ensure_new_user [OF assms])
  let ?x = "prepare_inbound r m0 u d i sk y now" and ?rec =
    "\<lparr>sr_id = new_session_id r, sr_status = Active, sr_ratchet = init_bob sk y DEFAULT_MAX_SKIP, sr_timestamp = now\<rparr>"
  have "?x = (Inr (new_session_id r), dev_set m1 u d ((empty_device d i)\<lparr>dv_active := Some ?rec\<rparr>))"
    using m1 by (simp add: prepare_inbound_def Let_def empty_device_def)
  with m1(2,4) show thesis
    by (intro that [of "new_session_id r" "snd ?x" ?rec]) (simp_all add: dev_get_set elsewhere_same_set)
qed

lemma active_encrypt_fresh:
  assumes "dev_get m u d = Some dv" "dv_active dv = Some rec" "dr_encrypt C (sr_ratchet rec) pt (bstr ''sesame'') = (Inr hc, a')"
  shows "\<exists>m'. active_encrypt C m u d pt = (Inr hc, m') \<and> elsewhere_same u d m m'"
  using assms by (simp add: active_encrypt_def elsewhere_same_set)

text \<open>With no inactive session, a message is tried on the active one whatever session it names.\<close>

lemma try_decrypt_fresh:
  assumes "dev_get m u d = Some ((empty_device d i)\<lparr>dv_active := Some rec\<rparr>)"
    and "dr_decrypt C r (sr_ratchet rec) h ct (bstr ''sesame'') = (Inr pt, b')"
  shows "\<exists>m'. try_decrypt C r m u d sid h ct = (Inr pt, m') \<and> elsewhere_same u d m m'"
  using assms by (simp add: try_decrypt_def try_one_def empty_device_def Let_def elsewhere_same_set)

lemma receipt_elsewhere:
  "elsewhere_same u d m (snd (confirm_session (snd (receive_on_session m u d sid)) u d sid))"
proof -
  have "elsewhere_same u d m (snd (confirm_session m u d sid))" for m
    by (cases "dev_get m u d") (simp_all add: confirm_session_def elsewhere_same_set split: option.split)
  moreover have "elsewhere_same u d m (snd (receive_on_session m u d sid))"
    by (cases "dev_get m u d") (simp_all add: receive_on_session_def elsewhere_same_set split: prod.split)
  ultimately show ?thesis by (metis elsewhere_same_trans)
qed

context mailbox_laws
begin

text \<open>Over any lawful directory: a first message to a user with one device, whose node is ready for it, is
  delivered, acknowledged and forgotten, and everything else both nodes hold stays.\<close>

lemma delivers:
  assumes L: "crypto_laws C" and y: "length y = 32" "static_secret C y = y" "length sk = 32"
    and ne: "public_key C (fst (secret_generate C (rsB 0))) \<noteq> public_key C y"
    and A: "sn_user nA = uA" "sn_device nA = dA" "hm_get (sm_users (sn_mgr nA)) uB = None" "user_count (sn_mgr nA) < MAX_USERS"
      "sm_initiating (sn_mgr nA) < MAX_INITIATING_SESSIONS"
    and B: "sn_user nB = uB" "sn_device nB = dB" "sn_mgr nB = snd (prepare_inbound r0 mB0 uA dA iA sk y t0)"
      "hm_get (sm_users mB0) uA = None" "user_count mB0 < MAX_USERS"
    and q: "dir_query D dir uB = Inr [(dB, pk)]" and bx: "box dir (uA, dA) = Some []" "box dir (uB, dB) = Some []" "(uA, dA) \<noteq> (uB, dB)"
  obtains mid sid nA1 dir1 nB1 dir2 nA2 dir3 where
    "sesame_send C D rsA (nA, dir) [uB] pt iB sk (public_key C y) t1 = (Inr [mid], nA1, dir1)"
    "sn_records nA1 = sn_records nA @ [\<lparr>mr_id = mid, mr_plaintext = pt, mr_user = uB, mr_session = sid, mr_attempts = 1\<rparr>]"
    "receive_all C D rsB (nB, dir1) iA t2 = (Inr [pt], nB1, dir2)" "sn_records nB1 = sn_records nB"
    "receive_all C D rsC (nA1, dir2) iB t3 = (Inr [], nA2, dir3)"
    "sn_records nA2 = filter (\<lambda>rec. mr_id rec \<noteq> mid) (sn_records nA)" "box dir3 = box dir"
    "elsewhere_same uB dB (sn_mgr nA) (sn_mgr nA2)" "elsewhere_same uA dA (sn_mgr nB) (sn_mgr nB1)"
proof -
  obtain a where a: "fst (init_alice C (rsA 0) sk (public_key C y) DEFAULT_MAX_SKIP) = Inr a"
    "\<forall>pt ad. \<exists>h ct a' b'. dr_encrypt C a pt ad = (Inr (h, ct), a') \<and>
       dr_decrypt C (rsB 0) (init_bob sk y DEFAULT_MAX_SKIP) h ct ad = (Inr pt, b') \<and> header_wf h \<and> length ct = length pt + 16"
    by (rule dr_first_message [OF L y ne])
  obtain h ct a' b' where m: "dr_encrypt C a pt (bstr ''sesame'') = (Inr (h, ct), a')"
    "dr_decrypt C (rsB 0) (init_bob sk y DEFAULT_MAX_SKIP) h ct (bstr ''sesame'') = (Inr pt, b')" "header_wf h"
    using a(2) [THEN spec, THEN spec, of pt "bstr ''sesame''"] by blast
  obtain sid mA rec where o: "prepare_outbound C (rsA 0) (sn_mgr nA) uB dB iB sk (public_key C y) t1 = (Inr sid, mA)"
    "dev_get mA uB dB = Some ((empty_device dB iB)\<lparr>dv_active := Some rec\<rparr>)" "sr_ratchet rec = a"
    "elsewhere_same uB dB (sn_mgr nA) mA" by (rule outbound_first [OF a(1) A(3-5)])
  obtain mA' where e: "active_encrypt C mA uB dB pt = (Inr (h, ct), mA')" "elsewhere_same uB dB mA mA'"
    using active_encrypt_fresh [OF o(2), of rec C pt "(h, ct)" a'] m(1) o(3) by auto
  let ?mid = "msg_id C sid t1 0" and ?enc_node = "nA\<lparr>sn_mgr := mA'\<rparr>"
  let ?env = "envelope_from ?enc_node (Encrypted ?mid sid (header_encode h) ct True)"
  let ?sent_node = "?enc_node\<lparr>sn_records := sn_records nA @
    [\<lparr>mr_id = ?mid, mr_plaintext = pt, mr_user = uB, mr_session = sid, mr_attempts = 1\<rparr>]\<rparr>"
  obtain dir1 d1 where d1: "dir_send D dir uB dB ?env = (Inr (), dir1)" "dir_fetch D dir1 uB dB = ([?env], d1)"
    "box d1 = (box dir)((uB, dB) \<mapsto> [])" by (rule send_then_fetch [OF bx(2), of ?env]) simp
  have "send_to_device C D (rsA 0) uB dB pt iB sk (public_key C y) t1 0 (nA, dir) = (Inr ?mid, ?sent_node, dir1)"
    using o(1) e d1(1) by (simp add: send_to_device_def on_mgr_def on_dir_def Let_def)
  moreover have "\<not> (uB = sn_user nA \<and> dB = sn_device nA)" using bx(3) A(1,2) by auto
  ultimately have sent: "sesame_send C D rsA (nA, dir) [uB] pt iB sk (public_key C y) t1 = (Inr [?mid], ?sent_node, dir1)"
    using q by (simp add: sesame_send_def)
  obtain sidB mB recB where i: "prepare_inbound r0 mB0 uA dA iA sk y t0 = (Inr sidB, mB)"
    "dev_get mB uA dA = Some ((empty_device dA iA)\<lparr>dv_active := Some recB\<rparr>)" "sr_ratchet recB = init_bob sk y DEFAULT_MAX_SKIP"
    by (rule inbound_first [OF B(4,5)])
  obtain mB' where t: "try_decrypt C (rsB 0) mB uA dA sid h ct = (Inr pt, mB')" "elsewhere_same uA dA mB mB'"
    using try_decrypt_fresh [OF i(2), of C "rsB 0" h ct pt b' sid] m(2) i(3) by auto
  let ?recv_node = "nB\<lparr>sn_mgr := snd (confirm_session (snd (receive_on_session mB' uA dA sid)) uA dA sid)\<rparr>"
  let ?rcpt = "envelope_from ?recv_node (DeliveryReceipt ?mid)"
  have bA: "box d1 (uA, dA) = Some []" using d1(3) bx by simp
  obtain dir2 dir3 where d2: "dir_send D d1 uA dA ?rcpt = (Inr (), dir2)" "dir_fetch D dir2 uA dA = ([?rcpt], dir3)"
    "box dir3 = (box d1)((uA, dA) \<mapsto> [])"
    by (rule send_then_fetch [OF bA, of ?rcpt]) simp
  have rcv: "receive_all C D rsB (nB, dir1) iA t2 = (Inr [pt], ?recv_node, dir2)"
    using d1(2) d2(1) i(1) t header_decode_encode [OF m(3)] A(1,2) B(1-3)
    by (simp add: receive_all_def receive_one_def on_dir_def envelope_from_def Let_def)
  have ack: "receive_all C D rsC (?sent_node, dir2) iB t3 =
      (Inr [], ?sent_node\<lparr>sn_records := filter (\<lambda>rec. mr_id rec \<noteq> ?mid) (sn_records nA)\<rparr>, dir3)"
    using d2(2) A(1,2) by (simp add: receive_all_def receive_one_def envelope_from_def)
  have "box dir3 = box dir" using d2(3) d1(3) bx by (auto simp: fun_eq_iff)
  moreover have "elsewhere_same uB dB (sn_mgr nA) mA'" using elsewhere_same_trans [OF o(4) e(2)] .
  moreover have "elsewhere_same uA dA (sn_mgr nB) (sn_mgr ?recv_node)"
    using elsewhere_same_trans [OF t(2) receipt_elsewhere] i(1) B(3) by simp
  ultimately show thesis using that [OF sent _ rcv _ ack] by simp
qed

end

text \<open>C32: Sesame delivers a first message. A node sends to a user it has no session with, who has one device;
  that device, whose manager accepted the sender's session, fetches its mailbox and obtains exactly the
  plaintext; its receipt reaches the sender, whose next fetch removes the records of that message and no
  other. The two nodes are arbitrary otherwise: they may hold any number of sessions and unacknowledged
  messages, which are all kept, and in the end every mailbox is as it was. The directory is the in-memory
  one, the two mailboxes start empty, the sender has room for one more user and initiating session and the
  receiver for one more user.\<close>

theorem sesame_delivers:
  assumes "lens_ok C" "secret_stable C" "dh_commutes C" "xpub_ok C" "aead_correct C"
    and "length y = 32" "static_secret C y = y" "length sk = 32"
    and "public_key C (fst (secret_generate C (rsB 0))) \<noteq> public_key C y"
    and "sn_user nA = uA" "sn_device nA = dA" "hm_get (sm_users (sn_mgr nA)) uB = None" "user_count (sn_mgr nA) < MAX_USERS"
      "sm_initiating (sn_mgr nA) < MAX_INITIATING_SESSIONS"
    and "sn_user nB = uB" "sn_device nB = dB" "sn_mgr nB = snd (prepare_inbound r0 mB0 uA dA iA sk y t0)"
      "hm_get (sm_users mB0) uA = None" "user_count mB0 < MAX_USERS"
    and "md_query dir uB = Inr [(dB, pk)]" "md_box dir (uA, dA) = Some []" "md_box dir (uB, dB) = Some []" "(uA, dA) \<noteq> (uB, dB)"
  shows "\<exists>mid sid nA1 dir1 nB1 dir2 nA2 dir3.
    sesame_send C memory_dir rsA (nA, dir) [uB] pt iB sk (public_key C y) t1 = (Inr [mid], nA1, dir1) \<and>
    sn_records nA1 = sn_records nA @ [\<lparr>mr_id = mid, mr_plaintext = pt, mr_user = uB, mr_session = sid, mr_attempts = 1\<rparr>] \<and>
    receive_all C memory_dir rsB (nB, dir1) iA t2 = (Inr [pt], nB1, dir2) \<and> sn_records nB1 = sn_records nB \<and>
    receive_all C memory_dir rsC (nA1, dir2) iB t3 = (Inr [], nA2, dir3) \<and>
    sn_records nA2 = filter (\<lambda>rec. mr_id rec \<noteq> mid) (sn_records nA) \<and> md_box dir3 = md_box dir \<and>
    elsewhere_same uB dB (sn_mgr nA) (sn_mgr nA2) \<and> elsewhere_same uA dA (sn_mgr nB) (sn_mgr nB1)"
proof -
  have L: "crypto_laws C" using assms(1-5) by (simp add: crypto_laws_def)
  have q: "dir_query memory_dir dir uB = Inr [(dB, pk)]" using assms(20) by (simp add: memory_dir_def)
  show ?thesis
    by (rule mdl.delivers [where rsB = rsB and rsA = rsA and pt = pt and ?t1.0 = t1 and ?t2.0 = t2 and rsC = rsC and
        ?t3.0 = t3 and iB = iB, OF L assms(6-19) q assms(21-23)]) (intro exI conjI, assumption+)
qed

definition demo_directory :: memory_directory where
  "demo_directory = snd (md_register (snd (md_register \<lparr>md_devices = [], md_boxes = []\<rparr> [1] [11] (replicate 32 1))) [2] [22] (replicate 32 2))"

lemma demo_directory_boxes:
  "md_query demo_directory [2] = Inr [([22], replicate 32 2)]" "md_box demo_directory ([1], [11]) = Some []"
  "md_box demo_directory ([2], [22]) = Some []"
  by (simp_all add: demo_directory_def md_register_def md_query_def md_box_def Let_def hm_get_def hm_insert_def)

definition demo_old_record :: message_record where
  "demo_old_record = \<lparr>mr_id = [], mr_plaintext = [8], mr_user = [7], mr_session = [], mr_attempts = 1\<rparr>"

text \<open>The two nodes of the examples: the sender holds some records, the receiver expects the sender.\<close>

definition demo_sender :: "message_record list \<Rightarrow> sesame_node" where
  "demo_sender recs = (node_new [1] [11] (manager_new [1] [11] demo_peer))\<lparr>sn_records := recs\<rparr>"

definition demo_receiver :: sesame_node where
  "demo_receiver = node_new [2] [22] (snd (prepare_inbound (\<lambda>_. 4) (manager_new [2] [22] demo_peer) [1] [11] demo_peer
     (replicate 32 3) (replicate 32 9) 4))"

lemma demo_keys:
  "length (replicate 32 9 :: bytes) = 32" "static_secret plain_crypto (replicate 32 9) = replicate 32 9"
  "length (replicate 32 3 :: bytes) = 32"
  "public_key plain_crypto (fst (secret_generate plain_crypto (\<lambda>_. 2))) \<noteq> public_key plain_crypto (replicate 32 9)"
  by (simp_all add: secret_generate_def fill_random_def plain_simps map_replicate_const public_key_def fit_def)

lemma demo_sender_ok:
  "sn_user (demo_sender recs) = [1]" "sn_device (demo_sender recs) = [11]" "hm_get (sm_users (sn_mgr (demo_sender recs))) [2] = None"
  "user_count (sn_mgr (demo_sender recs)) < MAX_USERS" "sm_initiating (sn_mgr (demo_sender recs)) < MAX_INITIATING_SESSIONS"
  by (simp_all add: demo_sender_def node_new_def manager_new_def user_count_def MAX_USERS_def MAX_INITIATING_SESSIONS_def)

lemma demo_receiver_ok:
  "sn_user demo_receiver = [2]" "sn_device demo_receiver = [22]" "sn_mgr demo_receiver = snd (prepare_inbound (\<lambda>_. 4)
     (manager_new [2] [22] demo_peer) [1] [11] demo_peer (replicate 32 3) (replicate 32 9) 4)"
  "hm_get (sm_users (manager_new [2] [22] demo_peer)) [1] = None" "user_count (manager_new [2] [22] demo_peer) < MAX_USERS"
  by (simp_all add: demo_receiver_def node_new_def manager_new_def user_count_def MAX_USERS_def)

lemma demo_apart: "([1] :: bytes, [11] :: bytes) \<noteq> ([2], [22])"
  by simp

text \<open>The sender holds an older unacknowledged message, which is still there afterwards.\<close>

theorem sesame_delivers_witness:
  "\<exists>mid nA1 dir1 nB1 dir2 nA2 dir3.
    sesame_send plain_crypto memory_dir (\<lambda>_ _. 1) (demo_sender [demo_old_record], demo_directory) [[2]] [42] demo_peer (replicate 32 3)
      (public_key plain_crypto (replicate 32 9)) 5 = (Inr [mid], nA1, dir1) \<and>
    receive_all plain_crypto memory_dir (\<lambda>_ _. 2) (demo_receiver, dir1) demo_peer 6 = (Inr [[42]], nB1, dir2) \<and>
    receive_all plain_crypto memory_dir (\<lambda>_ _. 1) (nA1, dir2) demo_peer 7 = (Inr [], nA2, dir3) \<and>
    sn_records nA2 = filter (\<lambda>rec. mr_id rec \<noteq> mid) [demo_old_record]"
proof -
  have "sn_records (demo_sender [demo_old_record]) = [demo_old_record]" by (simp add: demo_sender_def)
  with sesame_delivers [where rsB = "\<lambda>_ _. 2" and rsA = "\<lambda>_ _. 1" and pt = "[42]" and ?t1.0 = 5 and ?t2.0 = 6 and ?t3.0 = 7 and
      rsC = "\<lambda>_ _. 1" and iB = demo_peer, OF plain_lens plain_stable plain_dh plain_xpub plain_aead demo_keys
      demo_sender_ok [of "[demo_old_record]"] demo_receiver_ok demo_directory_boxes demo_apart]
  show ?thesis by (elim exE conjE) (intro exI conjI, assumption+, simp only:)
qed

theorem unknown_retry_loses_inbox_witness:
  "\<exists>dir'. receive_all plain_crypto memory_dir (\<lambda>_ _. 1) (node_new [1] [11] (manager_new [1] [11] demo_peer),
     \<lparr>md_devices = [], md_boxes = [(([1], [11]), [\<lparr>from_user = [3], from_device = [4], env_body = RetryRequest [7]\<rparr>,
       \<lparr>from_user = [3], from_device = [4], env_body = DeliveryReceipt [8]\<rparr>])]\<rparr>) demo_peer 5 =
       (Inl Internal, (node_new [1] [11] (manager_new [1] [11] demo_peer), dir')) \<and> md_box dir' ([1], [11]) = Some []"
proof -
  let ?n = "node_new [1] [11] (manager_new [1] [11] demo_peer)" and ?e = "\<lparr>from_user = [3], from_device = [4], env_body = RetryRequest [7]\<rparr>"
  let ?es = "[\<lparr>from_user = [3], from_device = [4], env_body = DeliveryReceipt [8]\<rparr>]"
  have "md_box \<lparr>md_devices = [], md_boxes = [(([1], [11]), ?e # ?es)]\<rparr> (sn_user ?n, sn_device ?n) = Some (?e # ?es)"
    by (simp add: md_box_def node_new_def hm_get_def)
  from unknown_retry_loses_inbox [OF this, of "[7]" plain_crypto "\<lambda>_ _. 1" demo_peer 5] show ?thesis by (simp add: node_new_def)
qed

text \<open>One message sent to one device: one record, transmitted once.\<close>

theorem resends_are_bounded_witness:
  "\<exists>s tally fin. s = fold (node_apply plain_crypto (logged memory_dir)) [NSend (\<lambda>_ _. 1) [[2]] [42] demo_peer (replicate 32 3)
       (public_key plain_crypto (replicate 32 9)) 5] (node_new [1] [11] (manager_new [1] [11] demo_peer), demo_directory, []) \<and>
     length (sn_records (fst s)) = 1 \<and> tally = [1] \<and> mr_attempts (sn_records (fst s) ! 0) = 1"
proof -
  let ?n = "node_new [1] [11] (manager_new [1] [11] demo_peer)"
  let ?op = "NSend (\<lambda>_ _. 1) [[2]] [42] demo_peer (replicate 32 3) (public_key plain_crypto (replicate 32 9)) 5"
  let ?s = "fold (node_apply plain_crypto (logged memory_dir)) [?op] (?n, demo_directory, [])"
  note b = resends_are_bounded [OF refl refl, of plain_crypto memory_dir "[?op]" "[1]" "[11]" "manager_new [1] [11] demo_peer" demo_directory]
  obtain tally fin where ev: "(node_event plain_crypto memory_dir)\<^sup>*\<^sup>* ((?n, demo_directory, []), [], []) (?s, tally, fin)"
    using b by blast
  have laws: "crypto_laws plain_crypto" by (simp add: crypto_laws_def plain_lens plain_stable plain_dh plain_xpub plain_aead)
  have q: "dir_query memory_dir demo_directory [2] = Inr [([22], replicate 32 2)]"
    using demo_directory_boxes(1) by (simp add: memory_dir_def)
  obtain mid sid nA1 dir1 where
    snt: "sesame_send plain_crypto memory_dir (\<lambda>_ _. 1) (demo_sender [], demo_directory) [[2]] [42] demo_peer (replicate 32 3)
      (public_key plain_crypto (replicate 32 9)) 5 = (Inr [mid], nA1, dir1)"
    "sn_records nA1 = sn_records (demo_sender []) @ [\<lparr>mr_id = mid, mr_plaintext = [42], mr_user = [2], mr_session = sid, mr_attempts = 1\<rparr>]"
    by (rule mdl.delivers [where rsB = "\<lambda>_ _. 2" and rsA = "\<lambda>_ _. 1" and pt = "[42]" and ?t1.0 = 5 and ?t2.0 = 6 and ?t3.0 = 7 and
      rsC = "\<lambda>_ _. 1" and iB = demo_peer, OF laws demo_keys demo_sender_ok [of "[]"] demo_receiver_ok q demo_directory_boxes(2,3) demo_apart])
  have sender: "demo_sender [] = ?n" by (simp add: demo_sender_def node_new_def)
  have "fst ?s = nA1" using b [THEN conjunct1, THEN arg_cong, of fst] snt(1) by (simp add: sender)
  then have r: "sn_records (fst ?s) = [\<lparr>mr_id = mid, mr_plaintext = [42], mr_user = [2], mr_session = sid, mr_attempts = 1\<rparr>]"
    using snt(2) by (simp add: sender node_new_def)
  from b ev have "list_all2 (\<lambda>rec n. 1 \<le> n \<and> n \<le> unat (mr_attempts rec) \<and> mr_attempts rec \<le> MAX_RESEND_ATTEMPTS) (sn_records (fst ?s)) tally"
    by blast
  then have "tally = [1]" unfolding r by (auto simp: list_all2_Cons1)
  with r show ?thesis by (intro exI [of _ ?s] exI [of _ tally] exI [of _ fin]) simp
qed

end
