(* ===== verification/VC_Xeddsa.thy ===== *)
theory VC_Xeddsa
  imports VC_Primitives VC_Instance
begin

text \<open>
  XEd25519 signatures (\<^verbatim>\<open>src/primitives/xeddsa.rs\<close>). Point and scalar arithmetic is the crate
  \<^verbatim>\<open>curve25519-dalek\<close>; what the scheme relies on is the predicate \<open>edwards_laws\<close>: compression is
  invertible, scalars are written canonically in 253 bits, the base point map is a homomorphism,
  negation flips the sign bit, and the Montgomery public key converts to the Edwards point of the
  same secret with sign bit zero.
\<close>

definition hash_i :: "crypto \<Rightarrow> u8 \<Rightarrow> bytes \<Rightarrow> bytes" where
  "hash_i C i d = sha512_fn C ((255 - i) # replicate 31 255 @ d)"

definition hash_plain :: "crypto \<Rightarrow> bytes \<Rightarrow> bytes" where
  "hash_plain C d = sha512_fn C d"

definition clear_top :: "bytes \<Rightarrow> bytes" where
  "clear_top b = b[31 := (b ! 31) AND 0x7F]"

definition calculate_key_pair :: "crypto \<Rightarrow> scalar \<Rightarrow> bytes \<times> scalar" where
  "calculate_key_pair C k =
     (let a_bytes = ed_compress C (ed_mul_base C k);
          sign = drop_bit 7 (a_bytes ! 31) AND 1;
          a = (if sign = 1 then sc_neg C k else k)
      in (clear_top a_bytes, a))"

definition convert_mont :: "crypto \<Rightarrow> bytes \<Rightarrow> prim_error + edpoint" where
  "convert_mont C u = ok_or InvalidPublicKey (ed_to_edwards C u)"

definition P_LE :: bytes where
  "P_LE = 0xED # replicate 30 0xFF @ [0x7F]"

text \<open>The comparison loop runs over the indices 31, 30, .., 0.\<close>

fun ge_p_loop :: "bytes \<Rightarrow> nat list \<Rightarrow> bool" where
  "ge_p_loop b [] = True"
| "ge_p_loop b (i # is) =
     (if b ! i > P_LE ! i then True else if b ! i < P_LE ! i then False else ge_p_loop b is)"

definition le_int_ge_p :: "bytes \<Rightarrow> bool" where
  "le_int_ge_p b = (if (b ! 31) AND 0x80 \<noteq> 0 then True else ge_p_loop b (rev [0..<32]))"

definition clamp_montgomery :: "bytes \<Rightarrow> bytes" where
  "clamp_montgomery s =
     (let s1 = s[0 := (s ! 0) AND 248]; s2 = s1[31 := (s1 ! 31) AND 127]
      in s2[31 := (s2 ! 31) OR 64])"

definition sign_with_nonce :: "crypto \<Rightarrow> bytes \<Rightarrow> bytes \<Rightarrow> bytes \<Rightarrow> bytes" where
  "sign_with_nonce C secret message z =
     (let k = sc_reduce C (clamp_montgomery secret);
          (a_bytes, a) = calculate_key_pair C k;
          r = sc_reduce_wide C (hash_i C 1 (sc_bytes C a @ message @ z));
          r_bytes = ed_compress C (ed_mul_base C r);
          h = sc_reduce_wide C (hash_plain C (r_bytes @ a_bytes @ message));
          s = sc_add C r (sc_mul C h a)
      in r_bytes @ sc_bytes C s)"

definition xeddsa_sign :: "crypto \<Rightarrow> bytes \<Rightarrow> bytes \<Rightarrow> rng \<Rightarrow> bytes \<times> rng" where
  "xeddsa_sign C secret message r =
     (let (z, r1) = fill_random 64 r in (sign_with_nonce C secret message z, r1))"

definition xeddsa_verify :: "crypto \<Rightarrow> bytes \<Rightarrow> bytes \<Rightarrow> bytes \<Rightarrow> prim_error + unit" where
  "xeddsa_verify C u message sig =
     (if le_int_ge_p u then Inl SignatureInvalid
      else
        let r_bytes = take 32 sig; s_bytes = drop 32 sig
        in if (s_bytes ! 31) AND 0xE0 \<noteq> 0 then Inl SignatureInvalid
           else rbind (convert_mont C u) (\<lambda>a_point.
                rbind (ok_or SignatureInvalid (ed_decompress C r_bytes)) (\<lambda>_.
                  let s = sc_reduce C s_bytes;
                      a_bytes = clear_top (ed_compress C a_point);
                      h = sc_reduce_wide C (hash_plain C (r_bytes @ a_bytes @ message));
                      r_check = ed_sub C (ed_mul_base C s) (ed_smul C h a_point)
                  in if \<not> ct_eq r_bytes (ed_compress C r_check) then Inl SignatureInvalid
                     else Inr ())))"

subsection \<open>The range check on the public key\<close>

fun le_value :: "bytes \<Rightarrow> nat" where
  "le_value [] = 0"
| "le_value (b # bs) = unat b + 256 * le_value bs"

lemma le_value_append: "le_value (xs @ ys) = le_value xs + 256 ^ length xs * le_value ys"
  by (induction xs) (simp_all add: algebra_simps)

lemma le_value_bound: "le_value xs < 256 ^ length xs"
proof (induction xs)
  case (Cons x xs)
  have "unat x < 256" using unsigned_less [of x] by simp
  with Cons show ?case by simp
qed simp

lemma take_Suc_nth: "i < length b \<Longrightarrow> take (Suc i) b = take i b @ [b ! i]"
  by (simp add: take_Suc_conv_app_nth)

text \<open>Comparing from the most significant byte compares the values.\<close>

lemma ge_p_loop_value:
  assumes "n \<le> length b" "n \<le> length P_LE"
  shows "ge_p_loop b (rev [0..<n]) \<longleftrightarrow> le_value (take n P_LE) \<le> le_value (take n b)"
  using assms
proof (induction n)
  case (Suc n)
  let ?x = "unat (b ! n)" and ?y = "unat (P_LE ! n)"
  have bounds: "le_value (take n b) < 256 ^ n" "le_value (take n P_LE) < 256 ^ n"
    using le_value_bound [of "take n b"] le_value_bound [of "take n P_LE"] Suc.prems by simp_all
  have v: "le_value (take (Suc n) b) = le_value (take n b) + 256 ^ n * ?x"
    "le_value (take (Suc n) P_LE) = le_value (take n P_LE) + 256 ^ n * ?y"
    using Suc.prems by (simp_all add: take_Suc_nth le_value_append)
  have step: "256 ^ n * a + 256 ^ n \<le> 256 ^ n * c" if "a < c" for a c :: nat
    using mult_le_mono2 [of "Suc a" c "256 ^ n"] that by simp
  consider "?y < ?x" | "?x < ?y" | "?x = ?y" by linarith
  then show ?case
  proof cases
    case 1
    then show ?thesis using step [OF 1] bounds v by (simp add: word_less_nat_alt)
  next
    case 2
    then show ?thesis using step [OF 2] bounds v by (simp add: word_less_nat_alt)
  next
    case 3
    then have "b ! n = P_LE ! n" by (metis unsigned_word_eqI)
    then show ?thesis using Suc v by simp
  qed
qed simp

lemma le_value_ones: "Suc (le_value (replicate n 255)) = 256 ^ n"
  by (induction n) simp_all

lemma le_value_P: "le_value P_LE = 2 ^ 255 - 19"
proof -
  have "le_value P_LE = 237 + 256 * (le_value (replicate 30 255) + 256 ^ 30 * 127)"
    by (simp add: P_LE_def le_value_append)
  moreover have "le_value (replicate 30 255) = 256 ^ 30 - 1" using le_value_ones [of 30] by simp
  ultimately show ?thesis by simp
qed

lemma bit7_value: "bit (x :: u8) 7 \<Longrightarrow> 128 \<le> unat x"
proof -
  assume "bit x 7"
  then have "bit (unat x) 7" by (simp add: bit_simps)
  then have "odd (unat x div 2 ^ 7)" by (simp add: bit_iff_odd)
  then show ?thesis by (cases "unat x < 128") simp_all
qed

lemma top_bit_value: "x AND 0x80 \<noteq> 0 \<Longrightarrow> 128 \<le> unat (x :: u8)"
proof (rule ccontr)
  assume nz: "x AND 0x80 \<noteq> 0" and "\<not> 128 \<le> unat x"
  then have "\<not> bit x 7" using bit7_value by blast
  moreover have "bit (0x80 :: u8) n \<longleftrightarrow> n = 7" for n
  proof -
    have e: "(0x80 :: u8) = 2 ^ 7" by simp
    show ?thesis unfolding e bit_exp_iff by auto
  qed
  ultimately have "bit (x AND 0x80) n = bit 0 n" for n by (auto simp: bit_and_iff)
  then have "x AND 0x80 = 0" by (intro bit_eqI) blast
  with nz show False by simp
qed

lemma le_int_ge_p_value:
  assumes "length b = 32"
  shows "le_int_ge_p b \<longleftrightarrow> 2 ^ 255 - 19 \<le> le_value b"
proof (cases "(b ! 31) AND 0x80 = 0")
  case True
  have "length P_LE = 32" by (simp add: P_LE_def)
  with True assms ge_p_loop_value [of 32 b] show ?thesis by (simp add: le_int_ge_p_def le_value_P)
next
  case False
  have "le_value b = le_value (take 31 b) + 256 ^ 31 * unat (b ! 31)"
    using le_value_append [of "take 31 b" "[b ! 31]"] take_Suc_nth [of 31 b] assms by simp
  moreover have "(256 :: nat) ^ 31 * 128 \<le> 256 ^ 31 * unat (b ! 31)"
    using top_bit_value [OF False] by (rule mult_le_mono2)
  ultimately have "2 ^ 255 - 19 \<le> le_value b" by simp
  with False show ?thesis by (simp add: le_int_ge_p_def)
qed

subsection \<open>Signatures verify\<close>

definition edwards_laws :: "crypto \<Rightarrow> bool" where
  "edwards_laws C \<longleftrightarrow>
     (\<forall>k. length (ed_compress C (ed_mul_base C k)) = 32) \<and>
     (\<forall>k. ed_decompress C (ed_compress C (ed_mul_base C k)) = Some (ed_mul_base C k)) \<and>
     (\<forall>k. bit (ed_compress C (ed_mul_base C k) ! 31) 7 \<longrightarrow>
        ed_compress C (ed_mul_base C (sc_neg C k)) = clear_top (ed_compress C (ed_mul_base C k))) \<and>
     (\<forall>k. length (sc_bytes C k) = 32 \<and> (sc_bytes C k ! 31) AND 0xE0 = 0 \<and>
        ed_mul_base C (sc_reduce C (sc_bytes C k)) = ed_mul_base C k) \<and>
     (\<forall>r h a. ed_sub C (ed_mul_base C (sc_add C r (sc_mul C h a))) (ed_smul C h (ed_mul_base C a)) =
        ed_mul_base C r) \<and>
     (\<forall>s. ed_to_edwards C (xpub C s) =
        ed_decompress C (clear_top (ed_compress C (ed_mul_base C (sc_reduce C (clamp_montgomery s)))))) \<and>
     (\<forall>s. length (xpub C s) = 32 \<and> le_value (xpub C s) < 2 ^ 255 - 19)"

lemma and_7F: "\<not> bit x 7 \<Longrightarrow> x AND 0x7F = (x :: u8)"
proof (rule bit_word_eqI)
  fix n assume "\<not> bit x 7" "n < LENGTH(8)"
  moreover have "(0x7F :: u8) = mask 7" by (simp add: mask_eq_exp_minus_1)
  ultimately show "bit (x AND 0x7F) n = bit x n" by (auto simp: bit_simps less_Suc_eq numeral_eq_Suc)
qed

lemma clear_top_id: "length b = 32 \<Longrightarrow> \<not> bit (b ! 31) 7 \<Longrightarrow> clear_top b = b"
  by (simp add: clear_top_def and_7F)

lemma top_sign: "drop_bit 7 (x :: u8) AND 1 = 1 \<longleftrightarrow> bit x 7"
  by (simp add: bit_iff_odd_drop_bit and_one_eq odd_iff_mod_2_eq_one flip: mod_2_eq_odd)

lemma not_top_cleared: "\<not> bit ((x :: u8) AND 0x7F) 7"
proof -
  have "(0x7F :: u8) = mask 7" by (simp add: mask_eq_exp_minus_1)
  then show ?thesis by (simp add: bit_simps)
qed

text \<open>The key pair: its bytes are the compression of the point of the sign-adjusted scalar.\<close>

lemma key_pair_point:
  assumes "edwards_laws C" "calculate_key_pair C k = (ab, a)"
  shows "ab = ed_compress C (ed_mul_base C a)" "clear_top ab = ab"
    "ab = clear_top (ed_compress C (ed_mul_base C k))"
proof -
  let ?e = "ed_compress C (ed_mul_base C k)"
  have l: "length ?e = 32" using assms(1) by (simp add: edwards_laws_def)
  show ab: "ab = clear_top ?e" using assms(2) by (simp add: calculate_key_pair_def Let_def)
  have a: "a = (if bit (?e ! 31) 7 then sc_neg C k else k)"
    using assms(2) by (auto simp: calculate_key_pair_def Let_def top_sign)
  show "ab = ed_compress C (ed_mul_base C a)"
    using assms(1) l by (auto simp: a ab clear_top_id edwards_laws_def)
  show "clear_top ab = ab"
    unfolding ab by (rule clear_top_id) (use l not_top_cleared in \<open>simp_all add: clear_top_def\<close>)
qed

lemma verify_signed:
  assumes "edwards_laws C"
  shows "xeddsa_verify C (xpub C secret) m (sign_with_nonce C secret m z) = Inr ()"
proof -
  let ?k = "sc_reduce C (clamp_montgomery secret)"
  obtain ab a where p: "calculate_key_pair C ?k = (ab, a)" by (cases "calculate_key_pair C ?k")
  note kp = key_pair_point [OF assms p]
  define r where "r = sc_reduce_wide C (hash_i C 1 (sc_bytes C a @ m @ z))"
  define rb where "rb = ed_compress C (ed_mul_base C r)"
  define h where "h = sc_reduce_wide C (hash_plain C (rb @ ab @ m))"
  define s where "s = sc_add C r (sc_mul C h a)"
  have sig: "sign_with_nonce C secret m z = rb @ sc_bytes C s"
    by (simp add: sign_with_nonce_def p r_def rb_def h_def s_def Let_def)
  have rb: "length rb = 32" "ed_decompress C rb = Some (ed_mul_base C r)"
    using assms by (simp_all add: rb_def edwards_laws_def)
  have sb: "length (sc_bytes C s) = 32" "(sc_bytes C s ! 31) AND 0xE0 = 0"
    "ed_mul_base C (sc_reduce C (sc_bytes C s)) = ed_mul_base C s"
    using assms by (simp_all add: edwards_laws_def)
  have range: "\<not> le_int_ge_p (xpub C secret)"
    using assms le_int_ge_p_value [of "xpub C secret"] by (simp add: edwards_laws_def not_le)
  have "ed_to_edwards C (xpub C secret) = ed_decompress C (ed_compress C (ed_mul_base C a))"
    using assms kp(1,3) by (simp add: edwards_laws_def)
  then have pt: "convert_mont C (xpub C secret) = Inr (ed_mul_base C a)"
    using assms by (simp add: convert_mont_def edwards_laws_def)
  have "ed_sub C (ed_mul_base C s) (ed_smul C h (ed_mul_base C a)) = ed_mul_base C r"
    using assms by (simp add: s_def edwards_laws_def)
  moreover have "sc_reduce_wide C (hash_plain C (rb @ clear_top (ed_compress C (ed_mul_base C a)) @ m)) = h"
    by (simp add: h_def kp(2) flip: kp(1))
  ultimately show ?thesis
    using range rb sb pt by (simp add: xeddsa_verify_def sig Let_def flip: rb_def)
qed

text \<open>C26: every signature made with an identity secret verifies under its public key, for every
  message and every nonce, given the documented laws of the curve library.\<close>

theorem xeddsa_sign_verify:
  assumes "edwards_laws C" "xeddsa_sign C secret message r = (sig, r')"
  shows "xeddsa_verify C (public_key C secret) message sig = Inr ()"
  using assms verify_signed by (auto simp: xeddsa_sign_def public_key_def split: prod.splits)

lemma plain_edwards: "edwards_laws plain_crypto"
proof -
  have v: "le_value (fit 32 (1 # take 30 s)) < 2 ^ 255 - 19" for s :: bytes
  proof -
    have z: "le_value (replicate n 0) = 0" for n by (induction n) simp_all
    have "le_value (fit 32 (1 # take 30 s)) = le_value (1 # take 30 s)"
      by (simp add: fit_alt le_value_append z)
    also have "\<dots> < 256 ^ length (1 # take 30 s)" by (rule le_value_bound)
    also have "\<dots> \<le> (256 :: nat) ^ 31" by (rule power_increasing) simp_all
    finally show ?thesis by simp
  qed
  show ?thesis using v by (simp add: edwards_laws_def plain_simps)
qed

theorem xeddsa_sign_verify_witness:
  "xeddsa_verify plain_crypto (public_key plain_crypto (replicate 32 4)) [1, 2]
     (fst (xeddsa_sign plain_crypto (replicate 32 4) [1, 2] (\<lambda>_. 0))) = Inr ()"
  using xeddsa_sign_verify [OF plain_edwards, of "replicate 32 4" "[1, 2]" "\<lambda>_. 0"]
  by (cases "xeddsa_sign plain_crypto (replicate 32 4) [1, 2] (\<lambda>_. 0)") simp

text \<open>The hand-written byte comparison in the verifier is the numeric test it stands for: a
  public key is refused exactly when its little-endian value is at least the field prime.\<close>

theorem le_int_ge_p_correct:
  "length b = 32 \<Longrightarrow> le_int_ge_p b \<longleftrightarrow> 2 ^ 255 - 19 \<le> le_value b"
  by (rule le_int_ge_p_value)

theorem le_int_ge_p_correct_witness: "le_int_ge_p P_LE \<and> le_value P_LE = 2 ^ 255 - 19"
proof -
  have "length P_LE = 32" by (simp add: P_LE_def)
  from le_int_ge_p_correct [OF this] le_value_P show ?thesis by simp
qed

end
