(* ===== verification/VC_Prekeys.thy ===== *)
theory VC_Prekeys
  imports VC_Xeddsa
begin

text \<open>
  Identity keys, prekeys, the published bundle and the device-local prekey store
  (\<^verbatim>\<open>src/prekeys/mod.rs\<close>, \<^verbatim>\<open>src/identity\<close>). A \<open>HashMap\<close> is iterated in insertion order: the bundle
  publishes the oldest one-time keys, and nothing proved here depends on which ones it picks.
  The secrets of the generators come from the random tape.
\<close>

subsection \<open>Identity\<close>

definition identity_generate :: "crypto \<Rightarrow> rng \<Rightarrow> bytes \<times> rng" where
  "identity_generate C r = secret_generate C r"

definition identity_public :: "crypto \<Rightarrow> bytes \<Rightarrow> bytes" where
  "identity_public C ik = public_key C ik"

definition identity_sign :: "crypto \<Rightarrow> bytes \<Rightarrow> bytes \<Rightarrow> rng \<Rightarrow> bytes \<times> rng" where
  "identity_sign C ik message r = xeddsa_sign C ik message r"

definition identity_serialize :: "bytes \<Rightarrow> bytes" where
  "identity_serialize ik = bstr ''VCIDENT1'' @ ik"

definition identity_deserialize :: "crypto \<Rightarrow> bytes \<Rightarrow> prim_error + bytes" where
  "identity_deserialize C data =
     (if length data \<noteq> 40 \<or> take 8 data \<noteq> bstr ''VCIDENT1'' then Inl InvalidLength
      else Inr (secret_from_bytes C (drop 8 data)))"

interpretation ident: codec identity_serialize "identity_deserialize C"
  "\<lambda>ik. length ik = 32 \<and> static_secret C ik = ik" for C
  by unfold_locales (simp add: identity_serialize_def identity_deserialize_def secret_from_bytes_def)

subsection \<open>Prekeys\<close>

record signed_prekey =
  sp_id :: u32
  sp_secret :: bytes
  sp_sig :: bytes

record one_time_ec_prekey =
  oe_id :: u32
  oe_secret :: bytes

record pq_prekey =
  pq_id :: u32
  pq_seed :: bytes
  pq_sig :: bytes

definition signed_generate :: "crypto \<Rightarrow> bytes \<Rightarrow> u32 \<Rightarrow> rng \<Rightarrow> signed_prekey \<times> rng" where
  "signed_generate C ik i r =
     (let (sec, r1) = secret_generate C r;
          (sg, r2) = identity_sign C ik (encode_ec (public_key C sec)) r1
      in (\<lparr>sp_id = i, sp_secret = sec, sp_sig = sg\<rparr>, r2))"

text \<open>Last-resort and one-time PQ prekeys have the same fields and the same generator.\<close>

definition pq_generate :: "crypto \<Rightarrow> bytes \<Rightarrow> u32 \<Rightarrow> rng \<Rightarrow> (prim_error + pq_prekey) \<times> rng" where
  "pq_generate C ik i r =
     sbind (kem_generate C r) (\<lambda>(seed, pub) r.
       let (sg, r2) = identity_sign C ik (encode_kem pub) r
       in (Inr \<lparr>pq_id = i, pq_seed = seed, pq_sig = sg\<rparr>, r2))"

definition pq_public :: "crypto \<Rightarrow> pq_prekey \<Rightarrow> prim_error + bytes" where
  "pq_public C k = kem_public_key C (pq_seed k)"

subsection \<open>The public bundle\<close>

record public_bundle =
  pb_identity :: bytes
  pb_signed_id :: u32
  pb_signed :: bytes
  pb_signed_sig :: bytes
  pb_one_time_ec :: "(u32 \<times> bytes) option"
  pb_pq_id :: u32
  pb_pq_public :: bytes
  pb_pq_sig :: bytes
  pb_is_pq_one_time :: bool

definition bundle_validate :: "crypto \<Rightarrow> public_bundle \<Rightarrow> prim_error + unit" where
  "bundle_validate C b =
     (if pb_identity b = zeros32 then Inl InvalidPublicKey
      else if pb_signed b = zeros32 then Inl InvalidPublicKey
      else rbind (xeddsa_verify C (pb_identity b) (encode_ec (pb_signed b)) (pb_signed_sig b)) (\<lambda>_.
           rbind (kem_public_from_bytes C (pb_pq_public b)) (\<lambda>pq.
           rbind (xeddsa_verify C (pb_identity b) (encode_kem pq) (pb_pq_sig b)) (\<lambda>_.
             case pb_one_time_ec b of
               Some (_, opk) \<Rightarrow> if opk = zeros32 then Inl InvalidPublicKey else Inr ()
             | None \<Rightarrow> Inr ()))))"

definition bundle_encode :: "public_bundle \<Rightarrow> bytes" where
  "bundle_encode b =
     bstr ''VCBUNDL1'' @ pb_identity b @ le_bytes 4 (pb_signed_id b) @ pb_signed b @ pb_signed_sig b @
     (case pb_one_time_ec b of None \<Rightarrow> [0] | Some (i, pk) \<Rightarrow> 1 # le_bytes 4 i @ pk) @
     le_bytes 4 (pb_pq_id b) @ le_bytes 2 (of_nat (length (pb_pq_public b)) :: u16) @ pb_pq_public b @
     pb_pq_sig b @ [if pb_is_pq_one_time b then 1 else 0]"

definition take_opk :: "bytes \<Rightarrow> prim_error + (u32 \<times> bytes) option \<times> bytes" where
  "take_opk d =
     rbind (take_u8 InvalidLength d) (\<lambda>(tag, d).
       if tag = 0 then Inr (None, d)
       else if tag = 1 then
         rbind (take_u32 InvalidLength d) (\<lambda>(i, d).
         rbind (take_n InvalidLength 32 d) (\<lambda>(b, d).
         rbind (public_from_bytes b) (\<lambda>pk. Inr (Some (i, pk), d))))
       else Inl InvalidLength)"

definition bundle_decode :: "crypto \<Rightarrow> bytes \<Rightarrow> prim_error + public_bundle" where
  "bundle_decode C data =
     (if length data < 8 + 32 + 4 + 32 + 64 + 1 + 4 + 2 + 64 + 1 then Inl InvalidLength
      else if take 8 data \<noteq> bstr ''VCBUNDL1'' then Inl InvalidLength
      else
        rbind (take_n InvalidLength 32 (drop 8 data)) (\<lambda>(ik, d).
        rbind (take_u32 InvalidLength d) (\<lambda>(spk_id, d).
        rbind (take_n InvalidLength 32 d) (\<lambda>(spk, d).
        rbind (take_n InvalidLength 64 d) (\<lambda>(spk_sig, d).
        rbind (take_opk d) (\<lambda>(opk, d).
        rbind (take_u32 InvalidLength d) (\<lambda>(pid, d).
        rbind (take_u16 InvalidLength d) (\<lambda>(plen, d).
        rbind (take_n InvalidLength (unat plen) d) (\<lambda>(pq, d).
        rbind (take_n InvalidLength 64 d) (\<lambda>(psig, d).
        rbind (take_u8 InvalidLength d) (\<lambda>(is_one, d).
        if d \<noteq> [] then Inl InvalidLength else
        rbind (public_from_bytes ik) (\<lambda>ik.
        rbind (public_from_bytes spk) (\<lambda>spk.
          let b = \<lparr>pb_identity = ik, pb_signed_id = spk_id, pb_signed = spk, pb_signed_sig = spk_sig,
                   pb_one_time_ec = opk, pb_pq_id = pid, pb_pq_public = pq, pb_pq_sig = psig,
                   pb_is_pq_one_time = (is_one = 1)\<rparr>
          in rbind (bundle_validate C b) (\<lambda>_. Inr b))))))))))))))"

subsection \<open>The store\<close>

record prekey_store =
  ps_signed :: signed_prekey
  ps_last_resort :: pq_prekey
  ps_ec :: "(u32, one_time_ec_prekey) hmap"
  ps_pq :: "(u32, pq_prekey) hmap"
  ps_next_ec :: u32
  ps_next_pq :: u32

definition store_new :: "crypto \<Rightarrow> bytes \<Rightarrow> rng \<Rightarrow> (prim_error + prekey_store) \<times> rng" where
  "store_new C ik r =
     (let (sp, r1) = signed_generate C ik 1 r
      in sbind (pq_generate C ik 1 r1) (\<lambda>lr r.
           (Inr \<lparr>ps_signed = sp, ps_last_resort = lr, ps_ec = [], ps_pq = [], ps_next_ec = 2,
                 ps_next_pq = 2\<rparr>, r)))"

lemma u32_gap: "checked_add (w :: u32) 1 = Some x \<Longrightarrow> 4294967296 - unat x < 4294967296 - unat w"
  using checked_add_unat [of w 1 x] unat_u32_bound [of x] by simp

text \<open>
  The two \<open>while\<close> loops of \<open>replenish\<close>. Every turn moves the identifier counter or ends, so both
  terminate although the size of the map need not grow.
\<close>

function replenish_ec :: "crypto \<Rightarrow> nat \<Rightarrow> prekey_store \<Rightarrow> rng \<Rightarrow> (prim_error + unit) \<times> prekey_store \<times> rng" where
  "replenish_ec C n s r =
     (if length (ps_ec s) < n then
        case checked_add (ps_next_ec s) 1 of
          None \<Rightarrow> (Inl LimitExceeded, s, r)
        | Some nx \<Rightarrow>
            let i = ps_next_ec s; s1 = s\<lparr>ps_next_ec := nx\<rparr>
            in if nx < 2 then (Inl LimitExceeded, s1, r)
               else let (sec, r1) = secret_generate C r
                    in replenish_ec C n (s1\<lparr>ps_ec := hm_insert (ps_ec s1) i \<lparr>oe_id = i, oe_secret = sec\<rparr>\<rparr>) r1
      else (Inr (), s, r))"
  by pat_completeness auto
termination
  by (relation "measure (\<lambda>(C, n, s, r). 2 ^ 32 - unat (ps_next_ec s))")
     (auto dest!: u32_gap)

function replenish_pq :: "crypto \<Rightarrow> bytes \<Rightarrow> nat \<Rightarrow> prekey_store \<Rightarrow> rng \<Rightarrow> (prim_error + unit) \<times> prekey_store \<times> rng" where
  "replenish_pq C ik n s r =
     (if length (ps_pq s) < n then
        case checked_add (ps_next_pq s) 1 of
          None \<Rightarrow> (Inl LimitExceeded, s, r)
        | Some nx \<Rightarrow>
            let i = ps_next_pq s; s1 = s\<lparr>ps_next_pq := nx\<rparr>
            in if nx < 2 then (Inl LimitExceeded, s1, r)
               else case pq_generate C ik i r of
                      (Inl e, r1) \<Rightarrow> (Inl e, s1, r1)
                    | (Inr k, r1) \<Rightarrow> replenish_pq C ik n (s1\<lparr>ps_pq := hm_insert (ps_pq s1) i k\<rparr>) r1
      else (Inr (), s, r))"
  by pat_completeness auto
termination
  by (relation "measure (\<lambda>(C, ik, n, s, r). 2 ^ 32 - unat (ps_next_pq s))")
     (auto dest!: u32_gap)

declare replenish_ec.simps [simp del] replenish_pq.simps [simp del]

definition replenish :: "crypto \<Rightarrow> bytes \<Rightarrow> nat \<Rightarrow> nat \<Rightarrow> prekey_store \<Rightarrow> rng \<Rightarrow> (prim_error + unit) \<times> prekey_store \<times> rng" where
  "replenish C ik ec_count pq_count s r =
     sbind (replenish_ec C ec_count s r) (\<lambda>_ (s, r). replenish_pq C ik pq_count s r)"

definition store_public_bundle :: "crypto \<Rightarrow> bytes \<Rightarrow> prekey_store \<Rightarrow> prim_error + public_bundle" where
  "store_public_bundle C ik s =
     (let ec = (case ps_ec s of [] \<Rightarrow> None | (_, k) # _ \<Rightarrow> Some (oe_id k, public_key C (oe_secret k)));
          (k, is_one) = (case ps_pq s of (_, k) # _ \<Rightarrow> (k, True) | [] \<Rightarrow> (ps_last_resort s, False))
      in rbind (pq_public C k) (\<lambda>pub.
           Inr \<lparr>pb_identity = identity_public C ik, pb_signed_id = sp_id (ps_signed s),
                pb_signed = public_key C (sp_secret (ps_signed s)), pb_signed_sig = sp_sig (ps_signed s),
                pb_one_time_ec = ec, pb_pq_id = pq_id k, pb_pq_public = pub, pb_pq_sig = pq_sig k,
                pb_is_pq_one_time = is_one\<rparr>))"

definition peek_ec :: "prekey_store \<Rightarrow> u32 \<Rightarrow> prim_error + one_time_ec_prekey" where
  "peek_ec s i = ok_or InvalidSecretKey (hm_get (ps_ec s) i)"

definition peek_pq :: "prekey_store \<Rightarrow> u32 \<Rightarrow> prim_error + pq_prekey" where
  "peek_pq s i = ok_or InvalidSecretKey (hm_get (ps_pq s) i)"

definition consume_ec :: "prekey_store \<Rightarrow> u32 \<Rightarrow> (prim_error + one_time_ec_prekey) \<times> prekey_store" where
  "consume_ec s i = (ok_or InvalidSecretKey (hm_get (ps_ec s) i), s\<lparr>ps_ec := hm_remove (ps_ec s) i\<rparr>)"

definition consume_pq :: "prekey_store \<Rightarrow> u32 \<Rightarrow> (prim_error + pq_prekey) \<times> prekey_store" where
  "consume_pq s i = (ok_or InvalidSecretKey (hm_get (ps_pq s) i), s\<lparr>ps_pq := hm_remove (ps_pq s) i\<rparr>)"

definition one_time_ec_count :: "prekey_store \<Rightarrow> nat" where
  "one_time_ec_count s = length (ps_ec s)"

definition one_time_pq_count :: "prekey_store \<Rightarrow> nat" where
  "one_time_pq_count s = length (ps_pq s)"

definition get_pq_secret :: "prekey_store \<Rightarrow> u32 \<Rightarrow> prim_error + bytes" where
  "get_pq_secret s i =
     (if i = pq_id (ps_last_resort s) then Inr (pq_seed (ps_last_resort s))
      else ok_or InvalidSecretKey (map_option pq_seed (hm_get (ps_pq s) i)))"

definition put_ec_entry :: "u32 \<times> one_time_ec_prekey \<Rightarrow> bytes" where
  "put_ec_entry p = (case p of (i, k) \<Rightarrow> le_bytes 4 i @ oe_secret k)"

definition put_pq_entry :: "u32 \<times> pq_prekey \<Rightarrow> bytes" where
  "put_pq_entry p = (case p of (i, k) \<Rightarrow> le_bytes 4 i @ pq_seed k @ pq_sig k)"

definition store_serialize :: "prekey_store \<Rightarrow> bytes" where
  "store_serialize s =
     bstr ''VCPREK01'' @ le_bytes 4 (sp_id (ps_signed s)) @ sp_secret (ps_signed s) @ sp_sig (ps_signed s) @
     le_bytes 4 (pq_id (ps_last_resort s)) @ pq_seed (ps_last_resort s) @ pq_sig (ps_last_resort s) @
     le_bytes 4 (ps_next_ec s) @ le_bytes 4 (ps_next_pq s) @
     le_bytes 4 (of_nat (length (ps_ec s)) :: u32) @ concat (map put_ec_entry (ps_ec s)) @
     le_bytes 4 (of_nat (length (ps_pq s)) :: u32) @ concat (map put_pq_entry (ps_pq s))"

definition take_ec_entry :: "crypto \<Rightarrow> bytes \<Rightarrow> prim_error + (u32 \<times> one_time_ec_prekey) \<times> bytes" where
  "take_ec_entry C d =
     rbind (take_u32 InvalidLength d) (\<lambda>(i, d).
     rbind (take_n InvalidLength 32 d) (\<lambda>(sec, d).
       Inr ((i, \<lparr>oe_id = i, oe_secret = secret_from_bytes C sec\<rparr>), d)))"

definition take_pq_entry :: "bytes \<Rightarrow> prim_error + (u32 \<times> pq_prekey) \<times> bytes" where
  "take_pq_entry d =
     rbind (take_u32 InvalidLength d) (\<lambda>(i, d).
     rbind (take_n InvalidLength 64 d) (\<lambda>(seed, d).
     rbind (take_n InvalidLength 64 d) (\<lambda>(sg, d).
       Inr ((i, \<lparr>pq_id = i, pq_seed = seed, pq_sig = sg\<rparr>), d))))"

definition store_deserialize :: "crypto \<Rightarrow> bytes \<Rightarrow> prim_error + prekey_store" where
  "store_deserialize C data =
     (if length data < 8 + 4 + 32 + 64 + 4 + 64 + 64 + 8 + 8 then Inl InvalidLength
      else if take 8 data \<noteq> bstr ''VCPREK01'' then Inl InvalidLength
      else
        rbind (take_u32 InvalidLength (drop 8 data)) (\<lambda>(sid, d).
        rbind (take_n InvalidLength 32 d) (\<lambda>(ssec, d).
        rbind (take_n InvalidLength 64 d) (\<lambda>(ssig, d).
        rbind (take_u32 InvalidLength d) (\<lambda>(lid, d).
        rbind (take_n InvalidLength 64 d) (\<lambda>(lseed, d).
        rbind (take_n InvalidLength 64 d) (\<lambda>(lsig, d).
        rbind (take_u32 InvalidLength d) (\<lambda>(nec, d).
        rbind (take_u32 InvalidLength d) (\<lambda>(npq, d).
        rbind (take_u32 InvalidLength d) (\<lambda>(ec_n, d).
        rbind (take_list (take_ec_entry C) (unat ec_n) d) (\<lambda>(ecs, d).
        rbind (take_u32 InvalidLength d) (\<lambda>(pq_n, d).
        rbind (take_list take_pq_entry (unat pq_n) d) (\<lambda>(pqs, d).
          if d \<noteq> [] then Inl InvalidLength
          else Inr \<lparr>ps_signed = \<lparr>sp_id = sid, sp_secret = secret_from_bytes C ssec, sp_sig = ssig\<rparr>,
                    ps_last_resort = \<lparr>pq_id = lid, pq_seed = lseed, pq_sig = lsig\<rparr>,
                    ps_ec = hm_of_list ecs, ps_pq = hm_of_list pqs, ps_next_ec = nec,
                    ps_next_pq = npq\<rparr>)))))))))))))"

subsection \<open>Invariant\<close>

definition ec_entry_ok :: "crypto \<Rightarrow> u32 \<Rightarrow> u32 \<times> one_time_ec_prekey \<Rightarrow> bool" where
  "ec_entry_ok C nx p \<longleftrightarrow> (case p of (i, k) \<Rightarrow> oe_id k = i \<and> i < nx \<and>
     length (oe_secret k) = 32 \<and> static_secret C (oe_secret k) = oe_secret k)"

definition pq_key_ok :: "crypto \<Rightarrow> bytes \<Rightarrow> pq_prekey \<Rightarrow> bool" where
  "pq_key_ok C ik k \<longleftrightarrow> length (pq_seed k) = 64 \<and> length (pq_sig k) = 64 \<and>
     xeddsa_verify C (public_key C ik) (encode_kem (kem_ek C (pq_seed k))) (pq_sig k) = Inr ()"

definition pq_entry_ok :: "crypto \<Rightarrow> bytes \<Rightarrow> u32 \<Rightarrow> u32 \<times> pq_prekey \<Rightarrow> bool" where
  "pq_entry_ok C ik nx p \<longleftrightarrow> (case p of (i, k) \<Rightarrow> pq_id k = i \<and> 2 \<le> i \<and> i < nx \<and> pq_key_ok C ik k)"

definition signed_ok :: "crypto \<Rightarrow> bytes \<Rightarrow> signed_prekey \<Rightarrow> bool" where
  "signed_ok C ik sp \<longleftrightarrow> length (sp_secret sp) = 32 \<and> static_secret C (sp_secret sp) = sp_secret sp \<and>
     length (sp_sig sp) = 64 \<and>
     xeddsa_verify C (public_key C ik) (encode_ec (public_key C (sp_secret sp))) (sp_sig sp) = Inr ()"

definition store_ok :: "crypto \<Rightarrow> bytes \<Rightarrow> prekey_store \<Rightarrow> bool" where
  "store_ok C ik s \<longleftrightarrow> signed_ok C ik (ps_signed s) \<and>
     pq_id (ps_last_resort s) = 1 \<and> pq_key_ok C ik (ps_last_resort s) \<and>
     hm_ok (ps_ec s) \<and> (\<forall>p \<in> set (ps_ec s). ec_entry_ok C (ps_next_ec s) p) \<and>
     hm_ok (ps_pq s) \<and> (\<forall>p \<in> set (ps_pq s). pq_entry_ok C ik (ps_next_pq s) p) \<and>
     2 \<le> ps_next_ec s \<and> 2 \<le> ps_next_pq s"

text \<open>The laws of the external code this component needs.\<close>

definition prekey_laws :: "crypto \<Rightarrow> bool" where
  "prekey_laws C \<longleftrightarrow> lens_ok C \<and> secret_stable C \<and> xpub_ok C \<and> kem_correct C \<and> edwards_laws C"

lemma sign_len: "edwards_laws C \<Longrightarrow> length (sign_with_nonce C ik m z) = 64"
  by (simp add: sign_with_nonce_def edwards_laws_def Let_def split: prod.split)

lemma identity_sign_ok:
  assumes "edwards_laws C" "identity_sign C ik m r = (sg, r')"
  shows "length sg = 64" "xeddsa_verify C (public_key C ik) m sg = Inr ()"
  using assms sign_len verify_signed
  by (auto simp: identity_sign_def xeddsa_sign_def public_key_def split: prod.splits)

lemma signed_generate_ok:
  assumes "prekey_laws C"
  shows "signed_ok C ik (fst (signed_generate C ik i r))"
proof -
  have l: "lens_ok C" "secret_stable C" "edwards_laws C" using assms by (simp_all add: prekey_laws_def)
  obtain sec r1 where s: "secret_generate C r = (sec, r1)" by (cases "secret_generate C r")
  obtain sg r2 where g: "identity_sign C ik (encode_ec (public_key C sec)) r1 = (sg, r2)"
    by (cases "identity_sign C ik (encode_ec (public_key C sec)) r1")
  show ?thesis
    using secret_generate_len [OF l(1) s] secret_generate_stable [OF l(2) s] identity_sign_ok [OF l(3) g]
    by (simp add: signed_generate_def s g signed_ok_def)
qed

lemma pq_generate_ok:
  assumes "prekey_laws C"
  obtains k r' where "pq_generate C ik i r = (Inr k, r')" "pq_key_ok C ik k" "pq_id k = i"
proof -
  have l: "kem_correct C" "edwards_laws C" using assms by (simp_all add: prekey_laws_def)
  obtain seed r1 where s: "fill_random 64 r = (seed, r1)" by (cases "fill_random 64 r")
  have e: "encode_public (kem_ek C seed) = Inr (kem_ek C seed)"
    using l(1) by (simp add: kem_correct_def encode_public_def)
  obtain sg r2 where g: "identity_sign C ik (encode_kem (kem_ek C seed)) r1 = (sg, r2)"
    by (cases "identity_sign C ik (encode_kem (kem_ek C seed)) r1")
  show thesis
    by (rule that [of "\<lparr>pq_id = i, pq_seed = seed, pq_sig = sg\<rparr>" r2])
       (use fill_random_len [OF s] identity_sign_ok [OF l(2) g] in
         \<open>simp_all add: pq_generate_def kem_generate_def s e g pq_key_ok_def\<close>)
qed

lemma store_new_ok:
  assumes "prekey_laws C"
  obtains s r' where "store_new C ik r = (Inr s, r')" "store_ok C ik s"
proof -
  obtain sp r1 where s: "signed_generate C ik 1 r = (sp, r1)" by (cases "signed_generate C ik 1 r")
  obtain k r2 where k: "pq_generate C ik 1 r1 = (Inr k, r2)" "pq_key_ok C ik k" "pq_id k = 1"
    using pq_generate_ok [OF assms, of ik 1 r1] by metis
  have "signed_ok C ik sp" using signed_generate_ok [OF assms, of ik 1 r] s by simp
  then show thesis
    using that [of "\<lparr>ps_signed = sp, ps_last_resort = k, ps_ec = [], ps_pq = [], ps_next_ec = 2,
                 ps_next_pq = 2\<rparr>" r2] k
    by (simp add: store_new_def s store_ok_def)
qed

lemma ec_entry_mono: "ec_entry_ok C nx p \<Longrightarrow> nx \<le> nx' \<Longrightarrow> ec_entry_ok C nx' p"
  by (auto simp: ec_entry_ok_def split: prod.splits)

lemma pq_entry_mono: "pq_entry_ok C ik nx p \<Longrightarrow> nx \<le> nx' \<Longrightarrow> pq_entry_ok C ik nx' p"
  by (auto simp: pq_entry_ok_def split: prod.splits)

lemma checked_succ: "checked_add (w :: u32) 1 = Some x \<Longrightarrow> w < x"
  using checked_add_unat [of w 1 x] by (simp add: word_less_nat_alt)

text \<open>One turn of each loop, and what the whole loop keeps.\<close>

lemma store_ok_add_ec:
  assumes "store_ok C ik s" "checked_add (ps_next_ec s) 1 = Some nx" "length sec = 32" "static_secret C sec = sec"
  shows "store_ok C ik (s\<lparr>ps_next_ec := nx,
    ps_ec := hm_insert (ps_ec s) (ps_next_ec s) \<lparr>oe_id = ps_next_ec s, oe_secret = sec\<rparr>\<rparr>)"
proof -
  have lt: "ps_next_ec s < nx" using assms(2) by (rule checked_succ)
  have "ec_entry_ok C nx p" if "p \<in> set (hm_insert (ps_ec s) (ps_next_ec s) \<lparr>oe_id = ps_next_ec s, oe_secret = sec\<rparr>)" for p
    using that set_hm_insert [of "ps_ec s"] assms(1,3,4) lt ec_entry_mono [of C "ps_next_ec s" p nx]
    by (fastforce simp: store_ok_def ec_entry_ok_def)
  then show ?thesis using assms(1) lt by (auto simp: store_ok_def)
qed

lemma store_ok_add_pq:
  assumes "store_ok C ik s" "checked_add (ps_next_pq s) 1 = Some nx" "pq_key_ok C ik k" "pq_id k = ps_next_pq s"
  shows "store_ok C ik (s\<lparr>ps_next_pq := nx, ps_pq := hm_insert (ps_pq s) (ps_next_pq s) k\<rparr>)"
proof -
  have lt: "ps_next_pq s < nx" using assms(2) by (rule checked_succ)
  have "pq_entry_ok C ik nx p" if "p \<in> set (hm_insert (ps_pq s) (ps_next_pq s) k)" for p
    using that set_hm_insert [of "ps_pq s"] assms(1,3,4) lt pq_entry_mono [of C ik "ps_next_pq s" p nx]
    by (fastforce simp: store_ok_def pq_entry_ok_def)
  then show ?thesis using assms(1) lt by (auto simp: store_ok_def)
qed

lemma store_ok_next:
  "store_ok C ik s \<Longrightarrow> ps_next_ec s \<le> nx \<Longrightarrow> store_ok C ik (s\<lparr>ps_next_ec := nx\<rparr>)"
  "store_ok C ik s \<Longrightarrow> ps_next_pq s \<le> nx \<Longrightarrow> store_ok C ik (s\<lparr>ps_next_pq := nx\<rparr>)"
  using ec_entry_mono pq_entry_mono by (fastforce simp: store_ok_def)+

text \<open>\<open>retires s s'\<close>: identifiers that were issued and are gone in \<open>s\<close> are gone in \<open>s'\<close>.\<close>

definition retires :: "prekey_store \<Rightarrow> prekey_store \<Rightarrow> bool" where
  "retires s s' \<longleftrightarrow> ps_next_ec s \<le> ps_next_ec s' \<and> ps_next_pq s \<le> ps_next_pq s' \<and>
     (\<forall>i < ps_next_ec s. hm_get (ps_ec s) i = None \<longrightarrow> hm_get (ps_ec s') i = None) \<and>
     (\<forall>i < ps_next_pq s. hm_get (ps_pq s) i = None \<longrightarrow> hm_get (ps_pq s') i = None)"

lemma retires_refl [simp]: "retires s s"
  by (simp add: retires_def)

lemma retires_trans: "retires s t \<Longrightarrow> retires t u \<Longrightarrow> retires s u"
  unfolding retires_def by (meson order_less_le_trans order_trans)

lemma retires_add:
  "checked_add (ps_next_ec s) 1 = Some nx \<Longrightarrow>
   retires s (s\<lparr>ps_next_ec := nx, ps_ec := hm_insert (ps_ec s) (ps_next_ec s) k\<rparr>)"
  "checked_add (ps_next_pq s) 1 = Some nx \<Longrightarrow>
   retires s (s\<lparr>ps_next_pq := nx, ps_pq := hm_insert (ps_pq s) (ps_next_pq s) q\<rparr>)"
  "checked_add (ps_next_ec s) 1 = Some nx \<Longrightarrow> retires s (s\<lparr>ps_next_ec := nx\<rparr>)"
  "checked_add (ps_next_pq s) 1 = Some nx \<Longrightarrow> retires s (s\<lparr>ps_next_pq := nx\<rparr>)"
  by (auto simp: retires_def dest!: checked_succ)

lemma replenish_ec_cases:
  "\<not> length (ps_ec s) < n \<Longrightarrow> replenish_ec C n s r = (Inr (), s, r)"
  "length (ps_ec s) < n \<Longrightarrow> checked_add (ps_next_ec s) 1 = None \<Longrightarrow> replenish_ec C n s r = (Inl LimitExceeded, s, r)"
  "length (ps_ec s) < n \<Longrightarrow> checked_add (ps_next_ec s) 1 = Some nx \<Longrightarrow> \<not> nx < 2 \<Longrightarrow>
   secret_generate C r = (sec, r1) \<Longrightarrow>
   replenish_ec C n s r = replenish_ec C n (s\<lparr>ps_next_ec := nx,
     ps_ec := hm_insert (ps_ec s) (ps_next_ec s) \<lparr>oe_id = ps_next_ec s, oe_secret = sec\<rparr>\<rparr>) r1"
  by (subst replenish_ec.simps, simp add: Let_def)+

lemma replenish_pq_cases:
  "\<not> length (ps_pq s) < n \<Longrightarrow> replenish_pq C ik n s r = (Inr (), s, r)"
  "length (ps_pq s) < n \<Longrightarrow> checked_add (ps_next_pq s) 1 = None \<Longrightarrow> replenish_pq C ik n s r = (Inl LimitExceeded, s, r)"
  "length (ps_pq s) < n \<Longrightarrow> checked_add (ps_next_pq s) 1 = Some nx \<Longrightarrow> \<not> nx < 2 \<Longrightarrow>
   pq_generate C ik (ps_next_pq s) r = (Inr k, r1) \<Longrightarrow>
   replenish_pq C ik n s r = replenish_pq C ik n (s\<lparr>ps_next_pq := nx,
     ps_pq := hm_insert (ps_pq s) (ps_next_pq s) k\<rparr>) r1"
  by (subst replenish_pq.simps, simp add: Let_def)+

definition replenished :: "crypto \<Rightarrow> bytes \<Rightarrow> prekey_store \<Rightarrow> prim_error + unit \<Rightarrow> prekey_store \<Rightarrow> bool" where
  "replenished C ik s res s' \<longleftrightarrow> store_ok C ik s' \<and> retires s s' \<and> (res = Inr () \<or> res = Inl LimitExceeded)"

lemma replenished_step: "replenished C ik t res s' \<Longrightarrow> retires s t \<Longrightarrow> replenished C ik s res s'"
  using retires_trans by (auto simp: replenished_def)

lemma next_not_low: "store_ok C ik s \<Longrightarrow> checked_add (ps_next_ec s) 1 = Some nx \<Longrightarrow> \<not> nx < 2"
  "store_ok C ik s \<Longrightarrow> checked_add (ps_next_pq s) 1 = Some nx \<Longrightarrow> \<not> nx < 2"
  by (auto simp: store_ok_def dest!: checked_succ)

lemma replenish_ec_ok:
  assumes "prekey_laws C" "store_ok C ik s"
  shows "(\<lambda>(res, s', r'). replenished C ik s res s' \<and> ps_pq s' = ps_pq s \<and> (res = Inr () \<longrightarrow> n \<le> length (ps_ec s')))
    (replenish_ec C n s r)"
  using assms(2)
proof (induction "4294967296 - unat (ps_next_ec s)" arbitrary: s r rule: less_induct)
  case less
  show ?case
  proof (cases "length (ps_ec s) < n")
    case False
    with less(2) show ?thesis by (simp add: replenish_ec_cases(1) replenished_def)
  next
    case T: True
    show ?thesis
    proof (cases "checked_add (ps_next_ec s) 1")
      case None
      with T less(2) show ?thesis by (simp add: replenish_ec_cases(2) replenished_def)
    next
      case (Some nx)
      obtain sec r1 where g: "secret_generate C r = (sec, r1)" by (cases "secret_generate C r")
      let ?s = "s\<lparr>ps_next_ec := nx, ps_ec := hm_insert (ps_ec s) (ps_next_ec s) \<lparr>oe_id = ps_next_ec s, oe_secret = sec\<rparr>\<rparr>"
      have ok: "store_ok C ik ?s"
        using store_ok_add_ec [OF less(2) Some] secret_generate_len [OF _ g] secret_generate_stable [OF _ g] assms(1)
        by (simp add: prekey_laws_def)
      have "4294967296 - unat (ps_next_ec ?s) < 4294967296 - unat (ps_next_ec s)" using u32_gap [OF Some] by simp
      from less(1) [OF this ok, of r1] show ?thesis
        unfolding replenish_ec_cases(3) [OF T Some next_not_low(1) [OF less(2) Some] g]
        using replenished_step [OF _ retires_add(1) [OF Some]] by (auto split: prod.splits)
    qed
  qed
qed

lemma replenish_pq_ok:
  assumes "prekey_laws C" "store_ok C ik s"
  shows "(\<lambda>(res, s', r'). replenished C ik s res s' \<and> ps_ec s' = ps_ec s \<and> (res = Inr () \<longrightarrow> n \<le> length (ps_pq s')))
    (replenish_pq C ik n s r)"
  using assms(2)
proof (induction "4294967296 - unat (ps_next_pq s)" arbitrary: s r rule: less_induct)
  case less
  show ?case
  proof (cases "length (ps_pq s) < n")
    case False
    with less(2) show ?thesis by (simp add: replenish_pq_cases(1) replenished_def)
  next
    case T: True
    show ?thesis
    proof (cases "checked_add (ps_next_pq s) 1")
      case None
      with T less(2) show ?thesis by (simp add: replenish_pq_cases(2) replenished_def)
    next
      case (Some nx)
      obtain k r1 where k: "pq_generate C ik (ps_next_pq s) r = (Inr k, r1)" "pq_key_ok C ik k" "pq_id k = ps_next_pq s"
        using pq_generate_ok [OF assms(1)] by metis
      let ?s = "s\<lparr>ps_next_pq := nx, ps_pq := hm_insert (ps_pq s) (ps_next_pq s) k\<rparr>"
      have ok: "store_ok C ik ?s" by (rule store_ok_add_pq [OF less(2) Some k(2,3)])
      have "4294967296 - unat (ps_next_pq ?s) < 4294967296 - unat (ps_next_pq s)" using u32_gap [OF Some] by simp
      from less(1) [OF this ok, of r1] show ?thesis
        unfolding replenish_pq_cases(3) [OF T Some next_not_low(2) [OF less(2) Some] k(1)]
        using replenished_step [OF _ retires_add(2) [OF Some]] by (auto split: prod.splits)
    qed
  qed
qed

lemma replenish_ok:
  assumes "prekey_laws C" "store_ok C ik s" "replenish C ik ne np s r = (res, s', r')"
  shows "replenished C ik s res s'" and "res = Inr () \<Longrightarrow> ne \<le> length (ps_ec s') \<and> np \<le> length (ps_pq s')"
proof -
  obtain res1 s1 r1 where e: "replenish_ec C ne s r = (res1, s1, r1)" by (cases "replenish_ec C ne s r")
  from replenish_ec_ok [OF assms(1,2), of ne r] e have ec: "replenished C ik s res1 s1"
    "res1 = Inr () \<longrightarrow> ne \<le> length (ps_ec s1)" by simp_all
  have "replenished C ik s res s' \<and> (res = Inr () \<longrightarrow> ne \<le> length (ps_ec s') \<and> np \<le> length (ps_pq s'))"
  proof (cases res1)
    case (Inl err)
    with assms(3) e ec show ?thesis by (auto simp: replenish_def)
  next
    case (Inr u)
    then have "replenish_pq C ik np s1 r1 = (res, s', r')" using assms(3) e by (simp add: replenish_def)
    with replenish_pq_ok [OF assms(1), of ik s1 np r1] ec Inr
    have "replenished C ik s1 res s'" "ps_ec s' = ps_ec s1" "res = Inr () \<longrightarrow> np \<le> length (ps_pq s')"
      by (simp_all add: replenished_def)
    with ec Inr replenished_step show ?thesis by (auto simp: replenished_def)
  qed
  then show "replenished C ik s res s'" "res = Inr () \<Longrightarrow> ne \<le> length (ps_ec s') \<and> np \<le> length (ps_pq s')"
    by simp_all
qed

lemma consume_ok:
  "store_ok C ik s \<Longrightarrow> store_ok C ik (snd (consume_ec s i)) \<and> retires s (snd (consume_ec s i))"
  "store_ok C ik s \<Longrightarrow> store_ok C ik (snd (consume_pq s i)) \<and> retires s (snd (consume_pq s i))"
  using set_hm_remove by (fastforce simp: store_ok_def consume_ec_def consume_pq_def retires_def)+

subsection \<open>Persistence\<close>

text \<open>The identifiers of a well-formed map are distinct and below the counter, so the 32-bit
  entry counts never overflow.\<close>

lemma length_below:
  assumes "hm_ok m" "\<forall>p \<in> set m. fst p < (nx :: u32)"
  shows "length m < 2 ^ 32"
proof -
  have "inj_on unat (set (map fst m))" by (rule inj_onI) (simp add: unsigned_word_eqI)
  then have "length m = card (unat ` set (map fst m))"
    using assms(1) distinct_card [of "map fst m"] by (simp add: hm_ok_def card_image)
  also have "\<dots> \<le> card {..<unat nx}"
    using assms(2) by (intro card_mono) (auto simp: word_less_nat_alt)
  finally show ?thesis using unat_u32_bound [of nx] by simp
qed

lemma store_counts:
  assumes "store_ok C ik s"
  shows "length (ps_ec s) < 2 ^ 32" "length (ps_pq s) < 2 ^ 32"
proof -
  show "length (ps_ec s) < 2 ^ 32"
    using assms by (intro length_below [of _ "ps_next_ec s"]) (auto simp: store_ok_def ec_entry_ok_def)
  show "length (ps_pq s) < 2 ^ 32"
    using assms by (intro length_below [of _ "ps_next_pq s"]) (auto simp: store_ok_def pq_entry_ok_def)
qed

lemma take_ec_entry_put:
  "ec_entry_ok C nx p \<Longrightarrow> take_ec_entry C (put_ec_entry p @ r) = Inr (p, r)"
  by (auto simp: take_ec_entry_def put_ec_entry_def ec_entry_ok_def secret_from_bytes_def split: prod.splits)

lemma take_pq_entry_put:
  "pq_entry_ok C ik nx p \<Longrightarrow> take_pq_entry (put_pq_entry p @ r) = Inr (p, r)"
  by (auto simp: take_pq_entry_def put_pq_entry_def pq_entry_ok_def pq_key_ok_def split: prod.splits)

interpretation prek: codec store_serialize "store_deserialize C" "store_ok C ik" for C ik
proof
  fix s assume s: "store_ok C ik s"
  note n = store_counts [OF s]
  have ec: "take_list (take_ec_entry C) (length (ps_ec s)) (concat (map put_ec_entry (ps_ec s)) @ r) = Inr (ps_ec s, r)" for r
    using s by (intro take_list_app) (auto simp: store_ok_def take_ec_entry_put)
  have "take_list take_pq_entry (length (ps_pq s)) (concat (map put_pq_entry (ps_pq s)) @ []) = Inr (ps_pq s, [])"
    using s by (intro take_list_app) (auto simp: store_ok_def take_pq_entry_put)
  then have pq: "take_list take_pq_entry (length (ps_pq s)) (concat (map put_pq_entry (ps_pq s))) = Inr (ps_pq s, [])"
    by simp
  have l: "length (sp_secret (ps_signed s)) = 32" "length (sp_sig (ps_signed s)) = 64"
    "static_secret C (sp_secret (ps_signed s)) = sp_secret (ps_signed s)"
    "length (pq_seed (ps_last_resort s)) = 64" "length (pq_sig (ps_last_resort s)) = 64"
    "hm_ok (ps_ec s)" "hm_ok (ps_pq s)"
    using s by (simp_all add: store_ok_def signed_ok_def pq_key_ok_def)
  show "store_deserialize C (store_serialize s) = Inr s"
    using n l ec pq by (simp add: store_deserialize_def store_serialize_def secret_from_bytes_def)
qed

subsection \<open>Bundles\<close>

definition bundle_fits :: "public_bundle \<Rightarrow> bool" where
  "bundle_fits b \<longleftrightarrow> length (pb_identity b) = 32 \<and> length (pb_signed b) = 32 \<and>
     length (pb_signed_sig b) = 64 \<and> length (pb_pq_sig b) = 64 \<and>
     (\<forall>i pk. pb_one_time_ec b = Some (i, pk) \<longrightarrow> length pk = 32)"

lemma bundle_validate_iff:
  "bundle_validate C b = Inr u \<longleftrightarrow> pb_identity b \<noteq> zeros32 \<and> pb_signed b \<noteq> zeros32 \<and>
     xeddsa_verify C (pb_identity b) (encode_ec (pb_signed b)) (pb_signed_sig b) = Inr () \<and>
     length (pb_pq_public b) = 1184 \<and> kem_ek_valid C (pb_pq_public b) \<and>
     xeddsa_verify C (pb_identity b) (encode_kem (pb_pq_public b)) (pb_pq_sig b) = Inr () \<and>
     (\<forall>i pk. pb_one_time_ec b = Some (i, pk) \<longrightarrow> pk \<noteq> zeros32)"
  by (auto simp: bundle_validate_def rd_simps split: option.split)

lemma take_opk_put:
  "(\<And>i pk. x = Some (i, pk) \<Longrightarrow> length pk = 32 \<and> pk \<noteq> zeros32) \<Longrightarrow>
   take_opk ((case x of None \<Rightarrow> [0] | Some (i, pk) \<Rightarrow> 1 # le_bytes 4 i @ pk) @ r) = Inr (x, r)"
  by (auto simp: take_opk_def split: option.split)

lemma bundle_decode_encode:
  assumes "bundle_fits b" "bundle_validate C b = Inr ()"
  shows "bundle_decode C (bundle_encode b) = Inr b"
proof -
  note v = assms(2) [unfolded bundle_validate_iff]
  have opk: "take_opk ((case pb_one_time_ec b of None \<Rightarrow> [0] | Some (i, pk) \<Rightarrow> 1 # le_bytes 4 i @ pk) @ r) =
      Inr (pb_one_time_ec b, r)" for r
    using assms(1) v by (intro take_opk_put) (auto simp: bundle_fits_def)
  have b: "\<lparr>pb_identity = pb_identity b, pb_signed_id = pb_signed_id b, pb_signed = pb_signed b,
      pb_signed_sig = pb_signed_sig b, pb_one_time_ec = pb_one_time_ec b, pb_pq_id = pb_pq_id b,
      pb_pq_public = pb_pq_public b, pb_pq_sig = pb_pq_sig b, pb_is_pq_one_time = pb_is_pq_one_time b\<rparr> = b"
    by (cases b) simp
  have len: "length (case pb_one_time_ec b of None \<Rightarrow> [0 :: u8] | Some (i, pk) \<Rightarrow> 1 # le_bytes 4 i @ pk) \<ge> 1"
    by (simp split: option.split)
  have flag: "((if pb_is_pq_one_time b then 1 else 0) = (1 :: u8)) = pb_is_pq_one_time b" by simp
  show ?thesis
    using assms v opk len
    by (simp add: bundle_decode_def bundle_encode_def bundle_fits_def flag Let_def b)
qed

text \<open>C27: a decoded bundle is a validated bundle. Whatever bytes come from the network, a
  successful decode yields non-zero keys of the right length and two valid signatures of the
  identity key, over the signed prekey and over the post-quantum prekey.\<close>

theorem decoded_bundle_is_authentic:
  assumes "bundle_decode C data = Inr b"
  shows "bundle_validate C b = Inr () \<and>
    bundle_fits b \<and>
    xeddsa_verify C (pb_identity b) (encode_ec (pb_signed b)) (pb_signed_sig b) = Inr () \<and>
    xeddsa_verify C (pb_identity b) (encode_kem (pb_pq_public b)) (pb_pq_sig b) = Inr ()"
proof (intro conjI impI)
  have opk: "take_opk d = Inr (x, r) \<Longrightarrow> x = Some (i, pk) \<Longrightarrow> length pk = 32" for d x r i pk
    by (auto simp: take_opk_def rd_simps split: if_splits)
  from assms show v: "bundle_validate C b = Inr ()" and "bundle_fits b"
    by (auto simp: bundle_decode_def rd_simps bundle_fits_def Let_def dest: opk split: if_splits)
  from v [unfolded bundle_validate_iff]
  show "xeddsa_verify C (pb_identity b) (encode_ec (pb_signed b)) (pb_signed_sig b) = Inr ()"
    "xeddsa_verify C (pb_identity b) (encode_kem (pb_pq_public b)) (pb_pq_sig b) = Inr ()"
    by simp_all
qed

text \<open>What a well-formed store publishes.\<close>

lemma store_bundle:
  assumes "prekey_laws C" "store_ok C ik s"
  obtains b k where "store_public_bundle C ik s = Inr b" "bundle_fits b" "bundle_validate C b = Inr ()"
    "pb_identity b = public_key C ik" "pb_signed b = public_key C (sp_secret (ps_signed s))"
    "pb_pq_public b = kem_ek C k" "get_pq_secret s (pb_pq_id b) = Inr k"
    "\<And>i pk. pb_one_time_ec b = Some (i, pk) \<Longrightarrow> \<exists>x. peek_ec s i = Inr x \<and> oe_id x = i \<and> pk = public_key C (oe_secret x)"
    "pb_is_pq_one_time b \<longleftrightarrow> pb_pq_id b \<noteq> pq_id (ps_last_resort s)"
proof -
  have l: "lens_ok C" "xpub_ok C" "kem_correct C" using assms(1) by (simp_all add: prekey_laws_def)
  define k where "k = (case ps_pq s of (_, k) # _ \<Rightarrow> k | [] \<Rightarrow> ps_last_resort s)"
  define one where "one = (ps_pq s \<noteq> [])"
  have ke: "(case ps_pq s of (_, k) # _ \<Rightarrow> (k, True) | [] \<Rightarrow> (ps_last_resort s, False)) = (k, one)"
    by (simp add: k_def one_def split: list.split)
  have k: "pq_key_ok C ik k" "get_pq_secret s (pq_id k) = Inr (pq_seed k)" "one = (pq_id k \<noteq> pq_id (ps_last_resort s))"
  proof -
    show "pq_key_ok C ik k"
      using assms(2) by (auto simp: k_def store_ok_def pq_entry_ok_def split: list.split)
    show "get_pq_secret s (pq_id k) = Inr (pq_seed k)" "one = (pq_id k \<noteq> pq_id (ps_last_resort s))"
      using assms(2) by (auto simp: k_def one_def get_pq_secret_def store_ok_def pq_entry_ok_def hm_get_Cons
          word_le_nat_alt split: list.split)
  qed
  let ?ec = "case ps_ec s of [] \<Rightarrow> None | (_, k) # _ \<Rightarrow> Some (oe_id k, public_key C (oe_secret k))"
  have ec: "\<exists>x. peek_ec s i = Inr x \<and> oe_id x = i \<and> pk = public_key C (oe_secret x)"
    if "?ec = Some (i, pk)" for i pk
    using that assms(2) by (auto simp: store_ok_def ec_entry_ok_def peek_ec_def hm_get_Cons split: list.splits)
  let ?b = "\<lparr>pb_identity = identity_public C ik, pb_signed_id = sp_id (ps_signed s),
      pb_signed = public_key C (sp_secret (ps_signed s)), pb_signed_sig = sp_sig (ps_signed s),
      pb_one_time_ec = ?ec, pb_pq_id = pq_id k, pb_pq_public = kem_ek C (pq_seed k), pb_pq_sig = pq_sig k,
      pb_is_pq_one_time = one\<rparr>"
  have "store_public_bundle C ik s = Inr ?b"
    by (simp add: store_public_bundle_def ke pq_public_def kem_public_key_ok [OF l(3)])
  moreover have pk: "length pk = 32 \<and> pk \<noteq> zeros32" if "?ec = Some (i, pk)" for i pk
    using ec [OF that] l by (auto simp: public_key_len public_key_nonzero)
  then have "bundle_fits ?b"
    using assms(2) k(1) l by (auto simp: bundle_fits_def identity_public_def public_key_len store_ok_def signed_ok_def pq_key_ok_def)
  moreover have "length (kem_ek C (pq_seed k)) = 1184" "kem_ek_valid C (kem_ek C (pq_seed k))"
    using l(3) by (simp_all add: kem_correct_def)
  then have "bundle_validate C ?b = Inr ()"
    unfolding bundle_validate_iff using assms(2) k(1) l pk
    by (auto simp: identity_public_def public_key_nonzero store_ok_def signed_ok_def pq_key_ok_def)
  ultimately show thesis
    using k ec by (intro that [of ?b "pq_seed k"]) (simp_all add: identity_public_def)
qed

text \<open>A published bundle is accepted. For every store built by \<open>new\<close>, \<open>replenish\<close> and consumption,
  \<open>public_bundle\<close> succeeds, the bundle validates, survives the network encoding, and refers only
  to keys whose secrets the store still holds.\<close>

theorem published_bundle_accepted:
  assumes "lens_ok C" "secret_stable C" "xpub_ok C" "kem_correct C" "edwards_laws C" "store_ok C ik s"
  shows "\<exists>b. store_public_bundle C ik s = Inr b \<and> bundle_decode C (bundle_encode b) = Inr b \<and>
    (\<exists>k. get_pq_secret s (pb_pq_id b) = Inr k \<and> pb_pq_public b = kem_ek C k) \<and>
    (\<forall>i pk. pb_one_time_ec b = Some (i, pk) \<longrightarrow> (\<exists>x. peek_ec s i = Inr x \<and> pk = public_key C (oe_secret x)))"
proof -
  have "prekey_laws C" using assms(1-5) by (simp add: prekey_laws_def)
  from store_bundle [OF this assms(6)] show ?thesis by (metis bundle_decode_encode)
qed

lemma plain_prekey_laws: "prekey_laws plain_crypto"
  using plain_laws plain_edwards by (simp add: prekey_laws_def)

definition demo_store :: prekey_store where
  "demo_store = (case fst (store_new plain_crypto (replicate 32 4) (\<lambda>_. 1)) of
     Inr s \<Rightarrow> s | Inl e \<Rightarrow> undefined)"

lemma store_new_fields:
  "store_new C ik r = (Inr s, r') \<Longrightarrow>
   ps_ec s = [] \<and> ps_pq s = [] \<and> ps_next_ec s = 2 \<and> ps_next_pq s = 2"
  by (auto simp: store_new_def rd_simps split: prod.splits)

lemma demo_store_ok:
  "store_ok plain_crypto (replicate 32 4) demo_store" "ps_ec demo_store = []" "ps_next_ec demo_store = 2"
proof -
  obtain s r' where s: "store_new plain_crypto (replicate 32 4) (\<lambda>_. 1) = (Inr s, r')"
    "store_ok plain_crypto (replicate 32 4) s"
    using store_new_ok [OF plain_prekey_laws] by metis
  then have "demo_store = s" by (simp add: demo_store_def)
  with s store_new_fields [OF s(1)] show "store_ok plain_crypto (replicate 32 4) demo_store"
    "ps_ec demo_store = []" "ps_next_ec demo_store = 2" by simp_all
qed

theorem published_bundle_accepted_witness:
  "\<exists>b. store_public_bundle plain_crypto (replicate 32 4) demo_store = Inr b \<and>
     bundle_decode plain_crypto (bundle_encode b) = Inr b"
  using published_bundle_accepted [OF plain_lens plain_stable plain_xpub plain_kem plain_edwards demo_store_ok(1)]
  by blast

theorem decoded_bundle_is_authentic_witness:
  "\<exists>b. bundle_decode plain_crypto (bundle_encode b) = Inr b \<and> bundle_validate plain_crypto b = Inr ()"
proof -
  obtain b where "bundle_fits b" "bundle_validate plain_crypto b = Inr ()"
    using store_bundle [OF plain_prekey_laws demo_store_ok(1)] by metis
  then have "bundle_decode plain_crypto (bundle_encode b) = Inr b" by (rule bundle_decode_encode)
  with decoded_bundle_is_authentic [OF this] show ?thesis by blast
qed

subsection \<open>One-time keys are used once\<close>

datatype prekey_op = PReplenish nat nat rng | PConsumeEc u32 | PConsumePq u32 | PReload

fun prekey_apply :: "crypto \<Rightarrow> bytes \<Rightarrow> prekey_op \<Rightarrow> prekey_store \<Rightarrow> prekey_store" where
  "prekey_apply C ik (PReplenish ne np r) s = fst (snd (replenish C ik ne np s r))"
| "prekey_apply C ik (PConsumeEc i) s = snd (consume_ec s i)"
| "prekey_apply C ik (PConsumePq i) s = snd (consume_pq s i)"
| "prekey_apply C ik PReload s =
     (case store_deserialize C (store_serialize s) of Inl _ \<Rightarrow> s | Inr s' \<Rightarrow> s')"

lemma prekey_apply_ok:
  assumes "prekey_laws C" "store_ok C ik s"
  shows "store_ok C ik (prekey_apply C ik op s) \<and> retires s (prekey_apply C ik op s)"
proof (cases op)
  case (PReplenish ne np r)
  obtain res s' r' where "replenish C ik ne np s r = (res, s', r')" by (cases "replenish C ik ne np s r")
  with replenish_ok(1) [OF assms this] PReplenish show ?thesis by (simp add: replenished_def)
next
  case PReload
  with prek.roundtrip [OF assms(2)] assms(2) show ?thesis by simp
qed (use consume_ok [OF assms(2)] in simp_all)

lemma prekey_run_ok:
  assumes "prekey_laws C" "store_ok C ik s"
  shows "store_ok C ik (fold (prekey_apply C ik) ops s) \<and> retires s (fold (prekey_apply C ik) ops s)"
  using assms(2)
proof (induction ops arbitrary: s)
  case (Cons op ops)
  from Cons.IH prekey_apply_ok [OF assms(1) Cons.prems] retires_trans show ?case by fastforce
qed simp

text \<open>C28: one-time prekeys are used at most once. After a one-time key was consumed, no sequence of
  replenishing, consuming and restarting ever makes a key with that identifier available again.\<close>

theorem one_time_keys_never_return:
  assumes "lens_ok C" "secret_stable C" "xpub_ok C" "kem_correct C" "edwards_laws C" "store_ok C ik s"
  shows "(consume_ec s i = (Inr k, s') \<longrightarrow>
      peek_ec (fold (prekey_apply C ik) ops s') i = Inl InvalidSecretKey) \<and>
    (consume_pq s i = (Inr q, s') \<longrightarrow>
      peek_pq (fold (prekey_apply C ik) ops s') i = Inl InvalidSecretKey)"
proof (intro conjI impI)
  have laws: "prekey_laws C" using assms(1-5) by (simp add: prekey_laws_def)
  show "peek_ec (fold (prekey_apply C ik) ops s') i = Inl InvalidSecretKey" if c: "consume_ec s i = (Inr k, s')"
  proof -
    have g: "hm_get (ps_ec s) i = Some k" and s': "s' = s\<lparr>ps_ec := hm_remove (ps_ec s) i\<rparr>"
      using c by (auto simp: consume_ec_def)
    have "i < ps_next_ec s" using hm_get_in_set [OF g] assms(6) by (auto simp: store_ok_def ec_entry_ok_def)
    moreover have "store_ok C ik s'" using consume_ok(1) [OF assms(6), of i] c by simp
    ultimately show ?thesis
      using prekey_run_ok [OF laws, of ik s' ops] by (simp add: retires_def s' peek_ec_def)
  qed
  show "peek_pq (fold (prekey_apply C ik) ops s') i = Inl InvalidSecretKey" if c: "consume_pq s i = (Inr q, s')"
  proof -
    have g: "hm_get (ps_pq s) i = Some q" and s': "s' = s\<lparr>ps_pq := hm_remove (ps_pq s) i\<rparr>"
      using c by (auto simp: consume_pq_def)
    have "i < ps_next_pq s" using hm_get_in_set [OF g] assms(6) by (auto simp: store_ok_def pq_entry_ok_def)
    moreover have "store_ok C ik s'" using consume_ok(2) [OF assms(6), of i] c by simp
    ultimately show ?thesis
      using prekey_run_ok [OF laws, of ik s' ops] by (simp add: retires_def s' peek_pq_def)
  qed
qed

theorem one_time_keys_never_return_witness:
  "\<exists>s i k s'. store_ok plain_crypto (replicate 32 4) s \<and> consume_ec s i = (Inr k, s') \<and>
     peek_ec (fold (prekey_apply plain_crypto (replicate 32 4)) [PReplenish 3 1 (\<lambda>_. 0), PReload] s') i =
       Inl InvalidSecretKey"
proof -
  let ?ik = "replicate 32 4" and ?C = plain_crypto and ?sec = "replicate 32 8 :: bytes"
  let ?s = "demo_store\<lparr>ps_next_ec := 3, ps_ec := hm_insert (ps_ec demo_store) (ps_next_ec demo_store)
    \<lparr>oe_id = ps_next_ec demo_store, oe_secret = ?sec\<rparr>\<rparr>"
  have "checked_add (ps_next_ec demo_store) 1 = Some 3" by (simp add: demo_store_ok(3) checked_add_def)
  then have ok: "store_ok ?C ?ik ?s"
    by (rule store_ok_add_ec [OF demo_store_ok(1)]) (simp_all add: plain_simps)
  obtain k s' where c: "consume_ec ?s 2 = (Inr k, s')" by (simp add: consume_ec_def demo_store_ok(2,3))
  from one_time_keys_never_return [OF plain_lens plain_stable plain_xpub plain_kem plain_edwards ok] c
  show ?thesis using ok by blast
qed

end
