(* ===== verification/VC_Pqxdh.thy ===== *)
theory VC_Pqxdh
  imports VC_Prekeys
begin

text \<open>The PQXDH key agreement (\<^verbatim>\<open>src/pqxdh/mod.rs\<close>), both sides.\<close>

record pqxdh_shared =
  px_sk :: bytes
  px_ad :: bytes

record alice_initiation =
  ai_ephemeral :: bytes
  ai_shared :: pqxdh_shared
  ai_kem_ct :: bytes
  ai_opk_id :: "u32 option"
  ai_pq_id :: u32

record bob_material =
  bm_identity :: bytes
  bm_signed :: signed_prekey
  bm_one_time :: "one_time_ec_prekey option"
  bm_pq_secret :: bytes
  bm_pq_public :: bytes
  bm_pq_id :: u32

definition pqxdh_ad :: "bytes \<Rightarrow> bytes \<Rightarrow> bytes \<Rightarrow> bytes" where
  "pqxdh_ad ika ikb pq = encode_ec ika @ encode_ec ikb @ encode_kem pq"

definition alice_initiate ::
  "crypto \<Rightarrow> bytes \<Rightarrow> public_bundle \<Rightarrow> rng \<Rightarrow> (prim_error + alice_initiation) \<times> rng" where
  "alice_initiate C ik b r =
     sbind (bundle_validate C b, r) (\<lambda>_ r.
       let (eka, r) = secret_generate C r
       in sbind (kem_public_from_bytes C (pb_pq_public b), r) (\<lambda>pq r.
          sbind (kem_encapsulate C pq r) (\<lambda>(ss, ct) r.
            let dh1 = diffie_hellman C ik (pb_signed b);
                dh2 = diffie_hellman C eka (pb_identity b);
                dh3 = diffie_hellman C eka (pb_signed b);
                dh4 = (case pb_one_time_ec b of Some (_, opk) \<Rightarrow> diffie_hellman C eka opk | None \<Rightarrow> []);
                km = dh1 @ dh2 @ dh3 @ dh4 @ ss
            in sbind (pqxdh_kdf C km, r) (\<lambda>sk r.
                 (Inr \<lparr>ai_ephemeral = public_key C eka,
                       ai_shared = \<lparr>px_sk = sk, px_ad = pqxdh_ad (identity_public C ik) (pb_identity b) pq\<rparr>,
                       ai_kem_ct = ct, ai_opk_id = map_option fst (pb_one_time_ec b),
                       ai_pq_id = pb_pq_id b\<rparr>, r)))))"

definition bob_process ::
  "crypto \<Rightarrow> bob_material \<Rightarrow> bytes \<Rightarrow> bytes \<Rightarrow> bytes \<Rightarrow> u32 option \<Rightarrow> prim_error + pqxdh_shared" where
  "bob_process C m alice_ik alice_ek kem_ct opk_id =
     rbind (kem_ct_from_bytes kem_ct) (\<lambda>ct.
     rbind (kem_decapsulate C (bm_pq_secret m) ct) (\<lambda>ss.
       let dh1 = diffie_hellman C (sp_secret (bm_signed m)) alice_ik;
           dh2 = diffie_hellman C (bm_identity m) alice_ek;
           dh3 = diffie_hellman C (sp_secret (bm_signed m)) alice_ek
       in rbind (case opk_id of
                   None \<Rightarrow> Inr []
                 | Some i \<Rightarrow>
                     rbind (ok_or InvalidSecretKey (bm_one_time m)) (\<lambda>opk.
                       if oe_id opk \<noteq> i then Inl InvalidSecretKey
                       else Inr (diffie_hellman C (oe_secret opk) alice_ek))) (\<lambda>dh4.
          rbind (pqxdh_kdf C (dh1 @ dh2 @ dh3 @ dh4 @ ss)) (\<lambda>sk.
            Inr \<lparr>px_sk = sk, px_ad = pqxdh_ad alice_ik (identity_public C (bm_identity m)) (bm_pq_public m)\<rparr>))))"

lemma pqxdh_kdf_ok:
  assumes "lens_ok C"
  obtains sk where "pqxdh_kdf C km = Inr sk" "length sk = 32"
  using hkdf_ok [OF assms, of 32 "Some (replicate 32 0)" "replicate 32 255 @ km" PQXDH_KDF_INFO]
  by (auto simp: pqxdh_kdf_def)

text \<open>Bob's material for a bundle: the secrets behind the public keys it lists.\<close>

definition matches :: "crypto \<Rightarrow> bob_material \<Rightarrow> public_bundle \<Rightarrow> bool" where
  "matches C m b \<longleftrightarrow> pb_identity b = public_key C (bm_identity m) \<and>
     pb_signed b = public_key C (sp_secret (bm_signed m)) \<and>
     pb_pq_public b = kem_ek C (bm_pq_secret m) \<and> bm_pq_public m = pb_pq_public b \<and>
     (\<forall>i pk. pb_one_time_ec b = Some (i, pk) \<longrightarrow>
        (\<exists>x. bm_one_time m = Some x \<and> oe_id x = i \<and> pk = public_key C (oe_secret x)))"

lemma alice_initiate_total:
  assumes "lens_ok C" "bundle_validate C b = Inr ()"
  obtains i r' where "alice_initiate C ik b r = (Inr i, r')" "length (px_sk (ai_shared i)) = 32"
proof -
  obtain eka r1 where e: "secret_generate C r = (eka, r1)" by (cases "secret_generate C r")
  have pq: "kem_public_from_bytes C (pb_pq_public b) = Inr (pb_pq_public b)"
    using assms(2) by (simp add: bundle_validate_iff kem_public_from_bytes_iff)
  have "\<exists>v r2. kem_encapsulate C (pb_pq_public b) r1 = (Inr v, r2)"
    using assms(2) by (auto simp: bundle_validate_iff kem_encapsulate_def split: prod.split)
  then obtain ss ct r2 where k: "kem_encapsulate C (pb_pq_public b) r1 = (Inr (ss, ct), r2)" by auto
  let ?dh4 = "case pb_one_time_ec b of Some (_, opk) \<Rightarrow> diffie_hellman C eka opk | None \<Rightarrow> []"
  obtain sk where "pqxdh_kdf C (diffie_hellman C ik (pb_signed b) @ diffie_hellman C eka (pb_identity b) @
      diffie_hellman C eka (pb_signed b) @ ?dh4 @ ss) = Inr sk" "length sk = 32"
    using pqxdh_kdf_ok [OF assms(1)] by metis
  then show thesis using that assms(2) e pq k by (simp add: alice_initiate_def Let_def)
qed

lemma pqxdh_agree:
  assumes "dh_commutes C" "kem_correct C" "matches C m b" "alice_initiate C ika b r = (Inr i, r')"
  shows "bob_process C m (identity_public C ika) (ai_ephemeral i) (ai_kem_ct i) (ai_opk_id i) = Inr (ai_shared i)"
proof -
  obtain eka r1 where e: "secret_generate C r = (eka, r1)" by (cases "secret_generate C r")
  note m = assms(3) [unfolded matches_def]
  let ?dh4 = "case pb_one_time_ec b of Some (_, opk) \<Rightarrow> diffie_hellman C eka opk | None \<Rightarrow> []"
  from assms(4) e obtain ss ct r2 sk where
    k: "kem_encapsulate C (kem_ek C (bm_pq_secret m)) r1 = (Inr (ss, ct), r2)"
    and sk: "pqxdh_kdf C (diffie_hellman C ika (pb_signed b) @ diffie_hellman C eka (pb_identity b) @
      diffie_hellman C eka (pb_signed b) @ ?dh4 @ ss) = Inr sk"
    and i: "i = \<lparr>ai_ephemeral = public_key C eka, ai_shared = \<lparr>px_sk = sk,
        px_ad = pqxdh_ad (identity_public C ika) (pb_identity b) (pb_pq_public b)\<rparr>,
        ai_kem_ct = ct, ai_opk_id = map_option fst (pb_one_time_ec b), ai_pq_id = pb_pq_id b\<rparr>"
    using m by (auto simp: alice_initiate_def rd_simps Let_def)
  note kem = kem_roundtrip [OF assms(2) k]
  note dh = dh_agree [OF assms(1)]
  have dh4: "(case ai_opk_id i of None \<Rightarrow> Inr [] | Some j \<Rightarrow>
      rbind (ok_or InvalidSecretKey (bm_one_time m)) (\<lambda>opk. if oe_id opk \<noteq> j then Inl InvalidSecretKey
        else Inr (diffie_hellman C (oe_secret opk) (public_key C eka)))) = Inr ?dh4"
  proof (cases "pb_one_time_ec b")
    case (Some p)
    obtain j pk where p: "p = (j, pk)" by (cases p)
    then obtain x where "bm_one_time m = Some x" "oe_id x = j" "pk = public_key C (oe_secret x)"
      using m Some by auto
    then show ?thesis using Some p dh [of "oe_secret x" eka] by (simp add: i)
  qed (simp add: i)
  have "diffie_hellman C (sp_secret (bm_signed m)) (identity_public C ika) = diffie_hellman C ika (pb_signed b)"
    "diffie_hellman C (bm_identity m) (public_key C eka) = diffie_hellman C eka (pb_identity b)"
    "diffie_hellman C (sp_secret (bm_signed m)) (public_key C eka) = diffie_hellman C eka (pb_signed b)"
    using m dh by (simp_all add: identity_public_def)
  then show ?thesis
    using dh4 sk kem m by (simp add: bob_process_def i kem_ct_from_bytes_def identity_public_def)
qed

text \<open>C10: PQXDH agreement. Let Bob publish a bundle from his store and Alice initiate against it:
  Alice succeeds, and Bob, processing her message with the keys his store holds for the
  identifiers she names, derives the same 32-byte secret and the same associated data, with
  or without a one-time prekey and with a one-time or last-resort post-quantum key.\<close>

theorem pqxdh_agreement:
  assumes "lens_ok C" "secret_stable C" "xpub_ok C" "kem_correct C" "edwards_laws C" "dh_commutes C"
    and "store_ok C ikb s" "store_public_bundle C ikb s = Inr b"
  shows "\<exists>i r' pq. alice_initiate C ika b r = (Inr i, r') \<and> length (px_sk (ai_shared i)) = 32 \<and>
    get_pq_secret s (ai_pq_id i) = Inr pq \<and>
    (\<forall>opk. (case ai_opk_id i of None \<Rightarrow> True | Some j \<Rightarrow> peek_ec s j = Inr (the opk) \<and> opk \<noteq> None) \<longrightarrow>
       bob_process C \<lparr>bm_identity = ikb, bm_signed = ps_signed s, bm_one_time = opk, bm_pq_secret = pq,
           bm_pq_public = kem_ek C pq, bm_pq_id = ai_pq_id i\<rparr>
         (identity_public C ika) (ai_ephemeral i) (ai_kem_ct i) (ai_opk_id i) = Inr (ai_shared i))"
proof -
  have laws: "prekey_laws C" using assms(1-5) by (simp add: prekey_laws_def)
  from store_bundle [OF laws assms(7)] assms(8) obtain pq where b: "bundle_validate C b = Inr ()"
    "pb_identity b = public_key C ikb" "pb_signed b = public_key C (sp_secret (ps_signed s))"
    "pb_pq_public b = kem_ek C pq" "get_pq_secret s (pb_pq_id b) = Inr pq"
    "\<And>i pk. pb_one_time_ec b = Some (i, pk) \<Longrightarrow> \<exists>x. peek_ec s i = Inr x \<and> oe_id x = i \<and> pk = public_key C (oe_secret x)"
    by (metis sum.inject(2))
  obtain i r' where i: "alice_initiate C ika b r = (Inr i, r')" "length (px_sk (ai_shared i)) = 32"
    using alice_initiate_total [OF assms(1) b(1)] by metis
  have ids: "ai_opk_id i = map_option fst (pb_one_time_ec b)" "ai_pq_id i = pb_pq_id b"
    using i(1) by (auto simp: alice_initiate_def rd_simps Let_def split: prod.splits)
  have "bob_process C \<lparr>bm_identity = ikb, bm_signed = ps_signed s, bm_one_time = opk, bm_pq_secret = pq,
           bm_pq_public = kem_ek C pq, bm_pq_id = ai_pq_id i\<rparr>
         (identity_public C ika) (ai_ephemeral i) (ai_kem_ct i) (ai_opk_id i) = Inr (ai_shared i)"
    if "case ai_opk_id i of None \<Rightarrow> True | Some j \<Rightarrow> peek_ec s j = Inr (the opk) \<and> opk \<noteq> None" for opk
  proof (rule pqxdh_agree [OF assms(6,4) _ i(1)])
    show "matches C \<lparr>bm_identity = ikb, bm_signed = ps_signed s, bm_one_time = opk, bm_pq_secret = pq,
           bm_pq_public = kem_ek C pq, bm_pq_id = ai_pq_id i\<rparr> b"
      using b that ids by (fastforce simp: matches_def)
  qed
  with i b(5) ids show ?thesis by auto
qed

theorem pqxdh_agreement_witness:
  "\<exists>b i r' pq. store_public_bundle plain_crypto (replicate 32 4) demo_store = Inr b \<and>
     alice_initiate plain_crypto (replicate 32 6) b (\<lambda>_. 3) = (Inr i, r') \<and>
     get_pq_secret demo_store (ai_pq_id i) = Inr pq"
proof -
  obtain b where b: "store_public_bundle plain_crypto (replicate 32 4) demo_store = Inr b"
    using store_bundle [OF plain_prekey_laws demo_store_ok(1)] by metis
  from pqxdh_agreement [OF plain_lens plain_stable plain_xpub plain_kem plain_edwards plain_dh
      demo_store_ok(1) b, of "replicate 32 6" "\<lambda>_. 3"] b
  show ?thesis by blast
qed

end
