(* ===== verification/VC_Replay.thy ===== *)
theory VC_Replay
  imports VC_Primitives
begin

text \<open>
  The bounded replay cache (\<^verbatim>\<open>src/replay/mod.rs\<close>). The specification is a FIFO window: the list of
  the last \<open>capacity\<close> distinct keys in order of first appearance. \<open>rc_ok\<close> ties the hash map to the
  queue, \<open>replay_window\<close> is the reference, and the codec is canonical on the byte level.
\<close>

record replay_key =
  conversation_id :: bytes
  sender_device_id :: bytes
  message_id :: bytes

record replay_cache =
  rc_capacity :: nat
  rc_order :: "replay_key list"
  rc_present :: "(replay_key, unit) hmap"

definition DEFAULT_REPLAY_CACHE_SIZE :: nat where
  "DEFAULT_REPLAY_CACHE_SIZE = 4096"

text \<open>\<open>None\<close>: the assertion \<open>capacity > 0\<close> fails.\<close>

definition replay_new :: "nat \<Rightarrow> replay_cache option" where
  "replay_new capacity =
     (if capacity > 0 then Some \<lparr>rc_capacity = capacity, rc_order = [], rc_present = []\<rparr> else None)"

definition replay_contains :: "replay_cache \<Rightarrow> replay_key \<Rightarrow> bool" where
  "replay_contains c key \<longleftrightarrow> hm_get (rc_present c) key \<noteq> None"

definition check_and_insert :: "replay_cache \<Rightarrow> replay_key \<Rightarrow> (prim_error + bool) \<times> replay_cache" where
  "check_and_insert c key =
     (if hm_get (rc_present c) key \<noteq> None then (Inr True, c)
      else
        let c1 = (if length (rc_order c) \<ge> rc_capacity c then
                    (case rc_order c of
                       [] \<Rightarrow> c
                     | old # rest \<Rightarrow> c\<lparr>rc_order := rest, rc_present := hm_remove (rc_present c) old\<rparr>)
                  else c)
        in (Inr False, c1\<lparr>rc_present := hm_insert (rc_present c1) key (), rc_order := rc_order c1 @ [key]\<rparr>))"

definition replay_len :: "replay_cache \<Rightarrow> nat" where
  "replay_len c = length (rc_present c)"

definition replay_is_empty :: "replay_cache \<Rightarrow> bool" where
  "replay_is_empty c \<longleftrightarrow> rc_present c = []"

definition replay_key_bytes :: "replay_key \<Rightarrow> bytes" where
  "replay_key_bytes k =
     put_vec (conversation_id k) @ put_vec (sender_device_id k) @ put_vec (message_id k)"

definition replay_serialize :: "replay_cache \<Rightarrow> bytes" where
  "replay_serialize c =
     bstr ''VCREPL01'' @ le_bytes 4 (of_nat (rc_capacity c) :: u32) @
     le_bytes 4 (of_nat (length (rc_order c)) :: u32) @ concat (map replay_key_bytes (rc_order c))"

definition take_replay_key :: "bytes \<Rightarrow> prim_error + replay_key \<times> bytes" where
  "take_replay_key d =
     rbind (take_vec InvalidLength d) (\<lambda>(cid, d).
     rbind (take_vec InvalidLength d) (\<lambda>(dev, d).
     rbind (take_vec InvalidLength d) (\<lambda>(mid, d).
       Inr (\<lparr>conversation_id = cid, sender_device_id = dev, message_id = mid\<rparr>, d))))"

text \<open>Reading fills both containers without the eviction of \<open>check_and_insert\<close>.\<close>

definition replay_deserialize :: "bytes \<Rightarrow> prim_error + replay_cache" where
  "replay_deserialize data =
     (if length data < 16 \<or> take 8 data \<noteq> bstr ''VCREPL01'' then Inl InvalidLength
      else
        let capacity = unat (from_le (take 4 (drop 8 data)) :: u32);
            n = unat (from_le (take 4 (drop 12 data)) :: u32)
        in if capacity = 0 then Inl InvalidLength
           else rbind (take_list take_replay_key n (drop 16 data)) (\<lambda>(ks, rest).
                  if rest \<noteq> [] then Inl InvalidLength
                  else Inr \<lparr>rc_capacity = capacity, rc_order = ks,
                            rc_present = hm_of_list (map (\<lambda>k. (k, ())) ks)\<rparr>))"

subsection \<open>Invariant\<close>

definition rc_ok :: "replay_cache \<Rightarrow> bool" where
  "rc_ok c \<longleftrightarrow> 0 < rc_capacity c \<and> length (rc_order c) \<le> rc_capacity c \<and> distinct (rc_order c) \<and>
     rc_present c = map (\<lambda>k. (k, ())) (rc_order c)"

lemma hm_get_unit_map: "hm_get (map (\<lambda>k. (k, ())) ks) k = (if k \<in> set ks then Some () else None)"
  by (induction ks) (auto simp: hm_get_def)

lemma hm_ok_unit_map [simp]: "hm_ok (map (\<lambda>k. (k, ())) ks) = distinct ks"
  by (simp add: hm_ok_def comp_def)

lemma replay_contains_iff: "rc_ok c \<Longrightarrow> replay_contains c k \<longleftrightarrow> k \<in> set (rc_order c)"
  by (simp add: replay_contains_def rc_ok_def hm_get_unit_map)

lemma replay_new_ok: "replay_new n = Some c \<Longrightarrow> rc_ok c"
  by (auto simp: replay_new_def rc_ok_def split: if_splits)

text \<open>The reference: a window over the keys, newest last.\<close>

definition window_add :: "nat \<Rightarrow> replay_key list \<Rightarrow> replay_key \<Rightarrow> replay_key list" where
  "window_add cap w k =
     (if k \<in> set w then w else (if length w \<ge> cap then tl w else w) @ [k])"

lemma set_tl_in: "x \<in> set (tl xs) \<Longrightarrow> x \<in> set xs"
  by (cases xs) auto

lemma distinct_window_add: "distinct w \<Longrightarrow> distinct (window_add cap w k)"
  by (auto simp: window_add_def distinct_tl dest: set_tl_in)

lemma hm_remove_head: "k \<notin> set ks \<Longrightarrow> hm_remove (map (\<lambda>k. (k, ())) (k # ks)) k = map (\<lambda>k. (k, ())) ks"
  using hm_remove_id [of "map (\<lambda>k. (k, ())) ks" k]
  by (simp add: hm_remove_def hm_get_unit_map)

lemma hm_insert_unit: "k \<notin> set ks \<Longrightarrow> hm_insert (map (\<lambda>k. (k, ())) ks) k () = map (\<lambda>k. (k, ())) (ks @ [k])"
  by (simp add: hm_insert_fresh hm_get_unit_map)

lemma check_and_insert_window:
  assumes "rc_ok c"
  shows "fst (check_and_insert c k) = Inr (k \<in> set (rc_order c))"
    and "rc_order (snd (check_and_insert c k)) = window_add (rc_capacity c) (rc_order c) k"
    and "rc_capacity (snd (check_and_insert c k)) = rc_capacity c"
    and "rc_ok (snd (check_and_insert c k))"
proof -
  from assms have p: "rc_present c = map (\<lambda>k. (k, ())) (rc_order c)" and cap: "0 < rc_capacity c"
    and d: "distinct (rc_order c)" "length (rc_order c) \<le> rc_capacity c"
    by (simp_all add: rc_ok_def)
  note hm = hm_get_unit_map hm_remove_head hm_insert_unit [unfolded map_append]
  have "fst (check_and_insert c k) = Inr (k \<in> set (rc_order c)) \<and>
    rc_order (snd (check_and_insert c k)) = window_add (rc_capacity c) (rc_order c) k \<and>
    rc_capacity (snd (check_and_insert c k)) = rc_capacity c \<and>
    rc_present (snd (check_and_insert c k)) =
      map (\<lambda>k. (k, ())) (window_add (rc_capacity c) (rc_order c) k)"
  proof (cases "rc_order c")
    case Nil
    then show ?thesis using p cap hm_insert_unit [of k "[]"]
      by (simp add: check_and_insert_def window_add_def)
  next
    case (Cons old rest)
    with d p show ?thesis
      using hm_remove_head [of old rest] hm_insert_unit [of k rest] hm_insert_unit [of k "old # rest"]
      by (simp add: check_and_insert_def window_add_def hm_get_unit_map hm_get_Cons Let_def)
  qed
  moreover have "distinct (window_add (rc_capacity c) (rc_order c) k)"
    using d by (simp add: distinct_window_add)
  moreover have "length (window_add (rc_capacity c) (rc_order c) k) \<le> rc_capacity c"
    using d cap by (auto simp: window_add_def)
  ultimately show "fst (check_and_insert c k) = Inr (k \<in> set (rc_order c))"
    "rc_order (snd (check_and_insert c k)) = window_add (rc_capacity c) (rc_order c) k"
    "rc_capacity (snd (check_and_insert c k)) = rc_capacity c" "rc_ok (snd (check_and_insert c k))"
    using cap by (simp_all add: rc_ok_def)
qed

definition replay_run :: "replay_cache \<Rightarrow> replay_key list \<Rightarrow> replay_cache" where
  "replay_run c ks = fold (\<lambda>k c. snd (check_and_insert c k)) ks c"

lemma replay_run_ok:
  "rc_ok c \<Longrightarrow> rc_ok (replay_run c ks) \<and> rc_capacity (replay_run c ks) = rc_capacity c \<and>
     rc_order (replay_run c ks) = foldl (window_add (rc_capacity c)) (rc_order c) ks"
  unfolding replay_run_def
  by (induction ks arbitrary: c) (simp_all add: check_and_insert_window)

text \<open>A key stays in the window until as many other keys as the capacity have followed it.\<close>

lemma window_keeps:
  assumes "w = pre @ k # post" "distinct w" "card ((set post \<union> set ks) - {k}) < cap"
  shows "k \<in> set (foldl (window_add cap) w ks)"
  using assms
proof (induction ks arbitrary: w pre post)
  case (Cons x ks)
  show ?case
  proof (cases "x \<in> set w")
    case True
    have "card ((set post \<union> set ks) - {k}) \<le> card ((set post \<union> set (x # ks)) - {k})"
      by (intro card_mono) auto
    with Cons.IH [OF Cons.prems(1,2)] Cons.prems(3) True show ?thesis by (simp add: window_add_def)
  next
    case new: False
    have "card (insert x (set post)) \<le> card ((set post \<union> set (x # ks)) - {k})"
      using new Cons.prems(1,2) by (intro card_mono) auto
    moreover have "card (insert x (set post)) = Suc (length post)"
      using new Cons.prems(1,2) by (simp add: distinct_card)
    ultimately have "Suc (length post) < cap" using Cons.prems(3) by simp
    then have "window_add cap w x = (if length w \<ge> cap then tl pre else pre) @ k # (post @ [x])"
      using new Cons.prems(1) by (cases pre) (auto simp: window_add_def)
    then obtain pre' where w': "window_add cap w x = pre' @ k # (post @ [x])" by blast
    have "distinct (window_add cap w x)"
      using Cons.prems(2) by (rule distinct_window_add)
    from Cons.IH [OF w' this] Cons.prems(3) show ?thesis by (simp add: insert_commute Un_commute)
  qed
qed simp

text \<open>C29: the replay cache refines a sliding window over the keys. From any cache that satisfies
  the invariant, processing a sequence of keys leaves at most \<open>capacity\<close> entries, queue and hash
  map agree, and a key is reported as a replay exactly when it is in the window.\<close>

theorem replay_cache_refines_window:
  assumes "rc_ok c" and "w = foldl (window_add (rc_capacity c)) (rc_order c) ks"
  shows "rc_ok (replay_run c ks) \<and>
    replay_len (replay_run c ks) = length w \<and>
    length w \<le> rc_capacity c \<and>
    fst (check_and_insert (replay_run c ks) k) = Inr (k \<in> set w) \<and>
    (replay_contains (replay_run c ks) k \<longleftrightarrow> k \<in> set w)"
proof (intro conjI impI)
  have r: "rc_ok (replay_run c ks)" "rc_order (replay_run c ks) = w"
    "rc_capacity (replay_run c ks) = rc_capacity c"
    using replay_run_ok [OF assms(1)] assms(2) by simp_all
  then show "rc_ok (replay_run c ks)" "replay_len (replay_run c ks) = length w"
    "length w \<le> rc_capacity c" "fst (check_and_insert (replay_run c ks) k) = Inr (k \<in> set w)"
    "replay_contains (replay_run c ks) k \<longleftrightarrow> k \<in> set w"
    by (simp_all add: check_and_insert_window(1) replay_contains_iff)
       (simp_all add: rc_ok_def replay_len_def)
qed

definition rkey :: "u8 \<Rightarrow> replay_key" where
  "rkey b = \<lparr>conversation_id = [1], sender_device_id = [2], message_id = [b]\<rparr>"

theorem replay_cache_refines_window_witness:
  "\<exists>c. replay_new 2 = Some c \<and>
     fst (check_and_insert (replay_run c [rkey 1, rkey 2, rkey 3]) (rkey 2)) = Inr True \<and>
     fst (check_and_insert (replay_run c [rkey 1, rkey 2, rkey 3]) (rkey 1)) = Inr False"
proof -
  obtain c where c: "replay_new 2 = Some c" by (simp add: replay_new_def)
  then have cap: "rc_capacity c = 2" "rc_order c = []" by (auto simp: replay_new_def)
  note sp = replay_cache_refines_window [OF replay_new_ok [OF c] refl, of "[rkey 1, rkey 2, rkey 3]",
      THEN conjunct2, THEN conjunct2, THEN conjunct2, THEN conjunct1]
  show ?thesis
    using c sp [of "rkey 2"] sp [of "rkey 1"] by (simp add: cap window_add_def rkey_def)
qed

text \<open>No replay inside the window. Once a key has been processed it is reported as a replay
  again as long as fewer than \<open>capacity\<close> different other keys came in between, whatever the
  cache held before.\<close>

theorem replay_detected_within_capacity:
  assumes "rc_ok c" "card (set ks - {k}) < rc_capacity c"
    and "c' = replay_run (snd (check_and_insert c k)) ks"
  shows "(k \<in> set (rc_order c) \<or> fst (check_and_insert c k) = Inr False) \<and>
    (k \<notin> set (rc_order c) \<longrightarrow> check_and_insert c' k = (Inr True, c'))"
proof (intro conjI impI)
  show "k \<in> set (rc_order c) \<or> fst (check_and_insert c k) = Inr False"
    by (simp add: check_and_insert_window(1) [OF assms(1)])
  assume fresh: "k \<notin> set (rc_order c)"
  let ?c1 = "snd (check_and_insert c k)"
  note c1 = check_and_insert_window [OF assms(1), of k]
  let ?pre = "if length (rc_order c) \<ge> rc_capacity c then tl (rc_order c) else rc_order c"
  have o: "rc_order ?c1 = ?pre @ k # []" using c1(2) fresh by (simp add: window_add_def)
  moreover have "distinct (rc_order ?c1)" using c1(4) by (simp add: rc_ok_def)
  ultimately have "k \<in> set (foldl (window_add (rc_capacity c)) (rc_order ?c1) ks)"
    by (rule window_keeps) (use assms(2) in simp)
  with replay_run_ok [OF c1(4), of ks] have r: "rc_ok c'" "k \<in> set (rc_order c')"
    by (simp_all add: assms(3) c1(3))
  then show "check_and_insert c' k = (Inr True, c')"
    using replay_contains_iff [OF r(1)] by (simp add: check_and_insert_def replay_contains_def)
qed

theorem replay_detected_within_capacity_witness:
  "\<exists>c. replay_new 4 = Some c \<and>
     (let c' = replay_run (snd (check_and_insert c (rkey 9))) [rkey 1, rkey 2, rkey 3]
      in check_and_insert c' (rkey 9) = (Inr True, c'))"
proof -
  obtain c where c: "replay_new 4 = Some c" by (simp add: replay_new_def)
  then have cap: "rc_capacity c = 4" "rc_order c = []" by (auto simp: replay_new_def)
  have "card (set [rkey 1, rkey 2, rkey 3] - {rkey 9}) < rc_capacity c"
    by (simp add: cap rkey_def)
  note replay_detected_within_capacity [OF replay_new_ok [OF c] this refl]
  then show ?thesis using c by (simp add: cap Let_def)
qed

subsection \<open>Persistence\<close>

definition replay_key_fits :: "replay_key \<Rightarrow> bool" where
  "replay_key_fits k \<longleftrightarrow> fits32 (conversation_id k) \<and> fits32 (sender_device_id k) \<and> fits32 (message_id k)"

definition replay_fits :: "replay_cache \<Rightarrow> bool" where
  "replay_fits c \<longleftrightarrow> rc_ok c \<and> rc_capacity c < 2 ^ 32 \<and> list_all replay_key_fits (rc_order c)"

lemma take_replay_key_put:
  "replay_key_fits k \<Longrightarrow> take_replay_key (replay_key_bytes k @ r) = Inr (k, r)"
  by (simp add: take_replay_key_def replay_key_bytes_def replay_key_fits_def)

interpretation replay: codec replay_serialize replay_deserialize replay_fits
proof
  fix c assume c: "replay_fits c"
  then have ok: "0 < rc_capacity c" "rc_capacity c < 2 ^ 32" "length (rc_order c) < 2 ^ 32"
    "distinct (rc_order c)" "rc_present c = map (\<lambda>k. (k, ())) (rc_order c)"
    by (auto simp: replay_fits_def rc_ok_def)
  have l: "take_list take_replay_key (length (rc_order c)) (concat (map replay_key_bytes (rc_order c)))
    = Inr (rc_order c, [])"
    using take_list_app [of "rc_order c" take_replay_key replay_key_bytes "[]"] c
    by (simp add: replay_fits_def list_all_iff take_replay_key_put)
  show "replay_deserialize (replay_serialize c) = Inr c"
    using ok l by (simp add: replay_deserialize_def replay_serialize_def)
qed

text \<open>A cache that is stored and reloaded behaves as before: the codec returns the same
  cache, so every key known before the restart is still reported as a replay.\<close>

theorem replay_survives_reload:
  assumes "rc_ok c" "rc_capacity c < 2 ^ 32" "list_all replay_key_fits (rc_order c)"
  shows "\<exists>c'. replay_deserialize (replay_serialize c) = Inr c' \<and>
    (\<forall>ks k. fst (check_and_insert (replay_run c' ks) k) = fst (check_and_insert (replay_run c ks) k))"
  using replay.roundtrip [of c] assms by (simp add: replay_fits_def)

theorem replay_survives_reload_witness:
  "\<exists>c' c. replay_new 4 = Some c \<and> replay_deserialize (replay_serialize (replay_run c [rkey 5])) = Inr c' \<and>
     fst (check_and_insert c' (rkey 5)) = Inr True"
proof -
  obtain c where c: "replay_new 4 = Some c" by (simp add: replay_new_def)
  then have cap: "rc_capacity c = 4" "rc_order c = []" by (auto simp: replay_new_def)
  note r = replay_run_ok [OF replay_new_ok [OF c], of "[rkey 5]"]
  have "rc_order (replay_run c [rkey 5]) = [rkey 5]" using r cap by (simp add: window_add_def)
  moreover from this have "list_all replay_key_fits (rc_order (replay_run c [rkey 5]))"
    by (simp add: replay_key_fits_def rkey_def fits32_def)
  ultimately obtain c' where "replay_deserialize (replay_serialize (replay_run c [rkey 5])) = Inr c'"
    "\<And>ks k. fst (check_and_insert (replay_run c' ks) k) =
      fst (check_and_insert (replay_run (replay_run c [rkey 5]) ks) k)"
    using replay_survives_reload [of "replay_run c [rkey 5]"] r cap by auto
  note this(1) this(2) [of "[]" "rkey 5"]
  moreover have "fst (check_and_insert (replay_run c [rkey 5]) (rkey 5)) = Inr True"
    using r cap by (simp add: check_and_insert_window(1) window_add_def)
  ultimately show ?thesis using c by (simp add: replay_run_def)
qed

end
