(* ===== verification/VC_Storage.thy ===== *)
theory VC_Storage
  imports VC_Primitives
begin

text \<open>
  Transactional storage (\<^verbatim>\<open>src/storage\<close>): the trait \<open>TransactionalStorage\<close> as the locale \<open>tx_storage\<close>,
  its in-memory implementation, the rollback guard and the monotonic counter. Transaction numbers
  are 64-bit words; a store that has issued \<open>2 ^ 64\<close> of them (where the build would panic) is out
  of scope.
\<close>

subsection \<open>The trait\<close>

text \<open>
  \<open>contents\<close> is the committed view, \<open>pending\<close> the open transaction with its staged writes
  (\<open>None\<close> for a deletion). The laws say that staging never touches the committed view, that an
  abort discards and a commit applies everything staged, and that a wrong transaction number is
  refused without any effect.
\<close>

locale tx_storage =
  fixes begin_tx :: "'s \<Rightarrow> (prim_error + 't) \<times> 's"
    and put_tx :: "'s \<Rightarrow> 't \<Rightarrow> bytes \<Rightarrow> bytes \<Rightarrow> (prim_error + unit) \<times> 's"
    and delete_tx :: "'s \<Rightarrow> 't \<Rightarrow> bytes \<Rightarrow> (prim_error + unit) \<times> 's"
    and commit_tx :: "'s \<Rightarrow> 't \<Rightarrow> (prim_error + unit) \<times> 's"
    and abort_tx :: "'s \<Rightarrow> 't \<Rightarrow> (prim_error + unit) \<times> 's"
    and contents :: "'s \<Rightarrow> bytes \<Rightarrow> bytes option"
    and pending :: "'s \<Rightarrow> ('t \<times> (bytes \<Rightarrow> bytes option option)) option"
    and invar :: "'s \<Rightarrow> bool"
  assumes begin_free: "invar s \<Longrightarrow> pending s = None \<Longrightarrow> \<exists>t s'. begin_tx s = (Inr t, s') \<and>
      invar s' \<and> contents s' = contents s \<and> pending s' = Some (t, Map.empty)"
    and begin_busy: "pending s \<noteq> None \<Longrightarrow> begin_tx s = (Inl Internal, s)"
    and put_open: "invar s \<Longrightarrow> pending s = Some (t, w) \<Longrightarrow> \<exists>s'. put_tx s t k v = (Inr (), s') \<and>
      invar s' \<and> contents s' = contents s \<and> pending s' = Some (t, w(k \<mapsto> Some v))"
    and delete_open: "invar s \<Longrightarrow> pending s = Some (t, w) \<Longrightarrow> \<exists>s'. delete_tx s t k = (Inr (), s') \<and>
      invar s' \<and> contents s' = contents s \<and> pending s' = Some (t, w(k \<mapsto> None))"
    and commit_open: "invar s \<Longrightarrow> pending s = Some (t, w) \<Longrightarrow> \<exists>s'. commit_tx s t = (Inr (), s') \<and>
      invar s' \<and> pending s' = None \<and>
      contents s' = (\<lambda>k. case w k of None \<Rightarrow> contents s k | Some x \<Rightarrow> x)"
    and abort_open: "invar s \<Longrightarrow> pending s = Some (t, w) \<Longrightarrow> \<exists>s'. abort_tx s t = (Inr (), s') \<and>
      invar s' \<and> contents s' = contents s \<and> pending s' = None"
    and wrong_tx: "(\<forall>w. pending s \<noteq> Some (t, w)) \<Longrightarrow>
      put_tx s t k v = (Inl Internal, s) \<and> delete_tx s t k = (Inl Internal, s) \<and>
      commit_tx s t = (Inl Internal, s) \<and> abort_tx s t = (Inl Internal, s)"

text \<open>The write loop of a client: stop at the first refused write.\<close>

fun put_all :: "('s \<Rightarrow> 't \<Rightarrow> bytes \<Rightarrow> bytes \<Rightarrow> (prim_error + unit) \<times> 's) \<Rightarrow> 't \<Rightarrow>
    (bytes \<times> bytes) list \<Rightarrow> 's \<Rightarrow> (prim_error + unit) \<times> 's" where
  "put_all put t [] s = (Inr (), s)"
| "put_all put t ((k, v) # kvs) s = sbind (put s t k v) (\<lambda>_ s. put_all put t kvs s)"

definition overlay :: "(bytes \<times> bytes) list \<Rightarrow> (bytes \<Rightarrow> bytes option) \<Rightarrow> bytes \<Rightarrow> bytes option" where
  "overlay kvs m = m ++ map_of (rev kvs)"

lemma overlay_Nil [simp]: "overlay [] m = m"
  by (simp add: overlay_def)

lemma overlay_Cons [simp]: "overlay ((k, v) # kvs) m = overlay kvs (m(k \<mapsto> v))"
  by (auto simp: overlay_def map_add_def fun_eq_iff split: option.split)

context tx_storage
begin

lemma put_all_open:
  "invar s \<Longrightarrow> pending s = Some (t, w) \<Longrightarrow>
   \<exists>s'. put_all put_tx t kvs s = (Inr (), s') \<and> invar s' \<and> contents s' = contents s \<and>
        pending s' = Some (t, w ++ map_of (map (\<lambda>(k, v). (k, Some v)) (rev kvs)))"
proof (induction kvs arbitrary: s w)
  case (Cons kv kvs)
  obtain k v where kv: "kv = (k, v)" by (cases kv)
  obtain s1 where s1: "put_tx s t k v = (Inr (), s1)" "invar s1" "contents s1 = contents s"
    "pending s1 = Some (t, w(k \<mapsto> Some v))"
    using put_open [OF Cons.prems] by blast
  have "w ++ map_of (map (\<lambda>(k, v). (k, Some v)) (rev (kv # kvs))) =
    w(k \<mapsto> Some v) ++ map_of (map (\<lambda>(k, v). (k, Some v)) (rev kvs))"
    by (simp add: kv map_add_assoc)
  moreover obtain s' where "put_all put_tx t kvs s1 = (Inr (), s')" "invar s'" "contents s' = contents s1"
    "pending s' = Some (t, w(k \<mapsto> Some v) ++ map_of (map (\<lambda>(k, v). (k, Some v)) (rev kvs)))"
    using Cons.IH [OF s1(2,4)] by blast
  ultimately show ?case using s1 kv by (intro exI [of _ s']) simp
qed simp

text \<open>A whole transaction is atomic: begin, write, commit makes exactly the written pairs visible,
  and until the commit nothing is.\<close>

lemma write_transaction:
  assumes "invar s" "pending s = None"
  obtains t s1 s2 s3 where "begin_tx s = (Inr t, s1)" "put_all put_tx t kvs s1 = (Inr (), s2)"
    "commit_tx s2 t = (Inr (), s3)" "contents s1 = contents s" "contents s2 = contents s"
    "contents s3 = overlay kvs (contents s)" "pending s3 = None" "invar s3"
proof -
  obtain t s1 where b: "begin_tx s = (Inr t, s1)" "invar s1" "contents s1 = contents s"
    "pending s1 = Some (t, Map.empty)"
    using begin_free [OF assms] by blast
  let ?w = "map_of (map (\<lambda>(k, v). (k, Some v)) (rev kvs))"
  obtain s2 where p: "put_all put_tx t kvs s1 = (Inr (), s2)" "invar s2" "contents s2 = contents s1"
    "pending s2 = Some (t, ?w)"
    using put_all_open [OF b(2,4), of kvs] by auto
  obtain s3 where c: "commit_tx s2 t = (Inr (), s3)" "invar s3" "pending s3 = None"
    "contents s3 = (\<lambda>k. case ?w k of None \<Rightarrow> contents s2 k | Some x \<Rightarrow> x)"
    using commit_open [OF p(2,4)] by blast
  have "?w k = map_option Some (map_of (rev kvs) k)" for k
    by (simp add: map_of_map)
  then have "contents s3 = overlay kvs (contents s)"
    using c(4) p(3) b(3) by (auto simp: overlay_def map_add_def fun_eq_iff split: option.split)
  then show thesis
    using b p c by (intro that [OF b(1) p(1) c(1)]) simp_all
qed

end

subsection \<open>The in-memory implementation\<close>

record memory_storage =
  committed :: "(bytes, bytes) hmap"
  staged :: "(u64 \<times> (bytes, bytes option) hmap) option"
  next_tx :: u64
  ms_epoch :: u64

definition memory_storage_default :: memory_storage where
  "memory_storage_default = \<lparr>committed = [], staged = None, next_tx = 0, ms_epoch = 0\<rparr>"

text \<open>The source increments the transaction counter with overflow checks, so the transaction after number
  \<open>2 ^ 64 - 1\<close> would panic; the word wraps there. Only the transaction that is open is ever compared.\<close>

definition ms_begin :: "memory_storage \<Rightarrow> (prim_error + u64) \<times> memory_storage" where
  "ms_begin s =
     (if staged s \<noteq> None then (Inl Internal, s)
      else (Inr (next_tx s), s\<lparr>next_tx := next_tx s + 1, staged := Some (next_tx s, [])\<rparr>))"

definition ms_stage :: "memory_storage \<Rightarrow> u64 \<Rightarrow> bytes \<Rightarrow> bytes option \<Rightarrow> (prim_error + unit) \<times> memory_storage" where
  "ms_stage s tx k x =
     (case staged s of
        None \<Rightarrow> (Inl Internal, s)
      | Some (t, w) \<Rightarrow>
          if t \<noteq> tx then (Inl Internal, s)
          else (Inr (), s\<lparr>staged := Some (t, hm_insert w k x)\<rparr>))"

definition ms_put :: "memory_storage \<Rightarrow> u64 \<Rightarrow> bytes \<Rightarrow> bytes \<Rightarrow> (prim_error + unit) \<times> memory_storage" where
  "ms_put s tx k v = ms_stage s tx k (Some v)"

definition ms_delete :: "memory_storage \<Rightarrow> u64 \<Rightarrow> bytes \<Rightarrow> (prim_error + unit) \<times> memory_storage" where
  "ms_delete s tx k = ms_stage s tx k None"

fun apply_staged :: "(bytes, bytes option) hmap \<Rightarrow> (bytes, bytes) hmap \<Rightarrow> (bytes, bytes) hmap" where
  "apply_staged [] m = m"
| "apply_staged ((k, Some v) # w) m = apply_staged w (hm_insert m k v)"
| "apply_staged ((k, None) # w) m = apply_staged w (hm_remove m k)"

definition ms_commit :: "memory_storage \<Rightarrow> u64 \<Rightarrow> (prim_error + unit) \<times> memory_storage" where
  "ms_commit s tx =
     (case staged s of
        None \<Rightarrow> (Inl Internal, s)
      | Some (t, w) \<Rightarrow>
          if t \<noteq> tx then (Inl Internal, s\<lparr>staged := Some (t, w)\<rparr>)
          else (Inr (), s\<lparr>staged := None, committed := apply_staged w (committed s)\<rparr>))"

definition ms_abort :: "memory_storage \<Rightarrow> u64 \<Rightarrow> (prim_error + unit) \<times> memory_storage" where
  "ms_abort s tx =
     (case staged s of
        None \<Rightarrow> (Inl Internal, s)
      | Some (t, w) \<Rightarrow> if t = tx then (Inr (), s\<lparr>staged := None\<rparr>) else (Inl Internal, s))"

definition ms_get :: "memory_storage \<Rightarrow> bytes \<Rightarrow> bytes option" where
  "ms_get s k = hm_get (committed s) k"

definition ms_advance_epoch :: "memory_storage \<Rightarrow> (prim_error + u64) \<times> memory_storage" where
  "ms_advance_epoch s =
     (case checked_add (ms_epoch s) 1 of
        None \<Rightarrow> (Inl LimitExceeded, s)
      | Some e \<Rightarrow> (Inr e, s\<lparr>ms_epoch := e\<rparr>))"

definition ms_keys :: "memory_storage \<Rightarrow> bytes list" where
  "ms_keys s = map fst (committed s)"

definition ms_clear :: "memory_storage \<Rightarrow> memory_storage" where
  "ms_clear s = s\<lparr>committed := [], staged := None\<rparr>"

definition ms_pending :: "memory_storage \<Rightarrow> (u64 \<times> (bytes \<Rightarrow> bytes option option)) option" where
  "ms_pending s = map_option (\<lambda>(t, w). (t, hm_get w)) (staged s)"

text \<open>Invariant: both maps have distinct keys.\<close>

definition ms_ok :: "memory_storage \<Rightarrow> bool" where
  "ms_ok s \<longleftrightarrow> hm_ok (committed s) \<and> (\<forall>t w. staged s = Some (t, w) \<longrightarrow> hm_ok w)"

lemma hm_get_apply_staged:
  "hm_ok w \<Longrightarrow> hm_get (apply_staged w m) k = (case hm_get w k of None \<Rightarrow> hm_get m k | Some x \<Rightarrow> x)"
proof (induction w m rule: apply_staged.induct)
  case (2 k' v w m)
  then show ?case by (simp add: hm_get_Cons hm_ok_Cons split: option.split)
next
  case (3 k' w m)
  then show ?case by (simp add: hm_get_Cons hm_ok_Cons split: option.split)
qed simp

lemma hm_ok_apply_staged: "hm_ok m \<Longrightarrow> hm_ok (apply_staged w m)"
  by (induction w m rule: apply_staged.induct) auto

lemma ms_ok_ops:
  assumes "ms_ok s"
  shows "ms_ok (snd (ms_begin s))" "ms_ok (snd (ms_put s t k v))" "ms_ok (snd (ms_delete s t k))"
    "ms_ok (snd (ms_commit s t))" "ms_ok (snd (ms_abort s t))" "ms_ok (snd (ms_advance_epoch s))"
    "ms_ok (ms_clear s)"
  using assms
  by (auto simp: ms_ok_def ms_begin_def ms_put_def ms_delete_def ms_stage_def ms_commit_def
      ms_abort_def ms_advance_epoch_def ms_clear_def hm_ok_apply_staged split: option.split prod.split)

interpretation mem: tx_storage ms_begin ms_put ms_delete ms_commit ms_abort ms_get ms_pending ms_ok
proof unfold_locales
  fix s t w k v
  show "ms_ok s \<Longrightarrow> ms_pending s = None \<Longrightarrow> \<exists>t s'. ms_begin s = (Inr t, s') \<and> ms_ok s' \<and>
      ms_get s' = ms_get s \<and> ms_pending s' = Some (t, Map.empty)"
    by (auto simp: ms_begin_def ms_pending_def ms_get_def ms_ok_def fun_eq_iff hm_get_def)
  show "ms_pending s \<noteq> None \<Longrightarrow> ms_begin s = (Inl Internal, s)"
    by (auto simp: ms_begin_def ms_pending_def)
  show "ms_ok s \<Longrightarrow> ms_pending s = Some (t, w) \<Longrightarrow> \<exists>s'. ms_put s t k v = (Inr (), s') \<and> ms_ok s' \<and>
      ms_get s' = ms_get s \<and> ms_pending s' = Some (t, w(k \<mapsto> Some v))"
    by (auto simp: ms_put_def ms_stage_def ms_pending_def ms_get_def ms_ok_def fun_eq_iff)
  show "ms_ok s \<Longrightarrow> ms_pending s = Some (t, w) \<Longrightarrow> \<exists>s'. ms_delete s t k = (Inr (), s') \<and> ms_ok s' \<and>
      ms_get s' = ms_get s \<and> ms_pending s' = Some (t, w(k \<mapsto> None))"
    by (auto simp: ms_delete_def ms_stage_def ms_pending_def ms_get_def ms_ok_def fun_eq_iff)
  show "ms_ok s \<Longrightarrow> ms_pending s = Some (t, w) \<Longrightarrow> \<exists>s'. ms_commit s t = (Inr (), s') \<and> ms_ok s' \<and>
      ms_pending s' = None \<and> ms_get s' = (\<lambda>k. case w k of None \<Rightarrow> ms_get s k | Some x \<Rightarrow> x)"
    by (auto simp: ms_commit_def ms_pending_def ms_get_def [abs_def] ms_ok_def fun_eq_iff
        hm_get_apply_staged hm_ok_apply_staged split: option.split)
  show "ms_ok s \<Longrightarrow> ms_pending s = Some (t, w) \<Longrightarrow> \<exists>s'. ms_abort s t = (Inr (), s') \<and> ms_ok s' \<and>
      ms_get s' = ms_get s \<and> ms_pending s' = None"
    by (auto simp: ms_abort_def ms_pending_def ms_get_def ms_ok_def fun_eq_iff)
  show "\<forall>w. ms_pending s \<noteq> Some (t, w) \<Longrightarrow> ms_put s t k v = (Inl Internal, s) \<and>
      ms_delete s t k = (Inl Internal, s) \<and> ms_commit s t = (Inl Internal, s) \<and>
      ms_abort s t = (Inl Internal, s)"
    by (auto simp: ms_put_def ms_delete_def ms_stage_def ms_commit_def ms_abort_def ms_pending_def
        split: option.split)
qed

subsection \<open>Rollback guard and monotonic counter\<close>

definition rollback_observe :: "u64 \<Rightarrow> u64 \<Rightarrow> (prim_error + unit) \<times> u64" where
  "rollback_observe epoch last_seen =
     (if epoch < last_seen then (Inl Internal, last_seen) else (Inr (), epoch))"

text \<open>The trait \<open>MonotonicCounter\<close>: increments are strict and never wrap.\<close>

locale monotonic_counter =
  fixes current :: "'c \<Rightarrow> u64" and increment :: "'c \<Rightarrow> (prim_error + u64) \<times> 'c"
  assumes inc_ok: "increment c = (Inr v, c') \<Longrightarrow> unat (current c') = Suc (unat (current c)) \<and> v = current c'"
    and inc_err: "increment c = (Inl e, c') \<Longrightarrow> e = LimitExceeded \<and> c' = c"
begin

lemma increment_mono: "unat (current c) \<le> unat (current (snd (increment c)))"
  using inc_ok inc_err by (cases "increment c"; cases "fst (increment c)") fastforce+

end

definition counter_increment :: "u64 \<Rightarrow> (prim_error + u64) \<times> u64" where
  "counter_increment n =
     (case checked_add n 1 of None \<Rightarrow> (Inl LimitExceeded, n) | Some m \<Rightarrow> (Inr m, m))"

interpretation mcount: monotonic_counter "\<lambda>n. n" counter_increment
  by unfold_locales
     (auto simp: counter_increment_def split: option.splits dest: checked_add_unat)

interpretation epoch_count: monotonic_counter ms_epoch ms_advance_epoch
  by unfold_locales
     (auto simp: ms_advance_epoch_def split: option.splits dest: checked_add_unat)

text \<open>The rollback guard accepts a sequence of storage epochs exactly as long as it never
  decreases: after any run of observations the last accepted epoch is remembered, and an older
  epoch is refused without moving the guard.\<close>

theorem rollback_guard_detects:
  assumes "rollback_observe e seen = (res, seen')"
  shows "seen \<le> seen' \<and>
    (res = Inr () \<longleftrightarrow> seen \<le> e) \<and>
    (res = Inr () \<longrightarrow> seen' = e) \<and>
    (e' < seen' \<longrightarrow> rollback_observe e' seen' = (Inl Internal, seen'))"
  using assms by (auto simp: rollback_observe_def split: if_splits)

theorem rollback_guard_detects_witness:
  "rollback_observe 5 3 = (Inr (), 5) \<and> rollback_observe 4 5 = (Inl Internal, 5)"
proof -
  have o: "rollback_observe 5 3 = (Inr (), 5)" by (simp add: rollback_observe_def)
  with rollback_guard_detects [OF o, of 4] show ?thesis by simp
qed

end
