(* ===== verification/VC_Policy.thy ===== *)
theory VC_Policy
  imports VC_Primitives
begin

text \<open>
  Protocol version and profile policy (\<^verbatim>\<open>src/policy.rs\<close>). The Cargo features that compile the
  experimental profiles in are the record \<open>features\<close>.
\<close>

record features =
  header_encrypt :: bool
  hybrid :: bool

datatype crypto_profile = ClassicalV1 | ClassicalHeV1 | HybridPqV1

definition PROTOCOL_VERSION :: u16 where
  "PROTOCOL_VERSION = 1"

definition profile_from_u8 :: "features \<Rightarrow> u8 \<Rightarrow> prim_error + crypto_profile" where
  "profile_from_u8 F v =
     (if v = 1 then Inr ClassicalV1
      else if header_encrypt F \<and> v = 2 then Inr ClassicalHeV1
      else if hybrid F \<and> v = 3 then Inr HybridPqV1
      else Inl InvalidLength)"

fun profile_as_u8 :: "crypto_profile \<Rightarrow> u8" where
  "profile_as_u8 ClassicalV1 = 1"
| "profile_as_u8 ClassicalHeV1 = 2"
| "profile_as_u8 HybridPqV1 = 3"

definition is_hybrid :: "features \<Rightarrow> crypto_profile \<Rightarrow> bool" where
  "is_hybrid F p = (hybrid F \<and> p = HybridPqV1)"

definition uses_header_encryption :: "features \<Rightarrow> crypto_profile \<Rightarrow> bool" where
  "uses_header_encryption F p = (header_encrypt F \<and> p = ClassicalHeV1)"

definition PROFILE_PREFERENCE :: "crypto_profile list" where
  "PROFILE_PREFERENCE = [ClassicalV1]"

definition available_profiles :: "features \<Rightarrow> crypto_profile list" where
  "available_profiles F =
     (let v = PROFILE_PREFERENCE;
          v1 = (if header_encrypt F \<and> ClassicalHeV1 \<notin> set v then v @ [ClassicalHeV1] else v)
      in (if hybrid F \<and> HybridPqV1 \<notin> set v1 then v1 @ [HybridPqV1] else v1))"

fun select_from :: "crypto_profile list \<Rightarrow> crypto_profile list \<Rightarrow> crypto_profile list \<Rightarrow>
    prim_error + crypto_profile" where
  "select_from [] local remote = Inl InvalidLength"
| "select_from (p # ps) local remote =
     (if p \<in> set local \<and> p \<in> set remote then Inr p else select_from ps local remote)"

definition select_profile :: "crypto_profile list \<Rightarrow> crypto_profile list \<Rightarrow> prim_error + crypto_profile" where
  "select_profile local remote = select_from PROFILE_PREFERENCE local remote"

definition enforce_profile :: "crypto_profile \<Rightarrow> crypto_profile \<Rightarrow> prim_error + unit" where
  "enforce_profile expected actual = (if expected \<noteq> actual then Inl InvalidLength else Inr ())"

definition version_binding_bytes :: bytes where
  "version_binding_bytes = le_bytes 2 PROTOCOL_VERSION"

lemma select_from_Inr:
  "select_from ps l r = Inr p \<Longrightarrow> p \<in> set ps \<and> p \<in> set l \<and> p \<in> set r"
  by (induction ps) (auto split: if_splits)

lemma select_from_complete:
  "p \<in> set ps \<Longrightarrow> p \<in> set l \<Longrightarrow> p \<in> set r \<Longrightarrow> \<exists>q. select_from ps l r = Inr q"
  by (induction ps) auto

lemma profile_codec: "p \<in> set (available_profiles F) \<Longrightarrow> profile_from_u8 F (profile_as_u8 p) = Inr p"
  by (cases p) (auto simp: available_profiles_def PROFILE_PREFERENCE_def profile_from_u8_def
      Let_def split: if_splits)

lemma profile_from_u8_available:
  "profile_from_u8 F v = Inr p \<Longrightarrow> p \<in> set (available_profiles F) \<and> profile_as_u8 p = v"
  by (auto simp: profile_from_u8_def available_profiles_def PROFILE_PREFERENCE_def Let_def
      split: if_splits)

text \<open>Profile negotiation is downgrade- and upgrade-proof: whatever the two sides advertise, the
  only profile that can be selected is the classical one, it is selected exactly when both sides
  list it, and enforcing a profile accepts no other.\<close>

theorem select_profile_spec:
  "(select_profile l r = Inr p \<longleftrightarrow> p = ClassicalV1 \<and> p \<in> set l \<and> p \<in> set r) \<and>
   (enforce_profile q p = Inr () \<longleftrightarrow> q = p)"
  by (auto simp: select_profile_def PROFILE_PREFERENCE_def enforce_profile_def)

end
