(* ===== verification/VC_HeaderEncrypt.thy ===== *)
theory VC_HeaderEncrypt
  imports VC_Ratchet_Codec VC_Instance
begin

text \<open>
  The header-encryption variant of the Double Ratchet (\<^verbatim>\<open>src/ratchet/header_encrypt/mod.rs\<close>): headers
  travel encrypted under header keys, a receiver finds the key by trial, and the next header keys
  come out of the root KDF. The theory holds the state, all operations and the persistence
  format, the well-formedness invariant on every exit, and the correctness of a conversation in
  which every message is delivered before the next one is sent.
\<close>

record he_state =
  e_dhs :: "bytes option"
  e_dhr :: "bytes option"
  e_rk :: bytes
  e_cks :: "bytes option"
  e_ckr :: "bytes option"
  e_hks :: "bytes option"
  e_hkr :: "bytes option"
  e_nhks :: "bytes option"
  e_nhkr :: "bytes option"
  e_ns :: u32
  e_nr :: u32
  e_pn :: u32
  e_skipped :: "(skip_key, bytes) hmap"
  e_max_skip :: u32

subsection \<open>KDFs and header AEAD\<close>

definition kdf_rk_he :: "crypto \<Rightarrow> bytes \<Rightarrow> bytes \<Rightarrow> prim_error + (bytes \<times> bytes \<times> bytes)" where
  "kdf_rk_he C rk0 dh_out =
     rbind (hkdf_extract_expand C (Some rk0) dh_out DR_ROOT 96) (\<lambda>okm.
       Inr (take 32 okm, take 32 (drop 32 okm), take 32 (drop 64 okm)))"

definition he_kdf_ck :: "crypto \<Rightarrow> bytes \<Rightarrow> prim_error + (bytes \<times> bytes)" where
  "he_kdf_ck C ck =
     rbind (hkdf_extract_expand C None ck DR_CHAIN 64) (\<lambda>okm.
     rbind (hkdf_extract_expand C None (take 32 (drop 32 okm)) DR_MESSAGE 32) (\<lambda>mk2.
       Inr (take 32 okm, mk2)))"

definition hencrypt :: "crypto \<Rightarrow> rng \<Rightarrow> bytes \<Rightarrow> bytes \<Rightarrow> prim_error + bytes" where
  "hencrypt C r hk header_bytes =
     (let nonce = fst (fill_random 12 r)
      in rbind (aead_seal C hk nonce header_bytes []) (\<lambda>ct. Inr (nonce @ ct)))"

definition hdecrypt :: "crypto \<Rightarrow> bytes \<Rightarrow> bytes \<Rightarrow> prim_error + header" where
  "hdecrypt C hk enc_header =
     (if length enc_header < 12 then Inl InvalidLength
      else rbind (aead_open C hk (take 12 enc_header) (drop 12 enc_header) []) header_decode)"

definition he_concat_ad :: "bytes \<Rightarrow> bytes \<Rightarrow> bytes" where
  "he_concat_ad ad enc_header = le_bytes 8 (of_nat (length ad) :: u64) @ ad @ enc_header"

definition derive_nonce :: "bytes \<Rightarrow> bytes" where
  "derive_nonce mk = take 12 mk"

subsection \<open>Initialisation\<close>

definition he_init_alice ::
  "crypto \<Rightarrow> rng \<Rightarrow> bytes \<Rightarrow> bytes \<Rightarrow> bytes \<Rightarrow> bytes \<Rightarrow> u32 \<Rightarrow> (prim_error + he_state) \<times> rng" where
  "he_init_alice C r sk bob_dh_public shared_hka shared_nhkb ms =
     (let (x, r1) = secret_generate C r
      in (rbind (kdf_rk_he C sk (diffie_hellman C x bob_dh_public)) (\<lambda>(rk0, ck, nhk).
            Inr \<lparr>e_dhs = Some x, e_dhr = Some bob_dh_public, e_rk = rk0, e_cks = Some ck, e_ckr = None,
                 e_hks = Some shared_hka, e_hkr = None, e_nhks = Some nhk, e_nhkr = Some shared_nhkb,
                 e_ns = 0, e_nr = 0, e_pn = 0, e_skipped = [], e_max_skip = ms\<rparr>), r1))"

definition he_init_bob :: "bytes \<Rightarrow> bytes \<Rightarrow> bytes \<Rightarrow> bytes \<Rightarrow> u32 \<Rightarrow> he_state" where
  "he_init_bob sk bob_dh_keypair shared_hka shared_nhkb ms =
     \<lparr>e_dhs = Some bob_dh_keypair, e_dhr = None, e_rk = sk, e_cks = None, e_ckr = None,
      e_hks = None, e_hkr = None, e_nhks = Some shared_nhkb, e_nhkr = Some shared_hka,
      e_ns = 0, e_nr = 0, e_pn = 0, e_skipped = [], e_max_skip = ms\<rparr>"

subsection \<open>Sending\<close>

definition he_encrypt ::
  "crypto \<Rightarrow> rng \<Rightarrow> he_state \<Rightarrow> bytes \<Rightarrow> bytes \<Rightarrow> (prim_error + (bytes \<times> bytes)) \<times> he_state" where
  "he_encrypt C r s plaintext ad =
     sbind (ok_or Internal (e_cks s), s) (\<lambda>ck s.
     sbind (he_kdf_ck C ck, s) (\<lambda>(new_cks, mk) s.
       let s1 = s\<lparr>e_cks := Some new_cks\<rparr>; n = e_ns s1
       in sbind (checked_inc (e_ns s1), s1) (\<lambda>n' s.
          let s2 = s\<lparr>e_ns := n'\<rparr>
          in sbind (ok_or Internal (e_dhs s2), s2) (\<lambda>sec s.
             let h = \<lparr>h_dh = public_key C sec, h_pn = e_pn s, h_n = n\<rparr>
             in sbind (ok_or Internal (e_hks s), s) (\<lambda>hk s.
                sbind (hencrypt C r hk (header_encode h), s) (\<lambda>enc s.
                sbind (aead_seal C mk (derive_nonce mk) plaintext (he_concat_ad ad enc), s) (\<lambda>ct s.
                  (Inr (enc, ct), s))))))))"

subsection \<open>Receiving\<close>

text \<open>The loop of \<open>try_skipped\<close> over the header keys of the skipped entries.\<close>

fun he_try_keys :: "crypto \<Rightarrow> bytes \<Rightarrow> bytes list \<Rightarrow> he_state \<Rightarrow> bytes option \<times> he_state" where
  "he_try_keys C enc [] s = (None, s)"
| "he_try_keys C enc (hk # hks) s =
     (case hdecrypt C hk enc of
        Inl _ \<Rightarrow> he_try_keys C enc hks s
      | Inr h \<Rightarrow>
          (case hm_get (e_skipped s) (hk, h_n h) of
             None \<Rightarrow> he_try_keys C enc hks s
           | Some mk \<Rightarrow> (Some mk, s\<lparr>e_skipped := hm_remove (e_skipped s) (hk, h_n h)\<rparr>)))"

definition he_try_skipped :: "crypto \<Rightarrow> bytes \<Rightarrow> he_state \<Rightarrow> bytes option \<times> he_state" where
  "he_try_skipped C enc s = he_try_keys C enc (map (fst \<circ> fst) (e_skipped s)) s"

function he_skip_loop :: "crypto \<Rightarrow> bytes \<Rightarrow> u32 \<Rightarrow> bytes \<Rightarrow> he_state \<Rightarrow> (prim_error + bytes) \<times> he_state" where
  "he_skip_loop C hk until ck s =
     (if e_nr s < until then
        if of_nat (length (e_skipped s)) \<ge> e_max_skip s then (Inl InvalidLength, s)
        else case he_kdf_ck C ck of
               Inl e \<Rightarrow> (Inl e, s)
             | Inr (new_ckr, mk) \<Rightarrow>
                 let s1 = s\<lparr>e_skipped := hm_insert (e_skipped s) (hk, e_nr s) mk\<rparr>
                 in case checked_inc (e_nr s1) of
                      Inl e \<Rightarrow> (Inl e, s1)
                    | Inr n' \<Rightarrow> he_skip_loop C hk until new_ckr (s1\<lparr>e_nr := n'\<rparr>)
      else (Inr ck, s))"
  by pat_completeness auto
termination
  by (relation "measure (\<lambda>(C, hk, until, ck, s). unat until - unat (e_nr s))")
     (auto simp: word_less_nat_alt dest!: checked_inc_unat)

declare he_skip_loop.simps [simp del]

definition he_skip_message_keys :: "crypto \<Rightarrow> u32 \<Rightarrow> he_state \<Rightarrow> (prim_error + unit) \<times> he_state" where
  "he_skip_message_keys C until s =
     (if saturating_add (e_nr s) (e_max_skip s) < until then (Inl InvalidLength, s)
      else case (e_ckr s, e_hkr s) of
             (Some ck, Some hk) \<Rightarrow>
               sbind (he_skip_loop C hk until ck s) (\<lambda>ck' s. (Inr (), s\<lparr>e_ckr := Some ck'\<rparr>))
           | _ \<Rightarrow> (Inr (), s))"

definition he_dh_ratchet :: "crypto \<Rightarrow> rng \<Rightarrow> header \<Rightarrow> he_state \<Rightarrow> (prim_error + unit) \<times> he_state" where
  "he_dh_ratchet C r h s =
     (let s1 = s\<lparr>e_pn := e_ns s, e_ns := 0, e_nr := 0, e_hks := e_nhks s, e_hkr := e_nhkr s,
                 e_dhr := Some (h_dh h)\<rparr>
      in sbind (ok_or Internal (e_dhs s1), s1) (\<lambda>sec s.
         sbind (kdf_rk_he C (e_rk s) (diffie_hellman C sec (h_dh h)), s) (\<lambda>(rk1, ck1, nk1) s.
           let s2 = s\<lparr>e_rk := rk1, e_ckr := Some ck1, e_nhkr := Some nk1\<rparr>;
               new_dhs = fst (secret_generate C r)
           in sbind (kdf_rk_he C (e_rk s2) (diffie_hellman C new_dhs (h_dh h)), s2) (\<lambda>(rk2, ck2, nk2) s.
                (Inr (), s\<lparr>e_rk := rk2, e_cks := Some ck2, e_nhks := Some nk2, e_dhs := Some new_dhs\<rparr>)))))"

text \<open>The tail both branches of \<open>receive_key\<close> share: skip to the message, take its key.\<close>

definition he_advance :: "crypto \<Rightarrow> u32 \<Rightarrow> he_state \<Rightarrow> (prim_error + bytes) \<times> he_state" where
  "he_advance C n s =
     sbind (he_skip_message_keys C n s) (\<lambda>_ s.
     sbind (ok_or Internal (e_ckr s), s) (\<lambda>ck s.
     sbind (he_kdf_ck C ck, s) (\<lambda>(new_ckr, mk) s.
       let s2 = s\<lparr>e_ckr := Some new_ckr\<rparr>
       in sbind (checked_inc (e_nr s2), s2) (\<lambda>n' s. (Inr mk, s\<lparr>e_nr := n'\<rparr>)))))"

definition opens :: "crypto \<Rightarrow> bytes option \<Rightarrow> bytes \<Rightarrow> header option" where
  "opens C hk enc = (case hk of None \<Rightarrow> None
     | Some k \<Rightarrow> (case hdecrypt C k enc of Inl _ \<Rightarrow> None | Inr h \<Rightarrow> Some h))"

definition he_receive_key ::
  "crypto \<Rightarrow> rng \<Rightarrow> bytes \<Rightarrow> he_state \<Rightarrow> (prim_error + bytes) \<times> he_state" where
  "he_receive_key C r enc s =
     (case he_try_skipped C enc s of
        (Some mk, s1) \<Rightarrow> (Inr mk, s1)
      | (None, s1) \<Rightarrow>
          (case opens C (e_hkr s1) enc of
             Some h \<Rightarrow> he_advance C (h_n h) s1
           | None \<Rightarrow>
               (case opens C (e_nhkr s1) enc of
                  Some h \<Rightarrow>
                    sbind (he_skip_message_keys C (h_pn h) s1) (\<lambda>_ s.
                    sbind (he_dh_ratchet C r h s) (\<lambda>_ s. he_advance C (h_n h) s))
                | None \<Rightarrow> (Inl AeadAuthFailed, s1))))"

definition he_clone_for_trial :: "crypto \<Rightarrow> he_state \<Rightarrow> he_state" where
  "he_clone_for_trial C s = s\<lparr>e_dhs := map_option (secret_from_bytes C) (e_dhs s)\<rparr>"

definition he_decrypt ::
  "crypto \<Rightarrow> rng \<Rightarrow> he_state \<Rightarrow> bytes \<Rightarrow> bytes \<Rightarrow> bytes \<Rightarrow> (prim_error + bytes) \<times> he_state" where
  "he_decrypt C r s enc ciphertext ad =
     (case he_receive_key C r enc (he_clone_for_trial C s) of
        (Inl e, _) \<Rightarrow> (Inl e, s)
      | (Inr mk, trial) \<Rightarrow>
          (case aead_open C mk (derive_nonce mk) ciphertext (he_concat_ad ad enc) of
             Inl e \<Rightarrow> (Inl e, s)
           | Inr pt \<Rightarrow> (Inr pt, trial)))"

subsection \<open>Persistence\<close>

definition read_opt32 :: "bytes \<Rightarrow> prim_error + bytes option \<times> bytes" where
  "read_opt32 d =
     rbind (take_u8 InvalidLength d) (\<lambda>(tag, d).
       if tag = 0 then Inr (None, d)
       else if tag \<noteq> 1 then Inl InvalidLength
       else rbind (take_n InvalidLength 32 d) (\<lambda>(b, d). Inr (Some b, d)))"

definition he_serialize :: "he_state \<Rightarrow> bytes" where
  "he_serialize s =
     put_opt (e_dhs s) @ put_opt (e_dhr s) @ e_rk s @ put_opt (e_cks s) @ put_opt (e_ckr s) @
     put_opt (e_hks s) @ put_opt (e_hkr s) @ put_opt (e_nhks s) @ put_opt (e_nhkr s) @
     le_bytes 4 (e_ns s) @ le_bytes 4 (e_nr s) @ le_bytes 4 (e_pn s) @ le_bytes 4 (e_max_skip s) @
     le_bytes 4 (of_nat (length (e_skipped s)) :: u32) @ concat (map put_skipped (e_skipped s))"

definition he_deserialize :: "crypto \<Rightarrow> bytes \<Rightarrow> u32 \<Rightarrow> prim_error + he_state" where
  "he_deserialize C data ms =
     rbind (read_opt32 data) (\<lambda>(s0, d).
     rbind (read_opt32 d) (\<lambda>(p0, d).
     rbind (case p0 of None \<Rightarrow> Inr None | Some b \<Rightarrow> rbind (public_from_bytes b) (\<lambda>p. Inr (Some p))) (\<lambda>p1.
     rbind (take_n InvalidLength 32 d) (\<lambda>(k0, d).
     rbind (read_opt32 d) (\<lambda>(cs, d).
     rbind (read_opt32 d) (\<lambda>(cr, d).
     rbind (read_opt32 d) (\<lambda>(hs, d).
     rbind (read_opt32 d) (\<lambda>(hr, d).
     rbind (read_opt32 d) (\<lambda>(ms', d).
     rbind (read_opt32 d) (\<lambda>(mr, d).
     rbind (take_u32 InvalidLength d) (\<lambda>(n1, d).
     rbind (take_u32 InvalidLength d) (\<lambda>(n2, d).
     rbind (take_u32 InvalidLength d) (\<lambda>(n3, d).
     rbind (take_u32 InvalidLength d) (\<lambda>(_, d).
     rbind (take_u32 InvalidLength d) (\<lambda>(count, d).
     rbind (take_list take_skipped (unat count) d) (\<lambda>(es, d).
       if d \<noteq> [] then Inl InvalidLength
       else Inr \<lparr>e_dhs = map_option (secret_from_bytes C) s0, e_dhr = p1, e_rk = k0, e_cks = cs,
            e_ckr = cr, e_hks = hs, e_hkr = hr, e_nhks = ms', e_nhkr = mr, e_ns = n1, e_nr = n2,
            e_pn = n3, e_skipped = hm_of_list es, e_max_skip = ms\<rparr>))))))))))))))))"

subsection \<open>The header AEAD and the KDFs\<close>

lemma he_kdf_ck_ok:
  assumes "lens_ok C"
  obtains ck' mk where "he_kdf_ck C ck = Inr (ck', mk)" "length ck' = 32" "length mk = 32"
proof -
  obtain okm where o1: "hkdf_extract_expand C None ck DR_CHAIN 64 = Inr okm" "length okm = 64"
    using hkdf_ok [OF assms, of 64 None ck DR_CHAIN] by auto
  obtain mk where o2: "hkdf_extract_expand C None (take 32 (drop 32 okm)) DR_MESSAGE 32 = Inr mk" "length mk = 32"
    using hkdf_ok [OF assms, of 32 None "take 32 (drop 32 okm)" DR_MESSAGE] by auto
  show thesis by (rule that [of "take 32 okm" mk]) (use o1 o2 in \<open>simp_all add: he_kdf_ck_def\<close>)
qed

lemma he_kdf_ck_len: "lens_ok C \<Longrightarrow> he_kdf_ck C ck = Inr (a, b) \<Longrightarrow> length a = 32 \<and> length b = 32"
  by (metis he_kdf_ck_ok prod.inject sum.inject(2))

lemma kdf_rk_he_ok:
  assumes "lens_ok C"
  obtains a b c where "kdf_rk_he C rk0 d = Inr (a, b, c)" "length a = 32" "length b = 32" "length c = 32"
proof -
  obtain okm where "hkdf_extract_expand C (Some rk0) d DR_ROOT 96 = Inr okm" "length okm = 96"
    using hkdf_ok [OF assms, of 96 "Some rk0" d DR_ROOT] by auto
  then show thesis using that by (simp add: kdf_rk_he_def)
qed

lemma kdf_rk_he_len:
  "lens_ok C \<Longrightarrow> kdf_rk_he C rk0 d = Inr (a, b, c) \<Longrightarrow> length a = 32 \<and> length b = 32 \<and> length c = 32"
  by (metis kdf_rk_he_ok prod.inject sum.inject(2))

lemma hdecrypt_hencrypt:
  assumes "aead_correct C" "length hk = 32" "header_wf h"
  shows "\<exists>enc. hencrypt C r hk (header_encode h) = Inr enc \<and> hdecrypt C hk enc = Inr h"
proof -
  let ?n = "fst (fill_random 12 r)"
  obtain ct where ct: "aead_seal C hk ?n (header_encode h) [] = Inr ct"
    using aead_seal_total [OF assms(1,2)] by blast
  then have "aead_open C hk ?n ct [] = Inr (header_encode h)"
    by (rule aead_open_seal [OF assms(1,2)])
  then show ?thesis
    using ct header_decode_encode [OF assms(3)] by (simp add: hencrypt_def hdecrypt_def)
qed

lemma hdecrypt_wf: "hdecrypt C hk enc = Inr h \<Longrightarrow> header_wf h"
  by (auto simp: hdecrypt_def rd_simps dest: header_decode_sound split: if_splits)

lemma opens_iff: "opens C hk enc = Some h \<longleftrightarrow> (\<exists>k. hk = Some k \<and> hdecrypt C k enc = Inr h)"
  by (auto simp: opens_def split: option.split sum.split)

subsection \<open>Well-formed states\<close>

definition he_wf :: "crypto \<Rightarrow> he_state \<Rightarrow> bool" where
  "he_wf C s \<longleftrightarrow>
     (\<forall>x. e_dhs s = Some x \<longrightarrow> length x = 32 \<and> static_secret C x = x) \<and>
     (\<forall>p. e_dhr s = Some p \<longrightarrow> length p = 32 \<and> p \<noteq> zeros32) \<and> length (e_rk s) = 32 \<and>
     (\<forall>k \<in> Option.these {e_cks s, e_ckr s, e_hks s, e_hkr s, e_nhks s, e_nhkr s}. length k = 32) \<and>
     skipped_wf (e_max_skip s) (e_skipped s)"

lemma he_wf_iff:
  "he_wf C s \<longleftrightarrow>
     (\<forall>x. e_dhs s = Some x \<longrightarrow> length x = 32 \<and> static_secret C x = x) \<and>
     (\<forall>p. e_dhr s = Some p \<longrightarrow> length p = 32 \<and> p \<noteq> zeros32) \<and> length (e_rk s) = 32 \<and>
     (\<forall>k. e_cks s = Some k \<longrightarrow> length k = 32) \<and> (\<forall>k. e_ckr s = Some k \<longrightarrow> length k = 32) \<and>
     (\<forall>k. e_hks s = Some k \<longrightarrow> length k = 32) \<and> (\<forall>k. e_hkr s = Some k \<longrightarrow> length k = 32) \<and>
     (\<forall>k. e_nhks s = Some k \<longrightarrow> length k = 32) \<and> (\<forall>k. e_nhkr s = Some k \<longrightarrow> length k = 32) \<and>
     skipped_wf (e_max_skip s) (e_skipped s)"
  by (auto simp: he_wf_def in_these_eq)

lemma he_wf_clone [simp]: "he_wf C s \<Longrightarrow> he_clone_for_trial C s = s"
  by (cases s; cases "e_dhs s") (auto simp: he_clone_for_trial_def he_wf_def secret_from_bytes_def)

lemma he_wf_counters [simp]:
  "he_wf C (s\<lparr>e_ns := n\<rparr>) = he_wf C s" "he_wf C (s\<lparr>e_nr := n\<rparr>) = he_wf C s" "he_wf C (s\<lparr>e_pn := n\<rparr>) = he_wf C s"
  by (simp_all add: he_wf_iff)

lemma he_wf_keys [simp]:
  "he_wf C s \<Longrightarrow> length k = 32 \<Longrightarrow> he_wf C (s\<lparr>e_cks := Some k\<rparr>)"
  "he_wf C s \<Longrightarrow> length k = 32 \<Longrightarrow> he_wf C (s\<lparr>e_ckr := Some k\<rparr>)"
  by (simp_all add: he_wf_iff)

lemma he_encrypt_wf: "lens_ok C \<Longrightarrow> he_wf C s \<Longrightarrow> he_wf C (snd (he_encrypt C r s pt ad))"
  unfolding he_encrypt_def Let_def
  by (auto simp: sbind_def dest: he_kdf_ck_len split: prod.splits sum.splits)

lemma he_try_keys_wf: "he_wf C s \<Longrightarrow> he_wf C (snd (he_try_keys C enc hks s))"
  by (induction C enc hks s rule: he_try_keys.induct)
     (auto simp: he_wf_iff skipped_wf_remove split: sum.split option.split)

lemma he_skip_loop_wf:
  assumes "lens_ok C" "length hk = 32" "he_wf C s" "length ck = 32"
  shows "he_wf C (snd (he_skip_loop C hk until ck s)) \<and>
    (\<forall>ck'. fst (he_skip_loop C hk until ck s) = Inr ck' \<longrightarrow> length ck' = 32)"
  using assms
proof (induction C hk until ck s rule: he_skip_loop.induct)
  case (1 C hk until ck s)
  obtain ck' mk where k: "he_kdf_ck C ck = Inr (ck', mk)" "length ck' = 32" "length mk = 32"
    using he_kdf_ck_ok [OF 1(2)] by metis
  let ?s1 = "s\<lparr>e_skipped := hm_insert (e_skipped s) (hk, e_nr s) mk\<rparr>"
  have sw: "skipped_wf (e_max_skip s) (e_skipped s)" using 1(4) by (simp add: he_wf_iff)
  have wf1: "he_wf C ?s1" if "\<not> e_max_skip s \<le> of_nat (length (e_skipped s))"
    using that 1(3,4) k(3) skipped_wf_insert [OF sw] skip_limit_test [OF sw] by (simp add: he_wf_iff)
  moreover have "he_wf C (?s1\<lparr>e_nr := n'\<rparr>) = he_wf C ?s1" for n' by (simp add: he_wf_iff)
  ultimately show ?case
    using 1 k by (subst (1 2) he_skip_loop.simps) (simp add: Let_def split: sum.split)
qed

lemma he_skip_message_keys_wf:
  "lens_ok C \<Longrightarrow> he_wf C s \<Longrightarrow> he_wf C (snd (he_skip_message_keys C until s))"
proof (cases "(e_ckr s, e_hkr s)")
  case (Pair a b)
  assume l: "lens_ok C" and w: "he_wf C s"
  show ?thesis
  proof (cases "a = None \<or> b = None")
    case False
    then obtain ck hk where [simp]: "e_ckr s = Some ck" "e_hkr s = Some hk" using Pair by auto
    have "length ck = 32" "length hk = 32" using w by (simp_all add: he_wf_iff)
    from he_skip_loop_wf [OF l this(2) w this(1), of until] w show ?thesis
      by (cases "he_skip_loop C hk until ck s"; cases "fst (he_skip_loop C hk until ck s)")
         (auto simp: he_skip_message_keys_def he_wf_iff)
  qed (use Pair w in \<open>auto simp: he_skip_message_keys_def split: option.split\<close>)
qed

lemma he_dh_ratchet_wf:
  assumes "lens_ok C" "secret_stable C" "header_wf h" "he_wf C s"
  shows "he_wf C (snd (he_dh_ratchet C r h s))"
proof -
  obtain x r1 where x: "secret_generate C r = (x, r1)" by (cases "secret_generate C r")
  have "length x = 32" "static_secret C x = x"
    using secret_generate_len [OF assms(1) x] secret_generate_stable [OF assms(2) x] by simp_all
  with assms x show ?thesis
    by (cases "e_dhs s")
       (auto simp: he_dh_ratchet_def Let_def sbind_def he_wf_iff header_wf_def dest: kdf_rk_he_len
         split: prod.splits sum.splits)
qed

lemma he_advance_wf: "lens_ok C \<Longrightarrow> he_wf C s \<Longrightarrow> he_wf C (snd (he_advance C n s))"
  unfolding he_advance_def Let_def
  by (rule sbind_keeps [where P = "he_wf C"], simp add: he_skip_message_keys_wf)
     (auto simp: sbind_def dest: he_kdf_ck_len split: prod.splits sum.splits)

lemma he_receive_key_wf:
  assumes "lens_ok C" "secret_stable C" "he_wf C s"
  shows "he_wf C (snd (he_receive_key C r enc s))"
proof -
  have "he_wf C (snd (he_try_skipped C enc s))"
    using he_try_keys_wf [OF assms(3)] by (simp add: he_try_skipped_def)
  moreover have "he_wf C (snd (sbind (he_skip_message_keys C (h_pn h) t) (\<lambda>_ s.
      sbind (he_dh_ratchet C r h s) (\<lambda>_ s. he_advance C (h_n h) s))))"
    if "he_wf C t" "opens C k enc = Some h" for t k h
    using that assms(1,2) hdecrypt_wf
    by (auto simp: opens_iff intro!: sbind_keeps [where P = "he_wf C"] he_skip_message_keys_wf
        he_dh_ratchet_wf he_advance_wf)
  ultimately show ?thesis
    using assms(1) he_advance_wf
    by (auto simp: he_receive_key_def split: prod.split option.split)
qed

lemma he_decrypt_wf:
  "lens_ok C \<Longrightarrow> secret_stable C \<Longrightarrow> he_wf C s \<Longrightarrow> he_wf C (snd (he_decrypt C r s enc ct ad))"
  using he_receive_key_wf [of C s r enc] by (auto simp: he_decrypt_def split: prod.split sum.split)

lemma he_init_alice_wf:
  assumes "lens_ok C" "secret_stable C" "length bp = 32" "bp \<noteq> zeros32" "length hka = 32" "length nhkb = 32"
    and "fst (he_init_alice C r sk bp hka nhkb ms) = Inr s"
  shows "he_wf C s"
proof -
  obtain x r1 where x: "secret_generate C r = (x, r1)" by (cases "secret_generate C r")
  with secret_generate_len [OF assms(1) x] secret_generate_stable [OF assms(2) x] assms(3-7)
  show ?thesis
    by (auto simp: he_init_alice_def rd_simps he_wf_iff dest: kdf_rk_he_len [OF assms(1)])
qed

lemma he_init_bob_wf:
  "length sk = 32 \<Longrightarrow> length x = 32 \<Longrightarrow> static_secret C x = x \<Longrightarrow> length hka = 32 \<Longrightarrow> length nhkb = 32 \<Longrightarrow>
   he_wf C (he_init_bob sk x hka nhkb ms)"
  by (simp add: he_wf_iff he_init_bob_def)

subsection \<open>Persistence\<close>

lemma read_opt32_put [simp]:
  "(\<And>b. x = Some b \<Longrightarrow> length b = 32) \<Longrightarrow> read_opt32 (put_opt x @ r) = Inr (x, r)"
  by (cases x) (simp_all add: read_opt32_def put_opt_def)

lemma he_deserialize_serialize:
  assumes "he_wf C s"
  shows "he_deserialize C (he_serialize s) ms = Inr (s\<lparr>e_max_skip := ms\<rparr>)"
proof -
  have sw: "skipped_wf (e_max_skip s) (e_skipped s)" using assms by (simp add: he_wf_iff)
  then have cnt: "unat (of_nat (length (e_skipped s)) :: u32) = length (e_skipped s)"
    and ok: "hm_ok (e_skipped s)"
    by (auto simp: skipped_wf_def intro: unat_of_nat_le)
  have sec: "map_option (secret_from_bytes C) (e_dhs s) = e_dhs s"
    using assms by (cases "e_dhs s") (auto simp: he_wf_iff secret_from_bytes_def)
  have pub: "(case e_dhr s of None \<Rightarrow> Inr None
      | Some b \<Rightarrow> rbind (public_from_bytes b) (\<lambda>p. Inr (Some p))) = Inr (e_dhr s)"
    using assms by (cases "e_dhr s") (auto simp: he_wf_iff)
  show ?thesis
    using assms take_skipped_list [OF sw, of "[]"]
    by (simp add: he_deserialize_def he_serialize_def cnt sec pub ok he_wf_iff)
qed

interpretation hec: codec he_serialize "\<lambda>d. he_deserialize C d ms" "\<lambda>s. he_wf C s \<and> e_max_skip s = ms"
  for C ms
  by unfold_locales (auto simp: he_deserialize_serialize)

subsection \<open>Conversations delivered in order\<close>

lemma he_encrypt_cases:
  assumes "he_encrypt C r s pt ad = (Inr (enc, ct), s')"
  obtains ck ck' mk x hk where "e_cks s = Some ck" "e_dhs s = Some x" "e_hks s = Some hk"
    "he_kdf_ck C ck = Inr (ck', mk)" "unat (e_ns s) + 1 < 2 ^ 32"
    "hencrypt C r hk (header_encode \<lparr>h_dh = public_key C x, h_pn = e_pn s, h_n = e_ns s\<rparr>) = Inr enc"
    "aead_seal C mk (derive_nonce mk) pt (he_concat_ad ad enc) = Inr ct"
    "s' = s\<lparr>e_cks := Some ck', e_ns := e_ns s + 1\<rparr>"
  using assms
  by (auto simp: he_encrypt_def rd_simps Let_def checked_inc_iff split: option.splits sum.splits)

lemma saturating_add_ge: "a \<le> saturating_add a (b :: 'a::len word)"
proof (cases "unat a + unat b < 2 ^ LENGTH('a)")
  case True
  then show ?thesis by (simp add: saturating_add_def word_le_nat_alt unat_word_ariths)
qed (simp add: saturating_add_def)

lemma he_skip_idle: "e_nr s = n \<Longrightarrow> he_skip_message_keys C n s = (Inr (), s)"
  using saturating_add_ge [of n "e_max_skip s"]
  by (auto simp: he_skip_message_keys_def he_skip_loop.simps split: option.split)

lemma he_advance_next:
  assumes "e_nr s = n" "e_ckr s = Some ck" "he_kdf_ck C ck = Inr (ck', mk)" "unat n + 1 < 2 ^ 32"
  shows "he_advance C n s = (Inr mk, s\<lparr>e_ckr := Some ck', e_nr := n + 1\<rparr>)"
proof -
  have "checked_inc n = Inr (n + 1)" using assms(4) by (simp add: checked_inc_iff)
  with assms(1-3) show ?thesis by (simp add: he_advance_def he_skip_idle Let_def)
qed

lemma he_dh_ratchet_eq:
  assumes "e_dhs s = Some b" "kdf_rk_he C (e_rk s) (diffie_hellman C b (h_dh h)) = Inr (rk1, ck1, nk1)"
    and "secret_generate C r = (x, r1)" "kdf_rk_he C rk1 (diffie_hellman C x (h_dh h)) = Inr (rk2, ck2, nk2)"
  shows "he_dh_ratchet C r h s =
    (Inr (), s\<lparr>e_pn := e_ns s, e_ns := 0, e_nr := 0, e_hks := e_nhks s, e_hkr := e_nhkr s,
       e_dhr := Some (h_dh h), e_rk := rk2, e_ckr := Some ck1, e_nhkr := Some nk1,
       e_cks := Some ck2, e_nhks := Some nk2, e_dhs := Some x\<rparr>)"
  using assms by (simp add: he_dh_ratchet_def Let_def)

text \<open>\<open>he_pair C A B\<close>: every message sent so far was delivered, and \<open>A\<close> performed the last DH
  ratchet step, so its sending chain is unused and \<open>B\<close> will enter it with the next header key,
  while the sending chain of \<open>B\<close> is the receiving chain of \<open>A\<close>, at the same position.\<close>

definition he_pair :: "crypto \<Rightarrow> he_state \<Rightarrow> he_state \<Rightarrow> bool" where
  "he_pair C A B \<longleftrightarrow> he_wf C A \<and> he_wf C B \<and> e_skipped A = [] \<and> e_skipped B = [] \<and>
     (\<exists>a b ck hk nk. e_dhs A = Some a \<and> e_dhs B = Some b \<and> e_cks A = Some ck \<and> e_hks A = Some hk \<and>
        e_nhks A = Some nk \<and> e_nhkr B = Some hk \<and>
        kdf_rk_he C (e_rk B) (diffie_hellman C b (public_key C a)) = Inr (e_rk A, ck, nk)) \<and>
     e_ns A = 0 \<and> e_nhkr A = e_nhks B \<and> e_nhks B \<noteq> None \<and>
     e_hkr A = e_hks B \<and> e_ckr A = e_cks B \<and> e_nr A = e_ns B \<and> e_nr B = e_pn A"

lemma sent_header_opens:
  assumes "lens_ok C" "xpub_ok C" "aead_correct C" "he_wf C s" "e_hks s = Some hk"
    and "hencrypt C r hk (header_encode \<lparr>h_dh = public_key C x, h_pn = p, h_n = n\<rparr>) = Inr enc"
  shows "opens C (Some hk) enc = Some \<lparr>h_dh = public_key C x, h_pn = p, h_n = n\<rparr>"
proof -
  have "length hk = 32" using assms(4,5) by (simp add: he_wf_iff)
  moreover have "header_wf \<lparr>h_dh = public_key C x, h_pn = p, h_n = n\<rparr>"
    using assms(1,2) by (simp add: header_wf_def public_key_len public_key_nonzero)
  ultimately show ?thesis
    using hdecrypt_hencrypt [OF assms(3), of hk _ r] assms(6) by (fastforce simp: opens_iff)
qed

lemma sent_body_opens:
  assumes "lens_ok C" "aead_correct C" "he_kdf_ck C ck = Inr (ck', mk)"
    and "aead_seal C mk (derive_nonce mk) pt a = Inr ct"
  shows "aead_open C mk (derive_nonce mk) ct a = Inr pt"
  using aead_open_seal [OF assms(2) _ assms(4)] he_kdf_ck_len [OF assms(1,3)] by simp

text \<open>A message of the party behind is read with the current header key.\<close>

lemma he_behind_sends:
  assumes laws: "lens_ok C" "xpub_ok C" "aead_correct C"
    and pr: "he_pair C A B" and send: "he_encrypt C r B pt ad = (Inr (enc, ct), B')"
  shows "\<exists>A'. he_decrypt C r' A enc ct ad = (Inr pt, A') \<and> he_pair C A' B'"
proof -
  from send obtain ck ck' mk x hk where e: "e_cks B = Some ck" "e_dhs B = Some x" "e_hks B = Some hk"
    "he_kdf_ck C ck = Inr (ck', mk)" "unat (e_ns B) + 1 < 2 ^ 32"
    "hencrypt C r hk (header_encode \<lparr>h_dh = public_key C x, h_pn = e_pn B, h_n = e_ns B\<rparr>) = Inr enc"
    "aead_seal C mk (derive_nonce mk) pt (he_concat_ad ad enc) = Inr ct"
    "B' = B\<lparr>e_cks := Some ck', e_ns := e_ns B + 1\<rparr>" by (rule he_encrypt_cases)
  have wf: "he_wf C A" "he_wf C B" and sk: "e_skipped A = []"
    and eq: "e_hkr A = Some hk" "e_ckr A = Some ck" "e_nr A = e_ns B"
    using pr e by (auto simp: he_pair_def)
  let ?A' = "A\<lparr>e_ckr := Some ck', e_nr := e_ns B + 1\<rparr>"
  have "he_receive_key C r' enc A = (Inr mk, ?A')"
    using sent_header_opens [OF laws wf(2) e(3,6)] he_advance_next [OF eq(3) eq(2) e(4,5)]
    by (simp add: he_receive_key_def he_try_skipped_def sk eq(1))
  then have "he_decrypt C r' A enc ct ad = (Inr pt, ?A')"
    using sent_body_opens [OF laws(1,3) e(4,7)] wf by (simp add: he_decrypt_def)
  moreover have "length ck' = 32" using he_kdf_ck_len [OF laws(1) e(4)] by simp
  then have "he_pair C ?A' B'" using pr by (simp add: he_pair_def e(8))
  ultimately show ?thesis by blast
qed

text \<open>A message of the party ahead opens its new chain, and the other party is ahead now. The
  receiver tries its current header key first: that key must not open the new header.\<close>

lemma he_ahead_sends:
  assumes laws: "lens_ok C" "secret_stable C" "dh_commutes C" "xpub_ok C" "aead_correct C"
    and pr: "he_pair C A B" and send: "he_encrypt C r A pt ad = (Inr (enc, ct), A')"
    and wrong: "opens C (e_hkr B) enc = None"
  shows "\<exists>B'. he_decrypt C r' B enc ct ad = (Inr pt, B') \<and> he_pair C B' A'"
proof -
  from send obtain ck ck' mk a hk where e: "e_cks A = Some ck" "e_dhs A = Some a" "e_hks A = Some hk"
    "he_kdf_ck C ck = Inr (ck', mk)" "unat (e_ns A) + 1 < 2 ^ 32"
    "hencrypt C r hk (header_encode \<lparr>h_dh = public_key C a, h_pn = e_pn A, h_n = e_ns A\<rparr>) = Inr enc"
    "aead_seal C mk (derive_nonce mk) pt (he_concat_ad ad enc) = Inr ct"
    "A' = A\<lparr>e_cks := Some ck', e_ns := e_ns A + 1\<rparr>" by (rule he_encrypt_cases)
  from pr e obtain b nk where b: "e_dhs B = Some b" "e_nhks A = Some nk" "e_nhkr B = Some hk"
    "kdf_rk_he C (e_rk B) (diffie_hellman C b (public_key C a)) = Inr (e_rk A, ck, nk)"
    and wf: "he_wf C A" "he_wf C B" and sk: "e_skipped B = []"
    and eq: "e_ns A = 0" "e_nr B = e_pn A"
    by (auto simp: he_pair_def)
  obtain x r1 where x: "secret_generate C r' = (x, r1)" by (cases "secret_generate C r'")
  obtain rk2 ck2 nk2 where k2: "kdf_rk_he C (e_rk A) (diffie_hellman C x (public_key C a)) = Inr (rk2, ck2, nk2)"
    using kdf_rk_he_ok [OF laws(1)] by metis
  let ?h = "\<lparr>h_dh = public_key C a, h_pn = e_pn A, h_n = 0\<rparr>"
  define R where "R = B\<lparr>e_pn := e_ns B, e_ns := 0, e_nr := 0, e_hks := e_nhks B, e_hkr := e_nhkr B,
       e_dhr := Some (public_key C a), e_rk := rk2, e_ckr := Some ck, e_nhkr := Some nk,
       e_cks := Some ck2, e_nhks := Some nk2, e_dhs := Some x\<rparr>"
  let ?B' = "R\<lparr>e_ckr := Some ck', e_nr := 0 + 1\<rparr>"
  have rat: "he_dh_ratchet C r' ?h B = (Inr (), R)"
    using he_dh_ratchet_eq [OF b(1) _ x, of ?h "e_rk A" ck nk rk2 ck2 nk2] b(4) k2 by (simp add: R_def)
  have adv: "he_advance C 0 R = (Inr mk, ?B')"
    by (rule he_advance_next) (use e eq in \<open>simp_all add: R_def\<close>)
  have "he_receive_key C r' enc B = (Inr mk, ?B')"
    using sent_header_opens [OF laws(1,4,5) wf(1) e(3,6)] wrong
    by (simp add: he_receive_key_def he_try_skipped_def sk b(3) he_skip_idle eq rat adv)
  then have "he_decrypt C r' B enc ct ad = (Inr pt, ?B')"
    using sent_body_opens [OF laws(1,5) e(4,7)] wf by (simp add: he_decrypt_def)
  moreover have "he_wf C ?B'"
    using he_decrypt_wf [OF laws(1,2) wf(2), of r' enc ct ad] calculation by simp
  moreover have "he_wf C A'" using he_encrypt_wf [OF laws(1) wf(1), of r pt ad] send by simp
  moreover have "kdf_rk_he C (e_rk A) (diffie_hellman C a (public_key C x)) = Inr (rk2, ck2, nk2)"
    using k2 laws(3) by (simp add: dh_commutes_def diffie_hellman_def public_key_def)
  then have "he_pair C ?B' A'" if "he_wf C ?B'" "he_wf C A'"
    using pr that b e eq by (simp add: he_pair_def R_def)
  ultimately show ?thesis by blast
qed

lemma he_start_pair:
  assumes "lens_ok C" "secret_stable C" "dh_commutes C" "xpub_ok C"
    and "fst (he_init_alice C r sk (public_key C b) hka nhkb ms) = Inr A" "length sk = 32" "length b = 32"
    and "static_secret C b = b" "length hka = 32" "length nhkb = 32"
  shows "he_pair C A (he_init_bob sk b hka nhkb ms')"
proof -
  have wf: "he_wf C A" "he_wf C (he_init_bob sk b hka nhkb ms')"
    using he_init_alice_wf [OF assms(1,2) _ _ assms(9,10,5)] he_init_bob_wf assms
    by (simp_all add: public_key_len public_key_nonzero)
  obtain x r1 where "secret_generate C r = (x, r1)" by (cases "secret_generate C r")
  with assms(3,5) wf show ?thesis
    by (auto simp: he_init_alice_def rd_simps he_pair_def he_init_bob_def dh_commutes_def
        diffie_hellman_def public_key_def)
qed

text \<open>Conversations in which a message is delivered before the next is sent. The first state is
  the one of the party that ratcheted last.\<close>

inductive he_talk :: "crypto \<Rightarrow> he_state \<Rightarrow> he_state \<Rightarrow> bool" for C where
  start: "fst (he_init_alice C r sk (public_key C b) hka nhkb ms) = Inr A \<Longrightarrow> length sk = 32 \<Longrightarrow>
     length b = 32 \<Longrightarrow> static_secret C b = b \<Longrightarrow> length hka = 32 \<Longrightarrow> length nhkb = 32 \<Longrightarrow>
     he_talk C A (he_init_bob sk b hka nhkb ms')"
| ahead: "he_talk C A B \<Longrightarrow> he_encrypt C r A pt ad = (Inr (enc, ct), A') \<Longrightarrow>
     opens C (e_hkr B) enc = None \<Longrightarrow> he_decrypt C r' B enc ct ad = (res, B') \<Longrightarrow> he_talk C B' A'"
| behind: "he_talk C A B \<Longrightarrow> he_encrypt C r B pt ad = (Inr (enc, ct), B') \<Longrightarrow>
     he_decrypt C r' A enc ct ad = (res, A') \<Longrightarrow> he_talk C A' B'"

lemma he_talk_pair:
  assumes "lens_ok C" "secret_stable C" "dh_commutes C" "xpub_ok C" "aead_correct C" "he_talk C A B"
  shows "he_pair C A B"
  using assms(6)
proof (induction rule: he_talk.induct)
  case (start r sk b hka nhkb ms A ms')
  then show ?case by (rule he_start_pair [OF assms(1-4)])
next
  case (ahead A B r pt ad enc ct A' r' res B')
  show ?case using he_ahead_sends [OF assms(1-5) ahead(5,2,3), of r'] ahead(4) by auto
next
  case (behind A B r pt ad enc ct B' r' res A')
  show ?case using he_behind_sends [OF assms(1,4,5) behind(4,2), of r'] behind(3) by auto
qed

lemma he_encrypt_total:
  assumes "lens_ok C" "xpub_ok C" "aead_correct C" "he_wf C s"
    and "e_cks s = Some ck" "e_dhs s = Some x" "e_hks s = Some hk" "unat (e_ns s) + 1 < 2 ^ 32"
  shows "\<exists>enc ct s'. he_encrypt C r s pt ad = (Inr (enc, ct), s')"
proof -
  obtain ck' mk where k: "he_kdf_ck C ck = Inr (ck', mk)" "length mk = 32"
    using he_kdf_ck_ok [OF assms(1)] by metis
  have hk: "length hk = 32" using assms(4,7) by (simp add: he_wf_iff)
  have "header_wf \<lparr>h_dh = public_key C x, h_pn = e_pn s, h_n = e_ns s\<rparr>"
    using assms(1,2) by (simp add: header_wf_def public_key_len public_key_nonzero)
  then obtain enc where "hencrypt C r hk (header_encode \<lparr>h_dh = public_key C x, h_pn = e_pn s, h_n = e_ns s\<rparr>) = Inr enc"
    using hdecrypt_hencrypt [OF assms(3) hk] by blast
  moreover obtain ct where "aead_seal C mk (derive_nonce mk) pt (he_concat_ad ad enc) = Inr ct"
    using aead_seal_total [OF assms(3) k(2)] by blast
  moreover have "checked_inc (e_ns s) = Inr (e_ns s + 1)" using assms(8) by (simp add: checked_inc_iff)
  ultimately show ?thesis using assms(5-7) k(1) by (simp add: he_encrypt_def Let_def)
qed

lemma he_init_alice_total:
  assumes "lens_ok C"
  shows "\<exists>A. fst (he_init_alice C r sk p hka nhkb ms) = Inr A"
proof -
  obtain a b c where "kdf_rk_he C sk (diffie_hellman C (fst (secret_generate C r)) p) = Inr (a, b, c)"
    using kdf_rk_he_ok [OF assms] by metis
  then show ?thesis by (cases "secret_generate C r") (simp add: he_init_alice_def)
qed

subsection \<open>Properties\<close>

text \<open>C17: correctness of the header-encrypting ratchet. In every conversation from a handshake in
  which each message is delivered before the next one is sent, the party that ratcheted last can
  always send, and whatever either party sends the other decrypts to the plaintext that was
  sent, provided the receiver's current header key does not open a header made for the next one.\<close>

theorem header_encrypted_conversation:
  assumes "lens_ok C" "secret_stable C" "dh_commutes C" "xpub_ok C" "aead_correct C" "he_talk C A B"
  shows "(\<exists>enc ct A'. he_encrypt C r A pt ad = (Inr (enc, ct), A')) \<and>
    (he_encrypt C r A pt ad = (Inr (enc, ct), A') \<longrightarrow> opens C (e_hkr B) enc = None \<longrightarrow>
       (\<exists>B'. he_decrypt C r' B enc ct ad = (Inr pt, B'))) \<and>
    (he_encrypt C r B pt ad = (Inr (enc, ct), B') \<longrightarrow> (\<exists>A'. he_decrypt C r' A enc ct ad = (Inr pt, A')))"
proof (intro conjI impI)
  have pr: "he_pair C A B" by (rule he_talk_pair [OF assms])
  then show "\<exists>enc ct A'. he_encrypt C r A pt ad = (Inr (enc, ct), A')"
    using he_encrypt_total [OF assms(1,4,5)] by (fastforce simp: he_pair_def)
  show "\<exists>B'. he_decrypt C r' B enc ct ad = (Inr pt, B')"
    if "he_encrypt C r A pt ad = (Inr (enc, ct), A')" "opens C (e_hkr B) enc = None"
    using he_ahead_sends [OF assms(1-5) pr that] by blast
  show "\<exists>A'. he_decrypt C r' A enc ct ad = (Inr pt, A')" if "he_encrypt C r B pt ad = (Inr (enc, ct), B')"
    using he_behind_sends [OF assms(1,4,5) pr that] by blast
qed

theorem header_encrypted_conversation_witness:
  "\<exists>A enc ct A' B'. he_talk plain_crypto A (he_init_bob (replicate 32 3) (replicate 32 9) (replicate 32 5) (replicate 32 6) 1000) \<and>
     he_encrypt plain_crypto (\<lambda>_. 1) A [42] [7] = (Inr (enc, ct), A') \<and>
     he_decrypt plain_crypto (\<lambda>_. 2) (he_init_bob (replicate 32 3) (replicate 32 9) (replicate 32 5) (replicate 32 6) 1000) enc ct [7] = (Inr [42], B')"
proof -
  let ?C = plain_crypto and ?k = "replicate 32 :: u8 \<Rightarrow> bytes"
  let ?B = "he_init_bob (?k 3) (?k 9) (?k 5) (?k 6) 1000"
  have "\<exists>A. fst (he_init_alice ?C (\<lambda>_. 0) (?k 3) (public_key ?C (?k 9)) (?k 5) (?k 6) 1000) = Inr A"
    by (rule he_init_alice_total [OF plain_lens])
  then obtain A where A: "he_talk ?C A ?B"
    using he_talk.start [of ?C "\<lambda>_. 0" "?k 3" "?k 9" "?k 5" "?k 6" 1000] by (auto simp: plain_simps)
  note thm1 = header_encrypted_conversation [OF plain_lens plain_stable plain_dh plain_xpub plain_aead A]
  then obtain enc ct A' where e: "he_encrypt ?C (\<lambda>_. 1) A [42] [7] = (Inr (enc, ct), A')" by blast
  moreover have "opens ?C (e_hkr ?B) enc = None" by (simp add: he_init_bob_def opens_def)
  ultimately show ?thesis using thm1 A by blast
qed

datatype he_op = HEncrypt rng bytes bytes | HDecrypt rng bytes bytes bytes | HReload

fun he_apply :: "crypto \<Rightarrow> he_op \<Rightarrow> he_state \<Rightarrow> he_state" where
  "he_apply C (HEncrypt r pt ad) s = snd (he_encrypt C r s pt ad)"
| "he_apply C (HDecrypt r enc ct ad) s = snd (he_decrypt C r s enc ct ad)"
| "he_apply C HReload s =
     (case he_deserialize C (he_serialize s) (e_max_skip s) of Inl _ \<Rightarrow> s | Inr s' \<Rightarrow> s')"

lemma he_run_wf:
  assumes "lens_ok C" "secret_stable C" "he_wf C s"
  shows "he_wf C (fold (he_apply C) ops s)"
proof -
  have "he_wf C (he_apply C op s)" if "he_wf C s" for op s
    using that hec.roundtrip [of C s "e_max_skip s"]
    by (cases op) (simp_all add: he_encrypt_wf he_decrypt_wf assms(1,2))
  then show ?thesis using assms(3) by (induction ops arbitrary: s) simp_all
qed

text \<open>C18: robustness of the header-encrypting ratchet. From a well-formed state, whatever is
  encrypted, received and reloaded and with whatever outcome, the number of skipped keys stays
  within the limit; a failing decryption changes nothing; and a reload gives the state back.\<close>

theorem header_encrypt_robust:
  assumes "lens_ok C" "secret_stable C" "he_wf C s" "s' = fold (he_apply C) ops s"
  shows "length (e_skipped s') \<le> unat (e_max_skip s') \<and>
    (fst (he_decrypt C r s' enc ct ad) = Inl err \<longrightarrow> snd (he_decrypt C r s' enc ct ad) = s') \<and>
    he_deserialize C (he_serialize s') (e_max_skip s') = Inr s'"
proof (intro conjI impI)
  have wf: "he_wf C s'" unfolding assms(4) by (rule he_run_wf [OF assms(1-3)])
  then show "length (e_skipped s') \<le> unat (e_max_skip s')" by (simp add: he_wf_iff skipped_wf_def)
  show "snd (he_decrypt C r s' enc ct ad) = s'" if "fst (he_decrypt C r s' enc ct ad) = Inl err"
    using that by (auto simp: he_decrypt_def split: prod.splits sum.splits)
  show "he_deserialize C (he_serialize s') (e_max_skip s') = Inr s'"
    by (rule hec.roundtrip) (simp add: wf)
qed

theorem header_encrypt_robust_witness:
  "he_deserialize plain_crypto (he_serialize (fold (he_apply plain_crypto) [HDecrypt (\<lambda>_. 0) [1] [2] [], HReload]
      (he_init_bob (replicate 32 3) (replicate 32 9) (replicate 32 5) (replicate 32 6) 1000)))
     (e_max_skip (fold (he_apply plain_crypto) [HDecrypt (\<lambda>_. 0) [1] [2] [], HReload]
      (he_init_bob (replicate 32 3) (replicate 32 9) (replicate 32 5) (replicate 32 6) 1000))) =
   Inr (fold (he_apply plain_crypto) [HDecrypt (\<lambda>_. 0) [1] [2] [], HReload]
      (he_init_bob (replicate 32 3) (replicate 32 9) (replicate 32 5) (replicate 32 6) 1000))"
proof -
  have "he_wf plain_crypto (he_init_bob (replicate 32 3) (replicate 32 9) (replicate 32 5) (replicate 32 6) 1000)"
    by (rule he_init_bob_wf) (simp_all add: plain_simps)
  from header_encrypt_robust [OF plain_lens plain_stable this refl] show ?thesis by blast
qed

end
