(* ===== verification/VC_Engine.thy ===== *)
theory VC_Engine
  imports VC_Pqxdh VC_Replay VC_Fingerprint VC_Storage VC_Policy VC_Triple VC_HeaderEncrypt
begin

text \<open>
  The application-facing engine (\<^verbatim>\<open>src/engine/mod.rs\<close>): wire formats, the live ratchet of a session in
  its three profiles, the session blobs, and every operation of \<open>VoiceChatCryptoEngine\<close>, composed
  from the prekey store, PQXDH, the ratchets, the replay cache, the trust store and the
  transactional storage.

  An operation returns its result with the engine it leaves behind, on every exit; \<open>None\<close> is a panic
  in the hybrid ratchet. \<open>rs i\<close> is what the random generator delivers to the \<open>i\<close>-th
  component of an operation that draws from it. The Cargo features are the record \<open>features\<close>.
\<close>

subsection \<open>Errors\<close>

datatype crypto_error =
    CeInvalidArgument | CeCryptoFailure | CeNoSession | CeIdentityChanged | CeReplay | CeStorage
  | CeLimitExceeded | CeVoiceProfileForbidden | CeInternal

fun from_prim :: "prim_error \<Rightarrow> crypto_error" where
  "from_prim Internal = CeInternal"
| "from_prim LimitExceeded = CeLimitExceeded"
| "from_prim InvalidLength = CeInvalidArgument"
| "from_prim InvalidPublicKey = CeInvalidArgument"
| "from_prim _ = CeCryptoFailure"

definition from_err :: "prim_error + 'a \<Rightarrow> crypto_error + 'a" where
  "from_err x = (case x of Inl e \<Rightarrow> Inl (from_prim e) | Inr a \<Rightarrow> Inr a)"

lemma from_err_simps [simp]: "from_err (Inl e) = Inl (from_prim e)" "from_err (Inr a) = Inr a"
  by (simp_all add: from_err_def)

lemma from_err_Inr_iff [rd_simps]: "from_err x = Inr a \<longleftrightarrow> x = Inr a"
  by (cases x) simp_all

subsection \<open>Wire formats\<close>

record sealed_message =
  sl_header :: bytes
  sl_ciphertext :: bytes
  sl_hint :: bytes

definition sealed_encode :: "sealed_message \<Rightarrow> bytes" where
  "sealed_encode m = bstr ''VCSEAL01'' @ sl_hint m @ put_vec (sl_header m) @ put_vec (sl_ciphertext m)"

definition sealed_decode :: "bytes \<Rightarrow> crypto_error + sealed_message" where
  "sealed_decode data =
     (if length data < 8 + 16 + 8 \<or> take 8 data \<noteq> bstr ''VCSEAL01'' then Inl CeInvalidArgument
      else
        rbind (take_n CeInvalidArgument 16 (drop 8 data)) (\<lambda>(hint, d).
        rbind (take_vec CeInvalidArgument d) (\<lambda>(header, d).
        rbind (take_vec CeInvalidArgument d) (\<lambda>(ct, d).
          if d \<noteq> [] then Inl CeInvalidArgument
          else Inr \<lparr>sl_header = header, sl_ciphertext = ct, sl_hint = hint\<rparr>))))"

record initiation_packet =
  ip_identity :: bytes
  ip_ephemeral :: bytes
  ip_kem :: bytes
  ip_spk :: u32
  ip_opk :: "u32 option"
  ip_pq :: u32
  ip_first :: sealed_message

definition packet_encode :: "initiation_packet \<Rightarrow> bytes" where
  "packet_encode p =
     bstr ''VCINIT01'' @ ip_identity p @ ip_ephemeral p @
     le_bytes 2 (of_nat (length (ip_kem p)) :: u16) @ ip_kem p @ le_bytes 4 (ip_spk p) @
     (case ip_opk p of None \<Rightarrow> [0] | Some i \<Rightarrow> 1 # le_bytes 4 i) @
     le_bytes 4 (ip_pq p) @ put_vec (sealed_encode (ip_first p))"

definition take_opk_id :: "bytes \<Rightarrow> crypto_error + u32 option \<times> bytes" where
  "take_opk_id d =
     rbind (take_u8 CeInvalidArgument d) (\<lambda>(has_opk, d).
       if has_opk = 0 then Inr (None, d)
       else if has_opk = 1 then rbind (take_u32 CeInvalidArgument d) (\<lambda>(i, d). Inr (Some i, d))
       else Inl CeInvalidArgument)"

definition packet_decode :: "bytes \<Rightarrow> crypto_error + initiation_packet" where
  "packet_decode data =
     (if length data < 8 + 32 + 32 + 2 + 4 + 1 + 4 + 4 \<or> take 8 data \<noteq> bstr ''VCINIT01'' then Inl CeInvalidArgument
      else
        rbind (take_n CeInvalidArgument 32 (drop 8 data)) (\<lambda>(ik, d).
        rbind (take_n CeInvalidArgument 32 d) (\<lambda>(ek, d).
        rbind (take_u16 CeInvalidArgument d) (\<lambda>(ct_len, d).
        rbind (take_n CeInvalidArgument (unat ct_len) d) (\<lambda>(kem, d).
        rbind (take_u32 CeInvalidArgument d) (\<lambda>(spk, d).
        rbind (take_opk_id d) (\<lambda>(opk, d).
        rbind (take_u32 CeInvalidArgument d) (\<lambda>(pq, d).
        rbind (take_vec CeInvalidArgument d) (\<lambda>(first, d).
          if d \<noteq> [] then Inl CeInvalidArgument
          else rbind (sealed_decode first) (\<lambda>m.
            Inr \<lparr>ip_identity = ik, ip_ephemeral = ek, ip_kem = kem, ip_spk = spk, ip_opk = opk, ip_pq = pq,
                 ip_first = m\<rparr>))))))))))"

subsection \<open>The live ratchet\<close>

datatype live_ratchet = LClassical dr_state | LHeaderEncrypt he_state | LHybrid triple

fun live_clone :: "crypto \<Rightarrow> live_ratchet \<Rightarrow> live_ratchet" where
  "live_clone C (LClassical s) = LClassical (clone_for_trial C s)"
| "live_clone C (LHeaderEncrypt s) = LHeaderEncrypt (he_clone_for_trial C s)"
| "live_clone C (LHybrid t) = LHybrid (triple_clone_for_trial C t)"

fun live_encrypt :: "crypto \<Rightarrow> rng \<Rightarrow> live_ratchet \<Rightarrow> bytes \<Rightarrow> bytes \<Rightarrow>
    ((crypto_error + (bytes \<times> bytes)) \<times> live_ratchet) option" where
  "live_encrypt C r (LClassical s) pt ad =
     (case dr_encrypt C s pt ad of (res, s') \<Rightarrow>
        Some (rbind (from_err res) (\<lambda>(h, ct). Inr (header_encode h, ct)), LClassical s'))"
| "live_encrypt C r (LHeaderEncrypt s) pt ad =
     (case he_encrypt C r s pt ad of (res, s') \<Rightarrow> Some (from_err res, LHeaderEncrypt s'))"
| "live_encrypt C r (LHybrid t) pt ad =
     map_option (\<lambda>(res, t'). (rbind (from_err res) (\<lambda>(h, ct). Inr (th_encode h, ct)), LHybrid t')) (triple_encrypt C r t pt ad)"

fun live_decrypt :: "crypto \<Rightarrow> rng \<Rightarrow> live_ratchet \<Rightarrow> bytes \<Rightarrow> bytes \<Rightarrow> bytes \<Rightarrow>
    ((crypto_error + bytes) \<times> live_ratchet) option" where
  "live_decrypt C r (LClassical s) header ct ad =
     (case header_decode header of
        Inl e \<Rightarrow> Some (Inl (from_prim e), LClassical s)
      | Inr h \<Rightarrow> (case dr_decrypt C r s h ct ad of (res, s') \<Rightarrow> Some (from_err res, LClassical s')))"
| "live_decrypt C r (LHeaderEncrypt s) header ct ad =
     (case he_decrypt C r s header ct ad of (res, s') \<Rightarrow> Some (from_err res, LHeaderEncrypt s'))"
| "live_decrypt C r (LHybrid t) header ct ad =
     (case th_decode header of
        Inl e \<Rightarrow> Some (Inl (from_prim e), LHybrid t)
      | Inr h \<Rightarrow> map_option (\<lambda>(res, t'). (from_err res, LHybrid t')) (triple_decrypt C r t h ct ad))"

fun persist_blob :: "live_ratchet \<Rightarrow> bytes" where
  "persist_blob (LClassical s) = 1 # dr_serialize s"
| "persist_blob (LHybrid t) = 2 # triple_serialize t"
| "persist_blob (LHeaderEncrypt s) = 3 # he_serialize s"

definition live_restore :: "features \<Rightarrow> crypto \<Rightarrow> bytes \<Rightarrow> crypto_error + live_ratchet" where
  "live_restore F C data =
     (case data of
        [] \<Rightarrow> Inl CeStorage
      | tag # d \<Rightarrow>
          if tag = 1 then from_err (rbind (dr_deserialize C d DEFAULT_MAX_SKIP) (\<lambda>s. Inr (LClassical s)))
          else if hybrid F \<and> tag = 2 then from_err (rbind (triple_deserialize C d DEFAULT_MAX_SKIP) (\<lambda>t. Inr (LHybrid t)))
          else if header_encrypt F \<and> tag = 3 then from_err (rbind (he_deserialize C d DEFAULT_MAX_SKIP) (\<lambda>s. Inr (LHeaderEncrypt s)))
          else Inl CeStorage)"

record live_session =
  ls_ratchet :: live_ratchet
  ls_remote :: bytes
  ls_conversation :: bytes
  ls_tracker :: identity_tracker
  ls_ad :: bytes

definition encode_session :: "bytes \<Rightarrow> live_session \<Rightarrow> bytes" where
  "encode_session sid s =
     bstr ''VCSESS01'' @ sid @ ls_remote s @ put_vec (ls_conversation s) @ put_vec (ls_ad s) @
     put_vec (persist_blob (ls_ratchet s))"

definition decode_session :: "features \<Rightarrow> crypto \<Rightarrow> bytes \<Rightarrow> crypto_error + (bytes \<times> live_session)" where
  "decode_session F C data =
     (if length data < 8 + 16 + 32 + 12 \<or> take 8 data \<noteq> bstr ''VCSESS01'' then Inl CeStorage
      else
        rbind (take_n CeStorage 16 (drop 8 data)) (\<lambda>(sid, d).
        rbind (take_n CeStorage 32 d) (\<lambda>(ik, d).
        rbind (take_vec CeStorage d) (\<lambda>(conv, d).
        rbind (take_vec CeStorage d) (\<lambda>(had, d).
        rbind (take_vec CeStorage d) (\<lambda>(rb, d).
          if d \<noteq> [] then Inl CeStorage
          else
            rbind (live_restore F C rb) (\<lambda>ratchet.
            rbind (from_err (public_from_bytes ik)) (\<lambda>remote.
              Inr (sid, \<lparr>ls_ratchet = ratchet, ls_remote = remote, ls_conversation = conv,
                         ls_tracker = tracker_new, ls_ad = had\<rparr>)))))))))"

definition he_keys_from_sk :: "crypto \<Rightarrow> bytes \<Rightarrow> crypto_error + (bytes \<times> bytes)" where
  "he_keys_from_sk C sk =
     rbind (from_err (hkdf_extract_expand C None sk DR_HEADER 64)) (\<lambda>okm. Inr (take 32 okm, drop 32 okm))"

fun init_alice_ratchet :: "crypto \<Rightarrow> rng \<Rightarrow> crypto_profile \<Rightarrow> bytes \<Rightarrow> bytes \<Rightarrow> (crypto_error + live_ratchet) option" where
  "init_alice_ratchet C r ClassicalV1 sk bob_spk =
     Some (from_err (rbind (fst (init_alice C r sk bob_spk DEFAULT_MAX_SKIP)) (\<lambda>s. Inr (LClassical s))))"
| "init_alice_ratchet C r ClassicalHeV1 sk bob_spk =
     Some (rbind (he_keys_from_sk C sk) (\<lambda>(hka, nhkb).
       from_err (rbind (fst (he_init_alice C r sk bob_spk hka nhkb DEFAULT_MAX_SKIP)) (\<lambda>s. Inr (LHeaderEncrypt s)))))"
| "init_alice_ratchet C r HybridPqV1 sk bob_spk =
     map_option (\<lambda>res. from_err (rbind res (\<lambda>t. Inr (LHybrid t)))) (triple_init_alice C r sk bob_spk)"

fun init_bob_ratchet :: "crypto \<Rightarrow> crypto_profile \<Rightarrow> bytes \<Rightarrow> bytes \<Rightarrow> (crypto_error + live_ratchet) option" where
  "init_bob_ratchet C ClassicalV1 sk bob_dh = Some (Inr (LClassical (init_bob sk bob_dh DEFAULT_MAX_SKIP)))"
| "init_bob_ratchet C ClassicalHeV1 sk bob_dh =
     Some (rbind (he_keys_from_sk C sk) (\<lambda>(hka, nhkb).
       Inr (LHeaderEncrypt (he_init_bob sk bob_dh hka nhkb DEFAULT_MAX_SKIP))))"
| "init_bob_ratchet C HybridPqV1 sk bob_dh =
     map_option (\<lambda>res. from_err (rbind res (\<lambda>t. Inr (LHybrid t)))) (triple_init_bob C sk bob_dh)"

subsection \<open>The engine\<close>

record engine =
  eg_identity :: bytes
  eg_device :: bytes
  eg_profile :: crypto_profile
  eg_prekeys :: prekey_store
  eg_sessions :: "(bytes, live_session) hmap"
  eg_replay :: replay_cache
  eg_trust :: trust_store
  eg_storage :: memory_storage

type_synonym 'a op_result = "((crypto_error + 'a) \<times> engine) option"

definition KEY_IDENTITY :: bytes where "KEY_IDENTITY = bstr ''identity''"
definition KEY_PREKEYS :: bytes where "KEY_PREKEYS = bstr ''prekeys''"
definition KEY_REPLAY :: bytes where "KEY_REPLAY = bstr ''replay''"
definition KEY_TRUST :: bytes where "KEY_TRUST = bstr ''trust''"

definition device_config_recommended :: "bytes \<Rightarrow> bytes \<times> crypto_profile" where
  "device_config_recommended device_id = (device_id, hd PROFILE_PREFERENCE)"

definition commit_pairs :: "engine \<Rightarrow> (bytes \<times> bytes) list \<Rightarrow> (crypto_error + unit) \<times> engine" where
  "commit_pairs g pairs =
     (case ms_begin (eg_storage g) of
        (Inl _, st) \<Rightarrow> (Inl CeStorage, g\<lparr>eg_storage := st\<rparr>)
      | (Inr tx, st) \<Rightarrow>
          (case put_all ms_put tx pairs st of
             (Inl _, st) \<Rightarrow> (Inl CeStorage, g\<lparr>eg_storage := snd (ms_abort st tx)\<rparr>)
           | (Inr _, st) \<Rightarrow>
               (case ms_commit st tx of
                  (Inl _, st) \<Rightarrow> (Inl CeStorage, g\<lparr>eg_storage := st\<rparr>)
                | (Inr _, st) \<Rightarrow> (Inr (), g\<lparr>eg_storage := snd (ms_advance_epoch st)\<rparr>))))"

definition persist_device_state :: "engine \<Rightarrow> (crypto_error + unit) \<times> engine" where
  "persist_device_state g =
     commit_pairs g [(KEY_IDENTITY, identity_serialize (eg_identity g)), (KEY_PREKEYS, store_serialize (eg_prekeys g)),
       (KEY_REPLAY, replay_serialize (eg_replay g)), (KEY_TRUST, trust_serialize (eg_trust g))]"

definition persist_session_aux :: "engine \<Rightarrow> bytes \<Rightarrow> (crypto_error + unit) \<times> engine" where
  "persist_session_aux g sid =
     (case hm_get (eg_sessions g) sid of
        None \<Rightarrow> (Inl CeNoSession, g)
      | Some sess \<Rightarrow>
          commit_pairs g [(sid, encode_session sid sess), (KEY_REPLAY, replay_serialize (eg_replay g)),
            (KEY_TRUST, trust_serialize (eg_trust g))])"

definition persist_handshake :: "engine \<Rightarrow> bytes \<Rightarrow> (crypto_error + unit) \<times> engine" where
  "persist_handshake g sid =
     (case hm_get (eg_sessions g) sid of
        None \<Rightarrow> (Inl CeNoSession, g)
      | Some sess \<Rightarrow>
          commit_pairs g [(KEY_IDENTITY, identity_serialize (eg_identity g)), (KEY_PREKEYS, store_serialize (eg_prekeys g)),
            (sid, encode_session sid sess), (KEY_REPLAY, replay_serialize (eg_replay g)),
            (KEY_TRUST, trust_serialize (eg_trust g))])"

text \<open>\<open>ReplayCache::new(4096)\<close> asserts a positive capacity; the assertion holds.\<close>

definition initialize_device :: "crypto \<Rightarrow> (nat \<Rightarrow> rng) \<Rightarrow> bytes \<Rightarrow> crypto_profile \<Rightarrow> (crypto_error + engine) option" where
  "initialize_device C rs device_id profile =
     (let identity = fst (identity_generate C (rs 0))
      in case fst (store_new C identity (rs 1)) of
           Inl e \<Rightarrow> Some (Inl (from_prim e))
         | Inr prekeys \<Rightarrow>
             (case replay_new 4096 of
                None \<Rightarrow> None
              | Some replay \<Rightarrow>
                  (case persist_device_state \<lparr>eg_identity = identity, eg_device = device_id, eg_profile = profile,
                          eg_prekeys = prekeys, eg_sessions = [], eg_replay = replay, eg_trust = [],
                          eg_storage = memory_storage_default\<rparr> of
                     (Inl e, _) \<Rightarrow> Some (Inl e)
                   | (Inr _, g) \<Rightarrow> Some (Inr g))))"

definition next_session_id :: "rng \<Rightarrow> bytes" where
  "next_session_id r = fst (fill_random 16 r)"

definition replay_key_of :: "bytes \<Rightarrow> sealed_message \<Rightarrow> bytes \<Rightarrow> bytes \<Rightarrow> replay_key" where
  "replay_key_of sid sealed conversation sender_device =
     \<lparr>conversation_id = conversation, sender_device_id = sender_device,
      message_id = le_bytes 2 PROTOCOL_VERSION @ sid @ sl_header sealed @ take 32 (sl_ciphertext sealed)\<rparr>"

definition bound_ad :: "live_session \<Rightarrow> bytes \<Rightarrow> bytes" where
  "bound_ad sess ad = put_vec (ls_ad sess) @ put_vec (ls_conversation sess) @ ad"

text \<open>\<open>sess.ratchet = trial\<close>\<close>

definition set_ratchet :: "engine \<Rightarrow> bytes \<Rightarrow> live_session \<Rightarrow> live_ratchet \<Rightarrow> engine" where
  "set_ratchet g sid sess l = g\<lparr>eg_sessions := hm_insert (eg_sessions g) sid (sess\<lparr>ls_ratchet := l\<rparr>)\<rparr>"

definition apply_decrypt :: "crypto \<Rightarrow> rng \<Rightarrow> engine \<Rightarrow> bytes \<Rightarrow> sealed_message \<Rightarrow> bytes \<Rightarrow> bytes op_result" where
  "apply_decrypt C r g sid sealed ad =
     (case hm_get (eg_sessions g) sid of
        None \<Rightarrow> Some (Inl CeNoSession, g)
      | Some sess \<Rightarrow>
          let rkey = replay_key_of sid sealed (ls_conversation sess) (eg_device g)
          in if replay_contains (eg_replay g) rkey then Some (Inl CeReplay, g)
             else
               (case live_decrypt C r (live_clone C (ls_ratchet sess)) (sl_header sealed) (sl_ciphertext sealed) (bound_ad sess ad) of
                  None \<Rightarrow> None
                | Some (Inl e, _) \<Rightarrow> Some (Inl e, g)
                | Some (Inr plaintext, trial) \<Rightarrow>
                    let g1 = set_ratchet g sid sess trial
                    in case check_and_insert (eg_replay g1) rkey of
                         (Inl _, c) \<Rightarrow> Some (Inl CeInternal, g1\<lparr>eg_replay := c\<rparr>)
                       | (Inr replayed, c) \<Rightarrow>
                           if replayed then Some (Inl CeReplay, g1\<lparr>eg_replay := c\<rparr>)
                           else Some (Inr plaintext, g1\<lparr>eg_replay := c\<rparr>)))"

subsection \<open>Reload\<close>

fun restore_sessions :: "features \<Rightarrow> crypto \<Rightarrow> memory_storage \<Rightarrow> bytes list \<Rightarrow> (bytes, live_session) hmap \<Rightarrow>
    crypto_error + (bytes, live_session) hmap" where
  "restore_sessions F C st [] restored = Inr restored"
| "restore_sessions F C st (key # keys) restored =
     (case ms_get st key of
        None \<Rightarrow> Inl CeStorage
      | Some blob \<Rightarrow>
          if length blob < 8 \<or> take 8 blob \<noteq> bstr ''VCSESS01'' then restore_sessions F C st keys restored
          else rbind (decode_session F C blob) (\<lambda>(sid, sess). restore_sessions F C st keys (hm_insert restored sid sess)))"

definition reload_identity :: "crypto \<Rightarrow> engine \<Rightarrow> (crypto_error + unit) \<times> engine" where
  "reload_identity C g =
     (case ms_get (eg_storage g) KEY_IDENTITY of
        None \<Rightarrow> (Inr (), g)
      | Some blob \<Rightarrow> sbind (from_err (identity_deserialize C blob), g) (\<lambda>ik g. (Inr (), g\<lparr>eg_identity := ik\<rparr>)))"

definition reload_prekeys :: "crypto \<Rightarrow> engine \<Rightarrow> (crypto_error + unit) \<times> engine" where
  "reload_prekeys C g =
     (case ms_get (eg_storage g) KEY_PREKEYS of
        None \<Rightarrow> (Inr (), g)
      | Some blob \<Rightarrow> sbind (from_err (store_deserialize C blob), g) (\<lambda>ps g. (Inr (), g\<lparr>eg_prekeys := ps\<rparr>)))"

definition reload_replay :: "engine \<Rightarrow> engine" where
  "reload_replay g =
     (case ms_get (eg_storage g) KEY_REPLAY of
        None \<Rightarrow> g
      | Some blob \<Rightarrow> (case replay_deserialize blob of Inl _ \<Rightarrow> g | Inr c \<Rightarrow> g\<lparr>eg_replay := c\<rparr>))"

definition reload_trust :: "engine \<Rightarrow> engine" where
  "reload_trust g =
     (case ms_get (eg_storage g) KEY_TRUST of
        None \<Rightarrow> g
      | Some blob \<Rightarrow> (case trust_deserialize blob of Inl _ \<Rightarrow> g | Inr t \<Rightarrow> g\<lparr>eg_trust := t\<rparr>))"

definition reload_trackers :: "engine \<Rightarrow> engine" where
  "reload_trackers g =
     g\<lparr>eg_sessions := map (\<lambda>(sid, sess). (sid, sess\<lparr>ls_tracker := tracker_for (eg_trust g) (ls_remote sess)\<rparr>)) (eg_sessions g)\<rparr>"

definition simulate_crash_reload :: "features \<Rightarrow> crypto \<Rightarrow> engine \<Rightarrow> (crypto_error + unit) \<times> engine" where
  "simulate_crash_reload F C g =
     sbind (reload_identity C g) (\<lambda>_ g.
     sbind (reload_prekeys C g) (\<lambda>_ g.
     sbind (restore_sessions F C (eg_storage g) (ms_keys (eg_storage g)) [], g) (\<lambda>restored g.
       (Inr (), reload_trackers (reload_trust (reload_replay (g\<lparr>eg_sessions := restored\<rparr>)))))))"

definition remote_identity_state :: "engine \<Rightarrow> bytes \<Rightarrow> bytes option \<Rightarrow> crypto_error + identity_state" where
  "remote_identity_state g remote device =
     rbind (from_err (public_from_bytes remote)) (\<lambda>remote.
       Inr (tracker_observe (tracker_for (eg_trust g) remote) \<lparr>im_key = remote, im_device = device\<rparr>))"

definition contains_seq :: "bytes \<Rightarrow> bytes \<Rightarrow> bool" where
  "contains_seq hay needle =
     (if needle = [] \<or> length hay < length needle then False
      else (\<exists>i \<in> set [0..<length hay - length needle + 1]. take (length needle) (drop i hay) = needle))"

subsection \<open>The application interface\<close>

definition generate_public_prekey_bundle :: "crypto \<Rightarrow> rng \<Rightarrow> engine \<Rightarrow> nat \<Rightarrow> (crypto_error + public_bundle) \<times> engine" where
  "generate_public_prekey_bundle C r g one_time_count =
     (case replenish C (eg_identity g) one_time_count one_time_count (eg_prekeys g) r of
        (res, ps, _) \<Rightarrow>
          sbind (from_err res, g\<lparr>eg_prekeys := ps\<rparr>) (\<lambda>_ g.
          sbind (persist_device_state g) (\<lambda>_ g.
            (from_err (store_public_bundle C (eg_identity g) (eg_prekeys g)), g))))"

definition replenish_prekeys :: "crypto \<Rightarrow> rng \<Rightarrow> engine \<Rightarrow> nat \<Rightarrow> (crypto_error + public_bundle) \<times> engine" where
  "replenish_prekeys C r g one_time_count = generate_public_prekey_bundle C r g one_time_count"

definition engine_encrypt :: "crypto \<Rightarrow> rng \<Rightarrow> engine \<Rightarrow> bytes \<Rightarrow> bytes \<Rightarrow> bytes \<Rightarrow> sealed_message op_result" where
  "engine_encrypt C r g sid plaintext ad =
     (case hm_get (eg_sessions g) sid of
        None \<Rightarrow> Some (Inl CeNoSession, g)
      | Some sess \<Rightarrow>
          (case live_encrypt C r (live_clone C (ls_ratchet sess)) plaintext (bound_ad sess ad) of
             None \<Rightarrow> None
           | Some (Inl e, _) \<Rightarrow> Some (Inl e, g)
           | Some (Inr (header, ct), trial) \<Rightarrow>
               Some (sbind (persist_session_aux (set_ratchet g sid sess trial) sid) (\<lambda>_ g.
                 (Inr \<lparr>sl_header = header, sl_ciphertext = ct, sl_hint = sid\<rparr>, g)))))"

definition encrypt_voice_payload :: "crypto \<Rightarrow> rng \<Rightarrow> engine \<Rightarrow> bytes \<Rightarrow> bytes \<Rightarrow> bytes \<Rightarrow> sealed_message op_result" where
  "encrypt_voice_payload C r g sid voice_payload ad =
     (if contains_seq ad (bstr ''voice_profile'') \<or> contains_seq ad (bstr ''voice-profile'')
      then Some (Inl CeVoiceProfileForbidden, g)
      else engine_encrypt C r g sid voice_payload ad)"

definition engine_decrypt :: "crypto \<Rightarrow> rng \<Rightarrow> engine \<Rightarrow> bytes \<Rightarrow> sealed_message \<Rightarrow> bytes \<Rightarrow> bytes op_result" where
  "engine_decrypt C r g sid sealed ad =
     pbind (apply_decrypt C r g sid sealed ad) (\<lambda>plaintext g.
     pbind (Some (persist_session_aux g sid)) (\<lambda>_ g. Some (Inr plaintext, g)))"

definition establish_outbound_session :: "crypto \<Rightarrow> (nat \<Rightarrow> rng) \<Rightarrow> engine \<Rightarrow> public_bundle \<Rightarrow> bytes \<Rightarrow> bytes \<Rightarrow> bytes \<Rightarrow>
    (bytes \<times> initiation_packet) op_result" where
  "establish_outbound_session C rs g bundle conversation first_plaintext ad =
     pbind (Some (from_err (bundle_validate C bundle), g)) (\<lambda>_ g.
     pbind (Some (from_err (fst (alice_initiate C (eg_identity g) bundle (rs 0))), g)) (\<lambda>initiation g.
     pbind (map_option (\<lambda>res. (res, g)) (init_alice_ratchet C (rs 1) (eg_profile g) (px_sk (ai_shared initiation)) (pb_signed bundle))) (\<lambda>ratchet g.
       let sid = next_session_id (rs 2);
           g1 = g\<lparr>eg_trust := record_seen (eg_trust g) \<lparr>im_key = pb_identity bundle, im_device = None\<rparr>\<rparr>;
           g2 = g1\<lparr>eg_sessions := hm_insert (eg_sessions g1) sid
                  \<lparr>ls_ratchet = ratchet, ls_remote = pb_identity bundle, ls_conversation = conversation,
                   ls_tracker = tracker_for (eg_trust g1) (pb_identity bundle), ls_ad = px_ad (ai_shared initiation)\<rparr>\<rparr>
       in pbind (engine_encrypt C (rs 3) g2 sid first_plaintext ad) (\<lambda>first_message g.
            Some (Inr (sid, \<lparr>ip_identity = identity_public C (eg_identity g), ip_ephemeral = ai_ephemeral initiation,
              ip_kem = ai_kem_ct initiation, ip_spk = pb_signed_id bundle, ip_opk = ai_opk_id initiation,
              ip_pq = ai_pq_id initiation, ip_first = first_message\<rparr>), g)))))"

text \<open>The secrets an initiation refers to.\<close>

definition inbound_shared :: "crypto \<Rightarrow> engine \<Rightarrow> initiation_packet \<Rightarrow> bytes \<Rightarrow> bytes \<Rightarrow> crypto_error + pqxdh_shared" where
  "inbound_shared C g p alice_ik alice_ek =
     (if ip_spk p \<noteq> sp_id (ps_signed (eg_prekeys g)) then Inl CeCryptoFailure
      else
        rbind (case ip_opk p of
                 Some i \<Rightarrow> rbind (from_err (peek_ec (eg_prekeys g) i)) (\<lambda>k. Inr (Some k))
               | None \<Rightarrow> Inr None) (\<lambda>peeked_ec.
        rbind (if ip_pq p = pq_id (ps_last_resort (eg_prekeys g)) then Inr None
               else rbind (from_err (peek_pq (eg_prekeys g) (ip_pq p))) (\<lambda>k. Inr (Some k))) (\<lambda>peeked_pq.
          let pq_secret = (case peeked_pq of Some k \<Rightarrow> pq_seed k | None \<Rightarrow> pq_seed (ps_last_resort (eg_prekeys g)))
          in rbind (from_err (kem_public_key C pq_secret)) (\<lambda>pub.
               from_err (bob_process C \<lparr>bm_identity = eg_identity g, bm_signed = ps_signed (eg_prekeys g),
                 bm_one_time = peeked_ec, bm_pq_secret = pq_secret, bm_pq_public = pub, bm_pq_id = ip_pq p\<rparr>
                 alice_ik alice_ek (ip_kem p) (ip_opk p))))))"

text \<open>The one-time keys an accepted initiation uses up.\<close>

definition consume_used :: "engine \<Rightarrow> initiation_packet \<Rightarrow> (crypto_error + unit) \<times> engine" where
  "consume_used g p =
     sbind (case ip_opk p of
              Some i \<Rightarrow> (case consume_ec (eg_prekeys g) i of (res, ps) \<Rightarrow> (from_err (rbind res (\<lambda>_. Inr ())), g\<lparr>eg_prekeys := ps\<rparr>))
            | None \<Rightarrow> (Inr (), g)) (\<lambda>_ g.
       if ip_pq p \<noteq> pq_id (ps_last_resort (eg_prekeys g))
       then (case consume_pq (eg_prekeys g) (ip_pq p) of (res, ps) \<Rightarrow> (from_err (rbind res (\<lambda>_. Inr ())), g\<lparr>eg_prekeys := ps\<rparr>))
       else (Inr (), g))"

definition drop_session :: "engine \<Rightarrow> bytes \<Rightarrow> engine" where
  "drop_session g sid = g\<lparr>eg_sessions := hm_remove (eg_sessions g) sid\<rparr>"

definition process_inbound_session :: "crypto \<Rightarrow> (nat \<Rightarrow> rng) \<Rightarrow> engine \<Rightarrow> initiation_packet \<Rightarrow> bytes \<Rightarrow> bytes \<Rightarrow>
    (bytes \<times> bytes) op_result" where
  "process_inbound_session C rs g p conversation ad =
     pbind (Some (from_err (public_from_bytes (ip_identity p)), g)) (\<lambda>alice_ik g.
     pbind (Some (from_err (public_from_bytes (ip_ephemeral p)), g)) (\<lambda>alice_ek g.
     pbind (Some (inbound_shared C g p alice_ik alice_ek, g)) (\<lambda>shared g.
     pbind (map_option (\<lambda>res. (res, g)) (init_bob_ratchet C (eg_profile g) (px_sk shared)
        (secret_from_bytes C (sp_secret (ps_signed (eg_prekeys g)))))) (\<lambda>ratchet g.
       let sid = next_session_id (rs 0);
           g1 = g\<lparr>eg_trust := record_seen (eg_trust g) \<lparr>im_key = alice_ik, im_device = None\<rparr>\<rparr>;
           g2 = g1\<lparr>eg_sessions := hm_insert (eg_sessions g1) sid
                  \<lparr>ls_ratchet = ratchet, ls_remote = alice_ik, ls_conversation = conversation,
                   ls_tracker = tracker_for (eg_trust g1) alice_ik, ls_ad = px_ad shared\<rparr>\<rparr>
       in case apply_decrypt C (rs 1) g2 sid (ip_first p) ad of
            None \<Rightarrow> None
          | Some (Inl e, g) \<Rightarrow> Some (Inl e, drop_session g sid)
          | Some (Inr plaintext, g) \<Rightarrow>
              pbind (Some (consume_used g p)) (\<lambda>_ g.
                case persist_handshake g sid of
                  (Inl e, g) \<Rightarrow> Some (Inl e, drop_session g sid)
                | (Inr _, g) \<Rightarrow> Some (Inr (sid, plaintext), g))))))"

definition engine_safety_fingerprint :: "crypto \<Rightarrow> engine \<Rightarrow> bytes \<Rightarrow> bytes option \<Rightarrow> crypto_error + safety_fingerprint" where
  "engine_safety_fingerprint C g remote device =
     rbind (from_err (public_from_bytes remote)) (\<lambda>remote.
       Inr (compute_fingerprint C \<lparr>im_key = identity_public C (eg_identity g), im_device = Some (eg_device g)\<rparr>
         \<lparr>im_key = remote, im_device = device\<rparr>))"

definition is_changed :: "identity_state \<Rightarrow> bool" where
  "is_changed s \<longleftrightarrow> (case s of IdentityChanged prev cur why \<Rightarrow> True | _ \<Rightarrow> False)"

definition acknowledge_identity_change :: "engine \<Rightarrow> bytes \<Rightarrow> bytes option \<Rightarrow> (crypto_error + unit) \<times> engine" where
  "acknowledge_identity_change g remote device =
     sbind (from_err (public_from_bytes remote), g) (\<lambda>remote g.
       let mat = \<lparr>im_key = remote, im_device = device\<rparr>;
           g1 = g\<lparr>eg_sessions := map (\<lambda>(sid, sess).
                    (sid, if ls_remote sess = remote \<or> is_changed (tracker_observe (ls_tracker sess) mat)
                          then sess\<lparr>ls_tracker := tracker_acknowledge (ls_tracker sess) mat\<rparr> else sess)) (eg_sessions g)\<rparr>;
           g2 = g1\<lparr>eg_trust := trust_acknowledge (eg_trust g1) mat 0 VerSafetyNumber\<rparr>
       in persist_device_state g2)"

definition has_session :: "engine \<Rightarrow> bytes \<Rightarrow> bool" where
  "has_session g sid \<longleftrightarrow> hm_get (eg_sessions g) sid \<noteq> None"

definition delete_session :: "engine \<Rightarrow> bytes \<Rightarrow> (crypto_error + unit) \<times> engine" where
  "delete_session g sid =
     (case hm_get (eg_sessions g) sid of
        None \<Rightarrow> (Inl CeNoSession, g)
      | Some _ \<Rightarrow>
          let g = drop_session g sid
          in case ms_begin (eg_storage g) of
               (Inl _, st) \<Rightarrow> (Inl CeStorage, g\<lparr>eg_storage := st\<rparr>)
             | (Inr tx, st) \<Rightarrow>
                 let st1 = snd (ms_delete st tx sid)
                 in (Inr (), g\<lparr>eg_storage := snd (ms_commit st1 tx)\<rparr>))"

definition delete_all_sessions :: "engine \<Rightarrow> (crypto_error + unit) \<times> engine" where
  "delete_all_sessions g = (Inr (), g\<lparr>eg_sessions := [], eg_storage := ms_clear (eg_storage g)\<rparr>)"

definition local_identity_public :: "crypto \<Rightarrow> engine \<Rightarrow> bytes" where
  "local_identity_public C g = identity_public C (eg_identity g)"

end
