(* ===== verification/VC_Ffi.thy ===== *)
theory VC_Ffi
  imports VC_Engine
begin

text \<open>
  The C interface (\<^verbatim>\<open>src/ffi/mod.rs\<close>): the global registry of engines and every exported function.

  Foreign memory is modelled at the pointers a call receives. A \<open>*const u8\<close> is \<open>None\<close> when it is null and
  otherwise the memory it points to; the caller promises that it holds at least the stated length.
  The output arguments of a call are the fields of \<open>ffi_mem\<close>, next to the registry. A write to an
  output pointer replaces the front of the memory there; a write beyond its end would lengthen it,
  so that memory safety is the statement that lengths do not change.

  A call returns \<open>Inr ()\<close> for the code \<open>VcError::Ok\<close> and \<open>Inl e\<close> for every other code, with the memory it
  leaves. \<open>None\<close> is a panic in the engine, which ends the process at the \<open>extern "C"\<close> boundary.
\<close>

type_synonym vc_handle = u64

datatype vc_error =
    VcOk | VcInvalidArgument | VcCryptoFailure | VcStateError | VcNotFound | VcIdentityChanged
  | VcLimitExceeded | VcInternal

fun vc_i32 :: "vc_error \<Rightarrow> int" where
  "vc_i32 VcOk = 0"
| "vc_i32 VcInvalidArgument = 1"
| "vc_i32 VcCryptoFailure = 2"
| "vc_i32 VcStateError = 3"
| "vc_i32 VcNotFound = 4"
| "vc_i32 VcIdentityChanged = 5"
| "vc_i32 VcLimitExceeded = 6"
| "vc_i32 VcInternal = 99"

fun vc_from_crypto :: "crypto_error \<Rightarrow> vc_error" where
  "vc_from_crypto CeInvalidArgument = VcInvalidArgument"
| "vc_from_crypto CeCryptoFailure = VcCryptoFailure"
| "vc_from_crypto CeNoSession = VcStateError"
| "vc_from_crypto CeReplay = VcStateError"
| "vc_from_crypto CeIdentityChanged = VcIdentityChanged"
| "vc_from_crypto CeLimitExceeded = VcLimitExceeded"
| "vc_from_crypto CeVoiceProfileForbidden = VcInvalidArgument"
| "vc_from_crypto CeStorage = VcInternal"
| "vc_from_crypto CeInternal = VcInternal"

definition vc_res :: "crypto_error + 'a \<Rightarrow> vc_error + 'a" where
  "vc_res x = (case x of Inl e \<Rightarrow> Inl (vc_from_crypto e) | Inr a \<Rightarrow> Inr a)"

text \<open>The code a call hands to the caller.\<close>

definition return_code :: "vc_error + unit \<Rightarrow> int" where
  "return_code x = vc_i32 (case x of Inl e \<Rightarrow> e | Inr _ \<Rightarrow> VcOk)"

subsection \<open>The registry\<close>

record registry =
  rg_next :: u64
  rg_engines :: "(vc_handle, engine) hmap"
  rg_poisoned :: bool

definition registry_new :: registry where
  "registry_new = \<lparr>rg_next = 1, rg_engines = [], rg_poisoned = False\<rparr>"

definition reg_alloc :: "registry \<Rightarrow> (vc_error + vc_handle) \<times> registry" where
  "reg_alloc R =
     (let h = rg_next R
      in if unat h + 1 < 2 ^ 64 then (Inr h, R\<lparr>rg_next := h + 1\<rparr>) else (Inl VcLimitExceeded, R))"

subsection \<open>Foreign memory\<close>

record ffi_mem =
  fm_reg :: registry
  fm_handle :: "u64 option"
  fm_raw :: "bytes option"
  fm_buf :: "bytes option"
  fm_len :: "nat option"

type_synonym ffi_result = "((vc_error + unit) \<times> ffi_mem) option"

definition BUNDLE_BOUND :: nat where
  "BUNDLE_BOUND = 4096"

definition usize_add :: "nat \<Rightarrow> nat \<Rightarrow> vc_error + nat" where
  "usize_add a b = (if a + b < 2 ^ 64 then Inr (a + b) else Inl VcLimitExceeded)"

definition packet_bound :: "nat \<Rightarrow> vc_error + nat" where
  "packet_bound pt_len = usize_add 8192 pt_len"

definition sealed_bound :: "nat \<Rightarrow> vc_error + nat" where
  "sealed_bound pt_len = usize_add 4096 pt_len"

text \<open>\<open>copy_nonoverlapping\<close> to an output pointer; nothing happens at a null pointer, where every call
  either returns before the write or skips it.\<close>

definition poke :: "bytes \<Rightarrow> bytes option \<Rightarrow> bytes option" where
  "poke src dst = map_option (\<lambda>mem. src @ drop (length src) mem) dst"

definition copy_out :: "bytes \<Rightarrow> ffi_mem \<Rightarrow> (vc_error + unit) \<times> ffi_mem" where
  "copy_out src m =
     (case fm_len m of
        None \<Rightarrow> (Inl VcInvalidArgument, m)
      | Some n \<Rightarrow>
          if fm_buf m = None \<or> n < length src
          then (Inl VcInvalidArgument, m\<lparr>fm_len := Some (length src)\<rparr>)
          else (Inr (), m\<lparr>fm_buf := poke src (fm_buf m), fm_len := Some (length src)\<rparr>))"

definition need_buffer :: "nat \<Rightarrow> ffi_mem \<Rightarrow> bool \<times> ffi_mem" where
  "need_buffer bound m =
     (case fm_len m of
        None \<Rightarrow> (True, m)
      | Some n \<Rightarrow> if fm_buf m = None \<or> n < bound then (True, m\<lparr>fm_len := Some bound\<rparr>) else (False, m))"

text \<open>\<open>if need_buffer(..) { return VcError::InvalidArgument as i32; }\<close>\<close>

definition ask_buffer :: "nat \<Rightarrow> ffi_mem \<Rightarrow> ((vc_error + unit) \<times> ffi_mem) option" where
  "ask_buffer bound m =
     (case need_buffer bound m of (stop, m) \<Rightarrow> Some (if stop then Inl VcInvalidArgument else Inr (), m))"

definition ffi_read_bytes :: "bytes option \<Rightarrow> nat \<Rightarrow> vc_error + bytes" where
  "ffi_read_bytes ptr len =
     (case ptr of
        None \<Rightarrow> if len = 0 then Inr [] else Inl VcInvalidArgument
      | Some mem \<Rightarrow> Inr (take len mem))"

text \<open>\<open>registry().lock()\<close> followed by \<open>get\<close> or \<open>get_mut\<close>, and the engine a call leaves behind.\<close>

definition lock_engine :: "vc_handle \<Rightarrow> ffi_mem \<Rightarrow> vc_error + engine" where
  "lock_engine h m =
     (if rg_poisoned (fm_reg m) then Inl VcInternal
      else ok_or VcNotFound (hm_get (rg_engines (fm_reg m)) h))"

definition put_engine :: "vc_handle \<Rightarrow> engine \<Rightarrow> ffi_mem \<Rightarrow> ffi_mem" where
  "put_engine h g m = m\<lparr>fm_reg := (fm_reg m)\<lparr>rg_engines := hm_insert (rg_engines (fm_reg m)) h g\<rparr>\<rparr>"

definition on_engine :: "vc_handle \<Rightarrow> ffi_mem \<Rightarrow> ((crypto_error + 'a) \<times> engine) option \<Rightarrow>
    ((vc_error + 'a) \<times> ffi_mem) option" where
  "on_engine h m x = map_option (\<lambda>(res, g). (vc_res res, put_engine h g m)) x"

subsection \<open>Engines\<close>

definition vc_engine_create :: "features \<Rightarrow> crypto \<Rightarrow> (nat \<Rightarrow> rng) \<Rightarrow> bytes option \<Rightarrow> nat \<Rightarrow> u8 \<Rightarrow> ffi_mem \<Rightarrow> ffi_result" where
  "vc_engine_create F C rs device_id device_id_len profile m =
     (if fm_handle m = None then Some (Inl VcInvalidArgument, m)
      else
        case profile_from_u8 F profile of
          Inl _ \<Rightarrow> Some (Inl VcInvalidArgument, m)
        | Inr profile \<Rightarrow>
            pbind (Some (ffi_read_bytes device_id device_id_len, m)) (\<lambda>dev_id m.
            pbind (map_option (\<lambda>res. (vc_res res, m)) (initialize_device C rs dev_id profile)) (\<lambda>g m.
              let m1 = m\<lparr>fm_raw := poke (local_identity_public C g) (fm_raw m)\<rparr>
              in if rg_poisoned (fm_reg m1) then Some (Inl VcInternal, m1)
                 else case reg_alloc (fm_reg m1) of
                   (Inl e, R) \<Rightarrow> Some (Inl e, m1\<lparr>fm_reg := R\<rparr>)
                 | (Inr h, R) \<Rightarrow> Some (Inr (), (put_engine h g (m1\<lparr>fm_reg := R\<rparr>))\<lparr>fm_handle := Some h\<rparr>))))"

definition vc_create_device_identity :: "features \<Rightarrow> crypto \<Rightarrow> (nat \<Rightarrow> rng) \<Rightarrow> bytes option \<Rightarrow> nat \<Rightarrow> ffi_mem \<Rightarrow> ffi_result" where
  "vc_create_device_identity F C rs device_id device_id_len m = vc_engine_create F C rs device_id device_id_len 1 m"

definition vc_engine_destroy :: "vc_handle \<Rightarrow> ffi_mem \<Rightarrow> ffi_result" where
  "vc_engine_destroy h m =
     (if rg_poisoned (fm_reg m) then Some (Inl VcInternal, m)
      else case hm_get (rg_engines (fm_reg m)) h of
        None \<Rightarrow> Some (Inl VcNotFound, m)
      | Some _ \<Rightarrow> Some (Inr (), m\<lparr>fm_reg := (fm_reg m)\<lparr>rg_engines := hm_remove (rg_engines (fm_reg m)) h\<rparr>\<rparr>))"

definition vc_delete_identity :: "vc_handle \<Rightarrow> ffi_mem \<Rightarrow> ffi_result" where
  "vc_delete_identity h m = vc_engine_destroy h m"

definition vc_engine_public_identity :: "crypto \<Rightarrow> vc_handle \<Rightarrow> ffi_mem \<Rightarrow> ffi_result" where
  "vc_engine_public_identity C h m =
     (if fm_raw m = None then Some (Inl VcInvalidArgument, m)
      else pbind (Some (lock_engine h m, m)) (\<lambda>g m.
             Some (Inr (), m\<lparr>fm_raw := poke (local_identity_public C g) (fm_raw m)\<rparr>)))"

definition vc_generate_bundle :: "crypto \<Rightarrow> rng \<Rightarrow> vc_handle \<Rightarrow> nat \<Rightarrow> ffi_mem \<Rightarrow> ffi_result" where
  "vc_generate_bundle C r h one_time_count m =
     pbind (Some (lock_engine h m, m)) (\<lambda>g m.
     pbind (ask_buffer BUNDLE_BOUND m) (\<lambda>_ m.
     pbind (on_engine h m (Some (generate_public_prekey_bundle C r g one_time_count))) (\<lambda>bundle m.
       Some (copy_out (bundle_encode bundle) m))))"

subsection \<open>Sessions\<close>

text \<open>The end of \<open>vc_establish_outbound\<close> and \<open>vc_process_inbound\<close>: the session id and the output.\<close>

definition copy_session :: "bytes \<Rightarrow> bytes \<Rightarrow> ffi_mem \<Rightarrow> (vc_error + unit) \<times> ffi_mem" where
  "copy_session sid out m =
     (case fm_len m of
        None \<Rightarrow> (Inl VcInvalidArgument, m)
      | Some n \<Rightarrow>
          if length out > n then (Inl VcInternal, m\<lparr>fm_len := Some (length out)\<rparr>)
          else (Inr (), m\<lparr>fm_raw := poke sid (fm_raw m), fm_buf := poke out (fm_buf m), fm_len := Some (length out)\<rparr>))"

definition vc_establish_outbound :: "crypto \<Rightarrow> (nat \<Rightarrow> rng) \<Rightarrow> vc_handle \<Rightarrow> bytes option \<Rightarrow> nat \<Rightarrow> bytes option \<Rightarrow> nat \<Rightarrow>
    bytes option \<Rightarrow> nat \<Rightarrow> bytes option \<Rightarrow> nat \<Rightarrow> ffi_mem \<Rightarrow> ffi_result" where
  "vc_establish_outbound C rs h bundle bundle_len conversation conversation_len first_pt first_pt_len ad ad_len m =
     (if fm_raw m = None then Some (Inl VcInvalidArgument, m)
      else
        pbind (Some (ffi_read_bytes bundle bundle_len, m)) (\<lambda>bundle_bytes m.
        pbind (Some (ffi_read_bytes conversation conversation_len, m)) (\<lambda>conv m.
        pbind (Some (ffi_read_bytes first_pt first_pt_len, m)) (\<lambda>pt m.
        pbind (Some (ffi_read_bytes ad ad_len, m)) (\<lambda>aad m.
        pbind (Some (packet_bound first_pt_len, m)) (\<lambda>bound m.
        pbind (ask_buffer bound m) (\<lambda>_ m.
        pbind (Some (case bundle_decode C bundle_bytes of Inl _ \<Rightarrow> Inl VcCryptoFailure | Inr b \<Rightarrow> Inr b, m)) (\<lambda>parsed m.
        pbind (Some (lock_engine h m, m)) (\<lambda>g m.
        pbind (on_engine h m (establish_outbound_session C rs g parsed conv pt aad)) (\<lambda>(sid, packet) m.
          Some (copy_session sid (packet_encode packet) m)))))))))))"

definition vc_process_inbound :: "crypto \<Rightarrow> (nat \<Rightarrow> rng) \<Rightarrow> vc_handle \<Rightarrow> bytes option \<Rightarrow> nat \<Rightarrow> bytes option \<Rightarrow> nat \<Rightarrow>
    bytes option \<Rightarrow> nat \<Rightarrow> ffi_mem \<Rightarrow> ffi_result" where
  "vc_process_inbound C rs h packet packet_len conversation conversation_len ad ad_len m =
     (if fm_raw m = None then Some (Inl VcInvalidArgument, m)
      else
        pbind (Some (ffi_read_bytes packet packet_len, m)) (\<lambda>pkt_bytes m.
        pbind (Some (ffi_read_bytes conversation conversation_len, m)) (\<lambda>conv m.
        pbind (Some (ffi_read_bytes ad ad_len, m)) (\<lambda>aad m.
        pbind (ask_buffer 4096 m) (\<lambda>_ m.
        pbind (Some (vc_res (packet_decode pkt_bytes), m)) (\<lambda>parsed m.
        pbind (Some (lock_engine h m, m)) (\<lambda>g m.
        pbind (on_engine h m (process_inbound_session C rs g parsed conv aad)) (\<lambda>(sid, pt) m.
          Some (copy_session sid pt m)))))))))"

definition vc_encrypt :: "crypto \<Rightarrow> rng \<Rightarrow> vc_handle \<Rightarrow> bytes option \<Rightarrow> bytes option \<Rightarrow> nat \<Rightarrow> bytes option \<Rightarrow> nat \<Rightarrow>
    ffi_mem \<Rightarrow> ffi_result" where
  "vc_encrypt C r h session_id plaintext plaintext_len ad ad_len m =
     (case session_id of
        None \<Rightarrow> Some (Inl VcInvalidArgument, m)
      | Some sid_mem \<Rightarrow>
          let sid = take 16 sid_mem
          in pbind (Some (ffi_read_bytes plaintext plaintext_len, m)) (\<lambda>pt m.
             pbind (Some (ffi_read_bytes ad ad_len, m)) (\<lambda>aad m.
             pbind (Some (sealed_bound plaintext_len, m)) (\<lambda>bound m.
             pbind (ask_buffer bound m) (\<lambda>_ m.
             pbind (Some (lock_engine h m, m)) (\<lambda>g m.
             pbind (on_engine h m (engine_encrypt C r g sid pt aad)) (\<lambda>sealed m.
               Some (copy_out (sealed_encode sealed) m))))))))"

definition vc_decrypt :: "crypto \<Rightarrow> rng \<Rightarrow> vc_handle \<Rightarrow> bytes option \<Rightarrow> bytes option \<Rightarrow> nat \<Rightarrow> bytes option \<Rightarrow> nat \<Rightarrow>
    ffi_mem \<Rightarrow> ffi_result" where
  "vc_decrypt C r h session_id sealed sealed_len ad ad_len m =
     (case session_id of
        None \<Rightarrow> Some (Inl VcInvalidArgument, m)
      | Some sid_mem \<Rightarrow>
          let sid = take 16 sid_mem
          in pbind (Some (ffi_read_bytes sealed sealed_len, m)) (\<lambda>blob m.
             pbind (Some (ffi_read_bytes ad ad_len, m)) (\<lambda>aad m.
             pbind (ask_buffer 4096 m) (\<lambda>_ m.
             pbind (Some (vc_res (sealed_decode blob), m)) (\<lambda>parsed m.
             pbind (Some (lock_engine h m, m)) (\<lambda>g m.
             pbind (on_engine h m (engine_decrypt C r g sid parsed aad)) (\<lambda>pt m.
               Some (copy_out pt m))))))))"

subsection \<open>Fingerprints, deletion, version\<close>

definition optional_slice :: "bytes option \<Rightarrow> nat \<Rightarrow> bytes option" where
  "optional_slice ptr len = map_option (take len) ptr"

definition vc_fingerprint :: "crypto \<Rightarrow> bytes option \<Rightarrow> bytes option \<Rightarrow> bytes option \<Rightarrow> nat \<Rightarrow> bytes option \<Rightarrow> nat \<Rightarrow> ffi_mem \<Rightarrow> ffi_result" where
  "vc_fingerprint C public_a public_b device_a device_a_len device_b device_b_len m =
     (case (public_a, public_b, fm_raw m) of
        (Some mem_a, Some mem_b, Some _) \<Rightarrow>
          pbind (Some (case public_from_bytes (take 32 mem_a) of Inl _ \<Rightarrow> Inl VcCryptoFailure | Inr p \<Rightarrow> Inr p, m)) (\<lambda>a m.
          pbind (Some (case public_from_bytes (take 32 mem_b) of Inl _ \<Rightarrow> Inl VcCryptoFailure | Inr p \<Rightarrow> Inr p, m)) (\<lambda>b m.
            let fp = compute_fingerprint C \<lparr>im_key = a, im_device = optional_slice device_a device_a_len\<rparr>
                       \<lparr>im_key = b, im_device = optional_slice device_b device_b_len\<rparr>;
                m1 = m\<lparr>fm_raw := poke (fp_binary fp) (fm_raw m)\<rparr>
            in case (fm_buf m1, fm_len m1) of
                 (Some _, Some n) \<Rightarrow>
                   let digits = bstr (fp_numeric fp)
                   in if n < length digits
                      then Some (Inl VcInvalidArgument, m1\<lparr>fm_len := Some (length digits)\<rparr>)
                      else Some (Inr (), m1\<lparr>fm_buf := poke digits (fm_buf m1), fm_len := Some (length digits)\<rparr>)
               | _ \<Rightarrow> Some (Inr (), m1)))
      | _ \<Rightarrow> Some (Inl VcInvalidArgument, m))"

definition vc_delete_session :: "vc_handle \<Rightarrow> bytes option \<Rightarrow> ffi_mem \<Rightarrow> ffi_result" where
  "vc_delete_session h session_id m =
     (case session_id of
        None \<Rightarrow> Some (Inl VcInvalidArgument, m)
      | Some sid_mem \<Rightarrow>
          pbind (Some (lock_engine h m, m)) (\<lambda>g m.
            on_engine h m (Some (delete_session g (take 16 sid_mem)))))"

definition vc_protocol_version :: u16 where
  "vc_protocol_version = PROTOCOL_VERSION"

end
