(* ===== verification/VC_Engine_Codec.thy ===== *)
theory VC_Engine_Codec
  imports VC_Engine VC_Triple_Props
begin

text \<open>
  Wire formats and session blobs of the engine: sealed messages and initiation packets are canonical
  codecs, live ratchets and sessions are codecs on their well-formed states.
\<close>

subsection \<open>Sealed messages\<close>

definition sealed_wf :: "sealed_message \<Rightarrow> bool" where
  "sealed_wf m \<longleftrightarrow> length (sl_hint m) = 16 \<and> fits32 (sl_header m) \<and> fits32 (sl_ciphertext m)"

lemma take_vec_last [simp]: "fits32 b \<Longrightarrow> take_vec e (put_vec b) = Inr (b, [])"
  using take_vec_put [of b e "[]"] by simp

lemma length_magic [simp]:
  "length (bstr ''VCSEAL01'') = 8" "length (bstr ''VCINIT01'') = 8" "length (bstr ''VCSESS01'') = 8"
  by simp_all

lemma split_magic: "8 \<le> length d \<Longrightarrow> take 8 d = m \<Longrightarrow> d = m @ drop 8 d"
  by (metis append_take_drop_id)

interpretation slc: canonical_codec sealed_encode sealed_decode sealed_wf
proof unfold_locales
  fix m assume "sealed_wf m"
  then show "sealed_decode (sealed_encode m) = Inr m"
    by (simp add: sealed_decode_def sealed_encode_def sealed_wf_def len_simps)
next
  fix d m assume "sealed_decode d = Inr m"
  then obtain hint header ct where d: "take 8 d = bstr ''VCSEAL01''" "8 \<le> length d"
    "drop 8 d = hint @ put_vec header @ put_vec ct" "length hint = 16" "fits32 header" "fits32 ct"
    "m = \<lparr>sl_header = header, sl_ciphertext = ct, sl_hint = hint\<rparr>"
    by (auto simp: sealed_decode_def rd_simps split: if_splits)
  then have "d = bstr ''VCSEAL01'' @ hint @ put_vec header @ put_vec ct" using split_magic by metis
  then show "sealed_wf m \<and> sealed_encode m = d" using d by (simp add: sealed_wf_def sealed_encode_def)
qed

subsection \<open>Initiation packets\<close>

definition packet_wf :: "initiation_packet \<Rightarrow> bool" where
  "packet_wf p \<longleftrightarrow> length (ip_identity p) = 32 \<and> length (ip_ephemeral p) = 32 \<and> length (ip_kem p) < 2 ^ 16 \<and>
     sealed_wf (ip_first p) \<and> fits32 (sealed_encode (ip_first p))"

lemma take_opk_id_put [simp]: "take_opk_id ((case x of None \<Rightarrow> [0] | Some i \<Rightarrow> 1 # le_bytes 4 i) @ r) = Inr (x, r)"
  by (cases x) (simp_all add: take_opk_id_def)

lemma take_opk_id_iff [rd_simps]:
  "take_opk_id d = Inr (x, r) \<longleftrightarrow> d = (case x of None \<Rightarrow> [0] | Some i \<Rightarrow> 1 # le_bytes 4 i) @ r"
proof
  assume "take_opk_id d = Inr (x, r)"
  then show "d = (case x of None \<Rightarrow> [0] | Some i \<Rightarrow> 1 # le_bytes 4 i) @ r"
    by (auto simp: take_opk_id_def rd_simps split: if_splits)
qed simp

interpretation ipc: canonical_codec packet_encode packet_decode packet_wf
proof unfold_locales
  fix p assume p: "packet_wf p"
  have "(case ip_opk p of None \<Rightarrow> [0] | Some i \<Rightarrow> 1 # le_bytes 4 i) \<noteq> []" by (simp split: option.split)
  with p show "packet_decode (packet_encode p) = Inr p"
    using slc.roundtrip [of "ip_first p"]
    by (simp add: packet_decode_def packet_encode_def packet_wf_def len_simps)
next
  fix d p assume "packet_decode d = Inr p"
  then obtain ik ek n kem spk opk pq first m where d: "take 8 d = bstr ''VCINIT01''" "8 \<le> length d"
    "drop 8 d = ik @ ek @ le_bytes 2 n @ kem @ le_bytes 4 spk @
       (case opk of None \<Rightarrow> [0] | Some i \<Rightarrow> 1 # le_bytes 4 i) @ le_bytes 4 pq @ put_vec first"
    "length ik = 32" "length ek = 32" "length kem = unat (n :: u16)" "fits32 first" "sealed_decode first = Inr m"
    "p = \<lparr>ip_identity = ik, ip_ephemeral = ek, ip_kem = kem, ip_spk = spk, ip_opk = opk, ip_pq = pq, ip_first = m\<rparr>"
    by (auto simp: packet_decode_def rd_simps split: if_splits)
  have m: "sealed_wf m" "sealed_encode m = first" using slc.canonical [OF d(8)] by auto
  have "length kem < 2 ^ 16" using d(6) unsigned_less [of n] by simp
  moreover have "of_nat (length kem) = n" using d(6) by simp
  ultimately show "packet_wf p \<and> packet_encode p = d"
    using d m split_magic [OF d(2,1)] by (simp add: packet_wf_def packet_encode_def)
qed

subsection \<open>Live ratchets and sessions\<close>

fun live_wf :: "features \<Rightarrow> crypto \<Rightarrow> live_ratchet \<Rightarrow> bool" where
  "live_wf F C (LClassical s) \<longleftrightarrow> dr_wf C s \<and> max_skip s = DEFAULT_MAX_SKIP"
| "live_wf F C (LHybrid t) \<longleftrightarrow> hybrid F \<and> triple_wf C DEFAULT_MAX_SKIP t"
| "live_wf F C (LHeaderEncrypt s) \<longleftrightarrow> header_encrypt F \<and> he_wf C s \<and> e_max_skip s = DEFAULT_MAX_SKIP"

interpretation lvc: codec persist_blob "live_restore F C" "live_wf F C" for F C
proof unfold_locales
  fix l assume "live_wf F C l"
  then show "live_restore F C (persist_blob l) = Inr l"
    by (cases l) (simp_all add: live_restore_def drc.roundtrip hec.roundtrip tc.roundtrip)
qed

definition session_wf :: "features \<Rightarrow> crypto \<Rightarrow> bytes \<times> live_session \<Rightarrow> bool" where
  "session_wf F C x \<longleftrightarrow> (case x of (sid, s) \<Rightarrow> length sid = 16 \<and> length (ls_remote s) = 32 \<and> ls_remote s \<noteq> zeros32 \<and>
     fits32 (ls_conversation s) \<and> fits32 (ls_ad s) \<and> live_wf F C (ls_ratchet s) \<and> fits32 (persist_blob (ls_ratchet s)))"

text \<open>The identity tracker is not part of the blob; it is rebuilt from the trust store.\<close>

lemma decode_session_encode:
  assumes "session_wf F C (sid, s)"
  shows "decode_session F C (encode_session sid s) = Inr (sid, s\<lparr>ls_tracker := tracker_new\<rparr>)"
  using assms by (cases s) (simp add: decode_session_def encode_session_def session_wf_def lvc.roundtrip len_simps)

end
