(* ===== verification/VC_Engine_Props.thy ===== *)
theory VC_Engine_Props
  imports VC_Engine_Codec
begin

text \<open>
  Correctness of the engine: its invariant, atomicity of decryption, durability (what a successful
  operation leaves in memory is what a restart finds in the storage), replay protection and the
  consumption of one-time keys.
\<close>

subsection \<open>Storage transactions\<close>

definition idle_storage :: "memory_storage \<Rightarrow> bool" where
  "idle_storage sto \<longleftrightarrow> ms_ok sto \<and> ms_pending sto = None"

lemma ms_advance_epoch_frame:
  "ms_get (snd (ms_advance_epoch sto)) = ms_get sto" "idle_storage sto \<Longrightarrow> idle_storage (snd (ms_advance_epoch sto))"
  using ms_ok_ops(6) [of sto]
  by (auto simp: ms_advance_epoch_def ms_get_def [abs_def] idle_storage_def ms_pending_def split: option.split)

text \<open>A transaction of the engine always succeeds and makes exactly the written pairs visible.\<close>

lemma commit_pairs_ok:
  assumes "idle_storage (eg_storage g)"
  obtains sto where "commit_pairs g pairs = (Inr (), g\<lparr>eg_storage := sto\<rparr>)" "idle_storage sto"
    "ms_get sto = overlay pairs (ms_get (eg_storage g))"
proof -
  obtain t s1 s2 s3 where t: "ms_begin (eg_storage g) = (Inr t, s1)" "put_all ms_put t pairs s1 = (Inr (), s2)"
    "ms_commit s2 t = (Inr (), s3)" "ms_get s3 = overlay pairs (ms_get (eg_storage g))" "ms_pending s3 = None" "ms_ok s3"
    using mem.write_transaction [of "eg_storage g" pairs] assms by (metis idle_storage_def)
  show thesis
    by (rule that [of "snd (ms_advance_epoch s3)"])
       (use t ms_advance_epoch_frame [of s3] in \<open>simp_all add: commit_pairs_def idle_storage_def\<close>)
qed

subsection \<open>The invariant\<close>

definition device_keys :: "bytes set" where
  "device_keys = {KEY_IDENTITY, KEY_PREKEYS, KEY_REPLAY, KEY_TRUST}"

lemma key_neq [simp]:
  "KEY_IDENTITY \<noteq> KEY_PREKEYS" "KEY_IDENTITY \<noteq> KEY_REPLAY" "KEY_IDENTITY \<noteq> KEY_TRUST"
  "KEY_PREKEYS \<noteq> KEY_IDENTITY" "KEY_PREKEYS \<noteq> KEY_REPLAY" "KEY_PREKEYS \<noteq> KEY_TRUST"
  "KEY_REPLAY \<noteq> KEY_IDENTITY" "KEY_REPLAY \<noteq> KEY_PREKEYS" "KEY_REPLAY \<noteq> KEY_TRUST"
  "KEY_TRUST \<noteq> KEY_IDENTITY" "KEY_TRUST \<noteq> KEY_PREKEYS" "KEY_TRUST \<noteq> KEY_REPLAY"
  by (auto simp: KEY_IDENTITY_def KEY_PREKEYS_def KEY_REPLAY_def KEY_TRUST_def dest: arg_cong [of _ _ length])

lemma sid_not_key: "length sid = 16 \<Longrightarrow> sid \<notin> device_keys"
  by (auto simp: device_keys_def KEY_IDENTITY_def KEY_PREKEYS_def KEY_REPLAY_def KEY_TRUST_def)

definition engine_ok :: "crypto \<Rightarrow> engine \<Rightarrow> bool" where
  "engine_ok C g \<longleftrightarrow> length (eg_identity g) = 32 \<and> static_secret C (eg_identity g) = eg_identity g \<and>
     store_ok C (eg_identity g) (eg_prekeys g) \<and> hm_ok (eg_sessions g) \<and>
     (\<forall>sid. hm_get (eg_sessions g) sid \<noteq> None \<longrightarrow> length sid = 16) \<and>
     rc_ok (eg_replay g) \<and> trust_ok (eg_trust g) \<and> idle_storage (eg_storage g)"

text \<open>What the storage should hold under a key, and that it does, except for some keys.\<close>

definition expected :: "engine \<Rightarrow> bytes \<Rightarrow> bytes option" where
  "expected g k =
     (if k = KEY_IDENTITY then Some (identity_serialize (eg_identity g))
      else if k = KEY_PREKEYS then Some (store_serialize (eg_prekeys g))
      else if k = KEY_REPLAY then Some (replay_serialize (eg_replay g))
      else if k = KEY_TRUST then Some (trust_serialize (eg_trust g))
      else map_option (encode_session k) (hm_get (eg_sessions g) k))"

definition persisted_but :: "bytes set \<Rightarrow> engine \<Rightarrow> bool" where
  "persisted_but K g \<longleftrightarrow> (\<forall>k. k \<notin> K \<longrightarrow> ms_get (eg_storage g) k = expected g k)"

text \<open>An operation that wrote the keys \<open>K\<close>, and only those, from what is in memory.\<close>

definition wrote :: "bytes set \<Rightarrow> engine \<Rightarrow> engine \<Rightarrow> bool" where
  "wrote K g g' \<longleftrightarrow> (\<forall>k. ms_get (eg_storage g') k = (if k \<in> K then expected g' k else ms_get (eg_storage g) k))"

definition persisted :: "engine \<Rightarrow> bool" where
  "persisted g \<longleftrightarrow> persisted_but {} g"

lemma expected_simps [simp]:
  "expected g KEY_IDENTITY = Some (identity_serialize (eg_identity g))" "expected g KEY_PREKEYS = Some (store_serialize (eg_prekeys g))"
  "expected g KEY_REPLAY = Some (replay_serialize (eg_replay g))" "expected g KEY_TRUST = Some (trust_serialize (eg_trust g))"
  "expected (g\<lparr>eg_storage := sto\<rparr>) = expected g"
  by (simp_all add: expected_def fun_eq_iff)

lemma expected_session: "length sid = 16 \<Longrightarrow> expected g sid = map_option (encode_session sid) (hm_get (eg_sessions g) sid)"
  using sid_not_key [of sid] by (simp add: expected_def device_keys_def)

lemma overlay_expected:
  "\<forall>(k, v) \<in> set pairs. f k = Some v \<Longrightarrow> overlay pairs m k = (if k \<in> fst ` set pairs then f k else m k)"
proof (induction pairs arbitrary: m)
  case (Cons p ps)
  then show ?case by (cases p) auto
qed simp

lemma commit_engine:
  assumes "engine_ok C g" "\<forall>(k, v) \<in> set pairs. expected g k = Some v"
  obtains sto where "commit_pairs g pairs = (Inr (), g\<lparr>eg_storage := sto\<rparr>)" "engine_ok C (g\<lparr>eg_storage := sto\<rparr>)"
    "\<forall>K. persisted_but K g \<longrightarrow> K \<subseteq> fst ` set pairs \<longrightarrow> persisted (g\<lparr>eg_storage := sto\<rparr>)"
    "wrote (fst ` set pairs) g (g\<lparr>eg_storage := sto\<rparr>)"
proof -
  have "idle_storage (eg_storage g)" using assms(1) by (simp add: engine_ok_def)
  then obtain sto where st: "commit_pairs g pairs = (Inr (), g\<lparr>eg_storage := sto\<rparr>)" "idle_storage sto"
    "ms_get sto = overlay pairs (ms_get (eg_storage g))" by (rule commit_pairs_ok)
  have "persisted (g\<lparr>eg_storage := sto\<rparr>)" if "persisted_but K g" "K \<subseteq> fst ` set pairs" for K
    using that st(3) overlay_expected [OF assms(2)] by (auto simp: persisted_def persisted_but_def)
  moreover have "wrote (fst ` set pairs) g (g\<lparr>eg_storage := sto\<rparr>)"
    using st(3) overlay_expected [OF assms(2)] by (simp add: wrote_def)
  ultimately show thesis using that st assms(1) by (simp add: engine_ok_def)
qed

lemma persist_device_result:
  assumes "engine_ok C g"
  obtains sto where "persist_device_state g = (Inr (), g\<lparr>eg_storage := sto\<rparr>)" "engine_ok C (g\<lparr>eg_storage := sto\<rparr>)"
    "\<forall>K. persisted_but K g \<longrightarrow> K \<subseteq> device_keys \<longrightarrow> persisted (g\<lparr>eg_storage := sto\<rparr>)"
    "wrote device_keys g (g\<lparr>eg_storage := sto\<rparr>)"
proof -
  have e: "\<forall>(k, v) \<in> set [(KEY_IDENTITY, identity_serialize (eg_identity g)), (KEY_PREKEYS, store_serialize (eg_prekeys g)),
      (KEY_REPLAY, replay_serialize (eg_replay g)), (KEY_TRUST, trust_serialize (eg_trust g))]. expected g k = Some v"
    by simp
  show thesis
    by (rule commit_engine [OF assms e], rule that) (auto simp: persist_device_state_def device_keys_def)
qed

lemma persist_aux_result:
  assumes "engine_ok C g" "hm_get (eg_sessions g) sid = Some sess"
  obtains sto where "persist_session_aux g sid = (Inr (), g\<lparr>eg_storage := sto\<rparr>)" "engine_ok C (g\<lparr>eg_storage := sto\<rparr>)"
    "\<forall>K. persisted_but K g \<longrightarrow> K \<subseteq> {sid, KEY_REPLAY, KEY_TRUST} \<longrightarrow> persisted (g\<lparr>eg_storage := sto\<rparr>)"
    "wrote {sid, KEY_REPLAY, KEY_TRUST} g (g\<lparr>eg_storage := sto\<rparr>)"
proof -
  have "length sid = 16" using assms by (simp add: engine_ok_def)
  then have e: "\<forall>(k, v) \<in> set [(sid, encode_session sid sess), (KEY_REPLAY, replay_serialize (eg_replay g)),
      (KEY_TRUST, trust_serialize (eg_trust g))]. expected g k = Some v"
    using assms(2) expected_session by simp
  show thesis
    by (rule commit_engine [OF assms(1) e]) (use assms(2) in \<open>auto simp: persist_session_aux_def intro: that\<close>)
qed

lemma persist_handshake_result:
  assumes "engine_ok C g" "hm_get (eg_sessions g) sid = Some sess"
  obtains sto where "persist_handshake g sid = (Inr (), g\<lparr>eg_storage := sto\<rparr>)" "engine_ok C (g\<lparr>eg_storage := sto\<rparr>)"
    "\<forall>K. persisted_but K g \<longrightarrow> K \<subseteq> insert sid device_keys \<longrightarrow> persisted (g\<lparr>eg_storage := sto\<rparr>)"
    "wrote (insert sid device_keys) g (g\<lparr>eg_storage := sto\<rparr>)"
proof -
  have "length sid = 16" using assms by (simp add: engine_ok_def)
  then have e: "\<forall>(k, v) \<in> set [(KEY_IDENTITY, identity_serialize (eg_identity g)), (KEY_PREKEYS, store_serialize (eg_prekeys g)),
      (sid, encode_session sid sess), (KEY_REPLAY, replay_serialize (eg_replay g)), (KEY_TRUST, trust_serialize (eg_trust g))].
      expected g k = Some v"
    using assms(2) expected_session by simp
  show thesis
    by (rule commit_engine [OF assms(1) e], rule that) (use assms(2) in \<open>auto simp: persist_handshake_def device_keys_def insert_commute\<close>)
qed

subsection \<open>Updates that keep the invariant\<close>

lemma engine_ok_replay: "engine_ok C g \<Longrightarrow> engine_ok C (g\<lparr>eg_replay := snd (check_and_insert (eg_replay g) k)\<rparr>)"
  using check_and_insert_window(4) [of "eg_replay g" k] by (simp add: engine_ok_def)

lemma engine_ok_session:
  "engine_ok C g \<Longrightarrow> length sid = 16 \<Longrightarrow> engine_ok C (g\<lparr>eg_sessions := hm_insert (eg_sessions g) sid sess\<rparr>)"
  by (simp add: engine_ok_def)

lemma engine_ok_sid: "engine_ok C g \<Longrightarrow> hm_get (eg_sessions g) sid = Some sess \<Longrightarrow> length sid = 16"
  by (simp add: engine_ok_def)

lemma engine_ok_ratchet:
  "engine_ok C g \<Longrightarrow> hm_get (eg_sessions g) sid = Some sess \<Longrightarrow> engine_ok C (set_ratchet g sid sess l)"
  unfolding set_ratchet_def by (intro engine_ok_session engine_ok_sid)

lemma engine_ok_trust: "engine_ok C g \<Longrightarrow> engine_ok C (g\<lparr>eg_trust := trust_apply op (eg_trust g)\<rparr>)"
  by (simp add: engine_ok_def trust_apply_ok)

lemmas engine_ok_seen = engine_ok_trust [where op = "Seen m" for m, simplified]

lemma engine_ok_drop: "engine_ok C g \<Longrightarrow> engine_ok C (drop_session g sid)"
  by (simp add: engine_ok_def drop_session_def)

lemma engine_ok_prekeys: "engine_ok C g \<Longrightarrow> store_ok C (eg_identity g) ps \<Longrightarrow> engine_ok C (g\<lparr>eg_prekeys := ps\<rparr>)"
  by (simp add: engine_ok_def)

text \<open>An update of the components persisted under \<open>K\<close> leaves the others as they are stored.\<close>

lemma persisted_but_mono: "persisted_but K g \<Longrightarrow> K \<subseteq> K' \<Longrightarrow> persisted_but K' g"
  by (auto simp: persisted_but_def)

lemma persisted_but_fields:
  assumes "persisted_but K g"
  shows "persisted_but (insert KEY_REPLAY K) (g\<lparr>eg_replay := c\<rparr>)"
    and "persisted_but (insert KEY_TRUST K) (g\<lparr>eg_trust := t\<rparr>)"
    and "persisted_but (insert KEY_PREKEYS K) (g\<lparr>eg_prekeys := ps\<rparr>)"
    and "persisted_but (insert sid K) (g\<lparr>eg_sessions := hm_insert (eg_sessions g) sid sess\<rparr>)"
  using assms by (simp_all add: persisted_but_def expected_def)

subsection \<open>Decryption\<close>

text \<open>Decryption in memory either changes nothing or delivers a plaintext, advances the ratchet and
  records the message.\<close>

definition after_delivery :: "engine \<Rightarrow> bytes \<Rightarrow> live_session \<Rightarrow> live_ratchet \<Rightarrow> sealed_message \<Rightarrow> engine" where
  "after_delivery g sid sess l m = (set_ratchet g sid sess l)\<lparr>eg_replay :=
     snd (check_and_insert (eg_replay g) (replay_key_of sid m (ls_conversation sess) (eg_device g)))\<rparr>"

lemma set_ratchet_frame [simp]:
  "eg_replay (set_ratchet g sid sess l) = eg_replay g" "eg_device (set_ratchet g sid sess l) = eg_device g"
  "eg_storage (set_ratchet g sid sess l) = eg_storage g" "eg_trust (set_ratchet g sid sess l) = eg_trust g"
  "eg_prekeys (set_ratchet g sid sess l) = eg_prekeys g" "eg_identity (set_ratchet g sid sess l) = eg_identity g"
  "hm_get (eg_sessions (set_ratchet g sid sess l)) sid' =
     (if sid' = sid then Some (sess\<lparr>ls_ratchet := l\<rparr>) else hm_get (eg_sessions g) sid')"
  by (simp_all add: set_ratchet_def)

lemma after_delivery_frame [simp]:
  "eg_device (after_delivery g sid sess l m) = eg_device g" "eg_storage (after_delivery g sid sess l m) = eg_storage g"
  "eg_trust (after_delivery g sid sess l m) = eg_trust g" "eg_prekeys (after_delivery g sid sess l m) = eg_prekeys g"
  "eg_identity (after_delivery g sid sess l m) = eg_identity g"
  "hm_get (eg_sessions (after_delivery g sid sess l m)) sid' =
     (if sid' = sid then Some (sess\<lparr>ls_ratchet := l\<rparr>) else hm_get (eg_sessions g) sid')"
  by (simp_all add: after_delivery_def)

lemma after_delivery_ok:
  assumes "engine_ok C g" "hm_get (eg_sessions g) sid = Some sess"
  shows "engine_ok C (after_delivery g sid sess l m)"
  using engine_ok_replay [OF engine_ok_ratchet [OF assms]] by (simp add: after_delivery_def)

lemma after_delivery_but:
  assumes "persisted_but K g"
  shows "persisted_but (insert KEY_REPLAY (insert sid K)) (after_delivery g sid sess l m)"
  unfolding after_delivery_def set_ratchet_def by (rule persisted_but_fields(1) [OF persisted_but_fields(4) [OF assms]])

lemma apply_decrypt_eq:
  assumes "engine_ok C g" "hm_get (eg_sessions g) sid = Some sess"
    and "\<not> replay_contains (eg_replay g) (replay_key_of sid m (ls_conversation sess) (eg_device g))"
  shows "apply_decrypt C r g sid m ad =
    (case live_decrypt C r (live_clone C (ls_ratchet sess)) (sl_header m) (sl_ciphertext m) (bound_ad sess ad) of
       None \<Rightarrow> None | Some (Inl e, _) \<Rightarrow> Some (Inl e, g) | Some (Inr pt, l) \<Rightarrow> Some (Inr pt, after_delivery g sid sess l m))"
proof -
  have rc: "rc_ok (eg_replay g)" using assms(1) by (simp add: engine_ok_def)
  have "fst (check_and_insert (eg_replay g) (replay_key_of sid m (ls_conversation sess) (eg_device g))) = Inr False"
    using check_and_insert_window(1) [OF rc] replay_contains_iff [OF rc] assms(3) by simp
  then show ?thesis
    using assms(2,3) by (auto simp: apply_decrypt_def after_delivery_def Let_def split: option.split sum.split prod.split)
qed

lemma apply_decrypt_cases:
  assumes "engine_ok C g" "apply_decrypt C r g sid m ad = Some (res, g')"
  obtains e where "res = Inl e" "g' = g"
  | sess l pt where "res = Inr pt" "hm_get (eg_sessions g) sid = Some sess"
    "\<not> replay_contains (eg_replay g) (replay_key_of sid m (ls_conversation sess) (eg_device g))"
    "live_decrypt C r (live_clone C (ls_ratchet sess)) (sl_header m) (sl_ciphertext m) (bound_ad sess ad) = Some (Inr pt, l)"
    "g' = after_delivery g sid sess l m"
proof (cases "hm_get (eg_sessions g) sid")
  case None
  then show thesis using assms(2) that(1) [of CeNoSession] by (simp add: apply_decrypt_def)
next
  case (Some sess)
  show thesis
  proof (cases "replay_contains (eg_replay g) (replay_key_of sid m (ls_conversation sess) (eg_device g))")
    case True
    then show thesis using assms(2) Some that(1) [of CeReplay] by (simp add: apply_decrypt_def)
  next
    case False
    note eq = assms(2) [unfolded apply_decrypt_eq [OF assms(1) Some False]]
    then obtain x l where x: "live_decrypt C r (live_clone C (ls_ratchet sess)) (sl_header m) (sl_ciphertext m)
        (bound_ad sess ad) = Some (x, l)" by (auto split: option.splits)
    show thesis
    proof (cases x)
      case (Inl e)
      show thesis by (rule that(1) [of e]) (use eq x Inl in simp_all)
    next
      case (Inr pt)
      show thesis by (rule that(2) [of pt sess l, OF _ Some False]) (use eq x Inr in simp_all)
    qed
  qed
qed

lemma engine_decrypt_cases:
  assumes "engine_ok C g" "engine_decrypt C r g sid m ad = Some (res, g')"
  obtains e where "res = Inl e" "g' = g"
  | sess l pt sto where "res = Inr pt" "hm_get (eg_sessions g) sid = Some sess"
    "\<not> replay_contains (eg_replay g) (replay_key_of sid m (ls_conversation sess) (eg_device g))"
    "live_decrypt C r (live_clone C (ls_ratchet sess)) (sl_header m) (sl_ciphertext m) (bound_ad sess ad) = Some (Inr pt, l)"
    "g' = (after_delivery g sid sess l m)\<lparr>eg_storage := sto\<rparr>" "engine_ok C g'" "persisted g \<Longrightarrow> persisted g'"
    "wrote {sid, KEY_REPLAY, KEY_TRUST} g g'"
proof -
  obtain res1 g1 where a: "apply_decrypt C r g sid m ad = Some (res1, g1)"
    using assms(2) by (cases "apply_decrypt C r g sid m ad") (auto simp: engine_decrypt_def)
  show thesis
  proof (rule apply_decrypt_cases [OF assms(1) a])
    fix e assume "res1 = Inl e" "g1 = g"
    then show thesis using assms(2) a that(1) [of e] by (simp add: engine_decrypt_def)
  next
    fix sess l pt
    assume d: "res1 = Inr pt" "hm_get (eg_sessions g) sid = Some sess"
      "\<not> replay_contains (eg_replay g) (replay_key_of sid m (ls_conversation sess) (eg_device g))"
      "live_decrypt C r (live_clone C (ls_ratchet sess)) (sl_header m) (sl_ciphertext m) (bound_ad sess ad) = Some (Inr pt, l)"
      "g1 = after_delivery g sid sess l m"
    have s: "hm_get (eg_sessions g1) sid = Some (sess\<lparr>ls_ratchet := l\<rparr>)" by (simp add: d(5))
    have ok: "engine_ok C g1" unfolding d(5) using assms(1) d(2) by (rule after_delivery_ok)
    have but: "persisted g \<Longrightarrow> persisted_but {KEY_REPLAY, sid} g1"
      unfolding d(5) using after_delivery_but [of "{}" g sid sess l m] by (simp add: persisted_def)
    show thesis
      by (rule persist_aux_result [OF ok s]) (use assms(2) a d but in \<open>auto simp: engine_decrypt_def wrote_def intro!: that(2)\<close>)
  qed
qed

subsection \<open>The other operations\<close>

text \<open>\<open>kept C g g'\<close>: the operation kept the invariant and retired no one-time key in reverse.\<close>

definition kept :: "crypto \<Rightarrow> engine \<Rightarrow> engine \<Rightarrow> bool" where
  "kept C g g' \<longleftrightarrow> engine_ok C g' \<and> eg_identity g' = eg_identity g \<and> retires (eg_prekeys g) (eg_prekeys g') \<and>
     (persisted g \<longrightarrow> persisted g')"

lemma kept_refl: "engine_ok C g \<Longrightarrow> kept C g g"
  by (simp add: kept_def)

lemma kept_trans: "kept C g g' \<Longrightarrow> kept C g' g'' \<Longrightarrow> kept C g g''"
  using retires_trans by (auto simp: kept_def)

lemma engine_decrypt_kept:
  assumes "engine_ok C g" "engine_decrypt C r g sid m ad = Some (res, g')"
  shows "kept C g g'"
  by (rule engine_decrypt_cases [OF assms]) (use assms(1) in \<open>simp_all add: kept_def\<close>)

lemma engine_encrypt_cases:
  assumes "engine_ok C g" "engine_encrypt C r g sid pt ad = Some (res, g')"
  obtains e where "res = Inl e" "g' = g"
  | sess l h ct sto where "res = Inr \<lparr>sl_header = h, sl_ciphertext = ct, sl_hint = sid\<rparr>"
    "hm_get (eg_sessions g) sid = Some sess"
    "live_encrypt C r (live_clone C (ls_ratchet sess)) pt (bound_ad sess ad) = Some (Inr (h, ct), l)"
    "g' = (set_ratchet g sid sess l)\<lparr>eg_storage := sto\<rparr>" "engine_ok C g'"
    "\<forall>K. persisted_but K g \<longrightarrow> K \<subseteq> {sid, KEY_REPLAY, KEY_TRUST} \<longrightarrow> persisted g'"
    "wrote {sid, KEY_REPLAY, KEY_TRUST} g g'"
proof (cases "hm_get (eg_sessions g) sid")
  case None
  then show thesis using assms(2) that(1) [of CeNoSession] by (simp add: engine_encrypt_def)
next
  case (Some sess)
  then obtain x l where x: "live_encrypt C r (live_clone C (ls_ratchet sess)) pt (bound_ad sess ad) = Some (x, l)"
    using assms(2) by (auto simp: engine_encrypt_def split: option.splits)
  show thesis
  proof (cases x)
    case (Inl e)
    show thesis by (rule that(1) [of e]) (use assms(2) Some x Inl in \<open>simp_all add: engine_encrypt_def\<close>)
  next
    case (Inr y)
    obtain h ct where y: "y = (h, ct)" by (cases y)
    let ?g = "set_ratchet g sid sess l"
    have ok: "engine_ok C ?g" using assms(1) Some by (rule engine_ok_ratchet)
    have s: "hm_get (eg_sessions ?g) sid = Some (sess\<lparr>ls_ratchet := l\<rparr>)" by simp
    have but: "persisted_but (insert sid K) ?g" if "persisted_but K g" for K
      unfolding set_ratchet_def using that by (rule persisted_but_fields(4))
    show thesis
    proof (rule persist_aux_result [OF ok s])
      fix sto
      assume p: "persist_session_aux ?g sid = (Inr (), ?g\<lparr>eg_storage := sto\<rparr>)" "engine_ok C (?g\<lparr>eg_storage := sto\<rparr>)"
        "\<forall>K. persisted_but K ?g \<longrightarrow> K \<subseteq> {sid, KEY_REPLAY, KEY_TRUST} \<longrightarrow> persisted (?g\<lparr>eg_storage := sto\<rparr>)"
        "wrote {sid, KEY_REPLAY, KEY_TRUST} ?g (?g\<lparr>eg_storage := sto\<rparr>)"
      have r: "res = Inr \<lparr>sl_header = h, sl_ciphertext = ct, sl_hint = sid\<rparr>" "g' = ?g\<lparr>eg_storage := sto\<rparr>"
        using assms(2) Some x Inr y p(1) by (simp_all add: engine_encrypt_def)
      show thesis
        by (rule that(2) [OF r(1) Some _ r(2)]) (use x Inr y p(2-4) but r(2) in \<open>auto simp: wrote_def\<close>)
    qed
  qed
qed

lemma engine_encrypt_kept:
  assumes "engine_ok C g" "engine_encrypt C r g sid pt ad = Some (res, g')"
  shows "kept C g g'"
  by (rule engine_encrypt_cases [OF assms]) (use assms(1) in \<open>auto simp: kept_def persisted_def\<close>)

lemma encrypt_voice_kept:
  "engine_ok C g \<Longrightarrow> encrypt_voice_payload C r g sid pt ad = Some (res, g') \<Longrightarrow> kept C g g'"
  by (auto simp: encrypt_voice_payload_def kept_refl split: if_splits intro: engine_encrypt_kept)

lemma generate_bundle_cases:
  assumes "prekey_laws C" "engine_ok C g" "generate_public_prekey_bundle C r g n = (res, g')"
  obtains "res = Inl CeLimitExceeded" "engine_ok C g'" "retires (eg_prekeys g) (eg_prekeys g')"
    "\<exists>ps. g' = g\<lparr>eg_prekeys := ps\<rparr>" "fst (replenish C (eg_identity g) n n (eg_prekeys g) r) = Inl LimitExceeded"
  | b where "res = Inr b" "kept C g g'" "store_public_bundle C (eg_identity g') (eg_prekeys g') = Inr b"
    "\<exists>ps sto r'. g' = g\<lparr>eg_prekeys := ps, eg_storage := sto\<rparr> \<and>
       replenish C (eg_identity g) n n (eg_prekeys g) r = (Inr (), ps, r')"
    "wrote device_keys g g'"
proof -
  obtain rs ps r' where rp: "replenish C (eg_identity g) n n (eg_prekeys g) r = (rs, ps, r')"
    by (cases "replenish C (eg_identity g) n n (eg_prekeys g) r")
  have so: "store_ok C (eg_identity g) (eg_prekeys g)" using assms(2) by (simp add: engine_ok_def)
  have r: "store_ok C (eg_identity g) ps" "retires (eg_prekeys g) ps" "rs = Inr () \<or> rs = Inl LimitExceeded"
    using replenish_ok(1) [OF assms(1) so rp] by (simp_all add: replenished_def)
  let ?g = "g\<lparr>eg_prekeys := ps\<rparr>"
  have ok: "engine_ok C ?g" using assms(2) r(1) by (rule engine_ok_prekeys)
  show thesis
  proof (cases "rs = Inr ()")
    case False
    with assms(3) rp r(3) have e: "res = Inl CeLimitExceeded" "g' = ?g" "rs = Inl LimitExceeded"
      by (auto simp: generate_public_prekey_bundle_def)
    show thesis by (rule that(1)) (use e rp r(2) ok in auto)
  next
    case True
    show thesis
    proof (rule persist_device_result [OF ok])
      fix sto
      assume p: "persist_device_state ?g = (Inr (), ?g\<lparr>eg_storage := sto\<rparr>)" "engine_ok C (?g\<lparr>eg_storage := sto\<rparr>)"
        "\<forall>K. persisted_but K ?g \<longrightarrow> K \<subseteq> device_keys \<longrightarrow> persisted (?g\<lparr>eg_storage := sto\<rparr>)"
        "wrote device_keys ?g (?g\<lparr>eg_storage := sto\<rparr>)"
      obtain b k where b: "store_public_bundle C (eg_identity g) ps = Inr b" using store_bundle [OF assms(1) r(1)] by metis
      have e: "res = Inr b" "g' = ?g\<lparr>eg_storage := sto\<rparr>"
        using assms(3) rp True p(1) b by (simp_all add: generate_public_prekey_bundle_def)
      have "persisted g'" if "persisted g"
        unfolding e(2) using persisted_but_fields(3) [of "{}" g ps] that
        by (intro p(3) [rule_format]) (auto simp: persisted_def device_keys_def)
      then have "kept C g g'" using p(2) r(2) e(2) by (simp add: kept_def)
      then show thesis by (rule that(2) [OF e(1)]) (use b e rp True p(4) in \<open>auto simp: wrote_def\<close>)
    qed
  qed
qed

subsection \<open>Opening sessions\<close>

definition opened :: "engine \<Rightarrow> bytes \<Rightarrow> bytes \<Rightarrow> live_ratchet \<Rightarrow> bytes \<Rightarrow> bytes \<Rightarrow> engine" where
  "opened g sid remote l conversation had =
     (let g1 = g\<lparr>eg_trust := record_seen (eg_trust g) \<lparr>im_key = remote, im_device = None\<rparr>\<rparr>
      in g1\<lparr>eg_sessions := hm_insert (eg_sessions g1) sid
           \<lparr>ls_ratchet = l, ls_remote = remote, ls_conversation = conversation,
            ls_tracker = tracker_for (eg_trust g1) remote, ls_ad = had\<rparr>\<rparr>)"

lemma opened_frame [simp]:
  "eg_replay (opened g sid k l c a) = eg_replay g" "eg_device (opened g sid k l c a) = eg_device g"
  "eg_prekeys (opened g sid k l c a) = eg_prekeys g" "eg_identity (opened g sid k l c a) = eg_identity g"
  "eg_storage (opened g sid k l c a) = eg_storage g"
  by (simp_all add: opened_def Let_def)

definition new_session :: "engine \<Rightarrow> bytes \<Rightarrow> live_ratchet \<Rightarrow> bytes \<Rightarrow> bytes \<Rightarrow> live_session" where
  "new_session g remote l conversation had =
     \<lparr>ls_ratchet = l, ls_remote = remote, ls_conversation = conversation,
      ls_tracker = tracker_for (record_seen (eg_trust g) \<lparr>im_key = remote, im_device = None\<rparr>) remote, ls_ad = had\<rparr>"

lemma new_session_simps [simp]:
  "ls_ratchet (new_session g k l c a) = l" "ls_remote (new_session g k l c a) = k"
  "ls_conversation (new_session g k l c a) = c" "ls_ad (new_session g k l c a) = a"
  by (simp_all add: new_session_def)

lemma opened_session [simp]:
  "hm_get (eg_sessions (opened g sid k l c a)) sid' =
     (if sid' = sid then Some (new_session g k l c a) else hm_get (eg_sessions g) sid')"
  by (simp add: opened_def new_session_def Let_def)

lemma opened_ok: "engine_ok C g \<Longrightarrow> length sid = 16 \<Longrightarrow> engine_ok C (opened g sid k l c a)"
  using engine_ok_session [OF engine_ok_seen] by (simp add: opened_def Let_def)

lemma opened_but: "persisted g \<Longrightarrow> persisted_but {sid, KEY_TRUST} (opened g sid k l c a)"
  unfolding opened_def Let_def persisted_def by (intro persisted_but_fields)

lemma session_id_len [simp]: "length (next_session_id r) = 16"
  by (simp add: next_session_id_def)

lemma outbound_cases:
  assumes "establish_outbound_session C rs g b conversation pt ad = Some (Inr (sid, p), g')"
  obtains ai l m where "bundle_validate C b = Inr ()" "fst (alice_initiate C (eg_identity g) b (rs 0)) = Inr ai"
    "init_alice_ratchet C (rs 1) (eg_profile g) (px_sk (ai_shared ai)) (pb_signed b) = Some (Inr l)"
    "sid = next_session_id (rs 2)"
    "engine_encrypt C (rs 3) (opened g sid (pb_identity b) l conversation (px_ad (ai_shared ai))) sid pt ad = Some (Inr m, g')"
    "p = \<lparr>ip_identity = identity_public C (eg_identity g'), ip_ephemeral = ai_ephemeral ai, ip_kem = ai_kem_ct ai,
      ip_spk = pb_signed_id b, ip_opk = ai_opk_id ai, ip_pq = ai_pq_id ai, ip_first = m\<rparr>"
  using assms by (auto simp: establish_outbound_session_def rd_simps Let_def opened_def)

lemma outbound_kept:
  assumes "engine_ok C g" "establish_outbound_session C rs g b conversation pt ad = Some (Inr x, g')"
  shows "kept C g g'"
proof -
  obtain sid p where x: "x = (sid, p)" by (cases x)
  obtain l a m where e: "engine_encrypt C (rs 3) (opened g sid (pb_identity b) l conversation a) sid pt ad = Some (Inr m, g')"
    "sid = next_session_id (rs 2)"
    by (rule outbound_cases [OF assms(2) [unfolded x]])
  have "engine_ok C (opened g sid (pb_identity b) l conversation a)" using assms(1) e(2) by (simp add: opened_ok)
  then show ?thesis
    by (rule engine_encrypt_cases [OF _ e(1)]) (use opened_but [of g sid "pb_identity b" l conversation a] in \<open>auto simp: kept_def dest: spec [of _ "{sid, KEY_TRUST}"]\<close>)
qed

lemma consume_used_cases:
  assumes "store_ok C (eg_identity g) (eg_prekeys g)" "consume_used g p = (Inr u, g')"
  obtains ps where "g' = g\<lparr>eg_prekeys := ps\<rparr>" "store_ok C (eg_identity g) ps" "retires (eg_prekeys g) ps"
    "\<forall>i. ip_opk p = Some i \<longrightarrow> (\<exists>k. peek_ec (eg_prekeys g) i = Inr k) \<and> hm_get (ps_ec ps) i = None"
    "ip_pq p \<noteq> pq_id (ps_last_resort (eg_prekeys g)) \<longrightarrow>
       (\<exists>k. peek_pq (eg_prekeys g) (ip_pq p) = Inr k) \<and> hm_get (ps_pq ps) (ip_pq p) = None"
    "ip_opk p = None \<longrightarrow> ip_pq p = pq_id (ps_last_resort (eg_prekeys g)) \<longrightarrow> ps = eg_prekeys g"
proof -
  let ?ps = "eg_prekeys g"
  define ps1 where "ps1 = (case ip_opk p of Some i \<Rightarrow> snd (consume_ec ?ps i) | None \<Rightarrow> ?ps)"
  define ps2 where "ps2 = (if ip_pq p \<noteq> pq_id (ps_last_resort ?ps) then snd (consume_pq ps1 (ip_pq p)) else ps1)"
  have f: "ps_last_resort ps1 = ps_last_resort ?ps" "ps_pq ps1 = ps_pq ?ps" "ps_ec ps2 = ps_ec ps1"
    by (simp_all add: ps1_def ps2_def consume_ec_def consume_pq_def split: option.split)
  have s1: "store_ok C (eg_identity g) ps1 \<and> retires ?ps ps1"
    using assms(1) consume_ok(1) [OF assms(1)] by (simp add: ps1_def split: option.split)
  then have s2: "store_ok C (eg_identity g) ps2 \<and> retires ?ps ps2"
    using consume_ok(2) [of C "eg_identity g" ps1 "ip_pq p"] retires_trans [of ?ps ps1 ps2] by (simp add: ps2_def)
  have e: "g' = g\<lparr>eg_prekeys := ps2\<rparr>" "\<forall>i. ip_opk p = Some i \<longrightarrow> (\<exists>k. peek_ec ?ps i = Inr k) \<and> hm_get (ps_ec ps1) i = None"
    "ip_pq p \<noteq> pq_id (ps_last_resort ?ps) \<longrightarrow> (\<exists>k. peek_pq ps1 (ip_pq p) = Inr k) \<and> hm_get (ps_pq ps2) (ip_pq p) = None"
    using assms(2) f(1)
    by (auto simp: consume_used_def rd_simps ps1_def ps2_def consume_ec_def consume_pq_def peek_ec_def peek_pq_def
        split: option.splits if_splits prod.splits)
  show thesis
    by (rule that [OF e(1)]) (use s2 e(2,3) f(2,3) in \<open>auto simp: peek_pq_def ps1_def ps2_def\<close>)
qed

text \<open>What an accepted initiation did.\<close>

definition accepted :: "crypto \<Rightarrow> (nat \<Rightarrow> rng) \<Rightarrow> engine \<Rightarrow> initiation_packet \<Rightarrow> bytes \<Rightarrow> bytes \<Rightarrow>
    bytes \<Rightarrow> pqxdh_shared \<Rightarrow> live_ratchet \<Rightarrow> live_ratchet \<Rightarrow> bytes \<Rightarrow> bool" where
  "accepted C rs g p conversation ad sid sh l0 l pt \<longleftrightarrow>
     public_from_bytes (ip_identity p) = Inr (ip_identity p) \<and> public_from_bytes (ip_ephemeral p) = Inr (ip_ephemeral p) \<and>
     inbound_shared C g p (ip_identity p) (ip_ephemeral p) = Inr sh \<and>
     init_bob_ratchet C (eg_profile g) (px_sk sh) (secret_from_bytes C (sp_secret (ps_signed (eg_prekeys g)))) = Some (Inr l0) \<and>
     sid = next_session_id (rs 0) \<and>
     \<not> replay_contains (eg_replay g) (replay_key_of sid (ip_first p) conversation (eg_device g)) \<and>
     live_decrypt C (rs 1) (live_clone C l0) (sl_header (ip_first p)) (sl_ciphertext (ip_first p))
       (put_vec (px_ad sh) @ put_vec conversation @ ad) = Some (Inr pt, l)"

lemma public_from_bytes_same: "public_from_bytes b = Inr x \<Longrightarrow> x = b"
  by (simp add: public_from_bytes_def split: if_splits)

text \<open>The engine after an accepted initiation that leaves the prekeys \<open>ps\<close>.\<close>

definition joined :: "engine \<Rightarrow> initiation_packet \<Rightarrow> bytes \<Rightarrow> bytes \<Rightarrow> pqxdh_shared \<Rightarrow> live_ratchet \<Rightarrow> live_ratchet \<Rightarrow>
    prekey_store \<Rightarrow> engine" where
  "joined g p conversation sid sh l0 l ps =
     (after_delivery (opened g sid (ip_identity p) l0 conversation (px_ad sh)) sid
        (new_session g (ip_identity p) l0 conversation (px_ad sh)) l (ip_first p))\<lparr>eg_prekeys := ps\<rparr>"

lemma joined_ok:
  assumes "engine_ok C g" "length sid = 16" "store_ok C (eg_identity g) ps"
  shows "engine_ok C (joined g p conversation sid sh l0 l ps)"
  unfolding joined_def
  by (intro engine_ok_prekeys after_delivery_ok opened_ok assms) (use assms in simp_all)

lemma joined_frame [simp]:
  "eg_storage (joined g p c sid sh l0 l ps) = eg_storage g"
  "eg_prekeys (joined g p c sid sh l0 l ps) = ps" "eg_identity (joined g p c sid sh l0 l ps) = eg_identity g"
  "hm_get (eg_sessions (joined g p c sid sh l0 l ps)) sid =
     Some ((new_session g (ip_identity p) l0 c (px_ad sh))\<lparr>ls_ratchet := l\<rparr>)"
  by (simp_all add: joined_def)

lemma joined_but:
  "persisted g \<Longrightarrow> persisted_but (insert sid device_keys) (joined g p conversation sid sh l0 l ps)"
  unfolding joined_def
  by (rule persisted_but_mono, rule persisted_but_fields(3), rule after_delivery_but, rule opened_but) (auto simp: device_keys_def)

lemma inbound_cases:
  assumes "engine_ok C g" "process_inbound_session C rs g p conversation ad = Some (Inr (sid, pt), g')"
  obtains sh l0 l ps sto where "accepted C rs g p conversation ad sid sh l0 l pt"
    "g' = (joined g p conversation sid sh l0 l ps)\<lparr>eg_storage := sto\<rparr>" "kept C g g'"
    "\<forall>i. ip_opk p = Some i \<longrightarrow> (\<exists>k. peek_ec (eg_prekeys g) i = Inr k) \<and> hm_get (ps_ec ps) i = None"
    "ip_pq p \<noteq> pq_id (ps_last_resort (eg_prekeys g)) \<longrightarrow>
       (\<exists>k. peek_pq (eg_prekeys g) (ip_pq p) = Inr k) \<and> hm_get (ps_pq ps) (ip_pq p) = None"
    "ip_opk p = None \<longrightarrow> ip_pq p = pq_id (ps_last_resort (eg_prekeys g)) \<longrightarrow> ps = eg_prekeys g"
    "wrote (insert sid device_keys) g g'"
proof -
  obtain ik ek sh l0 g2 where a: "public_from_bytes (ip_identity p) = Inr ik" "public_from_bytes (ip_ephemeral p) = Inr ek"
    "inbound_shared C g p ik ek = Inr sh"
    "init_bob_ratchet C (eg_profile g) (px_sk sh) (secret_from_bytes C (sp_secret (ps_signed (eg_prekeys g)))) = Some (Inr l0)"
    "g2 = opened g (next_session_id (rs 0)) ik l0 conversation (px_ad sh)"
    "(case apply_decrypt C (rs 1) g2 (next_session_id (rs 0)) (ip_first p) ad of
            None \<Rightarrow> None
          | Some (Inl e, g) \<Rightarrow> Some (Inl e, drop_session g (next_session_id (rs 0)))
          | Some (Inr plaintext, g) \<Rightarrow>
              pbind (Some (consume_used g p)) (\<lambda>_ g.
                case persist_handshake g (next_session_id (rs 0)) of
                  (Inl e, g) \<Rightarrow> Some (Inl e, drop_session g (next_session_id (rs 0)))
                | (Inr _, g) \<Rightarrow> Some (Inr (next_session_id (rs 0), plaintext), g))) = Some (Inr (sid, pt), g')"
    using assms(2) by (auto simp: process_inbound_session_def rd_simps Let_def opened_def)
  let ?sid = "next_session_id (rs 0)"
  from a(6) obtain x g3 where x: "apply_decrypt C (rs 1) g2 ?sid (ip_first p) ad = Some (Inr x, g3)"
    "pbind (Some (consume_used g3 p)) (\<lambda>_ g. case persist_handshake g ?sid of
        (Inl e, g) \<Rightarrow> Some (Inl e, drop_session g ?sid) | (Inr _, g) \<Rightarrow> Some (Inr (?sid, x), g)) = Some (Inr (sid, pt), g')"
    by (auto split: option.splits sum.splits)
  from x(2) obtain g4 where "consume_used g3 p = (Inr (), g4)"
    "(case persist_handshake g4 ?sid of (Inl e, g) \<Rightarrow> Some (Inl e, drop_session g ?sid) | (Inr _, g) \<Rightarrow> Some (Inr (?sid, x), g)) =
       Some (Inr (sid, pt), g')"
    by (auto simp: pbind_Inr_iff)
  with x(1) have b: "apply_decrypt C (rs 1) g2 sid (ip_first p) ad = Some (Inr pt, g3)" "sid = next_session_id (rs 0)"
    "consume_used g3 p = (Inr (), g4)" "persist_handshake g4 sid = (Inr (), g')"
    by (auto split: sum.splits prod.splits)
  have k: "ik = ip_identity p" "ek = ip_ephemeral p" using a(1,2) public_from_bytes_same by auto
  have ok2: "engine_ok C g2" unfolding a(5) using assms(1) by (simp add: opened_ok)
  obtain l where l: "g3 = after_delivery g2 sid (new_session g ik l0 conversation (px_ad sh)) l (ip_first p)"
    "accepted C rs g p conversation ad sid sh l0 l pt"
    by (rule apply_decrypt_cases [OF ok2 b(1)]) (use a b(2) k in \<open>auto simp: accepted_def bound_ad_def\<close>)
  have f3: "eg_prekeys g3 = eg_prekeys g" "eg_identity g3 = eg_identity g" by (simp_all add: l(1) a(5))
  have so: "store_ok C (eg_identity g3) (eg_prekeys g3)" using assms(1) by (simp add: f3 engine_ok_def)
  obtain ps where c: "g4 = g3\<lparr>eg_prekeys := ps\<rparr>" "store_ok C (eg_identity g) ps" "retires (eg_prekeys g) ps"
    "\<forall>i. ip_opk p = Some i \<longrightarrow> (\<exists>k. peek_ec (eg_prekeys g) i = Inr k) \<and> hm_get (ps_ec ps) i = None"
    "ip_pq p \<noteq> pq_id (ps_last_resort (eg_prekeys g)) \<longrightarrow>
       (\<exists>k. peek_pq (eg_prekeys g) (ip_pq p) = Inr k) \<and> hm_get (ps_pq ps) (ip_pq p) = None"
    "ip_opk p = None \<longrightarrow> ip_pq p = pq_id (ps_last_resort (eg_prekeys g)) \<longrightarrow> ps = eg_prekeys g"
    by (rule consume_used_cases [OF so b(3), unfolded f3])
  have j: "g4 = joined g p conversation sid sh l0 l ps" by (simp add: c(1) l(1) a(5) joined_def k b(2))
  have ok4: "engine_ok C g4" unfolding j using assms(1) c(2) b(2) by (simp add: joined_ok)
  obtain sess where s4: "hm_get (eg_sessions g4) sid = Some sess" unfolding j by simp
  obtain sto where t: "persist_handshake g4 sid = (Inr (), g4\<lparr>eg_storage := sto\<rparr>)" "engine_ok C (g4\<lparr>eg_storage := sto\<rparr>)"
    "\<forall>K. persisted_but K g4 \<longrightarrow> K \<subseteq> insert sid device_keys \<longrightarrow> persisted (g4\<lparr>eg_storage := sto\<rparr>)"
    "wrote (insert sid device_keys) g4 (g4\<lparr>eg_storage := sto\<rparr>)"
    by (rule persist_handshake_result [OF ok4 s4])
  have g': "g' = g4\<lparr>eg_storage := sto\<rparr>" using b(4) t(1) by simp
  have "persisted g \<longrightarrow> persisted g'" unfolding g' using t(3) joined_but [of g sid p conversation sh l0 l ps] j by blast
  then have kp: "kept C g g'" unfolding kept_def using t(2) c(3) g' by (simp add: j)
  show thesis by (rule that [OF l(2) _ kp c(4-6)]) (use t(4) in \<open>simp_all add: g' j wrote_def\<close>)
qed

subsection \<open>Trust and deletion\<close>

lemma hm_get_map: "hm_get (map (\<lambda>(k, v). (k, f k v)) m) k = map_option (f k) (hm_get m k)"
  by (induction m) (auto simp: hm_get_Cons)

lemma hm_ok_map: "hm_ok (map (\<lambda>(k, v). (k, f k v)) m) = hm_ok m"
  by (induction m) (auto simp: hm_ok_Cons hm_get_map)

lemma encode_session_tracker [simp]: "encode_session k (s\<lparr>ls_tracker := t\<rparr>) = encode_session k s"
  by (simp add: encode_session_def)

lemma acknowledge_cases:
  assumes "engine_ok C g" "acknowledge_identity_change g remote device = (res, g')"
  obtains e where "res = Inl e" "g' = g" | "res = Inr ()" "kept C g g'" "wrote device_keys g g'"
proof (cases "public_from_bytes remote")
  case (Inl e)
  show thesis by (rule that(1) [of "from_prim e"]) (use assms(2) Inl in \<open>simp_all add: acknowledge_identity_change_def\<close>)
next
  case (Inr ik)
  define mat where "mat = \<lparr>im_key = ik, im_device = device\<rparr>"
  define f where "f = (\<lambda>(k :: bytes) (sess :: live_session). if ls_remote sess = ik \<or> is_changed (tracker_observe (ls_tracker sess) mat)
    then sess\<lparr>ls_tracker := tracker_acknowledge (ls_tracker sess) mat\<rparr> else sess)"
  define g1 where "g1 = g\<lparr>eg_sessions := map (\<lambda>(k, v). (k, f k v)) (eg_sessions g)\<rparr>"
  let ?g = "g1\<lparr>eg_trust := trust_apply (Ack mat 0 VerSafetyNumber) (eg_trust g1)\<rparr>"
  have a: "persist_device_state ?g = (res, g')"
    using assms(2) Inr unfolding g1_def f_def mat_def by (simp add: acknowledge_identity_change_def Let_def)
  have "engine_ok C g1" using assms(1) by (auto simp: g1_def engine_ok_def hm_get_map hm_ok_map)
  then have ok: "engine_ok C ?g" by (rule engine_ok_trust)
  have "encode_session k (f k sess) = encode_session k sess" for k sess by (simp add: f_def)
  then have "expected g1 k = expected g k" for k
    by (simp add: expected_def g1_def hm_get_map option.map_comp comp_def)
  then have "persisted_but {} g1" if "persisted g" using that by (simp add: persisted_def persisted_but_def g1_def)
  then have but: "persisted_but {KEY_TRUST} ?g" if "persisted g" using that by (intro persisted_but_fields)
  show thesis
  proof (rule persist_device_result [OF ok])
    fix sto
    assume p: "persist_device_state ?g = (Inr (), ?g\<lparr>eg_storage := sto\<rparr>)" "engine_ok C (?g\<lparr>eg_storage := sto\<rparr>)"
      "\<forall>K. persisted_but K ?g \<longrightarrow> K \<subseteq> device_keys \<longrightarrow> persisted (?g\<lparr>eg_storage := sto\<rparr>)"
      "wrote device_keys ?g (?g\<lparr>eg_storage := sto\<rparr>)"
    have r: "res = Inr ()" "g' = ?g\<lparr>eg_storage := sto\<rparr>" using a p(1) by simp_all
    show thesis
      by (rule that(2) [OF r(1)]) (use r(2) p(2-4) but in \<open>auto simp: kept_def g1_def device_keys_def wrote_def\<close>)
  qed
qed

lemma acknowledge_kept:
  assumes "engine_ok C g" "acknowledge_identity_change g remote device = (res, g')"
  shows "kept C g g'"
  by (rule acknowledge_cases [OF assms]) (use kept_refl [OF assms(1)] in simp_all)

lemma delete_transaction:
  assumes "idle_storage sto"
  obtains t s1 s2 where "ms_begin sto = (Inr t, s1)" "idle_storage (snd (ms_commit (snd (ms_delete s1 t k)) t))"
    "ms_get (snd (ms_commit (snd (ms_delete s1 t k)) t)) = (ms_get sto)(k := None)"
proof -
  obtain t s1 where a: "ms_begin sto = (Inr t, s1)" "ms_ok s1" "ms_get s1 = ms_get sto" "ms_pending s1 = Some (t, Map.empty)"
    using mem.begin_free [of sto] assms by (auto simp: idle_storage_def)
  obtain s2 where b: "ms_delete s1 t k = (Inr (), s2)" "ms_ok s2" "ms_get s2 = ms_get s1" "ms_pending s2 = Some (t, [k \<mapsto> None])"
    using mem.delete_open [OF a(2,4)] by blast
  obtain s3 where "ms_commit s2 t = (Inr (), s3)" "ms_ok s3" "ms_pending s3 = None"
    "ms_get s3 = (\<lambda>k'. case [k \<mapsto> None] k' of None \<Rightarrow> ms_get s2 k' | Some x \<Rightarrow> x)"
    using mem.commit_open [OF b(2,4)] by blast
  then show thesis using that [OF a(1)] a(3) b(1,3) by (simp add: idle_storage_def fun_eq_iff)
qed

lemma delete_session_result:
  assumes "engine_ok C g" "delete_session g sid = (res, g')"
  shows "kept C g g' \<and> hm_get (eg_sessions g') sid = None \<and>
    (if isl res then g' = g else eg_prekeys g' = eg_prekeys g \<and> ms_get (eg_storage g') = (ms_get (eg_storage g))(sid := None) \<and> length sid = 16)"
proof (cases "hm_get (eg_sessions g) sid")
  case None
  then show ?thesis using assms by (auto simp: delete_session_def kept_refl)
next
  case (Some sess)
  have i: "idle_storage (eg_storage g)" using assms(1) by (simp add: engine_ok_def)
  obtain t s1 where t: "ms_begin (eg_storage g) = (Inr t, s1)"
    "idle_storage (snd (ms_commit (snd (ms_delete s1 t sid)) t))"
    "ms_get (snd (ms_commit (snd (ms_delete s1 t sid)) t)) = (ms_get (eg_storage g))(sid := None)"
    by (rule delete_transaction [OF i])
  let ?sto = "snd (ms_commit (snd (ms_delete s1 t sid)) t)"
  have g': "g' = (drop_session g sid)\<lparr>eg_storage := ?sto\<rparr>" and r: "res = Inr ()"
    using assms(2) Some t(1) by (simp_all add: delete_session_def Let_def drop_session_def)
  have "sid \<notin> device_keys" using engine_ok_sid [OF assms(1) Some] by (rule sid_not_key)
  then have "persisted g \<Longrightarrow> persisted g'"
    using t(3) by (auto simp: g' persisted_def persisted_but_def expected_def device_keys_def drop_session_def)
  moreover have "engine_ok C g'"
    unfolding g' using engine_ok_drop [OF assms(1), of sid] t(2) by (simp add: engine_ok_def)
  ultimately show ?thesis using t(3) engine_ok_sid [OF assms(1) Some] r by (simp add: kept_def g' drop_session_def)
qed

lemma pbind_Inl_cases:
  assumes "pbind m f = Some (Inl e, t)"
  obtains "m = Some (Inl e, t)" | a s where "m = Some (Inr a, s)" "f a s = Some (Inl e, t)"
  using assms by (auto simp: pbind_def split: option.splits sum.splits)

text \<open>Calls that fail: they write nothing, but a failed call may leave a change in memory.\<close>

definition left_in_memory :: "crypto \<Rightarrow> engine \<Rightarrow> engine \<Rightarrow> bool" where
  "left_in_memory C g g' \<longleftrightarrow> engine_ok C g' \<and> eg_identity g' = eg_identity g \<and> retires (eg_prekeys g) (eg_prekeys g') \<and>
     eg_storage g' = eg_storage g"

lemma outbound_failed:
  assumes "engine_ok C g" "establish_outbound_session C rs g b conversation pt ad = Some (Inl e, g')"
  shows "left_in_memory C g g'"
proof -
  have "g' = g \<or> (\<exists>l a. engine_encrypt C (rs 3) (opened g (next_session_id (rs 2)) (pb_identity b) l conversation a)
      (next_session_id (rs 2)) pt ad = Some (Inl e, g'))"
    using assms(2) unfolding establish_outbound_session_def Let_def opened_def
    by (elim pbind_Inl_cases) (auto split: option.splits sum.splits)
  then show ?thesis
  proof (elim disjE exE)
    fix l a
    let ?g = "opened g (next_session_id (rs 2)) (pb_identity b) l conversation a"
    assume x: "engine_encrypt C (rs 3) ?g (next_session_id (rs 2)) pt ad = Some (Inl e, g')"
    have ok: "engine_ok C ?g" using assms(1) by (simp add: opened_ok)
    have "g' = ?g" by (rule engine_encrypt_cases [OF ok x]) simp_all
    with ok show ?thesis by (simp add: left_in_memory_def)
  qed (use assms(1) in \<open>simp add: left_in_memory_def\<close>)
qed

lemma consume_used_frame:
  assumes "store_ok C (eg_identity g) (eg_prekeys g)" "consume_used g p = (res, g')"
  obtains ps where "g' = g\<lparr>eg_prekeys := ps\<rparr>" "store_ok C (eg_identity g) ps" "retires (eg_prekeys g) ps"
proof -
  let ?ps = "eg_prekeys g"
  have c: "store_ok C (eg_identity g) (snd (consume_ec ?ps i)) \<and> retires ?ps (snd (consume_ec ?ps i))" for i
    by (rule consume_ok(1) [OF assms(1)])
  have q: "store_ok C (eg_identity g) (snd (consume_pq ps j)) \<and> retires ?ps (snd (consume_pq ps j))"
    if "store_ok C (eg_identity g) ps \<and> retires ?ps ps" for ps j
    using consume_ok(2) [of C "eg_identity g" ps j] that retires_trans by blast
  obtain ps1 r1 where 1: "(case ip_opk p of
      Some i \<Rightarrow> (case consume_ec ?ps i of (res, ps) \<Rightarrow> (from_err (rbind res (\<lambda>_. Inr ())), g\<lparr>eg_prekeys := ps\<rparr>))
    | None \<Rightarrow> (Inr (), g)) = (r1, g\<lparr>eg_prekeys := ps1\<rparr>)" "store_ok C (eg_identity g) ps1 \<and> retires ?ps ps1"
  proof (cases "ip_opk p")
    case None
    show thesis by (rule that [of "Inr ()" ?ps]) (use None assms(1) in simp_all)
  next
    case (Some i)
    show thesis
      by (rule that [of "from_err (rbind (fst (consume_ec ?ps i)) (\<lambda>_. Inr ()))" "snd (consume_ec ?ps i)"])
         (use Some c [of i] in \<open>simp_all add: split_beta\<close>)
  qed
  show thesis
  proof (cases "isl r1 \<or> ip_pq p = pq_id (ps_last_resort ps1)")
    case True
    show thesis by (rule that [of ps1]) (use assms(2) 1 True in \<open>auto simp: consume_used_def sbind_def split: sum.splits\<close>)
  next
    case False
    show thesis
      by (rule that [of "snd (consume_pq ps1 (ip_pq p))"])
         (use assms(2) 1 q [OF 1(2)] False in \<open>auto simp: consume_used_def sbind_def split: sum.splits prod.splits\<close>)
  qed
qed

lemma handshake_failed:
  assumes "engine_ok C g" "hm_get (eg_sessions g) sid = Some sess"
    and "pbind (Some (consume_used g p)) (\<lambda>_ g. case persist_handshake g sid of
       (Inl e, g) \<Rightarrow> Some (Inl e, drop_session g sid) | (Inr _, g) \<Rightarrow> Some (Inr (sid, pt), g)) = Some (Inl e, g')"
  shows "left_in_memory C g g'"
proof -
  have so: "store_ok C (eg_identity g) (eg_prekeys g)" using assms(1) by (simp add: engine_ok_def)
  obtain r g2 where c: "consume_used g p = (r, g2)" by (cases "consume_used g p")
  obtain ps where ps: "g2 = g\<lparr>eg_prekeys := ps\<rparr>" "store_ok C (eg_identity g) ps" "retires (eg_prekeys g) ps"
    by (rule consume_used_frame [OF so c])
  have ok: "engine_ok C g2" "hm_get (eg_sessions g2) sid = Some sess" using assms(1,2) ps by (simp_all add: engine_ok_prekeys)
  show ?thesis
  proof (rule persist_handshake_result [OF ok])
    fix sto assume "persist_handshake g2 sid = (Inr (), g2\<lparr>eg_storage := sto\<rparr>)"
    then have "g' = g2" using assms(3) c by (auto simp: pbind_def split: sum.splits)
    then show ?thesis using ok(1) ps by (simp add: left_in_memory_def)
  qed
qed

lemma trial_cases:
  assumes "(case y of None \<Rightarrow> None | Some (Inl e, g) \<Rightarrow> Some (Inl e, d g) | Some (Inr pt, g) \<Rightarrow> k pt g) = Some (Inl e, g')"
  obtains x g1 where "y = Some (x, g1)" "case x of Inl e \<Rightarrow> g' = d g1 | Inr pt \<Rightarrow> k pt g1 = Some (Inl e, g')"
  using assms by (auto split: option.splits sum.splits)

lemma inbound_failed:
  assumes "engine_ok C g" "process_inbound_session C rs g p conversation ad = Some (Inl e, g')"
  shows "left_in_memory C g g'"
proof -
  let ?sid = "next_session_id (rs 0)"
  let ?finish = "\<lambda>pt g. pbind (Some (consume_used g p)) (\<lambda>_ g. case persist_handshake g ?sid of
       (Inl e, g) \<Rightarrow> Some (Inl e, drop_session g ?sid) | (Inr _, g) \<Rightarrow> Some (Inr (?sid, pt), g))"
  have "g' = g \<or> (\<exists>ik l0 a x g1. apply_decrypt C (rs 1) (opened g ?sid ik l0 conversation a) ?sid (ip_first p) ad = Some (x, g1) \<and>
      (case x of Inl e \<Rightarrow> g' = drop_session g1 ?sid | Inr pt \<Rightarrow> ?finish pt g1 = Some (Inl e, g')))"
    using assms(2) unfolding process_inbound_session_def Let_def opened_def [symmetric, unfolded Let_def]
    by (elim pbind_Inl_cases trial_cases) (simp, simp, simp, force, simp only: option.inject prod.inject map_option_eq_Some, blast)
  then show ?thesis
  proof (elim disjE exE conjE)
    fix ik l0 a x g1
    let ?g = "opened g ?sid ik l0 conversation a"
    assume x: "apply_decrypt C (rs 1) ?g ?sid (ip_first p) ad = Some (x, g1)"
      "case x of Inl e \<Rightarrow> g' = drop_session g1 ?sid | Inr pt \<Rightarrow> ?finish pt g1 = Some (Inl e, g')"
    have ok: "engine_ok C ?g" using assms(1) by (simp add: opened_ok)
    show ?thesis
    proof (rule apply_decrypt_cases [OF ok x(1)])
      fix e' assume "x = Inl e'" "g1 = ?g"
      then show ?thesis using x(2) engine_ok_drop [OF ok, of ?sid] by (simp add: left_in_memory_def drop_session_def)
    next
      fix sess l pt assume d: "x = Inr pt" "hm_get (eg_sessions ?g) ?sid = Some sess" "g1 = after_delivery ?g ?sid sess l (ip_first p)"
      have "left_in_memory C g1 g'"
        by (rule handshake_failed [of C g1 ?sid "sess\<lparr>ls_ratchet := l\<rparr>" p pt e]) (use x(2) d after_delivery_ok [OF ok d(2)] in simp_all)
      then show ?thesis by (simp add: d(3) left_in_memory_def)
    qed
  qed (use assms(1) in \<open>simp add: left_in_memory_def\<close>)
qed

subsection \<open>Starting\<close>

lemma initialize_ok:
  assumes "prekey_laws C" "initialize_device C rs dev profile = Some (Inr g)"
  shows "engine_ok C g" "persisted g" "eg_sessions g = []" "eg_device g = dev" "eg_profile g = profile"
    "eg_trust g = []" "eg_replay g = \<lparr>rc_capacity = 4096, rc_order = [], rc_present = []\<rparr>"
proof -
  define ik where "ik = fst (identity_generate C (rs 0))"
  have l: "lens_ok C" "secret_stable C" using assms(1) by (simp_all add: prekey_laws_def)
  obtain x r1 where "secret_generate C (rs 0) = (x, r1)" by (cases "secret_generate C (rs 0)")
  then have ik: "length ik = 32" "static_secret C ik = ik"
    using secret_generate_len [OF l(1)] secret_generate_stable [OF l(2)] by (auto simp: ik_def identity_generate_def)
  obtain ps r2 where ps: "store_new C ik (rs 1) = (Inr ps, r2)" "store_ok C ik ps" using store_new_ok [OF assms(1), of ik "rs 1"] by metis
  obtain c where c: "replay_new 4096 = Some c" by (simp add: replay_new_def)
  let ?g = "\<lparr>eg_identity = ik, eg_device = dev, eg_profile = profile, eg_prekeys = ps, eg_sessions = [], eg_replay = c,
     eg_trust = [], eg_storage = memory_storage_default\<rparr>"
  have i: "idle_storage memory_storage_default" by (simp add: idle_storage_def ms_ok_def ms_pending_def memory_storage_default_def)
  have ok: "engine_ok C ?g" using ik ps(2) replay_new_ok [OF c] i by (simp add: engine_ok_def)
  have but: "persisted_but device_keys ?g"
    by (simp add: persisted_but_def device_keys_def expected_def ms_get_def memory_storage_default_def)
  obtain sto where s: "persist_device_state ?g = (Inr (), ?g\<lparr>eg_storage := sto\<rparr>)" "engine_ok C (?g\<lparr>eg_storage := sto\<rparr>)"
    "\<forall>K. persisted_but K ?g \<longrightarrow> K \<subseteq> device_keys \<longrightarrow> persisted (?g\<lparr>eg_storage := sto\<rparr>)"
    by (rule persist_device_result [OF ok])
  have g: "g = ?g\<lparr>eg_storage := sto\<rparr>" using assms(2) ps(1) c s(1) by (simp add: initialize_device_def Let_def ik_def)
  show "engine_ok C g" "persisted g" "eg_sessions g = []" "eg_device g = dev" "eg_profile g = profile"
    "eg_trust g = []" "eg_replay g = \<lparr>rc_capacity = 4096, rc_order = [], rc_present = []\<rparr>"
    unfolding g using s(2,3) but c by (simp_all add: replay_new_def)
qed

end
