(* ===== verification/VC_Engine_Handshake.thy ===== *)
theory VC_Engine_Handshake
  imports VC_Engine_Props
begin

text \<open>
  First contact between two engines: the bundle one engine publishes, the initiation the other
  builds from it, and what the publisher makes of the packet, in each of the three profiles.
\<close>

subsection \<open>The first message of a live ratchet\<close>

text \<open>\<open>first_contact C P sk y r0 r1 r2 A B\<close>: under profile \<open>P\<close> and the shared secret \<open>sk\<close>, initiator and responder
  start in \<open>A\<close> and \<open>B\<close>, and whatever \<open>A\<close> sends first, \<open>B\<close> decrypts.\<close>

definition first_contact :: "crypto \<Rightarrow> crypto_profile \<Rightarrow> bytes \<Rightarrow> bytes \<Rightarrow> rng \<Rightarrow> rng \<Rightarrow> rng \<Rightarrow> live_ratchet \<Rightarrow> live_ratchet \<Rightarrow> bool" where
  "first_contact C P sk y r0 r1 r2 A B \<longleftrightarrow>
     init_alice_ratchet C r0 P sk (public_key C y) = Some (Inr A) \<and> init_bob_ratchet C P sk y = Some (Inr B) \<and>
     live_clone C A = A \<and> live_clone C B = B \<and>
     (\<forall>pt ad. \<exists>h ct A' B'. live_encrypt C r1 A pt ad = Some (Inr (h, ct), A') \<and>
        live_decrypt C r2 B h ct ad = Some (Inr pt, B') \<and> length h < 2 ^ 17 \<and> length ct = length pt + 16)"

lemma first_contact_classical:
  assumes L: "crypto_laws C" and y: "length y = 32" "static_secret C y = y" "length sk = 32"
    and ne: "public_key C (fst (secret_generate C r2)) \<noteq> public_key C y"
  obtains A B where "first_contact C ClassicalV1 sk y r0 r1 r2 A B"
proof -
  let ?b = "init_bob sk y DEFAULT_MAX_SKIP"
  obtain a where a: "fst (init_alice C r0 sk (public_key C y) DEFAULT_MAX_SKIP) = Inr a" "dr_wf C a" "dr_wf C ?b"
    "\<forall>pt ad. \<exists>h ct a' b'. dr_encrypt C a pt ad = (Inr (h, ct), a') \<and> dr_decrypt C r2 ?b h ct ad = (Inr pt, b') \<and>
       header_wf h \<and> length ct = length pt + 16"
    by (rule dr_first_message [OF L y ne])
  have "\<exists>h ct A' B'. live_encrypt C r1 (LClassical a) pt ad = Some (Inr (h, ct), A') \<and>
      live_decrypt C r2 (LClassical ?b) h ct ad = Some (Inr pt, B') \<and> length h < 2 ^ 17 \<and> length ct = length pt + 16" for pt ad
  proof -
    obtain h ct a' b' where m: "dr_encrypt C a pt ad = (Inr (h, ct), a')" "dr_decrypt C r2 ?b h ct ad = (Inr pt, b')"
      "header_wf h" "length ct = length pt + 16" using a(4) by metis
    show ?thesis
      by (rule exI [of _ "header_encode h"], rule exI [of _ ct]) (use m header_decode_encode [OF m(3)] in auto)
  qed
  then show thesis using that a(1-3) by (simp add: first_contact_def)
qed

lemma first_contact_hybrid:
  assumes L: "braid_laws C" "crypto_laws C" and y: "length y = 32" "static_secret C y = y"
    and ne: "public_key C (fst (secret_generate C r2)) \<noteq> public_key C y"
  obtains A B where "first_contact C HybridPqV1 sk y r0 r1 r2 A B"
proof -
  obtain A B where a: "triple_init_alice C r0 sk (public_key C y) = Some (Inr A)" "triple_init_bob C sk y = Some (Inr B)"
    "talk_inv C 0 (fst (secret_generate C r0)) y A B" using talk_start [OF L y] by metis
  have wf: "dr_wf C (t_classical A)" "dr_wf C (t_classical B)" using a(3) by (simp_all add: talk_inv_def dr_turn_def)
  have cl: "triple_clone_for_trial C A = A" "triple_clone_for_trial C B = B"
    using wf by (simp_all add: triple_clone_for_trial_def trial_clone_def q_clone_for_trial_def)
  have "\<exists>h ct A' B'. live_encrypt C r1 (LHybrid A) pt ad = Some (Inr (h, ct), A') \<and>
      live_decrypt C r2 (LHybrid B) h ct ad = Some (Inr pt, B') \<and> length h < 2 ^ 17 \<and> length ct = length pt + 16" for pt ad
  proof -
    have "(0::nat) < 2 ^ 32 - 8" by simp
    then obtain h ct S' R' where s: "triple_encrypt C r1 A pt ad = Some (Inr (h, ct), S')" "th_wf h" "length ct = length pt + 16"
      "triple_decrypt C r2 B h ct ad = Some (Inr pt, R')" using talk_step [OF L a(3) _ refl ne] by metis
    have "length (th_encode h) < 2 ^ 17" using s(2) by (auto simp: th_encode_def th_wf_def Let_def split: option.splits)
    then show ?thesis
      by (intro exI [of _ "th_encode h"] exI [of _ ct]) (use s thc.roundtrip [OF s(2)] in auto)
  qed
  then show thesis using that a(1,2) cl by (simp add: first_contact_def)
qed

lemma hencrypt_len: "aead_correct C \<Longrightarrow> hencrypt C r hk b = Inr enc \<Longrightarrow> length enc = length b + 28"
  by (auto simp: hencrypt_def Let_def rd_simps aead_seal_len)

lemma first_contact_header_encrypt:
  assumes L: "crypto_laws C" and y: "length y = 32" "static_secret C y = y" "length sk = 32"
  obtains A B where "first_contact C ClassicalHeV1 sk y r0 r1 r2 A B"
proof -
  have l: "lens_ok C" "secret_stable C" "dh_commutes C" "xpub_ok C" "aead_correct C" using L by (simp_all add: crypto_laws_def)
  obtain okm where okm: "hkdf_extract_expand C None sk DR_HEADER 64 = Inr okm" "length okm = 64"
    using hkdf_ok [OF l(1), of 64 None sk DR_HEADER] by auto
  define hka nhkb where "hka = take 32 okm" and "nhkb = drop 32 okm"
  have hk: "he_keys_from_sk C sk = Inr (hka, nhkb)" "length hka = 32" "length nhkb = 32"
    using okm by (simp_all add: he_keys_from_sk_def hka_def nhkb_def)
  obtain a where a: "fst (he_init_alice C r0 sk (public_key C y) hka nhkb DEFAULT_MAX_SKIP) = Inr a"
    using he_init_alice_total [OF l(1)] by metis
  let ?b = "he_init_bob sk y hka nhkb DEFAULT_MAX_SKIP"
  have p: "he_pair C a ?b" using he_start_pair [OF l(1-4) a y(3,1,2) hk(2,3)] .
  have wf: "he_wf C a" "he_wf C ?b" using p by (simp_all add: he_pair_def)
  have "\<exists>h ct A' B'. live_encrypt C r1 (LHeaderEncrypt a) pt ad = Some (Inr (h, ct), A') \<and>
      live_decrypt C r2 (LHeaderEncrypt ?b) h ct ad = Some (Inr pt, B') \<and> length h < 2 ^ 17 \<and> length ct = length pt + 16" for pt ad
  proof -
    obtain ck x hk where f: "e_cks a = Some ck" "e_dhs a = Some x" "e_hks a = Some hk" "e_ns a = 0" using p by (auto simp: he_pair_def)
    have "unat (e_ns a) + 1 < 2 ^ 32" by (simp add: f(4))
    then obtain h ct a' where e: "he_encrypt C r1 a pt ad = (Inr (h, ct), a')"
      using he_encrypt_total [OF l(1,4,5) wf(1) f(1-3)] by blast
    have "opens C (e_hkr ?b) h = None" by (simp add: opens_def he_init_bob_def)
    from he_ahead_sends [OF l p e this, of r2] obtain b' where "he_decrypt C r2 ?b h ct ad = (Inr pt, b')" by auto
    moreover have "length h < 2 ^ 17" "length ct = length pt + 16"
      by (rule he_encrypt_cases [OF e];
          use l(1,4,5) hencrypt_len aead_seal_len in \<open>auto simp: header_wf_def public_key_len public_key_nonzero\<close>)+
    ultimately show ?thesis using e by (intro exI [of _ h] exI [of _ ct]) simp
  qed
  then show thesis using that a hk wf by (simp add: first_contact_def)
qed

lemma first_contact_exists:
  assumes "braid_laws C" "crypto_laws C" "length y = 32" "static_secret C y = y" "length sk = 32"
    and "public_key C (fst (secret_generate C r2)) \<noteq> public_key C y"
  obtains A B where "first_contact C prof sk y r0 r1 r2 A B"
proof (cases prof)
  case ClassicalV1
  then show thesis using first_contact_classical [OF assms(2-6)] that by metis
next
  case ClassicalHeV1
  then show thesis using first_contact_header_encrypt [OF assms(2-5)] that by metis
next
  case HybridPqV1
  then show thesis using first_contact_hybrid [OF assms(1-4,6)] that by metis
qed

subsection \<open>The agreed secret\<close>

text \<open>The responder finds the keys the initiator used and derives the same secret.\<close>

lemma inbound_shared_agrees:
  assumes laws: "prekey_laws C" "dh_commutes C" and s: "store_ok C (eg_identity g) (eg_prekeys g)"
    and b: "store_public_bundle C (eg_identity g) (eg_prekeys g) = Inr b" and i: "alice_initiate C ika b r = (Inr i, r')"
    and p: "ip_spk p = pb_signed_id b" "ip_opk p = ai_opk_id i" "ip_pq p = ai_pq_id i" "ip_kem p = ai_kem_ct i"
  shows "inbound_shared C g p (identity_public C ika) (ai_ephemeral i) = Inr (ai_shared i)"
proof -
  let ?ps = "eg_prekeys g"
  have kem: "kem_correct C" using laws(1) by (simp add: prekey_laws_def)
  from store_bundle [OF laws(1) s] b obtain k where sb: "pb_identity b = public_key C (eg_identity g)"
    "pb_signed b = public_key C (sp_secret (ps_signed ?ps))" "pb_pq_public b = kem_ek C k" "get_pq_secret ?ps (pb_pq_id b) = Inr k"
    "\<And>i pk. pb_one_time_ec b = Some (i, pk) \<Longrightarrow> \<exists>x. peek_ec ?ps i = Inr x \<and> oe_id x = i \<and> pk = public_key C (oe_secret x)"
    by (metis sum.inject(2))
  have ids: "ai_opk_id i = map_option fst (pb_one_time_ec b)" "ai_pq_id i = pb_pq_id b"
    using i by (auto simp: alice_initiate_def rd_simps Let_def split: prod.splits)
  have spk: "pb_signed_id b = sp_id (ps_signed ?ps)"
    using b by (auto simp: store_public_bundle_def rd_simps Let_def split: prod.splits)
  obtain e where e: "(case ip_opk p of Some i \<Rightarrow> rbind (from_err (peek_ec ?ps i)) (\<lambda>k. Inr (Some k)) | None \<Rightarrow> Inr None) = Inr e"
    "\<And>i pk. pb_one_time_ec b = Some (i, pk) \<Longrightarrow> \<exists>x. e = Some x \<and> oe_id x = i \<and> pk = public_key C (oe_secret x)"
  proof (cases "pb_one_time_ec b")
    case None
    then show thesis using that [of None] by (simp add: p ids)
  next
    case (Some q)
    obtain j pk where q: "q = (j, pk)" by (cases q)
    then obtain x where "peek_ec ?ps j = Inr x" "oe_id x = j" "pk = public_key C (oe_secret x)" using sb(5) Some by blast
    then show thesis using that [of "Some x"] Some q by (simp add: p ids)
  qed
  obtain q where q: "(if ip_pq p = pq_id (ps_last_resort ?ps) then Inr None
      else rbind (from_err (peek_pq ?ps (ip_pq p))) (\<lambda>k. Inr (Some k))) = Inr q"
    "(case q of Some k \<Rightarrow> pq_seed k | None \<Rightarrow> pq_seed (ps_last_resort ?ps)) = k"
    using sb(4) by (fastforce simp: p ids get_pq_secret_def peek_pq_def split: if_splits)
  have "matches C \<lparr>bm_identity = eg_identity g, bm_signed = ps_signed ?ps, bm_one_time = e, bm_pq_secret = k,
      bm_pq_public = kem_ek C k, bm_pq_id = ip_pq p\<rparr> b"
    using sb e(2) by (simp add: matches_def)
  from pqxdh_agree [OF laws(2) kem this i] show ?thesis
    unfolding inbound_shared_def e(1) q(1) by (simp add: q(2) p spk kem_public_key_ok [OF kem])
qed

lemma initiate_shape:
  assumes "kem_correct C" "prekey_laws C" "store_ok C ik ps" "store_public_bundle C ik ps = Inr b"
    and "alice_initiate C ika b r = (Inr i, r')"
  shows "ai_opk_id i = map_option fst (pb_one_time_ec b)" "ai_pq_id i = pb_pq_id b"
    "\<exists>eka. ai_ephemeral i = public_key C eka" "length (ai_kem_ct i) = 1088"
proof -
  from store_bundle [OF assms(2,3)] assms(4) obtain k where k: "pb_pq_public b = kem_ek C k" by (metis sum.inject(2))
  have len: "length ct = 1088" if "kem_encaps C (kem_ek C k) m = (ct, ss)" for m ct ss
    using that assms(1) unfolding kem_correct_def by (metis fst_conv)
  show "ai_opk_id i = map_option fst (pb_one_time_ec b)" "ai_pq_id i = pb_pq_id b"
    "\<exists>eka. ai_ephemeral i = public_key C eka" "length (ai_kem_ct i) = 1088"
    using assms(5) k len
    by (auto simp: alice_initiate_def rd_simps Let_def kem_encapsulate_def kem_public_from_bytes_iff split: prod.splits)
qed

subsection \<open>The two engines\<close>

text \<open>No recorded message belongs to the session identifier.\<close>

definition sid_fresh :: "engine \<Rightarrow> bytes \<Rightarrow> bool" where
  "sid_fresh g sid \<longleftrightarrow> (\<forall>k \<in> set (rc_order (eg_replay g)). take 16 (drop 2 (message_id k)) \<noteq> sid)"

lemma sid_fresh_not_replayed:
  assumes "engine_ok C g" "sid_fresh g sid" "length sid = 16"
  shows "\<not> replay_contains (eg_replay g) (replay_key_of sid m c d)"
proof -
  have "rc_ok (eg_replay g)" using assms(1) by (simp add: engine_ok_def)
  then show ?thesis using assms(2,3) by (auto simp: replay_contains_iff sid_fresh_def replay_key_of_def)
qed

lemma engine_encrypt_ok:
  assumes "engine_ok C g" "hm_get (eg_sessions g) sid = Some sess"
    and "live_encrypt C r (live_clone C (ls_ratchet sess)) pt (bound_ad sess ad) = Some (Inr (h, ct), l)"
  obtains sto where "engine_encrypt C r g sid pt ad =
    Some (Inr \<lparr>sl_header = h, sl_ciphertext = ct, sl_hint = sid\<rparr>, (set_ratchet g sid sess l)\<lparr>eg_storage := sto\<rparr>)"
proof -
  let ?g = "set_ratchet g sid sess l"
  have ok: "engine_ok C ?g" using assms(1,2) by (rule engine_ok_ratchet)
  have "hm_get (eg_sessions ?g) sid = Some (sess\<lparr>ls_ratchet := l\<rparr>)" by simp
  from persist_aux_result [OF ok this] obtain sto where "persist_session_aux ?g sid = (Inr (), ?g\<lparr>eg_storage := sto\<rparr>)" by metis
  then show thesis using that assms(2,3) by (simp add: engine_encrypt_def)
qed

lemma outbound_ok:
  assumes "engine_ok C g" "bundle_validate C b = Inr ()" "alice_initiate C (eg_identity g) b (rs 0) = (Inr ai, r')"
    and "init_alice_ratchet C (rs 1) (eg_profile g) (px_sk (ai_shared ai)) (pb_signed b) = Some (Inr l)" "live_clone C l = l"
    and "live_encrypt C (rs 3) l pt (put_vec (px_ad (ai_shared ai)) @ put_vec cid @ ad) = Some (Inr (h, ct), l')"
  obtains g' where "establish_outbound_session C rs g b cid pt ad = Some (Inr (next_session_id (rs 2),
      \<lparr>ip_identity = identity_public C (eg_identity g), ip_ephemeral = ai_ephemeral ai, ip_kem = ai_kem_ct ai,
       ip_spk = pb_signed_id b, ip_opk = ai_opk_id ai, ip_pq = ai_pq_id ai,
       ip_first = \<lparr>sl_header = h, sl_ciphertext = ct, sl_hint = next_session_id (rs 2)\<rparr>\<rparr>), g')"
    "has_session g' (next_session_id (rs 2))"
proof -
  let ?sid = "next_session_id (rs 2)" and ?ad = "px_ad (ai_shared ai)"
  let ?g = "opened g ?sid (pb_identity b) l cid ?ad" and ?s = "new_session g (pb_identity b) l cid ?ad"
  have "engine_ok C ?g" using assms(1) by (simp add: opened_ok)
  moreover have "hm_get (eg_sessions ?g) ?sid = Some ?s" by simp
  moreover have "live_encrypt C (rs 3) (live_clone C (ls_ratchet ?s)) pt (bound_ad ?s ad) = Some (Inr (h, ct), l')"
    using assms(5,6) by (simp add: bound_ad_def)
  ultimately obtain sto where e: "engine_encrypt C (rs 3) ?g ?sid pt ad =
      Some (Inr \<lparr>sl_header = h, sl_ciphertext = ct, sl_hint = ?sid\<rparr>, (set_ratchet ?g ?sid ?s l')\<lparr>eg_storage := sto\<rparr>)"
    by (rule engine_encrypt_ok)
  show thesis
    by (rule that [of "(set_ratchet ?g ?sid ?s l')\<lparr>eg_storage := sto\<rparr>"])
       (use assms e in \<open>simp_all add: establish_outbound_session_def Let_def opened_def has_session_def\<close>)
qed

text \<open>Whether the store has the one-time keys a packet names.\<close>

definition names_missing_key :: "engine \<Rightarrow> initiation_packet \<Rightarrow> bool" where
  "names_missing_key g p \<longleftrightarrow> (\<exists>i. ip_opk p = Some i \<and> hm_get (ps_ec (eg_prekeys g)) i = None) \<or>
     ip_pq p \<noteq> pq_id (ps_last_resort (eg_prekeys g)) \<and> hm_get (ps_pq (eg_prekeys g)) (ip_pq p) = None"

lemma inbound_shared_missing: "names_missing_key g p \<Longrightarrow> inbound_shared C g p ik ek \<noteq> Inr sh"
  by (auto simp: names_missing_key_def inbound_shared_def peek_ec_def peek_pq_def rd_simps split: option.splits if_splits)

lemma consume_used_ok:
  assumes "inbound_shared C g p ik ek = Inr sh" "eg_prekeys g' = eg_prekeys g"
  obtains g'' where "consume_used g' p = (Inr (), g'')"
proof -
  have "\<not> names_missing_key g p" using assms(1) inbound_shared_missing [of g p C ik ek sh] by blast
  then have "fst (consume_used g' p) = Inr ()"
    using assms(2) by (cases "ip_opk p") (auto simp: names_missing_key_def consume_used_def consume_ec_def consume_pq_def)
  then show thesis using that [of "snd (consume_used g' p)"] by (metis prod.collapse)
qed

lemma inbound_ok:
  assumes "engine_ok C g" "accepted C rs g p cid ad sid sh l0 l pt"
  obtains g' where "process_inbound_session C rs g p cid ad = Some (Inr (sid, pt), g')"
proof -
  note a = assms(2) [unfolded accepted_def]
  let ?g2 = "opened g sid (ip_identity p) l0 cid (px_ad sh)" and ?s = "new_session g (ip_identity p) l0 cid (px_ad sh)"
  let ?g3 = "after_delivery ?g2 sid ?s l (ip_first p)"
  have ok2: "engine_ok C ?g2" using assms(1) a by (simp add: opened_ok)
  have s2: "hm_get (eg_sessions ?g2) sid = Some ?s" by simp
  have d: "apply_decrypt C (rs 1) ?g2 sid (ip_first p) ad = Some (Inr pt, ?g3)"
  proof -
    have "\<not> replay_contains (eg_replay ?g2) (replay_key_of sid (ip_first p) (ls_conversation ?s) (eg_device ?g2))" using a by auto
    from apply_decrypt_eq [OF ok2 s2 this, of "rs 1" ad] show ?thesis using a by (auto simp: bound_ad_def)
  qed
  obtain g4 where g4: "consume_used ?g3 p = (Inr (), g4)" using consume_used_ok [of C g p _ _ sh ?g3] a by (metis after_delivery_frame(4) opened_frame(3))
  have "store_ok C (eg_identity ?g3) (eg_prekeys ?g3)" using assms(1) by (simp add: engine_ok_def)
  then obtain ps where ps: "g4 = ?g3\<lparr>eg_prekeys := ps\<rparr>" "store_ok C (eg_identity g) ps"
    using consume_used_cases [OF _ g4] by (metis after_delivery_frame(5) opened_frame(4))
  have j: "g4 = joined g p cid sid sh l0 l ps" by (simp add: ps(1) joined_def)
  have ok4: "engine_ok C g4" unfolding j using assms(1) a ps(2) by (simp add: joined_ok)
  obtain sess where "hm_get (eg_sessions g4) sid = Some sess" unfolding j by simp
  from persist_handshake_result [OF ok4 this] obtain sto where t: "persist_handshake g4 sid = (Inr (), g4\<lparr>eg_storage := sto\<rparr>)" by metis
  show thesis
    by (rule that [of "g4\<lparr>eg_storage := sto\<rparr>"])
       (use a d g4 t in \<open>simp add: process_inbound_session_def Let_def opened_def [symmetric] opened_def\<close>)
qed

lemma handshake_result:
  assumes laws: "prekey_laws C" "braid_laws C" "crypto_laws C" and ok: "engine_ok C gA" "engine_ok C gB" "eg_profile gA = eg_profile gB"
    and b: "store_public_bundle C (eg_identity gB) (eg_prekeys gB) = Inr b"
    and fresh: "public_key C (fst (secret_generate C (rsB 1))) \<noteq> pb_signed b" "sid_fresh gB (next_session_id (rsB 0))"
    and pt: "length pt < 2 ^ 31"
  obtains p gA' gB' sh l0 l where
    "establish_outbound_session C rsA gA b cid pt ad = Some (Inr (next_session_id (rsA 2), p), gA')"
    "packet_wf p" "accepted C rsB gB p cid ad (next_session_id (rsB 0)) sh l0 l pt"
    "has_session gA' (next_session_id (rsA 2))" "ip_opk p = map_option fst (pb_one_time_ec b)" "ip_pq p = pb_pq_id b"
proof -
  let ?ps = "eg_prekeys gB"
  let ?y = "sp_secret (ps_signed ?ps)"
  have st: "store_ok C (eg_identity gB) ?ps" using ok(2) by (simp add: engine_ok_def)
  have y: "length ?y = 32" "static_secret C ?y = ?y" using st by (simp_all add: store_ok_def signed_ok_def)
  have l: "lens_ok C" "xpub_ok C" "dh_commutes C" "kem_correct C" using laws by (simp_all add: crypto_laws_def prekey_laws_def)
  from store_bundle [OF laws(1) st] b have v: "bundle_validate C b = Inr ()" "pb_signed b = public_key C ?y" by (metis sum.inject(2))+
  obtain ai r' where i: "alice_initiate C (eg_identity gA) b (rsA 0) = (Inr ai, r')" "length (px_sk (ai_shared ai)) = 32"
    using alice_initiate_total [OF l(1) v(1)] by metis
  have ne: "public_key C (fst (secret_generate C (rsB 1))) \<noteq> public_key C ?y" using fresh(1) v(2) by simp
  obtain A B where fc: "first_contact C (eg_profile gB) (px_sk (ai_shared ai)) ?y (rsA 1) (rsA 3) (rsB 1) A B"
    using first_contact_exists [OF laws(2,3) y i(2) ne] by metis
  note f = fc [unfolded first_contact_def]
  let ?ad = "put_vec (px_ad (ai_shared ai)) @ put_vec cid @ ad"
  obtain h ct A' B' where m: "live_encrypt C (rsA 3) A pt ?ad = Some (Inr (h, ct), A')"
    "live_decrypt C (rsB 1) B h ct ?ad = Some (Inr pt, B')" "length h < 2 ^ 17" "length ct = length pt + 16"
    using f by blast
  let ?p = "\<lparr>ip_identity = identity_public C (eg_identity gA), ip_ephemeral = ai_ephemeral ai, ip_kem = ai_kem_ct ai,
       ip_spk = pb_signed_id b, ip_opk = ai_opk_id ai, ip_pq = ai_pq_id ai,
       ip_first = \<lparr>sl_header = h, sl_ciphertext = ct, sl_hint = next_session_id (rsA 2)\<rparr>\<rparr>"
  have init: "init_alice_ratchet C (rsA 1) (eg_profile gA) (px_sk (ai_shared ai)) (pb_signed b) = Some (Inr A)" "live_clone C A = A"
    using f ok(3) v(2) by simp_all
  obtain gA' where a: "establish_outbound_session C rsA gA b cid pt ad = Some (Inr (next_session_id (rsA 2), ?p), gA')"
    "has_session gA' (next_session_id (rsA 2))" by (rule outbound_ok [OF ok(1) v(1) i(1) init m(1)])
  have ids: "ai_opk_id ai = map_option fst (pb_one_time_ec b)" "ai_pq_id ai = pb_pq_id b"
    "\<exists>eka. ai_ephemeral ai = public_key C eka" "length (ai_kem_ct ai) = 1088"
    using i(1) initiate_shape [OF l(4) laws(1) st b] by auto
  have sh: "inbound_shared C gB ?p (identity_public C (eg_identity gA)) (ai_ephemeral ai) = Inr (ai_shared ai)"
    by (rule inbound_shared_agrees [OF laws(1) l(3) st b i(1)]) simp_all
  have pk: "public_key C x \<noteq> zeros32" "length (public_key C x) = 32" for x
    using l by (simp_all add: public_key_nonzero public_key_len)
  have ek: "ai_ephemeral ai \<noteq> zeros32" "length (ai_ephemeral ai) = 32" using ids(3) pk by metis+
  have acc: "accepted C rsB gB ?p cid ad (next_session_id (rsB 0)) (ai_shared ai) B B' pt"
    using ek(1) pk(1) sh f m(2) y sid_fresh_not_replayed [OF ok(2) fresh(2)]
    by (simp add: accepted_def public_from_bytes_def identity_public_def secret_from_bytes_def)
  have "packet_wf ?p"
    using m(3,4) pt ids(4) ek(2) pk(2) by (simp add: packet_wf_def sealed_wf_def fits32_def sealed_encode_def put_vec_def identity_public_def)
  then show thesis using that [OF a(1) _ acc a(2)] ids by simp
qed

text \<open>The publisher's bundle, the initiator's packet and the publisher's answer, put together.\<close>

lemma first_contact_works:
  assumes "lens_ok C" "secret_stable C" "xpub_ok C" "dh_commutes C" "kem_correct C" "edwards_laws C" "aead_correct C" "braid_laws C"
    and "engine_ok C gA" "engine_ok C gB" "eg_profile gA = eg_profile gB"
    and "generate_public_prekey_bundle C r gB n = (Inr b, gB1)"
    and "public_key C (fst (secret_generate C (rsB 1))) \<noteq> pb_signed b" "sid_fresh gB (next_session_id (rsB 0))"
    and "length pt < 2 ^ 31"
  shows "bundle_decode C (bundle_encode b) = Inr b \<and> (\<exists>p gA' gB'.
    establish_outbound_session C rsA gA b cid pt ad = Some (Inr (next_session_id (rsA 2), p), gA') \<and>
    packet_decode (packet_encode p) = Inr p \<and>
    process_inbound_session C rsB gB1 p cid ad = Some (Inr (next_session_id (rsB 0), pt), gB') \<and>
    has_session gA' (next_session_id (rsA 2)) \<and> has_session gB' (next_session_id (rsB 0)))"
proof -
  have laws: "prekey_laws C" "crypto_laws C" using assms(1-7) by (simp_all add: prekey_laws_def crypto_laws_def)
  have g: "store_public_bundle C (eg_identity gB1) (eg_prekeys gB1) = Inr b" "engine_ok C gB1"
    "eg_profile gA = eg_profile gB1" "sid_fresh gB1 (next_session_id (rsB 0))"
    by (rule generate_bundle_cases [OF laws(1) assms(10,12)]; use assms(11,14) in \<open>auto simp: kept_def sid_fresh_def\<close>)+
  have st: "store_ok C (eg_identity gB1) (eg_prekeys gB1)" using g(2) by (simp add: engine_ok_def)
  have "bundle_fits b" "bundle_validate C b = Inr ()" using store_bundle [OF laws(1) st] g(1) by (metis sum.inject(2))+
  then have d: "bundle_decode C (bundle_encode b) = Inr b" by (rule bundle_decode_encode)
  obtain p gA' sh l0 l where a: "establish_outbound_session C rsA gA b cid pt ad = Some (Inr (next_session_id (rsA 2), p), gA')"
    "packet_wf p" "accepted C rsB gB1 p cid ad (next_session_id (rsB 0)) sh l0 l pt" "has_session gA' (next_session_id (rsA 2))"
    using handshake_result [OF laws(1) assms(8) laws(2) assms(9) g(2,3,1) assms(13) g(4) assms(15)] by metis
  obtain gB' where b: "process_inbound_session C rsB gB1 p cid ad = Some (Inr (next_session_id (rsB 0), pt), gB')"
    using inbound_ok [OF g(2) a(3)] by metis
  have "has_session gB' (next_session_id (rsB 0))"
    by (rule inbound_cases [OF g(2) b]) (simp add: has_session_def)
  with a b d ipc.roundtrip [OF a(2)] show ?thesis by blast
qed

text \<open>C2: First contact. One engine publishes a prekey bundle, another of the same profile (classical, header
  encrypting or hybrid post-quantum) opens a session from it with a first message. The bundle and the
  initiation packet survive their wire formats, the publisher accepts the packet and reads the first
  message, and both engines have the session. The assumptions on randomness are that the publisher's new ratchet
  key differs from its signed prekey and that the identifier it draws is not one the replay cache knows.\<close>

theorem engine_handshake:
  assumes "lens_ok C" "secret_stable C" "xpub_ok C" "dh_commutes C" "kem_correct C" "edwards_laws C" "aead_correct C" "braid_laws C"
    and "engine_ok C gA" "engine_ok C gB" "eg_profile gA = eg_profile gB"
    and "generate_public_prekey_bundle C r gB n = (Inr b, gB1)"
    and "public_key C (fst (secret_generate C (rsB 1))) \<noteq> pb_signed b" "sid_fresh gB (next_session_id (rsB 0))"
    and "length pt < 2 ^ 31"
  shows "bundle_decode C (bundle_encode b) = Inr b \<and> (\<exists>p gA' gB'.
    establish_outbound_session C rsA gA b cid pt ad = Some (Inr (next_session_id (rsA 2), p), gA') \<and>
    packet_decode (packet_encode p) = Inr p \<and>
    process_inbound_session C rsB gB1 p cid ad = Some (Inr (next_session_id (rsB 0), pt), gB') \<and>
    has_session gA' (next_session_id (rsA 2)) \<and> has_session gB' (next_session_id (rsB 0)))"
  by (rule first_contact_works [OF assms])

subsection \<open>A concrete pair of engines\<close>

lemma braid_prekey_laws: "prekey_laws braid_crypto"
  using braid_crypto_laws braid_crypto_dr plain_edwards
  by (simp add: prekey_laws_def braid_laws_def edwards_laws_def braid_crypto_def)

lemma demo_engine:
  obtains g where "initialize_device braid_crypto (\<lambda>_ _. x) dev prof = Some (Inr g)" "rc_order (eg_replay g) = []"
    "ps_ec (eg_prekeys g) = []" "ps_next_ec (eg_prekeys g) = 2" "ps_pq (eg_prekeys g) = []" "ps_next_pq (eg_prekeys g) = 2"
    "sp_secret (ps_signed (eg_prekeys g)) = replicate 32 x"
proof -
  let ?C = braid_crypto
  define ik where "ik = fst (identity_generate ?C (\<lambda>_. x))"
  obtain ps r2 where ps: "store_new ?C ik (\<lambda>_. x) = (Inr ps, r2)" using store_new_ok [OF braid_prekey_laws] by metis
  have sec: "sp_secret (ps_signed ps) = replicate 32 x"
    using ps by (auto simp: store_new_def rd_simps signed_generate_def Let_def secret_generate_def fill_random_def plain_simps
        map_replicate_const split: prod.splits)
  let ?g = "\<lparr>eg_identity = ik, eg_device = dev, eg_profile = prof, eg_prekeys = ps, eg_sessions = [],
     eg_replay = \<lparr>rc_capacity = 4096, rc_order = [], rc_present = []\<rparr>, eg_trust = [], eg_storage = memory_storage_default\<rparr>"
  have i: "idle_storage (eg_storage ?g)" by (simp add: idle_storage_def ms_ok_def ms_pending_def memory_storage_default_def)
  obtain sto where s: "persist_device_state ?g = (Inr (), ?g\<lparr>eg_storage := sto\<rparr>)"
    unfolding persist_device_state_def using commit_pairs_ok [OF i] by metis
  show thesis
    by (rule that [of "?g\<lparr>eg_storage := sto\<rparr>"])
       (use ps s sec store_new_fields [OF ps] in \<open>simp_all add: initialize_device_def Let_def ik_def replay_new_def\<close>)
qed

lemma replenish_first:
  assumes "prekey_laws C" "ps_ec s = []" "ps_next_ec s = 2" "ps_pq s = []" "ps_next_pq s = 2"
  obtains k q r' where "replenish C ik 1 1 s r =
    (Inr (), s\<lparr>ps_next_ec := 3, ps_ec := [(2, k)], ps_next_pq := 3, ps_pq := [(2, q)]\<rparr>, r')"
proof -
  have a: "checked_add (2 :: u32) 1 = Some 3" by (simp add: checked_add_def)
  obtain sec r1 where g: "secret_generate C r = (sec, r1)" by (cases "secret_generate C r")
  let ?k = "\<lparr>oe_id = 2, oe_secret = sec\<rparr>"
  let ?s = "s\<lparr>ps_next_ec := 3, ps_ec := [(2, ?k)]\<rparr>"
  have e: "replenish_ec C 1 s r = (Inr (), ?s, r1)"
    using replenish_ec_cases(3) [of s 1 3 C r sec r1] replenish_ec_cases(1) [of ?s 1 C r1] assms(2,3) a g by (simp add: hm_insert_def)
  obtain q r2 where q: "pq_generate C ik 2 r1 = (Inr q, r2)" using pq_generate_ok [OF assms(1), of ik 2 r1] by metis
  let ?t = "?s\<lparr>ps_next_pq := 3, ps_pq := [(2, q)]\<rparr>"
  have "replenish_pq C ik 1 ?s r1 = (Inr (), ?t, r2)"
    using replenish_pq_cases(3) [of ?s 1 3 C ik r1 q r2] replenish_pq_cases(1) [of ?t 1 C ik r2] assms(4,5) a q by (simp add: hm_insert_def)
  with e show thesis by (intro that [of q ?k r2]) (simp add: replenish_def)
qed

lemma demo_bundle:
  assumes "initialize_device braid_crypto (\<lambda>_ _. x) dev prof = Some (Inr g)" "ps_ec (eg_prekeys g) = []" "ps_next_ec (eg_prekeys g) = 2"
    "ps_pq (eg_prekeys g) = []" "ps_next_pq (eg_prekeys g) = 2" "sp_secret (ps_signed (eg_prekeys g)) = replicate 32 x"
  obtains b g1 where "generate_public_prekey_bundle braid_crypto r g 1 = (Inr b, g1)" "map_option fst (pb_one_time_ec b) = Some 2"
    "pb_signed b = public_key braid_crypto (replicate 32 x)"
proof -
  let ?C = braid_crypto
  have ok: "engine_ok ?C g" using initialize_ok(1) [OF braid_prekey_laws assms(1)] .
  obtain k q r' where rp: "replenish ?C (eg_identity g) 1 1 (eg_prekeys g) r =
      (Inr (), (eg_prekeys g)\<lparr>ps_next_ec := 3, ps_ec := [(2, k)], ps_next_pq := 3, ps_pq := [(2, q)]\<rparr>, r')"
    using replenish_first [OF braid_prekey_laws assms(2-5)] by metis
  obtain res g1 where g1: "generate_public_prekey_bundle ?C r g 1 = (res, g1)" by (cases "generate_public_prekey_bundle ?C r g 1")
  obtain b where b: "res = Inr b" "store_public_bundle ?C (eg_identity g1) (eg_prekeys g1) = Inr b" "kept ?C g g1"
    "eg_prekeys g1 = (eg_prekeys g)\<lparr>ps_next_ec := 3, ps_ec := [(2, k)], ps_next_pq := 3, ps_pq := [(2, q)]\<rparr>"
    by (rule generate_bundle_cases [OF braid_prekey_laws ok g1]) (use rp in auto)
  have "store_ok ?C (eg_identity g1) (eg_prekeys g1)" using b(3) unfolding kept_def engine_ok_def by blast
  then have "oe_id k = 2" using b(4) by (simp add: store_ok_def ec_entry_ok_def)
  then have "map_option fst (pb_one_time_ec b) = Some 2" "pb_signed b = public_key ?C (replicate 32 x)"
    using b(2) assms(6) by (auto simp: store_public_bundle_def b(4) Let_def rd_simps)
  then show thesis using that g1 b(1) by blast
qed

text \<open>Two fresh engines of the same profile, and the keys the publisher draws.\<close>

lemma demo_pair:
  obtains gA gB b gB1 where "initialize_device braid_crypto (\<lambda>_ _. 3) [1] prof = Some (Inr gA)"
    "initialize_device braid_crypto (\<lambda>_ _. 4) [2] prof = Some (Inr gB)"
    "generate_public_prekey_bundle braid_crypto (\<lambda>_. 5) gB 1 = (Inr b, gB1)" "map_option fst (pb_one_time_ec b) = Some 2"
    "public_key braid_crypto (fst (secret_generate braid_crypto (\<lambda>_. 6))) \<noteq> pb_signed b" "\<forall>sid. sid_fresh gB sid"
    "engine_ok braid_crypto gA" "engine_ok braid_crypto gB" "eg_profile gA = eg_profile gB" "persisted gA" "persisted gB"
proof -
  obtain gA where a: "initialize_device braid_crypto (\<lambda>_ _. 3) [1] prof = Some (Inr gA)" by (rule demo_engine)
  obtain gB where b: "initialize_device braid_crypto (\<lambda>_ _. 4) [2] prof = Some (Inr gB)" "rc_order (eg_replay gB) = []"
    "ps_ec (eg_prekeys gB) = []" "ps_next_ec (eg_prekeys gB) = 2" "ps_pq (eg_prekeys gB) = []" "ps_next_pq (eg_prekeys gB) = 2"
    "sp_secret (ps_signed (eg_prekeys gB)) = replicate 32 4" by (rule demo_engine)
  obtain bd g1 where g: "generate_public_prekey_bundle braid_crypto (\<lambda>_. 5) gB 1 = (Inr bd, g1)"
    "map_option fst (pb_one_time_ec bd) = Some 2" "pb_signed bd = public_key braid_crypto (replicate 32 4)"
    by (rule demo_bundle [OF b(1,3-7)])
  have k: "public_key braid_crypto (fst (secret_generate braid_crypto (\<lambda>_. 6))) \<noteq> pb_signed bd"
    by (simp add: g(3) secret_generate_def fill_random_def plain_simps map_replicate_const public_key_def fit_def)
  show thesis
    by (rule that [OF a b(1) g(1,2) k])
       (use b(2) initialize_ok [OF braid_prekey_laws a] initialize_ok [OF braid_prekey_laws b(1)] in \<open>simp_all add: sid_fresh_def\<close>)
qed

lemma demo_accept:
  assumes "engine_ok braid_crypto gA" "engine_ok braid_crypto gB" "eg_profile gA = eg_profile gB"
    and "store_public_bundle braid_crypto (eg_identity gB) (eg_prekeys gB) = Inr b"
    and "public_key braid_crypto (fst (secret_generate braid_crypto (\<lambda>_. 6))) \<noteq> pb_signed b" "sid_fresh gB (next_session_id (\<lambda>_. 6))"
    and "length pt < 2 ^ 31"
  obtains p sh l0 l where "accepted braid_crypto (\<lambda>_ _. 6) gB p [9] [] (next_session_id (\<lambda>_. 6)) sh l0 l pt"
    "ip_opk p = map_option fst (pb_one_time_ec b)" "ip_pq p = pb_pq_id b" "packet_wf p"
proof -
  have L: "crypto_laws braid_crypto" using braid_prekey_laws braid_crypto_dr by (simp add: crypto_laws_def prekey_laws_def)
  from handshake_result [OF braid_prekey_laws braid_crypto_laws L assms(1-4) _ _ assms(7), of "\<lambda>_ _. 6" "\<lambda>_ _. 7" "[9]" "[]"] assms(5,6)
  show thesis using that by metis
qed

theorem engine_handshake_witness:
  "\<forall>prof. \<exists>gA gB b gB1 p gA' gB'.
     initialize_device braid_crypto (\<lambda>_ _. 3) [1] prof = Some (Inr gA) \<and> initialize_device braid_crypto (\<lambda>_ _. 4) [2] prof = Some (Inr gB) \<and>
     generate_public_prekey_bundle braid_crypto (\<lambda>_. 5) gB 1 = (Inr b, gB1) \<and>
     establish_outbound_session braid_crypto (\<lambda>_ _. 7) gA b [9] [42] [] = Some (Inr (next_session_id (\<lambda>_. 7), p), gA') \<and>
     process_inbound_session braid_crypto (\<lambda>_ _. 6) gB1 p [9] [] = Some (Inr (next_session_id (\<lambda>_. 6), [42]), gB')"
proof (rule allI)
  fix prof
  obtain gA gB b gB1 where d: "initialize_device braid_crypto (\<lambda>_ _. 3) [1] prof = Some (Inr gA)"
    "initialize_device braid_crypto (\<lambda>_ _. 4) [2] prof = Some (Inr gB)"
    "generate_public_prekey_bundle braid_crypto (\<lambda>_. 5) gB 1 = (Inr b, gB1)"
    "public_key braid_crypto (fst (secret_generate braid_crypto (\<lambda>_. 6))) \<noteq> pb_signed b" "sid_fresh gB (next_session_id (\<lambda>_. 6))"
    "engine_ok braid_crypto gA" "engine_ok braid_crypto gB" "eg_profile gA = eg_profile gB"
    by (rule demo_pair [of prof]) blast
  have l: "lens_ok braid_crypto" "kem_correct braid_crypto" "edwards_laws braid_crypto"
    using braid_prekey_laws by (simp_all add: prekey_laws_def)
  from engine_handshake [OF l(1) braid_crypto_dr(1,3,2) l(2,3) braid_crypto_dr(4) braid_crypto_laws d(6-8,3),
      of "\<lambda>_ _. 6" "[42]" "\<lambda>_ _. 7" "[9]" "[]"] d
  show "\<exists>gA gB b gB1 p gA' gB'.
     initialize_device braid_crypto (\<lambda>_ _. 3) [1] prof = Some (Inr gA) \<and> initialize_device braid_crypto (\<lambda>_ _. 4) [2] prof = Some (Inr gB) \<and>
     generate_public_prekey_bundle braid_crypto (\<lambda>_. 5) gB 1 = (Inr b, gB1) \<and>
     establish_outbound_session braid_crypto (\<lambda>_ _. 7) gA b [9] [42] [] = Some (Inr (next_session_id (\<lambda>_. 7), p), gA') \<and>
     process_inbound_session braid_crypto (\<lambda>_ _. 6) gB1 p [9] [] = Some (Inr (next_session_id (\<lambda>_. 6), [42]), gB')"
    by auto
qed

end
