(* ===== verification/VC_Engine_Image.thy ===== *)
theory VC_Engine_Image
  imports VC_Engine_Props
begin

text \<open>
  The engine as a transition system over all outcomes of its operations. Beside the engine runs an
  image of what its transactions have committed so far: every successful call commits the parts it is
  responsible for, a failed call commits nothing, and wiping the storage empties the image. The storage
  always holds exactly the serialized image, and a reload returns to it.
\<close>

subsection \<open>Committed images\<close>

record image =
  cm_identity :: "bytes option"
  cm_prekeys :: "prekey_store option"
  cm_replay :: "replay_cache option"
  cm_trust :: "trust_store option"
  cm_sessions :: "bytes \<Rightarrow> live_session option"

definition blank_image :: image where
  "blank_image = \<lparr>cm_identity = None, cm_prekeys = None, cm_replay = None, cm_trust = None, cm_sessions = Map.empty\<rparr>"

definition image_of :: "engine \<Rightarrow> image" where
  "image_of g = \<lparr>cm_identity = Some (eg_identity g), cm_prekeys = Some (eg_prekeys g), cm_replay = Some (eg_replay g),
     cm_trust = Some (eg_trust g), cm_sessions = hm_get (eg_sessions g)\<rparr>"

text \<open>The blob an image puts under a storage key.\<close>

definition image_blob :: "image \<Rightarrow> bytes \<Rightarrow> bytes option" where
  "image_blob im k =
     (if k = KEY_IDENTITY then map_option identity_serialize (cm_identity im)
      else if k = KEY_PREKEYS then map_option store_serialize (cm_prekeys im)
      else if k = KEY_REPLAY then map_option replay_serialize (cm_replay im)
      else if k = KEY_TRUST then map_option trust_serialize (cm_trust im)
      else map_option (encode_session k) (cm_sessions im k))"

text \<open>What the three transactions of the engine commit: the device state, a session with the replay cache and
  the trust store, and both.\<close>

definition commit_device :: "engine \<Rightarrow> image \<Rightarrow> image" where
  "commit_device g im = im\<lparr>cm_identity := Some (eg_identity g), cm_prekeys := Some (eg_prekeys g),
     cm_replay := Some (eg_replay g), cm_trust := Some (eg_trust g)\<rparr>"

definition commit_session :: "engine \<Rightarrow> bytes \<Rightarrow> image \<Rightarrow> image" where
  "commit_session g sid im = im\<lparr>cm_replay := Some (eg_replay g), cm_trust := Some (eg_trust g),
     cm_sessions := (cm_sessions im)(sid := hm_get (eg_sessions g) sid)\<rparr>"

definition commit_handshake :: "engine \<Rightarrow> bytes \<Rightarrow> image \<Rightarrow> image" where
  "commit_handshake g sid im = commit_session g sid (commit_device g im)"

definition forget_session :: "bytes \<Rightarrow> image \<Rightarrow> image" where
  "forget_session sid im = im\<lparr>cm_sessions := (cm_sessions im)(sid := None)\<rparr>"

lemmas image_defs = blank_image_def image_of_def commit_device_def commit_session_def commit_handshake_def forget_session_def

lemma image_blob_of: "image_blob (image_of g) = expected g"
  by (simp add: fun_eq_iff image_blob_def image_of_def expected_def)

lemma image_blob_blank: "image_blob blank_image k = None"
  by (simp add: image_blob_def blank_image_def)

lemma image_blob_device: "image_blob (commit_device g im) k = (if k \<in> device_keys then expected g k else image_blob im k)"
  by (auto simp: image_blob_def commit_device_def expected_def device_keys_def)

lemma image_blob_session:
  assumes "length sid = 16"
  shows "image_blob (commit_session g sid im) k = (if k \<in> {sid, KEY_REPLAY, KEY_TRUST} then expected g k else image_blob im k)"
  using sid_not_key [OF assms] by (auto simp: image_blob_def commit_session_def expected_def device_keys_def)

lemma image_blob_handshake:
  "length sid = 16 \<Longrightarrow> image_blob (commit_handshake g sid im) k = (if k \<in> insert sid device_keys then expected g k else image_blob im k)"
  by (auto simp: commit_handshake_def image_blob_session image_blob_device device_keys_def)

lemma image_blob_forget:
  assumes "length sid = 16"
  shows "image_blob (forget_session sid im) = (image_blob im)(sid := None)"
  using sid_not_key [OF assms] by (auto simp: fun_eq_iff image_blob_def forget_session_def device_keys_def)

subsection \<open>The storage holds the image\<close>

definition image_ok :: "crypto \<Rightarrow> bytes \<Rightarrow> image \<Rightarrow> bool" where
  "image_ok C ik im \<longleftrightarrow> (\<forall>i. cm_identity im = Some i \<longrightarrow> i = ik) \<and> (\<forall>ps. cm_prekeys im = Some ps \<longrightarrow> store_ok C ik ps) \<and>
     (\<forall>c. cm_replay im = Some c \<longrightarrow> rc_ok c) \<and> (\<forall>t. cm_trust im = Some t \<longrightarrow> trust_ok t) \<and>
     (\<forall>sid. cm_sessions im sid \<noteq> None \<longrightarrow> length sid = 16)"

definition mirrored :: "crypto \<Rightarrow> engine \<Rightarrow> image \<Rightarrow> bool" where
  "mirrored C g im \<longleftrightarrow> engine_ok C g \<and> image_ok C (eg_identity g) im \<and> (\<forall>k. ms_get (eg_storage g) k = image_blob im k)"

lemma mirrored_start: "engine_ok C g \<Longrightarrow> persisted g \<Longrightarrow> mirrored C g (image_of g)"
  by (simp add: mirrored_def image_blob_of persisted_def persisted_but_def) (simp add: image_ok_def engine_ok_def image_of_def)

lemma mirrored_commit:
  assumes "mirrored C g im" "engine_ok C g'" "eg_identity g' = eg_identity g"
  shows "wrote device_keys g g' \<Longrightarrow> mirrored C g' (commit_device g' im)"
    and "wrote {sid, KEY_REPLAY, KEY_TRUST} g g' \<Longrightarrow> length sid = 16 \<Longrightarrow> mirrored C g' (commit_session g' sid im)"
    and "wrote (insert sid device_keys) g g' \<Longrightarrow> length sid = 16 \<Longrightarrow> mirrored C g' (commit_handshake g' sid im)"
  using assms
  by (auto simp: mirrored_def wrote_def image_blob_device image_blob_session image_blob_handshake)
     (auto simp: image_ok_def engine_ok_def image_defs)

text \<open>Identifiers issued and gone in \<open>S\<close> are gone in memory and in the image.\<close>

definition retired :: "prekey_store \<Rightarrow> engine \<times> image \<Rightarrow> bool" where
  "retired S s \<longleftrightarrow> (case s of (g, im) \<Rightarrow> retires S (eg_prekeys g) \<and> (\<forall>ps. cm_prekeys im = Some ps \<longrightarrow> retires S ps))"

definition advances :: "crypto \<Rightarrow> engine \<times> image \<Rightarrow> engine \<times> image \<Rightarrow> bool" where
  "advances C s s' \<longleftrightarrow> mirrored C (fst s') (snd s') \<and> eg_identity (fst s') = eg_identity (fst s) \<and>
     (\<forall>S. retired S s \<longrightarrow> retired S s')"

lemma advances_trans: "advances C s t \<Longrightarrow> advances C t u \<Longrightarrow> advances C s u"
  by (simp add: advances_def)

lemma advances_memory: "mirrored C g im \<Longrightarrow> left_in_memory C g g' \<Longrightarrow> advances C (g, im) (g', im)"
  using retires_trans by (auto simp: advances_def left_in_memory_def mirrored_def retired_def)

lemma advances_same: "mirrored C g im \<Longrightarrow> advances C (g, im) (g, im)"
  by (simp add: advances_def)

lemma retired_step:
  assumes "retired S (g, im)" "kept C g g'" "cm_prekeys im' = cm_prekeys im \<or> cm_prekeys im' = Some (eg_prekeys g')"
  shows "retired S (g', im')"
  using assms retires_trans [of S "eg_prekeys g" "eg_prekeys g'"] by (auto simp: retired_def kept_def)

lemma commit_prekeys [simp]:
  "cm_prekeys (commit_device g im) = Some (eg_prekeys g)" "cm_prekeys (commit_session g sid im) = cm_prekeys im"
  "cm_prekeys (commit_handshake g sid im) = Some (eg_prekeys g)" "cm_prekeys (forget_session sid im) = cm_prekeys im"
  by (simp_all add: image_defs)

lemma advances_commit:
  assumes "mirrored C g im" "kept C g g'"
  shows "wrote device_keys g g' \<Longrightarrow> advances C (g, im) (g', commit_device g' im)"
    and "wrote {sid, KEY_REPLAY, KEY_TRUST} g g' \<Longrightarrow> length sid = 16 \<Longrightarrow> advances C (g, im) (g', commit_session g' sid im)"
    and "wrote (insert sid device_keys) g g' \<Longrightarrow> length sid = 16 \<Longrightarrow> advances C (g, im) (g', commit_handshake g' sid im)"
proof -
  have k: "engine_ok C g'" "eg_identity g' = eg_identity g" using assms(2) by (simp_all add: kept_def)
  note m = mirrored_commit [OF assms(1) k]
  show "wrote device_keys g g' \<Longrightarrow> advances C (g, im) (g', commit_device g' im)"
    "wrote {sid, KEY_REPLAY, KEY_TRUST} g g' \<Longrightarrow> length sid = 16 \<Longrightarrow> advances C (g, im) (g', commit_session g' sid im)"
    "wrote (insert sid device_keys) g g' \<Longrightarrow> length sid = 16 \<Longrightarrow> advances C (g, im) (g', commit_handshake g' sid im)"
    using m(1) m(2,3) [of sid] k(2) retired_step [OF _ assms(2)] by (simp_all add: advances_def)
qed

subsection \<open>Reload\<close>

text \<open>The sizes the blob formats can represent.\<close>

definition replay_part_fits :: "image \<Rightarrow> bool" where
  "replay_part_fits im \<longleftrightarrow> (\<forall>c. cm_replay im = Some c \<longrightarrow> replay_fits c)"

definition image_fits :: "features \<Rightarrow> crypto \<Rightarrow> image \<Rightarrow> bool" where
  "image_fits F C im \<longleftrightarrow> (\<forall>sid s. cm_sessions im sid = Some s \<longrightarrow> session_wf F C (sid, s)) \<and> replay_part_fits im \<and>
     (\<forall>t. cm_trust im = Some t \<longrightarrow> trust_fits t)"

lemma session_blob:
  "take 8 (encode_session sid s) = bstr ''VCSESS01''" "8 \<le> length (encode_session sid s)"
  by (simp_all add: encode_session_def)

lemma device_blob:
  assumes "k \<in> device_keys" "image_blob im k = Some b"
  shows "take 8 b \<noteq> bstr ''VCSESS01''"
proof -
  have "bstr ''VCIDENT1'' \<noteq> bstr ''VCSESS01''" "bstr ''VCPREK01'' \<noteq> bstr ''VCSESS01''"
    "bstr ''VCREPL01'' \<noteq> bstr ''VCSESS01''" "bstr ''VCTRUST1'' \<noteq> bstr ''VCSESS01''"
    by (simp_all add: bstr_def)
  then show ?thesis
    using assms
    by (auto simp: device_keys_def image_blob_def identity_serialize_def store_serialize_def replay_serialize_def trust_serialize_def)
qed

lemma ms_keys_get: "ms_ok sto \<Longrightarrow> k \<in> set (ms_keys sto) \<longleftrightarrow> ms_get sto k \<noteq> None"
  by (auto simp: ms_keys_def ms_get_def hm_get_def ms_ok_def map_of_eq_None_iff)

lemma restore_sessions_image:
  assumes "image_ok C ik im" "\<forall>sid s. cm_sessions im sid = Some s \<longrightarrow> session_wf F C (sid, s)" "hm_ok acc"
    and "\<forall>k \<in> set ks. ms_get sto k = image_blob im k \<and> image_blob im k \<noteq> None"
  shows "\<exists>m. restore_sessions F C sto ks acc = Inr m \<and> hm_ok m \<and>
    (\<forall>sid. hm_get m sid = (if sid \<in> set ks \<and> cm_sessions im sid \<noteq> None
       then map_option (\<lambda>s. s\<lparr>ls_tracker := tracker_new\<rparr>) (cm_sessions im sid) else hm_get acc sid))"
  using assms(3,4)
proof (induction ks arbitrary: acc)
  case (Cons k ks)
  then obtain b where b: "ms_get sto k = Some b" "image_blob im k = Some b" by auto
  show ?case
  proof (cases "k \<in> device_keys")
    case True
    have "cm_sessions im k = None" using True sid_not_key [of k] assms(1) by (auto simp: image_ok_def)
    then show ?thesis using Cons.IH [OF Cons.prems(1)] Cons.prems(2) device_blob [OF True b(2)] b by auto
  next
    case False
    then obtain s where s: "cm_sessions im k = Some s" "b = encode_session k s"
      using b(2) by (auto simp: image_blob_def device_keys_def)
    have "decode_session F C b = Inr (k, s\<lparr>ls_tracker := tracker_new\<rparr>)"
      unfolding s(2) by (rule decode_session_encode) (use assms(2) s(1) in blast)
    then show ?thesis
      using Cons.IH [of "hm_insert acc k (s\<lparr>ls_tracker := tracker_new\<rparr>)"] Cons.prems b(1) s session_blob [of k s] by auto
  qed
qed simp

lemma decode_session_sid: "decode_session F C b = Inr (sid, s) \<Longrightarrow> length sid = 16"
  by (simp add: decode_session_def rbind_Inr_iff split_paired_Ex take_n_iff split: if_splits)

lemma restored_sids:
  assumes "restore_sessions F C sto ks acc = Inr m" "hm_ok acc" "\<forall>sid. hm_get acc sid \<noteq> None \<longrightarrow> length sid = 16"
  shows "hm_ok m \<and> (\<forall>sid. hm_get m sid \<noteq> None \<longrightarrow> length sid = 16)"
  using assms
proof (induction F C sto ks acc rule: restore_sessions.induct)
  case (2 F C st key keys acc)
  from "2.prems"(1) obtain blob where b: "ms_get st key = Some blob" by (cases "ms_get st key") simp_all
  show ?case
  proof (cases "length blob < 8 \<or> take 8 blob \<noteq> bstr ''VCSESS01''")
    case True
    then show ?thesis using "2.IH"(1) [OF b True] "2.prems" b by simp
  next
    case False
    then obtain sid sess where d: "decode_session F C blob = Inr (sid, sess)"
      "restore_sessions F C st keys (hm_insert acc sid sess) = Inr m"
      using "2.prems"(1) b by (auto simp: rd_simps)
    note l = decode_session_sid [OF d(1)]
    show ?thesis by (rule "2.IH"(2) [OF b False d(2)]) (use l "2.prems"(2,3) in simp_all)
  qed
qed simp

lemma take_list_all:
  assumes "take_list rd n d = Inr (xs, r)" "\<And>d x r. rd d = Inr (x, r) \<Longrightarrow> P x"
  shows "\<forall>x \<in> set xs. P x"
  using assms(1)
proof (induction n arbitrary: d xs)
  case (Suc n)
  then obtain x d1 ys where "rd d = Inr (x, d1)" "take_list rd n d1 = Inr (ys, r)" "xs = x # ys"
    by (auto simp: rd_simps)
  with Suc.IH assms(2) show ?case by fastforce
qed simp

lemma trust_ok_foldl:
  "trust_ok t \<Longrightarrow> \<forall>p \<in> set xs. im_key (tr_identity (snd p)) = fst p \<Longrightarrow>
   trust_ok (foldl (\<lambda>m (k, v). hm_insert m k v) t xs)"
  by (induction xs arbitrary: t) (auto simp: trust_ok_insert)

text \<open>Whatever blob is read, the trust store that comes out is well formed.\<close>

lemma trust_deserialize_ok:
  assumes "trust_deserialize b = Inr t"
  shows "trust_ok t"
proof -
  obtain n xs where x: "take_list take_trust_record n (drop 12 b) = Inr (xs, [])" "t = hm_of_list xs"
    using assms by (auto simp: trust_deserialize_def rd_simps Let_def split: if_splits)
  have "\<forall>p \<in> set xs. im_key (tr_identity (snd p)) = fst p"
    by (rule take_list_all [OF x(1)]) (auto simp: take_trust_record_def rd_simps dest: public_from_bytes_same)
  then show ?thesis unfolding x(2) hm_of_list_def by (rule trust_ok_foldl [OF trust_ok_Nil])
qed

text \<open>What a reload of the image leaves: the parts that were committed, the others as they are in memory,
  and the identity trackers rebuilt from the trust store.\<close>

definition or_kept :: "'a option \<Rightarrow> 'a \<Rightarrow> 'a" where
  "or_kept x d = (case x of None \<Rightarrow> d | Some y \<Rightarrow> y)"

lemma or_kept_simps [simp]: "or_kept None d = d" "or_kept (Some y) d = y"
  by (simp_all add: or_kept_def)

definition restored :: "image \<Rightarrow> engine \<Rightarrow> engine \<Rightarrow> bool" where
  "restored im g g' \<longleftrightarrow> eg_identity g' = eg_identity g \<and> eg_device g' = eg_device g \<and> eg_profile g' = eg_profile g \<and>
     eg_storage g' = eg_storage g \<and>
     eg_prekeys g' = or_kept (cm_prekeys im) (eg_prekeys g) \<and>
     eg_replay g' = or_kept (cm_replay im) (eg_replay g) \<and>
     eg_trust g' = or_kept (cm_trust im) (eg_trust g) \<and>
     (\<forall>sid. hm_get (eg_sessions g') sid =
        map_option (\<lambda>s. s\<lparr>ls_tracker := tracker_for (eg_trust g') (ls_remote s)\<rparr>) (cm_sessions im sid))"

lemma mirrored_get:
  assumes "mirrored C g im"
  shows "ms_get (eg_storage g) KEY_IDENTITY = map_option identity_serialize (cm_identity im)"
    "ms_get (eg_storage g) KEY_PREKEYS = map_option store_serialize (cm_prekeys im)"
    "ms_get (eg_storage g) KEY_REPLAY = map_option replay_serialize (cm_replay im)"
    "ms_get (eg_storage g) KEY_TRUST = map_option trust_serialize (cm_trust im)"
  using assms by (simp_all add: mirrored_def image_blob_def)

lemma reload_device:
  assumes "mirrored C g im"
  shows "reload_identity C g = (Inr (), g)"
    and "reload_prekeys C g = (Inr (), g\<lparr>eg_prekeys := or_kept (cm_prekeys im) (eg_prekeys g)\<rparr>)"
proof -
  have ok: "length (eg_identity g) = 32" "static_secret C (eg_identity g) = eg_identity g" "image_ok C (eg_identity g) im"
    using assms by (simp_all add: mirrored_def engine_ok_def)
  show "reload_identity C g = (Inr (), g)"
    using ok ident.roundtrip [of "eg_identity g" C] mirrored_get(1) [OF assms]
    by (cases "cm_identity im") (auto simp: reload_identity_def image_ok_def)
  show "reload_prekeys C g = (Inr (), g\<lparr>eg_prekeys := or_kept (cm_prekeys im) (eg_prekeys g)\<rparr>)"
    using ok(3) prek.roundtrip mirrored_get(2) [OF assms]
    by (cases "cm_prekeys im") (auto simp: reload_prekeys_def image_ok_def)
qed

lemma reload_replay_image:
  assumes "mirrored C g im" "replay_part_fits im" "eg_storage h = eg_storage g"
  shows "reload_replay h = h\<lparr>eg_replay := or_kept (cm_replay im) (eg_replay h)\<rparr>"
  using assms(2,3) replay.roundtrip mirrored_get(3) [OF assms(1)]
  by (cases "cm_replay im") (auto simp: reload_replay_def replay_part_fits_def)

lemma reload_trust_image:
  assumes "mirrored C g im" "\<forall>t. cm_trust im = Some t \<longrightarrow> trust_fits t" "eg_storage h = eg_storage g"
  shows "reload_trust h = h\<lparr>eg_trust := or_kept (cm_trust im) (eg_trust h)\<rparr>"
  using assms(2,3) trust.roundtrip mirrored_get(4) [OF assms(1)]
  by (cases "cm_trust im") (auto simp: reload_trust_def)

lemma reload_trust_any: "trust_ok (eg_trust h) \<Longrightarrow> \<exists>t. reload_trust h = h\<lparr>eg_trust := t\<rparr> \<and> trust_ok t"
  by (auto simp: reload_trust_def split: option.split sum.split dest: trust_deserialize_ok intro: exI [of _ "eg_trust h"])

text \<open>A reload keeps the invariant and the storage whether it succeeds or not, and returns the prekeys to those committed.\<close>

lemma reload_any:
  assumes "mirrored C g im" "replay_part_fits im" "simulate_crash_reload F C g = (res, g')"
  shows "engine_ok C g' \<and> eg_identity g' = eg_identity g \<and> eg_storage g' = eg_storage g \<and>
    eg_prekeys g' = or_kept (cm_prekeys im) (eg_prekeys g)"
proof -
  let ?ps = "or_kept (cm_prekeys im) (eg_prekeys g)"
  have ok: "engine_ok C g" "image_ok C (eg_identity g) im" using assms(1) by (simp_all add: mirrored_def)
  then have "store_ok C (eg_identity g) ?ps" by (auto simp: image_ok_def engine_ok_def or_kept_def split: option.split)
  with ok(1) have ok1: "engine_ok C (g\<lparr>eg_prekeys := ?ps\<rparr>)" by (rule engine_ok_prekeys)
  show ?thesis
  proof (cases "restore_sessions F C (eg_storage g) (ms_keys (eg_storage g)) []")
    case (Inl e)
    then show ?thesis using assms(3) ok1 by (auto simp: simulate_crash_reload_def reload_device [OF assms(1)])
  next
    case (Inr m)
    have m: "hm_ok m" "\<forall>sid. hm_get m sid \<noteq> None \<longrightarrow> length sid = 16" using restored_sids [OF Inr] by simp_all
    let ?h = "g\<lparr>eg_prekeys := ?ps, eg_sessions := m, eg_replay := or_kept (cm_replay im) (eg_replay g)\<rparr>"
    have okh: "engine_ok C ?h" using ok1 m ok(2) by (auto simp: engine_ok_def image_ok_def or_kept_def split: option.split)
    obtain t where t: "reload_trust ?h = ?h\<lparr>eg_trust := t\<rparr>" "trust_ok t"
      using reload_trust_any [of ?h] okh by (auto simp: engine_ok_def)
    have "g' = reload_trackers (?h\<lparr>eg_trust := t\<rparr>)"
      using assms(3) Inr t(1) reload_replay_image [OF assms(1,2), of "g\<lparr>eg_prekeys := ?ps, eg_sessions := m\<rparr>"]
      by (simp add: simulate_crash_reload_def reload_device [OF assms(1)])
    then show ?thesis using okh t(2) by (auto simp: reload_trackers_def engine_ok_def hm_get_map hm_ok_map)
  qed
qed

lemma reload_image:
  assumes "mirrored C g im" "image_fits F C im"
  obtains g' where "simulate_crash_reload F C g = (Inr (), g')" "restored im g g'" "hm_ok (eg_sessions g')"
proof -
  let ?ps = "or_kept (cm_prekeys im) (eg_prekeys g)"
  let ?c = "or_kept (cm_replay im) (eg_replay g)" and ?t = "or_kept (cm_trust im) (eg_trust g)"
  have ok: "ms_ok (eg_storage g)" "image_ok C (eg_identity g) im" "\<forall>k. ms_get (eg_storage g) k = image_blob im k"
    using assms(1) by (simp_all add: mirrored_def engine_ok_def idle_storage_def)
  have f: "\<forall>sid s. cm_sessions im sid = Some s \<longrightarrow> session_wf F C (sid, s)" "replay_part_fits im"
    "\<forall>t. cm_trust im = Some t \<longrightarrow> trust_fits t" using assms(2) by (simp_all add: image_fits_def)
  have "\<forall>k \<in> set (ms_keys (eg_storage g)). ms_get (eg_storage g) k = image_blob im k \<and> image_blob im k \<noteq> None"
    using ms_keys_get [OF ok(1)] ok(3) by simp
  from restore_sessions_image [OF ok(2) f(1) _ this, of "[]"] obtain m where m:
    "restore_sessions F C (eg_storage g) (ms_keys (eg_storage g)) [] = Inr m" "hm_ok m"
    "\<forall>sid. hm_get m sid = (if sid \<in> set (ms_keys (eg_storage g)) \<and> cm_sessions im sid \<noteq> None
       then map_option (\<lambda>s. s\<lparr>ls_tracker := tracker_new\<rparr>) (cm_sessions im sid) else None)" by auto
  have key: "sid \<in> set (ms_keys (eg_storage g))" if "cm_sessions im sid = Some s" for sid s
  proof -
    have "sid \<notin> device_keys" using that ok(2) sid_not_key by (auto simp: image_ok_def)
    then show ?thesis using that ms_keys_get [OF ok(1)] ok(3) by (simp add: image_blob_def device_keys_def)
  qed
  have get: "hm_get m sid = map_option (\<lambda>s. s\<lparr>ls_tracker := tracker_new\<rparr>) (cm_sessions im sid)" for sid
    using m(3) key [of sid] by (cases "cm_sessions im sid") auto
  let ?h = "g\<lparr>eg_prekeys := ?ps, eg_sessions := m, eg_replay := ?c, eg_trust := ?t\<rparr>"
  have e: "simulate_crash_reload F C g = (Inr (), reload_trackers ?h)"
    using m(1) reload_replay_image [OF assms(1) f(2), of "g\<lparr>eg_prekeys := ?ps, eg_sessions := m\<rparr>"]
      reload_trust_image [OF assms(1) f(3), of "g\<lparr>eg_prekeys := ?ps, eg_sessions := m, eg_replay := ?c\<rparr>"]
    by (simp add: simulate_crash_reload_def reload_device [OF assms(1)])
  have "restored im g (reload_trackers ?h)"
    by (simp add: restored_def reload_trackers_def hm_get_map get option.map_comp comp_def)
  then show thesis using that [OF e] m(2) by (simp add: reload_trackers_def hm_ok_map)
qed

subsection \<open>All outcomes of all operations\<close>

inductive engine_move :: "features \<Rightarrow> crypto \<Rightarrow> engine \<times> image \<Rightarrow> engine \<times> image \<Rightarrow> bool" for F C where
  move_bundle: "generate_public_prekey_bundle C r g n = (res, g') \<Longrightarrow>
     engine_move F C (g, im) (g', if isl res then im else commit_device g' im)"
| move_encrypt: "engine_encrypt C r g sid pt ad = Some (res, g') \<Longrightarrow>
     engine_move F C (g, im) (g', if isl res then im else commit_session g' sid im)"
| move_voice: "encrypt_voice_payload C r g sid pt ad = Some (res, g') \<Longrightarrow>
     engine_move F C (g, im) (g', if isl res then im else commit_session g' sid im)"
| move_decrypt: "engine_decrypt C r g sid m ad = Some (res, g') \<Longrightarrow>
     engine_move F C (g, im) (g', if isl res then im else commit_session g' sid im)"
| move_outbound: "establish_outbound_session C rs g b cid pt ad = Some (res, g') \<Longrightarrow>
     engine_move F C (g, im) (g', case res of Inl e \<Rightarrow> im | Inr (sid, p) \<Rightarrow> commit_session g' sid im)"
| move_inbound: "process_inbound_session C rs g p cid ad = Some (res, g') \<Longrightarrow>
     engine_move F C (g, im) (g', case res of Inl e \<Rightarrow> im | Inr (sid, pt) \<Rightarrow> commit_handshake g' sid im)"
| move_acknowledge: "acknowledge_identity_change g remote device = (res, g') \<Longrightarrow>
     engine_move F C (g, im) (g', if isl res then im else commit_device g' im)"
| move_delete: "delete_session g sid = (res, g') \<Longrightarrow>
     engine_move F C (g, im) (g', if isl res then im else forget_session sid im)"
| move_delete_all: "delete_all_sessions g = (res, g') \<Longrightarrow> engine_move F C (g, im) (g', blank_image)"
| move_crash: "replay_part_fits im \<Longrightarrow> simulate_crash_reload F C g = (res, g') \<Longrightarrow> engine_move F C (g, im) (g', im)"

lemma encrypt_advances:
  assumes "mirrored C g im" "engine_encrypt C r g sid pt ad = Some (res, g')"
  shows "advances C (g, im) (g', if isl res then im else commit_session g' sid im)"
proof -
  have ok: "engine_ok C g" using assms(1) by (simp add: mirrored_def)
  have k: "kept C g g'" using ok assms(2) by (rule engine_encrypt_kept)
  show ?thesis
    by (rule engine_encrypt_cases [OF ok assms(2)])
       (use advances_same [OF assms(1)] advances_commit(2) [OF assms(1) k] engine_ok_sid [OF ok] in simp_all)
qed

lemma decrypt_advances:
  assumes "mirrored C g im" "engine_decrypt C r g sid m ad = Some (res, g')"
  shows "advances C (g, im) (g', if isl res then im else commit_session g' sid im)"
proof -
  have ok: "engine_ok C g" using assms(1) by (simp add: mirrored_def)
  have k: "kept C g g'" using ok assms(2) by (rule engine_decrypt_kept)
  show ?thesis
    by (rule engine_decrypt_cases [OF ok assms(2)])
       (use advances_same [OF assms(1)] advances_commit(2) [OF assms(1) k] engine_ok_sid [OF ok] in simp_all)
qed

lemma bundle_advances:
  assumes "prekey_laws C" "mirrored C g im" "generate_public_prekey_bundle C r g n = (res, g')"
  shows "advances C (g, im) (g', if isl res then im else commit_device g' im)"
proof -
  have ok: "engine_ok C g" using assms(2) by (simp add: mirrored_def)
  show ?thesis
  proof (rule generate_bundle_cases [OF assms(1) ok assms(3)])
    assume f: "res = Inl CeLimitExceeded" "engine_ok C g'" "retires (eg_prekeys g) (eg_prekeys g')" "\<exists>ps. g' = g\<lparr>eg_prekeys := ps\<rparr>"
    then have "left_in_memory C g g'" by (auto simp: left_in_memory_def)
    with f(1) show ?thesis using advances_memory [OF assms(2)] by simp
  next
    fix b assume "res = Inr b" "kept C g g'" "wrote device_keys g g'"
    then show ?thesis using advances_commit(1) [OF assms(2)] by simp
  qed
qed

lemma outbound_advances:
  assumes "mirrored C g im" "establish_outbound_session C rs g b cid pt ad = Some (res, g')"
  shows "advances C (g, im) (g', case res of Inl e \<Rightarrow> im | Inr (sid, p) \<Rightarrow> commit_session g' sid im)"
proof (cases res)
  case (Inl e)
  then show ?thesis using advances_memory [OF assms(1)] outbound_failed [of C g] assms by (simp add: mirrored_def)
next
  case (Inr x)
  have ok: "engine_ok C g" using assms(1) by (simp add: mirrored_def)
  obtain sid p where x: "x = (sid, p)" by (cases x)
  obtain l a m where e: "engine_encrypt C (rs 3) (opened g sid (pb_identity b) l cid a) sid pt ad = Some (Inr m, g')" "length sid = 16"
    by (rule outbound_cases [OF assms(2) [unfolded Inr x]]) simp
  have ok1: "engine_ok C (opened g sid (pb_identity b) l cid a)" using ok e(2) by (rule opened_ok)
  have "wrote {sid, KEY_REPLAY, KEY_TRUST} g g'"
    by (rule engine_encrypt_cases [OF ok1 e(1)]) (simp_all add: wrote_def)
  then show ?thesis
    using advances_commit(2) [OF assms(1) outbound_kept [OF ok assms(2) [unfolded Inr]]] Inr x e(2) by simp
qed

lemma inbound_advances:
  assumes "mirrored C g im" "process_inbound_session C rs g p cid ad = Some (res, g')"
  shows "advances C (g, im) (g', case res of Inl e \<Rightarrow> im | Inr (sid, pt) \<Rightarrow> commit_handshake g' sid im)"
proof (cases res)
  case (Inl e)
  then show ?thesis using advances_memory [OF assms(1)] inbound_failed [of C g] assms by (simp add: mirrored_def)
next
  case (Inr x)
  have ok: "engine_ok C g" using assms(1) by (simp add: mirrored_def)
  obtain sid pt where x: "x = (sid, pt)" by (cases x)
  show ?thesis
    by (rule inbound_cases [OF ok assms(2) [unfolded Inr x]])
       (use advances_commit(3) [OF assms(1), of g'] in \<open>auto simp: accepted_def Inr x\<close>)
qed

lemma delete_advances:
  assumes "mirrored C g im" "delete_session g sid = (res, g')"
  shows "advances C (g, im) (g', if isl res then im else forget_session sid im)"
proof -
  have ok: "engine_ok C g" using assms(1) by (simp add: mirrored_def)
  note d = delete_session_result [OF ok assms(2)]
  show ?thesis
  proof (cases "isl res")
    case True
    then show ?thesis using d advances_same [OF assms(1)] by simp
  next
    case False
    with d have g': "kept C g g'" "ms_get (eg_storage g') = (ms_get (eg_storage g))(sid := None)" "length sid = 16" by simp_all
    have "mirrored C g' (forget_session sid im)"
      using assms(1) g' by (simp add: mirrored_def kept_def image_blob_forget) (simp add: image_ok_def forget_session_def)
    then show ?thesis using False g'(1) retired_step [OF _ g'(1)] by (simp add: advances_def kept_def)
  qed
qed

lemma delete_all_advances:
  assumes "mirrored C g im" "delete_all_sessions g = (res, g')"
  shows "advances C (g, im) (g', blank_image)"
proof -
  have g': "g' = g\<lparr>eg_sessions := [], eg_storage := ms_clear (eg_storage g)\<rparr>" using assms(2) by (simp add: delete_all_sessions_def)
  have "ms_get (ms_clear (eg_storage g)) k = None" for k by (simp add: ms_get_def ms_clear_def)
  then show ?thesis
    using assms(1) ms_ok_ops(7) [of "eg_storage g"]
    by (simp add: g' advances_def mirrored_def engine_ok_def image_blob_blank idle_storage_def image_ok_def retired_def)
       (simp add: blank_image_def ms_clear_def ms_pending_def)
qed

lemma crash_advances:
  assumes "mirrored C g im" "replay_part_fits im" "simulate_crash_reload F C g = (res, g')"
  shows "advances C (g, im) (g', im)"
  using reload_any [OF assms] assms(1)
  by (cases "cm_prekeys im") (auto simp: advances_def mirrored_def retired_def)

lemma engine_move_advances:
  assumes "prekey_laws C" "engine_move F C s s'" "mirrored C (fst s) (snd s)"
  shows "advances C s s'"
  using assms(2)
proof cases
  case (move_voice r g sid pt ad res g' im)
  then show ?thesis
    using encrypt_advances [of C g im r sid pt ad res g'] advances_same assms(3)
    by (auto simp: encrypt_voice_payload_def split: if_splits)
next
  case (move_acknowledge g remote device res g' im)
  have m: "mirrored C g im" using assms(3) move_acknowledge by simp
  then have ok: "engine_ok C g" by (simp add: mirrored_def)
  show ?thesis
    by (rule acknowledge_cases [OF ok move_acknowledge(3)])
       (use advances_same [OF m] advances_commit(1) [OF m] move_acknowledge in simp_all)
qed (use assms(1,3) in \<open>simp_all add: bundle_advances encrypt_advances decrypt_advances outbound_advances inbound_advances
       delete_advances delete_all_advances crash_advances\<close>)

lemma engine_moves_advance:
  assumes "prekey_laws C" "(engine_move F C)\<^sup>*\<^sup>* s s'" "mirrored C (fst s) (snd s)"
  shows "advances C s s'"
  using assms(2)
proof induction
  case base
  show ?case using advances_same [of C "fst s" "snd s"] assms(3) by simp
next
  case (step t u)
  then show ?case using engine_move_advances [OF assms(1) step(2)] advances_trans [of C s t u] by (auto simp: advances_def [of C s t])
qed

end
