(* ===== verification/VC_Engine_Rng.thy ===== *)
theory VC_Engine_Rng
  imports VC_Engine
begin

text \<open>
  What a decryption delivers does not depend on the random generator: the fresh key pair that a Diffie-Hellman
  step draws goes into the state for the next sending chain, never into the key of the message at hand. One
  lemma per ratchet profile, and one for the live ratchet of a session.
\<close>

subsection \<open>Double Ratchet\<close>

text \<open>The part of the state that deriving a message key reads after a Diffie-Hellman step.\<close>

definition receiving_part :: "dr_state \<Rightarrow> dr_state" where
  "receiving_part s = s\<lparr>dhs := None, rk := [], cks := None\<rparr>"

lemma receiving_part_simps [simp]:
  "nr (receiving_part s) = nr s" "mkskipped (receiving_part s) = mkskipped s" "max_skip (receiving_part s) = max_skip s"
  "dhr (receiving_part s) = dhr s" "ckr (receiving_part s) = ckr s"
  "receiving_part (s\<lparr>mkskipped := m\<rparr>) = (receiving_part s)\<lparr>mkskipped := m\<rparr>"
  "receiving_part (s\<lparr>nr := n\<rparr>) = (receiving_part s)\<lparr>nr := n\<rparr>" "receiving_part (s\<lparr>ckr := c\<rparr>) = (receiving_part s)\<lparr>ckr := c\<rparr>"
  by (simp_all add: receiving_part_def)

lemma skip_loop_part: "skip_loop C until ck (receiving_part s) = apsnd receiving_part (skip_loop C until ck s)"
proof (induction C until ck s rule: skip_loop.induct)
  case (1 C until ck s)
  show ?case
    by (subst (1 2) skip_loop.simps) (use 1 in \<open>auto simp: Let_def split: sum.split option.split\<close>)
qed

lemma skip_message_keys_part:
  "skip_message_keys C until (receiving_part s) = apsnd receiving_part (skip_message_keys C until s)"
  by (cases "checked_add (nr s) (max_skip s)"; cases "ckr s")
     (auto simp: skip_message_keys_def skip_loop_part sbind_def split: sum.split prod.split)

definition receive_tail :: "crypto \<Rightarrow> u32 \<Rightarrow> dr_state \<Rightarrow> (prim_error + bytes) \<times> dr_state" where
  "receive_tail C n s =
     sbind (skip_message_keys C n s) (\<lambda>_ s.
     sbind (ok_or Internal (ckr s), s) (\<lambda>ck s.
     sbind (kdf_ck C ck, s) (\<lambda>(new_ckr, mk) s.
       let s2 = s\<lparr>ckr := Some new_ckr\<rparr>
       in sbind (checked_inc (nr s2), s2) (\<lambda>n' s. (Inr mk, s\<lparr>nr := n'\<rparr>)))))"

lemma receive_tail_part: "receive_tail C n (receiving_part s) = apsnd receiving_part (receive_tail C n s)"
proof -
  obtain x t where "skip_message_keys C n s = (x, t)" by (cases "skip_message_keys C n s")
  then show ?thesis
    by (cases x; cases "ckr t"; cases "checked_inc (nr t)") (simp_all add: receive_tail_def skip_message_keys_part kdf_ck_def Let_def)
qed

lemma receive_tail_fst: "receiving_part s = receiving_part s' \<Longrightarrow> fst (receive_tail C n s) = fst (receive_tail C n s')"
  using receive_tail_part [of C n s] receive_tail_part [of C n s'] by (metis apsnd_conv fst_conv surj_pair)

lemma dh_ratchet_rng:
  assumes "lens_ok C"
  shows "fst (dh_ratchet C r h s) = fst (dh_ratchet C r' h s)"
    and "receiving_part (snd (dh_ratchet C r h s)) = receiving_part (snd (dh_ratchet C r' h s))"
proof -
  obtain f g where k: "\<And>a d. kdf_rk C a d = Inr (f a d, g a d)" using kdf_rk_total [OF assms] by metis
  show "fst (dh_ratchet C r h s) = fst (dh_ratchet C r' h s)"
    "receiving_part (snd (dh_ratchet C r h s)) = receiving_part (snd (dh_ratchet C r' h s))"
    by (cases "dhs s"; simp add: dh_ratchet_def k Let_def receiving_part_def)+
qed

lemma ratchet_receive_rng:
  assumes "lens_ok C"
  shows "fst (ratchet_receive_key C r h s) = fst (ratchet_receive_key C r' h s)"
proof (cases "fst (try_skipped_message_keys h s)")
  case (Some mk)
  then show ?thesis by (cases "try_skipped_message_keys h s") (simp add: ratchet_receive_key_def)
next
  case None
  define s1 where "s1 = snd (try_skipped_message_keys h s)"
  have t: "try_skipped_message_keys h s = (None, s1)" using None by (simp add: s1_def prod_eq_iff)
  have eq: "ratchet_receive_key C q h s = (if dhr s1 \<noteq> Some (h_dh h)
      then sbind (skip_message_keys C (h_pn h) s1) (\<lambda>_ s. sbind (dh_ratchet C q h s) (\<lambda>_. receive_tail C (h_n h)))
      else receive_tail C (h_n h) s1)" for q
    by (simp add: ratchet_receive_key_def t receive_tail_def [abs_def] sbind_assoc)
  obtain x u where u: "skip_message_keys C (h_pn h) s1 = (x, u)" by (cases "skip_message_keys C (h_pn h) s1")
  obtain y v y' v' where v: "dh_ratchet C r h u = (y, v)" "dh_ratchet C r' h u = (y', v')" by fastforce
  have "y = y'" "receiving_part v = receiving_part v'" using dh_ratchet_rng [OF assms, of r h u r'] v by simp_all
  then have "fst (sbind (y, v) (\<lambda>_. receive_tail C (h_n h))) = fst (sbind (y', v') (\<lambda>_. receive_tail C (h_n h)))"
    using receive_tail_fst [of v v' C] by (cases y') simp_all
  then show ?thesis using u v by (cases x) (simp_all add: eq)
qed

lemma dr_decrypt_rng: "lens_ok C \<Longrightarrow> fst (dr_decrypt C r s h ct ad) = fst (dr_decrypt C r' s h ct ad)"
  using ratchet_receive_rng [of C r h "clone_for_trial C s" r']
  by (cases "ratchet_receive_key C r h (clone_for_trial C s)"; cases "ratchet_receive_key C r' h (clone_for_trial C s)")
     (auto simp: dr_decrypt_def split: sum.split)

subsection \<open>Header encryption\<close>

definition he_receiving_part :: "he_state \<Rightarrow> he_state" where
  "he_receiving_part s = s\<lparr>e_dhs := None, e_rk := [], e_cks := None, e_nhks := None\<rparr>"

lemma he_receiving_part_simps [simp]:
  "e_nr (he_receiving_part s) = e_nr s" "e_skipped (he_receiving_part s) = e_skipped s" "e_max_skip (he_receiving_part s) = e_max_skip s"
  "e_hkr (he_receiving_part s) = e_hkr s" "e_ckr (he_receiving_part s) = e_ckr s"
  "he_receiving_part (s\<lparr>e_skipped := m\<rparr>) = (he_receiving_part s)\<lparr>e_skipped := m\<rparr>"
  "he_receiving_part (s\<lparr>e_nr := n\<rparr>) = (he_receiving_part s)\<lparr>e_nr := n\<rparr>"
  "he_receiving_part (s\<lparr>e_ckr := c\<rparr>) = (he_receiving_part s)\<lparr>e_ckr := c\<rparr>"
  by (simp_all add: he_receiving_part_def)

lemma he_skip_loop_part:
  "he_skip_loop C hk until ck (he_receiving_part s) = apsnd he_receiving_part (he_skip_loop C hk until ck s)"
proof (induction C hk until ck s rule: he_skip_loop.induct)
  case (1 C hk until ck s)
  show ?case
    by (subst (1 2) he_skip_loop.simps) (use 1 in \<open>auto simp: Let_def split: sum.split\<close>)
qed

lemma he_skip_message_keys_part:
  "he_skip_message_keys C until (he_receiving_part s) = apsnd he_receiving_part (he_skip_message_keys C until s)"
  by (cases "e_ckr s"; cases "e_hkr s") (auto simp: he_skip_message_keys_def he_skip_loop_part sbind_def split: sum.split prod.split)

lemma he_advance_part: "he_advance C n (he_receiving_part s) = apsnd he_receiving_part (he_advance C n s)"
proof -
  obtain x t where "he_skip_message_keys C n s = (x, t)" by (cases "he_skip_message_keys C n s")
  then show ?thesis
    by (cases x; cases "e_ckr t"; cases "checked_inc (e_nr t)")
       (auto simp: he_advance_def he_skip_message_keys_part Let_def sbind_def split: sum.split)
qed

lemma he_advance_fst: "he_receiving_part s = he_receiving_part s' \<Longrightarrow> fst (he_advance C n s) = fst (he_advance C n s')"
  using he_advance_part [of C n s] he_advance_part [of C n s'] by (metis apsnd_conv fst_conv surj_pair)

lemma he_dh_ratchet_rng:
  assumes "lens_ok C"
  shows "fst (he_dh_ratchet C r h s) = fst (he_dh_ratchet C r' h s)"
    and "he_receiving_part (snd (he_dh_ratchet C r h s)) = he_receiving_part (snd (he_dh_ratchet C r' h s))"
proof -
  have "\<exists>x y z. kdf_rk_he C a d = Inr (x, y, z)" for a d by (rule kdf_rk_he_ok [OF assms, of a d]) auto
  then obtain f g k where k: "\<And>a d. kdf_rk_he C a d = Inr (f a d, g a d, k a d)" by metis
  show "fst (he_dh_ratchet C r h s) = fst (he_dh_ratchet C r' h s)"
    "he_receiving_part (snd (he_dh_ratchet C r h s)) = he_receiving_part (snd (he_dh_ratchet C r' h s))"
    by (cases "e_dhs s"; simp add: he_dh_ratchet_def k Let_def he_receiving_part_def)+
qed

lemma he_receive_rng:
  assumes "lens_ok C"
  shows "fst (he_receive_key C r enc s) = fst (he_receive_key C r' enc s)"
proof -
  have step: "fst (sbind (he_dh_ratchet C r h u) (\<lambda>_. he_advance C n)) = fst (sbind (he_dh_ratchet C r' h u) (\<lambda>_. he_advance C n))" for h n u
  proof -
    obtain y v y' v' where v: "he_dh_ratchet C r h u = (y, v)" "he_dh_ratchet C r' h u = (y', v')" by fastforce
    have "y = y'" "he_receiving_part v = he_receiving_part v'" using he_dh_ratchet_rng [OF assms, of r h u r'] v by simp_all
    then show ?thesis using v he_advance_fst [of v v' C] by (cases y') simp_all
  qed
  then have "fst (sbind m (\<lambda>_ s. sbind (he_dh_ratchet C r h s) (\<lambda>_. he_advance C n))) =
      fst (sbind m (\<lambda>_ s. sbind (he_dh_ratchet C r' h s) (\<lambda>_. he_advance C n)))" for m :: "(prim_error + unit) \<times> he_state" and h n
    by (cases m; cases "fst m") simp_all
  then show ?thesis by (auto simp: he_receive_key_def split: option.split prod.split)
qed

lemma he_decrypt_rng: "lens_ok C \<Longrightarrow> fst (he_decrypt C r s enc ct ad) = fst (he_decrypt C r' s enc ct ad)"
  using he_receive_rng [of C r enc "he_clone_for_trial C s" r']
  by (cases "he_receive_key C r enc (he_clone_for_trial C s)"; cases "he_receive_key C r' enc (he_clone_for_trial C s)")
     (auto simp: he_decrypt_def split: sum.split)

subsection \<open>Triple Ratchet\<close>

text \<open>Two runs that agree on everything but the classical ratchet.\<close>

definition same_but_classical :: "(('e + 'a) \<times> triple) option \<Rightarrow> (('e + 'a) \<times> triple) option \<Rightarrow> bool" where
  "same_but_classical m m' \<longleftrightarrow>
     map_option (\<lambda>(x, t). (x, t_spqr t, t_braid t)) m = map_option (\<lambda>(x, t). (x, t_spqr t, t_braid t)) m'"

lemma same_but_classical_pbind:
  assumes "same_but_classical m m'"
    and "\<And>a t t'. t_spqr t = t_spqr t' \<Longrightarrow> t_braid t = t_braid t' \<Longrightarrow> same_but_classical (f a t) (f a t')"
  shows "same_but_classical (pbind m f) (pbind m' f)"
proof (cases m)
  case None
  then show ?thesis using assms(1) by (simp add: same_but_classical_def)
next
  case (Some y)
  obtain x t where y: "y = (x, t)" by (cases y)
  obtain t' where m': "m' = Some (x, t')" "t_spqr t = t_spqr t'" "t_braid t = t_braid t'"
    using assms(1) by (cases m') (auto simp: same_but_classical_def Some y)
  show ?thesis
  proof (cases x)
    case (Inl e)
    then show ?thesis using m' by (simp add: Some y same_but_classical_def)
  next
    case (Inr a)
    then show ?thesis using assms(2) [OF m'(2,3), of a] m'(1) by (simp add: Some y)
  qed
qed

lemma same_but_classical_pure:
  "t_spqr t = t_spqr t' \<Longrightarrow> t_braid t = t_braid t' \<Longrightarrow> same_but_classical (Some (x, t)) (Some (x, t'))"
  by (simp add: same_but_classical_def)

lemma same_but_classical_spqr:
  "t_spqr t = t_spqr t' \<Longrightarrow> t_braid t = t_braid t' \<Longrightarrow> same_but_classical (on_spqr t m) (on_spqr t' m)"
  by (cases m) (auto simp: same_but_classical_def on_spqr_def split: prod.split)

lemma same_but_classical_receive:
  assumes "lens_ok C"
  shows "same_but_classical (on_classical t (receive_message_key C r h (t_classical t))) (on_classical t (receive_message_key C r' h (t_classical t)))"
  using ratchet_receive_rng [OF assms, of r h "t_classical t" r']
  by (cases "ratchet_receive_key C r h (t_classical t)"; cases "ratchet_receive_key C r' h (t_classical t)")
     (simp add: same_but_classical_def on_classical_def receive_message_key_def)

lemmas same_but_classical_intros = same_but_classical_pbind same_but_classical_pure same_but_classical_spqr

lemma trial_decrypt_rng:
  assumes "lens_ok C"
  shows "same_but_classical (trial_decrypt C r t h ct ad) (trial_decrypt C r' t h ct ad)"
proof -
  define open_rest where "open_rest = (\<lambda>pending ec_mk t.
     pbind (on_spqr t (Some (q_receive_key C (t_spqr t) (th_pq_epoch h) (th_pq_n h)))) (\<lambda>pq_mk t.
     pbind (Some (kdf_hybrid C ec_mk pq_mk, t)) (\<lambda>hybrid_mk t.
     pbind (Some (aead_from_hybrid C hybrid_mk, t)) (\<lambda>(key, nonce) t.
     pbind (Some (aead_open C key nonce ct (concat_triple_ad ad h), t)) (\<lambda>plaintext t.
     pbind (case pending of
              Some k \<Rightarrow> pbind (on_spqr t (q_advance_epoch C (t_spqr t) k)) (\<lambda>_ t. Some (Inr (), t))
            | None \<Rightarrow> Some (Inr (), t)) (\<lambda>_ t.
       Some (Inr plaintext, t)))))))"
  have rest: "same_but_classical (open_rest pending ec_mk u) (open_rest pending ec_mk u')"
    if "t_spqr u = t_spqr u'" "t_braid u = t_braid u'" for pending ec_mk u u'
    unfolding open_rest_def using that
    by (auto intro!: same_but_classical_intros simp: that split: option.split)
  have eq: "trial_decrypt C q t h ct ad = pbind (trial_scka C t h) (\<lambda>pending t.
      pbind (on_classical t (receive_message_key C q (th_classical h) (t_classical t))) (open_rest pending))" for q
    by (simp add: trial_decrypt_def open_rest_def)
  have step: "same_but_classical (pbind (on_classical u (receive_message_key C r (th_classical h) (t_classical u))) (open_rest pending))
      (pbind (on_classical u (receive_message_key C r' (th_classical h) (t_classical u))) (open_rest pending))" for u pending
    by (intro same_but_classical_pbind same_but_classical_receive assms rest)
  show ?thesis
  proof (cases "trial_scka C t h")
    case None
    then show ?thesis by (simp add: eq same_but_classical_def)
  next
    case (Some y)
    then show ?thesis by (cases y; cases "fst y") (simp_all add: eq step same_but_classical_pure)
  qed
qed

lemma triple_decrypt_rng:
  assumes "lens_ok C"
  shows "map_option fst (triple_decrypt C r t h ct ad) = map_option fst (triple_decrypt C r' t h ct ad)"
  using trial_decrypt_rng [OF assms, of r "trial_clone C t" h ct ad r']
  by (cases "trial_decrypt C r (trial_clone C t) h ct ad"; cases "trial_decrypt C r' (trial_clone C t) h ct ad")
     (auto simp: triple_decrypt_def same_but_classical_def split: sum.split)

subsection \<open>The live ratchet\<close>

lemma live_decrypt_rng:
  assumes "lens_ok C"
  shows "map_option fst (live_decrypt C r l header ct ad) = map_option fst (live_decrypt C r' l header ct ad)"
proof (cases l)
  case (LClassical s)
  have "fst (dr_decrypt C r s h ct ad) = fst (dr_decrypt C r' s h ct ad)" for h by (rule dr_decrypt_rng [OF assms])
  then show ?thesis
    by (cases "header_decode header") (auto simp: LClassical split_beta)
next
  case (LHeaderEncrypt s)
  then show ?thesis using he_decrypt_rng [OF assms, of r s header ct ad r'] by (simp add: split_beta)
next
  case (LHybrid t)
  have "map_option fst (triple_decrypt C r t h ct ad) = map_option fst (triple_decrypt C r' t h ct ad)" for h
    by (rule triple_decrypt_rng [OF assms])
  then have "map_option (from_err \<circ> fst) (triple_decrypt C r t h ct ad) = map_option (from_err \<circ> fst) (triple_decrypt C r' t h ct ad)" for h
    by (metis option.map_comp)
  then show ?thesis
    by (cases "header_decode header"; cases "th_decode header") (simp_all add: LHybrid option.map_comp comp_def split_beta)
qed

lemma live_decrypt_any_rng:
  assumes "lens_ok C" "live_decrypt C r l header ct ad = Some (res, l1)"
  obtains l2 where "live_decrypt C r' l header ct ad = Some (res, l2)"
  using live_decrypt_rng [OF assms(1), of r l header ct ad r'] assms(2)
  by (cases "live_decrypt C r' l header ct ad") auto

end
