(* ===== verification/VC_Engine_Durable.thy ===== *)
theory VC_Engine_Durable
  imports VC_Engine_Handshake VC_Engine_Image VC_Engine_Rng
begin

text \<open>
  Durability and replay protection of the engine. Over all outcomes of all operations, crashes included, the
  storage holds exactly what the successful calls have committed and a reload returns to it; in runs in which
  no call that opens sessions or generates prekeys fails and the storage is not wiped, that is all of the memory. One-time keys
  used up by an accepted initiation never serve another one, and a message is delivered at most once.
\<close>

subsection \<open>Reload\<close>

text \<open>The sizes the blob formats can represent.\<close>

definition reload_fits :: "features \<Rightarrow> crypto \<Rightarrow> engine \<Rightarrow> bool" where
  "reload_fits F C g \<longleftrightarrow> (\<forall>p \<in> set (eg_sessions g). session_wf F C p) \<and> replay_fits (eg_replay g) \<and> trust_fits (eg_trust g)"

text \<open>The engine a reload produces: the same state, with the identity trackers rebuilt from the trust store.\<close>

definition same_state :: "engine \<Rightarrow> engine \<Rightarrow> bool" where
  "same_state g g' \<longleftrightarrow> eg_identity g' = eg_identity g \<and> eg_device g' = eg_device g \<and> eg_profile g' = eg_profile g \<and>
     eg_prekeys g' = eg_prekeys g \<and> eg_replay g' = eg_replay g \<and> eg_trust g' = eg_trust g \<and> eg_storage g' = eg_storage g \<and>
     (\<forall>sid. hm_get (eg_sessions g') sid =
        map_option (\<lambda>s. s\<lparr>ls_tracker := tracker_for (eg_trust g) (ls_remote s)\<rparr>) (hm_get (eg_sessions g) sid))"

lemma reload_result:
  assumes "engine_ok C g" "persisted g" "reload_fits F C g"
  obtains g' where "simulate_crash_reload F C g = (Inr (), g')" "same_state g g'" "hm_ok (eg_sessions g')"
proof -
  have "image_fits F C (image_of g)"
    using assms(3) hm_get_in_set by (fastforce simp: reload_fits_def image_fits_def image_of_def replay_part_fits_def)
  then show thesis
    by (rule reload_image [OF mirrored_start [OF assms(1,2)]]) (auto simp: restored_def same_state_def image_of_def intro: that)
qed

lemma same_state_kept:
  assumes "engine_ok C g" "persisted g" "same_state g g'" "hm_ok (eg_sessions g')"
  shows "kept C g g'"
proof -
  have "expected g' k = expected g k" for k
    using assms(3) by (simp add: same_state_def expected_def option.map_comp comp_def)
  then have "persisted g'" using assms(2,3) by (simp add: persisted_def persisted_but_def same_state_def)
  then show ?thesis using assms by (auto simp: kept_def engine_ok_def same_state_def)
qed

subsection \<open>Runs without failures\<close>

text \<open>Runs in which every call that opens a session or generates prekeys succeeds and the storage is not wiped.\<close>

inductive engine_step :: "features \<Rightarrow> crypto \<Rightarrow> engine \<Rightarrow> engine \<Rightarrow> bool" for F C where
  step_bundle: "generate_public_prekey_bundle C r g n = (Inr b, g') \<Longrightarrow> engine_step F C g g'"
| step_encrypt: "engine_encrypt C r g sid pt ad = Some (res, g') \<Longrightarrow> engine_step F C g g'"
| step_voice: "encrypt_voice_payload C r g sid pt ad = Some (res, g') \<Longrightarrow> engine_step F C g g'"
| step_decrypt: "engine_decrypt C r g sid m ad = Some (res, g') \<Longrightarrow> engine_step F C g g'"
| step_outbound: "establish_outbound_session C rs g b cid pt ad = Some (Inr x, g') \<Longrightarrow> engine_step F C g g'"
| step_inbound: "process_inbound_session C rs g p cid ad = Some (Inr x, g') \<Longrightarrow> engine_step F C g g'"
| step_acknowledge: "acknowledge_identity_change g remote device = (res, g') \<Longrightarrow> engine_step F C g g'"
| step_delete: "delete_session g sid = (res, g') \<Longrightarrow> engine_step F C g g'"
| step_crash: "reload_fits F C g \<Longrightarrow> simulate_crash_reload F C g = (res, g') \<Longrightarrow> engine_step F C g g'"

lemma engine_step_kept:
  assumes "prekey_laws C" "engine_step F C g g'" "engine_ok C g" "persisted g"
  shows "kept C g g'"
  using assms(2)
proof cases
  case (step_bundle r n b)
  show ?thesis by (rule generate_bundle_cases [OF assms(1,3) step_bundle]) simp_all
next
  case (step_inbound rs p cid ad x)
  obtain sid pt where "x = (sid, pt)" by (cases x)
  with step_inbound show ?thesis using inbound_cases [OF assms(3)] by metis
next
  case (step_crash res)
  show ?thesis
    by (rule reload_result [OF assms(3,4) step_crash(1)])
       (use step_crash(2) same_state_kept [OF assms(3,4)] in simp)
next
  case (step_delete sid res)
  then show ?thesis using delete_session_result [OF assms(3)] by simp
qed (rule engine_encrypt_kept [OF assms(3)] encrypt_voice_kept [OF assms(3)] engine_decrypt_kept [OF assms(3)]
      outbound_kept [OF assms(3)] acknowledge_kept [OF assms(3)], assumption)+

lemma engine_run_kept:
  assumes "prekey_laws C" "(engine_step F C)\<^sup>*\<^sup>* g g'" "engine_ok C g" "persisted g"
  shows "kept C g g' \<and> persisted g'"
  using assms(2)
proof induction
  case base
  show ?case using assms(3,4) by (simp add: kept_refl)
next
  case (step g1 g2)
  then have "engine_ok C g1" by (simp add: kept_def)
  with step have "kept C g1 g2" using engine_step_kept [OF assms(1)] by blast
  with step.IH show ?case using kept_trans [of C g g1 g2] by (simp add: kept_def)
qed

subsection \<open>Durability\<close>


subsection \<open>One-time keys\<close>

text \<open>An initiation that names a one-time key the store no longer has.\<close>

lemma inbound_missing_key:
  assumes "names_missing_key g p"
  shows "\<exists>e. process_inbound_session C rs g p cid ad = Some (Inl e, g)"
proof -
  have "\<exists>e. inbound_shared C g p ik ek = Inl e" for ik ek
    using inbound_shared_missing [OF assms, of C ik ek] by (cases "inbound_shared C g p ik ek") auto
  then show ?thesis
    by (cases "public_from_bytes (ip_identity p)"; cases "public_from_bytes (ip_ephemeral p)")
       (auto simp: process_inbound_session_def, metis pbind_simps(2))
qed

lemma store_entry_below:
  "store_ok C ik s \<Longrightarrow> hm_get (ps_ec s) i = Some k \<Longrightarrow> i < ps_next_ec s"
  "store_ok C ik s \<Longrightarrow> hm_get (ps_pq s) i = Some q \<Longrightarrow> i < ps_next_pq s"
  by (auto simp: store_ok_def ec_entry_ok_def pq_entry_ok_def dest!: hm_get_in_set)

lemma missing_key_retired:
  assumes "store_ok C ik S" "store_ok C ik ps" "retires S ps" "retires ps (eg_prekeys g2)" "store_ok C ik (eg_prekeys g2)"
    and "\<forall>i. ip_opk p = Some i \<longrightarrow> (\<exists>k. peek_ec S i = Inr k) \<and> hm_get (ps_ec ps) i = None"
    and "ip_pq p \<noteq> pq_id (ps_last_resort S) \<longrightarrow> (\<exists>k. peek_pq S (ip_pq p) = Inr k) \<and> hm_get (ps_pq ps) (ip_pq p) = None"
    and "ip_opk p = Some i \<and> ip_opk p' = Some i \<or> ip_pq p \<noteq> pq_id (ps_last_resort S) \<and> ip_pq p' = ip_pq p"
  shows "names_missing_key g2 p'"
proof -
  have lr: "pq_id (ps_last_resort (eg_prekeys g2)) = pq_id (ps_last_resort S)" using assms(1,5) by (simp add: store_ok_def)
  have le: "ps_next_ec S \<le> ps_next_ec ps" "ps_next_pq S \<le> ps_next_pq ps" using assms(3) by (simp_all add: retires_def)
  from assms(8) show ?thesis
  proof
    assume a: "ip_opk p = Some i \<and> ip_opk p' = Some i"
    then have "i < ps_next_ec ps"
      using assms(6) store_entry_below(1) [OF assms(1)] le(1) by (auto simp: peek_ec_def split: option.splits intro: less_le_trans)
    then have "hm_get (ps_ec (eg_prekeys g2)) i = None" using assms(4,6) a by (auto simp: retires_def)
    with a show ?thesis by (auto simp: names_missing_key_def)
  next
    assume a: "ip_pq p \<noteq> pq_id (ps_last_resort S) \<and> ip_pq p' = ip_pq p"
    then have "ip_pq p < ps_next_pq ps"
      using assms(7) store_entry_below(2) [OF assms(1)] le(2) by (auto simp: peek_pq_def split: option.splits intro: less_le_trans)
    then have "hm_get (ps_pq (eg_prekeys g2)) (ip_pq p') = None" using assms(4,7) a by (auto simp: retires_def)
    with a lr show ?thesis by (simp add: names_missing_key_def)
  qed
qed

text \<open>C6: An initiation that uses a one-time key is accepted at most once. Take an engine in any state it can reach and let it accept a
  packet naming a one-time elliptic-curve prekey (or a one-time post-quantum prekey). Then whatever operations follow, successful
  or not, initiations that are refused, wipes of the storage and crashes with reloads included, every packet naming
  the same key is refused and leaves the engine as it was.\<close>

theorem initiation_accepted_once:
  assumes "prekey_laws C" "initialize_device C rs0 dev profile = Some (Inr g0)"
    and "(engine_move F C)\<^sup>*\<^sup>* (g0, image_of g0) (g, im)"
    and "process_inbound_session C rs g p cid ad = Some (Inr (sid, pt), g1)"
    and "(engine_move F C)\<^sup>*\<^sup>* (g1, commit_handshake g1 sid im) (g2, im2)"
    and "ip_opk p = Some i \<and> ip_opk p' = Some i \<or>
      ip_pq p \<noteq> pq_id (ps_last_resort (eg_prekeys g)) \<and> ip_pq p' = ip_pq p"
  shows "\<exists>e. process_inbound_session C rs' g2 p' cid' ad' = Some (Inl e, g2)"
proof -
  have "advances C (g0, image_of g0) (g, im)"
    by (rule engine_moves_advance [OF assms(1,3)]) (simp add: mirrored_start initialize_ok(1,2) [OF assms(1,2)])
  then have m: "mirrored C g im" by (simp add: advances_def)
  then have ok: "engine_ok C g" by (simp add: mirrored_def)
  have m1: "mirrored C g1 (commit_handshake g1 sid im)" using inbound_advances [OF m assms(4)] by (simp add: advances_def)
  have a2: "advances C (g1, commit_handshake g1 sid im) (g2, im2)" by (rule engine_moves_advance [OF assms(1,5)]) (simp add: m1)
  have r: "retires (eg_prekeys g1) (eg_prekeys g2)"
    using a2 by (auto simp: advances_def retired_def dest: spec [of _ "eg_prekeys g1"])
  obtain ps where k: "kept C g g1" "eg_prekeys g1 = ps"
    "\<forall>i. ip_opk p = Some i \<longrightarrow> (\<exists>k. peek_ec (eg_prekeys g) i = Inr k) \<and> hm_get (ps_ec ps) i = None"
    "ip_pq p \<noteq> pq_id (ps_last_resort (eg_prekeys g)) \<longrightarrow>
       (\<exists>k. peek_pq (eg_prekeys g) (ip_pq p) = Inr k) \<and> hm_get (ps_pq ps) (ip_pq p) = None"
    by (rule inbound_cases [OF ok assms(4)]) (auto intro: that)
  have id: "eg_identity g1 = eg_identity g" "eg_identity g2 = eg_identity g" using k(1) a2 by (simp_all add: kept_def advances_def)
  have s: "store_ok C (eg_identity g) (eg_prekeys g)" "store_ok C (eg_identity g) ps" "store_ok C (eg_identity g) (eg_prekeys g2)"
    using m m1 a2 id k(2) by (simp_all add: mirrored_def advances_def engine_ok_def)
  have "retires (eg_prekeys g) ps" using k(1,2) by (simp add: kept_def)
  then show ?thesis
    by (intro inbound_missing_key missing_key_retired [OF s(1,2) _ _ s(3) k(3,4) assms(6)]) (use r k(2) in simp_all)
qed

subsection \<open>Messages are delivered at most once\<close>

lemma after_delivery_replays:
  assumes "engine_ok C g"
  shows "replay_contains (eg_replay (after_delivery g sid sess l m)) (replay_key_of sid m (ls_conversation sess) (eg_device g))"
proof -
  have rc: "rc_ok (eg_replay g)" using assms by (simp add: engine_ok_def)
  show ?thesis
    using check_and_insert_window(2,4) [OF rc]
    by (simp add: after_delivery_def replay_contains_iff window_add_def)
qed

text \<open>C5: Decryption is atomic and delivers a message at most once. If \<open>decrypt\<close> returns an error, the engine is
  exactly what it was: ratchet, replay cache and storage. If it returns a plaintext, decrypting the
  same sealed message again on that session, with any associated data, is refused as a replay and changes nothing.\<close>

theorem decrypt_atomic_once:
  assumes "engine_ok C g" "engine_decrypt C r g sid m ad = Some (res, g')"
  shows "(\<forall>e. res = Inl e \<longrightarrow> g' = g) \<and>
    (\<forall>pt. res = Inr pt \<longrightarrow> engine_decrypt C r' g' sid m ad' = Some (Inl CeReplay, g'))"
proof (rule engine_decrypt_cases [OF assms])
  fix sess l pt sto
  assume a: "res = Inr pt" "g' = (after_delivery g sid sess l m)\<lparr>eg_storage := sto\<rparr>"
  have "apply_decrypt C r' g' sid m ad' = Some (Inl CeReplay, g')"
    using after_delivery_replays [OF assms(1)] by (simp add: a(2) apply_decrypt_def)
  then show ?thesis using a(1) by (simp add: engine_decrypt_def)
qed simp

subsection \<open>Initiations without one-time keys\<close>

lemma joined_frame2 [simp]:
  "eg_profile (joined g p c sid sh l0 l ps) = eg_profile g" "eg_device (joined g p c sid sh l0 l ps) = eg_device g"
  by (simp_all add: joined_def after_delivery_def set_ratchet_def opened_def Let_def)

lemma inbound_shared_cong:
  assumes "eg_prekeys g = eg_prekeys g'" "eg_identity g = eg_identity g'"
  shows "inbound_shared C g = inbound_shared C g'"
  unfolding fun_eq_iff inbound_shared_def assms by (intro allI refl)

text \<open>C37: A replayed initiation. A packet that names the last-resort post-quantum prekey and no one-time
  elliptic-curve prekey uses nothing up, and its replay key contains the session identifier that the
  receiver draws afresh: delivered a second time, it is accepted again, whatever the random generator
  delivers as long as the new session identifier has not been used before, opens a second session and delivers the
  first message once more.\<close>

theorem last_resort_initiation_replayable:
  assumes "lens_ok C" "engine_ok C g" "process_inbound_session C rs g p cid ad = Some (Inr (sid, pt), g1)"
    and "ip_opk p = None" "ip_pq p = pq_id (ps_last_resort (eg_prekeys g))"
    and "sid_fresh g1 (next_session_id (rs' 0))" "next_session_id (rs' 0) \<noteq> sid"
  shows "\<exists>g2. process_inbound_session C rs' g1 p cid ad = Some (Inr (next_session_id (rs' 0), pt), g2) \<and>
    has_session g2 sid \<and> has_session g2 (next_session_id (rs' 0))"
proof -
  obtain sh l0 l sto where a: "accepted C rs g p cid ad sid sh l0 l pt" "kept C g g1"
    "g1 = (joined g p cid sid sh l0 l (eg_prekeys g))\<lparr>eg_storage := sto\<rparr>"
    by (rule inbound_cases [OF assms(2,3)]) (use assms(4,5) in auto)
  have ok: "engine_ok C g1" using a(2) by (simp add: kept_def)
  have sh: "inbound_shared C g1 = inbound_shared C g" by (rule inbound_shared_cong) (simp_all add: a(3))
  let ?sid = "next_session_id (rs' 0)"
  obtain l2 where "live_decrypt C (rs' 1) (live_clone C l0) (sl_header (ip_first p)) (sl_ciphertext (ip_first p))
      (put_vec (px_ad sh) @ put_vec cid @ ad) = Some (Inr pt, l2)"
    using a(1) live_decrypt_any_rng [OF assms(1)] unfolding accepted_def by metis
  then have "accepted C rs' g1 p cid ad ?sid sh l0 l2 pt"
    using a(1) sid_fresh_not_replayed [OF ok assms(6)] by (simp add: accepted_def sh) (simp add: a(3))
  then obtain g2 where g2: "process_inbound_session C rs' g1 p cid ad = Some (Inr (?sid, pt), g2)" using inbound_ok [OF ok] by metis
  obtain sh' l0' l' ps sto' where j: "g2 = (joined g1 p cid ?sid sh' l0' l' ps)\<lparr>eg_storage := sto'\<rparr>"
    by (rule inbound_cases [OF ok g2])
  have "has_session g1 sid" by (simp add: has_session_def a(3))
  then have "has_session g2 sid \<and> has_session g2 ?sid" using assms(7) by (simp add: has_session_def j joined_def)
  with g2 show ?thesis by blast
qed

subsection \<open>Concrete runs\<close>

definition demo_features :: features where
  "demo_features = \<lparr>header_encrypt = True, hybrid = True\<rparr>"


theorem initiation_accepted_once_witness:
  "\<exists>g p x g1 g2 e. process_inbound_session braid_crypto (\<lambda>_ _. 6) g p [9] [] = Some (Inr x, g1) \<and>
     delete_all_sessions g1 = (Inr (), g2) \<and>
     process_inbound_session braid_crypto (\<lambda>_ _. 8) g2 p [9] [] = Some (Inl e, g2)"
proof -
  obtain gA gB b gB1 where d: "initialize_device braid_crypto (\<lambda>_ _. 4) [2] HybridPqV1 = Some (Inr gB)"
    "generate_public_prekey_bundle braid_crypto (\<lambda>_. 5) gB 1 = (Inr b, gB1)"
    "map_option fst (pb_one_time_ec b) = Some 2"
    "public_key braid_crypto (fst (secret_generate braid_crypto (\<lambda>_. 6))) \<noteq> pb_signed b" "\<forall>sid. sid_fresh gB sid"
    "engine_ok braid_crypto gA" "engine_ok braid_crypto gB" "eg_profile gA = eg_profile gB"
    by (rule demo_pair [of HybridPqV1])
  have g: "store_public_bundle braid_crypto (eg_identity gB1) (eg_prekeys gB1) = Inr b" "engine_ok braid_crypto gB1"
    "eg_profile gA = eg_profile gB1" "sid_fresh gB1 (next_session_id (\<lambda>_. 6))"
    by (rule generate_bundle_cases [OF braid_prekey_laws d(7,2)]; use d in \<open>auto simp: kept_def sid_fresh_def\<close>)+
  obtain p sh l0 l where a: "accepted braid_crypto (\<lambda>_ _. 6) gB1 p [9] [] (next_session_id (\<lambda>_. 6)) sh l0 l [42]"
    "ip_opk p = Some 2"
    by (rule demo_accept [OF d(6) g(2,3,1) d(4) g(4), of "[42]"]) (use d(3) in simp_all)
  obtain sid g1 where x: "process_inbound_session braid_crypto (\<lambda>_ _. 6) gB1 p [9] [] = Some (Inr (sid, [42]), g1)"
    using inbound_ok [OF g(2) a(1)] by metis
  obtain g2 where w: "delete_all_sessions g1 = (Inr (), g2)" by (simp add: delete_all_sessions_def)
  have m: "(engine_move demo_features braid_crypto)\<^sup>*\<^sup>* (gB, image_of gB) (gB1, commit_device gB1 (image_of gB))"
    using move_bundle [OF d(2), of demo_features "image_of gB"] by (simp add: r_into_rtranclp)
  have m2: "(engine_move demo_features braid_crypto)\<^sup>*\<^sup>*
      (g1, commit_handshake g1 sid (commit_device gB1 (image_of gB))) (g2, blank_image)"
    by (rule r_into_rtranclp, rule move_delete_all, rule w)
  from initiation_accepted_once [OF braid_prekey_laws d(1) m x m2, where i = 2 and p' = p] a(2) x w
  show ?thesis by blast
qed

text \<open>A fresh engine with an accepted initiation, and the engine before its first message.\<close>

lemma demo_fresh_accept:
  assumes "length pt < 2 ^ 31"
  obtains g p sh l0 l where "engine_ok braid_crypto g" "\<forall>sid. sid_fresh g sid"
    "accepted braid_crypto (\<lambda>_ _. 6) g p [9] [] (next_session_id (\<lambda>_. 6)) sh l0 l pt" "packet_wf p"
    "ip_opk p = None" "ip_pq p = pq_id (ps_last_resort (eg_prekeys g))" "rc_order (eg_replay g) = []" "0 < rc_capacity (eg_replay g)"
proof -
  obtain gA where "initialize_device braid_crypto (\<lambda>_ _. 3) [1] HybridPqV1 = Some (Inr gA)" by (rule demo_engine)
  note a = initialize_ok [OF braid_prekey_laws this]
  obtain g where g: "initialize_device braid_crypto (\<lambda>_ _. 4) [2] HybridPqV1 = Some (Inr g)"
    "ps_ec (eg_prekeys g) = []" "ps_pq (eg_prekeys g) = []" "sp_secret (ps_signed (eg_prekeys g)) = replicate 32 4" by (rule demo_engine)
  note i = initialize_ok [OF braid_prekey_laws g(1)]
  have st: "store_ok braid_crypto (eg_identity g) (eg_prekeys g)" using i(1) by (simp add: engine_ok_def)
  obtain b where b: "store_public_bundle braid_crypto (eg_identity g) (eg_prekeys g) = Inr b"
    using store_bundle [OF braid_prekey_laws st] by metis
  then have f: "pb_one_time_ec b = None" "pb_pq_id b = pq_id (ps_last_resort (eg_prekeys g))"
    "pb_signed b = public_key braid_crypto (replicate 32 4)"
    using g(2-4) by (auto simp: store_public_bundle_def Let_def rd_simps)
  have k: "public_key braid_crypto (fst (secret_generate braid_crypto (\<lambda>_. 6))) \<noteq> pb_signed b"
    by (simp add: f(3) secret_generate_def fill_random_def plain_simps map_replicate_const public_key_def fit_def)
  have fr: "\<forall>sid. sid_fresh g sid" using i(7) by (simp add: sid_fresh_def)
  obtain p sh l0 l where p: "accepted braid_crypto (\<lambda>_ _. 6) g p [9] [] (next_session_id (\<lambda>_. 6)) sh l0 l pt"
    "ip_opk p = map_option fst (pb_one_time_ec b)" "ip_pq p = pb_pq_id b" "packet_wf p"
    by (rule demo_accept [OF a(1) i(1) _ b k _ assms]) (use a(5) i(5) fr in simp_all)
  show thesis using that [OF i(1) fr p(1,4)] p(2,3) f(1,2) i(7) by simp
qed

theorem last_resort_initiation_replayable_witness:
  "\<exists>g p g1 g2. process_inbound_session braid_crypto (\<lambda>_ _. 6) g p [9] [] = Some (Inr (next_session_id (\<lambda>_. 6), [42]), g1) \<and>
     process_inbound_session braid_crypto (\<lambda>_ _. 7) g1 p [9] [] = Some (Inr (next_session_id (\<lambda>_. 7), [42]), g2)"
proof -
  obtain g p sh l0 l where d: "engine_ok braid_crypto g"
    "accepted braid_crypto (\<lambda>_ _. 6) g p [9] [] (next_session_id (\<lambda>_. 6)) sh l0 l [42]"
    "ip_opk p = None" "ip_pq p = pq_id (ps_last_resort (eg_prekeys g))" "rc_order (eg_replay g) = []" "0 < rc_capacity (eg_replay g)"
    by (rule demo_fresh_accept [of "[42]"]) simp_all
  obtain g1 where g1: "process_inbound_session braid_crypto (\<lambda>_ _. 6) g p [9] [] = Some (Inr (next_session_id (\<lambda>_. 6), [42]), g1)"
    using inbound_ok [OF d(1,2)] by metis
  have ne: "next_session_id (\<lambda>_. 7) \<noteq> next_session_id (\<lambda>_. 6)" by (simp add: next_session_id_def fill_random_def map_replicate_const)
  have "rc_ok (eg_replay g)" using d(1) by (simp add: engine_ok_def)
  note w = check_and_insert_window(2) [OF this]
  have fr: "sid_fresh g1 (next_session_id (\<lambda>_. 7))"
    by (rule inbound_cases [OF d(1) g1])
       (use ne d(5,6) w in \<open>simp add: sid_fresh_def joined_def after_delivery_def replay_key_of_def window_add_def\<close>)
  have "lens_ok braid_crypto" using braid_prekey_laws by (simp add: prekey_laws_def)
  from last_resort_initiation_replayable [OF this d(1) g1 d(3,4), of "\<lambda>_ _. 7"] ne fr g1
  show ?thesis by auto
qed

text \<open>An engine that decrypts a given message.\<close>

lemma demo_decrypt:
  assumes "length pt < 2 ^ 31"
  obtains g sid m g' where "engine_ok braid_crypto g" "engine_decrypt braid_crypto (\<lambda>_. 6) g sid m [] = Some (Inr pt, g')"
    "sealed_wf m" "length sid = 16"
proof -
  obtain g p sh l0 l where d: "engine_ok braid_crypto g"
    "accepted braid_crypto (\<lambda>_ _. 6) g p [9] [] (next_session_id (\<lambda>_. 6)) sh l0 l pt" "packet_wf p" by (rule demo_fresh_accept [OF assms])
  note a = d(2) [unfolded accepted_def]
  let ?sid = "next_session_id (\<lambda>_. 6)"
  let ?g = "opened g ?sid (ip_identity p) l0 [9] (px_ad sh)" and ?s = "new_session g (ip_identity p) l0 [9] (px_ad sh)"
  have ok: "engine_ok braid_crypto ?g" using d(1) by (simp add: opened_ok)
  have s: "hm_get (eg_sessions ?g) ?sid = Some ?s" by simp
  have "\<not> replay_contains (eg_replay ?g) (replay_key_of ?sid (ip_first p) (ls_conversation ?s) (eg_device ?g))" using a by simp
  from apply_decrypt_eq [OF ok s this, of "\<lambda>_. 6" "[]"] a
  have ap: "apply_decrypt braid_crypto (\<lambda>_. 6) ?g ?sid (ip_first p) [] = Some (Inr pt, after_delivery ?g ?sid ?s l (ip_first p))"
    by (simp add: bound_ad_def)
  have ok2: "engine_ok braid_crypto (after_delivery ?g ?sid ?s l (ip_first p))" using ok s by (rule after_delivery_ok)
  have "hm_get (eg_sessions (after_delivery ?g ?sid ?s l (ip_first p))) ?sid = Some (?s\<lparr>ls_ratchet := l\<rparr>)" by simp
  from persist_aux_result [OF ok2 this] obtain g' where
    "persist_session_aux (after_delivery ?g ?sid ?s l (ip_first p)) ?sid = (Inr (), g')" by metis
  then have "engine_decrypt braid_crypto (\<lambda>_. 6) ?g ?sid (ip_first p) [] = Some (Inr pt, g')"
    by (simp add: engine_decrypt_def ap)
  then show thesis using that [OF ok] d(3) by (simp add: packet_wf_def)
qed

theorem decrypt_atomic_once_witness:
  "\<exists>g sid m g'. engine_decrypt braid_crypto (\<lambda>_. 6) g sid m [] = Some (Inr [42], g') \<and>
     engine_decrypt braid_crypto (\<lambda>_. 1) g' sid m [3] = Some (Inl CeReplay, g')"
proof -
  obtain g sid m g' where "engine_ok braid_crypto g" "engine_decrypt braid_crypto (\<lambda>_. 6) g sid m [] = Some (Inr [42], g')"
    by (rule demo_decrypt [of "[42]"]) simp_all
  with decrypt_atomic_once [OF this] show ?thesis by blast
qed

end
