(* ===== verification/VC_Ffi_Props.thy ===== *)
theory VC_Ffi_Props
  imports VC_Ffi VC_Engine_Durable
begin

text \<open>
  Correctness of the C interface: the announced buffer sizes are enough, so that a call that changed
  an engine also delivers its out_bytes; handles; memory safety; a first contact carried through
  foreign buffers; and the message that is lost when a plaintext is longer than the buffer.
\<close>

subsection \<open>Sizes of the engine's outputs\<close>

lemma all_some_length: "all_some xs = Some ys \<Longrightarrow> length ys = length xs"
  by (induction xs arbitrary: ys) (auto split: option.splits)

lemma length_concat_be2: "length (concat (map (be_bytes 2 :: u16 \<Rightarrow> bytes) ys)) = 2 * length ys"
  by (induction ys) simp_all

lemma next_chunk_length: "next_chunk e = Some (c, e') \<Longrightarrow> length c = 34"
  by (auto simp: next_chunk_def symbol_row_def Let_def length_concat_be2 SYMS_def CHUNK_DATA_def dest!: all_some_length split: if_splits)

lemma send_chunk_length: "send_chunk s typ enc f = Some (Inr (msg, n, out), s') \<Longrightarrow> length (bm_data msg) = 34"
  by (auto simp: send_chunk_def Let_def br_msg_def next_chunk_length split: option.splits)

lemma braid_send_length:
  assumes "braid_send C r s = Some (Inr (msg, n, out), s')"
  shows "length (bm_data msg) \<le> 34"
proof -
  obtain t where "braid_send_main C r t = Some (Inr (msg, n, out), s')"
    using assms by (auto simp: braid_send_def rd_simps)
  then show ?thesis
    by (auto simp: braid_send_main_def Let_def br_msg_def dest: send_chunk_length split: agent.splits sum.splits prod.splits)
qed

lemma send_message_key_header:
  "send_message_key C s = (Inr (h, mk), s') \<Longrightarrow> lens_ok C \<Longrightarrow> length (header_encode h) = 40"
  by (auto simp: send_message_key_def rd_simps header_encode_def public_key_len)

lemma on_classical_Inr_iff: "on_classical t x = Some (Inr a, t') \<longleftrightarrow> (\<exists>c. x = (Inr a, c) \<and> t' = t\<lparr>t_classical := c\<rparr>)"
  by (cases x) (auto simp: on_classical_def)

lemma triple_encrypt_size:
  assumes "lens_ok C" "aead_correct C" "triple_encrypt C r t pt ad = Some (Inr (h, ct), t')"
  shows "length (th_encode h) \<le> 94 \<and> length ct = length pt + 16"
proof -
  obtain msg n out b s mk s' k nc ad' where p: "braid_send C r (t_braid t) = Some (Inr (msg, n, out), b)"
    "send_message_key C s = (Inr (th_classical h, mk), s')" "aead_seal C k nc pt ad' = Inr ct" "th_scka h = Some msg"
    using assms(3)
    by (auto simp: triple_encrypt_def rd_simps Let_def on_braid_def on_classical_Inr_iff)
  show ?thesis
    using braid_send_length [OF p(1)] send_message_key_header [OF p(2) assms(1)] aead_seal_len [OF assms(2) p(3)] p(4)
    by (simp add: th_encode_def bm_encode_def Let_def)
qed

lemma live_encrypt_size:
  assumes "lens_ok C" "aead_correct C" "live_encrypt C r l pt ad = Some (Inr (h, ct), l')"
  shows "length h \<le> 94 \<and> length ct = length pt + 16"
proof (cases l)
  case (LClassical s)
  then show ?thesis using assms
    by (auto simp: dr_encrypt_def rd_simps Let_def header_encode_def public_key_len aead_seal_len split: prod.splits)
next
  case (LHeaderEncrypt s)
  then show ?thesis using assms
    by (auto simp: he_encrypt_def rd_simps Let_def header_encode_def public_key_len aead_seal_len hencrypt_len split: prod.splits)
next
  case (LHybrid t)
  then show ?thesis using assms triple_encrypt_size by (auto simp: rd_simps)
qed


text \<open>ML-KEM-768 ciphertexts are arrays of 1088 bytes, also for a key nobody generated.\<close>

definition kem_ct_sized :: "crypto \<Rightarrow> bool" where
  "kem_ct_sized C \<longleftrightarrow> (\<forall>ek m. length (fst (kem_encaps C ek m)) = 1088)"

lemma engine_encrypt_size:
  assumes "lens_ok C" "aead_correct C" "engine_ok C g" "engine_encrypt C r g sid pt ad = Some (Inr m, g')"
  shows "length (sealed_encode m) \<le> length pt + 142"
proof (rule engine_encrypt_cases [OF assms(3,4)])
  fix sess l h ct
  assume e: "Inr m = Inr \<lparr>sl_header = h, sl_ciphertext = ct, sl_hint = sid\<rparr>" "hm_get (eg_sessions g) sid = Some sess"
    "live_encrypt C r (live_clone C (ls_ratchet sess)) pt (bound_ad sess ad) = Some (Inr (h, ct), l)"
  then show ?thesis
    using live_encrypt_size [OF assms(1,2) e(3)] engine_ok_sid [OF assms(3) e(2)] by (simp add: sealed_encode_def length_put_vec)
qed simp

lemma outbound_size:
  assumes "lens_ok C" "aead_correct C" "kem_ct_sized C" "engine_ok C g"
    and "establish_outbound_session C rs g b cid pt ad = Some (Inr (sid, p), g')"
  shows "length (packet_encode p) \<le> length pt + 1321 \<and> length sid = 16"
proof (rule outbound_cases [OF assms(5)])
  fix ai l m
  assume o: "fst (alice_initiate C (eg_identity g) b (rs 0)) = Inr ai" "sid = next_session_id (rs 2)"
    "engine_encrypt C (rs 3) (opened g sid (pb_identity b) l cid (px_ad (ai_shared ai))) sid pt ad = Some (Inr m, g')"
    "p = \<lparr>ip_identity = identity_public C (eg_identity g'), ip_ephemeral = ai_ephemeral ai, ip_kem = ai_kem_ct ai,
      ip_spk = pb_signed_id b, ip_opk = ai_opk_id ai, ip_pq = ai_pq_id ai, ip_first = m\<rparr>"
  have "engine_ok C (opened g sid (pb_identity b) l cid (px_ad (ai_shared ai)))" using assms(4) o(2) by (simp add: opened_ok)
  from engine_encrypt_size [OF assms(1,2) this o(3)] have m: "length (sealed_encode m) \<le> length pt + 142" .
  obtain i r' where i: "alice_initiate C (eg_identity g) b (rs 0) = (i, r')" by (cases "alice_initiate C (eg_identity g) b (rs 0)")
  have ek: "length (ai_ephemeral ai) = 32" and kem: "length (ai_kem_ct ai) = 1088"
    using o(1) i assms(1,3)
    by (auto simp: alice_initiate_def rd_simps Let_def kem_encapsulate_def kem_ct_sized_def public_key_len split: prod.splits if_splits)
       (metis fst_conv)
  show ?thesis
    using m ek kem assms(1) o(2,4) by (simp add: packet_encode_def length_put_vec identity_public_def public_key_len split: option.split)
qed

lemma bundle_size:
  assumes "prekey_laws C" "engine_ok C g" "generate_public_prekey_bundle C r g n = (Inr b, g')"
  shows "length (bundle_encode b) \<le> 1432"
proof (rule generate_bundle_cases [OF assms])
  fix b' assume b: "Inr b = Inr b'" "kept C g g'" "store_public_bundle C (eg_identity g') (eg_prekeys g') = Inr b'"
  then have "store_ok C (eg_identity g') (eg_prekeys g')" unfolding kept_def engine_ok_def by blast
  then obtain k where f: "bundle_fits b" "pb_pq_public b = kem_ek C k" using store_bundle [OF assms(1)] b by (metis sum.inject(2))
  have "length (kem_ek C k) = 1184" using assms(1) by (simp add: prekey_laws_def kem_correct_def)
  then show ?thesis using f by (auto simp: bundle_encode_def bundle_fits_def split: option.split)
qed simp

subsection \<open>The invariant survives every outcome\<close>

lemma outbound_engine_ok:
  assumes "engine_ok C g" "establish_outbound_session C rs g b cid pt ad = Some (res, g')"
  shows "engine_ok C g'"
  using assms outbound_failed [OF assms(1)] outbound_kept [OF assms(1)]
  by (cases res) (auto simp: left_in_memory_def kept_def)

lemma inbound_engine_ok:
  assumes "engine_ok C g" "process_inbound_session C rs g p cid ad = Some (res, g')"
  shows "engine_ok C g'"
proof (cases res)
  case (Inl e)
  then show ?thesis using assms inbound_failed [OF assms(1)] by (auto simp: left_in_memory_def)
next
  case (Inr x)
  obtain sid pt where x: "x = (sid, pt)" by (cases x)
  show ?thesis by (rule inbound_cases [OF assms(1) assms(2) [unfolded Inr x]]) (simp add: kept_def)
qed

subsection \<open>Buffers\<close>

definition can_write :: "nat \<Rightarrow> ffi_mem \<Rightarrow> bool" where
  "can_write n m \<longleftrightarrow> fm_buf m \<noteq> None \<and> (\<exists>k. fm_len m = Some k \<and> n \<le> k)"

text \<open>A size query: only the length cell is written.\<close>

definition announced :: "nat \<Rightarrow> ffi_mem \<Rightarrow> ffi_mem" where
  "announced n m = m\<lparr>fm_len := map_option (\<lambda>_. n) (fm_len m)\<rparr>"

definition filled :: "bytes \<Rightarrow> ffi_mem \<Rightarrow> ffi_mem" where
  "filled out m = m\<lparr>fm_buf := poke out (fm_buf m), fm_len := Some (length out)\<rparr>"

definition filled_session :: "bytes \<Rightarrow> bytes \<Rightarrow> ffi_mem \<Rightarrow> ffi_mem" where
  "filled_session sid out m = filled out (m\<lparr>fm_raw := poke sid (fm_raw m)\<rparr>)"

lemma ask_buffer_simps [simp]:
  "can_write n m \<Longrightarrow> ask_buffer n m = Some (Inr (), m)"
  "\<not> can_write n m \<Longrightarrow> ask_buffer n m = Some (Inl VcInvalidArgument, announced n m)"
  by (auto simp: ask_buffer_def need_buffer_def can_write_def announced_def split: option.split)

lemma ask_buffer_cases:
  assumes "ask_buffer n m = Some (x, m')"
  obtains "x = Inl VcInvalidArgument" "m' = announced n m" | "x = Inr ()" "m' = m" "can_write n m"
  using assms by (cases "can_write n m") auto

lemma copy_out_fits: "can_write n m \<Longrightarrow> length out \<le> n \<Longrightarrow> copy_out out m = (Inr (), filled out m)"
  by (auto simp: copy_out_def can_write_def filled_def)

lemma copy_session_fits: "can_write n m \<Longrightarrow> length out \<le> n \<Longrightarrow> copy_session sid out m = (Inr (), filled_session sid out m)"
  by (auto simp: copy_session_def can_write_def filled_session_def filled_def)

lemma can_write_frame [simp]: "can_write n (put_engine h g m) = can_write n m"
  by (simp add: can_write_def put_engine_def)

lemma ffi_read_whole [simp]: "ffi_read_bytes (Some b) (length b) = Inr b"
  by (simp add: ffi_read_bytes_def)

lemma on_engine_simps [simp]:
  "on_engine h m None = None" "on_engine h m (Some (Inl e, g)) = Some (Inl (vc_from_crypto e), put_engine h g m)"
  "on_engine h m (Some (Inr a, g)) = Some (Inr a, put_engine h g m)"
  by (simp_all add: on_engine_def vc_res_def)

text \<open>The specification of a call: the engine's operation, its error as a code or its output in the buffer.\<close>

definition served :: "vc_handle \<Rightarrow> ffi_mem \<Rightarrow> ((crypto_error + 'a) \<times> engine) option \<Rightarrow> ('a \<Rightarrow> ffi_mem \<Rightarrow> ffi_mem) \<Rightarrow> ffi_result" where
  "served h m x out =
     (case x of
        None \<Rightarrow> None
      | Some (Inl e, g) \<Rightarrow> Some (Inl (vc_from_crypto e), put_engine h g m)
      | Some (Inr a, g) \<Rightarrow> Some (Inr (), out a (put_engine h g m)))"

lemma served_intro:
  assumes "\<And>a g. x = Some (Inr a, g) \<Longrightarrow> f a (put_engine h g m) = Some (Inr (), out a (put_engine h g m))"
  shows "pbind (on_engine h m x) f = served h m x out"
  using assms by (auto simp: served_def split: option.split sum.split)

lemma ffi_bundle_eq:
  assumes "prekey_laws C" "lock_engine h m = Inr g" "engine_ok C g"
  shows "vc_generate_bundle C r h n m =
      (if can_write 4096 m then served h m (Some (generate_public_prekey_bundle C r g n)) (\<lambda>b. filled (bundle_encode b))
       else Some (Inl VcInvalidArgument, announced 4096 m))"
proof -
  have "length (bundle_encode b) \<le> 4096" if "generate_public_prekey_bundle C r g n = (Inr b, g')" for b g'
    using bundle_size [OF assms(1,3) that] by simp
  then show ?thesis
    using assms(2) by (auto simp: vc_generate_bundle_def BUNDLE_BOUND_def intro!: served_intro copy_out_fits [of 4096])
qed

lemma ffi_encrypt_eq:
  assumes "lens_ok C" "aead_correct C" "lock_engine h m = Inr g" "engine_ok C g" "4096 + length pt < 2 ^ 64"
  shows "vc_encrypt C r h (Some sid) (Some pt) (length pt) (Some ad) (length ad) m =
      (if can_write (4096 + length pt) m then served h m (engine_encrypt C r g (take 16 sid) pt ad) (\<lambda>s. filled (sealed_encode s))
       else Some (Inl VcInvalidArgument, announced (4096 + length pt) m))"
  using assms(3,5) engine_encrypt_size [OF assms(1,2,4), of r "take 16 sid" pt ad]
  by (auto simp: vc_encrypt_def Let_def sealed_bound_def usize_add_def intro!: served_intro copy_out_fits [of "4096 + length pt"])

lemma ffi_outbound_eq:
  assumes "lens_ok C" "aead_correct C" "kem_ct_sized C" "lock_engine h m = Inr g" "engine_ok C g" "8192 + length pt < 2 ^ 64"
    and "fm_raw m \<noteq> None" "bundle_decode C bb = Inr b"
  shows "vc_establish_outbound C rs h (Some bb) (length bb) (Some cid) (length cid) (Some pt) (length pt) (Some ad) (length ad) m =
      (if can_write (8192 + length pt) m
       then served h m (establish_outbound_session C rs g b cid pt ad) (\<lambda>(sid, p). filled_session sid (packet_encode p))
       else Some (Inl VcInvalidArgument, announced (8192 + length pt) m))"
  using assms(4,6-8) outbound_size [OF assms(1,2,3,5), of rs b cid pt ad]
  by (auto simp: vc_establish_outbound_def packet_bound_def usize_add_def intro!: served_intro copy_session_fits [of "8192 + length pt"])

lemma ffi_inbound_ok:
  assumes "lock_engine h m = Inr g" "fm_raw m \<noteq> None" "packet_decode pk = Inr p" "can_write 4096 m" "length pt \<le> 4096"
    and "process_inbound_session C rs g p cid ad = Some (Inr (sid, pt), g')"
  shows "vc_process_inbound C rs h (Some pk) (length pk) (Some cid) (length cid) (Some ad) (length ad) m =
    Some (Inr (), filled_session sid pt (put_engine h g' m))"
  using assms copy_session_fits [of 4096 "put_engine h g' m" pt sid] by (simp add: vc_process_inbound_def vc_res_def)

lemma ffi_decrypt_eq:
  assumes "lock_engine h m = Inr g" "sealed_decode blob = Inr s" "can_write 4096 m"
  shows "vc_decrypt C r h (Some sid) (Some blob) (length blob) (Some ad) (length ad) m =
    pbind (on_engine h m (engine_decrypt C r g (take 16 sid) s ad)) (\<lambda>pt m. Some (copy_out pt m))"
  using assms by (simp add: vc_decrypt_def vc_res_def Let_def)

text \<open>C8: The two-call protocol of the foreign interface. Asking for a bundle, a ciphertext or an initiation packet with
  no buffer or one that is too short only announces a size and changes no engine. With a buffer of the announced size the call does
  exactly what the engine operation does, and its whole output is in the buffer: the conservative bounds (4096 bytes for a
  bundle, 4096 and 8192 more than the plaintext for ciphertexts and packets) are never too small, for every profile.\<close>

theorem ffi_two_call_protocol:
  assumes "prekey_laws C" "aead_correct C" "kem_ct_sized C" "lock_engine h m = Inr g" "engine_ok C g" "8192 + length pt < 2 ^ 64"
  shows "vc_generate_bundle C r h n m =
      (if can_write 4096 m then served h m (Some (generate_public_prekey_bundle C r g n)) (\<lambda>b. filled (bundle_encode b))
       else Some (Inl VcInvalidArgument, announced 4096 m)) \<and>
    vc_encrypt C r h (Some sid) (Some pt) (length pt) (Some ad) (length ad) m =
      (if can_write (4096 + length pt) m then served h m (engine_encrypt C r g (take 16 sid) pt ad) (\<lambda>s. filled (sealed_encode s))
       else Some (Inl VcInvalidArgument, announced (4096 + length pt) m)) \<and>
    (fm_raw m \<noteq> None \<and> bundle_decode C bb = Inr b \<longrightarrow>
      vc_establish_outbound C rs h (Some bb) (length bb) (Some cid) (length cid) (Some pt) (length pt) (Some ad) (length ad) m =
      (if can_write (8192 + length pt) m
       then served h m (establish_outbound_session C rs g b cid pt ad) (\<lambda>(sid, p). filled_session sid (packet_encode p))
       else Some (Inl VcInvalidArgument, announced (8192 + length pt) m)))"
proof -
  have l: "lens_ok C" "4096 + length pt < 2 ^ 64" using assms(1,6) by (simp_all add: prekey_laws_def)
  show ?thesis
    using ffi_bundle_eq [OF assms(1,4,5)] ffi_encrypt_eq [OF l(1) assms(2,4,5) l(2)] ffi_outbound_eq [OF l(1) assms(2-6)] by blast
qed

subsection \<open>First contact through foreign buffers\<close>

text \<open>What the caller finds in the buffer of a successful call.\<close>

definition out_bytes :: "ffi_mem \<Rightarrow> bytes" where
  "out_bytes m = (case (fm_buf m, fm_len m) of (Some mem, Some n) \<Rightarrow> take n mem | _ \<Rightarrow> [])"

lemma out_bytes_filled [simp]:
  "fm_buf m \<noteq> None \<Longrightarrow> out_bytes (filled out m) = out"
  "fm_buf m \<noteq> None \<Longrightarrow> out_bytes (filled_session sid out m) = out"
  by (auto simp: out_bytes_def filled_def filled_session_def poke_def)

lemma lock_put [simp]: "lock_engine h m = Inr g \<Longrightarrow> lock_engine h (put_engine h g' m) = Inr g'"
  by (auto simp: lock_engine_def put_engine_def split: if_splits)

lemma lock_filled [simp]:
  "lock_engine h (filled out m) = lock_engine h m" "lock_engine h (filled_session sid out m) = lock_engine h m"
  "lock_engine h (announced n m) = lock_engine h m"
  by (simp_all add: lock_engine_def filled_def filled_session_def announced_def)

lemma replenish_ec_signed: "ps_signed (fst (snd (replenish_ec C n s r))) = ps_signed s"
  by (induction C n s r rule: replenish_ec.induct) (subst replenish_ec.simps, simp add: Let_def split: option.split prod.split)

lemma replenish_pq_signed: "ps_signed (fst (snd (replenish_pq C ik n s r))) = ps_signed s"
  by (induction C ik n s r rule: replenish_pq.induct) (subst replenish_pq.simps, simp add: Let_def split: option.split prod.split sum.split)

lemma replenish_signed: "replenish C ik n k s r = (x, s', r') \<Longrightarrow> ps_signed s' = ps_signed s"
  using replenish_ec_signed [of C n s r] replenish_pq_signed
  by (cases "replenish_ec C n s r") (auto simp: replenish_def sbind_def split: sum.splits dest: arg_cong [of _ _ "\<lambda>x. ps_signed (fst (snd x))"])

lemma bundle_signed_key:
  assumes "prekey_laws C" "engine_ok C g" "generate_public_prekey_bundle C r g n = (Inr b, g')"
  shows "pb_signed b = public_key C (sp_secret (ps_signed (eg_prekeys g)))"
proof (rule generate_bundle_cases [OF assms])
  fix b' assume b: "Inr b = Inr b'" "store_public_bundle C (eg_identity g') (eg_prekeys g') = Inr b'"
    "\<exists>ps sto r'. g' = g\<lparr>eg_prekeys := ps, eg_storage := sto\<rparr> \<and> replenish C (eg_identity g) n n (eg_prekeys g) r = (Inr (), ps, r')"
  then have "ps_signed (eg_prekeys g') = ps_signed (eg_prekeys g)" using replenish_signed by fastforce
  then show ?thesis using b(1,2) by (auto simp: store_public_bundle_def Let_def rd_simps split: prod.splits)
qed simp

text \<open>C9: First contact through the foreign interface. The bytes that \<open>vc_generate_bundle\<close> leaves in one process's buffer, handed
  to \<open>vc_establish_outbound\<close> of another, give a packet which, handed back to \<open>vc_process_inbound\<close>, yields the first
  message, for all three profiles and plaintexts of up to 4096 bytes.\<close>

theorem ffi_first_contact:
  assumes "lens_ok C" "secret_stable C" "xpub_ok C" "dh_commutes C" "kem_correct C" "edwards_laws C" "aead_correct C" "braid_laws C" "kem_ct_sized C"
    and "lock_engine hB mB = Inr gB" "engine_ok C gB" "can_write 4096 mB" "vc_generate_bundle C r hB n mB = Some (Inr (), mB1)"
    and "lock_engine hA mA = Inr gA" "engine_ok C gA" "eg_profile gA = eg_profile gB" "fm_raw mA \<noteq> None" "can_write (8192 + length pt) mA"
    and "lock_engine hB mB2 = lock_engine hB mB1" "fm_raw mB2 \<noteq> None" "can_write 4096 mB2" "length pt \<le> 4096"
    and "public_key C (fst (secret_generate C (rsB 1))) \<noteq> public_key C (sp_secret (ps_signed (eg_prekeys gB)))"
    and "sid_fresh gB (next_session_id (rsB 0))"
  shows "\<exists>mA1 mB3.
    vc_establish_outbound C rsA hA (Some (out_bytes mB1)) (length (out_bytes mB1)) (Some cid) (length cid) (Some pt) (length pt)
      (Some ad) (length ad) mA = Some (Inr (), mA1) \<and>
    vc_process_inbound C rsB hB (Some (out_bytes mA1)) (length (out_bytes mA1)) (Some cid) (length cid) (Some ad) (length ad) mB2 =
      Some (Inr (), mB3) \<and>
    out_bytes mB3 = pt"
proof -
  have laws: "prekey_laws C" using assms(1-6) by (simp add: prekey_laws_def)
  obtain b gB1 where b: "generate_public_prekey_bundle C r gB n = (Inr b, gB1)" "mB1 = filled (bundle_encode b) (put_engine hB gB1 mB)"
    using assms(12,13) by (auto simp: ffi_bundle_eq [OF laws assms(10,11)] served_def split: prod.splits sum.splits)
  have buf: "fm_buf (put_engine h g mB) \<noteq> None" "fm_buf (put_engine h g mA) \<noteq> None" "fm_buf (put_engine h g mB2) \<noteq> None" for h g
    using assms(12,18,21) by (auto simp: can_write_def put_engine_def)
  have o: "out_bytes mB1 = bundle_encode b" "lock_engine hB mB2 = Inr gB1" using assms(10,19) b(2) buf by simp_all
  have fresh: "public_key C (fst (secret_generate C (rsB 1))) \<noteq> pb_signed b"
    using assms(23) bundle_signed_key [OF laws assms(11) b(1)] by simp
  have "length pt < 2 ^ 31" using assms(22) by simp
  from first_contact_works [OF assms(1-8,15,11,16) b(1) fresh assms(24) this, of rsA cid ad]
  obtain p gA' gB' where f: "bundle_decode C (bundle_encode b) = Inr b"
    "establish_outbound_session C rsA gA b cid pt ad = Some (Inr (next_session_id (rsA 2), p), gA')"
    "packet_decode (packet_encode p) = Inr p"
    "process_inbound_session C rsB gB1 p cid ad = Some (Inr (next_session_id (rsB 0), pt), gB')" by blast
  have "8192 + length pt < 2 ^ 64" using assms(22) by simp
  note out = ffi_outbound_eq [OF assms(1,7,9,14,15) this assms(17) f(1), of rsA cid ad]
  let ?mA1 = "filled_session (next_session_id (rsA 2)) (packet_encode p) (put_engine hA gA' mA)"
  have "vc_establish_outbound C rsA hA (Some (out_bytes mB1)) (length (out_bytes mB1)) (Some cid) (length cid) (Some pt) (length pt)
      (Some ad) (length ad) mA = Some (Inr (), ?mA1)" using out assms(18) f(2) o(1) by (simp add: served_def)
  moreover have "out_bytes ?mA1 = packet_encode p" using buf by simp
  moreover note ffi_inbound_ok [OF o(2) assms(20) f(3) assms(21,22) f(4)]
  ultimately show ?thesis using buf by auto
qed

subsection \<open>A message longer than the buffer\<close>

lemma hm_insert_same: "hm_get m k = Some v \<Longrightarrow> hm_insert m k v = m"
  by (induction m) (auto simp: hm_get_def hm_insert_def split: if_splits)

lemma put_engine_same: "lock_engine h m = Inr g \<Longrightarrow> put_engine h g m = m"
  by (auto simp: lock_engine_def put_engine_def hm_insert_same split: if_splits)

text \<open>A message that was delivered is known to the replay cache.\<close>

lemma decrypt_again_replays:
  assumes "engine_ok C g" "engine_decrypt C r g sid m ad = Some (Inr pt, g')"
  shows "engine_decrypt C r' g' sid m ad' = Some (Inl CeReplay, g')"
proof (rule engine_decrypt_cases [OF assms])
  fix sess l sto
  assume d: "hm_get (eg_sessions g) sid = Some sess" "g' = (after_delivery g sid sess l m)\<lparr>eg_storage := sto\<rparr>"
  then show ?thesis
    using after_delivery_replays [OF assms(1), of sid sess l m]
    by (simp add: engine_decrypt_def apply_decrypt_def)
qed simp

text \<open>C36: A long message is lost. When a plaintext is longer than the caller's buffer, which has the 4096 bytes that
  \<open>vc_decrypt\<close> announces, the call reports \<open>InvalidArgument\<close> and the size needed after the engine has already committed the
  decryption; every later call with a sufficient buffer is refused with \<open>StateError\<close>, because the message is now a replay.\<close>

theorem ffi_long_message_lost:
  assumes "lock_engine h m = Inr g" "engine_ok C g" "sealed_wf s" "length sid = 16"
    and "engine_decrypt C r g sid s ad = Some (Inr pt, g')"
    and "fm_buf m = Some mem" "fm_len m = Some n" "4096 \<le> n" "n < length pt"
  shows "vc_decrypt C r h (Some sid) (Some (sealed_encode s)) (length (sealed_encode s)) (Some ad) (length ad) m =
      Some (Inl VcInvalidArgument, (put_engine h g' m)\<lparr>fm_len := Some (length pt)\<rparr>) \<and>
    (\<forall>m' r'. lock_engine h m' = Inr g' \<and> can_write (max 4096 (length pt)) m' \<longrightarrow>
      vc_decrypt C r' h (Some sid) (Some (sealed_encode s)) (length (sealed_encode s)) (Some ad) (length ad) m' =
        Some (Inl VcStateError, m'))"
proof (intro conjI allI impI)
  have s: "sealed_decode (sealed_encode s) = Inr s" "take 16 sid = sid" using slc.roundtrip [OF assms(3)] assms(4) by simp_all
  have "can_write 4096 m" using assms(6-8) by (simp add: can_write_def)
  from ffi_decrypt_eq [OF assms(1) s(1) this] show "vc_decrypt C r h (Some sid) (Some (sealed_encode s)) (length (sealed_encode s))
      (Some ad) (length ad) m = Some (Inl VcInvalidArgument, (put_engine h g' m)\<lparr>fm_len := Some (length pt)\<rparr>)"
    using assms(5-9) s(2) by (simp add: copy_out_def put_engine_def)
  fix m' r' assume m': "lock_engine h m' = Inr g' \<and> can_write (max 4096 (length pt)) m'"
  then have "can_write 4096 m'" by (auto simp: can_write_def)
  from m' ffi_decrypt_eq [OF _ s(1) this]
  show "vc_decrypt C r' h (Some sid) (Some (sealed_encode s)) (length (sealed_encode s)) (Some ad) (length ad) m' =
        Some (Inl VcStateError, m')"
    using decrypt_again_replays [OF assms(2,5)] s(2) by (simp add: put_engine_same)
qed

subsection \<open>The interface as a transition system\<close>

text \<open>A call on a handle (for a creation, the handle it would give out), with the size of its fixed-size output
  in the header \<^verbatim>\<open>voicechat_crypto.h\<close> and its result: public keys and fingerprints are 32 bytes, session ids 16, and the
  other calls have none. Between calls the foreign code owns everything but the registry.\<close>

inductive ffi_call :: "features \<Rightarrow> crypto \<Rightarrow> nat \<Rightarrow> vc_handle \<Rightarrow> (vc_error + unit) \<Rightarrow> ffi_mem \<Rightarrow> ffi_mem \<Rightarrow> bool" for F C where
  call_create: "vc_engine_create F C rs dev dlen profile m = Some (res, m') \<Longrightarrow> ffi_call F C 32 (rg_next (fm_reg m)) res m m'"
| call_destroy: "vc_engine_destroy h m = Some (res, m') \<Longrightarrow> ffi_call F C 0 h res m m'"
| call_identity: "vc_engine_public_identity C h m = Some (res, m') \<Longrightarrow> ffi_call F C 32 h res m m'"
| call_bundle: "vc_generate_bundle C r h n m = Some (res, m') \<Longrightarrow> ffi_call F C 0 h res m m'"
| call_outbound: "vc_establish_outbound C rs h b blen c clen p plen a alen m = Some (res, m') \<Longrightarrow> ffi_call F C 16 h res m m'"
| call_inbound: "vc_process_inbound C rs h p plen c clen a alen m = Some (res, m') \<Longrightarrow> ffi_call F C 16 h res m m'"
| call_encrypt: "vc_encrypt C r h sid p plen a alen m = Some (res, m') \<Longrightarrow> ffi_call F C 0 h res m m'"
| call_decrypt: "vc_decrypt C r h sid p plen a alen m = Some (res, m') \<Longrightarrow> ffi_call F C 0 h res m m'"
| call_delete: "vc_delete_session h sid m = Some (res, m') \<Longrightarrow> ffi_call F C 0 h res m m'"
| call_fingerprint: "vc_fingerprint C pa pb da dal db dbl m = Some (res, m') \<Longrightarrow> ffi_call F C 32 h res m m'"

inductive ffi_reach :: "features \<Rightarrow> crypto \<Rightarrow> registry \<Rightarrow> registry \<Rightarrow> bool" for F C where
  reach_refl: "ffi_reach F C R R"
| reach_call: "ffi_reach F C R (fm_reg m) \<Longrightarrow> ffi_call F C sz h res m m' \<Longrightarrow> ffi_reach F C R (fm_reg m')"

definition registry_ok :: "crypto \<Rightarrow> registry \<Rightarrow> bool" where
  "registry_ok C R \<longleftrightarrow> rg_next R \<noteq> 0 \<and> \<not> rg_poisoned R \<and>
     (\<forall>h g. hm_get (rg_engines R) h = Some g \<longrightarrow> h \<noteq> 0 \<and> h < rg_next R \<and> engine_ok C g)"

text \<open>The promises of the caller: an output length does not exceed the memory behind it, and
  a fixed-size output has room for its size and no more is promised.\<close>

definition caller_ok :: "nat \<Rightarrow> ffi_mem \<Rightarrow> bool" where
  "caller_ok sz m \<longleftrightarrow> (\<forall>mem. fm_raw m = Some mem \<longrightarrow> sz \<le> length mem) \<and>
     (\<forall>mem n. fm_buf m = Some mem \<longrightarrow> fm_len m = Some n \<longrightarrow> n \<le> length mem)"

text \<open>What a call may change: the engine of its handle, and memory inside the output buffers.\<close>

definition within :: "crypto \<Rightarrow> nat \<Rightarrow> vc_handle \<Rightarrow> ffi_mem \<Rightarrow> ffi_mem \<Rightarrow> bool" where
  "within C sz h m m' \<longleftrightarrow> registry_ok C (fm_reg m') \<and> rg_next (fm_reg m) \<le> rg_next (fm_reg m') \<and>
     (\<forall>h'. h' \<noteq> h \<longrightarrow> hm_get (rg_engines (fm_reg m')) h' = hm_get (rg_engines (fm_reg m)) h') \<and>
     (caller_ok sz m \<longrightarrow> map_option length (fm_raw m') = map_option length (fm_raw m) \<and>
        map_option (drop sz) (fm_raw m') = map_option (drop sz) (fm_raw m) \<and>
        map_option length (fm_buf m') = map_option length (fm_buf m))"

definition dead_handle :: "vc_handle \<Rightarrow> registry \<Rightarrow> bool" where
  "dead_handle h R \<longleftrightarrow> h < rg_next R \<and> hm_get (rg_engines R) h = None"

definition same_buffers :: "ffi_mem \<Rightarrow> ffi_mem \<Rightarrow> bool" where
  "same_buffers m m' \<longleftrightarrow> fm_raw m' = fm_raw m \<and> fm_buf m' = fm_buf m \<and> fm_len m' = fm_len m"

lemma poke_length: "map_option length dst = Some n \<Longrightarrow> length src \<le> n \<Longrightarrow> map_option length (poke src dst) = Some n"
  by (auto simp: poke_def)

lemma within_refl: "registry_ok C (fm_reg m) \<Longrightarrow> within C sz h m m"
  by (simp add: within_def)

lemma within_announced: "registry_ok C (fm_reg m) \<Longrightarrow> within C sz h m (announced n m)"
  by (simp add: within_def announced_def)

lemma within_raw:
  "within C sz h m m' \<Longrightarrow> same_buffers m m' \<Longrightarrow> length src \<le> sz \<Longrightarrow> within C sz h m (m'\<lparr>fm_raw := poke src (fm_raw m')\<rparr>)"
  by (cases "fm_raw m") (auto simp: within_def same_buffers_def caller_ok_def poke_def)

lemma lock_engine_ok: "registry_ok C (fm_reg m) \<Longrightarrow> lock_engine h m = Inr g \<Longrightarrow> engine_ok C g"
  by (auto simp: registry_ok_def lock_engine_def split: if_splits)

lemma within_put:
  assumes "registry_ok C (fm_reg m)" "lock_engine h m = Inr g" "engine_ok C g'"
  shows "within C sz h m (put_engine h g' m)" "same_buffers m (put_engine h g' m)"
proof -
  have "hm_get (rg_engines (fm_reg m)) h = Some g" using assms(2) by (auto simp: lock_engine_def split: if_splits)
  then show "within C sz h m (put_engine h g' m)" "same_buffers m (put_engine h g' m)"
    using assms(1,3) by (auto simp: within_def put_engine_def registry_ok_def same_buffers_def)
qed

lemma within_copy_out: "within C sz h m m1 \<Longrightarrow> same_buffers m m1 \<Longrightarrow> within C sz h m (snd (copy_out out m1))"
  by (auto simp: within_def same_buffers_def copy_out_def caller_ok_def poke_def split: option.split)

lemma within_copy_session:
  "within C sz h m m1 \<Longrightarrow> same_buffers m m1 \<Longrightarrow> length sid \<le> sz \<Longrightarrow> within C sz h m (snd (copy_session sid out m1))"
  by (cases "fm_raw m"; cases "fm_buf m") (auto simp: within_def same_buffers_def copy_session_def caller_ok_def poke_def split: option.split)

text \<open>Elimination along the early returns of a call.\<close>

lemma pbind_readE:
  assumes "pbind (Some (e, m)) f = Some (res, m')" "m' = m \<Longrightarrow> Q" "\<And>a. e = Inr a \<Longrightarrow> f a m = Some (res, m') \<Longrightarrow> Q"
  shows Q
  using assms by (cases e) auto

lemma pbind_askE:
  assumes "pbind (ask_buffer n m) f = Some (res, m')" "m' = announced n m \<Longrightarrow> Q" "f () m = Some (res, m') \<Longrightarrow> Q"
  shows Q
  using assms by (cases "can_write n m") auto

lemma return_ifE:
  assumes "(if b then Some (e, m) else rest) = Some (res, m')" "m' = m \<Longrightarrow> Q" "\<not> b \<Longrightarrow> rest = Some (res, m') \<Longrightarrow> Q"
  shows Q
  using assms by (cases b) auto

lemma null_ptrE:
  assumes "(case p of None \<Rightarrow> Some (e, m) | Some x \<Rightarrow> f x) = Some (res, m')" "m' = m \<Longrightarrow> Q" "\<And>x. f x = Some (res, m') \<Longrightarrow> Q"
  shows Q
  using assms by (cases p) auto

lemmas early_returns = pbind_readE pbind_askE return_ifE null_ptrE

text \<open>The common end of the calls on an engine.\<close>

lemma engine_call_within:
  assumes "pbind (on_engine h m x) f = Some (res, m')" "registry_ok C (fm_reg m)" "lock_engine h m = Inr g"
    and "\<And>y g'. x = Some (y, g') \<Longrightarrow> engine_ok C g'"
    and "\<And>a g' m1. x = Some (Inr a, g') \<Longrightarrow> within C sz h m m1 \<Longrightarrow> same_buffers m m1 \<Longrightarrow> f a m1 = Some (res, m') \<Longrightarrow> within C sz h m m'"
  shows "within C sz h m m'"
proof -
  obtain y g' where x: "x = Some (y, g')" using assms(1) by (cases x) auto
  note w = within_put [OF assms(2,3) assms(4) [OF x]]
  show ?thesis
  proof (cases y)
    case (Inl e)
    then show ?thesis using assms(1) x w(1) by auto
  next
    case (Inr a)
    then show ?thesis using assms(1) x assms(5) [OF _ w, of a g'] by simp
  qed
qed

lemma copy_out_end: "within C sz h m m1 \<Longrightarrow> same_buffers m m1 \<Longrightarrow> Some (copy_out out m1) = Some (res, m') \<Longrightarrow> within C sz h m m'"
  using within_copy_out [of C sz h m m1 out] by simp

lemma copy_session_end:
  "within C 16 h m m1 \<Longrightarrow> same_buffers m m1 \<Longrightarrow> Some (copy_session sid out m1) = Some (res, m') \<Longrightarrow> length sid = 16 \<Longrightarrow> within C 16 h m m'"
  using within_copy_session [of C 16 h m m1 sid out] by simp

lemma inbound_sid: "process_inbound_session C rs g p cid ad = Some (Inr (sid, pt), g') \<Longrightarrow> engine_ok C g \<Longrightarrow> length sid = 16"
  by (rule inbound_cases) (auto simp: accepted_def)

lemma outbound_sid: "establish_outbound_session C rs g b cid pt ad = Some (Inr (sid, p), g') \<Longrightarrow> length sid = 16"
  by (erule outbound_cases) (simp only: session_id_len)

lemma vc_generate_bundle_within:
  assumes "prekey_laws C" "registry_ok C (fm_reg m)" "vc_generate_bundle C r h n m = Some (res, m')"
  shows "within C sz h m m'"
  using assms(3) unfolding vc_generate_bundle_def
proof (elim early_returns)
  fix g assume g: "lock_engine h m = Inr g"
    and e: "pbind (on_engine h m (Some (generate_public_prekey_bundle C r g n))) (\<lambda>b m. Some (copy_out (bundle_encode b) m)) = Some (res, m')"
  note ok = lock_engine_ok [OF assms(2) g]
  have k: "engine_ok C g'" if "Some (generate_public_prekey_bundle C r g n) = Some (y, g')" for y g'
    by (rule generate_bundle_cases [OF assms(1) ok]) (use that in \<open>auto simp: kept_def\<close>)
  show ?thesis by (rule engine_call_within [OF e assms(2) g k]) (assumption, erule (2) copy_out_end)
qed (use assms(2) within_refl within_announced in auto)

lemma vc_outbound_within:
  assumes "registry_ok C (fm_reg m)" "vc_establish_outbound C rs h b blen c clen p plen a alen m = Some (res, m')"
  shows "within C 16 h m m'"
  using assms(2) unfolding vc_establish_outbound_def
proof (elim early_returns)
  fix b c p a g
  assume g: "lock_engine h m = Inr g"
    and e: "pbind (on_engine h m (establish_outbound_session C rs g b c p a)) (\<lambda>(sid, packet) m. Some (copy_session sid (packet_encode packet) m)) = Some (res, m')"
  show ?thesis
    by (rule engine_call_within [OF e assms(1) g])
       (erule outbound_engine_ok [OF lock_engine_ok [OF assms(1) g]], auto elim: copy_session_end outbound_sid)
qed (use assms(1) within_refl within_announced in auto)

lemma vc_inbound_within:
  assumes "registry_ok C (fm_reg m)" "vc_process_inbound C rs h p plen c clen a alen m = Some (res, m')"
  shows "within C 16 h m m'"
  using assms(2) unfolding vc_process_inbound_def
proof (elim early_returns)
  fix p c a g
  assume g: "lock_engine h m = Inr g"
    and e: "pbind (on_engine h m (process_inbound_session C rs g p c a)) (\<lambda>(sid, pt) m. Some (copy_session sid pt m)) = Some (res, m')"
  note ok = lock_engine_ok [OF assms(1) g]
  show ?thesis
    by (rule engine_call_within [OF e assms(1) g]) (erule inbound_engine_ok [OF ok], auto elim: copy_session_end inbound_sid [OF _ ok])
qed (use assms(1) within_refl within_announced in auto)

lemma vc_encrypt_within:
  assumes "registry_ok C (fm_reg m)" "vc_encrypt C r h sid p plen a alen m = Some (res, m')"
  shows "within C sz h m m'"
  using assms(2) unfolding vc_encrypt_def Let_def
proof (elim early_returns)
  fix sid p a g
  assume g: "lock_engine h m = Inr g"
    and e: "pbind (on_engine h m (engine_encrypt C r g sid p a)) (\<lambda>s m. Some (copy_out (sealed_encode s) m)) = Some (res, m')"
  have k: "engine_ok C g'" if "engine_encrypt C r g sid p a = Some (y, g')" for y g'
    using engine_encrypt_kept [OF lock_engine_ok [OF assms(1) g] that] by (simp add: kept_def)
  show ?thesis by (rule engine_call_within [OF e assms(1) g k]) (assumption, erule (2) copy_out_end)
qed (use assms(1) within_refl within_announced in auto)

lemma vc_decrypt_within:
  assumes "registry_ok C (fm_reg m)" "vc_decrypt C r h sid p plen a alen m = Some (res, m')"
  shows "within C sz h m m'"
  using assms(2) unfolding vc_decrypt_def Let_def
proof (elim early_returns)
  fix sid p a g
  assume g: "lock_engine h m = Inr g"
    and e: "pbind (on_engine h m (engine_decrypt C r g sid p a)) (\<lambda>pt m. Some (copy_out pt m)) = Some (res, m')"
  have k: "engine_ok C g'" if "engine_decrypt C r g sid p a = Some (y, g')" for y g'
    using engine_decrypt_kept [OF lock_engine_ok [OF assms(1) g] that] by (simp add: kept_def)
  show ?thesis by (rule engine_call_within [OF e assms(1) g k]) (assumption, erule (2) copy_out_end)
qed (use assms(1) within_refl within_announced in auto)

lemma registry_ok_new_engine:
  assumes "registry_ok C R" "unat (rg_next R) + 1 < 2 ^ 64" "engine_ok C g"
  shows "registry_ok C (R\<lparr>rg_next := rg_next R + 1, rg_engines := hm_insert (rg_engines R) (rg_next R) g\<rparr>)" "rg_next R \<le> rg_next R + 1"
proof -
  have "unat (rg_next R + 1) = unat (rg_next R) + 1" using assms(2) by (simp add: unat_word_ariths)
  then have h: "rg_next R < rg_next R + 1" "rg_next R + 1 \<noteq> 0" by (auto simp: word_less_nat_alt simp flip: unat_eq_0)
  have "h' \<noteq> 0 \<and> h' < rg_next R + 1 \<and> engine_ok C g'" if "hm_get (hm_insert (rg_engines R) (rg_next R) g) h' = Some g'" for h' g'
    using that assms(1,3) h less_trans [of h' "rg_next R" "rg_next R + 1"] unfolding registry_ok_def by (cases "h' = rg_next R") auto
  then show "registry_ok C (R\<lparr>rg_next := rg_next R + 1, rg_engines := hm_insert (rg_engines R) (rg_next R) g\<rparr>)" "rg_next R \<le> rg_next R + 1"
    using h(2) assms(1) less_imp_le [OF h(1)] unfolding registry_ok_def by simp_all
qed

lemma vc_create_within:
  assumes "prekey_laws C" "registry_ok C (fm_reg m)" "vc_engine_create F C rs dev dlen profile m = Some (res, m')"
  shows "within C 32 (rg_next (fm_reg m)) m m'"
proof -
  let ?h = "rg_next (fm_reg m)"
  let ?wr = "\<lambda>g. m\<lparr>fm_raw := poke (local_identity_public C g) (fm_raw m)\<rparr>"
  have w: "within C 32 ?h m (?wr g)" "fm_reg (?wr g) = fm_reg m" for g
    using assms(1) within_raw [OF within_refl [OF assms(2)]]
    by (simp_all add: same_buffers_def prekey_laws_def local_identity_public_def identity_public_def public_key_len)
  have np: "\<not> rg_poisoned (fm_reg m)" using assms(2) by (simp add: registry_ok_def)
  from assms(3) consider "m' = m" | g dev' prof where "initialize_device C rs dev' prof = Some (Inr g)"
      "(case reg_alloc (fm_reg (?wr g)) of (Inl e, R) \<Rightarrow> Some (Inl e, (?wr g)\<lparr>fm_reg := R\<rparr>)
        | (Inr h, R) \<Rightarrow> Some (Inr (), (put_engine h g ((?wr g)\<lparr>fm_reg := R\<rparr>))\<lparr>fm_handle := Some h\<rparr>)) = Some (res, m')"
    using np by (auto simp: vc_engine_create_def Let_def vc_res_def pbind_def split: if_splits sum.splits option.splits)
  then show ?thesis
  proof cases
    case 2
    show ?thesis
    proof (cases "unat ?h + 1 < 2 ^ 64")
      case False
      then show ?thesis using 2(2) w by (auto simp: reg_alloc_def Let_def)
    next
      case True
      note n = registry_ok_new_engine [OF assms(2) True initialize_ok(1) [OF assms(1) 2(1)]]
      have "m' = (?wr g)\<lparr>fm_reg := (fm_reg m)\<lparr>rg_next := ?h + 1, rg_engines := hm_insert (rg_engines (fm_reg m)) ?h g\<rparr>, fm_handle := Some ?h\<rparr>"
        using 2(2) True by (simp add: reg_alloc_def put_engine_def Let_def)
      then show ?thesis using n w(1) [of g] by (simp add: within_def)
    qed
  qed (simp add: within_refl [OF assms(2)])
qed

lemma vc_destroy_within:
  "registry_ok C (fm_reg m) \<Longrightarrow> vc_engine_destroy h m = Some (res, m') \<Longrightarrow> within C sz h m m'"
  by (fastforce simp: vc_engine_destroy_def within_def registry_ok_def split: option.splits if_splits)

lemma vc_identity_within:
  assumes "lens_ok C" "registry_ok C (fm_reg m)" "vc_engine_public_identity C h m = Some (res, m')"
  shows "within C 32 h m m'"
proof -
  have w: "within C 32 h m (m\<lparr>fm_raw := poke (local_identity_public C g) (fm_raw m)\<rparr>)" for g
    using assms(1) within_raw [OF within_refl [OF assms(2)]]
    by (simp add: same_buffers_def local_identity_public_def identity_public_def public_key_len)
  show ?thesis
    using assms(3) unfolding vc_engine_public_identity_def
    by (elim early_returns) (use w within_refl [OF assms(2)] in auto)
qed

lemma vc_delete_within:
  assumes "registry_ok C (fm_reg m)" "vc_delete_session h sid m = Some (res, m')"
  shows "within C sz h m m'"
  using assms(2) unfolding vc_delete_session_def
proof (elim early_returns)
  fix x g
  assume g: "lock_engine h m = Inr g" and e: "on_engine h m (Some (delete_session g (take 16 x))) = Some (res, m')"
  obtain y g' where d: "delete_session g (take 16 x) = (y, g')" by (cases "delete_session g (take 16 x)")
  have "engine_ok C g'" using delete_session_result [OF lock_engine_ok [OF assms(1) g]] d by (simp add: kept_def)
  then show ?thesis using within_put(1) [OF assms(1) g] e d by (auto simp: on_engine_def)
qed (use assms(1) within_refl in auto)

lemma vc_fingerprint_within:
  assumes "registry_ok C (fm_reg m)" "vc_fingerprint C pa pb da dal db dbl m = Some (res, m')"
  shows "within C 32 h m m'"
proof -
  let ?out = "\<lambda>fp m1. case (fm_buf m1, fm_len m1) of
      (Some _, Some n) \<Rightarrow>
         let digits = bstr (fp_numeric fp)
         in if n < length digits then Some (Inl VcInvalidArgument, m1\<lparr>fm_len := Some (length digits)\<rparr>)
            else Some (Inr (), m1\<lparr>fm_buf := poke digits (fm_buf m1), fm_len := Some (length digits)\<rparr>)
    | _ \<Rightarrow> Some (Inr (), m1)"
  have o: "within C 32 h m m'" if "length (fp_binary fp) \<le> 32" "?out fp (m\<lparr>fm_raw := poke (fp_binary fp) (fm_raw m)\<rparr>) = Some (res, m')" for fp
    using that(2) within_raw [OF within_refl [OF assms(1)] _ that(1), of h]
    by (auto simp: within_def same_buffers_def caller_ok_def poke_def Let_def split: option.splits if_splits)
  have b: "length (fp_binary (compute_fingerprint C x y)) \<le> 32" for x y by (simp add: compute_fingerprint_def Let_def)
  show ?thesis
    using assms(2) o [OF b] within_refl [OF assms(1)]
    by (auto simp: vc_fingerprint_def Let_def pbind_def split: option.splits sum.splits)
qed

lemma ffi_call_within:
  assumes "prekey_laws C" "registry_ok C (fm_reg m)" "ffi_call F C sz h res m m'"
  shows "within C sz h m m'"
proof -
  have l: "lens_ok C" using assms(1) by (simp add: prekey_laws_def)
  show ?thesis
    using assms(3)
    by cases ((simp only:)?, erule vc_create_within [OF assms(1,2)]
      vc_destroy_within [OF assms(2)] vc_identity_within [OF l assms(2)] vc_generate_bundle_within [OF assms(1,2)]
      vc_outbound_within [OF assms(2)] vc_inbound_within [OF assms(2)] vc_encrypt_within [OF assms(2)]
      vc_decrypt_within [OF assms(2)] vc_delete_within [OF assms(2)] vc_fingerprint_within [OF assms(2)])+
qed

lemma registry_new_ok: "registry_ok C registry_new"
  by (simp add: registry_ok_def registry_new_def)

lemma ffi_reach_ok:
  assumes "prekey_laws C" "ffi_reach F C R R'" "registry_ok C R"
  shows "registry_ok C R' \<and> rg_next R \<le> rg_next R'"
  using assms(2,3)
proof induction
  case (reach_call R m sz h res m')
  then show ?case using ffi_call_within [OF assms(1) _ reach_call(2)] by (auto simp: within_def intro: order_trans)
qed simp

lemma ffi_call_create_next:
  assumes "ffi_call F C sz h res m m'" "h < rg_next (fm_reg m)" "hm_get (rg_engines (fm_reg m)) h = None" "\<not> rg_poisoned (fm_reg m)"
  shows "hm_get (rg_engines (fm_reg m')) h = None"
proof -
  have lock: "lock_engine h m = Inl VcNotFound" using assms(3,4) by (simp add: lock_engine_def)
  have "fm_reg m' = fm_reg m"
    using assms(1)
  proof cases
    case call_create
    then show ?thesis using assms(2) by simp
  next
    case call_destroy
    then show ?thesis using assms(3,4) by (simp add: vc_engine_destroy_def split: if_splits)
  next
    case call_fingerprint
    then show ?thesis
      by (auto simp: vc_fingerprint_def Let_def pbind_def split: option.splits sum.splits if_splits)
  qed (unfold vc_engine_public_identity_def vc_generate_bundle_def vc_establish_outbound_def vc_process_inbound_def vc_encrypt_def
       vc_decrypt_def vc_delete_session_def Let_def, (elim early_returns; simp add: lock announced_def)+)
  then show ?thesis using assms(3) by simp
qed

lemma ffi_reach_dead:
  assumes "prekey_laws C" "ffi_reach F C R R'" "registry_ok C R" "dead_handle h R"
  shows "dead_handle h R'"
  using assms(2-4)
proof induction
  case (reach_call R m sz h' res m')
  note ok = ffi_reach_ok [OF assms(1) reach_call(1,4)]
  then have w: "within C sz h' m m'" using ffi_call_within [OF assms(1) _ reach_call(2)] by blast
  have d: "h < rg_next (fm_reg m)" "hm_get (rg_engines (fm_reg m)) h = None" using reach_call by (simp_all add: dead_handle_def)
  have "hm_get (rg_engines (fm_reg m')) h = None"
  proof (cases "h = h'")
    case True
    then show ?thesis using ffi_call_create_next [OF reach_call(2)] d ok by (simp add: registry_ok_def)
  qed (use w d(2) in \<open>simp add: within_def\<close>)
  then show ?case using d(1) w by (auto simp: dead_handle_def within_def)
qed

text \<open>C7: Containment of the foreign interface. Whatever calls the foreign code made before, a call leaves every registered
  engine well formed and under a non-zero handle, touches no engine but the one it names, and writes only inside the
  buffers it was given: not a byte beyond the size of its fixed-size output, which is 16 for a session id and 32 for
  a public key or a fingerprint, nor beyond the variable-size one. A destroyed handle is \<open>NotFound\<close> for ever, because handles are never given out twice.\<close>

theorem ffi_calls_are_contained:
  assumes "prekey_laws C" "ffi_reach F C registry_new (fm_reg m)" "ffi_call F C sz h res m m'"
  shows "(\<forall>h' g. hm_get (rg_engines (fm_reg m')) h' = Some g \<longrightarrow> h' \<noteq> 0 \<and> engine_ok C g) \<and>
    (\<forall>h'. h' \<noteq> h \<longrightarrow> hm_get (rg_engines (fm_reg m')) h' = hm_get (rg_engines (fm_reg m)) h') \<and>
    (caller_ok sz m \<longrightarrow> map_option length (fm_raw m') = map_option length (fm_raw m) \<and>
       map_option (drop sz) (fm_raw m') = map_option (drop sz) (fm_raw m) \<and>
       map_option length (fm_buf m') = map_option length (fm_buf m)) \<and>
    (vc_engine_destroy h m = Some (Inr (), m') \<longrightarrow>
       (\<forall>m2. ffi_reach F C (fm_reg m') (fm_reg m2) \<longrightarrow> lock_engine h m2 = Inl VcNotFound))"
proof -
  have ok: "registry_ok C (fm_reg m)" using ffi_reach_ok [OF assms(1,2) registry_new_ok] by blast
  note w = ffi_call_within [OF assms(1) ok assms(3), unfolded within_def]
  have "lock_engine h m2 = Inl VcNotFound"
    if "vc_engine_destroy h m = Some (Inr (), m')" "ffi_reach F C (fm_reg m') (fm_reg m2)" for m2
  proof -
    have "dead_handle h (fm_reg m')"
      using that(1) ok by (auto simp: vc_engine_destroy_def dead_handle_def registry_ok_def split: if_splits option.splits)
    moreover have "registry_ok C (fm_reg m')" using w by blast
    ultimately have "dead_handle h (fm_reg m2)" "\<not> rg_poisoned (fm_reg m2)"
      using ffi_reach_dead [OF assms(1) that(2)] ffi_reach_ok [OF assms(1) that(2)] by (simp_all add: registry_ok_def)
    then show ?thesis by (simp add: dead_handle_def lock_engine_def)
  qed
  moreover have "\<forall>h' g. hm_get (rg_engines (fm_reg m')) h' = Some g \<longrightarrow> h' \<noteq> 0 \<and> engine_ok C g"
    using w unfolding registry_ok_def by blast
  ultimately show ?thesis using w by blast
qed

subsection \<open>Concrete calls\<close>

text \<open>The memory of a process with one engine under handle 1 and output buffers of the given size.\<close>

definition demo_mem :: "engine \<Rightarrow> nat \<Rightarrow> ffi_mem" where
  "demo_mem g n = \<lparr>fm_reg = \<lparr>rg_next = 2, rg_engines = [(1, g)], rg_poisoned = False\<rparr>, fm_handle = Some 0,
     fm_raw = Some (replicate 32 0), fm_buf = Some (replicate n 0), fm_len = Some n\<rparr>"

lemma demo_mem_simps [simp]:
  "lock_engine 1 (demo_mem g n) = Inr g" "can_write k (demo_mem g n) \<longleftrightarrow> k \<le> n" "fm_raw (demo_mem g n) \<noteq> None"
  "fm_buf (demo_mem g n) = Some (replicate n 0)" "fm_len (demo_mem g n) = Some n"
  by (simp_all add: demo_mem_def lock_engine_def can_write_def hm_get_def)

lemma braid_ct_sized: "kem_ct_sized braid_crypto"
  unfolding kem_ct_sized_def
proof (intro allI)
  fix ek m
  show "length (fst (kem_encaps braid_crypto ek m)) = 1088"
    by (rule braid_crypto_encaps [of "drop EK_VECTOR_LEN ek" "sha3_256 plain_crypto ek" m])
       (simp add: braid_crypto_def length_pke_ct2 CT1_LEN_def CT2_LEN_def)
qed

theorem ffi_two_call_protocol_witness:
  "\<exists>g b g'. vc_generate_bundle braid_crypto (\<lambda>_. 5) 1 1 (demo_mem g 4096) =
       Some (Inr (), filled (bundle_encode b) (put_engine 1 g' (demo_mem g 4096))) \<and>
     vc_generate_bundle braid_crypto (\<lambda>_. 5) 1 1 (demo_mem g 100) = Some (Inl VcInvalidArgument, announced 4096 (demo_mem g 100))"
proof -
  obtain g b g' where d: "generate_public_prekey_bundle braid_crypto (\<lambda>_. 5) g 1 = (Inr b, g')" "engine_ok braid_crypto g"
    by (rule demo_pair [of ClassicalV1])
  have l: "8192 + length ([] :: bytes) < 2 ^ 64" by simp
  note w = ffi_two_call_protocol [OF braid_prekey_laws braid_crypto_dr(4) braid_ct_sized demo_mem_simps(1) d(2) l, THEN conjunct1]
  have "vc_generate_bundle braid_crypto (\<lambda>_. 5) 1 1 (demo_mem g 4096) =
       Some (Inr (), filled (bundle_encode b) (put_engine 1 g' (demo_mem g 4096)))" using d(1) by (simp add: w served_def)
  moreover have "vc_generate_bundle braid_crypto (\<lambda>_. 5) 1 1 (demo_mem g 100) = Some (Inl VcInvalidArgument, announced 4096 (demo_mem g 100))"
    by (simp add: w)
  ultimately show ?thesis by blast
qed

theorem ffi_first_contact_witness:
  "\<exists>gA gB gB1 mB1 mA1 mB3. vc_generate_bundle braid_crypto (\<lambda>_. 5) 1 1 (demo_mem gB 4096) = Some (Inr (), mB1) \<and>
     vc_establish_outbound braid_crypto (\<lambda>_ _. 7) 1 (Some (out_bytes mB1)) (length (out_bytes mB1)) (Some [9]) 1 (Some [42]) 1
       (Some []) 0 (demo_mem gA 9000) = Some (Inr (), mA1) \<and>
     vc_process_inbound braid_crypto (\<lambda>_ _. 6) 1 (Some (out_bytes mA1)) (length (out_bytes mA1)) (Some [9]) 1 (Some []) 0
       (demo_mem gB1 4096) = Some (Inr (), mB3) \<and> out_bytes mB3 = [42]"
proof -
  obtain gA gB b gB1 where d: "generate_public_prekey_bundle braid_crypto (\<lambda>_. 5) gB 1 = (Inr b, gB1)"
    "public_key braid_crypto (fst (secret_generate braid_crypto (\<lambda>_. 6))) \<noteq> pb_signed b" "\<forall>sid. sid_fresh gB sid"
    "engine_ok braid_crypto gA" "engine_ok braid_crypto gB" "eg_profile gA = eg_profile gB"
    by (rule demo_pair [of HybridPqV1])
  let ?mB1 = "filled (bundle_encode b) (put_engine 1 gB1 (demo_mem gB 4096))"
  have e: "vc_generate_bundle braid_crypto (\<lambda>_. 5) 1 1 (demo_mem gB 4096) = Some (Inr (), ?mB1)"
    using d(1) by (simp add: ffi_bundle_eq [OF braid_prekey_laws demo_mem_simps(1) d(5)] served_def)
  have l: "lens_ok braid_crypto" "kem_correct braid_crypto" "edwards_laws braid_crypto"
    using braid_prekey_laws by (simp_all add: prekey_laws_def)
  have k: "public_key braid_crypto (fst (secret_generate braid_crypto ((\<lambda>_ _. 6) 1))) \<noteq>
      public_key braid_crypto (sp_secret (ps_signed (eg_prekeys gB)))"
    using d(2) bundle_signed_key [OF braid_prekey_laws d(5,1)] by simp
  have "lock_engine 1 (demo_mem gB1 4096) = lock_engine 1 ?mB1" by simp
  from ffi_first_contact [OF l(1) braid_crypto_dr(1,3,2) l(2,3) braid_crypto_dr(4) braid_crypto_laws braid_ct_sized
      demo_mem_simps(1) d(5) _ e demo_mem_simps(1) d(4,6) _ _ this _ _ _ k, of 9000 "[42]" "\<lambda>_ _. 7" "[9]" "[]"] e d(3)
  show ?thesis by fastforce
qed

theorem ffi_long_message_lost_witness:
  "\<exists>g s sid g'. vc_decrypt braid_crypto (\<lambda>_. 6) 1 (Some sid) (Some (sealed_encode s)) (length (sealed_encode s)) (Some []) 0 (demo_mem g 4096) =
       Some (Inl VcInvalidArgument, (put_engine 1 g' (demo_mem g 4096))\<lparr>fm_len := Some 5000\<rparr>) \<and>
     vc_decrypt braid_crypto (\<lambda>_. 6) 1 (Some sid) (Some (sealed_encode s)) (length (sealed_encode s)) (Some []) 0 (demo_mem g' 5000) =
       Some (Inl VcStateError, demo_mem g' 5000)"
proof -
  obtain g sid s g' where d: "engine_ok braid_crypto g"
    "engine_decrypt braid_crypto (\<lambda>_. 6) g sid s [] = Some (Inr (replicate 5000 1), g')" "sealed_wf s" "length sid = 16"
    by (rule demo_decrypt [of "replicate 5000 1"]) simp_all
  note w = ffi_long_message_lost [where m = "demo_mem g 4096" and n = 4096, OF demo_mem_simps(1) d(1,3,4,2) demo_mem_simps(4,5)]
  then show ?thesis by fastforce
qed

theorem ffi_calls_are_contained_witness:
  "\<exists>m m1 m2 g. fm_reg m = registry_new \<and> vc_engine_create demo_features braid_crypto (\<lambda>_ _. 3) (Some [1]) 1 1 m = Some (Inr (), m1) \<and>
     lock_engine 1 m1 = Inr g \<and> engine_ok braid_crypto g \<and> vc_engine_destroy 1 m1 = Some (Inr (), m2) \<and> lock_engine 1 m2 = Inl VcNotFound"
proof -
  obtain g where g: "initialize_device braid_crypto (\<lambda>_ _. 3) [1] ClassicalV1 = Some (Inr g)" by (rule demo_engine)
  let ?m = "(demo_mem g 0)\<lparr>fm_reg := registry_new\<rparr>"
  let ?m1 = "(demo_mem g 0)\<lparr>fm_raw := poke (local_identity_public braid_crypto g) (Some (replicate 32 0)), fm_handle := Some 1\<rparr>"
  let ?m2 = "?m1\<lparr>fm_reg := \<lparr>rg_next = 2, rg_engines = [], rg_poisoned = False\<rparr>\<rparr>"
  have c: "vc_engine_create demo_features braid_crypto (\<lambda>_ _. 3) (Some [1]) 1 1 ?m = Some (Inr (), ?m1)"
    using g by (simp add: vc_engine_create_def profile_from_u8_def ffi_read_bytes_def vc_res_def demo_mem_def registry_new_def reg_alloc_def
      put_engine_def hm_insert_def Let_def)
  have d: "vc_engine_destroy 1 ?m1 = Some (Inr (), ?m2)"
    by (simp add: vc_engine_destroy_def demo_mem_def hm_get_def hm_remove_def)
  have r0: "ffi_reach demo_features braid_crypto registry_new (fm_reg ?m)" by (simp add: reach_refl)
  have r1: "ffi_reach demo_features braid_crypto registry_new (fm_reg ?m1)" using reach_call [OF r0 call_create [OF c]] .
  have "lock_engine 1 ?m2 = Inl VcNotFound"
    using ffi_calls_are_contained [OF braid_prekey_laws r1 call_destroy [OF d]] d reach_refl by blast
  moreover have "engine_ok braid_crypto g"
    using ffi_calls_are_contained [OF braid_prekey_laws r0 call_create [OF c]] by (simp add: demo_mem_def hm_get_def)
  moreover have "lock_engine 1 ?m1 = Inr g" "fm_reg ?m = registry_new" by (simp_all add: demo_mem_def lock_engine_def hm_get_def)
  ultimately show ?thesis using c d by blast
qed

end
