(* ===== verification/VC_Engine_Talk.thy ===== *)
theory VC_Engine_Talk
  imports VC_Engine_Durable
begin

text \<open>
  A whole conversation between two engines of the classical profile. After first contact each engine
  has a session; messages may be lost, delayed and reordered, anything may be injected, sends and
  decryptions may fail, either engine may do other work or crash and reload. The two engines refine
  the two-party system of the Double Ratchet, and the replay cache never stands in the way of
  a message that was not delivered yet.
\<close>

subsection \<open>Which message numbers a party has used\<close>

text \<open>A number of a sending chain that is spent: its key is one the parties used, and if it is the
  current one the counter has passed it.\<close>

definition spent :: "crypto \<Rightarrow> world \<Rightarrow> bool \<Rightarrow> bytes \<Rightarrow> u32 \<Rightarrow> bool" where
  "spent C w q d n \<longleftrightarrow> d \<in> used w \<and> (\<forall>x. dhs (st w q) = Some x \<longrightarrow> d = public_key C x \<longrightarrow> unat n < unat (ns (st w q)))"

lemma reach_synced:
  assumes "crypto_laws C" "dr_reach C w"
  obtains G E i where "chains_ok C G E" "\<forall>p. party_at C G (i p) (st w p)" "\<forall>p. i p \<le> E \<and> E \<le> Suc (i p)"
    "\<forall>p. mail_ok C G E (i p) (st w p) (wire w (\<not> p))" "g_pub C G ` {..E} \<subseteq> used w"
  using synced_reach [OF assms(2,1)] unfolding synced_at_def by blast

lemma party_at_sending: "party_at C ch e s \<Longrightarrow> dhs s = Some (g_sec ch e) \<and> unat (ns s) = g_len ch e"
  by (simp add: party_at_def)

lemma reach_wf:
  assumes "crypto_laws C" "dr_reach C w"
  shows "dr_wf C (st w p)" "clone_for_trial C (st w p) = st w p"
  by (rule reach_synced [OF assms], simp add: party_at_def)+

lemma wire_spent:
  assumes "crypto_laws C" "dr_reach C w" "(h, ct, pt, ad) \<in> set (wire w q)"
  shows "spent C w q (h_dh h) (h_n h)" "header_wf h"
proof -
  obtain G E i where s: "chains_ok C G E" "\<forall>p. party_at C G (i p) (st w p)" "\<forall>p. i p \<le> E \<and> E \<le> Suc (i p)"
    "\<forall>p. mail_ok C G E (i p) (st w p) (wire w (\<not> p))" "g_pub C G ` {..E} \<subseteq> used w"
    by (rule reach_synced [OF assms(1,2)])
  have "(h, ct, pt, ad) \<in> set (wire w (\<not> (\<not> q)))" using assms(3) by simp
  from mail_ok_msg [OF s(4) [rule_format] this] obtain j n where g: "j \<le> E" "genuine C G (h, ct, pt, ad) j n" by blast
  note f = genuine_facts [OF s(1) g]
  have l: "lens_ok C" "xpub_ok C" using assms(1) by (simp_all add: crypto_laws_def)
  show "header_wf h" by (rule header_wf_genuine [OF l g(2)])
  have "unat (h_n h) < unat (ns (st w q))" if "dhs (st w q) = Some x" "h_dh h = public_key C x" for x
  proof -
    have "x = g_sec G (i q)" "unat (ns (st w q)) = g_len G (i q)" using s(2) [rule_format, of q] that(1) by (simp_all add: party_at_def)
    moreover have "j = i q" if "g_pub C G j = g_pub C G (i q)" using that s(1,3) g(1) by (auto simp: chains_ok_def inj_on_def)
    ultimately show ?thesis using that(2) f g(2) by (auto simp: genuine_def)
  qed
  then show "spent C w q (h_dh h) (h_n h)" using s(5) g by (auto simp: spent_def genuine_def)
qed

lemma sent_not_spent:
  assumes "dr_encrypt C (st w q) pt ad = (Inr (h, ct), s')"
  shows "\<not> spent C w q (h_dh h) (h_n h)"
  by (rule dr_encrypt_cases [OF assms]) (simp add: spent_def)

lemma spent_step:
  assumes "crypto_laws C" "dr_reach C w" "dr_step C w w'" "spent C w q d n"
  shows "spent C w' q d n"
  using assms(3)
proof cases
  case (send p pt ad h ct s')
  show ?thesis
    by (rule dr_encrypt_cases [OF send(2)]) (use assms(4) send(1) unat_plus1 in \<open>auto simp: spent_def\<close>)
next
  case (send_refused p pt ad err s')
  then have "dhs s' = dhs (st w p)" "unat (ns (st w p)) \<le> unat (ns s')"
    using dr_encrypt_state [of C "st w p" pt ad] unat_plus1
    by (auto simp: ratchet_send_key_eq checked_inc_iff split: option.splits sum.splits)
  then show ?thesis using assms(4) send_refused(1) by (auto simp: spent_def)
next
  case (deliver h ct pt ad p r pt' s' y)
  obtain G E i where s: "chains_ok C G E" "\<forall>p. party_at C G (i p) (st w p)" "\<forall>p. i p \<le> E \<and> E \<le> Suc (i p)"
    "\<forall>p. mail_ok C G E (i p) (st w p) (wire w (\<not> p))"
    by (rule reach_synced [OF assms(1,2)])
  have d: "delivered C G E (i p) (st w p) (remove1 (h, ct, pt, ad) (wire w (\<not> p))) r s'"
    using deliver_result [OF assms(1) s(1) s(2,4) [rule_format] _ _ deliver(2), of r] s(3) deliver(3) by auto
  show ?thesis
  proof (cases "dhr s' = dhr (st w p)")
    case True
    then have "party_at C G (i p) s'" using d by (auto simp: delivered_def)
    then have "dhs s' = dhs (st w p)" "unat (ns s') = unat (ns (st w p))" using s(2) party_at_sending by metis+
    then show ?thesis using assms(4) deliver(1) True by (auto simp: spent_def)
  next
    case False
    then have "dhs s' = Some (fst (secret_generate C r))" using d party_at_sending by (fastforce simp: delivered_def Let_def)
    then show ?thesis using assms(4) deliver(1,4,5) False by (auto simp: spent_def)
  qed
next
  case (inject r p h ct ad err s')
  then have "s' = st w p" using dr_decrypt_error_state by blast
  then show ?thesis using assms(4) inject(1) by (simp add: spent_def)
next
  case (restart p s')
  have "s' = st w p" using restart(2) drc.roundtrip [of C "st w p" "max_skip (st w p)"] reach_wf(1) [OF assms(1,2)] by simp
  then show ?thesis using assms(4) restart(1) by (simp add: spent_def)
qed

subsection \<open>Other work of an engine\<close>

text \<open>What matters of a session, and the replay keys that belong to it.\<close>

definition session_core :: "engine \<Rightarrow> bytes \<Rightarrow> (live_ratchet \<times> bytes \<times> bytes) option" where
  "session_core g sid = map_option (\<lambda>s. (ls_ratchet s, ls_conversation s, ls_ad s)) (hm_get (eg_sessions g) sid)"

definition sid_keys :: "engine \<Rightarrow> bytes \<Rightarrow> replay_key set" where
  "sid_keys g sid = {k \<in> set (rc_order (eg_replay g)). take 16 (drop 2 (message_id k)) = sid}"

inductive aside :: "features \<Rightarrow> crypto \<Rightarrow> bytes \<Rightarrow> engine \<Rightarrow> engine \<Rightarrow> bool" for F C sid where
  aside_bundle: "generate_public_prekey_bundle C r g n = (Inr b, g') \<Longrightarrow> aside F C sid g g'"
| aside_encrypt: "engine_encrypt C r g sid' pt ad = Some (res, g') \<Longrightarrow> sid' \<noteq> sid \<Longrightarrow> aside F C sid g g'"
| aside_decrypt: "engine_decrypt C r g sid' m ad = Some (res, g') \<Longrightarrow> sid' \<noteq> sid \<Longrightarrow> aside F C sid g g'"
| aside_outbound: "establish_outbound_session C rs g b cid pt ad = Some (Inr x, g') \<Longrightarrow> fst x \<noteq> sid \<Longrightarrow> aside F C sid g g'"
| aside_inbound: "process_inbound_session C rs g p cid ad = Some (Inr x, g') \<Longrightarrow> fst x \<noteq> sid \<Longrightarrow> aside F C sid g g'"
| aside_acknowledge: "acknowledge_identity_change g remote device = (res, g') \<Longrightarrow> aside F C sid g g'"
| aside_delete: "delete_session g sid' = (res, g') \<Longrightarrow> sid' \<noteq> sid \<Longrightarrow> aside F C sid g g'"
| aside_crash: "reload_fits F C g \<Longrightarrow> simulate_crash_reload F C g = (res, g') \<Longrightarrow> aside F C sid g g'"

lemma aside_is_step: "aside F C sid g g' \<Longrightarrow> engine_step F C g g'"
  by (induction rule: aside.induct) (rule engine_step.intros; assumption)+

lemma new_replay_key:
  assumes "engine_ok C g" "length sid' = 16"
  shows "sid_keys (after_delivery g sid' sess l m) sid \<subseteq>
    sid_keys g sid \<union> (if sid' = sid then {replay_key_of sid' m (ls_conversation sess) (eg_device g)} else {})"
proof -
  have "rc_ok (eg_replay g)" using assms(1) by (simp add: engine_ok_def)
  from check_and_insert_window(2) [OF this]
  show ?thesis
    using assms(2) by (auto simp: sid_keys_def after_delivery_def window_add_def replay_key_of_def dest: set_tl_in)
qed

lemma other_replay_keys:
  "engine_ok C g \<Longrightarrow> length sid' = 16 \<Longrightarrow> sid' \<noteq> sid \<Longrightarrow> sid_keys (after_delivery g sid' sess l m) sid \<subseteq> sid_keys g sid"
  using new_replay_key [of C g sid' sess l m sid] by simp

lemma persist_device_frame: "persist_device_state g = (res, g') \<Longrightarrow> \<exists>sto. g' = g\<lparr>eg_storage := sto\<rparr>"
  by (auto simp: persist_device_state_def commit_pairs_def split: prod.splits sum.splits)

lemma session_frame:
  "session_core (g\<lparr>eg_storage := sto\<rparr>) sid = session_core g sid" "sid_keys (g\<lparr>eg_storage := sto\<rparr>) sid = sid_keys g sid"
  "session_core (set_ratchet g sid' sess l) sid =
     (if sid = sid' then Some (l, ls_conversation sess, ls_ad sess) else session_core g sid)"
  "sid_keys (set_ratchet g sid' sess l) sid = sid_keys g sid"
  "session_core (opened g sid' k l c a) sid = (if sid = sid' then Some (l, c, a) else session_core g sid)"
  "sid_keys (opened g sid' k l c a) sid = sid_keys g sid"
  "session_core (after_delivery g sid' sess l m) sid =
     (if sid = sid' then Some (l, ls_conversation sess, ls_ad sess) else session_core g sid)"
  by (simp_all add: session_core_def sid_keys_def)

lemma aside_keeps:
  assumes "prekey_laws C" "engine_ok C g" "persisted g" "aside F C sid g g'"
  shows "kept C g g'" "session_core g' sid = session_core g sid" "sid_keys g' sid \<subseteq> sid_keys g sid"
proof -
  show "kept C g g'" by (rule engine_step_kept [OF assms(1) aside_is_step [OF assms(4)] assms(2,3)])
  have "session_core g' sid = session_core g sid \<and> sid_keys g' sid \<subseteq> sid_keys g sid"
    using assms(4)
  proof cases
    case (aside_bundle r n b)
    show ?thesis
      by (rule generate_bundle_cases [OF assms(1,2) aside_bundle]) (auto simp: session_core_def sid_keys_def)
  next
    case (aside_encrypt r sid' pt ad res)
    show ?thesis
      by (rule engine_encrypt_cases [OF assms(2) aside_encrypt(1)]) (use aside_encrypt(2) in \<open>auto simp: session_frame\<close>)
  next
    case (aside_decrypt r sid' m ad res)
    show ?thesis
      by (rule engine_decrypt_cases [OF assms(2) aside_decrypt(1)])
         (use aside_decrypt(2) other_replay_keys [OF assms(2) engine_ok_sid [OF assms(2)]] in \<open>auto simp: session_frame\<close>)
  next
    case (aside_outbound rs b cid pt ad x)
    obtain sid' p where x: "x = (sid', p)" by (cases x)
    obtain l a m where e: "engine_encrypt C (rs 3) (opened g sid' (pb_identity b) l cid a) sid' pt ad = Some (Inr m, g')"
      "sid' = next_session_id (rs 2)" by (rule outbound_cases [OF aside_outbound(1) [unfolded x]])
    have "engine_ok C (opened g sid' (pb_identity b) l cid a)" using assms(2) e(2) by (simp add: opened_ok)
    then show ?thesis
      by (rule engine_encrypt_cases [OF _ e(1)]) (use aside_outbound(2) x in \<open>auto simp: session_frame\<close>)
  next
    case (aside_inbound rs p cid ad x)
    obtain sid' pt where x: "x = (sid', pt)" by (cases x)
    obtain sh l0 l ps sto where j: "accepted C rs g p cid ad sid' sh l0 l pt" "g' = (joined g p cid sid' sh l0 l ps)\<lparr>eg_storage := sto\<rparr>"
      by (rule inbound_cases [OF assms(2) aside_inbound(1) [unfolded x]])
    have "length sid' = 16" using j(1) by (simp add: accepted_def)
    moreover from this have "engine_ok C (opened g sid' (ip_identity p) l0 cid (px_ad sh))" using assms(2) by (simp add: opened_ok)
    ultimately show ?thesis
      using j(2) aside_inbound(2) x other_replay_keys [of C "opened g sid' (ip_identity p) l0 cid (px_ad sh)" sid' sid]
      by (fastforce simp: joined_def session_core_def sid_keys_def)
  next
    case (aside_acknowledge remote device res)
    show ?thesis
    proof (cases "public_from_bytes remote")
      case (Inl e)
      then show ?thesis using aside_acknowledge by (simp add: acknowledge_identity_change_def)
    next
      case (Inr ik)
      let ?mat = "\<lparr>im_key = ik, im_device = device\<rparr>"
      let ?f = "\<lambda>(k :: bytes) sess. if ls_remote sess = ik \<or> is_changed (tracker_observe (ls_tracker sess) ?mat)
        then sess\<lparr>ls_tracker := tracker_acknowledge (ls_tracker sess) ?mat\<rparr> else sess"
      obtain t sto where g': "g' = g\<lparr>eg_sessions := map (\<lambda>(k, v). (k, ?f k v)) (eg_sessions g), eg_trust := t, eg_storage := sto\<rparr>"
        using aside_acknowledge Inr persist_device_frame by (fastforce simp: acknowledge_identity_change_def Let_def)
      have "hm_get (eg_sessions g') sid = map_option (?f sid) (hm_get (eg_sessions g) sid)"
        using g' hm_get_map [of ?f "eg_sessions g" sid] by simp
      then have "session_core g' sid = session_core g sid" by (cases "hm_get (eg_sessions g) sid") (simp_all add: session_core_def)
      then show ?thesis using g' by (simp add: sid_keys_def)
    qed
  next
    case (aside_delete sid' res)
    then show ?thesis
      by (auto simp: delete_session_def Let_def drop_session_def session_core_def sid_keys_def split: option.splits prod.splits sum.splits)
  next
    case (aside_crash res)
    show ?thesis
      by (rule reload_result [OF assms(2,3) aside_crash(1)])
         (use aside_crash(2) in \<open>simp add: same_state_def session_core_def sid_keys_def option.map_comp comp_def\<close>)
  qed
  then show "session_core g' sid = session_core g sid" "sid_keys g' sid \<subseteq> sid_keys g sid" by simp_all
qed

subsection \<open>Two engines in conversation\<close>

record talk =
  tk_eng :: "bool \<Rightarrow> engine"
  tk_wire :: "bool \<Rightarrow> (sealed_message \<times> bytes \<times> bytes) list"
  tk_used :: "bytes set"

text \<open>The peer's ratchet key as a session knows it; it changes when the ratchet turns.\<close>

definition peer_key :: "engine \<Rightarrow> bytes \<Rightarrow> bytes option" where
  "peer_key g sid = (case session_core g sid of Some (LClassical s, _) \<Rightarrow> dhr s | _ \<Rightarrow> None)"

text \<open>Messages in transit are kept with the plaintext and associated data they were made from. A turning
  ratchet draws a fresh key.\<close>

inductive talk_step :: "features \<Rightarrow> crypto \<Rightarrow> (bool \<Rightarrow> bytes) \<Rightarrow> talk \<Rightarrow> talk \<Rightarrow> bool" for F C sid where
  talk_send: "engine_encrypt C r (tk_eng W p) (sid p) pt ad = Some (Inr m, g') \<Longrightarrow>
    talk_step F C sid W (W\<lparr>tk_eng := (tk_eng W)(p := g'), tk_wire := (tk_wire W)(p := tk_wire W p @ [(m, pt, ad)])\<rparr>)"
| talk_refuse: "engine_encrypt C r (tk_eng W p) (sid p) pt ad = Some (Inl e, g') \<Longrightarrow>
    talk_step F C sid W (W\<lparr>tk_eng := (tk_eng W)(p := g')\<rparr>)"
| talk_deliver: "(m, pt, ad) \<in> set (tk_wire W (\<not> p)) \<Longrightarrow> engine_decrypt C r (tk_eng W p) (sid p) m ad = Some (Inr pt', g') \<Longrightarrow>
    y = public_key C (fst (secret_generate C r)) \<Longrightarrow>
    (peer_key g' (sid p) \<noteq> peer_key (tk_eng W p) (sid p) \<Longrightarrow> y \<notin> tk_used W) \<Longrightarrow>
    talk_step F C sid W (W\<lparr>tk_eng := (tk_eng W)(p := g'),
      tk_wire := (tk_wire W)(\<not> p := remove1 (m, pt, ad) (tk_wire W (\<not> p))),
      tk_used := (if peer_key g' (sid p) \<noteq> peer_key (tk_eng W p) (sid p) then insert y (tk_used W) else tk_used W)\<rparr>)"
| talk_reject: "engine_decrypt C r (tk_eng W p) (sid p) m ad = Some (Inl e, g') \<Longrightarrow>
    talk_step F C sid W (W\<lparr>tk_eng := (tk_eng W)(p := g')\<rparr>)"
| talk_aside: "aside F C (sid p) (tk_eng W p) g' \<Longrightarrow> talk_step F C sid W (W\<lparr>tk_eng := (tk_eng W)(p := g')\<rparr>)"

subsection \<open>Refinement of the two-party ratchet\<close>

definition hdr_of :: "sealed_message \<Rightarrow> header" where
  "hdr_of m = (case header_decode (sl_header m) of Inr h \<Rightarrow> h | Inl _ \<Rightarrow> \<lparr>h_dh = [], h_pn = 0, h_n = 0\<rparr>)"

definition lower :: "bytes \<Rightarrow> bytes \<Rightarrow> sealed_message \<times> bytes \<times> bytes \<Rightarrow> msg" where
  "lower cid had = (\<lambda>(m, pt, ad). (hdr_of m, sl_ciphertext m, pt, put_vec had @ put_vec cid @ ad))"

text \<open>A replay key of the session names a header that is spent and no longer in transit.\<close>

definition key_settled :: "crypto \<Rightarrow> world \<Rightarrow> bool \<Rightarrow> (sealed_message \<times> bytes \<times> bytes) list \<Rightarrow> replay_key \<Rightarrow> bool" where
  "key_settled C w q xs k \<longleftrightarrow> (\<exists>h. take 40 (drop 18 (message_id k)) = header_encode h \<and> header_wf h \<and>
     spent C w q (h_dh h) (h_n h) \<and> (\<forall>x \<in> set xs. (h_dh (hdr_of (fst x)), h_n (hdr_of (fst x))) \<noteq> (h_dh h, h_n h)))"

definition linked :: "crypto \<Rightarrow> (bool \<Rightarrow> bytes) \<Rightarrow> bytes \<Rightarrow> bytes \<Rightarrow> talk \<Rightarrow> world \<Rightarrow> bool" where
  "linked C sid cid had W w \<longleftrightarrow> dr_reach C w \<and> used w \<subseteq> tk_used W \<and>
     (\<forall>p. engine_ok C (tk_eng W p) \<and> persisted (tk_eng W p) \<and> length (sid p) = 16 \<and>
        session_core (tk_eng W p) (sid p) = Some (LClassical (st w p), cid, had) \<and>
        wire w p = map (lower cid had) (tk_wire W p) \<and>
        (\<forall>x \<in> set (tk_wire W p). header_decode (sl_header (fst x)) = Inr (hdr_of (fst x))) \<and>
        (\<forall>k \<in> sid_keys (tk_eng W p) (sid p). key_settled C w (\<not> p) (tk_wire W (\<not> p)) k))"

lemma lower_id: "msg_id (lower cid had x) = (h_dh (hdr_of (fst x)), h_n (hdr_of (fst x)))"
  by (simp add: lower_def msg_id_def split: prod.split)

lemma map_remove1_distinct:
  assumes "distinct (map f xs)" "x \<in> set xs"
  shows "map f (remove1 x xs) = remove1 (f x) (map f xs)"
  using assms by (induction xs) (auto simp: image_iff)

lemma linked_at:
  assumes "linked C sid cid had W w"
  shows "dr_reach C w" "used w \<subseteq> tk_used W" "engine_ok C (tk_eng W p)" "persisted (tk_eng W p)" "length (sid p) = 16"
    "session_core (tk_eng W p) (sid p) = Some (LClassical (st w p), cid, had)" "wire w p = map (lower cid had) (tk_wire W p)"
    "(m, pt, ad) \<in> set (tk_wire W p) \<Longrightarrow> header_decode (sl_header m) = Inr (hdr_of m)"
    "k \<in> sid_keys (tk_eng W p) (sid p) \<Longrightarrow> key_settled C w (\<not> p) (tk_wire W (\<not> p)) k"
  using assms by (force simp: linked_def)+

text \<open>The session behind the core, and its associated data.\<close>

lemma linked_session:
  assumes "crypto_laws C" "linked C sid cid had W w" "hm_get (eg_sessions (tk_eng W p)) (sid p) = Some sess"
  shows "live_clone C (ls_ratchet sess) = LClassical (st w p)" "bound_ad sess ad = put_vec had @ put_vec cid @ ad"
    "ls_conversation sess = cid" "ls_ad sess = had"
  using linked_at(6) [OF assms(2), of p] assms(3) reach_wf(2) [OF assms(1) linked_at(1) [OF assms(2)]]
  by (auto simp: session_core_def bound_ad_def)

lemma key_header:
  "length s = 16 \<Longrightarrow> header_decode (sl_header m) = Inr h \<Longrightarrow> take 40 (drop 18 (message_id (replay_key_of s m c d))) = header_encode h"
  using header_decode_sound [of "sl_header m" h] length_header_encode [of h] by (auto simp: replay_key_of_def)

text \<open>A message in transit is not in the replay cache.\<close>

lemma in_transit_not_replayed:
  assumes "linked C sid cid had W w" "(m, pt, ad) \<in> set (tk_wire W (\<not> p))"
  shows "\<not> replay_contains (eg_replay (tk_eng W p)) (replay_key_of (sid p) m conv dev)"
proof
  assume r: "replay_contains (eg_replay (tk_eng W p)) (replay_key_of (sid p) m conv dev)"
  let ?k = "replay_key_of (sid p) m conv dev"
  have l: "engine_ok C (tk_eng W p)" "length (sid p) = 16"
    "header_decode (sl_header m) = Inr (hdr_of m)" using linked_at [OF assms(1)] assms(2) by auto
  have rc: "rc_ok (eg_replay (tk_eng W p))" using l(1) by (simp add: engine_ok_def)
  have "?k \<in> sid_keys (tk_eng W p) (sid p)"
    using r l(2) by (simp add: sid_keys_def replay_contains_iff [OF rc]) (simp add: replay_key_of_def)
  from linked_at(9) [OF assms(1) this] obtain h where h: "take 40 (drop 18 (message_id ?k)) = header_encode h" "header_wf h"
    "\<forall>x \<in> set (tk_wire W (\<not> p)). (h_dh (hdr_of (fst x)), h_n (hdr_of (fst x))) \<noteq> (h_dh h, h_n h)"
    unfolding key_settled_def by blast
  have "header_wf (hdr_of m)" "header_encode (hdr_of m) = header_encode h"
    using header_decode_sound [OF l(3)] h(1) key_header [OF l(2,3)] by simp_all
  then have "hdr_of m = h" using header_decode_encode h(2) by (metis sum.inject(2))
  then show False using h(3) assms(2) by force
qed

lemma settled_mono:
  assumes "key_settled C w q xs k" "set ys \<subseteq> set xs" "\<And>d n. spent C w q d n \<Longrightarrow> spent C w' q d n"
  shows "key_settled C w' q ys k"
  using assms unfolding key_settled_def by blast

lemma linked_send:
  assumes laws: "crypto_laws C" and l: "linked C sid cid had W w"
    and e: "engine_encrypt C r (tk_eng W p) (sid p) pt ad = Some (Inr m, g')"
  obtains w' where "linked C sid cid had (W\<lparr>tk_eng := (tk_eng W)(p := g'), tk_wire := (tk_wire W)(p := tk_wire W p @ [(m, pt, ad)])\<rparr>) w'"
proof (rule engine_encrypt_cases [OF linked_at(3) [OF l] e])
  fix sess live h ct sto
  assume m: "Inr m = Inr \<lparr>sl_header = h, sl_ciphertext = ct, sl_hint = sid p\<rparr>" "hm_get (eg_sessions (tk_eng W p)) (sid p) = Some sess"
    and le: "live_encrypt C r (live_clone C (ls_ratchet sess)) pt (bound_ad sess ad) = Some (Inr (h, ct), live)"
    and g': "g' = (set_ratchet (tk_eng W p) (sid p) sess live)\<lparr>eg_storage := sto\<rparr>" "engine_ok C g'"
      "\<forall>K. persisted_but K (tk_eng W p) \<longrightarrow> K \<subseteq> {sid p, KEY_REPLAY, KEY_TRUST} \<longrightarrow> persisted g'"
  note ls = linked_session [OF laws l m(2)]
  let ?ad = "put_vec had @ put_vec cid @ ad"
  obtain hd s' where d: "dr_encrypt C (st w p) pt ?ad = (Inr (hd, ct), s')" "h = header_encode hd" "live = LClassical s'"
    using le by (auto simp: ls rd_simps split: prod.splits)
  let ?w = "w\<lparr>st := (st w)(p := s'), wire := (wire w)(p := wire w p @ [(hd, ct, pt, ?ad)])\<rparr>"
  have step: "dr_step C w ?w" by (rule dr_step.send [OF d(1)])
  have reach: "dr_reach C ?w" by (rule dr_reach.step [OF linked_at(1) [OF l] step])
  have "(hd, ct, pt, ?ad) \<in> set (wire ?w p)" by simp
  from wire_spent(2) [OF laws reach this] have hm: "header_decode (sl_header m) = Inr hd" "hdr_of m = hd"
    using m(1) d(2) by (simp_all add: hdr_of_def header_decode_encode)
  have sp: "spent C ?w q d n" if "spent C w q d n" for q d n using spent_step [OF laws linked_at(1) [OF l] step that] .
  have new: "key_settled C ?w p (tk_wire W p @ [(m, pt, ad)]) k" if "k \<in> sid_keys (tk_eng W (\<not> p)) (sid (\<not> p))" for k
    using linked_at(9) [OF l that] sent_not_spent [OF d(1)] sp hm(2) by (fastforce simp: key_settled_def)
  have old: "key_settled C ?w (\<not> p) (tk_wire W (\<not> p)) k" if "k \<in> sid_keys g' (sid p)" for k
    using settled_mono [OF linked_at(9) [OF l] order_refl sp] that g'(1) by (simp add: session_frame)
  have low: "lower cid had (m, pt, ad) = (hd, ct, pt, ?ad)" using m(1) hm(2) by (simp add: lower_def)
  have "persisted g'" using g'(3) linked_at(4) [OF l] by (auto simp: persisted_def)
  then have "linked C sid cid had (W\<lparr>tk_eng := (tk_eng W)(p := g'), tk_wire := (tk_wire W)(p := tk_wire W p @ [(m, pt, ad)])\<rparr>) ?w"
    using reach linked_at [OF l] g'(1,2) new old low hm d(3) ls(3,4)
    by (auto simp: linked_def all_other [of _ p] session_frame)
  then show thesis by (rule that)
qed simp

text \<open>Messages in transit differ in their headers, so delivering one leaves no other with its header.\<close>

lemma transit_removed:
  assumes laws: "crypto_laws C" and l: "linked C sid cid had W w" and x: "z \<in> set (tk_wire W q)"
  shows "map (lower cid had) (remove1 z (tk_wire W q)) = remove1 (lower cid had z) (wire w q)"
    "\<forall>y \<in> set (remove1 z (tk_wire W q)). (h_dh (hdr_of (fst y)), h_n (hdr_of (fst y))) \<noteq> (h_dh (hdr_of (fst z)), h_n (hdr_of (fst z)))"
proof -
  let ?xs = "tk_wire W q" and ?id = "\<lambda>x. (h_dh (hdr_of (fst x)), h_n (hdr_of (fst x)))"
  obtain ch E i where "\<forall>p. mail_ok C ch E (i p) (st w p) (wire w (\<not> p))" by (rule reach_synced [OF laws linked_at(1) [OF l]])
  then have "\<forall>p. distinct (map msg_id (wire w (\<not> p)))" unfolding mail_ok_def by blast
  from this [THEN spec, of "\<not> q"] have dist: "distinct (map ?id ?xs)" "distinct (map (lower cid had) ?xs)"
    using linked_at(7) [OF l, of q] distinct_map [of msg_id "map (lower cid had) ?xs"] by (simp_all add: comp_def lower_id)
  show "map (lower cid had) (remove1 z ?xs) = remove1 (lower cid had z) (wire w q)"
    using map_remove1_distinct [OF dist(2) x] linked_at(7) [OF l] by simp
  have "map ?id (remove1 z ?xs) = remove1 (?id z) (map ?id ?xs)" by (rule map_remove1_distinct [OF dist(1) x])
  then have "set (map ?id (remove1 z ?xs)) = set (map ?id ?xs) - {?id z}" using dist(1) by (simp only: set_remove1_eq)
  then show "\<forall>y \<in> set (remove1 z ?xs). ?id y \<noteq> ?id z" by auto
qed

lemma linked_deliver:
  assumes laws: "crypto_laws C" and l: "linked C sid cid had W w" and x: "(m, pt, ad) \<in> set (tk_wire W (\<not> p))"
    and e: "engine_decrypt C r (tk_eng W p) (sid p) m ad = Some (Inr pt', g')"
    and y: "y = public_key C (fst (secret_generate C r))" "peer_key g' (sid p) \<noteq> peer_key (tk_eng W p) (sid p) \<Longrightarrow> y \<notin> tk_used W"
  obtains w' where "linked C sid cid had (W\<lparr>tk_eng := (tk_eng W)(p := g'),
      tk_wire := (tk_wire W)(\<not> p := remove1 (m, pt, ad) (tk_wire W (\<not> p))),
      tk_used := (if peer_key g' (sid p) \<noteq> peer_key (tk_eng W p) (sid p) then insert y (tk_used W) else tk_used W)\<rparr>) w'"
proof (rule engine_decrypt_cases [OF linked_at(3) [OF l] e])
  fix sess live pt2 sto
  assume s: "Inr pt' = Inr pt2" "hm_get (eg_sessions (tk_eng W p)) (sid p) = Some sess"
    and ld: "live_decrypt C r (live_clone C (ls_ratchet sess)) (sl_header m) (sl_ciphertext m) (bound_ad sess ad) = Some (Inr pt2, live)"
    and g': "g' = (after_delivery (tk_eng W p) (sid p) sess live m)\<lparr>eg_storage := sto\<rparr>" "engine_ok C g'" "persisted (tk_eng W p) \<Longrightarrow> persisted g'"
  note ls = linked_session [OF laws l s(2)] and r = linked_at(1) [OF l]
  let ?ad = "put_vec had @ put_vec cid @ ad" and ?h = "hdr_of m" and ?xs = "tk_wire W (\<not> p)"
  let ?low = "lower cid had" and ?g = "tk_eng W p"
  have h: "header_decode (sl_header m) = Inr ?h" using linked_at(8) [OF l x] .
  obtain s' where d: "dr_decrypt C r (st w p) ?h (sl_ciphertext m) ?ad = (Inr pt', s')" "live = LClassical s'"
    using ld s(1) h by (auto simp: ls rd_simps split: prod.splits)
  have low: "?low (m, pt, ad) = (?h, sl_ciphertext m, pt, ?ad)" by (simp add: lower_def)
  have wx: "(?h, sl_ciphertext m, pt, ?ad) \<in> set (wire w (\<not> p))" using x low linked_at(7) [OF l] by (metis image_eqI list.set_map)
  have pk: "peer_key g' (sid p) = dhr s'" "peer_key ?g (sid p) = dhr (st w p)"
    using linked_at(6) [OF l] d(2) g'(1) by (simp_all add: peer_key_def session_frame)
  let ?w = "w\<lparr>st := (st w)(p := s'), wire := (wire w)(\<not> p := remove1 (?h, sl_ciphertext m, pt, ?ad) (wire w (\<not> p))),
      used := (if dhr s' \<noteq> dhr (st w p) then insert y (used w) else used w)\<rparr>"
  have "y \<notin> used w" if "dhr s' \<noteq> dhr (st w p)" using that y(2) pk linked_at(2) [OF l] by auto
  then have step: "dr_step C w ?w" by (rule dr_step.deliver [OF wx d(1) y(1)])
  have reach: "dr_reach C ?w" by (rule dr_reach.step [OF r step])
  have sp: "spent C ?w q dd n" if "spent C w q dd n" for q dd n using spent_step [OF laws r step that] .
  note rem = transit_removed(1) [OF laws l x, unfolded low] and rest = transit_removed(2) [OF laws l x, simplified]
  have settled: "key_settled C ?w (\<not> p) (remove1 (m, pt, ad) ?xs) k" if "k \<in> sid_keys g' (sid p)" for k
  proof (cases "k \<in> sid_keys ?g (sid p)")
    case True
    show ?thesis by (rule settled_mono [OF linked_at(9) [OF l True] set_remove1_subset sp])
  next
    case False
    then have k: "k = replay_key_of (sid p) m (ls_conversation sess) (eg_device ?g)"
      using that new_replay_key [OF linked_at(3) [OF l, of p] linked_at(5) [OF l, of p], of sess live m "sid p"] g'(1) by (auto simp: session_frame)
    have "take 40 (drop 18 (message_id k)) = header_encode ?h" "header_wf ?h"
      using header_decode_sound [OF h] key_header [OF linked_at(5) [OF l] h] by (simp_all add: k)
    then show ?thesis using sp [OF wire_spent(1) [OF laws r wx]] rest unfolding key_settled_def by blast
  qed
  have dec: "\<forall>x \<in> set (remove1 (m, pt, ad) ?xs). header_decode (sl_header (fst x)) = Inr (hdr_of (fst x))"
    using linked_at(8) [OF l] set_remove1_subset by fastforce
  have "linked C sid cid had (W\<lparr>tk_eng := (tk_eng W)(p := g'), tk_wire := (tk_wire W)(\<not> p := remove1 (m, pt, ad) ?xs),
      tk_used := (if peer_key g' (sid p) \<noteq> peer_key ?g (sid p) then insert y (tk_used W) else tk_used W)\<rparr>) ?w"
    using reach linked_at [OF l] g' settled rem dec d(2) ls(3,4) pk settled_mono [OF linked_at(9) [OF l, of _ "\<not> p"] order_refl sp]
    by (auto simp: linked_def all_other [of _ p] session_frame)
  then show thesis by (rule that)
qed simp

lemma linked_aside:
  assumes "prekey_laws C" "linked C sid cid had W w" "aside F C (sid p) (tk_eng W p) g'"
  shows "linked C sid cid had (W\<lparr>tk_eng := (tk_eng W)(p := g')\<rparr>) w"
proof -
  note a = aside_keeps [OF assms(1) linked_at(3,4) [OF assms(2)] assms(3)]
  have g': "engine_ok C g'" "persisted g'" using a(1) linked_at(4) [OF assms(2)] by (simp_all add: kept_def)
  have "key_settled C w (\<not> p) (tk_wire W (\<not> p)) k" if "k \<in> sid_keys g' (sid p)" for k
    using linked_at(9) [OF assms(2)] a(3) that by blast
  then show ?thesis
    using linked_at [OF assms(2)] linked_at(9) [OF assms(2), of _ "\<not> p"] g' a(2) by (auto simp: linked_def all_other [of _ p])
qed

lemma linked_step:
  assumes "crypto_laws C" "prekey_laws C" "linked C sid cid had W w" "talk_step F C sid W W'"
  shows "\<exists>w'. linked C sid cid had W' w'"
  using assms(4)
proof cases
  case (talk_send r p pt ad m g')
  show ?thesis using linked_send [OF assms(1,3) talk_send(2)] talk_send(1) by blast
next
  case (talk_refuse r p pt ad e g')
  have "g' = tk_eng W p" by (rule engine_encrypt_cases [OF linked_at(3) [OF assms(3)] talk_refuse(2)]) simp_all
  then show ?thesis using assms(3) talk_refuse(1) by auto
next
  case (talk_deliver m pt ad p r pt' g' y)
  show ?thesis using linked_deliver [OF assms(1,3) talk_deliver(2-5)] unfolding talk_deliver(1) by metis
next
  case (talk_reject r p m ad e g')
  have "g' = tk_eng W p" by (rule engine_decrypt_cases [OF linked_at(3) [OF assms(3)] talk_reject(2)]) simp_all
  then show ?thesis using assms(3) talk_reject(1) by auto
next
  case (talk_aside p g')
  then show ?thesis using linked_aside [OF assms(2,3)] by blast
qed

text \<open>What a delivery to a linked engine does.\<close>

lemma linked_delivers:
  assumes laws: "crypto_laws C" and l: "linked C sid cid had W w" and x: "(m, pt, ad) \<in> set (tk_wire W (\<not> p))"
  shows "(\<exists>g'. engine_decrypt C r (tk_eng W p) (sid p) m ad = Some (Inr pt, g')) \<or>
    engine_decrypt C r (tk_eng W p) (sid p) m ad = Some (Inl CeLimitExceeded, tk_eng W p) \<and> \<not> has_room (st w p) (hdr_of m)"
proof -
  let ?ad = "put_vec had @ put_vec cid @ ad" and ?h = "hdr_of m" and ?g = "tk_eng W p"
  obtain sess where s: "hm_get (eg_sessions ?g) (sid p) = Some sess" using linked_at(6) [OF l, of p] by (auto simp: session_core_def)
  note ls = linked_session [OF laws l s] and ok = linked_at(3) [OF l, of p]
  have h: "header_decode (sl_header m) = Inr ?h" using linked_at(8) [OF l x] .
  note ap = apply_decrypt_eq [OF ok s in_transit_not_replayed [OF l x], of r ad, unfolded ls(1,2)]
  have "(?h, sl_ciphertext m, pt, ?ad) \<in> set (wire w (\<not> p))"
    using x linked_at(7) [OF l, of "\<not> p"] by (force simp: lower_def)
  moreover obtain ch E i where "chains_ok C ch E" "\<forall>p. party_at C ch (i p) (st w p)" "\<forall>p. i p \<le> E \<and> E \<le> Suc (i p)"
    "\<forall>p. mail_ok C ch E (i p) (st w p) (wire w (\<not> p))" by (rule reach_synced [OF laws linked_at(1) [OF l]])
  ultimately consider s' where "dr_decrypt C r (st w p) ?h (sl_ciphertext m) ?ad = (Inr pt, s')"
    | "dr_decrypt C r (st w p) ?h (sl_ciphertext m) ?ad = (Inl LimitExceeded, st w p)" "\<not> has_room (st w p) ?h"
    using deliver_result [OF laws, of ch E "i p" "st w p" "wire w (\<not> p)" ?h "sl_ciphertext m" pt ?ad r] by blast
  then show ?thesis
  proof cases
    case 1
    let ?g1 = "after_delivery ?g (sid p) sess (LClassical s') m"
    have "apply_decrypt C r ?g (sid p) m ad = Some (Inr pt, ?g1)" using ap h 1 by simp
    moreover have "engine_ok C ?g1" "hm_get (eg_sessions ?g1) (sid p) = Some (sess\<lparr>ls_ratchet := LClassical s'\<rparr>)"
      using after_delivery_ok [OF ok s] by simp_all
    from persist_aux_result [OF this] obtain g' where "persist_session_aux ?g1 (sid p) = (Inr (), g')" by metis
    ultimately show ?thesis by (simp add: engine_decrypt_def)
  next
    case 2
    then show ?thesis using ap h by (simp add: engine_decrypt_def)
  qed
qed

subsection \<open>From first contact on\<close>

text \<open>What the initiator's engine holds after opening the session.\<close>

lemma initiator_side:
  assumes "engine_ok C g" "persisted g" "eg_profile g = ClassicalV1" "sid_fresh g s"
    and "establish_outbound_session C rs g b cid pt ad = Some (Inr (s, p), g')"
  obtains ai :: alice_initiation and r' a hd s' where "alice_initiate C (eg_identity g) b (rs 0) = (Inr ai, r')" "bundle_validate C b = Inr ()"
    "fst (init_alice C (rs 1) (px_sk (ai_shared ai)) (pb_signed b) DEFAULT_MAX_SKIP) = Inr a"
    "dr_encrypt C (clone_for_trial C a) pt (put_vec (px_ad (ai_shared ai)) @ put_vec cid @ ad) =
       (Inr (hd, sl_ciphertext (ip_first p)), s')" "sl_header (ip_first p) = header_encode hd"
    "engine_ok C g'" "persisted g'" "session_core g' s = Some (LClassical s', cid, px_ad (ai_shared ai))" "sid_keys g' s = {}"
    "length s = 16" "ip_identity p = identity_public C (eg_identity g)" "ip_ephemeral p = ai_ephemeral ai" "ip_kem p = ai_kem_ct ai"
    "ip_spk p = pb_signed_id b" "ip_opk p = ai_opk_id ai" "ip_pq p = ai_pq_id ai"
proof (rule outbound_cases [OF assms(5)])
  fix ai :: alice_initiation and l m
  let ?ad = "px_ad (ai_shared ai)"
  let ?o = "opened g s (pb_identity b) l cid ?ad"
  assume i: "bundle_validate C b = Inr ()" "fst (alice_initiate C (eg_identity g) b (rs 0)) = Inr ai"
    and l: "init_alice_ratchet C (rs 1) (eg_profile g) (px_sk (ai_shared ai)) (pb_signed b) = Some (Inr l)"
    and s: "s = next_session_id (rs 2)" and e: "engine_encrypt C (rs 3) ?o s pt ad = Some (Inr m, g')"
    and p: "p = \<lparr>ip_identity = identity_public C (eg_identity g'), ip_ephemeral = ai_ephemeral ai, ip_kem = ai_kem_ct ai,
      ip_spk = pb_signed_id b, ip_opk = ai_opk_id ai, ip_pq = ai_pq_id ai, ip_first = m\<rparr>"
  obtain a where a: "fst (init_alice C (rs 1) (px_sk (ai_shared ai)) (pb_signed b) DEFAULT_MAX_SKIP) = Inr a" "l = LClassical a"
    using l assms(3) by (auto simp: rd_simps)
  have ok: "engine_ok C ?o" "length s = 16" using assms(1) s by (simp_all add: opened_ok)
  show thesis
  proof (rule engine_encrypt_cases [OF ok(1) e])
    fix sess live h ct sto
    assume m: "Inr m = Inr \<lparr>sl_header = h, sl_ciphertext = ct, sl_hint = s\<rparr>" "hm_get (eg_sessions ?o) s = Some sess"
      and le: "live_encrypt C (rs 3) (live_clone C (ls_ratchet sess)) pt (bound_ad sess ad) = Some (Inr (h, ct), live)"
      and g': "g' = (set_ratchet ?o s sess live)\<lparr>eg_storage := sto\<rparr>" "engine_ok C g'"
        "\<forall>K. persisted_but K ?o \<longrightarrow> K \<subseteq> {s, KEY_REPLAY, KEY_TRUST} \<longrightarrow> persisted g'"
    have sess: "ls_ratchet sess = l" "ls_conversation sess = cid" "ls_ad sess = ?ad" using m(2) by auto
    obtain hd s' where d: "dr_encrypt C (clone_for_trial C a) pt (put_vec ?ad @ put_vec cid @ ad) = (Inr (hd, ct), s')"
      "h = header_encode hd" "live = LClassical s'"
      using le by (auto simp: sess a(2) bound_ad_def rd_simps split: prod.splits)
    have ai: "alice_initiate C (eg_identity g) b (rs 0) = (Inr ai, snd (alice_initiate C (eg_identity g) b (rs 0)))"
      using i(2) by (metis prod.collapse)
    have pg: "persisted g'" using g'(3) [rule_format, OF opened_but [OF assms(2)]] by simp
    have k: "sid_keys g' s = {}" using assms(4) g'(1) by (auto simp: session_frame sid_keys_def sid_fresh_def)
    show thesis
      by (rule that [OF ai i(1) a(1) _ _ g'(2) pg _ k ok(2)]) (use d m(1) p g'(1) sess in \<open>simp_all add: session_frame\<close>)
  qed simp
qed

text \<open>What the publisher's engine holds after accepting the packet.\<close>

lemma publisher_side:
  assumes "engine_ok C g" "persisted g" "eg_profile g = ClassicalV1" "sid_fresh g s"
    and "process_inbound_session C rs g p cid ad = Some (Inr (s, pt), g')"
    and "inbound_shared C g p (ip_identity p) (ip_ephemeral p) = Inr sh" "header_decode (sl_header (ip_first p)) = Inr h"
  obtains s' where "engine_ok C g'" "persisted g'" "length s = 16"
    "dr_decrypt C (rs 1) (clone_for_trial C (init_bob (px_sk sh) (secret_from_bytes C (sp_secret (ps_signed (eg_prekeys g)))) DEFAULT_MAX_SKIP))
       h (sl_ciphertext (ip_first p)) (put_vec (px_ad sh) @ put_vec cid @ ad) = (Inr pt, s')"
    "session_core g' s = Some (LClassical s', cid, px_ad sh)"
    "sid_keys g' s \<subseteq> {replay_key_of s (ip_first p) cid (eg_device g)}"
proof (rule inbound_cases [OF assms(1,5)])
  fix sh' l0 l ps sto
  assume a: "accepted C rs g p cid ad s sh' l0 l pt" and g': "g' = (joined g p cid s sh' l0 l ps)\<lparr>eg_storage := sto\<rparr>" "kept C g g'"
  have sh: "sh' = sh" "s = next_session_id (rs 0)" using a assms(6) by (simp_all add: accepted_def)
  let ?o = "opened g s (ip_identity p) l0 cid (px_ad sh)" and ?n = "new_session g (ip_identity p) l0 cid (px_ad sh)"
  let ?b = "init_bob (px_sk sh) (secret_from_bytes C (sp_secret (ps_signed (eg_prekeys g)))) DEFAULT_MAX_SKIP"
  have l0: "l0 = LClassical ?b" using a assms(3) sh by (simp add: accepted_def)
  obtain s' where d: "dr_decrypt C (rs 1) (clone_for_trial C ?b) h (sl_ciphertext (ip_first p)) (put_vec (px_ad sh) @ put_vec cid @ ad) =
      (Inr pt, s')" "l = LClassical s'"
    using a assms(7) sh(1) by (auto simp: accepted_def l0 rd_simps split: prod.splits)
  have "engine_ok C ?o" "length s = 16" using assms(1) sh(2) by (simp_all add: opened_ok)
  from new_replay_key [OF this, of ?n l "ip_first p" s]
  have k: "sid_keys g' s \<subseteq> {replay_key_of s (ip_first p) cid (eg_device g)}"
    using g'(1) sh(1) assms(4) by (auto simp: joined_def sid_keys_def sid_fresh_def new_session_def)
  have "engine_ok C g'" "persisted g'" using g'(2) assms(2) by (simp_all add: kept_def)
  moreover have "session_core g' s = Some (LClassical s', cid, px_ad sh)"
    using g'(1) sh(1) d(2) by (simp add: joined_def session_core_def new_session_def)
  ultimately show thesis using that d(1) k \<open>length s = 16\<close> by blast
qed

text \<open>The conversations that start with first contact: one engine publishes a bundle, the other opens a session from it
  with a first message, the publisher accepts. The keys drawn on the way differ from each other, and the
  session identifiers are not ones the replay caches know.\<close>

inductive talk_reach :: "features \<Rightarrow> crypto \<Rightarrow> (bool \<Rightarrow> bytes) \<Rightarrow> talk \<Rightarrow> bool" for F C sid where
  reach_contact: "engine_ok C gA \<Longrightarrow> persisted gA \<Longrightarrow> engine_ok C gB \<Longrightarrow> persisted gB \<Longrightarrow>
    eg_profile gA = ClassicalV1 \<Longrightarrow> eg_profile gB = ClassicalV1 \<Longrightarrow>
    generate_public_prekey_bundle C r gB n = (Inr b, gB1) \<Longrightarrow>
    establish_outbound_session C rsA gA b cid pt ad = Some (Inr (sid True, p), gA') \<Longrightarrow>
    process_inbound_session C rsB gB1 p cid ad = Some (Inr (sid False, pt'), gB') \<Longrightarrow>
    sid_fresh gA (sid True) \<Longrightarrow> sid_fresh gB (sid False) \<Longrightarrow>
    x = public_key C (fst (secret_generate C (rsA 1))) \<Longrightarrow> y = public_key C (fst (secret_generate C (rsB 1))) \<Longrightarrow>
    x \<noteq> pb_signed b \<Longrightarrow> y \<noteq> pb_signed b \<Longrightarrow> y \<noteq> x \<Longrightarrow>
    talk_reach F C sid \<lparr>tk_eng = (\<lambda>q. if q then gA' else gB'), tk_wire = (\<lambda>_. []), tk_used = {pb_signed b, x, y}\<rparr>"
| reach_talk: "talk_reach F C sid W \<Longrightarrow> talk_step F C sid W W' \<Longrightarrow> talk_reach F C sid W'"

text \<open>The first message in the two-party system.\<close>

lemma first_message:
  assumes laws: "crypto_laws C" and k: "length sk = 32" "length z = 32" "static_secret C z = z"
    and a: "fst (init_alice C r sk (public_key C z) ms) = Inr a" "dr_encrypt C (clone_for_trial C a) pt ad = (Inr (h, ct), sA)"
    and x: "x = public_key C (fst (secret_generate C r))" "x \<noteq> public_key C z"
  shows "header_wf h"
    and "dr_decrypt C r' (clone_for_trial C (init_bob sk z ms)) h ct ad = (Inr pt', sB) \<Longrightarrow>
      y = public_key C (fst (secret_generate C r')) \<Longrightarrow> y \<notin> {public_key C z, x} \<Longrightarrow>
      \<exists>w. dr_reach C w \<and> st w = (\<lambda>q. if q then sA else sB) \<and> wire w = (\<lambda>_. []) \<and> used w \<subseteq> {public_key C z, x, y} \<and>
        spent C w True (h_dh h) (h_n h)"
proof -
  let ?w0 = "\<lparr>st = (\<lambda>p. if p then a else init_bob sk z ms), wire = (\<lambda>_. []), used = {public_key C z, x}\<rparr>"
  have "dr_start C r sk z ms ?w0" using k a(1) x by (simp add: dr_start_def)
  then have r0: "dr_reach C ?w0" by (rule dr_reach.start)
  let ?w1 = "?w0\<lparr>st := (st ?w0)(True := sA), wire := (wire ?w0)(True := wire ?w0 True @ [(h, ct, pt, ad)])\<rparr>"
  have "dr_encrypt C (st ?w0 True) pt ad = (Inr (h, ct), sA)" using a(2) reach_wf(2) [OF laws r0, of True] by simp
  then have r1: "dr_reach C ?w1" by (rule dr_reach.step [OF r0 dr_step.send])
  have m: "(h, ct, pt, ad) \<in> set (wire ?w1 True)" by simp
  note hh = wire_spent [OF laws r1 m]
  show "header_wf h" by (rule hh(2))
  assume d: "dr_decrypt C r' (clone_for_trial C (init_bob sk z ms)) h ct ad = (Inr pt', sB)"
    and y: "y = public_key C (fst (secret_generate C r'))" "y \<notin> {public_key C z, x}"
  have d': "dr_decrypt C r' (st ?w1 False) h ct ad = (Inr pt', sB)" using d reach_wf(2) [OF laws r1, of False] by simp
  let ?w2 = "?w1\<lparr>st := (st ?w1)(False := sB), wire := (wire ?w1)(\<not> False := remove1 (h, ct, pt, ad) (wire ?w1 (\<not> False))),
      used := (if dhr sB \<noteq> dhr (st ?w1 False) then insert y (used ?w1) else used ?w1)\<rparr>"
  have step: "dr_step C ?w1 ?w2" by (rule dr_step.deliver [OF _ d' y(1)]) (use m y(2) in simp_all)
  have "st ?w2 = (\<lambda>q. if q then sA else sB)" "wire ?w2 = (\<lambda>_. [])" by (auto simp: fun_eq_iff)
  moreover have "used ?w2 \<subseteq> {public_key C z, x, y}" by simp
  ultimately show "\<exists>w. dr_reach C w \<and> st w = (\<lambda>q. if q then sA else sB) \<and> wire w = (\<lambda>_. []) \<and>
      used w \<subseteq> {public_key C z, x, y} \<and> spent C w True (h_dh h) (h_n h)"
    using dr_reach.step [OF r1 step] spent_step [OF laws r1 step hh(1)] by blast
qed

lemma contact_linked:
  assumes laws: "crypto_laws C" "prekey_laws C" and ok: "engine_ok C gA" "persisted gA" "engine_ok C gB" "persisted gB"
    and prof: "eg_profile gA = ClassicalV1" "eg_profile gB = ClassicalV1"
    and b: "store_public_bundle C (eg_identity gB) (eg_prekeys gB) = Inr b"
    and p: "establish_outbound_session C rsA gA b cid pt ad = Some (Inr (sid True, p), gA')"
    and q: "process_inbound_session C rsB gB p cid ad = Some (Inr (sid False, pt'), gB')"
    and fresh: "sid_fresh gA (sid True)" "sid_fresh gB (sid False)"
    and xy: "x = public_key C (fst (secret_generate C (rsA 1)))" "y = public_key C (fst (secret_generate C (rsB 1)))"
      "x \<noteq> pb_signed b" "y \<noteq> pb_signed b" "y \<noteq> x"
  shows "\<exists>had w. linked C sid cid had \<lparr>tk_eng = (\<lambda>q. if q then gA' else gB'), tk_wire = (\<lambda>_. []), tk_used = {pb_signed b, x, y}\<rparr> w"
proof -
  let ?z = "sp_secret (ps_signed (eg_prekeys gB))"
  have l: "lens_ok C" "dh_commutes C" using laws(1) by (simp_all add: crypto_laws_def)
  have st: "store_ok C (eg_identity gB) (eg_prekeys gB)" using ok(3) by (simp add: engine_ok_def)
  have z: "length ?z = 32" "static_secret C ?z = ?z" using st by (simp_all add: store_ok_def signed_ok_def)
  have zb: "pb_signed b = public_key C ?z" using store_bundle [OF laws(2) st] b by (metis sum.inject(2))
  obtain ai r' a hd sA where A: "alice_initiate C (eg_identity gA) b (rsA 0) = (Inr ai, r')" "bundle_validate C b = Inr ()"
    "fst (init_alice C (rsA 1) (px_sk (ai_shared ai)) (pb_signed b) DEFAULT_MAX_SKIP) = Inr a"
    "dr_encrypt C (clone_for_trial C a) pt (put_vec (px_ad (ai_shared ai)) @ put_vec cid @ ad) = (Inr (hd, sl_ciphertext (ip_first p)), sA)"
    "sl_header (ip_first p) = header_encode hd" "engine_ok C gA'" "persisted gA'"
    "session_core gA' (sid True) = Some (LClassical sA, cid, px_ad (ai_shared ai))" "sid_keys gA' (sid True) = {}" "length (sid True) = 16"
    and f: "ip_identity p = identity_public C (eg_identity gA)" "ip_ephemeral p = ai_ephemeral ai" "ip_kem p = ai_kem_ct ai"
    "ip_spk p = pb_signed_id b" "ip_opk p = ai_opk_id ai" "ip_pq p = ai_pq_id ai"
    by (rule initiator_side [OF ok(1,2) prof(1) fresh(1) p])
  have sh: "inbound_shared C gB p (ip_identity p) (ip_ephemeral p) = Inr (ai_shared ai)"
    unfolding f(1,2) by (rule inbound_shared_agrees [OF laws(2) l(2) st b A(1) f(4-6,3)])
  let ?sk = "px_sk (ai_shared ai)" and ?ad = "put_vec (px_ad (ai_shared ai)) @ put_vec cid @ ad" and ?ct = "sl_ciphertext (ip_first p)"
  have sk: "length ?sk = 32" using alice_initiate_total [OF l(1) A(2), of "eg_identity gA" "rsA 0"] A(1) by fastforce
  note first = first_message [OF laws(1) sk z A(3) [unfolded zb] A(4) xy(1) xy(3) [unfolded zb]]
  have dec: "header_decode (sl_header (ip_first p)) = Inr hd" using first(1) A(5) by (simp add: header_decode_encode)
  obtain sB where B: "engine_ok C gB'" "persisted gB'" "length (sid False) = 16"
    "dr_decrypt C (rsB 1) (clone_for_trial C (init_bob ?sk (secret_from_bytes C ?z) DEFAULT_MAX_SKIP)) hd ?ct ?ad = (Inr pt', sB)"
    "session_core gB' (sid False) = Some (LClassical sB, cid, px_ad (ai_shared ai))"
    and k: "sid_keys gB' (sid False) \<subseteq> {replay_key_of (sid False) (ip_first p) cid (eg_device gB)}"
    by (rule publisher_side [OF ok(3,4) prof(2) fresh(2) q sh dec])
  have "secret_from_bytes C ?z = ?z" using z(2) by (simp add: secret_from_bytes_def)
  with first(2) [OF _ xy(2)] B(4) xy(4,5) zb obtain w where w: "dr_reach C w" "st w = (\<lambda>q. if q then sA else sB)" "wire w = (\<lambda>_. [])"
    "used w \<subseteq> {pb_signed b, x, y}" "spent C w True (h_dh hd) (h_n hd)" by auto
  have "key_settled C w True [] k" if "k \<in> sid_keys gB' (sid False)" for k
  proof -
    have "take 40 (drop 18 (message_id k)) = header_encode hd" using k that key_header [OF B(3) dec] by blast
    then show ?thesis unfolding key_settled_def by (intro exI [of _ hd] conjI first(1) w(5)) simp_all
  qed
  then have "linked C sid cid (px_ad (ai_shared ai))
      \<lparr>tk_eng = (\<lambda>q. if q then gA' else gB'), tk_wire = (\<lambda>_. []), tk_used = {pb_signed b, x, y}\<rparr> w"
    unfolding linked_def all_other [of _ True] using w A B by simp
  then show ?thesis by blast
qed

lemma talk_linked:
  assumes "talk_reach F C sid W" "crypto_laws C" "prekey_laws C"
  shows "\<exists>cid had w. linked C sid cid had W w"
  using assms(1)
proof induction
  case (reach_contact gA gB r n b gB1 rsA cid pt ad p gA' rsB pt' gB' x y)
  note c = reach_contact
  have g: "store_public_bundle C (eg_identity gB1) (eg_prekeys gB1) = Inr b" "engine_ok C gB1" "persisted gB1"
    "eg_profile gB1 = ClassicalV1" "sid_fresh gB1 (sid False)"
    by (rule generate_bundle_cases [OF assms(3) c(3,7)]; use c(4,6,11) in \<open>auto simp: kept_def sid_fresh_def\<close>)+
  from contact_linked [OF assms(2,3) c(1,2) g(2,3) c(5) g(4,1) c(8,9,10) g(5) c(12-16)] show ?case by blast
next
  case (reach_talk W W')
  then show ?case using linked_step [OF assms(2,3)] by blast
qed

text \<open>C3: A whole conversation of two engines of the classical profile. They make contact through a bundle and an
  initiation packet; then both send, messages are lost, delayed and reordered, forged ones are injected, and in between either
  engine publishes bundles, serves other sessions or crashes and reloads from its storage. Decrypting
  any message still in transit gives exactly the plaintext that was encrypted, replay cache included, or,
  only when the limit on skipped keys leaves no room for it, \<open>LimitExceeded\<close> with the engine unchanged. Keys the ratchets
  draw are assumed not to repeat, and the session identifiers not to be ones the replay caches know.\<close>

theorem engine_conversation_delivers:
  assumes "lens_ok C" "secret_stable C" "xpub_ok C" "dh_commutes C" "kem_correct C" "edwards_laws C" "aead_correct C"
    and "talk_reach F C sid W" "(m, pt, ad) \<in> set (tk_wire W (\<not> p))"
  shows "(\<exists>g'. engine_decrypt C r (tk_eng W p) (sid p) m ad = Some (Inr pt, g')) \<or>
    engine_decrypt C r (tk_eng W p) (sid p) m ad = Some (Inl CeLimitExceeded, tk_eng W p) \<and>
    (\<exists>s cid had. session_core (tk_eng W p) (sid p) = Some (LClassical s, cid, had) \<and> \<not> has_room s (hdr_of m))"
proof -
  have laws: "crypto_laws C" "prekey_laws C" using assms(1-7) by (simp_all add: crypto_laws_def prekey_laws_def)
  obtain cid had w where l: "linked C sid cid had W w" using talk_linked [OF assms(8) laws] by blast
  from linked_delivers [OF laws(1) l assms(9)] linked_at(6) [OF l, of p] show ?thesis by blast
qed

lemma initiator_can_send:
  assumes "fst (init_alice C r sk pk ms) = Inr a" "dr_encrypt C (clone_for_trial C a) pt ad = (Inr (h, ct), s)" "lens_ok C" "aead_correct C"
  shows "\<exists>h ct s'. dr_encrypt C s pt' ad' = (Inr (h, ct), s')"
proof -
  have "ns (clone_for_trial C a) = 0" using assms(1) by (auto simp: init_alice_def clone_for_trial_def rd_simps split: prod.splits)
  then have "\<exists>ck x. cks s = Some ck \<and> dhs s = Some x \<and> ns s = 1"
    by (rule_tac dr_encrypt_cases [OF assms(2)]) simp
  then show ?thesis using dr_encrypt_total [OF assms(3,4), of s] by fastforce
qed

lemma talk_can_send:
  assumes laws: "crypto_laws C" "prekey_laws C" and W: "talk_reach F C sid W"
    and s: "session_core (tk_eng W p) (sid p) = Some (LClassical s, cid, had)"
    and e: "\<And>ad. \<exists>h ct s'. dr_encrypt C s pt ad = (Inr (h, ct), s')"
  obtains W' m where "talk_reach F C sid W'" "(m, pt, ad) \<in> set (tk_wire W' p)"
proof -
  obtain cid' had' w where l: "linked C sid cid' had' W w" using talk_linked [OF W laws] by blast
  obtain sess where g: "hm_get (eg_sessions (tk_eng W p)) (sid p) = Some sess" using s by (auto simp: session_core_def)
  have "st w p = s" using linked_at(6) [OF l, of p] s by simp
  then have "live_clone C (ls_ratchet sess) = LClassical s" using linked_session(1) [OF laws(1) l g] by simp
  moreover obtain h ct s' where "dr_encrypt C s pt (bound_ad sess ad) = (Inr (h, ct), s')" using e by blast
  ultimately have "live_encrypt C undefined (live_clone C (ls_ratchet sess)) pt (bound_ad sess ad) = Some (Inr (header_encode h, ct), LClassical s')"
    by simp
  from engine_encrypt_ok [OF linked_at(3) [OF l] g this] obtain m g' where
    "engine_encrypt C undefined (tk_eng W p) (sid p) pt ad = Some (Inr m, g')" by blast
  note step = talk_send [of C undefined W p sid pt ad, OF this, of F]
  show thesis by (rule that [OF reach_talk [OF W step], of m]) simp
qed

lemma demo_talk:
  obtains W sid m where "talk_reach F braid_crypto sid W" "(m, [42], []) \<in> set (tk_wire W True)"
proof -
  let ?C = braid_crypto and ?sid = "\<lambda>q. if q then next_session_id (\<lambda>_. 7) else next_session_id (\<lambda>_. 6)"
  have L: "crypto_laws ?C" using braid_prekey_laws braid_crypto_dr by (simp add: crypto_laws_def prekey_laws_def)
  have l: "lens_ok ?C" "kem_correct ?C" "edwards_laws ?C" using braid_prekey_laws by (simp_all add: prekey_laws_def)
  obtain gA where a: "initialize_device ?C (\<lambda>_ _. 3) [1] ClassicalV1 = Some (Inr gA)" by (rule demo_engine)
  obtain gB where b: "initialize_device ?C (\<lambda>_ _. 4) [2] ClassicalV1 = Some (Inr gB)"
    "ps_ec (eg_prekeys gB) = []" "ps_next_ec (eg_prekeys gB) = 2" "ps_pq (eg_prekeys gB) = []" "ps_next_pq (eg_prekeys gB) = 2"
    "sp_secret (ps_signed (eg_prekeys gB)) = replicate 32 4" by (rule demo_engine)
  obtain bd g1 where g: "generate_public_prekey_bundle ?C (\<lambda>_. 5) gB 1 = (Inr bd, g1)" "pb_signed bd = public_key ?C (replicate 32 4)"
    by (rule demo_bundle [OF b])
  note i = initialize_ok [OF braid_prekey_laws a] and j = initialize_ok [OF braid_prekey_laws b(1)]
  have f: "sid_fresh gA s" "sid_fresh gB s" for s using i(7) j(7) by (simp_all add: sid_fresh_def)
  have k: "public_key ?C (fst (secret_generate ?C (\<lambda>_. v))) = public_key ?C (replicate 32 v)" for v
    by (simp add: secret_generate_def fill_random_def plain_simps map_replicate_const)
  have inj: "public_key ?C (replicate 32 v) \<noteq> public_key ?C (replicate 32 u)" if "v \<noteq> u" for v u
    using that by (simp add: plain_simps public_key_def fit_def)
  obtain p gA' gB' where h: "establish_outbound_session ?C (\<lambda>_ _. 7) gA bd [9] [42] [] = Some (Inr (next_session_id (\<lambda>_. 7), p), gA')"
    "process_inbound_session ?C (\<lambda>_ _. 6) g1 p [9] [] = Some (Inr (next_session_id (\<lambda>_. 6), [42]), gB')"
    using first_contact_works [OF l(1) braid_crypto_dr(1,3,2) l(2,3) braid_crypto_dr(4) braid_crypto_laws i(1) j(1) _ g(1),
        of "\<lambda>_ _. 6" "[42]" "\<lambda>_ _. 7" "[9]" "[]"] f(2) i(5) j(5) g(2) k inj by auto
  let ?W = "\<lparr>tk_eng = (\<lambda>q. if q then gA' else gB'), tk_wire = (\<lambda>_. []),
    tk_used = {pb_signed bd, public_key ?C (replicate 32 7), public_key ?C (replicate 32 6)}\<rparr>"
  have W: "talk_reach F ?C ?sid ?W"
    by (rule reach_contact [OF i(1,2) j(1,2) i(5) j(5) g(1), of "\<lambda>_ _. 7" "[9]" "[42]" "[]" _ p gA' "\<lambda>_ _. 6" "[42]" gB'])
       (use h f k inj g(2) in simp_all)
  obtain ai :: alice_initiation and a0 hd ct sA where s: "fst (init_alice ?C (\<lambda>_. 7) (px_sk (ai_shared ai)) (pb_signed bd) DEFAULT_MAX_SKIP) = Inr a0"
    "dr_encrypt ?C (clone_for_trial ?C a0) [42] (put_vec (px_ad (ai_shared ai)) @ put_vec [9] @ []) = (Inr (hd, ct), sA)"
    "session_core gA' (next_session_id (\<lambda>_. 7)) = Some (LClassical sA, [9], px_ad (ai_shared ai))"
    by (rule initiator_side [OF i(1,2,5) f(1) h(1)])
  have "\<exists>h ct s'. dr_encrypt ?C sA [42] ad = (Inr (h, ct), s')" for ad
    by (rule initiator_can_send [OF s(1,2) l(1) braid_crypto_dr(4)])
  from talk_can_send [OF L braid_prekey_laws W _ this, of True "[9]" "px_ad (ai_shared ai)" "[]"] s(3) show thesis using that by auto
qed

theorem engine_conversation_delivers_witness:
  "\<forall>F. \<exists>W sid m. talk_reach F braid_crypto sid W \<and> (m, [42], []) \<in> set (tk_wire W True) \<and>
     ((\<exists>g'. engine_decrypt braid_crypto (\<lambda>_. 8) (tk_eng W False) (sid False) m [] = Some (Inr [42], g')) \<or>
      engine_decrypt braid_crypto (\<lambda>_. 8) (tk_eng W False) (sid False) m [] = Some (Inl CeLimitExceeded, tk_eng W False) \<and>
      (\<exists>s cid had. session_core (tk_eng W False) (sid False) = Some (LClassical s, cid, had) \<and> \<not> has_room s (hdr_of m)))"
proof
  fix F
  have l: "lens_ok braid_crypto" "kem_correct braid_crypto" "edwards_laws braid_crypto"
    using braid_prekey_laws by (simp_all add: prekey_laws_def)
  obtain W sid m where w: "talk_reach F braid_crypto sid W" "(m, [42], []) \<in> set (tk_wire W True)" by (rule demo_talk)
  from engine_conversation_delivers [OF l(1) braid_crypto_dr(1,3,2) l(2,3) braid_crypto_dr(4) w(1), of m "[42]" "[]" False "\<lambda>_. 8"] w
  show "\<exists>W sid m. talk_reach F braid_crypto sid W \<and> (m, [42], []) \<in> set (tk_wire W True) \<and>
     ((\<exists>g'. engine_decrypt braid_crypto (\<lambda>_. 8) (tk_eng W False) (sid False) m [] = Some (Inr [42], g')) \<or>
      engine_decrypt braid_crypto (\<lambda>_. 8) (tk_eng W False) (sid False) m [] = Some (Inl CeLimitExceeded, tk_eng W False) \<and>
      (\<exists>s cid had. session_core (tk_eng W False) (sid False) = Some (LClassical s, cid, had) \<and> \<not> has_room s (hdr_of m)))"
    by (intro exI [of _ W] exI [of _ sid] exI [of _ m]) simp
qed

end
