(* ===== verification/VC_Scka.thy ===== *)
theory VC_Scka
  imports VC_Ratchet_Codec VC_Instance
begin

text \<open>
  The ping-pong key agreement over ML-KEM-768 (\<^verbatim>\<open>src/ratchet/scka.rs\<close>): messages and their wire
  format, the two-field state machine, and its persistence.
\<close>

datatype scka_message = EncapsulationKey bytes | Ciphertext bytes

fun scka_encode :: "scka_message \<Rightarrow> bytes" where
  "scka_encode (EncapsulationKey b) = 1 # b"
| "scka_encode (Ciphertext b) = 2 # b"

definition scka_decode :: "crypto \<Rightarrow> bytes \<Rightarrow> prim_error + scka_message" where
  "scka_decode C data =
     (case data of
        [] \<Rightarrow> Inl InvalidLength
      | tag # body \<Rightarrow>
          if tag = 1 then
            if length data \<noteq> 1 + 1184 then Inl InvalidPublicKey
            else rbind (kem_public_from_bytes C body) (\<lambda>_. Inr (EncapsulationKey body))
          else if tag = 2 then
            if length data \<noteq> 1 + 1088 then Inl InvalidKemCiphertext else Inr (Ciphertext body)
          else Inl InvalidLength)"

record cka_state =
  pending_dk :: "bytes option"
  remote_ek :: "bytes option"

definition cka_new :: cka_state where
  "cka_new = \<lparr>pending_dk = None, remote_ek = None\<rparr>"

definition cka_send :: "crypto \<Rightarrow> rng \<Rightarrow> cka_state \<Rightarrow> (prim_error + (scka_message \<times> bytes option)) \<times> cka_state" where
  "cka_send C r s =
     (case remote_ek s of
        Some ek \<Rightarrow>
          let s1 = s\<lparr>remote_ek := None\<rparr>
          in sbind (fst (kem_encapsulate C ek r), s1) (\<lambda>(ss, ct) s. (Inr (Ciphertext ct, Some ss), s))
      | None \<Rightarrow>
          (case pending_dk s of
             None \<Rightarrow> sbind (fst (kem_generate C r), s) (\<lambda>(dk, pk) s.
                       (Inr (EncapsulationKey pk, None), s\<lparr>pending_dk := Some dk\<rparr>))
           | Some dk \<Rightarrow> sbind (kem_public_key C dk, s) (\<lambda>pk s. (Inr (EncapsulationKey pk, None), s))))"

fun cka_receive :: "crypto \<Rightarrow> cka_state \<Rightarrow> scka_message \<Rightarrow> (prim_error + bytes option) \<times> cka_state" where
  "cka_receive C s (EncapsulationKey b) =
     sbind (kem_public_from_bytes C b, s) (\<lambda>pk s. (Inr None, s\<lparr>remote_ek := Some pk\<rparr>))"
| "cka_receive C s (Ciphertext b) =
     (let s1 = s\<lparr>pending_dk := None\<rparr>
      in sbind (ok_or InvalidKemCiphertext (pending_dk s), s1) (\<lambda>dk s.
         sbind (kem_ct_from_bytes b, s) (\<lambda>ct s.
         sbind (kem_decapsulate C dk ct, s) (\<lambda>ss s. (Inr (Some ss), s)))))"

definition cka_serialize :: "cka_state \<Rightarrow> bytes" where
  "cka_serialize s = put_opt (pending_dk s) @ put_opt (remote_ek s)"

definition cka_deserialize :: "crypto \<Rightarrow> bytes \<Rightarrow> prim_error + cka_state" where
  "cka_deserialize C data =
     rbind (take_u8 InvalidLength data) (\<lambda>(has_dk, d).
     rbind (if has_dk = 1 then rbind (take_n InvalidLength 64 d) (\<lambda>(seed, d). Inr (Some seed, d))
            else if has_dk = 0 then Inr (None, d) else Inl InvalidLength) (\<lambda>(dk, d).
     rbind (take_u8 InvalidLength d) (\<lambda>(has_ek, d).
     rbind (if has_ek = 1 then
              if length d \<noteq> 1184 then Inl InvalidLength
              else rbind (kem_public_from_bytes C d) (\<lambda>pk. Inr (Some pk))
            else if has_ek = 0 then
              if d \<noteq> [] then Inl InvalidLength else Inr None
            else Inl InvalidLength) (\<lambda>ek.
       Inr \<lparr>pending_dk = dk, remote_ek = ek\<rparr>))))"

subsection \<open>Message format\<close>

fun scka_wf :: "crypto \<Rightarrow> scka_message \<Rightarrow> bool" where
  "scka_wf C (EncapsulationKey b) \<longleftrightarrow> length b = 1184 \<and> kem_ek_valid C b"
| "scka_wf C (Ciphertext b) \<longleftrightarrow> length b = 1088"

interpretation sckam: canonical_codec scka_encode "scka_decode C" "scka_wf C" for C
proof unfold_locales
  fix m assume "scka_wf C m"
  then show "scka_decode C (scka_encode m) = Inr m"
    by (cases m) (simp_all add: scka_decode_def kem_public_from_bytes_def)
next
  fix d m assume "scka_decode C d = Inr m"
  then show "scka_wf C m \<and> scka_encode m = d"
    by (auto simp: scka_decode_def kem_public_from_bytes_def rbind_def split: list.splits if_splits)
qed

subsection \<open>State format\<close>

definition cka_wf :: "crypto \<Rightarrow> cka_state \<Rightarrow> bool" where
  "cka_wf C s \<longleftrightarrow> (\<forall>b. pending_dk s = Some b \<longrightarrow> length b = 64) \<and>
     (\<forall>b. remote_ek s = Some b \<longrightarrow> length b = 1184 \<and> kem_ek_valid C b)"

interpretation ckas: canonical_codec cka_serialize "cka_deserialize C" "cka_wf C" for C
proof unfold_locales
  fix s assume "cka_wf C s"
  then show "cka_deserialize C (cka_serialize s) = Inr s"
    by (cases "pending_dk s"; cases "remote_ek s")
       (simp_all add: cka_deserialize_def cka_serialize_def put_opt_def cka_wf_def kem_public_from_bytes_def)
next
  fix d s assume "cka_deserialize C d = Inr s"
  then show "cka_wf C s \<and> cka_serialize s = d"
    by (auto simp: cka_deserialize_def cka_serialize_def put_opt_def cka_wf_def kem_public_from_bytes_def
        rd_simps split: if_splits)
qed

lemma cka_wf_preserved:
  assumes "kem_correct C" "cka_wf C s"
  shows "cka_wf C (snd (cka_send C r s))" and "cka_wf C (snd (cka_receive C s m))"
proof -
  show "cka_wf C (snd (cka_send C r s))"
    using assms by (auto simp: cka_send_def cka_wf_def sbind_def kem_generate_def fill_random_def Let_def
        rbind_def split: option.split sum.splits prod.splits)
  show "cka_wf C (snd (cka_receive C s m))"
    using assms(2) by (cases m) (auto simp: cka_wf_def sbind_def Let_def kem_public_from_bytes_def split: sum.splits if_splits)
qed

subsection \<open>One round\<close>

lemma cka_send_key:
  assumes "kem_correct C" "remote_ek A = None"
  obtains dk where "cka_send C r A = (Inr (EncapsulationKey (kem_ek C dk), None), A\<lparr>pending_dk := Some dk\<rparr>)"
proof (cases "pending_dk A")
  case None
  have "length (kem_ek C seed) = 1184" for seed using assms(1) by (simp add: kem_correct_def)
  then show thesis
    using that [of "fst (fill_random 64 r)"] None assms(2)
    by (simp add: cka_send_def kem_generate_def encode_public_def split_beta Let_def)
next
  case (Some dk)
  then show thesis
    using that [of dk] assms by (cases A) (simp add: cka_send_def kem_public_key_ok)
qed

text \<open>One round of the key agreement. From any state in which no key of the peer is waiting, the
  party offers an encapsulation key; the peer, in any state, accepts it and answers with a
  ciphertext and a secret; the first party recovers exactly that secret. No step fails.\<close>

theorem cka_round_agrees:
  assumes "kem_correct C" "remote_ek A = None"
  shows "\<exists>pk A1 B1 m ss B2 A2. cka_send C r A = (Inr (EncapsulationKey pk, None), A1) \<and>
    cka_receive C B (EncapsulationKey pk) = (Inr None, B1) \<and>
    cka_send C r' B1 = (Inr (m, Some ss), B2) \<and> cka_receive C A1 m = (Inr (Some ss), A2) \<and>
    pending_dk A2 = None \<and> remote_ek B2 = None \<and> pending_dk B2 = pending_dk B"
proof -
  obtain dk where s1: "cka_send C r A = (Inr (EncapsulationKey (kem_ek C dk), None), A\<lparr>pending_dk := Some dk\<rparr>)"
    using cka_send_key [OF assms] by metis
  obtain ss ct r1 where e: "kem_encapsulate C (kem_ek C dk) r' = (Inr (ss, ct), r1)"
    using kem_encapsulate_ok [OF assms(1)] by metis
  note rt = kem_roundtrip [OF assms(1) e]
  have "cka_receive C (A\<lparr>pending_dk := Some dk\<rparr>) (Ciphertext ct) = (Inr (Some ss), A\<lparr>pending_dk := None\<rparr>)"
    using rt by (simp add: kem_ct_from_bytes_def)
  then show ?thesis using s1 e assms(1) by (simp add: cka_send_def)
qed

theorem cka_round_agrees_witness:
  "\<exists>pk A1 B1 m ss B2 A2. cka_send plain_crypto (\<lambda>_. 1) cka_new = (Inr (EncapsulationKey pk, None), A1) \<and>
    cka_receive plain_crypto cka_new (EncapsulationKey pk) = (Inr None, B1) \<and>
    cka_send plain_crypto (\<lambda>_. 2) B1 = (Inr (m, Some ss), B2) \<and> cka_receive plain_crypto A1 m = (Inr (Some ss), A2)"
  using cka_round_agrees [OF plain_kem, of cka_new "\<lambda>_. 1" cka_new "\<lambda>_. 2"] by (auto simp: cka_new_def)

end
