(* ===== verification/VC_Padding.thy ===== *)
theory VC_Padding
  imports VC_Primitives
begin

text \<open>Padding to length buckets before encryption (\<^verbatim>\<open>src/padding/mod.rs\<close>).\<close>

definition DEFAULT_BUCKETS :: "nat list" where
  "DEFAULT_BUCKETS = [64, 128, 256, 512, 1024, 2048, 4096, 8192, 16384]"

definition pad_to_bucket :: "rng \<Rightarrow> bytes \<Rightarrow> nat list \<Rightarrow> prim_error + bytes" where
  "pad_to_bucket r plaintext buckets =
     rbind (if length plaintext + 4 < 2 ^ 64 then Inr (length plaintext + 4) else Inl InvalidLength) (\<lambda>needed.
     rbind (ok_or InvalidLength (find (\<lambda>b. b \<ge> needed) buckets)) (\<lambda>bucket.
       Inr (le_bytes 4 (of_nat (length plaintext) :: u32) @ plaintext @
            (if needed < bucket then fst (fill_random (bucket - needed) r) else []))))"

definition unpad :: "bytes \<Rightarrow> prim_error + bytes" where
  "unpad padded =
     (if length padded < 4 then Inl InvalidLength
      else let len = unat (from_le (take 4 padded) :: u32)
           in if 4 + len > length padded then Inl InvalidLength
              else Inr (take len (drop 4 padded)))"

lemma find_least:
  assumes "sorted xs" "find P xs = Some x" "y \<in> set xs" "P y"
  shows "x \<le> (y :: nat)"
  using assms by (induction xs) (auto split: if_splits)

lemma find_in_set: "find P xs = Some x \<Longrightarrow> x \<in> set xs \<and> P x"
  by (induction xs) (auto split: if_splits)

lemma unpad_frame:
  assumes "length pt < 2 ^ 32"
  shows "unpad (le_bytes 4 (of_nat (length pt) :: u32) @ pt @ pad) = Inr pt"
  using assms by (simp add: unpad_def)

text \<open>Padding hides the length up to the bucket and is undone by unpadding: the padded size
  is one of the buckets, the smallest that fits when they are sorted, and \<open>unpad\<close> returns the
  plaintext whatever random bytes filled the pad.\<close>

theorem pad_unpad_roundtrip:
  assumes "pad_to_bucket r pt buckets = Inr p" and "length pt < 2 ^ 32"
  shows "unpad p = Inr pt \<and>
    length p \<in> set buckets \<and>
    length pt + 4 \<le> length p \<and>
    (sorted buckets \<longrightarrow> (\<forall>b \<in> set buckets. length pt + 4 \<le> b \<longrightarrow> length p \<le> b))"
proof (intro conjI impI)
  from assms(1) obtain b where f: "find (\<lambda>b. b \<ge> length pt + 4) buckets = Some b"
    and p: "p = le_bytes 4 (of_nat (length pt) :: u32) @ pt @
         (if length pt + 4 < b then fst (fill_random (b - (length pt + 4)) r) else [])"
    by (auto simp: pad_to_bucket_def rd_simps split: if_splits)
  from find_in_set [OF f] have b: "b \<in> set buckets" "length pt + 4 \<le> b" by auto
  then have len: "length p = b" by (simp add: p)
  show "unpad p = Inr pt" unfolding p by (rule unpad_frame [OF assms(2)])
  show "length p \<in> set buckets" "length pt + 4 \<le> length p" using b len by simp_all
  show "\<forall>c \<in> set buckets. length pt + 4 \<le> c \<longrightarrow> length p \<le> c" if "sorted buckets"
    using find_least [OF that f] len by simp
qed

theorem pad_unpad_roundtrip_witness:
  "\<exists>p. pad_to_bucket (\<lambda>_. 7) [1, 2, 3] DEFAULT_BUCKETS = Inr p \<and> unpad p = Inr [1, 2, 3] \<and> length p = 64"
proof -
  obtain p where p: "pad_to_bucket (\<lambda>_. 7) [1, 2, 3] DEFAULT_BUCKETS = Inr p" "length p = 64"
    by (simp add: pad_to_bucket_def DEFAULT_BUCKETS_def)
  with pad_unpad_roundtrip [OF p(1)] show ?thesis by simp
qed

end
