(* ===== verification/VC_Envelope.thy ===== *)
theory VC_Envelope
  imports VC_Primitives
begin

text \<open>
  The authenticated application envelope (\<^verbatim>\<open>src/envelope/mod.rs\<close>): limits, canonical encoding, the
  fail-closed parser and the associated data. Strings are their UTF-8 bytes; a codec name must be
  ASCII, and a byte string with a byte above 127 is refused by the parser either as invalid
  UTF-8 or as non-ASCII, with the same error.
\<close>

definition ENVELOPE_VERSION :: u8 where "ENVELOPE_VERSION = 1"
definition MAX_PAYLOAD_LEN :: nat where "MAX_PAYLOAD_LEN = 1024 * 1024"
definition MAX_ID_LEN :: nat where "MAX_ID_LEN = 128"

datatype crypto_suite = PqxdhTripleAes256Gcm
datatype payload_type = Text | SyntheticVoice | Edit | Acknowledgement

definition suite_from_u8 :: "u8 \<Rightarrow> prim_error + crypto_suite" where
  "suite_from_u8 v = (if v = 1 then Inr PqxdhTripleAes256Gcm else Inl InvalidLength)"

fun suite_as_u8 :: "crypto_suite \<Rightarrow> u8" where
  "suite_as_u8 PqxdhTripleAes256Gcm = 1"

definition payload_type_from_u8 :: "u8 \<Rightarrow> prim_error + payload_type" where
  "payload_type_from_u8 v =
     (if v = 1 then Inr Text else if v = 2 then Inr SyntheticVoice
      else if v = 3 then Inr Edit else if v = 4 then Inr Acknowledgement else Inl InvalidLength)"

fun payload_type_as_u8 :: "payload_type \<Rightarrow> u8" where
  "payload_type_as_u8 Text = 1"
| "payload_type_as_u8 SyntheticVoice = 2"
| "payload_type_as_u8 Edit = 3"
| "payload_type_as_u8 Acknowledgement = 4"

record synthetic_voice_meta =
  sv_codec :: bytes
  sv_duration_ms :: u32
  sv_payload_length :: u32

record envelope =
  ev_version :: u8
  ev_suite :: crypto_suite
  ev_conversation_id :: bytes
  ev_sender_user_id :: bytes
  ev_sender_device_id :: bytes
  ev_recipient_user_id :: bytes
  ev_recipient_device_id :: bytes
  ev_message_id :: bytes
  ev_message_type :: u8
  ev_sequence :: u64
  ev_timestamp :: u64
  ev_payload_type :: payload_type
  ev_synthetic_voice :: "synthetic_voice_meta option"
  ev_payload :: bytes

definition is_ascii :: "bytes \<Rightarrow> bool" where
  "is_ascii b = list_all (\<lambda>x. x < 128) b"

definition write_bytes_u16 :: "bytes \<Rightarrow> prim_error + bytes" where
  "write_bytes_u16 d =
     (if length d > 65535 \<or> length d > MAX_ID_LEN then Inl InvalidLength
      else Inr (le_bytes 2 (of_nat (length d) :: u16) @ d))"

definition read_bytes_u16 :: "bytes \<Rightarrow> prim_error + bytes \<times> bytes" where
  "read_bytes_u16 d =
     rbind (take_u16 InvalidLength d) (\<lambda>(n, d).
       if unat n > MAX_ID_LEN then Inl InvalidLength else take_n InvalidLength (unat n) d)"

definition validate_limits :: "envelope \<Rightarrow> prim_error + unit" where
  "validate_limits e =
     (if ev_version e \<noteq> ENVELOPE_VERSION then Inl InvalidLength
      else if list_ex (\<lambda>i. length i > MAX_ID_LEN)
           [ev_conversation_id e, ev_sender_user_id e, ev_sender_device_id e,
            ev_recipient_user_id e, ev_recipient_device_id e, ev_message_id e]
      then Inl InvalidLength
      else if length (ev_payload e) > MAX_PAYLOAD_LEN then Inl InvalidLength
      else Inr ())"

text \<open>The voice block of the encoding (empty for the other payload types).\<close>

definition voice_bytes :: "envelope \<Rightarrow> prim_error + bytes" where
  "voice_bytes e =
     (if ev_payload_type e = SyntheticVoice then
        rbind (ok_or InvalidLength (ev_synthetic_voice e)) (\<lambda>m.
          if length (sv_codec m) > MAX_ID_LEN \<or> \<not> is_ascii (sv_codec m) then Inl InvalidLength
          else rbind (write_bytes_u16 (sv_codec m)) (\<lambda>c.
            if unat (sv_payload_length m) \<noteq> length (ev_payload e) then Inl InvalidLength
            else Inr (c @ le_bytes 4 (sv_duration_ms m) @ le_bytes 4 (sv_payload_length m))))
      else if ev_synthetic_voice e \<noteq> None then Inl InvalidLength
      else Inr [])"

definition canonical_bytes :: "envelope \<Rightarrow> prim_error + bytes" where
  "canonical_bytes e =
     rbind (validate_limits e) (\<lambda>_.
     rbind (write_bytes_u16 (ev_conversation_id e)) (\<lambda>b1.
     rbind (write_bytes_u16 (ev_sender_user_id e)) (\<lambda>b2.
     rbind (write_bytes_u16 (ev_sender_device_id e)) (\<lambda>b3.
     rbind (write_bytes_u16 (ev_recipient_user_id e)) (\<lambda>b4.
     rbind (write_bytes_u16 (ev_recipient_device_id e)) (\<lambda>b5.
     rbind (write_bytes_u16 (ev_message_id e)) (\<lambda>b6.
     rbind (voice_bytes e) (\<lambda>v.
       if length (ev_payload e) > MAX_PAYLOAD_LEN then Inl InvalidLength
       else Inr ([ev_version e, suite_as_u8 (ev_suite e)] @ b1 @ b2 @ b3 @ b4 @ b5 @ b6 @
         [ev_message_type e] @ le_bytes 8 (ev_sequence e) @ le_bytes 8 (ev_timestamp e) @
         [payload_type_as_u8 (ev_payload_type e)] @ v @
         le_bytes 4 (of_nat (length (ev_payload e)) :: u32) @ ev_payload e)))))))))"

definition read_voice :: "payload_type \<Rightarrow> bytes \<Rightarrow> prim_error + synthetic_voice_meta option \<times> bytes" where
  "read_voice pt d =
     (if pt = SyntheticVoice then
        rbind (read_bytes_u16 d) (\<lambda>(c, d).
          if \<not> is_ascii c \<or> length c > MAX_ID_LEN then Inl InvalidLength
          else rbind (take_u32 InvalidLength d) (\<lambda>(dur, d).
               rbind (take_u32 InvalidLength d) (\<lambda>(pl, d).
                 Inr (Some \<lparr>sv_codec = c, sv_duration_ms = dur, sv_payload_length = pl\<rparr>, d))))
      else Inr (None, d))"

definition envelope_parse :: "bytes \<Rightarrow> prim_error + envelope" where
  "envelope_parse data =
     rbind (take_u8 InvalidLength data) (\<lambda>(version, d).
     if version \<noteq> ENVELOPE_VERSION then Inl InvalidLength else
     rbind (take_u8 InvalidLength d) (\<lambda>(s0, d).
     rbind (suite_from_u8 s0) (\<lambda>suite.
     rbind (read_bytes_u16 d) (\<lambda>(b1, d).
     rbind (read_bytes_u16 d) (\<lambda>(b2, d).
     rbind (read_bytes_u16 d) (\<lambda>(b3, d).
     rbind (read_bytes_u16 d) (\<lambda>(b4, d).
     rbind (read_bytes_u16 d) (\<lambda>(b5, d).
     rbind (read_bytes_u16 d) (\<lambda>(b6, d).
     rbind (take_u8 InvalidLength d) (\<lambda>(mt, d).
     rbind (take_u64 InvalidLength d) (\<lambda>(sq, d).
     rbind (take_u64 InvalidLength d) (\<lambda>(ts, d).
     rbind (take_u8 InvalidLength d) (\<lambda>(p0, d).
     rbind (payload_type_from_u8 p0) (\<lambda>pt.
     rbind (read_voice pt d) (\<lambda>(sv, d).
     rbind (take_u32 InvalidLength d) (\<lambda>(n, d).
     if unat n > MAX_PAYLOAD_LEN then Inl InvalidLength
     else if length d \<noteq> unat n then Inl InvalidLength
     else if (case sv of Some m \<Rightarrow> unat (sv_payload_length m) \<noteq> length d | None \<Rightarrow> False)
     then Inl InvalidLength
     else
       let e = \<lparr>ev_version = version, ev_suite = suite, ev_conversation_id = b1,
                ev_sender_user_id = b2, ev_sender_device_id = b3, ev_recipient_user_id = b4,
                ev_recipient_device_id = b5, ev_message_id = b6, ev_message_type = mt,
                ev_sequence = sq, ev_timestamp = ts, ev_payload_type = pt,
                ev_synthetic_voice = sv, ev_payload = d\<rparr>
       in rbind (validate_limits e) (\<lambda>_. Inr e)))))))))))))))))"

definition associated_data :: "envelope \<Rightarrow> prim_error + bytes" where
  "associated_data e = canonical_bytes (e\<lparr>ev_payload := []\<rparr>)"

subsection \<open>The parser accepts exactly the canonical encodings\<close>

lemma write_bytes_u16_iff [rd_simps]:
  "write_bytes_u16 b = Inr x \<longleftrightarrow> length b \<le> 128 \<and> x = le_bytes 2 (of_nat (length b) :: u16) @ b"
  by (auto simp: write_bytes_u16_def MAX_ID_LEN_def)

lemma read_bytes_u16_iff [rd_simps]:
  "read_bytes_u16 d = Inr (b, r) \<longleftrightarrow>
     length b \<le> 128 \<and> d = le_bytes 2 (of_nat (length b) :: u16) @ b @ r"
proof
  assume "read_bytes_u16 d = Inr (b, r)"
  then obtain n where "d = le_bytes 2 n @ b @ r" "length b = unat (n :: u16)" "unat n \<le> 128"
    by (auto simp: read_bytes_u16_def rd_simps MAX_ID_LEN_def split: if_splits)
  then show "length b \<le> 128 \<and> d = le_bytes 2 (of_nat (length b) :: u16) @ b @ r" by simp
qed (simp add: read_bytes_u16_def MAX_ID_LEN_def)

lemma suite_from_u8_iff [rd_simps]: "suite_from_u8 v = Inr s \<longleftrightarrow> v = suite_as_u8 s"
  by (cases s) (auto simp: suite_from_u8_def)

lemma payload_type_from_u8_iff [rd_simps]: "payload_type_from_u8 v = Inr t \<longleftrightarrow> v = payload_type_as_u8 t"
  by (cases t) (auto simp: payload_type_from_u8_def split: if_splits)

lemma validate_limits_iff [rd_simps]:
  "validate_limits e = Inr u \<longleftrightarrow> ev_version e = ENVELOPE_VERSION \<and>
     length (ev_conversation_id e) \<le> 128 \<and> length (ev_sender_user_id e) \<le> 128 \<and>
     length (ev_sender_device_id e) \<le> 128 \<and> length (ev_recipient_user_id e) \<le> 128 \<and>
     length (ev_recipient_device_id e) \<le> 128 \<and> length (ev_message_id e) \<le> 128 \<and>
     length (ev_payload e) \<le> MAX_PAYLOAD_LEN"
  by (auto simp: validate_limits_def MAX_ID_LEN_def)

lemma read_bytes_u16_app [simp]:
  "length b \<le> 128 \<Longrightarrow> read_bytes_u16 (le_bytes 2 (of_nat (length b) :: u16) @ b @ r) = Inr (b, r)"
  by (simp add: read_bytes_u16_iff)

lemma conv_from_u8 [simp]:
  "suite_from_u8 (suite_as_u8 s) = Inr s" "payload_type_from_u8 (payload_type_as_u8 t) = Inr t"
  by (simp_all add: rd_simps)

definition voice_fits :: "envelope \<Rightarrow> bool" where
  "voice_fits e \<longleftrightarrow> (case ev_synthetic_voice e of
     Some m \<Rightarrow> unat (sv_payload_length m) = length (ev_payload e) | None \<Rightarrow> True)"

lemma read_voice_bytes:
  "voice_bytes e = Inr v \<Longrightarrow>
   read_voice (ev_payload_type e) (v @ r) = Inr (ev_synthetic_voice e, r) \<and> voice_fits e"
  by (cases "ev_synthetic_voice e")
     (auto simp: voice_bytes_def read_voice_def voice_fits_def rd_simps(1) write_bytes_u16_iff
        MAX_ID_LEN_def split: if_splits)

lemma read_voice_inv:
  assumes "read_voice (ev_payload_type e) d = Inr (ev_synthetic_voice e, r)" "voice_fits e"
  shows "\<exists>v. voice_bytes e = Inr v \<and> d = v @ r"
proof (cases "ev_payload_type e = SyntheticVoice")
  case True
  with assms(1) obtain c dur pl where
    sv: "ev_synthetic_voice e = Some \<lparr>sv_codec = c, sv_duration_ms = dur, sv_payload_length = pl\<rparr>"
    and c: "is_ascii c" "length c \<le> 128"
    and d: "d = le_bytes 2 (of_nat (length c) :: u16) @ c @ le_bytes 4 dur @ le_bytes 4 pl @ r"
    by (auto simp: read_voice_def rd_simps MAX_ID_LEN_def split: if_splits)
  have w: "write_bytes_u16 c = Inr (le_bytes 2 (of_nat (length c) :: u16) @ c)"
    using c(2) by (simp add: write_bytes_u16_iff)
  have "unat pl = length (ev_payload e)" using assms(2) by (simp add: voice_fits_def sv)
  then show ?thesis using True sv c d w by (simp add: voice_bytes_def MAX_ID_LEN_def)
next
  case False
  with assms(1) show ?thesis by (auto simp: read_voice_def voice_bytes_def split: if_splits)
qed

lemma parse_canonical:
  assumes "canonical_bytes e = Inr data"
  shows "envelope_parse data = Inr e"
proof -
  from assms obtain v where v: "voice_bytes e = Inr v" and lim: "validate_limits e = Inr ()"
    and l: "length (ev_payload e) \<le> MAX_PAYLOAD_LEN" "ev_version e = ENVELOPE_VERSION"
     "length (ev_conversation_id e) \<le> 128" "length (ev_sender_user_id e) \<le> 128"
     "length (ev_sender_device_id e) \<le> 128" "length (ev_recipient_user_id e) \<le> 128"
     "length (ev_recipient_device_id e) \<le> 128" "length (ev_message_id e) \<le> 128"
    and d: "data = [ev_version e, suite_as_u8 (ev_suite e)] @
        (le_bytes 2 (of_nat (length (ev_conversation_id e)) :: u16) @ ev_conversation_id e) @
        (le_bytes 2 (of_nat (length (ev_sender_user_id e)) :: u16) @ ev_sender_user_id e) @
        (le_bytes 2 (of_nat (length (ev_sender_device_id e)) :: u16) @ ev_sender_device_id e) @
        (le_bytes 2 (of_nat (length (ev_recipient_user_id e)) :: u16) @ ev_recipient_user_id e) @
        (le_bytes 2 (of_nat (length (ev_recipient_device_id e)) :: u16) @ ev_recipient_device_id e) @
        (le_bytes 2 (of_nat (length (ev_message_id e)) :: u16) @ ev_message_id e) @
         [ev_message_type e] @ le_bytes 8 (ev_sequence e) @ le_bytes 8 (ev_timestamp e) @
         [payload_type_as_u8 (ev_payload_type e)] @ v @
         le_bytes 4 (of_nat (length (ev_payload e)) :: u32) @ ev_payload e"
    by (auto simp: canonical_bytes_def rd_simps split: if_splits)
  note rv = read_voice_bytes [OF v]
  have n: "unat (of_nat (length (ev_payload e)) :: u32) = length (ev_payload e)"
    using l(1) by (simp add: MAX_PAYLOAD_LEN_def)
  have c: "\<not> (case ev_synthetic_voice e of Some m \<Rightarrow> unat (sv_payload_length m) \<noteq> length (ev_payload e)
      | None \<Rightarrow> False)"
    using rv by (auto simp: voice_fits_def split: option.splits)
  have e: "\<lparr>ev_version = ENVELOPE_VERSION, ev_suite = ev_suite e, ev_conversation_id = ev_conversation_id e,
      ev_sender_user_id = ev_sender_user_id e, ev_sender_device_id = ev_sender_device_id e,
      ev_recipient_user_id = ev_recipient_user_id e, ev_recipient_device_id = ev_recipient_device_id e,
      ev_message_id = ev_message_id e, ev_message_type = ev_message_type e, ev_sequence = ev_sequence e,
      ev_timestamp = ev_timestamp e, ev_payload_type = ev_payload_type e,
      ev_synthetic_voice = ev_synthetic_voice e, ev_payload = ev_payload e\<rparr> = e"
    using l(2) by (cases e) simp
  show ?thesis
    unfolding d using l rv n c lim by (simp add: envelope_parse_def Let_def e)
qed

lemma canonical_parse:
  assumes "envelope_parse data = Inr e"
  shows "canonical_bytes e = Inr data"
proof -
  from assms obtain d r n where lim: "validate_limits e = Inr ()"
    and rv: "read_voice (ev_payload_type e) d = Inr (ev_synthetic_voice e, r)" "voice_fits e"
    and r: "r = le_bytes 4 n @ ev_payload e" "length (ev_payload e) = unat (n :: u32)"
    and data: "data = [ev_version e, suite_as_u8 (ev_suite e)] @
        (le_bytes 2 (of_nat (length (ev_conversation_id e)) :: u16) @ ev_conversation_id e) @
        (le_bytes 2 (of_nat (length (ev_sender_user_id e)) :: u16) @ ev_sender_user_id e) @
        (le_bytes 2 (of_nat (length (ev_sender_device_id e)) :: u16) @ ev_sender_device_id e) @
        (le_bytes 2 (of_nat (length (ev_recipient_user_id e)) :: u16) @ ev_recipient_user_id e) @
        (le_bytes 2 (of_nat (length (ev_recipient_device_id e)) :: u16) @ ev_recipient_device_id e) @
        (le_bytes 2 (of_nat (length (ev_message_id e)) :: u16) @ ev_message_id e) @
         [ev_message_type e] @ le_bytes 8 (ev_sequence e) @ le_bytes 8 (ev_timestamp e) @
         [payload_type_as_u8 (ev_payload_type e)] @ d"
    unfolding envelope_parse_def Let_def
    by (auto simp: rbind_Inr_iff take_u8_iff take_u64_iff take_u32_iff suite_from_u8_iff
        payload_type_from_u8_iff read_bytes_u16_iff voice_fits_def split: if_splits option.splits)
  from read_voice_inv [OF rv] obtain v where v: "voice_bytes e = Inr v" "d = v @ r" by blast
  have "le_bytes 4 (of_nat (length (ev_payload e)) :: u32) = le_bytes 4 n" using r(2) by simp
  then show ?thesis
    using lim v r data lim [unfolded validate_limits_iff]
    by (simp add: canonical_bytes_def write_bytes_u16_def MAX_ID_LEN_def)
qed

interpretation env: checked_codec canonical_bytes envelope_parse
  by unfold_locales (blast intro: parse_canonical canonical_parse)

text \<open>C30: the envelope format is canonical and the parser fails closed: a byte string parses to an
  envelope exactly when it is that envelope's canonical encoding. Hence no two byte strings
  parse to the same envelope and no two envelopes share an encoding.\<close>

theorem envelope_parse_iff_canonical:
  "envelope_parse data = Inr e \<longleftrightarrow> canonical_bytes e = Inr data"
  by (rule env.dec_enc_iff)

text \<open>The associated data binds the metadata. Two envelopes with the same associated data agree
  on every field but the payload: conversation, users, devices, message id, type, sequence,
  timestamp and voice metadata.\<close>

theorem associated_data_binds:
  assumes "associated_data e1 = Inr ad" "associated_data e2 = Inr ad"
  shows "e1\<lparr>ev_payload := []\<rparr> = e2\<lparr>ev_payload := []\<rparr>"
  by (rule env.enc_inj) (use assms in \<open>simp_all add: associated_data_def\<close>)

definition demo_envelope :: envelope where
  "demo_envelope = \<lparr>ev_version = 1, ev_suite = PqxdhTripleAes256Gcm, ev_conversation_id = [1],
     ev_sender_user_id = [2], ev_sender_device_id = [3], ev_recipient_user_id = [4],
     ev_recipient_device_id = [5], ev_message_id = [6], ev_message_type = 0, ev_sequence = 7,
     ev_timestamp = 8, ev_payload_type = Text, ev_synthetic_voice = None, ev_payload = [9, 10]\<rparr>"

theorem associated_data_binds_witness:
  "\<exists>ad. associated_data demo_envelope = Inr ad \<and> associated_data (demo_envelope\<lparr>ev_payload := [1]\<rparr>) = Inr ad \<and>
     demo_envelope\<lparr>ev_payload := []\<rparr> = demo_envelope\<lparr>ev_payload := [1], ev_payload := []\<rparr>"
proof -
  obtain ad where ad: "associated_data demo_envelope = Inr ad"
    by (simp add: associated_data_def canonical_bytes_def demo_envelope_def write_bytes_u16_def
        voice_bytes_def validate_limits_def MAX_ID_LEN_def ENVELOPE_VERSION_def)
  moreover from ad have "associated_data (demo_envelope\<lparr>ev_payload := [1]\<rparr>) = Inr ad"
    by (simp add: associated_data_def)
  ultimately show ?thesis using associated_data_binds by blast
qed

text \<open>C31: a valid voice envelope with a non-empty payload has no associated data. The encoder
  clears the payload before it compares the declared length with the payload's, so the
  comparison always fails.\<close>

theorem voice_associated_data_fails:
  assumes "canonical_bytes e = Inr d" "ev_payload_type e = SyntheticVoice" "ev_payload e \<noteq> []"
  shows "associated_data e = Inl InvalidLength"
proof -
  from assms obtain m where m: "ev_synthetic_voice e = Some m"
    "unat (sv_payload_length m) = length (ev_payload e)" "length (sv_codec m) \<le> 128" "is_ascii (sv_codec m)"
    by (auto simp: canonical_bytes_def voice_bytes_def rd_simps MAX_ID_LEN_def split: if_splits)
  then have "voice_bytes (e\<lparr>ev_payload := []\<rparr>) = Inl InvalidLength"
    using assms(2,3) by (simp add: voice_bytes_def write_bytes_u16_def MAX_ID_LEN_def)
  moreover have lim: "validate_limits (e\<lparr>ev_payload := []\<rparr>) = Inr ()"
    using assms(1) by (auto simp: canonical_bytes_def rbind_Inr_iff validate_limits_iff)
  ultimately show ?thesis
    using lim [unfolded validate_limits_iff]
    by (simp add: associated_data_def canonical_bytes_def write_bytes_u16_def MAX_ID_LEN_def)
qed

definition demo_voice :: envelope where
  "demo_voice = demo_envelope\<lparr>ev_payload_type := SyntheticVoice,
     ev_synthetic_voice := Some \<lparr>sv_codec = [111], sv_duration_ms = 20, sv_payload_length = 2\<rparr>\<rparr>"

theorem voice_associated_data_fails_witness:
  "(\<exists>d. canonical_bytes demo_voice = Inr d) \<and> associated_data demo_voice = Inl InvalidLength"
proof -
  obtain d where d: "canonical_bytes demo_voice = Inr d"
    by (simp add: canonical_bytes_def demo_voice_def demo_envelope_def write_bytes_u16_def is_ascii_def
        voice_bytes_def validate_limits_def MAX_ID_LEN_def ENVELOPE_VERSION_def MAX_PAYLOAD_LEN_def)
  moreover have "associated_data demo_voice = Inl InvalidLength"
    by (rule voice_associated_data_fails [OF d]) (simp_all add: demo_voice_def demo_envelope_def)
  ultimately show ?thesis by blast
qed

end
