(* ===== verification/VC_Wire_Envelope.thy ===== *)
theory VC_Wire_Envelope
  imports VC_Primitives
begin

text \<open>
  The second, draft envelope format (\<^verbatim>\<open>src/wire/envelope.rs\<close>), which splits an envelope into a public
  part that the AEAD authenticates and a confidential part that it encrypts. No module declares
  \<^verbatim>\<open>src/wire\<close>, so the crate does not compile it; the model describes what the source says. Strings are their
  UTF-8 bytes; the reader refuses a byte above 127 either as invalid UTF-8 or as non-ASCII, with the same error.
\<close>

subsection \<open>Data\<close>

datatype we_error = WeUnsupportedVersion u8 | WeUnsupportedSuite u16 | WeInvalidMessageType u8 | WeInvalidPayloadType u8
  | WeDuplicateField | WeUnknownCriticalField | WeIntegerOverflow | WeOversizedPayload | WeOversizedId | WeInvalidUtf8
  | WeMalformedLength | WeInvalidFieldOrder | WeMissingRequiredField | WeSyntheticVoiceMetadataMissing | WeOther bytes

fun we_to_prim :: "we_error \<Rightarrow> prim_error" where
  "we_to_prim WeMalformedLength = InvalidLength"
| "we_to_prim WeOversizedPayload = InvalidLength"
| "we_to_prim _ = Internal"

datatype we_version = WeV1
datatype we_suite = WePqxdhTripleAes256Gcm
datatype we_message_type = WeApplication | WeAckMessage | WeEditMessage | WeControl
datatype we_payload_type = WeText | WeVoice | WeEdit | WeAck | WeBinary

fun we_version_u8 :: "we_version \<Rightarrow> u8" where
  "we_version_u8 WeV1 = 1"

definition we_version_from_u8 :: "u8 \<Rightarrow> we_error + we_version" where
  "we_version_from_u8 v = (if v = 1 then Inr WeV1 else Inl (WeUnsupportedVersion v))"

fun we_suite_u16 :: "we_suite \<Rightarrow> u16" where
  "we_suite_u16 WePqxdhTripleAes256Gcm = 1"

definition we_suite_from_u16 :: "u16 \<Rightarrow> we_error + we_suite" where
  "we_suite_from_u16 v = (if v = 1 then Inr WePqxdhTripleAes256Gcm else Inl (WeUnsupportedSuite v))"

fun we_message_u8 :: "we_message_type \<Rightarrow> u8" where
  "we_message_u8 WeApplication = 1"
| "we_message_u8 WeAckMessage = 2"
| "we_message_u8 WeEditMessage = 3"
| "we_message_u8 WeControl = 4"

definition we_message_from_u8 :: "u8 \<Rightarrow> we_error + we_message_type" where
  "we_message_from_u8 v =
     (if v = 1 then Inr WeApplication else if v = 2 then Inr WeAckMessage else if v = 3 then Inr WeEditMessage
      else if v = 4 then Inr WeControl else Inl (WeInvalidMessageType v))"

fun we_payload_u8 :: "we_payload_type \<Rightarrow> u8" where
  "we_payload_u8 WeText = 1"
| "we_payload_u8 WeVoice = 2"
| "we_payload_u8 WeEdit = 3"
| "we_payload_u8 WeAck = 4"
| "we_payload_u8 WeBinary = 5"

definition we_payload_from_u8 :: "u8 \<Rightarrow> we_error + we_payload_type" where
  "we_payload_from_u8 v =
     (if v = 1 then Inr WeText else if v = 2 then Inr WeVoice else if v = 3 then Inr WeEdit
      else if v = 4 then Inr WeAck else if v = 5 then Inr WeBinary else Inl (WeInvalidPayloadType v))"

definition WE_MAX_PAYLOAD_LEN :: nat where "WE_MAX_PAYLOAD_LEN = 1024 * 1024"
definition WE_MAX_ID_LEN :: nat where "WE_MAX_ID_LEN = 64"

record we_voice =
  wv_codec :: bytes
  wv_duration_ms :: u32
  wv_payload_length :: u32

text \<open>The fields an envelope shares with \<open>BindingFields\<close> come first, so that a binding is the prefix
  of the record.\<close>

record we_binding =
  we_version :: we_version
  we_suite :: we_suite
  we_conversation_id :: bytes
  we_sender_user_id :: bytes
  we_sender_device_id :: bytes
  we_recipient_user_id :: bytes
  we_recipient_device_id :: bytes
  we_message_id :: bytes
  we_message_type :: we_message_type
  we_sequence :: u64
  we_timestamp :: u64

record we_envelope = we_binding +
  we_payload_type :: we_payload_type
  we_synthetic_voice :: "we_voice option"
  we_payload :: bytes

subsection \<open>Writing and reading\<close>

definition we_ascii :: "bytes \<Rightarrow> bool" where
  "we_ascii b = list_all (\<lambda>x. x < 128) b"

definition we_write_bytes :: "bytes \<Rightarrow> bytes \<Rightarrow> bytes" where
  "we_write_bytes buf d = buf @ le_bytes 4 (of_nat (length d) :: u32) @ d"

definition we_write_str :: "bytes \<Rightarrow> bytes \<Rightarrow> (we_error + unit) \<times> bytes" where
  "we_write_str buf s = (if we_ascii s then (Inr (), we_write_bytes buf s) else (Inl WeInvalidUtf8, buf))"

definition we_read_bytes :: "bytes \<Rightarrow> we_error + bytes \<times> bytes" where
  "we_read_bytes d =
     rbind (take_u32 WeMalformedLength d) (\<lambda>(n, d).
       if unat n > WE_MAX_PAYLOAD_LEN then Inl WeOversizedPayload else take_n WeMalformedLength (unat n) d)"

definition we_read_str :: "bytes \<Rightarrow> we_error + bytes \<times> bytes" where
  "we_read_str d =
     rbind (we_read_bytes d) (\<lambda>(b, d).
       if length b > 32 then Inl WeOversizedId else if \<not> we_ascii b then Inl WeInvalidUtf8 else Inr (b, d))"

subsection \<open>Operations\<close>

definition we_validate :: "we_envelope \<Rightarrow> we_error + unit" where
  "we_validate e =
     (let bad = (\<lambda>i. i = [] \<or> length i > WE_MAX_ID_LEN)
      in if bad (we_conversation_id e) then Inl WeOversizedId
      else if list_ex bad [we_sender_user_id e, we_sender_device_id e, we_recipient_user_id e, we_recipient_device_id e, we_message_id e]
      then Inl WeOversizedId
      else if length (we_payload e) > WE_MAX_PAYLOAD_LEN then Inl WeOversizedPayload
      else if we_payload_type e = WeVoice then
        (case we_synthetic_voice e of
           None \<Rightarrow> Inl WeSyntheticVoiceMetadataMissing
         | Some m \<Rightarrow> if wv_codec m = [] \<or> length (wv_codec m) > 32 then Inl WeInvalidUtf8
                    else if \<not> we_ascii (wv_codec m) then Inl WeInvalidUtf8 else Inr ())
      else Inr ())"

text \<open>The result of \<open>write_str\<close> is dropped here.\<close>

definition we_associated_data :: "we_envelope \<Rightarrow> bytes" where
  "we_associated_data e =
     (let ad = [we_version_u8 (we_version e)] @ le_bytes 2 (we_suite_u16 (we_suite e));
          ad = we_write_bytes ad (we_conversation_id e);
          ad = we_write_bytes ad (we_sender_user_id e);
          ad = we_write_bytes ad (we_sender_device_id e);
          ad = we_write_bytes ad (we_recipient_user_id e);
          ad = we_write_bytes ad (we_recipient_device_id e);
          ad = we_write_bytes ad (we_message_id e);
          ad = ad @ [we_message_u8 (we_message_type e)] @ le_bytes 8 (we_sequence e) @ le_bytes 8 (we_timestamp e) @
            [we_payload_u8 (we_payload_type e)]
      in case we_synthetic_voice e of
           Some m \<Rightarrow> snd (we_write_str (ad @ [1]) (wv_codec m)) @ le_bytes 4 (wv_duration_ms m) @ le_bytes 4 (wv_payload_length m)
         | None \<Rightarrow> ad @ [0])"

definition we_confidential_plaintext :: "we_envelope \<Rightarrow> we_error + bytes" where
  "we_confidential_plaintext e =
     rbind (we_validate e) (\<lambda>_.
     rbind (case we_synthetic_voice e of
              Some m \<Rightarrow>
                (case we_write_str [1, we_payload_u8 (we_payload_type e), 1] (wv_codec m) of
                   (Inl err, _) \<Rightarrow> Inl err
                 | (Inr _, out) \<Rightarrow> Inr (out @ le_bytes 4 (wv_duration_ms m) @ le_bytes 4 (wv_payload_length m)))
            | None \<Rightarrow> Inr [1, we_payload_u8 (we_payload_type e), 0]) (\<lambda>out.
       Inr (we_write_bytes out (we_payload e))))"

definition we_read_voice :: "u8 \<Rightarrow> bytes \<Rightarrow> we_error + we_voice option \<times> bytes" where
  "we_read_voice has_sv d =
     (if has_sv = 1 then
        rbind (we_read_str d) (\<lambda>(codec, d).
        rbind (take_u32 WeMalformedLength d) (\<lambda>(dur, d).
        rbind (take_u32 WeMalformedLength d) (\<lambda>(len, d).
          Inr (Some \<lparr>wv_codec = codec, wv_duration_ms = dur, wv_payload_length = len\<rparr>, d))))
      else if has_sv = 0 then Inr (None, d)
      else Inl WeMalformedLength)"

definition we_from_confidential_plaintext :: "bytes \<Rightarrow> we_binding \<Rightarrow> we_error + we_envelope" where
  "we_from_confidential_plaintext plaintext binding =
     rbind (take_u8 WeMalformedLength plaintext) (\<lambda>(version, d).
     if version \<noteq> 1 then Inl (WeUnsupportedVersion version) else
     rbind (take_u8 WeMalformedLength d) (\<lambda>(p, d).
     rbind (we_payload_from_u8 p) (\<lambda>payload_type.
     rbind (take_u8 WeMalformedLength d) (\<lambda>(has_sv, d).
     rbind (we_read_voice has_sv d) (\<lambda>(synthetic_voice, d).
     rbind (we_read_bytes d) (\<lambda>(payload, d).
     if d \<noteq> [] then Inl WeMalformedLength
     else if length payload > WE_MAX_PAYLOAD_LEN then Inl WeOversizedPayload
     else if payload_type = WeVoice \<and> synthetic_voice = None then Inl WeSyntheticVoiceMetadataMissing
     else
       let env = we_binding.extend binding
             (we_envelope.fields payload_type synthetic_voice payload)
       in rbind (we_validate env) (\<lambda>_. Inr env)))))))"

subsection \<open>The confidential part\<close>

lemma we_payload_from_u8_iff [rd_simps]: "we_payload_from_u8 v = Inr t \<longleftrightarrow> v = we_payload_u8 t"
  by (cases t) (auto simp: we_payload_from_u8_def split: if_splits)

lemma we_payload_from_u8_back [simp]: "we_payload_from_u8 (we_payload_u8 t) = Inr t"
  by (simp add: rd_simps)

lemma we_read_bytes_iff [rd_simps]:
  "we_read_bytes d = Inr (b, r) \<longleftrightarrow> length b \<le> WE_MAX_PAYLOAD_LEN \<and> d = we_write_bytes [] b @ r"
proof
  assume "we_read_bytes d = Inr (b, r)"
  then obtain n where "d = le_bytes 4 n @ b @ r" "length b = unat (n :: u32)" "unat n \<le> WE_MAX_PAYLOAD_LEN"
    by (auto simp: we_read_bytes_def rd_simps split: if_splits)
  then show "length b \<le> WE_MAX_PAYLOAD_LEN \<and> d = we_write_bytes [] b @ r" by (simp add: we_write_bytes_def)
qed (simp add: we_read_bytes_def we_write_bytes_def WE_MAX_PAYLOAD_LEN_def)

lemma we_read_str_iff [rd_simps]:
  "we_read_str d = Inr (b, r) \<longleftrightarrow> length b \<le> 32 \<and> we_ascii b \<and> d = we_write_bytes [] b @ r"
proof
  assume a: "length b \<le> 32 \<and> we_ascii b \<and> d = we_write_bytes [] b @ r"
  then have "we_read_bytes d = Inr (b, r)" by (simp add: we_read_bytes_iff WE_MAX_PAYLOAD_LEN_def)
  then show "we_read_str d = Inr (b, r)" using a by (simp add: we_read_str_def)
qed (auto simp: we_read_str_def rd_simps split: if_splits)

lemma we_read_back [simp]:
  "length b \<le> WE_MAX_PAYLOAD_LEN \<Longrightarrow> we_read_bytes (we_write_bytes [] b) = Inr (b, [])"
  "length b \<le> 32 \<Longrightarrow> we_ascii b \<Longrightarrow> we_read_str (we_write_bytes [] b @ r) = Inr (b, r)"
  by (simp_all add: we_read_bytes_iff we_read_str_iff)

text \<open>The block of voice metadata as both parts write it.\<close>

definition voice_block :: "we_voice option \<Rightarrow> bytes" where
  "voice_block v = (case v of None \<Rightarrow> [0]
     | Some m \<Rightarrow> 1 # we_write_bytes [] (wv_codec m) @ le_bytes 4 (wv_duration_ms m) @ le_bytes 4 (wv_payload_length m))"

definition codec_short :: "we_voice option \<Rightarrow> bool" where
  "codec_short v \<longleftrightarrow> (case v of None \<Rightarrow> True | Some m \<Rightarrow> length (wv_codec m) \<le> 32)"

definition codec_ascii :: "we_voice option \<Rightarrow> bool" where
  "codec_ascii v \<longleftrightarrow> (case v of None \<Rightarrow> True | Some m \<Rightarrow> we_ascii (wv_codec m))"

lemma we_read_voice_sound:
  "we_read_voice b d = Inr (v, r) \<Longrightarrow> codec_short v \<and> codec_ascii v \<and> b # d = voice_block v @ r"
  by (auto simp: we_read_voice_def rd_simps voice_block_def codec_short_def codec_ascii_def split: if_splits)

lemma we_read_voice_back:
  assumes "codec_short v" "codec_ascii v"
  shows "\<exists>b d. voice_block v @ r = b # d \<and> we_read_voice b d = Inr (v, r)"
  using assms by (cases v) (simp_all add: we_read_voice_def voice_block_def codec_short_def codec_ascii_def)

lemma we_confidential_iff:
  "we_confidential_plaintext e = Inr pt \<longleftrightarrow> we_validate e = Inr () \<and> codec_ascii (we_synthetic_voice e) \<and>
     pt = [1, we_payload_u8 (we_payload_type e)] @ voice_block (we_synthetic_voice e) @ we_write_bytes [] (we_payload e)"
  by (cases "we_synthetic_voice e")
     (auto simp: we_confidential_plaintext_def rd_simps voice_block_def codec_ascii_def we_write_str_def we_write_bytes_def split: if_splits)

lemma we_validate_limits:
  "we_validate e = Inr () \<Longrightarrow> length (we_payload e) \<le> WE_MAX_PAYLOAD_LEN \<and> (we_payload_type e = WeVoice \<longrightarrow> we_synthetic_voice e \<noteq> None) \<and>
     (\<forall>i \<in> {we_conversation_id e, we_sender_user_id e, we_sender_device_id e, we_recipient_user_id e, we_recipient_device_id e, we_message_id e}.
        length i \<le> 64)"
  by (auto simp: we_validate_def Let_def WE_MAX_ID_LEN_def split: if_splits option.splits)

text \<open>The confidential part of a wire envelope. Reading a plaintext back under the authenticated fields gives an
  envelope exactly when the plaintext is what that envelope writes, its authenticated fields are those, and its codec name has
  at most 32 bytes; so nothing else is accepted and nothing of the envelope is lost.\<close>

theorem wire_confidential_iff:
  "we_from_confidential_plaintext pt b = Inr e \<longleftrightarrow>
     we_confidential_plaintext e = Inr pt \<and> we_binding.truncate e = b \<and> codec_short (we_synthetic_voice e)"
proof
  assume a: "we_from_confidential_plaintext pt b = Inr e"
  then obtain t h d v d' p where pt: "pt = 1 # we_payload_u8 t # h # d" "we_read_voice h d = Inr (v, d')" "d' = we_write_bytes [] p"
    and e: "e = we_binding.extend b (we_envelope.fields t v p)" "we_validate e = Inr ()"
    by (auto simp: we_from_confidential_plaintext_def rd_simps Let_def split: if_splits)
  from we_read_voice_sound [OF pt(2)] show "we_confidential_plaintext e = Inr pt \<and> we_binding.truncate e = b \<and> codec_short (we_synthetic_voice e)"
    using pt e by (simp add: we_confidential_iff we_binding.defs we_envelope.defs)
next
  let ?v = "we_synthetic_voice e" and ?p = "we_write_bytes [] (we_payload e)"
  assume a: "we_confidential_plaintext e = Inr pt \<and> we_binding.truncate e = b \<and> codec_short ?v"
  then have c: "we_validate e = Inr ()" "codec_ascii ?v" "pt = [1, we_payload_u8 (we_payload_type e)] @ voice_block ?v @ ?p"
    by (simp_all add: we_confidential_iff)
  obtain h d where v: "voice_block ?v @ ?p = h # d" "we_read_voice h d = Inr (?v, ?p)"
    using we_read_voice_back [of ?v ?p] a c(2) by blast
  have "we_binding.extend b (we_envelope.fields (we_payload_type e) ?v (we_payload e)) = e"
    using a by (auto simp: we_binding.defs we_envelope.defs)
  then show "we_from_confidential_plaintext pt b = Inr e"
    using c v we_validate_limits [OF c(1)] by (simp add: we_from_confidential_plaintext_def Let_def)
qed

subsection \<open>The authenticated part\<close>

lemma we_write_bytes_cancel:
  assumes "length a < 2 ^ 32" "length b < 2 ^ 32"
  shows "we_write_bytes [] a @ x = we_write_bytes [] b @ y \<longleftrightarrow> a = b \<and> x = y"
proof
  assume e: "we_write_bytes [] a @ x = we_write_bytes [] b @ y"
  then have "take_vec () (we_write_bytes [] a @ x) = take_vec () (we_write_bytes [] b @ y)" by simp
  then show "a = b \<and> x = y" using assms by (simp add: we_write_bytes_def put_vec_def [symmetric] fits32_def flip: append_assoc)
qed simp

lemma we_enums_inj:
  shows "we_version_u8 v = we_version_u8 v' \<Longrightarrow> v = v'" and "we_suite_u16 s = we_suite_u16 s' \<Longrightarrow> s = s'"
    and "we_message_u8 m = we_message_u8 m' \<Longrightarrow> m = m'" and "we_payload_u8 t = we_payload_u8 t' \<Longrightarrow> t = t'"
  subgoal by (cases v; cases v') simp
  subgoal by (cases s; cases s') simp
  subgoal by (cases m; cases m') simp_all
  subgoal by (cases t; cases t') simp_all
  done

lemma voice_block_inj:
  assumes "voice_block v = voice_block v'" "\<forall>m. v = Some m \<or> v' = Some m \<longrightarrow> length (wv_codec m) < 2 ^ 32"
  shows "v = v'"
proof (cases v; cases v')
  fix m m' assume "v = Some m" "v' = Some m'"
  moreover from this have "length (wv_codec m) < 2 ^ 32" "length (wv_codec m') < 2 ^ 32" using assms(2) by blast+
  ultimately show ?thesis using assms(1) we_write_bytes_cancel [of "wv_codec m" "wv_codec m'" "[]" "[]"] by (auto simp: voice_block_def intro: we_voice.equality)
qed (use assms in \<open>auto simp: voice_block_def\<close>)

lemma we_associated_data_eq:
  "codec_ascii (we_synthetic_voice e) \<Longrightarrow> we_associated_data e =
     we_version_u8 (we_version e) # le_bytes 2 (we_suite_u16 (we_suite e)) @ we_write_bytes [] (we_conversation_id e) @
     we_write_bytes [] (we_sender_user_id e) @ we_write_bytes [] (we_sender_device_id e) @ we_write_bytes [] (we_recipient_user_id e) @
     we_write_bytes [] (we_recipient_device_id e) @ we_write_bytes [] (we_message_id e) @
     we_message_u8 (we_message_type e) # le_bytes 8 (we_sequence e) @ le_bytes 8 (we_timestamp e) @
     we_payload_u8 (we_payload_type e) # voice_block (we_synthetic_voice e)"
  by (cases "we_synthetic_voice e")
     (simp_all add: we_associated_data_def Let_def codec_ascii_def we_write_str_def we_write_bytes_def voice_block_def)

text \<open>The authenticated bytes of two valid envelopes with ASCII codec names differ as soon as any field but the
  payload does.\<close>

theorem wire_associated_data_binds:
  assumes "we_validate e = Inr ()" "we_validate e' = Inr ()" "codec_ascii (we_synthetic_voice e)" "codec_ascii (we_synthetic_voice e')"
    and "\<forall>m. we_synthetic_voice e = Some m \<or> we_synthetic_voice e' = Some m \<longrightarrow> length (wv_codec m) < 2 ^ 32"
    and "we_associated_data e = we_associated_data e'"
  shows "e\<lparr>we_payload := []\<rparr> = e'\<lparr>we_payload := []\<rparr>"
proof -
  have b: "length i \<le> 64 \<Longrightarrow> length i < 2 ^ 32" for i :: bytes by simp
  have l: "length (we_conversation_id e) < 2 ^ 32" "length (we_conversation_id e') < 2 ^ 32"
    "length (we_sender_user_id e) < 2 ^ 32" "length (we_sender_user_id e') < 2 ^ 32"
    "length (we_sender_device_id e) < 2 ^ 32" "length (we_sender_device_id e') < 2 ^ 32"
    "length (we_recipient_user_id e) < 2 ^ 32" "length (we_recipient_user_id e') < 2 ^ 32"
    "length (we_recipient_device_id e) < 2 ^ 32" "length (we_recipient_device_id e') < 2 ^ 32"
    "length (we_message_id e) < 2 ^ 32" "length (we_message_id e') < 2 ^ 32"
    using we_validate_limits [OF assms(1)] we_validate_limits [OF assms(2)] by (auto intro!: b)
  show ?thesis
    using assms(6) voice_block_inj [OF _ assms(5)]
    by (auto simp: we_associated_data_eq assms(3,4) we_write_bytes_cancel [OF l(1,2)] we_write_bytes_cancel [OF l(3,4)]
        we_write_bytes_cancel [OF l(5,6)] we_write_bytes_cancel [OF l(7,8)] we_write_bytes_cancel [OF l(9,10)] we_write_bytes_cancel [OF l(11,12)]
        dest!: we_enums_inj intro!: we_envelope.equality)
qed

text \<open>Without that condition the codec name is not bound at all: validation accepts a non-ASCII name on any
  envelope that is not a voice message, and then the name is left out of the authenticated bytes.\<close>

theorem wire_codec_not_bound:
  assumes "\<not> we_ascii c" "\<not> we_ascii c'" "we_payload_type e \<noteq> WeVoice" "we_validate e = Inr ()"
  shows "we_validate (e\<lparr>we_synthetic_voice := Some (m\<lparr>wv_codec := c\<rparr>)\<rparr>) = Inr () \<and>
    we_associated_data (e\<lparr>we_synthetic_voice := Some (m\<lparr>wv_codec := c\<rparr>)\<rparr>) =
      we_associated_data (e\<lparr>we_synthetic_voice := Some (m\<lparr>wv_codec := c'\<rparr>)\<rparr>) \<and>
    we_confidential_plaintext (e\<lparr>we_synthetic_voice := Some (m\<lparr>wv_codec := c\<rparr>)\<rparr>) = Inl WeInvalidUtf8"
  using assms
  by (auto simp: we_validate_def we_associated_data_def Let_def we_write_str_def we_confidential_plaintext_def split: if_splits)

end
