(* ===== verification/Spec2Isabelle.thy ===== *)
theory Spec2Isabelle
  imports VC_Sesame VC_Ffi_Props VC_Engine_Talk VC_Engine_Durable VC_Engine_Image VC_Engine_Rng VC_Triple_Props VC_Braid_Live VC_Rs_Props VC_Mlkem_Props VC_HeaderEncrypt VC_Spqr VC_Scka VC_Policy VC_Padding VC_Ratchet_Sync VC_Storage VC_Replay VC_Envelope VC_Wire_Envelope VC_Fingerprint
    VC_Xeddsa VC_Prekeys VC_Pqxdh VC_Session
begin

text \<open>
  \<^bold>\<open>Verification of dycrpt, an end-to-end encrypted messaging core.\<close>

  The program (Rust, crate root \<^verbatim>\<open>src/src\<close>) is a messaging engine in layers. Primitives wrap external
  cryptography. Prekeys and PQXDH let two devices agree on a secret while one is offline. A ratchet
  turns the secret into a key per message: the Double Ratchet, a variant that encrypts the headers,
  or the Triple Ratchet, which adds a sparse post-quantum ratchet. The engine joins them with
  padding, replay protection, trust records and transactional storage behind an application
  interface, which foreign code reaches through a C interface of handles and buffers. Beside it stand a session manager
  for users with several devices, the Sesame sending and receiving procedure, the application envelope and the
  erasure-coded ML-KEM Braid.

  Paths below are relative to \<^verbatim>\<open>src/src\<close>.

  \<^bold>\<open>1. How the code is modelled.\<close>

  \<^item> Integers keep their width: \<open>u8\<close> to \<open>u64\<close> are words and \<open>+\<close> wraps; where the source uses checked
    arithmetic or may panic, the test is written out. \<open>usize\<close> lengths and counters are \<open>nat\<close>. \<open>[u8; N]\<close> and
    \<open>Vec<u8>\<close> are both lists of bytes; the length of an array is part of the invariants.
  \<^item> A function that returns \<open>Result\<close> returns \<open>error + value\<close> with the error enum of its module; a method
    on \<open>&mut self\<close> also returns the state it leaves, on the error branches too, so that what a failed call
    changes is visible. A possible panic, or a loop that need not end, is an \<open>option\<close> around the result
    whose \<open>None\<close> is that outcome; the theorems state when it cannot occur.
  \<^item> External crates (curve and scalar arithmetic, HKDF, HMAC, SHA, AES-256-GCM, ML-KEM) are the
    fields of the record \<open>crypto\<close>, an argument of every definition that uses them. The hypotheses on them
    are documented laws only: output lengths, commuting Diffie-Hellman, decapsulation of an
    encapsulation, opening of a sealed text, the group laws, and that a sealed text opens only under its
    own key where authenticity is needed. The theorems on the Braid also assume that the external ML-KEM crate
    decapsulates what the two-part encapsulation of \<^verbatim>\<open>primitives/mlkem_inc.rs\<close> produces (\<open>kem_fips203\<close>), as the tests of the
    repository check; the arithmetic of that file has theorems of its own, which do not use the law. The laws describe
    the crates within their limits: a plaintext that AES-256-GCM would refuse for its length and the
    negligible decapsulation failure of ML-KEM are left out. \<open>VC_Instance\<close> gives one concrete value that meets all of them, on
    which the witnesses run. Nothing here is about secrecy.
  \<^item> Randomness is drawn from an explicit tape, returned with what is left of it; a fallible generator is an
    error branch. The Cargo features that select profiles are a record, the clock is an argument.
  \<^item> A \<open>HashMap\<close> is an association list or a map; where the code iterates over one the model goes through it in
    insertion order, and the properties do not depend on the order.
  \<^item> What a call of the C interface may touch of foreign memory is a record: the handle, a fixed-size buffer,
    an output buffer and its length. A null pointer is \<open>None\<close>; the registry of engines is process state and its
    Mutex is the flag that it is poisoned.
  \<^item> Loops bounded by data are recursive functions, and there is no fuel. Rejection sampling in
    \<^verbatim>\<open>primitives/mlkem_inc.rs\<close> has no bound: it is a partial function that is proved to return as soon as its
    stream has held 256 acceptable candidates. The exchange driver of the Braid has a bound on
    its rounds in the source; 44 rounds are proved to yield a key.

  \<^bold>\<open>2. Theories.\<close>

  Foundations.
  \<^item> \<open>VC_Prelude\<close>: words, byte strings, big- and little-endian integers, readers with a position, the locales for
    codecs and canonical codecs, and the collections of simplification rules.
  \<^item> \<open>VC_Primitives\<close> (\<^verbatim>\<open>primitives/\<close>: \<^verbatim>\<open>error\<close>, \<^verbatim>\<open>random\<close>, \<^verbatim>\<open>x25519\<close>, \<^verbatim>\<open>kdf\<close>, \<^verbatim>\<open>aead\<close>, \<^verbatim>\<open>kem\<close>, \<^verbatim>\<open>encoding\<close>, \<^verbatim>\<open>zeroizing\<close>) and
    \<open>VC_Instance\<close>, the concrete instance.
  \<^item> \<open>VC_Xeddsa\<close> (\<^verbatim>\<open>primitives/xeddsa.rs\<close>): a signature verifies under its public key.

  Key agreement.
  \<^item> \<open>VC_Prekeys\<close> (\<^verbatim>\<open>prekeys/mod.rs\<close>, \<^verbatim>\<open>identity\<close>): identity keys, bundles, the prekey store; a decoded bundle is
    authentic, a consumed one-time key never comes back.
  \<^item> \<open>VC_Pqxdh\<close> (\<^verbatim>\<open>pqxdh/mod.rs\<close>): both sides derive the same secret and associated data.
  \<^item> \<open>VC_Policy\<close> (\<^verbatim>\<open>policy.rs\<close>): versions, profiles and what the build permits.

  Ratchets.
  \<^item> \<open>VC_Ratchet\<close>, \<open>VC_Ratchet_Props\<close>, \<open>VC_Ratchet_Codec\<close>, \<open>VC_Ratchet_Sync\<close> (\<^verbatim>\<open>ratchet/mod.rs\<close>): the state and its
    operations; the invariant, the frame and bound lemmas; persistence; two parties over a network that
    delays, reorders, loses and injects, with restarts, as an inductive step relation. Every
    authentic message in range is decrypted; the outcome of every decryption is stated exactly; memory is bounded.
  \<^item> \<open>VC_HeaderEncrypt\<close> (\<^verbatim>\<open>ratchet/header_encrypt/mod.rs\<close>): the same for encrypted headers, where
    the key that opens a header selects the chain.
  \<^item> \<open>VC_Spqr\<close> (\<^verbatim>\<open>ratchet/spqr/mod.rs\<close>) and \<open>VC_Scka\<close> (\<^verbatim>\<open>ratchet/scka.rs\<close>): the epoch ratchet and the ping-pong key
    agreement that feeds it.
  \<^item> \<open>VC_Triple\<close>, \<open>VC_Triple_Props\<close> (\<^verbatim>\<open>ratchet/triple/mod.rs\<close>): the composition of the three; a conversation by
    turns is understood across all epochs, a decryption succeeds exactly when the classical key and the
    post-quantum key of its epoch open the message and otherwise changes nothing, and the second of two messages sent in a
    row after a completed exchange is lost.

  The Braid.
  \<^item> \<open>VC_Rs\<close>, \<open>VC_GF\<close>, \<open>VC_Rs_Props\<close> (\<^verbatim>\<open>ratchet/braid/rs.rs\<close>): the arithmetic is the field with 65536 elements, and any
    sufficiently large set of distinct chunks gives the message back.
  \<^item> \<open>VC_Mlkem_Inc\<close>, \<open>VC_Ntt\<close>, \<open>VC_Mlkem_Props\<close> (\<^verbatim>\<open>primitives/mlkem_inc.rs\<close>): encapsulation in two parts; the transform
    computes the product of polynomials, packing and compression, sampling, sizes.
  \<^item> \<open>VC_Braid\<close>, \<open>VC_Braid_Codec\<close>, \<open>VC_Braid_Props\<close>, \<open>VC_Braid_Sync\<close>, \<open>VC_Braid_Live\<close> (\<^verbatim>\<open>ratchet/braid/mod.rs\<close>, \<^verbatim>\<open>auth.rs\<close>): the
    eleven agent states, the codecs, the locale of the erasure code the agents rely on (interpreted on
    \<open>VC_Rs\<close>), the invariant of two agents over a network that loses, repeats and reorders, agreement of the
    published keys, and progress.

  Local state.
  \<^item> \<open>VC_Storage\<close> (\<^verbatim>\<open>storage/\<close>): the storage trait as a locale, the in-memory store as its interpretation, the
    rollback guard and the monotonic counter.
  \<^item> \<open>VC_Replay\<close> (\<^verbatim>\<open>replay/mod.rs\<close>): the cache refines a sliding window.
  \<^item> \<open>VC_Padding\<close> (\<^verbatim>\<open>padding/mod.rs\<close>), \<open>VC_Envelope\<close> (\<^verbatim>\<open>envelope/mod.rs\<close>): padding is undone; the envelope format is
    canonical and its associated data binds the metadata. \<open>VC_Wire_Envelope\<close> (\<^verbatim>\<open>wire/envelope.rs\<close>, a draft that \<^verbatim>\<open>lib.rs\<close>
    does not declare): the confidential part is read back exactly when it was written, and the authenticated
    part binds the rest up to non-ASCII codec names.
  \<^item> \<open>VC_Fingerprint\<close> (\<^verbatim>\<open>fingerprint/mod.rs\<close>): safety numbers, identity changes, and the exact verdict of the trust store
    after any history of sightings and acknowledgements.

  Sessions and engine.
  \<^item> \<open>VC_Session\<close> (\<^verbatim>\<open>session/mod.rs\<close>): users, devices and sessions; the limits are invariants, a changed identity
    blocks new sessions on every device, and the quota of initiating sessions is only given back by a confirmation.
  \<^item> \<open>VC_Sesame\<close> (\<^verbatim>\<open>session/sesame.rs\<close>, \<^verbatim>\<open>session/mailbox.rs\<close>): the directory trait as the locale \<open>mailbox_laws\<close>, interpreted on
    the in-memory directory; delivery between nodes in any state, a bound on the transmissions of a message counted in a log of the
    directory, and what one bad envelope costs.
  \<^item> \<open>VC_Engine\<close>, \<open>VC_Engine_Codec\<close>, \<open>VC_Engine_Props\<close>, \<open>VC_Engine_Handshake\<close> (\<^verbatim>\<open>engine/mod.rs\<close>): the record
    \<open>engine\<close> and every operation of the application interface over it; wire formats; the engine invariant;
    first contact between two engines in each of the three profiles.
  \<^item> \<open>VC_Engine_Image\<close>, \<open>VC_Engine_Durable\<close>: the engine as a transition system over all outcomes of all its operations and
    crashes, beside the image of what has been committed. The storage always holds the image and a reload returns to it. Memory may be
    ahead of it: a failed call can leave a trust record, a session or fresh prekeys in memory only, and
    wiping the storage leaves the memory as it is; without such calls the storage holds all that is in memory. Decryption is
    atomic, and neither a message nor an initiation with a one-time key is accepted twice.
  \<^item> \<open>VC_Engine_Rng\<close>: what a decryption delivers does not depend on the random generator.
  \<^item> \<open>VC_Engine_Talk\<close>: a whole conversation of two engines of the classical profile, from first contact on, over a network
    that loses, reorders and injects, with other sessions, refused calls and crashes in between. It refines the
    two-party system of \<open>VC_Ratchet_Sync\<close>, and the replay cache never rejects a message still in transit.
  \<^item> \<open>VC_Ffi\<close>, \<open>VC_Ffi_Props\<close> (\<^verbatim>\<open>ffi/mod.rs\<close>): the registry and every exported function; size queries commit nothing and the
    announced sizes suffice, first contact works through buffers, calls stay inside their buffers (with the sizes of the
    header file: 32 bytes for a key, 16 for a session identifier) and their engine, and a destroyed handle is never valid again.

  \<^bold>\<open>3. How the theories are composed.\<close>

  The engine calls prekeys, PQXDH, a ratchet of the profile, padding, replay cache, trust store and
  storage; its theorems rest on those of the components: the handshake theorem on the agreement of
  PQXDH and on the first message of each ratchet, durability on the codecs of every persisted part and
  on the storage laws, single delivery on the replay window, the conversation theorem on the handshake, on durability and
  on the two-party Double Ratchet. The C interface adds buffers to the engine operations and inherits their
  theorems. The Triple Ratchet theorem rests on
  the Double Ratchet, the epoch ratchet and the key agreement; the Braid theorems on the
  erasure code and on incremental encapsulation.

  \<^bold>\<open>4. Behaviour that differs from the intention.\<close>

  Some theorems state defects of the code as it is: a voice envelope has no associated data, the
  trust store does not report a changed key, no inactive session is ever kept, the quota of
  initiating sessions leaks, the second of two messages in a row is lost when the first completes a post-quantum exchange, an initiation that uses only
  the last-resort key is accepted again, an unexpected retry request loses an inbox, and a plaintext longer than
  the buffer that the C interface asks for is lost.

  \<^bold>\<open>5. Not modelled.\<close>

  \<^item> Erasure of secrets from memory and constant time (\<^verbatim>\<open>primitives/zeroizing.rs\<close>): functions have no such behaviour
    to observe; the comparisons are modelled by their results.
  \<^item> \<^verbatim>\<open>testing/mod.rs\<close>, the fuzz targets and the parity corpus: support code for tests.
  \<^item> \<^verbatim>\<open>lib.rs\<close>, \<^verbatim>\<open>identity/mod.rs\<close>: re-exports only; \<^verbatim>\<open>primitives/signature.rs\<close> wraps the external Ed25519 crate, one
    call per function, and no other module uses it.
\<close>

end
